(* ===== verification/HV_Prelude.thy ===== *)
theory HV_Prelude
  imports Main "HOL-Library.Word" "HOL-Library.Multiset" "HOL-Library.Code_Target_Numeral"
begin

text \<open>
  Shared vocabulary of the development.

  \<^item> The outcome of a Rust call: \<open>Ok\<close>, \<open>Err\<close>, or a panic (an \<open>unwrap\<close> of an absent
    value, an index out of range, an \<open>unreachable!\<close>), so that absence of panics is a
    statement about the model and not an assumption of it.
  \<^item> The casts and the checked, wrapping and saturating arithmetic of the fixed-width
    integers that the sources use, on \<open>nat\<close> with the width written out.
  \<^item> Vector and two-level table access, \<open>Iterator::position\<close>, the early-return search
    loop, and \<open>for\<close> loops whose body may panic.
  \<^item> The locales that state the interfaces of the components: a two-level table, and a
    machine whose steps keep an invariant.
\<close>

named_theorems shape_simps \<open>operations leave the sizes of the tables unchanged\<close>
named_theorems get_simps \<open>reading a table after writing it\<close>

section \<open>Outcomes of calls\<close>

datatype ('a, 'e) result = Ok 'a | Err 'e | Panic

definition ok_or :: "'a option \<Rightarrow> 'e \<Rightarrow> ('a, 'e) result" where
  "ok_or x e = (case x of None \<Rightarrow> Err e | Some v \<Rightarrow> Ok v)"

definition result_ok :: "('a, 'e) result \<Rightarrow> 'a option" where
  "result_ok r = (case r of Ok v \<Rightarrow> Some v | _ \<Rightarrow> None)"

definition is_Ok :: "('a, 'e) result \<Rightarrow> bool" where
  "is_Ok r = (case r of Ok _ \<Rightarrow> True | _ \<Rightarrow> False)"

definition map_ok_err :: "('a \<Rightarrow> 'b) \<Rightarrow> ('e \<Rightarrow> 'f) \<Rightarrow> ('a, 'e) result \<Rightarrow> ('b, 'f) result" where
  "map_ok_err f g r = (case r of Ok v \<Rightarrow> Ok (f v) | Err e \<Rightarrow> Err (g e) | Panic \<Rightarrow> Panic)"

lemma ok_or_simps [simp]:
  "ok_or (Some v) e = Ok v"
  "ok_or None e = Err e"
  "ok_or x e = Ok v \<longleftrightarrow> x = Some v"
  "ok_or x e = Err e' \<longleftrightarrow> x = None \<and> e' = e"
  "ok_or x e \<noteq> Panic"
  by (auto simp: ok_or_def split: option.splits)

lemma result_ok_simps [simp]:
  "result_ok (Ok v) = Some v" "result_ok (Err e) = None" "result_ok Panic = None"
  "result_ok (ok_or x e) = x"
  by (auto simp: result_ok_def ok_or_def split: option.splits)

lemma is_Ok_simps [simp]:
  "is_Ok (Ok v)" "\<not> is_Ok (Err e)" "\<not> is_Ok Panic"
  by (auto simp: is_Ok_def)

lemma is_Ok_iff: "is_Ok r \<longleftrightarrow> (\<exists>v. r = Ok v)"
  by (cases r) auto

lemma map_ok_err_simps [simp]:
  "map_ok_err f g (Ok v) = Ok (f v)" "map_ok_err f g (Err e) = Err (g e)"
  "map_ok_err f g Panic = Panic"
  "map_ok_err f g r = Panic \<longleftrightarrow> r = Panic"
  by (auto simp: map_ok_err_def split: result.splits)

lemma map_ok_err_Ok_iff: "map_ok_err f g r = Ok w \<longleftrightarrow> (\<exists>v. r = Ok v \<and> w = f v)"
  by (cases r) auto

text \<open>
  The \<open>?\<close> operator in a method that holds the state \<open>s\<close>: an error or a panic ends the call
  with the state it has reached. \<open>or_panic\<close> is \<open>unwrap\<close> (or an indexing) whose success
  yields the next state.
\<close>

definition propagate ::
  "('a, 'e) result \<Rightarrow> 's \<Rightarrow> ('a \<Rightarrow> ('b, 'e) result \<times> 's) \<Rightarrow> ('b, 'e) result \<times> 's" where
  "propagate r s k = (case r of Ok v \<Rightarrow> k v | Err e \<Rightarrow> (Err e, s) | Panic \<Rightarrow> (Panic, s))"

definition or_panic ::
  "'s \<Rightarrow> 'x option \<Rightarrow> ('x \<Rightarrow> ('b, 'e) result \<times> 's) \<Rightarrow> ('b, 'e) result \<times> 's" where
  "or_panic s x k = (case x of None \<Rightarrow> (Panic, s) | Some y \<Rightarrow> k y)"

lemma propagate_simps [simp]:
  "propagate (Ok v) s k = k v" "propagate (Err e) s k = (Err e, s)"
  "propagate Panic s k = (Panic, s)"
  by (simp_all add: propagate_def)

lemma or_panic_simps [simp]: "or_panic s (Some y) k = k y" "or_panic s None k = (Panic, s)"
  by (simp_all add: or_panic_def)

lemma propagate_ok_or [simp]:
  "propagate (ok_or x e) s k = (case x of None \<Rightarrow> (Err e, s) | Some v \<Rightarrow> k v)"
  by (auto simp: propagate_def ok_or_def split: option.splits)

lemma propagate_eq_Ok [simp]:
  "propagate r s k = (Ok v, s') \<longleftrightarrow> (\<exists>x. r = Ok x \<and> k x = (Ok v, s'))"
  by (cases r) auto

lemma or_panic_eq_Ok [simp]:
  "or_panic s x k = (Ok v, s') \<longleftrightarrow> (\<exists>y. x = Some y \<and> k y = (Ok v, s'))"
  by (cases x) auto

lemma propagate_split:
  "P (propagate r s k) \<longleftrightarrow>
     (\<forall>v. r = Ok v \<longrightarrow> P (k v)) \<and> (\<forall>e. r = Err e \<longrightarrow> P (Err e, s)) \<and> (r = Panic \<longrightarrow> P (Panic, s))"
  by (cases r) auto

lemma or_panic_split:
  "P (or_panic s x k) \<longleftrightarrow> (\<forall>y. x = Some y \<longrightarrow> P (k y)) \<and> (x = None \<longrightarrow> P (Panic, s))"
  by (cases x) auto

text \<open>
  What every operation of a subsystem promises under the invariant \<open>I\<close>: it does not panic, it
  keeps the invariant, and a refusal leaves the state as it was.
\<close>

definition well_behaved :: "('s \<Rightarrow> bool) \<Rightarrow> 's \<Rightarrow> ('a, 'e) result \<times> 's \<Rightarrow> bool" where
  "well_behaved I s rs \<longleftrightarrow> I (snd rs) \<and> fst rs \<noteq> Panic \<and> (\<forall>e. fst rs = Err e \<longrightarrow> snd rs = s)"

named_theorems wb_intros \<open>introduction rules for well-behaved calls\<close>

lemma wb_propagate [wb_intros]:
  "I s \<Longrightarrow> r \<noteq> Panic \<Longrightarrow> (\<And>v. r = Ok v \<Longrightarrow> well_behaved I s (k v)) \<Longrightarrow>
   well_behaved I s (propagate r s k)"
  by (cases r) (auto simp: well_behaved_def)

lemma wb_or_panic [wb_intros]:
  "x \<noteq> None \<Longrightarrow> (\<And>y. x = Some y \<Longrightarrow> well_behaved I s (k y)) \<Longrightarrow>
   well_behaved I s (or_panic s' x k)"
  by (cases x) auto

lemma wb_Ok [wb_intros]: "I s' \<Longrightarrow> well_behaved I s (Ok v, s')"
  by (simp add: well_behaved_def)

lemma wb_Err [wb_intros]: "I s \<Longrightarrow> well_behaved I s (Err e, s)"
  by (simp add: well_behaved_def)

lemma wb_if [wb_intros]:
  "(b \<Longrightarrow> well_behaved I s x) \<Longrightarrow> (\<not> b \<Longrightarrow> well_behaved I s y) \<Longrightarrow>
   well_behaved I s (if b then x else y)"
  by simp

lemma wb_apfst: "well_behaved I s x \<Longrightarrow> well_behaved I s (apfst (map_ok_err f g) x)"
  by (cases x; cases "fst x") (auto simp: well_behaved_def)

lemma well_behavedD:
  assumes "well_behaved I s (r, s')"
  shows "I s'" "r \<noteq> Panic" "r = Err e \<Longrightarrow> s' = s"
  using assms by (auto simp: well_behaved_def)

section \<open>Identifiers\<close>

type_synonym DomId = nat
type_synonym Port = nat
type_synonym Vcpu = nat
type_synonym Virq = nat
type_synonym Pcpu = nat
type_synonym GrantRef = nat
type_synonym GrantHandle = nat
type_synonym Mfn = nat
type_synonym DevId = nat
type_synonym Ticks = nat

section \<open>Fixed-width integers\<close>

text \<open>
  Identifiers and counters are \<open>nat\<close>. The casts \<open>as u16\<close> and \<open>as u32\<close> truncate; checked
  additions fail above the maximum; saturating additions and products stop at it. Rust's
  \<open>saturating_sub\<close> is subtraction on \<open>nat\<close>.
\<close>

abbreviation u16_size :: nat where "u16_size \<equiv> 65536"
abbreviation u32_size :: nat where "u32_size \<equiv> 4294967296"
abbreviation u32_max :: nat where "u32_max \<equiv> 4294967295"
abbreviation u64_max :: nat where "u64_max \<equiv> 18446744073709551615"
abbreviation u128_max :: nat where "u128_max \<equiv> 340282366920938463463374607431768211455"

definition as_u16 :: "nat \<Rightarrow> nat" where "as_u16 n = n mod u16_size"
definition as_u32 :: "nat \<Rightarrow> nat" where "as_u32 n = n mod u32_size"

definition checked_inc_u32 :: "nat \<Rightarrow> nat option" where
  "checked_inc_u32 n = (if n < u32_max then Some (n + 1) else None)"

definition wrap_u32 :: "nat \<Rightarrow> nat" where "wrap_u32 n = n mod u32_size"

definition sat_add_u32 :: "nat \<Rightarrow> nat \<Rightarrow> nat" where "sat_add_u32 a b = min u32_max (a + b)"
definition sat_add_u64 :: "nat \<Rightarrow> nat \<Rightarrow> nat" where "sat_add_u64 a b = min u64_max (a + b)"
definition sat_mul_u128 :: "nat \<Rightarrow> nat \<Rightarrow> nat" where "sat_mul_u128 a b = min u128_max (a * b)"

lemma as_u16_small [simp]: "n < u16_size \<Longrightarrow> as_u16 n = n" by (simp add: as_u16_def)
lemma as_u32_small [simp]: "n < u32_size \<Longrightarrow> as_u32 n = n" by (simp add: as_u32_def)
lemma wrap_u32_small [simp]: "n < u32_size \<Longrightarrow> wrap_u32 n = n" by (simp add: wrap_u32_def)
lemma as_u16_less: "as_u16 n < u16_size" by (simp add: as_u16_def)
lemma as_u32_less: "as_u32 n < u32_size" by (simp add: as_u32_def)

lemma checked_inc_u32_Some [simp]: "checked_inc_u32 n = Some m \<longleftrightarrow> n < u32_max \<and> m = n + 1"
  by (auto simp: checked_inc_u32_def)

lemma checked_inc_u32_None [simp]: "checked_inc_u32 n = None \<longleftrightarrow> u32_max \<le> n"
  by (auto simp: checked_inc_u32_def)

section \<open>Vectors, tables and search loops\<close>

definition vec_get :: "'a list \<Rightarrow> nat \<Rightarrow> 'a option" where
  "vec_get xs i = (if i < length xs then Some (xs ! i) else None)"

lemma vec_get_Some: "vec_get xs i = Some x \<longleftrightarrow> i < length xs \<and> x = xs ! i"
  by (auto simp: vec_get_def)

lemma vec_get_None: "vec_get xs i = None \<longleftrightarrow> length xs \<le> i"
  by (auto simp: vec_get_def)

lemma vec_get_update [get_simps]:
  "vec_get (xs[i := v]) j = (if i = j \<and> j < length xs then Some v else vec_get xs j)"
  by (auto simp: vec_get_def nth_list_update)

lemma vec_get_in_set: "vec_get xs i = Some x \<Longrightarrow> x \<in> set xs"
  by (auto simp: vec_get_Some)

lemma vec_get_append:
  "vec_get (xs @ [v]) j = (if j = length xs then Some v else vec_get xs j)"
  by (auto simp: vec_get_def nth_append)

text \<open>A vector of vectors, indexed by a domain and by a slot of its table.\<close>

definition tbl_get :: "'a list list \<Rightarrow> nat \<Rightarrow> nat \<Rightarrow> 'a option" where
  "tbl_get t i j = (if i < length t \<and> j < length (t ! i) then Some (t ! i ! j) else None)"

definition tbl_set :: "'a list list \<Rightarrow> nat \<Rightarrow> nat \<Rightarrow> 'a \<Rightarrow> 'a list list" where
  "tbl_set t i j v = t[i := (t ! i)[j := v]]"

definition tbl_row_len :: "'a list list \<Rightarrow> nat \<Rightarrow> nat" where
  "tbl_row_len t i = (if i < length t then length (t ! i) else 0)"

lemma tbl_get_Some:
  "tbl_get t i j = Some v \<longleftrightarrow> i < length t \<and> j < length (t ! i) \<and> v = t ! i ! j"
  by (auto simp: tbl_get_def)

lemma tbl_get_None: "tbl_get t i j = None \<longleftrightarrow> tbl_row_len t i \<le> j"
  by (auto simp: tbl_get_def tbl_row_len_def)

lemma tbl_get_set [get_simps]:
  "tbl_get (tbl_set t i j v) i' j' =
     (if i' = i \<and> j' = j \<and> tbl_get t i j \<noteq> None then Some v else tbl_get t i' j')"
  by (auto simp: tbl_get_def tbl_set_def nth_list_update)

lemma tbl_set_shape [shape_simps, simp]:
  "length (tbl_set t i j v) = length t"
  "tbl_row_len (tbl_set t i j v) i' = tbl_row_len t i'"
  by (cases "i < length t"; cases "i = i'";
      simp add: tbl_set_def tbl_row_len_def list_update_beyond)+

lemma tbl_set_row_length [shape_simps, simp]:
  "length (tbl_set t i j v ! i') = length (t ! i')"
  by (cases "i < length t") (auto simp: tbl_set_def nth_list_update list_update_beyond)

lemma tbl_set_same: "tbl_get t i j = Some v \<Longrightarrow> tbl_set t i j v = t"
  by (simp add: tbl_get_Some tbl_set_def)

lemma tbl_get_in_range: "tbl_get t i j \<noteq> None \<longleftrightarrow> i < length t \<and> j < tbl_row_len t i"
  by (auto simp: tbl_get_def tbl_row_len_def)

text \<open>The accessor \<open>domains.get(i).ok_or(e)?.slots.get(j).ok_or(e')\<close>.\<close>

definition slot_ref :: "'a list list \<Rightarrow> nat \<Rightarrow> nat \<Rightarrow> 'e \<Rightarrow> 'e \<Rightarrow> ('a, 'e) result" where
  "slot_ref t i j bad_row bad_slot =
     (case vec_get t i of None \<Rightarrow> Err bad_row | Some row \<Rightarrow> ok_or (vec_get row j) bad_slot)"

lemma slot_ref_eq:
  "slot_ref t i j e1 e2 =
     (case tbl_get t i j of Some v \<Rightarrow> Ok v | None \<Rightarrow> Err (if i < length t then e2 else e1))"
  by (auto simp: slot_ref_def vec_get_def tbl_get_def ok_or_def)

lemma slot_ref_simps [simp]:
  "slot_ref t i j e1 e2 = Ok v \<longleftrightarrow> tbl_get t i j = Some v"
  "slot_ref t i j e1 e2 \<noteq> Panic"
  "result_ok (slot_ref t i j e1 e2) = tbl_get t i j"
  by (auto simp: slot_ref_eq split: option.splits)

text \<open>\<open>Iterator::position\<close>.\<close>

fun position :: "('a \<Rightarrow> bool) \<Rightarrow> 'a list \<Rightarrow> nat option" where
  "position P [] = None"
| "position P (x # xs) = (if P x then Some 0 else map_option Suc (position P xs))"

lemma position_Some:
  "position P xs = Some i \<longleftrightarrow> i < length xs \<and> P (xs ! i) \<and> (\<forall>j < i. \<not> P (xs ! j))"
proof (induction xs arbitrary: i)
  case (Cons x xs)
  show ?case
    by (cases i) (auto simp: Cons.IH nth_Cons' less_Suc_eq_0_disj split: if_splits)
qed simp

lemma position_None: "position P xs = None \<longleftrightarrow> (\<forall>x \<in> set xs. \<not> P x)"
  by (induction xs) auto

lemma position_SomeD:
  assumes "position P xs = Some i" shows "i < length xs" "P (xs ! i)"
  using assms by (auto simp: position_Some)

text \<open>
  A table of slots of which some are in use: reusing the first free one, and releasing one. The
  slots in use form a multiset.
\<close>

lemma reuse_slot:
  assumes "position (\<lambda>y. \<not> P y) xs = Some i" "P x"
  shows "filter_mset P (mset (xs[i := x])) = add_mset x (filter_mset P (mset xs))"
proof -
  have i: "i < length xs" "\<not> P (xs ! i)" using assms(1) by (auto dest: position_SomeD)
  then have "filter_mset P (mset xs - {#xs ! i#}) = filter_mset P (mset xs)" by (simp add: filter_diff_mset)
  with i assms(2) show ?thesis by (simp add: mset_update)
qed

lemma release_slot:
  assumes "i < length xs" "P (xs ! i)" "\<not> P x"
  shows "filter_mset P (mset xs) = add_mset (xs ! i) (filter_mset P (mset (xs[i := x])))"
proof -
  have "xs ! i \<in># mset xs" using assms(1) by simp
  then have "mset xs = add_mset (xs ! i) (mset xs - {#xs ! i#})" by simp
  then have "filter_mset P (mset xs) = add_mset (xs ! i) (filter_mset P (mset xs - {#xs ! i#}))"
    using assms(2) by (metis filter_mset_add_mset)
  then show ?thesis using assms by (simp add: mset_update)
qed

text \<open>A loop that returns the first \<open>Some\<close> its body computes.\<close>

fun find_map :: "('a \<Rightarrow> 'b option) \<Rightarrow> 'a list \<Rightarrow> 'b option" where
  "find_map f [] = None"
| "find_map f (x # xs) = (case f x of None \<Rightarrow> find_map f xs | Some y \<Rightarrow> Some y)"

lemma find_map_None: "find_map f xs = None \<longleftrightarrow> (\<forall>x \<in> set xs. f x = None)"
  by (induction xs) (auto split: option.splits)

lemma find_map_enumerate_None:
  "find_map (\<lambda>(i, x). f i x) (enumerate 0 xs) = None \<longleftrightarrow> (\<forall>i < length xs. f i (xs ! i) = None)"
  by (simp add: find_map_None all_set_conv_all_nth nth_enumerate_eq)

lemma find_map_Some_ex: "find_map f xs = Some y \<Longrightarrow> \<exists>x \<in> set xs. f x = Some y"
  by (induction xs) (auto split: option.splits)

definition or_else :: "'a option \<Rightarrow> 'a option \<Rightarrow> 'a option" where
  "or_else x y = (case x of None \<Rightarrow> y | Some v \<Rightarrow> Some v)"

lemma or_else_None [simp]: "or_else x y = None \<longleftrightarrow> x = None \<and> y = None"
  by (auto simp: or_else_def split: option.splits)

text \<open>A \<open>for\<close> loop over a state whose body may panic (\<open>None\<close>).\<close>

fun for_each :: "('a \<Rightarrow> 's \<Rightarrow> 's option) \<Rightarrow> 'a list \<Rightarrow> 's \<Rightarrow> 's option" where
  "for_each f [] s = Some s"
| "for_each f (x # xs) s = (case f x s of None \<Rightarrow> None | Some s' \<Rightarrow> for_each f xs s')"

lemma for_each_append:
  "for_each f (xs @ ys) s = (case for_each f xs s of None \<Rightarrow> None | Some s' \<Rightarrow> for_each f ys s')"
  by (induction xs arbitrary: s) (auto split: option.splits)

text \<open>The loop rule: an invariant over the elements already visited.\<close>

lemma for_each_rule:
  assumes step: "\<And>ys x zs s. xs = ys @ x # zs \<Longrightarrow> I ys s \<Longrightarrow> \<exists>s'. f x s = Some s' \<and> I (ys @ [x]) s'"
    and start: "I [] s"
  shows "\<exists>s'. for_each f xs s = Some s' \<and> I xs s'"
proof -
  have "\<exists>s'. for_each f us s = Some s' \<and> I us s'" if "xs = us @ vs" for us vs
    using that
  proof (induction us arbitrary: vs rule: rev_induct)
    case Nil
    with start show ?case by simp
  next
    case (snoc x us)
    from snoc.IH [of "x # vs"] snoc.prems obtain s' where
      s': "for_each f us s = Some s'" "I us s'" by auto
    from step [of us x vs s'] snoc.prems s'(2) obtain s'' where
      "f x s' = Some s''" "I (us @ [x]) s''" by auto
    with s' show ?case by (auto simp: for_each_append)
  qed
  from this [of xs "[]"] show ?thesis by simp
qed

lemma for_each_inv:
  assumes "\<And>x s. x \<in> set xs \<Longrightarrow> P s \<Longrightarrow> \<exists>s'. f x s = Some s' \<and> P s'" and "P s"
  shows "\<exists>s'. for_each f xs s = Some s' \<and> P s'"
  using for_each_rule [of xs "\<lambda>_ s. P s" f s] assms by auto

lemma for_upt_rule:
  assumes "\<And>k s. k < n \<Longrightarrow> I k s \<Longrightarrow> \<exists>s'. f k s = Some s' \<and> I (Suc k) s'" and "I 0 s"
  shows "\<exists>s'. for_each f [0..<n] s = Some s' \<and> I n s'"
proof -
  have "\<exists>s'. for_each f [0..<n] s = Some s' \<and> I (length [0..<n]) s'"
  proof (rule for_each_rule [where I = "\<lambda>ys s. I (length ys) s"])
    fix ys x zs s assume *: "[0..<n] = ys @ x # zs" "I (length ys) s"
    have "x = [0..<n] ! length ys" by (simp add: *(1))
    moreover have "length ys < n" using arg_cong [OF *(1), of length] by simp
    ultimately have "x = length ys" "x < n" by auto
    with assms(1) [of x s] * show "\<exists>s'. f x s = Some s' \<and> I (length (ys @ [x])) s'" by simp
  qed (use assms(2) in simp)
  then show ?thesis by simp
qed

text \<open>A safety-only version, for facts about a loop that did return.\<close>

lemma for_each_keeps:
  assumes "\<And>x s s'. x \<in> set xs \<Longrightarrow> f x s = Some s' \<Longrightarrow> P s \<Longrightarrow> P s'"
    and "for_each f xs s = Some s'" and "P s"
  shows "P s'"
  using assms by (induction xs arbitrary: s) (auto split: option.splits)

section \<open>Interfaces\<close>

text \<open>
  A two-level table of slots: what the event-channel, grant and scheduler subsystems rely on
  in their \<open>chan\<close>/\<open>chan_mut\<close>, \<open>entry\<close>/\<open>entry_mut\<close> and \<open>vcpu\<close>/\<open>vcpu_mut\<close> accessors.
\<close>

locale slot_table =
  fixes get :: "'s \<Rightarrow> nat \<Rightarrow> nat \<Rightarrow> 'v option"
    and put :: "'s \<Rightarrow> nat \<Rightarrow> nat \<Rightarrow> 'v \<Rightarrow> 's"
  assumes get_put: "get (put s i j v) i' j' =
      (if i' = i \<and> j' = j \<and> get s i j \<noteq> None then Some v else get s i' j')"
    and put_same: "get s i j = Some v \<Longrightarrow> put s i j v = s"
begin

lemma get_put_same [simp]: "get s i j \<noteq> None \<Longrightarrow> get (put s i j v) i j = Some v"
  by (simp add: get_put)

lemma get_put_other [simp]: "(i', j') \<noteq> (i, j) \<Longrightarrow> get (put s i j v) i' j' = get s i' j'"
  by (auto simp: get_put)

lemma get_put_defined: "get (put s i j v) i' j' = None \<longleftrightarrow> get s i' j' = None"
  by (auto simp: get_put)

lemma get_put_cases:
  assumes "get (put s i j v) i' j' = Some w"
  obtains (here) "i' = i" "j' = j" "w = v" "get s i j \<noteq> None"
    | (elsewhere) "(i', j') \<noteq> (i, j)" "get s i' j' = Some w"
  using assms by (cases "(i', j') = (i, j)") (auto simp: get_put split: if_splits)

end

text \<open>
  A machine: an initial state, a step per operation and an invariant. Every reachable state
  satisfies the invariant. The subsystems and the integrated hypervisor all interpret it.
\<close>

locale machine =
  fixes start :: "'s \<Rightarrow> bool"
    and step :: "'s \<Rightarrow> 'op \<Rightarrow> 's"
    and inv :: "'s \<Rightarrow> bool"
  assumes start_inv: "start s \<Longrightarrow> inv s"
    and step_inv: "inv s \<Longrightarrow> inv (step s a)"
begin

inductive reachable :: "'s \<Rightarrow> bool" where
  reach_start: "start s \<Longrightarrow> reachable s"
| reach_step: "reachable s \<Longrightarrow> reachable (step s a)"

lemma reachable_inv: "reachable s \<Longrightarrow> inv s"
  by (induction rule: reachable.induct) (auto intro: start_inv step_inv)

lemma run_inv: "inv s \<Longrightarrow> inv (fold (\<lambda>a s. step s a) as s)"
  by (induction as arbitrary: s) (auto intro: step_inv)

lemma run_reachable: "reachable s \<Longrightarrow> reachable (fold (\<lambda>a s. step s a) as s)"
  by (induction as arbitrary: s) (auto intro: reach_step)

end

text \<open>A machine whose refused operations change nothing.\<close>

locale refusing_machine = machine start step inv
  for start :: "'s \<Rightarrow> bool" and step :: "'s \<Rightarrow> 'op \<Rightarrow> 's" and inv :: "'s \<Rightarrow> bool" +
  fixes accepts :: "'s \<Rightarrow> 'op \<Rightarrow> bool"
  assumes refuse: "inv s \<Longrightarrow> \<not> accepts s a \<Longrightarrow> step s a = s"
begin

lemma run_refused:
  assumes "inv s" and "\<And>a. a \<in> set as \<Longrightarrow> \<not> accepts s a"
  shows "fold (\<lambda>a s. step s a) as s = s"
  using assms by (induction as) (auto simp: refuse)

end

end
