(* ===== verification/Evtchn.thy ===== *)
theory Evtchn
  imports HV_Prelude
begin

text \<open>
  The event-channel subsystem, \<open>hv-core/src/evtchn.rs\<close>: every domain's port table, the
  transitions that bind, close, signal and mask ports, the teardown sweeps, the queries and
  the invariant check \<open>first_violation\<close>. Release semantics: \<open>debug_assert!\<close> is compiled out,
  and the lemmas show that it would never fire.
\<close>

section \<open>State\<close>

datatype PortState =
    Free
  | Unbound DomId
  | Interdomain DomId Port
  | Virq Vcpu Virq
  | Ipi Vcpu

record EventChannel =
  ec_state :: PortState
  pending :: bool
  masked :: bool

definition EC_FREE :: EventChannel where
  "EC_FREE = \<lparr>ec_state = Free, pending = False, masked = False\<rparr>"

text \<open>\<open>Domain\<close> is a struct with the one field \<open>ports\<close>; it is the row of the table here.\<close>

record EvtchnSystem =
  ev_domains :: "EventChannel list list"

datatype EvtchnError = BadDomain | BadPort | NoFreePort | WrongState | VirqInUse

datatype EvtchnViolation =
    FreePortHasSignal nat nat
  | ReciprocityBroken nat nat
  | UnboundGhostDomain nat nat
  | DuplicateVirq nat nat

definition ev_new :: "nat \<Rightarrow> nat \<Rightarrow> EvtchnSystem" where
  "ev_new num_domains ports_per_domain =
     \<lparr>ev_domains = map (\<lambda>_. map (\<lambda>_. EC_FREE) [0..<ports_per_domain]) [0..<num_domains]\<rparr>"

section \<open>Internals: access to ports\<close>

definition ev_domain :: "EvtchnSystem \<Rightarrow> DomId \<Rightarrow> (EventChannel list, EvtchnError) result" where
  "ev_domain s d = ok_or (vec_get (ev_domains s) d) BadDomain"

definition ev_chan :: "EvtchnSystem \<Rightarrow> DomId \<Rightarrow> Port \<Rightarrow> (EventChannel, EvtchnError) result" where
  "ev_chan s d port =
     (case ev_domain s d of
        Ok ports \<Rightarrow> ok_or (vec_get ports port) BadPort
      | Err e \<Rightarrow> Err e
      | Panic \<Rightarrow> Panic)"

text \<open>A write through \<open>chan_mut(dom, port)\<close>; \<open>None\<close> is the panic of its \<open>unwrap\<close>.\<close>

definition ev_put :: "EvtchnSystem \<Rightarrow> DomId \<Rightarrow> Port \<Rightarrow> EventChannel \<Rightarrow> EvtchnSystem" where
  "ev_put s d port c = s\<lparr>ev_domains := tbl_set (ev_domains s) d port c\<rparr>"

definition ev_chan_mut ::
  "EvtchnSystem \<Rightarrow> DomId \<Rightarrow> Port \<Rightarrow> (EventChannel \<Rightarrow> EventChannel) \<Rightarrow> EvtchnSystem option" where
  "ev_chan_mut s d port f =
     map_option (\<lambda>c. ev_put s d port (f c)) (result_ok (ev_chan s d port))"

definition ev_find_free :: "EvtchnSystem \<Rightarrow> DomId \<Rightarrow> (Port, EvtchnError) result" where
  "ev_find_free s d =
     (case ev_domain s d of
        Ok ports \<Rightarrow> ok_or (map_option as_u32 (position (\<lambda>c. ec_state c = Free) ports)) NoFreePort
      | Err e \<Rightarrow> Err e
      | Panic \<Rightarrow> Panic)"

section \<open>Queries\<close>

definition ev_domain_count :: "EvtchnSystem \<Rightarrow> nat" where
  "ev_domain_count s = length (ev_domains s)"

definition ev_port_count :: "EvtchnSystem \<Rightarrow> DomId \<Rightarrow> nat" where
  "ev_port_count s d = (case ev_domain s d of Ok ports \<Rightarrow> length ports | _ \<Rightarrow> 0)"

definition ev_state_of :: "EvtchnSystem \<Rightarrow> DomId \<Rightarrow> Port \<Rightarrow> PortState option" where
  "ev_state_of s d port = map_option ec_state (result_ok (ev_chan s d port))"

definition ev_deliverable :: "EvtchnSystem \<Rightarrow> DomId \<Rightarrow> Port \<Rightarrow> bool" where
  "ev_deliverable s d port =
     (case ev_chan s d port of Ok c \<Rightarrow> pending c \<and> \<not> masked c | _ \<Rightarrow> False)"

definition ev_is_pending :: "EvtchnSystem \<Rightarrow> DomId \<Rightarrow> Port \<Rightarrow> bool" where
  "ev_is_pending s d port = (case ev_chan s d port of Ok c \<Rightarrow> pending c | _ \<Rightarrow> False)"

definition ev_is_masked :: "EvtchnSystem \<Rightarrow> DomId \<Rightarrow> Port \<Rightarrow> bool" where
  "ev_is_masked s d port = (case ev_chan s d port of Ok c \<Rightarrow> masked c | _ \<Rightarrow> False)"

definition ev_notify_target :: "EvtchnSystem \<Rightarrow> DomId \<Rightarrow> Port \<Rightarrow> Vcpu option" where
  "ev_notify_target s d port =
     (case ev_state_of s d port of
        None \<Rightarrow> None
      | Some (Virq vcpu _) \<Rightarrow> Some vcpu
      | Some (Ipi vcpu) \<Rightarrow> Some vcpu
      | Some (Interdomain _ _) \<Rightarrow> Some 0
      | Some (Unbound _) \<Rightarrow> Some 0
      | Some Free \<Rightarrow> None)"

definition ev_has_deliverable_for :: "EvtchnSystem \<Rightarrow> DomId \<Rightarrow> Vcpu \<Rightarrow> bool" where
  "ev_has_deliverable_for s d vcpu =
     list_ex (\<lambda>port. ev_deliverable s d port \<and> ev_notify_target s d port = Some vcpu)
       [0..<as_u32 (ev_port_count s d)]"

definition ev_any_unbound_into :: "EvtchnSystem \<Rightarrow> DomId \<Rightarrow> bool" where
  "ev_any_unbound_into s target =
     list_ex (\<lambda>d. list_ex (\<lambda>port. ev_state_of s d port = Some (Unbound target))
                 [0..<as_u32 (ev_port_count s d)])
       [0..<as_u16 (ev_domain_count s)]"

definition ev_send_target :: "EvtchnSystem \<Rightarrow> DomId \<Rightarrow> Port \<Rightarrow> (DomId \<times> Port) option" where
  "ev_send_target s d port =
     (case ev_state_of s d port of
        Some (Interdomain remote remote_port) \<Rightarrow> Some (remote, remote_port)
      | Some (Ipi _) \<Rightarrow> Some (d, port)
      | _ \<Rightarrow> None)"

section \<open>Transitions\<close>

definition ev_alloc_unbound ::
  "EvtchnSystem \<Rightarrow> DomId \<Rightarrow> DomId \<Rightarrow> (Port, EvtchnError) result \<times> EvtchnSystem" where
  "ev_alloc_unbound s d remote =
     propagate (ev_domain s remote) s (\<lambda>_.
     propagate (ev_find_free s d) s (\<lambda>port.
     or_panic s (ev_chan_mut s d port (\<lambda>c. c\<lparr>ec_state := Unbound remote\<rparr>)) (\<lambda>s1.
     (Ok port, s1))))"

definition ev_bind_interdomain ::
  "EvtchnSystem \<Rightarrow> DomId \<Rightarrow> DomId \<Rightarrow> Port \<Rightarrow> (Port, EvtchnError) result \<times> EvtchnSystem" where
  "ev_bind_interdomain s d remote remote_port =
     propagate (ev_chan s remote remote_port) s (\<lambda>peer.
     if ec_state peer \<noteq> Unbound d then (Err WrongState, s)
     else
       propagate (ev_find_free s d) s (\<lambda>port.
       or_panic s (ev_chan_mut s d port
         (\<lambda>_. \<lparr>ec_state = Interdomain remote remote_port, pending = False, masked = False\<rparr>)) (\<lambda>s1.
       or_panic s1 (ev_chan_mut s1 remote remote_port
         (\<lambda>_. \<lparr>ec_state = Interdomain d port, pending = False, masked = False\<rparr>)) (\<lambda>s2.
       (Ok port, s2)))))"

definition ev_bind_virq ::
  "EvtchnSystem \<Rightarrow> DomId \<Rightarrow> Vcpu \<Rightarrow> Virq \<Rightarrow> (Port, EvtchnError) result \<times> EvtchnSystem" where
  "ev_bind_virq s d vcpu virq =
     propagate (ev_domain s d) s (\<lambda>ports.
     if list_ex (\<lambda>c. ec_state c = Virq vcpu virq) ports then (Err VirqInUse, s)
     else
       propagate (ev_find_free s d) s (\<lambda>port.
       or_panic s (ev_chan_mut s d port (\<lambda>c. c\<lparr>ec_state := Virq vcpu virq\<rparr>)) (\<lambda>s1.
       (Ok port, s1))))"

definition ev_bind_ipi ::
  "EvtchnSystem \<Rightarrow> DomId \<Rightarrow> Vcpu \<Rightarrow> (Port, EvtchnError) result \<times> EvtchnSystem" where
  "ev_bind_ipi s d vcpu =
     propagate (ev_find_free s d) s (\<lambda>port.
     or_panic s (ev_chan_mut s d port (\<lambda>c. c\<lparr>ec_state := Ipi vcpu\<rparr>)) (\<lambda>s1.
     (Ok port, s1)))"

text \<open>\<open>close\<close>: the peer of an interdomain port falls back to \<open>Unbound\<close>, then the port is freed.\<close>

definition ev_close ::
  "EvtchnSystem \<Rightarrow> DomId \<Rightarrow> Port \<Rightarrow> (unit, EvtchnError) result \<times> EvtchnSystem" where
  "ev_close s d port =
     propagate (ev_chan s d port) s (\<lambda>c.
     if ec_state c = Free then (Err WrongState, s)
     else
       or_panic s
         (case ec_state c of
            Interdomain remote remote_port \<Rightarrow>
              ev_chan_mut s remote remote_port
                (\<lambda>peer. peer\<lparr>ec_state := Unbound d, pending := False, masked := False\<rparr>)
          | _ \<Rightarrow> Some s) (\<lambda>s1.
       or_panic s1 (ev_chan_mut s1 d port (\<lambda>_. EC_FREE)) (\<lambda>s2.
       (Ok (), s2))))"

definition ev_send ::
  "EvtchnSystem \<Rightarrow> DomId \<Rightarrow> Port \<Rightarrow> (unit, EvtchnError) result \<times> EvtchnSystem" where
  "ev_send s d port =
     propagate (ev_chan s d port) s (\<lambda>_.
     propagate (ok_or (ev_send_target s d port) WrongState) s (\<lambda>(target_dom, target_port).
     or_panic s (ev_chan_mut s target_dom target_port (\<lambda>c. c\<lparr>pending := True\<rparr>)) (\<lambda>s1.
     (Ok (), s1))))"

definition ev_raise_virq ::
  "EvtchnSystem \<Rightarrow> DomId \<Rightarrow> Vcpu \<Rightarrow> Virq \<Rightarrow> (Port, EvtchnError) result \<times> EvtchnSystem" where
  "ev_raise_virq s d vcpu virq =
     propagate (ev_domain s d) s (\<lambda>ports.
     propagate (ok_or (map_option as_u32 (position (\<lambda>c. ec_state c = Virq vcpu virq) ports))
                  WrongState) s (\<lambda>port.
     or_panic s (ev_chan_mut s d port (\<lambda>c. c\<lparr>pending := True\<rparr>)) (\<lambda>s1.
     (Ok port, s1))))"

definition ev_set_masked ::
  "EvtchnSystem \<Rightarrow> DomId \<Rightarrow> Port \<Rightarrow> bool \<Rightarrow> (unit, EvtchnError) result \<times> EvtchnSystem" where
  "ev_set_masked s d port value =
     propagate (ev_chan s d port) s (\<lambda>c.
     if ec_state c = Free then (Err WrongState, s)
     else (Ok (), ev_put s d port (c\<lparr>masked := value\<rparr>)))"

definition ev_mask ::
  "EvtchnSystem \<Rightarrow> DomId \<Rightarrow> Port \<Rightarrow> (unit, EvtchnError) result \<times> EvtchnSystem" where
  "ev_mask s d port = ev_set_masked s d port True"

definition ev_unmask ::
  "EvtchnSystem \<Rightarrow> DomId \<Rightarrow> Port \<Rightarrow> (unit, EvtchnError) result \<times> EvtchnSystem" where
  "ev_unmask s d port = ev_set_masked s d port False"

definition ev_consume ::
  "EvtchnSystem \<Rightarrow> DomId \<Rightarrow> Port \<Rightarrow> (bool, EvtchnError) result \<times> EvtchnSystem" where
  "ev_consume s d port =
     propagate (ev_chan s d port) s (\<lambda>c.
     if ec_state c = Free then (Err WrongState, s)
     else (Ok (pending c), ev_put s d port (c\<lparr>pending := False\<rparr>)))"

section \<open>Teardown\<close>

text \<open>The result of \<open>close\<close> is only asserted in debug builds; a panic of it still unwinds.\<close>

definition ev_close_all :: "EvtchnSystem \<Rightarrow> DomId \<Rightarrow> EvtchnSystem option" where
  "ev_close_all s d =
     for_each (\<lambda>port s.
       if ev_state_of s d port \<noteq> Some Free
       then (case ev_close s d port of (Panic, _) \<Rightarrow> None | (_, s') \<Rightarrow> Some s')
       else Some s) [0..<as_u32 (ev_port_count s d)] s"

definition ev_clear_unbound_into :: "EvtchnSystem \<Rightarrow> DomId \<Rightarrow> EvtchnSystem option" where
  "ev_clear_unbound_into s target =
     for_each (\<lambda>d s.
       for_each (\<lambda>port s.
         if ev_state_of s d port = Some (Unbound target)
         then ev_chan_mut s d port (\<lambda>_. EC_FREE)
         else Some s) [0..<as_u32 (ev_port_count s d)] s) [0..<as_u16 (ev_domain_count s)] s"

section \<open>The invariant check\<close>

definition ev_port_violation ::
  "EvtchnSystem \<Rightarrow> nat \<Rightarrow> EventChannel list \<Rightarrow> nat \<Rightarrow> EventChannel \<Rightarrow> EvtchnViolation option" where
  "ev_port_violation s d ports p ec =
     (case ec_state ec of
        Free \<Rightarrow> if pending ec \<or> masked ec then Some (FreePortHasSignal d p) else None
      | Interdomain remote remote_port \<Rightarrow>
          let peer = map_option ec_state (tbl_get (ev_domains s) remote remote_port);
              reciprocal = (case peer of Some (Interdomain r q) \<Rightarrow> r = d \<and> q = p | _ \<Rightarrow> False)
          in if \<not> reciprocal then Some (ReciprocityBroken d p) else None
      | Unbound remote \<Rightarrow>
          if length (ev_domains s) \<le> remote then Some (UnboundGhostDomain d p) else None
      | Virq vcpu virq \<Rightarrow>
          if list_ex (\<lambda>(q, e). q \<noteq> p \<and> ec_state e = Virq vcpu virq) (enumerate 0 ports)
          then Some (DuplicateVirq d p) else None
      | Ipi _ \<Rightarrow> None)"

definition ev_first_violation :: "EvtchnSystem \<Rightarrow> EvtchnViolation option" where
  "ev_first_violation s =
     find_map (\<lambda>(d, ports).
       find_map (\<lambda>(p, ec). ev_port_violation s d ports p ec) (enumerate 0 ports))
       (enumerate 0 (ev_domains s))"

definition ev_invariants_hold :: "EvtchnSystem \<Rightarrow> bool" where
  "ev_invariants_hold s \<longleftrightarrow> ev_first_violation s = None"

section \<open>The invariant as a predicate\<close>

text \<open>The widths of the identifiers: the tables are indexed by \<open>u16\<close> and \<open>u32\<close>.\<close>

definition ev_fits :: "EvtchnSystem \<Rightarrow> bool" where
  "ev_fits s \<longleftrightarrow> length (ev_domains s) < u16_size \<and> (\<forall>ports \<in> set (ev_domains s). length ports < u32_size)"

definition ev_get :: "EvtchnSystem \<Rightarrow> DomId \<Rightarrow> Port \<Rightarrow> EventChannel option" where
  "ev_get s d p = tbl_get (ev_domains s) d p"

definition ev_port_ok :: "EvtchnSystem \<Rightarrow> DomId \<Rightarrow> Port \<Rightarrow> EventChannel \<Rightarrow> bool" where
  "ev_port_ok s d p c \<longleftrightarrow>
     (ec_state c = Free \<longrightarrow> \<not> pending c \<and> \<not> masked c) \<and>
     (\<forall>r q. ec_state c = Interdomain r q \<longrightarrow> ev_state_of s r q = Some (Interdomain d p)) \<and>
     (\<forall>r. ec_state c = Unbound r \<longrightarrow> r < length (ev_domains s)) \<and>
     (\<forall>v q p'. ec_state c = Virq v q \<longrightarrow> ev_state_of s d p' = Some (Virq v q) \<longrightarrow> p' = p)"

definition ev_inv :: "EvtchnSystem \<Rightarrow> bool" where
  "ev_inv s \<longleftrightarrow> (\<forall>d p c. ev_get s d p = Some c \<longrightarrow> ev_port_ok s d p c)"

text \<open>The operations as one alphabet, to speak of runs of the subsystem.\<close>

datatype EvOp =
    OpAllocUnbound DomId DomId
  | OpBindInterdomain DomId DomId Port
  | OpBindVirq DomId Vcpu Virq
  | OpBindIpi DomId Vcpu
  | OpClose DomId Port
  | OpSend DomId Port
  | OpRaiseVirq DomId Vcpu Virq
  | OpMask DomId Port
  | OpUnmask DomId Port
  | OpConsume DomId Port

fun ev_apply :: "EvtchnSystem \<Rightarrow> EvOp \<Rightarrow> (unit, EvtchnError) result \<times> EvtchnSystem" where
  "ev_apply s (OpAllocUnbound d r) = apfst (map_ok_err (\<lambda>_. ()) id) (ev_alloc_unbound s d r)"
| "ev_apply s (OpBindInterdomain d r q) = apfst (map_ok_err (\<lambda>_. ()) id) (ev_bind_interdomain s d r q)"
| "ev_apply s (OpBindVirq d v q) = apfst (map_ok_err (\<lambda>_. ()) id) (ev_bind_virq s d v q)"
| "ev_apply s (OpBindIpi d v) = apfst (map_ok_err (\<lambda>_. ()) id) (ev_bind_ipi s d v)"
| "ev_apply s (OpClose d p) = ev_close s d p"
| "ev_apply s (OpSend d p) = ev_send s d p"
| "ev_apply s (OpRaiseVirq d v q) = apfst (map_ok_err (\<lambda>_. ()) id) (ev_raise_virq s d v q)"
| "ev_apply s (OpMask d p) = ev_mask s d p"
| "ev_apply s (OpUnmask d p) = ev_unmask s d p"
| "ev_apply s (OpConsume d p) = apfst (map_ok_err (\<lambda>_. ()) id) (ev_consume s d p)"

section \<open>Access lemmas\<close>

lemma ev_put_domains [simp]:
  "ev_domains (ev_put s d p c) = tbl_set (ev_domains s) d p c"
  by (simp add: ev_put_def)

interpretation ev: slot_table ev_get ev_put
  by unfold_locales (auto simp: ev_get_def ev_put_def tbl_get_set tbl_set_same)

lemma ev_chan_eq:
  "ev_chan s d p =
     (case ev_get s d p of
        Some c \<Rightarrow> Ok c | None \<Rightarrow> Err (if d < length (ev_domains s) then BadPort else BadDomain))"
  by (auto simp: ev_chan_def ev_domain_def ev_get_def vec_get_def tbl_get_def ok_or_def)

lemma ev_chan_Ok [simp]: "ev_chan s d p = Ok c \<longleftrightarrow> ev_get s d p = Some c"
  by (auto simp: ev_chan_eq split: option.splits)

lemma ev_chan_not_Panic [simp]: "ev_chan s d p \<noteq> Panic"
  by (auto simp: ev_chan_eq split: option.splits)

lemma ev_chan_result_ok [simp]: "result_ok (ev_chan s d p) = ev_get s d p"
  by (auto simp: ev_chan_eq split: option.splits)

lemma ev_chan_mut_eq: "ev_chan_mut s d p f = map_option (\<lambda>c. ev_put s d p (f c)) (ev_get s d p)"
  by (simp add: ev_chan_mut_def)

lemma ev_state_of_eq: "ev_state_of s d p = map_option ec_state (ev_get s d p)"
  by (simp add: ev_state_of_def)

lemma ev_state_of_put:
  "ev_state_of (ev_put s d p v) d' p' =
     (if d' = d \<and> p' = p \<and> ev_get s d p \<noteq> None then Some (ec_state v) else ev_state_of s d' p')"
  by (auto simp: ev_state_of_eq ev.get_put)

lemma ev_port_count_eq: "ev_port_count s d = tbl_row_len (ev_domains s) d"
  by (auto simp: ev_port_count_def ev_domain_def vec_get_def tbl_row_len_def)

lemma ev_get_range: "ev_get s d p \<noteq> None \<longleftrightarrow> d < ev_domain_count s \<and> p < ev_port_count s d"
  unfolding ev_get_def tbl_get_in_range ev_domain_count_def ev_port_count_eq ..

lemma ev_counts_put [shape_simps, simp]:
  "ev_domain_count (ev_put s d p v) = ev_domain_count s"
  "ev_port_count (ev_put s d p v) d' = ev_port_count s d'"
  by (auto simp: ev_domain_count_def ev_port_count_eq)

lemma ev_fits_iff:
  "ev_fits s \<longleftrightarrow> ev_domain_count s < u16_size \<and> (\<forall>d. ev_port_count s d < u32_size)"
  by (auto simp: ev_fits_def ev_domain_count_def ev_port_count_eq tbl_row_len_def
      all_set_conv_all_nth)

lemma ev_fits_put [simp]: "ev_fits (ev_put s d p v) = ev_fits s"
  by (simp add: ev_fits_iff)

lemma ev_port_violation_None:
  assumes "d < length (ev_domains s)" "ports = ev_domains s ! d" "p < length ports" "ec = ports ! p"
  shows "ev_port_violation s d ports p ec = None \<longleftrightarrow> ev_port_ok s d p ec"
proof -
  have "list_ex (\<lambda>(q, e). q \<noteq> p \<and> ec_state e = st) (enumerate 0 ports) \<longleftrightarrow>
        (\<exists>q. q \<noteq> p \<and> ev_state_of s d q = Some st)" for st
    using assms(1,2)
    by (force simp: list_ex_length nth_enumerate_eq ev_state_of_eq ev_get_def tbl_get_def)
  then show ?thesis
    by (auto simp: ev_port_violation_def ev_port_ok_def ev_state_of_eq ev_get_def Let_def
        split: PortState.splits option.splits)
qed

lemma ev_first_violation_None: "ev_first_violation s = None \<longleftrightarrow> ev_inv s"
  by (auto simp: ev_first_violation_def find_map_enumerate_None ev_port_violation_None
      ev_inv_def ev_get_def tbl_get_Some)

lemma ev_invD:
  assumes "ev_inv s" "ev_get s d p = Some c"
  shows "ev_port_ok s d p c"
  using assms by (auto simp: ev_inv_def)

lemma ev_inv_peer:
  assumes "ev_inv s" "ev_state_of s d p = Some (Interdomain r q)"
  shows "ev_state_of s r q = Some (Interdomain d p)"
  using assms by (auto simp: ev_inv_def ev_port_ok_def ev_state_of_eq)

lemma ev_find_free_Ok:
  assumes "ev_fits s" "ev_find_free s d = Ok p"
  shows "\<exists>c. ev_get s d p = Some c \<and> ec_state c = Free"
proof -
  from assms(2) obtain i where i: "d < length (ev_domains s)" "p = as_u32 i"
      "position (\<lambda>c. ec_state c = Free) (ev_domains s ! d) = Some i"
    by (auto simp: ev_find_free_def ev_domain_def vec_get_def split: if_splits)
  moreover from this assms(1) have "i < u32_size"
    by (auto simp: ev_fits_def position_Some dest: order.strict_trans bspec [OF _ nth_mem])
  then have "as_u32 i = i" by simp
  ultimately show ?thesis by (auto simp: ev_get_def tbl_get_def position_Some)
qed

lemma ev_find_free_not_Panic [simp]: "ev_find_free s d \<noteq> Panic"
  by (auto simp: ev_find_free_def ev_domain_def vec_get_def split: if_splits)

lemma ev_domain_not_Panic [simp]: "ev_domain s d \<noteq> Panic"
  by (auto simp: ev_domain_def)

lemma ev_domain_Ok: "ev_domain s d = Ok ports \<longleftrightarrow> d < ev_domain_count s \<and> ports = ev_domains s ! d"
  by (auto simp: ev_domain_def vec_get_Some ev_domain_count_def)

section \<open>Single writes keep the invariant\<close>

lemma ev_inv_signal:
  assumes "ev_inv s" "ev_get s d p = Some c" "ec_state v = ec_state c" "ec_state c \<noteq> Free"
  shows "ev_inv (ev_put s d p v)"
proof -
  have st: "ev_state_of (ev_put s d p v) = ev_state_of s"
    using assms by (intro ext) (auto simp: ev_state_of_eq ev.get_put)
  show ?thesis
    unfolding ev_inv_def
  proof (intro allI impI)
    fix d' p' e
    assume "ev_get (ev_put s d p v) d' p' = Some e"
    then obtain e' where e': "ev_get s d' p' = Some e'" "ec_state e' = ec_state e"
        "ec_state e = Free \<longrightarrow> e = e'"
      using assms by (auto simp: ev.get_put split: if_splits)
    with assms(1) have "ev_port_ok s d' p' e'" by (auto dest: ev_invD)
    with e' st show "ev_port_ok (ev_put s d p v) d' p' e" by (simp add: ev_port_ok_def)
  qed
qed

lemma ev_inv_rebind:
  assumes inv: "ev_inv s" and c: "ev_get s d p = Some c"
    and unlinked: "\<And>r q. ec_state c \<noteq> Interdomain r q" "\<And>r q. ec_state v \<noteq> Interdomain r q"
    and free: "ec_state v = Free \<Longrightarrow> \<not> pending v \<and> \<not> masked v"
    and ghost: "\<And>r. ec_state v = Unbound r \<Longrightarrow> r < ev_domain_count s"
    and virq: "\<And>w q p'. ec_state v = Virq w q \<Longrightarrow> p' \<noteq> p \<Longrightarrow> ev_state_of s d p' \<noteq> Some (Virq w q)"
  shows "ev_inv (ev_put s d p v)"
  unfolding ev_inv_def
proof (intro allI impI)
  fix d' p' e
  assume e: "ev_get (ev_put s d p v) d' p' = Some e"
  show "ev_port_ok (ev_put s d p v) d' p' e"
  proof (cases "(d', p') = (d, p)")
    case True
    with e c have "e = v" by (auto simp: ev.get_put)
    with True c unlinked(2) free ghost virq show ?thesis
      by (auto simp: ev_port_ok_def ev_state_of_put ev_domain_count_def)
  next
    case False
    with e have e': "ev_get s d' p' = Some e" by (auto simp: ev.get_put)
    with inv have ok: "ev_port_ok s d' p' e" by (rule ev_invD)
    have "ev_state_of (ev_put s d p v) r q = Some (Interdomain d' p')"
      if "ec_state e = Interdomain r q" for r q
    proof -
      from ok that have "ev_state_of s r q = Some (Interdomain d' p')" by (simp add: ev_port_ok_def)
      with c unlinked(1) show ?thesis by (auto simp: ev.get_put ev_state_of_eq)
    qed
    moreover have "p'' = p'"
      if "ec_state e = Virq w q" "ev_state_of (ev_put s d p v) d' p'' = Some (Virq w q)" for w q p''
    proof (cases "(d', p'') = (d, p)")
      case True
      with that(2) c have "ec_state v = Virq w q" by (simp add: ev_state_of_put)
      with virq [of w q p'] True False e' that(1) show ?thesis by (auto simp: ev_state_of_eq)
    next
      case False
      with that ok show ?thesis by (auto simp: ev_port_ok_def ev_state_of_put)
    qed
    ultimately show ?thesis using ok by (auto simp: ev_port_ok_def)
  qed
qed

section \<open>Every transition is well behaved\<close>

definition ev_ok :: "EvtchnSystem \<Rightarrow> bool" where
  "ev_ok s \<longleftrightarrow> ev_fits s \<and> ev_inv s"

lemma ev_okD [dest]: "ev_ok s \<Longrightarrow> ev_fits s" "ev_ok s \<Longrightarrow> ev_inv s"
  by (auto simp: ev_ok_def)

lemma ev_chan_mut_None [simp]: "ev_chan_mut s d p f = None \<longleftrightarrow> ev_get s d p = None"
  by (simp add: ev_chan_mut_eq)

lemma ev_chan_mut_Some:
  "ev_chan_mut s d p f = Some s' \<longleftrightarrow> (\<exists>c. ev_get s d p = Some c \<and> s' = ev_put s d p (f c))"
  by (auto simp: ev_chan_mut_eq)

lemma ev_ok_rebind:
  assumes "ev_ok s" "ev_get s d p = Some c"
    and "\<And>r q. ec_state c \<noteq> Interdomain r q" "\<And>r q. ec_state v \<noteq> Interdomain r q"
    and "ec_state v = Free \<Longrightarrow> \<not> pending v \<and> \<not> masked v"
    and "\<And>r. ec_state v = Unbound r \<Longrightarrow> r < ev_domain_count s"
    and "\<And>w q p'. ec_state v = Virq w q \<Longrightarrow> p' \<noteq> p \<Longrightarrow> ev_state_of s d p' \<noteq> Some (Virq w q)"
  shows "ev_ok (ev_put s d p v)"
  using assms ev_inv_rebind [of s d p c v] by (auto simp: ev_ok_def)

lemma ev_ok_signal:
  assumes "ev_ok s" "ev_get s d p = Some c" "ec_state v = ec_state c" "ec_state c \<noteq> Free"
  shows "ev_ok (ev_put s d p v)"
  using assms ev_inv_signal [of s d p c v] by (auto simp: ev_ok_def)

lemma ev_find_free_port:
  "ev_find_free s d = Ok p \<Longrightarrow> ev_ok s \<Longrightarrow> \<exists>c. ev_get s d p = Some c \<and> ec_state c = Free"
  by (auto intro: ev_find_free_Ok)

lemma ev_send_target_Some:
  assumes "ev_send_target s d p = Some (t, q)" "ev_ok s"
  shows "\<exists>c. ev_get s t q = Some c \<and> ec_state c \<noteq> Free"
  using assms ev_inv_peer [of s d p]
  by (fastforce simp: ev_send_target_def ev_state_of_eq split: option.splits PortState.splits)

lemma ev_virq_port:
  assumes "position (\<lambda>c. ec_state c = Virq v q) ports = Some i" "ev_domain s d = Ok ports" "ev_ok s"
  shows "as_u32 i = i \<and> (\<exists>c. ev_get s d i = Some c \<and> ec_state c = Virq v q)"
proof -
  have "i < u32_size"
    using assms by (auto simp: ev_ok_def ev_fits_def ev_domain_Ok ev_domain_count_def position_Some
        dest: order.strict_trans bspec [OF _ nth_mem])
  then show ?thesis
    using assms by (auto simp: ev_get_def tbl_get_def ev_domain_Ok ev_domain_count_def position_Some)
qed

lemma ev_virq_unused:
  assumes "\<not> list_ex (\<lambda>c. ec_state c = Virq v q) ports" "ev_domain s d = Ok ports"
  shows "ev_state_of s d p \<noteq> Some (Virq v q)"
  using assms by (auto simp: list_ex_iff ev_domain_Ok ev_state_of_eq ev_get_def tbl_get_Some)

lemma ev_alloc_unbound_wb: "ev_ok s \<Longrightarrow> well_behaved ev_ok s (ev_alloc_unbound s d r)"
  unfolding ev_alloc_unbound_def
  by (intro wb_intros)
    (auto simp: ev_chan_mut_Some ev_domain_Ok dest!: ev_find_free_port intro!: ev_ok_rebind)

lemma ev_bind_virq_wb: "ev_ok s \<Longrightarrow> well_behaved ev_ok s (ev_bind_virq s d v q)"
  unfolding ev_bind_virq_def
  by (intro wb_intros)
    (auto simp: ev_chan_mut_Some ev_virq_unused dest!: ev_find_free_port intro!: ev_ok_rebind)

lemma ev_bind_ipi_wb: "ev_ok s \<Longrightarrow> well_behaved ev_ok s (ev_bind_ipi s d v)"
  unfolding ev_bind_ipi_def
  by (intro wb_intros) (auto simp: ev_chan_mut_Some dest!: ev_find_free_port intro!: ev_ok_rebind)

lemma ev_set_masked_wb: "ev_ok s \<Longrightarrow> well_behaved ev_ok s (ev_set_masked s d p b)"
  unfolding ev_set_masked_def by (intro wb_intros) (auto intro!: ev_ok_signal)

lemma ev_consume_wb: "ev_ok s \<Longrightarrow> well_behaved ev_ok s (ev_consume s d p)"
  unfolding ev_consume_def by (intro wb_intros) (auto intro!: ev_ok_signal)

lemma ev_send_wb: "ev_ok s \<Longrightarrow> well_behaved ev_ok s (ev_send s d p)"
  unfolding ev_send_def
  by (intro wb_intros; clarsimp simp del: propagate_ok_or; intro wb_intros)
    (auto simp: ev_chan_mut_Some dest!: ev_send_target_Some intro!: ev_ok_signal)

lemma ev_raise_virq_wb: "ev_ok s \<Longrightarrow> well_behaved ev_ok s (ev_raise_virq s d v q)"
  unfolding ev_raise_virq_def
  by (intro wb_intros) (auto simp: ev_chan_mut_Some dest!: ev_virq_port intro!: ev_ok_signal)

text \<open>The two transitions that write both ends of a channel.\<close>

lemma ev_ok_link:
  assumes ok: "ev_ok s" and p: "ev_get s d p = Some c" "ec_state c = Free"
    and q: "ev_get s r q = Some e" "ec_state e = Unbound d"
    and v: "ec_state v = Interdomain r q" and w: "ec_state w = Interdomain d p"
  shows "ev_ok (ev_put (ev_put s d p v) r q w)" (is "ev_ok ?t")
proof -
  have ne: "(r, q) \<noteq> (d, p)" using p q by auto
  have st: "ev_state_of ?t d' p' = (if (d', p') = (d, p) then Some (Interdomain r q)
      else if (d', p') = (r, q) then Some (Interdomain d p) else ev_state_of s d' p')" for d' p'
    using p q v w ne by (auto simp: ev_state_of_put ev.get_put)
  have "ev_port_ok ?t d' p' x" if x: "ev_get ?t d' p' = Some x" for d' p' x
  proof (cases "(d', p') = (d, p) \<or> (d', p') = (r, q)")
    case True
    with x p q v w ne show ?thesis by (auto simp: ev_port_ok_def st ev.get_put split: if_splits)
  next
    case False
    with x have x': "ev_get s d' p' = Some x" by (auto simp: ev.get_put split: if_splits)
    with ok have xok: "ev_port_ok s d' p' x" by (auto dest: ev_invD)
    have "ev_state_of s d p = Some Free" "ev_state_of s r q = Some (Unbound d)"
      using p q by (auto simp: ev_state_of_eq)
    with False xok show ?thesis by (auto simp: ev_port_ok_def st split: if_splits)
  qed
  with ok show ?thesis by (auto simp: ev_ok_def ev_inv_def)
qed

lemma ev_bind_interdomain_wb: "ev_ok s \<Longrightarrow> well_behaved ev_ok s (ev_bind_interdomain s d r q)"
  unfolding ev_bind_interdomain_def
  by (intro wb_intros)
    (auto simp: ev_chan_mut_Some ev.get_put dest!: ev_find_free_port intro!: ev_ok_link)

lemma ev_ok_unlink:
  assumes ok: "ev_ok s" and p: "ev_get s d p = Some c" "ec_state c = Interdomain r q"
    and v: "ec_state v = Unbound d" "\<not> pending v" "\<not> masked v"
  shows "ev_ok (ev_put (ev_put s r q v) d p EC_FREE)" (is "ev_ok ?t")
proof -
  from ok p have peer: "ev_state_of s r q = Some (Interdomain d p)"
    by (auto dest!: ev_okD(2) ev_inv_peer [of s d p r q] simp: ev_state_of_eq)
  have st: "ev_state_of ?t d' p' = (if (d', p') = (d, p) then Some Free
      else if (d', p') = (r, q) then Some (Unbound d) else ev_state_of s d' p')" for d' p'
    using p peer v by (auto simp: ev_state_of_eq ev.get_put EC_FREE_def)
  have d: "d < ev_domain_count s"
    using p ev_get_range [of s d p] by auto
  have "ev_port_ok ?t d' p' x" if x: "ev_get ?t d' p' = Some x" for d' p' x
  proof (cases "(d', p') = (d, p) \<or> (d', p') = (r, q)")
    case True
    with x p peer v d show ?thesis
      by (auto simp: ev_port_ok_def EC_FREE_def st ev.get_put ev_state_of_eq ev_domain_count_def
          split: if_splits)
  next
    case False
    with x have x': "ev_get s d' p' = Some x" by (auto simp: ev.get_put split: if_splits)
    with ok have xok: "ev_port_ok s d' p' x" by (auto dest: ev_invD)
    have "ev_state_of s d p = Some (Interdomain r q)" using p by (simp add: ev_state_of_eq)
    then have "\<not> (\<exists>a b. ec_state x = Interdomain a b \<and> ((a, b) = (d, p) \<or> (a, b) = (r, q)))"
      using xok peer False by (auto simp: ev_port_ok_def)
    with xok show ?thesis by (auto simp: ev_port_ok_def st split: if_splits)
  qed
  with ok show ?thesis by (auto simp: ev_ok_def ev_inv_def)
qed

lemma ev_close_wb:
  assumes ok: "ev_ok s"
  shows "well_behaved ev_ok s (ev_close s d p)"
  unfolding ev_close_def
proof (rule wb_propagate, rule ok, rule ev_chan_not_Panic, rule wb_if)
  fix c
  assume c: "ev_chan s d p = Ok c" "ec_state c \<noteq> Free"
  show "well_behaved ev_ok s
      (or_panic s
        (case ec_state c of
           Interdomain r q \<Rightarrow> ev_chan_mut s r q
             (\<lambda>peer. peer\<lparr>ec_state := Unbound d, pending := False, masked := False\<rparr>)
         | _ \<Rightarrow> Some s)
        (\<lambda>s1. or_panic s1 (ev_chan_mut s1 d p (\<lambda>_. EC_FREE)) (\<lambda>s2. (Ok (), s2))))"
  proof (cases "ec_state c")
    case (Interdomain r q)
    with ok c have peer: "ev_state_of s r q = Some (Interdomain d p)"
      by (auto dest!: ev_okD(2) ev_inv_peer [of s d p r q] simp: ev_state_of_eq)
    then obtain e where e: "ev_get s r q = Some e" by (auto simp: ev_state_of_eq)
    from ok c(1) Interdomain show ?thesis
      by (auto simp: ev_chan_mut_eq e ev.get_put intro!: wb_intros ev_ok_unlink)
  qed (use ok c in \<open>auto simp: ev_chan_mut_eq EC_FREE_def intro!: wb_intros ev_ok_rebind\<close>)
qed (intro wb_intros ok)

section \<open>The subsystem as a machine\<close>

lemma ev_get_new: "ev_get (ev_new n m) d p = (if d < n \<and> p < m then Some EC_FREE else None)"
  by (auto simp: ev_get_def ev_new_def tbl_get_def)

lemma ev_new_ok: "n < u16_size \<Longrightarrow> m < u32_size \<Longrightarrow> ev_ok (ev_new n m)"
  by (auto simp: ev_ok_def ev_fits_def ev_inv_def ev_get_new ev_port_ok_def EC_FREE_def)
    (auto simp: ev_new_def)

lemmas ev_wb =
  ev_alloc_unbound_wb ev_bind_interdomain_wb ev_bind_virq_wb ev_bind_ipi_wb ev_close_wb
  ev_send_wb ev_raise_virq_wb ev_set_masked_wb ev_consume_wb

lemma ev_apply_wb: "ev_ok s \<Longrightarrow> well_behaved ev_ok s (ev_apply s a)"
  by (cases a) (auto simp: ev_mask_def ev_unmask_def intro!: ev_wb wb_apfst)

interpretation evm: refusing_machine
  "\<lambda>s. \<exists>n m. n < u16_size \<and> m < u32_size \<and> s = ev_new n m"
  "\<lambda>s a. snd (ev_apply s a)" ev_ok "\<lambda>s a. is_Ok (fst (ev_apply s a))"
proof unfold_locales
  fix s :: EvtchnSystem and a :: EvOp
  assume "ev_ok s"
  then have wb: "well_behaved ev_ok s (ev_apply s a)" by (rule ev_apply_wb)
  then show "ev_ok (snd (ev_apply s a))" by (simp add: well_behaved_def)
  assume "\<not> is_Ok (fst (ev_apply s a))"
  with wb show "snd (ev_apply s a) = s"
    by (cases "fst (ev_apply s a)") (auto simp: well_behaved_def)
qed (auto intro: ev_new_ok)

section \<open>Effects used by teardown\<close>

text \<open>\<open>s'\<close> delivers nothing that \<open>s\<close> did not.\<close>

definition ev_quieter :: "EvtchnSystem \<Rightarrow> EvtchnSystem \<Rightarrow> bool" where
  "ev_quieter s s' \<longleftrightarrow> (\<forall>d p. ev_deliverable s' d p \<longrightarrow>
     ev_deliverable s d p \<and> ev_notify_target s' d p = ev_notify_target s d p)"

lemma ev_quieter_refl [simp]: "ev_quieter s s" by (simp add: ev_quieter_def)

lemma ev_quieter_trans: "ev_quieter s t \<Longrightarrow> ev_quieter t u \<Longrightarrow> ev_quieter s u"
  by (auto simp: ev_quieter_def)

lemma ev_deliverable_eq:
  "ev_deliverable s d p \<longleftrightarrow> (\<exists>c. ev_get s d p = Some c \<and> pending c \<and> \<not> masked c)"
  by (auto simp: ev_deliverable_def ev_chan_eq split: option.splits)

lemma ev_notify_target_put:
  "(d', p') \<noteq> (d, p) \<Longrightarrow> ev_notify_target (ev_put s d p v) d' p' = ev_notify_target s d' p'"
  by (auto simp: ev_notify_target_def ev_state_of_put)

lemma ev_quieter_put: "\<not> pending v \<Longrightarrow> ev_quieter s (ev_put s d p v)"
  by (auto simp: ev_quieter_def ev_deliverable_eq ev.get_put ev_notify_target_def ev_state_of_put
      split: if_splits)

lemma ev_close_effect:
  assumes ok: "ev_ok s" and st: "ev_state_of s d p = Some st" "st \<noteq> Free"
  shows "\<exists>s'. ev_close s d p = (Ok (), s') \<and> ev_ok s' \<and>
    ev_domain_count s' = ev_domain_count s \<and> (\<forall>d'. ev_port_count s' d' = ev_port_count s d') \<and>
    ev_quieter s s' \<and>
    (\<forall>d' p'. ev_state_of s' d' p' = (if (d', p') = (d, p) then Some Free
       else if st = Interdomain d' p' then Some (Unbound d) else ev_state_of s d' p'))"
proof -
  from st obtain c where c: "ev_get s d p = Some c" "ec_state c = st" by (auto simp: ev_state_of_eq)
  have wb: "well_behaved ev_ok s (ev_close s d p)" using ok by (rule ev_close_wb)
  have free: "ev_quieter t (ev_put t d p EC_FREE)" for t by (rule ev_quieter_put) (simp add: EC_FREE_def)
  show ?thesis
  proof (cases "\<exists>r q. st = Interdomain r q")
    case True
    then obtain r q where rq: "st = Interdomain r q" by auto
    with ok st(1) have peer: "ev_state_of s r q = Some (Interdomain d p)"
      by (auto dest!: ev_okD(2) ev_inv_peer [of s d p r q])
    then obtain e where e: "ev_get s r q = Some e" by (auto simp: ev_state_of_eq)
    define e' where "e' = e\<lparr>ec_state := Unbound d, pending := False, masked := False\<rparr>"
    have def': "ev_close s d p = (Ok (), ev_put (ev_put s r q e') d p EC_FREE)"
      using c e rq by (simp add: ev_close_def ev_chan_eq ev_chan_mut_eq e'_def ev.get_put)
    have "ev_quieter s (ev_put (ev_put s r q e') d p EC_FREE)"
      using free ev_quieter_put [of e' s r q] by (auto simp: e'_def intro: ev_quieter_trans)
    with wb def' c e rq show ?thesis
      by (auto simp: well_behaved_def ev_state_of_eq ev.get_put e'_def EC_FREE_def)
  next
    case False
    then have "ev_close s d p = (Ok (), ev_put s d p EC_FREE)"
      using c st(2) by (cases st) (auto simp: ev_close_def ev_chan_eq ev_chan_mut_eq)
    with wb free c False show ?thesis
      by (auto simp: well_behaved_def ev_state_of_put EC_FREE_def)
  qed
qed

text \<open>The state of a port once the ports of \<open>d\<close> below \<open>k\<close> have been closed.\<close>

definition ev_closed_upto :: "EvtchnSystem \<Rightarrow> DomId \<Rightarrow> nat \<Rightarrow> DomId \<Rightarrow> Port \<Rightarrow> PortState option" where
  "ev_closed_upto s d k d' p' =
     (if d' = d \<and> p' < k then map_option (\<lambda>_. Free) (ev_state_of s d' p')
      else case ev_state_of s d' p' of
          Some (Interdomain r q) \<Rightarrow>
            if r = d \<and> q < k then Some (Unbound d) else Some (Interdomain r q)
        | st \<Rightarrow> st)"

lemma ev_close_all_effect:
  assumes ok: "ev_ok s"
  shows "\<exists>s'. ev_close_all s d = Some s' \<and> ev_ok s' \<and>
    ev_domain_count s' = ev_domain_count s \<and> (\<forall>d'. ev_port_count s' d' = ev_port_count s d') \<and>
    ev_quieter s s' \<and>
    (\<forall>d' p'. ev_state_of s' d' p' = ev_closed_upto s d (ev_port_count s d) d' p')"
proof -
  define I where "I ys s' \<longleftrightarrow> ev_ok s' \<and>
    ev_domain_count s' = ev_domain_count s \<and> (\<forall>d'. ev_port_count s' d' = ev_port_count s d') \<and>
    ev_quieter s s' \<and>
    (\<forall>d' p'. ev_state_of s' d' p' = ev_closed_upto s d (length ys) d' p')" for ys :: "nat list" and s'
  let ?n = "ev_port_count s d"
  let ?f = "\<lambda>port t. if ev_state_of t d port \<noteq> Some Free
       then (case ev_close t d port of (Panic, _) \<Rightarrow> None | (_, t') \<Rightarrow> Some t') else Some t"
  have R: "ev_state_of s a' b' = Some (Interdomain a b)"
    if "ev_state_of s a b = Some (Interdomain a' b')" for a b a' b'
    using that ok by (auto intro: ev_inv_peer)
  have n: "as_u32 ?n = ?n" using ok by (auto simp: ev_ok_def ev_fits_iff)
  have "\<exists>s'. for_each ?f [0..<?n] s = Some s' \<and> I [0..<?n] s'"
  proof (rule for_each_rule)
    show "I [] s" using ok by (auto simp: I_def ev_closed_upto_def split: option.splits PortState.splits)
  next
    fix ys x zs t
    assume xs: "[0..<?n] = ys @ x # zs" and I: "I ys t"
    then have x: "x = length ys" "x < ?n"
      by (metis add_0 length_append length_upt list.size(4) minus_nat.diff_0 nth_append_length
          nth_upt less_add_Suc1 add_Suc_right)
        (metis xs in_set_conv_decomp set_upt atLeastLessThan_iff)
    from I have t: "ev_ok t" "ev_state_of t d x = ev_closed_upto s d (length ys) d x"
        "ev_port_count t d = ?n" by (auto simp: I_def)
    from x(2) t(3) have "ev_state_of t d x \<noteq> None"
      using ev_get_range [of t d x] by (auto simp: ev_state_of_eq ev_port_count_eq tbl_row_len_def
          ev_domain_count_def split: if_splits)
    then obtain st where st: "ev_state_of t d x = Some st" by auto
    show "\<exists>t'. ?f x t = Some t' \<and> I (ys @ [x]) t'"
    proof (cases "st = Free")
      case True
      have "ev_closed_upto s d (Suc (length ys)) d' p' = ev_closed_upto s d (length ys) d' p'" for d' p'
        using R [of d' p' d x] st True t(2) x(1)
        by (auto simp: ev_closed_upto_def less_Suc_eq split: option.splits PortState.splits if_splits)
      with True st I show ?thesis by (auto simp: I_def)
    next
      case False
      from ev_close_effect [OF t(1) st False] obtain t' where
        t': "ev_close t d x = (Ok (), t')" "ev_ok t'" "ev_domain_count t' = ev_domain_count t"
          "\<forall>d'. ev_port_count t' d' = ev_port_count t d'" "ev_quieter t t'"
          "\<forall>d' p'. ev_state_of t' d' p' = (if (d', p') = (d, x) then Some Free
             else if st = Interdomain d' p' then Some (Unbound d) else ev_state_of t d' p')" by blast
      have T: "ev_state_of t d' p' = ev_closed_upto s d x d' p'" for d' p'
        using I x(1) by (simp add: I_def)
      have "ev_state_of t' d' p' = ev_closed_upto s d (Suc x) d' p'" for d' p'
      proof (cases "(d', p') = (d, x)")
        case True
        with t'(6) st T [of d x] show ?thesis
          by (auto simp: ev_closed_upto_def split: option.splits)
      next
        case ne: False
        show ?thesis
        proof (cases "st = Interdomain d' p'")
          case True
          with st T [of d x] have "ev_state_of s d x = Some (Interdomain d' p')"
              and below: "\<not> (d' = d \<and> p' < x)"
            by (auto simp: ev_closed_upto_def split: option.splits PortState.splits if_splits)
          from R [OF this(1)] below True ne t'(6) show ?thesis
            by (auto simp: ev_closed_upto_def less_Suc_eq)
        next
          case False
          have "ev_state_of s d' p' \<noteq> Some (Interdomain d x) \<or> (d' = d \<and> p' < x)"
            using R [of d' p' d x] False st T [of d x]
            by (auto simp: ev_closed_upto_def split: if_splits)
          with ne have "ev_closed_upto s d (Suc x) d' p' = ev_closed_upto s d x d' p'"
            by (auto simp: ev_closed_upto_def less_Suc_eq split: option.split PortState.split)
          moreover have "ev_state_of t' d' p' = ev_state_of t d' p'"
            using t'(6) ne False by auto
          ultimately show ?thesis using T by simp
        qed
      qed
      with t' st False I x(1) show ?thesis by (auto simp: I_def intro: ev_quieter_trans)
    qed
  qed
  then show ?thesis by (auto simp: ev_close_all_def n I_def)
qed

text \<open>The sweep frees exactly the half-open ports that await \<open>target\<close>.\<close>

definition ev_cleared_of :: "EvtchnSystem \<Rightarrow> DomId \<Rightarrow> (DomId \<Rightarrow> Port \<Rightarrow> bool) \<Rightarrow> DomId \<Rightarrow> Port \<Rightarrow> PortState option" where
  "ev_cleared_of s target seen d p =
     (if seen d p \<and> ev_state_of s d p = Some (Unbound target) then Some Free else ev_state_of s d p)"

definition ev_swept :: "EvtchnSystem \<Rightarrow> DomId \<Rightarrow> (DomId \<Rightarrow> Port \<Rightarrow> bool) \<Rightarrow> EvtchnSystem \<Rightarrow> bool" where
  "ev_swept s target seen t \<longleftrightarrow> ev_ok t \<and>
     ev_domain_count t = ev_domain_count s \<and> (\<forall>d. ev_port_count t d = ev_port_count s d) \<and>
     ev_quieter s t \<and> (\<forall>d p. ev_state_of t d p = ev_cleared_of s target seen d p)"

lemma ev_swept_step:
  assumes "ev_swept s target seen t"
  shows "\<exists>t'. (if ev_state_of t d p = Some (Unbound target)
                then ev_chan_mut t d p (\<lambda>_. EC_FREE) else Some t) = Some t' \<and>
           ev_swept s target (\<lambda>d' p'. seen d' p' \<or> (d' = d \<and> p' = p)) t'"
proof (cases "ev_state_of t d p = Some (Unbound target)")
  case True
  then obtain c where c: "ev_get t d p = Some c" "ec_state c = Unbound target"
    by (auto simp: ev_state_of_eq)
  with assms have "ev_ok (ev_put t d p EC_FREE)"
    by (auto simp: ev_swept_def EC_FREE_def intro!: ev_ok_rebind)
  moreover have "ev_quieter s (ev_put t d p EC_FREE)"
    using assms by (auto simp: ev_swept_def EC_FREE_def intro!: ev_quieter_put intro: ev_quieter_trans)
  ultimately show ?thesis
    using assms True c
    by (auto simp: ev_swept_def ev_chan_mut_eq ev_state_of_put ev_cleared_of_def EC_FREE_def
        split: if_splits)
next
  case False
  with assms show ?thesis by (auto simp: ev_swept_def ev_cleared_of_def split: if_splits)
qed

lemma ev_swept_row:
  assumes "ev_swept s target seen t"
  shows "\<exists>t'. for_each (\<lambda>port t. if ev_state_of t d port = Some (Unbound target)
                then ev_chan_mut t d port (\<lambda>_. EC_FREE) else Some t) ps t = Some t' \<and>
           ev_swept s target (\<lambda>d' p'. seen d' p' \<or> (d' = d \<and> p' \<in> set ps)) t'"
proof (rule for_each_rule)
  show "ev_swept s target (\<lambda>d' p'. seen d' p' \<or> d' = d \<and> p' \<in> set []) t" using assms by simp
next
  fix ys x zs u
  assume "ev_swept s target (\<lambda>d' p'. seen d' p' \<or> d' = d \<and> p' \<in> set ys) u"
  from ev_swept_step [OF this, of d x]
  show "\<exists>u'. (if ev_state_of u d x = Some (Unbound target)
                then ev_chan_mut u d x (\<lambda>_. EC_FREE) else Some u) = Some u' \<and>
           ev_swept s target (\<lambda>d' p'. seen d' p' \<or> d' = d \<and> p' \<in> set (ys @ [x])) u'"
    by (rule exE) (auto intro!: exI elim!: back_subst [of "\<lambda>f. ev_swept s target f _"])
qed

lemma ev_clear_unbound_into_effect:
  assumes ok: "ev_ok s"
  shows "\<exists>s'. ev_clear_unbound_into s target = Some s' \<and> ev_swept s target (\<lambda>_ _. True) s'"
proof -
  let ?row = "\<lambda>d t. for_each (\<lambda>port t. if ev_state_of t d port = Some (Unbound target)
                then ev_chan_mut t d port (\<lambda>_. EC_FREE) else Some t) [0..<as_u32 (ev_port_count t d)] t"
  let ?seen = "\<lambda>ds d p. d \<in> set ds \<and> p < ev_port_count s d"
  have "\<exists>t. for_each ?row [0..<ev_domain_count s] s = Some t \<and>
      ev_swept s target (?seen [0..<ev_domain_count s]) t"
  proof (rule for_each_rule [where I = "\<lambda>ds t. ev_swept s target (?seen ds) t"])
    show "ev_swept s target (?seen []) s" using ok by (simp add: ev_swept_def ev_cleared_of_def)
  next
    fix ys x zs t
    assume t: "ev_swept s target (?seen ys) t"
    then have n: "as_u32 (ev_port_count t x) = ev_port_count s x"
      by (auto simp: ev_swept_def ev_ok_def ev_fits_iff)
    have "(\<lambda>d p. ?seen ys d p \<or> d = x \<and> p \<in> set [0..<ev_port_count s x]) = ?seen (ys @ [x])"
      by (intro ext) auto
    with ev_swept_row [OF t, of x "[0..<as_u32 (ev_port_count t x)]"]
    show "\<exists>t'. ?row x t = Some t' \<and> ev_swept s target (?seen (ys @ [x])) t'"
      by (simp add: n)
  qed
  then obtain t where t: "for_each ?row [0..<ev_domain_count s] s = Some t"
    "ev_swept s target (?seen [0..<ev_domain_count s]) t" by blast
  have "ev_cleared_of s target (?seen [0..<ev_domain_count s]) = ev_cleared_of s target (\<lambda>_ _. True)"
    using ev_get_range [of s] by (intro ext) (force simp: ev_cleared_of_def ev_state_of_eq)
  with t(2) have "ev_swept s target (\<lambda>_ _. True) t" by (simp add: ev_swept_def)
  moreover have "as_u16 (ev_domain_count s) = ev_domain_count s"
    using ok by (auto simp: ev_ok_def ev_fits_iff)
  ultimately show ?thesis using t(1) by (auto simp: ev_clear_unbound_into_def)
qed

lemma ev_any_unbound_into_iff:
  "ev_fits s \<Longrightarrow> ev_any_unbound_into s target \<longleftrightarrow> (\<exists>d p. ev_state_of s d p = Some (Unbound target))"
  using ev_get_range [of s]
  by (fastforce simp: ev_any_unbound_into_def list_ex_iff ev_fits_iff ev_state_of_eq)

lemma ev_has_deliverable_iff:
  "ev_fits s \<Longrightarrow> ev_has_deliverable_for s d v \<longleftrightarrow>
     (\<exists>p. ev_deliverable s d p \<and> ev_notify_target s d p = Some v)"
  using ev_get_range [of s]
  by (fastforce simp: ev_has_deliverable_for_def list_ex_iff ev_fits_iff ev_deliverable_eq)

section \<open>Properties\<close>

lemma ev_okI: "ev_fits s \<Longrightarrow> ev_first_violation s = None \<Longrightarrow> ev_ok s"
  by (simp add: ev_ok_def ev_first_violation_None)

lemma ev_ok_no_violation: "ev_ok s \<Longrightarrow> ev_first_violation s = None"
  by (simp add: ev_ok_def ev_first_violation_None)

text \<open>
  C26: Whatever sequence of event-channel operations is applied to a fresh system, the check
  \<open>first_violation\<close> finds nothing (reciprocity, no signal on a free port, no ghost domain, no
  duplicate VIRQ), and no further operation panics.
\<close>

theorem evtchn_runs_consistent:
  assumes "n < u16_size" and "m < u32_size"
  shows "ev_first_violation (fold (\<lambda>a s. snd (ev_apply s a)) as (ev_new n m)) = None \<and>
         fst (ev_apply (fold (\<lambda>a s. snd (ev_apply s a)) as (ev_new n m)) a) \<noteq> Panic"
proof -
  have "ev_ok (fold (\<lambda>a s. snd (ev_apply s a)) as (ev_new n m))"
    using assms by (intro evm.run_inv ev_new_ok)
  then show ?thesis using ev_apply_wb by (auto simp: ev_ok_no_violation well_behaved_def)
qed

theorem evtchn_runs_consistent_witness:
  "ev_first_violation (fold (\<lambda>a s. snd (ev_apply s a))
      [OpAllocUnbound 0 1, OpBindInterdomain 1 0 0, OpSend 1 0] (ev_new 2 2)) = None \<and>
   fst (ev_apply (fold (\<lambda>a s. snd (ev_apply s a))
      [OpAllocUnbound 0 1, OpBindInterdomain 1 0 0, OpSend 1 0] (ev_new 2 2)) (OpClose 0 0)) \<noteq> Panic"
  by (rule evtchn_runs_consistent) simp_all

text \<open>
  A refused event-channel operation leaves the whole system unchanged.
\<close>

theorem evtchn_refusal_noop:
  assumes "ev_fits s" and "ev_first_violation s = None" and "ev_apply s a = (Err e, s')"
  shows "s' = s"
  using ev_apply_wb [OF ev_okI [OF assms(1,2)], of a] assms(3) by (simp add: well_behaved_def)

theorem evtchn_refusal_noop_witness:
  "\<exists>s'. ev_apply (ev_new 2 2) (OpClose 0 1) = (Err EvtchnError.WrongState, s') \<and> s' = ev_new 2 2"
proof -
  have h: "ev_fits (ev_new 2 2)" "ev_first_violation (ev_new 2 2) = None"
    "ev_apply (ev_new 2 2) (OpClose 0 1) =
       (Err EvtchnError.WrongState, snd (ev_apply (ev_new 2 2) (OpClose 0 1)))" by code_simp+
  from evtchn_refusal_noop [OF h] h(3) show ?thesis by auto
qed

text \<open>
  A channel bound between two domains carries signals both ways: a send on either end makes
  the other end deliverable, and consuming it there reports and clears exactly that event.
\<close>

theorem evtchn_channel_roundtrip:
  assumes "ev_fits s" and "ev_first_violation s = None"
    and "ev_bind_interdomain s d r q = (Ok p, s1)"
  shows "(\<exists>s2 s3. ev_send s1 d p = (Ok (), s2) \<and> ev_deliverable s2 r q \<and>
            ev_consume s2 r q = (Ok True, s3) \<and> \<not> ev_is_pending s3 r q) \<and>
         (\<exists>s2 s3. ev_send s1 r q = (Ok (), s2) \<and> ev_deliverable s2 d p \<and>
            ev_consume s2 d p = (Ok True, s3) \<and> \<not> ev_is_pending s3 d p)"
proof -
  have ok: "ev_ok s" using assms(1,2) by (rule ev_okI)
  have "\<exists>c. ev_get s d p = Some c \<and> ec_state c = Free" "ev_state_of s r q = Some (Unbound d)"
    using assms(3) ev_find_free_port [of s d p] ok
    by (auto simp: ev_bind_interdomain_def ev_state_of_eq split: if_splits)
  then have ne: "(r, q) \<noteq> (d, p)" by (auto simp: ev_state_of_eq)
  have g: "ev_get s1 d p = Some \<lparr>ec_state = Interdomain r q, pending = False, masked = False\<rparr>"
    "ev_get s1 r q = Some \<lparr>ec_state = Interdomain d p, pending = False, masked = False\<rparr>"
    using assms(3) ne
    by (auto simp: ev_bind_interdomain_def ev_chan_mut_Some ev.get_put split: if_splits)
  have one: "\<exists>s2 s3. ev_send s1 a b = (Ok (), s2) \<and> ev_deliverable s2 a' b' \<and>
            ev_consume s2 a' b' = (Ok True, s3) \<and> \<not> ev_is_pending s3 a' b'"
    if "ev_get s1 a b = Some c" "ec_state c = Interdomain a' b'"
      "ev_get s1 a' b' = Some \<lparr>ec_state = Interdomain a b, pending = False, masked = False\<rparr>"
    for a b a' b' c
    using that
    by (auto simp: ev_send_def ev_send_target_def ev_state_of_eq ev_chan_mut_eq ev_chan_eq
        ev_deliverable_eq ev_consume_def ev_is_pending_def ev.get_put)
  from one [OF g(1) _ g(2)] one [OF g(2) _ g(1)] show ?thesis by simp
qed

theorem evtchn_channel_roundtrip_witness:
  "\<exists>s s1. ev_bind_interdomain s 1 0 0 = (Ok 0, s1) \<and>
     (\<exists>s2 s3. ev_send s1 1 0 = (Ok (), s2) \<and> ev_deliverable s2 0 0 \<and>
            ev_consume s2 0 0 = (Ok True, s3) \<and> \<not> ev_is_pending s3 0 0)"
proof -
  let ?s = "snd (ev_alloc_unbound (ev_new 2 2) 0 1)"
  have h: "ev_fits ?s" "ev_first_violation ?s = None"
    "ev_bind_interdomain ?s 1 0 0 = (Ok 0, snd (ev_bind_interdomain ?s 1 0 0))" by code_simp+
  from evtchn_channel_roundtrip [OF h] h(3) show ?thesis by blast
qed

text \<open>
  Tearing a domain's ports down never panics, keeps the invariant, frees every port of the
  domain, returns each peer of another domain to \<open>Unbound\<close> and touches nothing else.
\<close>

theorem evtchn_close_all_frees:
  assumes "ev_fits s" and "ev_first_violation s = None"
  shows "\<exists>s'. ev_close_all s d = Some s' \<and> ev_first_violation s' = None \<and>
     (\<forall>p < ev_port_count s d. ev_state_of s' d p = Some Free) \<and>
     (\<forall>d' p. d' \<noteq> d \<longrightarrow> ev_state_of s' d' p =
        (case ev_state_of s d' p of
           Some (Interdomain r q) \<Rightarrow> Some (if r = d then Unbound d else Interdomain r q)
         | st \<Rightarrow> st))"
proof -
  have ok: "ev_ok s" using assms by (rule ev_okI)
  from ev_close_all_effect [OF this, of d] obtain s' where
    s': "ev_close_all s d = Some s'" "ev_ok s'"
      "\<And>d' p. ev_state_of s' d' p = ev_closed_upto s d (ev_port_count s d) d' p" by blast
  have q: "q < ev_port_count s d" if "ev_state_of s d' p = Some (Interdomain d q)" for d' p q
    using ev_inv_peer [OF _ that] ok ev_get_range [of s d q] by (auto simp: ev_state_of_eq)
  have "ev_state_of s d p \<noteq> None" if "p < ev_port_count s d" for p
    using ev_get_range [of s d p] that
    by (auto simp: ev_state_of_eq ev_port_count_eq tbl_row_len_def ev_domain_count_def split: if_splits)
  with s' q show ?thesis
    by (fastforce simp: ev_ok_no_violation ev_closed_upto_def split: option.splits PortState.splits)
qed

theorem evtchn_close_all_frees_witness:
  "\<exists>s s'. ev_state_of s 1 0 = Some (Interdomain 0 0) \<and> ev_close_all s 0 = Some s' \<and>
     ev_state_of s' 0 0 = Some Free \<and> ev_state_of s' 1 0 = Some (Unbound 0)"
proof -
  let ?s = "snd (ev_bind_interdomain (snd (ev_alloc_unbound (ev_new 2 2) 0 1)) 1 0 0)"
  have h: "ev_fits ?s" "ev_first_violation ?s = None" "ev_port_count ?s 0 = 2"
    "ev_state_of ?s 1 0 = Some (Interdomain 0 0)" by code_simp+
  from evtchn_close_all_frees [OF h(1,2), of 0] obtain s' where
    s': "ev_close_all ?s 0 = Some s'" "\<forall>p < ev_port_count ?s 0. ev_state_of s' 0 p = Some Free"
      "\<forall>d' p. d' \<noteq> 0 \<longrightarrow> ev_state_of s' d' p =
        (case ev_state_of ?s d' p of
           Some (Interdomain r q) \<Rightarrow> Some (if r = 0 then Unbound 0 else Interdomain r q)
         | st \<Rightarrow> st)" by blast
  have "ev_state_of s' 0 0 = Some Free" using s'(2) h(3) by simp
  moreover have "ev_state_of s' 1 0 = Some (Unbound 0)" using s'(3) [rule_format, of 1 0] h(4) by simp
  ultimately show ?thesis using s'(1) h(4) by blast
qed

text \<open>
  The inbound sweep of a teardown frees exactly the half-open ports that await the target,
  so that no invitation to it remains anywhere.
\<close>

theorem evtchn_clear_unbound_exact:
  assumes "ev_fits s" and "ev_first_violation s = None"
  shows "\<exists>s'. ev_clear_unbound_into s target = Some s' \<and> ev_first_violation s' = None \<and>
     \<not> ev_any_unbound_into s' target \<and>
     (\<forall>d p. ev_state_of s' d p =
        (if ev_state_of s d p = Some (Unbound target) then Some Free else ev_state_of s d p))"
proof -
  from ev_clear_unbound_into_effect [OF ev_okI [OF assms], of target] obtain s' where
    s': "ev_clear_unbound_into s target = Some s'" "ev_swept s target (\<lambda>_ _. True) s'" by blast
  then show ?thesis
    by (auto simp: ev_swept_def ev_cleared_of_def ev_ok_no_violation ev_any_unbound_into_iff ev_ok_def
        split: if_splits)
qed

theorem evtchn_clear_unbound_exact_witness:
  "\<exists>s s'. ev_any_unbound_into s 1 \<and> ev_clear_unbound_into s 1 = Some s' \<and> \<not> ev_any_unbound_into s' 1"
proof -
  let ?s = "snd (ev_alloc_unbound (ev_new 2 2) 0 1)"
  have h: "ev_fits ?s" "ev_first_violation ?s = None" "ev_any_unbound_into ?s 1" by code_simp+
  from evtchn_clear_unbound_exact [OF h(1,2), of 1] h(3) show ?thesis by blast
qed

end
