(* ===== verification/Sched.thy ===== *)
theory Sched
  imports HV_Prelude
begin

text \<open>
  The scheduler mechanism, \<open>hv-core/src/sched.rs\<close>: every domain's virtual CPUs, the
  occupancy table of the physical CPUs, the transitions between run states, the hard-affinity
  masks and the run-time accounting.
\<close>

unbundle bit_operations_syntax

section \<open>State\<close>

datatype RunState = Offline | Runnable | Running Pcpu | Blocked

type_synonym mask = "64 word"

record VirtualCpu =
  vc_state :: RunState
  runtime :: Ticks
  dispatched_at :: Ticks
  affinity :: mask

definition VC_OFFLINE :: VirtualCpu where
  "VC_OFFLINE = \<lparr>vc_state = Offline, runtime = 0, dispatched_at = 0, affinity = 0\<rparr>"

definition full_mask :: "nat \<Rightarrow> mask" where
  "full_mask num_pcpus = (if 64 \<le> num_pcpus then - 1 else push_bit num_pcpus 1 - 1)"

definition mask_permits :: "mask \<Rightarrow> Pcpu \<Rightarrow> bool" where
  "mask_permits m pcpu \<longleftrightarrow> pcpu < 64 \<and> m AND push_bit pcpu 1 \<noteq> 0"

record SchedSystem =
  sc_domains :: "VirtualCpu list list"
  pcpus :: "(DomId \<times> Vcpu) option list"

datatype SchedError = BadDomain | BadVcpu | BadPcpu | WrongState | PcpuBusy | NotAffine

datatype SchedViolation =
    RunningGhostPcpu nat nat
  | OccupancyBroken nat nat
  | OccupantNotRunning nat
  | OccupantGhost nat
  | RunningOffAffinity nat nat

definition sc_new :: "nat \<Rightarrow> nat \<Rightarrow> nat \<Rightarrow> SchedSystem" where
  "sc_new num_domains vcpus_per_domain num_pcpus =
     \<lparr>sc_domains = map (\<lambda>_. map (\<lambda>_. VC_OFFLINE\<lparr>affinity := full_mask num_pcpus\<rparr>)
          [0..<vcpus_per_domain]) [0..<num_domains],
      pcpus = map (\<lambda>_. None) [0..<num_pcpus]\<rparr>"

section \<open>Internals and queries\<close>

definition sc_vcpu :: "SchedSystem \<Rightarrow> DomId \<Rightarrow> Vcpu \<Rightarrow> (VirtualCpu, SchedError) result" where
  "sc_vcpu s d vcpu = slot_ref (sc_domains s) d vcpu BadDomain BadVcpu"

definition sc_put :: "SchedSystem \<Rightarrow> DomId \<Rightarrow> Vcpu \<Rightarrow> VirtualCpu \<Rightarrow> SchedSystem" where
  "sc_put s d vcpu v = s\<lparr>sc_domains := tbl_set (sc_domains s) d vcpu v\<rparr>"

definition sc_vcpu_mut ::
  "SchedSystem \<Rightarrow> DomId \<Rightarrow> Vcpu \<Rightarrow> (VirtualCpu \<Rightarrow> VirtualCpu) \<Rightarrow> SchedSystem option" where
  "sc_vcpu_mut s d vcpu f =
     map_option (\<lambda>v. sc_put s d vcpu (f v)) (result_ok (sc_vcpu s d vcpu))"

text \<open>The indexed write \<open>self.pcpus[pcpu as usize] = occ\<close>; \<open>None\<close> is its panic.\<close>

definition sc_set_pcpu :: "SchedSystem \<Rightarrow> Pcpu \<Rightarrow> (DomId \<times> Vcpu) option \<Rightarrow> SchedSystem option" where
  "sc_set_pcpu s pcpu occ =
     (if pcpu < length (pcpus s) then Some (s\<lparr>pcpus := (pcpus s)[pcpu := occ]\<rparr>) else None)"

definition sc_account :: "SchedSystem \<Rightarrow> DomId \<Rightarrow> Vcpu \<Rightarrow> Ticks \<Rightarrow> SchedSystem option" where
  "sc_account s d vcpu now =
     sc_vcpu_mut s d vcpu (\<lambda>v. v\<lparr>runtime := sat_add_u64 (runtime v) (now - dispatched_at v)\<rparr>)"

definition sc_running_pcpu :: "SchedSystem \<Rightarrow> DomId \<Rightarrow> Vcpu \<Rightarrow> (Pcpu, SchedError) result" where
  "sc_running_pcpu s d vcpu =
     (case sc_vcpu s d vcpu of
        Ok v \<Rightarrow> (case vc_state v of Running pcpu \<Rightarrow> Ok pcpu | _ \<Rightarrow> Err WrongState)
      | Err e \<Rightarrow> Err e
      | Panic \<Rightarrow> Panic)"

definition sc_domain_count :: "SchedSystem \<Rightarrow> nat" where
  "sc_domain_count s = length (sc_domains s)"

definition sc_vcpu_count :: "SchedSystem \<Rightarrow> DomId \<Rightarrow> nat" where
  "sc_vcpu_count s d = (case vec_get (sc_domains s) d of Some vcpus \<Rightarrow> length vcpus | None \<Rightarrow> 0)"

definition sc_pcpu_count :: "SchedSystem \<Rightarrow> nat" where
  "sc_pcpu_count s = length (pcpus s)"

definition sc_busy_pcpus :: "SchedSystem \<Rightarrow> nat" where
  "sc_busy_pcpus s = length (filter (\<lambda>p. p \<noteq> None) (pcpus s))"

definition sc_state_of :: "SchedSystem \<Rightarrow> DomId \<Rightarrow> Vcpu \<Rightarrow> RunState option" where
  "sc_state_of s d vcpu = map_option vc_state (result_ok (sc_vcpu s d vcpu))"

definition sc_is_running :: "SchedSystem \<Rightarrow> DomId \<Rightarrow> Vcpu \<Rightarrow> bool" where
  "sc_is_running s d vcpu = (case sc_state_of s d vcpu of Some (Running _) \<Rightarrow> True | _ \<Rightarrow> False)"

definition sc_runtime :: "SchedSystem \<Rightarrow> DomId \<Rightarrow> Vcpu \<Rightarrow> Ticks option" where
  "sc_runtime s d vcpu = map_option runtime (result_ok (sc_vcpu s d vcpu))"

definition sc_on_cpu_since :: "SchedSystem \<Rightarrow> DomId \<Rightarrow> Vcpu \<Rightarrow> Ticks option" where
  "sc_on_cpu_since s d vcpu =
     (case result_ok (sc_vcpu s d vcpu) of
        None \<Rightarrow> None
      | Some v \<Rightarrow> (case vc_state v of Running _ \<Rightarrow> Some (dispatched_at v) | _ \<Rightarrow> None))"

definition sc_occupant :: "SchedSystem \<Rightarrow> Pcpu \<Rightarrow> (DomId \<times> Vcpu) option" where
  "sc_occupant s pcpu = Option.bind (vec_get (pcpus s) pcpu) id"

definition sc_affinity_of :: "SchedSystem \<Rightarrow> DomId \<Rightarrow> Vcpu \<Rightarrow> mask option" where
  "sc_affinity_of s d vcpu = map_option affinity (result_ok (sc_vcpu s d vcpu))"

definition sc_affinity_permits :: "SchedSystem \<Rightarrow> DomId \<Rightarrow> Vcpu \<Rightarrow> Pcpu \<Rightarrow> bool" where
  "sc_affinity_permits s d vcpu pcpu =
     (case sc_vcpu s d vcpu of Ok v \<Rightarrow> mask_permits (affinity v) pcpu | _ \<Rightarrow> False)"

definition sc_full_affinity :: "SchedSystem \<Rightarrow> mask" where
  "sc_full_affinity s = full_mask (length (pcpus s))"

section \<open>Transitions\<close>

definition sc_admit ::
  "SchedSystem \<Rightarrow> DomId \<Rightarrow> Vcpu \<Rightarrow> (unit, SchedError) result \<times> SchedSystem" where
  "sc_admit s d vcpu =
     propagate (sc_vcpu s d vcpu) s (\<lambda>v.
     if vc_state v \<noteq> Offline then (Err WrongState, s)
     else (Ok (), sc_put s d vcpu (v\<lparr>vc_state := Runnable\<rparr>)))"

definition sc_run ::
  "SchedSystem \<Rightarrow> DomId \<Rightarrow> Vcpu \<Rightarrow> Pcpu \<Rightarrow> Ticks \<Rightarrow> (unit, SchedError) result \<times> SchedSystem" where
  "sc_run s d vcpu pcpu now =
     (if length (pcpus s) \<le> pcpu then (Err BadPcpu, s)
      else
        propagate (sc_vcpu s d vcpu) s (\<lambda>v.
        if vc_state v \<noteq> Runnable then (Err WrongState, s)
        else if \<not> sc_affinity_permits s d vcpu pcpu then (Err NotAffine, s)
        else if pcpus s ! pcpu \<noteq> None then (Err PcpuBusy, s)
        else
          or_panic s (sc_vcpu_mut s d vcpu (\<lambda>v. v\<lparr>vc_state := Running pcpu, dispatched_at := now\<rparr>)) (\<lambda>s1.
          or_panic s1 (sc_set_pcpu s1 pcpu (Some (d, vcpu))) (\<lambda>s2.
          (Ok (), s2)))))"

definition sc_preempt ::
  "SchedSystem \<Rightarrow> DomId \<Rightarrow> Vcpu \<Rightarrow> Ticks \<Rightarrow> (unit, SchedError) result \<times> SchedSystem" where
  "sc_preempt s d vcpu now =
     propagate (sc_running_pcpu s d vcpu) s (\<lambda>pcpu.
     or_panic s (sc_account s d vcpu now) (\<lambda>s1.
     or_panic s1 (sc_set_pcpu s1 pcpu None) (\<lambda>s2.
     or_panic s2 (sc_vcpu_mut s2 d vcpu (\<lambda>v. v\<lparr>vc_state := Runnable\<rparr>)) (\<lambda>s3.
     (Ok (), s3)))))"

text \<open>Leaving a CPU, the branch that \<open>block\<close> and \<open>offline\<close> share.\<close>

definition sc_leave_cpu :: "SchedSystem \<Rightarrow> DomId \<Rightarrow> Vcpu \<Rightarrow> RunState \<Rightarrow> Ticks \<Rightarrow> SchedSystem option" where
  "sc_leave_cpu s d vcpu st now =
     (case st of
        Running pcpu \<Rightarrow> Option.bind (sc_account s d vcpu now) (\<lambda>s1. sc_set_pcpu s1 pcpu None)
      | _ \<Rightarrow> Some s)"

definition sc_block ::
  "SchedSystem \<Rightarrow> DomId \<Rightarrow> Vcpu \<Rightarrow> Ticks \<Rightarrow> (unit, SchedError) result \<times> SchedSystem" where
  "sc_block s d vcpu now =
     propagate (sc_vcpu s d vcpu) s (\<lambda>v.
     if vc_state v = Offline \<or> vc_state v = Blocked then (Err WrongState, s)
     else
       or_panic s (sc_leave_cpu s d vcpu (vc_state v) now) (\<lambda>s1.
       or_panic s1 (sc_vcpu_mut s1 d vcpu (\<lambda>v. v\<lparr>vc_state := Blocked\<rparr>)) (\<lambda>s2.
       (Ok (), s2))))"

definition sc_wake ::
  "SchedSystem \<Rightarrow> DomId \<Rightarrow> Vcpu \<Rightarrow> (unit, SchedError) result \<times> SchedSystem" where
  "sc_wake s d vcpu =
     propagate (sc_vcpu s d vcpu) s (\<lambda>v.
     if vc_state v \<noteq> Blocked then (Err WrongState, s)
     else (Ok (), sc_put s d vcpu (v\<lparr>vc_state := Runnable\<rparr>)))"

definition sc_set_affinity ::
  "SchedSystem \<Rightarrow> DomId \<Rightarrow> Vcpu \<Rightarrow> mask \<Rightarrow> (unit, SchedError) result \<times> SchedSystem" where
  "sc_set_affinity s d vcpu aff =
     (let m = aff AND sc_full_affinity s in
      propagate (sc_vcpu s d vcpu) s (\<lambda>v.
      if (case vc_state v of Running pcpu \<Rightarrow> \<not> mask_permits m pcpu | _ \<Rightarrow> False)
      then (Err NotAffine, s)
      else
        or_panic s (sc_vcpu_mut s d vcpu (\<lambda>v. v\<lparr>affinity := m\<rparr>)) (\<lambda>s1.
        (Ok (), s1))))"

definition sc_offline ::
  "SchedSystem \<Rightarrow> DomId \<Rightarrow> Vcpu \<Rightarrow> Ticks \<Rightarrow> (unit, SchedError) result \<times> SchedSystem" where
  "sc_offline s d vcpu now =
     propagate (sc_vcpu s d vcpu) s (\<lambda>v.
     if vc_state v = Offline then (Err WrongState, s)
     else
       or_panic s (sc_leave_cpu s d vcpu (vc_state v) now) (\<lambda>s1.
       or_panic s1 (sc_vcpu_mut s1 d vcpu
         (\<lambda>v. v\<lparr>vc_state := Offline, affinity := sc_full_affinity s1\<rparr>)) (\<lambda>s2.
       (Ok (), s2))))"

definition sc_offline_all :: "SchedSystem \<Rightarrow> DomId \<Rightarrow> Ticks \<Rightarrow> SchedSystem option" where
  "sc_offline_all s d now =
     for_each (\<lambda>vcpu s.
       if sc_state_of s d vcpu \<noteq> Some Offline
       then (case sc_offline s d vcpu now of (Panic, _) \<Rightarrow> None | (_, s') \<Rightarrow> Some s')
       else Some s) [0..<as_u32 (sc_vcpu_count s d)] s"

section \<open>The invariant check\<close>

definition sc_vcpu_violation ::
  "SchedSystem \<Rightarrow> nat \<Rightarrow> nat \<Rightarrow> VirtualCpu \<Rightarrow> SchedViolation option" where
  "sc_vcpu_violation s d c vc =
     (case vc_state vc of
        Running pcpu \<Rightarrow>
          (case vec_get (pcpus s) pcpu of
             None \<Rightarrow> Some (RunningGhostPcpu d c)
           | Some occ \<Rightarrow>
               if occ \<noteq> Some (as_u16 d, as_u32 c) then Some (OccupancyBroken d c)
               else if \<not> mask_permits (affinity vc) pcpu then Some (RunningOffAffinity d c)
               else None)
      | _ \<Rightarrow> None)"

definition sc_pcpu_violation ::
  "SchedSystem \<Rightarrow> nat \<Rightarrow> (DomId \<times> Vcpu) option \<Rightarrow> SchedViolation option" where
  "sc_pcpu_violation s p occ =
     (case occ of
        None \<Rightarrow> None
      | Some (d, vcpu) \<Rightarrow>
          (case sc_vcpu s d vcpu of
             Ok vc \<Rightarrow> if vc_state vc \<noteq> Running (as_u32 p) then Some (OccupantNotRunning p) else None
           | _ \<Rightarrow> Some (OccupantGhost p)))"

definition sc_first_violation :: "SchedSystem \<Rightarrow> SchedViolation option" where
  "sc_first_violation s =
     or_else
       (find_map (\<lambda>(d, vcpus). find_map (\<lambda>(c, vc). sc_vcpu_violation s d c vc) (enumerate 0 vcpus))
          (enumerate 0 (sc_domains s)))
       (find_map (\<lambda>(p, occ). sc_pcpu_violation s p occ) (enumerate 0 (pcpus s)))"

definition sc_invariants_hold :: "SchedSystem \<Rightarrow> bool" where
  "sc_invariants_hold s \<longleftrightarrow> sc_first_violation s = None"

section \<open>The invariant as a predicate\<close>

definition sc_fits :: "SchedSystem \<Rightarrow> bool" where
  "sc_fits s \<longleftrightarrow> length (sc_domains s) < u16_size \<and>
     (\<forall>vcpus \<in> set (sc_domains s). length vcpus < u32_size) \<and> length (pcpus s) < u32_size"

definition sc_get :: "SchedSystem \<Rightarrow> DomId \<Rightarrow> Vcpu \<Rightarrow> VirtualCpu option" where
  "sc_get s d v = tbl_get (sc_domains s) d v"

text \<open>A vCPU is running on a pCPU exactly when the pCPU names it, and its mask permits it.\<close>

definition sc_inv :: "SchedSystem \<Rightarrow> bool" where
  "sc_inv s \<longleftrightarrow>
     (\<forall>d v vc p. sc_get s d v = Some vc \<longrightarrow> vc_state vc = Running p \<longrightarrow>
        vec_get (pcpus s) p = Some (Some (d, v)) \<and> mask_permits (affinity vc) p) \<and>
     (\<forall>p d v. vec_get (pcpus s) p = Some (Some (d, v)) \<longrightarrow> sc_state_of s d v = Some (Running p))"

definition sc_ok :: "SchedSystem \<Rightarrow> bool" where
  "sc_ok s \<longleftrightarrow> sc_fits s \<and> sc_inv s"

datatype ScOp =
    OpAdmit DomId Vcpu
  | OpRun DomId Vcpu Pcpu Ticks
  | OpPreempt DomId Vcpu Ticks
  | OpBlock DomId Vcpu Ticks
  | OpWake DomId Vcpu
  | OpSetAffinity DomId Vcpu mask
  | OpOffline DomId Vcpu Ticks

fun sc_apply :: "SchedSystem \<Rightarrow> ScOp \<Rightarrow> (unit, SchedError) result \<times> SchedSystem" where
  "sc_apply s (OpAdmit d v) = sc_admit s d v"
| "sc_apply s (OpRun d v p now) = sc_run s d v p now"
| "sc_apply s (OpPreempt d v now) = sc_preempt s d v now"
| "sc_apply s (OpBlock d v now) = sc_block s d v now"
| "sc_apply s (OpWake d v) = sc_wake s d v"
| "sc_apply s (OpSetAffinity d v m) = sc_set_affinity s d v m"
| "sc_apply s (OpOffline d v now) = sc_offline s d v now"

section \<open>Access lemmas\<close>

lemma mask_permits_iff: "mask_permits m p \<longleftrightarrow> p < 64 \<and> bit m p"
  by (simp add: mask_permits_def bit_iff_and_push_bit_not_eq_0)

lemma sc_put_simps [simp]:
  "sc_domains (sc_put s d v c) = tbl_set (sc_domains s) d v c" "pcpus (sc_put s d v c) = pcpus s"
  by (simp_all add: sc_put_def)

interpretation sc: slot_table sc_get sc_put
  by unfold_locales (auto simp: sc_get_def sc_put_def tbl_get_set tbl_set_same)

lemma sc_vcpu_simps [simp]:
  "sc_vcpu s d v = Ok c \<longleftrightarrow> sc_get s d v = Some c" "sc_vcpu s d v \<noteq> Panic"
  "result_ok (sc_vcpu s d v) = sc_get s d v"
  by (auto simp: sc_vcpu_def sc_get_def)

lemma sc_vcpu_eq:
  "sc_vcpu s d v = (case sc_get s d v of Some c \<Rightarrow> Ok c
     | None \<Rightarrow> Err (if d < length (sc_domains s) then BadVcpu else BadDomain))"
  by (auto simp: sc_vcpu_def slot_ref_eq sc_get_def)

lemma sc_state_of_eq: "sc_state_of s d v = map_option vc_state (sc_get s d v)"
  by (simp add: sc_state_of_def)

lemma sc_vcpu_mut_eq: "sc_vcpu_mut s d v f = map_option (\<lambda>c. sc_put s d v (f c)) (sc_get s d v)"
  by (simp add: sc_vcpu_mut_def)

lemma sc_get_pcpus [simp]: "sc_get (s\<lparr>pcpus := ps\<rparr>) d v = sc_get s d v"
  by (simp add: sc_get_def)

lemma sc_put_pcpus: "sc_put (s\<lparr>pcpus := ps\<rparr>) d v c = (sc_put s d v c)\<lparr>pcpus := ps\<rparr>"
  by (simp add: sc_put_def)

lemma sc_put_put [simp]: "sc_put (sc_put s d v c) d v c' = sc_put s d v c'"
  by (cases "d < length (sc_domains s)") (auto simp: sc_put_def tbl_set_def list_update_beyond)

lemma sc_vcpu_count_eq: "sc_vcpu_count s d = tbl_row_len (sc_domains s) d"
  by (auto simp: sc_vcpu_count_def vec_get_def tbl_row_len_def)

lemma sc_get_range: "sc_get s d v \<noteq> None \<longleftrightarrow> d < sc_domain_count s \<and> v < sc_vcpu_count s d"
  unfolding sc_get_def tbl_get_in_range sc_domain_count_def sc_vcpu_count_eq ..

lemma sc_fits_iff:
  "sc_fits s \<longleftrightarrow> sc_domain_count s < u16_size \<and> (\<forall>d. sc_vcpu_count s d < u32_size) \<and>
     sc_pcpu_count s < u32_size"
  by (auto simp: sc_fits_def sc_domain_count_def sc_vcpu_count_eq tbl_row_len_def sc_pcpu_count_def
      all_set_conv_all_nth)

lemma sc_counts [shape_simps, simp]:
  "sc_domain_count (sc_put s d v c) = sc_domain_count s"
  "sc_vcpu_count (sc_put s d v c) d' = sc_vcpu_count s d'"
  "sc_pcpu_count (sc_put s d v c) = sc_pcpu_count s"
  "sc_domain_count (s\<lparr>pcpus := ps\<rparr>) = sc_domain_count s"
  "sc_vcpu_count (s\<lparr>pcpus := ps\<rparr>) d' = sc_vcpu_count s d'"
  "sc_pcpu_count (s\<lparr>pcpus := ps\<rparr>) = length ps"
  by (auto simp: sc_domain_count_def sc_vcpu_count_eq sc_pcpu_count_def)

lemma sc_vcpu_violation_None:
  assumes "as_u16 d = d" "as_u32 v = v"
  shows "sc_vcpu_violation s d v vc = None \<longleftrightarrow>
     (\<forall>p. vc_state vc = Running p \<longrightarrow>
        vec_get (pcpus s) p = Some (Some (d, v)) \<and> mask_permits (affinity vc) p)"
  using assms by (cases "vc_state vc") (auto simp: sc_vcpu_violation_def split: option.splits)

lemma sc_pcpu_violation_None:
  assumes "as_u32 p = p"
  shows "sc_pcpu_violation s p occ = None \<longleftrightarrow>
     (\<forall>d v. occ = Some (d, v) \<longrightarrow> sc_state_of s d v = Some (Running p))"
  using assms
  by (cases occ)
    (auto simp: sc_pcpu_violation_def sc_vcpu_eq sc_state_of_eq split: option.splits if_splits)

lemma sc_first_violation_None:
  assumes "sc_fits s"
  shows "sc_first_violation s = None \<longleftrightarrow> sc_inv s"
proof -
  have w: "as_u16 d = d" "as_u32 v = v" if "sc_get s d v = Some c" for d v c
  proof -
    have "d < u16_size" "v < u32_size"
      using that assms sc_get_range [of s d v] by (auto simp: sc_fits_iff intro: order.strict_trans)
    then show "as_u16 d = d" "as_u32 v = v" by simp_all
  qed
  have wp: "as_u32 p = p" if "vec_get (pcpus s) p = Some occ" for p occ
    using that assms by (auto simp: vec_get_Some sc_fits_def)
  have "find_map (\<lambda>(d, vcpus). find_map (\<lambda>(c, vc). sc_vcpu_violation s d c vc) (enumerate 0 vcpus))
          (enumerate 0 (sc_domains s)) = None \<longleftrightarrow>
        (\<forall>d v vc. sc_get s d v = Some vc \<longrightarrow> sc_vcpu_violation s d v vc = None)"
    by (auto simp: find_map_enumerate_None sc_get_def tbl_get_Some)
  moreover have "\<dots> \<longleftrightarrow> (\<forall>d v vc p. sc_get s d v = Some vc \<longrightarrow> vc_state vc = Running p \<longrightarrow>
        vec_get (pcpus s) p = Some (Some (d, v)) \<and> mask_permits (affinity vc) p)"
    using sc_vcpu_violation_None [OF w] by metis
  moreover have "find_map (\<lambda>(p, occ). sc_pcpu_violation s p occ) (enumerate 0 (pcpus s)) = None \<longleftrightarrow>
        (\<forall>p occ. vec_get (pcpus s) p = Some occ \<longrightarrow> sc_pcpu_violation s p occ = None)"
    by (auto simp: find_map_enumerate_None vec_get_Some)
  moreover have "\<dots> \<longleftrightarrow>
        (\<forall>p d v. vec_get (pcpus s) p = Some (Some (d, v)) \<longrightarrow> sc_state_of s d v = Some (Running p))"
    using sc_pcpu_violation_None [OF wp] by (metis option.distinct(1) option.inject prod.collapse not_None_eq)
  ultimately show ?thesis by (simp add: sc_first_violation_def sc_inv_def)
qed

section \<open>Every transition is well behaved\<close>

lemma sc_fits_simps [simp]:
  "sc_fits (sc_put s d v c) = sc_fits s"
  "length ps = length (pcpus s) \<Longrightarrow> sc_fits (s\<lparr>pcpus := ps\<rparr>) = sc_fits s"
  by (auto simp: sc_fits_iff) (auto simp: sc_pcpu_count_def)

lemma sc_okI:
  assumes "sc_fits s"
    and "\<And>d v vc p. sc_get s d v = Some vc \<Longrightarrow> vc_state vc = Running p \<Longrightarrow>
        vec_get (pcpus s) p = Some (Some (d, v)) \<and> mask_permits (affinity vc) p"
    and "\<And>p d v. vec_get (pcpus s) p = Some (Some (d, v)) \<Longrightarrow>
        \<exists>vc. sc_get s d v = Some vc \<and> vc_state vc = Running p"
  shows "sc_ok s"
  using assms by (auto simp: sc_ok_def sc_inv_def sc_state_of_eq)

lemma sc_ok_runs:
  assumes "sc_ok s" "sc_get s d v = Some vc" "vc_state vc = Running p"
  shows "vec_get (pcpus s) p = Some (Some (d, v))" "mask_permits (affinity vc) p"
  using assms by (auto simp: sc_ok_def sc_inv_def)

lemma sc_ok_occupies:
  assumes "sc_ok s" "vec_get (pcpus s) p = Some (Some (d, v))"
  obtains vc where "sc_get s d v = Some vc" "vc_state vc = Running p"
  using assms unfolding sc_ok_def sc_inv_def sc_state_of_eq map_option_eq_Some by blast

lemma sc_ok_idle:
  assumes "sc_ok s" "sc_get s d v = Some c"
    and "\<And>p. vc_state c \<noteq> Running p" "\<And>p. vc_state c' \<noteq> Running p"
  shows "sc_ok (sc_put s d v c')"
  using assms by (fastforce simp: sc_ok_def sc_inv_def sc.get_put sc_state_of_eq split: if_splits)

lemma sc_ok_same_state:
  assumes "sc_ok s" "sc_get s d v = Some c" "vc_state c' = vc_state c"
    and "\<And>p. vc_state c = Running p \<Longrightarrow> mask_permits (affinity c') p"
  shows "sc_ok (sc_put s d v c')"
  using assms by (fastforce simp: sc_ok_def sc_inv_def sc.get_put sc_state_of_eq split: if_splits)

text \<open>Writing one vCPU and the occupancy of one pCPU.\<close>

lemma sc_get_put_at:
  assumes "sc_get s d v = Some c"
  shows "sc_get (sc_put s d v c') d' v' =
    (if (d', v') = (d, v) then Some c' else sc_get s d' v')"
  using assms by (auto simp: sc.get_put)

lemma sc_ok_dispatch:
  assumes ok: "sc_ok s" and g: "sc_get s d v = Some c" "\<And>p. vc_state c \<noteq> Running p"
    and p: "vec_get (pcpus s) p = Some None" and c': "vc_state c' = Running p" "mask_permits (affinity c') p"
  shows "sc_ok ((sc_put s d v c')\<lparr>pcpus := (pcpus s)[p := Some (d, v)]\<rparr>)" (is "sc_ok ?t")
proof (rule sc_okI)
  show "sc_fits ?t" using ok by (simp add: sc_ok_def)
next
  fix d' v' vc q assume *: "sc_get ?t d' v' = Some vc" "vc_state vc = Running q"
  show "vec_get (pcpus ?t) q = Some (Some (d', v')) \<and> mask_permits (affinity vc) q"
  proof (cases "(d', v') = (d, v)")
    case True
    with * p c' show ?thesis by (simp add: sc_get_put_at [OF g(1)] vec_get_update vec_get_Some)
  next
    case False
    with * have "sc_get s d' v' = Some vc" by (auto simp: sc_get_put_at [OF g(1)] split: if_splits)
    from sc_ok_runs [OF ok this *(2)] p show ?thesis by (auto simp: vec_get_update)
  qed
next
  fix q d' v' assume *: "vec_get (pcpus ?t) q = Some (Some (d', v'))"
  show "\<exists>vc. sc_get ?t d' v' = Some vc \<and> vc_state vc = Running q"
  proof (cases "q = p")
    case True
    with * p have "d' = d" "v' = v" by (auto simp: vec_get_update vec_get_Some)
    with True c' show ?thesis by (simp add: sc_get_put_at [OF g(1)])
  next
    case False
    with * have "vec_get (pcpus s) q = Some (Some (d', v'))" by (simp add: vec_get_update)
    from sc_ok_occupies [OF ok this] obtain vc where
      "sc_get s d' v' = Some vc" "vc_state vc = Running q" .
    with g show ?thesis by (auto simp: sc_get_put_at [OF g(1)])
  qed
qed

lemma sc_ok_leave:
  assumes ok: "sc_ok s" and g: "sc_get s d v = Some c" "vc_state c = Running p"
    and c': "\<And>q. vc_state c' \<noteq> Running q"
  shows "sc_ok ((sc_put s d v c')\<lparr>pcpus := (pcpus s)[p := None]\<rparr>)" (is "sc_ok ?t")
proof (rule sc_okI)
  show "sc_fits ?t" using ok by (simp add: sc_ok_def)
next
  note p = sc_ok_runs(1) [OF ok g]
  fix d' v' vc q assume *: "sc_get ?t d' v' = Some vc" "vc_state vc = Running q"
  have ne: "(d', v') \<noteq> (d, v)"
    using * c' [of q] by (auto simp: sc_get_put_at [OF g(1)] split: if_splits)
  with * have "sc_get s d' v' = Some vc" by (auto simp: sc_get_put_at [OF g(1)] split: if_splits)
  from sc_ok_runs [OF ok this *(2)] p ne
  show "vec_get (pcpus ?t) q = Some (Some (d', v')) \<and> mask_permits (affinity vc) q"
    by (auto simp: vec_get_update)
next
  fix q d' v' assume *: "vec_get (pcpus ?t) q = Some (Some (d', v'))"
  then have q: "vec_get (pcpus s) q = Some (Some (d', v'))" "q \<noteq> p"
    by (auto simp: vec_get_update vec_get_Some split: if_splits)
  from sc_ok_occupies [OF ok q(1)] obtain vc where
    vc: "sc_get s d' v' = Some vc" "vc_state vc = Running q" .
  with g q(2) have "(d', v') \<noteq> (d, v)" by auto
  with vc show "\<exists>vc. sc_get ?t d' v' = Some vc \<and> vc_state vc = Running q"
    by (auto simp: sc_get_put_at [OF g(1)])
qed

lemma sc_ok_running:
  assumes "sc_ok s" "sc_get s d v = Some c" "vc_state c = Running p"
  shows "p < length (pcpus s)"
  using sc_ok_runs [OF assms] by (simp add: vec_get_Some)

lemma sc_affinity_permits_iff:
  "sc_affinity_permits s d v p \<longleftrightarrow> (\<exists>c. sc_get s d v = Some c \<and> mask_permits (affinity c) p)"
  by (auto simp: sc_affinity_permits_def sc_vcpu_eq split: option.splits)

lemma sc_admit_wb: "sc_ok s \<Longrightarrow> well_behaved sc_ok s (sc_admit s d v)"
  unfolding sc_admit_def by (intro wb_intros) (auto intro!: sc_ok_idle)

lemma sc_wake_wb: "sc_ok s \<Longrightarrow> well_behaved sc_ok s (sc_wake s d v)"
  unfolding sc_wake_def by (intro wb_intros) (auto intro!: sc_ok_idle)

lemma sc_run_wb: "sc_ok s \<Longrightarrow> well_behaved sc_ok s (sc_run s d v p now)"
  unfolding sc_run_def
  by (intro wb_intros)
    (auto simp: sc_vcpu_mut_eq sc_set_pcpu_def sc_affinity_permits_iff vec_get_def
      simp del: not_None_eq split: if_splits intro!: sc_ok_dispatch)

lemma sc_running_pcpu_Ok:
  "sc_running_pcpu s d v = Ok p \<longleftrightarrow> (\<exists>c. sc_get s d v = Some c \<and> vc_state c = Running p)"
  by (auto simp: sc_running_pcpu_def sc_vcpu_eq split: option.splits RunState.splits)

lemma sc_running_pcpu_not_Panic [simp]: "sc_running_pcpu s d v \<noteq> Panic"
  by (auto simp: sc_running_pcpu_def sc_vcpu_eq split: option.splits RunState.splits)

lemma sc_preempt_wb: "sc_ok s \<Longrightarrow> well_behaved sc_ok s (sc_preempt s d v now)"
  unfolding sc_preempt_def
  by (intro wb_intros)
    (auto simp: sc_running_pcpu_Ok sc_account_def sc_vcpu_mut_eq sc_set_pcpu_def sc.get_put
      sc_put_pcpus sc_ok_running intro!: sc_ok_leave split: if_splits)

lemma sc_leave_cpu_Some:
  assumes "sc_ok s" "sc_get s d v = Some c"
  shows "\<exists>s1 c1. sc_leave_cpu s d v (vc_state c) now = Some s1 \<and> sc_get s1 d v = Some c1 \<and>
     sc_full_affinity s1 = sc_full_affinity s \<and>
     (\<forall>c'. (\<forall>q. vc_state c' \<noteq> Running q) \<longrightarrow> sc_ok (sc_put s1 d v c'))"
proof (cases "vc_state c")
  case (Running p)
  with assms have "p < length (pcpus s)" by (auto intro: sc_ok_running)
  with assms Running show ?thesis
    by (auto simp: sc_leave_cpu_def sc_account_def sc_vcpu_mut_eq sc_set_pcpu_def sc.get_put
        sc_put_pcpus sc_full_affinity_def intro!: sc_ok_leave)
qed (use assms in \<open>auto simp: sc_leave_cpu_def intro: sc_ok_idle\<close>)

lemma sc_block_wb: "sc_ok s \<Longrightarrow> well_behaved sc_ok s (sc_block s d v now)"
  unfolding sc_block_def
  by (intro wb_intros) (auto simp: sc_vcpu_mut_eq dest!: sc_leave_cpu_Some [where now = now])

lemma sc_offline_wb: "sc_ok s \<Longrightarrow> well_behaved sc_ok s (sc_offline s d v now)"
  unfolding sc_offline_def
  by (intro wb_intros) (auto simp: sc_vcpu_mut_eq dest!: sc_leave_cpu_Some [where now = now])

lemma sc_set_affinity_wb: "sc_ok s \<Longrightarrow> well_behaved sc_ok s (sc_set_affinity s d v m)"
  unfolding sc_set_affinity_def Let_def
  by (intro wb_intros)
    (auto simp: sc_vcpu_mut_eq intro!: sc_ok_same_state split: RunState.splits)

lemmas sc_wb = sc_admit_wb sc_wake_wb sc_run_wb sc_preempt_wb sc_block_wb sc_offline_wb sc_set_affinity_wb

lemma sc_apply_wb: "sc_ok s \<Longrightarrow> well_behaved sc_ok s (sc_apply s a)"
  by (cases a) (auto intro: sc_wb)

lemma sc_get_new:
  "sc_get (sc_new n m k) d v =
     (if d < n \<and> v < m then Some (VC_OFFLINE\<lparr>affinity := full_mask k\<rparr>) else None)"
  by (auto simp: sc_get_def sc_new_def tbl_get_def)

lemma sc_new_ok: "n < u16_size \<Longrightarrow> m < u32_size \<Longrightarrow> k < u32_size \<Longrightarrow> sc_ok (sc_new n m k)"
  by (auto simp: sc_ok_def sc_inv_def sc_get_new VC_OFFLINE_def)
    (auto simp: sc_new_def sc_fits_def vec_get_def split: if_splits)

interpretation scm: refusing_machine
  "\<lambda>s. \<exists>n m k. n < u16_size \<and> m < u32_size \<and> k < u32_size \<and> s = sc_new n m k"
  "\<lambda>s a. snd (sc_apply s a)" sc_ok "\<lambda>s a. is_Ok (fst (sc_apply s a))"
proof unfold_locales
  fix s :: SchedSystem and a :: ScOp
  assume "sc_ok s"
  then have wb: "well_behaved sc_ok s (sc_apply s a)" by (rule sc_apply_wb)
  then show "sc_ok (snd (sc_apply s a))" by (simp add: well_behaved_def)
  assume "\<not> is_Ok (fst (sc_apply s a))"
  with wb show "snd (sc_apply s a) = s"
    by (cases "fst (sc_apply s a)") (auto simp: well_behaved_def)
qed (auto intro: sc_new_ok)

section \<open>What the transitions do\<close>

lemma sc_no_violation: "sc_ok s \<Longrightarrow> sc_first_violation s = None"
  by (simp add: sc_ok_def sc_first_violation_None)

lemma sc_ok_checked: "sc_fits s \<Longrightarrow> sc_first_violation s = None \<Longrightarrow> sc_ok s"
  by (simp add: sc_ok_def sc_first_violation_None)

lemma sc_occupant_iff: "sc_occupant s p = Some o' \<longleftrightarrow> vec_get (pcpus s) p = Some (Some o')"
  by (auto simp: sc_occupant_def Option.bind_eq_Some_conv)

lemma sc_exclusive:
  assumes "sc_ok s" "sc_state_of s d v = Some (Running p)" "sc_state_of s d' v' = Some (Running p)"
  shows "(d', v') = (d, v)"
  using assms(2,3) sc_ok_runs(1) [OF assms(1), of d v _ p] sc_ok_runs(1) [OF assms(1), of d' v' _ p]
  by (auto simp: sc_state_of_eq)

lemma sc_run_effect:
  assumes "sc_run s d v p now = (Ok (), s')"
  shows "\<exists>c. sc_get s d v = Some c \<and> vc_state c = Runnable \<and> mask_permits (affinity c) p \<and>
    vec_get (pcpus s) p = Some None \<and>
    s' = (sc_put s d v (c\<lparr>vc_state := Running p, dispatched_at := now\<rparr>))\<lparr>pcpus := (pcpus s)[p := Some (d, v)]\<rparr>"
  using assms
  by (auto simp: sc_run_def sc_vcpu_mut_eq sc_set_pcpu_def sc_affinity_permits_iff vec_get_def
      simp del: not_None_eq split: if_splits)

lemma sc_run_accepts:
  assumes "sc_get s d v = Some c" "vc_state c = Runnable" "mask_permits (affinity c) p"
    "vec_get (pcpus s) p = Some None"
  shows "sc_run s d v p now = (Ok (), (sc_put s d v (c\<lparr>vc_state := Running p, dispatched_at := now\<rparr>))
     \<lparr>pcpus := (pcpus s)[p := Some (d, v)]\<rparr>)"
  using assms
  by (auto simp: sc_run_def sc_vcpu_eq sc_vcpu_mut_eq sc_set_pcpu_def sc_affinity_permits_iff vec_get_Some)

text \<open>A vCPU taken down: its interval is closed, its mask returns to the default.\<close>

definition sc_charged :: "Ticks \<Rightarrow> VirtualCpu \<Rightarrow> Ticks" where
  "sc_charged now c =
     (case vc_state c of
        Running _ \<Rightarrow> sat_add_u64 (runtime c) (now - dispatched_at c)
      | _ \<Rightarrow> runtime c)"

definition sc_vacated :: "(DomId \<times> Vcpu \<Rightarrow> bool) \<Rightarrow> (DomId \<times> Vcpu) option list \<Rightarrow> (DomId \<times> Vcpu) option list" where
  "sc_vacated P ps = map (\<lambda>oc. case oc of None \<Rightarrow> None | Some x \<Rightarrow> if P x then None else oc) ps"

lemma sc_vacate_one:
  assumes ok: "sc_ok s" and g: "sc_get s d v = Some c"
  shows "(case vc_state c of Running p \<Rightarrow> (pcpus s)[p := None] | _ \<Rightarrow> pcpus s) =
    sc_vacated (\<lambda>x. x = (d, v)) (pcpus s)"
proof (rule nth_equalityI)
  fix i assume "i < length (case vc_state c of Running p \<Rightarrow> (pcpus s)[p := None] | _ \<Rightarrow> pcpus s)"
  then have i: "i < length (pcpus s)" by (auto split: RunState.splits)
  have "vc_state c = Running i" if "pcpus s ! i = Some (d, v)"
    using sc_ok_occupies [OF ok, of i d v] that i g by (auto simp: vec_get_Some)
  moreover have "pcpus s ! i = Some (d, v)" if "vc_state c = Running i"
    using sc_ok_runs(1) [OF ok g that] by (simp add: vec_get_Some)
  ultimately have "vc_state c = Running i \<longleftrightarrow> pcpus s ! i = Some (d, v)" by blast
  then show "(case vc_state c of Running p \<Rightarrow> (pcpus s)[p := None] | _ \<Rightarrow> pcpus s) ! i =
      sc_vacated (\<lambda>x. x = (d, v)) (pcpus s) ! i"
    using i by (cases "vc_state c")
      (auto simp: sc_vacated_def nth_list_update split: option.splits)
qed (auto simp: sc_vacated_def split: RunState.splits)

lemma sc_leave_cpu_effect:
  assumes ok: "sc_ok s" and g: "sc_get s d v = Some c"
  shows "sc_leave_cpu s d v (vc_state c) now =
    Some ((sc_put s d v (c\<lparr>runtime := sc_charged now c\<rparr>))\<lparr>pcpus := sc_vacated (\<lambda>x. x = (d, v)) (pcpus s)\<rparr>)"
proof -
  have *: "sc_put s d v c = s" using g by (rule sc.put_same)
  show ?thesis
    using sc_vacate_one [OF ok g] sc_ok_running [OF ok g] g
    by (cases "vc_state c")
      (auto simp: sc_leave_cpu_def sc_account_def sc_vcpu_mut_eq sc_set_pcpu_def sc_charged_def * )
qed

lemma sc_vacated_length [simp]: "length (sc_vacated P ps) = length ps"
  by (simp add: sc_vacated_def)

lemma sc_offline_effect:
  assumes ok: "sc_ok s" and g: "sc_get s d v = Some c" and st: "vc_state c \<noteq> Offline"
  shows "sc_offline s d v now =
    (Ok (), (sc_put s d v (c\<lparr>runtime := sc_charged now c, vc_state := Offline, affinity := sc_full_affinity s\<rparr>))
       \<lparr>pcpus := sc_vacated (\<lambda>x. x = (d, v)) (pcpus s)\<rparr>)"
  using g st
  by (auto simp: sc_offline_def sc_vcpu_eq sc_leave_cpu_effect [OF ok g] sc_vcpu_mut_eq sc.get_put
      sc_put_pcpus sc_full_affinity_def)

definition sc_downed :: "mask \<Rightarrow> Ticks \<Rightarrow> VirtualCpu \<Rightarrow> VirtualCpu" where
  "sc_downed full now c =
     (if vc_state c = Offline then c
      else c\<lparr>runtime := sc_charged now c, vc_state := Offline, affinity := full\<rparr>)"

lemma sc_vacated_step:
  "sc_vacated (\<lambda>x. x = (d, k)) (sc_vacated (\<lambda>x. fst x = d \<and> snd x < k) ps) =
   sc_vacated (\<lambda>x. fst x = d \<and> snd x < Suc k) ps"
  by (auto simp: sc_vacated_def less_Suc_eq split: option.splits)

lemma sc_vacated_none: "(\<And>x. Some x \<in> set ps \<Longrightarrow> \<not> P x) \<Longrightarrow> sc_vacated P ps = ps"
  by (auto simp: sc_vacated_def intro!: map_idI split: option.splits)

text \<open>The state of the teardown loop after the vCPUs below \<open>k\<close>.\<close>

definition sc_down_upto :: "SchedSystem \<Rightarrow> DomId \<Rightarrow> Ticks \<Rightarrow> nat \<Rightarrow> SchedSystem \<Rightarrow> bool" where
  "sc_down_upto s d now k t \<longleftrightarrow>
     sc_ok t \<and>
     (\<forall>d' v'. sc_get t d' v' =
        (if d' = d \<and> v' < k then map_option (sc_downed (sc_full_affinity s) now) (sc_get s d' v')
         else sc_get s d' v')) \<and>
     pcpus t = sc_vacated (\<lambda>x. fst x = d \<and> snd x < k) (pcpus s)"

lemma sc_down_step:
  assumes ok: "sc_ok s" and k: "k < sc_vcpu_count s d" and t: "sc_down_upto s d now k t"
  shows "\<exists>t'. (if sc_state_of t d k \<noteq> Some Offline
       then (case sc_offline t d k now of (Panic, _) \<Rightarrow> None | (_, s') \<Rightarrow> Some s')
       else Some t) = Some t' \<and> sc_down_upto s d now (Suc k) t'"
proof -
  have tok: "sc_ok t" and tg: "\<And>d' v'. sc_get t d' v' =
        (if d' = d \<and> v' < k then map_option (sc_downed (sc_full_affinity s) now) (sc_get s d' v')
         else sc_get s d' v')"
    and tp: "pcpus t = sc_vacated (\<lambda>x. fst x = d \<and> snd x < k) (pcpus s)"
    using t by (auto simp: sc_down_upto_def)
  have full: "sc_full_affinity t = sc_full_affinity s" by (simp add: sc_full_affinity_def tp)
  have "d < sc_domain_count s"
    using k by (auto simp: sc_vcpu_count_eq tbl_row_len_def sc_domain_count_def split: if_splits)
  then obtain c where c: "sc_get s d k = Some c" using sc_get_range [of s d k] k by auto
  then have ct: "sc_get t d k = Some c" by (simp add: tg)
  show ?thesis
  proof (cases "vc_state c = Offline")
    case True
    have "sc_vacated (\<lambda>x. x = (d, k)) (pcpus t) = pcpus t"
      using sc_vacate_one [OF tok ct] True by simp
    then have p: "pcpus t = sc_vacated (\<lambda>x. fst x = d \<and> snd x < Suc k) (pcpus s)"
      by (simp add: tp sc_vacated_step)
    have g: "sc_get t d' v' = (if d' = d \<and> v' < Suc k
        then map_option (sc_downed (sc_full_affinity s) now) (sc_get s d' v') else sc_get s d' v')" for d' v'
      using c True by (auto simp: tg less_Suc_eq sc_downed_def)
    have "sc_down_upto s d now (Suc k) t" unfolding sc_down_upto_def using tok p g by blast
    with True ct show ?thesis by (simp add: sc_state_of_eq)
  next
    case False
    let ?t = "(sc_put t d k (c\<lparr>runtime := sc_charged now c, vc_state := Offline, affinity := sc_full_affinity t\<rparr>))
       \<lparr>pcpus := sc_vacated (\<lambda>x. x = (d, k)) (pcpus t)\<rparr>"
    have off: "sc_offline t d k now = (Ok (), ?t)" using tok ct False by (rule sc_offline_effect)
    have okt: "sc_ok ?t" using sc_offline_wb [OF tok, of d k now] off by (simp add: well_behaved_def)
    have g: "sc_get ?t d' v' = (if d' = d \<and> v' < Suc k
        then map_option (sc_downed (sc_full_affinity s) now) (sc_get s d' v') else sc_get s d' v')" for d' v'
      using c ct False by (auto simp: sc_get_put_at [OF ct] tg full less_Suc_eq sc_downed_def)
    have "pcpus ?t = sc_vacated (\<lambda>x. fst x = d \<and> snd x < Suc k) (pcpus s)"
      by (simp add: tp sc_vacated_step)
    with okt g have "sc_down_upto s d now (Suc k) ?t" unfolding sc_down_upto_def by blast
    with off False ct show ?thesis by (auto simp: sc_state_of_eq)
  qed
qed

lemma sc_offline_all_effect:
  assumes ok: "sc_ok s"
  shows "\<exists>t. sc_offline_all s d now = Some t \<and> sc_ok t \<and>
     (\<forall>d' v'. sc_get t d' v' =
        (if d' = d then map_option (sc_downed (sc_full_affinity s) now) (sc_get s d' v')
         else sc_get s d' v')) \<and>
     pcpus t = sc_vacated (\<lambda>x. fst x = d) (pcpus s)"
proof -
  let ?n = "sc_vcpu_count s d"
  have n: "as_u32 ?n = ?n" using ok by (simp add: sc_ok_def sc_fits_iff)
  have 0: "sc_down_upto s d now 0 s"
    using ok by (simp add: sc_down_upto_def sc_vacated_none)
  have "\<exists>t. sc_offline_all s d now = Some t \<and> sc_down_upto s d now ?n t"
    unfolding sc_offline_all_def n
    by (rule for_upt_rule [where I = "sc_down_upto s d now"]) (rule 0 sc_down_step [OF ok]; assumption)+
  then obtain t where t: "sc_offline_all s d now = Some t" "sc_down_upto s d now ?n t" by blast
  have out: "sc_get s d v' = None" if "\<not> v' < ?n" for v' using sc_get_range [of s d v'] that by auto
  have "snd x < ?n" if "Some x \<in> set (pcpus s)" "fst x = d" for x
  proof -
    from that obtain p where "vec_get (pcpus s) p = Some (Some (d, snd x))"
      by (metis in_set_conv_nth prod.collapse vec_get_def)
    from sc_ok_occupies [OF ok this] show ?thesis using out [of "snd x"] by fastforce
  qed
  then have "sc_vacated (\<lambda>x. fst x = d \<and> snd x < ?n) (pcpus s) = sc_vacated (\<lambda>x. fst x = d) (pcpus s)"
    by (auto simp: sc_vacated_def split: option.splits)
  with t out show ?thesis unfolding sc_down_upto_def by (intro exI [of _ t]) auto
qed

text \<open>Accumulated run time only grows.\<close>

lemma sat_add_u64_ge: "r \<le> u64_max \<Longrightarrow> r \<le> sat_add_u64 r x"
  by (simp add: sat_add_u64_def)

lemma sc_charged_ge: "runtime c \<le> u64_max \<Longrightarrow> runtime c \<le> sc_charged now c"
  by (auto simp: sc_charged_def sat_add_u64_ge split: RunState.splits)

lemma sc_block_effect:
  assumes ok: "sc_ok s" and g: "sc_get s d v = Some c" and st: "vc_state c \<noteq> Offline" "vc_state c \<noteq> Blocked"
  shows "sc_block s d v now =
    (Ok (), (sc_put s d v (c\<lparr>runtime := sc_charged now c, vc_state := Blocked\<rparr>))
       \<lparr>pcpus := sc_vacated (\<lambda>x. x = (d, v)) (pcpus s)\<rparr>)"
  using g st
  by (auto simp: sc_block_def sc_vcpu_eq sc_leave_cpu_effect [OF ok g] sc_vcpu_mut_eq sc.get_put
      sc_put_pcpus)

lemma sc_preempt_effect:
  assumes ok: "sc_ok s" and g: "sc_get s d v = Some c" and st: "vc_state c = Running p"
  shows "sc_preempt s d v now =
    (Ok (), (sc_put s d v (c\<lparr>runtime := sc_charged now c, vc_state := Runnable\<rparr>))
       \<lparr>pcpus := (pcpus s)[p := None]\<rparr>)"
  using g st sc_ok_running [OF ok g st]
  by (auto simp: sc_preempt_def sc_running_pcpu_def sc_vcpu_eq sc_account_def sc_vcpu_mut_eq
      sc_set_pcpu_def sc.get_put sc_put_pcpus sc_charged_def)

lemma sc_get_apply:
  assumes ok: "sc_ok s" and acc: "is_Ok (fst (sc_apply s a))" and g: "sc_get s d v = Some c"
    and r: "runtime c \<le> u64_max"
  shows "\<exists>c'. sc_get (snd (sc_apply s a)) d v = Some c' \<and> runtime c \<le> runtime c'"
proof (cases a)
  case (OpRun d' v' p now)
  with acc obtain s' where "sc_run s d' v' p now = (Ok (), s')"
    by (cases "sc_run s d' v' p now") (auto simp: is_Ok_iff)
  from sc_run_effect [OF this] g OpRun \<open>sc_run s d' v' p now = (Ok (), s')\<close>
  show ?thesis by (auto simp: sc.get_put)
next
  case (OpPreempt d' v' now)
  with acc obtain c0 p where "sc_get s d' v' = Some c0" "vc_state c0 = Running p"
    by (auto simp: sc_preempt_def propagate_def sc_running_pcpu_Ok split: result.splits)
  from sc_preempt_effect [OF ok this] g r OpPreempt \<open>sc_get s d' v' = Some c0\<close>
  show ?thesis by (auto simp: sc.get_put sc_charged_ge)
next
  case (OpBlock d' v' now)
  with acc obtain c0 where "sc_get s d' v' = Some c0" "vc_state c0 \<noteq> Offline" "vc_state c0 \<noteq> Blocked"
    by (auto simp: sc_block_def propagate_def split: result.splits if_splits)
  from sc_block_effect [OF ok this] g r OpBlock \<open>sc_get s d' v' = Some c0\<close>
  show ?thesis by (auto simp: sc.get_put sc_charged_ge)
next
  case (OpOffline d' v' now)
  with acc obtain c0 where "sc_get s d' v' = Some c0" "vc_state c0 \<noteq> Offline"
    by (auto simp: sc_offline_def propagate_def split: result.splits if_splits)
  from sc_offline_effect [OF ok this] g r OpOffline \<open>sc_get s d' v' = Some c0\<close>
  show ?thesis by (auto simp: sc.get_put sc_charged_ge)
qed (use acc g in \<open>auto simp: sc_admit_def sc_wake_def sc_set_affinity_def Let_def propagate_def
       sc_vcpu_mut_eq sc.get_put split: result.splits if_splits\<close>)

lemma sc_offline_shape [shape_simps]:
  "sc_offline s d v now = (r, s') \<Longrightarrow> length (sc_domains s') = length (sc_domains s)"
  by (auto simp: sc_offline_def propagate_def or_panic_def sc_leave_cpu_def sc_account_def sc_vcpu_mut_eq
      sc_set_pcpu_def Option.bind_eq_Some_conv
      split: result.splits if_splits option.splits RunState.splits)

section \<open>Properties\<close>

text \<open>
  C27: Whatever sequence of scheduler transitions is applied to a fresh system, the check
  \<open>first_violation\<close> finds nothing, no further transition panics, and no physical CPU is shared:
  two vCPUs that both run on the same pCPU are the same vCPU.
\<close>

theorem sched_runs_consistent:
  assumes "n < u16_size" and "m < u32_size" and "k < u32_size"
    and "s = fold (\<lambda>a s. snd (sc_apply s a)) as (sc_new n m k)"
  shows "sc_first_violation s = None \<and> fst (sc_apply s a) \<noteq> Panic \<and>
    (sc_state_of s d v = Some (Running p) \<and> sc_state_of s d' v' = Some (Running p) \<longrightarrow>
      (d', v') = (d, v))"
proof -
  have ok: "sc_ok s" unfolding assms(4) using assms(1-3) by (intro scm.run_inv sc_new_ok)
  then show ?thesis
    using sc_no_violation [OF ok] sc_apply_wb [OF ok] sc_exclusive [OF ok]
    by (auto simp: well_behaved_def)
qed

theorem sched_runs_consistent_witness:
  "\<exists>s. s = fold (\<lambda>a s. snd (sc_apply s a)) [OpAdmit 0 0, OpAdmit 1 0, OpRun 0 0 1 5, OpRun 1 0 1 6] (sc_new 2 1 2) \<and>
     sc_state_of s 0 0 = Some (Running 1) \<and> sc_state_of s 1 0 = Some Runnable \<and>
     sc_first_violation s = None \<and> fst (sc_apply s (OpRun 1 0 0 7)) \<noteq> Panic"
proof -
  let ?s = "fold (\<lambda>a s. snd (sc_apply s a)) [OpAdmit 0 0, OpAdmit 1 0, OpRun 0 0 1 5, OpRun 1 0 1 6] (sc_new 2 1 2)"
  have "sc_state_of ?s 0 0 = Some (Running 1)" "sc_state_of ?s 1 0 = Some Runnable" by code_simp+
  with sched_runs_consistent [OF _ _ _ refl, of 2 1 2
      "[OpAdmit 0 0, OpAdmit 1 0, OpRun 0 0 1 5, OpRun 1 0 1 6]" "OpRun 1 0 0 7"]
  show ?thesis by auto
qed

text \<open>
  A dispatch is accepted exactly when the vCPU is runnable, its hard affinity permits the
  pCPU and the pCPU is in range and free; it then makes the vCPU the pCPU's occupant, and
  changes no other vCPU and no other pCPU.
\<close>

theorem sched_run_exact:
  "(is_Ok (fst (sc_run s d v p now)) \<longleftrightarrow>
      p < sc_pcpu_count s \<and> sc_state_of s d v = Some Runnable \<and> sc_affinity_permits s d v p \<and>
      sc_occupant s p = None) \<and>
   (is_Ok (fst (sc_run s d v p now)) \<longrightarrow>
      sc_state_of (snd (sc_run s d v p now)) d v = Some (Running p) \<and>
      sc_on_cpu_since (snd (sc_run s d v p now)) d v = Some now \<and>
      sc_occupant (snd (sc_run s d v p now)) p = Some (d, v) \<and>
      (\<forall>d' v'. (d', v') \<noteq> (d, v) \<longrightarrow> sc_vcpu (snd (sc_run s d v p now)) d' v' = sc_vcpu s d' v') \<and>
      (\<forall>q. q \<noteq> p \<longrightarrow> sc_occupant (snd (sc_run s d v p now)) q = sc_occupant s q))"
proof -
  let ?r = "sc_run s d v p now"
  let ?G = "p < sc_pcpu_count s \<and> sc_state_of s d v = Some Runnable \<and> sc_affinity_permits s d v p \<and>
      sc_occupant s p = None"
  have G: ?G if "is_Ok (fst ?r)"
    using that sc_run_effect [of s d v p now "snd ?r"]
    by (cases ?r) (auto simp: is_Ok_iff sc_state_of_eq sc_affinity_permits_iff sc_occupant_def
        vec_get_def sc_pcpu_count_def split: if_splits)
  have R: "\<exists>c. sc_get s d v = Some c \<and> ?r = (Ok (), (sc_put s d v (c\<lparr>vc_state := Running p, dispatched_at := now\<rparr>))
     \<lparr>pcpus := (pcpus s)[p := Some (d, v)]\<rparr>)" if ?G
  proof -
    from that obtain c where "sc_get s d v = Some c" "vc_state c = Runnable" "mask_permits (affinity c) p"
      by (auto simp: sc_state_of_eq sc_affinity_permits_iff)
    moreover have "vec_get (pcpus s) p = Some None"
      using that by (auto simp: sc_occupant_def sc_pcpu_count_def vec_get_def)
    ultimately show ?thesis using sc_run_accepts [of s d v c p now] by blast
  qed
  from G R show ?thesis
    by (auto simp: sc_state_of_eq sc_on_cpu_since_def sc_occupant_def sc_vcpu_eq sc.get_put
        vec_get_update sc_pcpu_count_def)
qed

theorem sched_run_exact_witness:
  "\<exists>s. is_Ok (fst (sc_run s 0 0 1 5)) \<and> sc_occupant (snd (sc_run s 0 0 1 5)) 1 = Some (0, 0)"
proof -
  let ?s = "snd (sc_admit (sc_new 2 1 2) 0 0)"
  have "is_Ok (fst (sc_run ?s 0 0 1 5))" by code_simp
  with sched_run_exact [of ?s 0 0 1 5] show ?thesis by blast
qed

text \<open>
  Taking a whole domain off the CPUs never panics and keeps the invariant: afterwards every
  vCPU of the domain is offline and occupies no pCPU, the pCPUs of other domains keep their
  occupants, the other domains' vCPUs are unchanged, and each interval of a vCPU that was running
  is charged to its run time.
\<close>

theorem sched_offline_all_effect:
  assumes "sc_fits s" and "sc_first_violation s = None"
  shows "\<exists>s'. sc_offline_all s d now = Some s' \<and> sc_first_violation s' = None \<and>
     (\<forall>v < sc_vcpu_count s d. sc_state_of s' d v = Some Offline) \<and>
     (\<forall>d' v. d' \<noteq> d \<longrightarrow> sc_vcpu s' d' v = sc_vcpu s d' v) \<and>
     (\<forall>p. sc_occupant s' p =
        (case sc_occupant s p of Some (d', v) \<Rightarrow> if d' = d then None else Some (d', v) | None \<Rightarrow> None)) \<and>
     (\<forall>v p r t0. sc_state_of s d v = Some (Running p) \<and> sc_runtime s d v = Some r \<and>
        sc_on_cpu_since s d v = Some t0 \<longrightarrow> sc_runtime s' d v = Some (sat_add_u64 r (now - t0)))"
proof -
  have ok: "sc_ok s" using assms by (rule sc_ok_checked)
  from sc_offline_all_effect [OF ok, of d now] obtain t where
    t: "sc_offline_all s d now = Some t" "sc_ok t"
    and g: "\<And>d' v'. sc_get t d' v' = (if d' = d
        then map_option (sc_downed (sc_full_affinity s) now) (sc_get s d' v') else sc_get s d' v')"
    and p: "pcpus t = sc_vacated (\<lambda>x. fst x = d) (pcpus s)" by blast
  have "sc_state_of t d v = Some Offline" if "v < sc_vcpu_count s d" for v
  proof -
    have "sc_get s d v \<noteq> None" using that sc_get_range [of s d v]
      by (auto simp: sc_vcpu_count_eq tbl_row_len_def sc_domain_count_def split: if_splits)
    then obtain c where "sc_get s d v = Some c" by blast
    then show ?thesis by (simp add: sc_state_of_eq g sc_downed_def)
  qed
  moreover have "sc_vcpu t d' v = sc_vcpu s d' v" if "d' \<noteq> d" for d' v
  proof -
    have len: "length (sc_domains t) = length (sc_domains s)"
      using t(1) unfolding sc_offline_all_def
      by (rule for_each_keeps [where P = "\<lambda>u. length (sc_domains u) = length (sc_domains s)", rotated])
        (auto simp: sc_offline_shape split: if_splits prod.splits result.splits)
    show ?thesis using that by (simp add: sc_vcpu_eq g len)
  qed
  moreover have "sc_occupant t q =
        (case sc_occupant s q of Some (d', v) \<Rightarrow> if d' = d then None else Some (d', v) | None \<Rightarrow> None)" for q
    by (auto simp: sc_occupant_def p sc_vacated_def vec_get_def split: option.splits)
  moreover have "sc_runtime t d v = Some (sat_add_u64 r (now - t0))"
    if "sc_state_of s d v = Some (Running p)" "sc_runtime s d v = Some r" "sc_on_cpu_since s d v = Some t0"
    for v p r t0
  proof -
    from that obtain c where "sc_get s d v = Some c" "vc_state c = Running p" "runtime c = r"
      "dispatched_at c = t0" by (auto simp: sc_state_of_eq sc_runtime_def sc_on_cpu_since_def)
    then show ?thesis by (simp add: sc_runtime_def g sc_downed_def sc_charged_def)
  qed
  ultimately show ?thesis using t sc_no_violation by blast
qed

theorem sched_offline_all_effect_witness:
  "\<exists>s s'. sc_occupant s 1 = Some (0, 0) \<and> sc_offline_all s 0 9 = Some s' \<and>
     sc_state_of s' 0 0 = Some Offline \<and> sc_occupant s' 1 = None"
proof -
  let ?s = "snd (sc_run (snd (sc_admit (sc_new 2 1 2) 0 0)) 0 0 1 5)"
  have h: "sc_fits ?s" "sc_first_violation ?s = None" "sc_occupant ?s 1 = Some (0, 0)"
    "sc_vcpu_count ?s 0 = 1" by code_simp+
  from sched_offline_all_effect [OF h(1,2), of 0 9] obtain s' where
    s': "sc_offline_all ?s 0 9 = Some s'" "\<forall>v < sc_vcpu_count ?s 0. sc_state_of s' 0 v = Some Offline"
    "\<forall>p. sc_occupant s' p =
        (case sc_occupant ?s p of Some (d', v) \<Rightarrow> if d' = 0 then None else Some (d', v) | None \<Rightarrow> None)"
    by blast
  have "sc_occupant s' 1 = None" using s'(3) [rule_format, of 1] h(3) by simp
  moreover have "sc_state_of s' 0 0 = Some Offline" using s'(2) h(4) by simp
  ultimately show ?thesis using s'(1) h(3) by blast
qed

text \<open>
  No transition, accepted or refused, decreases the accumulated run time of any vCPU, and a
  refused transition leaves the whole scheduler unchanged.
\<close>

theorem sched_runtime_monotone:
  assumes "sc_fits s" and "sc_first_violation s = None"
    and "sc_runtime s d v = Some r" and "r \<le> u64_max"
  shows "(\<exists>r'. sc_runtime (snd (sc_apply s a)) d v = Some r' \<and> r \<le> r') \<and>
     (is_Ok (fst (sc_apply s a)) \<or> snd (sc_apply s a) = s)"
proof -
  have ok: "sc_ok s" using assms(1,2) by (rule sc_ok_checked)
  have "is_Ok (fst (sc_apply s a)) \<or> snd (sc_apply s a) = s" using scm.refuse [OF ok] by blast
  then show ?thesis using sc_get_apply [OF ok, of a d v] assms(3,4) by (fastforce simp: sc_runtime_def)
qed

theorem sched_runtime_monotone_witness:
  "\<exists>s r'. sc_runtime s 0 0 = Some 0 \<and> sc_runtime (snd (sc_apply s (OpPreempt 0 0 9))) 0 0 = Some r' \<and> 0 \<le> r'"
proof -
  let ?s = "snd (sc_run (snd (sc_admit (sc_new 2 1 2) 0 0)) 0 0 1 5)"
  have h: "sc_fits ?s" "sc_first_violation ?s = None" "sc_runtime ?s 0 0 = Some 0" by code_simp+
  from sched_runtime_monotone [OF h, of "OpPreempt 0 0 9"] h(3) show ?thesis by fastforce
qed

text \<open>
  A hard-affinity mask set on an offline vCPU survives the teardown of its domain: the vCPU is
  offline with a mask that is not the all-pCPUs default, and once re-admitted it is refused on a
  pCPU that a vCPU of a fresh system would be given. The comments in \<open>sched.rs\<close> say an offline
  vCPU always carries the default.
\<close>

theorem sched_stale_affinity:
  "\<exists>s s'. fst (sc_set_affinity (sc_new 1 1 2) 0 0 1) = Ok () \<and>
     s = snd (sc_set_affinity (sc_new 1 1 2) 0 0 1) \<and> sc_offline_all s 0 3 = Some s' \<and>
     sc_state_of s' 0 0 = Some Offline \<and> sc_affinity_of s' 0 0 \<noteq> Some (sc_full_affinity s') \<and>
     fst (sc_run (snd (sc_admit s' 0 0)) 0 0 1 4) = Err NotAffine \<and>
     fst (sc_run (snd (sc_admit (sc_new 1 1 2) 0 0)) 0 0 1 4) = Ok ()"
proof -
  let ?s = "snd (sc_set_affinity (sc_new 1 1 2) 0 0 1)"
  let ?t = "the (sc_offline_all ?s 0 3)"
  have "fst (sc_set_affinity (sc_new 1 1 2) 0 0 1) = Ok ()" "sc_offline_all ?s 0 3 = Some ?t"
    "sc_state_of ?t 0 0 = Some Offline" "sc_affinity_of ?t 0 0 \<noteq> Some (sc_full_affinity ?t)"
    "fst (sc_run (snd (sc_admit ?t 0 0)) 0 0 1 4) = Err NotAffine"
    "fst (sc_run (snd (sc_admit (sc_new 1 1 2) 0 0)) 0 0 1 4) = Ok ()" by code_simp+
  then show ?thesis by blast
qed

end
