(* ===== verification/Grant.thy ===== *)
theory Grant
  imports HV_Prelude
begin

text \<open>
  The grant tables, \<open>hv-core/src/grant.rs\<close>: the permits each domain offers, the live mappings
  over them, the per-grantee handles, the two teardown drains and the revocation sweeps.

  The reference counts of the entries are shown to be redundant: a consistent system is
  determined by its offers (entries without counts) and by the multiset of its live mappings,
  and every operation is characterised on these two.
\<close>

section \<open>State\<close>

record Unmapped =
  um_frame :: Mfn
  um_writable :: bool

datatype GrantEntry =
    Free
  | Access (ge_grantee: DomId) (ge_frame: Mfn) (ge_readonly: bool) (ge_maps: nat) (ge_writable_maps: nat)

record Mapping =
  active :: bool
  m_grantee :: DomId
  m_handle :: GrantHandle
  m_grantor :: DomId
  m_gref :: GrantRef
  m_writable :: bool

record GrantSystem =
  gt_domains :: "GrantEntry list list"
  gt_maps :: "Mapping list"

datatype GrantError =
  BadDomain | BadGrantRef | BadHandle | WrongState | InUse | PermissionDenied | Overflow

datatype GrantViolation =
    GranteeGhostDomain nat nat
  | RefcountMismatch nat nat
  | ReadonlyViolated nat nat
  | WritableExceedsMaps nat nat
  | DanglingMap nat nat

definition gt_new :: "nat \<Rightarrow> nat \<Rightarrow> GrantSystem" where
  "gt_new num_domains entries_per_domain =
     \<lparr>gt_domains = map (\<lambda>_. map (\<lambda>_. Free) [0..<entries_per_domain]) [0..<num_domains], gt_maps = []\<rparr>"

section \<open>Internals\<close>

definition gt_domain :: "GrantSystem \<Rightarrow> DomId \<Rightarrow> (GrantEntry list, GrantError) result" where
  "gt_domain s d = ok_or (vec_get (gt_domains s) d) BadDomain"

definition gt_entry :: "GrantSystem \<Rightarrow> DomId \<Rightarrow> GrantRef \<Rightarrow> (GrantEntry, GrantError) result" where
  "gt_entry s grantor gref = slot_ref (gt_domains s) grantor gref BadDomain BadGrantRef"

text \<open>A write through \<open>entry_mut(grantor, gref)\<close>; \<open>None\<close> is the panic of its \<open>unwrap\<close>.\<close>

definition gt_put :: "GrantSystem \<Rightarrow> DomId \<Rightarrow> GrantRef \<Rightarrow> GrantEntry \<Rightarrow> GrantSystem" where
  "gt_put s grantor gref e = s\<lparr>gt_domains := tbl_set (gt_domains s) grantor gref e\<rparr>"

definition gt_entry_mut :: "GrantSystem \<Rightarrow> DomId \<Rightarrow> GrantRef \<Rightarrow> GrantEntry \<Rightarrow> GrantSystem option" where
  "gt_entry_mut s grantor gref e =
     map_option (\<lambda>_. gt_put s grantor gref e) (result_ok (gt_entry s grantor gref))"

definition gt_holds_handle :: "Mapping list \<Rightarrow> DomId \<Rightarrow> GrantHandle \<Rightarrow> bool" where
  "gt_holds_handle ms grantee handle \<longleftrightarrow>
     list_ex (\<lambda>m. active m \<and> m_grantee m = grantee \<and> m_handle m = handle) ms"

text \<open>
  The search loop of \<open>alloc_handle\<close>; its counter is a \<open>u32\<close>. Were every handle taken it would not
  return: \<open>None\<close>.
\<close>

partial_function (option) gt_free_handle :: "Mapping list \<Rightarrow> DomId \<Rightarrow> GrantHandle \<Rightarrow> GrantHandle option" where
  [code]: "gt_free_handle ms grantee handle =
     (if gt_holds_handle ms grantee handle then gt_free_handle ms grantee (wrap_u32 (handle + 1))
      else Some handle)"

definition gt_place :: "Mapping list \<Rightarrow> Mapping \<Rightarrow> Mapping list" where
  "gt_place ms mapping =
     (case position (\<lambda>m. \<not> active m) ms of
        Some i \<Rightarrow> ms[i := mapping]
      | None \<Rightarrow> ms @ [mapping])"

definition gt_alloc_handle ::
  "GrantSystem \<Rightarrow> DomId \<Rightarrow> DomId \<Rightarrow> GrantRef \<Rightarrow> bool \<Rightarrow> (GrantHandle \<times> GrantSystem) option" where
  "gt_alloc_handle s grantee grantor gref writable =
     map_option (\<lambda>handle.
       (handle,
        s\<lparr>gt_maps := gt_place (gt_maps s)
            \<lparr>active = True, m_grantee = grantee, m_handle = handle, m_grantor = grantor,
             m_gref = gref, m_writable = writable\<rparr>\<rparr>))
       (gt_free_handle (gt_maps s) grantee 0)"

section \<open>Transitions\<close>

definition counts_after_map :: "nat \<Rightarrow> nat \<Rightarrow> bool \<Rightarrow> (nat \<times> nat, GrantError) result" where
  "counts_after_map maps writable_maps writable =
     (case checked_inc_u32 maps of
        None \<Rightarrow> Err Overflow
      | Some maps \<Rightarrow> Ok (maps, if writable then wrap_u32 (writable_maps + 1) else writable_maps))"

definition counts_after_unmap :: "nat \<Rightarrow> nat \<Rightarrow> bool \<Rightarrow> nat \<times> nat" where
  "counts_after_unmap maps writable_maps writable =
     (maps - 1, if writable then writable_maps - 1 else writable_maps)"

definition gt_grant_access ::
  "GrantSystem \<Rightarrow> DomId \<Rightarrow> GrantRef \<Rightarrow> DomId \<Rightarrow> Mfn \<Rightarrow> bool \<Rightarrow> (unit, GrantError) result \<times> GrantSystem" where
  "gt_grant_access s grantor gref grantee frame readonly =
     propagate (gt_domain s grantee) s (\<lambda>_.
     propagate (gt_entry s grantor gref) s (\<lambda>entry.
     if entry \<noteq> Free then (Err WrongState, s)
     else (Ok (), gt_put s grantor gref (Access grantee frame readonly 0 0))))"

definition gt_end_access ::
  "GrantSystem \<Rightarrow> DomId \<Rightarrow> GrantRef \<Rightarrow> (unit, GrantError) result \<times> GrantSystem" where
  "gt_end_access s grantor gref =
     propagate (gt_entry s grantor gref) s (\<lambda>entry.
     case entry of
       Free \<Rightarrow> (Err WrongState, s)
     | Access _ _ _ maps _ \<Rightarrow>
         if maps > 0 then (Err InUse, s)
         else or_panic s (gt_entry_mut s grantor gref Free) (\<lambda>s1. (Ok (), s1)))"

definition gt_map ::
  "GrantSystem \<Rightarrow> DomId \<Rightarrow> DomId \<Rightarrow> GrantRef \<Rightarrow> bool \<Rightarrow> (GrantHandle, GrantError) result \<times> GrantSystem" where
  "gt_map s grantee grantor gref writable =
     propagate (gt_entry s grantor gref) s (\<lambda>entry.
     case entry of
       Free \<Rightarrow> (Err WrongState, s)
     | Access permitted_grantee frame readonly maps writable_maps \<Rightarrow>
         if permitted_grantee \<noteq> grantee then (Err PermissionDenied, s)
         else if writable \<and> readonly then (Err PermissionDenied, s)
         else
           propagate (counts_after_map maps writable_maps writable) s (\<lambda>(m, w).
           or_panic s (gt_entry_mut s grantor gref (Access permitted_grantee frame readonly m w)) (\<lambda>s1.
           or_panic s (gt_alloc_handle s1 grantee grantor gref writable) (\<lambda>(handle, s2).
           (Ok handle, s2)))))"

definition gt_unmap ::
  "GrantSystem \<Rightarrow> DomId \<Rightarrow> GrantHandle \<Rightarrow> (Unmapped, GrantError) result \<times> GrantSystem" where
  "gt_unmap s grantee handle =
     propagate (ok_or (position (\<lambda>m. active m \<and> m_grantee m = grantee \<and> m_handle m = handle) (gt_maps s))
       BadHandle) s (\<lambda>slot.
     let mapping = gt_maps s ! slot;
         (frame, s1) =
           (case gt_entry s (m_grantor mapping) (m_gref mapping) of
              Ok (Access g f ro maps writable_maps) \<Rightarrow>
                (let (m, w) = counts_after_unmap maps writable_maps (m_writable mapping) in
                 (f, gt_put s (m_grantor mapping) (m_gref mapping) (Access g f ro m w)))
            | _ \<Rightarrow> (0, s));
         s2 = s1\<lparr>gt_maps := (gt_maps s1)[slot := mapping\<lparr>active := False\<rparr>]\<rparr>
     in (Ok \<lparr>um_frame = frame, um_writable = m_writable mapping\<rparr>, s2))"

definition gt_copy ::
  "GrantSystem \<Rightarrow> DomId \<Rightarrow> DomId \<Rightarrow> GrantRef \<Rightarrow> bool \<Rightarrow> (unit, GrantError) result" where
  "gt_copy s grantee grantor gref write =
     (case gt_entry s grantor gref of
        Ok (Access permitted frame readonly maps writable_maps) \<Rightarrow>
          if permitted \<noteq> grantee then Err PermissionDenied
          else if write \<and> readonly then Err PermissionDenied
          else Ok ()
      | Ok Free \<Rightarrow> Err WrongState
      | Err e \<Rightarrow> Err e
      | Panic \<Rightarrow> Panic)"

section \<open>Queries\<close>

definition gt_domain_count :: "GrantSystem \<Rightarrow> nat" where
  "gt_domain_count s = length (gt_domains s)"

definition gt_entry_count :: "GrantSystem \<Rightarrow> DomId \<Rightarrow> nat" where
  "gt_entry_count s grantor = (case gt_domain s grantor of Ok entries \<Rightarrow> length entries | _ \<Rightarrow> 0)"

definition gt_is_granted :: "GrantSystem \<Rightarrow> DomId \<Rightarrow> GrantRef \<Rightarrow> bool" where
  "gt_is_granted s grantor gref =
     (case gt_entry s grantor gref of Ok (Access _ _ _ _ _) \<Rightarrow> True | _ \<Rightarrow> False)"

definition gt_map_count :: "GrantSystem \<Rightarrow> DomId \<Rightarrow> GrantRef \<Rightarrow> nat option" where
  "gt_map_count s grantor gref =
     (case gt_entry s grantor gref of Ok (Access _ _ _ maps _) \<Rightarrow> Some maps | _ \<Rightarrow> None)"

definition gt_writable_map_count :: "GrantSystem \<Rightarrow> DomId \<Rightarrow> GrantRef \<Rightarrow> nat option" where
  "gt_writable_map_count s grantor gref =
     (case gt_entry s grantor gref of Ok (Access _ _ _ _ w) \<Rightarrow> Some w | _ \<Rightarrow> None)"

definition gt_grantee_of :: "GrantSystem \<Rightarrow> DomId \<Rightarrow> GrantRef \<Rightarrow> DomId option" where
  "gt_grantee_of s grantor gref =
     (case gt_entry s grantor gref of Ok (Access g _ _ _ _) \<Rightarrow> Some g | _ \<Rightarrow> None)"

definition gt_granted_frame :: "GrantSystem \<Rightarrow> DomId \<Rightarrow> GrantRef \<Rightarrow> Mfn option" where
  "gt_granted_frame s grantor gref =
     (case gt_entry s grantor gref of Ok (Access _ f _ _ _) \<Rightarrow> Some f | _ \<Rightarrow> None)"

definition gt_grant_entry ::
  "GrantSystem \<Rightarrow> DomId \<Rightarrow> GrantRef \<Rightarrow> (DomId \<times> Mfn \<times> bool \<times> nat \<times> nat) option" where
  "gt_grant_entry s grantor gref =
     (case gt_entry s grantor gref of Ok (Access g f ro m w) \<Rightarrow> Some (g, f, ro, m, w) | _ \<Rightarrow> None)"

definition gt_has_foreign_map :: "GrantSystem \<Rightarrow> DomId \<Rightarrow> bool" where
  "gt_has_foreign_map s target =
     list_ex (\<lambda>m. active m \<and> m_grantor m = target \<and> m_grantee m \<noteq> target) (gt_maps s)"

definition gt_holds_any_map :: "GrantSystem \<Rightarrow> DomId \<Rightarrow> bool" where
  "gt_holds_any_map s grantee = list_ex (\<lambda>m. active m \<and> m_grantee m = grantee) (gt_maps s)"

definition gt_authorizes :: "GrantSystem \<Rightarrow> DomId \<Rightarrow> DomId \<Rightarrow> Mfn \<Rightarrow> bool \<Rightarrow> bool" where
  "gt_authorizes s grantor grantee frame writable =
     (case gt_domain s grantor of
        Ok entries \<Rightarrow>
          list_ex (\<lambda>e. case e of
              Access g f ro _ _ \<Rightarrow> g = grantee \<and> f = frame \<and> (\<not> writable \<or> \<not> ro)
            | Free \<Rightarrow> False) entries
      | _ \<Rightarrow> False)"

definition gt_active_maps :: "GrantSystem \<Rightarrow> nat" where
  "gt_active_maps s = length (filter active (gt_maps s))"

definition gt_handle_slots :: "GrantSystem \<Rightarrow> DomId \<Rightarrow> nat" where
  "gt_handle_slots s grantee =
     fold max (map (\<lambda>m. m_handle m + 1) (filter (\<lambda>m. active m \<and> m_grantee m = grantee) (gt_maps s))) 0"

definition gt_mapping_at ::
  "GrantSystem \<Rightarrow> DomId \<Rightarrow> GrantHandle \<Rightarrow> (DomId \<times> GrantRef \<times> bool) option" where
  "gt_mapping_at s grantee handle =
     map_option (\<lambda>m. (m_grantor m, m_gref m, m_writable m))
       (find (\<lambda>m. active m \<and> m_grantee m = grantee \<and> m_handle m = handle) (gt_maps s))"

definition gt_any_grant_to :: "GrantSystem \<Rightarrow> DomId \<Rightarrow> bool" where
  "gt_any_grant_to s grantee =
     list_ex (\<lambda>grantor. list_ex (\<lambda>gref. gt_grantee_of s grantor gref = Some grantee)
                 [0..<as_u32 (gt_entry_count s grantor)])
       [0..<as_u16 (gt_domain_count s)]"

section \<open>Teardown\<close>

text \<open>\<open>released.push(self.unmap(grantee, handle).unwrap())\<close>\<close>

definition gt_release_one ::
  "DomId \<times> GrantHandle \<Rightarrow> Unmapped list \<times> GrantSystem \<Rightarrow> (Unmapped list \<times> GrantSystem) option" where
  "gt_release_one h acc =
     (case gt_unmap (snd acc) (fst h) (snd h) of
        (Ok u, s') \<Rightarrow> Some (fst acc @ [u], s')
      | _ \<Rightarrow> None)"

definition gt_drain_maps_of :: "GrantSystem \<Rightarrow> DomId \<Rightarrow> (Unmapped list \<times> GrantSystem) option" where
  "gt_drain_maps_of s grantee =
     (let handles = map m_handle (filter (\<lambda>m. active m \<and> m_grantee m = grantee) (gt_maps s)) in
      for_each gt_release_one (map (\<lambda>handle. (grantee, handle)) handles) ([], s))"

definition gt_drain_foreign_maps_of :: "GrantSystem \<Rightarrow> DomId \<Rightarrow> (Unmapped list \<times> GrantSystem) option" where
  "gt_drain_foreign_maps_of s target =
     (let held = map (\<lambda>m. (m_grantee m, m_handle m))
          (filter (\<lambda>m. active m \<and> m_grantor m = target \<and> m_grantee m \<noteq> target) (gt_maps s)) in
      for_each gt_release_one held ([], s))"

text \<open>\<open>end_access\<close> with its result dropped; only a panic escapes.\<close>

definition gt_try_end :: "DomId \<Rightarrow> GrantRef \<Rightarrow> GrantSystem \<Rightarrow> GrantSystem option" where
  "gt_try_end grantor gref s =
     (case gt_end_access s grantor gref of (Panic, _) \<Rightarrow> None | (_, s') \<Rightarrow> Some s')"

definition gt_revoke_all :: "GrantSystem \<Rightarrow> DomId \<Rightarrow> GrantSystem option" where
  "gt_revoke_all s grantor =
     for_each (\<lambda>gref s. if gt_is_granted s grantor gref then gt_try_end grantor gref s else Some s)
       [0..<as_u32 (gt_entry_count s grantor)] s"

definition gt_revoke_grants_to :: "GrantSystem \<Rightarrow> DomId \<Rightarrow> GrantSystem option" where
  "gt_revoke_grants_to s grantee =
     for_each (\<lambda>grantor s.
       for_each (\<lambda>gref s.
           if gt_grantee_of s grantor gref = Some grantee then gt_try_end grantor gref s else Some s)
         [0..<as_u32 (gt_entry_count s grantor)] s)
       [0..<as_u16 (gt_domain_count s)] s"

section \<open>The invariant check\<close>

definition gt_entry_violation :: "GrantSystem \<Rightarrow> nat \<Rightarrow> nat \<Rightarrow> GrantEntry \<Rightarrow> GrantViolation option" where
  "gt_entry_violation s d g entry =
     (case entry of
        Free \<Rightarrow> None
      | Access grantee frame readonly maps writable_maps \<Rightarrow>
          if length (gt_domains s) \<le> grantee then Some (GranteeGhostDomain d g)
          else if writable_maps > maps then Some (WritableExceedsMaps d g)
          else if readonly \<and> writable_maps > 0 then Some (ReadonlyViolated d g)
          else
            (let live = filter (\<lambda>m. active m \<and> m_grantor m = d \<and> m_gref m = g) (gt_maps s);
                 total = length live;
                 writable = length (filter m_writable live)
             in if maps \<noteq> total \<or> writable_maps \<noteq> writable then Some (RefcountMismatch d g) else None))"

definition gt_map_violation :: "GrantSystem \<Rightarrow> Mapping \<Rightarrow> GrantViolation option" where
  "gt_map_violation s m =
     (let backed =
        (case gt_entry s (m_grantor m) (m_gref m) of
           Ok (Access grantee _ readonly _ _) \<Rightarrow> grantee = m_grantee m \<and> (\<not> m_writable m \<or> \<not> readonly)
         | _ \<Rightarrow> False)
      in if \<not> backed then Some (DanglingMap (m_grantor m) (m_gref m)) else None)"

definition gt_first_violation :: "GrantSystem \<Rightarrow> GrantViolation option" where
  "gt_first_violation s =
     or_else
       (find_map (\<lambda>(d, entries). find_map (\<lambda>(g, entry). gt_entry_violation s d g entry) (enumerate 0 entries))
          (enumerate 0 (gt_domains s)))
       (find_map (gt_map_violation s) (filter active (gt_maps s)))"

definition gt_invariants_hold :: "GrantSystem \<Rightarrow> bool" where
  "gt_invariants_hold s \<longleftrightarrow> gt_first_violation s = None"

section \<open>The abstract view: offers and live mappings\<close>

definition gt_get :: "GrantSystem \<Rightarrow> DomId \<Rightarrow> GrantRef \<Rightarrow> GrantEntry option" where
  "gt_get s d g = tbl_get (gt_domains s) d g"

type_synonym offer = "DomId \<times> Mfn \<times> bool"

fun entry_offer :: "GrantEntry \<Rightarrow> offer option" where
  "entry_offer Free = None"
| "entry_offer (Access r f ro _ _) = Some (r, f, ro)"

definition gt_offer :: "GrantSystem \<Rightarrow> DomId \<Rightarrow> GrantRef \<Rightarrow> offer option" where
  "gt_offer s d g = Option.bind (gt_get s d g) entry_offer"

definition gt_live :: "GrantSystem \<Rightarrow> Mapping multiset" where
  "gt_live s = filter_mset active (mset (gt_maps s))"

abbreviation gt_tally :: "(Mapping \<Rightarrow> bool) \<Rightarrow> Mapping multiset \<Rightarrow> nat" where
  "gt_tally P M \<equiv> size (filter_mset P M)"

definition gt_over :: "DomId \<Rightarrow> GrantRef \<Rightarrow> Mapping \<Rightarrow> bool" where
  "gt_over d g m \<longleftrightarrow> m_grantor m = d \<and> m_gref m = g"

definition gt_named :: "DomId \<Rightarrow> GrantHandle \<Rightarrow> Mapping \<Rightarrow> bool" where
  "gt_named r h m \<longleftrightarrow> m_grantee m = r \<and> m_handle m = h"

definition gt_fits :: "GrantSystem \<Rightarrow> bool" where
  "gt_fits s \<longleftrightarrow> length (gt_domains s) < u16_size \<and> (\<forall>es \<in> set (gt_domains s). length es < u32_size)"

text \<open>Counts are the tallies of the live mappings, and fit 32 bits.\<close>

definition gt_counted :: "GrantSystem \<Rightarrow> bool" where
  "gt_counted s \<longleftrightarrow> (\<forall>d g r f ro n w. gt_get s d g = Some (Access r f ro n w) \<longrightarrow>
     r < length (gt_domains s) \<and> n = gt_tally (gt_over d g) (gt_live s) \<and>
     w = gt_tally (\<lambda>m. gt_over d g m \<and> m_writable m) (gt_live s))"

text \<open>Every live mapping stands over an offer to its holder that permits it.\<close>

definition gt_backed :: "GrantSystem \<Rightarrow> bool" where
  "gt_backed s \<longleftrightarrow> (\<forall>m \<in># gt_live s. \<exists>f ro.
     gt_offer s (m_grantor m) (m_gref m) = Some (m_grantee m, f, ro) \<and> (m_writable m \<longrightarrow> \<not> ro))"

text \<open>A handle names at most one live mapping of its holder.\<close>

definition gt_handles :: "GrantSystem \<Rightarrow> bool" where
  "gt_handles s \<longleftrightarrow> (\<forall>r h. gt_tally (gt_named r h) (gt_live s) \<le> 1) \<and> (\<forall>m \<in># gt_live s. m_handle m < u32_size)"

definition gt_small :: "GrantSystem \<Rightarrow> bool" where
  "gt_small s \<longleftrightarrow> (\<forall>d g r f ro n w. gt_get s d g = Some (Access r f ro n w) \<longrightarrow> n < u32_size)"

definition gt_ok :: "GrantSystem \<Rightarrow> bool" where
  "gt_ok s \<longleftrightarrow> gt_fits s \<and> gt_counted s \<and> gt_backed s \<and> gt_handles s \<and> gt_small s"

datatype GtOp =
    OpGrantAccess DomId GrantRef DomId Mfn bool
  | OpEndAccess DomId GrantRef
  | OpMap DomId DomId GrantRef bool
  | OpUnmap DomId GrantHandle

datatype GtOut = OutUnit | OutHandle GrantHandle | OutUnmapped Unmapped

fun gt_apply :: "GrantSystem \<Rightarrow> GtOp \<Rightarrow> (GtOut, GrantError) result \<times> GrantSystem" where
  "gt_apply s (OpGrantAccess d g r f ro) = apfst (map_ok_err (\<lambda>_. OutUnit) id) (gt_grant_access s d g r f ro)"
| "gt_apply s (OpEndAccess d g) = apfst (map_ok_err (\<lambda>_. OutUnit) id) (gt_end_access s d g)"
| "gt_apply s (OpMap r d g w) = apfst (map_ok_err OutHandle id) (gt_map s r d g w)"
| "gt_apply s (OpUnmap r h) = apfst (map_ok_err OutUnmapped id) (gt_unmap s r h)"

section \<open>Access lemmas\<close>

lemma gt_put_simps [simp]:
  "gt_domains (gt_put s d g e) = tbl_set (gt_domains s) d g e" "gt_maps (gt_put s d g e) = gt_maps s"
  "gt_live (gt_put s d g e) = gt_live s"
  by (simp_all add: gt_put_def gt_live_def)

interpretation gt: slot_table gt_get gt_put
  by unfold_locales (auto simp: gt_get_def gt_put_def tbl_get_set tbl_set_same)

lemma gt_entry_simps [simp]:
  "gt_entry s d g = Ok e \<longleftrightarrow> gt_get s d g = Some e" "gt_entry s d g \<noteq> Panic"
  "result_ok (gt_entry s d g) = gt_get s d g"
  by (auto simp: gt_entry_def gt_get_def)

lemma gt_entry_eq:
  "gt_entry s d g = (case gt_get s d g of Some e \<Rightarrow> Ok e
     | None \<Rightarrow> Err (if d < length (gt_domains s) then BadGrantRef else BadDomain))"
  by (auto simp: gt_entry_def slot_ref_eq gt_get_def)

lemma gt_domain_simps [simp]:
  "gt_domain s d = Ok es \<longleftrightarrow> d < length (gt_domains s) \<and> es = gt_domains s ! d" "gt_domain s d \<noteq> Panic"
  by (auto simp: gt_domain_def vec_get_Some)

lemma gt_entry_count_eq: "gt_entry_count s d = tbl_row_len (gt_domains s) d"
  by (auto simp: gt_entry_count_def gt_domain_def vec_get_def tbl_row_len_def ok_or_def)

lemma gt_get_range: "gt_get s d g \<noteq> None \<longleftrightarrow> d < gt_domain_count s \<and> g < gt_entry_count s d"
  unfolding gt_get_def tbl_get_in_range gt_domain_count_def gt_entry_count_eq ..

lemma gt_maps_upd [simp]:
  "gt_get (s\<lparr>gt_maps := ms\<rparr>) d g = gt_get s d g" "gt_offer (s\<lparr>gt_maps := ms\<rparr>) d g = gt_offer s d g"
  "gt_domain_count (s\<lparr>gt_maps := ms\<rparr>) = gt_domain_count s"
  "gt_entry_count (s\<lparr>gt_maps := ms\<rparr>) d = gt_entry_count s d"
  "gt_fits (s\<lparr>gt_maps := ms\<rparr>) = gt_fits s"
  by (simp_all add: gt_get_def gt_offer_def gt_domain_count_def gt_entry_count_eq gt_fits_def)

lemma gt_fits_iff:
  "gt_fits s \<longleftrightarrow> gt_domain_count s < u16_size \<and> (\<forall>d. gt_entry_count s d < u32_size)"
  by (auto simp: gt_fits_def gt_domain_count_def gt_entry_count_eq tbl_row_len_def all_set_conv_all_nth)

lemma gt_put_counts [simp]:
  "gt_domain_count (gt_put s d g e) = gt_domain_count s" "gt_entry_count (gt_put s d g e) d' = gt_entry_count s d'"
  "gt_fits (gt_put s d g e) = gt_fits s"
  by (simp_all add: gt_domain_count_def gt_entry_count_eq gt_fits_iff)

lemma gt_offer_put:
  "gt_offer (gt_put s d g e) d' g' =
     (if d' = d \<and> g' = g \<and> gt_get s d g \<noteq> None then entry_offer e else gt_offer s d' g')"
  by (auto simp: gt_offer_def gt.get_put)

lemma gt_offer_Some:
  "gt_offer s d g = Some (r, f, ro) \<longleftrightarrow> (\<exists>n w. gt_get s d g = Some (Access r f ro n w))"
  by (auto simp: gt_offer_def Option.bind_eq_Some_conv elim: entry_offer.elims)

lemma gt_grantee_of_iff: "gt_grantee_of s d g = Some r \<longleftrightarrow> (\<exists>f ro. gt_offer s d g = Some (r, f, ro))"
  by (auto simp: gt_grantee_of_def gt_entry_eq gt_offer_def split: option.splits GrantEntry.splits)

lemma gt_is_granted_iff: "gt_is_granted s d g \<longleftrightarrow> gt_offer s d g \<noteq> None"
  by (auto simp: gt_is_granted_def gt_entry_eq gt_offer_def split: option.splits GrantEntry.splits)

lemma gt_granted_frame_iff: "gt_granted_frame s d g = Some f \<longleftrightarrow> (\<exists>r ro. gt_offer s d g = Some (r, f, ro))"
  by (auto simp: gt_granted_frame_def gt_entry_eq gt_offer_def split: option.splits GrantEntry.splits)

lemma gt_live_mset: "gt_live s = mset (filter active (gt_maps s))"
  by (simp add: gt_live_def)

lemma gt_holds_any_iff: "gt_holds_any_map s r \<longleftrightarrow> (\<exists>m \<in># gt_live s. m_grantee m = r)"
  by (auto simp: gt_holds_any_map_def gt_live_def list_ex_iff)

lemma gt_has_foreign_iff: "gt_has_foreign_map s d \<longleftrightarrow> (\<exists>m \<in># gt_live s. m_grantor m = d \<and> m_grantee m \<noteq> d)"
  by (auto simp: gt_has_foreign_map_def gt_live_def list_ex_iff)

lemma gt_holds_handle_iff: "gt_holds_handle (gt_maps s) r h \<longleftrightarrow> (\<exists>m \<in># gt_live s. gt_named r h m)"
  by (auto simp: gt_holds_handle_def gt_live_def list_ex_iff gt_named_def)

lemma gt_any_grant_to_iff:
  assumes "gt_fits s"
  shows "gt_any_grant_to s r \<longleftrightarrow> (\<exists>d g f ro. gt_offer s d g = Some (r, f, ro))"
proof -
  have "d < gt_domain_count s \<and> g < gt_entry_count s d" if "gt_grantee_of s d g = Some r" for d g
    using that gt_get_range [of s d g] by (auto simp: gt_grantee_of_iff gt_offer_Some)
  then have "gt_any_grant_to s r \<longleftrightarrow> (\<exists>d g. gt_grantee_of s d g = Some r)"
    using assms by (fastforce simp: gt_any_grant_to_def list_ex_iff gt_fits_iff)
  then show ?thesis by (simp add: gt_grantee_of_iff)
qed

lemma gt_authorizes_iff:
  "gt_authorizes s d r f w \<longleftrightarrow> (\<exists>g ro. gt_offer s d g = Some (r, f, ro) \<and> (w \<longrightarrow> \<not> ro))"
proof -
  have e: "(case e of Access g f' ro _ _ \<Rightarrow> g = r \<and> f' = f \<and> (\<not> w \<or> \<not> ro) | Free \<Rightarrow> False) \<longleftrightarrow>
      (\<exists>ro. entry_offer e = Some (r, f, ro) \<and> (w \<longrightarrow> \<not> ro))" for e
    by (cases e) auto
  have "gt_authorizes s d r f w \<longleftrightarrow>
      d < length (gt_domains s) \<and> (\<exists>g < length (gt_domains s ! d). \<exists>ro.
        entry_offer (gt_domains s ! d ! g) = Some (r, f, ro) \<and> (w \<longrightarrow> \<not> ro))"
    unfolding gt_authorizes_def e list_ex_iff
    by (cases "d < length (gt_domains s)")
      (auto simp: gt_domain_def vec_get_def Bex_def in_set_conv_nth)
  then show ?thesis by (auto simp: gt_offer_def gt_get_def tbl_get_def)
qed

section \<open>Placing and releasing a mapping\<close>

lemma gt_place_live:
  assumes "active m"
  shows "filter_mset active (mset (gt_place ms m)) = add_mset m (filter_mset active (mset ms))"
  using assms by (auto simp: gt_place_def reuse_slot split: option.splits)

lemma gt_place_length: "length (gt_place ms m) \<le> Suc (length ms)"
  by (auto simp: gt_place_def split: option.splits)

text \<open>The handle search returns the least free handle, and returns whenever one is free.\<close>

lemma gt_free_handle_least:
  assumes "h \<le> k" "\<forall>j. h \<le> j \<and> j < k \<longrightarrow> gt_holds_handle ms r j" "\<not> gt_holds_handle ms r k" "k < u32_size"
  shows "gt_free_handle ms r h = Some k"
  using assms
proof (induction "k - h" arbitrary: h)
  case 0
  then show ?case by (subst gt_free_handle.simps) simp
next
  case (Suc n)
  then have "h < k" by simp
  with Suc.prems have "gt_holds_handle ms r h" "wrap_u32 (h + 1) = h + 1" by simp_all
  moreover have "gt_free_handle ms r (h + 1) = Some k" using Suc by (intro Suc.hyps) auto
  ultimately show ?case by (subst gt_free_handle.simps) simp
qed

lemma gt_handle_exists:
  assumes "length ms < u32_size" shows "\<exists>k < u32_size. \<not> gt_holds_handle ms r k"
proof (rule ccontr)
  assume "\<not> (\<exists>k < u32_size. \<not> gt_holds_handle ms r k)"
  then have "{..<u32_size} \<subseteq> set (map m_handle ms)" by (fastforce simp: gt_holds_handle_def list_ex_iff)
  then have "card {..<u32_size} \<le> card (set (map m_handle ms))" by (intro card_mono) auto
  also have "\<dots> \<le> length ms" using card_length [of "map m_handle ms"] by simp
  finally show False using assms by simp
qed

lemma gt_free_handle_total:
  assumes "length ms < u32_size"
  shows "\<exists>k. gt_free_handle ms r 0 = Some k \<and> k < u32_size \<and> \<not> gt_holds_handle ms r k \<and>
    (\<forall>j < k. gt_holds_handle ms r j)"
proof -
  let ?P = "\<lambda>k. \<not> gt_holds_handle ms r k"
  obtain k where k: "k < u32_size" "?P k" using gt_handle_exists [OF assms] by blast
  obtain l where l: "?P l" "l \<le> k" "\<forall>j < l. gt_holds_handle ms r j"
    using exists_least_iff [of ?P] k(2) by (metis leI)
  then have "gt_free_handle ms r 0 = Some l" using k(1) by (intro gt_free_handle_least) simp_all
  with l k(1) show ?thesis by (metis order.strict_trans1)
qed

lemma gt_free_handle_free:
  assumes "gt_free_handle ms r h = Some k" and "h < u32_size"
  shows "k < u32_size \<and> \<not> gt_holds_handle ms r k"
proof -
  have "h < u32_size \<longrightarrow> k < u32_size \<and> \<not> gt_holds_handle ms r k"
    by (rule gt_free_handle.raw_induct [OF _ assms(1)])
      (auto simp: wrap_u32_def split: if_splits)
  with assms(2) show ?thesis by simp
qed

section \<open>The invariant is kept\<close>

lemma gt_ok_entry:
  assumes "gt_ok s" "gt_get s d g = Some (Access r f ro n w)"
  shows "r < gt_domain_count s" "n = gt_tally (gt_over d g) (gt_live s)"
    "w = gt_tally (\<lambda>m. gt_over d g m \<and> m_writable m) (gt_live s)" "n < u32_size"
  using assms unfolding gt_ok_def gt_counted_def gt_small_def gt_domain_count_def by blast+

lemma gt_ok_live:
  assumes "gt_ok s" "m \<in># gt_live s"
  obtains f ro where "gt_offer s (m_grantor m) (m_gref m) = Some (m_grantee m, f, ro)" "m_writable m \<longrightarrow> \<not> ro"
  using assms unfolding gt_ok_def gt_backed_def by blast

lemma gt_ok_live_get:
  assumes "gt_ok s" "m \<in># gt_live s"
  shows "\<exists>f ro n w. gt_get s (m_grantor m) (m_gref m) = Some (Access (m_grantee m) f ro n w) \<and>
    (m_writable m \<longrightarrow> \<not> ro)"
proof -
  from gt_ok_live [OF assms] obtain f ro where
    "gt_offer s (m_grantor m) (m_gref m) = Some (m_grantee m, f, ro)" "m_writable m \<longrightarrow> \<not> ro" .
  then show ?thesis unfolding gt_offer_Some by blast
qed

lemma gt_live_active: "m \<in># gt_live s \<Longrightarrow> active m"
  by (simp add: gt_live_def)

lemma gt_tally_0: "gt_tally P M = 0 \<longleftrightarrow> (\<forall>m \<in># M. \<not> P m)"
  by (auto simp: filter_mset_eq_conv)

lemma gt_tally_mono: "(\<And>m. P m \<Longrightarrow> Q m) \<Longrightarrow> gt_tally P M \<le> gt_tally Q M"
  by (induction M) (auto intro: le_SucI)

lemma gt_named_unique:
  assumes "gt_ok s" "gt_live s = add_mset m M" "m' \<in># M" "gt_named r h m" shows "\<not> gt_named r h m'"
proof
  assume *: "gt_named r h m'"
  have "gt_tally (gt_named r h) (gt_live s) \<le> 1" using assms(1) by (simp add: gt_ok_def gt_handles_def)
  with assms(2,4) have "gt_tally (gt_named r h) M = 0" by simp
  with assms(3) * show False by (simp add: gt_tally_0)
qed

text \<open>One entry rewritten, with the live mappings given.\<close>

lemma gt_ok_change:
  assumes ok: "gt_ok s" and g: "\<And>d' g'. gt_get s' d' g' = (if d' = d \<and> g' = g then Some e else gt_get s d' g')"
    and dc: "length (gt_domains s') = length (gt_domains s)" and fits: "gt_fits s'"
    and others: "\<And>d' g'. (d', g') \<noteq> (d, g) \<Longrightarrow>
       gt_tally (gt_over d' g') (gt_live s') = gt_tally (gt_over d' g') (gt_live s) \<and>
       gt_tally (\<lambda>m. gt_over d' g' m \<and> m_writable m) (gt_live s') =
       gt_tally (\<lambda>m. gt_over d' g' m \<and> m_writable m) (gt_live s)"
    and here: "\<And>r f ro n w. e = Access r f ro n w \<Longrightarrow> r < length (gt_domains s) \<and>
       n = gt_tally (gt_over d g) (gt_live s') \<and> n < u32_size \<and>
       w = gt_tally (\<lambda>m. gt_over d g m \<and> m_writable m) (gt_live s')"
    and backed: "gt_backed s'" and handles: "gt_handles s'"
  shows "gt_ok s'"
proof -
  have "r < length (gt_domains s') \<and> n = gt_tally (gt_over d' g') (gt_live s') \<and>
      w = gt_tally (\<lambda>m. gt_over d' g' m \<and> m_writable m) (gt_live s') \<and> n < u32_size"
    if *: "gt_get s' d' g' = Some (Access r f ro n w)" for d' g' r f ro n w
  proof (cases "(d', g') = (d, g)")
    case True
    with * have "e = Access r f ro n w" by (simp add: g)
    with here True dc show ?thesis by simp
  next
    case False
    with * have "gt_get s d' g' = Some (Access r f ro n w)" by (auto simp: g split: if_splits)
    with gt_ok_entry [OF ok this] others [OF False] dc show ?thesis by (simp add: gt_domain_count_def)
  qed
  then show ?thesis
    using fits backed handles unfolding gt_ok_def gt_counted_def gt_small_def by blast
qed

lemma gt_backed_put:
  assumes ok: "gt_ok s" and no: "\<And>m. m \<in># gt_live s \<Longrightarrow> \<not> gt_over d g m"
  shows "gt_backed (gt_put s d g e)"
  unfolding gt_backed_def
proof
  fix m assume m: "m \<in># gt_live (gt_put s d g e)"
  then have l: "m \<in># gt_live s" by simp
  from gt_ok_live [OF ok l] obtain f ro where
    "gt_offer s (m_grantor m) (m_gref m) = Some (m_grantee m, f, ro)" "m_writable m \<longrightarrow> \<not> ro" .
  moreover have "\<not> (m_grantor m = d \<and> m_gref m = g)" using no [OF l] by (simp add: gt_over_def)
  ultimately show "\<exists>f ro. gt_offer (gt_put s d g e) (m_grantor m) (m_gref m) = Some (m_grantee m, f, ro) \<and>
      (m_writable m \<longrightarrow> \<not> ro)" by (auto simp: gt_offer_put)
qed

lemma gt_ok_offered:
  assumes ok: "gt_ok s" and g: "gt_get s d g = Some Free" and r: "r < length (gt_domains s)"
  shows "gt_ok (gt_put s d g (Access r f ro 0 0))"
proof (rule gt_ok_change [OF ok])
  have no: "\<not> gt_over d g m" if "m \<in># gt_live s" for m
  proof -
    from gt_ok_live [OF ok that] obtain f ro where
      "gt_offer s (m_grantor m) (m_gref m) = Some (m_grantee m, f, ro)" .
    then show ?thesis using g by (auto simp: gt_over_def gt_offer_Some)
  qed
  then have 0: "gt_tally (gt_over d g) (gt_live s) = 0" "gt_tally (\<lambda>m. gt_over d g m \<and> m_writable m) (gt_live s) = 0"
    unfolding gt_tally_0 by blast+
  show "gt_backed (gt_put s d g (Access r f ro 0 0))" using ok no by (rule gt_backed_put)
  fix r' f' ro' n w assume "Access r f ro 0 0 = Access r' f' ro' n w"
  with r 0 show "r' < length (gt_domains s) \<and> n = gt_tally (gt_over d g) (gt_live (gt_put s d g (Access r f ro 0 0))) \<and>
    n < u32_size \<and> w = gt_tally (\<lambda>m. gt_over d g m \<and> m_writable m) (gt_live (gt_put s d g (Access r f ro 0 0)))" by simp
qed (use ok g in \<open>auto simp: gt.get_put gt_ok_def gt_handles_def\<close>)

lemma gt_ok_ended:
  assumes ok: "gt_ok s" and g: "gt_get s d g = Some (Access r f ro 0 w)"
  shows "gt_ok (gt_put s d g Free)"
proof (rule gt_ok_change [OF ok])
  have "gt_tally (gt_over d g) (gt_live s) = 0" using gt_ok_entry(2) [OF ok g] by simp
  then have "\<not> gt_over d g m" if "m \<in># gt_live s" for m using that unfolding gt_tally_0 by blast
  with ok show "gt_backed (gt_put s d g Free)" by (rule gt_backed_put)
qed (use ok g in \<open>auto simp: gt.get_put gt_ok_def gt_handles_def\<close>)

lemma gt_ok_mapped:
  assumes ok: "gt_ok s" and g: "gt_get s d g = Some (Access r f ro n w)" and n: "n < u32_max" and wr: "wb \<longrightarrow> \<not> ro"
    and h: "\<not> gt_holds_handle (gt_maps s) r h" "h < u32_size"
    and m: "m = \<lparr>active = True, m_grantee = r, m_handle = h, m_grantor = d, m_gref = g, m_writable = wb\<rparr>"
    and s': "s' = (gt_put s d g (Access r f ro (n + 1) (if wb then w + 1 else w)))\<lparr>gt_maps := gt_place (gt_maps s) m\<rparr>"
  shows "gt_ok s'" "gt_live s' = add_mset m (gt_live s)" "gt_offer s' = gt_offer s"
proof -
  show live: "gt_live s' = add_mset m (gt_live s)" by (simp add: s' gt_live_def gt_place_live m)
  show offer: "gt_offer s' = gt_offer s" using g by (auto simp: s' fun_eq_iff gt_offer_put) (auto simp: gt_offer_def)
  note e = gt_ok_entry [OF ok g]
  show "gt_ok s'"
  proof (rule gt_ok_change [OF ok, where d = d and g = g])
    show "gt_backed s'" unfolding gt_backed_def live offer
    proof
      fix k assume "k \<in># add_mset m (gt_live s)"
      then consider "k = m" | "k \<in># gt_live s" by auto
      then show "\<exists>f ro. gt_offer s (m_grantor k) (m_gref k) = Some (m_grantee k, f, ro) \<and>
          (m_writable k \<longrightarrow> \<not> ro)"
      proof cases
        case 1
        with g wr show ?thesis by (simp add: m gt_offer_def)
      qed (use ok in \<open>simp add: gt_ok_def gt_backed_def\<close>)
    qed
    have 0: "gt_tally (gt_named r h) (gt_live s) = 0" using h(1) by (simp add: gt_holds_handle_iff gt_tally_0)
    have le: "gt_tally (gt_named r' h') (gt_live s) \<le> 1" for r' h'
      using ok by (simp add: gt_ok_def gt_handles_def)
    have "gt_tally (gt_named r' h') (gt_live s') \<le> 1" for r' h'
      using 0 le [of r' h'] by (cases "r' = r \<and> h' = h") (auto simp: live m gt_named_def)
    moreover have "\<forall>k \<in># gt_live s'. m_handle k < u32_size"
      using ok h(2) by (simp add: live m gt_ok_def gt_handles_def)
    ultimately show "gt_handles s'" by (simp add: gt_handles_def)
    show "gt_get s' d' g' = (if d' = d \<and> g' = g
        then Some (Access r f ro (n + 1) (if wb then w + 1 else w)) else gt_get s d' g')" for d' g'
      using g by (auto simp: s' gt.get_put)
    show "length (gt_domains s') = length (gt_domains s)" "gt_fits s'"
      using ok by (simp_all add: s' gt_ok_def)
    show "gt_tally (gt_over d' g') (gt_live s') = gt_tally (gt_over d' g') (gt_live s) \<and>
       gt_tally (\<lambda>m. gt_over d' g' m \<and> m_writable m) (gt_live s') =
       gt_tally (\<lambda>m. gt_over d' g' m \<and> m_writable m) (gt_live s)" if "(d', g') \<noteq> (d, g)" for d' g'
      using that by (auto simp: live m gt_over_def)
    have "gt_over d g m" by (simp add: m gt_over_def)
    then show "r' < length (gt_domains s) \<and> n' = gt_tally (gt_over d g) (gt_live s') \<and> n' < u32_size \<and>
       w' = gt_tally (\<lambda>m. gt_over d g m \<and> m_writable m) (gt_live s')"
      if "Access r f ro (n + 1) (if wb then w + 1 else w) = Access r' f' ro' n' w'" for r' f' ro' n' w'
      using that e n by (auto simp: live gt_domain_count_def m)
  qed
qed

lemma gt_ok_unmapped:
  assumes ok: "gt_ok s" and g: "gt_get s d g = Some (Access r f ro n w)"
    and m: "gt_over d g m" and live: "gt_live s = add_mset m (gt_live s')"
    and s': "\<And>d' g'. gt_get s' d' g' = (if d' = d \<and> g' = g
        then Some (Access r f ro (n - 1) (if m_writable m then w - 1 else w)) else gt_get s d' g')"
    and dc: "length (gt_domains s') = length (gt_domains s)" and fits: "gt_fits s'"
  shows "gt_ok s'" "gt_offer s' = gt_offer s"
proof -
  show offer: "gt_offer s' = gt_offer s" using g by (auto simp: fun_eq_iff gt_offer_def s')
  note e = gt_ok_entry [OF ok g]
  show "gt_ok s'"
  proof (rule gt_ok_change [OF ok, where d = d and g = g])
    show "gt_backed s'" using ok unfolding gt_ok_def gt_backed_def offer live by simp
    have "gt_tally (gt_named r' h') (gt_live s') \<le> 1" for r' h'
    proof -
      have "gt_tally (gt_named r' h') (gt_live s') \<le> gt_tally (gt_named r' h') (gt_live s)"
        unfolding live by simp
      also have "\<dots> \<le> 1" using ok by (simp add: gt_ok_def gt_handles_def)
      finally show ?thesis .
    qed
    then show "gt_handles s'" using ok unfolding gt_ok_def gt_handles_def live by simp
    show "gt_tally (gt_over d' g') (gt_live s') = gt_tally (gt_over d' g') (gt_live s) \<and>
       gt_tally (\<lambda>m. gt_over d' g' m \<and> m_writable m) (gt_live s') =
       gt_tally (\<lambda>m. gt_over d' g' m \<and> m_writable m) (gt_live s)" if "(d', g') \<noteq> (d, g)" for d' g'
      using that m by (auto simp: live gt_over_def)
    show "r' < length (gt_domains s) \<and> n' = gt_tally (gt_over d g) (gt_live s') \<and> n' < u32_size \<and>
       w' = gt_tally (\<lambda>m. gt_over d g m \<and> m_writable m) (gt_live s')"
      if "Access r f ro (n - 1) (if m_writable m then w - 1 else w) = Access r' f' ro' n' w'" for r' f' ro' n' w'
      using that e m by (auto simp: live gt_domain_count_def)
  qed (fact s' dc fits)+
qed

section \<open>The operations on offers and live mappings\<close>

lemma gt_grant_access_effect:
  assumes "gt_ok s"
  shows "gt_grant_access s d g r f ro =
    (if r < gt_domain_count s \<and> gt_get s d g = Some Free then (Ok (), gt_put s d g (Access r f ro 0 0))
     else (fst (gt_grant_access s d g r f ro), s)) \<and>
    (\<not> (r < gt_domain_count s \<and> gt_get s d g = Some Free) \<longrightarrow> (\<exists>e. fst (gt_grant_access s d g r f ro) = Err e))"
  by (auto simp: gt_grant_access_def gt_domain_def vec_get_def gt_domain_count_def propagate_def gt_entry_eq
      split: option.splits if_splits result.splits)

lemma gt_end_access_effect:
  "gt_end_access s d g =
     (case gt_get s d g of
        Some (Access r f ro n w) \<Rightarrow> if n = 0 then (Ok (), gt_put s d g Free) else (Err InUse, s)
      | Some Free \<Rightarrow> (Err WrongState, s)
      | None \<Rightarrow> (Err (if d < length (gt_domains s) then BadGrantRef else BadDomain), s))"
  by (auto simp: gt_end_access_def gt_entry_eq gt_entry_mut_def split: option.splits GrantEntry.splits)

lemma gt_grant_access_wb: "gt_ok s \<Longrightarrow> well_behaved gt_ok s (gt_grant_access s d g r f ro)"
  unfolding gt_grant_access_def
  by (intro wb_intros) (auto intro!: gt_ok_offered)

lemma gt_end_access_wb: "gt_ok s \<Longrightarrow> well_behaved gt_ok s (gt_end_access s d g)"
  unfolding gt_end_access_effect
  by (auto intro!: wb_intros intro: gt_ok_ended split: option.splits GrantEntry.splits)

lemma gt_map_effect:
  "gt_map s r d g wb =
     (case gt_get s d g of
        None \<Rightarrow> (Err (if d < length (gt_domains s) then BadGrantRef else BadDomain), s)
      | Some Free \<Rightarrow> (Err WrongState, s)
      | Some (Access r' f ro n w) \<Rightarrow>
          if r' \<noteq> r \<or> wb \<and> ro then (Err PermissionDenied, s)
          else if u32_max \<le> n then (Err Overflow, s)
          else (case gt_free_handle (gt_maps s) r 0 of
                  None \<Rightarrow> (Panic, s)
                | Some h \<Rightarrow> (Ok h,
                    (gt_put s d g (Access r f ro (n + 1) (if wb then wrap_u32 (w + 1) else w)))
                    \<lparr>gt_maps := gt_place (gt_maps s)
                      \<lparr>active = True, m_grantee = r, m_handle = h, m_grantor = d, m_gref = g, m_writable = wb\<rparr>\<rparr>)))"
proof (cases "gt_get s d g")
  case None
  then show ?thesis by (simp add: gt_map_def gt_entry_eq)
next
  case (Some e)
  then show ?thesis
    by (cases e; cases "gt_free_handle (gt_maps s) r 0")
      (auto simp: gt_map_def gt_entry_eq counts_after_map_def checked_inc_u32_def gt_entry_mut_def gt_alloc_handle_def)
qed

lemma gt_map_Ok:
  assumes ok: "gt_ok s" and m: "gt_map s r d g wb = (Ok h, s')"
  shows "\<exists>f ro m. gt_offer s d g = Some (r, f, ro) \<and> (wb \<longrightarrow> \<not> ro) \<and>
     m = \<lparr>active = True, m_grantee = r, m_handle = h, m_grantor = d, m_gref = g, m_writable = wb\<rparr> \<and>
     gt_ok s' \<and> gt_live s' = add_mset m (gt_live s) \<and> gt_offer s' = gt_offer s \<and>
     length (gt_maps s') \<le> Suc (length (gt_maps s)) \<and> gt_domain_count s' = gt_domain_count s \<and>
     (\<forall>m \<in># gt_live s. \<not> gt_named r h m)"
proof -
  from m obtain f ro n w where g: "gt_get s d g = Some (Access r f ro n w)" and wr: "wb \<longrightarrow> \<not> ro"
    and n: "n < u32_max" and h: "gt_free_handle (gt_maps s) r 0 = Some h"
    and s': "s' = (gt_put s d g (Access r f ro (n + 1) (if wb then wrap_u32 (w + 1) else w)))
      \<lparr>gt_maps := gt_place (gt_maps s)
        \<lparr>active = True, m_grantee = r, m_handle = h, m_grantor = d, m_gref = g, m_writable = wb\<rparr>\<rparr>"
    by (auto simp: gt_map_effect split: GrantEntry.splits if_splits option.splits)
  have "w \<le> n" unfolding gt_ok_entry(2,3) [OF ok g] by (rule gt_tally_mono) simp
  then have "w + 1 < u32_size" using n by simp
  then have w: "wrap_u32 (w + 1) = w + 1" by simp
  have free: "h < u32_size" "\<not> gt_holds_handle (gt_maps s) r h"
    using gt_free_handle_free [OF h] by simp_all
  from gt_ok_mapped [OF ok g n wr free(2,1) refl s' [unfolded w]] g wr free(2) s'
  show ?thesis by (auto simp: gt_offer_def gt_place_length gt_holds_handle_iff)
qed

lemma gt_map_refused:
  assumes "gt_map s r d g wb = (x, s')" "\<not> is_Ok x" shows "s' = s"
  using assms by (auto simp: gt_map_effect split: option.splits GrantEntry.splits if_splits)

lemma gt_map_returns:
  assumes "length (gt_maps s) < u32_size" shows "fst (gt_map s r d g wb) \<noteq> Panic"
  using gt_free_handle_total [OF assms, of r]
  by (auto simp: gt_map_effect split: option.splits GrantEntry.splits)

lemma gt_map_wb:
  assumes ok: "gt_ok s" and "length (gt_maps s) < u32_size"
  shows "well_behaved gt_ok s (gt_map s r d g wb)"
proof (cases "gt_map s r d g wb")
  case (Pair x s')
  with gt_map_returns [OF assms(2), of r d g wb] have "x \<noteq> Panic" by simp
  with gt_map_Ok [OF ok, of r d g wb _ s'] gt_map_refused [OF Pair] Pair ok show ?thesis
    by (cases x) (auto simp: well_behaved_def)
qed

lemma gt_find_slot:
  assumes "position (\<lambda>m. active m \<and> m_grantee m = r \<and> m_handle m = h) (gt_maps s) = x"
  shows "case x of Some i \<Rightarrow> i < length (gt_maps s) \<and> active (gt_maps s ! i) \<and> gt_named r h (gt_maps s ! i) \<and>
           gt_maps s ! i \<in># gt_live s
         | None \<Rightarrow> \<forall>m \<in># gt_live s. \<not> gt_named r h m"
  using assms
  by (auto simp: position_Some position_None gt_live_def gt_named_def split: option.splits)

lemma gt_unmap_Ok:
  assumes ok: "gt_ok s" and live: "\<exists>m \<in># gt_live s. gt_named r h m"
  shows "\<exists>m f ro s'. gt_unmap s r h = (Ok \<lparr>um_frame = f, um_writable = m_writable m\<rparr>, s') \<and>
     gt_named r h m \<and> gt_live s = add_mset m (gt_live s') \<and> gt_ok s' \<and>
     gt_offer s (m_grantor m) (m_gref m) = Some (r, f, ro) \<and> gt_offer s' = gt_offer s \<and>
     length (gt_maps s') = length (gt_maps s) \<and> gt_domain_count s' = gt_domain_count s"
proof -
  obtain i where pos: "position (\<lambda>m. active m \<and> m_grantee m = r \<and> m_handle m = h) (gt_maps s) = Some i"
    using gt_find_slot [of r h s None] live by fastforce
  define m where "m = gt_maps s ! i"
  have i: "i < length (gt_maps s)" "active m" "gt_named r h m" "m \<in># gt_live s"
    using gt_find_slot [OF pos] by (simp_all add: m_def)
  obtain f ro n w where g: "gt_get s (m_grantor m) (m_gref m) = Some (Access (m_grantee m) f ro n w)"
    using gt_ok_live_get [OF ok i(4)] by blast
  let ?w = "if m_writable m then w - 1 else w"
  let ?s = "(gt_put s (m_grantor m) (m_gref m) (Access (m_grantee m) f ro (n - 1) ?w))
     \<lparr>gt_maps := (gt_maps s)[i := m\<lparr>active := False\<rparr>]\<rparr>"
  have un: "gt_unmap s r h = (Ok \<lparr>um_frame = f, um_writable = m_writable m\<rparr>, ?s)"
    by (simp add: gt_unmap_def pos m_def [symmetric] gt_entry_eq g counts_after_unmap_def Let_def)
  have lv: "gt_live s = add_mset m (gt_live ?s)"
    using release_slot [of i "gt_maps s" active "m\<lparr>active := False\<rparr>"] i by (simp add: gt_live_def m_def)
  have ok': "gt_ok ?s" "gt_offer ?s = gt_offer s"
    by (rule gt_ok_unmapped [OF ok g _ lv]; use g ok in \<open>auto simp: gt_over_def gt.get_put gt_ok_def\<close>)+
  show ?thesis
    by (rule exI [of _ m], rule exI [of _ f], rule exI [of _ ro], rule exI [of _ ?s])
      (use un lv ok' i g in \<open>auto simp: gt_offer_def gt_named_def\<close>)
qed

lemma gt_unmap_Err:
  assumes "\<not> (\<exists>m \<in># gt_live s. gt_named r h m)"
  shows "gt_unmap s r h = (Err BadHandle, s)"
proof -
  have "position (\<lambda>m. active m \<and> m_grantee m = r \<and> m_handle m = h) (gt_maps s) = None"
    using assms by (auto simp: position_None gt_live_def gt_named_def)
  then show ?thesis by (simp add: gt_unmap_def)
qed

lemma gt_unmap_wb: "gt_ok s \<Longrightarrow> well_behaved gt_ok s (gt_unmap s r h)"
  using gt_unmap_Ok [of s r h] gt_unmap_Err [of s r h]
  by (cases "\<exists>m \<in># gt_live s. gt_named r h m") (auto simp: well_behaved_def)

lemma gt_apply_ok:
  assumes "gt_ok s" shows "gt_ok (snd (gt_apply s a))"
proof (cases a)
  case (OpMap r d g w)
  obtain x s' where m: "gt_map s r d g w = (x, s')" by force
  with OpMap assms gt_map_Ok [OF assms, of r d g w _ s'] gt_map_refused [OF m] show ?thesis
    by (cases x) (auto simp: apfst_def)
qed (use assms gt_grant_access_wb gt_end_access_wb gt_unmap_wb in \<open>auto simp: well_behaved_def apfst_def\<close>)

section \<open>Teardown\<close>

text \<open>What the release of a mapping reports.\<close>

definition gt_released :: "GrantSystem \<Rightarrow> Mapping \<Rightarrow> Unmapped" where
  "gt_released s m =
     \<lparr>um_frame = (case gt_offer s (m_grantor m) (m_gref m) of Some (_, f, _) \<Rightarrow> f | None \<Rightarrow> 0),
      um_writable = m_writable m\<rparr>"

lemma gt_released_cong: "gt_offer s' = gt_offer s \<Longrightarrow> gt_released s' = gt_released s"
  by (simp add: gt_released_def fun_eq_iff)

lemma gt_unmap_this:
  assumes ok: "gt_ok s" and live: "gt_live s = add_mset m M"
  shows "\<exists>s'. gt_unmap s (m_grantee m) (m_handle m) = (Ok (gt_released s m), s') \<and> gt_ok s' \<and> gt_live s' = M \<and>
     gt_offer s' = gt_offer s \<and> length (gt_maps s') = length (gt_maps s) \<and> gt_domain_count s' = gt_domain_count s"
proof -
  have "\<exists>k \<in># gt_live s. gt_named (m_grantee m) (m_handle m) k" by (simp add: live gt_named_def)
  from gt_unmap_Ok [OF ok this] obtain k f ro s' where
    s': "gt_unmap s (m_grantee m) (m_handle m) = (Ok \<lparr>um_frame = f, um_writable = m_writable k\<rparr>, s')"
    and k: "gt_named (m_grantee m) (m_handle m) k" "gt_live s = add_mset k (gt_live s')"
    and o: "gt_offer s (m_grantor k) (m_gref k) = Some (m_grantee m, f, ro)"
    and r: "gt_ok s'" "gt_offer s' = gt_offer s" "length (gt_maps s') = length (gt_maps s)"
      "gt_domain_count s' = gt_domain_count s" by blast
  have "k = m"
  proof (rule ccontr)
    assume "k \<noteq> m"
    then have "m \<in># gt_live s'" using k(2) live by (metis insert_noteq_member)
    from gt_named_unique [OF ok k(2) this k(1)] show False by (simp add: gt_named_def)
  qed
  with s' k o r live show ?thesis by (simp add: gt_released_def)
qed

lemma gt_release_all:
  assumes "gt_ok s" and "gt_live s = mset ms + M"
  shows "\<exists>s'. for_each gt_release_one (map (\<lambda>m. (m_grantee m, m_handle m)) ms) (acc, s) =
      Some (acc @ map (gt_released s) ms, s') \<and>
    gt_ok s' \<and> gt_live s' = M \<and> gt_offer s' = gt_offer s \<and> length (gt_maps s') = length (gt_maps s) \<and>
    gt_domain_count s' = gt_domain_count s"
  using assms
proof (induction ms arbitrary: s acc)
  case (Cons m ms)
  then have "gt_live s = add_mset m (mset ms + M)" by simp
  from gt_unmap_this [OF Cons.prems(1) this] obtain s1 where
    s1: "gt_unmap s (m_grantee m) (m_handle m) = (Ok (gt_released s m), s1)" "gt_ok s1"
      "gt_live s1 = mset ms + M" "gt_offer s1 = gt_offer s" "length (gt_maps s1) = length (gt_maps s)"
      "gt_domain_count s1 = gt_domain_count s" by blast
  from Cons.IH [OF s1(2,3), of "acc @ [gt_released s m]"] s1 gt_released_cong [OF s1(4)]
  show ?case by (auto simp: gt_release_one_def)
qed auto

lemma gt_live_partition:
  "gt_live s = mset (filter (\<lambda>m. active m \<and> P m) (gt_maps s)) + filter_mset (\<lambda>m. \<not> P m) (gt_live s)"
proof -
  have "mset (filter (\<lambda>m. active m \<and> P m) (gt_maps s)) = filter_mset P (gt_live s)"
    by (simp add: gt_live_def filter_filter_mset conj_commute)
  then show ?thesis using multiset_partition [of "gt_live s" P] by simp
qed

lemma gt_drain_maps_of_effect:
  assumes "gt_ok s"
  shows "\<exists>s'. gt_drain_maps_of s r =
      Some (map (gt_released s) (filter (\<lambda>m. active m \<and> m_grantee m = r) (gt_maps s)), s') \<and>
    gt_ok s' \<and> gt_live s' = filter_mset (\<lambda>m. m_grantee m \<noteq> r) (gt_live s) \<and> gt_offer s' = gt_offer s \<and>
    length (gt_maps s') = length (gt_maps s) \<and> gt_domain_count s' = gt_domain_count s"
proof -
  let ?ms = "filter (\<lambda>m. active m \<and> m_grantee m = r) (gt_maps s)"
  have hs: "map (\<lambda>h. (r, h)) (map m_handle ?ms) = map (\<lambda>m. (m_grantee m, m_handle m)) ?ms"
    by (auto simp: comp_def)
  have "gt_live s = mset ?ms + filter_mset (\<lambda>m. m_grantee m \<noteq> r) (gt_live s)" by (rule gt_live_partition)
  from gt_release_all [OF assms this, of "[]"] show ?thesis
    unfolding gt_drain_maps_of_def Let_def hs append_Nil .
qed

lemma gt_drain_foreign_maps_of_effect:
  assumes "gt_ok s"
  shows "\<exists>s'. gt_drain_foreign_maps_of s d =
      Some (map (gt_released s) (filter (\<lambda>m. active m \<and> m_grantor m = d \<and> m_grantee m \<noteq> d) (gt_maps s)), s') \<and>
    gt_ok s' \<and> gt_live s' = filter_mset (\<lambda>m. \<not> (m_grantor m = d \<and> m_grantee m \<noteq> d)) (gt_live s) \<and>
    gt_offer s' = gt_offer s \<and> length (gt_maps s') = length (gt_maps s) \<and> gt_domain_count s' = gt_domain_count s"
proof -
  let ?ms = "filter (\<lambda>m. active m \<and> m_grantor m = d \<and> m_grantee m \<noteq> d) (gt_maps s)"
  have "gt_live s = mset ?ms + filter_mset (\<lambda>m. \<not> (m_grantor m = d \<and> m_grantee m \<noteq> d)) (gt_live s)"
    by (rule gt_live_partition)
  from gt_release_all [OF assms this, of "[]"] show ?thesis
    unfolding gt_drain_foreign_maps_of_def Let_def append_Nil .
qed

text \<open>A sweep that ends some grants of one domain.\<close>

definition gt_idle :: "Mapping multiset \<Rightarrow> DomId \<Rightarrow> GrantRef \<Rightarrow> bool" where
  "gt_idle M d g \<longleftrightarrow> (\<forall>m \<in># M. \<not> gt_over d g m)"

lemma gt_idle_tally: "gt_tally (gt_over d g) M = 0 \<longleftrightarrow> gt_idle M d g"
  unfolding gt_idle_def gt_tally_0 ..

definition gt_swept :: "GrantSystem \<Rightarrow> (DomId \<Rightarrow> GrantRef \<Rightarrow> bool) \<Rightarrow> GrantSystem \<Rightarrow> bool" where
  "gt_swept s P s' \<longleftrightarrow> gt_ok s' \<and> gt_maps s' = gt_maps s \<and> gt_domain_count s' = gt_domain_count s \<and>
     (\<forall>d. gt_entry_count s' d = gt_entry_count s d) \<and>
     (\<forall>d g. gt_offer s' d g =
        (if P d g \<and> gt_idle (gt_live s) d g then None else gt_offer s d g))"

lemma gt_try_end_swept:
  assumes ok: "gt_ok s"
  shows "\<exists>s'. gt_try_end d g s = Some s' \<and> gt_swept s (\<lambda>d' g'. d' = d \<and> g' = g) s'"
proof (cases "\<exists>r f ro w. gt_get s d g = Some (Access r f ro 0 w)")
  case True
  then obtain r f ro w where g: "gt_get s d g = Some (Access r f ro 0 w)" by blast
  then have "gt_idle (gt_live s) d g" using gt_ok_entry(2) [OF ok g] unfolding gt_idle_tally [symmetric] by simp
  with gt_ok_ended [OF ok g] g show ?thesis
    by (auto simp: gt_try_end_def gt_end_access_effect gt_swept_def gt_offer_put)
next
  case False
  have no: "gt_offer s d g = None \<or> \<not> gt_idle (gt_live s) d g"
  proof (cases "gt_offer s d g")
    case (Some off)
    then obtain r f ro n w where g: "gt_get s d g = Some (Access r f ro n w)"
      by (cases off) (auto simp: gt_offer_Some)
    with False have "n \<noteq> 0" by auto
    with gt_ok_entry(2) [OF ok g] show ?thesis unfolding gt_idle_tally [symmetric] by simp
  qed simp
  have "gt_try_end d g s = Some s"
    using False by (auto simp: gt_try_end_def gt_end_access_effect split: option.splits GrantEntry.splits)
  with ok no show ?thesis by (auto simp: gt_swept_def)
qed

lemma gt_swept_refl: "gt_ok s \<Longrightarrow> (\<And>d g. P d g \<Longrightarrow> gt_offer s d g = None) \<Longrightarrow> gt_swept s P s"
  by (auto simp: gt_swept_def)

lemma gt_swept_live: "gt_swept s P s' \<Longrightarrow> gt_live s' = gt_live s"
  by (simp add: gt_swept_def gt_live_def)

lemma gt_swept_trans:
  assumes "gt_swept s P s1" "gt_swept s1 Q s2"
    and "\<And>d g. gt_offer s d g = None \<or> (R d g \<longleftrightarrow> P d g \<or> Q d g)"
  shows "gt_swept s R s2"
proof -
  have "gt_offer s2 d g = (if R d g \<and> gt_idle (gt_live s) d g then None else gt_offer s d g)" for d g
    using assms(1,2) assms(3) [of d g] gt_swept_live [OF assms(1)] by (auto simp: gt_swept_def)
  then show ?thesis using assms(1,2) by (simp add: gt_swept_def)
qed

text \<open>
  The inner loop of both sweeps: over one grantor's table, ending the grants that satisfy a test
  which depends on the offer only.
\<close>

lemma gt_sweep_row:
  assumes ok: "gt_ok s" and n: "n = gt_entry_count s d"
    and test: "\<And>s g. T s g \<longleftrightarrow> (\<exists>off. gt_offer s d g = Some off \<and> Q off)"
  shows "\<exists>s'. for_each (\<lambda>g s. if T s g then gt_try_end d g s else Some s) [0..<n] s = Some s' \<and>
    gt_swept s (\<lambda>d' g. d' = d \<and> (\<exists>off. gt_offer s d g = Some off \<and> Q off)) s'"
proof -
  let ?Q = "\<lambda>g. \<exists>off. gt_offer s d g = Some off \<and> Q off"
  let ?I = "\<lambda>k. gt_swept s (\<lambda>d' g. d' = d \<and> g < k \<and> ?Q g)"
  have "\<exists>s'. for_each (\<lambda>g s. if T s g then gt_try_end d g s else Some s) [0..<n] s = Some s' \<and> ?I n s'"
  proof (rule for_upt_rule [where I = ?I])
    fix k u assume u: "?I k u"
    then have oku: "gt_ok u" and same: "gt_offer u d k = gt_offer s d k" by (auto simp: gt_swept_def)
    show "\<exists>s'. (if T u k then gt_try_end d k u else Some u) = Some s' \<and> ?I (Suc k) s'"
    proof (cases "T u k")
      case True
      from gt_try_end_swept [OF oku, of d k] obtain s' where
        s': "gt_try_end d k u = Some s'" "gt_swept u (\<lambda>d' g'. d' = d \<and> g' = k) s'" by blast
      have "?Q k" using True same by (simp add: test)
      then have "?I (Suc k) s'" by (intro gt_swept_trans [OF u s'(2)]) (auto simp: less_Suc_eq)
      with s'(1) True show ?thesis by simp
    next
      case False
      with same have "\<not> ?Q k" by (simp add: test)
      then have "(\<lambda>d' g. d' = d \<and> g < Suc k \<and> ?Q g) = (\<lambda>d' g. d' = d \<and> g < k \<and> ?Q g)"
        by (auto simp: fun_eq_iff less_Suc_eq)
      with u False show ?thesis by simp
    qed
  qed (simp add: gt_swept_refl ok)
  then obtain s' where s': "for_each (\<lambda>g s. if T s g then gt_try_end d g s else Some s) [0..<n] s = Some s'"
    "?I n s'" by blast
  have "g < n" if "gt_offer s d g = Some off" for g off
    using that gt_get_range [of s d g] by (cases off) (auto simp: gt_offer_Some n)
  then have "(\<lambda>d' g. d' = d \<and> g < n \<and> ?Q g) = (\<lambda>d' g. d' = d \<and> ?Q g)" by (auto simp: fun_eq_iff)
  with s' show ?thesis by simp
qed

lemma gt_revoke_all_effect:
  assumes ok: "gt_ok s"
  shows "\<exists>s'. gt_revoke_all s d = Some s' \<and> gt_swept s (\<lambda>d' _. d' = d) s'"
proof -
  have n: "as_u32 (gt_entry_count s d) = gt_entry_count s d" using ok by (simp add: gt_ok_def gt_fits_iff)
  from gt_sweep_row [OF ok refl, where d = d and T = "\<lambda>s g. gt_is_granted s d g" and Q = "\<lambda>_. True"]
  obtain s' where s': "gt_revoke_all s d = Some s'"
    "gt_swept s (\<lambda>d' g. d' = d \<and> (\<exists>off. gt_offer s d g = Some off)) s'"
    unfolding gt_revoke_all_def n by (auto simp: gt_is_granted_iff)
  have "gt_swept s (\<lambda>d' _. d' = d) s'"
    by (rule gt_swept_trans [OF gt_swept_refl [of s "\<lambda>_ _. False"] s'(2)]) (use ok in auto)
  with s'(1) show ?thesis by blast
qed

lemma gt_revoke_grants_to_effect:
  assumes ok: "gt_ok s"
  shows "\<exists>s'. gt_revoke_grants_to s r = Some s' \<and> gt_swept s (\<lambda>d g. gt_grantee_of s d g = Some r) s'"
proof -
  let ?n = "gt_domain_count s"
  let ?I = "\<lambda>k. gt_swept s (\<lambda>d g. d < k \<and> gt_grantee_of s d g = Some r)"
  have n: "as_u16 ?n = ?n" using ok by (simp add: gt_ok_def gt_fits_iff)
  have "\<exists>s'. gt_revoke_grants_to s r = Some s' \<and> ?I ?n s'"
    unfolding gt_revoke_grants_to_def n
  proof (rule for_upt_rule [where I = ?I])
    fix k u assume u: "?I k u"
    then have oku: "gt_ok u" by (simp add: gt_swept_def)
    have n: "as_u32 (gt_entry_count u k) = gt_entry_count u k" using oku by (simp add: gt_ok_def gt_fits_iff)
    have test: "gt_grantee_of v k g = Some r \<longleftrightarrow> (\<exists>off. gt_offer v k g = Some off \<and> fst off = r)" for v g
      by (auto simp: gt_grantee_of_iff)
    from gt_sweep_row [OF oku refl test] obtain s' where
      s': "for_each (\<lambda>g s. if gt_grantee_of s k g = Some r then gt_try_end k g s else Some s)
         [0..<as_u32 (gt_entry_count u k)] u = Some s'"
      "gt_swept u (\<lambda>d' g. d' = k \<and> gt_grantee_of u k g = Some r) s'" unfolding n test [symmetric] by blast
    have same: "gt_grantee_of u k g = gt_grantee_of s k g" for g
    proof -
      have "gt_offer u k g = gt_offer s k g" using u by (simp add: gt_swept_def)
      then show ?thesis using gt_grantee_of_iff [of u k g] gt_grantee_of_iff [of s k g]
        by (metis not_None_eq)
    qed
    have "?I (Suc k) s'" using s'(2) unfolding same
      by (intro gt_swept_trans [OF u]) (auto simp: less_Suc_eq)
    with s'(1) show "\<exists>s'. for_each (\<lambda>g s. if gt_grantee_of s k g = Some r then gt_try_end k g s else Some s)
         [0..<as_u32 (gt_entry_count u k)] u = Some s' \<and> ?I (Suc k) s'" by blast
  qed (simp add: gt_swept_refl ok)
  then obtain s' where s': "gt_revoke_grants_to s r = Some s'" "?I ?n s'" by blast
  have "d < ?n" if "gt_grantee_of s d g = Some r" for d g
    using that gt_get_range [of s d g] by (auto simp: gt_grantee_of_iff gt_offer_Some)
  then have "(\<lambda>d g. d < ?n \<and> gt_grantee_of s d g = Some r) = (\<lambda>d g. gt_grantee_of s d g = Some r)"
    by (auto simp: fun_eq_iff)
  with s' show ?thesis by auto
qed

section \<open>The executable check agrees with the invariant\<close>

lemma gt_live_count:
  "length (filter (\<lambda>m. active m \<and> m_grantor m = d \<and> m_gref m = g) (gt_maps s)) = gt_tally (gt_over d g) (gt_live s)"
  "length (filter m_writable (filter (\<lambda>m. active m \<and> m_grantor m = d \<and> m_gref m = g) (gt_maps s))) =
     gt_tally (\<lambda>m. gt_over d g m \<and> m_writable m) (gt_live s)"
  by (simp_all add: gt_live_def filter_filter_mset gt_over_def conj_ac flip: size_mset)

lemma gt_entry_violation_ok:
  assumes ok: "gt_ok s" and g: "gt_get s d g = Some e"
  shows "gt_entry_violation s d g e = None"
proof (cases e)
  case (Access r f ro n w)
  note e = gt_ok_entry [OF ok g [unfolded Access]]
  have "w = 0" if ro
  proof -
    have "\<not> (gt_over d g m \<and> m_writable m)" if m: "m \<in># gt_live s" for m
    proof
      assume "gt_over d g m \<and> m_writable m"
      moreover from gt_ok_live [OF ok m] obtain f' ro' where
        "gt_offer s (m_grantor m) (m_gref m) = Some (m_grantee m, f', ro')" "m_writable m \<longrightarrow> \<not> ro'" .
      ultimately show False using g Access \<open>ro\<close> by (auto simp: gt_over_def gt_offer_def)
    qed
    then show ?thesis unfolding e(3) gt_tally_0 by blast
  qed
  moreover have "w \<le> n" unfolding e(2,3) by (rule gt_tally_mono) simp
  ultimately show ?thesis
    using e(1) e(2,3) unfolding gt_entry_violation_def Access GrantEntry.case Let_def gt_live_count
    by (auto simp: gt_domain_count_def)
qed (simp add: gt_entry_violation_def)

lemma gt_ok_no_violation:
  assumes ok: "gt_ok s" shows "gt_first_violation s = None"
proof -
  have "gt_map_violation s m = None" if "m \<in> set (filter active (gt_maps s))" for m
  proof -
    from that have "m \<in># gt_live s" by (simp add: gt_live_def)
    from gt_ok_live_get [OF ok this] obtain f ro n w where
      "gt_get s (m_grantor m) (m_gref m) = Some (Access (m_grantee m) f ro n w)" "m_writable m \<longrightarrow> \<not> ro"
      by blast
    then show ?thesis by (simp add: gt_map_violation_def gt_entry_eq)
  qed
  moreover have "gt_entry_violation s d g (gt_domains s ! d ! g) = None"
    if "d < length (gt_domains s)" "g < length (gt_domains s ! d)" for d g
    using that by (intro gt_entry_violation_ok [OF ok]) (simp add: gt_get_def tbl_get_def)
  ultimately show ?thesis
    by (auto simp: gt_first_violation_def find_map_enumerate_None
        intro!: find_map_None [THEN iffD2])
qed

lemma gt_new_ok: "n < u16_size \<Longrightarrow> k < u32_size \<Longrightarrow> gt_ok (gt_new n k)"
  by (auto simp: gt_ok_def gt_fits_def gt_counted_def gt_backed_def gt_handles_def gt_small_def gt_new_def
      gt_live_def gt_get_def tbl_get_def split: if_splits)

interpretation gtm: refusing_machine
  "\<lambda>s. \<exists>n k. n < u16_size \<and> k < u32_size \<and> s = gt_new n k"
  "\<lambda>s a. snd (gt_apply s a)" gt_ok "\<lambda>s a. is_Ok (fst (gt_apply s a))"
proof unfold_locales
  fix s a assume ok: "gt_ok s" and no: "\<not> is_Ok (fst (gt_apply s a))"
  show "snd (gt_apply s a) = s"
  proof (cases a)
    case (OpGrantAccess d g r f ro)
    with no gt_grant_access_wb [OF ok, of d g r f ro] show ?thesis
      by (cases "gt_grant_access s d g r f ro"; cases "fst (gt_grant_access s d g r f ro)")
        (auto simp: well_behaved_def)
  next
    case (OpEndAccess d g)
    with no gt_end_access_wb [OF ok, of d g] show ?thesis
      by (cases "gt_end_access s d g"; cases "fst (gt_end_access s d g)") (auto simp: well_behaved_def)
  next
    case (OpMap r d g w)
    with no gt_map_refused [of s r d g w] show ?thesis
      by (cases "gt_map s r d g w"; cases "fst (gt_map s r d g w)") auto
  next
    case (OpUnmap r h)
    with no gt_unmap_wb [OF ok, of r h] show ?thesis
      by (cases "gt_unmap s r h"; cases "fst (gt_unmap s r h)") (auto simp: well_behaved_def)
  qed
qed (auto intro: gt_new_ok gt_apply_ok)

section \<open>Properties\<close>

lemma gt_find_Some:
  "find (\<lambda>m. active m \<and> m_grantee m = r \<and> m_handle m = h) (gt_maps s) = Some m \<Longrightarrow>
     m \<in># gt_live s \<and> gt_named r h m"
  by (metis (mono_tags, lifting) find_Some_iff filter_mset_eq_conv gt_live_def gt_named_def in_multiset_in_set
      mem_Collect_eq nth_mem set_mset_filter)

lemma gt_find_None:
  "find (\<lambda>m. active m \<and> m_grantee m = r \<and> m_handle m = h) (gt_maps s) = None \<longleftrightarrow>
     (\<forall>m \<in># gt_live s. \<not> gt_named r h m)"
  by (auto simp: find_None_iff gt_live_def gt_named_def)

text \<open>Offers and live mappings determine the entries, counts included.\<close>

lemma gt_entry_determined:
  assumes "gt_ok s" "gt_ok s'" "gt_offer s = gt_offer s'" "gt_live s = gt_live s'"
  shows "gt_grant_entry s d g = gt_grant_entry s' d g"
proof (cases "gt_offer s d g")
  case None
  moreover from this have "gt_offer s' d g = None" using assms(3) by simp
  ultimately show ?thesis
    by (auto simp: gt_offer_def gt_grant_entry_def gt_entry_eq split: option.splits GrantEntry.splits)
next
  case (Some off)
  then obtain r f ro n w n' w' where g: "gt_get s d g = Some (Access r f ro n w)" "gt_get s' d g = Some (Access r f ro n' w')"
    using assms(3) by (cases off) (metis gt_offer_Some)
  with gt_ok_entry(2,3) [OF assms(1) g(1)] gt_ok_entry(2,3) [OF assms(2) g(2)] assms(4)
  show ?thesis by (simp add: gt_grant_entry_def gt_entry_eq)
qed

lemma gt_map_length: "length (gt_maps (snd (gt_apply s a))) \<le> Suc (length (gt_maps s))"
proof (cases a)
  case (OpMap r d g w)
  then show ?thesis
    by (auto simp: gt_map_effect gt_place_length split: option.splits GrantEntry.splits)
next
  case (OpUnmap r h)
  then show ?thesis
    by (auto simp: gt_unmap_def propagate_def ok_or_def Let_def split: option.splits result.splits GrantEntry.splits prod.splits)
qed (auto simp: gt_grant_access_def gt_end_access_effect propagate_def
      split: option.splits result.splits GrantEntry.splits)

lemma gt_run_length: "length (gt_maps (fold (\<lambda>a s. snd (gt_apply s a)) as s)) \<le> length as + length (gt_maps s)"
proof (induction as arbitrary: s)
  case (Cons a as)
  from Cons [of "snd (gt_apply s a)"] gt_map_length [of s a] show ?case by simp
qed simp

text \<open>
  C28: Whatever sequence of fewer than \<open>2\<^sup>3\<^sup>2\<close> grant operations is applied to a fresh system, the
  check \<open>first_violation\<close> finds nothing (counts agree with the live mappings, no dangling map,
  read-only respected), and the next operation returns without panic; in particular the handle
  search terminates.
\<close>

theorem grant_runs_consistent:
  assumes "n < u16_size" and "k < u32_size" and "length as < u32_size"
    and "s = fold (\<lambda>a s. snd (gt_apply s a)) as (gt_new n k)"
  shows "gt_first_violation s = None \<and> fst (gt_apply s a) \<noteq> Panic"
proof -
  have ok: "gt_ok s" unfolding assms(4) using assms(1,2) by (intro gtm.run_inv gt_new_ok)
  have "length (gt_maps s) < u32_size"
    using gt_run_length [of as "gt_new n k"] assms(3,4) by (simp add: gt_new_def)
  then have "fst (gt_apply s a) \<noteq> Panic"
    using gt_map_returns gt_grant_access_wb [OF ok] gt_end_access_wb [OF ok] gt_unmap_wb [OF ok]
    by (cases a) (auto simp: apfst_def map_prod_def split_beta well_behaved_def)
  with gt_ok_no_violation [OF ok] show ?thesis by simp
qed

theorem grant_runs_consistent_witness:
  "\<exists>s. s = fold (\<lambda>a s. snd (gt_apply s a)) [OpGrantAccess 0 1 1 7 False, OpMap 1 0 1 True] (gt_new 2 2) \<and>
     gt_writable_map_count s 0 1 = Some 1 \<and> gt_first_violation s = None \<and> fst (gt_apply s (OpEndAccess 0 1)) \<noteq> Panic"
proof -
  let ?s = "fold (\<lambda>a s. snd (gt_apply s a)) [OpGrantAccess 0 1 1 7 False, OpMap 1 0 1 True] (gt_new 2 2)"
  have "gt_writable_map_count ?s 0 1 = Some 1" by code_simp
  with grant_runs_consistent [OF _ _ _ refl, of 2 2 "[OpGrantAccess 0 1 1 7 False, OpMap 1 0 1 True]" "OpEndAccess 0 1"]
  show ?thesis by auto
qed

text \<open>
  No mapping outlives its grant. In every reachable state, a live mapping stands over an
  active grant that names its holder, a writable mapping over a grant that is not read-only, and
  revoking that grant is refused with \<open>InUse\<close>.
\<close>

theorem grant_no_dangling:
  assumes "n < u16_size" and "k < u32_size"
    and "s = fold (\<lambda>a s. snd (gt_apply s a)) as (gt_new n k)"
    and "gt_mapping_at s r h = Some (d, g, w)"
  shows "gt_grantee_of s d g = Some r \<and> gt_copy s r d g w = Ok () \<and> gt_end_access s d g = (Err InUse, s)"
proof -
  have ok: "gt_ok s" unfolding assms(3) using assms(1,2) by (intro gtm.run_inv gt_new_ok)
  from assms(4) obtain m where
    find: "find (\<lambda>m. active m \<and> m_grantee m = r \<and> m_handle m = h) (gt_maps s) = Some m"
    and dgw: "m_grantor m = d" "m_gref m = g" "m_writable m = w" by (auto simp: gt_mapping_at_def)
  have m: "m \<in># gt_live s" "m_grantee m = r" using gt_find_Some [OF find] by (auto simp: gt_named_def)
  note m = m dgw
  from gt_ok_live_get [OF ok m(1)] m obtain f ro c cw where
    g: "gt_get s d g = Some (Access r f ro c cw)" "w \<longrightarrow> \<not> ro" by auto
  have "\<not> gt_idle (gt_live s) d g" using m by (auto simp: gt_idle_def gt_over_def)
  then have "c \<noteq> 0" using gt_ok_entry(2) [OF ok g(1)] unfolding gt_idle_tally [symmetric] by simp
  with g show ?thesis by (auto simp: gt_grantee_of_def gt_copy_def gt_entry_eq gt_end_access_effect)
qed

theorem grant_no_dangling_witness:
  "\<exists>s. gt_mapping_at s 1 0 = Some (0, 1, True) \<and> gt_end_access s 0 1 = (Err InUse, s)"
proof -
  let ?s = "fold (\<lambda>a s. snd (gt_apply s a)) [OpGrantAccess 0 1 1 7 False, OpMap 1 0 1 True] (gt_new 2 2)"
  have "gt_mapping_at ?s 1 0 = Some (0, 1, True)" by code_simp
  with grant_no_dangling [OF _ _ refl this] show ?thesis by auto
qed

text \<open>
  Mapping a grant and unmapping the handle it returned is a round trip: the unmap succeeds,
  reports the granted frame and the writability that was asked for, and leaves every offer and
  the live mappings as they were. The handle was not in use by the grantee.
\<close>

theorem grant_map_unmap:
  assumes "gt_ok s" and "gt_map s r d g w = (Ok h, s1)"
  shows "gt_mapping_at s r h = None \<and> gt_mapping_at s1 r h = Some (d, g, w) \<and>
    (\<exists>f s2. gt_unmap s1 r h = (Ok \<lparr>um_frame = f, um_writable = w\<rparr>, s2) \<and> gt_granted_frame s d g = Some f \<and>
       gt_live s2 = gt_live s \<and> gt_offer s2 = gt_offer s \<and>
       (\<forall>d' g'. gt_grant_entry s2 d' g' = gt_grant_entry s d' g'))"
proof -
  from gt_map_Ok [OF assms] obtain f ro m where off: "gt_offer s d g = Some (r, f, ro)"
    and m: "m = \<lparr>active = True, m_grantee = r, m_handle = h, m_grantor = d, m_gref = g, m_writable = w\<rparr>"
    and s1: "gt_ok s1" "gt_live s1 = add_mset m (gt_live s)" "gt_offer s1 = gt_offer s"
    and free: "\<forall>m \<in># gt_live s. \<not> gt_named r h m" by blast
  from gt_unmap_this [OF s1(1,2)] obtain s2 where
    s2: "gt_unmap s1 r h = (Ok (gt_released s1 m), s2)" "gt_ok s2" "gt_live s2 = gt_live s" "gt_offer s2 = gt_offer s1"
    by (auto simp: m)
  have rel: "gt_released s1 m = \<lparr>um_frame = f, um_writable = w\<rparr>" using off by (simp add: gt_released_def s1(3) m)
  have none: "gt_mapping_at s r h = None"
    using free by (simp add: gt_mapping_at_def gt_find_None)
  have named: "k = m" if "k \<in># gt_live s1" "gt_named r h k" for k
    using that s1(2) free by auto
  have "gt_mapping_at s1 r h = Some (d, g, w)"
  proof -
    have "m \<in># gt_live s1" "gt_named r h m" using s1(2) by (simp_all add: m gt_named_def)
    then obtain k where "find (\<lambda>m. active m \<and> m_grantee m = r \<and> m_handle m = h) (gt_maps s1) = Some k"
      using gt_find_None [of r h s1] by fastforce
    moreover from gt_find_Some [OF this] have "k = m" by (intro named) simp_all
    ultimately show ?thesis by (simp add: gt_mapping_at_def m)
  qed
  moreover have "gt_grant_entry s2 d' g' = gt_grant_entry s d' g'" for d' g'
    using s2(3,4) s1(3) by (intro gt_entry_determined [OF s2(2) assms(1)]) simp_all
  ultimately show ?thesis using none s2 rel off s1(3) by (auto simp: gt_granted_frame_iff)
qed

theorem grant_map_unmap_witness:
  "\<exists>s s1. gt_map s 1 0 1 True = (Ok 0, s1) \<and> gt_mapping_at s1 1 0 = Some (0, 1, True)"
proof -
  let ?s = "snd (gt_grant_access (gt_new 2 2) 0 1 1 7 False)"
  have "gt_ok ?s" using gt_grant_access_wb [OF gt_new_ok, of 2 2 0 1 1 7 False] by (simp add: well_behaved_def)
  moreover have "gt_map ?s 1 0 1 True = (Ok 0, snd (gt_map ?s 1 0 1 True))" by code_simp
  ultimately show ?thesis using grant_map_unmap [of ?s 1 0 1 True 0] by blast
qed

text \<open>
  The four grant-side steps of a domain teardown, in the order of \<open>domain_destroy\<close> (drain the
  domain's own mappings, drain foreign mappings over its grants, revoke what it offers, revoke
  what is offered to it) never panic. Afterwards no mapping and no grant involves the domain,
  and every grant between two other domains is as it was.
\<close>

theorem grant_teardown_clears:
  assumes "gt_ok s"
  shows "\<exists>r1 s1 r2 s2 s3 s4.
     gt_drain_maps_of s d = Some (r1, s1) \<and> gt_drain_foreign_maps_of s1 d = Some (r2, s2) \<and>
     gt_revoke_all s2 d = Some s3 \<and> gt_revoke_grants_to s3 d = Some s4 \<and>
     gt_first_violation s4 = None \<and> \<not> gt_holds_any_map s4 d \<and> \<not> gt_has_foreign_map s4 d \<and>
     \<not> gt_any_grant_to s4 d \<and> (\<forall>g. \<not> gt_is_granted s4 d g) \<and>
     (\<forall>d' g r. d' \<noteq> d \<and> gt_grantee_of s d' g = Some r \<and> r \<noteq> d \<longrightarrow>
        gt_grant_entry s4 d' g = gt_grant_entry s d' g)"
proof -
  from gt_drain_maps_of_effect [OF assms, of d] obtain r1 s1 where
    s1: "gt_drain_maps_of s d = Some (r1, s1)" "gt_ok s1" "gt_offer s1 = gt_offer s"
      "gt_live s1 = filter_mset (\<lambda>m. m_grantee m \<noteq> d) (gt_live s)" by blast
  from gt_drain_foreign_maps_of_effect [OF s1(2), of d] obtain r2 s2 where
    s2: "gt_drain_foreign_maps_of s1 d = Some (r2, s2)" "gt_ok s2" "gt_offer s2 = gt_offer s1"
      "gt_live s2 = filter_mset (\<lambda>m. \<not> (m_grantor m = d \<and> m_grantee m \<noteq> d)) (gt_live s1)" by blast
  from gt_revoke_all_effect [OF s2(2), of d] obtain s3 where
    s3: "gt_revoke_all s2 d = Some s3" "gt_swept s2 (\<lambda>d' _. d' = d) s3" by blast
  then have ok3: "gt_ok s3" by (simp add: gt_swept_def)
  from gt_revoke_grants_to_effect [OF ok3, of d] obtain s4 where
    s4: "gt_revoke_grants_to s3 d = Some s4" "gt_swept s3 (\<lambda>d' g. gt_grantee_of s3 d' g = Some d) s4" by blast
  then have ok4: "gt_ok s4" by (simp add: gt_swept_def)
  have l2: "m_grantee m \<noteq> d \<and> m_grantor m \<noteq> d" if "m \<in># gt_live s2" for m
    using that by (auto simp: s1(4) s2(4))
  have l: "gt_live s4 = gt_live s2" "gt_live s3 = gt_live s2"
    using gt_swept_live [OF s3(2)] gt_swept_live [OF s4(2)] by simp_all
  have idle: "gt_idle (gt_live s2) d g" for g using l2 by (auto simp: gt_idle_def gt_over_def)
  have o3: "gt_offer s3 d' g = (if d' = d then None else gt_offer s d' g)" for d' g
    using s3(2) idle by (auto simp: gt_swept_def s2(3) s1(3))
  have idle_to: "gt_idle (gt_live s2) d' g" if "gt_grantee_of s3 d' g = Some d" for d' g
    unfolding gt_idle_def
  proof (intro ballI notI)
    fix m assume m: "m \<in># gt_live s2" "gt_over d' g m"
    from that have "\<exists>f ro. gt_offer s3 d' g = Some (d, f, ro)" by (simp add: gt_grantee_of_iff)
    moreover have "m \<in># gt_live s3" using m l by simp
    from gt_ok_live [OF ok3 this] obtain f ro where
      "gt_offer s3 (m_grantor m) (m_gref m) = Some (m_grantee m, f, ro)" .
    ultimately show False using l2 [OF m(1)] m(2) by (auto simp: gt_over_def)
  qed
  have o4: "gt_offer s4 d' g = (if gt_grantee_of s3 d' g = Some d then None else gt_offer s3 d' g)" for d' g
    using s4(2) idle_to l by (auto simp: gt_swept_def)
  have "\<not> gt_any_grant_to s4 d"
    using ok4 by (auto simp: gt_any_grant_to_iff gt_ok_def o4 gt_grantee_of_iff split: if_splits)
  moreover have "gt_grant_entry s4 d' g = gt_grant_entry s d' g"
    if "d' \<noteq> d" "gt_grantee_of s d' g = Some r" "r \<noteq> d" for d' g r
  proof -
    from that(2) obtain f ro where off: "gt_offer s d' g = Some (r, f, ro)" by (auto simp: gt_grantee_of_iff)
    then have off3: "gt_offer s3 d' g = Some (r, f, ro)" using that(1) by (simp add: o3)
    then have off4: "gt_offer s4 d' g = Some (r, f, ro)" using that(3) by (auto simp: o4 gt_grantee_of_iff)
    have over: "gt_over d' g m \<Longrightarrow> m \<in># gt_live s \<Longrightarrow> m_grantee m \<noteq> d \<and> \<not> (m_grantor m = d \<and> m_grantee m \<noteq> d)" for m
      using gt_ok_live [OF assms, of m] off that(1,3) unfolding gt_over_def by (metis option.inject fst_conv)
    have tally: "gt_tally (\<lambda>m. gt_over d' g m \<and> Q m) (gt_live s4) = gt_tally (\<lambda>m. gt_over d' g m \<and> Q m) (gt_live s)" for Q
      using over by (auto simp: l s1(4) s2(4) filter_filter_mset intro!: arg_cong [where f = size] filter_mset_cong)
    from off off4 obtain n w n' w' where g: "gt_get s d' g = Some (Access r f ro n w)"
      "gt_get s4 d' g = Some (Access r f ro n' w')" by (auto simp: gt_offer_Some)
    with gt_ok_entry(2,3) [OF assms g(1)] gt_ok_entry(2,3) [OF ok4 g(2)] tally [of "\<lambda>_. True"] tally [of m_writable]
    show ?thesis by (simp add: gt_grant_entry_def gt_entry_eq)
  qed
  moreover have "\<not> gt_holds_any_map s4 d" "\<not> gt_has_foreign_map s4 d" "\<forall>g. \<not> gt_is_granted s4 d g"
    using l2 by (auto simp: gt_holds_any_iff gt_has_foreign_iff l gt_is_granted_iff o4 o3)
  ultimately show ?thesis using s1(1) s2(1) s3(1) s4(1) gt_ok_no_violation [OF ok4] by blast
qed

theorem grant_teardown_clears_witness:
  "\<exists>s s1 r1. gt_holds_any_map s 1 \<and> gt_drain_maps_of s 1 = Some (r1, s1) \<and> r1 = [\<lparr>um_frame = 7, um_writable = True\<rparr>]"
proof -
  let ?s = "fold (\<lambda>a s. snd (gt_apply s a)) [OpGrantAccess 0 1 1 7 False, OpMap 1 0 1 True] (gt_new 2 2)"
  have ok: "gt_ok ?s" by (intro gtm.run_inv gt_new_ok) simp_all
  have h: "gt_holds_any_map ?s 1" "map_option fst (gt_drain_maps_of ?s 1) = Some [\<lparr>um_frame = 7, um_writable = True\<rparr>]"
    by code_simp+
  from grant_teardown_clears [OF ok, of 1] h show ?thesis by auto
qed

end
