(* ===== verification/P2m.thy ===== *)
theory P2m
  imports HV_Prelude
begin

text \<open>
  Machine-frame ownership and page types, \<open>hv-core/src/p2m.rs\<close>: frames with their reference
  counts per use (existence, writable, executable, page table), the page-table edges between
  frames, pinning, and the teardown sweeps.

  The counts are shown to be exact: each is the number of page-table edges, pins and external
  holders (grant mappings) that use the frame in that way. Write-xor-execute, the exclusion of
  writable page tables and the levelling of the edges follow.
\<close>

section \<open>Data\<close>

datatype PtLevel = L1 | L2 | L3 | L4

datatype PageType = Writable | PageTable PtLevel

fun interior_child_type :: "PtLevel \<Rightarrow> PageType option" where
  "interior_child_type L1 = None"
| "interior_child_type L2 = Some (PageTable L1)"
| "interior_child_type L3 = Some (PageTable L2)"
| "interior_child_type L4 = Some (PageTable L3)"

fun level :: "PageType \<Rightarrow> PtLevel option" where
  "level Writable = None"
| "level (PageTable l) = Some l"

record FrameInfo =
  owner :: DomId
  refs :: nat
  writable_refs :: nat
  executable_refs :: nat
  pagetable_refs :: nat
  pt_level :: PtLevel
  pinned :: bool

datatype Frame = Free | Allocated FrameInfo

datatype ChildRef = Bare | Exec | Typed PageType

definition entry_child_ref :: "PtLevel \<Rightarrow> bool \<Rightarrow> bool \<Rightarrow> bool \<Rightarrow> ChildRef option" where
  "entry_child_ref lvl leaf writable execute =
     (if leaf then
        Some (if writable then Typed Writable else if execute then Exec else Bare)
      else map_option Typed (interior_child_type lvl))"

definition TABLE_SLOTS :: nat where "TABLE_SLOTS = 8"

record Link =
  l_active :: bool
  l_parent :: Mfn
  l_slot :: nat
  l_child :: Mfn
  l_writable :: bool
  l_leaf :: bool
  l_execute :: bool

record P2mSystem =
  frames :: "Frame list"
  links :: "Link list"
  pm_num_domains :: nat

datatype P2mError =
  BadFrame | BadDomain | WrongState | TypePinned | InUse | NotYours | Overflow | BadSlot | WxConflict

datatype P2mViolation =
    OwnerGhostDomain nat
  | TypeConfusion nat
  | WriteExecuteConfusion nat
  | TypedExceedsRefs nat
  | PinnedNotPageTyped nat
  | MislevelledLink nat nat
  | PagetableRefsAccounted nat

definition pm_new :: "nat \<Rightarrow> nat \<Rightarrow> P2mSystem" where
  "pm_new num_domains num_frames =
     \<lparr>frames = map (\<lambda>_. Free) [0..<num_frames], links = [], pm_num_domains = num_domains\<rparr>"

section \<open>Internals and queries\<close>

definition pm_frame :: "P2mSystem \<Rightarrow> Mfn \<Rightarrow> (Frame, P2mError) result" where
  "pm_frame s mfn = ok_or (vec_get (frames s) mfn) BadFrame"

text \<open>A write through \<open>frame_mut(mfn)\<close> that was found in range.\<close>

definition pm_frame_mut :: "P2mSystem \<Rightarrow> Mfn \<Rightarrow> FrameInfo \<Rightarrow> P2mSystem" where
  "pm_frame_mut s mfn i = s\<lparr>frames := (frames s)[mfn := Allocated i]\<rparr>"

definition pm_link_index :: "P2mSystem \<Rightarrow> Mfn \<Rightarrow> nat \<Rightarrow> nat option" where
  "pm_link_index s parent slot =
     position (\<lambda>l. l_active l \<and> l_parent l = parent \<and> l_slot l = slot) (links s)"

definition pm_alloc_link :: "P2mSystem \<Rightarrow> Link \<Rightarrow> P2mSystem" where
  "pm_alloc_link s link =
     (case position (\<lambda>l. \<not> l_active l) (links s) of
        Some i \<Rightarrow> s\<lparr>links := (links s)[i := link]\<rparr>
      | None \<Rightarrow> s\<lparr>links := links s @ [link]\<rparr>)"

definition pm_is_allocated :: "P2mSystem \<Rightarrow> Mfn \<Rightarrow> bool" where
  "pm_is_allocated s mfn = (case pm_frame s mfn of Ok (Allocated _) \<Rightarrow> True | _ \<Rightarrow> False)"

definition pm_owner_of :: "P2mSystem \<Rightarrow> Mfn \<Rightarrow> DomId option" where
  "pm_owner_of s mfn = (case pm_frame s mfn of Ok (Allocated i) \<Rightarrow> Some (owner i) | _ \<Rightarrow> None)"

definition pm_refs :: "P2mSystem \<Rightarrow> Mfn \<Rightarrow> nat option" where
  "pm_refs s mfn = (case pm_frame s mfn of Ok (Allocated i) \<Rightarrow> Some (refs i) | _ \<Rightarrow> None)"

definition pm_executable_refs :: "P2mSystem \<Rightarrow> Mfn \<Rightarrow> nat option" where
  "pm_executable_refs s mfn =
     (case pm_frame s mfn of Ok (Allocated i) \<Rightarrow> Some (executable_refs i) | _ \<Rightarrow> None)"

definition pm_type_refs :: "P2mSystem \<Rightarrow> Mfn \<Rightarrow> PageType \<Rightarrow> nat option" where
  "pm_type_refs s mfn ty =
     (case pm_frame s mfn of
        Ok (Allocated i) \<Rightarrow>
          Some (case ty of
                  Writable \<Rightarrow> writable_refs i
                | PageTable lvl \<Rightarrow>
                    if pagetable_refs i > 0 \<and> pt_level i = lvl then pagetable_refs i else 0)
      | _ \<Rightarrow> None)"

definition pm_current_type :: "P2mSystem \<Rightarrow> Mfn \<Rightarrow> PageType option" where
  "pm_current_type s mfn =
     (case pm_frame s mfn of
        Ok (Allocated i) \<Rightarrow>
          if writable_refs i > 0 then Some Writable
          else if pagetable_refs i > 0 then Some (PageTable (pt_level i))
          else None
      | _ \<Rightarrow> None)"

definition pm_is_pinned :: "P2mSystem \<Rightarrow> Mfn \<Rightarrow> bool" where
  "pm_is_pinned s mfn = (case pm_frame s mfn of Ok (Allocated i) \<Rightarrow> pinned i | _ \<Rightarrow> False)"

definition pm_child_at :: "P2mSystem \<Rightarrow> Mfn \<Rightarrow> nat \<Rightarrow> Mfn option" where
  "pm_child_at s parent slot = map_option (\<lambda>i. l_child (links s ! i)) (pm_link_index s parent slot)"

definition pm_active_links :: "P2mSystem \<Rightarrow> nat" where
  "pm_active_links s = length (filter l_active (links s))"

definition pm_link_edges :: "P2mSystem \<Rightarrow> (Mfn \<times> nat \<times> Mfn \<times> bool \<times> bool \<times> bool) list" where
  "pm_link_edges s =
     map (\<lambda>l. (l_parent l, l_slot l, l_child l, l_writable l, l_leaf l, l_execute l))
       (filter l_active (links s))"

definition pm_has_foreign_link_into :: "P2mSystem \<Rightarrow> DomId \<Rightarrow> bool" where
  "pm_has_foreign_link_into s own =
     list_ex (\<lambda>l. l_active l \<and> pm_owner_of s (l_child l) = Some own \<and> pm_owner_of s (l_parent l) \<noteq> Some own)
       (links s)"

definition pm_is_foreign_linked :: "P2mSystem \<Rightarrow> Mfn \<Rightarrow> bool" where
  "pm_is_foreign_linked s frame =
     (let own = pm_owner_of s frame in
      list_ex (\<lambda>l. l_active l \<and> l_child l = frame \<and> pm_owner_of s (l_parent l) \<noteq> own) (links s))"

definition pm_is_foreign_linked_by :: "P2mSystem \<Rightarrow> Mfn \<Rightarrow> DomId \<Rightarrow> bool" where
  "pm_is_foreign_linked_by s frame linker =
     (let own = pm_owner_of s frame in
      list_ex (\<lambda>l. l_active l \<and> l_child l = frame \<and> pm_owner_of s (l_parent l) = Some linker \<and> Some linker \<noteq> own)
        (links s))"

definition pm_frame_count :: "P2mSystem \<Rightarrow> nat" where
  "pm_frame_count s = length (frames s)"

definition pm_domain_count :: "P2mSystem \<Rightarrow> nat" where
  "pm_domain_count s = pm_num_domains s"

definition pm_allocated_count :: "P2mSystem \<Rightarrow> nat" where
  "pm_allocated_count s = length (filter (\<lambda>f. f \<noteq> Free) (frames s))"

section \<open>References\<close>

definition pm_allocate :: "P2mSystem \<Rightarrow> DomId \<Rightarrow> Mfn \<Rightarrow> (unit, P2mError) result \<times> P2mSystem" where
  "pm_allocate s own mfn =
     (if pm_num_domains s \<le> own then (Err BadDomain, s)
      else
        propagate (pm_frame s mfn) s (\<lambda>frame.
        if frame \<noteq> Free then (Err WrongState, s)
        else
          (Ok (), pm_frame_mut s mfn
             \<lparr>owner = own, refs = 0, writable_refs = 0, executable_refs = 0, pagetable_refs = 0,
              pt_level = L1, pinned = False\<rparr>)))"

definition acquire_check :: "Frame \<Rightarrow> PageType option \<Rightarrow> (unit, P2mError) result" where
  "acquire_check frame ty =
     (case frame of
        Free \<Rightarrow> Err WrongState
      | Allocated i \<Rightarrow>
          (let conflict =
             (case ty of
                None \<Rightarrow> None
              | Some Writable \<Rightarrow>
                  if executable_refs i > 0 then Some WxConflict
                  else if pagetable_refs i > 0 then Some TypePinned
                  else None
              | Some (PageTable lvl) \<Rightarrow>
                  if writable_refs i > 0 \<or> pagetable_refs i > 0 \<and> pt_level i \<noteq> lvl then Some TypePinned
                  else None)
           in case conflict of
                Some e \<Rightarrow> Err e
              | None \<Rightarrow>
                  if checked_inc_u32 (refs i) = None then Err Overflow
                  else
                    (case ty of
                       None \<Rightarrow> Ok ()
                     | Some t \<Rightarrow>
                         if checked_inc_u32 (case t of Writable \<Rightarrow> writable_refs i | PageTable _ \<Rightarrow> pagetable_refs i) = None
                         then Err Overflow else Ok ())))"

definition pm_can_acquire :: "P2mSystem \<Rightarrow> Mfn \<Rightarrow> PageType option \<Rightarrow> (unit, P2mError) result" where
  "pm_can_acquire s mfn ty =
     (case pm_frame s mfn of Ok f \<Rightarrow> acquire_check f ty | Err e \<Rightarrow> Err e | Panic \<Rightarrow> Panic)"

definition pm_get :: "P2mSystem \<Rightarrow> Mfn \<Rightarrow> (unit, P2mError) result \<times> P2mSystem" where
  "pm_get s mfn =
     propagate (pm_frame s mfn) s (\<lambda>frame.
     propagate (acquire_check frame None) s (\<lambda>_.
     case frame of
       Free \<Rightarrow> (Err WrongState, s)
     | Allocated i \<Rightarrow>
         propagate (ok_or (checked_inc_u32 (refs i)) Overflow) s (\<lambda>r.
         (Ok (), pm_frame_mut s mfn (i\<lparr>refs := r\<rparr>)))))"

definition pm_put :: "P2mSystem \<Rightarrow> Mfn \<Rightarrow> (unit, P2mError) result \<times> P2mSystem" where
  "pm_put s mfn =
     propagate (pm_frame s mfn) s (\<lambda>frame.
     case frame of
       Free \<Rightarrow> (Err WrongState, s)
     | Allocated i \<Rightarrow>
         (let typed = wrap_u32 (writable_refs i + executable_refs i + pagetable_refs i) in
          if refs i = 0 then (Err WrongState, s)
          else if refs i - 1 < typed then (Err InUse, s)
          else (Ok (), pm_frame_mut s mfn (i\<lparr>refs := refs i - 1\<rparr>))))"

definition pm_get_type :: "P2mSystem \<Rightarrow> Mfn \<Rightarrow> PageType \<Rightarrow> (unit, P2mError) result \<times> P2mSystem" where
  "pm_get_type s mfn ty =
     propagate (pm_frame s mfn) s (\<lambda>frame.
     propagate (acquire_check frame (Some ty)) s (\<lambda>_.
     case frame of
       Free \<Rightarrow> (Err WrongState, s)
     | Allocated i \<Rightarrow>
         propagate (ok_or (checked_inc_u32 (refs i)) Overflow) s (\<lambda>new_refs.
         case ty of
           Writable \<Rightarrow>
             propagate (ok_or (checked_inc_u32 (writable_refs i)) Overflow) s (\<lambda>new_typed.
             (Ok (), pm_frame_mut s mfn (i\<lparr>writable_refs := new_typed, refs := new_refs\<rparr>)))
         | PageTable lvl \<Rightarrow>
             (let i1 = (if pagetable_refs i = 0 then i\<lparr>pt_level := lvl\<rparr> else i);
                  s1 = pm_frame_mut s mfn i1
              in propagate (ok_or (checked_inc_u32 (pagetable_refs i)) Overflow) s1 (\<lambda>new_typed.
                 (Ok (), pm_frame_mut s mfn (i1\<lparr>pagetable_refs := new_typed, refs := new_refs\<rparr>)))))))"

definition pm_put_type :: "P2mSystem \<Rightarrow> Mfn \<Rightarrow> PageType \<Rightarrow> (unit, P2mError) result \<times> P2mSystem" where
  "pm_put_type s mfn ty =
     propagate (pm_frame s mfn) s (\<lambda>frame.
     case frame of
       Free \<Rightarrow> (Err WrongState, s)
     | Allocated i \<Rightarrow>
         (case ty of
            Writable \<Rightarrow>
              if writable_refs i = 0 then (Err WrongState, s)
              else (Ok (), pm_frame_mut s mfn (i\<lparr>writable_refs := writable_refs i - 1, refs := refs i - 1\<rparr>))
          | PageTable lvl \<Rightarrow>
              if pagetable_refs i = 0 \<or> pt_level i \<noteq> lvl then (Err WrongState, s)
              else (Ok (), pm_frame_mut s mfn (i\<lparr>pagetable_refs := pagetable_refs i - 1, refs := refs i - 1\<rparr>))))"

definition pm_get_exec :: "P2mSystem \<Rightarrow> Mfn \<Rightarrow> (unit, P2mError) result \<times> P2mSystem" where
  "pm_get_exec s mfn =
     propagate (pm_frame s mfn) s (\<lambda>frame.
     case frame of
       Free \<Rightarrow> (Err WrongState, s)
     | Allocated i \<Rightarrow>
         if writable_refs i > 0 then (Err WxConflict, s)
         else
           propagate (ok_or (checked_inc_u32 (refs i)) Overflow) s (\<lambda>new_refs.
           propagate (ok_or (checked_inc_u32 (executable_refs i)) Overflow) s (\<lambda>new_exec.
           (Ok (), pm_frame_mut s mfn (i\<lparr>executable_refs := new_exec, refs := new_refs\<rparr>)))))"

definition pm_put_exec :: "P2mSystem \<Rightarrow> Mfn \<Rightarrow> (unit, P2mError) result \<times> P2mSystem" where
  "pm_put_exec s mfn =
     propagate (pm_frame s mfn) s (\<lambda>frame.
     case frame of
       Free \<Rightarrow> (Err WrongState, s)
     | Allocated i \<Rightarrow>
         if executable_refs i = 0 then (Err WrongState, s)
         else (Ok (), pm_frame_mut s mfn (i\<lparr>executable_refs := executable_refs i - 1, refs := refs i - 1\<rparr>)))"

section \<open>Pinning and freeing\<close>

definition pm_pin :: "P2mSystem \<Rightarrow> DomId \<Rightarrow> Mfn \<Rightarrow> PtLevel \<Rightarrow> (unit, P2mError) result \<times> P2mSystem" where
  "pm_pin s caller mfn lvl =
     propagate (pm_frame s mfn) s (\<lambda>frame.
     case frame of
       Free \<Rightarrow> (Err WrongState, s)
     | Allocated i \<Rightarrow>
         if owner i \<noteq> caller then (Err NotYours, s)
         else if pinned i then (Err WrongState, s)
         else
           (case pm_get_type s mfn (PageTable lvl) of
              (Ok _, s1) \<Rightarrow>
                (case pm_frame s1 mfn of
                   Ok (Allocated i1) \<Rightarrow> (Ok (), pm_frame_mut s1 mfn (i1\<lparr>pinned := True\<rparr>))
                 | Ok Free \<Rightarrow> (Ok (), s1)
                 | _ \<Rightarrow> (Panic, s1))
            | (r, s1) \<Rightarrow> (r, s1)))"

definition pm_unpin :: "P2mSystem \<Rightarrow> DomId \<Rightarrow> Mfn \<Rightarrow> (unit, P2mError) result \<times> P2mSystem" where
  "pm_unpin s caller mfn =
     propagate (pm_frame s mfn) s (\<lambda>frame.
     case frame of
       Free \<Rightarrow> (Err WrongState, s)
     | Allocated i \<Rightarrow>
         if owner i \<noteq> caller then (Err NotYours, s)
         else if \<not> pinned i then (Err WrongState, s)
         else
           (let s1 = pm_frame_mut s mfn (i\<lparr>pinned := False\<rparr>) in
            pm_put_type s1 mfn (PageTable (pt_level i))))"

definition pm_free :: "P2mSystem \<Rightarrow> DomId \<Rightarrow> Mfn \<Rightarrow> (unit, P2mError) result \<times> P2mSystem" where
  "pm_free s caller mfn =
     propagate (pm_frame s mfn) s (\<lambda>frame.
     case frame of
       Free \<Rightarrow> (Err WrongState, s)
     | Allocated i \<Rightarrow>
         if owner i \<noteq> caller then (Err NotYours, s)
         else if refs i > 0 then (Err InUse, s)
         else (Ok (), s\<lparr>frames := (frames s)[mfn := Free]\<rparr>))"

section \<open>Page-table edges\<close>

definition pm_acquire_child :: "P2mSystem \<Rightarrow> Mfn \<Rightarrow> ChildRef \<Rightarrow> (unit, P2mError) result \<times> P2mSystem" where
  "pm_acquire_child s child r =
     (case r of Bare \<Rightarrow> pm_get s child | Exec \<Rightarrow> pm_get_exec s child | Typed ty \<Rightarrow> pm_get_type s child ty)"

definition pm_release_child :: "P2mSystem \<Rightarrow> Mfn \<Rightarrow> ChildRef \<Rightarrow> (unit, P2mError) result \<times> P2mSystem" where
  "pm_release_child s child r =
     (case r of Bare \<Rightarrow> pm_put s child | Exec \<Rightarrow> pm_put_exec s child | Typed ty \<Rightarrow> pm_put_type s child ty)"

definition pm_link ::
  "P2mSystem \<Rightarrow> DomId \<Rightarrow> Mfn \<Rightarrow> nat \<Rightarrow> Mfn \<Rightarrow> bool \<Rightarrow> bool \<Rightarrow> bool \<Rightarrow> (unit, P2mError) result \<times> P2mSystem" where
  "pm_link s caller parent slot child writable leaf execute =
     (if TABLE_SLOTS \<le> slot then (Err BadSlot, s)
      else
       (let execute = (execute \<and> leaf) in
        if writable \<and> execute then (Err WxConflict, s)
        else
         propagate (pm_frame s parent) s (\<lambda>frame.
         case frame of
           Free \<Rightarrow> (Err WrongState, s)
         | Allocated i \<Rightarrow>
             if owner i \<noteq> caller then (Err NotYours, s)
             else if pm_current_type s parent \<noteq> Some (PageTable (pt_level i)) then (Err WrongState, s)
             else if \<not> pm_is_allocated s child then (Err WrongState, s)
             else if pm_link_index s parent slot \<noteq> None then (Err WrongState, s)
             else
              propagate (ok_or (entry_child_ref (pt_level i) leaf writable execute) WrongState) s (\<lambda>child_ref.
              case pm_acquire_child s child child_ref of
                (Ok _, s1) \<Rightarrow>
                  (case pm_get_type s1 parent (PageTable (pt_level i)) of
                     (Ok _, s2) \<Rightarrow>
                       (Ok (), pm_alloc_link s2
                          \<lparr>l_active = True, l_parent = parent, l_slot = slot, l_child = child,
                           l_writable = writable, l_leaf = leaf, l_execute = execute\<rparr>)
                   | (Err e, s2) \<Rightarrow> (Err e, snd (pm_release_child s2 child child_ref))
                   | (Panic, s2) \<Rightarrow> (Panic, s2))
              | (r, s1) \<Rightarrow> (r, s1)))))"

definition pm_unlink :: "P2mSystem \<Rightarrow> DomId \<Rightarrow> Mfn \<Rightarrow> nat \<Rightarrow> (unit, P2mError) result \<times> P2mSystem" where
  "pm_unlink s caller parent slot =
     propagate (pm_frame s parent) s (\<lambda>frame.
     case frame of
       Free \<Rightarrow> (Err WrongState, s)
     | Allocated i \<Rightarrow>
         if owner i \<noteq> caller then (Err NotYours, s)
         else
           propagate (ok_or (pm_link_index s parent slot) WrongState) s (\<lambda>idx.
           let link = links s ! idx;
               s1 = s\<lparr>links := (links s)[idx := link\<lparr>l_active := False\<rparr>]\<rparr>;
               s2 = snd (pm_put_type s1 parent (PageTable (pt_level i)));
               s3 = (case entry_child_ref (pt_level i) (l_leaf link) (l_writable link) (l_execute link) of
                       Some r \<Rightarrow> snd (pm_release_child s2 (l_child link) r)
                     | None \<Rightarrow> s2)
           in (Ok (), s3)))"

section \<open>Teardown\<close>

definition pm_unlink_all :: "P2mSystem \<Rightarrow> DomId \<Rightarrow> P2mSystem option" where
  "pm_unlink_all s own =
     for_each (\<lambda>idx s.
       (case vec_get (links s) idx of
          None \<Rightarrow> None
        | Some link \<Rightarrow>
            if l_active link \<and> pm_owner_of s (l_parent link) = Some own
            then Some (snd (pm_unlink s own (l_parent link) (l_slot link)))
            else Some s)) [0..<length (links s)] s"

definition pm_unlink_all_into :: "P2mSystem \<Rightarrow> DomId \<Rightarrow> P2mSystem option" where
  "pm_unlink_all_into s own =
     for_each (\<lambda>idx s.
       (case vec_get (links s) idx of
          None \<Rightarrow> None
        | Some link \<Rightarrow>
            if \<not> l_active link \<or> pm_owner_of s (l_child link) \<noteq> Some own then Some s
            else
              (case pm_owner_of s (l_parent link) of
                 None \<Rightarrow> Some s
               | Some parent_owner \<Rightarrow>
                   if parent_owner = own then Some s
                   else Some (snd (pm_unlink s parent_owner (l_parent link) (l_slot link))))))
       [0..<length (links s)] s"

definition pm_unpin_all :: "P2mSystem \<Rightarrow> DomId \<Rightarrow> P2mSystem option" where
  "pm_unpin_all s own =
     for_each (\<lambda>mfn s.
       if pm_owner_of s mfn = Some own \<and> pm_is_pinned s mfn
       then Some (snd (pm_unpin s own mfn)) else Some s) [0..<as_u32 (length (frames s))] s"

definition pm_free_all :: "P2mSystem \<Rightarrow> DomId \<Rightarrow> P2mSystem option" where
  "pm_free_all s own =
     for_each (\<lambda>mfn s.
       if pm_owner_of s mfn = Some own then Some (snd (pm_free s own mfn)) else Some s)
       [0..<as_u32 (length (frames s))] s"

section \<open>The invariant check\<close>

definition pm_frame_violation :: "P2mSystem \<Rightarrow> nat \<Rightarrow> Frame \<Rightarrow> P2mViolation option" where
  "pm_frame_violation s m frame =
     (case frame of
        Free \<Rightarrow> None
      | Allocated i \<Rightarrow>
          if pm_num_domains s \<le> owner i then Some (OwnerGhostDomain m)
          else if writable_refs i > 0 \<and> pagetable_refs i > 0 then Some (TypeConfusion m)
          else if writable_refs i > 0 \<and> executable_refs i > 0 then Some (WriteExecuteConfusion m)
          else if wrap_u32 (writable_refs i + executable_refs i + pagetable_refs i) > refs i then Some (TypedExceedsRefs m)
          else if pinned i \<and> pagetable_refs i = 0 then Some (PinnedNotPageTyped m)
          else None)"

definition pm_link_violation :: "P2mSystem \<Rightarrow> Link \<Rightarrow> P2mViolation option" where
  "pm_link_violation s link =
     (let ok =
        (case pm_current_type s (l_parent link) of
           Some (PageTable lvl) \<Rightarrow>
             (case entry_child_ref lvl (l_leaf link) (l_writable link) (l_execute link) of
                Some Bare \<Rightarrow> pm_is_allocated s (l_child link)
              | Some Exec \<Rightarrow> pm_is_allocated s (l_child link)
              | Some (Typed ty) \<Rightarrow> pm_current_type s (l_child link) = Some ty
              | None \<Rightarrow> False)
         | _ \<Rightarrow> False)
      in if \<not> ok then Some (MislevelledLink (l_parent link) (l_slot link)) else None)"

definition pm_held_by :: "nat \<Rightarrow> Link \<Rightarrow> nat \<Rightarrow> nat" where
  "pm_held_by m link held =
     (let held = (if l_parent link = m then wrap_u32 (held + 1) else held)
      in if l_child link = m \<and> \<not> l_leaf link then wrap_u32 (held + 1) else held)"

definition pm_held_violation :: "P2mSystem \<Rightarrow> nat \<Rightarrow> Frame \<Rightarrow> P2mViolation option" where
  "pm_held_violation s m frame =
     (case frame of
        Free \<Rightarrow> None
      | Allocated i \<Rightarrow>
          (let held = fold (pm_held_by m) (filter l_active (links s)) 0;
               held = (if pinned i then wrap_u32 (held + 1) else held)
           in if pagetable_refs i < held then Some (PagetableRefsAccounted m) else None))"

definition pm_first_violation :: "P2mSystem \<Rightarrow> P2mViolation option" where
  "pm_first_violation s =
     or_else (find_map (\<lambda>(m, frame). pm_frame_violation s m frame) (enumerate 0 (frames s)))
     (or_else (find_map (pm_link_violation s) (filter l_active (links s)))
       (find_map (\<lambda>(m, frame). pm_held_violation s m frame) (enumerate 0 (frames s))))"

definition pm_invariants_hold :: "P2mSystem \<Rightarrow> bool" where
  "pm_invariants_hold s \<longleftrightarrow> pm_first_violation s = None"

section \<open>The references that are actually held\<close>

text \<open>
  A reference is a frame and the use made of it. A system owes the references of its page-table
  edges and of its pins; external holders (the grant mappings) own a multiset of their own.
\<close>

type_synonym held = "(Mfn \<times> ChildRef) multiset"

definition pm_info :: "P2mSystem \<Rightarrow> Mfn \<Rightarrow> FrameInfo option" where
  "pm_info s m = (case vec_get (frames s) m of Some (Allocated i) \<Rightarrow> Some i | _ \<Rightarrow> None)"

definition pm_live :: "P2mSystem \<Rightarrow> Link multiset" where
  "pm_live s = filter_mset l_active (mset (links s))"

definition pm_lv :: "P2mSystem \<Rightarrow> Mfn \<Rightarrow> PtLevel" where
  "pm_lv s m = (case pm_info s m of Some i \<Rightarrow> pt_level i | None \<Rightarrow> L1)"

definition pm_edge_ref :: "PtLevel \<Rightarrow> Link \<Rightarrow> ChildRef option" where
  "pm_edge_ref lvl l = entry_child_ref lvl (l_leaf l) (l_writable l) (l_execute l)"

definition pm_edge_held :: "PtLevel \<Rightarrow> Link \<Rightarrow> held" where
  "pm_edge_held lvl l =
     add_mset (l_parent l, Typed (PageTable lvl))
       (case pm_edge_ref lvl l of Some r \<Rightarrow> {#(l_child l, r)#} | None \<Rightarrow> {#})"

definition pm_pinned_set :: "P2mSystem \<Rightarrow> Mfn set" where
  "pm_pinned_set s = {m. \<exists>i. pm_info s m = Some i \<and> pinned i}"

definition pm_owed :: "P2mSystem \<Rightarrow> held" where
  "pm_owed s =
     sum_mset (image_mset (\<lambda>l. pm_edge_held (pm_lv s (l_parent l)) l) (pm_live s)) +
     image_mset (\<lambda>m. (m, Typed (PageTable (pm_lv s m)))) (mset_set (pm_pinned_set s))"

fun is_table :: "ChildRef \<Rightarrow> bool" where
  "is_table (Typed (PageTable _)) = True"
| "is_table _ = False"

abbreviation pm_tally :: "('a \<Rightarrow> bool) \<Rightarrow> 'a multiset \<Rightarrow> nat" where
  "pm_tally P M \<equiv> size (filter_mset P M)"

definition pm_total :: "held \<Rightarrow> Mfn \<Rightarrow> nat" where
  "pm_total T m = pm_tally (\<lambda>x. fst x = m) T"

definition pm_tables :: "held \<Rightarrow> Mfn \<Rightarrow> nat" where
  "pm_tables T m = pm_tally (\<lambda>x. fst x = m \<and> is_table (snd x)) T"

definition pm_levels :: "held \<Rightarrow> Mfn \<Rightarrow> PtLevel \<Rightarrow> bool" where
  "pm_levels T m lvl \<longleftrightarrow> (\<forall>x \<in># T. fst x = m \<and> is_table (snd x) \<longrightarrow> snd x = Typed (PageTable lvl))"

text \<open>The counts of every frame are those of the held references, and the uses are compatible.\<close>

definition pm_exact :: "held \<Rightarrow> Mfn \<Rightarrow> FrameInfo \<Rightarrow> bool" where
  "pm_exact T m i \<longleftrightarrow>
     refs i = pm_total T m \<and> writable_refs i = count T (m, Typed Writable) \<and>
     executable_refs i = count T (m, Exec) \<and> pagetable_refs i = pm_tables T m \<and> refs i < u32_size \<and>
     (writable_refs i = 0 \<or> pagetable_refs i = 0 \<and> executable_refs i = 0) \<and>
     pm_levels T m (pt_level i)"

definition pm_counts :: "held \<Rightarrow> P2mSystem \<Rightarrow> bool" where
  "pm_counts T s \<longleftrightarrow>
     (\<forall>m i. pm_info s m = Some i \<longrightarrow> owner i < pm_num_domains s \<and> pm_exact T m i) \<and>
     (\<forall>x \<in># T. pm_info s (fst x) \<noteq> None)"

definition pm_edge_ok :: "P2mSystem \<Rightarrow> Link \<Rightarrow> bool" where
  "pm_edge_ok s l \<longleftrightarrow> l_slot l < TABLE_SLOTS \<and> pm_edge_ref (pm_lv s (l_parent l)) l \<noteq> None \<and>
     \<not> (l_writable l \<and> l_execute l)"

definition pm_slots :: "P2mSystem \<Rightarrow> bool" where
  "pm_slots s \<longleftrightarrow> (\<forall>p k. pm_tally (\<lambda>l. l_parent l = p \<and> l_slot l = k) (pm_live s) \<le> 1)"

definition pm_ok :: "held \<Rightarrow> P2mSystem \<Rightarrow> bool" where
  "pm_ok H s \<longleftrightarrow> length (frames s) < u32_size \<and> pm_counts (H + pm_owed s) s \<and>
     (\<forall>l \<in># pm_live s. pm_edge_ok s l) \<and> pm_slots s"

section \<open>Access lemmas\<close>

lemma pm_frame_eq:
  "pm_frame s m = (if m < length (frames s) then Ok (frames s ! m) else Err BadFrame)"
  by (simp add: pm_frame_def vec_get_def)

lemma pm_info_Some:
  "pm_info s m = Some i \<longleftrightarrow> m < length (frames s) \<and> frames s ! m = Allocated i"
  by (auto simp: pm_info_def vec_get_def split: option.splits Frame.splits if_splits)

lemma pm_info_None: "pm_info s m = None \<longleftrightarrow> length (frames s) \<le> m \<or> frames s ! m = Free"
  by (auto simp: pm_info_def vec_get_def split: option.splits Frame.splits if_splits)

lemma pm_frame_info:
  "pm_info s m = Some i \<Longrightarrow> pm_frame s m = Ok (Allocated i)"
  "pm_info s m = None \<Longrightarrow> pm_frame s m = Ok Free \<or> pm_frame s m = Err BadFrame"
  by (auto simp: pm_info_Some pm_info_None pm_frame_eq)

lemma pm_frame_Ok_Allocated [simp]: "pm_frame s m = Ok (Allocated i) \<longleftrightarrow> pm_info s m = Some i"
  by (auto simp: pm_info_Some pm_frame_eq)

lemma pm_frame_not_Panic [simp]: "pm_frame s m \<noteq> Panic"
  by (simp add: pm_frame_eq)

lemma pm_query_simps:
  "pm_is_allocated s m \<longleftrightarrow> pm_info s m \<noteq> None"
  "pm_owner_of s m = map_option owner (pm_info s m)"
  "pm_refs s m = map_option refs (pm_info s m)"
  "pm_is_pinned s m \<longleftrightarrow> (\<exists>i. pm_info s m = Some i \<and> pinned i)"
  by (cases "pm_info s m"; auto simp: pm_is_allocated_def pm_owner_of_def pm_refs_def pm_is_pinned_def
      pm_frame_info dest!: pm_frame_info(2))+

lemma pm_current_type_eq:
  "pm_current_type s m = (case pm_info s m of None \<Rightarrow> None
     | Some i \<Rightarrow> if writable_refs i > 0 then Some Writable
                else if pagetable_refs i > 0 then Some (PageTable (pt_level i)) else None)"
  by (cases "pm_info s m") (auto simp: pm_current_type_def pm_frame_info dest!: pm_frame_info(2))

lemma pm_frame_mut_simps [simp]:
  "links (pm_frame_mut s m i) = links s" "pm_num_domains (pm_frame_mut s m i) = pm_num_domains s"
  "length (frames (pm_frame_mut s m i)) = length (frames s)" "pm_live (pm_frame_mut s m i) = pm_live s"
  by (simp_all add: pm_frame_mut_def pm_live_def)

lemma pm_info_mut:
  "pm_info s m = Some i \<Longrightarrow> pm_info (pm_frame_mut s m i') m' = (if m' = m then Some i' else pm_info s m')"
  by (auto simp: pm_info_def pm_frame_mut_def vec_get_update vec_get_def split: Frame.splits if_splits)

lemma pm_frame_mut_mut [simp]: "pm_frame_mut (pm_frame_mut s m i) m i' = pm_frame_mut s m i'"
  by (simp add: pm_frame_mut_def)

lemma pm_frame_mut_same: "pm_info s m = Some i \<Longrightarrow> pm_frame_mut s m i = s"
  by (simp add: pm_frame_mut_def pm_info_Some) (metis list_update_id P2mSystem.surjective P2mSystem.update_convs(1))

lemma pm_info_links [simp]: "pm_info (s\<lparr>links := ls\<rparr>) m = pm_info s m" "pm_lv (s\<lparr>links := ls\<rparr>) m = pm_lv s m"
  by (simp_all add: pm_info_def pm_lv_def)

lemma pm_total_split: "pm_total T m = count T (m, Typed Writable) + count T (m, Exec) + pm_tables T m + count T (m, Bare)"
proof (induction T)
  case (add x T)
  obtain m' r where x: "x = (m', r)" by force
  show ?case
  proof (cases r)
    case (Typed ty)
    then show ?thesis using add x by (cases ty) (auto simp: pm_total_def pm_tables_def)
  qed (use add x in \<open>auto simp: pm_total_def pm_tables_def\<close>)
qed (simp add: pm_total_def pm_tables_def)

section \<open>Taking and dropping one reference\<close>

fun pm_bump :: "ChildRef \<Rightarrow> FrameInfo \<Rightarrow> FrameInfo" where
  "pm_bump Bare i = i\<lparr>refs := refs i + 1\<rparr>"
| "pm_bump Exec i = i\<lparr>executable_refs := executable_refs i + 1, refs := refs i + 1\<rparr>"
| "pm_bump (Typed Writable) i = i\<lparr>writable_refs := writable_refs i + 1, refs := refs i + 1\<rparr>"
| "pm_bump (Typed (PageTable lvl)) i =
     (if pagetable_refs i = 0 then i\<lparr>pt_level := lvl\<rparr> else i)
       \<lparr>pagetable_refs := pagetable_refs i + 1, refs := refs i + 1\<rparr>"

fun pm_drop :: "ChildRef \<Rightarrow> FrameInfo \<Rightarrow> FrameInfo" where
  "pm_drop Bare i = i\<lparr>refs := refs i - 1\<rparr>"
| "pm_drop Exec i = i\<lparr>executable_refs := executable_refs i - 1, refs := refs i - 1\<rparr>"
| "pm_drop (Typed Writable) i = i\<lparr>writable_refs := writable_refs i - 1, refs := refs i - 1\<rparr>"
| "pm_drop (Typed (PageTable lvl)) i = i\<lparr>pagetable_refs := pagetable_refs i - 1, refs := refs i - 1\<rparr>"

fun pm_compat :: "ChildRef \<Rightarrow> FrameInfo \<Rightarrow> bool" where
  "pm_compat Bare i = True"
| "pm_compat Exec i = (writable_refs i = 0)"
| "pm_compat (Typed Writable) i = (executable_refs i = 0 \<and> pagetable_refs i = 0)"
| "pm_compat (Typed (PageTable lvl)) i = (writable_refs i = 0 \<and> (pagetable_refs i = 0 \<or> pt_level i = lvl))"

lemma pm_bump_simps [simp]:
  "owner (pm_bump r i) = owner i" "pinned (pm_bump r i) = pinned i" "refs (pm_bump r i) = refs i + 1"
  "owner (pm_drop r i) = owner i" "pinned (pm_drop r i) = pinned i" "refs (pm_drop r i) = refs i - 1"
  "pt_level (pm_drop r i) = pt_level i"
  by (cases "(r, i)" rule: pm_bump.cases; simp)+

text \<open>Why an acquisition is refused.\<close>

fun pm_obstacle :: "ChildRef \<Rightarrow> FrameInfo \<Rightarrow> P2mError option" where
  "pm_obstacle Bare i = (if refs i < u32_max then None else Some Overflow)"
| "pm_obstacle Exec i =
     (if writable_refs i > 0 then Some WxConflict
      else if refs i < u32_max \<and> executable_refs i < u32_max then None else Some Overflow)"
| "pm_obstacle (Typed Writable) i =
     (if executable_refs i > 0 then Some WxConflict
      else if pagetable_refs i > 0 then Some TypePinned
      else if refs i < u32_max \<and> writable_refs i < u32_max then None else Some Overflow)"
| "pm_obstacle (Typed (PageTable lvl)) i =
     (if writable_refs i > 0 \<or> pagetable_refs i > 0 \<and> pt_level i \<noteq> lvl then Some TypePinned
      else if refs i < u32_max \<and> pagetable_refs i < u32_max then None else Some Overflow)"

lemma pm_acquire_eq:
  assumes "pm_info s m = Some i"
  shows "pm_acquire_child s m r =
    (case pm_obstacle r i of Some e \<Rightarrow> (Err e, s) | None \<Rightarrow> (Ok (), pm_frame_mut s m (pm_bump r i)))"
  by (cases "(r, i)" rule: pm_bump.cases)
    (simp_all add: pm_acquire_child_def pm_get_def pm_get_exec_def pm_get_type_def acquire_check_def
      pm_frame_info(1) [OF assms] checked_inc_u32_def)

lemma pm_acquire_absent:
  assumes "pm_info s m = None"
  shows "\<exists>e. pm_acquire_child s m r = (Err e, s)"
  using pm_frame_info(2) [OF assms]
  by (cases r) (auto simp: pm_acquire_child_def pm_get_def pm_get_exec_def pm_get_type_def acquire_check_def)

lemma pm_obstacle_None: "pm_obstacle r i = None \<Longrightarrow> refs i < u32_max \<and> pm_compat r i"
  by (cases "(r, i)" rule: pm_bump.cases) (auto split: if_splits)

lemma pm_acquire_Ok:
  "pm_acquire_child s m r = (Ok (), s') \<Longrightarrow>
     \<exists>i. pm_info s m = Some i \<and> s' = pm_frame_mut s m (pm_bump r i) \<and> refs i < u32_max \<and> pm_compat r i"
  using pm_acquire_absent [of s m r] pm_obstacle_None [of r]
  by (cases "pm_info s m") (auto simp: pm_acquire_eq split: option.splits)

lemma pm_acquire_refused:
  assumes "pm_acquire_child s m r = (x, s')" "x \<noteq> Ok ()" shows "s' = s \<and> x \<noteq> Panic"
  using assms pm_acquire_absent [of s m r]
  by (cases "pm_info s m") (auto simp: pm_acquire_eq split: option.splits)

lemma pm_total_add [simp]: "pm_total (add_mset (m, r) T) m' = (if m = m' then Suc (pm_total T m') else pm_total T m')"
  by (simp add: pm_total_def)

lemma pm_tables_add [simp]:
  "pm_tables (add_mset (m, r) T) m' = (if m = m' \<and> is_table r then Suc (pm_tables T m') else pm_tables T m')"
  by (simp add: pm_tables_def)

lemma pm_levels_add [simp]:
  "pm_levels (add_mset (m, r) T) m' lvl \<longleftrightarrow>
     (m = m' \<and> is_table r \<longrightarrow> r = Typed (PageTable lvl)) \<and> pm_levels T m' lvl"
  by (auto simp: pm_levels_def)

lemma pm_tables_0: "pm_tables T m = 0 \<Longrightarrow> pm_levels T m lvl"
  by (auto simp: pm_tables_def pm_levels_def filter_mset_eq_conv)

lemma pm_levelsD: "pm_levels T m lvl \<Longrightarrow> (m, Typed (PageTable lvl')) \<in># T \<Longrightarrow> lvl' = lvl"
  by (force simp: pm_levels_def)

lemma pm_exact_bump:
  assumes "pm_exact T m i" "pm_compat r i" "refs i < u32_max"
  shows "pm_exact (add_mset (m, r) T) m (pm_bump r i)"
  using assms pm_tables_0 [of T m]
  by (cases "(r, i)" rule: pm_bump.cases) (auto simp: pm_exact_def simp del: count_eq_zero_iff)

lemma pm_exact_drop:
  assumes "pm_exact (add_mset (m, r) T) m i" shows "pm_exact T m (pm_drop r i)"
  using assms
  by (cases "(r, i)" rule: pm_bump.cases)
    (auto simp: pm_exact_def simp del: count_eq_zero_iff)

lemma pm_exact_other: "m' \<noteq> m \<Longrightarrow> pm_exact (add_mset (m, r) T) m' i = pm_exact T m' i"
  by (simp add: pm_exact_def)

lemma pm_counts_bump:
  assumes "pm_counts T s" "pm_info s m = Some i" "pm_compat r i" "refs i < u32_max"
  shows "pm_counts (add_mset (m, r) T) (pm_frame_mut s m (pm_bump r i))"
  unfolding pm_counts_def
proof (intro conjI allI impI ballI)
  fix m' i' assume *: "pm_info (pm_frame_mut s m (pm_bump r i)) m' = Some i'"
  have "owner i' < pm_num_domains s \<and> pm_exact (add_mset (m, r) T) m' i'"
  proof (cases "m' = m")
    case True
    with * assms pm_exact_bump [of T m i r] show ?thesis by (auto simp: pm_info_mut pm_counts_def)
  next
    case False
    with * assms show ?thesis by (auto simp: pm_info_mut pm_counts_def pm_exact_other)
  qed
  then show "owner i' < pm_num_domains (pm_frame_mut s m (pm_bump r i))" "pm_exact (add_mset (m, r) T) m' i'"
    by simp_all
qed (use assms in \<open>auto simp: pm_counts_def pm_info_mut\<close>)

lemma pm_counts_drop:
  assumes "pm_counts (add_mset (m, r) T) s" "pm_info s m = Some i"
  shows "pm_counts T (pm_frame_mut s m (pm_drop r i))"
  unfolding pm_counts_def
proof (intro conjI allI impI ballI)
  fix m' i' assume *: "pm_info (pm_frame_mut s m (pm_drop r i)) m' = Some i'"
  have "owner i' < pm_num_domains s \<and> pm_exact T m' i'"
  proof (cases "m' = m")
    case True
    with * assms pm_exact_drop [of m r T i] show ?thesis by (auto simp: pm_info_mut pm_counts_def)
  next
    case False
    with * assms have "pm_info s m' = Some i'" by (simp add: pm_info_mut)
    with assms(1) pm_exact_other [OF False, of r T i'] show ?thesis by (simp add: pm_counts_def)
  qed
  then show "owner i' < pm_num_domains (pm_frame_mut s m (pm_drop r i))" "pm_exact T m' i'" by simp_all
qed (use assms in \<open>auto simp: pm_counts_def pm_info_mut\<close>)

lemma pm_release_Ok:
  assumes "pm_counts (add_mset (m, r) T) s"
  shows "\<exists>i. pm_info s m = Some i \<and> pm_release_child s m r = (Ok (), pm_frame_mut s m (pm_drop r i)) \<and>
     pm_counts T (pm_frame_mut s m (pm_drop r i))"
proof -
  from assms obtain i where i: "pm_info s m = Some i" by (auto simp: pm_counts_def)
  have e: "pm_exact (add_mset (m, r) T) m i" using assms i by (simp add: pm_counts_def)
  have split: "refs i = writable_refs i + executable_refs i + pagetable_refs i + count (add_mset (m, r) T) (m, Bare)"
    using e pm_total_split [of "add_mset (m, r) T" m] by (simp add: pm_exact_def)
  then have w: "wrap_u32 (writable_refs i + executable_refs i + pagetable_refs i) =
      writable_refs i + executable_refs i + pagetable_refs i" using e by (simp add: pm_exact_def)
  have "pm_release_child s m r = (Ok (), pm_frame_mut s m (pm_drop r i))"
    using e i split w
    by (cases "(r, i)" rule: pm_bump.cases)
      (auto simp: pm_release_child_def pm_put_def pm_put_exec_def pm_put_type_def pm_frame_info pm_exact_def pm_tables_def)
  then show ?thesis using i pm_counts_drop [OF assms i] by blast
qed

section \<open>What edges and pins owe\<close>

lemma pm_pinned_finite [simp]: "finite (pm_pinned_set s)"
proof (rule finite_subset)
  show "pm_pinned_set s \<subseteq> {..<length (frames s)}" by (auto simp: pm_pinned_set_def pm_info_Some)
qed simp

lemma pm_owed_cong:
  assumes "pm_live s' = pm_live s" "pm_pinned_set s' = pm_pinned_set s"
    and "\<And>l. l \<in># pm_live s \<Longrightarrow> pm_lv s' (l_parent l) = pm_lv s (l_parent l)"
    and "\<And>m. m \<in> pm_pinned_set s \<Longrightarrow> pm_lv s' m = pm_lv s m"
  shows "pm_owed s' = pm_owed s"
proof -
  have "image_mset (\<lambda>l. pm_edge_held (pm_lv s' (l_parent l)) l) (pm_live s) =
      image_mset (\<lambda>l. pm_edge_held (pm_lv s (l_parent l)) l) (pm_live s)"
    using assms(3) by (intro image_mset_cong) simp
  moreover have "image_mset (\<lambda>m. (m, Typed (PageTable (pm_lv s' m)))) (mset_set (pm_pinned_set s)) =
      image_mset (\<lambda>m. (m, Typed (PageTable (pm_lv s m)))) (mset_set (pm_pinned_set s))"
    using assms(4) by (intro image_mset_cong) simp
  ultimately show ?thesis by (simp add: pm_owed_def assms(1,2))
qed

lemma pm_edge_held_in:
  "(l_parent l, Typed (PageTable lvl)) \<in># pm_edge_held lvl l"
  "pm_edge_ref lvl l = Some r \<Longrightarrow> (l_child l, r) \<in># pm_edge_held lvl l"
  by (auto simp: pm_edge_held_def)

lemma pm_owed_edge:
  "l \<in># pm_live s \<Longrightarrow> x \<in># pm_edge_held (pm_lv s (l_parent l)) l \<Longrightarrow> x \<in># pm_owed s"
  unfolding pm_owed_def by (auto simp: in_Union_mset_iff)

lemma pm_owed_pin: "m \<in> pm_pinned_set s \<Longrightarrow> (m, Typed (PageTable (pm_lv s m))) \<in># pm_owed s"
  unfolding pm_owed_def by simp

lemma pm_ok_exact:
  assumes "pm_ok H s" "pm_info s m = Some i"
  shows "owner i < pm_num_domains s" "pm_exact (H + pm_owed s) m i"
  using assms by (auto simp: pm_ok_def pm_counts_def)

lemma pm_ok_held_info:
  assumes "pm_ok H s" "x \<in># H + pm_owed s" obtains i where "pm_info s (fst x) = Some i"
  using assms unfolding pm_ok_def pm_counts_def by blast

lemma pm_untyped_owes_nothing:
  assumes ok: "pm_ok H s" and i: "pm_info s m = Some i" and z: "pagetable_refs i = 0"
  shows "m \<notin> pm_pinned_set s" "l \<in># pm_live s \<Longrightarrow> l_parent l \<noteq> m"
proof -
  have "pm_tables (H + pm_owed s) m = 0" using pm_ok_exact(2) [OF ok i] z by (simp add: pm_exact_def)
  then have no: "(m, Typed (PageTable lvl)) \<notin># pm_owed s" for lvl
    by (auto simp: pm_tables_def filter_mset_eq_conv)
  show "m \<notin> pm_pinned_set s" using pm_owed_pin no by blast
  show "l_parent l \<noteq> m" if "l \<in># pm_live s" using pm_owed_edge [OF that pm_edge_held_in(1)] no by auto
qed

text \<open>Rewriting a frame whose level is kept, or was not in use, changes nothing that is owed.\<close>

lemma pm_owed_mut:
  assumes ok: "pm_ok H s" and i: "pm_info s m = Some i"
    and i': "pinned i' = pinned i" "pt_level i' = pt_level i \<or> pagetable_refs i = 0"
  shows "pm_owed (pm_frame_mut s m i') = pm_owed s"
    "l \<in># pm_live s \<Longrightarrow> pm_lv (pm_frame_mut s m i') (l_parent l) = pm_lv s (l_parent l)"
proof -
  have lv: "pm_lv (pm_frame_mut s m i') m' = pm_lv s m'" if "m' \<noteq> m \<or> pt_level i' = pt_level i" for m'
    using that i by (auto simp: pm_lv_def pm_info_mut)
  show stable: "pm_lv (pm_frame_mut s m i') (l_parent l) = pm_lv s (l_parent l)" if "l \<in># pm_live s" for l
    using pm_untyped_owes_nothing(2) [OF ok i _ that] i'(2) by (intro lv) auto
  have "pm_pinned_set (pm_frame_mut s m i') = pm_pinned_set s"
    using i i'(1) by (auto simp: pm_pinned_set_def pm_info_mut)
  then show "pm_owed (pm_frame_mut s m i') = pm_owed s"
    using stable pm_untyped_owes_nothing(1) [OF ok i] i'(2) by (intro pm_owed_cong) (auto intro!: lv)
qed

lemma pm_bump_level: "pt_level (pm_bump r i) = pt_level i \<or> pagetable_refs i = 0"
  by (cases "(r, i)" rule: pm_bump.cases) auto

lemma pm_ok_mut:
  assumes ok: "pm_ok H s" and i: "pm_info s m = Some i"
    and i': "pinned i' = pinned i" "pt_level i' = pt_level i \<or> pagetable_refs i = 0"
    and counts: "pm_counts (H' + pm_owed s) (pm_frame_mut s m i')"
  shows "pm_ok H' (pm_frame_mut s m i')"
proof -
  have "pm_edge_ok (pm_frame_mut s m i') l" if "l \<in># pm_live s" for l
    using ok that pm_owed_mut(2) [OF ok i i' that] by (simp add: pm_ok_def pm_edge_ok_def)
  then show ?thesis
    using ok counts by (simp add: pm_ok_def pm_owed_mut(1) [OF ok i i'] pm_slots_def)
qed

lemma pm_acquire_ok:
  assumes ok: "pm_ok H s" and a: "pm_acquire_child s m r = (Ok (), s')"
  shows "pm_ok (add_mset (m, r) H) s'"
proof -
  from pm_acquire_Ok [OF a] obtain i where
    i: "pm_info s m = Some i" "s' = pm_frame_mut s m (pm_bump r i)" "refs i < u32_max" "pm_compat r i" by blast
  have "pm_counts (add_mset (m, r) (H + pm_owed s)) s'"
    using ok i by (simp add: pm_counts_bump pm_ok_def)
  then show ?thesis unfolding i(2) by (intro pm_ok_mut [OF ok i(1) _ pm_bump_level]) simp_all
qed

lemma pm_release_ok:
  assumes ok: "pm_ok (add_mset (m, r) H) s"
  shows "\<exists>i. pm_info s m = Some i \<and> pm_release_child s m r = (Ok (), pm_frame_mut s m (pm_drop r i)) \<and>
    pm_ok H (pm_frame_mut s m (pm_drop r i))"
proof -
  have "pm_counts (add_mset (m, r) (H + pm_owed s)) s" using ok by (simp add: pm_ok_def)
  from pm_release_Ok [OF this] obtain i where
    i: "pm_info s m = Some i" "pm_release_child s m r = (Ok (), pm_frame_mut s m (pm_drop r i))"
      "pm_counts (H + pm_owed s) (pm_frame_mut s m (pm_drop r i))" by blast
  with pm_ok_mut [OF ok i(1) _ _ i(3)] show ?thesis by simp
qed

section \<open>Edges, pins, allocation\<close>

lemma pm_owed_links:
  assumes "filter_mset l_active (mset ls) = add_mset l M" "pm_live s = M"
  shows "pm_owed (s\<lparr>links := ls\<rparr>) = pm_edge_held (pm_lv s (l_parent l)) l + pm_owed s"
proof -
  have "pm_live (s\<lparr>links := ls\<rparr>) = add_mset l (pm_live s)" using assms by (simp add: pm_live_def)
  moreover have "pm_pinned_set (s\<lparr>links := ls\<rparr>) = pm_pinned_set s" by (simp add: pm_pinned_set_def)
  ultimately show ?thesis by (simp add: pm_owed_def)
qed

lemma pm_counts_links [simp]: "pm_counts T (s\<lparr>links := ls\<rparr>) = pm_counts T s"
  by (simp add: pm_counts_def)

lemma pm_edge_ok_links [simp]: "pm_edge_ok (s\<lparr>links := ls\<rparr>) l = pm_edge_ok s l"
  by (simp add: pm_edge_ok_def)

lemma pm_alloc_link_eq:
  assumes "l_active l"
  shows "\<exists>ls. pm_alloc_link s l = s\<lparr>links := ls\<rparr> \<and> filter_mset l_active (mset ls) = add_mset l (pm_live s)"
proof (cases "position (\<lambda>l. \<not> l_active l) (links s)")
  case None
  then show ?thesis using assms
    by (intro exI [of _ "links s @ [l]"]) (simp add: pm_alloc_link_def pm_live_def)
next
  case (Some i)
  then show ?thesis using assms reuse_slot [OF Some, of l]
    by (intro exI [of _ "(links s)[i := l]"]) (simp add: pm_alloc_link_def pm_live_def)
qed

lemma pm_ok_add_link:
  assumes ok: "pm_ok (pm_edge_held (pm_lv s (l_parent l)) l + H) s" and a: "l_active l" and e: "pm_edge_ok s l"
    and free: "\<And>k. k \<in># pm_live s \<Longrightarrow> \<not> (l_parent k = l_parent l \<and> l_slot k = l_slot l)"
  shows "pm_ok H (pm_alloc_link s l)" "pm_live (pm_alloc_link s l) = add_mset l (pm_live s)"
    "frames (pm_alloc_link s l) = frames s" "pm_num_domains (pm_alloc_link s l) = pm_num_domains s"
proof -
  from pm_alloc_link_eq [OF a] obtain ls where
    ls: "pm_alloc_link s l = s\<lparr>links := ls\<rparr>" "filter_mset l_active (mset ls) = add_mset l (pm_live s)" by blast
  then show live: "pm_live (pm_alloc_link s l) = add_mset l (pm_live s)" by (simp add: pm_live_def)
  show "frames (pm_alloc_link s l) = frames s" "pm_num_domains (pm_alloc_link s l) = pm_num_domains s"
    by (simp_all add: ls)
  have owed: "pm_owed (pm_alloc_link s l) = pm_edge_held (pm_lv s (l_parent l)) l + pm_owed s"
    unfolding ls(1) by (rule pm_owed_links [OF ls(2) refl])
  have "pm_tally (\<lambda>k. l_parent k = p \<and> l_slot k = q) (add_mset l (pm_live s)) \<le> 1" for p q
  proof (cases "l_parent l = p \<and> l_slot l = q")
    case True
    then have "filter_mset (\<lambda>k. l_parent k = p \<and> l_slot k = q) (pm_live s) = {#}"
      using free by (auto simp: filter_mset_eq_conv)
    with True show ?thesis by simp
  next
    case False
    with ok show ?thesis by (auto simp: pm_ok_def pm_slots_def)
  qed
  then show "pm_ok H (pm_alloc_link s l)"
    using ok e owed live by (auto simp: pm_ok_def pm_slots_def ls(1) ac_simps)
qed

lemma pm_ok_del_link:
  assumes ok: "pm_ok H s" and i: "i < length (links s)" "l_active (links s ! i)"
    and l: "l = links s ! i" and s': "s' = s\<lparr>links := (links s)[i := l\<lparr>l_active := False\<rparr>]\<rparr>"
  shows "pm_ok (pm_edge_held (pm_lv s (l_parent l)) l + H) s'" "pm_live s = add_mset l (pm_live s')"
proof -
  show live: "pm_live s = add_mset l (pm_live s')"
    unfolding s' l pm_live_def using i by (simp add: release_slot [of i "links s" l_active])
  have "s = s'\<lparr>links := links s\<rparr>" by (simp add: s')
  then have owed: "pm_owed s = pm_edge_held (pm_lv s (l_parent l)) l + pm_owed s'"
    using pm_owed_links [of "links s" l "pm_live s'" s'] live by (simp add: s' pm_live_def)
  have "pm_tally (\<lambda>k. l_parent k = p \<and> l_slot k = q) (pm_live s') \<le> 1" for p q
  proof -
    have "pm_tally (\<lambda>k. l_parent k = p \<and> l_slot k = q) (pm_live s') \<le>
        pm_tally (\<lambda>k. l_parent k = p \<and> l_slot k = q) (pm_live s)" unfolding live by simp
    also have "\<dots> \<le> 1" using ok by (simp add: pm_ok_def pm_slots_def)
    finally show ?thesis .
  qed
  moreover have "\<forall>k \<in># pm_live s'. pm_edge_ok s' k" using ok by (simp add: pm_ok_def live s')
  moreover have "pm_counts (pm_edge_held (pm_lv s (l_parent l)) l + H + pm_owed s') s'"
    using ok by (simp add: pm_ok_def owed s' ac_simps)
  ultimately show "pm_ok (pm_edge_held (pm_lv s (l_parent l)) l + H) s'"
    using ok by (simp add: pm_ok_def pm_slots_def s')
qed

lemma pm_owed_pinned:
  assumes i: "pm_info s m = Some i" and p: "\<not> pinned i"
  shows "pm_owed (pm_frame_mut s m (i\<lparr>pinned := True\<rparr>)) = add_mset (m, Typed (PageTable (pt_level i))) (pm_owed s)"
proof -
  let ?s = "pm_frame_mut s m (i\<lparr>pinned := True\<rparr>)"
  have lv: "pm_lv ?s = pm_lv s" using i by (auto simp: fun_eq_iff pm_lv_def pm_info_mut)
  have "pm_pinned_set ?s = insert m (pm_pinned_set s)" "m \<notin> pm_pinned_set s"
    using i p by (auto simp: pm_pinned_set_def pm_info_mut)
  moreover have "pm_lv s m = pt_level i" using i by (simp add: pm_lv_def)
  ultimately show ?thesis by (simp add: pm_owed_def lv)
qed

lemma pm_exact_pinned [simp]: "pm_exact T m (i\<lparr>pinned := b\<rparr>) = pm_exact T m i"
  by (simp add: pm_exact_def)

lemma pm_counts_pinned:
  assumes i: "pm_info s m = Some i"
  shows "pm_counts T (pm_frame_mut s m (i\<lparr>pinned := b\<rparr>)) = pm_counts T s" (is "pm_counts T ?s = _")
proof -
  have "(\<forall>i'. pm_info ?s m' = Some i' \<longrightarrow> owner i' < pm_num_domains s \<and> pm_exact T m' i') \<longleftrightarrow>
      (\<forall>i'. pm_info s m' = Some i' \<longrightarrow> owner i' < pm_num_domains s \<and> pm_exact T m' i')" for m'
    by (cases "m' = m") (simp_all add: pm_info_mut [OF i] i)
  moreover have "pm_info ?s m' \<noteq> None \<longleftrightarrow> pm_info s m' \<noteq> None" for m'
    using i by (cases "m' = m") (simp_all add: pm_info_mut [OF i])
  ultimately show ?thesis unfolding pm_counts_def pm_frame_mut_simps by presburger
qed

lemma pm_edge_ok_pinned:
  "pm_info s m = Some i \<Longrightarrow> pm_edge_ok (pm_frame_mut s m (i\<lparr>pinned := b\<rparr>)) l = pm_edge_ok s l"
  by (simp add: pm_edge_ok_def pm_lv_def pm_info_mut)

lemma pm_ok_pinned:
  assumes i: "pm_info s m = Some i" and p: "\<not> pinned i"
  shows "pm_ok H (pm_frame_mut s m (i\<lparr>pinned := True\<rparr>)) \<longleftrightarrow> pm_ok (add_mset (m, Typed (PageTable (pt_level i))) H) s"
  by (simp add: pm_ok_def pm_owed_pinned [OF assms] pm_counts_pinned [OF i] pm_edge_ok_pinned [OF i] pm_slots_def)

lemma pm_lv_frames:
  assumes "\<And>l. l \<in># pm_live s \<Longrightarrow> l_parent l \<noteq> m" "m \<notin> pm_pinned_set s" "\<And>i. f = Allocated i \<Longrightarrow> \<not> pinned i"
    and "m < length (frames s)"
  shows "pm_owed (s\<lparr>frames := (frames s)[m := f]\<rparr>) = pm_owed s"
    "l \<in># pm_live s \<Longrightarrow> pm_edge_ok (s\<lparr>frames := (frames s)[m := f]\<rparr>) l = pm_edge_ok s l"
    "pm_live (s\<lparr>frames := (frames s)[m := f]\<rparr>) = pm_live s"
proof -
  let ?s = "s\<lparr>frames := (frames s)[m := f]\<rparr>"
  have info: "pm_info ?s m' = pm_info s m'" if "m' \<noteq> m" for m' using that by (simp add: pm_info_def vec_get_update)
  then have lv: "pm_lv ?s m' = pm_lv s m'" if "m' \<noteq> m" for m' using that by (simp add: pm_lv_def)
  show live: "pm_live ?s = pm_live s" by (simp add: pm_live_def)
  have at: "f = Allocated i" if "pm_info ?s m = Some i" for i using that assms(4) by (simp add: pm_info_Some)
  have "pm_pinned_set ?s = pm_pinned_set s"
  proof (rule set_eqI)
    fix m' show "m' \<in> pm_pinned_set ?s \<longleftrightarrow> m' \<in> pm_pinned_set s"
      using assms(2,3) at info [of m'] by (cases "m' = m") (auto simp: pm_pinned_set_def)
  qed
  then show "pm_owed ?s = pm_owed s" using assms(1,2) live by (intro pm_owed_cong) (auto intro!: lv)
  show "pm_edge_ok ?s l = pm_edge_ok s l" if "l \<in># pm_live s" using that assms(1) by (simp add: pm_edge_ok_def lv)
qed

section \<open>Every operation keeps the invariant\<close>

lemma pm_no_refs:
  assumes "\<And>x. x \<in># T \<Longrightarrow> fst x \<noteq> m"
  shows "pm_total T m = 0" "count T (m, r) = 0" "pm_tables T m = 0" "pm_levels T m lvl"
  using assms by (force simp: pm_total_def pm_tables_def pm_levels_def filter_mset_eq_conv not_in_iff [symmetric])+

lemma pm_total_0: "pm_total T m = 0 \<Longrightarrow> x \<in># T \<Longrightarrow> fst x \<noteq> m"
  by (auto simp: pm_total_def filter_mset_eq_conv)

lemma pm_ok_reframe:
  assumes ok: "pm_ok H s" and m: "m < length (frames s)"
    and none: "\<And>x. x \<in># H + pm_owed s \<Longrightarrow> fst x \<noteq> m"
    and f: "\<And>i. f = Allocated i \<Longrightarrow> owner i < pm_num_domains s \<and> \<not> pinned i \<and> refs i = 0 \<and>
      writable_refs i = 0 \<and> executable_refs i = 0 \<and> pagetable_refs i = 0"
  shows "pm_ok H (s\<lparr>frames := (frames s)[m := f]\<rparr>)" (is "pm_ok H ?s")
proof -
  have p: "l_parent l \<noteq> m" if "l \<in># pm_live s" for l
    using none [of "(l_parent l, _)"] pm_owed_edge [OF that pm_edge_held_in(1)] by fastforce
  have q: "m \<notin> pm_pinned_set s" using none pm_owed_pin [of m s] by fastforce
  have np: "\<not> pinned i" if "f = Allocated i" for i using f [OF that] by simp
  note fr = pm_lv_frames [OF p q np m]
  have "pm_counts (H + pm_owed s) ?s"
    unfolding pm_counts_def
  proof (intro conjI allI impI ballI)
    fix m' i assume *: "pm_info ?s m' = Some i"
    have "owner i < pm_num_domains s \<and> pm_exact (H + pm_owed s) m' i"
    proof (cases "m' = m")
      case True
      with * m have "f = Allocated i" by (simp add: pm_info_Some)
      with f [OF this] pm_no_refs [of "H + pm_owed s" m, OF none] show ?thesis by (simp add: True pm_exact_def)
    next
      case False
      with * have "pm_info s m' = Some i" by (simp add: pm_info_Some)
      with pm_ok_exact [OF ok this] show ?thesis by simp
    qed
    then show "owner i < pm_num_domains ?s" "pm_exact (H + pm_owed s) m' i" by simp_all
  next
    fix x assume x: "x \<in># H + pm_owed s"
    from pm_ok_held_info [OF ok x] none [OF x] show "pm_info ?s (fst x) \<noteq> None"
      by (metis (no_types, lifting) P2mSystem.select_convs(1) P2mSystem.surjective P2mSystem.update_convs(1)
          length_list_update nth_list_update_neq option.distinct(1) pm_info_Some)
  qed
  then show ?thesis using ok fr by (simp add: pm_ok_def pm_slots_def)
qed

lemma pm_absent_no_refs:
  assumes "pm_ok H s" "pm_info s m = None" "x \<in># H + pm_owed s" shows "fst x \<noteq> m"
proof -
  from pm_ok_held_info [OF assms(1,3)] obtain i where "pm_info s (fst x) = Some i" .
  with assms(2) show ?thesis by auto
qed

lemma pm_allocate_wb: "pm_ok H s \<Longrightarrow> well_behaved (pm_ok H) s (pm_allocate s own m)"
  unfolding pm_allocate_def pm_frame_mut_def
  by (intro wb_intros)
    (auto simp: pm_frame_eq pm_info_None split: if_splits intro!: pm_ok_reframe dest: pm_absent_no_refs)

lemma pm_unreferenced:
  assumes "pm_ok H s" "pm_info s m = Some i" "refs i = 0" "x \<in># H + pm_owed s" shows "fst x \<noteq> m"
  using pm_ok_exact(2) [OF assms(1,2)] assms(3,4) pm_total_0 [of "H + pm_owed s" m x] by (simp add: pm_exact_def)

lemma pm_free_eq:
  "pm_free s caller m =
     (case pm_info s m of
        None \<Rightarrow> (Err (if m < length (frames s) then WrongState else BadFrame), s)
      | Some i \<Rightarrow> if owner i \<noteq> caller then (Err NotYours, s)
                 else if refs i > 0 then (Err InUse, s)
                 else (Ok (), s\<lparr>frames := (frames s)[m := Free]\<rparr>))"
proof (cases "pm_info s m")
  case None
  then have "length (frames s) \<le> m \<or> frames s ! m = Free" by (simp add: pm_info_None)
  with None show ?thesis by (auto simp: pm_free_def pm_frame_eq)
next
  case (Some i)
  then show ?thesis by (simp add: pm_free_def pm_frame_info)
qed

lemma pm_free_wb: "pm_ok H s \<Longrightarrow> well_behaved (pm_ok H) s (pm_free s caller m)"
  unfolding pm_free_eq
  by (auto intro!: wb_intros pm_ok_reframe split: option.splits dest: pm_unreferenced simp: pm_info_Some)

lemma pm_get_type_acquire: "pm_get_type s m ty = pm_acquire_child s m (Typed ty)"
  by (simp add: pm_acquire_child_def)

lemma pm_put_type_release: "pm_put_type s m ty = pm_release_child s m (Typed ty)"
  by (simp add: pm_release_child_def)

lemma pm_pin_effect:
  assumes ok: "pm_ok H s"
  shows "(\<exists>e. pm_pin s caller m lvl = (Err e, s)) \<or>
    (\<exists>i i'. pm_info s m = Some i \<and> owner i = caller \<and> \<not> pinned i \<and> owner i' = caller \<and> pinned i' \<and>
       pm_pin s caller m lvl = (Ok (), pm_frame_mut s m i') \<and> pm_ok H (pm_frame_mut s m i'))"
proof (cases "pm_info s m")
  case None
  then show ?thesis using pm_frame_info(2) [OF None] by (auto simp: pm_pin_def)
next
  case (Some i)
  show ?thesis
  proof (cases "owner i = caller \<and> \<not> pinned i")
    case True
    obtain x s1 where a: "pm_acquire_child s m (Typed (PageTable lvl)) = (x, s1)" by force
    show ?thesis
    proof (cases "x = Ok ()")
      case True': True
      with a have a': "pm_acquire_child s m (Typed (PageTable lvl)) = (Ok (), s1)" by simp
      let ?i = "pm_bump (Typed (PageTable lvl)) i"
      from pm_acquire_Ok [OF a'] Some have s1: "s1 = pm_frame_mut s m ?i" "pm_compat (Typed (PageTable lvl)) i" by auto
      have i1: "pm_info s1 m = Some ?i" using Some by (simp add: s1 pm_info_mut)
      have "pt_level ?i = lvl" using s1(2) by auto
      then have "pm_ok H (pm_frame_mut s1 m (?i\<lparr>pinned := True\<rparr>))"
        using pm_acquire_ok [OF ok a'] pm_ok_pinned [OF i1] True by simp
      moreover have "pm_pin s caller m lvl = (Ok (), pm_frame_mut s m (?i\<lparr>pinned := True\<rparr>))"
        using True Some a' by (simp add: pm_pin_def pm_frame_info pm_get_type_acquire i1) (simp add: s1)
      ultimately show ?thesis using Some True
        by (intro disjI2 exI [of _ i] exI [of _ "?i\<lparr>pinned := True\<rparr>"]) (simp add: s1)
    next
      case False
      with pm_acquire_refused [OF a False] a True Some show ?thesis
        by (cases x) (auto simp: pm_pin_def pm_frame_info pm_get_type_acquire)
    qed
  qed (use Some in \<open>auto simp: pm_pin_def pm_frame_info\<close>)
qed

lemma pm_unpin_effect:
  assumes ok: "pm_ok H s"
  shows "(if \<exists>i. pm_info s m = Some i \<and> owner i = caller \<and> pinned i
    then (\<exists>i'. owner i' = caller \<and> \<not> pinned i' \<and> pm_unpin s caller m = (Ok (), pm_frame_mut s m i') \<and>
       pm_ok H (pm_frame_mut s m i'))
    else (\<exists>e. pm_unpin s caller m = (Err e, s)))"
proof (cases "pm_info s m")
  case None
  then show ?thesis using pm_frame_info(2) [OF None] by (auto simp: pm_unpin_def)
next
  case (Some i)
  show ?thesis
  proof (cases "owner i = caller \<and> pinned i")
    case True
    let ?i = "i\<lparr>pinned := False\<rparr>" and ?r = "Typed (PageTable (pt_level i))"
    let ?s = "pm_frame_mut s m ?i"
    have i1: "pm_info ?s m = Some ?i" using Some by (simp add: pm_info_mut)
    have "pm_frame_mut ?s m (?i\<lparr>pinned := True\<rparr>) = s" using Some True by (simp add: pm_frame_mut_same)
    then have "pm_ok (add_mset (m, ?r) H) ?s" using pm_ok_pinned [OF i1, of H] ok by simp
    from pm_release_ok [OF this] i1 have
      "pm_release_child ?s m ?r = (Ok (), pm_frame_mut s m (pm_drop ?r ?i))" "pm_ok H (pm_frame_mut s m (pm_drop ?r ?i))"
      by auto
    then show ?thesis using Some True
      by (auto simp: pm_unpin_def pm_frame_info pm_put_type_release Let_def intro!: exI [of _ "pm_drop ?r ?i"])
  qed (use Some in \<open>auto simp: pm_unpin_def pm_frame_info\<close>)
qed

text \<open>
  A refused \<open>link\<close> rolls back the reference it took on the child. It may leave the level field of
  a frame that is not a page table changed: a field that is meaningless then.
\<close>

definition pm_canon :: "FrameInfo \<Rightarrow> FrameInfo" where
  "pm_canon i = (if pagetable_refs i = 0 then i\<lparr>pt_level := L1\<rparr> else i)"

definition pm_same :: "P2mSystem \<Rightarrow> P2mSystem \<Rightarrow> bool" where
  "pm_same s s' \<longleftrightarrow> links s' = links s \<and> pm_num_domains s' = pm_num_domains s \<and>
     length (frames s') = length (frames s) \<and>
     (\<forall>m. map_option pm_canon (pm_info s' m) = map_option pm_canon (pm_info s m))"

lemma pm_same_refl [simp]: "pm_same s s" by (simp add: pm_same_def)

lemma pm_drop_bump:
  "pm_compat r i \<Longrightarrow> pm_canon (pm_drop r (pm_bump r i)) = pm_canon i"
  by (cases "(r, i)" rule: pm_bump.cases) (auto simp: pm_canon_def)

definition pm_keeps :: "P2mSystem \<Rightarrow> P2mSystem \<Rightarrow> bool" where
  "pm_keeps s s' \<longleftrightarrow> pm_num_domains s' = pm_num_domains s \<and> length (frames s') = length (frames s) \<and>
     length (links s') \<ge> length (links s) \<and>
     (\<forall>m. map_option (\<lambda>i. (owner i, pinned i)) (pm_info s' m) = map_option (\<lambda>i. (owner i, pinned i)) (pm_info s m))"

lemma pm_keeps_refl [simp]: "pm_keeps s s" by (simp add: pm_keeps_def)

lemma pm_keeps_trans: "pm_keeps s t \<Longrightarrow> pm_keeps t u \<Longrightarrow> pm_keeps s u"
  by (simp add: pm_keeps_def)

lemma pm_keeps_mut:
  "pm_info s m = Some i \<Longrightarrow> owner i' = owner i \<Longrightarrow> pinned i' = pinned i \<Longrightarrow> pm_keeps s (pm_frame_mut s m i')"
  by (simp add: pm_keeps_def pm_info_mut)

lemma pm_keeps_owner: "pm_keeps s s' \<Longrightarrow> pm_owner_of s' m = pm_owner_of s m"
proof -
  assume "pm_keeps s s'"
  then have "map_option fst (map_option (\<lambda>i. (owner i, pinned i)) (pm_info s' m)) =
      map_option fst (map_option (\<lambda>i. (owner i, pinned i)) (pm_info s m))" by (simp add: pm_keeps_def)
  then show ?thesis by (simp add: pm_query_simps option.map_comp comp_def)
qed

lemma pm_edge_held_Some:
  "pm_edge_ref lvl l = Some r \<Longrightarrow> pm_edge_held lvl l = {#(l_parent l, Typed (PageTable lvl)), (l_child l, r)#}"
  by (simp add: pm_edge_held_def)

lemma pm_link_index_None:
  "pm_link_index s p k = None \<longleftrightarrow> (\<forall>l \<in># pm_live s. \<not> (l_parent l = p \<and> l_slot l = k))"
  by (auto simp: pm_link_index_def position_None pm_live_def)

lemma pm_link_index_Some:
  "pm_link_index s p k = Some i \<Longrightarrow> i < length (links s) \<and> l_active (links s ! i) \<and>
     l_parent (links s ! i) = p \<and> l_slot (links s ! i) = k \<and> links s ! i \<in># pm_live s"
  by (auto simp: pm_link_index_def position_Some pm_live_def)

text \<open>The checks of \<open>link\<close> that precede any change.\<close>

definition pm_link_guard ::
  "P2mSystem \<Rightarrow> DomId \<Rightarrow> Mfn \<Rightarrow> nat \<Rightarrow> Mfn \<Rightarrow> bool \<Rightarrow> bool \<Rightarrow> bool \<Rightarrow> FrameInfo \<Rightarrow> ChildRef \<Rightarrow> bool" where
  "pm_link_guard s caller parent slot child writable leaf execute i r \<longleftrightarrow>
     slot < TABLE_SLOTS \<and> \<not> (writable \<and> execute \<and> leaf) \<and> pm_info s parent = Some i \<and> owner i = caller \<and>
     pm_current_type s parent = Some (PageTable (pt_level i)) \<and> pm_is_allocated s child \<and>
     pm_link_index s parent slot = None \<and>
     entry_child_ref (pt_level i) leaf writable (execute \<and> leaf) = Some r"

lemma pm_link_cases:
  "(\<exists>e. pm_link s caller parent slot child writable leaf execute = (Err e, s)) \<or>
   (\<exists>i r. pm_link_guard s caller parent slot child writable leaf execute i r \<and>
      pm_link s caller parent slot child writable leaf execute =
        (case pm_acquire_child s child r of
           (Ok _, s1) \<Rightarrow>
             (case pm_acquire_child s1 parent (Typed (PageTable (pt_level i))) of
                (Ok _, s2) \<Rightarrow> (Ok (), pm_alloc_link s2
                   \<lparr>l_active = True, l_parent = parent, l_slot = slot, l_child = child,
                    l_writable = writable, l_leaf = leaf, l_execute = execute \<and> leaf\<rparr>)
              | (Err e, s2) \<Rightarrow> (Err e, snd (pm_release_child s2 child r))
              | (Panic, s2) \<Rightarrow> (Panic, s2))
         | (x, s1) \<Rightarrow> (x, s1)))"
proof (cases "pm_info s parent")
  case None
  then show ?thesis using pm_frame_info(2) [OF None] by (auto simp: pm_link_def Let_def)
next
  case (Some i)
  show ?thesis
  proof (cases "\<exists>r. pm_link_guard s caller parent slot child writable leaf execute i r")
    case True
    then obtain r where r: "pm_link_guard s caller parent slot child writable leaf execute i r" by blast
    then show ?thesis
      unfolding pm_link_def Let_def pm_link_guard_def pm_get_type_acquire
      by (intro disjI2 exI [of _ i] exI [of _ r] conjI) (auto simp: pm_frame_info)
  next
    case False
    then show ?thesis
      using Some by (auto simp: pm_link_def Let_def pm_link_guard_def pm_frame_info ok_or_def split: option.splits)
  qed
qed

lemma pm_bump_pagetable: "pagetable_refs i \<le> pagetable_refs (pm_bump r i)"
  by (cases "(r, i)" rule: pm_bump.cases) auto

lemma pm_acquire_lv:
  assumes "pm_acquire_child s m r = (Ok (), s')" "pm_info s p = Some i" "pagetable_refs i > 0"
  shows "\<exists>i'. pm_info s' p = Some i' \<and> pt_level i' = pt_level i \<and> pagetable_refs i' > 0"
proof -
  from pm_acquire_Ok [OF assms(1)] obtain j where
    j: "pm_info s m = Some j" "s' = pm_frame_mut s m (pm_bump r j)" by blast
  show ?thesis using assms(2,3) j pm_bump_level [of r j] pm_bump_pagetable [of j r]
    by (cases "p = m") (auto simp: pm_info_mut [OF j(1)])
qed

lemma pm_acquire_frame:
  assumes "pm_acquire_child s m r = (Ok (), s')"
  shows "pm_keeps s s'" "pm_live s' = pm_live s" "links s' = links s"
proof -
  from pm_acquire_Ok [OF assms] obtain j where
    j: "pm_info s m = Some j" "s' = pm_frame_mut s m (pm_bump r j)" by blast
  then show "pm_keeps s s'" "pm_live s' = pm_live s" "links s' = links s" by (auto intro: pm_keeps_mut)
qed

lemma pm_acquire_then_release:
  assumes ok: "pm_ok H s" and a: "pm_acquire_child s m r = (Ok (), s1)"
  shows "\<exists>s2. pm_release_child s1 m r = (Ok (), s2) \<and> pm_ok H s2 \<and> pm_same s s2 \<and> pm_keeps s s2"
proof -
  from pm_acquire_Ok [OF a] obtain i where
    i: "pm_info s m = Some i" "s1 = pm_frame_mut s m (pm_bump r i)" "pm_compat r i" by blast
  from pm_release_ok [OF pm_acquire_ok [OF ok a]] i have
    "pm_release_child s1 m r = (Ok (), pm_frame_mut s m (pm_drop r (pm_bump r i)))"
    "pm_ok H (pm_frame_mut s m (pm_drop r (pm_bump r i)))" by (auto simp: pm_info_mut)
  moreover have "pm_same s (pm_frame_mut s m (pm_drop r (pm_bump r i)))"
    using i pm_drop_bump [OF i(3)] by (auto simp: pm_same_def pm_info_mut)
  moreover have "pm_keeps s (pm_frame_mut s m (pm_drop r (pm_bump r i)))" using i(1) by (intro pm_keeps_mut) simp_all
  ultimately show ?thesis by blast
qed

lemma pm_link_Ok:
  assumes ok: "pm_ok H s" and guard: "pm_link_guard s caller parent slot child writable leaf execute i r"
    and a1: "pm_acquire_child s child r = (Ok (), s1)"
    and a2: "pm_acquire_child s1 parent (Typed (PageTable (pt_level i))) = (Ok (), s2)"
    and l: "l = \<lparr>l_active = True, l_parent = parent, l_slot = slot, l_child = child,
                 l_writable = writable, l_leaf = leaf, l_execute = execute \<and> leaf\<rparr>"
  shows "pm_ok H (pm_alloc_link s2 l) \<and> pm_keeps s (pm_alloc_link s2 l) \<and>
    pm_live (pm_alloc_link s2 l) = add_mset l (pm_live s)"
proof -
  have g: "pm_info s parent = Some i" "pagetable_refs i > 0"
    "entry_child_ref (pt_level i) leaf writable (execute \<and> leaf) = Some r"
    "pm_link_index s parent slot = None" "slot < TABLE_SLOTS" "\<not> (writable \<and> execute \<and> leaf)"
    using guard by (auto simp: pm_link_guard_def pm_current_type_eq split: if_splits)
  from pm_acquire_lv [OF a1 g(1,2)] obtain i1 where
    i1: "pm_info s1 parent = Some i1" "pt_level i1 = pt_level i" "pagetable_refs i1 > 0" by blast
  from pm_acquire_lv [OF a2 i1(1,3)] i1(2) have lv: "pm_lv s2 (l_parent l) = pt_level i" by (auto simp: pm_lv_def l)
  have ref: "pm_edge_ref (pt_level i) l = Some r" using g(3) by (simp add: pm_edge_ref_def l)
  have "pm_ok (add_mset (parent, Typed (PageTable (pt_level i))) (add_mset (child, r) H)) s2"
    by (rule pm_acquire_ok [OF pm_acquire_ok [OF ok a1] a2])
  then have ok2: "pm_ok (pm_edge_held (pm_lv s2 (l_parent l)) l + H) s2"
    unfolding lv pm_edge_held_Some [OF ref] by (simp add: l)
  have live: "pm_live s2 = pm_live s" using pm_acquire_frame(2) [OF a1] pm_acquire_frame(2) [OF a2] by simp
  have e: "pm_edge_ok s2 l" using ref g(5,6) by (auto simp: pm_edge_ok_def lv) (auto simp: l)
  have free: "\<not> (l_parent k = l_parent l \<and> l_slot k = l_slot l)" if "k \<in># pm_live s2" for k
    using g(4) that live by (auto simp: pm_link_index_None l)
  have a: "l_active l" by (simp add: l)
  note add = pm_ok_add_link [OF ok2 a e free]
  have "pm_keeps s2 (pm_alloc_link s2 l)"
    using add(3,4) by (auto simp: pm_keeps_def pm_info_def pm_alloc_link_def split: option.splits)
  with add live pm_acquire_frame(1) [OF a1] pm_acquire_frame(1) [OF a2] show ?thesis
    by (auto intro: pm_keeps_trans)
qed

lemma pm_link_effect:
  assumes ok: "pm_ok H s"
  shows "case pm_link s caller parent slot child writable leaf execute of
      (Ok _, s') \<Rightarrow> (\<exists>i r. pm_link_guard s caller parent slot child writable leaf execute i r) \<and>
        pm_ok H s' \<and> pm_keeps s s' \<and>
        pm_live s' = add_mset \<lparr>l_active = True, l_parent = parent, l_slot = slot, l_child = child,
                 l_writable = writable, l_leaf = leaf, l_execute = execute \<and> leaf\<rparr> (pm_live s)
    | (Err e, s') \<Rightarrow> pm_ok H s' \<and> pm_same s s' \<and> pm_keeps s s'
    | (Panic, s') \<Rightarrow> False"
  using pm_link_cases [of s caller parent slot child writable leaf execute]
proof (elim disjE exE conjE)
  fix i r
  assume guard: "pm_link_guard s caller parent slot child writable leaf execute i r"
    and eq: "pm_link s caller parent slot child writable leaf execute =
        (case pm_acquire_child s child r of
           (Ok _, s1) \<Rightarrow>
             (case pm_acquire_child s1 parent (Typed (PageTable (pt_level i))) of
                (Ok _, s2) \<Rightarrow> (Ok (), pm_alloc_link s2
                   \<lparr>l_active = True, l_parent = parent, l_slot = slot, l_child = child,
                    l_writable = writable, l_leaf = leaf, l_execute = execute \<and> leaf\<rparr>)
              | (Err e, s2) \<Rightarrow> (Err e, snd (pm_release_child s2 child r))
              | (Panic, s2) \<Rightarrow> (Panic, s2))
         | (x, s1) \<Rightarrow> (x, s1))"
  obtain x s1 where a1: "pm_acquire_child s child r = (x, s1)" by force
  show ?thesis
  proof (cases "x = Ok ()")
    case False
    with pm_acquire_refused [OF a1 False] a1 eq ok show ?thesis by (cases x) auto
  next
    case True
    with a1 have a1': "pm_acquire_child s child r = (Ok (), s1)" by simp
    obtain y s2 where a2: "pm_acquire_child s1 parent (Typed (PageTable (pt_level i))) = (y, s2)" by force
    show ?thesis
    proof (cases "y = Ok ()")
      case True
      with a2 have a2': "pm_acquire_child s1 parent (Typed (PageTable (pt_level i))) = (Ok (), s2)" by simp
      from pm_link_Ok [OF ok guard a1' a2' refl] guard eq a1' a2' show ?thesis by auto
    next
      case False
      from pm_acquire_refused [OF a2 False] have "s2 = s1" "y \<noteq> Panic" by simp_all
      moreover from pm_acquire_then_release [OF ok a1'] obtain s3 where
        "pm_release_child s1 child r = (Ok (), s3)" "pm_ok H s3" "pm_same s s3" "pm_keeps s s3" by blast
      ultimately show ?thesis using eq a1' a2 False by (cases y) auto
    qed
  qed
qed (use ok in auto)

lemma pm_unlink_effect:
  assumes ok: "pm_ok H s" and i: "pm_info s parent = Some i" "owner i = caller"
    and idx: "pm_link_index s parent slot = Some k" and l: "l = links s ! k"
  shows "\<exists>s'. pm_unlink s caller parent slot = (Ok (), s') \<and> pm_ok H s' \<and> pm_keeps s s' \<and>
    pm_live s = add_mset l (pm_live s') \<and> links s' = (links s)[k := l\<lparr>l_active := False\<rparr>]"
proof -
  have k: "k < length (links s)" "l_active l" "l_parent l = parent" "l \<in># pm_live s"
    using pm_link_index_Some [OF idx] by (auto simp: l)
  let ?lvl = "pt_level i"
  let ?p = "Typed (PageTable ?lvl)"
  define s1 where "s1 = s\<lparr>links := (links s)[k := l\<lparr>l_active := False\<rparr>]\<rparr>"
  have lv: "pm_lv s (l_parent l) = ?lvl" using i k(3) by (simp add: pm_lv_def)
  have "pm_edge_ok s l" using ok k(4) by (simp add: pm_ok_def)
  then obtain r where r: "pm_edge_ref ?lvl l = Some r" by (auto simp: pm_edge_ok_def lv)
  have act: "l_active (links s ! k)" using k(2) l by simp
  note del = pm_ok_del_link [OF ok k(1) act l s1_def]
  have "pm_ok (add_mset (parent, ?p) (add_mset (l_child l, r) H)) s1"
    using del(1) unfolding lv pm_edge_held_Some [OF r] by (simp add: k(3))
  from pm_release_ok [OF this] obtain j where
    j: "pm_info s1 parent = Some j" "pm_release_child s1 parent ?p = (Ok (), pm_frame_mut s1 parent (pm_drop ?p j))"
      "pm_ok (add_mset (l_child l, r) H) (pm_frame_mut s1 parent (pm_drop ?p j))" by blast
  define s2 where "s2 = pm_frame_mut s1 parent (pm_drop ?p j)"
  from pm_release_ok [OF j(3)] obtain c where
    c: "pm_info s2 (l_child l) = Some c" "pm_release_child s2 (l_child l) r = (Ok (), pm_frame_mut s2 (l_child l) (pm_drop r c))"
      "pm_ok H (pm_frame_mut s2 (l_child l) (pm_drop r c))" unfolding s2_def by blast
  let ?s = "pm_frame_mut s2 (l_child l) (pm_drop r c)"
  have un: "pm_unlink s caller parent slot = (Ok (), ?s)"
    using i idx j(2) [folded s2_def] c(2) r
    by (simp add: pm_unlink_def pm_frame_info Let_def l [symmetric] s1_def [symmetric] pm_put_type_release
        pm_edge_ref_def)
  have "pm_keeps s s1" by (simp add: pm_keeps_def s1_def)
  moreover have "pm_keeps s1 s2" unfolding s2_def by (rule pm_keeps_mut [OF j(1)]) simp_all
  moreover have "pm_keeps s2 ?s" by (rule pm_keeps_mut [OF c(1)]) simp_all
  ultimately have "pm_keeps s ?s" by (blast intro: pm_keeps_trans)
  moreover have "links ?s = (links s)[k := l\<lparr>l_active := False\<rparr>]" by (simp add: s2_def s1_def)
  moreover have "pm_live ?s = pm_live s1" by (simp add: s2_def)
  ultimately show ?thesis using un c(3) del(2) by auto
qed

lemma pm_unlink_refused:
  assumes "\<not> (\<exists>i. pm_info s parent = Some i \<and> owner i = caller \<and> pm_link_index s parent slot \<noteq> None)"
  shows "\<exists>e. pm_unlink s caller parent slot = (Err e, s)"
proof (cases "pm_info s parent")
  case None
  then show ?thesis using pm_frame_info(2) [OF None] by (auto simp: pm_unlink_def)
next
  case (Some i)
  then show ?thesis using assms by (auto simp: pm_unlink_def pm_frame_info)
qed

lemma pm_unlink_wb: "pm_ok H s \<Longrightarrow> well_behaved (pm_ok H) s (pm_unlink s caller parent slot)"
  using pm_unlink_refused [of s parent caller slot] pm_unlink_effect [of H s parent _ caller slot _ "links s ! _"]
  by (cases "\<exists>i. pm_info s parent = Some i \<and> owner i = caller \<and> pm_link_index s parent slot \<noteq> None")
    (fastforce simp: well_behaved_def)+

section \<open>The teardown sweeps\<close>

lemma two_in_filter:
  assumes "i < j" "j < length xs" "P (xs ! i)" "P (xs ! j)"
  shows "2 \<le> length (filter P xs)"
proof -
  have "{i, j} \<subseteq> {k. k < length xs \<and> P (xs ! k)}" using assms by auto
  then have "card {i, j} \<le> card {k. k < length xs \<and> P (xs ! k)}" by (intro card_mono) auto
  then show ?thesis using assms(1) by (simp add: length_filter_conv_card)
qed

lemma pm_link_index_unique:
  assumes ok: "pm_ok H s" and k: "k < length (links s)" "l_active (links s ! k)"
  shows "pm_link_index s (l_parent (links s ! k)) (l_slot (links s ! k)) = Some k"
proof -
  let ?P = "\<lambda>l. l_active l \<and> l_parent l = l_parent (links s ! k) \<and> l_slot l = l_slot (links s ! k)"
  have "pm_link_index s (l_parent (links s ! k)) (l_slot (links s ! k)) \<noteq> None"
    using k by (auto simp: pm_link_index_def position_None)
  then obtain i where i: "pm_link_index s (l_parent (links s ! k)) (l_slot (links s ! k)) = Some i" by blast
  have le: "length (filter ?P (links s)) \<le> 1"
    using ok by (simp add: pm_ok_def pm_slots_def pm_live_def filter_filter_mset conj_ac flip: size_mset)
  have "\<not> i < k" using two_in_filter [of i k "links s" ?P] pm_link_index_Some [OF i] k le by auto
  moreover have "\<not> k < i" using two_in_filter [of k i "links s" ?P] pm_link_index_Some [OF i] k le by auto
  ultimately show ?thesis using i by simp
qed

text \<open>The links after the sweep has passed the first \<open>k\<close>.\<close>

definition pm_off :: "(Link \<Rightarrow> bool) \<Rightarrow> Link \<Rightarrow> Link" where
  "pm_off Q l = (if l_active l \<and> Q l then l\<lparr>l_active := False\<rparr> else l)"

definition pm_unlinked_upto :: "held \<Rightarrow> P2mSystem \<Rightarrow> (Link \<Rightarrow> bool) \<Rightarrow> nat \<Rightarrow> P2mSystem \<Rightarrow> bool" where
  "pm_unlinked_upto H s Q k t \<longleftrightarrow> pm_ok H t \<and> pm_keeps s t \<and>
     links t = map (pm_off Q) (take k (links s)) @ drop k (links s)"

lemma pm_off_update:
  assumes "k < length ls"
  shows "(map (pm_off Q) (take k ls) @ drop k ls)[k := pm_off Q (ls ! k)] = map (pm_off Q) (take (Suc k) ls) @ drop (Suc k) ls"
proof -
  have "map (pm_off Q) (take k ls) @ drop k ls = map (pm_off Q) (take k ls) @ ls ! k # drop (Suc k) ls"
    using assms by (simp add: Cons_nth_drop_Suc)
  then show ?thesis using assms by (simp add: list_update_append take_Suc_conv_app_nth)
qed

lemma pm_unlink_step:
  assumes t: "pm_unlinked_upto H s Q k t" and k: "k < length (links s)"
    and Q: "Q (links s ! k)" "l_active (links s ! k)" and own: "pm_owner_of s (l_parent (links s ! k)) = Some own"
  shows "vec_get (links t) k = Some (links s ! k)"
    "pm_unlinked_upto H s Q (Suc k) (snd (pm_unlink t own (l_parent (links s ! k)) (l_slot (links s ! k))))"
proof -
  let ?l = "links s ! k"
  have ok: "pm_ok H t" and keep: "pm_keeps s t"
    and ls: "links t = map (pm_off Q) (take k (links s)) @ drop k (links s)"
    using t by (auto simp: pm_unlinked_upto_def)
  have at: "links t ! k = ?l" "k < length (links t)" using k by (auto simp: ls nth_append)
  then show "vec_get (links t) k = Some ?l" by (simp add: vec_get_def)
  from own keep obtain i where i: "pm_info t (l_parent ?l) = Some i" "owner i = own"
    using pm_keeps_owner [OF keep, of "l_parent ?l"] by (auto simp: pm_query_simps)
  have idx: "pm_link_index t (l_parent ?l) (l_slot ?l) = Some k"
    using pm_link_index_unique [OF ok at(2)] at Q by simp
  from pm_unlink_effect [OF ok i idx refl] obtain t' where
    t': "pm_unlink t own (l_parent ?l) (l_slot ?l) = (Ok (), t')" "pm_ok H t'" "pm_keeps t t'"
      "links t' = (links t)[k := ?l\<lparr>l_active := False\<rparr>]" using at(1) by auto
  have "links t' = map (pm_off Q) (take (Suc k) (links s)) @ drop (Suc k) (links s)"
    using pm_off_update [OF k, of Q] Q unfolding t'(4) ls by (simp add: pm_off_def)
  then show "pm_unlinked_upto H s Q (Suc k) (snd (pm_unlink t own (l_parent ?l) (l_slot ?l)))"
    using t' keep by (auto simp: pm_unlinked_upto_def intro: pm_keeps_trans)
qed

lemma pm_skip_step:
  assumes t: "pm_unlinked_upto H s Q k t" and k: "k < length (links s)" and no: "\<not> (l_active (links s ! k) \<and> Q (links s ! k))"
  shows "vec_get (links t) k = Some (links s ! k)" "pm_unlinked_upto H s Q (Suc k) t"
proof -
  have ls: "links t = map (pm_off Q) (take k (links s)) @ drop k (links s)" using t by (simp add: pm_unlinked_upto_def)
  have at: "links t ! k = links s ! k" "k < length (links t)" using k by (auto simp: ls nth_append)
  then show "vec_get (links t) k = Some (links s ! k)" by (simp add: vec_get_def)
  have "(links t)[k := links s ! k] = links t" using at by (metis list_update_id)
  then show "pm_unlinked_upto H s Q (Suc k) t"
    using t pm_off_update [OF k, of Q] no by (auto simp: pm_unlinked_upto_def pm_off_def)
qed

lemma pm_unlinked_live:
  assumes "links t = map (pm_off Q) (links s)"
  shows "pm_live t = filter_mset (\<lambda>l. \<not> Q l) (pm_live s)"
proof -
  have "filter_mset l_active (mset (map (pm_off Q) ls)) = filter_mset (\<lambda>l. \<not> Q l) (filter_mset l_active (mset ls))" for ls
    by (induction ls) (auto simp: pm_off_def)
  then show ?thesis by (simp add: pm_live_def assms)
qed

text \<open>\<open>unlink_all\<close> removes every edge out of a domain's tables, \<open>unlink_all_into\<close> every foreign edge into its frames.\<close>

lemma pm_unlink_all_effect:
  assumes ok: "pm_ok H s"
  shows "\<exists>t. pm_unlink_all s own = Some t \<and> pm_ok H t \<and> pm_keeps s t \<and>
    pm_live t = filter_mset (\<lambda>l. pm_owner_of s (l_parent l) \<noteq> Some own) (pm_live s)"
proof -
  let ?Q = "\<lambda>l. pm_owner_of s (l_parent l) = Some own"
  have "\<exists>t. pm_unlink_all s own = Some t \<and> pm_unlinked_upto H s ?Q (length (links s)) t"
    unfolding pm_unlink_all_def
  proof (rule for_upt_rule [where I = "pm_unlinked_upto H s ?Q"])
    fix k t assume k: "k < length (links s)" and t: "pm_unlinked_upto H s ?Q k t"
    let ?l = "links s ! k"
    have o: "pm_owner_of t m = pm_owner_of s m" for m
      using t by (auto simp: pm_unlinked_upto_def intro: pm_keeps_owner)
    show "\<exists>t'. (case vec_get (links t) k of None \<Rightarrow> None
        | Some link \<Rightarrow>
            if l_active link \<and> pm_owner_of t (l_parent link) = Some own
            then Some (snd (pm_unlink t own (l_parent link) (l_slot link)))
            else Some t) = Some t' \<and> pm_unlinked_upto H s ?Q (Suc k) t'"
    proof (cases "l_active ?l \<and> ?Q ?l")
      case True
      with pm_unlink_step [OF t k, of own] show ?thesis by (simp add: o)
    next
      case False
      with pm_skip_step [OF t k False] show ?thesis by (auto simp: o)
    qed
  qed (simp add: pm_unlinked_upto_def ok)
  then show ?thesis by (auto simp: pm_unlinked_upto_def pm_unlinked_live [where Q = ?Q])
qed

lemma pm_live_parent:
  assumes "pm_ok H s" "l \<in># pm_live s" shows "\<exists>d. pm_owner_of s (l_parent l) = Some d"
proof -
  from pm_owed_edge [OF assms(2) pm_edge_held_in(1)]
  have x: "(l_parent l, Typed (PageTable (pm_lv s (l_parent l)))) \<in># H + pm_owed s" by simp
  from pm_ok_held_info [OF assms(1) x] show ?thesis by (auto simp: pm_query_simps)
qed

lemma pm_live_child:
  assumes "pm_ok H s" "l \<in># pm_live s" shows "\<exists>d. pm_owner_of s (l_child l) = Some d"
proof -
  from assms obtain r where "pm_edge_ref (pm_lv s (l_parent l)) l = Some r"
    by (auto simp: pm_ok_def pm_edge_ok_def)
  from pm_owed_edge [OF assms(2) pm_edge_held_in(2) [OF this]] have x: "(l_child l, r) \<in># H + pm_owed s" by simp
  from pm_ok_held_info [OF assms(1) x] show ?thesis by (auto simp: pm_query_simps)
qed

lemma pm_unlink_all_into_effect:
  assumes ok: "pm_ok H s"
  shows "\<exists>t. pm_unlink_all_into s own = Some t \<and> pm_ok H t \<and> pm_keeps s t \<and>
    pm_live t = filter_mset (\<lambda>l. \<not> (pm_owner_of s (l_child l) = Some own \<and> pm_owner_of s (l_parent l) \<noteq> Some own)) (pm_live s)"
proof -
  let ?Q = "\<lambda>l. pm_owner_of s (l_child l) = Some own \<and> pm_owner_of s (l_parent l) \<noteq> Some own"
  have "\<exists>t. pm_unlink_all_into s own = Some t \<and> pm_unlinked_upto H s ?Q (length (links s)) t"
    unfolding pm_unlink_all_into_def
  proof (rule for_upt_rule [where I = "pm_unlinked_upto H s ?Q"])
    fix k t assume k: "k < length (links s)" and t: "pm_unlinked_upto H s ?Q k t"
    let ?l = "links s ! k"
    have o: "pm_owner_of t m = pm_owner_of s m" for m
      using t by (auto simp: pm_unlinked_upto_def intro: pm_keeps_owner)
    show "\<exists>t'. (case vec_get (links t) k of None \<Rightarrow> None
        | Some link \<Rightarrow>
            if \<not> l_active link \<or> pm_owner_of t (l_child link) \<noteq> Some own then Some t
            else
              (case pm_owner_of t (l_parent link) of
                 None \<Rightarrow> Some t
               | Some parent_owner \<Rightarrow>
                   if parent_owner = own then Some t
                   else Some (snd (pm_unlink t parent_owner (l_parent link) (l_slot link))))) = Some t' \<and>
        pm_unlinked_upto H s ?Q (Suc k) t'"
    proof (cases "l_active ?l \<and> ?Q ?l")
      case True
      then have "?l \<in># pm_live s" using k by (simp add: pm_live_def)
      from pm_live_parent [OF ok this] obtain d where d: "pm_owner_of s (l_parent ?l) = Some d" by blast
      with True pm_unlink_step [OF t k _ _ d] show ?thesis by (auto simp: o)
    next
      case False
      with pm_skip_step [OF t k False] show ?thesis by (auto simp: o split: option.splits)
    qed
  qed (simp add: pm_unlinked_upto_def ok)
  then show ?thesis by (auto simp: pm_unlinked_upto_def pm_unlinked_live [where Q = ?Q])
qed

text \<open>\<open>unpin_all\<close>: edges and owners stay, no frame of the domain remains pinned.\<close>

definition pm_unpinned_upto :: "held \<Rightarrow> P2mSystem \<Rightarrow> DomId \<Rightarrow> nat \<Rightarrow> P2mSystem \<Rightarrow> bool" where
  "pm_unpinned_upto H s own k t \<longleftrightarrow> pm_ok H t \<and> links t = links s \<and> pm_num_domains t = pm_num_domains s \<and>
     length (frames t) = length (frames s) \<and>
     (\<forall>m. map_option owner (pm_info t m) = map_option owner (pm_info s m)) \<and>
     (\<forall>m i. pm_info t m = Some i \<longrightarrow> owner i = own \<longrightarrow> m < k \<longrightarrow> \<not> pinned i)"

lemma pm_unpin_all_effect:
  assumes ok: "pm_ok H s"
  shows "\<exists>t. pm_unpin_all s own = Some t \<and> pm_unpinned_upto H s own (length (frames s)) t"
proof -
  have n: "as_u32 (length (frames s)) = length (frames s)" using ok by (simp add: pm_ok_def)
  show ?thesis unfolding pm_unpin_all_def n
  proof (rule for_upt_rule [where I = "pm_unpinned_upto H s own"])
    fix k t assume t: "pm_unpinned_upto H s own k t"
    show "\<exists>t'. (if pm_owner_of t k = Some own \<and> pm_is_pinned t k then Some (snd (pm_unpin t own k)) else Some t) = Some t' \<and>
        pm_unpinned_upto H s own (Suc k) t'"
    proof (cases "\<exists>i. pm_info t k = Some i \<and> owner i = own \<and> pinned i")
      case True
      have okt: "pm_ok H t" using t by (simp add: pm_unpinned_upto_def)
      from pm_unpin_effect [OF okt, of k own] True obtain i i' where
        i: "pm_info t k = Some i" "owner i = own" "owner i' = own" "\<not> pinned i'"
          "pm_unpin t own k = (Ok (), pm_frame_mut t k i')" "pm_ok H (pm_frame_mut t k i')" by auto
      have same: "map_option owner (pm_info s m) = map_option owner (pm_info t m)" for m
        using t by (simp add: pm_unpinned_upto_def)
      have "map_option owner (pm_info (pm_frame_mut t k i') m) = map_option owner (pm_info s m)" for m
        using i(1-3) by (cases "m = k") (simp_all add: same pm_info_mut [OF i(1)])
      moreover have "\<not> pinned j" if "pm_info (pm_frame_mut t k i') m = Some j" "owner j = own" "m < Suc k" for m j
        using t that i(4) by (cases "m = k") (auto simp: pm_unpinned_upto_def pm_info_mut [OF i(1)] less_Suc_eq)
      ultimately have "pm_unpinned_upto H s own (Suc k) (pm_frame_mut t k i')"
        using t i(6) by (auto simp: pm_unpinned_upto_def)
      with True i show ?thesis by (auto simp: pm_query_simps)
    next
      case False
      then have "pm_unpinned_upto H s own (Suc k) t"
        using t by (auto simp: pm_unpinned_upto_def less_Suc_eq)
      with False show ?thesis by (auto simp: pm_query_simps)
    qed
  qed (simp add: pm_unpinned_upto_def ok)
qed

text \<open>\<open>free_all\<close>: when nothing refers to the domain's frames, all of them are freed.\<close>

lemma pm_info_free: "pm_info (t\<lparr>frames := (frames t)[k := Free]\<rparr>) m = (if m = k then None else pm_info t m)"
  by (simp add: pm_info_def vec_get_update) (simp add: vec_get_def)

lemma pm_free_all_effect:
  assumes ok: "pm_ok H s" and none: "\<And>m i. pm_info s m = Some i \<Longrightarrow> owner i = own \<Longrightarrow> refs i = 0"
  shows "\<exists>t. pm_free_all s own = Some t \<and> pm_ok H t \<and> links t = links s \<and> pm_num_domains t = pm_num_domains s \<and>
    length (frames t) = length (frames s) \<and>
    (\<forall>m. pm_info t m = (if pm_owner_of s m = Some own then None else pm_info s m))"
proof -
  let ?I = "\<lambda>k t. pm_ok H t \<and> links t = links s \<and> pm_num_domains t = pm_num_domains s \<and>
    length (frames t) = length (frames s) \<and>
    (\<forall>m. pm_info t m = (if m < k \<and> pm_owner_of s m = Some own then None else pm_info s m))"
  have n: "as_u32 (length (frames s)) = length (frames s)" using ok by (simp add: pm_ok_def)
  have "\<exists>t. pm_free_all s own = Some t \<and> ?I (length (frames s)) t"
    unfolding pm_free_all_def n
  proof (rule for_upt_rule [where I = ?I])
    fix k t assume k: "k < length (frames s)" and t: "?I k t"
    then have same: "pm_info t k = pm_info s k" and okt: "pm_ok H t" by simp_all
    show "\<exists>t'. (if pm_owner_of t k = Some own then Some (snd (pm_free t own k)) else Some t) = Some t' \<and> ?I (Suc k) t'"
    proof (cases "pm_owner_of s k = Some own")
      case True
      then obtain i where i: "pm_info s k = Some i" "owner i = own" by (auto simp: pm_query_simps)
      let ?t = "t\<lparr>frames := (frames t)[k := Free]\<rparr>"
      have fr: "pm_free t own k = (Ok (), ?t)" using i none [OF i] same by (simp add: pm_free_eq)
      have "pm_ok H ?t" using pm_free_wb [OF okt, of own k] fr by (simp add: well_behaved_def)
      moreover have "pm_info ?t m = (if m < Suc k \<and> pm_owner_of s m = Some own then None else pm_info s m)" for m
        using t True by (cases "m = k") (auto simp: pm_info_free less_Suc_eq)
      ultimately show ?thesis using fr t i same by (auto simp: pm_query_simps)
    next
      case False
      with t same show ?thesis by (auto simp: pm_query_simps less_Suc_eq)
    qed
  qed (simp add: ok)
  moreover have "m < length (frames s)" if "pm_owner_of s m = Some own" for m
    using that by (auto simp: pm_query_simps pm_info_Some)
  ultimately show ?thesis by fastforce
qed

section \<open>The executable check agrees with the invariant\<close>

lemma pm_tables_union [simp]: "pm_tables (A + B) m = pm_tables A m + pm_tables B m"
  by (simp add: pm_tables_def)

lemma pm_tables_pos: "(m, Typed (PageTable lvl)) \<in># T \<Longrightarrow> 0 < pm_tables T m"
  by (drule multi_member_split) (auto simp: pm_tables_def)

lemma pm_edge_ref_table: "pm_edge_ref lvl l = Some r \<Longrightarrow> is_table r \<longleftrightarrow> \<not> l_leaf l"
  by (cases lvl) (auto simp: pm_edge_ref_def entry_child_ref_def split: if_splits)

lemma pm_tables_edges:
  assumes "\<And>l. l \<in># M \<Longrightarrow> pm_edge_ref (f l) l \<noteq> None"
  shows "pm_tables (sum_mset (image_mset (\<lambda>l. pm_edge_held (f l) l) M)) m =
    pm_tally (\<lambda>l. l_parent l = m) M + pm_tally (\<lambda>l. l_child l = m \<and> \<not> l_leaf l) M"
  using assms
proof (induction M)
  case (add l M)
  then obtain r where r: "pm_edge_ref (f l) l = Some r" by fastforce
  have "pm_tables (pm_edge_held (f l) l) m =
      (if l_parent l = m then 1 else 0) + (if l_child l = m \<and> \<not> l_leaf l then 1 else 0)"
    using pm_edge_ref_table [OF r] by (simp add: pm_edge_held_Some [OF r]) (simp add: pm_tables_def)
  with add show ?case by simp
qed (simp add: pm_tables_def)

lemma pm_tables_owed:
  assumes "pm_ok H s"
  shows "pm_tables (pm_owed s) m = pm_tally (\<lambda>l. l_parent l = m) (pm_live s) +
    pm_tally (\<lambda>l. l_child l = m \<and> \<not> l_leaf l) (pm_live s) + (if m \<in> pm_pinned_set s then 1 else 0)"
proof -
  have "filter_mset (\<lambda>x. fst x = m \<and> is_table (snd x))
      (image_mset (\<lambda>m. (m, Typed (PageTable (pm_lv s m)))) (mset_set (pm_pinned_set s))) =
    image_mset (\<lambda>m. (m, Typed (PageTable (pm_lv s m)))) (filter_mset (\<lambda>x. x = m) (mset_set (pm_pinned_set s)))"
    by (simp add: filter_mset_image_mset)
  then have "pm_tables (image_mset (\<lambda>m. (m, Typed (PageTable (pm_lv s m)))) (mset_set (pm_pinned_set s))) m =
      count (mset_set (pm_pinned_set s)) m"
    by (simp add: pm_tables_def filter_eq_replicate_mset)
  moreover have "pm_edge_ref (pm_lv s (l_parent l)) l \<noteq> None" if "l \<in># pm_live s" for l
    using assms that by (simp add: pm_ok_def pm_edge_ok_def)
  ultimately show ?thesis
    by (simp add: pm_owed_def pm_tables_edges count_mset_set')
qed

lemma pm_typed_le_refs:
  assumes "pm_exact T m i"
  shows "writable_refs i + executable_refs i + pagetable_refs i + count T (m, Bare) = refs i"
    "wrap_u32 (writable_refs i + executable_refs i + pagetable_refs i) \<le> refs i"
proof -
  show "writable_refs i + executable_refs i + pagetable_refs i + count T (m, Bare) = refs i"
    using assms pm_total_split [of T m] by (simp add: pm_exact_def)
  then show "wrap_u32 (writable_refs i + executable_refs i + pagetable_refs i) \<le> refs i"
    by (simp add: wrap_u32_def)
qed

lemma pm_current_type_table:
  assumes ok: "pm_ok H s" and x: "(m, Typed (PageTable lvl)) \<in># H + pm_owed s"
  shows "pm_current_type s m = Some (PageTable lvl)"
proof -
  from pm_ok_held_info [OF ok x] obtain i where i: "pm_info s m = Some i" by auto
  note e = pm_ok_exact(2) [OF ok i]
  have "pagetable_refs i > 0" using e pm_tables_pos [OF x] by (simp add: pm_exact_def)
  moreover from this have "writable_refs i = 0" using e by (auto simp: pm_exact_def)
  moreover have "pt_level i = lvl" using e x by (auto simp: pm_exact_def dest: pm_levelsD)
  ultimately show ?thesis using i by (simp add: pm_current_type_eq)
qed

lemma pm_current_type_writable:
  assumes ok: "pm_ok H s" and x: "(m, Typed Writable) \<in># H + pm_owed s"
  shows "pm_current_type s m = Some Writable"
proof -
  from pm_ok_held_info [OF ok x] obtain i where i: "pm_info s m = Some i" by auto
  have "writable_refs i > 0" using pm_ok_exact(2) [OF ok i] x by (simp add: pm_exact_def)
  with i show ?thesis by (simp add: pm_current_type_eq)
qed

lemma pm_link_violation_ok:
  assumes ok: "pm_ok H s" and l: "l \<in># pm_live s" shows "pm_link_violation s l = None"
proof -
  let ?lvl = "pm_lv s (l_parent l)"
  from ok l obtain r where r: "pm_edge_ref ?lvl l = Some r" by (auto simp: pm_ok_def pm_edge_ok_def)
  have p: "pm_current_type s (l_parent l) = Some (PageTable ?lvl)"
    using pm_current_type_table [OF ok, of "l_parent l" ?lvl] pm_owed_edge [OF l pm_edge_held_in(1)] by simp
  have x: "(l_child l, r) \<in># H + pm_owed s" using pm_owed_edge [OF l pm_edge_held_in(2) [OF r]] by simp
  from pm_ok_held_info [OF ok x] have al: "pm_is_allocated s (l_child l)" by (auto simp: pm_query_simps)
  have "pm_current_type s (l_child l) = Some ty" if "r = Typed ty" for ty
    using that x pm_current_type_table [OF ok, of "l_child l"] pm_current_type_writable [OF ok, of "l_child l"]
    by (cases ty) auto
  then show ?thesis using p al r by (cases r) (auto simp: pm_link_violation_def pm_edge_ref_def)
qed

lemma fold_le_sum:
  assumes "\<And>x h. f x h \<le> h + (w x :: nat)" shows "fold f xs h \<le> h + sum_list (map w xs)"
proof (induction xs arbitrary: h)
  case (Cons x xs)
  from Cons [of "f x h"] assms [of x h] show ?case by simp
qed simp

lemma sum_list_two_tests:
  "sum_list (map (\<lambda>x. (if P x then 1 else 0) + (if Q x then 1 else (0::nat))) xs) = length (filter P xs) + length (filter Q xs)"
  by (induction xs) auto

lemma pm_held_fold:
  "fold (pm_held_by m) ls h
   \<le> h + (length (filter (\<lambda>l. l_parent l = m) ls) + length (filter (\<lambda>l. l_child l = m \<and> \<not> l_leaf l) ls))"
proof -
  have w: "wrap_u32 x \<le> x" for x by (simp add: wrap_u32_def)
  have le: "wrap_u32 (wrap_u32 (h + 1) + 1) \<le> h + 2" for h
    using w [of "h + 1"] w [of "wrap_u32 (h + 1) + 1"] by simp
  show ?thesis unfolding sum_list_two_tests [symmetric]
    by (rule fold_le_sum) (use w le in \<open>auto simp: pm_held_by_def Let_def\<close>)
qed

lemma pm_held_violation_ok:
  assumes ok: "pm_ok H s" and i: "pm_info s m = Some i" shows "pm_held_violation s m (Allocated i) = None"
proof -
  let ?ls = "filter l_active (links s)"
  let ?h = "fold (pm_held_by m) ?ls 0"
  have "pm_tally P (pm_live s) = length (filter P ?ls)" for P
    by (simp add: pm_live_def flip: mset_filter size_mset)
  then have "pm_tables (pm_owed s) m = length (filter (\<lambda>l. l_parent l = m) ?ls) +
      length (filter (\<lambda>l. l_child l = m \<and> \<not> l_leaf l) ?ls) + (if pinned i then 1 else 0)"
    using i by (simp add: pm_tables_owed [OF ok] pm_pinned_set_def)
  moreover have "pm_tables (pm_owed s) m \<le> pagetable_refs i" using pm_ok_exact(2) [OF ok i] by (simp add: pm_exact_def)
  moreover have "wrap_u32 (?h + 1) \<le> ?h + 1" by (simp add: wrap_u32_def)
  ultimately have "(if pinned i then wrap_u32 (?h + 1) else ?h) \<le> pagetable_refs i"
    using pm_held_fold [of m ?ls 0] by (auto split: if_splits)
  then show ?thesis by (auto simp: pm_held_violation_def Let_def split: if_splits)
qed

lemma pm_frame_violation_ok:
  assumes ok: "pm_ok H s" and i: "pm_info s m = Some i" shows "pm_frame_violation s m (Allocated i) = None"
proof -
  note e = pm_ok_exact [OF ok i]
  have "pagetable_refs i > 0" if "pinned i"
  proof -
    have "m \<in> pm_pinned_set s" using i that by (simp add: pm_pinned_set_def)
    then have "(m, Typed (PageTable (pm_lv s m))) \<in># H + pm_owed s" using pm_owed_pin by simp
    from pm_tables_pos [OF this] e(2) show ?thesis by (simp add: pm_exact_def)
  qed
  moreover have "writable_refs i = 0 \<or> pagetable_refs i = 0 \<and> executable_refs i = 0"
    using e(2) unfolding pm_exact_def by blast
  moreover have "\<not> wrap_u32 (writable_refs i + executable_refs i + pagetable_refs i) > refs i"
    using pm_typed_le_refs(2) [OF e(2)] by simp
  ultimately show ?thesis using e(1) unfolding pm_frame_violation_def by fastforce
qed

lemma pm_ok_no_violation:
  assumes ok: "pm_ok H s" shows "pm_first_violation s = None"
proof -
  have "pm_frame_violation s m (frames s ! m) = None \<and> pm_held_violation s m (frames s ! m) = None"
    if "m < length (frames s)" for m
  proof (cases "frames s ! m")
    case (Allocated i)
    with that have "pm_info s m = Some i" by (simp add: pm_info_Some)
    with Allocated show ?thesis using pm_frame_violation_ok [OF ok] pm_held_violation_ok [OF ok] by simp
  qed (simp add: pm_frame_violation_def pm_held_violation_def)
  moreover have "find_map (pm_link_violation s) (filter l_active (links s)) = None"
    using pm_link_violation_ok [OF ok] by (auto simp: find_map_None pm_live_def)
  ultimately show ?thesis
    by (simp add: pm_first_violation_def find_map_enumerate_None [of "pm_frame_violation s"]
        find_map_enumerate_None [of "pm_held_violation s"])
qed

section \<open>Runs\<close>

text \<open>
  The calls of a client. External holders take and drop references through \<open>get\<close>, \<open>put\<close>,
  \<open>get_type\<close> and \<open>put_type\<close>; the ghost multiset records what they hold, and they drop only what
  they hold.
\<close>

datatype PmOp =
    PmAllocate DomId Mfn
  | PmFree DomId Mfn
  | PmPin DomId Mfn PtLevel
  | PmUnpin DomId Mfn
  | PmLink DomId Mfn nat Mfn bool bool bool
  | PmUnlink DomId Mfn nat
  | PmGet Mfn
  | PmPut Mfn
  | PmGetType Mfn PageType
  | PmPutType Mfn PageType

fun pm_call :: "P2mSystem \<Rightarrow> PmOp \<Rightarrow> (unit, P2mError) result \<times> P2mSystem" where
  "pm_call s (PmAllocate d m) = pm_allocate s d m"
| "pm_call s (PmFree d m) = pm_free s d m"
| "pm_call s (PmPin d m lvl) = pm_pin s d m lvl"
| "pm_call s (PmUnpin d m) = pm_unpin s d m"
| "pm_call s (PmLink d p k c w lf x) = pm_link s d p k c w lf x"
| "pm_call s (PmUnlink d p k) = pm_unlink s d p k"
| "pm_call s (PmGet m) = pm_get s m"
| "pm_call s (PmPut m) = pm_put s m"
| "pm_call s (PmGetType m ty) = pm_get_type s m ty"
| "pm_call s (PmPutType m ty) = pm_put_type s m ty"

fun pm_takes :: "PmOp \<Rightarrow> held" where
  "pm_takes (PmGet m) = {#(m, Bare)#}"
| "pm_takes (PmGetType m ty) = {#(m, Typed ty)#}"
| "pm_takes _ = {#}"

fun pm_drops :: "PmOp \<Rightarrow> held" where
  "pm_drops (PmPut m) = {#(m, Bare)#}"
| "pm_drops (PmPutType m ty) = {#(m, Typed ty)#}"
| "pm_drops _ = {#}"

definition pm_step :: "held \<times> P2mSystem \<Rightarrow> PmOp \<Rightarrow> held \<times> P2mSystem" where
  "pm_step Hs a =
     (let (H, s) = Hs in
      if pm_drops a \<subseteq># H
      then (if is_Ok (fst (pm_call s a)) then H + pm_takes a - pm_drops a else H, snd (pm_call s a))
      else (H, s))"

lemma pm_get_acquire: "pm_get s m = pm_acquire_child s m Bare"
  by (simp add: pm_acquire_child_def)

lemma pm_put_release: "pm_put s m = pm_release_child s m Bare"
  by (simp add: pm_release_child_def)

lemma pm_acquire_step:
  assumes "pm_ok H s"
  shows "fst (pm_acquire_child s m r) \<noteq> Panic \<and>
    pm_ok (if is_Ok (fst (pm_acquire_child s m r)) then add_mset (m, r) H else H) (snd (pm_acquire_child s m r))"
proof (cases "pm_acquire_child s m r")
  case (Pair x s')
  show ?thesis
  proof (cases x)
    case (Ok u)
    with Pair pm_acquire_ok [OF assms, of m r s'] show ?thesis by simp
  qed (use Pair pm_acquire_refused [OF Pair] assms in auto)
qed

lemma pm_release_step:
  assumes "pm_ok H s" "(m, r) \<in># H"
  shows "is_Ok (fst (pm_release_child s m r)) \<and> pm_ok (H - {#(m, r)#}) (snd (pm_release_child s m r))"
proof -
  from assms(2) have "H = add_mset (m, r) (H - {#(m, r)#})" by simp
  with assms(1) have "pm_ok (add_mset (m, r) (H - {#(m, r)#})) s" by simp
  from pm_release_ok [OF this] show ?thesis by auto
qed

lemma pm_call_ok:
  assumes ok: "pm_ok H s" and d: "pm_drops a \<subseteq># H"
  shows "fst (pm_call s a) \<noteq> Panic \<and>
    pm_ok (if is_Ok (fst (pm_call s a)) then H + pm_takes a - pm_drops a else H) (snd (pm_call s a))"
proof (cases a)
  case (PmPin d' m lvl)
  with pm_pin_effect [OF ok, of d' m lvl] ok show ?thesis by auto
next
  case (PmUnpin d' m)
  with pm_unpin_effect [OF ok, of m d'] ok show ?thesis
    by (cases "\<exists>i. pm_info s m = Some i \<and> owner i = d' \<and> pinned i") auto
next
  case (PmLink d' p k c w lf x)
  with pm_link_effect [OF ok, of d' p k c w lf x] show ?thesis
    by (auto split: prod.splits result.splits)
next
  case (PmGet m)
  with pm_acquire_step [OF ok, of m Bare] show ?thesis by (auto simp: pm_get_acquire split: if_splits)
next
  case (PmGetType m ty)
  with pm_acquire_step [OF ok, of m "Typed ty"] show ?thesis
    by (auto simp: pm_get_type_acquire split: if_splits)
next
  case (PmPut m)
  with pm_release_step [OF ok, of m Bare] d show ?thesis by (auto simp: pm_put_release)
next
  case (PmPutType m ty)
  with pm_release_step [OF ok, of m "Typed ty"] d show ?thesis by (auto simp: pm_put_type_release)
qed (use ok pm_allocate_wb [OF ok] pm_free_wb [OF ok] pm_unlink_wb [OF ok] in \<open>auto simp: well_behaved_def\<close>)

lemma pm_new_ok: "k < u32_size \<Longrightarrow> pm_ok {#} (pm_new n k)"
proof -
  assume k: "k < u32_size"
  have info: "pm_info (pm_new n k) m = None" for m by (auto simp: pm_info_None pm_new_def not_less [symmetric])
  then have "pm_pinned_set (pm_new n k) = {}" by (simp add: pm_pinned_set_def)
  then have "pm_owed (pm_new n k) = {#}" by (simp add: pm_owed_def pm_live_def) (simp add: pm_new_def)
  with k info show ?thesis by (simp add: pm_ok_def pm_counts_def pm_slots_def pm_live_def) (simp add: pm_new_def)
qed

interpretation pmm: machine "\<lambda>Hs. \<exists>n k. k < u32_size \<and> Hs = ({#}, pm_new n k)" pm_step "\<lambda>(H, s). pm_ok H s"
proof unfold_locales
  fix Hs a assume "case Hs of (H, s) \<Rightarrow> pm_ok H s"
  then show "case pm_step Hs a of (H, s) \<Rightarrow> pm_ok H s"
    using pm_call_ok by (cases Hs) (auto simp: pm_step_def)
qed (auto intro: pm_new_ok)

section \<open>Properties\<close>

text \<open>
  C29: Whatever sequence of calls clients make on a fresh system, external holders dropping only
  references they hold, \<open>first_violation\<close> finds nothing and the next call does not panic; no frame
  is at once writable and executable, and none is at once writable and a page table.
\<close>

theorem p2m_runs_consistent:
  assumes "k < u32_size" and "(H, s) = fold (\<lambda>a Hs. pm_step Hs a) as ({#}, pm_new n k)" and "pm_drops a \<subseteq># H"
  shows "pm_first_violation s = None \<and> fst (pm_call s a) \<noteq> Panic \<and>
    (pm_type_refs s m Writable \<noteq> Some w \<or> w = 0 \<or>
       pm_executable_refs s m = Some 0 \<and> (\<forall>lvl. pm_type_refs s m (PageTable lvl) = Some 0))"
proof -
  have "case fold (\<lambda>a Hs. pm_step Hs a) as ({#}, pm_new n k) of (H, s) \<Rightarrow> pm_ok H s"
    using assms(1) by (intro pmm.run_inv) (simp add: pm_new_ok)
  then have ok: "pm_ok H s" unfolding assms(2) [symmetric] by simp
  have "pm_executable_refs s m = Some 0 \<and> (\<forall>lvl. pm_type_refs s m (PageTable lvl) = Some 0)"
    if "pm_type_refs s m Writable = Some w" "w \<noteq> 0"
  proof (cases "pm_info s m")
    case None
    with that pm_frame_info(2) [OF None] show ?thesis by (auto simp: pm_type_refs_def)
  next
    case (Some i)
    with that have "writable_refs i \<noteq> 0" by (auto simp: pm_type_refs_def pm_frame_info)
    with pm_ok_exact(2) [OF ok Some] have "pagetable_refs i = 0" "executable_refs i = 0" unfolding pm_exact_def by blast+
    with Some show ?thesis by (simp add: pm_type_refs_def pm_executable_refs_def pm_frame_info)
  qed
  then show ?thesis using pm_ok_no_violation [OF ok] pm_call_ok [OF ok assms(3)] by blast
qed

theorem p2m_runs_consistent_witness:
  "\<exists>H s. (H, s) = fold (\<lambda>a Hs. pm_step Hs a)
      [PmAllocate 0 0, PmAllocate 0 1, PmPin 0 0 L1, PmLink 0 0 3 1 True True False] ({#}, pm_new 1 2) \<and>
     pm_type_refs s 1 Writable = Some 1 \<and> pm_first_violation s = None"
proof -
  let ?as = "[PmAllocate 0 0, PmAllocate 0 1, PmPin 0 0 L1, PmLink 0 0 3 1 True True False]"
  let ?r = "fold (\<lambda>a Hs. pm_step Hs a) ?as ({#}, pm_new 1 2)"
  have eq: "(fst ?r, snd ?r) = ?r" by simp
  have "pm_type_refs (snd ?r) 1 Writable = Some 1" by code_simp
  with p2m_runs_consistent [OF _ eq, of "PmGet 0"] eq show ?thesis by fastforce
qed

lemma pm_link_edges_iff:
  "(p, k, c, w, lf, x) \<in> set (pm_link_edges s) \<longleftrightarrow> (\<exists>l. l \<in># pm_live s \<and> l_parent l = p \<and> l_slot l = k \<and>
     l_child l = c \<and> l_writable l = w \<and> l_leaf l = lf \<and> l_execute l = x)"
  unfolding pm_link_edges_def pm_live_def by (auto simp: image_iff)

lemma pm_edge_in_owed:
  assumes ok: "pm_ok H s" and e: "(p, k, c, w, lf, x) \<in> set (pm_link_edges s)"
  shows "(p, Typed (PageTable (pm_lv s p))) \<in># pm_owed s" "lf \<Longrightarrow> w \<Longrightarrow> (c, Typed Writable) \<in># pm_owed s"
    "lf \<Longrightarrow> \<not> w \<Longrightarrow> x \<Longrightarrow> (c, Exec) \<in># pm_owed s" "\<not> (w \<and> x)" "k < TABLE_SLOTS"
    "pm_owner_of s p \<noteq> None" "pm_owner_of s c \<noteq> None"
    "\<not> lf \<Longrightarrow> interior_child_type (pm_lv s p) = pm_current_type s c"
proof -
  from e obtain l where l: "l \<in># pm_live s" "l_parent l = p" "l_slot l = k" "l_child l = c" "l_writable l = w"
    "l_leaf l = lf" "l_execute l = x" unfolding pm_link_edges_iff by blast
  have ed: "pm_edge_ok s l" using ok l(1) by (simp add: pm_ok_def)
  then have "pm_edge_ref (pm_lv s p) l \<noteq> None" by (simp add: pm_edge_ok_def l(2))
  then obtain r where r: "pm_edge_ref (pm_lv s p) l = Some r" by blast
  have c: "(c, r) \<in># pm_owed s" using pm_owed_edge [OF l(1) pm_edge_held_in(2)] r l by fastforce
  show "(p, Typed (PageTable (pm_lv s p))) \<in># pm_owed s" using pm_owed_edge [OF l(1) pm_edge_held_in(1)] l(2) by simp
  show "(c, Typed Writable) \<in># pm_owed s" if lf w using c r that l by (simp add: pm_edge_ref_def entry_child_ref_def)
  show "(c, Exec) \<in># pm_owed s" if lf "\<not> w" x using c r that l by (simp add: pm_edge_ref_def entry_child_ref_def)
  show "\<not> (w \<and> x)" "k < TABLE_SLOTS" using ed l by (auto simp: pm_edge_ok_def)
  show "pm_owner_of s p \<noteq> None" "pm_owner_of s c \<noteq> None"
    using pm_live_parent [OF ok l(1)] pm_live_child [OF ok l(1)] l by auto
  show "interior_child_type (pm_lv s p) = pm_current_type s c" if nl: "\<not> lf"
  proof -
    obtain lvl where "r = Typed (PageTable lvl)" "interior_child_type (pm_lv s p) = Some (PageTable lvl)"
      using r nl l by (cases "pm_lv s p") (auto simp: pm_edge_ref_def entry_child_ref_def)
    with pm_current_type_table [OF ok, of c lvl] c show ?thesis by simp
  qed
qed

lemma pm_owed_exclusive:
  assumes ok: "pm_ok H s" and w: "(m, Typed Writable) \<in># pm_owed s"
  shows "(m, Exec) \<notin># pm_owed s" "(m, Typed (PageTable lvl)) \<notin># pm_owed s"
proof -
  have t: "pm_current_type s m = Some Writable" using w pm_current_type_writable [OF ok, of m] by simp
  then obtain i where i: "pm_info s m = Some i" by (auto simp: pm_current_type_eq split: option.splits)
  have "writable_refs i > 0" using t i by (simp add: pm_current_type_eq split: if_splits)
  moreover have "executable_refs i > 0" if "(m, Exec) \<in># pm_owed s"
    using that pm_ok_exact(2) [OF ok i] by (simp add: pm_exact_def)
  moreover have "writable_refs i = 0 \<or> pagetable_refs i = 0 \<and> executable_refs i = 0"
    using pm_ok_exact(2) [OF ok i] unfolding pm_exact_def by blast
  ultimately show "(m, Exec) \<notin># pm_owed s" by auto
  show "(m, Typed (PageTable lvl)) \<notin># pm_owed s" using pm_current_type_table [OF ok, of m lvl] t by auto
qed



text \<open>
  Freeing a frame is accepted exactly when the caller owns it and nothing refers to it: no
  page-table entry of it or into it, no pin and no external holder. The frame is then free and
  every other frame is unchanged.
\<close>

theorem p2m_free_exact:
  assumes "pm_ok H s"
  shows "(is_Ok (fst (pm_free s d m)) \<longleftrightarrow>
      pm_owner_of s m = Some d \<and> \<not> pm_is_pinned s m \<and>
      (\<forall>(p, k, c, w, lf, x) \<in> set (pm_link_edges s). p \<noteq> m \<and> c \<noteq> m) \<and> (\<forall>r. (m, r) \<notin># H)) \<and>
    (is_Ok (fst (pm_free s d m)) \<longrightarrow>
      \<not> pm_is_allocated (snd (pm_free s d m)) m \<and> (\<forall>m'. m' \<noteq> m \<longrightarrow> pm_frame (snd (pm_free s d m)) m' = pm_frame s m'))"
proof -
  have acc: "is_Ok (fst (pm_free s d m)) \<longleftrightarrow> (\<exists>i. pm_info s m = Some i \<and> owner i = d \<and> refs i = 0)"
    by (auto simp: pm_free_eq split: option.splits)
  have zero: "refs i = 0 \<longleftrightarrow> \<not> pinned i \<and> (\<forall>(p, k, c, w, lf, x) \<in> set (pm_link_edges s). p \<noteq> m \<and> c \<noteq> m) \<and> (\<forall>r. (m, r) \<notin># H)"
    (is "_ \<longleftrightarrow> ?R") if i: "pm_info s m = Some i" for i
  proof
    assume z: "refs i = 0"
    note no = pm_unreferenced [OF assms i z]
    have "\<not> pinned i" using no pm_owed_pin [of m s] i by (fastforce simp: pm_pinned_set_def)
    moreover have "p \<noteq> m \<and> c \<noteq> m" if "(p, k, c, w, lf, x) \<in> set (pm_link_edges s)" for p k c w lf x
    proof -
      from that obtain l where l: "l \<in># pm_live s" "l_parent l = p" "l_child l = c"
        unfolding pm_link_edges_iff by blast
      from assms l(1) obtain r where "pm_edge_ref (pm_lv s (l_parent l)) l = Some r" by (auto simp: pm_ok_def pm_edge_ok_def)
      with no pm_owed_edge [OF l(1) pm_edge_held_in(1)] pm_owed_edge [OF l(1) pm_edge_held_in(2)] l
      show ?thesis by fastforce
    qed
    moreover have "(m, r) \<notin># H" for r using no [of "(m, r)"] by auto
    ultimately show ?R by blast
  next
    assume R: ?R
    have "fst y \<noteq> m" if "y \<in># H + pm_owed s" for y
      using that
    proof (elim union_iff [THEN iffD1, elim_format] disjE)
      assume "y \<in># pm_owed s"
      then consider l where "l \<in># pm_live s" "y \<in># pm_edge_held (pm_lv s (l_parent l)) l" | "fst y \<in> pm_pinned_set s"
        by (auto simp: pm_owed_def in_Union_mset_iff)
      then show ?thesis
      proof cases
        case (1 l)
        then have "(l_parent l, l_slot l, l_child l, l_writable l, l_leaf l, l_execute l) \<in> set (pm_link_edges s)"
          unfolding pm_link_edges_iff by blast
        with R have "l_parent l \<noteq> m" "l_child l \<noteq> m" by auto
        with 1(2) show ?thesis by (auto simp: pm_edge_held_def split: option.splits)
      next
        case 2
        with R i show ?thesis by (auto simp: pm_pinned_set_def)
      qed
    qed (use R in \<open>cases y; auto\<close>)
    from pm_no_refs(1) [of "H + pm_owed s" m, OF this] pm_ok_exact(2) [OF assms i] show "refs i = 0"
      by (simp add: pm_exact_def)
  qed
  have "pm_frame (s\<lparr>frames := (frames s)[m := Free]\<rparr>) m' = pm_frame s m'" if "m' \<noteq> m" for m'
    using that by (simp add: pm_frame_eq)
  then have "\<not> pm_is_allocated (snd (pm_free s d m)) m \<and> (\<forall>m'. m' \<noteq> m \<longrightarrow> pm_frame (snd (pm_free s d m)) m' = pm_frame s m')"
    if "is_Ok (fst (pm_free s d m))"
    using that acc by (auto simp: pm_free_eq pm_query_simps pm_info_free)
  moreover have "is_Ok (fst (pm_free s d m)) \<longleftrightarrow>
      pm_owner_of s m = Some d \<and> \<not> pm_is_pinned s m \<and>
      (\<forall>(p, k, c, w, lf, x) \<in> set (pm_link_edges s). p \<noteq> m \<and> c \<noteq> m) \<and> (\<forall>r. (m, r) \<notin># H)"
    unfolding acc pm_query_simps using zero by (cases "pm_info s m") auto
  ultimately show ?thesis by blast
qed

theorem p2m_free_exact_witness:
  "\<exists>s. is_Ok (fst (pm_free s 0 1)) \<and> \<not> pm_is_allocated (snd (pm_free s 0 1)) 1"
proof -
  let ?s = "snd (pm_allocate (pm_new 1 2) 0 1)"
  have ok: "pm_ok {#} ?s" using pm_allocate_wb [OF pm_new_ok, of 2 1 0 1] by (simp add: well_behaved_def)
  have "is_Ok (fst (pm_free ?s 0 1))" by code_simp
  with p2m_free_exact [OF ok, of 0 1] show ?thesis by blast
qed

lemma pm_owed_cases:
  assumes "y \<in># pm_owed s"
  obtains l where "l \<in># pm_live s" "fst y = l_parent l \<or> fst y = l_child l"
  | "fst y \<in> pm_pinned_set s"
proof -
  from assms consider l where "l \<in># pm_live s" "y \<in># pm_edge_held (pm_lv s (l_parent l)) l" | "fst y \<in> pm_pinned_set s"
    by (auto simp: pm_owed_def in_Union_mset_iff)
  then show ?thesis
  proof cases
    case (1 l)
    then have "fst y = l_parent l \<or> fst y = l_child l" by (auto simp: pm_edge_held_def split: option.splits)
    with 1(1) show ?thesis by (rule that(1))
  qed (rule that(2))
qed

text \<open>The four page-side steps of a domain teardown.\<close>

lemma pm_teardown_effect:
  assumes ok: "pm_ok H s" and ext: "\<And>x. x \<in># H \<Longrightarrow> pm_owner_of s (fst x) \<noteq> Some d"
    and into: "\<And>l. l \<in># pm_live s \<Longrightarrow> pm_owner_of s (l_child l) = Some d \<Longrightarrow> pm_owner_of s (l_parent l) = Some d"
  shows "\<exists>s1 s2 s3. pm_unlink_all s d = Some s1 \<and> pm_unpin_all s1 d = Some s2 \<and> pm_free_all s2 d = Some s3 \<and>
    pm_ok H s3 \<and> length (frames s3) = length (frames s) \<and> pm_num_domains s3 = pm_num_domains s \<and>
    pm_live s3 = filter_mset (\<lambda>l. pm_owner_of s (l_parent l) \<noteq> Some d) (pm_live s) \<and>
    (\<forall>m. pm_owner_of s3 m = (if pm_owner_of s m = Some d then None else pm_owner_of s m))"
proof -
  from pm_unlink_all_effect [OF ok, of d] obtain s1 where
    s1: "pm_unlink_all s d = Some s1" "pm_ok H s1" "pm_keeps s s1"
      "pm_live s1 = filter_mset (\<lambda>l. pm_owner_of s (l_parent l) \<noteq> Some d) (pm_live s)" by blast
  from pm_unpin_all_effect [OF s1(2), of d] obtain s2 where
    s2: "pm_unpin_all s1 d = Some s2" "pm_unpinned_upto H s1 d (length (frames s1)) s2" by blast
  have ok2: "pm_ok H s2" and ls2: "links s2 = links s1"
    and own2: "pm_owner_of s2 m = pm_owner_of s m" for m
    using s2(2) pm_keeps_owner [OF s1(3), of m] by (simp_all add: pm_unpinned_upto_def pm_query_simps)
  have live2: "pm_live s2 = pm_live s1" using ls2 by (simp add: pm_live_def)
  have zero: "refs i = 0" if i: "pm_info s2 m = Some i" "owner i = d" for m i
  proof -
    have md: "pm_owner_of s m = Some d" using own2 [of m] i by (simp add: pm_query_simps)
    have "fst y \<noteq> m" if "y \<in># H + pm_owed s2" for y
    proof
      assume ym: "fst y = m"
      from that consider "y \<in># H" | "y \<in># pm_owed s2" by auto
      then show False
      proof cases
        case 1
        with ext [OF 1] md ym show False by simp
      next
        case 2
        then show False
        proof (cases rule: pm_owed_cases)
          case (1 l)
          with live2 s1(4) have "l \<in># pm_live s" "pm_owner_of s (l_parent l) \<noteq> Some d" by auto
          with into [of l] 1(2) md ym show False by auto
        next
          case 2
          then obtain j where "pm_info s2 m = Some j" "pinned j" using ym by (auto simp: pm_pinned_set_def)
          moreover have "m < length (frames s1)"
            using i(1) s2(2) by (auto simp: pm_info_Some pm_unpinned_upto_def)
          ultimately show False using i s2(2) by (auto simp: pm_unpinned_upto_def)
        qed
      qed
    qed
    from pm_no_refs(1) [of "H + pm_owed s2" m, OF this] pm_ok_exact(2) [OF ok2 i(1)] show ?thesis
      by (simp add: pm_exact_def)
  qed
  obtain s3 where
    s3: "pm_free_all s2 d = Some s3" "pm_ok H s3" "links s3 = links s2" "pm_num_domains s3 = pm_num_domains s2"
      "length (frames s3) = length (frames s2)"
      "\<And>m. pm_info s3 m = (if pm_owner_of s2 m = Some d then None else pm_info s2 m)"
    using pm_free_all_effect [OF ok2, of d] zero by blast
  have "pm_owner_of s3 m = (if pm_owner_of s m = Some d then None else pm_owner_of s m)" for m
  proof -
    have "pm_owner_of s3 m = (if pm_owner_of s2 m = Some d then None else pm_owner_of s2 m)"
      unfolding pm_query_simps(2) [of s3] s3(6) by (auto simp: pm_query_simps(2) [of s2])
    then show ?thesis by (simp only: own2)
  qed
  moreover have "length (frames s3) = length (frames s)" "pm_num_domains s3 = pm_num_domains s"
    using s1(3) s2(2) s3(4,5) by (simp_all add: pm_keeps_def pm_unpinned_upto_def)
  moreover have "pm_live s3 = pm_live s1" using s3(3) live2 by (simp add: pm_live_def)
  ultimately show ?thesis using s1(1,4) s2(1) s3(1,2) by (intro exI [of _ s1] exI [of _ s2] exI [of _ s3]) simp
qed

text \<open>
  The page-side steps of a domain teardown, in the order of \<open>domain_destroy\<close>, never panic.
  When no external holder refers to the domain's frames, the domain owns no frame afterwards, no
  edge of it or into it remains, edges among the other domains' frames are exactly those there
  were, and no other frame changes its owner.
\<close>

theorem p2m_teardown_clears:
  assumes "pm_ok H s" and "\<forall>x \<in># H. pm_owner_of s (fst x) \<noteq> Some d"
  shows "\<exists>s0 s1 s2 s3. pm_unlink_all_into s d = Some s0 \<and> pm_unlink_all s0 d = Some s1 \<and>
    pm_unpin_all s1 d = Some s2 \<and> pm_free_all s2 d = Some s3 \<and> pm_first_violation s3 = None \<and>
    (\<forall>m. pm_owner_of s3 m = (if pm_owner_of s m = Some d then None else pm_owner_of s m)) \<and>
    (\<forall>e. e \<in> set (pm_link_edges s3) \<longleftrightarrow> (case e of (p, k, c, w, lf, x) \<Rightarrow>
       e \<in> set (pm_link_edges s) \<and> pm_owner_of s p \<noteq> Some d \<and> pm_owner_of s c \<noteq> Some d))"
proof -
  from pm_unlink_all_into_effect [OF assms(1), of d] obtain s0 where
    s0: "pm_unlink_all_into s d = Some s0" "pm_ok H s0" "pm_keeps s s0"
      "pm_live s0 = filter_mset (\<lambda>l. \<not> (pm_owner_of s (l_child l) = Some d \<and> pm_owner_of s (l_parent l) \<noteq> Some d)) (pm_live s)"
    by blast
  have own0: "pm_owner_of s0 m = pm_owner_of s m" for m using s0(3) by (rule pm_keeps_owner)
  have ext: "pm_owner_of s0 (fst x) \<noteq> Some d" if "x \<in># H" for x using that assms(2) own0 by simp
  have into: "pm_owner_of s0 (l_parent l) = Some d" if "l \<in># pm_live s0" "pm_owner_of s0 (l_child l) = Some d" for l
    using that by (auto simp: own0 s0(4))
  from pm_teardown_effect [OF s0(2) ext into] obtain s1 s2 s3 where
    s3: "pm_unlink_all s0 d = Some s1" "pm_unpin_all s1 d = Some s2" "pm_free_all s2 d = Some s3" "pm_ok H s3"
      "pm_live s3 = filter_mset (\<lambda>l. pm_owner_of s0 (l_parent l) \<noteq> Some d) (pm_live s0)"
      "\<forall>m. pm_owner_of s3 m = (if pm_owner_of s0 m = Some d then None else pm_owner_of s0 m)" by blast
  have "l \<in># pm_live s3 \<longleftrightarrow> l \<in># pm_live s \<and> pm_owner_of s (l_parent l) \<noteq> Some d \<and> pm_owner_of s (l_child l) \<noteq> Some d" for l
    by (auto simp: s3(5) s0(4) own0)
  then have "(p, k, c, w, lf, x) \<in> set (pm_link_edges s3) \<longleftrightarrow>
      (p, k, c, w, lf, x) \<in> set (pm_link_edges s) \<and> pm_owner_of s p \<noteq> Some d \<and> pm_owner_of s c \<noteq> Some d" for p k c w lf x
    unfolding pm_link_edges_iff by blast
  then have edges: "\<forall>e. e \<in> set (pm_link_edges s3) \<longleftrightarrow> (case e of (p, k, c, w, lf, x) \<Rightarrow>
       e \<in> set (pm_link_edges s) \<and> pm_owner_of s p \<noteq> Some d \<and> pm_owner_of s c \<noteq> Some d)"
    by (simp add: split_paired_All)
  show ?thesis
    using s0(1) s3(1-3) s3(6) [unfolded own0] pm_ok_no_violation [OF s3(4)] edges by blast
qed

theorem p2m_teardown_clears_witness:
  "\<exists>s s0 s1 s2 s3. pm_owner_of s 1 = Some 0 \<and> pm_unlink_all_into s 0 = Some s0 \<and> pm_unlink_all s0 0 = Some s1 \<and>
    pm_unpin_all s1 0 = Some s2 \<and> pm_free_all s2 0 = Some s3 \<and> pm_owner_of s3 1 = None"
proof -
  let ?r = "fold (\<lambda>a Hs. pm_step Hs a) [PmAllocate 0 0, PmAllocate 0 1, PmPin 0 0 L1, PmLink 0 0 3 1 True True False]
    ({#}, pm_new 1 2)"
  have "case ?r of (H, s) \<Rightarrow> pm_ok H s" by (intro pmm.run_inv) (simp add: pm_new_ok)
  moreover have "fst ?r = {#}" "pm_owner_of (snd ?r) 1 = Some 0" by code_simp+
  ultimately have ok: "pm_ok {#} (snd ?r)" and o: "pm_owner_of (snd ?r) 1 = Some 0" by (auto simp: split_beta)
  have ext: "\<forall>x \<in># {#}. pm_owner_of (snd ?r) (fst x) \<noteq> Some 0" by simp
  from p2m_teardown_clears [OF ok ext] obtain s0 s1 s2 s3 where
    "pm_unlink_all_into (snd ?r) 0 = Some s0" "pm_unlink_all s0 0 = Some s1" "pm_unpin_all s1 0 = Some s2"
    "pm_free_all s2 0 = Some s3" and
    own: "\<forall>m. pm_owner_of s3 m = (if pm_owner_of (snd ?r) m = Some 0 then None else pm_owner_of (snd ?r) m)" by blast
  moreover have "pm_owner_of s3 1 = None" using own [rule_format, of 1] o by simp
  ultimately show ?thesis using o by blast
qed

end
