(* ===== verification/Device.thy ===== *)
theory Device
  imports HV_Prelude
begin

text \<open>
  Device assignment, \<open>hv-core/src/device.rs\<close>: which domain holds each bus master. The table is
  shown to implement a partial function from devices to domains that only grows by assignment to
  a free device and only shrinks by release.
\<close>

datatype DeviceError = BadDevice | BadDomain | Busy | NotAssigned

record DeviceSystem =
  assign :: "DomId option list"
  dv_num_domains :: nat

definition dv_new :: "nat \<Rightarrow> nat \<Rightarrow> DeviceSystem" where
  "dv_new num_domains num_devices = \<lparr>assign = replicate num_devices None, dv_num_domains = num_domains\<rparr>"

definition dv_assign ::
  "DeviceSystem \<Rightarrow> DevId \<Rightarrow> DomId \<Rightarrow> (unit, DeviceError) result \<times> DeviceSystem" where
  "dv_assign s dev to =
     (if dv_num_domains s \<le> to then (Err BadDomain, s)
      else
        propagate (ok_or (vec_get (assign s) dev) BadDevice) s (\<lambda>slot.
        case slot of
          None \<Rightarrow> (Ok (), s\<lparr>assign := (assign s)[dev := Some to]\<rparr>)
        | Some h \<Rightarrow> if h = to then (Ok (), s) else (Err Busy, s)))"

definition dv_release ::
  "DeviceSystem \<Rightarrow> DevId \<Rightarrow> DomId \<Rightarrow> (unit, DeviceError) result \<times> DeviceSystem" where
  "dv_release s dev from =
     (if dv_num_domains s \<le> from then (Err BadDomain, s)
      else
        propagate (ok_or (vec_get (assign s) dev) BadDevice) s (\<lambda>slot.
        if slot \<noteq> Some from then (Err NotAssigned, s)
        else (Ok (), s\<lparr>assign := (assign s)[dev := None]\<rparr>)))"

definition dv_release_all_of :: "DeviceSystem \<Rightarrow> DomId \<Rightarrow> DeviceSystem" where
  "dv_release_all_of s holder =
     s\<lparr>assign := map (\<lambda>slot. if slot = Some holder then None else slot) (assign s)\<rparr>"

definition dv_holder_of :: "DeviceSystem \<Rightarrow> DevId \<Rightarrow> DomId option" where
  "dv_holder_of s dev = Option.bind (vec_get (assign s) dev) id"

definition dv_any_device_of :: "DeviceSystem \<Rightarrow> DomId \<Rightarrow> bool" where
  "dv_any_device_of s holder \<longleftrightarrow> Some holder \<in> set (assign s)"

definition dv_device_count :: "DeviceSystem \<Rightarrow> nat" where
  "dv_device_count s = length (assign s)"

definition dv_domain_count :: "DeviceSystem \<Rightarrow> nat" where
  "dv_domain_count s = dv_num_domains s"

definition dv_assigned_count :: "DeviceSystem \<Rightarrow> nat" where
  "dv_assigned_count s = length (filter (\<lambda>a. a \<noteq> None) (assign s))"

section \<open>Lemmas\<close>

lemma dv_holder_of_iff: "dv_holder_of s dev = Some d \<longleftrightarrow> dev < length (assign s) \<and> assign s ! dev = Some d"
  by (auto simp: dv_holder_of_def vec_get_def Option.bind_eq_Some_conv)

lemma dv_any_device_iff: "dv_any_device_of s d \<longleftrightarrow> (\<exists>dev. dv_holder_of s dev = Some d)"
  by (auto simp: dv_any_device_of_def dv_holder_of_iff in_set_conv_nth)

text \<open>Every holder is a domain of the system.\<close>

definition dv_ok :: "DeviceSystem \<Rightarrow> bool" where
  "dv_ok s \<longleftrightarrow> (\<forall>dev d. dv_holder_of s dev = Some d \<longrightarrow> d < dv_num_domains s)"

lemma dv_new_holder [simp]: "dv_holder_of (dv_new n k) dev = None"
  by (simp add: dv_holder_of_def dv_new_def vec_get_def)

lemma dv_new_ok: "dv_ok (dv_new n k)"
  by (simp add: dv_ok_def)

lemma dv_holder_update:
  "dv_holder_of (s\<lparr>assign := (assign s)[dev := x]\<rparr>) dev' =
     (if dev' = dev \<and> dev < length (assign s) then x else dv_holder_of s dev')"
  by (auto simp: dv_holder_of_def vec_get_update)

lemma dv_assign_cases:
  "dv_assign s dev to =
     (if to < dv_num_domains s \<and> dev < length (assign s) then
        (case dv_holder_of s dev of
           None \<Rightarrow> (Ok (), s\<lparr>assign := (assign s)[dev := Some to]\<rparr>)
         | Some h \<Rightarrow> if h = to then (Ok (), s) else (Err Busy, s))
      else (Err (if to < dv_num_domains s then BadDevice else BadDomain), s))"
  by (auto simp: dv_assign_def dv_holder_of_def vec_get_def split: option.splits)

lemma dv_release_cases:
  "dv_release s dev from =
     (if from < dv_num_domains s \<and> dev < length (assign s) then
        if dv_holder_of s dev = Some from then (Ok (), s\<lparr>assign := (assign s)[dev := None]\<rparr>)
        else (Err NotAssigned, s)
      else (Err (if from < dv_num_domains s then BadDevice else BadDomain), s))"
  by (auto simp: dv_release_def dv_holder_of_def vec_get_def split: option.splits)

lemma dv_assign_wb: "dv_ok s \<Longrightarrow> well_behaved dv_ok s (dv_assign s dev to)"
  by (auto simp: dv_assign_cases dv_ok_def well_behaved_def dv_holder_update split: option.splits)

lemma dv_release_wb: "dv_ok s \<Longrightarrow> well_behaved dv_ok s (dv_release s dev from)"
  by (auto simp: dv_release_cases dv_ok_def well_behaved_def dv_holder_update)

lemma dv_release_all_holder:
  "dv_holder_of (dv_release_all_of s d) dev = (if dv_holder_of s dev = Some d then None else dv_holder_of s dev)"
  by (auto simp: dv_holder_of_def dv_release_all_of_def vec_get_def)

lemma dv_release_all_ok: "dv_ok s \<Longrightarrow> dv_ok (dv_release_all_of s d)"
  by (simp add: dv_ok_def dv_release_all_holder) (simp add: dv_release_all_of_def)

lemma dv_shape [shape_simps, simp]:
  "dv_num_domains (snd (dv_assign s dev to)) = dv_num_domains s"
  "dv_num_domains (snd (dv_release s dev to)) = dv_num_domains s"
  "dv_num_domains (dv_release_all_of s d) = dv_num_domains s"
  by (auto simp: dv_assign_cases dv_release_cases dv_release_all_of_def split: option.splits)

section \<open>Properties\<close>

text \<open>
  The assignment table implements a partial function from devices to domains. An accepted
  assignment of an in-range device adds exactly one pair and is accepted exactly when the device
  is free or already the target's; an accepted release removes exactly one pair and is accepted
  exactly when the named domain holds the device; a refusal changes nothing; the teardown sweep
  removes exactly the pairs of the holder.
\<close>

theorem device_refines_map:
  "(is_Ok (fst (dv_assign s dev to)) \<longleftrightarrow>
      to < dv_domain_count s \<and> dev < dv_device_count s \<and> dv_holder_of s dev \<in> {None, Some to}) \<and>
   dv_holder_of (snd (dv_assign s dev to)) =
      (if is_Ok (fst (dv_assign s dev to)) then (dv_holder_of s)(dev \<mapsto> to) else dv_holder_of s) \<and>
   (is_Ok (fst (dv_release s dev to)) \<longleftrightarrow> to < dv_domain_count s \<and> dv_holder_of s dev = Some to) \<and>
   dv_holder_of (snd (dv_release s dev to)) =
      (if is_Ok (fst (dv_release s dev to)) then (dv_holder_of s)(dev := None) else dv_holder_of s) \<and>
   dv_holder_of (dv_release_all_of s to) = dv_holder_of s |` {d. dv_holder_of s d \<noteq> Some to} \<and>
   \<not> dv_any_device_of (dv_release_all_of s to) to"
proof -
  have "dv_holder_of s dev = Some to \<Longrightarrow> dev < length (assign s)" by (simp add: dv_holder_of_iff)
  then show ?thesis
    by (auto simp: dv_assign_cases dv_release_cases dv_holder_update dv_release_all_holder restrict_map_def
        dv_any_device_iff dv_domain_count_def dv_device_count_def fun_eq_iff split: option.splits)
qed

end
