(* ===== verification/Credit.thy ===== *)
theory Credit
  imports HV_Prelude
begin

text \<open>
  A domain's credit account and the decoding of its raw calls, \<open>hv-core/src/lib.rs\<close>. Balances
  and totals are 64-bit words, amounts 32-bit words; the additions are the checked ones of the
  source.
\<close>

datatype HError = BadHypercall | Overflow | Insufficient

record RawHypercall =
  nr :: "32 word"
  arg0 :: "64 word"

definition NR_GRANT :: "32 word" where "NR_GRANT = 0"
definition NR_SPEND :: "32 word" where "NR_SPEND = 1"

datatype Hypercall = CrGrant "32 word" | CrSpend "32 word"

definition try_u32 :: "64 word \<Rightarrow> 32 word option" where
  "try_u32 w = (if unat w < u32_size then Some (ucast w) else None)"

definition decode :: "RawHypercall \<Rightarrow> (Hypercall, HError) result" where
  "decode raw =
     (case try_u32 (arg0 raw) of
        None \<Rightarrow> Err BadHypercall
      | Some amount \<Rightarrow>
          if nr raw = NR_GRANT then Ok (CrGrant amount)
          else if nr raw = NR_SPEND then Ok (CrSpend amount)
          else Err BadHypercall)"

record HvCore =
  balance :: "64 word"
  granted :: "64 word"
  spent :: "64 word"

definition cr_new :: HvCore where
  "cr_new = \<lparr>balance = 0, granted = 0, spent = 0\<rparr>"

definition checked_add_u64 :: "64 word \<Rightarrow> 64 word \<Rightarrow> 64 word option" where
  "checked_add_u64 a b = (if unat a + unat b \<le> u64_max then Some (a + b) else None)"

definition cr_grant_credit :: "HvCore \<Rightarrow> 32 word \<Rightarrow> (64 word, HError) result \<times> HvCore" where
  "cr_grant_credit s amount =
     (let amount = ucast amount in
      propagate (ok_or (checked_add_u64 (balance s) amount) Overflow) s (\<lambda>new_balance.
      propagate (ok_or (checked_add_u64 (granted s) amount) Overflow) s (\<lambda>new_granted.
      let s' = s\<lparr>balance := new_balance, granted := new_granted\<rparr> in
      (Ok (balance s'), s'))))"

definition cr_spend_credit :: "HvCore \<Rightarrow> 32 word \<Rightarrow> (64 word, HError) result \<times> HvCore" where
  "cr_spend_credit s amount =
     (let amount = ucast amount in
      if amount > balance s then (Err Insufficient, s)
      else
        propagate (ok_or (checked_add_u64 (spent s) amount) Overflow) s (\<lambda>new_spent.
        let s' = s\<lparr>balance := balance s - amount, spent := new_spent\<rparr> in
        (Ok (balance s'), s')))"

definition cr_invariants_hold :: "HvCore \<Rightarrow> bool" where
  "cr_invariants_hold s \<longleftrightarrow> granted s = spent s + balance s"

definition cr_dispatch :: "HvCore \<Rightarrow> Hypercall \<Rightarrow> (64 word, HError) result \<times> HvCore" where
  "cr_dispatch s call =
     (case call of
        CrGrant amount \<Rightarrow> cr_grant_credit s amount
      | CrSpend amount \<Rightarrow> cr_spend_credit s amount)"

section \<open>Conservation\<close>

text \<open>The conservation law on the natural numbers: the sum never wraps.\<close>

definition cr_inv :: "HvCore \<Rightarrow> bool" where
  "cr_inv s \<longleftrightarrow> unat (granted s) = unat (spent s) + unat (balance s)"

lemma cr_inv_new: "cr_inv cr_new"
  by (simp add: cr_inv_def cr_new_def)

lemma unat_u64: "unat (a :: 64 word) \<le> u64_max"
  using unsigned_less [of a, where 'a = nat] by simp

lemma unat_plus_u64: "unat a + unat b \<le> u64_max \<Longrightarrow> unat (a + b :: 64 word) = unat a + unat b"
  by (simp add: unat_plus_if_size word_size)

lemma unat_ucast_u32: "unat (ucast (a :: 32 word) :: 64 word) = unat a"
proof -
  have "unat a < 2 ^ 32" using unsigned_less [of a, where 'a = nat] by simp
  then have "unat a < 2 ^ 64" by simp
  then show ?thesis by (simp add: unsigned_ucast_eq take_bit_nat_eq_self)
qed

lemma checked_add_u64_Some:
  "checked_add_u64 a b = Some c \<longleftrightarrow> unat a + unat b \<le> u64_max \<and> c = a + b"
  by (auto simp: checked_add_u64_def)

lemma cr_inv_implies_check: "cr_inv s \<Longrightarrow> cr_invariants_hold s"
proof -
  assume "cr_inv s"
  then have "unat (granted s) = unat (spent s + balance s)"
    using unat_u64 [of "granted s"] by (simp add: cr_inv_def unat_plus_u64)
  then show ?thesis by (simp add: cr_invariants_hold_def word_unat_eq_iff)
qed

lemma cr_grant_wb: "cr_inv s \<Longrightarrow> well_behaved cr_inv s (cr_grant_credit s a)"
  unfolding cr_grant_credit_def Let_def
  by (intro wb_intros) (auto simp: checked_add_u64_Some cr_inv_def unat_plus_u64)

lemma cr_spend_wb: "cr_inv s \<Longrightarrow> well_behaved cr_inv s (cr_spend_credit s a)"
  unfolding cr_spend_credit_def Let_def
  by (intro wb_intros)
    (auto simp: checked_add_u64_Some cr_inv_def unat_plus_u64 not_less unat_sub word_le_nat_alt)

lemma cr_dispatch_wb: "cr_inv s \<Longrightarrow> well_behaved cr_inv s (cr_dispatch s c)"
  by (cases c) (auto simp: cr_dispatch_def intro: cr_grant_wb cr_spend_wb)

interpretation crm: refusing_machine "\<lambda>s. s = cr_new" "\<lambda>s c. snd (cr_dispatch s c)" cr_inv
  "\<lambda>s c. is_Ok (fst (cr_dispatch s c))"
proof unfold_locales
  fix s c assume "cr_inv s"
  then have wb: "well_behaved cr_inv s (cr_dispatch s c)" by (rule cr_dispatch_wb)
  then show "cr_inv (snd (cr_dispatch s c))" by (simp add: well_behaved_def)
  assume "\<not> is_Ok (fst (cr_dispatch s c))"
  with wb show "snd (cr_dispatch s c) = s"
    by (cases "fst (cr_dispatch s c)") (auto simp: well_behaved_def)
qed (simp add: cr_inv_new)

section \<open>Properties\<close>

text \<open>
  Whatever sequence of calls is dispatched to a fresh account, credit is conserved without
  any wrap-around: the total granted is the total spent plus the balance, as natural numbers.
  Hence the release-mode check \<open>invariants_hold\<close> holds, and a refused call changes nothing.
\<close>

theorem credit_conserved:
  assumes "s = fold (\<lambda>c s. snd (cr_dispatch s c)) cs cr_new"
  shows "unat (granted s) = unat (spent s) + unat (balance s) \<and> cr_invariants_hold s \<and>
     fst (cr_dispatch s c) \<noteq> Panic \<and> (\<forall>e. fst (cr_dispatch s c) = Err e \<longrightarrow> snd (cr_dispatch s c) = s)"
proof -
  have "cr_inv s" unfolding assms by (intro crm.run_inv cr_inv_new)
  then show ?thesis
    using cr_dispatch_wb cr_inv_implies_check by (fastforce simp: well_behaved_def cr_inv_def)
qed

theorem credit_conserved_witness:
  "\<exists>s. s = fold (\<lambda>c s. snd (cr_dispatch s c)) [CrGrant 10, CrSpend 3, CrSpend 9] cr_new \<and>
     fst (cr_dispatch s (CrSpend 8)) = Err Insufficient \<and> snd (cr_dispatch s (CrSpend 8)) = s"
proof -
  let ?s = "fold (\<lambda>c s. snd (cr_dispatch s c)) [CrGrant 10, CrSpend 3, CrSpend 9] cr_new"
  have "fst (cr_dispatch ?s (CrSpend 8)) = Err Insufficient" by code_simp
  with credit_conserved [of ?s _ "CrSpend 8", OF refl] show ?thesis by blast
qed

text \<open>
  Decoding accepts exactly the two call numbers with an argument that fits 32 bits, and keeps
  the argument's value: nothing is silently truncated.
\<close>

theorem credit_decode_exact:
  "(decode raw = Ok (CrGrant a) \<longleftrightarrow> nr raw = NR_GRANT \<and> unat (arg0 raw) = unat a) \<and>
   (decode raw = Ok (CrSpend a) \<longleftrightarrow> nr raw = NR_SPEND \<and> unat (arg0 raw) = unat a) \<and>
   (decode raw = Err e \<longleftrightarrow>
      e = BadHypercall \<and> (u32_size \<le> unat (arg0 raw) \<or> nr raw \<noteq> NR_GRANT \<and> nr raw \<noteq> NR_SPEND))"
proof -
  have S: "try_u32 w = Some a \<longleftrightarrow> unat w = unat a" for w :: "64 word"
  proof
    assume "try_u32 w = Some a"
    then have *: "unat w < u32_size" "a = ucast w" by (auto simp: try_u32_def split: if_splits)
    have "unat (ucast w :: 32 word) = take_bit 32 (unat w)" by (simp add: unsigned_ucast_eq)
    with * show "unat w = unat a" by (simp add: take_bit_nat_eq_self)
  next
    assume eq: "unat w = unat a"
    have lt: "unat a < u32_size" using unsigned_less [of a, where 'a = nat] by simp
    have "unat (ucast w :: 32 word) = take_bit 32 (unat w)" by (simp add: unsigned_ucast_eq)
    with eq lt have "ucast w = a" by (simp add: take_bit_nat_eq_self word_unat_eq_iff)
    with eq lt show "try_u32 w = Some a" by (simp add: try_u32_def)
  qed
  have "NR_GRANT \<noteq> NR_SPEND" by (simp add: NR_GRANT_def NR_SPEND_def)
  moreover have "try_u32 (arg0 raw) = None \<longleftrightarrow> u32_size \<le> unat (arg0 raw)" by (auto simp: try_u32_def)
  ultimately show ?thesis
    using S [of "arg0 raw"] by (cases "try_u32 (arg0 raw)") (auto simp: decode_def)
qed

end
