(* ===== verification/Prng.thy ===== *)
theory Prng
  imports HV_Prelude
begin

text \<open>
  The deterministic generator, \<open>hv-core/src/prng.rs\<close>: an xorshift64 step on a 64-bit state. The
  step is shown to be injective, so that distinct seeds never fall onto the same stream.
\<close>

unbundle bit_operations_syntax

record Prng =
  prng_state :: "64 word"

definition GOLDEN :: "64 word" where "GOLDEN = 0x9E3779B97F4A7C15"

definition prng_new :: "64 word \<Rightarrow> Prng" where
  "prng_new seed =
     (let mixed = seed XOR GOLDEN in \<lparr>prng_state = (if mixed = 0 then GOLDEN else mixed)\<rparr>)"

definition prng_next_u64 :: "Prng \<Rightarrow> 64 word \<times> Prng" where
  "prng_next_u64 p =
     (let x = prng_state p;
          x = x XOR push_bit 13 x;
          x = x XOR drop_bit 7 x;
          x = x XOR push_bit 17 x
      in (x, p\<lparr>prng_state := x\<rparr>))"

text \<open>\<open>None\<close> is the failed assertion.\<close>

definition prng_below :: "Prng \<Rightarrow> 32 word \<Rightarrow> (32 word \<times> Prng) option" where
  "prng_below p n =
     (if n = 0 then None
      else let (x, p') = prng_next_u64 p in Some (ucast (x mod ucast n), p'))"

fun prng_stream :: "nat \<Rightarrow> Prng \<Rightarrow> 64 word list" where
  "prng_stream 0 p = []"
| "prng_stream (Suc k) p = (let (x, p') = prng_next_u64 p in x # prng_stream k p')"

section \<open>The step is a bijection on states\<close>

lemma xor_0_iff: "x XOR y = 0 \<longleftrightarrow> x = (y :: 'a::len word)"
  by (metis xor.assoc xor_self_eq xor.left_neutral xor.right_neutral)

lemma xor_push_bit_eq_0:
  fixes d :: "'a::len word"
  assumes "d XOR push_bit k d = 0" and "0 < k"
  shows "d = 0"
proof (rule bit_word_eqI)
  fix n
  have eq: "d = push_bit k d" using assms(1) by (simp add: xor_0_iff)
  have "\<not> bit d n"
  proof (induction n rule: less_induct)
    case (less n)
    show ?case
    proof
      assume "bit d n"
      then have "bit (push_bit k d) n" using eq by simp
      then have "k \<le> n" "bit d (n - k)" by (auto simp: bit_push_bit_iff)
      with less [of "n - k"] assms(2) show False by simp
    qed
  qed
  then show "bit d n = bit 0 n" by simp
qed

lemma xor_drop_bit_eq_0:
  fixes d :: "'a::len word"
  assumes "d XOR drop_bit k d = 0" and "0 < k"
  shows "d = 0"
proof (rule bit_word_eqI)
  fix n
  have eq: "d = drop_bit k d" using assms(1) by (simp add: xor_0_iff)
  have "\<not> bit d n"
  proof (induction "LENGTH('a) - n" arbitrary: n rule: less_induct)
    case (less n)
    show ?case
    proof
      assume b: "bit d n"
      then have "n < LENGTH('a)" by (rule bit_imp_le_length)
      moreover have "bit d (k + n)" using b eq by (metis bit_drop_bit_eq comp_def)
      ultimately show False using less [of "k + n"] assms(2) by simp
    qed
  qed
  then show "bit d n = bit 0 n" by simp
qed

lemma xor_shift_inj:
  fixes x y :: "64 word"
  shows "0 < k \<Longrightarrow> x XOR push_bit k x = y XOR push_bit k y \<Longrightarrow> x = y"
    and "0 < k \<Longrightarrow> x XOR drop_bit k x = y XOR drop_bit k y \<Longrightarrow> x = y"
proof -
  assume k: "0 < k"
  have z: "x = y" if "x XOR y = 0" using that by (simp add: xor_0_iff)
  show "x = y" if "x XOR push_bit k x = y XOR push_bit k y"
  proof -
    have "(x XOR y) XOR push_bit k (x XOR y) = (x XOR push_bit k x) XOR (y XOR push_bit k y)"
      by (simp add: push_bit_xor ac_simps)
    then show ?thesis using that xor_push_bit_eq_0 [OF _ k, of "x XOR y"] z by simp
  qed
  show "x = y" if "x XOR drop_bit k x = y XOR drop_bit k y"
  proof -
    have "(x XOR y) XOR drop_bit k (x XOR y) = (x XOR drop_bit k x) XOR (y XOR drop_bit k y)"
      by (simp add: drop_bit_xor ac_simps)
    then show ?thesis using that xor_drop_bit_eq_0 [OF _ k, of "x XOR y"] z by simp
  qed
qed

lemma prng_next_out: "fst (prng_next_u64 p) = prng_state (snd (prng_next_u64 p))"
  by (simp add: prng_next_u64_def Let_def)

lemma prng_next_inj:
  assumes "fst (prng_next_u64 p) = fst (prng_next_u64 q)" shows "p = q"
proof -
  have "prng_state p = prng_state q"
    using assms unfolding prng_next_u64_def Let_def fst_conv
    by (blast dest: xor_shift_inj [where k = 13, simplified] xor_shift_inj [where k = 7, simplified]
        xor_shift_inj [where k = 17, simplified])
  then show ?thesis by simp
qed

lemma prng_next_nonzero:
  assumes "prng_state p \<noteq> 0" shows "fst (prng_next_u64 p) \<noteq> 0"
proof
  have z: "fst (prng_next_u64 \<lparr>prng_state = 0\<rparr>) = 0" by (simp add: prng_next_u64_def)
  assume "fst (prng_next_u64 p) = 0"
  then have "p = \<lparr>prng_state = 0\<rparr>" by (intro prng_next_inj) (simp add: z)
  then show False using assms by simp
qed

lemma prng_stream_nonzero: "prng_state p \<noteq> 0 \<Longrightarrow> 0 \<notin> set (prng_stream k p)"
proof (induction k arbitrary: p)
  case (Suc k)
  then show ?case using prng_next_nonzero [of p] prng_next_out [of p]
    by (auto simp: split_beta Let_def)
qed simp

lemma prng_stream_distinct:
  assumes "p \<noteq> q" "i < k"
  shows "prng_stream k p ! i \<noteq> prng_stream k q ! i"
  using assms
proof (induction k arbitrary: p q i)
  case (Suc k)
  have "fst (prng_next_u64 p) \<noteq> fst (prng_next_u64 q)" using Suc.prems(1) prng_next_inj by blast
  moreover from this have "snd (prng_next_u64 p) \<noteq> snd (prng_next_u64 q)" using prng_next_out by metis
  ultimately show ?case using Suc by (cases i) (auto simp: split_beta Let_def)
qed simp

lemma prng_new_inj: "a \<noteq> b \<Longrightarrow> a \<noteq> GOLDEN \<Longrightarrow> b \<noteq> GOLDEN \<Longrightarrow> prng_new a \<noteq> prng_new b"
  by (auto simp: prng_new_def Let_def xor_0_iff xor.assoc
      dest: arg_cong [where f = "\<lambda>w. w XOR GOLDEN"])

section \<open>Properties\<close>

text \<open>
  Distinct seeds give streams that differ at every position, whatever their length, except
  that the seed \<open>GOLDEN\<close> shares the state of seed 0; and no stream ever contains 0, so a
  generator is never stuck.
\<close>

theorem prng_seeds_distinct:
  "(a \<noteq> b \<and> a \<noteq> GOLDEN \<and> b \<noteq> GOLDEN \<longrightarrow>
      (\<forall>i < k. prng_stream k (prng_new a) ! i \<noteq> prng_stream k (prng_new b) ! i)) \<and>
   prng_new GOLDEN = prng_new 0 \<and> 0 \<notin> set (prng_stream k (prng_new a))"
proof -
  have "prng_state (prng_new a) \<noteq> 0" by (simp add: prng_new_def Let_def GOLDEN_def)
  then have "0 \<notin> set (prng_stream k (prng_new a))" by (rule prng_stream_nonzero)
  moreover have "prng_new GOLDEN = prng_new 0" by (simp add: prng_new_def GOLDEN_def)
  ultimately show ?thesis using prng_new_inj prng_stream_distinct by blast
qed

theorem prng_seeds_distinct_witness:
  "prng_stream 3 (prng_new 4) ! 2 \<noteq> prng_stream 3 (prng_new 5) ! 2"
proof -
  have "(4::64 word) \<noteq> 5" "4 \<noteq> GOLDEN" "5 \<noteq> GOLDEN" by (simp_all add: GOLDEN_def)
  with prng_seeds_distinct [of 4 5 3] show ?thesis by simp
qed

text \<open>
  \<open>below\<close> panics exactly on 0, and otherwise returns a value below its argument.
\<close>

theorem prng_below_range:
  "(prng_below p n = None \<longleftrightarrow> n = 0) \<and>
   (\<forall>x p'. prng_below p n = Some (x, p') \<longrightarrow> x < n \<and> unat x = unat (fst (prng_next_u64 p)) mod unat n)"
proof -
  have "x < n \<and> unat x = unat (fst (prng_next_u64 p)) mod unat n"
    if "prng_below p n = Some (x, p')" for x p'
  proof -
    let ?y = "fst (prng_next_u64 p)"
    from that have n: "n \<noteq> 0" and x: "x = ucast (?y mod ucast n)"
      by (auto simp: prng_below_def split_beta split: if_splits)
    have un: "unat (ucast n :: 64 word) = unat n"
    proof -
      have "unat n < 2 ^ 32" using unsigned_less [of n, where 'a = nat] by simp
      then have "unat n < 2 ^ 64" by simp
      then show ?thesis by (simp add: unsigned_ucast_eq take_bit_nat_eq_self)
    qed
    have lt: "unat ?y mod unat n < unat n" using n by (simp add: unat_gt_0)
    moreover have "unat n < 2 ^ 32" using unsigned_less [of n, where 'a = nat] by simp
    ultimately have "unat ?y mod unat n < 2 ^ 32" by (rule order.strict_trans)
    moreover have "unat (?y mod ucast n) = unat ?y mod unat n" by (simp only: unat_mod un)
    ultimately have "unat x = unat ?y mod unat n"
      by (simp add: x unsigned_ucast_eq [where 'b = 64] take_bit_nat_eq_self)
    with lt show ?thesis by (simp add: word_less_nat_alt)
  qed
  then show ?thesis by (auto simp: prng_below_def split_beta)
qed

theorem prng_below_range_witness: "\<exists>x p'. prng_below (prng_new 7) 10 = Some (x, p') \<and> x < 10"
proof -
  have "prng_below (prng_new 7) 10 \<noteq> None" using prng_below_range [of "prng_new 7" 10] by simp
  then obtain x p' where "prng_below (prng_new 7) 10 = Some (x, p')" by auto
  with prng_below_range [of "prng_new 7" 10] show ?thesis by blast
qed

end
