(* ===== verification/Policy.thy ===== *)
theory Policy
  imports Sched
begin

text \<open>
  The scheduling policy, \<open>hv-core/src/policy.rs\<close>: which runnable vCPU gets which physical CPU.
  The policy reads the mechanism of theory \<open>Sched\<close> and changes it only through its transitions.
  Shares are compared by cross-multiplication in 128 bits; the sum of a service wraps there and the
  products saturate, as in a release build.
\<close>

section \<open>State\<close>

definition MIN_WEIGHT :: nat where "MIN_WEIGHT = 1"

datatype Decision = Run DomId Vcpu Pcpu | Preempt DomId Vcpu Pcpu | Idle

record Scheduler =
  weights :: "nat list list"
  quantum :: Ticks
  offset :: "nat list list"
  was_schedulable :: "bool list list"
  wake_boost :: bool

record Share =
  service :: nat
  weight :: nat

definition po_new :: "nat \<Rightarrow> nat \<Rightarrow> Ticks \<Rightarrow> Scheduler" where
  "po_new num_domains vcpus_per_domain q =
     \<lparr>weights = map (\<lambda>_. replicate vcpus_per_domain MIN_WEIGHT) [0..<num_domains],
      quantum = q,
      offset = map (\<lambda>_. replicate vcpus_per_domain 0) [0..<num_domains],
      was_schedulable = map (\<lambda>_. replicate vcpus_per_domain False) [0..<num_domains],
      wake_boost = True\<rparr>"

definition po_set_wake_boost :: "Scheduler \<Rightarrow> bool \<Rightarrow> Scheduler" where
  "po_set_wake_boost p enabled = p\<lparr>wake_boost := enabled, offset := map (map (\<lambda>_. 0)) (offset p)\<rparr>"

text \<open>A write through \<open>get_mut\<close>: ignored when out of range.\<close>

definition tbl_put :: "'a list list \<Rightarrow> nat \<Rightarrow> nat \<Rightarrow> 'a \<Rightarrow> 'a list list" where
  "tbl_put t i j v = (if tbl_get t i j = None then t else tbl_set t i j v)"

definition tbl_or :: "'a list list \<Rightarrow> 'a \<Rightarrow> nat \<Rightarrow> nat \<Rightarrow> 'a" where
  "tbl_or t z i j = (case tbl_get t i j of None \<Rightarrow> z | Some v \<Rightarrow> v)"

definition po_set_weight :: "Scheduler \<Rightarrow> DomId \<Rightarrow> Vcpu \<Rightarrow> nat \<Rightarrow> Scheduler" where
  "po_set_weight p d v w = p\<lparr>weights := tbl_put (weights p) d v (max w MIN_WEIGHT)\<rparr>"

definition po_weight_of :: "Scheduler \<Rightarrow> DomId \<Rightarrow> Vcpu \<Rightarrow> nat" where
  "po_weight_of p d v = max (tbl_or (weights p) MIN_WEIGHT d v) MIN_WEIGHT"

definition po_quantum :: "Scheduler \<Rightarrow> Ticks" where
  "po_quantum p = quantum p"

definition po_offset_of :: "Scheduler \<Rightarrow> DomId \<Rightarrow> Vcpu \<Rightarrow> nat" where
  "po_offset_of p d v = tbl_or (offset p) 0 d v"

definition po_set_offset :: "Scheduler \<Rightarrow> DomId \<Rightarrow> Vcpu \<Rightarrow> nat \<Rightarrow> Scheduler" where
  "po_set_offset p d v x = p\<lparr>offset := tbl_put (offset p) d v x\<rparr>"

definition po_was_schedulable :: "Scheduler \<Rightarrow> DomId \<Rightarrow> Vcpu \<Rightarrow> bool" where
  "po_was_schedulable p d v = tbl_or (was_schedulable p) False d v"

definition po_set_was_schedulable :: "Scheduler \<Rightarrow> DomId \<Rightarrow> Vcpu \<Rightarrow> bool \<Rightarrow> Scheduler" where
  "po_set_was_schedulable p d v b = p\<lparr>was_schedulable := tbl_put (was_schedulable p) d v b\<rparr>"

section \<open>Shares\<close>

definition schedulable :: "SchedSystem \<Rightarrow> DomId \<Rightarrow> Vcpu \<Rightarrow> bool" where
  "schedulable s d v =
     (case sc_state_of s d v of Some Runnable \<Rightarrow> True | Some (Running _) \<Rightarrow> True | _ \<Rightarrow> False)"

definition more_deserving :: "Share \<Rightarrow> Share \<Rightarrow> bool" where
  "more_deserving a b \<longleftrightarrow> sat_mul_u128 (service a) (weight b) < sat_mul_u128 (service b) (weight a)"

definition or_zero :: "nat option \<Rightarrow> nat" where
  "or_zero x = (case x of None \<Rightarrow> 0 | Some n \<Rightarrow> n)"

definition po_share :: "Scheduler \<Rightarrow> SchedSystem \<Rightarrow> DomId \<Rightarrow> Vcpu \<Rightarrow> Ticks \<Rightarrow> Share" where
  "po_share p s d v now =
     (let closed = or_zero (sc_runtime s d v);
          in_flight = (case sc_on_cpu_since s d v of Some since \<Rightarrow> now - since | None \<Rightarrow> 0)
      in \<lparr>service = (closed + in_flight + po_offset_of p d v) mod (u128_max + 1),
          weight = po_weight_of p d v\<rparr>)"

text \<open>
  The double loop over domains and vCPUs, in its order, and the running choice the loops keep: a
  candidate replaces the choice so far when there is none or when it is strictly better.
\<close>

definition all_vcpus :: "SchedSystem \<Rightarrow> (DomId \<times> Vcpu) list" where
  "all_vcpus s =
     concat (map (\<lambda>d. map (Pair d) [0..<as_u32 (sc_vcpu_count s d)]) [0..<as_u16 (sc_domain_count s)])"

definition keep_best ::
  "('k \<Rightarrow> 'k \<Rightarrow> bool) \<Rightarrow> ('x \<Rightarrow> ('y \<times> 'k) option) \<Rightarrow> 'x list \<Rightarrow> ('y \<times> 'k) option" where
  "keep_best better cand xs =
     fold (\<lambda>x best.
       case cand x of
         None \<Rightarrow> best
       | Some (y, k) \<Rightarrow>
           if (case best of None \<Rightarrow> True | Some (_, b) \<Rightarrow> better k b) then Some (y, k) else best) xs None"

definition po_first_idle_pcpu_for :: "SchedSystem \<Rightarrow> DomId \<Rightarrow> Vcpu \<Rightarrow> Pcpu option" where
  "po_first_idle_pcpu_for s d v =
     find (\<lambda>q. sc_occupant s q = None \<and> sc_affinity_permits s d v q) [0..<as_u32 (sc_pcpu_count s)]"

definition placement :: "Scheduler \<Rightarrow> SchedSystem \<Rightarrow> Ticks \<Rightarrow> DomId \<times> Vcpu \<Rightarrow> ((DomId \<times> Vcpu \<times> Pcpu) \<times> Share) option" where
  "placement p s now = (\<lambda>(d, v).
     if sc_state_of s d v \<noteq> Some Runnable then None
     else map_option (\<lambda>q. ((d, v, q), po_share p s d v now)) (po_first_idle_pcpu_for s d v))"

definition po_best_placement :: "Scheduler \<Rightarrow> SchedSystem \<Rightarrow> Ticks \<Rightarrow> (DomId \<times> Vcpu \<times> Pcpu) option" where
  "po_best_placement p s now = map_option fst (keep_best more_deserving (placement p s now) (all_vcpus s))"

definition po_some_affine_waiter_beats :: "Scheduler \<Rightarrow> SchedSystem \<Rightarrow> Pcpu \<Rightarrow> Share \<Rightarrow> Ticks \<Rightarrow> bool" where
  "po_some_affine_waiter_beats p s q runner now =
     list_ex (\<lambda>(d, v). sc_state_of s d v = Some Runnable \<and> sc_affinity_permits s d v q \<and>
        more_deserving (po_share p s d v now) runner) (all_vcpus s)"

definition eviction :: "Scheduler \<Rightarrow> SchedSystem \<Rightarrow> Ticks \<Rightarrow> DomId \<times> Vcpu \<Rightarrow> ((DomId \<times> Vcpu \<times> Pcpu) \<times> Share) option" where
  "eviction p s now = (\<lambda>(d, v).
     case sc_state_of s d v of
       Some (Running q) \<Rightarrow>
         (let since = (case sc_on_cpu_since s d v of Some t \<Rightarrow> t | None \<Rightarrow> now);
              sh = po_share p s d v now
          in if now - since < quantum p then None
             else if \<not> po_some_affine_waiter_beats p s q sh now then None
             else Some ((d, v, q), sh))
     | _ \<Rightarrow> None)"

definition po_best_preemption :: "Scheduler \<Rightarrow> SchedSystem \<Rightarrow> Ticks \<Rightarrow> (DomId \<times> Vcpu \<times> Pcpu) option" where
  "po_best_preemption p s now =
     map_option fst (keep_best (\<lambda>k b. more_deserving b k) (eviction p s now) (all_vcpus s))"

definition po_next :: "Scheduler \<Rightarrow> SchedSystem \<Rightarrow> Ticks \<Rightarrow> Decision" where
  "po_next p s now =
     (case po_best_placement p s now of
        Some (d, v, q) \<Rightarrow> Run d v q
      | None \<Rightarrow>
          (case po_best_preemption p s now of
             Some (d, v, q) \<Rightarrow> Preempt d v q
           | None \<Rightarrow> Idle))"

section \<open>Wake accounting and the driver\<close>

definition po_floor :: "Scheduler \<Rightarrow> SchedSystem \<Rightarrow> Ticks \<Rightarrow> Share option" where
  "po_floor p s now =
     map_option snd (keep_best more_deserving
       (\<lambda>(d, v). if schedulable s d v \<and> po_was_schedulable p d v then Some ((), po_share p s d v now) else None)
       (all_vcpus s))"

definition po_account_one :: "SchedSystem \<Rightarrow> Share option \<Rightarrow> DomId \<times> Vcpu \<Rightarrow> Scheduler \<Rightarrow> Scheduler" where
  "po_account_one s floor' = (\<lambda>(d, v) p.
     let now_sched = schedulable s d v;
         woke = now_sched \<and> \<not> po_was_schedulable p d v;
         p1 = (if woke \<and> wake_boost p then
                 (case floor' of
                    Some f \<Rightarrow>
                      po_set_offset p d v
                        (sat_mul_u128 (service f) (po_weight_of p d v) div weight f - or_zero (sc_runtime s d v))
                  | None \<Rightarrow> p)
               else p)
     in po_set_was_schedulable p1 d v now_sched)"

definition po_account :: "Scheduler \<Rightarrow> SchedSystem \<Rightarrow> Ticks \<Rightarrow> Scheduler" where
  "po_account p s now = fold (po_account_one s (po_floor p s now)) (all_vcpus s) p"

text \<open>The bounded loop of \<open>advance\<close>; \<open>None\<close> is a panic inside a transition.\<close>

fun po_drive :: "Scheduler \<Rightarrow> Ticks \<Rightarrow> nat \<Rightarrow> nat \<Rightarrow> SchedSystem \<Rightarrow> (nat \<times> SchedSystem) option" where
  "po_drive p now 0 enacted s = Some (enacted, s)"
| "po_drive p now (Suc k) enacted s =
     (case po_next p s now of
        Run d v q \<Rightarrow>
          (case sc_run s d v q now of
             (Ok _, s1) \<Rightarrow> po_drive p now k (enacted + 1) s1
           | (Err _, s1) \<Rightarrow> Some (enacted, s1)
           | (Panic, _) \<Rightarrow> None)
      | Preempt d v _ \<Rightarrow>
          (case sc_preempt s d v now of
             (Ok _, s1) \<Rightarrow> po_drive p now k (enacted + 1) s1
           | (Err _, s1) \<Rightarrow> Some (enacted, s1)
           | (Panic, _) \<Rightarrow> None)
      | Idle \<Rightarrow> Some (enacted, s))"

definition po_limit :: "SchedSystem \<Rightarrow> nat" where
  "po_limit s = as_u32 (sum_list (map (sc_vcpu_count s) [0..<as_u16 (sc_domain_count s)]) + 2 * sc_pcpu_count s + 1)"

definition po_advance :: "Scheduler \<Rightarrow> SchedSystem \<Rightarrow> Ticks \<Rightarrow> (nat \<times> Scheduler \<times> SchedSystem) option" where
  "po_advance p s now =
     (let p1 = po_account p s now in
      map_option (\<lambda>(n, s1). (n, p1, s1)) (po_drive p1 now (po_limit s) 0 s))"

section \<open>The running choice\<close>

lemma keep_best_step:
  "keep_best better cand (xs @ [x]) =
     (case cand x of
        None \<Rightarrow> keep_best better cand xs
      | Some (y, k) \<Rightarrow>
          if (case keep_best better cand xs of None \<Rightarrow> True | Some (_, b) \<Rightarrow> better k b) then Some (y, k)
          else keep_best better cand xs)"
  unfolding keep_best_def fold_append by simp

lemma keep_best_Nil [simp]: "keep_best better cand [] = None"
  by (simp add: keep_best_def)

lemma keep_best_None: "keep_best better cand xs = None \<longleftrightarrow> (\<forall>x \<in> set xs. cand x = None)"
  by (induction xs rule: rev_induct) (auto simp: keep_best_step split: option.splits)

lemma keep_best_Some: "keep_best better cand xs = Some yk \<Longrightarrow> \<exists>x \<in> set xs. cand x = Some yk"
  by (induction xs rule: rev_induct) (auto simp: keep_best_step split: option.splits if_splits)

text \<open>
  What the choice needs of its comparison: on the keys in range it is a strict weak order. Then the
  choice is a best candidate, and the first of the best ones.
\<close>

locale ranking =
  fixes better :: "'k \<Rightarrow> 'k \<Rightarrow> bool" and valid :: "'k \<Rightarrow> bool"
  assumes asym: "valid a \<Longrightarrow> valid b \<Longrightarrow> better a b \<Longrightarrow> \<not> better b a"
    and worse_trans: "valid a \<Longrightarrow> valid b \<Longrightarrow> valid c \<Longrightarrow> \<not> better a b \<Longrightarrow> \<not> better b c \<Longrightarrow> \<not> better a c"
begin

lemma keep_best_first:
  assumes "\<forall>x \<in> set xs. \<forall>y k. cand x = Some (y, k) \<longrightarrow> valid k" and "keep_best better cand xs = Some (y, k)"
  shows "\<exists>us x vs. xs = us @ x # vs \<and> cand x = Some (y, k) \<and>
     (\<forall>x' \<in> set us. \<forall>y' k'. cand x' = Some (y', k') \<longrightarrow> better k k') \<and>
     (\<forall>x' \<in> set xs. \<forall>y' k'. cand x' = Some (y', k') \<longrightarrow> \<not> better k' k)"
  using assms
proof (induction xs arbitrary: y k rule: rev_induct)
  case (snoc x xs)
  have valid: "valid k'" if "x' \<in> set (xs @ [x])" "cand x' = Some (y', k')" for x' y' k'
    using snoc.prems(1) that by blast
  have old: "\<forall>x' \<in> set xs. \<forall>y k. cand x' = Some (y, k) \<longrightarrow> valid k" using snoc.prems(1) by simp
  show ?case
  proof (cases "cand x")
    case None
    with snoc.prems(2) have "keep_best better cand xs = Some (y, k)" by (simp add: keep_best_step)
    from snoc.IH [OF old this] obtain us x0 vs where
      "xs = us @ x0 # vs" "cand x0 = Some (y, k)"
      "\<forall>x' \<in> set us. \<forall>y' k'. cand x' = Some (y', k') \<longrightarrow> better k k'"
      "\<forall>x' \<in> set xs. \<forall>y' k'. cand x' = Some (y', k') \<longrightarrow> \<not> better k' k" by blast
    with None show ?thesis by (intro exI [of _ us] exI [of _ x0] exI [of _ "vs @ [x]"]) simp
  next
    case (Some yk)
    then obtain y1 k1 where x: "cand x = Some (y1, k1)" by (cases yk) simp
    have v1: "valid k1" using valid [of x y1 k1] x by simp
    show ?thesis
    proof (cases "keep_best better cand xs")
      case None
      with snoc.prems(2) x have "(y, k) = (y1, k1)" by (simp add: keep_best_step)
      moreover have "\<forall>x' \<in> set xs. cand x' = None" using None by (simp add: keep_best_None)
      ultimately show ?thesis
        using x asym [OF v1 v1] by (intro exI [of _ xs] exI [of _ x] exI [of _ "[]"]) auto
    next
      case kb: (Some yk0)
      then obtain y0 k0 where kb: "keep_best better cand xs = Some (y0, k0)" by (cases yk0) simp
      from snoc.IH [OF old kb] obtain us x0 vs where
        o: "xs = us @ x0 # vs" "cand x0 = Some (y0, k0)"
        "\<forall>x' \<in> set us. \<forall>y' k'. cand x' = Some (y', k') \<longrightarrow> better k0 k'"
        "\<forall>x' \<in> set xs. \<forall>y' k'. cand x' = Some (y', k') \<longrightarrow> \<not> better k' k0" by blast
      have v0: "valid k0" using valid [of x0 y0 k0] o(1,2) by simp
      show ?thesis
      proof (cases "better k1 k0")
        case True
        with snoc.prems(2) x kb have yk: "y = y1" "k = k1" by (simp_all add: keep_best_step)
        have all: "better k1 k' \<and> \<not> better k' k1" if "x' \<in> set xs" "cand x' = Some (y', k')" for x' y' k'
        proof -
          have v': "valid k'" using valid [of x' y' k'] that by simp
          have "\<not> better k' k0" using o(4) that by blast
          then have "better k1 k'" using worse_trans [OF v1 v' v0] True by blast
          then show ?thesis using asym [OF v1 v'] by blast
        qed
        have self: "\<not> better k1 k1" using asym [OF v1 v1] by blast
        show ?thesis unfolding yk using x all self by (intro exI [of _ xs] exI [of _ x] exI [of _ "[]"]) auto
      next
        case False
        with snoc.prems(2) x kb have "(y, k) = (y0, k0)" by (simp add: keep_best_step)
        with o x False show ?thesis by (intro exI [of _ us] exI [of _ x0] exI [of _ "vs @ [x]"]) auto
      qed
    qed
  qed
qed simp

end

text \<open>
  Shares for which no product saturates: services below \<open>2^96\<close> ticks, weights of 32 bits. On them the
  comparison is that of the fractions, in either direction.
\<close>

definition share_exact :: "Share \<Rightarrow> bool" where
  "share_exact k \<longleftrightarrow> service k < 2 ^ 96 \<and> 0 < weight k \<and> weight k < 2 ^ 32"

lemma mul_fits: "x < 2 ^ 96 \<Longrightarrow> y < 2 ^ 32 \<Longrightarrow> x * y \<le> u128_max" for x y :: nat
proof -
  assume "x < 2 ^ 96" "y < 2 ^ 32"
  then have "x * y < 2 ^ 96 * 2 ^ 32" by (intro mult_strict_mono) auto
  then show ?thesis by simp
qed

lemma tbl_get_all: "list_all (list_all P) t \<Longrightarrow> tbl_get t i j = Some x \<Longrightarrow> P x"
  by (auto simp: tbl_get_Some list_all_length)

lemma po_weight_small: "list_all (list_all (\<lambda>w. w < 2 ^ 32)) (weights p) \<Longrightarrow> po_weight_of p d v < 2 ^ 32"
  by (auto simp: po_weight_of_def tbl_or_def MIN_WEIGHT_def dest: tbl_get_all split: option.splits)

lemma po_share_small:
  assumes "list_all (list_all (\<lambda>c. runtime c \<le> u64_max)) (sc_domains s)" "now \<le> u64_max"
    "list_all (list_all (\<lambda>x. x < 2 ^ 95)) (offset p)"
  shows "service (po_share p s d v now) < 2 ^ 96"
proof -
  have "or_zero (sc_runtime s d v) \<le> u64_max"
    using tbl_get_all [OF assms(1)] by (auto simp: or_zero_def sc_runtime_def sc_get_def split: option.splits)
  moreover have "po_offset_of p d v < 2 ^ 95"
    using tbl_get_all [OF assms(3)] by (auto simp: po_offset_of_def tbl_or_def split: option.splits)
  moreover have "(case sc_on_cpu_since s d v of Some since \<Rightarrow> now - since | None \<Rightarrow> 0) \<le> u64_max"
    using assms(2) by (auto split: option.splits)
  moreover have "service (po_share p s d v now) \<le> or_zero (sc_runtime s d v) +
      (case sc_on_cpu_since s d v of Some since \<Rightarrow> now - since | None \<Rightarrow> 0) + po_offset_of p d v"
    unfolding po_share_def Let_def by simp
  ultimately show ?thesis by simp
qed

lemma more_deserving_exact:
  assumes "share_exact a" "share_exact b"
  shows "more_deserving a b \<longleftrightarrow> service a * weight b < service b * weight a"
  using assms mul_fits [of "service a" "weight b"] mul_fits [of "service b" "weight a"]
  by (simp add: more_deserving_def share_exact_def sat_mul_u128_def)

lemma fraction_trans:
  assumes "(b::nat) * x \<le> a * y" "c * y \<le> b * z" "0 < y" shows "c * x \<le> a * z"
proof -
  have "c * x * y \<le> b * z * x" using mult_right_mono [OF assms(2), of x] by (simp add: mult_ac)
  also have "\<dots> \<le> a * y * z" using mult_right_mono [OF assms(1), of z] by (simp add: mult_ac)
  finally have "c * x * y \<le> a * z * y" by (simp add: mult_ac)
  with assms(3) show ?thesis by simp
qed

interpretation deserving: ranking more_deserving share_exact
proof
  fix a b c assume v: "share_exact a" "share_exact b" "share_exact c"
  assume "\<not> more_deserving a b" "\<not> more_deserving b c"
  with v show "\<not> more_deserving a c"
    using fraction_trans [of "service b" "weight a" "service a" "weight b" "service c" "weight c"]
    by (simp add: more_deserving_exact not_less share_exact_def)
qed (simp add: more_deserving_exact)

interpretation undeserving: ranking "\<lambda>k b. more_deserving b k" share_exact
  by unfold_locales (use deserving.asym deserving.worse_trans in blast)+

section \<open>What the policy proposes\<close>

lemma all_vcpus_iff:
  assumes "sc_fits s" shows "(d, v) \<in> set (all_vcpus s) \<longleftrightarrow> sc_get s d v \<noteq> None"
proof -
  have "as_u16 (sc_domain_count s) = sc_domain_count s" "\<And>d. as_u32 (sc_vcpu_count s d) = sc_vcpu_count s d"
    using assms by (auto simp: sc_fits_iff)
  then show ?thesis unfolding sc_get_range by (auto simp: all_vcpus_def image_iff)
qed

lemma first_idle_Some:
  assumes "sc_fits s" "po_first_idle_pcpu_for s d v = Some q"
  shows "q < sc_pcpu_count s" "sc_occupant s q = None" "sc_affinity_permits s d v q"
    "\<And>q'. q' < q \<Longrightarrow> \<not> (sc_occupant s q' = None \<and> sc_affinity_permits s d v q')"
  using assms by (auto simp: po_first_idle_pcpu_for_def find_Some_iff sc_fits_iff)

lemma first_idle_None:
  assumes "sc_fits s" "po_first_idle_pcpu_for s d v = None" "q < sc_pcpu_count s"
  shows "\<not> (sc_occupant s q = None \<and> sc_affinity_permits s d v q)"
  using assms by (auto simp: po_first_idle_pcpu_for_def find_None_iff sc_fits_iff)

lemma placement_Some:
  "placement p s now (d, v) = Some (y, k) \<longleftrightarrow>
     sc_state_of s d v = Some Runnable \<and> k = po_share p s d v now \<and>
     (\<exists>q. y = (d, v, q) \<and> po_first_idle_pcpu_for s d v = Some q)"
  by (auto simp: placement_def)

lemma next_Run:
  assumes "po_next p s now = Run d v q"
  shows "keep_best more_deserving (placement p s now) (all_vcpus s) = Some ((d, v, q), po_share p s d v now) \<and>
     sc_state_of s d v = Some Runnable \<and> po_first_idle_pcpu_for s d v = Some q"
proof -
  from assms obtain k where k: "keep_best more_deserving (placement p s now) (all_vcpus s) = Some ((d, v, q), k)"
    by (auto simp: po_next_def po_best_placement_def split: option.splits prod.splits)
  from keep_best_Some [OF this] show ?thesis using k by (auto simp: placement_Some)
qed

lemma eviction_Some:
  "eviction p s now (d, v) = Some (y, k) \<longleftrightarrow>
     k = po_share p s d v now \<and>
     (\<exists>q since. y = (d, v, q) \<and> sc_state_of s d v = Some (Running q) \<and> sc_on_cpu_since s d v = Some since \<and>
        quantum p \<le> now - since \<and> po_some_affine_waiter_beats p s q k now)"
proof (cases "sc_get s d v")
  case (Some c)
  then show ?thesis
    by (cases "vc_state c") (auto simp: eviction_def sc_state_of_eq sc_on_cpu_since_def Let_def)
qed (auto simp: eviction_def sc_state_of_eq)

lemma next_Preempt:
  assumes "po_next p s now = Preempt d v q"
  shows "po_best_placement p s now = None \<and>
     keep_best (\<lambda>k b. more_deserving b k) (eviction p s now) (all_vcpus s) = Some ((d, v, q), po_share p s d v now) \<and>
     sc_state_of s d v = Some (Running q) \<and> po_some_affine_waiter_beats p s q (po_share p s d v now) now \<and>
     (\<exists>since. sc_on_cpu_since s d v = Some since \<and> quantum p \<le> now - since)"
proof -
  from assms obtain k where
    k: "keep_best (\<lambda>k b. more_deserving b k) (eviction p s now) (all_vcpus s) = Some ((d, v, q), k)"
    and n: "po_best_placement p s now = None"
    by (auto simp: po_next_def po_best_preemption_def split: option.splits prod.splits)
  from keep_best_Some [OF k] show ?thesis using k n by (auto simp: eviction_Some)
qed

text \<open>The effect of an accepted dispatch and of an accepted preemption.\<close>

lemma next_Run_accepted:
  assumes ok: "sc_ok s" and r: "po_next p s now = Run d v q"
  shows "\<exists>c. sc_get s d v = Some c \<and> vc_state c = Runnable \<and> vec_get (pcpus s) q = Some None \<and>
     sc_run s d v q now = (Ok (), (sc_put s d v (c\<lparr>vc_state := Running q, dispatched_at := now\<rparr>))
       \<lparr>pcpus := (pcpus s)[q := Some (d, v)]\<rparr>)"
proof -
  have fits: "sc_fits s" using ok by (simp add: sc_ok_def)
  note n = next_Run [OF r]
  then obtain c where c: "sc_get s d v = Some c" "vc_state c = Runnable" by (auto simp: sc_state_of_eq)
  from n first_idle_Some [OF fits] have i: "q < sc_pcpu_count s" "sc_occupant s q = None" "sc_affinity_permits s d v q" by blast+
  then have "vec_get (pcpus s) q = Some None" by (auto simp: sc_occupant_def sc_pcpu_count_def vec_get_def)
  moreover have "mask_permits (affinity c) q" using i(3) c by (auto simp: sc_affinity_permits_iff)
  ultimately show ?thesis using sc_run_accepts [OF c] c by blast
qed

lemma next_Preempt_accepted:
  assumes ok: "sc_ok s" and r: "po_next p s now = Preempt d v q"
  shows "\<exists>c. sc_get s d v = Some c \<and> vc_state c = Running q \<and> quantum p \<le> now - dispatched_at c \<and>
     sc_preempt s d v now = (Ok (), (sc_put s d v (c\<lparr>runtime := sc_charged now c, vc_state := Runnable\<rparr>))
       \<lparr>pcpus := (pcpus s)[q := None]\<rparr>)"
proof -
  from next_Preempt [OF r] obtain c where "sc_get s d v = Some c" "vc_state c = Running q" "quantum p \<le> now - dispatched_at c"
    by (auto simp: sc_state_of_eq sc_on_cpu_since_def)
  then show ?thesis using sc_preempt_effect [OF ok] by blast
qed

lemma next_Idle_refuses:
  assumes ok: "sc_ok s" and i: "po_next p s now = Idle" shows "\<not> is_Ok (fst (sc_run s d v q now))"
proof
  assume "is_Ok (fst (sc_run s d v q now))"
  then obtain s' where "sc_run s d v q now = (Ok (), s')" by (cases "sc_run s d v q now") (auto simp: is_Ok_iff)
  from sc_run_effect [OF this] obtain c where
    c: "sc_get s d v = Some c" "vc_state c = Runnable" "mask_permits (affinity c) q" "vec_get (pcpus s) q = Some None" by blast
  have fits: "sc_fits s" using ok by (simp add: sc_ok_def)
  have "q < sc_pcpu_count s" "sc_occupant s q = None" "sc_affinity_permits s d v q"
    using c by (auto simp: sc_occupant_def sc_pcpu_count_def vec_get_def sc_affinity_permits_iff split: if_splits)
  then have "po_first_idle_pcpu_for s d v \<noteq> None" using first_idle_None [OF fits] by blast
  then have "placement p s now (d, v) \<noteq> None" using c by (auto simp: placement_def sc_state_of_eq)
  moreover have "(d, v) \<in> set (all_vcpus s)" using c fits by (simp add: all_vcpus_iff)
  ultimately have "keep_best more_deserving (placement p s now) (all_vcpus s) \<noteq> None" by (metis keep_best_None)
  then show False using i by (auto simp: po_next_def po_best_placement_def split: option.splits prod.splits)
qed

section \<open>The driver settles\<close>

text \<open>
  The variant of the loop: an idle pCPU counts one, a pCPU whose occupant has used up its time slice
  counts two. A dispatch fills an idle pCPU with a fresh occupant; a preemption empties a used-up one.
\<close>

definition po_cost :: "Scheduler \<Rightarrow> Ticks \<Rightarrow> SchedSystem \<Rightarrow> Pcpu \<Rightarrow> nat" where
  "po_cost p now s i =
     (case pcpus s ! i of
        None \<Rightarrow> 1
      | Some (d, v) \<Rightarrow>
          (case sc_get s d v of Some c \<Rightarrow> if quantum p \<le> now - dispatched_at c then 2 else 0 | None \<Rightarrow> 0))"

definition po_slack :: "Scheduler \<Rightarrow> Ticks \<Rightarrow> SchedSystem \<Rightarrow> nat" where
  "po_slack p now s = (\<Sum>i < sc_pcpu_count s. po_cost p now s i)"

lemma po_slack_bound: "po_slack p now s \<le> 2 * sc_pcpu_count s"
proof -
  have "po_cost p now s i \<le> 2" for i by (auto simp: po_cost_def split: option.splits prod.splits)
  then have "po_slack p now s \<le> (\<Sum>i < sc_pcpu_count s. 2)" unfolding po_slack_def by (intro sum_mono)
  then show ?thesis by simp
qed

lemma sum_drop_one:
  fixes f g :: "nat \<Rightarrow> nat"
  assumes "q < n" "\<And>i. i < n \<Longrightarrow> i \<noteq> q \<Longrightarrow> g i = f i" "Suc (g q) = f q"
  shows "Suc (\<Sum>i < n. g i) = (\<Sum>i < n. f i)"
proof -
  have "(\<Sum>i \<in> {..<n} - {q}. g i) = (\<Sum>i \<in> {..<n} - {q}. f i)" using assms(2) by (intro sum.cong) auto
  then show ?thesis using assms(1,3) sum.remove [of "{..<n}" q f] sum.remove [of "{..<n}" q g] by simp
qed

text \<open>Writing vCPU \<open>(d, v)\<close> and pCPU \<open>q\<close> leaves the cost of every other pCPU alone.\<close>

lemma po_slack_write:
  assumes ok: "sc_ok s" and c: "sc_get s d v = Some c" "\<And>i. i \<noteq> q \<Longrightarrow> vc_state c \<noteq> Running i"
    and q: "q < length (pcpus s)"
    and s': "s' = (sc_put s d v c')\<lparr>pcpus := (pcpus s)[q := oc]\<rparr>"
    and drop: "Suc (po_cost p now s' q) = po_cost p now s q"
  shows "Suc (po_slack p now s') = po_slack p now s"
proof -
  have len: "sc_pcpu_count s' = sc_pcpu_count s" by (simp add: s' sc_pcpu_count_def)
  have "po_cost p now s' i = po_cost p now s i" if i: "i < sc_pcpu_count s" "i \<noteq> q" for i
  proof (cases "pcpus s ! i")
    case (Some x)
    obtain d' v' where x: "x = (d', v')" by (cases x)
    from sc_ok_occupies [OF ok, of i d' v'] i Some x obtain vc where
      "sc_get s d' v' = Some vc" "vc_state vc = Running i" by (auto simp: vec_get_def sc_pcpu_count_def)
    then have "(d', v') \<noteq> (d, v)" using c(1) c(2) [OF i(2)] by auto
    then show ?thesis using Some x i by (auto simp: po_cost_def s' sc.get_put)
  qed (use i in \<open>simp add: po_cost_def s'\<close>)
  then show ?thesis
    unfolding po_slack_def len using q drop by (intro sum_drop_one [of q]) (auto simp: sc_pcpu_count_def)
qed

lemma po_next_progress:
  assumes ok: "sc_ok s" and q0: "0 < quantum p"
  shows "po_next p s now = Idle \<or>
     (\<exists>d v q s1. po_next p s now = Run d v q \<and> sc_run s d v q now = (Ok (), s1) \<and> sc_ok s1 \<and>
        Suc (po_slack p now s1) = po_slack p now s \<and> sc_pcpu_count s1 = sc_pcpu_count s) \<or>
     (\<exists>d v q s1. po_next p s now = Preempt d v q \<and> sc_preempt s d v now = (Ok (), s1) \<and> sc_ok s1 \<and>
        Suc (po_slack p now s1) = po_slack p now s \<and> sc_pcpu_count s1 = sc_pcpu_count s)"
proof (cases "po_next p s now")
  case (Run d v q)
  from next_Run_accepted [OF ok Run] obtain c s1 where
    c: "sc_get s d v = Some c" "vc_state c = Runnable" "vec_get (pcpus s) q = Some None"
    and s1: "s1 = (sc_put s d v (c\<lparr>vc_state := Running q, dispatched_at := now\<rparr>))\<lparr>pcpus := (pcpus s)[q := Some (d, v)]\<rparr>"
    and r: "sc_run s d v q now = (Ok (), s1)" by blast
  have q: "q < length (pcpus s)" "pcpus s ! q = None" using c by (auto simp: vec_get_Some)
  have "Suc (po_cost p now s1 q) = po_cost p now s q"
    using q q0 c by (simp add: po_cost_def s1 sc.get_put)
  from po_slack_write [OF ok c(1) _ q(1) s1 this] c(2) have "Suc (po_slack p now s1) = po_slack p now s" by simp
  moreover have "sc_ok s1" using sc_run_wb [OF ok, of d v q now] r by (simp add: well_behaved_def)
  moreover have "sc_pcpu_count s1 = sc_pcpu_count s" by (simp add: s1 sc_pcpu_count_def)
  ultimately show ?thesis using Run r by blast
next
  case (Preempt d v q)
  from next_Preempt_accepted [OF ok Preempt] obtain c s1 where
    c: "sc_get s d v = Some c" "vc_state c = Running q" "quantum p \<le> now - dispatched_at c"
    and s1: "s1 = (sc_put s d v (c\<lparr>runtime := sc_charged now c, vc_state := Runnable\<rparr>))\<lparr>pcpus := (pcpus s)[q := None]\<rparr>"
    and r: "sc_preempt s d v now = (Ok (), s1)" by blast
  have q: "q < length (pcpus s)" "pcpus s ! q = Some (d, v)" using sc_ok_runs(1) [OF ok c(1,2)] by (auto simp: vec_get_Some)
  have "Suc (po_cost p now s1 q) = po_cost p now s q" using q c by (simp add: po_cost_def s1)
  from po_slack_write [OF ok c(1) _ q(1) s1 this] c(2) have "Suc (po_slack p now s1) = po_slack p now s" by simp
  moreover have "sc_ok s1" using sc_preempt_wb [OF ok, of d v now] r by (simp add: well_behaved_def)
  moreover have "sc_pcpu_count s1 = sc_pcpu_count s" by (simp add: s1 sc_pcpu_count_def)
  ultimately show ?thesis using Preempt r by blast
qed simp

lemma po_drive_settles:
  assumes "sc_ok s" "0 < quantum p" "po_slack p now s < k"
  shows "\<exists>n s'. po_drive p now k e s = Some (e + n, s') \<and> n \<le> po_slack p now s \<and> sc_ok s' \<and> po_next p s' now = Idle"
  using assms
proof (induction k arbitrary: s e)
  case (Suc k)
  have step: ?case if next': "po_drive p now (Suc k) e s = po_drive p now k (e + 1) s1" and s1: "sc_ok s1"
      and drop: "Suc (po_slack p now s1) = po_slack p now s" for s1
  proof -
    from Suc.IH [OF s1 Suc.prems(2), of "e + 1"] drop Suc.prems(3) obtain n s' where
      "po_drive p now k (e + 1) s1 = Some (e + 1 + n, s')" "n \<le> po_slack p now s1" "sc_ok s'" "po_next p s' now = Idle" by auto
    with next' drop show ?thesis by (intro exI [of _ "Suc n"] exI [of _ s']) simp
  qed
  from po_next_progress [OF Suc.prems(1,2), of now] show ?case
    using step Suc.prems(1) by (elim disjE exE conjE) simp_all
qed simp

section \<open>Wake accounting\<close>

lemma tbl_put_simps:
  "tbl_get (tbl_put t i j v) i' j' = (if (i', j') = (i, j) \<and> tbl_get t i j \<noteq> None then Some v else tbl_get t i' j')"
  by (auto simp: tbl_put_def tbl_get_set)

lemma tbl_or_put: "tbl_or (tbl_put t i j v) z i' j' = (if (i', j') = (i, j) \<and> tbl_get t i j \<noteq> None then v else tbl_or t z i' j')"
  by (auto simp: tbl_or_def tbl_put_simps)

text \<open>The part of the policy the accounting never writes, and the shape of its tables.\<close>

definition po_same_config :: "Scheduler \<Rightarrow> Scheduler \<Rightarrow> bool" where
  "po_same_config p p' \<longleftrightarrow> weights p' = weights p \<and> quantum p' = quantum p \<and> wake_boost p' = wake_boost p \<and>
     (\<forall>d v. (tbl_get (offset p') d v = None \<longleftrightarrow> tbl_get (offset p) d v = None) \<and>
            (tbl_get (was_schedulable p') d v = None \<longleftrightarrow> tbl_get (was_schedulable p) d v = None))"

lemma account_one_config: "po_same_config p (po_account_one s f x p)"
  by (cases x) (auto simp: po_same_config_def po_account_one_def Let_def po_set_offset_def po_set_was_schedulable_def
      tbl_put_simps split: option.splits)

lemma same_config_trans: "po_same_config a b \<Longrightarrow> po_same_config b c \<Longrightarrow> po_same_config a c"
  by (simp add: po_same_config_def)

lemma account_fold_config: "po_same_config p (fold (po_account_one s f) xs p)"
proof (induction xs arbitrary: p)
  case (Cons x xs)
  then show ?case using same_config_trans [OF account_one_config [of p s f x]] by auto
qed (simp add: po_same_config_def)

lemma account_config: "po_same_config p (po_account p s now)"
  by (simp add: po_account_def account_fold_config)

lemma weight_of_config: "po_same_config p p' \<Longrightarrow> po_weight_of p' d v = po_weight_of p d v"
  by (simp add: po_same_config_def po_weight_of_def)

text \<open>What the accounting does to one vCPU, and that it does it to each of them once.\<close>

definition po_woke :: "Scheduler \<Rightarrow> SchedSystem \<Rightarrow> DomId \<Rightarrow> Vcpu \<Rightarrow> bool" where
  "po_woke p s d v \<longleftrightarrow> schedulable s d v \<and> \<not> po_was_schedulable p d v"

definition po_placed :: "Scheduler \<Rightarrow> SchedSystem \<Rightarrow> Share option \<Rightarrow> DomId \<Rightarrow> Vcpu \<Rightarrow> nat" where
  "po_placed p s f d v =
     (case f of
        Some k \<Rightarrow> if po_woke p s d v \<and> wake_boost p
                  then sat_mul_u128 (service k) (po_weight_of p d v) div weight k - or_zero (sc_runtime s d v)
                  else po_offset_of p d v
      | None \<Rightarrow> po_offset_of p d v)"

lemma account_one_effect:
  "po_offset_of (po_account_one s f (d, v) p) d' v' =
     (if (d', v') = (d, v) \<and> tbl_get (offset p) d v \<noteq> None then po_placed p s f d v else po_offset_of p d' v')"
  "po_was_schedulable (po_account_one s f (d, v) p) d' v' =
     (if (d', v') = (d, v) \<and> tbl_get (was_schedulable p) d v \<noteq> None then schedulable s d v else po_was_schedulable p d' v')"
  by (auto simp: po_account_one_def Let_def po_placed_def po_woke_def po_offset_of_def po_was_schedulable_def
      po_set_offset_def po_set_was_schedulable_def tbl_or_put split: option.splits)

lemma account_fold_effect:
  "distinct xs \<Longrightarrow>
     po_offset_of (fold (po_account_one s f) xs p) d v =
       (if (d, v) \<in> set xs \<and> tbl_get (offset p) d v \<noteq> None then po_placed p s f d v else po_offset_of p d v) \<and>
     po_was_schedulable (fold (po_account_one s f) xs p) d v =
       (if (d, v) \<in> set xs \<and> tbl_get (was_schedulable p) d v \<noteq> None then schedulable s d v else po_was_schedulable p d v)"
proof (induction xs rule: rev_induct)
  case (snoc x xs)
  obtain d1 v1 where x: "x = (d1, v1)" by (cases x)
  let ?q = "fold (po_account_one s f) xs p"
  have c: "po_same_config p ?q" by (rule account_fold_config)
  have new: "(d1, v1) \<notin> set xs" and dist: "distinct xs" using snoc.prems x by auto
  note IH = snoc.IH [OF dist]
  have "po_placed ?q s f d v = po_placed p s f d v" if "(d, v) = (d1, v1)"
    using that new IH c weight_of_config [OF c, of d v]
    by (auto simp: po_placed_def po_woke_def po_same_config_def split: option.split)
  then show ?case using x new IH c by (auto simp: account_one_effect po_same_config_def)
qed simp

lemma all_vcpus_distinct: "distinct (all_vcpus s)"
proof -
  have "distinct (concat (map (\<lambda>d. map (Pair d) (f d)) ds))" if "distinct ds" "\<And>d. distinct (f d)" for ds and f :: "nat \<Rightarrow> nat list"
    using that by (induction ds) (auto simp: distinct_map inj_on_def)
  then show ?thesis by (simp add: all_vcpus_def)
qed

lemma all_vcpus_sorted: "sorted_wrt (\<lambda>(d, v) (d', v'). d < d' \<or> d = d' \<and> v < v') (all_vcpus s)"
proof -
  have "sorted_wrt (\<lambda>(d, v) (d', v'). d < d' \<or> d = d' \<and> v < v') (concat (map (\<lambda>d. map (Pair d) (f d)) ds))"
    if "sorted_wrt (<) ds" "\<And>d. sorted_wrt (<) (f d)" for ds and f :: "nat \<Rightarrow> nat list"
    using that by (induction ds) (auto simp: sorted_wrt_append sorted_wrt_map)
  then show ?thesis by (simp add: all_vcpus_def)
qed

section \<open>The properties of the policy\<close>

text \<open>
  C32: the policy never proposes a transition that the mechanism refuses: on a consistent scheduler a
  proposed dispatch is accepted, for whatever weights, offsets, masks and quantum, and a proposed
  preemption names a vCPU that is running, whose time slice is over and for which a strictly more
  deserving vCPU is waiting that may use the freed pCPU; it is accepted as well.
\<close>

theorem policy_never_refused:
  assumes "sc_fits s" and "sc_first_violation s = None"
  shows "(\<forall>d v q. po_next p s now = Run d v q \<longrightarrow>
       fst (sc_run s d v q now) = Ok () \<and> sc_occupant s q = None \<and> sc_affinity_permits s d v q) \<and>
     (\<forall>d v q. po_next p s now = Preempt d v q \<longrightarrow>
       fst (sc_preempt s d v now) = Ok () \<and> sc_state_of s d v = Some (Running q) \<and>
       (\<exists>t. sc_on_cpu_since s d v = Some t \<and> po_quantum p \<le> now - t) \<and>
       (\<exists>d' v'. sc_state_of s d' v' = Some Runnable \<and> sc_affinity_permits s d' v' q \<and>
          more_deserving (po_share p s d' v' now) (po_share p s d v now)))"
proof -
  have ok: "sc_ok s" using assms by (rule sc_ok_checked)
  have "fst (sc_run s d v q now) = Ok () \<and> sc_occupant s q = None \<and> sc_affinity_permits s d v q"
    if r: "po_next p s now = Run d v q" for d v q
    using next_Run_accepted [OF ok r] next_Run [OF r] first_idle_Some [OF assms(1)] by fastforce
  moreover have "fst (sc_preempt s d v now) = Ok () \<and> sc_state_of s d v = Some (Running q) \<and>
       (\<exists>t. sc_on_cpu_since s d v = Some t \<and> po_quantum p \<le> now - t) \<and>
       (\<exists>d' v'. sc_state_of s d' v' = Some Runnable \<and> sc_affinity_permits s d' v' q \<and>
          more_deserving (po_share p s d' v' now) (po_share p s d v now))"
    if r: "po_next p s now = Preempt d v q" for d v q
    using next_Preempt_accepted [OF ok r] next_Preempt [OF r]
    by (auto simp: po_quantum_def po_some_affine_waiter_beats_def list_ex_iff)
  ultimately show ?thesis by blast
qed

theorem policy_never_refused_witness:
  "\<exists>s p. po_next p s 5 = Preempt 0 0 0 \<and> fst (sc_preempt s 0 0 5) = Ok () \<and> sc_state_of s 0 0 = Some (Running 0)"
proof -
  define s where "s = fold (\<lambda>a s. snd (sc_apply s a)) [OpAdmit 0 0, OpAdmit 0 1, OpRun 0 0 0 1] (sc_new 1 2 1)"
  have c: "sc_fits s" "sc_first_violation s = None" "po_next (po_new 1 2 3) s 5 = Preempt 0 0 0" unfolding s_def by code_simp+
  from policy_never_refused [OF c(1,2), of "po_new 1 2 3" 5] c(3) show ?thesis by blast
qed

text \<open>
  C33: the driver settles. With a time slice of at least one tick a call of \<open>advance\<close> never panics, makes
  at most two transitions per pCPU (so its safety limit is never what stops it), and leaves a
  consistent scheduler on which the policy has nothing left to propose; in particular it conserves
  work: the mechanism refuses every further dispatch, so no pCPU is idle that a runnable vCPU may use.
\<close>

theorem policy_advance_settles:
  assumes "sc_fits s" and "sc_first_violation s = None" and "0 < po_quantum p"
    and "sum_list (map (sc_vcpu_count s) [0..<sc_domain_count s]) + 2 * sc_pcpu_count s + 1 < u32_size"
  shows "\<exists>n p' s'. po_advance p s now = Some (n, p', s') \<and> n \<le> 2 * sc_pcpu_count s \<and> n < po_limit s \<and>
     sc_first_violation s' = None \<and> po_next p' s' now = Idle \<and>
     (\<forall>d v q. \<not> is_Ok (fst (sc_run s' d v q now)))"
proof -
  have ok: "sc_ok s" using assms(1,2) by (rule sc_ok_checked)
  let ?p = "po_account p s now"
  have q: "0 < quantum ?p" using account_config [of p s now] assms(3) by (simp add: po_same_config_def po_quantum_def)
  have "sc_domain_count s < u16_size" using assms(1) by (simp add: sc_fits_iff)
  then have limit: "po_limit s = sum_list (map (sc_vcpu_count s) [0..<sc_domain_count s]) + 2 * sc_pcpu_count s + 1"
    unfolding po_limit_def using assms(4) by simp
  then have "po_slack ?p now s < po_limit s" using po_slack_bound [of ?p now s] by simp
  from po_drive_settles [OF ok q this, of 0] obtain n s' where
    r: "po_drive ?p now (po_limit s) 0 s = Some (n, s')" "n \<le> po_slack ?p now s" "sc_ok s'" "po_next ?p s' now = Idle" by auto
  have "n \<le> 2 * sc_pcpu_count s" using r(2) po_slack_bound [of ?p now s] by simp
  moreover have "n < po_limit s" using calculation limit by simp
  ultimately show ?thesis
    using r sc_no_violation [OF r(3)] next_Idle_refuses [OF r(3,4)] by (simp add: po_advance_def)
qed

theorem policy_advance_settles_witness:
  "\<exists>s n p' s'. po_advance (po_new 1 2 3) s 5 = Some (n, p', s') \<and> n \<le> 2 \<and> sc_state_of s 0 1 = Some Runnable \<and>
     sc_state_of s' 0 1 = Some (Running 0) \<and> po_next p' s' 5 = Idle"
proof -
  define s where "s = fold (\<lambda>a s. snd (sc_apply s a)) [OpAdmit 0 0, OpAdmit 0 1, OpRun 0 0 0 1] (sc_new 1 2 1)"
  have c: "sc_fits s" "sc_first_violation s = None" "0 < po_quantum (po_new 1 2 3)"
    "sum_list (map (sc_vcpu_count s) [0..<sc_domain_count s]) + 2 * sc_pcpu_count s + 1 < u32_size" unfolding s_def by code_simp+
  have v: "sc_pcpu_count s = 1" "sc_state_of s 0 1 = Some Runnable" unfolding s_def by code_simp+
  from policy_advance_settles [OF c, of 5] obtain n p' s' where
    r: "po_advance (po_new 1 2 3) s 5 = Some (n, p', s')" "n \<le> 2 * sc_pcpu_count s" "po_next p' s' 5 = Idle" by blast
  have "map_option (\<lambda>(n, p', s'). sc_state_of s' 0 1) (po_advance (po_new 1 2 3) s 5) = Some (Some (Running 0))"
    unfolding s_def by code_simp
  with r v show ?thesis by (intro exI [of _ s] exI [of _ n] exI [of _ p'] exI [of _ s']) simp
qed

text \<open>
  The policy picks the most deserving vCPU. As long as no service reaches \<open>2^96\<close> ticks, a proposed
  dispatch takes, among the runnable vCPUs that may use some idle pCPU, one with the least service per
  weight, the first such vCPU in the order of domains and vCPUs, on its lowest permitted idle pCPU; a
  proposed preemption evicts, among the candidates, one with the greatest service per weight.
\<close>

theorem policy_most_deserving:
  assumes "sc_fits s" and "\<And>d v. service (po_share p s d v now) < 2 ^ 96" and "\<And>d v. po_weight_of p d v < 2 ^ 32"
  shows "(\<forall>d v q. po_next p s now = Run d v q \<longrightarrow>
       (\<forall>q' < q. \<not> (sc_occupant s q' = None \<and> sc_affinity_permits s d v q')) \<and>
       (\<forall>d' v' q'. sc_state_of s d' v' = Some Runnable \<and> q' < sc_pcpu_count s \<and> sc_occupant s q' = None \<and>
          sc_affinity_permits s d' v' q' \<longrightarrow>
            service (po_share p s d v now) * po_weight_of p d' v' \<le> service (po_share p s d' v' now) * po_weight_of p d v \<and>
            (d' < d \<or> d' = d \<and> v' < v \<longrightarrow>
              service (po_share p s d v now) * po_weight_of p d' v' < service (po_share p s d' v' now) * po_weight_of p d v))) \<and>
     (\<forall>d v q. po_next p s now = Preempt d v q \<longrightarrow>
       (\<forall>d' v'. eviction p s now (d', v') \<noteq> None \<longrightarrow>
          service (po_share p s d' v' now) * po_weight_of p d v \<le> service (po_share p s d v now) * po_weight_of p d' v'))"
proof -
  have weight: "weight (po_share p s d v now) = po_weight_of p d v" for d v by (simp add: po_share_def Let_def)
  have exact: "share_exact (po_share p s d v now)" for d v
    using assms(2,3) weight by (simp add: share_exact_def po_weight_of_def MIN_WEIGHT_def)
  note cmp = more_deserving_exact [OF exact exact] weight
  have run: "service (po_share p s d v now) * po_weight_of p d' v' \<le> service (po_share p s d' v' now) * po_weight_of p d v \<and>
      (d' < d \<or> d' = d \<and> v' < v \<longrightarrow>
        service (po_share p s d v now) * po_weight_of p d' v' < service (po_share p s d' v' now) * po_weight_of p d v)"
    if r: "po_next p s now = Run d v q" and st: "sc_state_of s d' v' = Some Runnable" and q': "q' < sc_pcpu_count s"
      "sc_occupant s q' = None" "sc_affinity_permits s d' v' q'" for d v q d' v' q'
  proof -
    note kb = conjunct1 [OF next_Run [OF r]]
    from deserving.keep_best_first [OF _ kb] exact obtain us x vs where
      o: "all_vcpus s = us @ x # vs" "placement p s now x = Some ((d, v, q), po_share p s d v now)"
      "\<And>x' y' k'. x' \<in> set us \<Longrightarrow> placement p s now x' = Some (y', k') \<Longrightarrow> more_deserving (po_share p s d v now) k'"
      "\<And>x' y' k'. x' \<in> set (all_vcpus s) \<Longrightarrow> placement p s now x' = Some (y', k') \<Longrightarrow> \<not> more_deserving k' (po_share p s d v now)"
      by (fastforce simp: placement_def split: if_splits)
    have x: "x = (d, v)" using o(2) by (cases x) (auto simp: placement_Some)
    from first_idle_None [OF assms(1), of d' v' q'] q' obtain q1 where q1: "po_first_idle_pcpu_for s d' v' = Some q1" by blast
    then have pl: "placement p s now (d', v') = Some ((d', v', q1), po_share p s d' v' now)" using st by (simp add: placement_Some)
    have mem: "(d', v') \<in> set (all_vcpus s)" using st assms(1) by (auto simp: all_vcpus_iff sc_state_of_eq)
    have "(d', v') \<in> set us" if "d' < d \<or> d' = d \<and> v' < v"
      using that mem all_vcpus_sorted [of s] unfolding o(1) x by (auto simp: sorted_wrt_append)
    then show ?thesis using o(4) [OF mem pl] o(3) [OF _ pl] cmp by (auto simp: not_less)
  qed
  have evict: "service (po_share p s d' v' now) * po_weight_of p d v \<le> service (po_share p s d v now) * po_weight_of p d' v'"
    if r: "po_next p s now = Preempt d v q" and e: "eviction p s now (d', v') \<noteq> None" for d v q d' v'
  proof -
    from e obtain y where y: "eviction p s now (d', v') = Some (y, po_share p s d' v' now)" by (auto simp: eviction_Some)
    then have "(d', v') \<in> set (all_vcpus s)" using assms(1) by (auto simp: all_vcpus_iff sc_state_of_eq eviction_Some)
    moreover note undeserving.keep_best_first [OF _ conjunct1 [OF conjunct2 [OF next_Preempt [OF r]]]]
    ultimately have "\<not> more_deserving (po_share p s d v now) (po_share p s d' v' now)"
      using y exact by (fastforce simp: eviction_Some)
    then show ?thesis using cmp by (simp add: not_less)
  qed
  have low: "\<not> (sc_occupant s q' = None \<and> sc_affinity_permits s d v q')" if "po_next p s now = Run d v q" "q' < q" for d v q q'
    using first_idle_Some(4) [OF assms(1)] next_Run [OF that(1)] that(2) by blast
  show ?thesis
  proof (intro conjI allI impI, goal_cases)
    case 1 then show ?case using low by blast
  next
    case 2 then show ?case using run by blast
  next
    case 3 then show ?case using run by blast
  next
    case 4 then show ?case using evict by blast
  qed
qed

theorem policy_most_deserving_witness:
  "\<exists>s p. po_next p s 9 = Run 0 1 0 \<and> sc_state_of s 0 0 = Some Runnable \<and>
     service (po_share p s 0 1 9) * po_weight_of p 0 0 < service (po_share p s 0 0 9) * po_weight_of p 0 1"
proof -
  define s where "s = fold (\<lambda>a s. snd (sc_apply s a))
     [OpAdmit 0 0, OpAdmit 0 1, OpRun 0 0 0 1, OpPreempt 0 0 4, OpRun 0 1 0 4, OpPreempt 0 1 8] (sc_new 1 2 1)"
  define p where "p = po_set_weight (po_new 1 2 3) 0 1 2"
  have small: "list_all (list_all (\<lambda>c. runtime c \<le> u64_max)) (sc_domains s)" "(9::nat) \<le> u64_max"
    "list_all (list_all (\<lambda>x. x < 2 ^ 95)) (offset p)" "list_all (list_all (\<lambda>w. w < 2 ^ 32)) (weights p)"
    unfolding s_def p_def by code_simp+
  have c: "sc_fits s" "po_next p s 9 = Run 0 1 0" "sc_state_of s 0 0 = Some Runnable" "0 < sc_pcpu_count s"
    "sc_occupant s 0 = None" "sc_affinity_permits s 0 0 0" unfolding s_def p_def by code_simp+
  from conjunct1 [OF policy_most_deserving [OF c(1) po_share_small [OF small(1-3)] po_weight_small [OF small(4)]], rule_format, OF c(2)] c
  show ?thesis by blast
qed

text \<open>
  A vCPU that wakes up is placed at the floor of the pool. When an established vCPU (schedulable
  now and at the last accounting) exists, the floor is the least share among them; after the
  accounting a vCPU that has entered the pool has as service its own run time or the floor's service
  scaled to its weight, whichever is more, so it lies less than one tick below the floor; the offset of
  every other vCPU, the weights and the quantum stay as they were.
\<close>

theorem policy_wake_placement:
  assumes "sc_fits s" and "\<And>d v. service (po_share p s d v now) < 2 ^ 96" and "\<And>d v. po_weight_of p d v < 2 ^ 32"
    and "po_floor p s now = Some f" and "wake_boost p"
  shows "(\<exists>d v. schedulable s d v \<and> po_was_schedulable p d v \<and> f = po_share p s d v now) \<and>
     (\<forall>d v. schedulable s d v \<and> po_was_schedulable p d v \<longrightarrow>
        service f * po_weight_of p d v \<le> service (po_share p s d v now) * weight f) \<and>
     (\<forall>d v rt. schedulable s d v \<and> \<not> po_was_schedulable p d v \<and> tbl_get (offset p) d v \<noteq> None \<and> sc_runtime s d v = Some rt \<longrightarrow>
        (let sv = rt + po_offset_of (po_account p s now) d v in
         sv = max rt (service f * po_weight_of p d v div weight f) \<and>
         service f * po_weight_of p d v < (sv + 1) * weight f)) \<and>
     (\<forall>d v. \<not> (schedulable s d v \<and> \<not> po_was_schedulable p d v) \<longrightarrow>
        po_offset_of (po_account p s now) d v = po_offset_of p d v) \<and>
     (\<forall>d v. po_weight_of (po_account p s now) d v = po_weight_of p d v) \<and> quantum (po_account p s now) = quantum p"
proof -
  let ?cand = "\<lambda>(d, v). if schedulable s d v \<and> po_was_schedulable p d v then Some ((), po_share p s d v now) else None"
  have weight: "weight (po_share p s d v now) = po_weight_of p d v" for d v by (simp add: po_share_def Let_def)
  have exact: "share_exact (po_share p s d v now)" for d v
    using assms(2,3) weight by (simp add: share_exact_def po_weight_of_def MIN_WEIGHT_def)
  have kb: "keep_best more_deserving ?cand (all_vcpus s) = Some ((), f)" using assms(4) by (auto simp: po_floor_def)
  from keep_best_Some [OF kb] obtain d0 v0 where
    f: "schedulable s d0 v0" "po_was_schedulable p d0 v0" "f = po_share p s d0 v0 now" by (auto split: if_splits)
  have mem: "(d, v) \<in> set (all_vcpus s)" if "schedulable s d v" for d v
    using that assms(1) by (auto simp: all_vcpus_iff schedulable_def sc_state_of_eq split: option.splits)
  have least: "service f * po_weight_of p d v \<le> service (po_share p s d v now) * weight f"
    if e: "schedulable s d v" "po_was_schedulable p d v" for d v
  proof -
    have "\<not> more_deserving (po_share p s d v now) f"
      using deserving.keep_best_first [OF _ kb] exact mem [OF e(1)] e by (fastforce split: if_splits)
    then show ?thesis using exact f(3) by (simp add: more_deserving_exact weight not_less)
  qed
  have fpos: "0 < weight f" "service f < 2 ^ 96" using exact f(3) by (auto simp: share_exact_def)
  have acc: "po_offset_of (po_account p s now) d v =
      (if (d, v) \<in> set (all_vcpus s) \<and> tbl_get (offset p) d v \<noteq> None then po_placed p s (Some f) d v else po_offset_of p d v)" for d v
    using account_fold_effect [OF all_vcpus_distinct, of s "Some f" s p d v] by (simp add: po_account_def assms(4))
  have place: "let sv = rt + po_offset_of (po_account p s now) d v in
         sv = max rt (service f * po_weight_of p d v div weight f) \<and> service f * po_weight_of p d v < (sv + 1) * weight f"
    if w: "schedulable s d v" "\<not> po_was_schedulable p d v" "tbl_get (offset p) d v \<noteq> None" "sc_runtime s d v = Some rt" for d v rt
  proof -
    let ?t = "service f * po_weight_of p d v"
    have "sat_mul_u128 (service f) (po_weight_of p d v) = ?t" using mul_fits [OF fpos(2) assms(3)] by (simp add: sat_mul_u128_def)
    then have o: "po_offset_of (po_account p s now) d v = ?t div weight f - rt"
      using w mem [OF w(1)] assms(5) by (simp add: acc po_placed_def po_woke_def or_zero_def)
    have "?t < (?t div weight f + 1) * weight f" using fpos(1) by (simp add: dividend_less_div_times)
    also have "\<dots> \<le> (max rt (?t div weight f) + 1) * weight f" by simp
    finally show ?thesis using o by (auto simp: Let_def max_def split: if_splits)
  qed
  have keep: "po_offset_of (po_account p s now) d v = po_offset_of p d v"
    if "\<not> (schedulable s d v \<and> \<not> po_was_schedulable p d v)" for d v
    using that by (auto simp: acc po_placed_def po_woke_def)
  have cfg: "po_weight_of (po_account p s now) d v = po_weight_of p d v" "quantum (po_account p s now) = quantum p" for d v
    using account_config [of p s now] weight_of_config by (auto simp: po_same_config_def)
  show ?thesis
    by (intro conjI allI impI; (elim conjE)?) (use f least place keep cfg in blast)+
qed

theorem policy_wake_placement_witness:
  "\<exists>s p. schedulable s 0 1 \<and> \<not> po_was_schedulable p 0 1 \<and> po_floor p s 100 = Some \<lparr>service = 100, weight = 1\<rparr> \<and>
     po_weight_of p 0 1 = 3 \<and> po_offset_of (po_account p s 100) 0 1 = 300"
proof -
  define s where "s = fold (\<lambda>a s. snd (sc_apply s a)) [OpAdmit 0 0, OpRun 0 0 0 0, OpAdmit 0 1] (sc_new 1 2 1)"
  define p where "p = po_set_was_schedulable (po_set_weight (po_new 1 2 3) 0 1 3) 0 0 True"
  have small: "list_all (list_all (\<lambda>c. runtime c \<le> u64_max)) (sc_domains s)" "(100::nat) \<le> u64_max"
    "list_all (list_all (\<lambda>x. x < 2 ^ 95)) (offset p)" "list_all (list_all (\<lambda>w. w < 2 ^ 32)) (weights p)"
    unfolding s_def p_def by code_simp+
  have c: "sc_fits s" "po_floor p s 100 = Some \<lparr>service = 100, weight = 1\<rparr>" "wake_boost p"
    "schedulable s 0 1" "\<not> po_was_schedulable p 0 1" "po_weight_of p 0 1 = 3" "sc_runtime s 0 1 = Some 0"
    "tbl_get (offset p) 0 1 \<noteq> None" unfolding s_def p_def by code_simp+
  note place = policy_wake_placement [OF c(1) po_share_small [OF small(1-3)] po_weight_small [OF small(4)] c(2,3)]
  have "0 + po_offset_of (po_account p s 100) 0 1 = max 0 (100 * po_weight_of p 0 1 div 1)"
    using conjunct1 [OF conjunct2 [OF conjunct2 [OF place]], rule_format, of 0 1 0] c by (simp add: Let_def)
  then show ?thesis using c by auto
qed

text \<open>
  Waking up can also lower the service of a vCPU that stands above the floor, contrary to the
  comment in the code: the new offset replaces an earlier one, and is computed from the bare run time.
  Here vCPU 1 joined at the floor (offset 100), ran 20 ticks and slept, all under the policy's own driver;
  its effective service is 120 and the floor is at 105 when it wakes, and the accounting puts it back
  to 105, ahead of where it would have been had it stayed runnable.
\<close>

theorem policy_wake_drags_down:
  "\<exists>n1 p1 s1 n2 p2 s2 n3 p3 s3 n4 p4 s4 s5.
     po_advance (po_new 1 2 20) (snd (sc_admit (sc_new 1 2 1) 0 0)) 0 = Some (n1, p1, s1) \<and>
     po_advance p1 (snd (sc_admit s1 0 1)) 100 = Some (n2, p2, s2) \<and>
     po_advance p2 s2 101 = Some (n3, p3, s3) \<and>
     po_advance p3 (snd (sc_block s3 0 1 121)) 121 = Some (n4, p4, s4) \<and> s5 = snd (sc_wake s4 0 1) \<and>
     po_floor p4 s5 125 = Some \<lparr>service = 105, weight = 1\<rparr> \<and> service (po_share p4 s5 0 1 125) = 120 \<and>
     service (po_share (po_account p4 s5 125) s5 0 1 125) = 105"
proof -
  define p1 where "p1 = \<lparr>weights = [[1, 1]], quantum = 20, offset = [[0, 0]], was_schedulable = [[True, False]], wake_boost = True\<rparr>"
  define p2 where "p2 = \<lparr>weights = [[1, 1]], quantum = 20, offset = [[0, 100]], was_schedulable = [[True, True]], wake_boost = True\<rparr>"
  define p3 where "p3 = \<lparr>weights = [[1, 1]], quantum = 20, offset = [[0, 100]], was_schedulable = [[True, True]], wake_boost = True\<rparr>"
  define p4 where "p4 = \<lparr>weights = [[1, 1]], quantum = 20, offset = [[0, 100]], was_schedulable = [[True, False]], wake_boost = True\<rparr>"
  define s1 where "s1 = \<lparr>sc_domains = [[\<lparr>vc_state = Running 0, runtime = 0, dispatched_at = 0, affinity = 1\<rparr>,
       \<lparr>vc_state = Offline, runtime = 0, dispatched_at = 0, affinity = 1\<rparr>]], pcpus = [Some (0, 0)]\<rparr>"
  define s2 where "s2 = \<lparr>sc_domains = [[\<lparr>vc_state = Running 0, runtime = 0, dispatched_at = 0, affinity = 1\<rparr>,
       \<lparr>vc_state = Runnable, runtime = 0, dispatched_at = 0, affinity = 1\<rparr>]], pcpus = [Some (0, 0)]\<rparr>"
  define s3 where "s3 = \<lparr>sc_domains = [[\<lparr>vc_state = Runnable, runtime = 101, dispatched_at = 0, affinity = 1\<rparr>,
       \<lparr>vc_state = Running 0, runtime = 0, dispatched_at = 101, affinity = 1\<rparr>]], pcpus = [Some (0, 1)]\<rparr>"
  define s4 where "s4 = \<lparr>sc_domains = [[\<lparr>vc_state = Running 0, runtime = 101, dispatched_at = 121, affinity = 1\<rparr>,
       \<lparr>vc_state = Blocked, runtime = 20, dispatched_at = 101, affinity = 1\<rparr>]], pcpus = [Some (0, 0)]\<rparr>"
  define s5 where "s5 = \<lparr>sc_domains = [[\<lparr>vc_state = Running 0, runtime = 101, dispatched_at = 121, affinity = 1\<rparr>,
       \<lparr>vc_state = Runnable, runtime = 20, dispatched_at = 101, affinity = 1\<rparr>]], pcpus = [Some (0, 0)]\<rparr>"
  note defs = p1_def p2_def p3_def p4_def s1_def s2_def s3_def s4_def s5_def
  have "po_advance (po_new 1 2 20) (snd (sc_admit (sc_new 1 2 1) 0 0)) 0 = Some (1, p1, s1)" unfolding defs by code_simp
  moreover have "po_advance p1 (snd (sc_admit s1 0 1)) 100 = Some (0, p2, s2)" unfolding defs by code_simp
  moreover have "po_advance p2 s2 101 = Some (2, p3, s3)" unfolding defs by code_simp
  moreover have "po_advance p3 (snd (sc_block s3 0 1 121)) 121 = Some (1, p4, s4)" unfolding defs by code_simp
  moreover have "s5 = snd (sc_wake s4 0 1)" unfolding defs by code_simp
  moreover have "po_floor p4 s5 125 = Some \<lparr>service = 105, weight = 1\<rparr>" unfolding defs by code_simp
  moreover have "service (po_share p4 s5 0 1 125) = 120" unfolding defs by code_simp
  moreover have "service (po_share (po_account p4 s5 125) s5 0 1 125) = 105" unfolding defs by code_simp
  ultimately show ?thesis by blast
qed

end
