(* ===== verification/Policy_Stall.thy ===== *)
theory Policy_Stall
  imports Policy
begin

text \<open>
  The driver with a time slice of zero ticks. Then a vCPU that has just been dispatched may be
  preempted at once, the argument that bounds the number of transitions fails, and the safety limit
  of \<open>advance\<close> can end the loop between a preemption and the dispatch it was made for. This theory
  exhibits such a run, on one domain of ten vCPUs and six pCPUs.
\<close>

section \<open>A family of scheduler states\<close>

text \<open>
  vCPU \<open>i\<close> has run for \<open>i\<close> ticks and may use the pCPUs of its mask; the state is then given by who
  occupies which pCPU. All weights are one, so a smaller number is more deserving.
\<close>

definition stall_mask :: "nat \<Rightarrow> nat" where
  "stall_mask i = [1, 17, 21, 52, 44, 46, 50, 58, 47, 29] ! i"

definition permit :: "nat \<Rightarrow> nat \<Rightarrow> bool" where
  "permit i q \<longleftrightarrow> odd (stall_mask i div 2 ^ q)"

definition place_of :: "nat option list \<Rightarrow> nat \<Rightarrow> nat option" where
  "place_of A i = position (\<lambda>x. x = Some i) A"

definition stall_vcpu :: "nat option list \<Rightarrow> nat \<Rightarrow> VirtualCpu" where
  "stall_vcpu A i = \<lparr>vc_state = (case place_of A i of Some q \<Rightarrow> Running q | None \<Rightarrow> Runnable),
     runtime = i, dispatched_at = 10, affinity = of_nat (stall_mask i)\<rparr>"

definition stall :: "nat option list \<Rightarrow> SchedSystem" where
  "stall A = \<lparr>sc_domains = [map (stall_vcpu A) [0..<10]], pcpus = map (map_option (Pair 0)) A\<rparr>"

definition stall_ok :: "nat option list \<Rightarrow> bool" where
  "stall_ok A \<longleftrightarrow> length A = 6 \<and> (\<forall>q i. q < 6 \<longrightarrow> A ! q = Some i \<longrightarrow> i < 10 \<and> permit i q) \<and>
     (\<forall>q q' i. q < 6 \<longrightarrow> q' < 6 \<longrightarrow> A ! q = Some i \<longrightarrow> A ! q' = Some i \<longrightarrow> q' = q)"

text \<open>The choice of the policy on such a state, and one round of the driver.\<close>

definition stall_next :: "nat option list \<Rightarrow> Decision" where
  "stall_next A =
     (case find_map (\<lambda>i. if place_of A i \<noteq> None then None
              else map_option (Run 0 i) (find (\<lambda>q. A ! q = None \<and> permit i q) [0..<6])) [0..<10] of
        Some r \<Rightarrow> r
      | None \<Rightarrow>
          (case find_map (\<lambda>i. case place_of A i of
                None \<Rightarrow> None
              | Some q \<Rightarrow> if list_ex (\<lambda>j. place_of A j = None \<and> permit j q \<and> j < i) [0..<10]
                          then Some (Preempt 0 i q) else None) (rev [0..<10]) of
             Some r \<Rightarrow> r
           | None \<Rightarrow> Idle))"

definition stall_step :: "nat option list \<Rightarrow> nat option list" where
  "stall_step A = (case stall_next A of Run _ i q \<Rightarrow> A[q := Some i] | Preempt _ i q \<Rightarrow> A[q := None] | Idle \<Rightarrow> A)"

lemma stall_okD:
  assumes "stall_ok A"
  shows "length A = 6" "q < 6 \<Longrightarrow> A ! q = Some i \<Longrightarrow> i < 10 \<and> permit i q"
    "q < 6 \<Longrightarrow> q' < 6 \<Longrightarrow> A ! q = Some i \<Longrightarrow> A ! q' = Some i \<Longrightarrow> q' = q"
  using assms unfolding stall_ok_def by blast+

lemma stall_okI:
  assumes "length A = 6" "\<And>q i. q < 6 \<Longrightarrow> A ! q = Some i \<Longrightarrow> i < 10 \<and> permit i q"
    "\<And>q q' i. q < 6 \<Longrightarrow> q' < 6 \<Longrightarrow> A ! q = Some i \<Longrightarrow> A ! q' = Some i \<Longrightarrow> q' = q"
  shows "stall_ok A"
  unfolding stall_ok_def using assms by blast

lemma place_of_Some: "stall_ok A \<Longrightarrow> place_of A i = Some q \<longleftrightarrow> q < 6 \<and> A ! q = Some i"
  using stall_okD [of A] by (auto simp: place_of_def position_Some) (metis nat_neq_iff order.strict_trans)

lemma place_of_None: "stall_ok A \<Longrightarrow> place_of A i = None \<longleftrightarrow> (\<forall>q < 6. A ! q \<noteq> Some i)"
  using stall_okD(1) [of A] by (auto simp: place_of_def position_None in_set_conv_nth)

lemma place_of_eqI:
  assumes "stall_ok A" "stall_ok B" "\<And>q. q < 6 \<Longrightarrow> A ! q = Some i \<longleftrightarrow> B ! q = Some i" shows "place_of A i = place_of B i"
proof -
  have "place_of A i = Some q \<longleftrightarrow> place_of B i = Some q" for q using assms by (auto simp: place_of_Some)
  then show ?thesis by (metis not_None_eq)
qed

lemma stall_get: "sc_get (stall A) d v = (if d = 0 \<and> v < 10 then Some (stall_vcpu A v) else None)"
  by (auto simp: sc_get_def stall_def tbl_get_def vec_get_def)

lemma stall_counts:
  "sc_domain_count (stall A) = 1" "sc_vcpu_count (stall A) 0 = 10" "sc_pcpu_count (stall A) = length A"
  by (simp_all add: stall_def sc_domain_count_def sc_vcpu_count_def sc_pcpu_count_def vec_get_def)

lemma stall_vcpus: "all_vcpus (stall A) = map (Pair 0) [0..<10]"
  by (simp add: all_vcpus_def stall_counts)

lemma permit_bit: "permit i q \<longleftrightarrow> bit (stall_mask i) q"
  by (simp add: permit_def bit_iff_odd)

lemma stall_permits: "v < 10 \<Longrightarrow> q < 6 \<Longrightarrow> sc_affinity_permits (stall A) 0 v q \<longleftrightarrow> permit v q"
  by (simp add: sc_affinity_permits_iff stall_get stall_vcpu_def mask_permits_iff permit_bit bit_simps)

lemma stall_occupant: "length A = 6 \<Longrightarrow> q < 6 \<Longrightarrow> sc_occupant (stall A) q = map_option (Pair 0) (A ! q)"
  by (simp add: sc_occupant_def stall_def vec_get_def)

lemma stall_state:
  "v < 10 \<Longrightarrow> sc_state_of (stall A) 0 v = Some (case place_of A v of Some q \<Rightarrow> Running q | None \<Rightarrow> Runnable)"
  by (simp add: sc_state_of_eq stall_get stall_vcpu_def)

lemma stall_sc_ok: assumes ok: "stall_ok A" shows "sc_ok (stall A)"
proof (rule sc_okI)
  show "sc_fits (stall A)" using stall_okD(1) [OF ok] by (simp add: stall_def sc_fits_def)
next
  fix d v vc p assume g: "sc_get (stall A) d v = Some vc" and r: "vc_state vc = Running p"
  then have v: "d = 0" "v < 10" "vc = stall_vcpu A v" by (auto simp: stall_get split: if_splits)
  with r have p: "p < 6" "A ! p = Some v" by (auto simp: stall_vcpu_def place_of_Some [OF ok] split: option.splits)
  then have "permit v p" using stall_okD(2) [OF ok] by blast
  then have "mask_permits (affinity vc) p" using v p stall_permits [of v p A] by (simp add: sc_affinity_permits_iff stall_get)
  moreover have "vec_get (pcpus (stall A)) p = Some (Some (d, v))" using p v stall_okD(1) [OF ok] by (simp add: stall_def vec_get_def)
  ultimately show "vec_get (pcpus (stall A)) p = Some (Some (d, v)) \<and> mask_permits (affinity vc) p" by blast
next
  fix p d v assume "vec_get (pcpus (stall A)) p = Some (Some (d, v))"
  then have "p < 6" "A ! p = Some v" "d = 0" using stall_okD(1) [OF ok] by (auto simp: stall_def vec_get_def split: if_splits)
  then show "\<exists>vc. sc_get (stall A) d v = Some vc \<and> vc_state vc = Running p"
    using stall_okD(2) [OF ok] place_of_Some [OF ok, of v p] by (auto simp: stall_get stall_vcpu_def)
qed

section \<open>The policy on the family\<close>

text \<open>On candidates in the order of their keys the running choice is the first one, or the last one.\<close>

lemma keep_best_ascending:
  assumes "\<And>us x vs x' y k y' k'. xs = us @ x # vs \<Longrightarrow> x' \<in> set vs \<Longrightarrow> cand x = Some (y, k) \<Longrightarrow> cand x' = Some (y', k') \<Longrightarrow> \<not> better k' k"
  shows "keep_best better cand xs = find_map cand xs"
  using assms
proof (induction xs rule: rev_induct)
  case (snoc x xs)
  have IH: "keep_best better cand xs = find_map cand xs"
  proof (rule snoc.IH)
    fix us a vs x' y k y' k' assume "xs = us @ a # vs" "x' \<in> set vs" "cand a = Some (y, k)" "cand x' = Some (y', k')"
    then show "\<not> better k' k" using snoc.prems [of us a "vs @ [x]" x'] by simp
  qed
  have app: "find_map cand (xs @ [x]) = (case find_map cand xs of None \<Rightarrow> cand x | Some r \<Rightarrow> Some r)"
    by (induction xs) (auto split: option.splits)
  show ?case
  proof (cases "find_map cand xs")
    case (Some yk)
    obtain y k where yk: "yk = (y, k)" by (cases yk)
    from find_map_Some_ex [OF Some] obtain a where a: "a \<in> set xs" "cand a = Some (y, k)" by (auto simp: yk)
    then obtain us vs where "xs = us @ a # vs" by (meson split_list)
    then have "\<not> better k' k" if "cand x = Some (y', k')" for y' k' using snoc.prems [of us a "vs @ [x]" x] a that by simp
    then show ?thesis using Some IH app yk by (auto simp: keep_best_step split: option.splits)
  qed (use IH app in \<open>auto simp: keep_best_step split: option.splits\<close>)
qed simp

lemma keep_best_descending:
  assumes "\<And>us x vs x' y k y' k'. xs = us @ x # vs \<Longrightarrow> x' \<in> set us \<Longrightarrow> cand x = Some (y, k) \<Longrightarrow> cand x' = Some (y', k') \<Longrightarrow> better k k'"
  shows "keep_best better cand xs = find_map cand (rev xs)"
  using assms
proof (induction xs rule: rev_induct)
  case (snoc x xs)
  have IH: "keep_best better cand xs = find_map cand (rev xs)"
  proof (rule snoc.IH)
    fix us a vs x' y k y' k' assume "xs = us @ a # vs" "x' \<in> set us" "cand a = Some (y, k)" "cand x' = Some (y', k')"
    then show "better k k'" using snoc.prems [of us a "vs @ [x]" x'] by simp
  qed
  have "better k b" if "cand x = Some (y, k)" "find_map cand (rev xs) = Some (z, b)" for y k z b
    using find_map_Some_ex [OF that(2)] snoc.prems [of xs x "[]"] that(1) by auto
  then show ?case using IH by (auto simp: keep_best_step split: option.splits)
qed simp

text \<open>The configuration in which the number of a vCPU is its rank.\<close>

definition plain :: "Scheduler \<Rightarrow> bool" where
  "plain p \<longleftrightarrow> quantum p = 0 \<and> (\<forall>d v. po_weight_of p d v = 1 \<and> po_offset_of p d v = 0)"

lemma stall_share:
  assumes "plain p" "v < 10" shows "po_share p (stall A) 0 v 10 = \<lparr>service = v, weight = 1\<rparr>"
  using assms by (auto simp: po_share_def plain_def sc_runtime_def sc_on_cpu_since_def or_zero_def stall_get stall_vcpu_def
      split: option.splits)

lemma stall_more_deserving: "v < 10 \<Longrightarrow> v' < 10 \<Longrightarrow> more_deserving \<lparr>service = v, weight = Suc 0\<rparr> \<lparr>service = v', weight = Suc 0\<rparr> \<longleftrightarrow> v < v'"
  by (simp add: more_deserving_def sat_mul_u128_def)

lemma find_map_map: "find_map f (map g xs) = find_map (\<lambda>x. f (g x)) xs"
  by (induction xs) (auto split: option.splits)

lemma find_map_cong: "(\<And>x. x \<in> set xs \<Longrightarrow> f x = g x) \<Longrightarrow> find_map f xs = find_map g xs"
  by (induction xs) (auto split: option.splits)

lemma map_find_map: "map_option h (find_map f xs) = find_map (\<lambda>x. map_option h (f x)) xs"
  by (induction xs) (auto split: option.splits)

lemma stall_placement:
  assumes p: "plain p" and A: "stall_ok A" and v: "v < 10"
  shows "placement p (stall A) 10 (0, v) =
     (if place_of A v \<noteq> None then None
      else map_option (\<lambda>q. ((0, v, q), \<lparr>service = v, weight = 1\<rparr>)) (find (\<lambda>q. A ! q = None \<and> permit v q) [0..<6]))"
proof -
  note len = stall_okD(1) [OF A]
  have "po_first_idle_pcpu_for (stall A) 0 v = find (\<lambda>q. A ! q = None \<and> permit v q) [0..<6]"
    unfolding po_first_idle_pcpu_for_def stall_counts len
    using v by (auto simp: stall_occupant [OF len] stall_permits intro!: find_cong)
  then show ?thesis using v stall_share [OF p v] by (auto simp: placement_def stall_state split: option.splits)
qed

lemma stall_eviction:
  assumes p: "plain p" and A: "stall_ok A" and v: "v < 10"
  shows "eviction p (stall A) 10 (0, v) =
     (case place_of A v of
        None \<Rightarrow> None
      | Some q \<Rightarrow> if list_ex (\<lambda>j. place_of A j = None \<and> permit j q \<and> j < v) [0..<10]
                  then Some ((0, v, q), \<lparr>service = v, weight = 1\<rparr>) else None)"
proof (cases "place_of A v")
  case (Some q)
  then have q: "q < 6" using place_of_Some [OF A] by blast
  have "po_some_affine_waiter_beats p (stall A) q \<lparr>service = v, weight = 1\<rparr> 10 \<longleftrightarrow>
      list_ex (\<lambda>j. place_of A j = None \<and> permit j q \<and> j < v) [0..<10]"
    using v q by (auto simp: po_some_affine_waiter_beats_def stall_vcpus list_ex_iff stall_state stall_permits
        stall_share [OF p] stall_more_deserving split: option.splits)
  then show ?thesis using p Some v stall_share [OF p v] by (simp add: eviction_def stall_state plain_def Let_def)
qed (use v in \<open>simp add: eviction_def stall_state\<close>)

lemma upt_split: "map (Pair (0::nat)) [0..<n] = us @ x # vs \<Longrightarrow>
    \<exists>i < n. x = (0, i) \<and> (\<forall>y \<in> set us. \<exists>j < i. y = (0, j)) \<and> (\<forall>y \<in> set vs. \<exists>j. i < j \<and> j < n \<and> y = (0, j))"
proof -
  assume eq: "map (Pair (0::nat)) [0..<n] = us @ x # vs"
  let ?i = "length us"
  have i: "?i < n" using arg_cong [OF eq, of length] by simp
  have nth: "(us @ x # vs) ! k = (0, k)" if "k < n" for k using that eq [symmetric] by simp
  have len: "n = length us + 1 + length vs" using arg_cong [OF eq, of length] by simp
  have "x = (0, ?i)" using nth [OF i] by simp
  moreover have "\<exists>j < ?i. y = (0, j)" if "y \<in> set us" for y
  proof -
    from that obtain j where "j < ?i" "us ! j = y" by (auto simp: in_set_conv_nth)
    then show ?thesis using nth [of j] i by (auto simp: nth_append)
  qed
  moreover have "\<exists>j. ?i < j \<and> j < n \<and> y = (0, j)" if "y \<in> set vs" for y
  proof -
    from that obtain k where "k < length vs" "vs ! k = y" by (auto simp: in_set_conv_nth)
    then show ?thesis using nth [of "?i + 1 + k"] len by (intro exI [of _ "?i + 1 + k"]) (auto simp: nth_append)
  qed
  ultimately show ?thesis using i by blast
qed

lemma stall_next_eq:
  assumes p: "plain p" and A: "stall_ok A" shows "po_next p (stall A) 10 = stall_next A"
proof -
  have cmp: "\<not> more_deserving k' k" if "map (Pair 0) [0..<10] = us @ x # vs" "x' \<in> set vs"
      "placement p (stall A) 10 x = Some (y, k)" "placement p (stall A) 10 x' = Some (y', k')" for us x vs x' y k y' k'
  proof -
    from upt_split [OF that(1)] that(2) obtain i j where "x = (0, i)" "x' = (0, j)" "i < j" "j < 10" by blast
    with that(3,4) show ?thesis by (auto simp: stall_placement [OF p A] stall_more_deserving split: if_splits)
  qed
  have ev: "more_deserving k' k" if "map (Pair 0) [0..<10] = us @ x # vs" "x' \<in> set us"
      "eviction p (stall A) 10 x = Some (y, k)" "eviction p (stall A) 10 x' = Some (y', k')" for us x vs x' y k y' k'
  proof -
    from upt_split [OF that(1)] that(2) obtain i j where "x = (0, i)" "x' = (0, j)" "j < i" "i < 10" by blast
    with that(3,4) show ?thesis by (auto simp: stall_eviction [OF p A] stall_more_deserving split: if_splits option.splits)
  qed
  have up: "keep_best more_deserving (placement p (stall A) 10) (map (Pair 0) [0..<10]) =
      find_map (placement p (stall A) 10) (map (Pair 0) [0..<10])"
    by (rule keep_best_ascending) (rule cmp)
  have down: "keep_best (\<lambda>k b. more_deserving b k) (eviction p (stall A) 10) (map (Pair 0) [0..<10]) =
      find_map (eviction p (stall A) 10) (rev (map (Pair 0) [0..<10]))"
    by (rule keep_best_descending) (rule ev)
  have place: "po_best_placement p (stall A) 10 = find_map (\<lambda>v. if place_of A v \<noteq> None then None
      else map_option (\<lambda>q. (0, v, q)) (find (\<lambda>q. A ! q = None \<and> permit v q) [0..<6])) [0..<10]"
    unfolding po_best_placement_def stall_vcpus up find_map_map map_find_map
    by (rule find_map_cong) (auto simp: stall_placement [OF p A] option.map_comp comp_def)
  have evict: "po_best_preemption p (stall A) 10 = find_map (\<lambda>v. case place_of A v of None \<Rightarrow> None
      | Some q \<Rightarrow> if list_ex (\<lambda>j. place_of A j = None \<and> permit j q \<and> j < v) [0..<10] then Some (0, v, q) else None) (rev [0..<10])"
    unfolding po_best_preemption_def stall_vcpus down rev_map find_map_map map_find_map
    by (rule find_map_cong) (auto simp: stall_eviction [OF p A] split: option.splits)
  have run: "find_map (\<lambda>i. if place_of A i \<noteq> None then None
      else map_option (Run 0 i) (find (\<lambda>q. A ! q = None \<and> permit i q) [0..<6])) [0..<10] =
      map_option (\<lambda>(d, v, q). Run d v q) (po_best_placement p (stall A) 10)"
    unfolding place map_find_map by (rule find_map_cong) (auto simp: option.map_comp comp_def)
  have pre: "find_map (\<lambda>i. case place_of A i of None \<Rightarrow> None
              | Some q \<Rightarrow> if list_ex (\<lambda>j. place_of A j = None \<and> permit j q \<and> j < i) [0..<10]
                          then Some (Preempt 0 i q) else None) (rev [0..<10]) =
      map_option (\<lambda>(d, v, q). Preempt d v q) (po_best_preemption p (stall A) 10)"
    unfolding evict map_find_map by (rule find_map_cong) (auto split: option.splits)
  show ?thesis unfolding stall_next_def run pre po_next_def by (auto split: option.splits)
qed

section \<open>One round of the driver\<close>

lemma stall_update:
  assumes A: "stall_ok A" and q: "q < 6" and B: "B = A[q := x]" "stall_ok B" and i: "i < 10"
    and own: "A ! q = None \<or> A ! q = Some i" "x = None \<or> x = Some i"
    and c: "c = stall_vcpu B i"
  shows "(sc_put (stall A) 0 i c)\<lparr>pcpus := (pcpus (stall A))[q := map_option (Pair 0) x]\<rparr> = stall B"
proof -
  have other: "stall_vcpu A j = stall_vcpu B j" if "j \<noteq> i" for j
  proof -
    have "A ! q' = Some j \<longleftrightarrow> B ! q' = Some j" if "q' < 6" for q'
      using that q B(1) own \<open>j \<noteq> i\<close> stall_okD(1) [OF A] by (cases "q' = q") auto
    then have "place_of A j = place_of B j" using place_of_eqI [OF A B(2)] by blast
    then show ?thesis by (simp add: stall_vcpu_def)
  qed
  have "(map (stall_vcpu A) [0..<10])[i := c] = map (stall_vcpu B) [0..<10]"
    using other c i by (intro nth_equalityI) (auto simp: nth_list_update)
  moreover have "(map (map_option (Pair 0)) A)[q := map_option (Pair 0) x] = map (map_option (Pair (0::nat))) B"
    by (simp add: B(1) map_update)
  ultimately show ?thesis by (simp add: stall_def sc_put_def tbl_set_def)
qed

lemma stall_place:
  assumes A: "stall_ok A" and q: "q < 6" "A ! q = None" and i: "i < 10" "permit i q" "place_of A i = None"
  shows "stall_ok (A[q := Some i]) \<and> sc_run (stall A) 0 i q 10 = (Ok (), stall (A[q := Some i]))"
proof -
  note len = stall_okD(1) [OF A]
  have free: "\<forall>q' < 6. A ! q' \<noteq> Some i" using i(3) place_of_None [OF A] by blast
  have B: "stall_ok (A[q := Some i])"
    using len q(1) i free stall_okD(2,3) [OF A] by (intro stall_okI) (auto simp: nth_list_update split: if_splits)
  have "place_of (A[q := Some i]) i = Some q" using place_of_Some [OF B] q(1) len by simp
  then have "(stall_vcpu A i)\<lparr>vc_state := Running q, dispatched_at := 10\<rparr> = stall_vcpu (A[q := Some i]) i"
    by (simp add: stall_vcpu_def)
  moreover have "sc_run (stall A) 0 i q 10 = (Ok (), (sc_put (stall A) 0 i ((stall_vcpu A i)\<lparr>vc_state := Running q, dispatched_at := 10\<rparr>))
      \<lparr>pcpus := (pcpus (stall A))[q := Some (0, i)]\<rparr>)"
  proof (rule sc_run_accepts)
    show "mask_permits (affinity (stall_vcpu A i)) q"
      using stall_permits [OF i(1) q(1), of A] i by (simp add: sc_affinity_permits_iff stall_get)
    show "vec_get (pcpus (stall A)) q = Some None" using q len by (simp add: stall_def vec_get_def)
  qed (use i in \<open>simp_all add: stall_get stall_vcpu_def\<close>)
  ultimately show ?thesis using B stall_update [OF A q(1) refl B i(1)] q(2) by simp
qed

lemma stall_evict:
  assumes A: "stall_ok A" and q: "place_of A i = Some q"
  shows "stall_ok (A[q := None]) \<and> sc_preempt (stall A) 0 i 10 = (Ok (), stall (A[q := None]))"
proof -
  note len = stall_okD(1) [OF A]
  have at: "q < 6" "A ! q = Some i" using q place_of_Some [OF A] by blast+
  then have i: "i < 10" using stall_okD(2) [OF A] by blast
  have B: "stall_ok (A[q := None])"
    using len stall_okD(2,3) [OF A] at(1) by (intro stall_okI) (auto simp: nth_list_update split: if_splits)
  have "place_of (A[q := None]) i = None"
    unfolding place_of_None [OF B] using stall_okD(3) [OF A at(1) _ at(2)] len at(1) by (auto simp: nth_list_update)
  then have "(stall_vcpu A i)\<lparr>runtime := sc_charged 10 (stall_vcpu A i), vc_state := Runnable\<rparr> = stall_vcpu (A[q := None]) i"
    using q i by (simp add: stall_vcpu_def sc_charged_def sat_add_u64_def)
  moreover have "sc_get (stall A) 0 i = Some (stall_vcpu A i)" "vc_state (stall_vcpu A i) = Running q"
    using i q by (simp_all add: stall_get stall_vcpu_def)
  note sc_preempt_effect [OF stall_sc_ok [OF A] this]
  ultimately show ?thesis using B stall_update [OF A at(1) refl B i] at by simp
qed

lemma stall_drive_step:
  assumes p: "plain p" and A: "stall_ok A" and n: "stall_next A \<noteq> Idle"
  shows "stall_ok (stall_step A) \<and> po_drive p 10 (Suc k) e (stall A) = po_drive p 10 k (e + 1) (stall (stall_step A))"
proof (cases "stall_next A")
  case (Run d i q)
  note next' = stall_next_eq [OF p A, unfolded Run]
  from next_Run [OF next'] have r: "sc_state_of (stall A) d i = Some Runnable" "po_first_idle_pcpu_for (stall A) d i = Some q" by auto
  then have di: "d = 0" "i < 10" by (auto simp: sc_state_of_eq stall_get split: if_splits)
  then have w: "place_of A i = None" using r(1) by (auto simp: stall_state split: option.splits)
  have fits: "sc_fits (stall A)" using stall_sc_ok [OF A] by (simp add: sc_ok_def)
  from first_idle_Some [OF fits r(2)] have q: "q < 6" "A ! q = None" "permit i q"
    using di stall_okD(1) [OF A] by (auto simp: stall_counts stall_occupant stall_permits)
  from stall_place [OF A q(1,2) di(2) q(3) w] show ?thesis using Run next' di by (simp add: stall_step_def)
next
  case (Preempt d i q)
  note next' = stall_next_eq [OF p A, unfolded Preempt]
  from next_Preempt [OF next'] have r: "sc_state_of (stall A) d i = Some (Running q)" by auto
  then have di: "d = 0" "i < 10" by (auto simp: sc_state_of_eq stall_get split: if_splits)
  then have "place_of A i = Some q" using r by (auto simp: stall_state split: option.splits)
  from stall_evict [OF A this] show ?thesis using Preempt next' di by (simp add: stall_step_def)
qed (use n in simp)

fun stall_run :: "nat \<Rightarrow> nat option list \<Rightarrow> nat option list option" where
  "stall_run 0 A = Some A"
| "stall_run (Suc k) A = (if stall_next A = Idle then None else stall_run k (stall_step A))"

lemma stall_drive:
  assumes "plain p" "stall_ok A" "stall_run k A = Some B"
  shows "stall_ok B \<and> po_drive p 10 k e (stall A) = Some (e + k, stall B)"
  using assms
proof (induction k arbitrary: A e)
  case (Suc k)
  have n: "stall_next A \<noteq> Idle" and r: "stall_run k (stall_step A) = Some B" using Suc.prems(3) by (simp_all split: if_splits)
  note step = stall_drive_step [OF Suc.prems(1,2) n, of k e]
  from Suc.IH [OF Suc.prems(1) conjunct1 [OF step] r, of "e + 1"] conjunct2 [OF step] show ?case by simp
qed simp

section \<open>The run\<close>

lemma stall_plain:
  assumes p: "p = po_new 1 10 0" shows "plain (po_account p (stall A) 10)"
proof -
  have w: "po_weight_of p d v = 1" "po_offset_of p d v = 0" "\<not> po_was_schedulable p d v" for d v
    by (auto simp: p po_weight_of_def po_offset_of_def po_was_schedulable_def tbl_or_def tbl_get_def vec_get_def po_new_def MIN_WEIGHT_def
        split: option.splits if_splits)
  have "keep_best more_deserving (\<lambda>(d, v). if schedulable (stall A) d v \<and> po_was_schedulable p d v
      then Some ((), po_share p (stall A) d v 10) else None) (all_vcpus (stall A)) = None"
    unfolding keep_best_None using w by auto
  then have f: "po_floor p (stall A) 10 = None" unfolding po_floor_def by (simp only: option.map)
  have "po_offset_of (po_account p (stall A) 10) d v = 0" for d v
    using account_fold_effect [OF all_vcpus_distinct, of "stall A" None "stall A" p d v] w
    by (simp add: po_account_def f po_placed_def)
  moreover have "quantum p = 0" by (simp add: p po_new_def)
  ultimately show ?thesis
    using account_config [of p "stall A" 10] w(1) weight_of_config [OF account_config]
    by (simp add: plain_def po_same_config_def)
qed

text \<open>
  With a time slice of zero ticks the driver can leave a pCPU idle although a runnable vCPU may use
  it. On a consistent scheduler of ten vCPUs and six occupied pCPUs a call of \<open>advance\<close> stops at its
  limit of 23 transitions, right after a preemption: pCPU 1 is idle, vCPU 5 is runnable and permitted on
  it, and the mechanism would accept that dispatch.
\<close>

theorem policy_stall_quantum_zero:
  "\<exists>s p' s'. sc_first_violation s = None \<and> None \<notin> set (pcpus s) \<and>
     po_advance (po_new 1 10 0) s 10 = Some (po_limit s, p', s') \<and> sc_first_violation s' = None \<and>
     sc_occupant s' 1 = None \<and> sc_state_of s' 0 5 = Some Runnable \<and> sc_affinity_permits s' 0 5 1 \<and>
     fst (sc_run s' 0 5 1 10) = Ok ()"
proof -
  define A :: "nat option list" where "A = [Some 1, Some 7, Some 5, Some 9, Some 6, Some 4]"
  define B :: "nat option list" where "B = [Some 0, None, Some 2, Some 4, Some 1, Some 3]"
  have six: "q < 6 \<longleftrightarrow> q = 0 \<or> q = 1 \<or> q = 2 \<or> q = 3 \<or> q = 4 \<or> q = 5" for q :: nat by auto
  have A: "stall_ok A"
    by (rule stall_okI; simp add: A_def six; elim disjE; simp add: permit_def stall_mask_def)
  have run: "stall_run 23 A = Some B" unfolding A_def B_def by code_simp
  note drive = stall_drive [OF stall_plain [OF refl] A run, of A 0]
  have B: "stall_ok B" "permit 5 1" "place_of B 5 = None" using drive apply blast unfolding B_def by code_simp+
  have lim: "po_limit (stall A) = 23" by (simp add: po_limit_def stall_counts A_def)
  let ?p = "po_account (po_new 1 10 0) (stall A) 10"
  have "po_advance (po_new 1 10 0) (stall A) 10 = Some (23, ?p, stall B)"
    using drive by (simp add: po_advance_def lim)
  moreover have "None \<notin> set (pcpus (stall A))" by (simp add: stall_def A_def)
  moreover have "sc_occupant (stall B) 1 = None" by (simp add: stall_occupant B_def)
  moreover have "sc_state_of (stall B) 0 5 = Some Runnable" using B(3) by (simp add: stall_state)
  moreover have "sc_affinity_permits (stall B) 0 5 1" using B(2) stall_permits [of 5 1 B] by simp
  moreover have "fst (sc_run (stall B) 0 5 1 10) = Ok ()"
    using stall_place [OF B(1) _ _ _ B(2,3)] by (simp add: B_def)
  ultimately show ?thesis
    using sc_no_violation [OF stall_sc_ok [OF A]] sc_no_violation [OF stall_sc_ok [OF B(1)]]
    by (intro exI [of _ "stall A"] exI [of _ ?p] exI [of _ "stall B"]) (simp only: lim, blast)
qed

end
