(* ===== verification/Control.thy ===== *)
theory Control
  imports HV_Prelude
begin

text \<open>
  The authority relation of \<open>hv-core/src/hypervisor.rs\<close>: who controls whom, and through which
  delegation. Column \<open>t\<close> of the matrix is a forest over the holders of control of \<open>t\<close>: a root
  edge from the creator, and delegated edges that name their parent.

  The bounded subtree walk and the fixpoint sweep that removes orphaned edges are modelled; the
  sweep is shown to terminate, to remove exactly the edges that no longer reach a root, and so
  to restore the forest.
\<close>

datatype Control = Absent | Root | Via DomId

type_synonym controls = "Control list list"

text \<open>An indexed write \<open>self.controls[h][t] = v\<close>; \<open>None\<close> is its panic.\<close>

definition ctl_set :: "nat \<Rightarrow> nat \<Rightarrow> Control \<Rightarrow> controls \<Rightarrow> controls option" where
  "ctl_set h t v c = (if tbl_get c h t = None then None else Some (tbl_set c h t v))"

text \<open>The bounded walk up the delegation chain; \<open>None\<close> is an index out of range.\<close>

fun ctl_climb :: "controls \<Rightarrow> nat \<Rightarrow> DomId \<Rightarrow> nat \<Rightarrow> DomId \<Rightarrow> bool option" where
  "ctl_climb c t caller 0 cur = Some False"
| "ctl_climb c t caller (Suc k) cur =
     (if cur = caller then Some True
      else case tbl_get c cur t of
             None \<Rightarrow> None
           | Some (Via parent) \<Rightarrow> ctl_climb c t caller k parent
           | Some _ \<Rightarrow> Some False)"

definition control_subtree_contains :: "nat \<Rightarrow> controls \<Rightarrow> DomId \<Rightarrow> DomId \<Rightarrow> DomId \<Rightarrow> bool option" where
  "control_subtree_contains n c caller node target = ctl_climb c target caller (n + 1) node"

text \<open>One edge of the sweep, one pass over the matrix, and the loop until nothing changes.\<close>

definition ctl_sweep_edge :: "nat \<times> nat \<Rightarrow> controls \<times> bool \<Rightarrow> (controls \<times> bool) option" where
  "ctl_sweep_edge th cb =
     (case th of (t, h) \<Rightarrow> case cb of (c, changed) \<Rightarrow>
      (case tbl_get c h t of
         None \<Rightarrow> None
       | Some (Via parent) \<Rightarrow>
           (case tbl_get c parent t of
              None \<Rightarrow> None
            | Some Absent \<Rightarrow> map_option (\<lambda>c'. (c', True)) (ctl_set h t Absent c)
            | Some _ \<Rightarrow> Some (c, changed))
       | Some _ \<Rightarrow> Some (c, changed)))"

definition ctl_pass :: "nat \<Rightarrow> controls \<Rightarrow> (controls \<times> bool) option" where
  "ctl_pass n c =
     for_each (\<lambda>t. for_each (\<lambda>h. ctl_sweep_edge (t, h)) [0..<n]) [0..<n] (c, False)"

partial_function (option) sweep_orphaned_control_edges :: "nat \<Rightarrow> controls \<Rightarrow> controls option" where
  [code]: "sweep_orphaned_control_edges n c =
     (case ctl_pass n c of
        None \<Rightarrow> None
      | Some (c', changed) \<Rightarrow> if changed then sweep_orphaned_control_edges n c' else Some c')"

text \<open>The clearing loop of a teardown: every edge into and out of \<open>t\<close>.\<close>

definition ctl_clear :: "nat \<Rightarrow> nat \<Rightarrow> controls \<Rightarrow> controls option" where
  "ctl_clear n t c =
     for_each (\<lambda>h c. Option.bind (ctl_set h t Absent c) (ctl_set t h Absent)) [0..<n] c"

text \<open>The check that a chain reaches a root within \<open>n\<close> delegations.\<close>

fun ctl_reaches_root :: "controls \<Rightarrow> nat \<Rightarrow> nat \<Rightarrow> nat \<Rightarrow> bool option" where
  "ctl_reaches_root c t k cur =
     (case tbl_get c cur t of
        None \<Rightarrow> None
      | Some Root \<Rightarrow> Some True
      | Some Absent \<Rightarrow> Some False
      | Some (Via parent) \<Rightarrow> (case k of 0 \<Rightarrow> Some False | Suc k' \<Rightarrow> ctl_reaches_root c t k' parent))"

section \<open>The forest\<close>

definition ctl_edge :: "controls \<Rightarrow> nat \<Rightarrow> nat \<Rightarrow> Control" where
  "ctl_edge c h t = (case tbl_get c h t of None \<Rightarrow> Absent | Some v \<Rightarrow> v)"

definition ctl_square :: "nat \<Rightarrow> controls \<Rightarrow> bool" where
  "ctl_square n c \<longleftrightarrow> length c = n \<and> (\<forall>row \<in> set c. length row = n)"

text \<open>\<open>rooted c t k h\<close>: the chain of \<open>h\<close> reaches a root of column \<open>t\<close> after \<open>k\<close> delegations.\<close>

inductive rooted :: "controls \<Rightarrow> nat \<Rightarrow> nat \<Rightarrow> nat \<Rightarrow> bool" for c t where
  rooted_root: "ctl_edge c h t = Root \<Longrightarrow> rooted c t 0 h"
| rooted_via: "ctl_edge c h t = Via p \<Longrightarrow> rooted c t k p \<Longrightarrow> rooted c t (Suc k) h"

definition ctl_forest :: "controls \<Rightarrow> bool" where
  "ctl_forest c \<longleftrightarrow> (\<forall>h t. ctl_edge c h t \<noteq> Absent \<longrightarrow> (\<exists>k. rooted c t k h))"

text \<open>A matrix from which some edges were removed.\<close>

definition ctl_below :: "controls \<Rightarrow> controls \<Rightarrow> bool" where
  "ctl_below c c' \<longleftrightarrow> (\<forall>h t. ctl_edge c' h t = Absent \<or> ctl_edge c' h t = ctl_edge c h t)"

lemma ctl_square_get:
  assumes "ctl_square n c"
  shows "tbl_get c h t = (if h < n \<and> t < n then Some (ctl_edge c h t) else None)"
proof (cases "h < n")
  case True
  then have "c ! h \<in> set c" using assms by (simp add: ctl_square_def)
  then have "length (c ! h) = n" using assms by (simp add: ctl_square_def)
  then show ?thesis using assms True by (simp add: ctl_square_def tbl_get_def ctl_edge_def)
qed (use assms in \<open>simp add: ctl_square_def tbl_get_def\<close>)

lemma ctl_edge_out:
  assumes "ctl_square n c" "ctl_edge c h t \<noteq> Absent" shows "h < n \<and> t < n"
proof (rule ccontr)
  assume "\<not> (h < n \<and> t < n)"
  then have "tbl_get c h t = None" by (simp add: ctl_square_get [OF assms(1)])
  with assms(2) show False by (simp add: ctl_edge_def)
qed

lemma ctl_square_set: "ctl_square n c \<Longrightarrow> ctl_square n (tbl_set c h t v)"
  by (cases "h < length c")
    (auto simp: ctl_square_def tbl_set_def list_update_beyond dest!: set_mp [OF set_update_subset_insert])

lemma ctl_edge_set:
  assumes "ctl_square n c" "h < n" "t < n"
  shows "ctl_edge (tbl_set c h t v) h' t' = (if h' = h \<and> t' = t then v else ctl_edge c h' t')"
proof -
  have "tbl_get c h t \<noteq> None" using assms by (simp add: ctl_square_get [OF assms(1)])
  then show ?thesis by (auto simp: ctl_edge_def tbl_get_set)
qed

lemma ctl_set_Some: "ctl_square n c \<Longrightarrow> h < n \<Longrightarrow> t < n \<Longrightarrow> ctl_set h t v c = Some (tbl_set c h t v)"
  by (simp add: ctl_set_def ctl_square_get [of n])

lemma rooted_present: "rooted c t k h \<Longrightarrow> ctl_edge c h t \<noteq> Absent"
  by (erule rooted.cases) auto

lemma rooted_unique: "rooted c t k h \<Longrightarrow> rooted c t k' h \<Longrightarrow> k' = k"
proof (induction arbitrary: k' rule: rooted.induct)
  case (rooted_root h)
  from rooted_root(2) show ?case by (cases rule: rooted.cases) (use rooted_root(1) in simp_all)
next
  case (rooted_via h p k)
  from rooted_via.prems show ?case
    by (cases rule: rooted.cases) (use rooted_via.hyps(1) rooted_via.IH in simp_all)
qed

text \<open>A chain visits holders of distinct rank, so it is no longer than the number of domains.\<close>

lemma rooted_ranks: "rooted c t k h \<Longrightarrow> j \<le> k \<Longrightarrow> \<exists>h'. rooted c t j h'"
proof (induction rule: rooted.induct)
  case (rooted_via h p k)
  then show ?case by (cases "j = Suc k") (auto intro: rooted.rooted_via)
qed (auto intro: rooted.rooted_root)

lemma rooted_bound:
  assumes sq: "ctl_square n c" and r: "rooted c t k h" shows "k < n"
proof -
  have ex: "\<forall>j \<in> {..k}. \<exists>h'. rooted c t j h'" using rooted_ranks [OF r] by auto
  then obtain f where f: "\<And>j. j \<le> k \<Longrightarrow> rooted c t j (f j)" by (metis atMost_iff)
  have "inj_on f {..k}"
  proof (rule inj_onI)
    fix x y assume "x \<in> {..k}" "y \<in> {..k}" "f x = f y"
    with f [of x] f [of y] show "x = y" by (auto dest: rooted_unique)
  qed
  moreover have "f j < n" if "j \<le> k" for j
    using ctl_edge_out [OF sq rooted_present [OF f [OF that]]] by simp
  then have "f ` {..k} \<subseteq> {..<n}" by auto
  ultimately have "card {..k} \<le> card {..<n}" by (intro card_inj_on_le) auto
  then show ?thesis by simp
qed

lemma rooted_reaches:
  assumes sq: "ctl_square n c" shows "rooted c t k h \<Longrightarrow> k \<le> m \<Longrightarrow> ctl_reaches_root c t m h = Some True"
proof (induction arbitrary: m rule: rooted.induct)
  case (rooted_root h)
  then have "h < n \<and> t < n" using ctl_edge_out [OF sq, of h t] by simp
  with rooted_root show ?case by (subst ctl_reaches_root.simps) (simp add: ctl_square_get [OF sq])
next
  case (rooted_via h p k)
  then have "h < n \<and> t < n" using ctl_edge_out [OF sq, of h t] by simp
  with rooted_via show ?case
    by (subst ctl_reaches_root.simps) (cases m; simp add: ctl_square_get [OF sq])
qed

lemma rooted_below:
  assumes "ctl_below c c'" and "\<And>h p. ctl_edge c' h t = Via p \<Longrightarrow> ctl_edge c' p t \<noteq> Absent"
  shows "rooted c t k h \<Longrightarrow> ctl_edge c' h t \<noteq> Absent \<Longrightarrow> rooted c' t k h"
proof (induction rule: rooted.induct)
  case (rooted_root h)
  then have "ctl_edge c' h t = Root" using assms(1) by (metis ctl_below_def)
  then show ?case by (rule rooted.rooted_root)
next
  case (rooted_via h p k)
  have "ctl_edge c' h t = Via p" using assms(1) rooted_via.hyps(1) rooted_via.prems by (metis ctl_below_def)
  with rooted_via.IH assms(2) show ?case by (blast intro: rooted.rooted_via)
qed

lemma rooted_kept:
  assumes "\<And>h'. ctl_edge c h' t \<noteq> Absent \<Longrightarrow> ctl_edge c' h' t = ctl_edge c h' t"
  shows "rooted c t k h \<Longrightarrow> rooted c' t k h"
  by (induction rule: rooted.induct) (auto intro: rooted.intros simp: assms)

text \<open>Every chain of a forest is climbed without an index out of range.\<close>

lemma ctl_climb_total:
  assumes sq: "ctl_square n c" and closed: "\<And>h p. ctl_edge c h t = Via p \<Longrightarrow> ctl_edge c p t \<noteq> Absent"
  shows "t < n \<Longrightarrow> cur < n \<Longrightarrow> ctl_climb c t caller k cur \<noteq> None"
proof (induction k arbitrary: cur)
  case (Suc k)
  show ?case
  proof (cases "ctl_edge c cur t")
    case (Via p)
    then have "p < n" using ctl_edge_out [OF sq closed [OF Via]] by simp
    then show ?thesis using Suc Via by (simp add: ctl_square_get [OF sq] del: not_None_eq)
  qed (use Suc.prems in \<open>simp_all add: ctl_square_get [OF sq] del: not_None_eq\<close>)
qed simp

text \<open>What a delegation chain is: \<open>caller\<close> is an ancestor of \<open>node\<close> in the tree of \<open>target\<close>.\<close>

inductive descends :: "controls \<Rightarrow> nat \<Rightarrow> nat \<Rightarrow> nat \<Rightarrow> bool" for c t caller where
  descends_self: "descends c t caller caller"
| descends_via: "ctl_edge c h t = Via p \<Longrightarrow> descends c t caller p \<Longrightarrow> descends c t caller h"

lemma ctl_climb_sound: "ctl_climb c t caller k cur = Some True \<Longrightarrow> descends c t caller cur"
proof (induction k arbitrary: cur)
  case (Suc k)
  show ?case
  proof (cases "cur = caller")
    case False
    with Suc.prems obtain p where p: "tbl_get c cur t = Some (Via p)" "ctl_climb c t caller k p = Some True"
      by (auto split: option.splits Control.splits)
    then have "ctl_edge c cur t = Via p" by (simp add: ctl_edge_def)
    then show ?thesis using Suc.IH [OF p(2)] by (rule descends_via)
  qed (simp add: descends_self)
qed simp

lemma ctl_climb_complete:
  assumes sq: "ctl_square n c" and r: "rooted c t k cur" and d: "descends c t caller cur" and "k < m"
  shows "ctl_climb c t caller m cur = Some True"
  using d r \<open>k < m\<close>
proof (induction arbitrary: k m rule: descends.induct)
  case descends_self
  then show ?case by (cases m) simp_all
next
  case (descends_via h p)
  from descends_via.prems(1) obtain k' where k: "k = Suc k'" "rooted c t k' p"
    by (cases rule: rooted.cases) (use descends_via.hyps(1) in simp_all)
  obtain m' where m: "m = Suc m'" using descends_via.prems(2) by (cases m) auto
  have "h < n \<and> t < n" using descends_via.hyps(1) ctl_edge_out [OF sq, of h t] by simp
  then show ?case
    using descends_via.IH [OF k(2), of m'] k m descends_via.prems(2) descends_via.hyps(1)
    by (simp add: ctl_square_get [OF sq])
qed

lemma ctl_forest_closed:
  assumes "ctl_forest c" "ctl_edge c h t = Via p" shows "ctl_edge c p t \<noteq> Absent"
proof -
  have "ctl_edge c h t \<noteq> Absent" using assms(2) by simp
  with assms(1) obtain k where "rooted c t k h" unfolding ctl_forest_def by blast
  then show ?thesis by (cases rule: rooted.cases) (use assms(2) rooted_present in auto)
qed

text \<open>The chain restriction as the code computes it is the descendant relation of the forest.\<close>

lemma control_subtree_contains_iff:
  assumes sq: "ctl_square n c" and f: "ctl_forest c" and "node < n" "target < n"
    and present: "ctl_edge c node target \<noteq> Absent"
  shows "control_subtree_contains n c caller node target = Some (descends c target caller node)"
proof -
  from f present obtain k where r: "rooted c target k node" by (auto simp: ctl_forest_def)
  have "k < n + 1" using rooted_bound [OF sq r] by simp
  then have complete: "descends c target caller node \<Longrightarrow>
      control_subtree_contains n c caller node target = Some True"
    using ctl_climb_complete [OF sq r] unfolding control_subtree_contains_def by blast
  obtain b where b: "control_subtree_contains n c caller node target = Some b"
    using ctl_climb_total [OF sq _ assms(4,3), of caller "n + 1"] ctl_forest_closed [OF f, of _ target]
    by (fastforce simp: control_subtree_contains_def)
  have "b \<Longrightarrow> descends c target caller node"
    using b ctl_climb_sound [of c target caller "n + 1" node] unfolding control_subtree_contains_def by simp
  then show ?thesis using b complete by (cases b) auto
qed

section \<open>The sweep\<close>

lemma for_each_nested:
  "for_each (\<lambda>t. for_each (\<lambda>h. f (t, h)) ys) xs s = for_each f (List.product xs ys) s"
proof (induction xs arbitrary: s)
  case (Cons x xs)
  have "for_each (\<lambda>h. f (x, h)) ys s = for_each f (map (Pair x) ys) s" for s
    by (induction ys arbitrary: s) (auto split: option.splits)
  then show ?case using Cons.IH by (simp add: for_each_append split: option.split)
qed simp

definition ctl_edges :: "controls \<Rightarrow> (nat \<times> nat) set" where
  "ctl_edges c = {(h, t). ctl_edge c h t \<noteq> Absent}"

lemma ctl_edges_finite: "ctl_square n c \<Longrightarrow> finite (ctl_edges c)"
  by (rule finite_subset [of _ "{..<n} \<times> {..<n}"]) (auto simp: ctl_edges_def dest: ctl_edge_out)

text \<open>What a sweep may do: remove edges, but none that still reaches a root.\<close>

definition ctl_swept :: "nat \<Rightarrow> controls \<Rightarrow> controls \<Rightarrow> bool" where
  "ctl_swept n c c' \<longleftrightarrow> ctl_square n c' \<and> ctl_below c c' \<and>
     (\<forall>t k h. rooted c t k h \<longrightarrow> rooted c' t k h)"

lemma ctl_swept_refl: "ctl_square n c \<Longrightarrow> ctl_swept n c c"
  by (simp add: ctl_swept_def ctl_below_def)

lemma ctl_below_trans: "ctl_below a b \<Longrightarrow> ctl_below b c \<Longrightarrow> ctl_below a c"
  unfolding ctl_below_def by metis

lemma ctl_swept_trans: "ctl_swept n a b \<Longrightarrow> ctl_swept n b c \<Longrightarrow> ctl_swept n a c"
  unfolding ctl_swept_def using ctl_below_trans by blast

text \<open>Removing an edge whose delegator is gone is such a sweep.\<close>

lemma ctl_drop_orphan:
  assumes sq: "ctl_square n c" and e: "ctl_edge c h t = Via p" "ctl_edge c p t = Absent"
  shows "ctl_swept n c (tbl_set c h t Absent)"
    and "ctl_edges (tbl_set c h t Absent) \<subset> ctl_edges c"
proof -
  have r: "h < n" "t < n" using ctl_edge_out [OF sq, of h t] e by auto
  note set = ctl_edge_set [OF sq r]
  have "rooted (tbl_set c h t Absent) t' k h'" if "rooted c t' k h'" for t' k h'
    using that
  proof (induction rule: rooted.induct)
    case (rooted_root h')
    then show ?case using e by (intro rooted.rooted_root) (auto simp: set)
  next
    case (rooted_via h' q k)
    have "\<not> (h' = h \<and> t' = t)"
      using rooted_via.hyps e rooted_present [OF rooted_via.hyps(2)] by auto
    then show ?case using rooted_via by (intro rooted.rooted_via [of _ _ _ q]) (auto simp: set)
  qed
  then show "ctl_swept n c (tbl_set c h t Absent)"
    using ctl_square_set [OF sq] by (simp add: ctl_swept_def ctl_below_def set)
  have "(h, t) \<in> ctl_edges c" using e by (simp add: ctl_edges_def)
  then show "ctl_edges (tbl_set c h t Absent) \<subset> ctl_edges c"
    by (auto simp: ctl_edges_def set split: if_splits)
qed

text \<open>
  A pass: it always returns; either nothing changed and no visited edge is an orphan, or the
  number of edges went down.
\<close>

definition ctl_progress :: "nat \<Rightarrow> controls \<Rightarrow> (nat \<times> nat) list \<Rightarrow> controls \<times> bool \<Rightarrow> bool" where
  "ctl_progress n c0 seen cb \<longleftrightarrow> (case cb of (c, changed) \<Rightarrow>
     ctl_swept n c0 c \<and>
     (if changed then ctl_edges c \<subset> ctl_edges c0
      else c = c0 \<and> (\<forall>(t, h) \<in> set seen. \<forall>p. ctl_edge c h t = Via p \<longrightarrow> ctl_edge c p t \<noteq> Absent)))"

definition ctl_in_range :: "nat \<Rightarrow> controls \<Rightarrow> bool" where
  "ctl_in_range n c \<longleftrightarrow> (\<forall>h t p. ctl_edge c h t = Via p \<longrightarrow> p < n)"

lemma ctl_in_range_below: "ctl_in_range n c \<Longrightarrow> ctl_below c c' \<Longrightarrow> ctl_in_range n c'"
  unfolding ctl_in_range_def ctl_below_def by (metis Control.distinct(3))

lemma ctl_sweep_edge_progress:
  assumes range: "ctl_in_range n c0" and th: "t < n" "h < n"
    and inv: "ctl_progress n c0 seen (c, changed)"
  shows "\<exists>cb. ctl_sweep_edge (t, h) (c, changed) = Some cb \<and> ctl_progress n c0 (seen @ [(t, h)]) cb"
proof -
  have sw: "ctl_swept n c0 c" and sq: "ctl_square n c"
    using inv by (auto simp: ctl_progress_def ctl_swept_def)
  have here: "tbl_get c h t = Some (ctl_edge c h t)" using th by (simp add: ctl_square_get [OF sq])
  show ?thesis
  proof (cases "ctl_edge c h t")
    case (Via p)
    have "p < n"
      using ctl_in_range_below [OF range, of c] sw Via by (auto simp: ctl_swept_def ctl_in_range_def)
    then have there: "tbl_get c p t = Some (ctl_edge c p t)" using th by (simp add: ctl_square_get [OF sq])
    show ?thesis
    proof (cases "ctl_edge c p t = Absent")
      case True
      note drop = ctl_drop_orphan [OF sq Via True]
      have "ctl_edges (tbl_set c h t Absent) \<subset> ctl_edges c0"
        using drop(2) inv by (auto simp: ctl_progress_def split: if_splits)
      moreover have "ctl_swept n c0 (tbl_set c h t Absent)" using sw drop(1) by (rule ctl_swept_trans)
      ultimately show ?thesis
        using here there Via True th
        by (simp add: ctl_sweep_edge_def ctl_set_Some [OF sq] ctl_progress_def)
    next
      case False
      then have "ctl_sweep_edge (t, h) (c, changed) = Some (c, changed)"
        using here there Via by (auto simp: ctl_sweep_edge_def split: Control.split)
      then show ?thesis using inv False Via by (auto simp: ctl_progress_def split: if_splits)
    qed
  qed (use here inv in \<open>auto simp: ctl_sweep_edge_def ctl_progress_def split: if_splits\<close>)
qed

lemma ctl_pass_effect:
  assumes sq: "ctl_square n c" and range: "ctl_in_range n c"
  shows "\<exists>c' changed. ctl_pass n c = Some (c', changed) \<and> ctl_swept n c c' \<and>
     (if changed then ctl_edges c' \<subset> ctl_edges c
      else c' = c \<and> (\<forall>h t p. ctl_edge c h t = Via p \<longrightarrow> ctl_edge c p t \<noteq> Absent))"
proof -
  let ?l = "List.product [0..<n] [0..<n]"
  have "\<exists>cb. for_each ctl_sweep_edge ?l (c, False) = Some cb \<and> ctl_progress n c ?l cb"
  proof (rule for_each_rule [where I = "ctl_progress n c"])
    fix ys x zs s assume l: "?l = ys @ x # zs" and inv: "ctl_progress n c ys s"
    obtain t h where x: "x = (t, h)" by (cases x)
    have "x \<in> set ?l" by (simp only: l) simp
    then have "t < n" "h < n" by (auto simp: x)
    then show "\<exists>s'. ctl_sweep_edge x s = Some s' \<and> ctl_progress n c (ys @ [x]) s'"
      using ctl_sweep_edge_progress [OF range, of t h ys "fst s" "snd s"] inv by (simp add: x)
  qed (simp add: ctl_progress_def ctl_swept_refl [OF sq])
  then obtain c' changed where "ctl_pass n c = Some (c', changed)" and p: "ctl_progress n c ?l (c', changed)"
    unfolding ctl_pass_def for_each_nested by (metis surj_pair)
  moreover have "ctl_edge c h t = Via p \<longrightarrow> ctl_edge c p t \<noteq> Absent" if "\<not> changed" for h t p
  proof (rule impI)
    assume e: "ctl_edge c h t = Via p"
    then have "(t, h) \<in> set ?l" using ctl_edge_out [OF sq, of h t] by auto
    then show "ctl_edge c p t \<noteq> Absent" using p e that by (auto simp: ctl_progress_def)
  qed
  ultimately show ?thesis by (auto simp: ctl_progress_def)
qed

lemma sweep_effect:
  assumes "ctl_square n c" "ctl_in_range n c"
  shows "\<exists>c'. sweep_orphaned_control_edges n c = Some c' \<and> ctl_swept n c c' \<and>
     (\<forall>h t p. ctl_edge c' h t = Via p \<longrightarrow> ctl_edge c' p t \<noteq> Absent)"
  using assms
proof (induction "card (ctl_edges c)" arbitrary: c rule: less_induct)
  case less
  from ctl_pass_effect [OF less.prems] obtain c1 changed where
    pass: "ctl_pass n c = Some (c1, changed)" and sw: "ctl_swept n c c1"
    and prog: "if changed then ctl_edges c1 \<subset> ctl_edges c
      else c1 = c \<and> (\<forall>h t p. ctl_edge c h t = Via p \<longrightarrow> ctl_edge c p t \<noteq> Absent)" by blast
  show ?case
  proof (cases changed)
    case True
    have sq1: "ctl_square n c1" and below: "ctl_below c c1" using sw by (auto simp: ctl_swept_def)
    have "card (ctl_edges c1) < card (ctl_edges c)"
      using prog True psubset_card_mono [OF ctl_edges_finite [OF less.prems(1)]] by simp
    from less.hyps [OF this sq1 ctl_in_range_below [OF less.prems(2) below]] obtain c' where
      c': "sweep_orphaned_control_edges n c1 = Some c'" "ctl_swept n c1 c'"
        "\<forall>h t p. ctl_edge c' h t = Via p \<longrightarrow> ctl_edge c' p t \<noteq> Absent" by blast
    have "sweep_orphaned_control_edges n c = Some c'"
      using pass True c'(1) by (subst sweep_orphaned_control_edges.simps) simp
    then show ?thesis using ctl_swept_trans [OF sw c'(2)] c'(3) by blast
  next
    case False
    have "sweep_orphaned_control_edges n c = Some c"
      using pass False prog by (subst sweep_orphaned_control_edges.simps) simp
    then show ?thesis using sw prog False by auto
  qed
qed

text \<open>
  Any set of edges may have been cut out of a forest: the sweep returns, and what it leaves is
  exactly the edges that still reach a root, which is again a forest.
\<close>

lemma ctl_forest_in_range: "ctl_square n c \<Longrightarrow> ctl_forest c \<Longrightarrow> ctl_in_range n c"
  unfolding ctl_in_range_def using ctl_forest_closed ctl_edge_out by blast

lemma sweep_restores:
  assumes f: "ctl_forest c0" and sq0: "ctl_square n c0" and sq: "ctl_square n c" and b: "ctl_below c0 c"
  shows "\<exists>c'. sweep_orphaned_control_edges n c = Some c' \<and> ctl_square n c' \<and> ctl_forest c' \<and>
     ctl_below c c' \<and> (\<forall>h t. ctl_edge c' h t \<noteq> Absent \<longleftrightarrow> (\<exists>k. rooted c t k h))"
proof -
  have "ctl_in_range n c" using ctl_in_range_below [OF ctl_forest_in_range [OF sq0 f] b] .
  from sweep_effect [OF sq this] obtain c' where
    c': "sweep_orphaned_control_edges n c = Some c'" "ctl_swept n c c'"
    and closed: "\<And>h t p. ctl_edge c' h t = Via p \<Longrightarrow> ctl_edge c' p t \<noteq> Absent" by blast
  have below: "ctl_below c c'" and kept: "\<And>t k h. rooted c t k h \<Longrightarrow> rooted c' t k h"
    using c'(2) by (auto simp: ctl_swept_def)
  have forest: "\<exists>k. rooted c' t k h \<and> rooted c t k h" if e: "ctl_edge c' h t \<noteq> Absent" for h t
  proof -
    have "ctl_edge c0 h t \<noteq> Absent" using e b below unfolding ctl_below_def by metis
    with f obtain k where "rooted c0 t k h" unfolding ctl_forest_def by blast
    then have k: "rooted c' t k h"
      using rooted_below [OF ctl_below_trans [OF b below], of t k h] closed e by blast
    then have "rooted c t k h"
    proof (rule rooted_kept [rotated])
      fix h' assume "ctl_edge c' h' t \<noteq> Absent"
      then show "ctl_edge c h' t = ctl_edge c' h' t" using below unfolding ctl_below_def by metis
    qed
    with k show ?thesis by blast
  qed
  have "ctl_edge c' h t \<noteq> Absent \<longleftrightarrow> (\<exists>k. rooted c t k h)" for h t
    using forest kept rooted_present by blast
  moreover have "ctl_forest c'" unfolding ctl_forest_def using forest by blast
  ultimately show ?thesis using c' below by (auto simp: ctl_swept_def)
qed

section \<open>Growing and cutting the forest\<close>

text \<open>A creation adds a root to an empty column; a delegation adds a leaf.\<close>

lemma ctl_forest_root:
  assumes sq: "ctl_square n c" and f: "ctl_forest c" and r: "h < n" "t < n"
    and empty: "\<And>h'. ctl_edge c h' t = Absent"
  shows "ctl_forest (tbl_set c h t Root)"
proof -
  note set = ctl_edge_set [OF sq r]
  have "\<exists>k. rooted (tbl_set c h t Root) t' k h'" if e: "ctl_edge (tbl_set c h t Root) h' t' \<noteq> Absent" for h' t'
  proof (cases "t' = t")
    case True
    with e empty have "h' = h" by (auto simp: set split: if_splits)
    with True show ?thesis by (auto simp: set intro!: exI [of _ 0] rooted.rooted_root)
  next
    case False
    with e have "ctl_edge c h' t' \<noteq> Absent" by (simp add: set)
    with f obtain k where "rooted c t' k h'" unfolding ctl_forest_def by blast
    then have "rooted (tbl_set c h t Root) t' k h'" by (rule rooted_kept [rotated]) (simp add: set False)
    then show ?thesis ..
  qed
  then show ?thesis unfolding ctl_forest_def by blast
qed

lemma ctl_forest_leaf:
  assumes sq: "ctl_square n c" and f: "ctl_forest c" and r: "h < n" "t < n"
    and fresh: "ctl_edge c h t = Absent" and parent: "ctl_edge c p t \<noteq> Absent"
  shows "ctl_forest (tbl_set c h t (Via p))"
proof -
  note set = ctl_edge_set [OF sq r]
  have old: "\<exists>k. rooted (tbl_set c h t (Via p)) t' k h'" if e: "ctl_edge c h' t' \<noteq> Absent" for h' t'
  proof -
    from f e obtain k where "rooted c t' k h'" unfolding ctl_forest_def by blast
    then have "rooted (tbl_set c h t (Via p)) t' k h'"
      by (rule rooted_kept [rotated]) (use fresh in \<open>auto simp: set\<close>)
    then show ?thesis ..
  qed
  have "\<exists>k. rooted (tbl_set c h t (Via p)) t' k h'" if e: "ctl_edge (tbl_set c h t (Via p)) h' t' \<noteq> Absent" for h' t'
  proof (cases "h' = h \<and> t' = t")
    case True
    from old [OF parent] obtain k where "rooted (tbl_set c h t (Via p)) t k p" ..
    then have "rooted (tbl_set c h t (Via p)) t (Suc k) h" by (intro rooted.rooted_via) (simp_all add: set)
    with True show ?thesis by blast
  next
    case False
    with e have "ctl_edge c h' t' \<noteq> Absent" by (auto simp: set)
    then show ?thesis by (rule old)
  qed
  then show ?thesis unfolding ctl_forest_def by blast
qed

lemma ctl_below_drop:
  assumes "ctl_square n c" "h < n" "t < n" shows "ctl_below c (tbl_set c h t Absent)"
  by (simp add: ctl_below_def ctl_edge_set [OF assms])

text \<open>A teardown clears the row and the column of the domain, and nothing else.\<close>

lemma ctl_clear_effect:
  assumes sq: "ctl_square n c" and t: "t < n"
  shows "\<exists>c'. ctl_clear n t c = Some c' \<and> ctl_square n c' \<and>
     (\<forall>h k. ctl_edge c' h k = (if h = t \<or> k = t then Absent else ctl_edge c h k))"
proof -
  define I where "I m c' \<longleftrightarrow> ctl_square n c' \<and>
     (\<forall>h k. ctl_edge c' h k = (if (k = t \<and> h < m) \<or> (h = t \<and> k < m) then Absent else ctl_edge c h k))"
    for m c'
  have "\<exists>c'. for_each (\<lambda>h c. Option.bind (ctl_set h t Absent c) (ctl_set t h Absent)) [0..<n] c = Some c' \<and> I n c'"
  proof (rule for_upt_rule)
    fix h c1 assume h: "h < n" and I: "I h c1"
    then have sq1: "ctl_square n c1" by (simp add: I_def)
    let ?c2 = "tbl_set c1 h t Absent"
    have sq2: "ctl_square n ?c2" using sq1 by (rule ctl_square_set)
    have "I (Suc h) (tbl_set ?c2 t h Absent)"
      using I unfolding I_def ctl_edge_set [OF sq2 t h] ctl_edge_set [OF sq1 h t]
      by (auto simp: ctl_square_set less_Suc_eq)
    then show "\<exists>c'. Option.bind (ctl_set h t Absent c1) (ctl_set t h Absent) = Some c' \<and> I (Suc h) c'"
      using h t by (simp add: ctl_set_Some [OF sq1] ctl_set_Some [OF sq2])
  qed (simp add: I_def sq)
  then obtain c' where c': "ctl_clear n t c = Some c'" "I n c'" by (auto simp: ctl_clear_def)
  have "ctl_edge c' h k = (if h = t \<or> k = t then Absent else ctl_edge c h k)" for h k
    using c'(2) ctl_edge_out [OF sq, of h k] by (auto simp: I_def)
  with c' show ?thesis by (auto simp: I_def)
qed

section \<open>The cascade as a whole\<close>

lemma ctl_in_range_all:
  assumes "list_all (list_all (\<lambda>e. case e of Via p \<Rightarrow> p < n | _ \<Rightarrow> True)) c" shows "ctl_in_range n c"
proof -
  have "p < n" if "ctl_edge c h t = Via p" for h t p
  proof -
    from that have "h < length c" "t < length (c ! h)" "c ! h ! t = Via p"
      by (auto simp: ctl_edge_def tbl_get_def vec_get_def split: if_splits)
    then have "Via p \<in> set (c ! h)" "c ! h \<in> set c" by (metis nth_mem)+
    then show ?thesis using assms by (fastforce simp: list_all_iff)
  qed
  then show ?thesis by (simp add: ctl_in_range_def)
qed

text \<open>
  C31: the cascade loop ends on every square matrix whose delegators are domains, forest or not (a
  cycle of delegations included): it returns a matrix with no orphaned edge, it only removes edges,
  and it removes none that reaches a root.
\<close>

theorem sweep_terminates:
  assumes "length c = n" and "list_all (\<lambda>row. length row = n) c"
    and "list_all (list_all (\<lambda>e. case e of Via p \<Rightarrow> p < n | _ \<Rightarrow> True)) c"
  shows "\<exists>c'. sweep_orphaned_control_edges n c = Some c' \<and>
     (\<forall>h t. ctl_edge c' h t = Absent \<or> ctl_edge c' h t = ctl_edge c h t) \<and>
     (\<forall>h t p. ctl_edge c' h t = Via p \<longrightarrow> ctl_edge c' p t \<noteq> Absent) \<and>
     (\<forall>h t k. rooted c t k h \<longrightarrow> ctl_edge c' h t = ctl_edge c h t)"
proof -
  have "ctl_square n c" using assms(1,2) by (simp add: ctl_square_def list_all_iff)
  from sweep_effect [OF this ctl_in_range_all [OF assms(3)]] obtain c' where
    c': "sweep_orphaned_control_edges n c = Some c'" "ctl_swept n c c'"
      "\<forall>h t p. ctl_edge c' h t = Via p \<longrightarrow> ctl_edge c' p t \<noteq> Absent" by blast
  have below: "\<forall>h t. ctl_edge c' h t = Absent \<or> ctl_edge c' h t = ctl_edge c h t"
    using c'(2) by (simp add: ctl_swept_def ctl_below_def)
  moreover have "ctl_edge c' h t = ctl_edge c h t" if "rooted c t k h" for h t k
    using below rooted_present [of c' t k h] that c'(2) unfolding ctl_swept_def by blast
  ultimately show ?thesis using c'(1,3) by blast
qed

theorem sweep_terminates_witness:
  "\<exists>c'. sweep_orphaned_control_edges 4 [[Root, Via 1, Via 3, Absent], [Via 0, Via 0, Via 0, Absent],
       [Absent, Absent, Absent, Absent], [Via 2, Absent, Via 2, Root]] = Some c' \<and>
     ctl_edge c' 3 0 = Absent \<and> ctl_edge c' 0 2 = Absent \<and> ctl_edge c' 1 0 = Via 0 \<and> ctl_edge c' 1 1 = Via 0"
proof -
  define c where "c = [[Root, Via 1, Via 3, Absent], [Via 0, Via 0, Via 0, Absent],
       [Absent, Absent, Absent, Absent], [Via 2, Absent, Via 2, Root]]"
  have c: "length c = 4" "list_all (\<lambda>row. length row = 4) c"
    "list_all (list_all (\<lambda>e. case e of Via p \<Rightarrow> p < 4 | _ \<Rightarrow> True)) c" by (simp_all add: c_def)
  have val: "sweep_orphaned_control_edges 4 c = Some [[Root, Via 1, Absent, Absent], [Via 0, Via 0, Absent, Absent],
       [Absent, Absent, Absent, Absent], [Absent, Absent, Absent, Root]]" unfolding c_def by code_simp
  from sweep_terminates [OF c] show ?thesis unfolding c_def [symmetric] val by (simp add: ctl_edge_def tbl_get_def vec_get_def)
qed

end
