(* ===== verification/Hypervisor.thy ===== *)
theory Hypervisor
  imports Evtchn Sched Grant P2m Device Credit Control
begin

text \<open>
  The integrated core, \<open>hv-core/src/hypervisor.rs\<close>: one record holding the six subsystems, the
  lifecycle of the domain slots and the authority relation; \<open>route\<close> with every hypercall, the
  seam handlers that keep two subsystems in step, creation and teardown of domains, and the
  cross-subsystem check. Definitions keep the names of the source. \<open>dispatch\<close> and
  \<open>raise_vcpu_virq\<close> are the release build (their \<open>debug_assert!\<close> are the subject of the theorems of
  \<open>Hypervisor_Inv\<close>, not part of the model).
\<close>

section \<open>Interface types and state\<close>

datatype HvCall =
    CreditGrant "32 word"
  | CreditSpend "32 word"
  | EvtchnAllocUnbound DomId
  | EvtchnBindInterdomain DomId Port
  | EvtchnBindVirq Vcpu Virq
  | EvtchnBindIpi Vcpu
  | EvtchnClose Port
  | EvtchnSend Port
  | EvtchnMask Port
  | EvtchnUnmask Port
  | EvtchnConsume Port
  | GrantAccess GrantRef DomId Mfn bool
  | GrantEndAccess GrantRef
  | GrantMap DomId GrantRef bool
  | GrantUnmap GrantHandle
  | GrantCopy DomId GrantRef bool
  | SchedAdmit Vcpu
  | SchedRun Vcpu Pcpu Ticks
  | SchedPreempt Vcpu Ticks
  | SchedBlock Vcpu Ticks
  | SchedWake Vcpu
  | SchedOffline Vcpu Ticks
  | SchedSetAffinity DomId Vcpu "64 word"
  | P2mAllocate Mfn
  | P2mFree Mfn
  | P2mPin Mfn PtLevel
  | P2mUnpin Mfn
  | P2mLink Mfn nat Mfn bool bool bool
  | P2mUnlink Mfn nat
  | DomainCreate DomId bool
  | DomainDestroy DomId Ticks
  | ControlGrant DomId DomId
  | ControlRevoke DomId DomId
  | DeviceAssign DevId DomId
  | DeviceRelease DevId DomId

datatype HvOutcome =
    Done
  | Balance "64 word"
  | Port Port
  | Handle GrantHandle
  | Pending bool

datatype HvError =
    BadDomain
  | Credit HError
  | Evtchn EvtchnError
  | Grant GrantError
  | Sched SchedError
  | P2m P2mError
  | Device DeviceError
  | StaleGrant
  | Unauthorized
  | Denied
  | NotAlive
  | AlreadyAlive

datatype CrossViolation =
    UnbackedGrantMap DomId GrantRef
  | MisownedGrantMap DomId GrantRef
  | LostWakeup DomId Vcpu
  | UnauthorizedForeignLink Mfn Mfn
  | DeadDomainNotClean DomId
  | DeadDomainReferenced DomId
  | DeadDomainMayCreate DomId
  | ControlEdgeDeadEndpoint DomId DomId
  | ControlEdgeOrphaned DomId DomId

datatype DomainLife = Dead | Live

record Hypervisor =
  credit :: "HvCore list"
  evtchn :: EvtchnSystem
  grant :: GrantSystem
  sched :: SchedSystem
  p2m :: P2mSystem
  device :: DeviceSystem
  life :: "DomainLife list"
  may_create :: "bool list"
  controls :: "Control list list"

datatype Transition = Guest DomId HvCall | RaiseVcpuVirq DomId Vcpu Virq

datatype TransitionOutcome = GuestOutcome HvOutcome | RaisedVcpuVirq bool

type_synonym hv_result = "(HvOutcome, HvError) result \<times> Hypervisor"

definition hv_new :: "nat \<Rightarrow> nat \<Rightarrow> nat \<Rightarrow> nat \<Rightarrow> nat \<Rightarrow> nat \<Rightarrow> nat \<Rightarrow> Hypervisor" where
  "hv_new num_domains ports_per_domain grants_per_domain vcpus_per_domain num_pcpus num_frames num_devices =
     \<lparr>credit = map (\<lambda>_. cr_new) [0..<num_domains],
      evtchn = ev_new num_domains ports_per_domain,
      grant = gt_new num_domains grants_per_domain,
      sched = sc_new num_domains vcpus_per_domain num_pcpus,
      p2m = pm_new num_domains num_frames,
      device = dv_new num_domains num_devices,
      life = map (\<lambda>d. if d = 0 then Live else Dead) [0..<num_domains],
      may_create = map (\<lambda>d. d = 0) [0..<num_domains],
      controls = map (\<lambda>_. replicate num_domains Absent) [0..<num_domains]\<rparr>"

definition hv_domain_count :: "Hypervisor \<Rightarrow> nat" where
  "hv_domain_count h = length (credit h)"

text \<open>
  A call into one subsystem: \<open>.map(f).map_err(HvError::X)\<close>, with the field written back.
\<close>

definition in_evtchn ::
  "Hypervisor \<Rightarrow> ('a \<Rightarrow> HvOutcome) \<Rightarrow> ('a, EvtchnError) result \<times> EvtchnSystem \<Rightarrow> hv_result" where
  "in_evtchn h f rs = (map_ok_err f Evtchn (fst rs), h\<lparr>evtchn := snd rs\<rparr>)"

definition in_grant ::
  "Hypervisor \<Rightarrow> ('a \<Rightarrow> HvOutcome) \<Rightarrow> ('a, GrantError) result \<times> GrantSystem \<Rightarrow> hv_result" where
  "in_grant h f rs = (map_ok_err f Grant (fst rs), h\<lparr>grant := snd rs\<rparr>)"

definition in_sched ::
  "Hypervisor \<Rightarrow> (unit, SchedError) result \<times> SchedSystem \<Rightarrow> hv_result" where
  "in_sched h rs = (map_ok_err (\<lambda>_. Done) Sched (fst rs), h\<lparr>sched := snd rs\<rparr>)"

definition in_p2m ::
  "Hypervisor \<Rightarrow> (unit, P2mError) result \<times> P2mSystem \<Rightarrow> hv_result" where
  "in_p2m h rs = (map_ok_err (\<lambda>_. Done) P2m (fst rs), h\<lparr>p2m := snd rs\<rparr>)"

definition in_device ::
  "Hypervisor \<Rightarrow> (unit, DeviceError) result \<times> DeviceSystem \<Rightarrow> hv_result" where
  "in_device h rs = (map_ok_err (\<lambda>_. Done) Device (fst rs), h\<lparr>device := snd rs\<rparr>)"

definition credit_of :: "Hypervisor \<Rightarrow> DomId \<Rightarrow> (HvCore, HvError) result" where
  "credit_of h d = ok_or (vec_get (credit h) d) BadDomain"

definition in_credit ::
  "Hypervisor \<Rightarrow> DomId \<Rightarrow> (HvCore \<Rightarrow> (64 word, HError) result \<times> HvCore) \<Rightarrow> hv_result" where
  "in_credit h d op =
     propagate (credit_of h d) h (\<lambda>core.
     let (r, core') = op core in
     (map_ok_err Balance Credit r, h\<lparr>credit := (credit h)[d := core']\<rparr>))"

section \<open>The seams between subsystems\<close>

definition p2m_acquire :: "P2mSystem \<Rightarrow> Mfn \<Rightarrow> bool \<Rightarrow> (unit, P2mError) result \<times> P2mSystem" where
  "p2m_acquire s frame writable =
     (if writable then pm_get_type s frame PageType.Writable else pm_get s frame)"

definition grant_map :: "Hypervisor \<Rightarrow> DomId \<Rightarrow> DomId \<Rightarrow> GrantRef \<Rightarrow> bool \<Rightarrow> hv_result" where
  "grant_map h caller grantor gref writable =
     propagate (ok_or (gt_granted_frame (grant h) grantor gref) (Grant GrantError.WrongState)) h (\<lambda>frame.
     if pm_owner_of (p2m h) frame \<noteq> Some grantor then (Err StaleGrant, h)
     else
       (case gt_map (grant h) caller grantor gref writable of
          (Ok handle, g1) \<Rightarrow>
            (case p2m_acquire (p2m h) frame writable of
               (Ok _, m1) \<Rightarrow> (Ok (Handle handle), h\<lparr>grant := g1, p2m := m1\<rparr>)
             | (Err e, m1) \<Rightarrow>
                 (case gt_unmap g1 caller handle of
                    (Panic, g2) \<Rightarrow> (Panic, h\<lparr>grant := g2, p2m := m1\<rparr>)
                  | (_, g2) \<Rightarrow> (Err (P2m e), h\<lparr>grant := g2, p2m := m1\<rparr>))
             | (Panic, m1) \<Rightarrow> (Panic, h\<lparr>grant := g1, p2m := m1\<rparr>))
        | (Err e, g1) \<Rightarrow> (Err (Grant e), h\<lparr>grant := g1\<rparr>)
        | (Panic, g1) \<Rightarrow> (Panic, h\<lparr>grant := g1\<rparr>)))"

text \<open>The mirror of a released mapping in the page-type counts; its result is dropped.\<close>

definition p2m_mirror :: "P2mSystem \<Rightarrow> Unmapped \<Rightarrow> P2mSystem option" where
  "p2m_mirror s u =
     (case (if um_writable u then pm_put_type s (um_frame u) PageType.Writable else pm_put s (um_frame u)) of
        (Panic, _) \<Rightarrow> None
      | (_, s') \<Rightarrow> Some s')"

definition grant_unmap :: "Hypervisor \<Rightarrow> DomId \<Rightarrow> GrantHandle \<Rightarrow> hv_result" where
  "grant_unmap h caller handle =
     (case gt_unmap (grant h) caller handle of
        (Ok unmapped, g1) \<Rightarrow>
          or_panic (h\<lparr>grant := g1\<rparr>) (p2m_mirror (p2m h) unmapped) (\<lambda>m1.
          (Ok Done, h\<lparr>grant := g1, p2m := m1\<rparr>))
      | (Err e, g1) \<Rightarrow> (Err (Grant e), h\<lparr>grant := g1\<rparr>)
      | (Panic, g1) \<Rightarrow> (Panic, h\<lparr>grant := g1\<rparr>))"

definition p2m_link ::
  "Hypervisor \<Rightarrow> DomId \<Rightarrow> Mfn \<Rightarrow> nat \<Rightarrow> Mfn \<Rightarrow> bool \<Rightarrow> bool \<Rightarrow> bool \<Rightarrow> hv_result" where
  "p2m_link h caller parent slot child writable leaf execute =
     (if (case pm_owner_of (p2m h) child of
            Some own \<Rightarrow> own \<noteq> caller \<and> \<not> gt_authorizes (grant h) own caller child writable
          | None \<Rightarrow> False)
      then (Err Unauthorized, h)
      else in_p2m h (pm_link (p2m h) caller parent slot child writable leaf execute))"

definition grant_copy :: "Hypervisor \<Rightarrow> DomId \<Rightarrow> DomId \<Rightarrow> GrantRef \<Rightarrow> bool \<Rightarrow> hv_result" where
  "grant_copy h caller grantor gref write =
     (if (case gt_granted_frame (grant h) grantor gref of
            Some frame \<Rightarrow> pm_owner_of (p2m h) frame \<noteq> Some grantor
          | None \<Rightarrow> False)
      then (Err StaleGrant, h)
      else (map_ok_err (\<lambda>_. Done) Grant (gt_copy (grant h) caller grantor gref write), h))"

definition reject_dead_target :: "Hypervisor \<Rightarrow> DomId \<Rightarrow> (unit, HvError) result" where
  "reject_dead_target h target =
     (if target < hv_domain_count h then
        (case vec_get (life h) target of
           None \<Rightarrow> Panic
         | Some l \<Rightarrow> if l \<noteq> Live then Err NotAlive else Ok ())
      else Ok ())"

text \<open>
  The guard \<open>self.controls[holder][target] == Control::Absent\<close> in front of the rest of a handler.
\<close>

definition need_control :: "Hypervisor \<Rightarrow> DomId \<Rightarrow> DomId \<Rightarrow> hv_result \<Rightarrow> hv_result" where
  "need_control h holder target k =
     or_panic h (tbl_get (controls h) holder target) (\<lambda>c.
     if c = Absent then (Err Denied, h) else k)"

definition sched_set_affinity :: "Hypervisor \<Rightarrow> DomId \<Rightarrow> DomId \<Rightarrow> Vcpu \<Rightarrow> 64 word \<Rightarrow> hv_result" where
  "sched_set_affinity h caller target vcpu mask' =
     (if hv_domain_count h \<le> target then (Err BadDomain, h)
      else
        let body = in_sched h (sc_set_affinity (sched h) target vcpu mask') in
        if caller \<noteq> target then need_control h caller target body else body)"

definition check_bind_vcpu :: "Hypervisor \<Rightarrow> DomId \<Rightarrow> Vcpu \<Rightarrow> (unit, HvError) result" where
  "check_bind_vcpu h caller vcpu =
     (if caller < sc_domain_count (sched h) \<and> sc_vcpu_count (sched h) caller \<le> vcpu
      then Err (Sched SchedError.BadVcpu) else Ok ())"

definition grant_end_access :: "Hypervisor \<Rightarrow> DomId \<Rightarrow> GrantRef \<Rightarrow> hv_result" where
  "grant_end_access h caller gref =
     (if (case (gt_granted_frame (grant h) caller gref, gt_grantee_of (grant h) caller gref) of
            (Some frame, Some grantee) \<Rightarrow> pm_is_foreign_linked_by (p2m h) frame grantee
          | _ \<Rightarrow> False)
      then (Err (Grant GrantError.InUse), h)
      else in_grant h (\<lambda>_. Done) (gt_end_access (grant h) caller gref))"

text \<open>\<open>None\<close> is a panic inside the wake-up, whose result is dropped.\<close>

definition wake_if_deliverable :: "Hypervisor \<Rightarrow> DomId \<Rightarrow> Port \<Rightarrow> Hypervisor option" where
  "wake_if_deliverable h d port =
     (if ev_deliverable (evtchn h) d port then
        (case ev_notify_target (evtchn h) d port of
           Some vcpu \<Rightarrow>
             (case sc_wake (sched h) d vcpu of
                (Panic, _) \<Rightarrow> None
              | (_, s1) \<Rightarrow> Some (h\<lparr>sched := s1\<rparr>))
         | None \<Rightarrow> Some h)
      else Some h)"

definition evtchn_send :: "Hypervisor \<Rightarrow> DomId \<Rightarrow> Port \<Rightarrow> hv_result" where
  "evtchn_send h caller port =
     (case ev_send (evtchn h) caller port of
        (Ok _, e1) \<Rightarrow>
          (let h1 = h\<lparr>evtchn := e1\<rparr> in
           case ev_send_target e1 caller port of
             Some (tdom, tport) \<Rightarrow>
               or_panic h1 (wake_if_deliverable h1 tdom tport) (\<lambda>h2. (Ok Done, h2))
           | None \<Rightarrow> (Ok Done, h1))
      | (Err e, e1) \<Rightarrow> (Err (Evtchn e), h\<lparr>evtchn := e1\<rparr>)
      | (Panic, e1) \<Rightarrow> (Panic, h\<lparr>evtchn := e1\<rparr>))"

definition raise_vcpu_virq ::
  "Hypervisor \<Rightarrow> DomId \<Rightarrow> Vcpu \<Rightarrow> Virq \<Rightarrow> (bool, HvError) result \<times> Hypervisor" where
  "raise_vcpu_virq h d vcpu virq =
     (case ev_raise_virq (evtchn h) d vcpu virq of
        (Ok port, e1) \<Rightarrow>
          (let h1 = h\<lparr>evtchn := e1\<rparr> in
           or_panic h1 (wake_if_deliverable h1 d port) (\<lambda>h2.
           (Ok (ev_deliverable (evtchn h2) d port), h2)))
      | (Err e, e1) \<Rightarrow> (Err (Evtchn e), h\<lparr>evtchn := e1\<rparr>)
      | (Panic, e1) \<Rightarrow> (Panic, h\<lparr>evtchn := e1\<rparr>))"

definition evtchn_unmask :: "Hypervisor \<Rightarrow> DomId \<Rightarrow> Port \<Rightarrow> hv_result" where
  "evtchn_unmask h caller port =
     (case ev_unmask (evtchn h) caller port of
        (Ok _, e1) \<Rightarrow>
          (let h1 = h\<lparr>evtchn := e1\<rparr> in
           or_panic h1 (wake_if_deliverable h1 caller port) (\<lambda>h2. (Ok Done, h2)))
      | (Err e, e1) \<Rightarrow> (Err (Evtchn e), h\<lparr>evtchn := e1\<rparr>)
      | (Panic, e1) \<Rightarrow> (Panic, h\<lparr>evtchn := e1\<rparr>))"

definition sched_block :: "Hypervisor \<Rightarrow> DomId \<Rightarrow> Vcpu \<Rightarrow> Ticks \<Rightarrow> hv_result" where
  "sched_block h caller vcpu now =
     (if (case sc_state_of (sched h) caller vcpu of
            Some (Running _) \<Rightarrow> ev_has_deliverable_for (evtchn h) caller vcpu
          | Some Runnable \<Rightarrow> ev_has_deliverable_for (evtchn h) caller vcpu
          | _ \<Rightarrow> False)
      then (Ok Done, h)
      else in_sched h (sc_block (sched h) caller vcpu now))"

section \<open>Lifecycle and authority\<close>

definition domain_create :: "Hypervisor \<Rightarrow> DomId \<Rightarrow> DomId \<Rightarrow> bool \<Rightarrow> hv_result" where
  "domain_create h caller target may =
     (if hv_domain_count h \<le> target then (Err BadDomain, h)
      else
        or_panic h (vec_get (may_create h) caller) (\<lambda>mc.
        if \<not> mc then (Err Denied, h)
        else
          or_panic h (vec_get (life h) target) (\<lambda>l.
          if l \<noteq> Dead then (Err AlreadyAlive, h)
          else
            (let h1 = h\<lparr>life := (life h)[target := Live]\<rparr> in
             if length (may_create h) \<le> target then (Panic, h1)
             else
               (let h2 = h1\<lparr>may_create := (may_create h1)[target := may]\<rparr> in
                or_panic h2 (ctl_set caller target Root (controls h2)) (\<lambda>c.
                (Ok Done, h2\<lparr>controls := c\<rparr>)))))))"

text \<open>The teardown steps up to the point where the slot dies; \<open>None\<close> is a panic.\<close>

definition p2m_mirror_all :: "Unmapped list \<Rightarrow> P2mSystem \<Rightarrow> P2mSystem option" where
  "p2m_mirror_all us s = for_each (\<lambda>u s. p2m_mirror s u) us s"

definition destroy_resources :: "Hypervisor \<Rightarrow> DomId \<Rightarrow> Ticks \<Rightarrow> Hypervisor option" where
  "destroy_resources h target now =
     Option.bind (ev_close_all (evtchn h) target) (\<lambda>e1.
     Option.bind (sc_offline_all (sched h) target now) (\<lambda>s1.
     Option.bind (gt_drain_foreign_maps_of (grant h) target) (\<lambda>(foreign, g1).
     Option.bind (p2m_mirror_all foreign (p2m h)) (\<lambda>m1.
     Option.bind (pm_unlink_all_into m1 target) (\<lambda>m2.
     Option.bind (gt_drain_maps_of g1 target) (\<lambda>(own, g2).
     Option.bind (p2m_mirror_all own m2) (\<lambda>m3.
     Option.bind (gt_revoke_all g2 target) (\<lambda>g3.
     Option.bind (pm_unlink_all m3 target) (\<lambda>m4.
     Option.bind (pm_unpin_all m4 target) (\<lambda>m5.
     Option.bind (pm_free_all m5 target) (\<lambda>m6.
     Option.bind (gt_revoke_grants_to g3 target) (\<lambda>g4.
     Option.bind (ev_clear_unbound_into e1 target) (\<lambda>e2.
     Some (h\<lparr>evtchn := e2, sched := s1, grant := g4, p2m := m6,
             device := dv_release_all_of (device h) target\<rparr>))))))))))))))"

definition destroy_authority :: "Hypervisor \<Rightarrow> DomId \<Rightarrow> Hypervisor option" where
  "destroy_authority h target =
     (if length (life h) \<le> target \<or> length (may_create h) \<le> target then None
      else
        Option.bind (ctl_clear (hv_domain_count h) target (controls h)) (\<lambda>c1.
        Option.bind (sweep_orphaned_control_edges (hv_domain_count h) c1) (\<lambda>c2.
        Some (h\<lparr>life := (life h)[target := Dead], may_create := (may_create h)[target := False],
                controls := c2\<rparr>))))"

definition domain_destroy :: "Hypervisor \<Rightarrow> DomId \<Rightarrow> DomId \<Rightarrow> Ticks \<Rightarrow> hv_result" where
  "domain_destroy h caller target now =
     (if hv_domain_count h \<le> caller \<or> hv_domain_count h \<le> target then (Err BadDomain, h)
      else
        let body =
          or_panic h (destroy_resources h target now) (\<lambda>h1.
          or_panic h1 (destroy_authority h1 target) (\<lambda>h2.
          (Ok Done, h2)))
        in if caller \<noteq> target then need_control h caller target body else body)"

definition control_grant :: "Hypervisor \<Rightarrow> DomId \<Rightarrow> DomId \<Rightarrow> DomId \<Rightarrow> hv_result" where
  "control_grant h caller target to =
     (if hv_domain_count h \<le> target \<or> hv_domain_count h \<le> to then (Err BadDomain, h)
      else
        need_control h caller target
        (if to = target then (Err Denied, h)
         else
           or_panic h (vec_get (life h) to) (\<lambda>l.
           if l \<noteq> Live then (Err NotAlive, h)
           else
             or_panic h (tbl_get (controls h) to target) (\<lambda>c.
             if c \<noteq> Absent then (Ok Done, h)
             else
               or_panic h (ctl_set to target (Via caller) (controls h)) (\<lambda>c'.
               (Ok Done, h\<lparr>controls := c'\<rparr>))))))"

definition control_revoke :: "Hypervisor \<Rightarrow> DomId \<Rightarrow> DomId \<Rightarrow> DomId \<Rightarrow> hv_result" where
  "control_revoke h caller target frm =
     (if hv_domain_count h \<le> target \<or> hv_domain_count h \<le> frm then (Err BadDomain, h)
      else
        need_control h caller target
        (or_panic h (control_subtree_contains (hv_domain_count h) (controls h) caller frm target) (\<lambda>b.
         if \<not> b then (Err Denied, h)
         else
           or_panic h (ctl_set frm target Absent (controls h)) (\<lambda>c1.
           or_panic h (sweep_orphaned_control_edges (hv_domain_count h) c1) (\<lambda>c2.
           (Ok Done, h\<lparr>controls := c2\<rparr>))))))"

definition device_assign :: "Hypervisor \<Rightarrow> DomId \<Rightarrow> DevId \<Rightarrow> DomId \<Rightarrow> hv_result" where
  "device_assign h caller dev to =
     (if hv_domain_count h \<le> to then (Err BadDomain, h)
      else
        need_control h caller to
        (propagate (reject_dead_target h to) h (\<lambda>_.
         in_device h (dv_assign (device h) dev to))))"

definition device_release :: "Hypervisor \<Rightarrow> DomId \<Rightarrow> DevId \<Rightarrow> DomId \<Rightarrow> hv_result" where
  "device_release h caller dev frm =
     (if hv_domain_count h \<le> frm then (Err BadDomain, h)
      else
        let body = in_device h (dv_release (device h) dev frm) in
        if caller \<noteq> frm then need_control h caller frm body else body)"

section \<open>Routing\<close>

fun hv_call :: "Hypervisor \<Rightarrow> DomId \<Rightarrow> HvCall \<Rightarrow> hv_result" where
  "hv_call h caller (CreditGrant amount) = in_credit h caller (\<lambda>c. cr_grant_credit c amount)"
| "hv_call h caller (CreditSpend amount) = in_credit h caller (\<lambda>c. cr_spend_credit c amount)"
| "hv_call h caller (EvtchnAllocUnbound remote) =
     propagate (reject_dead_target h remote) h (\<lambda>_.
     in_evtchn h Port (ev_alloc_unbound (evtchn h) caller remote))"
| "hv_call h caller (EvtchnBindInterdomain remote remote_port) =
     in_evtchn h Port (ev_bind_interdomain (evtchn h) caller remote remote_port)"
| "hv_call h caller (EvtchnBindVirq vcpu virq) =
     propagate (check_bind_vcpu h caller vcpu) h (\<lambda>_.
     in_evtchn h Port (ev_bind_virq (evtchn h) caller vcpu virq))"
| "hv_call h caller (EvtchnBindIpi vcpu) =
     propagate (check_bind_vcpu h caller vcpu) h (\<lambda>_.
     in_evtchn h Port (ev_bind_ipi (evtchn h) caller vcpu))"
| "hv_call h caller (EvtchnClose port) = in_evtchn h (\<lambda>_. Done) (ev_close (evtchn h) caller port)"
| "hv_call h caller (EvtchnSend port) = evtchn_send h caller port"
| "hv_call h caller (EvtchnMask port) = in_evtchn h (\<lambda>_. Done) (ev_mask (evtchn h) caller port)"
| "hv_call h caller (EvtchnUnmask port) = evtchn_unmask h caller port"
| "hv_call h caller (EvtchnConsume port) = in_evtchn h Pending (ev_consume (evtchn h) caller port)"
| "hv_call h caller (GrantAccess gref grantee frame readonly) =
     propagate (reject_dead_target h grantee) h (\<lambda>_.
     in_grant h (\<lambda>_. Done) (gt_grant_access (grant h) caller gref grantee frame readonly))"
| "hv_call h caller (GrantEndAccess gref) = grant_end_access h caller gref"
| "hv_call h caller (GrantMap grantor gref writable) = grant_map h caller grantor gref writable"
| "hv_call h caller (GrantUnmap handle) = grant_unmap h caller handle"
| "hv_call h caller (GrantCopy grantor gref write) = grant_copy h caller grantor gref write"
| "hv_call h caller (SchedAdmit vcpu) = in_sched h (sc_admit (sched h) caller vcpu)"
| "hv_call h caller (SchedRun vcpu pcpu now) = in_sched h (sc_run (sched h) caller vcpu pcpu now)"
| "hv_call h caller (SchedPreempt vcpu now) = in_sched h (sc_preempt (sched h) caller vcpu now)"
| "hv_call h caller (SchedBlock vcpu now) = sched_block h caller vcpu now"
| "hv_call h caller (SchedWake vcpu) = in_sched h (sc_wake (sched h) caller vcpu)"
| "hv_call h caller (SchedOffline vcpu now) = in_sched h (sc_offline (sched h) caller vcpu now)"
| "hv_call h caller (SchedSetAffinity target vcpu a) = sched_set_affinity h caller target vcpu a"
| "hv_call h caller (P2mAllocate mfn) = in_p2m h (pm_allocate (p2m h) caller mfn)"
| "hv_call h caller (P2mFree mfn) = in_p2m h (pm_free (p2m h) caller mfn)"
| "hv_call h caller (P2mPin mfn lvl) = in_p2m h (pm_pin (p2m h) caller mfn lvl)"
| "hv_call h caller (P2mUnpin mfn) = in_p2m h (pm_unpin (p2m h) caller mfn)"
| "hv_call h caller (P2mLink parent slot child writable leaf execute) =
     p2m_link h caller parent slot child writable leaf execute"
| "hv_call h caller (P2mUnlink parent slot) = in_p2m h (pm_unlink (p2m h) caller parent slot)"
| "hv_call h caller (DomainCreate target may) = domain_create h caller target may"
| "hv_call h caller (DomainDestroy target now) = domain_destroy h caller target now"
| "hv_call h caller (ControlGrant target to) = control_grant h caller target to"
| "hv_call h caller (ControlRevoke target frm) = control_revoke h caller target frm"
| "hv_call h caller (DeviceAssign dev to) = device_assign h caller dev to"
| "hv_call h caller (DeviceRelease dev frm) = device_release h caller dev frm"

definition route :: "Hypervisor \<Rightarrow> DomId \<Rightarrow> HvCall \<Rightarrow> hv_result" where
  "route h caller call =
     (if hv_domain_count h \<le> caller then (Err BadDomain, h)
      else
        or_panic h (vec_get (life h) caller) (\<lambda>l.
        if l \<noteq> Live then (Err NotAlive, h)
        else hv_call h caller call))"

definition dispatch :: "Hypervisor \<Rightarrow> DomId \<Rightarrow> HvCall \<Rightarrow> hv_result" where
  "dispatch h caller call = route h caller call"

definition hv_apply :: "Hypervisor \<Rightarrow> Transition \<Rightarrow> (TransitionOutcome, HvError) result \<times> Hypervisor" where
  "hv_apply h tr =
     (case tr of
        Guest caller call \<Rightarrow> apfst (map_ok_err GuestOutcome id) (dispatch h caller call)
      | RaiseVcpuVirq d vcpu virq \<Rightarrow> apfst (map_ok_err RaisedVcpuVirq id) (raise_vcpu_virq h d vcpu virq))"

section \<open>Queries and the cross-subsystem check\<close>

definition hv_balance :: "Hypervisor \<Rightarrow> DomId \<Rightarrow> 64 word option" where
  "hv_balance h d = map_option HvCore.balance (vec_get (credit h) d)"

definition hv_may_create :: "Hypervisor \<Rightarrow> DomId \<Rightarrow> bool" where
  "hv_may_create h d = (case vec_get (may_create h) d of Some b \<Rightarrow> b | None \<Rightarrow> False)"

definition control_edge :: "Hypervisor \<Rightarrow> DomId \<Rightarrow> DomId \<Rightarrow> Control" where
  "control_edge h holder target =
     (case vec_get (controls h) holder of
        None \<Rightarrow> Absent
      | Some row \<Rightarrow> (case vec_get row target of None \<Rightarrow> Absent | Some c \<Rightarrow> c))"

definition hv_controls :: "Hypervisor \<Rightarrow> DomId \<Rightarrow> DomId \<Rightarrow> bool" where
  "hv_controls h holder target \<longleftrightarrow> control_edge h holder target \<noteq> Absent"

definition is_live :: "Hypervisor \<Rightarrow> DomId \<Rightarrow> bool" where
  "is_live h d \<longleftrightarrow> vec_get (life h) d = Some Live"

definition life_of :: "Hypervisor \<Rightarrow> DomId \<Rightarrow> DomainLife option" where
  "life_of h d = vec_get (life h) d"

definition is_clean_shell :: "Hypervisor \<Rightarrow> DomId \<Rightarrow> bool" where
  "is_clean_shell h target \<longleftrightarrow>
     list_all (\<lambda>p. ev_state_of (evtchn h) target p = Some PortState.Free)
       [0..<as_u32 (ev_port_count (evtchn h) target)] \<and>
     list_all (\<lambda>v. sc_state_of (sched h) target v = Some Offline)
       [0..<as_u32 (sc_vcpu_count (sched h) target)] \<and>
     list_all (\<lambda>g. \<not> gt_is_granted (grant h) target g)
       [0..<as_u32 (gt_entry_count (grant h) target)] \<and>
     \<not> gt_holds_any_map (grant h) target \<and>
     list_all (\<lambda>m. pm_owner_of (p2m h) m \<noteq> Some target) [0..<as_u32 (pm_frame_count (p2m h))]"

definition is_unreferenced :: "Hypervisor \<Rightarrow> DomId \<Rightarrow> bool" where
  "is_unreferenced h target \<longleftrightarrow>
     \<not> gt_any_grant_to (grant h) target \<and> \<not> ev_any_unbound_into (evtchn h) target \<and>
     \<not> dv_any_device_of (device h) target"

definition count_or_zero :: "nat option \<Rightarrow> nat" where
  "count_or_zero x = (case x of None \<Rightarrow> 0 | Some n \<Rightarrow> n)"

definition maps_over_frame :: "Hypervisor \<Rightarrow> Mfn \<Rightarrow> nat \<times> nat" where
  "maps_over_frame h frame =
     fold (\<lambda>grantor acc.
       fold (\<lambda>gref (maps, writable).
           if gt_granted_frame (grant h) grantor gref = Some frame
           then (sat_add_u32 maps (count_or_zero (gt_map_count (grant h) grantor gref)),
                 sat_add_u32 writable (count_or_zero (gt_writable_map_count (grant h) grantor gref)))
           else (maps, writable))
         [0..<as_u32 (gt_entry_count (grant h) grantor)] acc)
       [0..<as_u16 (gt_domain_count (grant h))] (0, 0)"

text \<open>
  The check returns at the first violation. Its outcome is \<open>Ok ()\<close> for the source's \<open>None\<close> and
  \<open>Err v\<close> for \<open>Some(v)\<close>; \<open>Panic\<close> is an \<open>unwrap\<close> or an index that fails.
\<close>

fun scan :: "('a \<Rightarrow> (unit, 'v) result) \<Rightarrow> 'a list \<Rightarrow> (unit, 'v) result" where
  "scan f [] = Ok ()"
| "scan f (x # xs) = (case f x of Ok _ \<Rightarrow> scan f xs | r \<Rightarrow> r)"

definition and_then :: "(unit, 'v) result \<Rightarrow> (unit, 'v) result \<Rightarrow> (unit, 'v) result" where
  "and_then a b = (case a of Ok _ \<Rightarrow> b | r \<Rightarrow> r)"

definition check_grant_maps :: "Hypervisor \<Rightarrow> (unit, CrossViolation) result" where
  "check_grant_maps h =
     scan (\<lambda>grantor.
       scan (\<lambda>gref.
           case gt_map_count (grant h) grantor gref of
             None \<Rightarrow> Ok ()
           | Some m \<Rightarrow>
               if m = 0 then Ok ()
               else
                 (case gt_granted_frame (grant h) grantor gref of
                    None \<Rightarrow> Panic
                  | Some frame \<Rightarrow>
                      if pm_owner_of (p2m h) frame \<noteq> Some grantor then Err (MisownedGrantMap grantor gref)
                      else
                        (let (total_maps, total_writable) = maps_over_frame h frame;
                             refs = count_or_zero (pm_refs (p2m h) frame);
                             writable_refs = count_or_zero (pm_type_refs (p2m h) frame PageType.Writable)
                         in if refs < total_maps \<or> writable_refs < total_writable
                            then Err (UnbackedGrantMap grantor gref) else Ok ())))
         [0..<as_u32 (gt_entry_count (grant h) grantor)])
       [0..<as_u16 (gt_domain_count (grant h))]"

definition check_wakeups :: "Hypervisor \<Rightarrow> (unit, CrossViolation) result" where
  "check_wakeups h =
     scan (\<lambda>d.
       scan (\<lambda>port.
           if \<not> ev_deliverable (evtchn h) d port then Ok ()
           else
             (case ev_notify_target (evtchn h) d port of
                Some vcpu \<Rightarrow>
                  if sc_state_of (sched h) d vcpu = Some Blocked then Err (LostWakeup d vcpu) else Ok ()
              | None \<Rightarrow> Ok ()))
         [0..<as_u32 (ev_port_count (evtchn h) d)])
       [0..<as_u16 (ev_domain_count (evtchn h))]"

definition check_foreign_links :: "Hypervisor \<Rightarrow> (unit, CrossViolation) result" where
  "check_foreign_links h =
     scan (\<lambda>(parent, _, child, writable, _, _).
       case (pm_owner_of (p2m h) child, pm_owner_of (p2m h) parent) of
         (Some child_owner, Some parent_owner) \<Rightarrow>
           if child_owner \<noteq> parent_owner \<and>
              \<not> gt_authorizes (grant h) child_owner parent_owner child writable
           then Err (UnauthorizedForeignLink parent child) else Ok ()
       | _ \<Rightarrow> Ok ())
       (pm_link_edges (p2m h))"

definition check_lifecycle :: "Hypervisor \<Rightarrow> (unit, CrossViolation) result" where
  "check_lifecycle h =
     scan (\<lambda>d.
       case vec_get (life h) d of
         None \<Rightarrow> Panic
       | Some Live \<Rightarrow> Ok ()
       | Some Dead \<Rightarrow>
           if \<not> is_clean_shell h d then Err (DeadDomainNotClean d)
           else if \<not> is_unreferenced h d then Err (DeadDomainReferenced d)
           else
             (case vec_get (may_create h) d of
                None \<Rightarrow> Panic
              | Some mc \<Rightarrow> if mc then Err (DeadDomainMayCreate d) else Ok ()))
       [0..<as_u16 (hv_domain_count h)]"

definition check_endpoints :: "Hypervisor \<Rightarrow> (unit, CrossViolation) result" where
  "check_endpoints h =
     scan (\<lambda>holder. scan (\<lambda>target.
         case tbl_get (controls h) holder target of
           None \<Rightarrow> Panic
         | Some c \<Rightarrow>
             if c = Absent then Ok ()
             else
               (case (vec_get (life h) holder, vec_get (life h) target) of
                  (Some a, Some b) \<Rightarrow>
                    if a \<noteq> Live \<or> b \<noteq> Live then Err (ControlEdgeDeadEndpoint holder target) else Ok ()
                | _ \<Rightarrow> Panic))
         [0..<as_u16 (hv_domain_count h)]) [0..<as_u16 (hv_domain_count h)]"

definition check_provenance :: "Hypervisor \<Rightarrow> (unit, CrossViolation) result" where
  "check_provenance h =
     scan (\<lambda>holder. scan (\<lambda>target.
         case tbl_get (controls h) holder target of
           None \<Rightarrow> Panic
         | Some c \<Rightarrow>
             if c = Absent then Ok ()
             else
               (case ctl_reaches_root (controls h) target (hv_domain_count h) holder of
                  None \<Rightarrow> Panic
                | Some b \<Rightarrow> if b then Ok () else Err (ControlEdgeOrphaned holder target)))
         [0..<as_u16 (hv_domain_count h)]) [0..<as_u16 (hv_domain_count h)]"

definition first_cross_violation :: "Hypervisor \<Rightarrow> (unit, CrossViolation) result" where
  "first_cross_violation h =
     and_then (check_grant_maps h) (and_then (check_wakeups h) (and_then (check_foreign_links h)
       (and_then (check_lifecycle h) (and_then (check_endpoints h) (check_provenance h)))))"

definition hv_invariants_hold :: "Hypervisor \<Rightarrow> bool" where
  "hv_invariants_hold h \<longleftrightarrow>
     ev_invariants_hold (evtchn h) \<and> gt_invariants_hold (grant h) \<and> sc_invariants_hold (sched h) \<and>
     pm_invariants_hold (p2m h) \<and> list_all cr_invariants_hold (credit h) \<and>
     first_cross_violation h = Ok ()"

end
