(* ===== verification/Hypervisor_Inv.thy ===== *)
theory Hypervisor_Inv
  imports Hypervisor
begin

text \<open>
  The invariant of the integrated core, \<open>hv_ok\<close>, and its preservation by every transition. It is
  stated per pair of subsystems: live grant mappings rest on frames of their grantor and hold
  exactly the page references they should; no deliverable event rests on a blocked vCPU; every
  cross-domain page-table entry is covered by a grant; nothing names a dead domain; the control
  relation is a forest over live domains. Each subsystem call is characterised by what it does to
  these pairs, so that the proof for a hypercall only looks at the seams it touches.
\<close>

section \<open>Calls and the states they yield\<close>

text \<open>\<open>yields K\<close>: the state a call ends in satisfies \<open>K\<close>, whatever its outcome.\<close>

definition yields :: "('s \<Rightarrow> bool) \<Rightarrow> 'r \<times> 's \<Rightarrow> bool" where
  "yields K rs \<longleftrightarrow> K (snd rs)"

named_theorems yields_intros \<open>introduction rules for yielded states\<close>

lemma yields_propagate [yields_intros]:
  "K s \<Longrightarrow> (\<And>v. r = Ok v \<Longrightarrow> yields K (k v)) \<Longrightarrow> yields K (propagate r s k)"
  by (cases r) (auto simp: yields_def)

lemma yields_or_panic [yields_intros]:
  "K s \<Longrightarrow> (\<And>y. x = Some y \<Longrightarrow> yields K (k y)) \<Longrightarrow> yields K (or_panic s x k)"
  by (cases x) (auto simp: yields_def)

lemma yields_if [yields_intros]:
  "(b \<Longrightarrow> yields K x) \<Longrightarrow> (\<not> b \<Longrightarrow> yields K y) \<Longrightarrow> yields K (if b then x else y)"
  by simp

lemma yields_pair [yields_intros]: "K s \<Longrightarrow> yields K (r, s)"
  by (simp add: yields_def)

section \<open>The invariant\<close>

definition dead :: "DomainLife list \<Rightarrow> DomId \<Rightarrow> bool" where
  "dead L d \<longleftrightarrow> vec_get L d = Some Dead"

text \<open>Nothing in a subsystem belongs to a dead domain or names one.\<close>

definition ev_tenants :: "DomainLife list \<Rightarrow> EvtchnSystem \<Rightarrow> bool" where
  "ev_tenants L e \<longleftrightarrow> (\<forall>d p st. ev_state_of e d p = Some st \<and> st \<noteq> PortState.Free \<longrightarrow>
     \<not> dead L d \<and> (\<forall>r. st = Unbound r \<longrightarrow> \<not> dead L r))"

definition sc_tenants :: "DomainLife list \<Rightarrow> SchedSystem \<Rightarrow> bool" where
  "sc_tenants L s \<longleftrightarrow> (\<forall>d v c. sc_get s d v = Some c \<and> vc_state c \<noteq> Offline \<longrightarrow> \<not> dead L d)"

definition gt_tenants :: "DomainLife list \<Rightarrow> GrantSystem \<Rightarrow> bool" where
  "gt_tenants L g \<longleftrightarrow> (\<forall>d k r f ro. gt_offer g d k = Some (r, f, ro) \<longrightarrow> \<not> dead L d \<and> \<not> dead L r)"

definition pm_tenants :: "DomainLife list \<Rightarrow> P2mSystem \<Rightarrow> bool" where
  "pm_tenants L p \<longleftrightarrow> (\<forall>m d. pm_owner_of p m = Some d \<longrightarrow> \<not> dead L d)"

definition dv_tenants :: "DomainLife list \<Rightarrow> DeviceSystem \<Rightarrow> bool" where
  "dv_tenants L v \<longleftrightarrow> (\<forall>dev d. dv_holder_of v dev = Some d \<longrightarrow> \<not> dead L d)"

definition mc_tenants :: "DomainLife list \<Rightarrow> bool list \<Rightarrow> bool" where
  "mc_tenants L mc \<longleftrightarrow> (\<forall>d. vec_get mc d = Some True \<longrightarrow> \<not> dead L d)"

definition ctl_tenants :: "DomainLife list \<Rightarrow> controls \<Rightarrow> bool" where
  "ctl_tenants L c \<longleftrightarrow> (\<forall>a b. ctl_edge c a b \<noteq> Absent \<longrightarrow> \<not> dead L a \<and> \<not> dead L b)"

text \<open>The page references that the live grant mappings hold, and on whose frames.\<close>

definition map_ref :: "Unmapped \<Rightarrow> Mfn \<times> ChildRef" where
  "map_ref u = (um_frame u, if um_writable u then Typed Writable else Bare)"

definition gt_refs :: "GrantSystem \<Rightarrow> held" where
  "gt_refs g = image_mset (\<lambda>m. map_ref (gt_released g m)) (gt_live g)"

definition seam_maps :: "GrantSystem \<Rightarrow> P2mSystem \<Rightarrow> bool" where
  "seam_maps g p \<longleftrightarrow> (\<forall>m \<in># gt_live g. pm_owner_of p (um_frame (gt_released g m)) = Some (m_grantor m))"

definition seam_wake :: "EvtchnSystem \<Rightarrow> SchedSystem \<Rightarrow> bool" where
  "seam_wake e s \<longleftrightarrow> (\<forall>d p v. ev_deliverable e d p \<and> ev_notify_target e d p = Some v \<longrightarrow>
     sc_state_of s d v \<noteq> Some Blocked)"

definition seam_links :: "GrantSystem \<Rightarrow> P2mSystem \<Rightarrow> bool" where
  "seam_links g p \<longleftrightarrow> (\<forall>l \<in># pm_live p. \<forall>a b. pm_owner_of p (l_child l) = Some a \<and>
     pm_owner_of p (l_parent l) = Some b \<and> a \<noteq> b \<longrightarrow> gt_authorizes g a b (l_child l) (l_writable l))"

definition hv_sizes :: "Hypervisor \<Rightarrow> bool" where
  "hv_sizes h \<longleftrightarrow> (let n = hv_domain_count h in n < u16_size \<and>
     ev_domain_count (evtchn h) = n \<and> gt_domain_count (grant h) = n \<and> sc_domain_count (sched h) = n \<and>
     pm_num_domains (p2m h) = n \<and> dv_num_domains (device h) = n \<and> length (life h) = n \<and>
     length (may_create h) = n \<and> ctl_square n (controls h))"

definition hv_parts :: "Hypervisor \<Rightarrow> bool" where
  "hv_parts h \<longleftrightarrow> (\<forall>c \<in> set (credit h). cr_inv c) \<and> ev_ok (evtchn h) \<and> gt_ok (grant h) \<and>
     sc_ok (sched h) \<and> pm_ok (gt_refs (grant h)) (p2m h) \<and> dv_ok (device h) \<and> ctl_forest (controls h)"

definition hv_seams :: "Hypervisor \<Rightarrow> bool" where
  "hv_seams h \<longleftrightarrow> seam_maps (grant h) (p2m h) \<and> seam_wake (evtchn h) (sched h) \<and>
     seam_links (grant h) (p2m h)"

definition hv_tenants :: "Hypervisor \<Rightarrow> bool" where
  "hv_tenants h \<longleftrightarrow> ev_tenants (life h) (evtchn h) \<and> sc_tenants (life h) (sched h) \<and>
     gt_tenants (life h) (grant h) \<and> pm_tenants (life h) (p2m h) \<and> dv_tenants (life h) (device h) \<and>
     mc_tenants (life h) (may_create h) \<and> ctl_tenants (life h) (controls h)"

definition hv_ok :: "Hypervisor \<Rightarrow> bool" where
  "hv_ok h \<longleftrightarrow> hv_sizes h \<and> hv_parts h \<and> hv_seams h \<and> hv_tenants h"

lemmas hv_ok_defs = hv_ok_def hv_sizes_def hv_parts_def hv_seams_def hv_tenants_def Let_def

text \<open>The invariant with one subsystem replaced.\<close>

lemma hv_ok_credit:
  assumes "hv_ok h" "length cs = length (credit h)" "\<forall>c \<in> set cs. cr_inv c"
  shows "hv_ok (h\<lparr>credit := cs\<rparr>)"
  using assms by (simp add: hv_ok_defs hv_domain_count_def)

lemma hv_ok_evtchn:
  assumes "hv_ok h" "ev_ok e" "ev_domain_count e = ev_domain_count (evtchn h)"
    "ev_tenants (life h) e" "seam_wake e (sched h)"
  shows "hv_ok (h\<lparr>evtchn := e\<rparr>)"
  using assms by (simp add: hv_ok_defs hv_domain_count_def)

lemma hv_ok_sched:
  assumes "hv_ok h" "sc_ok s" "sc_domain_count s = sc_domain_count (sched h)"
    "sc_tenants (life h) s" "seam_wake (evtchn h) s"
  shows "hv_ok (h\<lparr>sched := s\<rparr>)"
  using assms by (simp add: hv_ok_defs hv_domain_count_def)

lemma hv_ok_device:
  assumes "hv_ok h" "dv_ok v" "dv_num_domains v = dv_num_domains (device h)" "dv_tenants (life h) v"
  shows "hv_ok (h\<lparr>device := v\<rparr>)"
  using assms by (simp add: hv_ok_defs hv_domain_count_def)

lemma hv_ok_memory:
  assumes "hv_ok h" "gt_ok g" "pm_ok (gt_refs g) p" "gt_domain_count g = gt_domain_count (grant h)"
    "pm_num_domains p = pm_num_domains (p2m h)" "seam_maps g p" "seam_links g p"
    "gt_tenants (life h) g" "pm_tenants (life h) p"
  shows "hv_ok (h\<lparr>grant := g, p2m := p\<rparr>)"
  using assms by (simp add: hv_ok_defs hv_domain_count_def)

lemma hv_ok_controls:
  assumes "hv_ok h" "ctl_square (hv_domain_count h) c" "ctl_forest c" "ctl_tenants (life h) c"
  shows "hv_ok (h\<lparr>controls := c\<rparr>)"
  using assms by (simp add: hv_ok_defs hv_domain_count_def)

section \<open>The initial state\<close>

lemma ev_state_of_new: "ev_state_of (ev_new n m) d p = Some st \<Longrightarrow> st = PortState.Free"
  by (auto simp: ev_state_of_eq ev_get_new EC_FREE_def split: if_splits)

lemma ctl_edge_new: "ctl_edge (map (\<lambda>_. replicate n Absent) [0..<n]) a b = Absent"
  by (auto simp: ctl_edge_def tbl_get_def)

lemma gt_offer_new: "gt_offer (gt_new n k) d g = None" "gt_live (gt_new n k) = {#}"
  by (auto simp: gt_offer_def gt_get_def gt_new_def tbl_get_def gt_live_def)

lemma pm_owner_new: "pm_owner_of (pm_new n k) m = None" "pm_live (pm_new n k) = {#}"
  by (auto simp: pm_query_simps pm_info_def pm_new_def pm_live_def vec_get_def)

lemma hv_new_ok:
  assumes "n < u16_size" "np < u32_size" "ng < u32_size" "nv < u32_size" "nc < u32_size"
    "nf < u32_size"
  shows "hv_ok (hv_new n np ng nv nc nf nd)"
proof -
  let ?h = "hv_new n np ng nv nc nf nd"
  have refs: "gt_refs (gt_new n ng) = {#}" by (simp add: gt_refs_def gt_offer_new)
  have "hv_sizes ?h"
    using assms by (simp add: hv_sizes_def hv_new_def hv_domain_count_def ev_domain_count_def ev_new_def
      gt_domain_count_def gt_new_def sc_domain_count_def sc_new_def pm_new_def dv_new_def ctl_square_def)
  moreover have "hv_parts ?h"
    using assms by (simp add: hv_parts_def hv_new_def refs cr_inv_new ev_new_ok gt_new_ok sc_new_ok pm_new_ok
      dv_new_ok ctl_forest_def ctl_edge_new)
  moreover have "hv_seams ?h"
    by (simp add: hv_seams_def hv_new_def seam_maps_def seam_links_def seam_wake_def gt_offer_new pm_owner_new
      ev_deliverable_eq ev_get_new EC_FREE_def)
  moreover have "hv_tenants ?h"
    by (auto simp: hv_tenants_def hv_new_def ev_tenants_def sc_tenants_def gt_tenants_def pm_tenants_def
      dv_tenants_def mc_tenants_def ctl_tenants_def gt_offer_new pm_owner_new ctl_edge_new sc_get_new
      VC_OFFLINE_def dead_def vec_get_def dest!: ev_state_of_new split: if_splits)
  ultimately show ?thesis by (simp add: hv_ok_def)
qed

section \<open>Event channels\<close>

lemma ev_tenants_put:
  assumes "ev_tenants L e" "ec_state c \<noteq> PortState.Free \<Longrightarrow> \<not> dead L d"
    "\<And>r. ec_state c = Unbound r \<Longrightarrow> \<not> dead L r"
  shows "ev_tenants L (ev_put e d p c)"
  using assms unfolding ev_tenants_def by (auto simp: ev_state_of_put split: if_splits)

lemma ev_tenantsD:
  assumes "ev_tenants L e" "ev_get e d p = Some c" "ec_state c \<noteq> PortState.Free"
  shows "\<not> dead L d" "ec_state c = Unbound r \<Longrightarrow> \<not> dead L r"
  using assms unfolding ev_tenants_def by (auto simp: ev_state_of_eq)

text \<open>What the calls that do not signal keep: the domains, their tenants, and no new signal.\<close>

definition ev_calm :: "DomainLife list \<Rightarrow> EvtchnSystem \<Rightarrow> EvtchnSystem \<Rightarrow> bool" where
  "ev_calm L e e' \<longleftrightarrow> ev_domain_count e' = ev_domain_count e \<and> ev_tenants L e' \<and> ev_quieter e e'"

lemma ev_calm_refl: "ev_tenants L e \<Longrightarrow> ev_calm L e e"
  by (simp add: ev_calm_def)

lemma ev_calm_put:
  assumes "ev_calm L e e1" "ec_state c \<noteq> PortState.Free \<Longrightarrow> \<not> dead L d"
    "\<And>r. ec_state c = Unbound r \<Longrightarrow> \<not> dead L r" "\<not> pending c"
  shows "ev_calm L e (ev_put e1 d p c)"
  using assms ev_tenants_put [of L e1 c d p] ev_quieter_trans [OF _ ev_quieter_put [of c e1 d p]]
  by (simp add: ev_calm_def)

lemma ev_calm_wake: "ev_calm L e e' \<Longrightarrow> seam_wake e s \<Longrightarrow> seam_wake e' s"
  unfolding ev_calm_def ev_quieter_def seam_wake_def by metis

lemma ev_quieter_mask:
  assumes "ev_get s d p = Some c" "ec_state c' = ec_state c" "pending c' = pending c" "masked c \<longrightarrow> masked c'"
  shows "ev_quieter s (ev_put s d p c')"
  unfolding ev_quieter_def
proof (intro allI impI)
  fix d' p' assume del: "ev_deliverable (ev_put s d p c') d' p'"
  show "ev_deliverable s d' p' \<and> ev_notify_target (ev_put s d p c') d' p' = ev_notify_target s d' p'"
  proof (cases "(d', p') = (d, p)")
    case True
    then show ?thesis
      using del assms by (auto simp: ev_deliverable_eq ev.get_put ev_notify_target_def ev_state_of_put ev_state_of_eq)
  next
    case False
    then show ?thesis using del by (auto simp: ev_deliverable_eq ev.get_put ev_notify_target_put)
  qed
qed

lemma ev_free_quiet:
  assumes "ev_find_free e d = Ok p" "ev_get e d p = Some c" "ev_ok e"
  shows "\<not> pending c"
proof -
  have "ec_state c = PortState.Free" using ev_find_free_port [OF assms(1,3)] assms(2) by auto
  then show ?thesis using ev_invD [of e d p c] assms by (auto simp: ev_port_ok_def)
qed

lemma ev_alloc_unbound_calm:
  assumes "ev_ok e" "ev_tenants L e" "\<not> dead L d" "\<not> dead L r"
  shows "yields (ev_calm L e) (ev_alloc_unbound e d r)"
  unfolding ev_alloc_unbound_def
  by (intro yields_intros) (auto simp: ev_chan_mut_Some assms intro!: ev_calm_refl ev_calm_put dest: ev_free_quiet)

lemma ev_bind_virq_calm:
  assumes "ev_ok e" "ev_tenants L e" "\<not> dead L d"
  shows "yields (ev_calm L e) (ev_bind_virq e d v q)"
  unfolding ev_bind_virq_def
  by (intro yields_intros) (auto simp: ev_chan_mut_Some assms intro!: ev_calm_refl ev_calm_put dest: ev_free_quiet)

lemma ev_bind_ipi_calm:
  assumes "ev_ok e" "ev_tenants L e" "\<not> dead L d"
  shows "yields (ev_calm L e) (ev_bind_ipi e d v)"
  unfolding ev_bind_ipi_def
  by (intro yields_intros) (auto simp: ev_chan_mut_Some assms intro!: ev_calm_refl ev_calm_put dest: ev_free_quiet)

lemma ev_bind_interdomain_calm:
  assumes "ev_tenants L e" "\<not> dead L d"
  shows "yields (ev_calm L e) (ev_bind_interdomain e d r q)"
  unfolding ev_bind_interdomain_def
  by (intro yields_intros)
    (auto simp: ev_chan_mut_Some assms intro!: ev_calm_refl ev_calm_put dest: ev_tenantsD(1) [OF assms(1)])

lemma ev_close_calm:
  assumes ok: "ev_ok e" and ten: "ev_tenants L e" and d: "\<not> dead L d"
  shows "yields (ev_calm L e) (ev_close e d p)"
proof (cases "\<exists>st. ev_state_of e d p = Some st \<and> st \<noteq> PortState.Free")
  case True
  then obtain st where st: "ev_state_of e d p = Some st" "st \<noteq> PortState.Free" by blast
  from ev_close_effect [OF ok st] obtain e' where e': "ev_close e d p = (Ok (), e')"
    "ev_domain_count e' = ev_domain_count e" "ev_quieter e e'"
    "\<And>d' p'. ev_state_of e' d' p' = (if (d', p') = (d, p) then Some PortState.Free
       else if st = Interdomain d' p' then Some (Unbound d) else ev_state_of e d' p')" by blast
  have peer: "\<not> dead L r" if "st = Interdomain r q" for r q
    using ev_inv_peer [OF ev_okD(2) [OF ok], of d p r q] st that ten unfolding ev_tenants_def by fastforce
  have "ev_tenants L e'"
    using ten d peer unfolding ev_tenants_def by (auto simp: e'(4) split: if_splits)
  then show ?thesis using e' by (simp add: yields_def ev_calm_def)
next
  case False
  then show ?thesis
    unfolding ev_close_def
    by (intro yields_intros) (auto simp: ev_state_of_eq intro!: ev_calm_refl ten)
qed

lemma ev_mask_calm:
  assumes "ev_tenants L e"
  shows "yields (ev_calm L e) (ev_mask e d p)"
  unfolding ev_mask_def ev_set_masked_def
proof (intro yields_intros)
  fix c assume c: "ev_chan e d p = Ok c" "ec_state c \<noteq> PortState.Free"
  then have g: "ev_get e d p = Some c" by simp
  then have "ev_quieter e (ev_put e d p (c\<lparr>masked := True\<rparr>))" by (rule ev_quieter_mask) simp_all
  moreover have "ev_tenants L (ev_put e d p (c\<lparr>masked := True\<rparr>))"
    using ev_tenantsD [OF assms g c(2)] assms by (intro ev_tenants_put) auto
  ultimately show "ev_calm L e (ev_put e d p (c\<lparr>masked := True\<rparr>))" by (simp add: ev_calm_def)
qed (simp_all add: ev_calm_refl assms)

lemma ev_consume_calm:
  assumes "ev_tenants L e"
  shows "yields (ev_calm L e) (ev_consume e d p)"
  unfolding ev_consume_def
  by (intro yields_intros)
    (auto intro!: ev_calm_refl ev_calm_put assms dest: ev_tenantsD [OF assms])

text \<open>The calls that may signal change one port, and not its binding.\<close>

definition ev_signal :: "EvtchnSystem \<Rightarrow> DomId \<Rightarrow> Port \<Rightarrow> EvtchnSystem \<Rightarrow> bool" where
  "ev_signal e d p e' \<longleftrightarrow> (\<exists>c c'. ev_get e d p = Some c \<and> ec_state c \<noteq> PortState.Free \<and>
     ec_state c' = ec_state c \<and> e' = ev_put e d p c')"

lemma ev_signal_tenants: "ev_tenants L e \<Longrightarrow> ev_signal e d p e' \<Longrightarrow> ev_tenants L e'"
  unfolding ev_signal_def by clarify (rule ev_tenants_put; metis ev_tenantsD)

lemma ev_signal_count: "ev_signal e d p e' \<Longrightarrow> ev_domain_count e' = ev_domain_count e"
  unfolding ev_signal_def by auto

lemma ev_signal_state: "ev_signal e d p e' \<Longrightarrow> ev_state_of e' d' p' = ev_state_of e d' p'"
  unfolding ev_signal_def by (auto simp: ev_state_of_eq ev.get_put)

lemma ev_signal_deliverable:
  assumes "ev_signal e d p e'" "ev_deliverable e' d' p'" "(d', p') \<noteq> (d, p)"
  shows "ev_deliverable e d' p' \<and> ev_notify_target e' d' p' = ev_notify_target e d' p'"
  using assms unfolding ev_signal_def by (auto simp: ev_deliverable_eq ev_notify_target_put ev.get_put split: if_splits)

lemma ev_send_signal:
  assumes ok: "ev_ok e" and r: "ev_send e d p = (Ok u, e')"
  shows "\<exists>t q. ev_send_target e' d p = Some (t, q) \<and> ev_signal e t q e'"
proof -
  from r obtain t q c where *: "ev_send_target e d p = Some (t, q)" "ev_get e t q = Some c"
    "e' = ev_put e t q (c\<lparr>pending := True\<rparr>)"
    by (auto simp: ev_send_def ev_chan_mut_Some split: option.splits prod.splits)
  from ev_send_target_Some [OF *(1) ok] *(2) have "ec_state c \<noteq> PortState.Free" by auto
  then have sig: "ev_signal e t q e'" unfolding ev_signal_def using * by (intro exI [of _ c] exI [of _ "c\<lparr>pending := True\<rparr>"]) auto
  have "ev_send_target e' d p = ev_send_target e d p"
    unfolding ev_send_target_def ev_signal_state [OF sig] ..
  with * sig show ?thesis by auto
qed

lemma ev_raise_signal:
  assumes ok: "ev_ok e" and r: "ev_raise_virq e d v q = (Ok p, e')"
  shows "ev_signal e d p e'"
proof -
  from r obtain ports i c where *: "ev_domain e d = Ok ports"
    "position (\<lambda>c. ec_state c = Virq v q) ports = Some i" "p = as_u32 i"
    "ev_get e d p = Some c" "e' = ev_put e d p (c\<lparr>pending := True\<rparr>)"
    by (auto simp: ev_raise_virq_def ev_chan_mut_Some split: option.splits)
  from ev_virq_port [OF *(2,1) ok] *(3,4) have "ec_state c = Virq v q" by auto
  then show ?thesis unfolding ev_signal_def using * by (intro exI [of _ c] exI [of _ "c\<lparr>pending := True\<rparr>"]) auto
qed

lemma ev_unmask_signal:
  assumes r: "ev_unmask e d p = (Ok u, e')"
  shows "ev_signal e d p e'"
proof -
  from r obtain c where "ev_get e d p = Some c" "ec_state c \<noteq> PortState.Free" "e' = ev_put e d p (c\<lparr>masked := False\<rparr>)"
    by (auto simp: ev_unmask_def ev_set_masked_def split: if_splits)
  then show ?thesis unfolding ev_signal_def by (intro exI [of _ c] exI [of _ "c\<lparr>masked := False\<rparr>"]) auto
qed

section \<open>Scheduler\<close>

text \<open>The calls change one vCPU; only \<open>block\<close> blocks it.\<close>

definition sc_touch :: "(VirtualCpu \<Rightarrow> VirtualCpu \<Rightarrow> bool) \<Rightarrow> SchedSystem \<Rightarrow> DomId \<Rightarrow> Vcpu \<Rightarrow> SchedSystem \<Rightarrow> bool" where
  "sc_touch Q s d v s' \<longleftrightarrow> s' = s \<or> (\<exists>c c' ps. sc_get s d v = Some c \<and> Q c c' \<and>
     s' = (sc_put s d v c')\<lparr>pcpus := ps\<rparr>)"

abbreviation no_block :: "VirtualCpu \<Rightarrow> VirtualCpu \<Rightarrow> bool" where
  "no_block c c' \<equiv> vc_state c' = Blocked \<longrightarrow> vc_state c = Blocked"

lemma sc_touch_refl [simp]: "sc_touch Q s d v s"
  by (simp add: sc_touch_def)

lemma sc_touch_put: "sc_get s d v = Some c \<Longrightarrow> Q c c' \<Longrightarrow> sc_touch Q s d v ((sc_put s d v c')\<lparr>pcpus := ps\<rparr>)"
  unfolding sc_touch_def by blast

lemma sc_touch_put_same: "sc_get s d v = Some c \<Longrightarrow> Q c c' \<Longrightarrow> sc_touch Q s d v (sc_put s d v c')"
  using sc_touch_put [of s d v c Q c' "pcpus s"] by (simp add: sc_put_def)

lemma sc_touch_count: "sc_touch Q s d v s' \<Longrightarrow> sc_domain_count s' = sc_domain_count s"
  by (auto simp: sc_touch_def sc_domain_count_def)

lemma sc_touch_get:
  assumes "sc_touch Q s d v s'" "sc_get s' d' v' = Some c'"
  shows "sc_get s d' v' = Some c' \<or> (d', v') = (d, v) \<and> (\<exists>c. sc_get s d v = Some c \<and> Q c c')"
  using assms by (auto simp: sc_touch_def sc_get_put_at split: if_splits)

lemma sc_touch_tenants:
  assumes "sc_touch Q s d v s'" "sc_tenants L s" "\<not> dead L d" shows "sc_tenants L s'"
  unfolding sc_tenants_def
proof (intro allI impI)
  fix d' v' c assume "sc_get s' d' v' = Some c \<and> vc_state c \<noteq> Offline"
  then show "\<not> dead L d'" using sc_touch_get [OF assms(1), of d' v' c] assms(2,3) unfolding sc_tenants_def by blast
qed

lemma sc_touch_wake:
  assumes "sc_touch no_block s d v s'" "seam_wake e s" shows "seam_wake e s'"
  unfolding seam_wake_def
proof (intro allI impI notI)
  fix d' p v' assume e: "ev_deliverable e d' p \<and> ev_notify_target e d' p = Some v'"
    and b: "sc_state_of s' d' v' = Some Blocked"
  then obtain c' where c': "sc_get s' d' v' = Some c'" "vc_state c' = Blocked" by (auto simp: sc_state_of_eq)
  then have "sc_state_of s d' v' = Some Blocked"
    using sc_touch_get [OF assms(1) c'(1)] by (auto simp: sc_state_of_eq)
  then show False using assms(2) e unfolding seam_wake_def by blast
qed

lemma sc_admit_touch: "yields (sc_touch no_block s d v) (sc_admit s d v)"
  unfolding sc_admit_def by (intro yields_intros) (auto intro!: sc_touch_put_same)

lemma sc_wake_touch: "yields (sc_touch no_block s d v) (sc_wake s d v)"
  unfolding sc_wake_def by (intro yields_intros) (auto intro!: sc_touch_put_same)

lemma sc_set_affinity_touch: "yields (sc_touch no_block s d v) (sc_set_affinity s d v m)"
  unfolding sc_set_affinity_def Let_def by (intro yields_intros) (auto simp: sc_vcpu_mut_eq intro!: sc_touch_put_same)

text \<open>A call that was refused has touched nothing.\<close>

lemma wb_yields:
  assumes "well_behaved I s rs" "K s" "\<And>v s'. rs = (Ok v, s') \<Longrightarrow> K s'"
  shows "yields K rs"
  using assms by (cases rs; cases "fst rs") (auto simp: well_behaved_def yields_def)

lemma sc_run_touch: "sc_ok s \<Longrightarrow> yields (sc_touch no_block s d v) (sc_run s d v q now)"
  by (rule wb_yields [OF sc_run_wb]) (auto dest!: sc_run_effect intro!: sc_touch_put)

lemma sc_preempt_touch:
  assumes ok: "sc_ok s" shows "yields (sc_touch no_block s d v) (sc_preempt s d v now)"
proof (rule wb_yields [OF sc_preempt_wb [OF ok]])
  fix u s' assume r: "sc_preempt s d v now = (Ok u, s')"
  then obtain c q where c: "sc_get s d v = Some c" "vc_state c = Running q"
    by (auto simp: sc_preempt_def sc_running_pcpu_Ok)
  then show "sc_touch no_block s d v s'"
    using r sc_preempt_effect [OF ok c, of now] by (auto intro!: sc_touch_put)
qed simp

lemma sc_offline_touch:
  assumes ok: "sc_ok s" shows "yields (sc_touch no_block s d v) (sc_offline s d v now)"
proof (rule wb_yields [OF sc_offline_wb [OF ok]])
  fix u s' assume r: "sc_offline s d v now = (Ok u, s')"
  then obtain c where c: "sc_get s d v = Some c" "vc_state c \<noteq> Offline"
    by (auto simp: sc_offline_def split: if_splits)
  then show "sc_touch no_block s d v s'"
    using r sc_offline_effect [OF ok c, of now] by (auto intro!: sc_touch_put)
qed simp

lemma sc_block_touch:
  assumes ok: "sc_ok s" shows "yields (sc_touch (\<lambda>_ _. True) s d v) (sc_block s d v now)"
proof (rule wb_yields [OF sc_block_wb [OF ok]])
  fix u s' assume r: "sc_block s d v now = (Ok u, s')"
  then obtain c where c: "sc_get s d v = Some c" "vc_state c \<noteq> Offline" "vc_state c \<noteq> Blocked"
    by (auto simp: sc_block_def split: if_splits)
  then show "sc_touch (\<lambda>_ _. True) s d v s'"
    using r sc_block_effect [OF ok c, of now] by (auto intro!: sc_touch_put)
qed simp

lemma sc_wake_unblocks: "sc_state_of (snd (sc_wake s d v)) d v \<noteq> Some Blocked"
  by (cases "sc_get s d v")
    (auto simp: sc_wake_def propagate_def sc_vcpu_eq sc_state_of_eq sc_get_put_at split: result.splits)

text \<open>A signal followed by its wake-up restores the invariant.\<close>

lemma wake_restores:
  assumes h: "hv_ok h" and sig: "ev_signal (evtchn h) d p e" and e: "ev_ok e"
  shows "\<exists>s. wake_if_deliverable (h\<lparr>evtchn := e\<rparr>) d p = Some (h\<lparr>evtchn := e, sched := s\<rparr>) \<and>
     hv_ok (h\<lparr>evtchn := e, sched := s\<rparr>)"
proof -
  let ?s = "sched h"
  have parts: "sc_ok ?s" "seam_wake (evtchn h) ?s" "sc_tenants (life h) ?s" "ev_tenants (life h) (evtchn h)"
    using h by (auto simp: hv_ok_defs)
  define s where "s = (if ev_deliverable e d p then
     (case ev_notify_target e d p of Some v \<Rightarrow> snd (sc_wake ?s d v) | None \<Rightarrow> ?s) else ?s)"
  have alive: "\<not> dead (life h) d" using sig parts(4) unfolding ev_signal_def by (auto dest: ev_tenantsD)
  have "\<exists>v. sc_touch no_block ?s d v s"
    using sc_wake_touch [of ?s d] unfolding s_def yields_def by (auto split: option.split)
  then obtain v where touch: "sc_touch no_block ?s d v s" ..
  have sok: "sc_ok s" using parts(1) sc_wake_wb [of ?s d] by (auto simp: s_def well_behaved_def split: option.splits)
  have nopanic: "fst (sc_wake ?s d v) \<noteq> Panic" for v using parts(1) sc_wake_wb [of ?s d v] by (simp add: well_behaved_def)
  have wake: "wake_if_deliverable (h\<lparr>evtchn := e\<rparr>) d p = Some (h\<lparr>evtchn := e, sched := s\<rparr>)"
  proof (cases "ev_notify_target e d p")
    case (Some v)
    obtain r s1 where w: "sc_wake ?s d v = (r, s1)" by (cases "sc_wake ?s d v")
    then show ?thesis using nopanic [of v] Some by (cases r) (auto simp: wake_if_deliverable_def s_def)
  qed (auto simp: wake_if_deliverable_def s_def)
  have seam: "seam_wake e s"
    unfolding seam_wake_def
  proof (intro allI impI)
    fix d' p' v' assume del: "ev_deliverable e d' p' \<and> ev_notify_target e d' p' = Some v'"
    show "sc_state_of s d' v' \<noteq> Some Blocked"
    proof (cases "(d', p') = (d, p)")
      case True
      then show ?thesis using del sc_wake_unblocks [of ?s d v'] by (simp add: s_def)
    next
      case False
      then have old: "ev_deliverable (evtchn h) d' p'" "ev_notify_target (evtchn h) d' p' = Some v'"
        using ev_signal_deliverable [OF sig, of d' p'] del by auto
      then show ?thesis using sc_touch_wake [OF touch parts(2)] unfolding seam_wake_def by blast
    qed
  qed
  have "hv_ok (h\<lparr>evtchn := e, sched := s\<rparr>)"
    using h e sok seam ev_signal_tenants [OF parts(4) sig] ev_signal_count [OF sig]
      sc_touch_count [OF touch] sc_touch_tenants [OF touch parts(3) alive]
    by (simp add: hv_ok_defs hv_domain_count_def)
  with wake show ?thesis by blast
qed

section \<open>Grants and frames\<close>

lemma gt_refs_cong:
  assumes "gt_offer g' = gt_offer g" "gt_live g' = gt_live g" shows "gt_refs g' = gt_refs g"
  unfolding gt_refs_def gt_released_cong [OF assms(1)] assms(2) ..

lemma gt_authorizes_cong: "gt_offer g' = gt_offer g \<Longrightarrow> gt_authorizes g' = gt_authorizes g"
  by (intro ext) (simp add: gt_authorizes_iff)

lemma seam_maps_cong:
  assumes "gt_offer g' = gt_offer g" "gt_live g' = gt_live g" shows "seam_maps g' p = seam_maps g p"
  unfolding seam_maps_def gt_released_cong [OF assms(1)] assms(2) ..

lemma seam_links_cong:
  assumes "gt_offer g' = gt_offer g" shows "seam_links g' p = seam_links g p"
  unfolding seam_links_def gt_authorizes_cong [OF assms] ..

lemma gt_tenants_cong: "gt_offer g' = gt_offer g \<Longrightarrow> gt_tenants L g' = gt_tenants L g"
  by (simp add: gt_tenants_def)

lemma gt_ref_allocated:
  assumes "pm_ok (gt_refs g) p" "m \<in># gt_live g"
  shows "\<exists>d. pm_owner_of p (um_frame (gt_released g m)) = Some d"
proof -
  have "map_ref (gt_released g m) \<in># gt_refs g + pm_owed p" using assms(2) by (simp add: gt_refs_def)
  then have "pm_info p (fst (map_ref (gt_released g m))) \<noteq> None"
    using assms(1) unfolding pm_ok_def pm_counts_def by blast
  then show ?thesis by (auto simp: map_ref_def pm_query_simps)
qed

text \<open>A page call that keeps the owners of the frames that stay allocated keeps both seams.\<close>

definition pm_steady :: "P2mSystem \<Rightarrow> P2mSystem \<Rightarrow> bool" where
  "pm_steady p p' \<longleftrightarrow> pm_num_domains p' = pm_num_domains p \<and>
     (\<forall>m a b. pm_owner_of p m = Some a \<and> pm_owner_of p' m = Some b \<longrightarrow> b = a)"

lemma pm_steady_refl [simp]: "pm_steady p p" by (auto simp: pm_steady_def)

lemma pm_keeps_steady: "pm_keeps p p' \<Longrightarrow> pm_steady p p'"
  unfolding pm_steady_def using pm_keeps_owner [of p p'] by (auto simp: pm_keeps_def)

lemma pm_steady_maps:
  assumes "pm_steady p p'" "seam_maps g p" "pm_ok (gt_refs g) p'"
  shows "seam_maps g p'"
  unfolding seam_maps_def
proof
  fix m assume m: "m \<in># gt_live g"
  with assms(2) have "pm_owner_of p (um_frame (gt_released g m)) = Some (m_grantor m)" unfolding seam_maps_def by blast
  moreover from gt_ref_allocated [OF assms(3) m] obtain b where
    "pm_owner_of p' (um_frame (gt_released g m)) = Some b" ..
  ultimately show "pm_owner_of p' (um_frame (gt_released g m)) = Some (m_grantor m)"
    using assms(1) unfolding pm_steady_def by blast
qed

lemma pm_steady_link:
  assumes st: "pm_steady p p'" and ok: "pm_ok H p" and links: "seam_links g p" and l: "l \<in># pm_live p"
    and own: "pm_owner_of p' (l_child l) = Some a" "pm_owner_of p' (l_parent l) = Some b" "a \<noteq> b"
  shows "gt_authorizes g a b (l_child l) (l_writable l)"
proof -
  from pm_live_child [OF ok l] obtain a' where a': "pm_owner_of p (l_child l) = Some a'" ..
  from pm_live_parent [OF ok l] obtain b' where b': "pm_owner_of p (l_parent l) = Some b'" ..
  have "a = a'" "b = b'" using st a' b' own unfolding pm_steady_def by blast+
  then show ?thesis using links l a' b' own(3) unfolding seam_links_def by blast
qed

lemma pm_steady_links:
  assumes "pm_steady p p'" "pm_ok H p" "seam_links g p" "pm_live p' \<subseteq># pm_live p"
  shows "seam_links g p'"
  unfolding seam_links_def using pm_steady_link [OF assms(1-3)] mset_subset_eqD [OF assms(4)] by blast

text \<open>The state of one page call, with the grants left alone.\<close>

lemma hv_ok_p2m:
  assumes h: "hv_ok h" and "pm_ok (gt_refs (grant h)) p" "pm_steady (p2m h) p" "seam_links (grant h) p"
    "pm_tenants (life h) p"
  shows "hv_ok (h\<lparr>p2m := p\<rparr>)"
proof -
  have "seam_maps (grant h) p" using pm_steady_maps [OF assms(3) _ assms(2)] h by (simp add: hv_ok_defs)
  then show ?thesis using assms by (simp add: hv_ok_defs hv_domain_count_def pm_steady_def)
qed

lemma hv_ok_p2m_call:
  assumes h: "hv_ok h" and "pm_ok (gt_refs (grant h)) p" "pm_steady (p2m h) p" "pm_live p \<subseteq># pm_live (p2m h)"
    "\<And>m d. pm_owner_of p m = Some d \<Longrightarrow> pm_owner_of (p2m h) m = Some d \<or> \<not> dead (life h) d"
  shows "hv_ok (h\<lparr>p2m := p\<rparr>)"
proof (rule hv_ok_p2m [OF h assms(2,3)])
  show "seam_links (grant h) p"
    using pm_steady_links [OF assms(3) _ _ assms(4)] h by (auto simp: hv_ok_defs)
  show "pm_tenants (life h) p" using assms(5) h unfolding pm_tenants_def hv_ok_defs by blast
qed

section \<open>Well-behaved hypercalls\<close>

text \<open>
  A refusal may leave two traces that no query shows: the level tag of a frame that is no page
  table (a link rolled back), and a spare inactive slot in the mapping table (a map rolled back).
\<close>

definition hv_same :: "Hypervisor \<Rightarrow> Hypervisor \<Rightarrow> bool" where
  "hv_same h h' \<longleftrightarrow> credit h' = credit h \<and> evtchn h' = evtchn h \<and> sched h' = sched h \<and>
     device h' = device h \<and> life h' = life h \<and> may_create h' = may_create h \<and> controls h' = controls h \<and>
     gt_domains (grant h') = gt_domains (grant h) \<and> gt_live (grant h') = gt_live (grant h) \<and>
     pm_same (p2m h) (p2m h')"

definition hv_maps :: "Hypervisor \<Rightarrow> nat" where
  "hv_maps h = length (gt_maps (grant h))"

definition hv_good :: "Hypervisor \<Rightarrow> ('a, HvError) result \<times> Hypervisor \<Rightarrow> bool" where
  "hv_good h rs \<longleftrightarrow> fst rs \<noteq> Panic \<and> hv_ok (snd rs) \<and> hv_maps (snd rs) \<le> Suc (hv_maps h) \<and>
     hv_domain_count (snd rs) = hv_domain_count h \<and> (\<forall>e. fst rs = Err e \<longrightarrow> hv_same h (snd rs))"

lemma hv_same_refl [simp]: "hv_same h h" by (simp add: hv_same_def)

lemma good_Err: "hv_ok h \<Longrightarrow> hv_good h (Err e, h)"
  by (simp add: hv_good_def)

lemma good_Ok: "hv_ok h \<Longrightarrow> hv_good h (Ok v, h)"
  by (simp add: hv_good_def)

lemma good_propagate:
  "hv_ok h \<Longrightarrow> r \<noteq> Panic \<Longrightarrow> (\<And>v. r = Ok v \<Longrightarrow> hv_good h (k v)) \<Longrightarrow> hv_good h (propagate r h k)"
  by (cases r) (auto simp: good_Err)

lemma in_evtchn_good:
  assumes h: "hv_ok h" and wb: "well_behaved ev_ok (evtchn h) rs" and calm: "yields (ev_calm (life h) (evtchn h)) rs"
  shows "hv_good h (in_evtchn h f rs)"
proof -
  have "hv_ok (h\<lparr>evtchn := snd rs\<rparr>)"
    using h wb calm ev_calm_wake [of "life h" "evtchn h" "snd rs" "sched h"]
    by (intro hv_ok_evtchn) (auto simp: well_behaved_def yields_def ev_calm_def hv_ok_defs)
  then show ?thesis
    using wb by (cases "fst rs") (auto simp: hv_good_def in_evtchn_def well_behaved_def hv_same_def hv_maps_def hv_domain_count_def)
qed

lemma in_sched_good:
  assumes h: "hv_ok h" and wb: "well_behaved sc_ok (sched h) rs"
    and t: "yields (sc_touch Q (sched h) d v) rs" and d: "\<not> dead (life h) d"
    and seam: "seam_wake (evtchn h) (snd rs)"
  shows "hv_good h (in_sched h rs)"
proof -
  have "hv_ok (h\<lparr>sched := snd rs\<rparr>)"
    using h wb t d seam sc_touch_count [of Q "sched h" d v "snd rs"] by (intro hv_ok_sched)
      (auto simp: well_behaved_def yields_def hv_ok_defs intro: sc_touch_tenants)
  then show ?thesis
    using wb by (cases "fst rs") (auto simp: hv_good_def in_sched_def well_behaved_def hv_same_def hv_maps_def hv_domain_count_def)
qed

lemma in_sched_good_touch:
  assumes "hv_ok h" "well_behaved sc_ok (sched h) rs" "yields (sc_touch no_block (sched h) d v) rs" "\<not> dead (life h) d"
  shows "hv_good h (in_sched h rs)"
  using assms sc_touch_wake [of "sched h" d v "snd rs" "evtchn h"]
  by (intro in_sched_good [of h rs no_block d v]) (auto simp: yields_def hv_ok_defs)

lemma in_device_good:
  assumes h: "hv_ok h" and wb: "well_behaved dv_ok (device h) rs"
    and n: "dv_num_domains (snd rs) = dv_num_domains (device h)" and t: "dv_tenants (life h) (snd rs)"
  shows "hv_good h (in_device h rs)"
proof -
  have "hv_ok (h\<lparr>device := snd rs\<rparr>)" using assms by (intro hv_ok_device) (auto simp: well_behaved_def)
  then show ?thesis
    using wb by (cases "fst rs") (auto simp: hv_good_def in_device_def well_behaved_def hv_same_def hv_maps_def hv_domain_count_def)
qed

lemma in_p2m_good:
  assumes "hv_ok (h\<lparr>p2m := snd rs\<rparr>)" "fst rs \<noteq> Panic" "\<And>e. fst rs = Err e \<Longrightarrow> pm_same (p2m h) (snd rs)"
  shows "hv_good h (in_p2m h rs)"
  using assms by (cases "fst rs") (auto simp: hv_good_def in_p2m_def hv_same_def hv_maps_def hv_domain_count_def)

lemma in_grant_good:
  assumes "hv_ok (h\<lparr>grant := snd rs\<rparr>)" "well_behaved I (grant h) rs"
    "length (gt_maps (snd rs)) \<le> Suc (length (gt_maps (grant h)))"
  shows "hv_good h (in_grant h f rs)"
  using assms by (cases "fst rs") (auto simp: hv_good_def in_grant_def well_behaved_def hv_same_def hv_maps_def hv_domain_count_def)

lemma in_credit_good:
  assumes h: "hv_ok h" and wb: "\<And>c. cr_inv c \<Longrightarrow> well_behaved cr_inv c (op c)"
  shows "hv_good h (in_credit h d op)"
  unfolding in_credit_def
proof (rule good_propagate [OF h])
  fix c assume "credit_of h d = Ok c"
  then have c: "d < length (credit h)" "c = credit h ! d" by (auto simp: credit_of_def vec_get_Some)
  then have inv: "cr_inv c" using h by (auto simp: hv_ok_defs)
  obtain r c' where op: "op c = (r, c')" by (cases "op c")
  note wb' = wb [OF inv, unfolded op]
  have cs: "\<forall>x \<in> set ((credit h)[d := c']). cr_inv x"
    using h well_behavedD(1) [OF wb'] set_update_subset_insert [of "credit h" d c'] by (auto simp: hv_ok_defs)
  have same: "(credit h)[d := c'] = credit h" if "r = Err e" for e
    using well_behavedD(3) [OF wb' that] c by simp
  have "hv_ok (h\<lparr>credit := (credit h)[d := c']\<rparr>)" using h cs by (intro hv_ok_credit) auto
  then show "hv_good h (let (r, core') = op c in (map_ok_err Balance Credit r, h\<lparr>credit := (credit h)[d := core']\<rparr>))"
    using same well_behavedD(2) [OF wb']
    by (cases r) (auto simp: op hv_good_def hv_same_def hv_maps_def hv_domain_count_def)
qed (simp add: credit_of_def)

section \<open>The hypercalls, one by one\<close>

lemma hv_okD:
  assumes "hv_ok h"
  shows "ev_ok (evtchn h)" "sc_ok (sched h)" "gt_ok (grant h)" "pm_ok (gt_refs (grant h)) (p2m h)"
    "dv_ok (device h)" "ctl_forest (controls h)" "ctl_square (hv_domain_count h) (controls h)"
    "ev_tenants (life h) (evtchn h)" "sc_tenants (life h) (sched h)" "gt_tenants (life h) (grant h)"
    "pm_tenants (life h) (p2m h)" "dv_tenants (life h) (device h)" "mc_tenants (life h) (may_create h)"
    "ctl_tenants (life h) (controls h)" "seam_wake (evtchn h) (sched h)" "seam_maps (grant h) (p2m h)"
    "seam_links (grant h) (p2m h)" "length (life h) = hv_domain_count h"
    "length (may_create h) = hv_domain_count h" "dv_num_domains (device h) = hv_domain_count h"
    "gt_domain_count (grant h) = hv_domain_count h" "pm_num_domains (p2m h) = hv_domain_count h"
    "hv_domain_count h < u16_size" "sc_domain_count (sched h) = hv_domain_count h"
    "ev_domain_count (evtchn h) = hv_domain_count h"
  using assms by (simp_all add: hv_ok_defs)

lemma reject_dead_target_Ok:
  assumes "hv_ok h" "reject_dead_target h t = Ok u" shows "\<not> dead (life h) t"
  using assms hv_okD(18) [OF assms(1)]
  by (auto simp: reject_dead_target_def dead_def vec_get_def split: if_splits option.splits)

lemma reject_dead_target_not_Panic:
  assumes "hv_ok h" shows "reject_dead_target h t \<noteq> Panic"
  using hv_okD(18) [OF assms] by (auto simp: reject_dead_target_def vec_get_def)

lemma evtchn_alloc_unbound_good:
  assumes h: "hv_ok h" and d: "\<not> dead (life h) d"
  shows "hv_good h (hv_call h d (EvtchnAllocUnbound r))"
  unfolding hv_call.simps
proof (rule good_propagate [OF h reject_dead_target_not_Panic [OF h]])
  fix v assume "reject_dead_target h r = Ok v"
  then show "hv_good h (in_evtchn h Port (ev_alloc_unbound (evtchn h) d r))"
    using hv_okD [OF h] d reject_dead_target_Ok [OF h]
    by (intro in_evtchn_good h ev_alloc_unbound_wb ev_alloc_unbound_calm) auto
qed

lemma check_bind_vcpu_not_Panic: "check_bind_vcpu h d v \<noteq> Panic"
  by (simp add: check_bind_vcpu_def)

lemma evtchn_quiet_good:
  assumes h: "hv_ok h" and d: "\<not> dead (life h) d"
    and call: "call \<in> {EvtchnBindInterdomain r q, EvtchnBindVirq v i, EvtchnBindIpi v, EvtchnClose q, EvtchnMask q, EvtchnConsume q}"
  shows "hv_good h (hv_call h d call)"
  using call hv_okD(1,8) [OF h] d
  by (auto intro!: in_evtchn_good good_propagate check_bind_vcpu_not_Panic h
      ev_bind_interdomain_wb ev_bind_interdomain_calm ev_bind_virq_wb ev_bind_virq_calm ev_bind_ipi_wb ev_bind_ipi_calm
      ev_close_wb ev_close_calm ev_mask_calm ev_set_masked_wb [of "evtchn h" d q True, folded ev_mask_def]
      ev_consume_wb ev_consume_calm)

text \<open>The calls that signal.\<close>

lemma wake_good:
  assumes h: "hv_ok h" and sig: "ev_signal (evtchn h) t q e" and e: "ev_ok e"
  shows "hv_good h (or_panic (h\<lparr>evtchn := e\<rparr>) (wake_if_deliverable (h\<lparr>evtchn := e\<rparr>) t q) (\<lambda>h2. (Ok (f h2), h2)))"
proof -
  from wake_restores [OF h sig e] obtain s where
    "wake_if_deliverable (h\<lparr>evtchn := e\<rparr>) t q = Some (h\<lparr>evtchn := e, sched := s\<rparr>)"
    "hv_ok (h\<lparr>evtchn := e, sched := s\<rparr>)" by blast
  then show ?thesis by (simp add: hv_good_def hv_maps_def hv_domain_count_def)
qed

lemma evtchn_send_good:
  assumes h: "hv_ok h" shows "hv_good h (evtchn_send h d p)"
proof -
  note ok = hv_okD(1) [OF h]
  note wb = ev_send_wb [OF ok, of d p]
  obtain r e where r: "ev_send (evtchn h) d p = (r, e)" by (cases "ev_send (evtchn h) d p")
  show ?thesis
  proof (cases r)
    case (Ok u)
    from ev_send_signal [OF ok r [unfolded Ok]] obtain t q where
      t: "ev_send_target e d p = Some (t, q)" "ev_signal (evtchn h) t q e" by blast
    have "ev_ok e" using wb r by (simp add: well_behaved_def)
    then show ?thesis
      unfolding evtchn_send_def r Ok Let_def using wake_good [OF h t(2), of "\<lambda>_. Done"] by (simp add: t(1))
  next
    case (Err x)
    then show ?thesis using wb r h by (simp add: evtchn_send_def well_behaved_def good_Err)
  qed (use wb r in \<open>simp add: well_behaved_def\<close>)
qed

lemma evtchn_unmask_good:
  assumes h: "hv_ok h" shows "hv_good h (evtchn_unmask h d p)"
proof -
  note wb = ev_set_masked_wb [OF hv_okD(1) [OF h], of d p False, folded ev_unmask_def]
  obtain r e where r: "ev_unmask (evtchn h) d p = (r, e)" by (cases "ev_unmask (evtchn h) d p")
  show ?thesis
  proof (cases r)
    case (Ok u)
    have "ev_ok e" using wb r by (simp add: well_behaved_def)
    then show ?thesis
      unfolding evtchn_unmask_def r Ok Let_def using wake_good [OF h ev_unmask_signal [OF r [unfolded Ok]], of "\<lambda>_. Done"] by simp
  next
    case (Err x)
    then show ?thesis using wb r h by (simp add: evtchn_unmask_def well_behaved_def good_Err)
  qed (use wb r in \<open>simp add: well_behaved_def\<close>)
qed

lemma raise_vcpu_virq_good:
  assumes h: "hv_ok h" shows "hv_good h (raise_vcpu_virq h d v q)"
proof -
  note ok = hv_okD(1) [OF h]
  note wb = ev_raise_virq_wb [OF ok, of d v q]
  obtain r e where r: "ev_raise_virq (evtchn h) d v q = (r, e)" by (cases "ev_raise_virq (evtchn h) d v q")
  show ?thesis
  proof (cases r)
    case (Ok p)
    have "ev_ok e" using wb r by (simp add: well_behaved_def)
    then show ?thesis
      unfolding raise_vcpu_virq_def r Ok Let_def using wake_good [OF h ev_raise_signal [OF ok r [unfolded Ok]], of "\<lambda>h2. ev_deliverable (evtchn h2) d p"] by simp
  next
    case (Err x)
    then show ?thesis using wb r h by (simp add: raise_vcpu_virq_def well_behaved_def good_Err)
  qed (use wb r in \<open>simp add: well_behaved_def\<close>)
qed

text \<open>Scheduling.\<close>

lemma sched_calls_good:
  assumes h: "hv_ok h" and d: "\<not> dead (life h) d"
    and call: "call \<in> {SchedAdmit v, SchedRun v q now, SchedPreempt v now, SchedWake v, SchedOffline v now}"
  shows "hv_good h (hv_call h d call)"
  using call hv_okD(2) [OF h] d
  by (auto intro!: in_sched_good_touch h sc_wb sc_admit_touch sc_run_touch sc_preempt_touch sc_wake_touch sc_offline_touch)

lemma sched_block_good:
  assumes h: "hv_ok h" and d: "\<not> dead (life h) d"
  shows "hv_good h (sched_block h d v now)"
proof -
  note ok = hv_okD(2) [OF h] and eok = hv_okD(1) [OF h]
  let ?b = "sc_block (sched h) d v now"
  have touch: "sc_touch (\<lambda>_ _. True) (sched h) d v (snd ?b)" using sc_block_touch [OF ok] by (simp add: yields_def)
  have good: "hv_good h (in_sched h ?b)"
    if quiet: "\<not> (case sc_state_of (sched h) d v of
        Some (Running _) \<Rightarrow> ev_has_deliverable_for (evtchn h) d v
      | Some Runnable \<Rightarrow> ev_has_deliverable_for (evtchn h) d v
      | _ \<Rightarrow> False)"
  proof (rule in_sched_good [OF h sc_block_wb [OF ok] sc_block_touch [OF ok] d])
    show "seam_wake (evtchn h) (snd ?b)"
    proof (cases "\<exists>c. sc_get (sched h) d v = Some c \<and> vc_state c \<noteq> Offline \<and> vc_state c \<noteq> Blocked")
      case True
      then obtain c where c: "sc_get (sched h) d v = Some c" "vc_state c \<noteq> Offline" "vc_state c \<noteq> Blocked" by blast
      then have none: "\<not> ev_has_deliverable_for (evtchn h) d v"
        using quiet by (cases "vc_state c") (auto simp: sc_state_of_eq)
      show ?thesis unfolding seam_wake_def
      proof (intro allI impI)
        fix d' p v' assume del: "ev_deliverable (evtchn h) d' p \<and> ev_notify_target (evtchn h) d' p = Some v'"
        then have "(d', v') \<noteq> (d, v)" using none ev_has_deliverable_iff [OF ev_okD(1) [OF eok]] by blast
        then have "sc_state_of (snd ?b) d' v' = sc_state_of (sched h) d' v'"
          using sc_block_effect [OF ok c, of now] by (auto simp: sc_state_of_eq sc_get_put_at [OF c(1)])
        then show "sc_state_of (snd ?b) d' v' \<noteq> Some Blocked"
          using hv_okD(15) [OF h] del unfolding seam_wake_def by metis
      qed
    next
      case False
      then have "snd ?b = sched h" by (auto simp: sc_block_def propagate_def sc_vcpu_eq split: option.splits)
      then show ?thesis using hv_okD(15) [OF h] by simp
    qed
  qed
  show ?thesis
    unfolding sched_block_def by (rule if_split [THEN iffD2]) (intro conjI impI good good_Ok [OF h])
qed

lemma need_control_good:
  assumes h: "hv_ok h" and d: "d < hv_domain_count h" "t < hv_domain_count h"
    and k: "ctl_edge (controls h) d t \<noteq> Absent \<Longrightarrow> hv_good h k"
  shows "hv_good h (need_control h d t k)"
  using k good_Err [OF h] ctl_square_get [OF hv_okD(7) [OF h], of d t] d
  by (auto simp: need_control_def)

lemma sched_set_affinity_good:
  assumes h: "hv_ok h" and d: "\<not> dead (life h) d" "d < hv_domain_count h"
  shows "hv_good h (sched_set_affinity h d t v m)"
proof -
  have body: "hv_good h (in_sched h (sc_set_affinity (sched h) t v m))" if "\<not> dead (life h) t"
    using that by (intro in_sched_good_touch [OF h _ sc_set_affinity_touch] sc_set_affinity_wb hv_okD(2) [OF h])
  have "\<not> dead (life h) t" if "ctl_edge (controls h) d t \<noteq> Absent"
    using hv_okD(14) [OF h] that unfolding ctl_tenants_def by blast
  then show ?thesis
    unfolding sched_set_affinity_def Let_def
    using body d by (auto intro!: good_Err [OF h] need_control_good [OF h])
qed

text \<open>Devices.\<close>

lemma device_assign_good:
  assumes h: "hv_ok h" and d: "d < hv_domain_count h"
  shows "hv_good h (device_assign h d dev to)"
proof -
  have "hv_good h (in_device h (dv_assign (device h) dev to))" if live: "\<not> dead (life h) to"
  proof (rule in_device_good [OF h dv_assign_wb [OF hv_okD(5) [OF h]]])
    show "dv_tenants (life h) (snd (dv_assign (device h) dev to))"
      using hv_okD(12) [OF h] live unfolding dv_tenants_def dv_assign_cases
      by (auto simp: dv_holder_update split: option.splits if_splits)
  qed simp
  then show ?thesis
    unfolding device_assign_def using d reject_dead_target_Ok [OF h] reject_dead_target_not_Panic [OF h]
    by (auto intro!: good_Err [OF h] need_control_good [OF h] good_propagate [OF h])
qed

lemma device_release_good:
  assumes h: "hv_ok h" and d: "d < hv_domain_count h"
  shows "hv_good h (device_release h d dev t)"
proof -
  have "hv_good h (in_device h (dv_release (device h) dev t))"
  proof (rule in_device_good [OF h dv_release_wb [OF hv_okD(5) [OF h]]])
    show "dv_tenants (life h) (snd (dv_release (device h) dev t))"
      using hv_okD(12) [OF h] unfolding dv_tenants_def dv_release_cases
      by (auto simp: dv_holder_update split: if_splits)
  qed simp
  then show ?thesis
    unfolding device_release_def Let_def using d
    by (auto intro!: good_Err [OF h] need_control_good [OF h])
qed

text \<open>Authority.\<close>

lemma good_controls:
  assumes h: "hv_ok h" and "ctl_square (hv_domain_count h) c" "ctl_forest c" "ctl_tenants (life h) c"
  shows "hv_good h (Ok Done, h\<lparr>controls := c\<rparr>)"
  using hv_ok_controls [OF assms] by (simp add: hv_good_def hv_maps_def hv_domain_count_def)

lemma ctl_tenants_below: "ctl_tenants L c \<Longrightarrow> ctl_below c c' \<Longrightarrow> ctl_tenants L c'"
  unfolding ctl_tenants_def ctl_below_def by metis

lemma control_grant_good:
  assumes h: "hv_ok h" and d: "d < hv_domain_count h"
  shows "hv_good h (control_grant h d t to)"
proof -
  note sq = hv_okD(7) [OF h] and f = hv_okD(6) [OF h] and ten = hv_okD(14) [OF h]
  have "hv_good h
     (if to = t then (Err Denied, h)
      else or_panic h (vec_get (life h) to) (\<lambda>l.
           if l \<noteq> Live then (Err NotAlive, h)
           else or_panic h (tbl_get (controls h) to t) (\<lambda>c.
             if c \<noteq> Absent then (Ok Done, h)
             else or_panic h (ctl_set to t (Via d) (controls h)) (\<lambda>c'. (Ok Done, h\<lparr>controls := c'\<rparr>)))))"
    if e: "ctl_edge (controls h) d t \<noteq> Absent" and r: "t < hv_domain_count h" "to < hv_domain_count h"
  proof (cases "to \<noteq> t \<and> life h ! to = Live \<and> ctl_edge (controls h) to t = Absent")
    case True
    let ?c = "tbl_set (controls h) to t (Via d)"
    have live: "\<not> dead (life h) to" "\<not> dead (life h) t"
      using True ten e unfolding ctl_tenants_def by (simp add: dead_def vec_get_Some, blast)
    have "ctl_forest ?c" using ctl_forest_leaf [OF sq f r(2,1) _ e] True by blast
    moreover have "ctl_tenants (life h) ?c"
      using ten live unfolding ctl_tenants_def by (auto simp: ctl_edge_set [OF sq r(2,1)])
    ultimately have "hv_good h (Ok Done, h\<lparr>controls := ?c\<rparr>)"
      using good_controls [OF h ctl_square_set [OF sq]] by blast
    then show ?thesis
      using True r hv_okD(18) [OF h] by (simp add: vec_get_def ctl_square_get [OF sq] ctl_set_Some [OF sq])
  next
    case False
    then show ?thesis
      using r hv_okD(18) [OF h] good_Err [OF h] good_Ok [OF h] by (auto simp: vec_get_def ctl_square_get [OF sq])
  qed
  then show ?thesis
    unfolding control_grant_def using d by (auto intro!: good_Err [OF h] need_control_good [OF h] simp del: or_panic_eq_Ok)
qed

lemma control_revoke_good:
  assumes h: "hv_ok h" and d: "d < hv_domain_count h"
  shows "hv_good h (control_revoke h d t frm)"
proof -
  let ?n = "hv_domain_count h" and ?c = "controls h"
  note sq = hv_okD(7) [OF h] and f = hv_okD(6) [OF h] and ten = hv_okD(14) [OF h]
  have "hv_good h (or_panic h (control_subtree_contains ?n ?c d frm t) (\<lambda>b.
         if \<not> b then (Err Denied, h)
         else or_panic h (ctl_set frm t Absent ?c) (\<lambda>c1.
           or_panic h (sweep_orphaned_control_edges ?n c1) (\<lambda>c2. (Ok Done, h\<lparr>controls := c2\<rparr>)))))"
    if r: "t < ?n" "frm < ?n"
  proof -
    obtain b where b: "control_subtree_contains ?n ?c d frm t = Some b"
      using ctl_climb_total [OF sq _ r, of d "?n + 1"] ctl_forest_closed [OF f, of _ t]
      by (fastforce simp: control_subtree_contains_def)
    let ?c1 = "tbl_set ?c frm t Absent"
    from sweep_restores [OF f sq ctl_square_set [OF sq] ctl_below_drop [OF sq r(2,1)]] obtain c2 where
      c2: "sweep_orphaned_control_edges ?n ?c1 = Some c2" "ctl_square ?n c2" "ctl_forest c2" "ctl_below ?c1 c2"
      by blast
    have "ctl_tenants (life h) c2"
      using ctl_tenants_below [OF ten ctl_below_trans [OF ctl_below_drop [OF sq r(2,1)] c2(4)]] .
    then have "hv_good h (Ok Done, h\<lparr>controls := c2\<rparr>)" using good_controls [OF h c2(2,3)] by blast
    then show ?thesis using b c2(1) r good_Err [OF h] by (auto simp: ctl_set_Some [OF sq])
  qed
  then show ?thesis
    unfolding control_revoke_def using d by (auto intro!: good_Err [OF h] need_control_good [OF h])
qed

text \<open>Creation.\<close>

lemma dead_revive: "dead (L[t := Live]) d \<Longrightarrow> dead L d"
  by (auto simp: dead_def vec_get_update split: if_splits)

lemma tenants_mono:
  assumes "\<And>d. dead L' d \<Longrightarrow> dead L d"
  shows "ev_tenants L e \<Longrightarrow> ev_tenants L' e" "sc_tenants L s \<Longrightarrow> sc_tenants L' s"
    "gt_tenants L g \<Longrightarrow> gt_tenants L' g" "pm_tenants L p \<Longrightarrow> pm_tenants L' p"
    "dv_tenants L v \<Longrightarrow> dv_tenants L' v" "mc_tenants L mc \<Longrightarrow> mc_tenants L' mc" "ctl_tenants L c \<Longrightarrow> ctl_tenants L' c"
  using assms
  unfolding ev_tenants_def sc_tenants_def gt_tenants_def pm_tenants_def dv_tenants_def mc_tenants_def ctl_tenants_def
  by blast+

lemma domain_create_good:
  assumes h: "hv_ok h" and d: "d < hv_domain_count h" "\<not> dead (life h) d"
  shows "hv_good h (domain_create h d t may)"
proof (cases "t < hv_domain_count h \<and> may_create h ! d \<and> life h ! t = Dead")
  case True
  then have t: "t < hv_domain_count h" "dead (life h) t" using hv_okD(18) [OF h] by (auto simp: dead_def vec_get_def)
  note sq = hv_okD(7) [OF h] and f = hv_okD(6) [OF h]
  let ?L = "(life h)[t := Live]" and ?mc = "(may_create h)[t := may]" and ?c = "tbl_set (controls h) d t Root"
  let ?h = "h\<lparr>life := ?L, may_create := ?mc, controls := ?c\<rparr>"
  have mono: "dead ?L x \<Longrightarrow> dead (life h) x" for x by (rule dead_revive)
  have no_edge: "ctl_edge (controls h) a t = Absent" for a
    using hv_okD(14) [OF h] t(2) unfolding ctl_tenants_def by blast
  have alive: "\<not> dead ?L t" using t(1) hv_okD(18) [OF h] by (simp add: dead_def vec_get_update)
  have "ctl_forest ?c" using ctl_forest_root [OF sq f d(1) t(1)] no_edge by blast
  moreover have "ctl_tenants ?L ?c"
    using tenants_mono(7) [OF mono hv_okD(14) [OF h]] alive mono [of d] d(2) unfolding ctl_tenants_def
    by (auto simp: ctl_edge_set [OF sq d(1) t(1)])
  moreover have "mc_tenants ?L ?mc"
    using tenants_mono(6) [OF mono hv_okD(13) [OF h]] alive unfolding mc_tenants_def
    by (auto simp: vec_get_update split: if_splits)
  ultimately have "hv_ok ?h"
    using h ctl_square_set [OF sq] tenants_mono [of ?L "life h"] mono by (simp add: hv_ok_defs hv_domain_count_def)
  then show ?thesis
    using True t d hv_okD(18,19) [OF h]
    by (simp add: domain_create_def Let_def vec_get_def ctl_set_Some [OF sq] hv_good_def hv_maps_def hv_domain_count_def)
next
  case False
  then show ?thesis
    using d hv_okD(18,19) [OF h] good_Err [OF h] by (auto simp: domain_create_def vec_get_def)
qed

text \<open>Page calls that touch no page of another domain.\<close>

definition pm_mild :: "DomId \<Rightarrow> P2mSystem \<Rightarrow> P2mSystem \<Rightarrow> bool" where
  "pm_mild d p p' \<longleftrightarrow> pm_num_domains p' = pm_num_domains p \<and> pm_live p' \<subseteq># pm_live p \<and>
     (\<forall>m x. pm_owner_of p' m = Some x \<longrightarrow> pm_owner_of p m = Some x \<or> pm_owner_of p m = None \<and> x = d)"

lemma pm_mild_refl [simp]: "pm_mild d p p" by (simp add: pm_mild_def)

lemma pm_keeps_mild: "pm_keeps p p' \<Longrightarrow> pm_live p' \<subseteq># pm_live p \<Longrightarrow> pm_mild d p p'"
  using pm_keeps_owner [of p p'] by (simp add: pm_mild_def pm_keeps_def)

lemma in_p2m_good_mild:
  assumes h: "hv_ok h" and d: "\<not> dead (life h) d"
    and wb: "well_behaved (pm_ok (gt_refs (grant h))) (p2m h) rs" and mild: "yields (pm_mild d (p2m h)) rs"
  shows "hv_good h (in_p2m h rs)"
proof (rule in_p2m_good)
  have m: "pm_mild d (p2m h) (snd rs)" using mild by (simp add: yields_def)
  have "pm_steady (p2m h) (snd rs)" using m unfolding pm_steady_def pm_mild_def by fastforce
  then show "hv_ok (h\<lparr>p2m := snd rs\<rparr>)"
    using wb m d by (intro hv_ok_p2m_call [OF h]) (auto simp: well_behaved_def pm_mild_def)
qed (use wb in \<open>auto simp: well_behaved_def\<close>)

lemma pm_info_set_frame:
  "pm_info (p\<lparr>frames := (frames p)[m := f]\<rparr>) m' =
     (if m' = m \<and> m < length (frames p) then (case f of Allocated i \<Rightarrow> Some i | _ \<Rightarrow> None) else pm_info p m')"
  by (auto simp: pm_info_def vec_get_update split: Frame.splits)

lemma pm_live_set_frame [simp]: "pm_live (p\<lparr>frames := fs\<rparr>) = pm_live p"
  by (simp add: pm_live_def)

lemma pm_allocate_mild: "yields (pm_mild d p) (pm_allocate p d m)"
  unfolding pm_allocate_def
  by (intro yields_intros)
    (auto simp: pm_mild_def pm_frame_mut_def pm_query_simps pm_info_set_frame pm_frame_eq pm_info_None split: if_splits)

lemma pm_free_mild: "yields (pm_mild d p) (pm_free p d m)"
  by (auto simp: pm_free_eq yields_def pm_mild_def pm_query_simps pm_info_set_frame split: option.splits if_splits)

lemma pm_mut_mild:
  assumes "pm_info p m = Some i" "owner i' = owner i" shows "pm_mild d p (pm_frame_mut p m i')"
  using assms by (auto simp: pm_mild_def pm_query_simps pm_info_mut)

lemma pm_pin_mild: "pm_ok H p \<Longrightarrow> yields (pm_mild d p) (pm_pin p d m lvl)"
  using pm_pin_effect [of H p d m lvl] by (auto simp: yields_def intro: pm_mut_mild)

lemma pm_pin_wb: "pm_ok H p \<Longrightarrow> well_behaved (pm_ok H) p (pm_pin p d m lvl)"
  using pm_pin_effect [of H p d m lvl] by (auto simp: well_behaved_def)

lemma pm_unpin_mild: "pm_ok H p \<Longrightarrow> yields (pm_mild d p) (pm_unpin p d m)"
  using pm_unpin_effect [of H p m d] by (auto simp: yields_def intro: pm_mut_mild split: if_splits)

lemma pm_unpin_wb: "pm_ok H p \<Longrightarrow> well_behaved (pm_ok H) p (pm_unpin p d m)"
  using pm_unpin_effect [of H p m d] by (auto simp: well_behaved_def split: if_splits)

lemma pm_unlink_mild:
  assumes ok: "pm_ok H p" shows "yields (pm_mild d p) (pm_unlink p d m k)"
proof (cases "\<exists>i. pm_info p m = Some i \<and> owner i = d \<and> pm_link_index p m k \<noteq> None")
  case True
  then obtain i j where i: "pm_info p m = Some i" "owner i = d" "pm_link_index p m k = Some j" by blast
  from pm_unlink_effect [OF ok i refl] obtain p' where "pm_unlink p d m k = (Ok (), p')" "pm_keeps p p'"
    "pm_live p = add_mset (links p ! j) (pm_live p')" by blast
  then show ?thesis by (auto simp: yields_def intro!: pm_keeps_mild)
next
  case False
  from pm_unlink_refused [OF this] show ?thesis by (auto simp: yields_def)
qed

lemma p2m_calls_good:
  assumes h: "hv_ok h" and d: "\<not> dead (life h) d"
    and call: "call \<in> {P2mAllocate m, P2mFree m, P2mPin m lvl, P2mUnpin m, P2mUnlink m k}"
  shows "hv_good h (hv_call h d call)"
  using call hv_okD(4) [OF h] d
  by (auto intro!: in_p2m_good_mild h pm_allocate_wb pm_allocate_mild pm_free_wb pm_free_mild pm_pin_wb pm_pin_mild
      pm_unpin_wb pm_unpin_mild pm_unlink_wb pm_unlink_mild)

text \<open>A link is made with the consent of the owner of the child.\<close>

lemma p2m_link_good:
  assumes h: "hv_ok h" and d: "\<not> dead (life h) d"
  shows "hv_good h (p2m_link h d parent slot child writable leaf execute)"
proof (cases "case pm_owner_of (p2m h) child of
            Some own \<Rightarrow> own \<noteq> d \<and> \<not> gt_authorizes (grant h) own d child writable | None \<Rightarrow> False")
  case True
  then show ?thesis by (simp add: p2m_link_def good_Err [OF h])
next
  case False
  let ?g = "grant h" and ?p = "p2m h"
  note ok = hv_okD(4) [OF h]
  obtain r p' where r: "pm_link ?p d parent slot child writable leaf execute = (r, p')"
    by (cases "pm_link ?p d parent slot child writable leaf execute")
  note eff = pm_link_effect [OF ok, of d parent slot child writable leaf execute, unfolded r]
  have good: "hv_good h (in_p2m h (r, p'))"
  proof (rule in_p2m_good)
    have keeps: "pm_keeps ?p p'" and ok': "pm_ok (gt_refs ?g) p'" using eff by (cases r; simp)+
    note st = pm_keeps_steady [OF keeps] and own = pm_keeps_owner [OF keeps]
    have "seam_links ?g p'"
      unfolding seam_links_def
    proof (intro ballI allI impI)
      fix l a b assume l: "l \<in># pm_live p'"
        and ab: "pm_owner_of p' (l_child l) = Some a \<and> pm_owner_of p' (l_parent l) = Some b \<and> a \<noteq> b"
      show "gt_authorizes ?g a b (l_child l) (l_writable l)"
      proof (cases "l \<in># pm_live ?p")
        case True
        with pm_steady_link [OF st ok hv_okD(17) [OF h] True] ab show ?thesis by blast
      next
        case new: False
        then obtain u where u: "r = Ok u" using eff l by (cases r) (auto simp: pm_same_def pm_live_def)
        with eff l new have l': "l_child l = child" "l_parent l = parent" "l_writable l = writable" by auto
        have "pm_owner_of ?p parent = Some d" using eff u by (auto simp: pm_link_guard_def pm_query_simps)
        then have "b = d" "pm_owner_of ?p child = Some a" using ab own l' by auto
        with ab False l' show ?thesis by auto
      qed
    qed
    moreover have "pm_tenants (life h) p'" using hv_okD(11) [OF h] unfolding pm_tenants_def own .
    ultimately show "hv_ok (h\<lparr>p2m := snd (r, p')\<rparr>)" using hv_ok_p2m [OF h ok' st] by simp
  qed (use eff in \<open>auto split: result.splits\<close>)
  with False show ?thesis by (simp add: p2m_link_def r)
qed

text \<open>Grants.\<close>

lemma grant_access_good:
  assumes h: "hv_ok h" and d: "\<not> dead (life h) d"
  shows "hv_good h (hv_call h d (GrantAccess k r f ro))"
  unfolding hv_call.simps
proof (rule good_propagate [OF h reject_dead_target_not_Panic [OF h]])
  fix u assume "reject_dead_target h r = Ok u"
  then have r: "\<not> dead (life h) r" by (rule reject_dead_target_Ok [OF h])
  let ?g = "grant h" and ?p = "p2m h"
  note ok = hv_okD(3) [OF h]
  note wb = gt_grant_access_wb [OF ok, of d k r f ro]
  show "hv_good h (in_grant h (\<lambda>_. Done) (gt_grant_access ?g d k r f ro))"
  proof (cases "r < gt_domain_count ?g \<and> gt_get ?g d k = Some GrantEntry.Free")
    case True
    let ?g' = "gt_put ?g d k (Access r f ro 0 0)"
    have eq: "gt_grant_access ?g d k r f ro = (Ok (), ?g')" using gt_grant_access_effect [OF ok, of d k r f ro] True by simp
    have off: "gt_offer ?g' d' k' = (if d' = d \<and> k' = k then Some (r, f, ro) else gt_offer ?g d' k')" for d' k'
      using True by (simp add: gt_offer_put)
    have free: "gt_offer ?g d k = None" using True by (simp add: gt_offer_def)
    have keep: "gt_released ?g' m = gt_released ?g m" if "m \<in># gt_live ?g" for m
    proof -
      have "\<not> (m_grantor m = d \<and> m_gref m = k)" using gt_ok_live_get [OF ok that] True by auto
      then show ?thesis by (auto simp: gt_released_def off)
    qed
    have refs: "gt_refs ?g' = gt_refs ?g"
      unfolding gt_refs_def gt_put_simps using keep by (intro image_mset_cong) simp
    have "seam_maps ?g' ?p" using hv_okD(16) [OF h] keep by (simp add: seam_maps_def)
    moreover have "gt_authorizes ?g' a b c w" if auth: "gt_authorizes ?g a b c w" for a b c w
    proof -
      from auth obtain k' ro' where "gt_offer ?g a k' = Some (b, c, ro')" "w \<longrightarrow> \<not> ro'"
        by (auto simp: gt_authorizes_iff)
      then show ?thesis unfolding gt_authorizes_iff using free by (intro exI [of _ k'] exI [of _ ro']) (auto simp: off)
    qed
    then have "seam_links ?g' ?p" using hv_okD(17) [OF h] unfolding seam_links_def by blast
    moreover have "gt_tenants (life h) ?g'"
      using hv_okD(10) [OF h] r d unfolding gt_tenants_def by (auto simp: off split: if_splits)
    moreover have "gt_ok ?g'" using wb eq by (simp add: well_behaved_def)
    ultimately have "hv_ok (h\<lparr>grant := ?g'\<rparr>)" using h refs by (simp add: hv_ok_defs hv_domain_count_def)
    then show ?thesis using wb eq by (intro in_grant_good [where I = gt_ok]) auto
  next
    case False
    have "snd (gt_grant_access ?g d k r f ro) = ?g"
      using False by (subst conjunct1 [OF gt_grant_access_effect [OF ok]]) auto
    then show ?thesis using wb h by (intro in_grant_good [where I = gt_ok]) auto
  qed
qed

lemma pm_foreign_linked_by_iff:
  "pm_is_foreign_linked_by p f r \<longleftrightarrow> (\<exists>l \<in># pm_live p. l_child l = f \<and> pm_owner_of p (l_parent l) = Some r) \<and>
     pm_owner_of p f \<noteq> Some r"
  by (auto simp: pm_is_foreign_linked_by_def pm_live_def list_ex_iff Let_def)

lemma grant_end_access_good:
  assumes h: "hv_ok h" shows "hv_good h (grant_end_access h d k)"
proof -
  let ?g = "grant h" and ?p = "p2m h"
  note ok = hv_okD(3) [OF h]
  note wb = gt_end_access_wb [OF ok, of d k]
  have body: "hv_good h (in_grant h (\<lambda>_. Done) (gt_end_access ?g d k))"
    if unlinked: "\<And>r f ro. gt_offer ?g d k = Some (r, f, ro) \<Longrightarrow> \<not> pm_is_foreign_linked_by ?p f r"
  proof (cases "\<exists>r f ro w. gt_get ?g d k = Some (Access r f ro 0 w)")
    case True
    then obtain r f ro w where e: "gt_get ?g d k = Some (Access r f ro 0 w)" by blast
    let ?g' = "gt_put ?g d k GrantEntry.Free"
    have eq: "gt_end_access ?g d k = (Ok (), ?g')" using e by (simp add: gt_end_access_effect)
    have off: "gt_offer ?g' d' k' = (if d' = d \<and> k' = k then None else gt_offer ?g d' k')" for d' k'
      using e by (simp add: gt_offer_put)
    have "gt_idle (gt_live ?g) d k" using gt_ok_entry(2) [OF ok e] by (simp add: gt_idle_tally [symmetric])
    then have keep: "gt_released ?g' m = gt_released ?g m" if "m \<in># gt_live ?g" for m
      using that by (auto simp: gt_released_def off gt_idle_def gt_over_def)
    have refs: "gt_refs ?g' = gt_refs ?g"
      unfolding gt_refs_def gt_put_simps using keep by (intro image_mset_cong) simp
    have "seam_maps ?g' ?p" using hv_okD(16) [OF h] keep by (simp add: seam_maps_def)
    moreover have "seam_links ?g' ?p"
      unfolding seam_links_def
    proof (intro ballI allI impI)
      fix l a b assume l: "l \<in># pm_live ?p"
        and ab: "pm_owner_of ?p (l_child l) = Some a \<and> pm_owner_of ?p (l_parent l) = Some b \<and> a \<noteq> b"
      then obtain k' ro' where k': "gt_offer ?g a k' = Some (b, l_child l, ro')" "l_writable l \<longrightarrow> \<not> ro'"
        using hv_okD(17) [OF h] unfolding seam_links_def gt_authorizes_iff by blast
      have "(a, k') \<noteq> (d, k)" using unlinked k'(1) l ab by (auto simp: pm_foreign_linked_by_iff)
      then show "gt_authorizes ?g' a b (l_child l) (l_writable l)" using k' by (auto simp: gt_authorizes_iff off)
    qed
    moreover have "gt_tenants (life h) ?g'"
      using hv_okD(10) [OF h] unfolding gt_tenants_def by (auto simp: off split: if_splits)
    moreover have "gt_ok ?g'" using wb eq by (simp add: well_behaved_def)
    ultimately have "hv_ok (h\<lparr>grant := ?g'\<rparr>)" using h refs by (simp add: hv_ok_defs hv_domain_count_def)
    then show ?thesis using wb eq by (intro in_grant_good [where I = gt_ok]) auto
  next
    case False
    then have "snd (gt_end_access ?g d k) = ?g"
      by (auto simp: gt_end_access_effect split: option.splits GrantEntry.splits)
    then show ?thesis using wb h by (intro in_grant_good [where I = gt_ok]) auto
  qed
  show ?thesis
  proof (cases "case (gt_granted_frame ?g d k, gt_grantee_of ?g d k) of
      (Some f, Some r) \<Rightarrow> pm_is_foreign_linked_by ?p f r | _ \<Rightarrow> False")
    case True
    then show ?thesis by (simp add: grant_end_access_def good_Err [OF h])
  next
    case False
    have "\<not> pm_is_foreign_linked_by ?p f r" if off: "gt_offer ?g d k = Some (r, f, ro)" for r f ro
    proof -
      have "gt_granted_frame ?g d k = Some f" "gt_grantee_of ?g d k = Some r"
        using off by (simp_all add: gt_granted_frame_iff gt_grantee_of_iff)
      with False show ?thesis by simp
    qed
    from body [OF this] False show ?thesis by (simp add: grant_end_access_def)
  qed
qed

lemma grant_copy_good: "hv_ok h \<Longrightarrow> hv_good h (grant_copy h d r k w)"
  by (auto simp: grant_copy_def gt_copy_def map_ok_err_def good_Err good_Ok
      split: option.splits result.splits GrantEntry.splits)

lemma gt_map_offer_dom:
  assumes "gt_granted_frame g d k = Some f" "gt_offer g d k = Some (r, f', ro)" shows "f' = f"
  using assms by (auto simp: gt_granted_frame_iff)

lemma p2m_acquire_eq: "p2m_acquire p f w = pm_acquire_child p f (if w then Typed Writable else Bare)"
  by (simp add: p2m_acquire_def pm_get_type_acquire pm_get_acquire)

text \<open>Undoing a mapping puts the counts of its entry back.\<close>

lemma gt_map_unmap_domains:
  assumes ok: "gt_ok g" and m: "gt_map g r d k w = (Ok hn, g1)" and u: "gt_unmap g1 r hn = (Ok x, g2)"
  shows "gt_domains g2 = gt_domains g"
proof -
  from m obtain f ro n wn where e: "gt_get g d k = Some (Access r f ro n wn)" and n: "n < u32_max"
    and free: "gt_free_handle (gt_maps g) r 0 = Some hn"
    and g1: "g1 = (gt_put g d k (Access r f ro (n + 1) (if w then wrap_u32 (wn + 1) else wn)))
      \<lparr>gt_maps := gt_place (gt_maps g)
         \<lparr>active = True, m_grantee = r, m_handle = hn, m_grantor = d, m_gref = k, m_writable = w\<rparr>\<rparr>"
    by (auto simp: gt_map_effect split: option.splits GrantEntry.splits if_splits)
  have "wn \<le> n" using gt_ok_entry(2,3) [OF ok e] gt_tally_mono [of "\<lambda>m. gt_over d k m \<and> m_writable m" "gt_over d k"] by simp
  then have wrap: "wrap_u32 (wn + 1) = wn + 1" using n by simp
  let ?P = "\<lambda>m. active m \<and> m_grantee m = r \<and> m_handle m = hn"
  from u obtain i where i: "position ?P (gt_maps g1) = Some i"
    by (cases "position ?P (gt_maps g1)") (auto simp: gt_unmap_def)
  from gt_map_Ok [OF ok m] have fresh: "\<forall>m \<in># gt_live g. \<not> gt_named r hn m" by blast
  have "gt_maps g1 ! i \<in># gt_live g1" "gt_named r hn (gt_maps g1 ! i)" using gt_find_slot [OF i] by auto
  moreover have "gt_live g1 = add_mset \<lparr>active = True, m_grantee = r, m_handle = hn, m_grantor = d, m_gref = k, m_writable = w\<rparr> (gt_live g)"
    using gt_map_Ok [OF ok m] by auto
  ultimately have mi: "gt_maps g1 ! i = \<lparr>active = True, m_grantee = r, m_handle = hn, m_grantor = d, m_gref = k, m_writable = w\<rparr>"
    using fresh by auto
  have get1: "gt_get g1 d k = Some (Access r f ro (n + 1) (if w then wn + 1 else wn))"
    using e wrap by (simp add: g1 gt_get_def tbl_get_set)
  have "gt_domains g2 = tbl_set (gt_domains g1) d k (Access r f ro n wn)"
    using u i mi get1 by (auto simp: gt_unmap_def gt_entry_eq counts_after_unmap_def Let_def gt_put_def)
  also have "\<dots> = gt_domains g"
    using e by (simp add: g1 gt_get_def tbl_get_Some tbl_set_def)
  finally show ?thesis .
qed

text \<open>A mapping takes its page reference; when the page refuses, the mapping is undone.\<close>

lemma grant_map_good:
  assumes h: "hv_ok h" and room: "fst (gt_map (grant h) r d k w) \<noteq> Panic"
  shows "hv_good h (grant_map h r d k w)"
proof (cases "\<exists>f. gt_granted_frame (grant h) d k = Some f \<and> pm_owner_of (p2m h) f = Some d")
  case True
  then obtain f where f: "gt_granted_frame (grant h) d k = Some f" "pm_owner_of (p2m h) f = Some d" by blast
  let ?g = "grant h" and ?p = "p2m h" and ?ref = "if w then Typed Writable else Bare"
  note ok = hv_okD(3) [OF h] and pok = hv_okD(4) [OF h]
  obtain x g1 where m: "gt_map ?g r d k w = (x, g1)" by (cases "gt_map ?g r d k w")
  show ?thesis
  proof (cases x)
    case (Ok hn)
    from gt_map_Ok [OF ok m [unfolded Ok]] obtain f' ro m1 where
      off: "gt_offer ?g d k = Some (r, f', ro)" and
      m1: "m1 = \<lparr>active = True, m_grantee = r, m_handle = hn, m_grantor = d, m_gref = k, m_writable = w\<rparr>" and
      g1: "gt_ok g1" "gt_live g1 = add_mset m1 (gt_live ?g)" "gt_offer g1 = gt_offer ?g"
        "length (gt_maps g1) \<le> Suc (length (gt_maps ?g))" "gt_domain_count g1 = gt_domain_count ?g" by blast
    have f': "f' = f" using f(1) off by (rule gt_map_offer_dom)
    have rel: "gt_released ?g m1 = \<lparr>um_frame = f, um_writable = w\<rparr>"
      using off f' by (simp add: gt_released_def m1)
    have refs: "gt_refs g1 = add_mset (f, ?ref) (gt_refs ?g)"
      by (simp add: gt_refs_def g1(2) rel map_ref_def gt_released_cong [OF g1(3)])
    obtain y p1 where a: "pm_acquire_child ?p f ?ref = (y, p1)" by (cases "pm_acquire_child ?p f ?ref")
    note step = pm_acquire_step [OF pok, of f ?ref, unfolded a, simplified]
    show ?thesis
    proof (cases y)
      case yOk: (Ok u)
      have p1: "pm_ok (gt_refs g1) p1" using step yOk by (simp add: refs)
      have keeps: "pm_keeps ?p p1" "pm_live p1 = pm_live ?p"
        using pm_acquire_frame [of ?p f ?ref p1] a yOk by simp_all
      have "hv_ok (h\<lparr>grant := g1, p2m := p1\<rparr>)"
      proof (rule hv_ok_memory [OF h g1(1) p1 g1(5)])
        show "pm_num_domains p1 = pm_num_domains ?p" using keeps(1) by (simp add: pm_keeps_def)
        show "seam_maps g1 p1"
          using hv_okD(16) [OF h] f(2)
          by (simp add: seam_maps_def g1(2) rel m1 [symmetric] gt_released_cong [OF g1(3)] pm_keeps_owner [OF keeps(1)]) (simp add: m1)
        show "seam_links g1 p1"
          using pm_steady_links [OF pm_keeps_steady [OF keeps(1)] pok hv_okD(17) [OF h]] keeps(2)
          by (simp add: seam_links_cong [OF g1(3)])
        show "gt_tenants (life h) g1" using hv_okD(10) [OF h] by (simp add: gt_tenants_cong [OF g1(3)])
        show "pm_tenants (life h) p1"
          using hv_okD(11) [OF h] by (simp add: pm_tenants_def pm_keeps_owner [OF keeps(1)])
      qed
      then show ?thesis
        using f m Ok a yOk g1(4) by (simp add: grant_map_def p2m_acquire_eq hv_good_def hv_maps_def hv_domain_count_def)
    next
      case (Err e)
      have p1: "p1 = ?p" using pm_acquire_refused [OF a] Err by simp
      from gt_unmap_this [OF g1(1,2)] obtain g2 where
        g2: "gt_unmap g1 r hn = (Ok (gt_released g1 m1), g2)" "gt_ok g2" "gt_live g2 = gt_live ?g"
          "gt_offer g2 = gt_offer g1" "length (gt_maps g2) = length (gt_maps g1)" "gt_domain_count g2 = gt_domain_count g1"
        by (auto simp: m1)
      have off2: "gt_offer g2 = gt_offer ?g" by (simp add: g2(4) g1(3))
      have "hv_ok (h\<lparr>grant := g2, p2m := ?p\<rparr>)"
        using hv_okD [OF h] g2(6) g1(5)
        by (intro hv_ok_memory [OF h g2(2)])
          (simp_all add: gt_refs_cong [OF off2 g2(3)] seam_maps_cong [OF off2 g2(3)] seam_links_cong [OF off2] gt_tenants_cong [OF off2])
      moreover have "gt_domains g2 = gt_domains ?g"
        using gt_map_unmap_domains [OF ok m [unfolded Ok] g2(1)] .
      ultimately show ?thesis
        using f m Ok a Err p1 g2 g1(4)
        by (simp add: grant_map_def p2m_acquire_eq hv_good_def hv_maps_def hv_domain_count_def hv_same_def)
    qed (use step in simp)
  next
    case (Err e)
    then show ?thesis
      using f m gt_map_refused [OF m] good_Err [OF h] by (simp add: grant_map_def)
  next
    case Panic
    then show ?thesis using room m by simp
  qed
next
  case False
  then show ?thesis using good_Err [OF h] by (auto simp: grant_map_def split: option.splits)
qed

text \<open>Giving a page reference back.\<close>

lemma pm_release_held:
  assumes ok: "pm_ok H p" and x: "(f, r) \<in># H"
  shows "\<exists>p'. pm_release_child p f r = (Ok (), p') \<and> pm_ok (H - {#(f, r)#}) p' \<and> pm_keeps p p' \<and> pm_live p' = pm_live p"
proof -
  obtain H' where H: "H = add_mset (f, r) H'" using x by (metis insert_DiffM)
  have "pm_counts (add_mset (f, r) (H' + pm_owed p)) p" using ok by (simp add: pm_ok_def H)
  from pm_release_Ok [OF this] obtain i where i: "pm_info p f = Some i"
    "pm_release_child p f r = (Ok (), pm_frame_mut p f (pm_drop r i))" by blast
  moreover have "pm_keeps p (pm_frame_mut p f (pm_drop r i))" using i by (intro pm_keeps_mut) auto
  moreover have "pm_ok (H - {#(f, r)#}) (pm_frame_mut p f (pm_drop r i))" using pm_release_step [OF ok x] i by simp
  ultimately show ?thesis by auto
qed

lemma p2m_mirror_effect:
  assumes ok: "pm_ok H p" and u: "map_ref u \<in># H"
  shows "\<exists>p'. p2m_mirror p u = Some p' \<and> pm_ok (H - {#map_ref u#}) p' \<and> pm_keeps p p' \<and> pm_live p' = pm_live p"
proof -
  from pm_release_held [OF ok u [unfolded map_ref_def]] obtain p' where
    "pm_release_child p (um_frame u) (if um_writable u then Typed Writable else Bare) = (Ok (), p')"
    "pm_ok (H - {#map_ref u#}) p'" "pm_keeps p p'" "pm_live p' = pm_live p" by (auto simp: map_ref_def)
  then show ?thesis
    by (cases "um_writable u") (auto simp: p2m_mirror_def pm_put_type_release pm_put_release)
qed

lemma p2m_mirror_all_effect:
  assumes "pm_ok (mset (map map_ref us) + H) p"
  shows "\<exists>p'. p2m_mirror_all us p = Some p' \<and> pm_ok H p' \<and> pm_keeps p p' \<and> pm_live p' = pm_live p"
  using assms
proof (induction us arbitrary: p)
  case (Cons u us)
  from p2m_mirror_effect [OF Cons.prems, of u] obtain p1 where
    p1: "p2m_mirror p u = Some p1" "pm_ok (mset (map map_ref us) + H) p1" "pm_keeps p p1" "pm_live p1 = pm_live p" by auto
  from Cons.IH [OF p1(2)] obtain p' where
    "p2m_mirror_all us p1 = Some p'" "pm_ok H p'" "pm_keeps p1 p'" "pm_live p' = pm_live p1" by blast
  with p1 show ?case using pm_keeps_trans [OF p1(3)] by (auto simp: p2m_mirror_all_def)
qed (simp add: p2m_mirror_all_def)

lemma gt_refs_split:
  assumes "gt_live g = mset ms + gt_live g'" "gt_offer g' = gt_offer g"
  shows "gt_refs g = mset (map map_ref (map (gt_released g) ms)) + gt_refs g'"
  by (simp add: gt_refs_def assms(1) gt_released_cong [OF assms(2)] image_mset.compositionality comp_def)

lemma grant_unmap_good:
  assumes h: "hv_ok h" shows "hv_good h (grant_unmap h r hn)"
proof (cases "\<exists>m \<in># gt_live (grant h). gt_named r hn m")
  case True
  let ?g = "grant h" and ?p = "p2m h"
  note ok = hv_okD(3) [OF h] and pok = hv_okD(4) [OF h]
  from gt_unmap_Ok [OF ok True] obtain m f ro g1 where
    g1: "gt_unmap ?g r hn = (Ok \<lparr>um_frame = f, um_writable = m_writable m\<rparr>, g1)" "gt_live ?g = add_mset m (gt_live g1)"
      "gt_ok g1" "gt_offer ?g (m_grantor m) (m_gref m) = Some (r, f, ro)" "gt_offer g1 = gt_offer ?g"
      "length (gt_maps g1) = length (gt_maps ?g)" "gt_domain_count g1 = gt_domain_count ?g" by blast
  have rel: "gt_released ?g m = \<lparr>um_frame = f, um_writable = m_writable m\<rparr>" using g1(4) by (simp add: gt_released_def)
  have refs: "gt_refs ?g = add_mset (map_ref (gt_released ?g m)) (gt_refs g1)"
    using gt_refs_split [of ?g "[m]" g1] g1(2,5) by simp
  from p2m_mirror_effect [OF pok, of "gt_released ?g m"] obtain p1 where
    p1: "p2m_mirror ?p (gt_released ?g m) = Some p1" "pm_ok (gt_refs g1) p1" "pm_keeps ?p p1" "pm_live p1 = pm_live ?p"
    by (auto simp: refs)
  have "hv_ok (h\<lparr>grant := g1, p2m := p1\<rparr>)"
  proof (rule hv_ok_memory [OF h g1(3) p1(2) g1(7)])
    show "pm_num_domains p1 = pm_num_domains ?p" using p1(3) by (simp add: pm_keeps_def)
    show "seam_maps g1 p1"
      using hv_okD(16) [OF h]
      by (simp add: seam_maps_def g1(2) gt_released_cong [OF g1(5)] pm_keeps_owner [OF p1(3)])
    show "seam_links g1 p1"
      using pm_steady_links [OF pm_keeps_steady [OF p1(3)] pok hv_okD(17) [OF h]] p1(4)
      by (simp add: seam_links_cong [OF g1(5)])
    show "gt_tenants (life h) g1" using hv_okD(10) [OF h] by (simp add: gt_tenants_cong [OF g1(5)])
    show "pm_tenants (life h) p1" using hv_okD(11) [OF h] by (simp add: pm_tenants_def pm_keeps_owner [OF p1(3)])
  qed
  then show ?thesis
    using g1(1,6) p1(1) by (simp add: grant_unmap_def rel hv_good_def hv_maps_def hv_domain_count_def)
next
  case False
  then show ?thesis using gt_unmap_Err [of "grant h" r hn] good_Err [OF h] by (simp add: grant_unmap_def)
qed

section \<open>Teardown\<close>

text \<open>
  The grant half: after the two drains no live mapping names the domain, so both sweeps of its
  grants succeed on every entry, and the page references of the surviving mappings are what they
  were.
\<close>

definition gt_without :: "DomId \<Rightarrow> GrantSystem \<Rightarrow> DomId \<Rightarrow> GrantRef \<Rightarrow> offer option" where
  "gt_without t g d k =
     (case gt_offer g d k of
        None \<Rightarrow> None
      | Some (r, f, ro) \<Rightarrow> if d = t \<or> r = t then None else Some (r, f, ro))"

lemma destroy_drains:
  assumes gok: "gt_ok g" and pok: "pm_ok (gt_refs g) p"
  shows "\<exists>us1 g1 m1 m2 us2 g2 m3. gt_drain_foreign_maps_of g t = Some (us1, g1) \<and> p2m_mirror_all us1 p = Some m1 \<and>
     pm_unlink_all_into m1 t = Some m2 \<and> gt_drain_maps_of g1 t = Some (us2, g2) \<and> p2m_mirror_all us2 m2 = Some m3 \<and>
     gt_ok g2 \<and> gt_offer g2 = gt_offer g \<and> gt_domain_count g2 = gt_domain_count g \<and>
     length (gt_maps g2) = length (gt_maps g) \<and>
     gt_live g2 = filter_mset (\<lambda>m. m_grantor m \<noteq> t \<and> m_grantee m \<noteq> t) (gt_live g) \<and>
     pm_ok (gt_refs g2) m3 \<and> pm_keeps p m3 \<and>
     pm_live m3 = filter_mset (\<lambda>l. \<not> (pm_owner_of p (l_child l) = Some t \<and> pm_owner_of p (l_parent l) \<noteq> Some t)) (pm_live p)"
proof -
  let ?P1 = "\<lambda>m. m_grantor m = t \<and> m_grantee m \<noteq> t"
  let ?ms1 = "filter (\<lambda>m. active m \<and> m_grantor m = t \<and> m_grantee m \<noteq> t) (gt_maps g)"
  from gt_drain_foreign_maps_of_effect [OF gok, of t] obtain g1 where
    g1: "gt_drain_foreign_maps_of g t = Some (map (gt_released g) ?ms1, g1)" "gt_ok g1"
      "gt_live g1 = filter_mset (\<lambda>m. \<not> ?P1 m) (gt_live g)" "gt_offer g1 = gt_offer g"
      "length (gt_maps g1) = length (gt_maps g)" "gt_domain_count g1 = gt_domain_count g" by blast
  have "gt_live g = mset ?ms1 + gt_live g1" using gt_live_partition [of g ?P1] by (simp only: g1(3))
  then have "gt_refs g = mset (map map_ref (map (gt_released g) ?ms1)) + gt_refs g1"
    using gt_refs_split [OF _ g1(4)] by blast
  with pok have "pm_ok (mset (map map_ref (map (gt_released g) ?ms1)) + gt_refs g1) p" by simp
  from p2m_mirror_all_effect [OF this] obtain m1 where
    m1: "p2m_mirror_all (map (gt_released g) ?ms1) p = Some m1" "pm_ok (gt_refs g1) m1" "pm_keeps p m1" "pm_live m1 = pm_live p"
    by blast
  from pm_unlink_all_into_effect [OF m1(2), of t] obtain m2 where
    m2: "pm_unlink_all_into m1 t = Some m2" "pm_ok (gt_refs g1) m2" "pm_keeps m1 m2"
      "pm_live m2 = filter_mset (\<lambda>l. \<not> (pm_owner_of m1 (l_child l) = Some t \<and> pm_owner_of m1 (l_parent l) \<noteq> Some t)) (pm_live m1)"
    by blast
  let ?ms2 = "filter (\<lambda>m. active m \<and> m_grantee m = t) (gt_maps g1)"
  from gt_drain_maps_of_effect [OF g1(2), of t] obtain g2 where
    g2: "gt_drain_maps_of g1 t = Some (map (gt_released g1) ?ms2, g2)" "gt_ok g2"
      "gt_live g2 = filter_mset (\<lambda>m. m_grantee m \<noteq> t) (gt_live g1)" "gt_offer g2 = gt_offer g1"
      "length (gt_maps g2) = length (gt_maps g1)" "gt_domain_count g2 = gt_domain_count g1" by blast
  have "gt_live g1 = mset ?ms2 + gt_live g2" using gt_live_partition [of g1 "\<lambda>m. m_grantee m = t"] by (simp only: g2(3))
  then have "gt_refs g1 = mset (map map_ref (map (gt_released g1) ?ms2)) + gt_refs g2"
    using gt_refs_split [OF _ g2(4)] by blast
  with m2(2) have "pm_ok (mset (map map_ref (map (gt_released g1) ?ms2)) + gt_refs g2) m2" by simp
  from p2m_mirror_all_effect [OF this] obtain m3 where
    m3: "p2m_mirror_all (map (gt_released g1) ?ms2) m2 = Some m3" "pm_ok (gt_refs g2) m3" "pm_keeps m2 m3" "pm_live m3 = pm_live m2"
    by blast
  have live2: "gt_live g2 = filter_mset (\<lambda>m. m_grantor m \<noteq> t \<and> m_grantee m \<noteq> t) (gt_live g)"
    unfolding g2(3) g1(3) filter_filter_mset by (rule filter_mset_cong) auto
  have "pm_keeps p m3" using m1(3) m2(3) m3(3) pm_keeps_trans by blast
  then show ?thesis
    using g1 g2 m1(1) m2(1) m3 live2 by (simp add: m2(4) m1(4) pm_keeps_owner [OF m1(3)])
qed

lemma destroy_memory:
  assumes gok: "gt_ok g" and pok: "pm_ok (gt_refs g) p" and maps: "seam_maps g p" and links: "seam_links g p"
  shows "\<exists>us1 g1 m1 m2 us2 g2 m3 g3 m4 m5 m6 g4.
     gt_drain_foreign_maps_of g t = Some (us1, g1) \<and> p2m_mirror_all us1 p = Some m1 \<and>
     pm_unlink_all_into m1 t = Some m2 \<and> gt_drain_maps_of g1 t = Some (us2, g2) \<and> p2m_mirror_all us2 m2 = Some m3 \<and>
     gt_revoke_all g2 t = Some g3 \<and> pm_unlink_all m3 t = Some m4 \<and> pm_unpin_all m4 t = Some m5 \<and>
     pm_free_all m5 t = Some m6 \<and> gt_revoke_grants_to g3 t = Some g4 \<and>
     gt_ok g4 \<and> pm_ok (gt_refs g4) m6 \<and> seam_maps g4 m6 \<and> seam_links g4 m6 \<and>
     gt_domain_count g4 = gt_domain_count g \<and> length (gt_maps g4) = length (gt_maps g) \<and>
     pm_num_domains m6 = pm_num_domains p \<and> gt_offer g4 = gt_without t g \<and>
     gt_live g4 = filter_mset (\<lambda>m. m_grantor m \<noteq> t \<and> m_grantee m \<noteq> t) (gt_live g) \<and>
     pm_live m6 = filter_mset (\<lambda>l. pm_owner_of p (l_child l) \<noteq> Some t \<and> pm_owner_of p (l_parent l) \<noteq> Some t) (pm_live p) \<and>
     (\<forall>m. pm_owner_of m6 m = (if pm_owner_of p m = Some t then None else pm_owner_of p m))"
proof -
  from destroy_drains [OF gok pok, of t] obtain us1 g1 m1 m2 us2 g2 m3 where
    run1: "gt_drain_foreign_maps_of g t = Some (us1, g1)" "p2m_mirror_all us1 p = Some m1"
      "pm_unlink_all_into m1 t = Some m2" "gt_drain_maps_of g1 t = Some (us2, g2)" "p2m_mirror_all us2 m2 = Some m3"
    and g2: "gt_ok g2" "gt_offer g2 = gt_offer g" "gt_domain_count g2 = gt_domain_count g"
      "length (gt_maps g2) = length (gt_maps g)"
      "gt_live g2 = filter_mset (\<lambda>m. m_grantor m \<noteq> t \<and> m_grantee m \<noteq> t) (gt_live g)"
    and m3: "pm_ok (gt_refs g2) m3" "pm_keeps p m3"
      "pm_live m3 = filter_mset (\<lambda>l. \<not> (pm_owner_of p (l_child l) = Some t \<and> pm_owner_of p (l_parent l) \<noteq> Some t)) (pm_live p)"
    by blast
  note own3 = pm_keeps_owner [OF m3(2)]
  have frames: "pm_owner_of p (um_frame (gt_released g m)) = Some (m_grantor m) \<and> m_grantor m \<noteq> t" if "m \<in># gt_live g2" for m
    using maps that unfolding seam_maps_def g2(5) by simp
  have outside: "pm_owner_of m3 (fst x) \<noteq> Some t" if "x \<in># gt_refs g2" for x
    using that frames by (auto simp: gt_refs_def own3 map_ref_def gt_released_cong [OF g2(2)])
  have into: "pm_owner_of m3 (l_parent l) = Some t" if "l \<in># pm_live m3" "pm_owner_of m3 (l_child l) = Some t" for l
    using that by (simp add: m3(3) own3)
  from pm_teardown_effect [OF m3(1) outside into] obtain m4 m5 m6 where
    run2: "pm_unlink_all m3 t = Some m4" "pm_unpin_all m4 t = Some m5" "pm_free_all m5 t = Some m6"
    and m6: "pm_ok (gt_refs g2) m6" "pm_num_domains m6 = pm_num_domains m3"
      "pm_live m6 = filter_mset (\<lambda>l. pm_owner_of m3 (l_parent l) \<noteq> Some t) (pm_live m3)"
      "\<And>m. pm_owner_of m6 m = (if pm_owner_of m3 m = Some t then None else pm_owner_of m3 m)" by blast
  from gt_revoke_all_effect [OF g2(1), of t] obtain g3 where
    g3: "gt_revoke_all g2 t = Some g3" "gt_swept g2 (\<lambda>d' _. d' = t) g3" by blast
  have g3ok: "gt_ok g3" using g3(2) by (simp add: gt_swept_def)
  have live3: "gt_live g3 = gt_live g2" using g3(2) by (rule gt_swept_live)
  from gt_revoke_grants_to_effect [OF g3ok, of t] obtain g4 where
    g4: "gt_revoke_grants_to g3 t = Some g4" "gt_swept g3 (\<lambda>d k. gt_grantee_of g3 d k = Some t) g4" by blast
  have live4: "gt_live g4 = gt_live g2" using gt_swept_live [OF g4(2)] live3 by simp
  have idle_own: "gt_idle (gt_live g2) t k" for k by (auto simp: gt_idle_def gt_over_def g2(5))
  have off3: "gt_offer g3 d k = (if d = t then None else gt_offer g d k)" for d k
    using g3(2) idle_own by (simp add: gt_swept_def g2(2))
  have idle_to: "gt_idle (gt_live g2) d k" if "gt_offer g3 d k = Some (t, f, ro)" for d k f ro
    unfolding gt_idle_def
  proof (intro ballI notI)
    fix m assume m: "m \<in># gt_live g2" "gt_over d k m"
    then have "m_grantee m \<noteq> t" by (simp add: g2(5))
    moreover have "\<exists>f ro n w. gt_get g3 d k = Some (Access (m_grantee m) f ro n w)"
      using gt_ok_live_get [OF g3ok, of m] m live3 by (auto simp: gt_over_def)
    ultimately show False using that by (auto simp: gt_offer_Some)
  qed
  have off4: "gt_offer g4 = gt_without t g"
  proof (intro ext)
    fix d k show "gt_offer g4 d k = gt_without t g d k"
      using g4(2) idle_to [of d k] unfolding gt_swept_def live3 gt_without_def
      by (auto simp: gt_grantee_of_iff off3 split: option.splits)
  qed
  have rel4: "gt_released g4 m = gt_released g m" if m: "m \<in># gt_live g2" for m
  proof -
    have "m \<in># gt_live g" "m_grantor m \<noteq> t" "m_grantee m \<noteq> t" using m by (auto simp: g2(5))
    moreover from gt_ok_live_get [OF gok this(1)] have "\<exists>f ro. gt_offer g (m_grantor m) (m_gref m) = Some (m_grantee m, f, ro)"
      by (auto simp: gt_offer_Some)
    ultimately show ?thesis by (auto simp: gt_released_def off4 gt_without_def)
  qed
  have refs4: "gt_refs g4 = gt_refs g2"
    unfolding gt_refs_def live4 by (intro image_mset_cong) (simp add: rel4 gt_released_cong [OF g2(2)])
  have maps4: "seam_maps g4 m6"
    unfolding seam_maps_def live4 using frames by (simp add: rel4 m6(4) own3)
  have live6: "pm_live m6 = filter_mset (\<lambda>l. pm_owner_of p (l_child l) \<noteq> Some t \<and> pm_owner_of p (l_parent l) \<noteq> Some t) (pm_live p)"
    unfolding m6(3) m3(3) filter_filter_mset own3 by (rule filter_mset_cong) auto
  have links4: "seam_links g4 m6"
    unfolding seam_links_def live6
  proof (intro ballI allI impI)
    fix l a b
    assume l: "l \<in># filter_mset (\<lambda>l. pm_owner_of p (l_child l) \<noteq> Some t \<and> pm_owner_of p (l_parent l) \<noteq> Some t) (pm_live p)"
      and ab: "pm_owner_of m6 (l_child l) = Some a \<and> pm_owner_of m6 (l_parent l) = Some b \<and> a \<noteq> b"
    then have own: "pm_owner_of p (l_child l) = Some a" "pm_owner_of p (l_parent l) = Some b" "a \<noteq> b" "a \<noteq> t" "b \<noteq> t"
      by (auto simp: m6(4) own3 split: if_splits)
    have "l \<in># pm_live p" using l by simp
    with links own obtain k ro where "gt_offer g a k = Some (b, l_child l, ro)" "l_writable l \<longrightarrow> \<not> ro"
      unfolding seam_links_def gt_authorizes_iff by blast
    then show "gt_authorizes g4 a b (l_child l) (l_writable l)"
      using own unfolding gt_authorizes_iff off4 gt_without_def by (intro exI [of _ k] exI [of _ ro]) simp
  qed
  have counts4: "gt_ok g4" "gt_domain_count g4 = gt_domain_count g" "length (gt_maps g4) = length (gt_maps g)"
    using g4(2) g3(2) g2(3,4) by (auto simp: gt_swept_def)
  have refs6: "pm_ok (gt_refs g4) m6" using m6(1) refs4 by simp
  have num6: "pm_num_domains m6 = pm_num_domains p" using m6(2) m3(2) by (simp add: pm_keeps_def)
  have live4': "gt_live g4 = filter_mset (\<lambda>m. m_grantor m \<noteq> t \<and> m_grantee m \<noteq> t) (gt_live g)"
    using live4 g2(5) by simp
  have own6: "\<forall>m. pm_owner_of m6 m = (if pm_owner_of p m = Some t then None else pm_owner_of p m)"
    using m6(4) own3 by simp
  show ?thesis
    by (rule exI [of _ us1], rule exI [of _ g1], rule exI [of _ m1], rule exI [of _ m2], rule exI [of _ us2],
        rule exI [of _ g2], rule exI [of _ m3], rule exI [of _ g3], rule exI [of _ m4], rule exI [of _ m5],
        rule exI [of _ m6], rule exI [of _ g4], intro conjI) fact+
qed

text \<open>The other halves: ports, vCPUs, devices and authority.\<close>

lemma dead_kill: "t < length L \<Longrightarrow> dead (L[t := Dead]) d \<longleftrightarrow> dead L d \<or> d = t"
  by (auto simp: dead_def vec_get_update)

lemma destroy_events:
  assumes ok: "ev_ok e" and ten: "ev_tenants L e" and t: "t < length L"
  shows "\<exists>e1 e2. ev_close_all e t = Some e1 \<and> ev_clear_unbound_into e1 t = Some e2 \<and> ev_ok e2 \<and>
     ev_domain_count e2 = ev_domain_count e \<and> ev_quieter e e2 \<and> ev_tenants (L[t := Dead]) e2 \<and>
     (\<forall>p st. ev_state_of e2 t p = Some st \<longrightarrow> st = PortState.Free)"
proof -
  from ev_close_all_effect [OF ok, of t] obtain e1 where
    e1: "ev_close_all e t = Some e1" "ev_ok e1" "ev_domain_count e1 = ev_domain_count e" "ev_quieter e e1"
      "\<And>d p. ev_state_of e1 d p = ev_closed_upto e t (ev_port_count e t) d p" by blast
  from ev_clear_unbound_into_effect [OF e1(2), of t] obtain e2 where
    e2: "ev_clear_unbound_into e1 t = Some e2" "ev_swept e1 t (\<lambda>_ _. True) e2" by blast
  have port: "p < ev_port_count e t" if "ev_state_of e t p \<noteq> None" for p
    using that ev_get_range [of e t p] by (auto simp: ev_state_of_eq)
  have peer: "r = t \<longrightarrow> q < ev_port_count e t" if "ev_state_of e d p = Some (Interdomain r q)" for d p r q
    using ev_inv_peer [OF ev_okD(2) [OF ok] that] port [of q] by auto
  have shut: "st = PortState.Free" if "ev_state_of e2 t p = Some st" for p st
    using that e2(2) port [of p] unfolding ev_swept_def ev_cleared_of_def e1(5) ev_closed_upto_def
    by (auto split: option.splits PortState.splits if_splits)
  have other: "ev_state_of e2 d p = ev_state_of e d p \<and> (\<forall>r. st = Unbound r \<longrightarrow> r \<noteq> t)"
    if "d \<noteq> t" "ev_state_of e2 d p = Some st" "st \<noteq> PortState.Free" for d p st
    using that e2(2) peer [of d p] unfolding ev_swept_def ev_cleared_of_def e1(5) ev_closed_upto_def
    by (auto split: option.splits PortState.splits if_splits)
  have "ev_tenants (L[t := Dead]) e2"
    unfolding ev_tenants_def dead_kill [OF t]
  proof (intro allI impI)
    fix d p st assume st: "ev_state_of e2 d p = Some st \<and> st \<noteq> PortState.Free"
    then have d: "d \<noteq> t" using shut by blast
    with other [OF d, of p st] st have "ev_state_of e d p = Some st" "\<And>r. st = Unbound r \<Longrightarrow> r \<noteq> t" by auto
    with ten st d show "\<not> (dead L d \<or> d = t) \<and> (\<forall>r. st = Unbound r \<longrightarrow> \<not> (dead L r \<or> r = t))"
      unfolding ev_tenants_def by blast
  qed
  moreover have "ev_quieter e e2" using e2(2) ev_quieter_trans [OF e1(4)] by (simp add: ev_swept_def)
  ultimately show ?thesis using e1 e2 shut by (auto simp: ev_swept_def)
qed

lemma sc_offline_all_count:
  assumes "sc_offline_all s t now = Some s1" shows "sc_domain_count s1 = sc_domain_count s"
  using assms unfolding sc_offline_all_def
  by (rule for_each_keeps [rotated])
    (auto simp: sc_domain_count_def dest!: sc_offline_shape split: if_splits prod.splits result.splits)

lemma destroy_vcpus:
  assumes ok: "sc_ok s" and ten: "sc_tenants L s" and t: "t < length L"
    and wake: "seam_wake e s" and quiet: "ev_quieter e e'"
  shows "\<exists>s1. sc_offline_all s t now = Some s1 \<and> sc_ok s1 \<and> sc_tenants (L[t := Dead]) s1 \<and> seam_wake e' s1 \<and>
     sc_domain_count s1 = sc_domain_count s \<and> (\<forall>v st. sc_state_of s1 t v = Some st \<longrightarrow> st = Offline)"
proof -
  from sc_offline_all_effect [OF ok, of t now] obtain s1 where
    s1: "sc_offline_all s t now = Some s1" "sc_ok s1"
      "\<And>d v. sc_get s1 d v = (if d = t then map_option (sc_downed (sc_full_affinity s) now) (sc_get s d v)
         else sc_get s d v)" by blast
  have down: "vc_state (sc_downed m n c) = Offline" for m n c by (simp add: sc_downed_def)
  have "sc_tenants (L[t := Dead]) s1"
    using ten unfolding sc_tenants_def dead_kill [OF t] by (auto simp: s1(3) down split: if_splits)
  moreover have "sc_state_of s1 d v \<noteq> Some Blocked" if "sc_state_of s d v \<noteq> Some Blocked" for d v
    using that by (auto simp: sc_state_of_eq s1(3) down)
  then have "seam_wake e' s1" using wake quiet unfolding seam_wake_def ev_quieter_def by metis
  moreover have "sc_domain_count s1 = sc_domain_count s" using sc_offline_all_count [OF s1(1)] .
  ultimately show ?thesis using s1 down by (auto simp: sc_state_of_eq)
qed

lemma destroy_authority_effect:
  assumes h: "hv_ok h" and t: "t < hv_domain_count h"
    and same: "life h' = life h" "may_create h' = may_create h" "controls h' = controls h" "credit h' = credit h"
  shows "\<exists>c. destroy_authority h' t = Some (h'\<lparr>life := (life h)[t := Dead], may_create := (may_create h)[t := False], controls := c\<rparr>) \<and>
     ctl_square (hv_domain_count h) c \<and> ctl_forest c \<and> ctl_below (controls h) c \<and>
     (\<forall>a. ctl_edge c a t = Absent \<and> ctl_edge c t a = Absent)"
proof -
  let ?n = "hv_domain_count h"
  note sq = hv_okD(7) [OF h] and f = hv_okD(6) [OF h]
  from ctl_clear_effect [OF sq t] obtain c1 where
    c1: "ctl_clear ?n t (controls h) = Some c1" "ctl_square ?n c1"
      "\<And>a k. ctl_edge c1 a k = (if a = t \<or> k = t then Absent else ctl_edge (controls h) a k)" by blast
  have below: "ctl_below (controls h) c1" by (simp add: ctl_below_def c1(3))
  from sweep_restores [OF f sq c1(2) below] obtain c2 where
    c2: "sweep_orphaned_control_edges ?n c1 = Some c2" "ctl_square ?n c2" "ctl_forest c2" "ctl_below c1 c2" by blast
  have "ctl_edge c2 a t = Absent \<and> ctl_edge c2 t a = Absent" for a
    using c2(4) c1(3) unfolding ctl_below_def by metis
  moreover have "destroy_authority h' t = Some (h'\<lparr>life := (life h)[t := Dead], may_create := (may_create h)[t := False], controls := c2\<rparr>)"
    using same c1(1) c2(1) t hv_okD(18,19) [OF h] by (simp add: destroy_authority_def hv_domain_count_def)
  ultimately show ?thesis using c2 ctl_below_trans [OF below c2(4)] by blast
qed

text \<open>A teardown that was authorised returns, keeps the invariant and leaves nothing behind.\<close>

definition destroyed :: "DomId \<Rightarrow> Hypervisor \<Rightarrow> Hypervisor \<Rightarrow> bool" where
  "destroyed t h h' \<longleftrightarrow> hv_ok h' \<and> hv_maps h' = hv_maps h \<and> credit h' = credit h \<and>
     life h' = (life h)[t := Dead] \<and> may_create h' = (may_create h)[t := False] \<and>
     gt_offer (grant h') = gt_without t (grant h) \<and>
     gt_live (grant h') = filter_mset (\<lambda>m. m_grantor m \<noteq> t \<and> m_grantee m \<noteq> t) (gt_live (grant h)) \<and>
     pm_live (p2m h') = filter_mset (\<lambda>l. pm_owner_of (p2m h) (l_child l) \<noteq> Some t \<and>
       pm_owner_of (p2m h) (l_parent l) \<noteq> Some t) (pm_live (p2m h)) \<and>
     (\<forall>m. pm_owner_of (p2m h') m = (if pm_owner_of (p2m h) m = Some t then None else pm_owner_of (p2m h) m)) \<and>
     ctl_below (controls h) (controls h')"

lemma destroy_effect:
  assumes h: "hv_ok h" and t: "t < hv_domain_count h"
  shows "\<exists>h1 h2. destroy_resources h t now = Some h1 \<and> destroy_authority h1 t = Some h2 \<and> destroyed t h h2"
proof -
  have tl: "t < length (life h)" using t hv_okD(18) [OF h] by simp
  from destroy_events [OF hv_okD(1,8) [OF h] tl] obtain e1 e2 where
    e: "ev_close_all (evtchn h) t = Some e1" "ev_clear_unbound_into e1 t = Some e2" "ev_ok e2"
      "ev_domain_count e2 = ev_domain_count (evtchn h)" "ev_quieter (evtchn h) e2" "ev_tenants ((life h)[t := Dead]) e2" by blast
  from destroy_vcpus [OF hv_okD(2,9) [OF h] tl hv_okD(15) [OF h] e(5), of now] obtain s1 where
    s1: "sc_offline_all (sched h) t now = Some s1" "sc_ok s1" "sc_tenants ((life h)[t := Dead]) s1" "seam_wake e2 s1"
      "sc_domain_count s1 = sc_domain_count (sched h)" by blast
  from destroy_memory [OF hv_okD(3,4,16,17) [OF h], of t] obtain us1 g1 m1 m2 us2 g2 m3 g3 m4 m5 m6 g4 where
    run: "gt_drain_foreign_maps_of (grant h) t = Some (us1, g1)" "p2m_mirror_all us1 (p2m h) = Some m1"
     "pm_unlink_all_into m1 t = Some m2" "gt_drain_maps_of g1 t = Some (us2, g2)" "p2m_mirror_all us2 m2 = Some m3"
     "gt_revoke_all g2 t = Some g3" "pm_unlink_all m3 t = Some m4" "pm_unpin_all m4 t = Some m5"
     "pm_free_all m5 t = Some m6" "gt_revoke_grants_to g3 t = Some g4"
    and mem: "gt_ok g4" "pm_ok (gt_refs g4) m6" "seam_maps g4 m6" "seam_links g4 m6"
     "gt_domain_count g4 = gt_domain_count (grant h)" "length (gt_maps g4) = length (gt_maps (grant h))"
     "pm_num_domains m6 = pm_num_domains (p2m h)" "gt_offer g4 = gt_without t (grant h)"
     "gt_live g4 = filter_mset (\<lambda>m. m_grantor m \<noteq> t \<and> m_grantee m \<noteq> t) (gt_live (grant h))"
     "pm_live m6 = filter_mset (\<lambda>l. pm_owner_of (p2m h) (l_child l) \<noteq> Some t \<and> pm_owner_of (p2m h) (l_parent l) \<noteq> Some t) (pm_live (p2m h))"
     "\<forall>m. pm_owner_of m6 m = (if pm_owner_of (p2m h) m = Some t then None else pm_owner_of (p2m h) m)"
    by blast
  define h1 where "h1 = h\<lparr>evtchn := e2, sched := s1, grant := g4, p2m := m6, device := dv_release_all_of (device h) t\<rparr>"
  have r1: "destroy_resources h t now = Some h1"
    unfolding destroy_resources_def h1_def by (simp add: e(1,2) s1(1) run)
  have "\<exists>c. destroy_authority h1 t = Some (h1\<lparr>life := (life h)[t := Dead], may_create := (may_create h)[t := False], controls := c\<rparr>) \<and>
     ctl_square (hv_domain_count h) c \<and> ctl_forest c \<and> ctl_below (controls h) c \<and>
     (\<forall>a. ctl_edge c a t = Absent \<and> ctl_edge c t a = Absent)"
    by (rule destroy_authority_effect [OF h t]) (simp_all add: h1_def)
  then obtain c where
    r2: "destroy_authority h1 t = Some (h1\<lparr>life := (life h)[t := Dead], may_create := (may_create h)[t := False], controls := c\<rparr>)"
    and c: "ctl_square (hv_domain_count h) c" "ctl_forest c" "ctl_below (controls h) c"
      "\<And>a. ctl_edge c a t = Absent" "\<And>a. ctl_edge c t a = Absent" by blast
  let ?L = "(life h)[t := Dead]"
  have "gt_tenants ?L g4"
    using hv_okD(10) [OF h] unfolding gt_tenants_def dead_kill [OF tl] mem(8) gt_without_def
    by (auto split: option.splits if_splits)
  moreover have "pm_tenants ?L m6"
    using hv_okD(11) [OF h] unfolding pm_tenants_def dead_kill [OF tl] by (auto simp: mem(11))
  moreover have "dv_tenants ?L (dv_release_all_of (device h) t)"
    using hv_okD(12) [OF h] unfolding dv_tenants_def dead_kill [OF tl] by (auto simp: dv_release_all_holder)
  moreover have "mc_tenants ?L ((may_create h)[t := False])"
    using hv_okD(13,18,19) [OF h] unfolding mc_tenants_def dead_kill [OF tl]
    using t by (auto simp: vec_get_update split: if_splits)
  moreover have "ctl_tenants ?L c"
    using ctl_tenants_below [OF hv_okD(14) [OF h] c(3)] c(4,5) unfolding ctl_tenants_def dead_kill [OF tl] by blast
  ultimately have "hv_ok (h1\<lparr>life := ?L, may_create := (may_create h)[t := False], controls := c\<rparr>)"
    using h e s1 mem(1-5,7) c(1,2) dv_release_all_ok [OF hv_okD(5) [OF h], of t]
    by (simp add: hv_ok_defs hv_domain_count_def h1_def)
  then have "destroyed t h (h1\<lparr>life := ?L, may_create := (may_create h)[t := False], controls := c\<rparr>)"
    using mem c(3) by (simp add: destroyed_def h1_def hv_maps_def)
  with r1 r2 show ?thesis by blast
qed

lemma domain_destroy_good:
  assumes h: "hv_ok h" and d: "d < hv_domain_count h"
  shows "hv_good h (domain_destroy h d t now)"
proof -
  have body: "hv_good h (or_panic h (destroy_resources h t now) (\<lambda>h1.
        or_panic h1 (destroy_authority h1 t) (\<lambda>h2. (Ok Done, h2))))" if t: "t < hv_domain_count h"
  proof -
    from destroy_effect [OF h t, of now] obtain h1 h2 where
      "destroy_resources h t now = Some h1" "destroy_authority h1 t = Some h2" "destroyed t h h2" by blast
    then show ?thesis by (simp add: hv_good_def destroyed_def hv_domain_count_def)
  qed
  show ?thesis
    unfolding domain_destroy_def Let_def using d body
    by (auto simp: not_le intro!: good_Err [OF h] need_control_good [OF h d])
qed

section \<open>Every transition\<close>

definition handles_left :: "Hypervisor \<Rightarrow> DomId \<Rightarrow> HvCall \<Rightarrow> bool" where
  "handles_left h d call \<longleftrightarrow>
     (\<forall>r k w. call = GrantMap r k w \<longrightarrow> fst (gt_map (grant h) d r k w) \<noteq> Panic)"

lemma hv_call_good:
  assumes h: "hv_ok h" and d: "d < hv_domain_count h" "\<not> dead (life h) d" and room: "handles_left h d call"
  shows "hv_good h (hv_call h d call)"
proof (cases call)
  case (CreditGrant x)
  then show ?thesis using in_credit_good [OF h cr_grant_wb] by simp
next
  case (CreditSpend x)
  then show ?thesis using in_credit_good [OF h cr_spend_wb] by simp
next
  case (EvtchnAllocUnbound r)
  then show ?thesis using evtchn_alloc_unbound_good [OF h d(2)] by blast
next
  case (GrantAccess k r f ro)
  then show ?thesis using grant_access_good [OF h d(2)] by blast
qed ((rule evtchn_quiet_good [OF h d(2)], blast) | (rule sched_calls_good [OF h d(2)], blast) |
     (rule p2m_calls_good [OF h d(2)], blast) |
     (use h d room in \<open>simp add: evtchn_send_good evtchn_unmask_good grant_end_access_good grant_map_good grant_unmap_good
       grant_copy_good sched_block_good sched_set_affinity_good p2m_link_good domain_create_good domain_destroy_good
       control_grant_good control_revoke_good device_assign_good device_release_good handles_left_def\<close>))+

text \<open>Without a free handle the map panics, in the state it was called in.\<close>

lemma grant_map_exhausted:
  assumes "fst (gt_map (grant h) r d k w) = Panic"
  shows "snd (grant_map h r d k w) = h"
proof -
  obtain g1 where m: "gt_map (grant h) r d k w = (Panic, g1)" using assms by (cases "gt_map (grant h) r d k w") auto
  then have "g1 = grant h" using gt_map_refused [OF m] by simp
  then show ?thesis using m by (auto simp: grant_map_def propagate_def ok_or_def split: option.splits)
qed

lemma hv_call_kept:
  assumes "hv_ok h" "d < hv_domain_count h" "\<not> dead (life h) d"
  shows "hv_ok (snd (hv_call h d call)) \<and> hv_maps (snd (hv_call h d call)) \<le> Suc (hv_maps h)"
proof (cases "handles_left h d call")
  case True
  then show ?thesis using hv_call_good [OF assms] by (simp add: hv_good_def)
next
  case False
  then show ?thesis using assms(1) by (auto simp: handles_left_def grant_map_exhausted)
qed

lemma route_cases:
  assumes h: "hv_ok h"
  shows "(\<exists>e. route h d call = (Err e, h)) \<and> \<not> is_live h d \<or>
     route h d call = hv_call h d call \<and> is_live h d \<and> d < hv_domain_count h \<and> \<not> dead (life h) d"
  using hv_okD(18) [OF h] by (cases "life h ! d") (auto simp: route_def vec_get_def is_live_def dead_def)

lemma hv_apply_kept:
  assumes h: "hv_ok h"
  shows "hv_ok (snd (hv_apply h tr)) \<and> hv_maps (snd (hv_apply h tr)) \<le> Suc (hv_maps h)"
proof (cases tr)
  case (Guest d call)
  then show ?thesis using route_cases [OF h, of d call] hv_call_kept [OF h, of d call] h by (auto simp: hv_apply_def dispatch_def)
next
  case (RaiseVcpuVirq d v q)
  then show ?thesis using raise_vcpu_virq_good [OF h] by (simp add: hv_apply_def hv_good_def)
qed

lemma good_apfst: "hv_good h rs \<Longrightarrow> hv_good h (apfst (map_ok_err f id) rs)"
  by (cases rs; cases "fst rs") (auto simp: hv_good_def)

lemma hv_apply_good:
  assumes h: "hv_ok h" and room: "hv_maps h < u32_size"
  shows "hv_good h (hv_apply h tr)"
proof (cases tr)
  case (Guest d call)
  have "handles_left h d call" using gt_map_returns [of "grant h"] room by (simp add: handles_left_def hv_maps_def)
  then have "hv_good h (route h d call)" using route_cases [OF h, of d call] hv_call_good [OF h, of d call] good_Err [OF h] by auto
  then show ?thesis using Guest by (auto simp: hv_apply_def dispatch_def intro: good_apfst)
next
  case (RaiseVcpuVirq d v q)
  then show ?thesis using raise_vcpu_virq_good [OF h] by (auto simp: hv_apply_def intro: good_apfst)
qed

text \<open>The integrated core is a machine: every run from an initial state keeps the invariant.\<close>

definition hv_start :: "Hypervisor \<Rightarrow> bool" where
  "hv_start h \<longleftrightarrow> (\<exists>n np ng nv nc nf nd. n < u16_size \<and> np < u32_size \<and> ng < u32_size \<and> nv < u32_size \<and>
     nc < u32_size \<and> nf < u32_size \<and> h = hv_new n np ng nv nc nf nd)"

definition hv_run :: "Transition list \<Rightarrow> Hypervisor \<Rightarrow> Hypervisor" where
  "hv_run trs h = fold (\<lambda>tr h. snd (hv_apply h tr)) trs h"

interpretation hvm: machine hv_start "\<lambda>h tr. snd (hv_apply h tr)" hv_ok
proof
  show "hv_ok h" if "hv_start h" for h using that hv_new_ok unfolding hv_start_def by blast
  show "hv_ok (snd (hv_apply h tr))" if "hv_ok h" for h tr using hv_apply_kept [OF that] ..
qed

lemma hv_run_ok: "hv_start h0 \<Longrightarrow> hv_ok (hv_run trs h0)"
  unfolding hv_run_def by (rule hvm.run_inv) (rule hvm.start_inv)

lemma hv_run_maps:
  assumes "hv_ok h" shows "hv_maps (hv_run trs h) \<le> length trs + hv_maps h"
  using assms
proof (induction trs arbitrary: h)
  case (Cons tr trs)
  have "hv_ok (snd (hv_apply h tr))" "hv_maps (snd (hv_apply h tr)) \<le> Suc (hv_maps h)"
    using hv_apply_kept [OF Cons.prems, of tr] by auto
  with Cons.IH [of "snd (hv_apply h tr)"] show ?case by (simp add: hv_run_def)
qed (simp add: hv_run_def)

lemma hv_startI:
  assumes "n < u16_size" "np < u32_size" "ng < u32_size" "nv < u32_size" "nc < u32_size" "nf < u32_size"
  shows "hv_start (hv_new n np ng nv nc nf nd)"
  unfolding hv_start_def using assms by blast

lemma hv_start_maps: "hv_start h0 \<Longrightarrow> hv_maps h0 = 0"
  by (auto simp: hv_start_def hv_new_def hv_maps_def gt_new_def)

section \<open>The invariant implies the check of the source\<close>

lemma scan_Ok: "scan f xs = Ok () \<longleftrightarrow> (\<forall>x \<in> set xs. f x = Ok ())"
  by (induction xs) (auto split: result.splits)

lemma and_then_Ok: "and_then a b = Ok () \<longleftrightarrow> a = Ok () \<and> b = Ok ()"
  by (cases a) (auto simp: and_then_def)

text \<open>Counting the mappings over a frame entry by entry counts each of them at most once.\<close>

lemma sum_keyed_le:
  assumes "distinct xs"
  shows "sum_list (map (\<lambda>x. size (filter_mset (\<lambda>m. key m = x \<and> Q m) M)) xs) \<le> size (filter_mset Q M)"
proof (induction M)
  case (add m M)
  have "sum_list (map (\<lambda>x. size (filter_mset (\<lambda>m. key m = x \<and> Q m) (add_mset m M))) xs) =
    sum_list (map (\<lambda>x. if key m = x \<and> Q m then 1 else 0) xs) +
    sum_list (map (\<lambda>x. size (filter_mset (\<lambda>m. key m = x \<and> Q m) M)) xs)"
    unfolding sum_list_addf [symmetric] by (intro arg_cong [of _ _ sum_list] map_cong) auto
  moreover have "sum_list (map (\<lambda>x. if key m = x \<and> Q m then 1 else (0::nat)) xs) \<le> (if Q m then 1 else 0)"
    using assms by (induction xs) auto
  ultimately show ?case using add by (cases "Q m") auto
qed simp

lemma fold_pair_le:
  assumes "\<And>x a b. fst (f x (a, b)) \<le> a + (w x :: nat) \<and> snd (f x (a, b)) \<le> b + (v x :: nat)"
  shows "fst (fold f xs ab) \<le> fst ab + sum_list (map w xs) \<and> snd (fold f xs ab) \<le> snd ab + sum_list (map v xs)"
proof (induction xs arbitrary: ab)
  case (Cons x xs)
  have "fst (f x ab) \<le> fst ab + w x" "snd (f x ab) \<le> snd ab + v x"
    using assms [of x "fst ab" "snd ab"] by auto
  with Cons.IH [of "f x ab"] show ?case by (simp add: add.assoc [symmetric])
qed simp

definition maps_at :: "GrantSystem \<Rightarrow> Mfn \<Rightarrow> Mapping \<Rightarrow> bool" where
  "maps_at g f m \<longleftrightarrow> um_frame (gt_released g m) = f"

lemma gt_counts_at:
  assumes ok: "gt_ok g" and f: "gt_granted_frame g d k = Some f"
  shows "count_or_zero (gt_map_count g d k) = gt_tally (\<lambda>m. m_gref m = k \<and> m_grantor m = d \<and> maps_at g f m) (gt_live g)"
    "count_or_zero (gt_writable_map_count g d k) =
       gt_tally (\<lambda>m. m_gref m = k \<and> m_grantor m = d \<and> maps_at g f m \<and> m_writable m) (gt_live g)"
proof -
  from f obtain r ro where off: "gt_offer g d k = Some (r, f, ro)" by (auto simp: gt_granted_frame_iff)
  then obtain n w where e: "gt_get g d k = Some (Access r f ro n w)" by (auto simp: gt_offer_Some)
  have at: "gt_over d k m \<longleftrightarrow> m_gref m = k \<and> m_grantor m = d \<and> maps_at g f m" for m
    using off by (auto simp: gt_over_def maps_at_def gt_released_def)
  show "count_or_zero (gt_map_count g d k) = gt_tally (\<lambda>m. m_gref m = k \<and> m_grantor m = d \<and> maps_at g f m) (gt_live g)"
    using gt_ok_entry(2) [OF ok e] e unfolding at by (simp add: count_or_zero_def gt_map_count_def gt_entry_eq)
  show "count_or_zero (gt_writable_map_count g d k) =
       gt_tally (\<lambda>m. m_gref m = k \<and> m_grantor m = d \<and> maps_at g f m \<and> m_writable m) (gt_live g)"
    using gt_ok_entry(3) [OF ok e] e unfolding at by (simp add: count_or_zero_def gt_writable_map_count_def gt_entry_eq conj_assoc)
qed

lemma sat_add_u32_le: "sat_add_u32 a b \<le> a + b" by (simp add: sat_add_u32_def)

lemma maps_over_frame_le:
  assumes h: "hv_ok h"
  shows "fst (maps_over_frame h f) \<le> gt_tally (maps_at (grant h) f) (gt_live (grant h)) \<and>
    snd (maps_over_frame h f) \<le> gt_tally (\<lambda>m. maps_at (grant h) f m \<and> m_writable m) (gt_live (grant h))"
proof -
  let ?g = "grant h" and ?M = "gt_live (grant h)"
  note ok = hv_okD(3) [OF h]
  let ?w = "\<lambda>d k. gt_tally (\<lambda>m. m_gref m = k \<and> m_grantor m = d \<and> maps_at ?g f m) ?M"
  let ?v = "\<lambda>d k. gt_tally (\<lambda>m. m_gref m = k \<and> m_grantor m = d \<and> maps_at ?g f m \<and> m_writable m) ?M"
  let ?f = "\<lambda>d k (maps, writable).
           if gt_granted_frame ?g d k = Some f
           then (sat_add_u32 maps (count_or_zero (gt_map_count ?g d k)),
                 sat_add_u32 writable (count_or_zero (gt_writable_map_count ?g d k)))
           else (maps, writable)"
  have one: "fst (?f d k (a, b)) \<le> a + ?w d k \<and> snd (?f d k (a, b)) \<le> b + ?v d k" for d k a b
    using gt_counts_at [OF ok, of d k f] by (auto simp: sat_add_u32_le)
  have row: "fst (fold (?f d) ks (a, b)) \<le> a + gt_tally (\<lambda>m. m_grantor m = d \<and> maps_at ?g f m) ?M \<and>
      snd (fold (?f d) ks (a, b)) \<le> b + gt_tally (\<lambda>m. m_grantor m = d \<and> maps_at ?g f m \<and> m_writable m) ?M"
    if "distinct ks" for d ks a b
    using fold_pair_le [of "?f d" "?w d" "?v d" ks "(a, b)"] one
      sum_keyed_le [OF that, of m_gref "\<lambda>m. m_grantor m = d \<and> maps_at ?g f m" ?M]
      sum_keyed_le [OF that, of m_gref "\<lambda>m. m_grantor m = d \<and> maps_at ?g f m \<and> m_writable m" ?M]
    by fastforce
  let ?ds = "[0..<as_u16 (gt_domain_count ?g)]"
  let ?row = "\<lambda>d acc. fold (?f d) [0..<as_u32 (gt_entry_count ?g d)] acc"
  have "fst (fold ?row ?ds (0, 0)) \<le> 0 + sum_list (map (\<lambda>d. gt_tally (\<lambda>m. m_grantor m = d \<and> maps_at ?g f m) ?M) ?ds) \<and>
     snd (fold ?row ?ds (0, 0)) \<le> 0 + sum_list (map (\<lambda>d. gt_tally (\<lambda>m. m_grantor m = d \<and> maps_at ?g f m \<and> m_writable m) ?M) ?ds)"
    using fold_pair_le [of ?row "\<lambda>d. gt_tally (\<lambda>m. m_grantor m = d \<and> maps_at ?g f m) ?M"
        "\<lambda>d. gt_tally (\<lambda>m. m_grantor m = d \<and> maps_at ?g f m \<and> m_writable m) ?M" ?ds "(0, 0)"] row by simp
  moreover have "sum_list (map (\<lambda>d. gt_tally (\<lambda>m. m_grantor m = d \<and> maps_at ?g f m) ?M) ?ds) \<le> gt_tally (maps_at ?g f) ?M"
    by (rule sum_keyed_le) simp
  moreover have "sum_list (map (\<lambda>d. gt_tally (\<lambda>m. m_grantor m = d \<and> maps_at ?g f m \<and> m_writable m) ?M) ?ds)
      \<le> gt_tally (\<lambda>m. maps_at ?g f m \<and> m_writable m) ?M"
    by (rule sum_keyed_le) simp
  ultimately show ?thesis unfolding maps_over_frame_def by linarith
qed

lemma check_grant_maps_Ok:
  assumes h: "hv_ok h" shows "check_grant_maps h = Ok ()"
  unfolding check_grant_maps_def scan_Ok
proof (intro ballI)
  fix d k
  let ?g = "grant h" and ?p = "p2m h"
  note ok = hv_okD(3) [OF h]
  show "(case gt_map_count ?g d k of
             None \<Rightarrow> Ok ()
           | Some m \<Rightarrow>
               if m = 0 then Ok ()
               else
                 (case gt_granted_frame ?g d k of
                    None \<Rightarrow> Panic
                  | Some frame \<Rightarrow>
                      if pm_owner_of ?p frame \<noteq> Some d then Err (MisownedGrantMap d k)
                      else
                        (let (total_maps, total_writable) = maps_over_frame h frame;
                             refs = count_or_zero (pm_refs ?p frame);
                             writable_refs = count_or_zero (pm_type_refs ?p frame PageType.Writable)
                         in if refs < total_maps \<or> writable_refs < total_writable
                            then Err (UnbackedGrantMap d k) else Ok ()))) = Ok ()"
  proof (cases "\<exists>n. gt_map_count ?g d k = Some n \<and> n \<noteq> 0")
    case True
    then obtain r f ro n w where e: "gt_get ?g d k = Some (Access r f ro n w)" "n \<noteq> 0"
      and n: "gt_map_count ?g d k = Some n"
      by (auto simp: gt_map_count_def gt_entry_eq split: option.splits GrantEntry.splits)
    then have f: "gt_granted_frame ?g d k = Some f" by (simp add: gt_granted_frame_def gt_entry_eq)
    have "\<not> gt_idle (gt_live ?g) d k" using gt_ok_entry(2) [OF ok e(1)] e(2) by (metis gt_idle_tally)
    then obtain m where m: "m \<in># gt_live ?g" "gt_over d k m" by (auto simp: gt_idle_def)
    have rel: "um_frame (gt_released ?g m) = f"
      using m(2) e(1) by (simp add: gt_released_def gt_over_def gt_offer_def)
    then have own: "pm_owner_of ?p f = Some d"
      using hv_okD(16) [OF h] m by (auto simp: seam_maps_def gt_over_def)
    then obtain i where i: "pm_info ?p f = Some i" by (auto simp: pm_query_simps)
    have ex: "pm_exact (gt_refs ?g + pm_owed ?p) f i"
      using hv_okD(4) [OF h] i by (simp add: pm_ok_def pm_counts_def)
    have "gt_tally (maps_at ?g f) (gt_live ?g) = pm_total (gt_refs ?g) f"
      by (simp add: pm_total_def gt_refs_def maps_at_def [abs_def] filter_mset_image_mset map_ref_def)
    moreover have "gt_tally (\<lambda>m. maps_at ?g f m \<and> m_writable m) (gt_live ?g) = count (gt_refs ?g) (f, Typed Writable)"
      unfolding count_conv_size_mset gt_refs_def filter_mset_image_mset size_image_mset
      by (intro arg_cong [of _ _ size] filter_mset_cong) (auto simp: maps_at_def map_ref_def gt_released_def)
    ultimately have "fst (maps_over_frame h f) \<le> refs i" "snd (maps_over_frame h f) \<le> writable_refs i"
      using maps_over_frame_le [OF h, of f] ex by (auto simp: pm_exact_def pm_total_def)
    then show ?thesis
      using n e(2) f own i by (simp add: count_or_zero_def pm_query_simps pm_type_refs_def pm_frame_info Let_def case_prod_beta not_less)
  next
    case False
    then show ?thesis by (auto split: option.splits)
  qed
qed

lemma check_wakeups_Ok:
  assumes h: "hv_ok h" shows "check_wakeups h = Ok ()"
  unfolding check_wakeups_def scan_Ok using hv_okD(15) [OF h]
  by (auto simp: seam_wake_def split: option.splits)

lemma check_foreign_links_Ok:
  assumes h: "hv_ok h" shows "check_foreign_links h = Ok ()"
  unfolding check_foreign_links_def scan_Ok using hv_okD(17) [OF h]
  by (auto simp: pm_link_edges_iff seam_links_def split: option.splits)

lemma dead_clean:
  assumes h: "hv_ok h" and d: "dead (life h) d" shows "is_clean_shell h d" "is_unreferenced h d"
proof -
  note ok = hv_okD(1,3) [OF h]
  have ports: "ev_state_of (evtchn h) d p = Some PortState.Free" if p: "p < ev_port_count (evtchn h) d" for p
  proof -
    have "d < ev_domain_count (evtchn h)" using d hv_okD(18,25) [OF h] by (simp add: dead_def vec_get_Some)
    then obtain st where st: "ev_state_of (evtchn h) d p = Some st"
      using p ev_get_range [of "evtchn h" d p] by (auto simp: ev_state_of_eq)
    then show ?thesis using hv_okD(8) [OF h] d unfolding ev_tenants_def by blast
  qed
  have vcpus: "sc_state_of (sched h) d v = Some Offline" if "v < sc_vcpu_count (sched h) d" for v
  proof -
    from that obtain c where c: "sc_get (sched h) d v = Some c"
      by (auto simp: sc_vcpu_count_def sc_get_def tbl_get_def vec_get_def split: if_splits)
    then show ?thesis using hv_okD(9) [OF h] d unfolding sc_tenants_def by (auto simp: sc_state_of_eq)
  qed
  have off1: "gt_offer (grant h) d k = None" for k
    using hv_okD(10) [OF h] d unfolding gt_tenants_def by (metis option.exhaust prod_cases3)
  have off: "gt_offer (grant h) d' k \<noteq> Some (d, f, ro)" for k d' f ro
    using hv_okD(10) [OF h] d unfolding gt_tenants_def by blast
  have nomap: "\<not> gt_holds_any_map (grant h) d"
    unfolding gt_holds_any_iff
  proof
    assume "\<exists>m \<in># gt_live (grant h). m_grantee m = d"
    then obtain m where m: "m \<in># gt_live (grant h)" "m_grantee m = d" by blast
    from gt_ok_live_get [OF ok(2) m(1)] off show False unfolding gt_offer_Some m(2) by blast
  qed
  have noframe: "pm_owner_of (p2m h) m \<noteq> Some d" for m using hv_okD(11) [OF h] d unfolding pm_tenants_def by blast
  have le: "x < n" if "x < as_u32 n" for x n
    using that less_le_trans [OF _ mod_less_eq_dividend] unfolding as_u32_def by blast
  show "is_clean_shell h d"
    unfolding is_clean_shell_def list_all_iff
  proof (intro conjI ballI)
    fix p assume "p \<in> set [0..<as_u32 (ev_port_count (evtchn h) d)]"
    then have "p < as_u32 (ev_port_count (evtchn h) d)" by simp
    from ports [OF le [OF this]] show "ev_state_of (evtchn h) d p = Some PortState.Free" .
  next
    fix v assume "v \<in> set [0..<as_u32 (sc_vcpu_count (sched h) d)]"
    then have "v < as_u32 (sc_vcpu_count (sched h) d)" by simp
    from vcpus [OF le [OF this]] show "sc_state_of (sched h) d v = Some Offline" .
  qed (simp_all add: gt_is_granted_iff off1 nomap noframe)
  have "ev_state_of (evtchn h) d' p \<noteq> Some (Unbound d)" for d' p
    using hv_okD(8) [OF h] d unfolding ev_tenants_def by (metis PortState.distinct(1))
  moreover have "dv_holder_of (device h) dev \<noteq> Some d" for dev
    using hv_okD(12) [OF h] d unfolding dv_tenants_def by blast
  moreover have "gt_fits (grant h)" using ok(2) by (simp add: gt_ok_def)
  ultimately show "is_unreferenced h d"
    using off by (simp add: is_unreferenced_def gt_any_grant_to_iff ev_any_unbound_into_iff [OF ev_okD(1) [OF ok(1)]] dv_any_device_iff)
qed

lemma dead_iff: "hv_ok h \<Longrightarrow> d < hv_domain_count h \<Longrightarrow> \<not> dead (life h) d \<longleftrightarrow> vec_get (life h) d = Some Live"
  using hv_okD(18) [of h] by (cases "life h ! d") (auto simp: dead_def vec_get_def)

lemma check_lifecycle_Ok:
  assumes h: "hv_ok h" shows "check_lifecycle h = Ok ()"
  unfolding check_lifecycle_def scan_Ok
proof
  fix d assume "d \<in> set [0..<as_u16 (hv_domain_count h)]"
  then have d: "d < hv_domain_count h" using hv_okD(23) [OF h] by simp
  show "(case vec_get (life h) d of
         None \<Rightarrow> Panic
       | Some Live \<Rightarrow> Ok ()
       | Some Dead \<Rightarrow>
           if \<not> is_clean_shell h d then Err (DeadDomainNotClean d)
           else if \<not> is_unreferenced h d then Err (DeadDomainReferenced d)
           else (case vec_get (may_create h) d of
                None \<Rightarrow> Panic | Some mc \<Rightarrow> if mc then Err (DeadDomainMayCreate d) else Ok ())) = Ok ()"
  proof (cases "dead (life h) d")
    case True
    have "vec_get (may_create h) d = Some False"
      using hv_okD(13,19) [OF h] True d unfolding mc_tenants_def by (auto simp: vec_get_def)
    then show ?thesis using True dead_clean [OF h True] by (simp add: dead_def)
  next
    case False
    then show ?thesis using dead_iff [OF h d] by simp
  qed
qed

lemma check_endpoints_Ok:
  assumes h: "hv_ok h" shows "check_endpoints h = Ok ()"
  unfolding check_endpoints_def scan_Ok
proof (intro ballI)
  fix a b assume "a \<in> set [0..<as_u16 (hv_domain_count h)]" "b \<in> set [0..<as_u16 (hv_domain_count h)]"
  then have r: "a < hv_domain_count h" "b < hv_domain_count h" using hv_okD(23) [OF h] by simp_all
  have "vec_get (life h) a = Some Live \<and> vec_get (life h) b = Some Live" if "ctl_edge (controls h) a b \<noteq> Absent"
    using that hv_okD(14) [OF h] dead_iff [OF h] r unfolding ctl_tenants_def by blast
  then show "(case tbl_get (controls h) a b of
           None \<Rightarrow> Panic
         | Some c \<Rightarrow>
             if c = Absent then Ok ()
             else (case (vec_get (life h) a, vec_get (life h) b) of
                  (Some x, Some y) \<Rightarrow>
                    if x \<noteq> Live \<or> y \<noteq> Live then Err (ControlEdgeDeadEndpoint a b) else Ok ()
                | _ \<Rightarrow> Panic)) = Ok ()"
    using r by (auto simp: ctl_square_get [OF hv_okD(7) [OF h]])
qed

lemma check_provenance_Ok:
  assumes h: "hv_ok h" shows "check_provenance h = Ok ()"
  unfolding check_provenance_def scan_Ok
proof (intro ballI)
  fix a b assume "a \<in> set [0..<as_u16 (hv_domain_count h)]" "b \<in> set [0..<as_u16 (hv_domain_count h)]"
  then have r: "a < hv_domain_count h" "b < hv_domain_count h" using hv_okD(23) [OF h] by simp_all
  note sq = hv_okD(7) [OF h]
  have "ctl_reaches_root (controls h) b (hv_domain_count h) a = Some True" if e: "ctl_edge (controls h) a b \<noteq> Absent"
  proof -
    from hv_okD(6) [OF h] e obtain k where k: "rooted (controls h) b k a" unfolding ctl_forest_def by blast
    then show ?thesis using rooted_reaches [OF sq k] rooted_bound [OF sq k] by simp
  qed
  then show "(case tbl_get (controls h) a b of
           None \<Rightarrow> Panic
         | Some c \<Rightarrow>
             if c = Absent then Ok ()
             else (case ctl_reaches_root (controls h) b (hv_domain_count h) a of
                  None \<Rightarrow> Panic
                | Some x \<Rightarrow> if x then Ok () else Err (ControlEdgeOrphaned a b))) = Ok ()"
    using r by (auto simp: ctl_square_get [OF sq] simp del: ctl_reaches_root.simps)
qed

lemma hv_ok_checked:
  assumes h: "hv_ok h" shows "first_cross_violation h = Ok ()" "hv_invariants_hold h"
proof -
  show *: "first_cross_violation h = Ok ()"
    unfolding first_cross_violation_def and_then_Ok
    using check_grant_maps_Ok [OF h] check_wakeups_Ok [OF h] check_foreign_links_Ok [OF h] check_lifecycle_Ok [OF h]
      check_endpoints_Ok [OF h] check_provenance_Ok [OF h] by blast
  have "list_all cr_invariants_hold (credit h)"
    using h cr_inv_implies_check by (auto simp: hv_ok_defs list_all_iff)
  then show "hv_invariants_hold h"
    unfolding hv_invariants_hold_def ev_invariants_hold_def gt_invariants_hold_def sc_invariants_hold_def pm_invariants_hold_def
    using * ev_ok_no_violation [OF hv_okD(1) [OF h]] gt_ok_no_violation [OF hv_okD(3) [OF h]]
      sc_no_violation [OF hv_okD(2) [OF h]] pm_ok_no_violation [OF hv_okD(4) [OF h]] by blast
qed

section \<open>A refusal leaves every query as it was\<close>

lemma is_live_facts:
  assumes "hv_ok h" "is_live h d"
  shows "d < hv_domain_count h" "\<not> dead (life h) d" "dispatch h d call = hv_call h d call"
  using assms hv_okD(18) [OF assms(1)]
  by (auto simp: is_live_def dead_def vec_get_def dispatch_def route_def split: if_splits)

lemma not_dead_live: "hv_ok h \<Longrightarrow> d < hv_domain_count h \<Longrightarrow> \<not> dead (life h) d \<Longrightarrow> is_live h d"
  using dead_iff [of h d] by (simp add: is_live_def)

lemma apfst_Err:
  "apfst (map_ok_err f id) rs = (Err e, h') \<Longrightarrow> fst rs = Err e \<and> snd rs = h'"
  by (cases rs; cases "fst rs") auto

lemma hv_apply_refused:
  assumes h: "hv_ok h" and r: "hv_apply h tr = (Err e, h')" shows "hv_same h h'"
proof (cases tr)
  case (Guest d call)
  show ?thesis
  proof (cases "is_live h d \<and> handles_left h d call")
    case True
    then have "hv_good h (hv_call h d call)" using hv_call_good [OF h is_live_facts(1,2) [OF h]] by blast
    moreover have "snd (hv_call h d call) = h'" "fst (hv_call h d call) = Err e"
      using r Guest True is_live_facts(3) [OF h, of d call] by (auto simp: hv_apply_def dest!: apfst_Err)
    ultimately show ?thesis by (simp add: hv_good_def)
  next
    case False
    then have "snd (route h d call) = h"
      using route_cases [OF h, of d call] by (auto simp: handles_left_def grant_map_exhausted)
    then have "h' = h" using r Guest by (auto simp: hv_apply_def dispatch_def dest!: apfst_Err)
    then show ?thesis by simp
  qed
next
  case (RaiseVcpuVirq d v q)
  then show ?thesis
    using raise_vcpu_virq_good [OF h, of d v q] r
    by (auto simp: hv_apply_def hv_good_def dest!: apfst_Err)
qed

end
