(* ===== verification/Hypervisor_Frame.thy ===== *)
theory Hypervisor_Frame
  imports Hypervisor_Inv
begin

text \<open>
  What each hypercall leaves alone: which calls can change the authority relation, the lifecycle
  and the ownership of frames, and how. The confinement properties of the integrated core are
  read off these lemmas.
\<close>

section \<open>Authority and lifecycle\<close>

definition same_authority :: "Hypervisor \<Rightarrow> Hypervisor \<Rightarrow> bool" where
  "same_authority h h' \<longleftrightarrow> life h' = life h \<and> may_create h' = may_create h \<and> controls h' = controls h"

definition lifecycle_call :: "HvCall \<Rightarrow> bool" where
  "lifecycle_call call = (case call of
      DomainCreate _ _ \<Rightarrow> True | DomainDestroy _ _ \<Rightarrow> True | ControlGrant _ _ \<Rightarrow> True | ControlRevoke _ _ \<Rightarrow> True
    | _ \<Rightarrow> False)"

lemma same_authority_refl [simp]: "same_authority h h"
  by (simp add: same_authority_def)

lemma in_parts_authority [yields_intros]:
  "yields (same_authority h) (in_evtchn h f a)" "yields (same_authority h) (in_grant h g b)"
  "yields (same_authority h) (in_sched h c)" "yields (same_authority h) (in_p2m h d)"
  "yields (same_authority h) (in_device h e)"
  by (simp_all add: yields_def same_authority_def in_evtchn_def in_grant_def in_sched_def in_p2m_def in_device_def)

lemma wake_authority:
  "wake_if_deliverable h d p = Some h' \<Longrightarrow> same_authority h h'"
  by (auto simp: wake_if_deliverable_def same_authority_def split: if_splits option.splits prod.splits result.splits)

lemma wake_yields:
  assumes "same_authority h h1"
  shows "yields (same_authority h) (or_panic h1 (wake_if_deliverable h1 d p) (\<lambda>h2. (Ok (f h2), h2)))"
  using assms wake_authority [of h1 d p]
  by (cases "wake_if_deliverable h1 d p") (auto simp: yields_def same_authority_def)

lemma signal_authority:
  "yields (same_authority h) (evtchn_send h d p)" "yields (same_authority h) (evtchn_unmask h d p)"
  "yields (same_authority h) (raise_vcpu_virq h d v q)"
proof -
  have *: "same_authority h (h\<lparr>evtchn := e\<rparr>)" for e by (simp add: same_authority_def)
  show "yields (same_authority h) (evtchn_send h d p)"
    using wake_yields [OF *, of _ _ _ "\<lambda>_. Done"]
    by (auto simp: evtchn_send_def Let_def * intro!: yields_pair split: prod.splits result.splits option.splits)
  show "yields (same_authority h) (evtchn_unmask h d p)"
    using wake_yields [OF *, of _ _ _ "\<lambda>_. Done"]
    by (auto simp: evtchn_unmask_def Let_def * intro!: yields_pair split: prod.splits result.splits)
  show "yields (same_authority h) (raise_vcpu_virq h d v q)"
    using wake_yields [OF *]
    by (auto simp: raise_vcpu_virq_def Let_def * intro!: yields_pair split: prod.splits result.splits)
qed

lemma memory_authority:
  "yields (same_authority h) (grant_map h d r k w)" "yields (same_authority h) (grant_unmap h d hn)"
proof -
  have *: "same_authority h (h\<lparr>grant := g\<rparr>)" "same_authority h (h\<lparr>grant := g, p2m := p\<rparr>)" for g p
    by (simp_all add: same_authority_def)
  show "yields (same_authority h) (grant_map h d r k w)"
    unfolding grant_map_def
    by (intro yields_intros) (auto simp: * intro!: yields_pair split: prod.splits result.splits)
  show "yields (same_authority h) (grant_unmap h d hn)"
    unfolding grant_unmap_def
    by (auto simp: * or_panic_def intro!: yields_pair split: prod.splits result.splits option.splits)
qed

lemma need_control_yields: "K h \<Longrightarrow> yields K k \<Longrightarrow> yields K (need_control h d t k)"
  unfolding need_control_def by (intro yields_intros) auto

lemma credit_authority: "yields (same_authority h) (in_credit h d op)"
  unfolding in_credit_def
  by (intro yields_intros) (simp_all add: same_authority_def yields_def split: prod.splits)

lemma guarded_authority:
  "yields (same_authority h) (p2m_link h d pa sl ch wr lf ex)" "yields (same_authority h) (grant_copy h d r k w)"
  "yields (same_authority h) (sched_set_affinity h d t v m)" "yields (same_authority h) (grant_end_access h d k)"
  "yields (same_authority h) (sched_block h d v now)" "yields (same_authority h) (device_assign h d dev t)"
  "yields (same_authority h) (device_release h d dev t)"
  unfolding p2m_link_def grant_copy_def sched_set_affinity_def grant_end_access_def sched_block_def device_assign_def
    device_release_def Let_def
  by (intro yields_intros need_control_yields; simp)+

lemma hv_call_authority:
  assumes "\<not> lifecycle_call call" shows "same_authority h (snd (hv_call h d call))"
proof -
  have "yields (same_authority h) (hv_call h d call)"
    using assms signal_authority memory_authority guarded_authority credit_authority
    by (cases call) (auto simp: lifecycle_call_def intro!: yields_intros)
  then show ?thesis by (simp add: yields_def)
qed

lemma control_edge_eq: "control_edge h a b = ctl_edge (controls h) a b"
  by (auto simp: control_edge_def ctl_edge_def tbl_get_def vec_get_def)

lemma hv_controls_eq: "hv_controls h a b \<longleftrightarrow> ctl_edge (controls h) a b \<noteq> Absent"
  by (simp add: hv_controls_def control_edge_eq)

lemma hv_may_create_eq: "hv_may_create h d \<longleftrightarrow> vec_get (may_create h) d = Some True"
  by (auto simp: hv_may_create_def split: option.splits)

text \<open>The guard \<open>need_control\<close> on states of the invariant.\<close>

lemma need_control_eq:
  assumes h: "hv_ok h" and r: "d < hv_domain_count h" "t < hv_domain_count h"
  shows "need_control h d t k = (if hv_controls h d t then k else (Err Denied, h))"
  using r by (simp add: need_control_def ctl_square_get [OF hv_okD(7) [OF h]] hv_controls_eq)

lemma control_grant_cases:
  assumes h: "hv_ok h" and d: "d < hv_domain_count h"
  shows "control_grant h d t to =
     (if hv_domain_count h \<le> t \<or> hv_domain_count h \<le> to then (Err HvError.BadDomain, h)
      else if \<not> hv_controls h d t \<or> to = t then (Err Denied, h)
      else if \<not> is_live h to then (Err NotAlive, h)
      else if hv_controls h to t then (Ok Done, h)
      else (Ok Done, h\<lparr>controls := tbl_set (controls h) to t (Via d)\<rparr>))"
proof (cases "t < hv_domain_count h \<and> to < hv_domain_count h")
  case True
  note sq = hv_okD(7) [OF h]
  show ?thesis
    unfolding control_grant_def
    using True d hv_okD(18) [OF h]
    by (simp add: need_control_eq [OF h] vec_get_def is_live_def ctl_square_get [OF sq] ctl_set_Some [OF sq] hv_controls_eq)
next
  case False
  then show ?thesis by (auto simp: control_grant_def)
qed

lemma control_revoke_cases:
  assumes h: "hv_ok h" and d: "d < hv_domain_count h"
  shows "if t < hv_domain_count h \<and> frm < hv_domain_count h \<and> hv_controls h d t \<and> descends (controls h) t d frm
     then (\<exists>c. control_revoke h d t frm = (Ok Done, h\<lparr>controls := c\<rparr>) \<and> ctl_square (hv_domain_count h) c \<and> ctl_forest c \<and>
        ctl_below (controls h) c \<and>
        (\<forall>a b. ctl_edge c a b \<noteq> Absent \<longleftrightarrow> (\<exists>k. rooted (tbl_set (controls h) frm t Absent) b k a)))
     else control_revoke h d t frm =
        (Err (if t < hv_domain_count h \<and> frm < hv_domain_count h then Denied else HvError.BadDomain), h)"
proof (cases "t < hv_domain_count h \<and> frm < hv_domain_count h")
  case r: True
  let ?n = "hv_domain_count h" and ?c = "controls h"
  note sq = hv_okD(7) [OF h] and f = hv_okD(6) [OF h]
  show ?thesis
  proof (cases "hv_controls h d t")
    case True
    have sub: "control_subtree_contains ?n ?c d frm t = Some (descends ?c t d frm)"
    proof (cases "ctl_edge ?c frm t = Absent")
      case absent: True
      then have "frm \<noteq> d" using True by (auto simp: hv_controls_eq)
      moreover from this absent have "\<not> descends ?c t d frm" by (auto elim: descends.cases)
      ultimately show ?thesis
        using absent r by (simp add: control_subtree_contains_def ctl_square_get [OF sq])
    next
      case False
      then show ?thesis using control_subtree_contains_iff [OF sq f] r by blast
    qed
    from r have r': "frm < ?n" "t < ?n" by auto
    from sweep_restores [OF f sq ctl_square_set [OF sq] ctl_below_drop [OF sq r']] obtain c where
      c: "sweep_orphaned_control_edges ?n (tbl_set ?c frm t Absent) = Some c" "ctl_square ?n c" "ctl_forest c"
        "ctl_below (tbl_set ?c frm t Absent) c"
        "\<And>a b. ctl_edge c a b \<noteq> Absent \<longleftrightarrow> (\<exists>k. rooted (tbl_set ?c frm t Absent) b k a)" by blast
    have "control_revoke h d t frm = (if descends ?c t d frm then (Ok Done, h\<lparr>controls := c\<rparr>) else (Err Denied, h))"
      using r True d by (simp add: control_revoke_def need_control_eq [OF h] sub ctl_set_Some [OF sq] c(1))
    then show ?thesis
      using r True c ctl_below_trans [OF ctl_below_drop [OF sq r'] c(4)] by auto
  next
    case False
    then show ?thesis using r d by (auto simp: control_revoke_def need_control_eq [OF h])
  qed
qed (auto simp: control_revoke_def)

lemma domain_create_cases:
  assumes h: "hv_ok h" and d: "d < hv_domain_count h"
  shows "domain_create h d t may =
     (if hv_domain_count h \<le> t then (Err HvError.BadDomain, h)
      else if \<not> hv_may_create h d then (Err Denied, h)
      else if is_live h t then (Err AlreadyAlive, h)
      else (Ok Done, h\<lparr>life := (life h)[t := Live], may_create := (may_create h)[t := may],
              controls := tbl_set (controls h) d t Root\<rparr>))"
proof (cases "t < hv_domain_count h")
  case True
  note sq = hv_okD(7) [OF h]
  show ?thesis
    unfolding domain_create_def Let_def using True d hv_okD(18,19) [OF h]
    by (cases "life h ! t") (simp_all add: vec_get_def is_live_def hv_may_create_eq ctl_set_Some [OF sq])
qed (simp add: domain_create_def)

lemma domain_destroy_cases:
  assumes h: "hv_ok h" and d: "d < hv_domain_count h"
  shows "if t < hv_domain_count h \<and> (d = t \<or> hv_controls h d t)
     then (\<exists>h'. domain_destroy h d t now = (Ok Done, h') \<and> destroyed t h h')
     else domain_destroy h d t now = (Err (if t < hv_domain_count h then Denied else HvError.BadDomain), h)"
proof (cases "t < hv_domain_count h")
  case True
  from destroy_effect [OF h True, of now] obtain h1 h2 where
    "destroy_resources h t now = Some h1" "destroy_authority h1 t = Some h2" "destroyed t h h2" by blast
  then show ?thesis
    using True d by (auto simp: domain_destroy_def Let_def need_control_eq [OF h])
qed (simp add: domain_destroy_def)

section \<open>Ownership of frames\<close>

definition same_owners :: "P2mSystem \<Rightarrow> P2mSystem \<Rightarrow> bool" where
  "same_owners p p' \<longleftrightarrow> (\<forall>m. pm_owner_of p' m = pm_owner_of p m)"

lemma same_owners_refl [simp]: "same_owners p p"
  by (simp add: same_owners_def)

lemma pm_keeps_owners: "pm_keeps p p' \<Longrightarrow> same_owners p p'"
  by (simp add: same_owners_def pm_keeps_owner)

lemma pm_mut_owners: "pm_info p m = Some i \<Longrightarrow> owner i' = owner i \<Longrightarrow> same_owners p (pm_frame_mut p m i')"
  by (simp add: same_owners_def pm_query_simps pm_info_mut)

lemma pm_calls_owners:
  assumes ok: "pm_ok H p"
  shows "same_owners p (snd (pm_pin p d m lvl))" "same_owners p (snd (pm_unpin p d m))"
    "same_owners p (snd (pm_link p d pa sl ch wr lf ex))" "same_owners p (snd (pm_unlink p d m k))"
    "same_owners p (snd (p2m_acquire p m w))"
proof -
  show "same_owners p (snd (pm_pin p d m lvl))"
    using pm_pin_effect [OF ok, of d m lvl] by (auto intro: pm_mut_owners)
  show "same_owners p (snd (pm_unpin p d m))"
    using pm_unpin_effect [OF ok, of m d] by (auto intro: pm_mut_owners split: if_splits)
  show "same_owners p (snd (pm_link p d pa sl ch wr lf ex))"
    using pm_link_effect [OF ok, of d pa sl ch wr lf ex]
    by (auto intro: pm_keeps_owners split: prod.splits result.splits)
  show "same_owners p (snd (pm_unlink p d m k))"
  proof (cases "\<exists>i. pm_info p m = Some i \<and> owner i = d \<and> pm_link_index p m k \<noteq> None")
    case True
    then obtain i j where i: "pm_info p m = Some i" "owner i = d" "pm_link_index p m k = Some j" by blast
    from pm_unlink_effect [OF ok i refl] show ?thesis by (auto intro: pm_keeps_owners)
  next
    case False
    from pm_unlink_refused [OF this] show ?thesis by auto
  qed
  show "same_owners p (snd (p2m_acquire p m w))"
    using pm_acquire_frame(1) [of p m "if w then Typed Writable else Bare"]
      pm_acquire_refused [of p m "if w then Typed Writable else Bare"]
    unfolding p2m_acquire_eq
    by (cases "pm_acquire_child p m (if w then Typed Writable else Bare)"; cases "fst (pm_acquire_child p m (if w then Typed Writable else Bare))")
      (auto intro: pm_keeps_owners)
qed

definition ownership_call :: "HvCall \<Rightarrow> bool" where
  "ownership_call call = (case call of P2mAllocate _ \<Rightarrow> True | P2mFree _ \<Rightarrow> True | DomainDestroy _ _ \<Rightarrow> True | _ \<Rightarrow> False)"

abbreviation keeps_owners :: "Hypervisor \<Rightarrow> Hypervisor \<Rightarrow> bool" where
  "keeps_owners h h' \<equiv> same_owners (p2m h) (p2m h')"

lemma in_parts_owners:
  "yields (keeps_owners h) (in_evtchn h f a)" "yields (keeps_owners h) (in_grant h g b)"
  "yields (keeps_owners h) (in_sched h c)" "yields (keeps_owners h) (in_device h e)"
  "yields (keeps_owners h) (in_credit h d op)"
  by (simp_all add: yields_def in_evtchn_def in_grant_def in_sched_def in_device_def in_credit_def propagate_def
      split: result.splits prod.splits)

lemma in_p2m_owners: "same_owners (p2m h) (snd rs) \<Longrightarrow> yields (keeps_owners h) (in_p2m h rs)"
  by (simp add: yields_def in_p2m_def)

lemma wake_p2m: "wake_if_deliverable h d p = Some h' \<Longrightarrow> p2m h' = p2m h"
  by (auto simp: wake_if_deliverable_def split: if_splits option.splits prod.splits result.splits)

lemma signal_owners:
  "yields (keeps_owners h) (evtchn_send h d p)" "yields (keeps_owners h) (evtchn_unmask h d p)"
  "yields (keeps_owners h) (raise_vcpu_virq h d v q)"
  by (auto simp: evtchn_send_def evtchn_unmask_def raise_vcpu_virq_def Let_def yields_def or_panic_def
      split: prod.splits result.splits option.splits dest: wake_p2m)

lemma guarded_owners:
  "yields (keeps_owners h) (grant_copy h d r k w)"
  "yields (keeps_owners h) (sched_set_affinity h d t v m)" "yields (keeps_owners h) (grant_end_access h d k)"
  "yields (keeps_owners h) (sched_block h d v now)" "yields (keeps_owners h) (device_assign h d dev t)"
  "yields (keeps_owners h) (device_release h d dev t)"
  unfolding grant_copy_def sched_set_affinity_def grant_end_access_def sched_block_def device_assign_def
    device_release_def Let_def
  by (intro yields_intros need_control_yields in_parts_owners; simp)+

lemma lifecycle_owners:
  "yields (keeps_owners h) (domain_create h d t may)" "yields (keeps_owners h) (control_grant h d t to)"
  "yields (keeps_owners h) (control_revoke h d t to)"
  unfolding domain_create_def control_grant_def control_revoke_def Let_def
  by (intro yields_intros need_control_yields; simp)+

lemma memory_owners:
  assumes h: "hv_ok h"
  shows "yields (keeps_owners h) (grant_map h d r k w)" "yields (keeps_owners h) (grant_unmap h d hn)"
    "yields (keeps_owners h) (p2m_link h d pa sl ch wr lf ex)"
proof -
  note pok = hv_okD(4) [OF h]
  note acq = pm_calls_owners(5) [OF pok]
  show "yields (keeps_owners h) (grant_map h d r k w)"
    unfolding grant_map_def
  proof (intro yields_intros)
    fix f
    have "same_owners (p2m h) p1" if "p2m_acquire (p2m h) f w = (x, p1)" for x p1 using acq [of f w] that by simp
    then show "yields (keeps_owners h)
      (case gt_map (grant h) d r k w of
          (Ok handle, g1) \<Rightarrow>
            (case p2m_acquire (p2m h) f w of
               (Ok _, m1) \<Rightarrow> (Ok (Handle handle), h\<lparr>grant := g1, p2m := m1\<rparr>)
             | (Err e, m1) \<Rightarrow>
                 (case gt_unmap g1 d handle of
                    (Panic, g2) \<Rightarrow> (Panic, h\<lparr>grant := g2, p2m := m1\<rparr>)
                  | (_, g2) \<Rightarrow> (Err (P2m e), h\<lparr>grant := g2, p2m := m1\<rparr>))
             | (Panic, m1) \<Rightarrow> (Panic, h\<lparr>grant := g1, p2m := m1\<rparr>))
        | (Err e, g1) \<Rightarrow> (Err (Grant e), h\<lparr>grant := g1\<rparr>)
        | (Panic, g1) \<Rightarrow> (Panic, h\<lparr>grant := g1\<rparr>))"
      by (auto simp: yields_def split: prod.splits result.splits)
  qed simp_all
  show "yields (keeps_owners h) (grant_unmap h d hn)"
  proof (cases "\<exists>m \<in># gt_live (grant h). gt_named d hn m")
    case True
    from gt_unmap_Ok [OF hv_okD(3) [OF h] True] obtain m f ro g1 where
      g1: "gt_unmap (grant h) d hn = (Ok \<lparr>um_frame = f, um_writable = m_writable m\<rparr>, g1)" "gt_live (grant h) = add_mset m (gt_live g1)"
        "gt_offer (grant h) (m_grantor m) (m_gref m) = Some (d, f, ro)" by blast
    have rel: "gt_released (grant h) m = \<lparr>um_frame = f, um_writable = m_writable m\<rparr>" using g1(3) by (simp add: gt_released_def)
    have "map_ref (gt_released (grant h) m) \<in># gt_refs (grant h)" by (simp add: gt_refs_def g1(2))
    from p2m_mirror_effect [OF pok this] obtain p' where "p2m_mirror (p2m h) (gt_released (grant h) m) = Some p'" "pm_keeps (p2m h) p'"
      by blast
    then show ?thesis using g1(1) by (simp add: grant_unmap_def rel yields_def pm_keeps_owners)
  next
    case False
    then show ?thesis using gt_unmap_Err [of "grant h" d hn] by (simp add: grant_unmap_def yields_def)
  qed
  show "yields (keeps_owners h) (p2m_link h d pa sl ch wr lf ex)"
    using pm_calls_owners(3) [OF pok] by (simp add: p2m_link_def yields_def in_p2m_def)
qed

lemma hv_call_owners:
  assumes h: "hv_ok h" and "\<not> ownership_call call" shows "keeps_owners h (snd (hv_call h d call))"
proof -
  note pok = hv_okD(4) [OF h]
  have "yields (keeps_owners h) (hv_call h d call)"
    using assms(2)
    by (cases call) (auto simp: ownership_call_def intro!: yields_propagate in_parts_owners in_p2m_owners signal_owners
      memory_owners [OF h] guarded_owners lifecycle_owners pm_calls_owners [OF pok])
  then show ?thesis by (simp add: yields_def)
qed

lemma pm_allocate_owner:
  "pm_owner_of (snd (pm_allocate p d m)) m' \<noteq> pm_owner_of p m' \<Longrightarrow>
     m' = m \<and> pm_owner_of p m = None \<and> pm_owner_of (snd (pm_allocate p d m)) m = Some d"
  by (auto simp: pm_allocate_def propagate_def pm_frame_eq pm_frame_mut_def pm_query_simps pm_info_set_frame pm_info_None
      split: if_splits result.splits)

lemma pm_free_owner:
  "pm_owner_of (snd (pm_free p d m)) m' \<noteq> pm_owner_of p m' \<Longrightarrow>
     m' = m \<and> pm_owner_of p m = Some d \<and> pm_owner_of (snd (pm_free p d m)) m = None"
  by (auto simp: pm_free_eq pm_query_simps pm_info_set_frame split: option.splits if_splits)

end
