(* ===== verification/Words.thy ===== *)
theory Words
  imports HV_Prelude
begin

text \<open>
  The machine words of the address and register arithmetic. The partition, the device models and
  the page-table encoders compute on \<open>u64\<close>, \<open>u32\<close> and \<open>u16\<close> values: a value is an
  Isabelle word, \<open>+\<close> and \<open>*\<close> wrap as they do in a release build, \<open>checked_add\<close> and
  \<open>checked_mul\<close> return \<open>None\<close> instead, and a register field is a shift and a mask.
\<close>

unbundle bit_operations_syntax

named_theorems field_simps_w \<open>reading a field of an assembled register value\<close>

type_synonym u64 = "64 word"
type_synonym u32 = "32 word"
type_synonym u16 = "16 word"
type_synonym u8 = "8 word"

section \<open>Checked arithmetic\<close>

definition checked_add :: "'a::len word \<Rightarrow> 'a word \<Rightarrow> 'a word option" where
  "checked_add a b = (if unat a + unat b < 2 ^ LENGTH('a) then Some (a + b) else None)"

definition checked_mul :: "'a::len word \<Rightarrow> 'a word \<Rightarrow> 'a word option" where
  "checked_mul a b = (if unat a * unat b < 2 ^ LENGTH('a) then Some (a * b) else None)"

definition checked_sub :: "'a::len word \<Rightarrow> 'a word \<Rightarrow> 'a word option" where
  "checked_sub a b = (if b \<le> a then Some (a - b) else None)"

lemma unat_add_exact: "unat a + unat b < 2 ^ LENGTH('a) \<Longrightarrow> unat (a + b) = unat a + unat (b :: 'a::len word)"
  using unat_add_lem by blast

lemma unat_mult_exact: "unat a * unat b < 2 ^ LENGTH('a) \<Longrightarrow> unat (a * b) = unat a * unat (b :: 'a::len word)"
  using unat_mult_lem by blast

lemma unat_inc: "a < b \<Longrightarrow> unat (a + 1) = Suc (unat (a :: 'a::len word))"
proof -
  assume "a < b"
  then have "unat a < unat b" by (simp add: word_less_nat_alt)
  then have "Suc (unat a) < 2 ^ LENGTH('a)" using unsigned_less [of b, where ?'a = nat] by linarith
  then show ?thesis by (simp add: unat_word_ariths)
qed

lemma unat_add_lt: "unat (a + b) \<le> unat a + unat (b :: 'a::len word)"
  by (simp add: unat_word_ariths)

lemma checked_add_Some:
  "checked_add a b = Some c \<longleftrightarrow> unat a + unat b < 2 ^ LENGTH('a) \<and> c = a + (b :: 'a::len word)"
  by (auto simp: checked_add_def)

lemma checked_mul_Some:
  "checked_mul a b = Some c \<longleftrightarrow> unat a * unat b < 2 ^ LENGTH('a) \<and> c = a * (b :: 'a::len word)"
  by (auto simp: checked_mul_def)

lemma checked_add_unat: "checked_add a b = Some c \<Longrightarrow> unat c = unat a + unat (b :: 'a::len word)"
  by (auto simp: checked_add_Some unat_add_exact)

lemma checked_mul_unat: "checked_mul a b = Some c \<Longrightarrow> unat c = unat a * unat (b :: 'a::len word)"
  by (auto simp: checked_mul_Some unat_mult_exact)

lemma checked_sub_unat: "checked_sub a b = Some c \<Longrightarrow> unat c = unat a - unat b \<and> b \<le> (a :: 'a::len word)"
  by (auto simp: checked_sub_def unat_sub split: if_splits)

text \<open>A \<open>while i < n\<close> loop over a word counter that returns at the first index it accepts.\<close>

function find_from :: "('a::len word \<Rightarrow> bool) \<Rightarrow> 'a word \<Rightarrow> 'a word \<Rightarrow> 'a word option" where
  "find_from P n i = (if i < n then (if P i then Some i else find_from P n (i + 1)) else None)"
  by pat_completeness auto
termination
  by (relation "measure (\<lambda>(P, n, i). unat n - unat i)") (auto simp: unat_inc word_less_nat_alt)

declare find_from.simps [simp del]

lemma find_from_Some:
  "find_from P n i = Some j \<Longrightarrow> P j \<and> j < n \<and> i \<le> j \<and> (\<forall>k. i \<le> k \<and> k < j \<longrightarrow> \<not> P k)"
proof (induction P n i rule: find_from.induct)
  case (1 P n i)
  show ?case
  proof (cases "i < n \<and> \<not> P i")
    case True
    then have "find_from P n (i + 1) = Some j" using "1.prems" by (subst (asm) find_from.simps) simp
    with 1 True have *: "P j \<and> j < n \<and> i + 1 \<le> j \<and> (\<forall>k. i + 1 \<le> k \<and> k < j \<longrightarrow> \<not> P k)" by blast
    have i: "unat (i + 1) = Suc (unat i)" using True unat_inc by blast
    have "i < j" using * i by (simp add: word_le_nat_alt word_less_nat_alt)
    moreover have "\<not> P k" if "i \<le> k" "k < j" for k
    proof (cases "k = i")
      case False
      then have "i + 1 \<le> k" using that i by (simp add: word_le_nat_alt) (metis le_SucE le_antisym not_less_eq_eq word_unat_eq_iff)
      with * that show ?thesis by blast
    qed (use True in blast)
    ultimately show ?thesis using * by auto
  next
    case False
    then show ?thesis using "1.prems" by (subst (asm) (1) find_from.simps) (auto split: if_splits)
  qed
qed

lemma find_from_None: "find_from P n i = None \<Longrightarrow> i \<le> k \<Longrightarrow> k < n \<Longrightarrow> \<not> P k"
proof (induction P n i rule: find_from.induct)
  case (1 P n i)
  then have lt: "i < n" and np: "\<not> P i" and rest: "find_from P n (i + 1) = None"
    by (metis find_from.simps option.distinct(1) order_le_less_trans)+
  show ?case
  proof (cases "k = i")
    case False
    have "unat (i + 1) = Suc (unat i)" using lt unat_inc by blast
    then have "i + 1 \<le> k" using False "1.prems"(2)
      by (simp add: word_le_nat_alt) (metis le_SucE le_antisym not_less_eq_eq word_unat_eq_iff)
    with 1 lt np rest show ?thesis by blast
  qed (use np in blast)
qed

lemma find_from_0_None_iff: "find_from P n 0 = None \<longleftrightarrow> (\<forall>k < n. \<not> P k)"
  using find_from_None [of P n 0] find_from_Some [of P n 0] by (metis not_None_eq word_zero_le)

section \<open>Register fields\<close>

definition field_mask :: "nat \<Rightarrow> nat \<Rightarrow> u64" where
  "field_mask shift bits = push_bit shift (push_bit bits 1 - 1)"

definition field :: "u64 \<Rightarrow> nat \<Rightarrow> nat \<Rightarrow> u64" where
  "field v shift bits = drop_bit shift v AND (push_bit bits 1 - 1)"

lemma low_mask: "push_bit n 1 - 1 = (mask n :: 'a::len word)"
  by (simp add: mask_eq_exp_minus_1)

lemma bit_low_mask: "bit (push_bit n 1 - 1 :: 'a::len word) i \<longleftrightarrow> i < n \<and> i < LENGTH('a)"
  unfolding low_mask by (auto simp: bit_mask_iff)

lemma field_take: "field v shift bits = take_bit bits (drop_bit shift v)"
  unfolding field_def low_mask by (simp add: take_bit_eq_mask)

lemma bit_field: "bit (field v s b) i \<longleftrightarrow> i < b \<and> bit v (s + i)"
  by (auto simp: field_take bit_take_bit_iff bit_drop_bit_eq)

lemma bit_field_mask: "bit (field_mask s b) i \<longleftrightarrow> s \<le> i \<and> i < s + b \<and> i < 64"
  unfolding field_mask_def low_mask by (auto simp: bit_push_bit_iff bit_mask_iff)

lemma field_less: "unat (field v s b) < 2 ^ b"
  by (simp add: field_take unsigned_take_bit_eq take_bit_nat_less_exp)

text \<open>A single bit, and single-bit tests.\<close>

lemma bit_one_at: "bit (push_bit k 1 :: 'a::len word) n \<longleftrightarrow> n = k \<and> k < LENGTH('a)"
  by (auto simp: bit_exp_iff)

lemma and_single_bit: "k < LENGTH('a) \<Longrightarrow> v AND push_bit k 1 \<noteq> 0 \<longleftrightarrow> bit (v :: 'a::len word) k"
  by (metis (no_types, lifting) and_exp_eq_0_iff_not_bit push_bit_of_1)

lemma bit_high: "LENGTH('a) \<le> n \<Longrightarrow> \<not> bit (v :: 'a::len word) n"
  using bit_imp_le_length [of v n] by auto

end
