(* ===== verification/Partition.thy ===== *)
theory Partition
  imports Words
begin

text \<open>
  The partition of the machine among guest slots (\<open>hv-part/src/lib.rs\<close>): each slot's window of
  guest addresses, its run of model frames, its run of table frames and its domain identifier, all
  derived from one record by 64-bit arithmetic. The arithmetic wraps as it does in the code;
  that it does not wrap for a well-formed partition is proved here and not assumed.

  The three slot-indexed families (windows, frames, tables) are instances of one interface, the
  locale \<open>runs\<close>: a family of half-open runs at a fixed stride.
\<close>

section \<open>Model\<close>

definition DOM0 :: u16 where "DOM0 = 0"

definition window_len_from :: "u64 \<Rightarrow> u64 \<Rightarrow> u64" where
  "window_len_from n_frames frame_bytes = n_frames * frame_bytes"

record partition =
  num_guests :: u64
  frames_per_guest :: u64
  window_len :: u64
  ram_base :: u64
  ram_end :: u64
  num_sup_frames :: u64
  tables_per_guest :: u64
  vcpus_per_guest :: u64

definition exact_halving :: "partition \<Rightarrow> bool" where
  "exact_halving p = (case checked_mul (num_guests p) (frames_per_guest p) of
     Some f \<Rightarrow> f = num_sup_frames p
   | None \<Rightarrow> False)"

definition window_fits :: "partition \<Rightarrow> bool" where
  "window_fits p = (case checked_mul (num_guests p) (window_len p) of
     None \<Rightarrow> False
   | Some span \<Rightarrow> (case checked_add (ram_base p) span of
       Some e \<Rightarrow> e \<le> ram_end p
     | None \<Rightarrow> False))"

definition tables_fit :: "partition \<Rightarrow> bool" where
  "tables_fit p = (case checked_mul (num_guests p) (tables_per_guest p) of
     None \<Rightarrow> False
   | Some t \<Rightarrow> checked_add (num_sup_frames p) t \<noteq> None)"

definition is_well_formed :: "partition \<Rightarrow> bool" where
  "is_well_formed p \<longleftrightarrow>
     num_guests p > 0 \<and> num_guests p < 65535 \<and> frames_per_guest p > 0 \<and> window_len p > 0 \<and>
     vcpus_per_guest p > 0 \<and> exact_halving p \<and> window_fits p \<and> tables_fit p"

definition has_slot :: "partition \<Rightarrow> u64 \<Rightarrow> bool" where
  "has_slot p slot \<longleftrightarrow> slot < num_guests p"

definition first_frame :: "partition \<Rightarrow> u64 \<Rightarrow> u64" where
  "first_frame p slot = slot * frames_per_guest p"

definition frames_end :: "partition \<Rightarrow> u64 \<Rightarrow> u64" where
  "frames_end p slot = first_frame p slot + frames_per_guest p"

definition first_table :: "partition \<Rightarrow> u64 \<Rightarrow> u64" where
  "first_table p slot = num_sup_frames p + slot * tables_per_guest p"

definition tables_end :: "partition \<Rightarrow> u64 \<Rightarrow> u64" where
  "tables_end p slot = first_table p slot + tables_per_guest p"

definition window_base :: "partition \<Rightarrow> u64 \<Rightarrow> u64" where
  "window_base p slot = ram_base p + slot * window_len p"

definition window_end :: "partition \<Rightarrow> u64 \<Rightarrow> u64" where
  "window_end p slot = window_base p slot + window_len p"

definition window_contains :: "partition \<Rightarrow> u64 \<Rightarrow> u64 \<Rightarrow> bool" where
  "window_contains p slot ipa \<longleftrightarrow> window_base p slot \<le> ipa \<and> ipa < window_end p slot"

definition owner_of :: "partition \<Rightarrow> u64 \<Rightarrow> u64 option" where
  "owner_of p ipa = find_from (\<lambda>slot. window_contains p slot ipa) (num_guests p) 0"

definition dom_of :: "partition \<Rightarrow> u64 \<Rightarrow> u16" where
  "dom_of p slot = ucast slot + 1"

definition in_window :: "partition \<Rightarrow> u64 \<Rightarrow> u64 \<Rightarrow> u64 option" where
  "in_window p slot off =
     (if \<not> has_slot p slot \<or> off \<ge> window_len p then None else Some (window_base p slot + off))"

definition window_top :: "partition \<Rightarrow> u64 \<Rightarrow> u64 \<Rightarrow> u64 option" where
  "window_top p slot len =
     (if \<not> has_slot p slot \<or> len = 0 \<or> len > window_len p then None
      else Some (window_end p slot - len))"

definition windows_in_range :: "partition \<Rightarrow> bool" where
  "windows_in_range p \<longleftrightarrow> find_from (\<lambda>slot. window_end p slot > ram_end p) (num_guests p) 0 = None"

definition windows_disjoint :: "partition \<Rightarrow> bool" where
  "windows_disjoint p \<longleftrightarrow> find_from (\<lambda>a.
     find_from (\<lambda>b. window_base p a < window_end p b \<and> window_base p b < window_end p a)
       (num_guests p) (a + 1) \<noteq> None) (num_guests p) 0 = None"

definition frames_disjoint :: "partition \<Rightarrow> bool" where
  "frames_disjoint p \<longleftrightarrow> find_from (\<lambda>a. first_table p a < num_sup_frames p \<or>
     find_from (\<lambda>b. (first_frame p a < frames_end p b \<and> first_frame p b < frames_end p a) \<or>
                    (first_table p a < tables_end p b \<and> first_table p b < tables_end p a))
       (num_guests p) (a + 1) \<noteq> None) (num_guests p) 0 = None"

section \<open>Runs at a fixed stride\<close>

locale runs =
  fixes ok :: "'p \<Rightarrow> bool" and count :: "'p \<Rightarrow> u64"
    and first past :: "'p \<Rightarrow> u64 \<Rightarrow> u64" and origin stride :: "'p \<Rightarrow> nat"
  assumes first_at: "ok p \<Longrightarrow> s < count p \<Longrightarrow> unat (first p s) = origin p + unat s * stride p"
    and past_at: "ok p \<Longrightarrow> s < count p \<Longrightarrow> unat (past p s) = origin p + unat s * stride p + stride p"
begin

lemma ordered:
  assumes "ok p" "b < count p" "a < b" shows "past p a \<le> first p b"
proof -
  have "Suc (unat a) * stride p \<le> unat b * stride p"
    using assms(3) by (intro mult_le_mono1) (simp add: word_less_nat_alt)
  then show ?thesis
    using first_at [OF assms(1,2)] past_at [OF assms(1) less_trans [OF assms(3,2)]]
    by (simp add: word_le_nat_alt)
qed

lemma apart:
  assumes "ok p" "a < count p" "b < count p" "a \<noteq> b"
  shows "\<not> (first p a < past p b \<and> first p b < past p a)"
  using ordered [OF assms(1,3), of a] ordered [OF assms(1,2), of b] assms(4)
  by (metis linorder_less_linear not_le)

lemma unique:
  assumes "ok p" "a < count p" "b < count p" "first p a \<le> x" "x < past p a" "first p b \<le> x" "x < past p b"
  shows "a = b"
  using apart [OF assms(1-3)] assms(4-) by (metis order_le_less_trans)

lemma below_last:
  assumes "ok p" "s < count p" shows "unat (past p s) \<le> origin p + unat (count p) * stride p"
proof -
  have "Suc (unat s) * stride p \<le> unat (count p) * stride p"
    using assms(2) by (intro mult_le_mono1) (simp add: word_less_nat_alt)
  then show ?thesis using past_at [OF assms] by simp
qed

lemma index_of:
  assumes p: "ok p" and s: "s < count p" and x: "first p s \<le> x" "x < past p s"
  shows "unat s = (unat x - origin p) div stride p"
proof -
  have "origin p + unat s * stride p \<le> unat x" "unat x < origin p + unat s * stride p + stride p"
    using x first_at [OF p s] past_at [OF p s] by (simp_all add: word_le_nat_alt word_less_nat_alt)
  then show ?thesis by (intro div_nat_eqI [symmetric]) (simp_all add: algebra_simps)
qed

lemma in_some_run:
  assumes p: "ok p" and x: "origin p \<le> unat x" "unat x < origin p + unat (count p) * stride p"
  shows "\<exists>s < count p. first p s \<le> x \<and> x < past p s"
proof -
  define k where "k = (unat x - origin p) div stride p"
  have st: "0 < stride p" using x by (cases "stride p") auto
  have k: "k < unat (count p)" unfolding k_def using x st by (simp add: div_less_iff_less_mult)
  then have u: "unat (of_nat k :: u64) = k"
    using unsigned_less [of "count p", where ?'a = nat] by (simp add: unsigned_of_nat take_bit_nat_eq_self)
  have s: "of_nat k < count p" using k u by (simp add: word_less_nat_alt)
  have "k * stride p \<le> unat x - origin p" "unat x - origin p < k * stride p + stride p"
    unfolding k_def using dividend_less_div_times [OF st] by (simp_all add: add.commute)
  then have "origin p + k * stride p \<le> unat x" "unat x < origin p + k * stride p + stride p"
    using x(1) by linarith+
  then show ?thesis
    using first_at [OF p s] past_at [OF p s] s u
    by (intro exI [of _ "of_nat k"]) (simp add: word_le_nat_alt word_less_nat_alt)
qed

end

section \<open>Well-formed partitions\<close>

lemma wf_nums:
  assumes p: "is_well_formed p"
  shows "0 < unat (num_guests p)" "unat (num_guests p) < 65535" "0 < unat (window_len p)"
    "unat (num_guests p) * unat (frames_per_guest p) = unat (num_sup_frames p)"
    "unat (ram_base p) + unat (num_guests p) * unat (window_len p) \<le> unat (ram_end p)"
    "unat (num_sup_frames p) + unat (num_guests p) * unat (tables_per_guest p) < 2 ^ 64"
proof -
  have parts: "exact_halving p" "window_fits p" "tables_fit p" using p by (simp_all add: is_well_formed_def)
  show "0 < unat (num_guests p)" "unat (num_guests p) < 65535" "0 < unat (window_len p)"
    using p by (simp_all add: is_well_formed_def word_less_nat_alt)
  from parts(1) show "unat (num_guests p) * unat (frames_per_guest p) = unat (num_sup_frames p)"
    unfolding exact_halving_def by (auto dest: checked_mul_unat split: option.splits)
  from parts(2) obtain sp e where e: "checked_mul (num_guests p) (window_len p) = Some sp"
    "checked_add (ram_base p) sp = Some e" "e \<le> ram_end p"
    unfolding window_fits_def by (auto split: option.splits)
  show "unat (ram_base p) + unat (num_guests p) * unat (window_len p) \<le> unat (ram_end p)"
    using checked_add_unat [OF e(2)] checked_mul_unat [OF e(1)] e(3) by (simp add: word_le_nat_alt)
  from parts(3) obtain t e where "checked_mul (num_guests p) (tables_per_guest p) = Some t"
    "checked_add (num_sup_frames p) t = Some e"
    unfolding tables_fit_def by (auto split: option.splits)
  then show "unat (num_sup_frames p) + unat (num_guests p) * unat (tables_per_guest p) < 2 ^ 64"
    by (simp add: checked_add_Some checked_mul_unat)
qed

text \<open>One slot of a family whose last run fits in 64 bits.\<close>

lemma run_exact:
  fixes org len n s :: u64
  assumes fit: "unat org + unat n * unat len < 2 ^ 64" and s: "s < n"
  shows "unat (org + s * len) = unat org + unat s * unat len"
    and "unat (org + s * len + len) = unat org + unat s * unat len + unat len"
proof -
  have "Suc (unat s) * unat len \<le> unat n * unat len"
    using s by (intro mult_le_mono1) (simp add: word_less_nat_alt)
  then have b: "unat org + unat s * unat len + unat len < 2 ^ 64" using fit by simp
  have m: "unat (s * len) = unat s * unat len" by (rule unat_mult_exact) (use b in simp)
  show 1: "unat (org + s * len) = unat org + unat s * unat len"
    unfolding m [symmetric] by (rule unat_add_exact) (use b m in simp)
  show "unat (org + s * len + len) = unat org + unat s * unat len + unat len"
    unfolding 1 [symmetric] by (rule unat_add_exact) (use b 1 in simp)
qed

lemma wf_windows_fit: "is_well_formed p \<Longrightarrow> unat (ram_base p) + unat (num_guests p) * unat (window_len p) < 2 ^ 64"
  using wf_nums(5) [of p] unsigned_less [of "ram_end p", where ?'a = nat] by simp

interpretation windows: runs is_well_formed num_guests window_base window_end
  "\<lambda>p. unat (ram_base p)" "\<lambda>p. unat (window_len p)"
  unfolding runs_def window_base_def window_end_def
  using run_exact [OF wf_windows_fit] by blast

interpretation frames: runs is_well_formed num_guests first_frame frames_end
  "\<lambda>p. 0" "\<lambda>p. unat (frames_per_guest p)"
proof unfold_locales
  fix p s assume "is_well_formed p" "s < num_guests p"
  then show "unat (first_frame p s) = 0 + unat s * unat (frames_per_guest p)"
    and "unat (frames_end p s) = 0 + unat s * unat (frames_per_guest p) + unat (frames_per_guest p)"
    using run_exact [of 0 "num_guests p" "frames_per_guest p" s] wf_nums(4) [of p]
      unsigned_less [of "num_sup_frames p", where ?'a = nat]
    by (simp_all add: first_frame_def frames_end_def)
qed

interpretation tables: runs is_well_formed num_guests first_table tables_end
  "\<lambda>p. unat (num_sup_frames p)" "\<lambda>p. unat (tables_per_guest p)"
  unfolding runs_def first_table_def tables_end_def
  using run_exact [OF wf_nums(6)] by blast

lemma no_pair:
  assumes "\<And>a b. a < n \<Longrightarrow> b < n \<Longrightarrow> a \<noteq> b \<Longrightarrow> \<not> Q a b"
  shows "a < n \<Longrightarrow> find_from (Q a) n (a + 1) = None"
proof (cases "find_from (Q a) n (a + 1)")
  case (Some b)
  assume a: "a < n"
  from Some have "Q a b" "b < n" "a + 1 \<le> b" by (auto dest: find_from_Some)
  moreover have "a \<noteq> b" using \<open>a + 1 \<le> b\<close> unat_inc [OF a] by (auto simp: word_le_nat_alt)
  ultimately show ?thesis using assms a by blast
qed

section \<open>Properties\<close>

lemma wf_window:
  assumes p: "is_well_formed p" and s: "has_slot p s"
  shows "unat (window_base p s) = unat (ram_base p) + unat s * unat (window_len p)"
    "unat (window_end p s) = unat (window_base p s) + unat (window_len p)"
    "ram_base p \<le> window_base p s" "window_base p s < window_end p s" "window_end p s \<le> ram_end p"
proof -
  note s' = s [unfolded has_slot_def]
  note at = windows.first_at [OF p s'] windows.past_at [OF p s']
  show "unat (window_base p s) = unat (ram_base p) + unat s * unat (window_len p)" by (rule at(1))
  show "unat (window_end p s) = unat (window_base p s) + unat (window_len p)" using at by simp
  show "ram_base p \<le> window_base p s" "window_base p s < window_end p s" "window_end p s \<le> ram_end p"
    using at wf_nums(3,5) [OF p] windows.below_last [OF p s'] by (simp_all add: word_le_nat_alt word_less_nat_alt)
qed

lemma wf_checks:
  assumes p: "is_well_formed p"
  shows "windows_in_range p" "windows_disjoint p" "frames_disjoint p"
proof -
  show "windows_in_range p"
    unfolding windows_in_range_def find_from_0_None_iff
    using wf_window(5) [OF p] by (simp add: has_slot_def not_less)
  show "windows_disjoint p"
    unfolding windows_disjoint_def find_from_0_None_iff
    using windows.apart [OF p] no_pair [of "num_guests p" "\<lambda>a b. window_base p a < window_end p b \<and> window_base p b < window_end p a"]
    by simp
  have "num_sup_frames p \<le> first_table p k" if "k < num_guests p" for k
    using tables.first_at [OF p that] by (simp add: word_le_nat_alt)
  then show "frames_disjoint p"
    unfolding frames_disjoint_def find_from_0_None_iff
    using frames.apart [OF p] tables.apart [OF p]
      no_pair [of "num_guests p" "\<lambda>a b. (first_frame p a < frames_end p b \<and> first_frame p b < frames_end p a) \<or>
                    (first_table p a < tables_end p b \<and> first_table p b < tables_end p a)"]
    by (simp add: not_less)
qed

lemma wf_frame_not_table:
  assumes p: "is_well_formed p" and "has_slot p a" "has_slot p b"
  shows "frames_end p a \<le> first_table p b"
proof -
  have ab: "a < num_guests p" "b < num_guests p" using assms by (simp_all add: has_slot_def)
  show ?thesis
    using frames.below_last [OF p ab(1)] tables.first_at [OF p ab(2)] wf_nums(4) [OF p]
    by (simp add: word_le_nat_alt)
qed

lemma wf_owner_iff:
  assumes p: "is_well_formed p"
  shows "owner_of p ipa = Some s \<longleftrightarrow> has_slot p s \<and> window_contains p s ipa"
proof
  assume "owner_of p ipa = Some s"
  then show "has_slot p s \<and> window_contains p s ipa"
    unfolding owner_of_def has_slot_def by (auto dest: find_from_Some)
next
  assume s: "has_slot p s \<and> window_contains p s ipa"
  then obtain t where t: "owner_of p ipa = Some t"
    unfolding owner_of_def has_slot_def using find_from_0_None_iff [of "\<lambda>slot. window_contains p slot ipa" "num_guests p"] by blast
  then have "window_contains p t ipa \<and> t < num_guests p"
    unfolding owner_of_def by (blast dest: find_from_Some)
  then have "t = s" using s windows.unique [OF p, of t s ipa] by (simp add: has_slot_def window_contains_def)
  then show "owner_of p ipa = Some s" using t by simp
qed

lemma wf_placed:
  assumes p: "is_well_formed p" and s: "has_slot p s" and off: "off < window_len p"
  shows "unat (window_base p s + off) = unat (window_base p s) + unat off"
    "owner_of p (window_base p s + off) = Some s"
proof -
  have lt: "unat (window_base p s) + unat off < unat (window_end p s)"
    using wf_window(2) [OF p s] off by (simp add: word_less_nat_alt)
  then show e: "unat (window_base p s + off) = unat (window_base p s) + unat off"
    using unsigned_less [of "window_end p s", where ?'a = nat] by (intro unat_add_exact) simp
  have "window_contains p s (window_base p s + off)"
    using lt e by (simp add: window_contains_def word_le_nat_alt word_less_nat_alt)
  then show "owner_of p (window_base p s + off) = Some s" using s wf_owner_iff [OF p] by blast
qed

lemma wf_top:
  assumes p: "is_well_formed p" and s: "has_slot p s" and len: "len \<le> window_len p"
  shows "unat (window_end p s - len) + unat len = unat (window_end p s)"
    "k < len \<Longrightarrow> owner_of p (window_end p s - len + k) = Some s"
proof -
  note w = wf_window [OF p s]
  have le: "len \<le> window_end p s" using w(2) len by (simp add: word_le_nat_alt)
  then show e: "unat (window_end p s - len) + unat len = unat (window_end p s)"
    by (simp add: unat_sub word_le_nat_alt)
  assume k: "k < len"
  then have lt: "unat (window_end p s - len) + unat k < unat (window_end p s)" using e by (simp add: word_less_nat_alt)
  have "unat (window_end p s - len + k) = unat (window_end p s - len) + unat k"
    by (rule unat_add_exact) (use lt unsigned_less [of "window_end p s", where ?'a = nat] in simp)
  then have "window_contains p s (window_end p s - len + k)"
    using lt e w(2) len by (simp add: window_contains_def word_le_nat_alt word_less_nat_alt)
  then show "owner_of p (window_end p s - len + k) = Some s" using s wf_owner_iff [OF p] by blast
qed

lemma wf_dom_of:
  assumes "is_well_formed p" "has_slot p s" shows "unat (dom_of p s) = Suc (unat s)"
proof -
  have "unat s < 65534" using assms wf_nums(2) [of p] by (simp add: has_slot_def word_less_nat_alt)
  then have "unat (ucast s :: u16) = unat s" by (simp add: unsigned_ucast_eq take_bit_nat_eq_self)
  then show ?thesis using \<open>unat s < 65534\<close> by (simp add: dom_of_def unat_word_ariths)
qed

text \<open>C34: In a well-formed partition the slot arithmetic never wraps: every slot's window is a
  non-empty range inside the backed RAM. The code's own checks \<open>windows_in_range\<close>,
  \<open>windows_disjoint\<close> and \<open>frames_disjoint\<close> answer \<open>true\<close>, no address, no frame and
  no table belongs to two slots, and a frame of one slot is never a table of any slot.
\<close>

theorem partition_isolated:
  assumes p: "is_well_formed p" and a: "has_slot p a" and b: "has_slot p b"
  shows "windows_in_range p \<and> windows_disjoint p \<and> frames_disjoint p \<and>
     unat (window_end p a) = unat (ram_base p) + Suc (unat a) * unat (window_len p) \<and>
     ram_base p \<le> window_base p a \<and> window_base p a < window_end p a \<and> window_end p a \<le> ram_end p \<and>
     (a \<noteq> b \<longrightarrow> \<not> (window_contains p a x \<and> window_contains p b x) \<and>
        \<not> (first_frame p a \<le> x \<and> x < frames_end p a \<and> first_frame p b \<le> x \<and> x < frames_end p b) \<and>
        \<not> (first_table p a \<le> x \<and> x < tables_end p a \<and> first_table p b \<le> x \<and> x < tables_end p b)) \<and>
     \<not> (first_frame p a \<le> x \<and> x < frames_end p a \<and> first_table p b \<le> x \<and> x < tables_end p b)"
proof -
  have ab: "a < num_guests p" "b < num_guests p" using a b by (simp_all add: has_slot_def)
  have "a = b" if "window_contains p a x" "window_contains p b x"
    using windows.unique [OF p ab] that unfolding window_contains_def by blast
  moreover have "a = b" if "first_frame p a \<le> x" "x < frames_end p a" "first_frame p b \<le> x" "x < frames_end p b"
    using frames.unique [OF p ab that] .
  moreover have "a = b" if "first_table p a \<le> x" "x < tables_end p a" "first_table p b \<le> x" "x < tables_end p b"
    using tables.unique [OF p ab that] .
  moreover have "\<not> (x < frames_end p a \<and> first_table p b \<le> x)"
    using wf_frame_not_table [OF p a b] by (meson leD order_less_le_trans)
  ultimately show ?thesis using wf_checks [OF p] wf_window [OF p a] by simp blast
qed

definition demo_partition :: partition where
  "demo_partition = \<lparr>num_guests = 2, frames_per_guest = 4, window_len = window_len_from 4 0x200000,
     ram_base = 0x40000000, ram_end = 0x41000000, num_sup_frames = 8, tables_per_guest = 1,
     vcpus_per_guest = 2\<rparr>"

lemma demo_partition_wf: "is_well_formed demo_partition" by code_simp

lemma demo_partition_slots: "has_slot demo_partition 0" "has_slot demo_partition 1" by code_simp+

theorem partition_isolated_witness:
  "windows_disjoint demo_partition \<and> window_end demo_partition 1 \<le> ram_end demo_partition \<and>
   \<not> (window_contains demo_partition 1 0x40800000 \<and> window_contains demo_partition 0 0x40800000)"
  using partition_isolated [OF demo_partition_wf demo_partition_slots(2,1), of "0x40800000"] by simp

text \<open>On a well-formed partition the search loop of \<open>owner_of\<close> is the inverse of
  \<open>window_base\<close>: it returns slot \<open>s\<close> exactly when \<open>s\<close> exists and its window contains
  the address, and it equals the closed form \<open>(ipa - ram_base) / window_len\<close> on the addresses
  from \<open>ram_base\<close> to the end of the last window, and no slot elsewhere.
\<close>

theorem partition_owner_exact:
  assumes p: "is_well_formed p"
  shows "(owner_of p ipa = Some s \<longleftrightarrow> has_slot p s \<and> window_contains p s ipa) \<and>
     owner_of p ipa =
      (if ram_base p \<le> ipa \<and> unat ipa < unat (ram_base p) + unat (num_guests p) * unat (window_len p)
       then Some (of_nat ((unat ipa - unat (ram_base p)) div unat (window_len p))) else None)"
proof (cases "owner_of p ipa")
  case (Some t)
  then have t: "t < num_guests p" "window_base p t \<le> ipa" "ipa < window_end p t"
    using wf_owner_iff [OF p] by (simp_all add: has_slot_def window_contains_def)
  have "ram_base p \<le> ipa" using t windows.first_at [OF p t(1)] by (simp add: word_le_nat_alt)
  moreover have "unat ipa < unat (ram_base p) + unat (num_guests p) * unat (window_len p)"
    using t(3) windows.below_last [OF p t(1)] by (simp add: word_less_nat_alt)
  moreover have "of_nat ((unat ipa - unat (ram_base p)) div unat (window_len p)) = t"
    by (simp add: windows.index_of [OF p t, symmetric])
  ultimately show ?thesis using Some wf_owner_iff [OF p] by simp
next
  case None
  then have "\<not> (ram_base p \<le> ipa \<and> unat ipa < unat (ram_base p) + unat (num_guests p) * unat (window_len p))"
    using windows.in_some_run [OF p, of ipa] wf_owner_iff [OF p, of ipa]
    by (metis has_slot_def option.distinct(1) window_contains_def word_le_nat_alt)
  then show ?thesis using None wf_owner_iff [OF p, of ipa s] by (metis option.distinct(1))
qed

theorem partition_owner_exact_witness:
  "owner_of demo_partition 0x40800000 = Some 1 \<and> owner_of demo_partition 0x3fffffff = None"
  using partition_owner_exact [OF demo_partition_wf, of "0x40800000"]
    partition_owner_exact [OF demo_partition_wf, of "0x3fffffff"]
  by (simp add: demo_partition_def window_len_from_def)

text \<open>Placing and looking up agree on a well-formed partition. \<open>in_window\<close> answers exactly
  for an existing slot and an offset inside its window, and the address it returns lies
  \<open>offset\<close> bytes above the base and is owned by that slot. \<open>window_top\<close> answers exactly for a
  non-empty length that fits, the range it returns ends where the window ends, and every byte of
  it is owned by the slot. Domain identifiers of different slots differ and none is \<open>DOM0\<close>.
\<close>

theorem partition_place_roundtrip:
  assumes p: "is_well_formed p"
  shows "(case in_window p s off of
       None \<Rightarrow> \<not> (has_slot p s \<and> off < window_len p)
     | Some x \<Rightarrow> has_slot p s \<and> off < window_len p \<and> unat x = unat (window_base p s) + unat off \<and> owner_of p x = Some s) \<and>
     (case window_top p s len of
       None \<Rightarrow> \<not> (has_slot p s \<and> 0 < len \<and> len \<le> window_len p)
     | Some x \<Rightarrow> has_slot p s \<and> 0 < len \<and> len \<le> window_len p \<and> unat x + unat len = unat (window_end p s) \<and>
         (k < len \<longrightarrow> owner_of p (x + k) = Some s)) \<and>
     (has_slot p s \<and> has_slot p t \<longrightarrow> dom_of p s \<noteq> DOM0 \<and> (dom_of p s = dom_of p t \<longleftrightarrow> s = t))"
proof -
  have "dom_of p s \<noteq> DOM0 \<and> (dom_of p s = dom_of p t \<longleftrightarrow> s = t)" if "has_slot p s" "has_slot p t"
    using wf_dom_of [OF p that(1)] wf_dom_of [OF p that(2)]
    by (metis DOM0_def nat.distinct(1) old.nat.inject unsigned_0 word_unat_eq_iff)
  then show ?thesis
    using wf_placed [OF p, of s off] wf_top [OF p, of s len]
    by (auto simp: in_window_def window_top_def not_le not_less word_neq_0_conv)
qed

theorem partition_place_roundtrip_witness:
  "(\<exists>x. in_window demo_partition 1 0x100 = Some x \<and> owner_of demo_partition x = Some 1) \<and>
   (\<exists>x. window_top demo_partition 1 0x1000 = Some x \<and> owner_of demo_partition (x + 1) = Some 1) \<and>
   dom_of demo_partition 1 \<noteq> dom_of demo_partition 0"
  using partition_place_roundtrip [OF demo_partition_wf, of 1 "0x100" "0x1000" 1 0] demo_partition_slots
  by (simp add: in_window_def window_top_def demo_partition_def window_len_from_def)

end
