(* ===== verification/Pending.thy ===== *)
theory Pending
  imports Words
begin

text \<open>
  The software pending set of a vCPU: the index arithmetic of \<open>hv-vdev/src/pending.rs\<close> and
  the set built on it in \<open>hv-metal/src/pending.rs\<close>. A set is a fixed array of 64-bit words, bit
  \<open>i\<close> of word \<open>w\<close> standing for interrupt \<open>64 w + i\<close>. A pending set belongs to one vCPU and
  is used by one CPU at a time, so the relaxed atomic reads and read-modify-writes are modelled as
  plain reads and writes of the array.

  The interface a client relies on (insert, membership, removal of the least element) is the locale
  \<open>min_set\<close>, interpreted on the array.
\<close>

unbundle bit_operations_syntax

section \<open>Index arithmetic\<close>

definition trailing_zeros :: "u64 \<Rightarrow> nat" where
  "trailing_zeros w = length (takeWhile (\<lambda>i. \<not> bit w i) [0..<64])"

definition words_for :: "nat \<Rightarrow> nat" where
  "words_for intids = (intids + 63) div 64"

definition word_of :: "u32 \<Rightarrow> nat" where
  "word_of intid = unat intid div 64"

definition bit_of :: "u32 \<Rightarrow> u64" where
  "bit_of intid = push_bit (unat intid mod 64) 1"

definition intid_of :: "nat \<Rightarrow> nat \<Rightarrow> u32" where
  "intid_of w b = of_nat (w * 64) + of_nat b"

fun lowest_set_from :: "nat \<Rightarrow> u64 list \<Rightarrow> u32 option" where
  "lowest_set_from w [] = None"
| "lowest_set_from w (x # xs) = (if x \<noteq> 0 then Some (intid_of w (trailing_zeros x)) else lowest_set_from (w + 1) xs)"

definition lowest_set :: "u64 list \<Rightarrow> u32 option" where
  "lowest_set ws = lowest_set_from 0 ws"

definition is_empty :: "u64 list \<Rightarrow> bool" where
  "is_empty ws \<longleftrightarrow> list_all (\<lambda>x. x = 0) ws"

section \<open>The pending set\<close>

definition NUM_INTIDS :: nat where "NUM_INTIDS = 288"

definition PENDING_WORDS :: nat where "PENDING_WORDS = words_for NUM_INTIDS"

definition ps_new :: "u64 list" where "ps_new = replicate PENDING_WORDS 0"

text \<open>The array accesses are in range: \<open>mark\<close> tests the identifier and \<open>take_next\<close> gets it from the
  array, so an index past the end (a panic in the code) does not occur (\<open>take_next_in_range\<close>).\<close>

definition ps_mark :: "u64 list \<Rightarrow> u32 \<Rightarrow> bool \<times> u64 list" where
  "ps_mark ws intid =
     (if unat intid \<ge> NUM_INTIDS then (False, ws)
      else (True, ws[word_of intid := ws ! word_of intid OR bit_of intid]))"

definition ps_is_empty :: "u64 list \<Rightarrow> bool" where
  "ps_is_empty ws = is_empty ws"

definition ps_take_next :: "u64 list \<Rightarrow> u32 option \<times> u64 list" where
  "ps_take_next ws = (case lowest_set ws of
     None \<Rightarrow> (None, ws)
   | Some intid \<Rightarrow> (Some intid, ws[word_of intid := ws ! word_of intid AND NOT (bit_of intid)]))"

definition ps_clear :: "u64 list \<Rightarrow> u64 list" where
  "ps_clear ws = map (\<lambda>w. 0) ws"

section \<open>The abstraction: a set of interrupt identifiers\<close>

definition ps_set :: "u64 list \<Rightarrow> u32 set" where
  "ps_set ws = {i. word_of i < length ws \<and> bit (ws ! word_of i) (unat i mod 64)}"

definition ps_ok :: "u64 list \<Rightarrow> bool" where
  "ps_ok ws \<longleftrightarrow> length ws = PENDING_WORDS \<and> ps_set ws \<subseteq> {i. unat i < NUM_INTIDS}"

lemma trailing_zeros_least:
  assumes "w \<noteq> 0"
  shows "trailing_zeros w < 64" "bit w (trailing_zeros w)" "i < trailing_zeros w \<Longrightarrow> \<not> bit w i"
proof -
  let ?P = "\<lambda>i. \<not> bit w i" and ?xs = "[0..<64]"
  obtain j where j: "bit w j" "j < 64"
    using assms bit_word_eqI [of w 0] by auto
  then have "takeWhile ?P ?xs \<noteq> ?xs" by (auto simp: takeWhile_eq_all_conv)
  then have l: "length (takeWhile ?P ?xs) < length ?xs"
    by (metis length_takeWhile_le le_neq_implies_less take_all_iff takeWhile_eq_take order_refl)
  then show "trailing_zeros w < 64" by (simp add: trailing_zeros_def)
  show "bit w (trailing_zeros w)" using nth_length_takeWhile [OF l] l by (simp add: trailing_zeros_def)
  show "\<not> bit w i" if "i < trailing_zeros w"
  proof -
    have "takeWhile ?P ?xs ! i = ?xs ! i" using that unfolding trailing_zeros_def by (rule takeWhile_nth)
    moreover have "takeWhile ?P ?xs ! i \<in> set (takeWhile ?P ?xs)"
      using that unfolding trailing_zeros_def by (rule nth_mem)
    moreover have "i < 64" using that l by (simp add: trailing_zeros_def)
    ultimately show ?thesis by (metis add_0 nth_upt set_takeWhileD)
  qed
qed

lemma trailing_zeros_eqI:
  assumes "bit w n" "\<And>i. i < n \<Longrightarrow> \<not> bit w i" shows "trailing_zeros w = n"
proof -
  have "w \<noteq> 0" using assms(1) by force
  note t = trailing_zeros_least [OF this]
  have "\<not> n < trailing_zeros w" "\<not> trailing_zeros w < n" using t(2,3) assms by blast+
  then show ?thesis by simp
qed

lemma bit_bit_of: "bit (bit_of i) k \<longleftrightarrow> k = unat i mod 64"
  by (auto simp: bit_of_def bit_exp_iff)

lemma bit_of_pos: "bit_of i \<noteq> 0" using bit_bit_of [of i "unat i mod 64"] by force

lemma trailing_zeros_bit_of: "trailing_zeros (bit_of i) = unat i mod 64"
  by (rule trailing_zeros_eqI) (simp_all add: bit_bit_of)

lemma intid_split: "unat i = 64 * word_of i + unat i mod 64" by (simp add: word_of_def)

lemma intid_eq_iff: "i = j \<longleftrightarrow> word_of i = word_of j \<and> unat i mod 64 = unat j mod 64"
  using intid_split [of i] intid_split [of j] by (metis word_unat_eq_iff)

lemma intid_of_split: "intid_of (word_of i) (unat i mod 64) = i"
proof -
  have "intid_of (word_of i) (unat i mod 64) = of_nat (64 * word_of i + unat i mod 64)"
    by (simp add: intid_of_def mult.commute)
  also have "\<dots> = i" unfolding intid_split [symmetric] by simp
  finally show ?thesis .
qed

lemma word_of_in_range: "unat i < n \<Longrightarrow> word_of i < words_for n"
  by (simp add: word_of_def words_for_def div_less_iff_less_mult)

lemma unat_intid_of:
  assumes "w < 2 ^ 26" "b < 64" shows "unat (intid_of w b) = 64 * w + b"
proof -
  have "64 * w + b < 2 ^ 32" using assms by simp
  moreover have "intid_of w b = of_nat (64 * w + b)" by (simp add: intid_of_def mult.commute)
  ultimately show ?thesis by (simp only: unsigned_of_nat) (simp add: take_bit_nat_eq_self)
qed

lemma intid_of_parts:
  assumes "w < 2 ^ 26" "b < 64" shows "word_of (intid_of w b) = w" "unat (intid_of w b) mod 64 = b"
  using unat_intid_of [OF assms] assms by (simp_all add: word_of_def)

lemma word_nonzero_iff: "x \<noteq> (0 :: u64) \<longleftrightarrow> (\<exists>b<64. bit x b)"
  using bit_word_eqI [of x 0] by auto

lemma ps_set_memI: "w < length ws \<Longrightarrow> length ws \<le> 2 ^ 26 \<Longrightarrow> b < 64 \<Longrightarrow> bit (ws ! w) b \<Longrightarrow> intid_of w b \<in> ps_set ws"
  by (simp add: ps_set_def intid_of_parts)

lemma lowest_set_from:
  "lowest_set_from w ws = Some i \<Longrightarrow>
     \<exists>k < length ws. (\<forall>j<k. ws ! j = 0) \<and> ws ! k \<noteq> 0 \<and> i = intid_of (w + k) (trailing_zeros (ws ! k))"
  "lowest_set_from w ws = None \<longleftrightarrow> list_all (\<lambda>x. x = 0) ws"
proof (induction w ws rule: lowest_set_from.induct)
  case (2 w x xs)
  {
    case 1
    show ?case
    proof (cases "x = 0")
      case True
      then obtain k where "k < length xs" "\<forall>j<k. xs ! j = 0" "xs ! k \<noteq> 0" "i = intid_of (w + 1 + k) (trailing_zeros (xs ! k))"
        using 1 2(1) by auto
      then show ?thesis using True by (intro exI [of _ "Suc k"]) (auto simp: nth_Cons split: nat.splits)
    next
      case False
      then show ?thesis using 1 by (intro exI [of _ 0]) auto
    qed
  next
    case 2
    then show ?case using "2.IH"(2) by auto
  }
qed auto

lemma lowest_set_least:
  assumes l: "length ws \<le> 2 ^ 26" and s: "lowest_set ws = Some i"
  shows "i \<in> ps_set ws" "j \<in> ps_set ws \<Longrightarrow> i \<le> j"
proof -
  from s obtain k where k: "k < length ws" "\<forall>m<k. ws ! m = 0" "ws ! k \<noteq> 0" and
    i: "i = intid_of k (trailing_zeros (ws ! k))"
    unfolding lowest_set_def by (auto dest: lowest_set_from(1))
  note t = trailing_zeros_least [OF k(3)]
  have kl: "k < 2 ^ 26" using k(1) l by simp
  show "i \<in> ps_set ws" unfolding i by (rule ps_set_memI [OF k(1) l t(1,2)])
  assume "j \<in> ps_set ws"
  then have j: "word_of j < length ws" "bit (ws ! word_of j) (unat j mod 64)" by (simp_all add: ps_set_def)
  have "\<not> word_of j < k" using k(2) j(2) by fastforce
  moreover have "trailing_zeros (ws ! k) \<le> unat j mod 64" if "word_of j = k"
    using t(3) [of "unat j mod 64"] j(2) that not_le by blast
  ultimately have "64 * k + trailing_zeros (ws ! k) \<le> 64 * word_of j + unat j mod 64"
    using t(1) by (cases "word_of j = k") (simp_all add: order.strict_implies_order)
  then show "i \<le> j"
    unfolding word_le_nat_alt i unat_intid_of [OF kl t(1)] using intid_split [of j] by simp
qed

lemma lowest_set_None: "length ws \<le> 2 ^ 26 \<Longrightarrow> lowest_set ws = None \<longleftrightarrow> ps_set ws = {}"
proof
  assume l: "length ws \<le> 2 ^ 26" and e: "ps_set ws = {}"
  have "ws ! w = 0" if "w < length ws" for w
    using ps_set_memI [OF that l] e word_nonzero_iff [of "ws ! w"] by blast
  then show "lowest_set ws = None" by (simp add: lowest_set_def lowest_set_from(2) list_all_length)
next
  assume "lowest_set ws = None"
  then have "\<forall>w < length ws. ws ! w = 0" by (simp add: lowest_set_def lowest_set_from(2) list_all_length)
  then show "ps_set ws = {}" by (auto simp: ps_set_def)
qed

lemma is_empty_iff: "length ws \<le> 2 ^ 26 \<Longrightarrow> is_empty ws \<longleftrightarrow> ps_set ws = {}"
  using lowest_set_None [of ws] lowest_set_from(2) [of 0 ws] by (simp add: is_empty_def lowest_set_def)

lemma ps_set_or:
  "word_of i < length ws \<Longrightarrow> ps_set (ws[word_of i := ws ! word_of i OR bit_of i]) = insert i (ps_set ws)"
  by (auto simp: ps_set_def nth_list_update bit_or_iff bit_bit_of intid_eq_iff)

lemma ps_set_clear_bit:
  "word_of i < length ws \<Longrightarrow> ps_set (ws[word_of i := ws ! word_of i AND NOT (bit_of i)]) = ps_set ws - {i}"
  by (auto simp: ps_set_def nth_list_update bit_and_iff bit_not_iff bit_bit_of intid_eq_iff)

section \<open>The interface of a pending set\<close>

text \<open>What the delivery code relies on: a finite set of identifiers below a limit, with insertion and
  removal of the least element.\<close>

locale min_set =
  fixes ok :: "'s \<Rightarrow> bool" and elems :: "'s \<Rightarrow> u32 set" and limit :: nat
    and ins :: "'s \<Rightarrow> u32 \<Rightarrow> bool \<times> 's" and take_min :: "'s \<Rightarrow> u32 option \<times> 's" and none :: "'s \<Rightarrow> bool"
  assumes below: "ok s \<Longrightarrow> i \<in> elems s \<Longrightarrow> unat i < limit"
    and ins_refused: "ok s \<Longrightarrow> limit \<le> unat i \<Longrightarrow> ins s i = (False, s)"
    and ins_taken: "ok s \<Longrightarrow> unat i < limit \<Longrightarrow> \<exists>s'. ins s i = (True, s') \<and> ok s' \<and> elems s' = insert i (elems s)"
    and none_iff: "ok s \<Longrightarrow> none s \<longleftrightarrow> elems s = {}"
    and take_none: "ok s \<Longrightarrow> elems s = {} \<Longrightarrow> take_min s = (None, s)"
    and take_some: "ok s \<Longrightarrow> elems s \<noteq> {} \<Longrightarrow>
      \<exists>s' i. take_min s = (Some i, s') \<and> ok s' \<and> i \<in> elems s \<and> (\<forall>j\<in>elems s. i \<le> j) \<and> elems s' = elems s - {i}"
begin

lemma take_cases:
  assumes "ok s"
  obtains (empty) "elems s = {}" "take_min s = (None, s)"
    | (least) i s' where "take_min s = (Some i, s')" "ok s'" "i \<in> elems s" "\<And>j. j \<in> elems s \<Longrightarrow> i \<le> j"
        "elems s' = elems s - {i}" "unat i < limit"
  using take_none [OF assms] take_some [OF assms] below [OF assms] by metis

lemma ins_ok: "ok s \<Longrightarrow> ok (snd (ins s i))"
  by (cases "unat i < limit") (metis ins_taken snd_conv, metis ins_refused not_less snd_conv)

lemma ins_elems: "ok s \<Longrightarrow> elems (snd (ins s i)) = (if unat i < limit then insert i (elems s) else elems s)"
  by (cases "unat i < limit") (metis ins_taken snd_conv, metis ins_refused not_less snd_conv)

text \<open>Inserting and then removing until the set is empty delivers every member once, in order.\<close>

lemma take_after_ins:
  assumes s: "ok s" and i: "unat i < limit" and m: "\<And>j. j \<in> elems s \<Longrightarrow> i \<le> j"
  shows "fst (take_min (snd (ins s i))) = Some i"
proof -
  have ok: "ok (snd (ins s i))" and e: "elems (snd (ins s i)) = insert i (elems s)"
    using ins_ok [OF s] ins_elems [OF s] i by simp_all
  from take_some [OF ok] e obtain k where k: "fst (take_min (snd (ins s i))) = Some k" "k \<in> insert i (elems s)"
    "\<forall>j\<in>insert i (elems s). k \<le> j" by auto
  then have "k \<le> i" "i \<le> k" using m by auto
  then show ?thesis using k(1) by simp
qed

end

lemma ps_lengths: "ps_ok ws \<Longrightarrow> length ws = 5" "ps_ok ws \<Longrightarrow> length ws \<le> 2 ^ 26"
  by (simp_all add: ps_ok_def PENDING_WORDS_def words_for_def NUM_INTIDS_def)

lemma take_next_in_range: "ps_ok ws \<Longrightarrow> lowest_set ws = Some i \<Longrightarrow> word_of i < length ws"
  using lowest_set_least(1) [of ws i] ps_lengths by (simp add: ps_set_def)

lemma mark_in_range: "ps_ok ws \<Longrightarrow> unat i < NUM_INTIDS \<Longrightarrow> word_of i < length ws"
  by (simp add: ps_ok_def PENDING_WORDS_def word_of_in_range)

interpretation pset: min_set ps_ok ps_set NUM_INTIDS ps_mark ps_take_next ps_is_empty
proof unfold_locales
  fix ws :: "u64 list" and i :: u32
  assume ok: "ps_ok ws"
  note l = ps_lengths(2) [OF ok]
  show "unat i < NUM_INTIDS" if "i \<in> ps_set ws" using ok that by (auto simp: ps_ok_def)
  show "ps_mark ws i = (False, ws)" if "NUM_INTIDS \<le> unat i" using that by (simp add: ps_mark_def)
  show "\<exists>s'. ps_mark ws i = (True, s') \<and> ps_ok s' \<and> ps_set s' = insert i (ps_set ws)" if "unat i < NUM_INTIDS"
    using that ok ps_set_or [OF mark_in_range [OF ok that]] by (simp add: ps_mark_def ps_ok_def)
  show "ps_is_empty ws \<longleftrightarrow> ps_set ws = {}" by (simp add: ps_is_empty_def is_empty_iff [OF l])
  show "ps_take_next ws = (None, ws)" if "ps_set ws = {}"
    using that lowest_set_None [OF l] by (simp add: ps_take_next_def)
  show "\<exists>s' i. ps_take_next ws = (Some i, s') \<and> ps_ok s' \<and> i \<in> ps_set ws \<and> (\<forall>j\<in>ps_set ws. i \<le> j) \<and> ps_set s' = ps_set ws - {i}"
    if ne: "ps_set ws \<noteq> {}"
  proof -
    obtain k where k: "lowest_set ws = Some k" using ne lowest_set_None [OF l] by auto
    show ?thesis
      using k ok lowest_set_least [OF l k] ps_set_clear_bit [OF take_next_in_range [OF ok k]]
      by (auto simp: ps_take_next_def ps_ok_def)
  qed
qed

section \<open>Properties\<close>

text \<open>The index arithmetic is a bijection: an identifier is recovered from its word and bit, two
  identifiers with the same word and mask are equal, the word of every identifier below \<open>n\<close> is
  within the \<open>words_for n\<close> words, and one word less would not be enough.
\<close>

theorem pending_index_roundtrip:
  "intid_of (word_of i) (trailing_zeros (bit_of i)) = i \<and>
   (word_of i = word_of j \<and> bit_of i = bit_of j \<longleftrightarrow> i = j) \<and>
   (unat i < n \<longrightarrow> word_of i < words_for n) \<and>
   (0 < n \<and> n \<le> 2 ^ 32 \<longrightarrow> word_of (of_nat (n - 1)) = words_for n - 1)"
proof -
  have "bit_of i = bit_of j \<longleftrightarrow> unat i mod 64 = unat j mod 64" by (metis trailing_zeros_bit_of bit_of_def)
  then have 1: "word_of i = word_of j \<and> bit_of i = bit_of j \<longleftrightarrow> i = j" using intid_eq_iff by metis
  have "n - 1 < 2 ^ 32" if "0 < n" "n \<le> 2 ^ 32" using that by linarith
  then have "unat (of_nat (n - 1) :: u32) = n - 1" if "0 < n" "n \<le> 2 ^ 32"
    using that unfolding unsigned_of_nat by (simp add: take_bit_nat_eq_self)
  moreover have "(n - 1) div 64 = (n + 63) div 64 - 1" if "0 < n" using that by (cases n) simp_all
  ultimately show ?thesis
    using 1 intid_of_split word_of_in_range by (simp add: trailing_zeros_bit_of) (simp add: word_of_def words_for_def)
qed

theorem pending_index_roundtrip_witness:
  "intid_of (word_of 287) (trailing_zeros (bit_of 287)) = 287 \<and> word_of 287 < words_for 288 \<and> words_for 288 = 5"
  using pending_index_roundtrip [of 287 287 288] by (auto simp: words_for_def)

text \<open>C35: The word array implements a set of interrupt identifiers below 288. A new set is empty;
  \<open>mark\<close> inserts exactly an identifier the distributor can name and refuses every other one without a
  change; \<open>is_empty\<close> is emptiness; \<open>take_next\<close> returns and removes exactly the least element.
  The representation invariant is kept, so no access is out of range.
\<close>

theorem pending_set_refines:
  assumes ok: "ps_ok ws"
  shows "ps_ok ps_new \<and> ps_set ps_new = {} \<and> ps_set (ps_clear ws) = {} \<and>
     fst (ps_mark ws i) = (unat i < NUM_INTIDS) \<and> ps_ok (snd (ps_mark ws i)) \<and>
     ps_set (snd (ps_mark ws i)) = ps_set ws \<union> (if unat i < NUM_INTIDS then {i} else {}) \<and>
     (ps_is_empty ws \<longleftrightarrow> ps_set ws = {}) \<and> ps_ok (snd (ps_take_next ws)) \<and>
     fst (ps_take_next ws) = (if ps_set ws = {} then None else Some (Min (ps_set ws))) \<and>
     ps_set (snd (ps_take_next ws)) = (if ps_set ws = {} then {} else ps_set ws - {Min (ps_set ws)})"
proof -
  have new: "ps_set ps_new = {}" "ps_set (ps_clear ws) = {}"
    by (auto simp: ps_set_def ps_new_def ps_clear_def)
  then have "ps_ok ps_new" by (simp add: ps_ok_def ps_new_def)
  moreover have "fst (ps_mark ws i) = (unat i < NUM_INTIDS)" by (simp add: ps_mark_def)
  moreover have "ps_set (snd (ps_mark ws i)) = ps_set ws \<union> (if unat i < NUM_INTIDS then {i} else {})"
    using pset.ins_elems [OF ok, of i] by auto
  moreover have "ps_ok (snd (ps_take_next ws)) \<and>
     fst (ps_take_next ws) = (if ps_set ws = {} then None else Some (Min (ps_set ws))) \<and>
     ps_set (snd (ps_take_next ws)) = (if ps_set ws = {} then {} else ps_set ws - {Min (ps_set ws)})"
    using ok
  proof (cases rule: pset.take_cases)
    case (least k s')
    then have "Min (ps_set ws) = k" by (intro Min_eqI) auto
    then show ?thesis using least by auto
  qed (simp add: ok)
  ultimately show ?thesis using new pset.ins_ok [OF ok] pset.none_iff [OF ok] by blast
qed

lemma ps_new_ok: "ps_ok ps_new" "ps_set ps_new = {}"
  by (auto simp: ps_ok_def ps_set_def ps_new_def)

theorem pending_set_refines_witness:
  "fst (ps_take_next (snd (ps_mark (snd (ps_mark ps_new 287)) 5))) = Some 5 \<and>
   ps_set (snd (ps_take_next (snd (ps_mark (snd (ps_mark ps_new 287)) 5)))) = {287}"
proof -
  define s1 where "s1 = snd (ps_mark ps_new 287)"
  define s2 where "s2 = snd (ps_mark s1 5)"
  have 1: "ps_ok s1" "ps_set s1 = {287}"
    using pending_set_refines [OF ps_new_ok(1), of 287] by (simp_all add: s1_def ps_new_ok NUM_INTIDS_def)
  then have 2: "ps_ok s2" "ps_set s2 = {5, 287}"
    using pending_set_refines [OF 1(1), of 5] by (simp_all add: s2_def NUM_INTIDS_def)
  have "Min {5, 287 :: u32} = 5" by simp
  then show ?thesis using pending_set_refines [OF 2(1), of 0] 2(2) by (simp add: s1_def s2_def)
qed

end
