(* ===== verification/List_Registers.thy ===== *)
theory List_Registers
  imports Words
begin

text \<open>
  The GICv3 list registers (\<open>hv-vdev/src/vgic_cpuif.rs\<close>): the layout of \<open>ICH_LR<n>_EL2\<close>, its
  decoders, the one encoder, and the release of the hardware mappings of a saved bank at a switch of
  vCPUs. A register is a \<open>u64\<close>; every field is read and written by shifts and masks as in the code.
\<close>

unbundle bit_operations_syntax

section \<open>Model\<close>

definition LR_GROUP1 :: u64 where "LR_GROUP1 = push_bit 60 1"
definition LR_HW :: u64 where "LR_HW = push_bit 61 1"
definition MAX_PINTID :: u32 where "MAX_PINTID = push_bit 10 1 - 1"

datatype LrState = Invalid | Pending | Active | PendingActive

definition lr_state :: "u64 \<Rightarrow> LrState" where
  "lr_state lr = (let f = field lr 62 2 in
     if f = 0 then Invalid else if f = 1 then Pending else if f = 2 then Active else PendingActive)"

definition lr_is_free :: "u64 \<Rightarrow> bool" where
  "lr_is_free lr \<longleftrightarrow> lr_state lr = Invalid"

definition lr_is_hw :: "u64 \<Rightarrow> bool" where
  "lr_is_hw lr \<longleftrightarrow> lr AND LR_HW \<noteq> 0"

definition lr_is_group1 :: "u64 \<Rightarrow> bool" where
  "lr_is_group1 lr \<longleftrightarrow> lr AND LR_GROUP1 \<noteq> 0"

definition lr_vintid :: "u64 \<Rightarrow> u32" where
  "lr_vintid lr = ucast (field lr 0 32)"

definition lr_priority :: "u64 \<Rightarrow> u8" where
  "lr_priority lr = ucast (field lr 48 8)"

definition lr_pintid :: "u64 \<Rightarrow> u32 option" where
  "lr_pintid lr = (if lr_is_hw lr then Some (ucast (field lr 32 10)) else None)"

definition encode_lr :: "u32 \<Rightarrow> u32 option \<Rightarrow> u8 \<Rightarrow> u64 option" where
  "encode_lr vintid hw priority =
     (let base = push_bit 62 1 OR LR_GROUP1 OR push_bit 48 (ucast priority) OR push_bit 0 (ucast vintid) in
      case hw of
        Some pintid \<Rightarrow> if pintid > MAX_PINTID then None else Some (base OR LR_HW OR push_bit 32 (ucast pintid))
      | None \<Rightarrow> Some base)"

definition encode_active :: "u32 \<Rightarrow> u64" where
  "encode_active vintid = push_bit 62 2 OR push_bit 0 (ucast vintid)"

definition PINTID_FIELD :: u64 where "PINTID_FIELD = field_mask 32 10"

definition release_one :: "u64 \<Rightarrow> u64" where
  "release_one lr = (if \<not> lr_is_free lr \<and> lr_is_hw lr then lr AND NOT (LR_HW OR PINTID_FIELD) else lr)"

fun release_hardware_mappings :: "u64 list \<Rightarrow> u64 \<times> u64 list" where
  "release_hardware_mappings [] = (0, [])"
| "release_hardware_mappings (lr # bank) =
     (let (released, bank') = release_hardware_mappings bank in
      (if \<not> lr_is_free lr \<and> lr_is_hw lr then released + 1 else released, release_one lr # bank'))"

section \<open>The fields of a register\<close>

lemma bit_LR [simp]: "bit LR_GROUP1 n \<longleftrightarrow> n = 60" "bit LR_HW n \<longleftrightarrow> n = 61"
  "bit PINTID_FIELD n \<longleftrightarrow> 32 \<le> n \<and> n < 42"
  unfolding LR_GROUP1_def LR_HW_def PINTID_FIELD_def bit_one_at bit_field_mask by auto

lemma lr_is_hw_bit: "lr_is_hw lr \<longleftrightarrow> bit lr 61" "lr_is_group1 lr \<longleftrightarrow> bit lr 60"
  unfolding lr_is_hw_def lr_is_group1_def LR_HW_def LR_GROUP1_def by (rule and_single_bit, simp)+

lemma field_two:
  assumes y: "\<And>n. bit y n \<Longrightarrow> n < 2" shows "field lr 62 2 = y \<longleftrightarrow> bit lr 62 = bit y 0 \<and> bit lr 63 = bit y 1"
proof
  assume "field lr 62 2 = y"
  then have "bit (field lr 62 2) 0 = bit y 0" "bit (field lr 62 2) 1 = bit y 1" by simp_all
  then show "bit lr 62 = bit y 0 \<and> bit lr 63 = bit y 1" by (simp add: bit_field)
next
  assume a: "bit lr 62 = bit y 0 \<and> bit lr 63 = bit y 1"
  show "field lr 62 2 = y"
  proof (rule bit_word_eqI)
    fix n
    show "bit (field lr 62 2) n = bit y n"
      using a y [of n] by (cases "n < 2") (auto simp: bit_field less_2_cases_iff)
  qed
qed

lemma field_state:
  "field lr 62 2 = 0 \<longleftrightarrow> \<not> bit lr 62 \<and> \<not> bit lr 63"
  "field lr 62 2 = 1 \<longleftrightarrow> bit lr 62 \<and> \<not> bit lr 63"
  "field lr 62 2 = 2 \<longleftrightarrow> \<not> bit lr 62 \<and> bit lr 63"
proof -
  have b: "bit (2 :: u64) n \<longleftrightarrow> n = 1" "bit (1 :: u64) n \<longleftrightarrow> n = 0" for n
    using bit_one_at [of 1 n, where ?'a = 64] bit_one_at [of 0 n, where ?'a = 64] by simp_all
  show "field lr 62 2 = 0 \<longleftrightarrow> \<not> bit lr 62 \<and> \<not> bit lr 63" by (subst field_two) auto
  show "field lr 62 2 = 1 \<longleftrightarrow> bit lr 62 \<and> \<not> bit lr 63" by (subst field_two; unfold b) auto
  show "field lr 62 2 = 2 \<longleftrightarrow> \<not> bit lr 62 \<and> bit lr 63" by (subst field_two; unfold b) auto
qed

lemma lr_state_bits:
  "lr_state lr = (if bit lr 63 then if bit lr 62 then PendingActive else Active
                  else if bit lr 62 then Pending else Invalid)"
  by (simp add: lr_state_def Let_def field_state)

lemma lr_is_free_bits: "lr_is_free lr \<longleftrightarrow> \<not> bit lr 62 \<and> \<not> bit lr 63"
  by (auto simp: lr_is_free_def lr_state_bits)

text \<open>The bits of an encoded register.\<close>

lemma bit_place:
  "s + LENGTH('a) \<le> 64 \<Longrightarrow> bit (push_bit s (ucast (x :: 'a::len word)) :: u64) n \<longleftrightarrow> s \<le> n \<and> bit x (n - s)"
  by (auto simp: bit_push_bit_iff bit_ucast_iff dest: bit_imp_le_length)

lemma MAX_PINTID_bits: "x \<le> MAX_PINTID \<Longrightarrow> bit x n \<Longrightarrow> n < 10"
proof -
  assume "x \<le> MAX_PINTID" and b: "bit x n"
  then have "unat x < 2 ^ 10" by (simp add: MAX_PINTID_def word_le_nat_alt)
  then have "take_bit 10 (unat x) = unat x" by (intro take_bit_nat_eq_self) simp
  moreover have "bit (unat x) n" using b by (simp add: bit_unsigned_iff)
  ultimately show "n < 10" by (metis bit_take_bit_iff)
qed

lemma encode_lr_bits:
  assumes "encode_lr v hw pr = Some lr"
  shows "bit lr n \<longleftrightarrow> n = 62 \<or> n = 60 \<or> (48 \<le> n \<and> bit pr (n - 48)) \<or> bit v n \<or>
     (case hw of None \<Rightarrow> False | Some p \<Rightarrow> n = 61 \<or> (32 \<le> n \<and> bit p (n - 32)))"
proof -
  let ?base = "push_bit 62 1 OR LR_GROUP1 OR push_bit 48 (ucast pr) OR push_bit 0 (ucast v) :: u64"
  have base: "bit ?base n \<longleftrightarrow> n = 62 \<or> n = 60 \<or> (48 \<le> n \<and> bit pr (n - 48)) \<or> bit v n"
    unfolding bit_or_iff bit_one_at bit_LR by (subst bit_place, simp)+ auto
  have "bit (push_bit 32 (ucast p) :: u64) n \<longleftrightarrow> 32 \<le> n \<and> bit p (n - 32)" for p :: u32
    by (rule bit_place) simp
  moreover have "lr = (case hw of None \<Rightarrow> ?base | Some p \<Rightarrow> ?base OR LR_HW OR push_bit 32 (ucast p))"
    using assms unfolding encode_lr_def Let_def by (cases hw) (auto split: if_splits)
  ultimately show ?thesis using base by (cases hw) (auto simp: bit_or_iff)
qed

lemma encode_lr_None: "encode_lr v hw pr = None \<longleftrightarrow> (\<exists>p. hw = Some p \<and> p > MAX_PINTID)"
  by (auto simp: encode_lr_def Let_def split: option.splits)

lemma encode_lr_fields:
  assumes e: "encode_lr v hw pr = Some lr"
  shows "lr_vintid lr = v" "lr_priority lr = pr" "lr_pintid lr = hw" "lr_state lr = Pending"
    "lr_is_group1 lr" "lr_is_hw lr = (hw \<noteq> None)"
proof -
  note b = encode_lr_bits [OF e]
  have hi: "\<And>n. bit v n \<Longrightarrow> n < 32" "\<And>n. bit pr n \<Longrightarrow> n < 8" by (auto dest: bit_imp_le_length)
  have p: "n < 10" if "hw = Some p" "bit p n" for p n
    using e that encode_lr_None [of v hw pr] MAX_PINTID_bits [of p n] by force
  show "lr_vintid lr = v"
  proof (rule bit_word_eqI)
    fix n assume "n < LENGTH(32)"
    then show "bit (lr_vintid lr) n = bit v n"
      using b [of n] by (auto simp: lr_vintid_def bit_ucast_iff bit_field split: option.splits)
  qed
  show "lr_priority lr = pr"
  proof (rule bit_word_eqI)
    fix n assume "n < LENGTH(8)"
    then show "bit (lr_priority lr) n = bit pr n"
      using b [of "48 + n"] hi(1) [of "48 + n"] p [of _ "16 + n"]
      by (auto simp: lr_priority_def bit_ucast_iff bit_field split: option.splits)
  qed
  show h: "lr_is_hw lr = (hw \<noteq> None)"
    using b [of 61] hi(1) [of 61] hi(2) [of 13] p [of _ 29] by (auto simp: lr_is_hw_bit split: option.splits)
  show "lr_is_group1 lr" using b [of 60] by (simp add: lr_is_hw_bit)
  show "lr_state lr = Pending"
    using b [of 62] b [of 63] hi(1) [of 63] hi(2) [of 15] p [of _ 31] by (auto simp: lr_state_bits split: option.splits)
  show "lr_pintid lr = hw"
  proof (cases hw)
    case (Some q)
    have "ucast (field lr 32 10) = q"
    proof (rule bit_word_eqI)
      fix n assume "n < LENGTH(32)"
      then show "bit (ucast (field lr 32 10) :: u32) n = bit q n"
        using b [of "32 + n"] hi(1) [of "32 + n"] p [OF Some, of n] Some
        by (auto simp: bit_ucast_iff bit_field)
    qed
    then show ?thesis using Some h by (simp add: lr_pintid_def)
  qed (use h in \<open>simp add: lr_pintid_def\<close>)
qed

lemma encode_active_fields:
  "lr_vintid (encode_active v) = v" "lr_state (encode_active v) = Active" "\<not> lr_is_hw (encode_active v)"
proof -
  have "push_bit 62 2 = (push_bit 63 1 :: u64)" by simp
  then have b: "bit (encode_active v) n \<longleftrightarrow> n = 63 \<or> bit v n" for n
    unfolding encode_active_def bit_or_iff by (simp only: bit_one_at, subst bit_place) auto
  have hi: "bit v n \<Longrightarrow> n < 32" for n using bit_imp_le_length [of v n] by simp
  show "lr_vintid (encode_active v) = v"
    by (rule bit_word_eqI) (auto simp: lr_vintid_def bit_ucast_iff bit_field b)
  show "lr_state (encode_active v) = Active" "\<not> lr_is_hw (encode_active v)"
    using b [of 62] b [of 63] b [of 61] hi [of 62] hi [of 61] by (auto simp: lr_state_bits lr_is_hw_bit)
qed

section \<open>Releasing the hardware mappings\<close>

lemma release_one_bits:
  "bit (release_one lr) n \<longleftrightarrow> bit lr n \<and> \<not> (\<not> lr_is_free lr \<and> lr_is_hw lr \<and> (n = 61 \<or> 32 \<le> n \<and> n < 42))"
  by (auto simp: release_one_def bit_and_iff bit_not_iff bit_or_iff dest: bit_imp_le_length)

lemma release_one_fields:
  "lr_state (release_one lr) = lr_state lr" "lr_vintid (release_one lr) = lr_vintid lr"
  "lr_priority (release_one lr) = lr_priority lr" "lr_is_group1 (release_one lr) = lr_is_group1 lr"
  "lr_is_hw (release_one lr) \<longleftrightarrow> lr_is_hw lr \<and> lr_is_free lr"
proof -
  show "lr_vintid (release_one lr) = lr_vintid lr" "lr_priority (release_one lr) = lr_priority lr"
    by (rule bit_word_eqI; simp add: lr_vintid_def lr_priority_def bit_ucast_iff bit_field release_one_bits)+
qed (auto simp: lr_state_bits lr_is_hw_bit release_one_bits)

lemma release_hardware_mappings_eq:
  "release_hardware_mappings bank =
     (of_nat (length (filter (\<lambda>lr. \<not> lr_is_free lr \<and> lr_is_hw lr) bank)), map release_one bank)"
  by (induction bank) (auto simp: algebra_simps)

section \<open>Properties\<close>

text \<open>The encoder and the decoders of a list register agree: \<open>encode_lr\<close> refuses exactly a
  physical identifier that does not fit the ten-bit field, and otherwise the decoders give back the
  virtual identifier, the priority and the physical identifier (none for a purely virtual interrupt),
  in a Pending, Group 1 register, which is therefore never free. \<open>encode_active\<close> gives an
  occupied Active register without a mapping. Different arguments never share an encoding.
\<close>

theorem lr_encode_roundtrip:
  "(encode_lr v hw pr = None \<longleftrightarrow> (\<exists>p. hw = Some p \<and> 1023 < unat p)) \<and>
   (encode_lr v hw pr \<noteq> None \<and> encode_lr v hw pr = encode_lr v' hw' pr' \<longrightarrow> v = v' \<and> hw = hw' \<and> pr = pr') \<and>
   (case encode_lr v hw pr of None \<Rightarrow> True | Some lr \<Rightarrow>
      lr_vintid lr = v \<and> lr_priority lr = pr \<and> lr_pintid lr = hw \<and> lr_state lr = Pending \<and> lr_is_group1 lr \<and> \<not> lr_is_free lr) \<and>
   lr_vintid (encode_active v) = v \<and> lr_state (encode_active v) = Active \<and>
   lr_pintid (encode_active v) = None \<and> \<not> lr_is_free (encode_active v)"
proof -
  have "encode_lr v hw pr = None \<longleftrightarrow> (\<exists>p. hw = Some p \<and> 1023 < unat p)"
    unfolding encode_lr_None by (simp add: MAX_PINTID_def word_less_nat_alt)
  moreover have "v = v' \<and> hw = hw' \<and> pr = pr'" if "encode_lr v hw pr \<noteq> None" "encode_lr v hw pr = encode_lr v' hw' pr'"
    using that encode_lr_fields by (metis not_None_eq)
  moreover have "case encode_lr v hw pr of None \<Rightarrow> True | Some lr \<Rightarrow>
      lr_vintid lr = v \<and> lr_priority lr = pr \<and> lr_pintid lr = hw \<and> lr_state lr = Pending \<and> lr_is_group1 lr \<and> \<not> lr_is_free lr"
    using encode_lr_fields [of v hw pr] by (simp add: lr_is_free_def split: option.split)
  moreover have "lr_vintid (encode_active v) = v \<and> lr_state (encode_active v) = Active \<and>
      lr_pintid (encode_active v) = None \<and> \<not> lr_is_free (encode_active v)"
    using encode_active_fields [of v] by (simp add: lr_is_free_def lr_pintid_def)
  ultimately show ?thesis by blast
qed

theorem lr_encode_roundtrip_witness:
  "(\<exists>lr. encode_lr 27 (Some 27) 0x80 = Some lr \<and> lr_pintid lr = Some 27 \<and> lr_vintid lr = 27) \<and>
   encode_lr 27 (Some 1024) 0x80 = None"
  using lr_encode_roundtrip [of 27 "Some 27" "0x80" 0 None 0] lr_encode_roundtrip [of 27 "Some 1024" "0x80" 0 None 0]
  by (auto split: option.splits)

text \<open>\<open>release_hardware_mappings\<close> changes exactly the occupied registers that carry a mapping
  and counts them (for a bank of fewer than \<open>2^64\<close> registers). In each it clears the mapping and keeps
  state, virtual identifier, priority and group, so no pending interrupt is lost; a free register is left
  bit for bit as it was. Afterwards a mapping survives only in a free register, and a second
  release finds nothing to do.
\<close>

theorem lr_release_exact:
  assumes "release_hardware_mappings bank = (released, bank')" and "length bank < 2 ^ 64"
  shows "unat released = length (filter (\<lambda>lr. \<not> lr_is_free lr \<and> lr_is_hw lr) bank) \<and>
     length bank' = length bank \<and> list_all (\<lambda>lr. lr_is_hw lr \<longrightarrow> lr_is_free lr) bank' \<and>
     list_all2 (\<lambda>lr lr'. if \<not> lr_is_free lr \<and> lr_is_hw lr
        then lr_pintid lr' = None \<and> lr_state lr' = lr_state lr \<and> lr_vintid lr' = lr_vintid lr \<and>
             lr_priority lr' = lr_priority lr \<and> lr_is_group1 lr' = lr_is_group1 lr \<and> lr' AND PINTID_FIELD = 0
        else lr' = lr) bank bank' \<and>
     release_hardware_mappings bank' = (0, bank')"
proof -
  let ?P = "\<lambda>lr. \<not> lr_is_free lr \<and> lr_is_hw lr"
  have e: "released = of_nat (length (filter ?P bank))" "bank' = map release_one bank"
    using assms(1) by (simp_all add: release_hardware_mappings_eq)
  have "length (filter ?P bank) < 2 ^ 64" using assms(2) length_filter_le [of ?P bank] by linarith
  then have "unat released = length (filter ?P bank)" unfolding e unsigned_of_nat by (simp add: take_bit_nat_eq_self)
  moreover have free: "lr_is_free (release_one lr) = lr_is_free lr" for lr by (simp add: lr_is_free_def release_one_fields)
  moreover have "release_one lr AND PINTID_FIELD = 0" if "?P lr" for lr
    by (rule bit_word_eqI) (use that in \<open>auto simp: bit_and_iff release_one_bits\<close>)
  moreover have "release_one (release_one lr) = release_one lr" for lr
    unfolding release_one_def [of "release_one lr"] by (auto simp: free release_one_fields)
  ultimately show ?thesis
    unfolding e release_hardware_mappings_eq
    by (simp add: list_all_iff list.rel_map list_all2_same release_one_fields lr_pintid_def comp_def filter_map)
       (simp add: release_one_def)
qed

theorem lr_release_exact_witness:
  "list_all (\<lambda>lr. lr_is_hw lr \<longrightarrow> lr_is_free lr)
     (snd (release_hardware_mappings [0x70800041B000001B, 0x30800041B000001B, 0x5080000000000021])) \<and>
   unat (fst (release_hardware_mappings [0x70800041B000001B, 0x30800041B000001B, 0x5080000000000021])) =
     length (filter (\<lambda>lr. \<not> lr_is_free lr \<and> lr_is_hw lr) [0x70800041B000001B, 0x30800041B000001B, 0x5080000000000021])"
  using lr_release_exact [of "[0x70800041B000001B, 0x30800041B000001B, 0x5080000000000021]", OF surjective_pairing]
  by simp

end
