(* ===== verification/Routing.thy ===== *)
theory Routing
  imports Words
begin

text \<open>
  Interrupt routing: which vCPUs a guest names. \<open>hv-vdev/src/sgi.rs\<close> decodes the 64-bit value of an
  \<open>ICC_SGI1R_EL1\<close> write (a set of targets), \<open>hv-vdev/src/irouter.rs\<close> the value of a
  \<open>GICD_IROUTER<n>\<close> register (at most one target). Both decoders repack the affinity fields into
  the layout of \<open>vcpu_affinity\<close> and answer by a predicate over an affinity. What a client relies on is
  the locale \<open>unicast\<close>: a route names at most one vCPU.
\<close>

unbundle bit_operations_syntax

section \<open>Model\<close>

definition vcpu_affinity :: "nat \<Rightarrow> u64" where
  "vcpu_affinity vcpu = of_nat vcpu"

subsection \<open>Software-generated interrupts\<close>

record SgiTargets =
  sg_intid :: u32
  sg_broadcast :: bool
  sg_sender :: u64
  sg_cluster :: u64
  sg_range_base :: u64
  sg_list :: u64

definition SGI_IRM_BIT :: u64 where "SGI_IRM_BIT = push_bit 47 1"

definition sgi_decode :: "u64 \<Rightarrow> u64 \<Rightarrow> SgiTargets" where
  "sgi_decode v sender =
     (let aff1 = drop_bit 16 v AND 0xff; aff2 = drop_bit 32 v AND 0xff; aff3 = drop_bit 56 v AND 0xff in
      \<lparr>sg_intid = ucast (drop_bit 24 v AND 0xf), sg_broadcast = (v AND SGI_IRM_BIT \<noteq> 0), sg_sender = sender,
       sg_cluster = push_bit 8 aff1 OR push_bit 16 aff2 OR push_bit 24 aff3,
       sg_range_base = (drop_bit 40 v AND 0xf) * 16, sg_list = v AND 0xffff\<rparr>)"

definition sgi_intid :: "SgiTargets \<Rightarrow> u32" where "sgi_intid t = sg_intid t"

definition sgi_is_broadcast :: "SgiTargets \<Rightarrow> bool" where "sgi_is_broadcast t = sg_broadcast t"

definition sgi_targets :: "SgiTargets \<Rightarrow> u64 \<Rightarrow> bool" where
  "sgi_targets t aff =
     (if sg_broadcast t then aff \<noteq> sg_sender t
      else if aff AND NOT 0xff \<noteq> sg_cluster t then False
      else (let aff0 = aff AND 0xff in
        if aff0 < sg_range_base t \<or> aff0 \<ge> sg_range_base t + 16 then False
        else sg_list t AND push_bit (unat (aff0 - sg_range_base t)) 1 \<noteq> 0))"

subsection \<open>Shared peripheral interrupts\<close>

record SpiRoute =
  sr_any_of_n :: bool
  sr_affinity :: u64

definition SPI_IRM_BIT :: u64 where "SPI_IRM_BIT = push_bit 31 1"

definition irouter_decode :: "u64 \<Rightarrow> SpiRoute" where
  "irouter_decode v =
     \<lparr>sr_any_of_n = (v AND SPI_IRM_BIT \<noteq> 0),
      sr_affinity = (v AND 0xffffff) OR push_bit 24 (drop_bit 32 v AND 0xff)\<rparr>"

definition spi_is_any_of_n :: "SpiRoute \<Rightarrow> bool" where "spi_is_any_of_n r = sr_any_of_n r"

definition spi_targets :: "SpiRoute \<Rightarrow> u64 \<Rightarrow> bool" where
  "spi_targets r aff \<longleftrightarrow> \<not> sr_any_of_n r \<and> aff = sr_affinity r"

section \<open>Fields of the written values\<close>

lemma mask_fields: "drop_bit s v AND 0xff = field v s 8" "drop_bit s v AND 0xf = field v s 4"
  by (simp_all add: field_def)

lemma mask_low:
  "v AND 0xffff = field v 0 16" "v AND 0xffffff = field v 0 24" "v AND 0xff = field v 0 8"
  by (simp_all add: field_def)

lemma field_drop: "field (drop_bit s v) 0 n = field v s n"
  by (simp add: field_def)

lemma field_zero_iff: "field v s n = 0 \<longleftrightarrow> (\<forall>i<n. \<not> bit v (s + i))"
proof
  show "\<forall>i<n. \<not> bit v (s + i)" if "field v s n = 0" using that bit_field [of v s n] by force
  show "field v s n = 0" if "\<forall>i<n. \<not> bit v (s + i)"
    by (rule bit_word_eqI) (use that in \<open>auto simp: bit_field\<close>)
qed

lemma bit_push_field: "bit (push_bit k (field v s n)) i \<longleftrightarrow> k \<le> i \<and> i < k + n \<and> i < 64 \<and> bit v (s + (i - k))"
  by (auto simp: bit_push_bit_iff bit_field)

lemma unat_affinity: "v < 2 ^ 64 \<Longrightarrow> unat (vcpu_affinity v) = v"
  unfolding vcpu_affinity_def unsigned_of_nat by (simp add: take_bit_nat_eq_self)

lemma small_bits:
  assumes "unat (a :: u64) < 2 ^ k" "bit a n" shows "n < k"
proof (rule ccontr)
  assume "\<not> n < k"
  then have "2 ^ k \<le> (2::nat) ^ n" by simp
  moreover have "2 ^ n \<le> unat a"
  proof -
    have "bit (unat a) n" using assms(2) by (simp add: bit_unsigned_iff)
    then show ?thesis by (metis bit_iff_odd div_less even_zero not_le)
  qed
  ultimately show False using assms(1) by linarith
qed

lemma small_affinity:
  assumes "unat a < 256" shows "a AND NOT 0xff = (0 :: u64)" "a AND 0xff = (a :: u64)"
proof -
  have f: "(0xff :: u64) = field_mask 0 8" by (simp add: field_mask_def)
  have b: "bit a n \<Longrightarrow> n < 8" for n using small_bits [of a 8 n] assms by simp
  show "a AND NOT 0xff = 0" "a AND 0xff = a"
    unfolding f by (rule bit_word_eqI; use b in \<open>auto simp: bit_and_iff bit_not_iff bit_field_mask\<close>)+
qed

lemma field_eq_iff: "field a s n = field b t n \<longleftrightarrow> (\<forall>i<n. bit a (s + i) = bit b (t + i))"
proof
  show "\<forall>i<n. bit a (s + i) = bit b (t + i)" if "field a s n = field b t n"
    using that bit_field [of a s n] bit_field [of b t n] by metis
  show "field a s n = field b t n" if "\<forall>i<n. bit a (s + i) = bit b (t + i)"
    by (rule bit_word_eqI) (use that in \<open>auto simp: bit_field\<close>)
qed

lemma below_bits: "unat (a :: u64) < 2 ^ k \<longleftrightarrow> (\<forall>n. k \<le> n \<longrightarrow> \<not> bit a n)"
proof
  show "\<forall>n. k \<le> n \<longrightarrow> \<not> bit a n" if "unat a < 2 ^ k" using small_bits [OF that] not_le by blast
  assume h: "\<forall>n. k \<le> n \<longrightarrow> \<not> bit a n"
  have "take_bit k a = a" by (rule bit_word_eqI) (use h in \<open>auto simp: bit_take_bit_iff intro: ccontr [of "_ < k"]\<close>)
  then show "unat a < 2 ^ k" by (metis take_bit_nat_less_exp unsigned_take_bit_eq)
qed

text \<open>Bits of an affinity, byte by byte.\<close>

lemma split_byte: "8 * k \<le> n \<Longrightarrow> n < 8 * k + 8 \<Longrightarrow> \<exists>i<8. n = 8 * k + (i::nat)"
  by (intro exI [of _ "n - 8 * k"]) simp

lemma cluster_eq:
  "a AND NOT 0xff = push_bit 8 (field v 16 8) OR push_bit 16 (field v 32 8) OR push_bit 24 (field v 56 8) \<longleftrightarrow>
   unat a < 2 ^ 32 \<and> field a 8 8 = field v 16 8 \<and> field a 16 8 = field v 32 8 \<and> field a 24 8 = field v 56 8"
  (is "?l = ?r \<longleftrightarrow> ?F")
proof -
  have f: "(0xff :: u64) = field_mask 0 8" by (simp add: field_mask_def)
  have l: "bit ?l n \<longleftrightarrow> 8 \<le> n \<and> bit a n" for n
    unfolding f by (auto simp: bit_and_iff bit_not_iff bit_field_mask dest: bit_imp_le_length)
  have r: "bit ?r n \<longleftrightarrow> 8 \<le> n \<and> n < 16 \<and> bit v (16 + (n - 8)) \<or> 16 \<le> n \<and> n < 24 \<and> bit v (32 + (n - 16)) \<or>
      24 \<le> n \<and> n < 32 \<and> bit v (56 + (n - 24))" for n
    by (auto simp: bit_or_iff bit_push_field)
  show ?thesis
  proof
    assume "?l = ?r"
    then have e: "bit ?l n = bit ?r n" for n by simp
    have "\<not> bit a n" if "32 \<le> n" for n using e [of n] that unfolding l r by auto
    moreover have "bit a (8 + i) = bit v (16 + i)" "bit a (16 + i) = bit v (32 + i)" "bit a (24 + i) = bit v (56 + i)" if "i < 8" for i
      using e [of "8 + i"] e [of "16 + i"] e [of "24 + i"] that unfolding l r by auto
    ultimately show ?F unfolding below_bits field_eq_iff by blast
  next
    assume F: ?F
    show "?l = ?r"
    proof (rule bit_word_eqI)
      fix n
      have hi: "n < 32" if "bit a n" using F that unfolding below_bits by (metis not_le)
      have b: "bit a (8 + i) = bit v (16 + i)" "bit a (16 + i) = bit v (32 + i)" "bit a (24 + i) = bit v (56 + i)" if "i < 8" for i
        using F that by (simp_all add: field_eq_iff)
      consider "n < 8" | "8 \<le> n" "n < 16" | "16 \<le> n" "n < 24" | "24 \<le> n" "n < 32" | "32 \<le> n" by linarith
      then show "bit ?l n = bit ?r n"
        unfolding l r by cases (use hi b(1) [of "n - 8"] b(2) [of "n - 16"] b(3) [of "n - 24"] in auto)
    qed
  qed
qed

lemma route_eq:
  "a = field v 0 24 OR push_bit 24 (field v 32 8) \<longleftrightarrow>
   unat a < 2 ^ 32 \<and> field a 0 24 = field v 0 24 \<and> field a 24 8 = field v 32 8" (is "a = ?r \<longleftrightarrow> ?F")
proof -
  have r: "bit ?r n \<longleftrightarrow> n < 24 \<and> bit v n \<or> 24 \<le> n \<and> n < 32 \<and> bit v (32 + (n - 24))" for n
    by (auto simp: bit_or_iff bit_push_field bit_field)
  show ?thesis
  proof
    assume "a = ?r"
    then have e: "bit a n = bit ?r n" for n by simp
    then show ?F unfolding below_bits field_eq_iff r by simp
  next
    assume F: ?F
    show "a = ?r"
    proof (rule bit_word_eqI)
      fix n
      have "n < 32" if "bit a n" using F that unfolding below_bits by (metis not_le)
      moreover have "bit a n = bit v n" if "n < 24" using F that by (simp add: field_eq_iff)
      moreover have "bit a (24 + i) = bit v (32 + i)" if "i < 8" for i using F that by (simp add: field_eq_iff)
      from this [of "n - 24"] have "bit a n = bit v (32 + (n - 24))" if "24 \<le> n" "n < 32" using that by simp
      ultimately show "bit a n = bit ?r n" unfolding r by (cases "n < 24") auto
    qed
  qed
qed

text \<open>The window of the target list.\<close>

lemma range_base_unat: "unat (field v 40 4 * 16) = 16 * unat (field v 40 4)"
  using field_less [of v 40 4] by (subst unat_mult_exact) simp_all

lemma list_window:
  fixes a r :: u64
  assumes a: "unat a < 256" and r: "unat r = 16 * k" "k < 16"
  shows "\<not> (a < r \<or> a \<ge> r + 16) \<longleftrightarrow> unat a div 16 = k"
    and "unat a div 16 = k \<Longrightarrow> unat (a - r) = unat a mod 16"
proof -
  have e: "unat (r + 16) = 16 * k + 16" using r by (subst unat_add_exact) simp_all
  have "\<not> (a < r \<or> a \<ge> r + 16) \<longleftrightarrow> 16 * k \<le> unat a \<and> unat a < 16 * k + 16"
    using e r(1) by (auto simp: word_less_nat_alt word_le_nat_alt)
  also have "\<dots> \<longleftrightarrow> unat a div 16 = k"
    using div_mult_mod_eq [of "unat a" 16] mod_less_divisor [of 16 "unat a"] by linarith
  finally show "\<not> (a < r \<or> a \<ge> r + 16) \<longleftrightarrow> unat a div 16 = k" .
  assume k: "unat a div 16 = k"
  then have "unat r \<le> unat a" using r(1) div_mult_mod_eq [of "unat a" 16] by linarith
  then have "unat (a - r) = unat a - unat r" by (simp add: unat_sub word_le_nat_alt)
  then show "unat (a - r) = unat a mod 16" using k r(1) by (metis minus_div_mult_eq_mod mult.commute)
qed

lemma sgi_targets_iff:
  "sgi_targets (sgi_decode v sender) aff =
     (if bit v 47 then aff \<noteq> sender
      else unat aff < 2 ^ 32 \<and> field aff 8 8 = field v 16 8 \<and> field aff 16 8 = field v 32 8 \<and> field aff 24 8 = field v 56 8 \<and>
           unat (field aff 0 8) div 16 = unat (field v 40 4) \<and> bit v (unat (field aff 0 8) mod 16))"
proof -
  have b: "v AND SGI_IRM_BIT \<noteq> 0 \<longleftrightarrow> bit v 47" unfolding SGI_IRM_BIT_def by (rule and_single_bit) simp
  let ?a = "field aff 0 8" and ?r = "field v 40 4 * 16"
  have al: "unat ?a < 256" using field_less [of aff 0 8] by simp
  have rl: "unat (field v 40 4) < 16" using field_less [of v 40 4] by simp
  have list: "unat ?a div 16 = unat (field v 40 4) \<longrightarrow>
      (field v 0 16 AND push_bit (unat (?a - ?r)) 1 \<noteq> 0 \<longleftrightarrow> bit v (unat ?a mod 16))"
    using list_window(2) [OF al range_base_unat rl] and_single_bit [of "unat ?a mod 16" "field v 0 16"]
    by (simp add: bit_field order_less_trans [OF mod_less_divisor])
  have "sgi_targets (sgi_decode v sender) aff =
     (if bit v 47 then aff \<noteq> sender
      else aff AND NOT 0xff = push_bit 8 (field v 16 8) OR push_bit 16 (field v 32 8) OR push_bit 24 (field v 56 8) \<and>
        \<not> (?a < ?r \<or> ?a \<ge> ?r + 16) \<and> field v 0 16 AND push_bit (unat (?a - ?r)) 1 \<noteq> 0)"
    unfolding sgi_targets_def sgi_decode_def Let_def SgiTargets.simps mask_fields mask_low field_drop b by argo
  then show ?thesis unfolding cluster_eq list_window(1) [OF al range_base_unat rl] using list by argo
qed

lemma sgi_intid_unat: "unat (sgi_intid (sgi_decode v sender)) = unat (field v 24 4)"
  using field_less [of v 24 4]
  by (simp add: sgi_decode_def sgi_intid_def mask_fields mask_low field_drop Let_def unsigned_ucast_eq take_bit_nat_eq_self)

lemma sgi_intid_small: "unat (sgi_intid (sgi_decode v sender)) < 16"
  using field_less [of v 24 4] unfolding sgi_intid_unat by simp

section \<open>Properties\<close>

text \<open>What one \<open>ICC_SGI1R_EL1\<close> value means. The interrupt identifier is bits 27 to 24, so at
  most 15. In broadcast mode (bit 47) every affinity but the sender's is named. Otherwise an affinity is
  named exactly when its three cluster bytes are the ones at bits 16, 32 and 56 of the value, its
  lowest byte lies in the block of sixteen selected by bits 43 to 40, and its bit of the
  target list is set; in particular a value with a non-zero cluster names no vCPU of this machine.
\<close>

theorem sgi_targets_exact:
  "unat (sgi_intid (sgi_decode v sender)) = unat (field v 24 4) \<and> unat (sgi_intid (sgi_decode v sender)) < 16 \<and>
   sgi_is_broadcast (sgi_decode v sender) = bit v 47 \<and>
   sgi_targets (sgi_decode v sender) aff =
     (if bit v 47 then aff \<noteq> sender
      else unat aff < 2 ^ 32 \<and> field aff 8 8 = field v 16 8 \<and> field aff 16 8 = field v 32 8 \<and> field aff 24 8 = field v 56 8 \<and>
           unat (field aff 0 8) div 16 = unat (field v 40 4) \<and> bit v (unat (field aff 0 8) mod 16))"
proof -
  have "v AND SGI_IRM_BIT \<noteq> 0 \<longleftrightarrow> bit v 47" unfolding SGI_IRM_BIT_def by (rule and_single_bit) simp
  then have "sgi_is_broadcast (sgi_decode v sender) = bit v 47"
    by (simp add: sgi_is_broadcast_def sgi_decode_def Let_def)
  then show ?thesis using sgi_intid_unat sgi_intid_small sgi_targets_iff by simp
qed

text \<open>A route names at most one vCPU, so a search over the vCPUs may stop at the first match.\<close>

locale unicast =
  fixes targets :: "'r \<Rightarrow> u64 \<Rightarrow> bool"
  assumes unique: "targets r a \<Longrightarrow> targets r b \<Longrightarrow> a = b"
begin

lemma one_vcpu:
  assumes "a < 2 ^ 64" "b < 2 ^ 64" "targets r (vcpu_affinity a)" "targets r (vcpu_affinity b)" shows "a = b"
  using unique [OF assms(3,4)] unat_affinity [OF assms(1)] unat_affinity [OF assms(2)] by metis

lemma first_is_only:
  assumes n: "n \<le> 2 ^ 64" and f: "find (\<lambda>v. targets r (vcpu_affinity v)) [0..<n] = Some t" and v: "v < n"
  shows "targets r (vcpu_affinity v) \<longleftrightarrow> v = t"
proof -
  have t: "t < n" "targets r (vcpu_affinity t)" using f by (auto simp: find_Some_iff)
  then show ?thesis using one_vcpu [of v t r] n v by auto
qed

end

interpretation spi: unicast spi_targets
  by unfold_locales (simp add: spi_targets_def)

text \<open>What one \<open>GICD_IROUTER\<close> value means: in 1-of-N mode (bit 31) no affinity is named;
  otherwise exactly the affinity whose lowest three bytes are bits 23 to 0 and whose fourth byte is
  bits 39 to 32 of the value. Two affinities a value names are equal, and every affinity of
  four bytes is named by some value.
\<close>

theorem spi_route_exact:
  "spi_is_any_of_n (irouter_decode v) = bit v 31 \<and>
   spi_targets (irouter_decode v) aff =
     (\<not> bit v 31 \<and> unat aff < 2 ^ 32 \<and> field aff 0 24 = field v 0 24 \<and> field aff 24 8 = field v 32 8) \<and>
   (spi_targets (irouter_decode v) a \<and> spi_targets (irouter_decode v) b \<longrightarrow> a = b) \<and>
   (unat aff < 2 ^ 32 \<longrightarrow> spi_targets (irouter_decode (field aff 0 24 OR push_bit 32 (field aff 24 8))) aff)"
proof -
  have irm: "v AND SPI_IRM_BIT \<noteq> 0 \<longleftrightarrow> bit v 31" for v unfolding SPI_IRM_BIT_def by (rule and_single_bit) simp
  have t: "spi_targets (irouter_decode v) aff \<longleftrightarrow>
     \<not> bit v 31 \<and> unat aff < 2 ^ 32 \<and> field aff 0 24 = field v 0 24 \<and> field aff 24 8 = field v 32 8" for v
    unfolding spi_targets_def irouter_decode_def SpiRoute.simps mask_fields mask_low field_drop irm route_eq by blast
  let ?w = "field aff 0 24 OR push_bit 32 (field aff 24 8)"
  have w: "bit ?w n \<longleftrightarrow> n < 24 \<and> bit aff n \<or> 32 \<le> n \<and> n < 40 \<and> bit aff (24 + (n - 32))" for n
    by (auto simp: bit_or_iff bit_push_field bit_field)
  have "field aff 0 24 = field ?w 0 24" "field aff 24 8 = field ?w 32 8" "\<not> bit ?w 31"
    unfolding field_eq_iff w by simp_all
  then have "unat aff < 2 ^ 32 \<longrightarrow> spi_targets (irouter_decode ?w) aff" unfolding t by blast
  moreover have "spi_is_any_of_n (irouter_decode v) = bit v 31"
    using irm [of v] by (simp add: spi_is_any_of_n_def irouter_decode_def)
  ultimately show ?thesis using t [of v] spi.unique by blast
qed

theorem spi_route_exact_witness:
  "spi_targets (irouter_decode (field 1 0 24 OR push_bit 32 (field 1 24 8))) (vcpu_affinity 1)"
  using spi_route_exact [where aff = 1 and v = 0 and a = 0 and b = 0] by (simp add: vcpu_affinity_def)

text \<open>The vCPUs of this machine have affinities with an empty cluster.\<close>

lemma sgi_targets_vcpu:
  assumes v: "vcpu < 256" and nb: "\<not> bit v 47"
  shows "sgi_targets (sgi_decode v sender) (vcpu_affinity vcpu) \<longleftrightarrow>
     field v 16 8 = 0 \<and> field v 32 8 = 0 \<and> field v 56 8 = 0 \<and> vcpu div 16 = unat (field v 40 4) \<and> bit v (vcpu mod 16)"
proof -
  let ?a = "vcpu_affinity vcpu"
  have u: "unat ?a = vcpu" using v unat_affinity by simp
  then have "\<not> bit ?a n" if "8 \<le> n" for n using small_bits [of ?a 8 n] v that by auto
  then have "field ?a 8 8 = 0" "field ?a 16 8 = 0" "field ?a 24 8 = 0" by (simp_all add: field_zero_iff)
  moreover have "field ?a 0 8 = ?a" using small_affinity(2) [of ?a] u v by (simp add: mask_low)
  ultimately show ?thesis
    using sgi_targets_iff [of v sender ?a] nb u v by (simp add: eq_commute [of 0])
qed

end
