(* ===== verification/Delivery.thy ===== *)
theory Delivery
  imports Pending List_Registers Routing "HOL-Library.Multiset"
begin

text \<open>
  Delivery of virtual interrupts (\<open>hv-metal/src/gic.rs\<close> and \<open>hv-metal/src/linux.rs\<close>): an
  interrupt for the running vCPU goes into the first free list register or, when the bank is full, into
  that vCPU's pending set; an interrupt for a sibling goes into the sibling's set; the set is drained into
  the bank on a switch and on the maintenance interrupt.

  The state is the live bank (as many registers as the machine has), the underflow-interrupt enable, the
  pending sets by guest and vCPU, and the counters the boot witness reports. Register access
  and the counters are plain state here: they are used by one CPU at a time.
\<close>

unbundle bit_operations_syntax

section \<open>Model\<close>

definition INJECT_PRIORITY :: u8 where "INJECT_PRIORITY = 0x80"

fun gic_place :: "u64 list \<Rightarrow> u64 \<Rightarrow> bool \<times> u64 list" where
  "gic_place [] lr = (False, [])"
| "gic_place (x # xs) lr =
     (if lr_is_free x then (True, lr # xs) else (let (ok, ys) = gic_place xs lr in (ok, x # ys)))"

definition gic_inject :: "u64 list \<Rightarrow> u32 \<Rightarrow> bool \<times> u64 list" where
  "gic_inject bank intid = (case encode_lr intid None INJECT_PRIORITY of
     Some lr \<Rightarrow> gic_place bank lr
   | None \<Rightarrow> (False, bank))"

definition gic_inject_hw :: "u64 list \<Rightarrow> u32 \<Rightarrow> u32 \<Rightarrow> bool \<times> u64 list" where
  "gic_inject_hw bank vintid pintid = (case encode_lr vintid (Some pintid) INJECT_PRIORITY of
     Some lr \<Rightarrow> gic_place bank lr
   | None \<Rightarrow> (False, bank))"

record counts =
  c_named :: u64
  c_delivered :: u64
  c_deferred :: u64
  c_routed :: u64
  c_unroutable :: u64

record vint =
  vi_bank :: "u64 list"
  vi_uie :: bool
  vi_pending :: "u64 list list list"
  vi_sgi :: "counts list"
  vi_spi :: "counts list"
  vi_drained :: "u64 list"
  vi_collisions :: "u64 list"

definition deliver_or_defer_vint ::
  "u64 list \<Rightarrow> bool \<Rightarrow> u64 list \<Rightarrow> counts \<Rightarrow> u32 \<Rightarrow> u64 list \<times> bool \<times> u64 list \<times> counts" where
  "deliver_or_defer_vint bank uie ws c intid =
     (let c1 = c\<lparr>c_named := c_named c + 1\<rparr>; (placed, bank') = gic_inject bank intid in
      if placed then (bank', uie, ws, c1\<lparr>c_delivered := c_delivered c1 + 1\<rparr>)
      else (let (marked, ws') = ps_mark ws intid in
        if marked then (bank', True, ws', c1\<lparr>c_deferred := c_deferred c1 + 1\<rparr>)
        else (bank', uie, ws', c1)))"

fun flush_loop :: "nat list \<Rightarrow> u64 list \<Rightarrow> u64 list \<Rightarrow> nat \<Rightarrow> u64 \<Rightarrow> u64 list \<times> u64 list \<times> nat \<times> u64" where
  "flush_loop [] bank ws placed drained = (bank, ws, placed, drained)"
| "flush_loop (i # is) bank ws placed drained =
     (if \<not> lr_is_free (bank ! i) then flush_loop is bank ws placed drained
      else case ps_take_next ws of
        (None, _) \<Rightarrow> (bank, ws, placed, drained)
      | (Some intid, ws1) \<Rightarrow>
          (let (ok, bank1) = gic_inject bank intid in
           if ok then flush_loop is bank1 ws1 (placed + 1) (drained + 1)
           else (bank1, snd (ps_mark ws1 intid), placed, drained)))"

definition flush_pending_to_lrs ::
  "u64 list \<Rightarrow> u64 list \<Rightarrow> u64 \<Rightarrow> nat \<times> u64 list \<times> bool \<times> u64 list \<times> u64" where
  "flush_pending_to_lrs bank ws drained =
     (let (bank', ws', placed, drained') = flush_loop [0..<length bank] bank ws 0 drained in
      (placed, bank', \<not> ps_is_empty ws', ws', drained'))"

definition census :: "vint \<Rightarrow> (nat \<times> nat) list" where
  "census st = concat (map (\<lambda>g. map (Pair g) [0..<length (vi_pending st ! g)]) [0..<length (vi_pending st)])"

definition note_affinity_collisions :: "nat \<Rightarrow> (u64 \<Rightarrow> bool) \<Rightarrow> vint \<Rightarrow> vint" where
  "note_affinity_collisions slot names st =
     (let n = of_nat (length (filter (\<lambda>(g, v). g \<noteq> slot \<and> names (vcpu_affinity v)) (census st))) :: u64 in
      if n > 0 then st\<lparr>vi_collisions := (vi_collisions st)[slot := vi_collisions st ! slot + n]\<rparr> else st)"

definition pending_of :: "vint \<Rightarrow> nat \<Rightarrow> nat \<Rightarrow> u64 list" where
  "pending_of st g v = vi_pending st ! g ! v"

definition set_pending :: "nat \<Rightarrow> nat \<Rightarrow> u64 list \<Rightarrow> vint \<Rightarrow> vint" where
  "set_pending g v ws st = st\<lparr>vi_pending := (vi_pending st)[g := (vi_pending st ! g)[v := ws]]\<rparr>"

text \<open>One vCPU \<open>t\<close> of the running guest \<open>g\<close>, whose vCPU \<open>v\<close> is on the CPU, for an interrupt that names it.
  The counters are those of the interrupt's kind.\<close>

definition hand_over ::
  "(vint \<Rightarrow> counts list) \<Rightarrow> ((counts list \<Rightarrow> counts list) \<Rightarrow> vint \<Rightarrow> vint) \<Rightarrow> nat \<Rightarrow> nat \<Rightarrow> u32 \<Rightarrow> nat \<Rightarrow> vint \<Rightarrow> vint" where
  "hand_over get upd g v intid t st =
     (if t = v then
        (let (bank, uie, ws, c) = deliver_or_defer_vint (vi_bank st) (vi_uie st) (pending_of st g v) (get st ! g) intid in
         set_pending g v ws (upd (\<lambda>cs. cs[g := c]) (st\<lparr>vi_bank := bank, vi_uie := uie\<rparr>)))
      else
        (let (marked, ws) = ps_mark (pending_of st g t) intid; st1 = set_pending g t ws st; c = get st1 ! g in
         if marked then upd (\<lambda>cs. cs[g := c\<lparr>c_named := c_named c + 1, c_routed := c_routed c + 1\<rparr>]) st1
         else st1))"

definition handle_sgi :: "nat \<Rightarrow> nat \<Rightarrow> u64 \<Rightarrow> vint \<Rightarrow> vint" where
  "handle_sgi g v val st =
     (let decoded = sgi_decode val (vcpu_affinity v); intid = sgi_intid decoded;
          st1 = note_affinity_collisions g (sgi_targets decoded) st in
      foldl (\<lambda>s t. if sgi_targets decoded (vcpu_affinity t) then hand_over vi_sgi vi_sgi_update g v intid t s else s)
        st1 [0..<length (vi_pending st ! g)])"

definition deliver_spi :: "SpiRoute \<Rightarrow> nat \<Rightarrow> nat \<Rightarrow> u32 \<Rightarrow> vint \<Rightarrow> vint" where
  "deliver_spi route g v intid st =
     (let st1 = note_affinity_collisions g (spi_targets route) st in
      case find (\<lambda>t. spi_targets route (vcpu_affinity t)) [0..<length (vi_pending st ! g)] of
        Some t \<Rightarrow> hand_over vi_spi vi_spi_update g v intid t st1
      | None \<Rightarrow> st1\<lparr>vi_spi := (vi_spi st1)[g := (vi_spi st1 ! g)\<lparr>c_unroutable := c_unroutable (vi_spi st1 ! g) + 1\<rparr>]\<rparr>)"

section \<open>The bank\<close>

text \<open>The interrupts a bank holds: the virtual identifiers of its occupied registers.\<close>

definition held :: "u64 list \<Rightarrow> u32 multiset" where
  "held bank = mset (map lr_vintid (filter (\<lambda>lr. \<not> lr_is_free lr) bank))"

definition bank_full :: "u64 list \<Rightarrow> bool" where
  "bank_full bank \<longleftrightarrow> list_all (\<lambda>lr. \<not> lr_is_free lr) bank"

lemma bank_full_size: "bank_full bank \<longleftrightarrow> size (held bank) = length bank"
proof -
  have "size (held bank) = length (filter (\<lambda>lr. \<not> lr_is_free lr) bank)" unfolding held_def size_mset length_map ..
  moreover have "bank_full bank \<longleftrightarrow> filter (\<lambda>lr. \<not> lr_is_free lr) bank = bank"
    by (simp add: bank_full_def list_all_iff filter_id_conv)
  ultimately show ?thesis by (metis filter_id_conv length_filter_less less_irrefl)
qed

lemma gic_place_full: "bank_full bank \<Longrightarrow> gic_place bank lr = (False, bank)"
  by (induction bank) (auto simp: bank_full_def)

lemma gic_place_free:
  "\<not> bank_full bank \<Longrightarrow> \<exists>i < length bank. lr_is_free (bank ! i) \<and> (\<forall>j<i. \<not> lr_is_free (bank ! j)) \<and> gic_place bank lr = (True, bank[i := lr])"
proof (induction bank)
  case (Cons x xs)
  show ?case
  proof (cases "lr_is_free x")
    case True
    then show ?thesis by (intro exI [of _ 0]) simp
  next
    case False
    then have "\<not> bank_full xs" using Cons.prems by (simp add: bank_full_def)
    from Cons.IH [OF this] obtain i where i: "i < length xs" "lr_is_free (xs ! i)" "\<forall>j<i. \<not> lr_is_free (xs ! j)"
      "gic_place xs lr = (True, xs[i := lr])" by blast
    have "\<forall>j<Suc i. \<not> lr_is_free ((x # xs) ! j)" using i(3) False by (simp add: nth_Cons split: nat.split)
    then show ?thesis using i False by (intro exI [of _ "Suc i"]) simp
  qed
qed (simp add: bank_full_def)

lemma held_update:
  "i < length bank \<Longrightarrow> lr_is_free (bank ! i) \<Longrightarrow> \<not> lr_is_free lr \<Longrightarrow> held (bank[i := lr]) = add_mset (lr_vintid lr) (held bank)"
proof (induction bank arbitrary: i)
  case (Cons x xs)
  then show ?case by (cases i) (auto simp: held_def)
qed simp

lemma encode_virtual:
  obtains lr where "encode_lr intid None INJECT_PRIORITY = Some lr" "lr_vintid lr = intid" "\<not> lr_is_free lr" "lr_state lr = Pending"
    "lr_pintid lr = None"
proof -
  obtain lr where e: "encode_lr intid None INJECT_PRIORITY = Some lr"
    using encode_lr_None [of intid None INJECT_PRIORITY] by auto
  then show thesis using that encode_lr_fields [OF e] by (simp add: lr_is_free_def)
qed

lemma gic_inject_cases:
  obtains (full) "bank_full bank" "gic_inject bank intid = (False, bank)"
    | (free) i lr where "i < length bank" "lr_is_free (bank ! i)" "\<And>j. j < i \<Longrightarrow> \<not> lr_is_free (bank ! j)"
        "gic_inject bank intid = (True, bank[i := lr])" "lr_vintid lr = intid" "lr_state lr = Pending" "lr_pintid lr = None"
        "held (bank[i := lr]) = add_mset intid (held bank)"
proof (cases "bank_full bank")
  case True
  obtain lr where "encode_lr intid None INJECT_PRIORITY = Some lr" by (rule encode_virtual)
  then show thesis using True full by (simp add: gic_inject_def gic_place_full)
next
  case False
  obtain lr where lr: "encode_lr intid None INJECT_PRIORITY = Some lr" "lr_vintid lr = intid" "\<not> lr_is_free lr" "lr_state lr = Pending"
    "lr_pintid lr = None" by (rule encode_virtual)
  from gic_place_free [OF False, of lr] obtain i where i: "i < length bank" "lr_is_free (bank ! i)"
    "\<forall>j<i. \<not> lr_is_free (bank ! j)" "gic_place bank lr = (True, bank[i := lr])" by blast
  show thesis
    by (rule free [of i lr]) (use i lr held_update [OF i(1,2) lr(3)] in \<open>simp_all add: gic_inject_def\<close>)
qed

section \<open>Draining a pending set\<close>

text \<open>What a drain from register \<open>i\<close> on does, all earlier registers being occupied.\<close>

definition drained_from :: "u64 list \<Rightarrow> u64 list \<Rightarrow> nat \<Rightarrow> u64 \<Rightarrow> u64 list \<times> u64 list \<times> nat \<times> u64 \<Rightarrow> bool" where
  "drained_from bank ws placed drained r \<longleftrightarrow> (case r of (bank', ws', placed', drained') \<Rightarrow>
     ps_ok ws' \<and> length bank' = length bank \<and> ps_set ws' \<subseteq> ps_set ws \<and>
     held bank' = held bank + mset_set (ps_set ws - ps_set ws') \<and>
     (ps_set ws' = {} \<or> bank_full bank') \<and>
     (\<forall>j < length bank. \<not> lr_is_free (bank ! j) \<longrightarrow> bank' ! j = bank ! j) \<and>
     (\<forall>a \<in> ps_set ws - ps_set ws'. \<forall>b \<in> ps_set ws'. a < b) \<and>
     placed' = placed + card (ps_set ws - ps_set ws') \<and>
     drained' = drained + of_nat (card (ps_set ws - ps_set ws')))"

lemma drained_refl:
  "ps_ok ws \<Longrightarrow> ps_set ws = {} \<or> bank_full bank \<Longrightarrow> drained_from bank ws placed drained (bank, ws, placed, drained)"
  by (auto simp: drained_from_def)

text \<open>One drained interrupt, put in front of a drain of the rest.\<close>

lemma drained_step:
  assumes rest: "drained_from (bank[i := lr]) ws1 (placed + 1) (drained + 1) r"
    and i: "i < length bank" "lr_is_free (bank ! i)" and h: "held (bank[i := lr]) = add_mset k (held bank)"
    and k: "k \<in> ps_set ws" "\<And>j. j \<in> ps_set ws \<Longrightarrow> k \<le> j" and ws1: "ps_set ws1 = ps_set ws - {k}"
  shows "drained_from bank ws placed drained r"
proof -
  obtain bank' ws' placed' drained' where r: "r = (bank', ws', placed', drained')" by (cases r) auto
  have sub: "ps_set ws' \<subseteq> ps_set ws - {k}" using rest by (simp add: drained_from_def r ws1)
  then have e: "ps_set ws - ps_set ws' = insert k (ps_set ws1 - ps_set ws')" "k \<notin> ps_set ws1 - ps_set ws'"
    using k(1) ws1 by auto
  have c: "card (ps_set ws - ps_set ws') = Suc (card (ps_set ws1 - ps_set ws'))" unfolding e(1) using e(2) by simp
  have m: "mset_set (ps_set ws - ps_set ws') = add_mset k (mset_set (ps_set ws1 - ps_set ws'))"
    unfolding e(1) using e(2) by simp
  have lt: "\<forall>b\<in>ps_set ws'. k < b" using sub k(2) by (auto simp: less_le)
  have "bank' ! j = bank ! j" if "j < length bank" "\<not> lr_is_free (bank ! j)" for j
    using rest i that by (auto simp: drained_from_def r nth_list_update split: if_splits)
  moreover have "\<forall>a \<in> ps_set ws - ps_set ws'. \<forall>b \<in> ps_set ws'. a < b"
    using rest lt unfolding e(1) by (simp add: drained_from_def r)
  ultimately show ?thesis
    using rest sub by (auto simp: drained_from_def r c m h)
qed

lemma flush_loop_drains:
  assumes "ps_ok ws" "\<And>j. j < i \<Longrightarrow> \<not> lr_is_free (bank ! j)" "i \<le> length bank"
  shows "drained_from bank ws placed drained (flush_loop [i..<length bank] bank ws placed drained)"
  using assms
proof (induction "length bank - i" arbitrary: i bank ws placed drained)
  case 0
  then have full: "bank_full bank" and up: "[i..<length bank] = []" by (auto simp: bank_full_def list_all_length)
  show ?case unfolding up flush_loop.simps using drained_refl [OF \<open>ps_ok ws\<close>] full by blast
next
  case (Suc n)
  then have up: "[i..<length bank] = i # [Suc i..<length bank]" by (simp add: upt_conv_Cons)
  show ?case
  proof (cases "lr_is_free (bank ! i)")
    case False
    then have "\<And>j. j < Suc i \<Longrightarrow> \<not> lr_is_free (bank ! j)" using Suc.prems(2) less_Suc_eq by auto
    then show ?thesis using Suc.hyps(1) [of bank "Suc i" ws placed drained] Suc.hyps(2) Suc.prems False up by simp
  next
    case True
    have "i < length bank" using Suc.hyps(2) by simp
    then have nf: "\<not> bank_full bank" using True by (auto simp: bank_full_def list_all_length)
    from \<open>ps_ok ws\<close> show ?thesis
    proof (cases rule: pset.take_cases)
      case empty
      then show ?thesis using True up drained_refl [OF \<open>ps_ok ws\<close>] by simp
    next
      case (least k ws1)
      show ?thesis
      proof (cases rule: gic_inject_cases [of bank k])
        case full
        then show ?thesis using nf by blast
      next
        case (free i' lr)
        have i': "i' = i" using free(2,3) True Suc.prems(2) by (metis linorder_neqE_nat)
        have "\<And>j. j < Suc i \<Longrightarrow> \<not> lr_is_free (bank[i := lr] ! j)"
          using Suc.prems(2) free(1,6) i' by (auto simp: less_Suc_eq nth_list_update lr_is_free_def)
        then have "drained_from (bank[i := lr]) ws1 (placed + 1) (drained + 1)
            (flush_loop [Suc i..<length bank] (bank[i := lr]) ws1 (placed + 1) (drained + 1))"
          using Suc.hyps(1) [of "bank[i := lr]" "Suc i" ws1 "placed + 1" "drained + 1"] Suc.hyps(2) least(2) by simp
        then show ?thesis
          using drained_step [OF _ free(1,2) free(8) least(3,4,5)] True up least(1) free(4) i' by simp
      qed
    qed
  qed
qed

section \<open>Handing an interrupt over\<close>

definition balanced :: "counts \<Rightarrow> bool" where
  "balanced c \<longleftrightarrow> c_named c = c_delivered c + c_deferred c + c_routed c"

definition vi_ok :: "vint \<Rightarrow> bool" where
  "vi_ok st \<longleftrightarrow> list_all (list_all ps_ok) (vi_pending st) \<and>
     length (vi_sgi st) = length (vi_pending st) \<and> length (vi_spi st) = length (vi_pending st) \<and>
     list_all balanced (vi_sgi st) \<and> list_all balanced (vi_spi st)"

text \<open>The outcome of an interrupt for vCPU \<open>t\<close> of guest \<open>g\<close> while its vCPU \<open>v\<close> is running: a sibling's set
  gains it; for the running vCPU it is in a register of the bank, or the bank was full and it waits
  in the set with the underflow interrupt armed.\<close>

definition received :: "nat \<Rightarrow> nat \<Rightarrow> u32 \<Rightarrow> vint \<Rightarrow> vint \<Rightarrow> nat \<Rightarrow> bool" where
  "received g v intid st st' t \<longleftrightarrow>
     (if t = v then
        (held (vi_bank st') = add_mset intid (held (vi_bank st)) \<and> vi_uie st' = vi_uie st \<and> pending_of st' g v = pending_of st g v) \<or>
        (bank_full (vi_bank st) \<and> vi_bank st' = vi_bank st \<and> vi_uie st' \<and>
         ps_set (pending_of st' g v) = insert intid (ps_set (pending_of st g v)))
      else ps_set (pending_of st' g t) = insert intid (ps_set (pending_of st g t)))"

lemma vi_okD: "vi_ok st \<Longrightarrow> g < length (vi_pending st) \<Longrightarrow> v < length (vi_pending st ! g) \<Longrightarrow> ps_ok (pending_of st g v)"
  by (simp add: vi_ok_def pending_of_def list_all_length)

lemma deliver_cases [consumes 2, case_names delivered deferred]:
  assumes ok: "ps_ok ws" and i: "unat intid < NUM_INTIDS"
  obtains (delivered) k lr where "k < length bank" "lr_is_free (bank ! k)"
      "deliver_or_defer_vint bank uie ws c intid =
         (bank[k := lr], uie, ws, c\<lparr>c_named := c_named c + 1, c_delivered := c_delivered c + 1\<rparr>)"
      "held (bank[k := lr]) = add_mset intid (held bank)"
    | (deferred) ws' where "bank_full bank" "ps_ok ws'" "ps_set ws' = insert intid (ps_set ws)"
      "deliver_or_defer_vint bank uie ws c intid =
         (bank, True, ws', c\<lparr>c_named := c_named c + 1, c_deferred := c_deferred c + 1\<rparr>)"
proof (cases rule: gic_inject_cases [of bank intid])
  case full
  obtain ws' where "ps_mark ws intid = (True, ws')" "ps_ok ws'" "ps_set ws' = insert intid (ps_set ws)"
    using pset.ins_taken [OF ok i] by blast
  then show thesis using deferred full by (simp add: deliver_or_defer_vint_def)
next
  case (free k lr)
  then show thesis using delivered by (simp add: deliver_or_defer_vint_def)
qed

lemma list_all_update: "list_all P xs \<Longrightarrow> P y \<Longrightarrow> list_all P (xs[i := y])"
  by (cases "i < length xs") (auto simp: list_all_length nth_list_update)

lemma map_length_update: "map length (xss[g := (xss ! g)[t := y]]) = map length xss"
proof (cases "g < length xss")
  case True
  then show ?thesis by (simp add: map_update list_update_same_conv)
qed (simp add: list_update_beyond)

text \<open>The two families of counters, as one interface.\<close>

locale counter_of =
  fixes get :: "vint \<Rightarrow> counts list" and upd :: "(counts list \<Rightarrow> counts list) \<Rightarrow> vint \<Rightarrow> vint"
  assumes get_upd: "get (upd f st) = f (get st)"
    and upd_frame: "vi_bank (upd f st) = vi_bank st" "vi_uie (upd f st) = vi_uie st" "vi_pending (upd f st) = vi_pending st"
    and get_frame: "get (vi_bank_update b st) = get st" "get (vi_uie_update u st) = get st" "get (vi_pending_update q st) = get st"
    and upd_ok: "vi_ok st \<Longrightarrow> g < length (vi_pending st) \<Longrightarrow> balanced c \<Longrightarrow> vi_ok (upd (\<lambda>cs. cs[g := c]) st)"
    and get_ok: "vi_ok st \<Longrightarrow> g < length (vi_pending st) \<Longrightarrow> balanced (get st ! g)"
begin

lemma set_pending_ok: "vi_ok st \<Longrightarrow> g < length (vi_pending st) \<Longrightarrow> ps_ok ws \<Longrightarrow> vi_ok (set_pending g t ws st)"
  by (auto simp: vi_ok_def set_pending_def intro!: list_all_update) (simp add: list_all_length)

lemma bank_ok: "vi_ok (vi_bank_update b st) = vi_ok st" "vi_ok (vi_uie_update u st) = vi_ok st"
  by (simp_all add: vi_ok_def)

lemma pending_of_set:
  "g < length (vi_pending st) \<Longrightarrow> t < length (vi_pending st ! g) \<Longrightarrow>
   pending_of (set_pending g t ws st) g' t' = (if g' = g \<and> t' = t then ws else pending_of st g' t')"
  by (auto simp: pending_of_def set_pending_def nth_list_update)

lemma pending_frame: "pending_of (upd f st) g t = pending_of st g t"
  "pending_of (vi_bank_update b st) g t = pending_of st g t" "pending_of (vi_uie_update u st) g t = pending_of st g t"
  by (simp_all add: pending_of_def upd_frame)

lemma sp_frame: "vi_bank (set_pending g t ws st) = vi_bank st" "vi_uie (set_pending g t ws st) = vi_uie st"
  "get (set_pending g t ws st) = get st" "map length (vi_pending (set_pending g t ws st)) = map length (vi_pending st)"
  "length (vi_pending (set_pending g t ws st)) = length (vi_pending st)"
  by (simp_all add: set_pending_def get_frame map_length_update)

lemmas frames = upd_frame get_frame pending_frame sp_frame get_upd

lemma hand_over_running:
  assumes st: "vi_ok st" and g: "g < length (vi_pending st)" and v: "v < length (vi_pending st ! g)" and i: "unat intid < NUM_INTIDS"
  defines "st' \<equiv> hand_over get upd g v intid v st"
  shows "vi_ok st' \<and> map length (vi_pending st') = map length (vi_pending st) \<and> received g v intid st st' v \<and>
     (g' \<noteq> g \<or> t' \<noteq> v \<longrightarrow> pending_of st' g' t' = pending_of st g' t')"
proof -
  let ?c = "get st ! g"
  have bal: "balanced ?c" using get_ok st g by blast
  from vi_okD [OF st g v] i show ?thesis
  proof (cases rule: deliver_cases [where bank = "vi_bank st" and uie = "vi_uie st" and c = ?c])
    case (delivered k lr)
    let ?c' = "?c\<lparr>c_named := c_named ?c + 1, c_delivered := c_delivered ?c + 1\<rparr>"
    let ?s = "upd (\<lambda>cs. cs[g := ?c']) (st\<lparr>vi_bank := (vi_bank st)[k := lr], vi_uie := vi_uie st\<rparr>)"
    have e: "st' = set_pending g v (pending_of st g v) ?s"
      unfolding st'_def hand_over_def by (simp add: delivered)
    have "balanced ?c'" using bal by (simp add: balanced_def)
    then have "vi_ok ?s" using upd_ok st g by (simp add: bank_ok)
    then show ?thesis
      unfolding e using vi_okD [OF st g v] g v
      by (simp add: set_pending_ok received_def pending_of_set frames delivered(4))
  next
    case (deferred ws')
    let ?c' = "?c\<lparr>c_named := c_named ?c + 1, c_deferred := c_deferred ?c + 1\<rparr>"
    let ?s = "upd (\<lambda>cs. cs[g := ?c']) (st\<lparr>vi_bank := vi_bank st, vi_uie := True\<rparr>)"
    have e: "st' = set_pending g v ws' ?s"
      unfolding st'_def hand_over_def by (simp add: deferred)
    have "balanced ?c'" using bal by (simp add: balanced_def)
    then have "vi_ok ?s" using upd_ok st g by (simp add: bank_ok)
    then show ?thesis
      unfolding e using deferred g v by (simp add: set_pending_ok received_def pending_of_set frames)
  qed
qed

lemma hand_over_sibling:
  assumes st: "vi_ok st" and g: "g < length (vi_pending st)" and t: "t < length (vi_pending st ! g)" "t \<noteq> v" and i: "unat intid < NUM_INTIDS"
  defines "st' \<equiv> hand_over get upd g v intid t st"
  shows "vi_ok st' \<and> map length (vi_pending st') = map length (vi_pending st) \<and> received g v intid st st' t \<and>
     vi_bank st' = vi_bank st \<and> vi_uie st' = vi_uie st \<and>
     (g' \<noteq> g \<or> t' \<noteq> t \<longrightarrow> pending_of st' g' t' = pending_of st g' t')"
proof -
  obtain ws where ws: "ps_mark (pending_of st g t) intid = (True, ws)" "ps_ok ws"
    "ps_set ws = insert intid (ps_set (pending_of st g t))"
    using pset.ins_taken [OF vi_okD [OF st g t(1)] i] by blast
  let ?c = "get st ! g" and ?s = "set_pending g t ws st"
  let ?c' = "?c\<lparr>c_named := c_named ?c + 1, c_routed := c_routed ?c + 1\<rparr>"
  have "balanced (get st ! g)" using get_ok st g by blast
  then have "balanced ?c'" by (simp add: balanced_def)
  moreover have "vi_ok ?s" using st g ws(2) by (simp add: set_pending_ok)
  ultimately have "vi_ok (upd (\<lambda>cs. cs[g := ?c']) ?s)" using upd_ok g by (simp add: frames)
  moreover have "st' = upd (\<lambda>cs. cs[g := ?c']) ?s"
    unfolding st'_def hand_over_def using t(2) by (simp add: ws frames Let_def)
  ultimately show ?thesis
    using g t ws(3) by (simp add: received_def pending_of_set frames)
qed

text \<open>A walk over the vCPUs of the running guest that hands the interrupt to each one named.\<close>

lemma walk:
  fixes T :: "nat \<Rightarrow> bool"
  assumes st: "vi_ok st" and g: "g < length (vi_pending st)" and v: "v < length (vi_pending st ! g)"
    and i: "unat intid < NUM_INTIDS" and k: "k \<le> length (vi_pending st ! g)"
  defines "st' \<equiv> foldl (\<lambda>s t. if T t then hand_over get upd g v intid t s else s) st [0..<k]"
  shows "vi_ok st' \<and> map length (vi_pending st') = map length (vi_pending st) \<and>
     (\<forall>g' t'. \<not> (g' = g \<and> t' < k \<and> T t') \<longrightarrow> pending_of st' g' t' = pending_of st g' t') \<and>
     (\<forall>t<k. T t \<longrightarrow> received g v intid st st' t) \<and>
     (\<not> (v < k \<and> T v) \<longrightarrow> vi_bank st' = vi_bank st \<and> vi_uie st' = vi_uie st)"
  using k unfolding st'_def
proof (induction k)
  case 0
  then show ?case using st by simp
next
  case (Suc k)
  define s where "s = foldl (\<lambda>s t. if T t then hand_over get upd g v intid t s else s) st [0..<k]"
  have IH: "vi_ok s" "map length (vi_pending s) = map length (vi_pending st)"
    "\<And>g' t'. \<not> (g' = g \<and> t' < k \<and> T t') \<Longrightarrow> pending_of s g' t' = pending_of st g' t'"
    "\<And>t. t < k \<Longrightarrow> T t \<Longrightarrow> received g v intid st s t"
    "\<not> (v < k \<and> T v) \<Longrightarrow> vi_bank s = vi_bank st \<and> vi_uie s = vi_uie st"
    using Suc unfolding s_def by auto
  have len: "length (vi_pending s) = length (vi_pending st)" "length (vi_pending s ! g) = length (vi_pending st ! g)"
    using IH(2) g by (metis length_map, metis length_map nth_map)
  have e: "foldl (\<lambda>s t. if T t then hand_over get upd g v intid t s else s) st [0..<Suc k] =
      (if T k then hand_over get upd g v intid k s else s)" by (simp add: s_def)
  show ?case
  proof (cases "T k")
    case False
    then show ?thesis unfolding e using IH by (auto simp: less_Suc_eq)
  next
    case True
    define s' where "s' = hand_over get upd g v intid k s"
    have gk: "g < length (vi_pending s)" "k < length (vi_pending s ! g)" using len g Suc.prems by simp_all
    have step: "vi_ok s' \<and> map length (vi_pending s') = map length (vi_pending s) \<and> received g v intid s s' k \<and>
        (k \<noteq> v \<longrightarrow> vi_bank s' = vi_bank s \<and> vi_uie s' = vi_uie s)"
      and frame: "g' \<noteq> g \<or> t' \<noteq> k \<Longrightarrow> pending_of s' g' t' = pending_of s g' t'" for g' t'
      using hand_over_running [OF IH(1) gk(1), of v intid] hand_over_sibling [OF IH(1) gk, of v intid] gk i
      unfolding s'_def by (cases "k = v"; blast)+
    have rec: "received g v intid st s' t" if "t < Suc k" "T t" for t
    proof (cases "t = k")
      case True
      then show ?thesis
        using step IH(3) [of g k] IH(5) unfolding received_def by (cases "k = v") auto
    next
      case False
      then have "received g v intid st s t" using that IH(4) by simp
      moreover have "pending_of s' g t = pending_of s g t" using frame False by blast
      moreover have "vi_bank s' = vi_bank s \<and> vi_uie s' = vi_uie s" if "t = v" using step False that by simp
      ultimately show ?thesis unfolding received_def by (cases "t = v") auto
    qed
    have keep: "vi_bank s' = vi_bank st \<and> vi_uie s' = vi_uie st" if "\<not> (v < Suc k \<and> T v)"
      using step IH(5) that True by (metis less_Suc_eq)
    have "pending_of s' g' t' = pending_of st g' t'" if "\<not> (g' = g \<and> t' < Suc k \<and> T t')" for g' t'
      using frame [of g' t'] IH(3) [of g' t'] that True less_Suc_eq by metis
    then show ?thesis using e True step IH(2) rec keep unfolding s'_def by simp
  qed
qed

end

interpretation sgi_counts: counter_of vi_sgi vi_sgi_update
  by unfold_locales (auto simp: vi_ok_def list_all_length nth_list_update)

interpretation spi_counts: counter_of vi_spi vi_spi_update
  by unfold_locales (auto simp: vi_ok_def list_all_length nth_list_update)

lemma note_frame:
  "vi_ok (note_affinity_collisions g f st) = vi_ok st" "vi_pending (note_affinity_collisions g f st) = vi_pending st"
  "vi_bank (note_affinity_collisions g f st) = vi_bank st" "vi_uie (note_affinity_collisions g f st) = vi_uie st"
  "pending_of (note_affinity_collisions g f st) = pending_of st"
  "received g' v i (note_affinity_collisions g f st) = received g' v i st"
  by (auto simp: note_affinity_collisions_def vi_ok_def Let_def pending_of_def received_def fun_eq_iff)

section \<open>Properties\<close>

text \<open>C36: Draining a pending set into the bank loses and invents nothing: the bank afterwards holds what
  it held before and exactly the interrupts that left the set, the occupied registers are untouched, and the
  interrupts that left are the least ones. The drain goes as far as it can: afterwards the set is empty or no
  register is free. Both counts are the number placed, and the underflow interrupt is armed exactly
  when something is still waiting.
\<close>

theorem flush_no_loss:
  assumes ok: "ps_ok ws" and f: "flush_pending_to_lrs bank ws drained = (placed, bank', uie, ws', drained')"
  shows "ps_ok ws' \<and> ps_set ws' \<subseteq> ps_set ws \<and> length bank' = length bank \<and>
     held bank' = held bank + mset_set (ps_set ws - ps_set ws') \<and>
     (\<forall>j < length bank. \<not> lr_is_free (bank ! j) \<longrightarrow> bank' ! j = bank ! j) \<and>
     (\<forall>a \<in> ps_set ws - ps_set ws'. \<forall>b \<in> ps_set ws'. a < b) \<and>
     (ps_set ws' = {} \<or> bank_full bank') \<and> (uie \<longleftrightarrow> ps_set ws' \<noteq> {}) \<and>
     placed = card (ps_set ws - ps_set ws') \<and> drained' = drained + of_nat placed"
proof -
  have "drained_from bank ws 0 drained (flush_loop [0..<length bank] bank ws 0 drained)"
    by (rule flush_loop_drains [OF ok]) simp_all
  then show ?thesis
    using f by (auto simp: flush_pending_to_lrs_def drained_from_def pset.none_iff split: prod.splits)
qed

theorem flush_no_loss_witness:
  "(case flush_pending_to_lrs [0x8000000000000021, 0] (snd (ps_mark (snd (ps_mark ps_new 7)) 5)) 0 of
     (placed, bank', uie, ws', drained') \<Rightarrow>
       held bank' = held [0x8000000000000021, 0] + mset_set (ps_set (snd (ps_mark (snd (ps_mark ps_new 7)) 5)) - ps_set ws') \<and>
       uie = (ps_set ws' \<noteq> {}) \<and> drained' = of_nat placed)"
proof -
  let ?ws = "snd (ps_mark (snd (ps_mark ps_new 7)) 5)"
  have ok: "ps_ok ?ws" using pset.ins_ok ps_new_ok(1) by blast
  obtain placed bank' uie ws' drained' where f: "flush_pending_to_lrs [0x8000000000000021, 0] ?ws 0 = (placed, bank', uie, ws', drained')"
    by (metis surj_pair)
  show ?thesis using flush_no_loss [OF ok f] by (simp add: f)
qed

text \<open>C37: A guest's SGI reaches exactly the vCPUs it names, inside that guest. For every value the
  running vCPU writes: each vCPU of its guest that the value names receives the interrupt (a sibling in its
  pending set; the running vCPU in a list register, or in its set with the underflow interrupt armed when
  the bank is full), every other pending set, in particular every set of every other guest, is unchanged,
  and the identity \<open>named = delivered + deferred + routed\<close> of the counters is kept.
\<close>

theorem sgi_delivery_confined:
  assumes st: "vi_ok st" and g: "g < length (vi_pending st)" and v: "v < length (vi_pending st ! g)"
    and st': "st' = handle_sgi g v val st"
    and T: "\<And>t. T t \<longleftrightarrow> sgi_targets (sgi_decode val (vcpu_affinity v)) (vcpu_affinity t)"
  shows "vi_ok st' \<and> map length (vi_pending st') = map length (vi_pending st) \<and>
     (\<forall>t < length (vi_pending st ! g). T t \<longrightarrow> received g v (sgi_intid (sgi_decode val (vcpu_affinity v))) st st' t) \<and>
     (\<forall>g' t. g' \<noteq> g \<or> \<not> T t \<longrightarrow> pending_of st' g' t = pending_of st g' t) \<and>
     (\<not> T v \<longrightarrow> vi_bank st' = vi_bank st \<and> vi_uie st' = vi_uie st)"
proof -
  let ?d = "sgi_decode val (vcpu_affinity v)"
  let ?s = "note_affinity_collisions g (sgi_targets ?d) st"
  have i: "unat (sgi_intid ?d) < NUM_INTIDS" using sgi_intid_small [of val "vcpu_affinity v"] by (simp add: NUM_INTIDS_def)
  have e: "st' = foldl (\<lambda>s t. if T t then hand_over vi_sgi vi_sgi_update g v (sgi_intid ?d) t s else s) ?s [0..<length (vi_pending st ! g)]"
    unfolding st' handle_sgi_def T by (simp add: Let_def)
  note w = sgi_counts.walk [of ?s g v "sgi_intid ?d" "length (vi_pending st ! g)" T, unfolded note_frame, OF st g v i order_refl]
  show ?thesis unfolding e using w v by blast
qed

text \<open>A routed SPI reaches exactly one vCPU or none. If the route names no vCPU of the running
  guest, only the count of unroutable interrupts (and of affinity collisions) changes. Otherwise the one vCPU
  it names receives the interrupt and no other pending set, of this guest or another, changes.
\<close>

theorem spi_delivery_single:
  assumes st: "vi_ok st" and g: "g < length (vi_pending st)" and v: "v < length (vi_pending st ! g)"
    and n: "length (vi_pending st ! g) \<le> 2 ^ 64" and i: "unat intid < NUM_INTIDS"
    and st': "st' = deliver_spi route g v intid st"
  shows "vi_ok st' \<and>
     ((\<exists>t < length (vi_pending st ! g). spi_targets route (vcpu_affinity t) \<and> received g v intid st st' t \<and>
         (\<forall>t' < length (vi_pending st ! g). spi_targets route (vcpu_affinity t') \<longrightarrow> t' = t) \<and>
         (\<forall>g' t'. (g', t') \<noteq> (g, t) \<longrightarrow> pending_of st' g' t' = pending_of st g' t')) \<or>
      ((\<forall>t < length (vi_pending st ! g). \<not> spi_targets route (vcpu_affinity t)) \<and>
       vi_pending st' = vi_pending st \<and> vi_bank st' = vi_bank st \<and> vi_uie st' = vi_uie st \<and>
       c_unroutable (vi_spi st' ! g) = c_unroutable (vi_spi st ! g) + 1))"
proof (cases "find (\<lambda>t. spi_targets route (vcpu_affinity t)) [0..<length (vi_pending st ! g)]")
  case None
  let ?s = "note_affinity_collisions g (spi_targets route) st"
  have none: "\<forall>t < length (vi_pending st ! g). \<not> spi_targets route (vcpu_affinity t)" using None by (auto simp: find_None_iff)
  have sp: "vi_spi ?s = vi_spi st" by (simp add: note_affinity_collisions_def Let_def)
  have bal: "balanced ((vi_spi st ! g)\<lparr>c_unroutable := x\<rparr>)" for x
    using spi_counts.get_ok [OF st g] by (simp add: balanced_def)
  have l: "g < length (vi_spi st)" using st g by (simp add: vi_ok_def)
  have "vi_ok ?s" using st by (simp add: note_frame)
  then have "vi_ok (?s\<lparr>vi_spi := (vi_spi st)[g := (vi_spi st ! g)\<lparr>c_unroutable := x\<rparr>]\<rparr>)" for x
    using bal by (simp add: vi_ok_def sp list_all_update)
  then show ?thesis
    using none st' l by (simp add: deliver_spi_def None sp note_frame)
next
  case (Some t)
  let ?s = "note_affinity_collisions g (spi_targets route) st"
  have t: "t < length (vi_pending st ! g)" "spi_targets route (vcpu_affinity t)" using Some by (auto simp: find_Some_iff)
  have only: "\<forall>t' < length (vi_pending st ! g). spi_targets route (vcpu_affinity t') \<longrightarrow> t' = t"
    using spi.first_is_only [OF n Some] by blast
  have e: "st' = hand_over vi_spi vi_spi_update g v intid t ?s" using st' by (simp add: deliver_spi_def Some)
  have "vi_ok st' \<and> received g v intid st st' t \<and> (\<forall>g' t'. (g', t') \<noteq> (g, t) \<longrightarrow> pending_of st' g' t' = pending_of st g' t')"
    using spi_counts.hand_over_running [of ?s g v intid] spi_counts.hand_over_sibling [of ?s g t v intid] st g v t(1) i
    unfolding e note_frame by (cases "t = v") auto
  then show ?thesis using t only by blast
qed

text \<open>A machine with two guests of two vCPUs, one list register, an empty bank.\<close>

definition demo_vint :: vint where
  "demo_vint = (let c = \<lparr>c_named = 0, c_delivered = 0, c_deferred = 0, c_routed = 0, c_unroutable = 0\<rparr> in
     \<lparr>vi_bank = [0], vi_uie = False, vi_pending = [[ps_new, ps_new], [ps_new, ps_new]], vi_sgi = [c, c], vi_spi = [c, c],
      vi_drained = [0, 0], vi_collisions = [0, 0]\<rparr>)"

lemma demo_vint_ok: "vi_ok demo_vint" "1 < length (vi_pending demo_vint)" "0 < length (vi_pending demo_vint ! 1)"
    "1 < length (vi_pending demo_vint ! 1)" "length (vi_pending demo_vint ! 1) \<le> 2 ^ 64"
  using ps_new_ok by (simp_all add: vi_ok_def demo_vint_def Let_def balanced_def)

theorem sgi_delivery_confined_witness:
  "received 1 0 5 demo_vint (handle_sgi 1 0 0x5000002 demo_vint) 1 \<and>
   pending_of (handle_sgi 1 0 0x5000002 demo_vint) 0 1 = pending_of demo_vint 0 1"
proof -
  have t: "sgi_targets (sgi_decode 0x5000002 (vcpu_affinity 0)) (vcpu_affinity 1)"
    by (simp add: sgi_targets_def sgi_decode_def Let_def vcpu_affinity_def SGI_IRM_BIT_def word_le_nat_alt)
  have i: "sgi_intid (sgi_decode 0x5000002 (vcpu_affinity 0)) = 5"
    by (simp add: sgi_intid_def sgi_decode_def Let_def)
  show ?thesis
    using sgi_delivery_confined [OF demo_vint_ok(1-3) refl refl, of "0x5000002"] t i demo_vint_ok(4) by auto
qed

theorem spi_delivery_single_witness:
  "received 1 0 33 demo_vint (deliver_spi (irouter_decode 1) 1 0 33 demo_vint) 1"
proof -
  have t: "spi_targets (irouter_decode 1) (vcpu_affinity 1)"
    by (simp add: spi_targets_def irouter_decode_def vcpu_affinity_def SPI_IRM_BIT_def)
  have i: "unat (33 :: u32) < NUM_INTIDS" by (simp add: NUM_INTIDS_def)
  show ?thesis
    using spi_delivery_single [OF demo_vint_ok(1-3,5) i refl, of "irouter_decode 1"] t demo_vint_ok(4) by blast
qed

lemma deliver_free:
  assumes "\<not> bank_full bank"
  shows "\<exists>bank' c'. deliver_or_defer_vint bank uie ws c intid = (bank', uie, ws, c') \<and>
     held bank' = add_mset intid (held bank) \<and> length bank' = length bank"
  using assms by (cases rule: gic_inject_cases [of bank intid]) (simp_all add: deliver_or_defer_vint_def)

text \<open>The list-register path does not recognise an interrupt that is already pending in the bank:
  delivering the same identifier twice to a bank with two free registers occupies both with it, although
  the pending set would hold it once.
\<close>

theorem delivery_duplicates:
  "\<exists>bank1 uie1 ws1 c1 bank2 uie2 ws2 c2.
     deliver_or_defer_vint [0, 0] False ps_new c 27 = (bank1, uie1, ws1, c1) \<and>
     deliver_or_defer_vint bank1 uie1 ws1 c1 27 = (bank2, uie2, ws2, c2) \<and>
     held bank2 = {#27, 27#} \<and> bank_full bank2 \<and> ps_set ws2 = {}"
proof -
  have "held [0, 0] = {#}" using lr_is_free_bits [of 0] by (simp add: held_def)
  then obtain bank1 c1 where
    1: "deliver_or_defer_vint [0, 0] False ps_new c 27 = (bank1, False, ps_new, c1)" "held bank1 = {#27#}" "length bank1 = 2"
    using deliver_free [of "[0, 0]" False ps_new c 27] by (auto simp: bank_full_size)
  then obtain bank2 c2 where
    2: "deliver_or_defer_vint bank1 False ps_new c1 27 = (bank2, False, ps_new, c2)" "held bank2 = {#27, 27#}" "length bank2 = 2"
    using deliver_free [of bank1 False ps_new c1 27] by (auto simp: bank_full_size)
  then have "bank_full bank2" by (simp add: bank_full_size)
  then show ?thesis using 1(1) 2(1,2) ps_new_ok(2) by blast
qed

end
