(* ===== verification/Pl011.thy ===== *)
theory Pl011
  imports Words
begin

text \<open>
  The emulated PL011 UART (\<open>hv-vdev/src/pl011.rs\<close>): the register file a guest driver programs, and the
  rolling matcher over the transmitted bytes. A read or write is total over every offset, width and
  value a guest can choose; an index past the identification table would be a panic, modelled as
  \<open>None\<close>.
\<close>

unbundle bit_operations_syntax

section \<open>Model\<close>

definition FR_STATIC :: u32 where "FR_STATIC = push_bit 7 1 OR push_bit 4 1"
definition RIS_STATIC :: u32 where "RIS_STATIC = push_bit 5 1"
definition IFLS_RESET :: u32 where "IFLS_RESET = 0x12"
definition PL_ID :: "u32 list" where "PL_ID = [0x11, 0x10, 0x14, 0x00, 0x0d, 0xf0, 0x05, 0xb1]"
definition ID_BLOCK_BYTES :: u64 where "ID_BLOCK_BYTES = 4 * of_nat (length PL_ID) div 2"

record VirtPl011 =
  pl_cr :: u32
  pl_lcr_h :: u32
  pl_ibrd :: u32
  pl_fbrd :: u32
  pl_ifls :: u32
  pl_imsc :: u32
  pl_ilpr :: u32
  pl_dmacr :: u32

definition pl_new :: VirtPl011 where
  "pl_new = \<lparr>pl_cr = 0, pl_lcr_h = 0, pl_ibrd = 0, pl_fbrd = 0, pl_ifls = IFLS_RESET, pl_imsc = 0, pl_ilpr = 0, pl_dmacr = 0\<rparr>"

definition pl_read_id :: "u64 \<Rightarrow> u32 option" where
  "pl_read_id off =
     (if (0xfe0 \<le> off \<and> off < 0xfe0 + ID_BLOCK_BYTES) \<or> (0xff0 \<le> off \<and> off < 0xff0 + ID_BLOCK_BYTES)
      then (let i = (if off < 0xff0 then (off - 0xfe0) div 4 else of_nat (length PL_ID) div 2 + (off - 0xff0) div 4) in
        if unat i < length PL_ID then Some (PL_ID ! unat i) else None)
      else Some 0)"

definition pl_read_word :: "VirtPl011 \<Rightarrow> u64 \<Rightarrow> u32 option" where
  "pl_read_word d off =
     (if off = 0x000 then Some 0
      else if off = 0x004 then Some 0
      else if off = 0x018 then Some FR_STATIC
      else if off = 0x020 then Some (pl_ilpr d)
      else if off = 0x024 then Some (pl_ibrd d)
      else if off = 0x028 then Some (pl_fbrd d)
      else if off = 0x02c then Some (pl_lcr_h d)
      else if off = 0x030 then Some (pl_cr d)
      else if off = 0x034 then Some (pl_ifls d)
      else if off = 0x038 then Some (pl_imsc d)
      else if off = 0x03c then Some RIS_STATIC
      else if off = 0x040 then Some (RIS_STATIC AND pl_imsc d)
      else if off = 0x048 then Some (pl_dmacr d)
      else pl_read_id off)"

definition pl_mmio_read :: "VirtPl011 \<Rightarrow> u64 \<Rightarrow> u64 \<Rightarrow> u64 option" where
  "pl_mmio_read d off bytes =
     (case pl_read_word d (off AND NOT 3) of
        None \<Rightarrow> None
      | Some word \<Rightarrow>
          (let lane = (off AND 3) * 8;
               msk = (if bytes = 1 then 0xff else if bytes = 2 then 0xffff else 0xffffffff) in
           Some (drop_bit (unat lane) (ucast word) AND msk)))"

definition pl_mmio_write :: "VirtPl011 \<Rightarrow> u64 \<Rightarrow> u64 \<Rightarrow> u8 option \<times> VirtPl011" where
  "pl_mmio_write d off val =
     (if off = 0x000 then (Some (ucast val), d)
      else if off = 0x004 then (None, d)
      else if off = 0x020 then (None, d\<lparr>pl_ilpr := ucast val\<rparr>)
      else if off = 0x024 then (None, d\<lparr>pl_ibrd := ucast val\<rparr>)
      else if off = 0x028 then (None, d\<lparr>pl_fbrd := ucast val\<rparr>)
      else if off = 0x02c then (None, d\<lparr>pl_lcr_h := ucast val\<rparr>)
      else if off = 0x030 then (None, d\<lparr>pl_cr := ucast val\<rparr>)
      else if off = 0x034 then (None, d\<lparr>pl_ifls := ucast val\<rparr>)
      else if off = 0x038 then (None, d\<lparr>pl_imsc := ucast val\<rparr>)
      else if off = 0x044 then (None, d)
      else if off = 0x048 then (None, d\<lparr>pl_dmacr := ucast val\<rparr>)
      else (None, d))"

subsection \<open>The needle matcher\<close>

record NeedleMatcher =
  nm_needle :: "u8 list"
  nm_at :: nat
  nm_saw :: bool

definition nm_new :: "u8 list \<Rightarrow> NeedleMatcher option" where
  "nm_new needle = (if needle = [] then None else Some \<lparr>nm_needle = needle, nm_at = 0, nm_saw = False\<rparr>)"

definition nm_feed :: "NeedleMatcher \<Rightarrow> u8 \<Rightarrow> NeedleMatcher option" where
  "nm_feed m byte =
     (if nm_saw m then Some m
      else case vec_get (nm_needle m) (nm_at m) of
        None \<Rightarrow> None
      | Some b \<Rightarrow>
          if byte = b then
            Some (let at = nm_at m + 1 in m\<lparr>nm_at := at, nm_saw := (at = length (nm_needle m))\<rparr>)
          else (case vec_get (nm_needle m) 0 of
              None \<Rightarrow> None
            | Some b0 \<Rightarrow> Some (m\<lparr>nm_at := of_bool (byte = b0)\<rparr>)))"

fun nm_feed_all :: "NeedleMatcher \<Rightarrow> u8 list \<Rightarrow> NeedleMatcher option" where
  "nm_feed_all m [] = Some m"
| "nm_feed_all m (b # bs) = Option.bind (nm_feed m b) (\<lambda>m'. nm_feed_all m' bs)"

section \<open>The register file as a map\<close>

text \<open>The eight registers a driver can program, by offset.\<close>

definition pl_regs :: "VirtPl011 \<Rightarrow> u64 \<rightharpoonup> u32" where
  "pl_regs d = [0x020 \<mapsto> pl_ilpr d, 0x024 \<mapsto> pl_ibrd d, 0x028 \<mapsto> pl_fbrd d, 0x02c \<mapsto> pl_lcr_h d,
     0x030 \<mapsto> pl_cr d, 0x034 \<mapsto> pl_ifls d, 0x038 \<mapsto> pl_imsc d, 0x048 \<mapsto> pl_dmacr d]"

lemma pl_read_id_total: "\<exists>w. pl_read_id off = Some w"
proof -
  have b: "ID_BLOCK_BYTES = 16" by (simp add: ID_BLOCK_BYTES_def PL_ID_def)
  have l: "length PL_ID = 8" by (simp add: PL_ID_def)
  have lo: "unat ((off - 0xfe0) div 4) < 4" if "0xfe0 \<le> off" "off < 0xff0"
    using that by (simp add: unat_div unat_sub word_le_nat_alt word_less_nat_alt)
  have hi: "unat (4 + (off - 0xff0) div 4) < 8" if "0xff0 \<le> off" "off < 0x1000"
  proof -
    have "unat ((off - 0xff0) div 4) < 4" using that by (simp add: unat_div unat_sub word_le_nat_alt word_less_nat_alt)
    then show ?thesis by (subst unat_add_exact) simp_all
  qed
  consider "0xfe0 \<le> off" "off < 0xff0" | "0xff0 \<le> off" "off < 0x1000" | "\<not> (0xfe0 \<le> off \<and> off < 0x1000)"
    by (meson not_le)
  then show ?thesis
  proof cases
    case 1
    then show ?thesis using lo by (simp add: pl_read_id_def Let_def b l)
  next
    case 2
    then show ?thesis using hi by (simp add: pl_read_id_def Let_def b l not_less [symmetric])
  next
    case 3
    then have "\<not> (0xfe0 \<le> off \<and> off < 0xff0)" "\<not> (0xff0 \<le> off \<and> off < 0x1000)"
      by (auto simp: word_le_nat_alt word_less_nat_alt)
    then show ?thesis by (auto simp add: pl_read_id_def b)
  qed
qed

section \<open>The matcher\<close>

lemma nm_feed_all_snoc: "nm_feed_all m (xs @ [b]) = Option.bind (nm_feed_all m xs) (\<lambda>m'. nm_feed m' b)"
  by (induction xs arbitrary: m) (auto simp: Option.bind_assoc split: bind_splits)

definition occurs :: "u8 list \<Rightarrow> u8 list \<Rightarrow> bool" where
  "occurs needle xs \<longleftrightarrow> (\<exists>pre post. xs = pre @ needle @ post)"

definition ends_with :: "u8 list \<Rightarrow> u8 list \<Rightarrow> bool" where
  "ends_with p xs \<longleftrightarrow> (\<exists>pre. xs = pre @ p)"

lemma ends_with_snoc: "ends_with (p @ [c]) (xs @ [b]) \<longleftrightarrow> c = b \<and> ends_with p xs"
  by (auto simp: ends_with_def)

lemma ends_with_take: "j < length needle \<Longrightarrow> ends_with (take (Suc j) needle) (xs @ [b]) \<longleftrightarrow> needle ! j = b \<and> ends_with (take j needle) xs"
  by (simp add: take_Suc_conv_app_nth ends_with_snoc)

lemma ends_occurs: "ends_with needle xs \<Longrightarrow> occurs needle xs"
  unfolding occurs_def ends_with_def by (metis append_Nil2)

lemma occurs_snoc: "occurs needle xs \<Longrightarrow> occurs needle (xs @ [b])"
  unfolding occurs_def by (metis append.assoc)

text \<open>The invariant: the cursor is inside the needle until the needle was seen, the matched part is what the
  stream ends with, and, for a needle whose first byte does not recur, it is the only part that is.\<close>

definition nm_inv :: "u8 list \<Rightarrow> u8 list \<Rightarrow> NeedleMatcher \<Rightarrow> bool" where
  "nm_inv needle xs m \<longleftrightarrow> nm_needle m = needle \<and>
     (if nm_saw m then occurs needle xs
      else nm_at m < length needle \<and> ends_with (take (nm_at m) needle) xs \<and>
        (hd needle \<notin> set (tl needle) \<longrightarrow>
           \<not> occurs needle xs \<and> (\<forall>k. 0 < k \<and> k \<le> length needle \<and> ends_with (take k needle) xs \<longrightarrow> nm_at m = k)))"

lemma hd_unique: "hd needle \<notin> set (tl needle) \<Longrightarrow> 0 < i \<Longrightarrow> i < length needle \<Longrightarrow> needle ! i \<noteq> needle ! 0"
  by (cases needle; cases i) auto

lemma occurs_snoc_iff: "occurs needle (xs @ [b]) \<longleftrightarrow> occurs needle xs \<or> ends_with needle (xs @ [b])"
proof
  assume "occurs needle (xs @ [b])"
  then obtain pre post where e: "xs @ [b] = pre @ needle @ post" by (auto simp: occurs_def)
  show "occurs needle xs \<or> ends_with needle (xs @ [b])"
  proof (cases post rule: rev_cases)
    case Nil
    then show ?thesis using e by (auto simp: ends_with_def)
  next
    case (snoc post' c)
    then have "xs = pre @ needle @ post'" using e by (metis append.assoc butlast_snoc)
    then show ?thesis by (auto simp: occurs_def)
  qed
next
  show "occurs needle xs \<or> ends_with needle (xs @ [b]) \<Longrightarrow> occurs needle (xs @ [b])"
    using occurs_snoc [of needle xs b] ends_occurs [of needle "xs @ [b]"] by blast
qed

lemma nm_feed_inv:
  assumes n: "needle \<noteq> []" and m: "nm_inv needle xs m"
  shows "\<exists>m'. nm_feed m b = Some m' \<and> nm_inv needle (xs @ [b]) m'"
proof (cases "nm_saw m")
  case True
  then show ?thesis using m occurs_snoc by (auto simp: nm_feed_def nm_inv_def)
next
  case False
  let ?at = "nm_at m"
  have at: "nm_needle m = needle" "?at < length needle" "ends_with (take ?at needle) xs"
    using m False by (simp_all add: nm_inv_def)
  have uniq: "\<not> occurs needle xs" "\<And>k. 0 < k \<Longrightarrow> k \<le> length needle \<Longrightarrow> ends_with (take k needle) xs \<Longrightarrow> ?at = k"
    if "hd needle \<notin> set (tl needle)" using m False that by (auto simp: nm_inv_def)
  have prev: "k = Suc ?at \<and> needle ! ?at = b \<or> k = 1 \<and> needle ! 0 = b"
    if h: "hd needle \<notin> set (tl needle)" "0 < k" "k \<le> length needle" "ends_with (take k needle) (xs @ [b])" for k
  proof -
    obtain j where j: "k = Suc j" "j < length needle" using h(2,3) by (cases k) auto
    then have "needle ! j = b" "ends_with (take j needle) xs" using h(4) by (simp_all add: ends_with_take)
    then show ?thesis using uniq(2) [OF h(1), of j] j by (cases "j = 0") auto
  qed
  have full: "occurs needle (xs @ [b]) \<longleftrightarrow> ends_with (take (length needle) needle) (xs @ [b])"
    if "hd needle \<notin> set (tl needle)" using uniq(1) [OF that] by (simp add: occurs_snoc_iff)
  have len: "0 < length needle" using n by simp
  show ?thesis
  proof (cases "b = needle ! ?at")
    case True
    have e: "ends_with (take (Suc ?at) needle) (xs @ [b])" using True at(2,3) by (simp add: ends_with_take)
    have k: "Suc ?at = k" if "hd needle \<notin> set (tl needle)" "0 < k" "k \<le> length needle" "ends_with (take k needle) (xs @ [b])" for k
      using prev [OF that] True hd_unique [OF that(1) _ at(2)] by (cases "?at = 0") auto
    have f: "nm_feed m b = Some (m\<lparr>nm_at := Suc ?at, nm_saw := (Suc ?at = length needle)\<rparr>)"
      using True False at by (simp add: nm_feed_def vec_get_def)
    show ?thesis
    proof (cases "Suc ?at = length needle")
      case True
      then have "occurs needle (xs @ [b])" using e ends_occurs by simp
      then show ?thesis using f True at(1) by (simp add: nm_inv_def)
    next
      case False
      have "\<not> occurs needle (xs @ [b])" if "hd needle \<notin> set (tl needle)"
        using full [OF that] k [OF that len order_refl] False by blast
      then show ?thesis using f False at(1,2) e k by (simp add: nm_inv_def)
    qed
  next
    case mismatch: False
    have k: "of_bool (b = needle ! 0) = k" if "hd needle \<notin> set (tl needle)" "0 < k" "k \<le> length needle" "ends_with (take k needle) (xs @ [b])" for k
      using prev [OF that] mismatch by auto
    have f: "nm_feed m b = Some (m\<lparr>nm_at := of_bool (b = needle ! 0)\<rparr>)"
      using mismatch False at len by (simp add: nm_feed_def vec_get_def)
    have e: "ends_with (take (of_bool (b = needle ! 0)) needle) (xs @ [b])"
      using ends_with_take [OF len, of xs b] by (auto simp: ends_with_def)
    have one: "of_bool (b = needle ! 0) < length needle"
      using mismatch at(2) len by (cases "length needle = 1") auto
    have "\<not> occurs needle (xs @ [b])" if "hd needle \<notin> set (tl needle)"
      using full [OF that] k [OF that len order_refl] one by (metis less_irrefl)
    then show ?thesis using f False at(1) e one k by (simp add: nm_inv_def)
  qed
qed

lemma nm_feed_all_inv:
  assumes n: "needle \<noteq> []" and m: "nm_new needle = Some m"
  shows "\<exists>m'. nm_feed_all m xs = Some m' \<and> nm_inv needle xs m'"
proof (induction xs rule: rev_induct)
  case Nil
  show ?case using m n by (auto simp: nm_new_def nm_inv_def occurs_def ends_with_def)
next
  case (snoc b xs)
  then show ?case using nm_feed_inv [OF n] by (fastforce simp: nm_feed_all_snoc)
qed

section \<open>Properties\<close>

text \<open>The UART's register file implements a map from the eight programmable offsets to their
  values. A write puts the value (its low 32 bits) at a programmable offset and changes nothing
  anywhere else; it hands a byte to the caller exactly for the data register, the low byte of the
  value. A read never panics, whatever the offset: it returns the mapped value at a programmable offset, the
  masked status for \<open>MIS\<close>, and otherwise a constant that no write can change.
\<close>

theorem pl011_refines_map:
  "pl_regs (snd (pl_mmio_write d off val)) =
     (if pl_regs d off = None then pl_regs d else (pl_regs d)(off \<mapsto> ucast val)) \<and>
   fst (pl_mmio_write d off val) = (if off = 0 then Some (ucast val) else None) \<and>
   (\<exists>w. pl_read_word d o' = Some w \<and>
      (case pl_regs d o' of Some x \<Rightarrow> w = x
       | None \<Rightarrow> if o' = 0x040 then w = RIS_STATIC AND the (pl_regs d 0x038)
                 else pl_read_word pl_new o' = Some w)) \<and>
   (\<exists>r. pl_mmio_read d o' bytes = Some r)"
proof -
  have rd: "\<exists>w. pl_read_word d o' = Some w" for d o'
    using pl_read_id_total [of o'] by (simp add: pl_read_word_def)
  have "pl_regs (snd (pl_mmio_write d off val)) =
     (if pl_regs d off = None then pl_regs d else (pl_regs d)(off \<mapsto> ucast val))"
    by (auto simp: pl_regs_def pl_mmio_write_def fun_eq_iff)
  moreover have "fst (pl_mmio_write d off val) = (if off = 0 then Some (ucast val) else None)"
    by (simp add: pl_mmio_write_def)
  moreover have "\<exists>w. pl_read_word d o' = Some w \<and>
      (case pl_regs d o' of Some x \<Rightarrow> w = x
       | None \<Rightarrow> if o' = 0x040 then w = RIS_STATIC AND the (pl_regs d 0x038) else pl_read_word pl_new o' = Some w)"
    using rd [of d o'] by (auto simp: pl_regs_def pl_read_word_def split: if_splits)
  moreover have "\<exists>r. pl_mmio_read d o' bytes = Some r"
    using rd [of d "o' AND NOT 3"] by (auto simp: pl_mmio_read_def Let_def)
  ultimately show ?thesis by blast
qed

text \<open>The needle matcher never indexes past the needle, and it reports a match only when the
  needle has passed through the stream. For a needle whose first byte does not recur in it, it reports a
  match exactly then.
\<close>

theorem needle_matcher_correct:
  assumes "nm_new needle = Some m"
  shows "\<exists>m'. nm_feed_all m xs = Some m' \<and> (nm_saw m' \<longrightarrow> occurs needle xs) \<and>
     (hd needle \<notin> set (tl needle) \<longrightarrow> (nm_saw m' \<longleftrightarrow> occurs needle xs))"
proof -
  have "needle \<noteq> []" using assms by (auto simp: nm_new_def)
  from nm_feed_all_inv [OF this assms, of xs] show ?thesis by (auto simp: nm_inv_def split: if_splits)
qed

theorem needle_matcher_correct_witness:
  "\<exists>m m'. nm_new [66, 65, 76] = Some m \<and> nm_feed_all m [66, 66, 65, 76, 10] = Some m' \<and> nm_saw m'"
proof -
  obtain m where m: "nm_new [66, 65, 76] = Some m" by (simp add: nm_new_def)
  have "occurs [66, 65, 76] [66, 66, 65, 76, 10]"
    unfolding occurs_def by (intro exI [of _ "[66]"] exI [of _ "[10]"]) simp
  then show ?thesis using needle_matcher_correct [OF m, of "[66, 66, 65, 76, 10]"] m by auto
qed

text \<open>A needle that overlaps itself can be missed: the bytes of \<open>aab\<close> pass through the stream
  \<open>aaab\<close> in full, and the matcher does not report it.
\<close>

theorem needle_overlap_missed:
  "occurs [97, 97, 98] [97, 97, 97, 98] \<and>
   (\<exists>m m'. nm_new [97, 97, 98] = Some m \<and> nm_feed_all m [97, 97, 97, 98] = Some m' \<and> \<not> nm_saw m')"
proof
  show "occurs [97, 97, 98] [97, 97, 97, 98]"
    unfolding occurs_def by (intro exI [of _ "[97]"] exI [of _ "[]"]) simp
  show "\<exists>m m'. nm_new [97, 97, 98] = Some m \<and> nm_feed_all m [97, 97, 97, 98] = Some m' \<and> \<not> nm_saw m'"
    by (simp add: nm_new_def nm_feed_def vec_get_def)
qed

end
