(* ===== verification/Gicv3.thy ===== *)
theory Gicv3
  imports Routing
begin

text \<open>
  The emulated GICv3 distributor and redistributors (\<open>hv-vdev/src/gicv3.rs\<close>): where the frames sit in a
  guest's address space, the register files, and the decode of a guest's reads and writes. The guest
  chooses address, width and value. An access the model does not implement is reported
  (\<open>Err\<close>), an array index out of range would be a panic (\<open>Panic\<close>); the number of
  vCPUs is the length of the list of redistributors.
\<close>

unbundle bit_operations_syntax

section \<open>Layout and frames\<close>

definition GIC_INTIDS :: nat where "GIC_INTIDS = 288"
definition GIC_WORDS :: nat where "GIC_WORDS = GIC_INTIDS div 32"
definition FIRST_SPI :: nat where "FIRST_SPI = 32"
definition GICR_FRAME :: u64 where "GICR_FRAME = 0x10000"
definition GICR_FRAMES :: u64 where "GICR_FRAMES = 2"

record GicLayout =
  gl_gicd_base :: u64
  gl_gicd_len :: u64
  gl_gicr_rd_base :: u64
  gl_gicr_end :: u64

datatype GicFrame = Dist | Redist nat | Sgi nat

definition gf_name :: "GicFrame \<Rightarrow> string" where
  "gf_name f = (case f of Dist \<Rightarrow> ''GICD'' | Redist _ \<Rightarrow> ''GICR'' | Sgi _ \<Rightarrow> ''GICR_SGI'')"

definition gf_vcpu :: "GicFrame \<Rightarrow> nat option" where
  "gf_vcpu f = (case f of Dist \<Rightarrow> None | Redist n \<Rightarrow> Some n | Sgi n \<Rightarrow> Some n)"

definition gl_validate :: "GicLayout \<Rightarrow> nat \<Rightarrow> bool" where
  "gl_validate l vcpus =
     (if vcpus = 0 then False
      else case checked_add (gl_gicd_base l) (gl_gicd_len l) of
        None \<Rightarrow> False
      | Some gicd_end \<Rightarrow>
          if gicd_end > gl_gicr_rd_base l then False
          else (case checked_mul (of_nat vcpus) (GICR_FRAMES * GICR_FRAME) of
              None \<Rightarrow> False
            | Some span \<Rightarrow> (case checked_add (gl_gicr_rd_base l) span of
                Some need \<Rightarrow> need \<le> gl_gicr_end l
              | None \<Rightarrow> False)))"

definition gl_in_window :: "GicLayout \<Rightarrow> u64 \<Rightarrow> bool" where
  "gl_in_window l ipa \<longleftrightarrow>
     (ipa \<ge> gl_gicd_base l \<and> ipa < gl_gicd_base l + gl_gicd_len l) \<or>
     (ipa \<ge> gl_gicr_rd_base l \<and> ipa < gl_gicr_end l)"

definition gl_frame_of :: "GicLayout \<Rightarrow> u64 \<Rightarrow> nat \<Rightarrow> (GicFrame \<times> u64) option" where
  "gl_frame_of l ipa vcpus =
     (if \<not> gl_in_window l ipa then None
      else if ipa < gl_gicr_rd_base l then Some (Dist, ipa - gl_gicd_base l)
      else (let off = ipa - gl_gicr_rd_base l; pair = GICR_FRAMES * GICR_FRAME; n = off div pair in
        if n \<ge> of_nat vcpus then None
        else (let within = off mod pair in
          Some (if within < GICR_FRAME then (Redist (unat n), within) else (Sgi (unat n), within - GICR_FRAME)))))"

section \<open>State\<close>

record RedistBank =
  rb_asleep :: bool
  rb_enabled :: u32
  rb_group :: u32
  rb_priority :: "u8 list"
  rb_icfgr :: "u32 list"

definition rb_at_reset :: RedistBank where
  "rb_at_reset = \<lparr>rb_asleep = True, rb_enabled = 0, rb_group = 0, rb_priority = replicate FIRST_SPI 0,
     rb_icfgr = replicate (FIRST_SPI div 16) 0\<rparr>"

record VirtGic =
  vg_layout :: GicLayout
  vg_ctlr :: u32
  vg_redist :: "RedistBank list"
  vg_enabled :: "u32 list"
  vg_group :: "u32 list"
  vg_priority :: "u8 list"
  vg_icfgr :: "u32 list"
  vg_irouter :: "u64 list"

definition vg_new :: "nat \<Rightarrow> GicLayout \<Rightarrow> VirtGic" where
  "vg_new vcpus l = \<lparr>vg_layout = l, vg_ctlr = 0, vg_redist = replicate vcpus rb_at_reset,
     vg_enabled = replicate GIC_WORDS 0, vg_group = replicate GIC_WORDS 0, vg_priority = replicate GIC_INTIDS 0,
     vg_icfgr = replicate (GIC_INTIDS div 16) 0, vg_irouter = replicate (GIC_INTIDS - FIRST_SPI) 0\<rparr>"

text \<open>Reading an element: an index past the end panics.\<close>

definition idx :: "'a list \<Rightarrow> nat \<Rightarrow> ('a \<Rightarrow> ('b, 'e) result) \<Rightarrow> ('b, 'e) result" where
  "idx xs i k = (if i < length xs then k (xs ! i) else Panic)"

definition count_ones :: "u32 \<Rightarrow> u32" where
  "count_ones w = of_nat (length (filter (bit w) [0..<32]))"

definition vg_is_enabled :: "VirtGic \<Rightarrow> nat \<Rightarrow> u32 \<Rightarrow> bool option" where
  "vg_is_enabled g vcpu intid =
     (let i = unat intid in
      if i \<ge> GIC_INTIDS then Some False
      else if i < FIRST_SPI then
        (case vec_get (vg_redist g) vcpu of
           Some r \<Rightarrow> Some (rb_enabled r AND push_bit i 1 \<noteq> 0)
         | None \<Rightarrow> Some False)
      else map_option (\<lambda>w. w AND push_bit (i mod 32) 1 \<noteq> 0) (vec_get (vg_enabled g) (i div 32)))"

definition vg_spi_route :: "VirtGic \<Rightarrow> u32 \<Rightarrow> SpiRoute option option" where
  "vg_spi_route g intid =
     (let i = unat intid in
      if \<not> (FIRST_SPI \<le> i \<and> i < GIC_INTIDS) then Some None
      else map_option (\<lambda>v. Some (irouter_decode v)) (vec_get (vg_irouter g) (i - FIRST_SPI)))"

definition gicr_typer :: "nat \<Rightarrow> nat \<Rightarrow> u64" where
  "gicr_typer vcpus n =
     (let last = (if n + 1 = vcpus then push_bit 4 1 else 0) in
      last OR push_bit 8 (of_nat n) OR push_bit 32 (vcpu_affinity n))"

section \<open>Decoding an offset\<close>

definition irouter_index :: "u64 \<Rightarrow> nat option" where
  "irouter_index off =
     (let first = 0x6000 + 8 * of_nat FIRST_SPI; past = 0x6000 + 8 * of_nat GIC_INTIDS in
      if off < first \<or> off \<ge> past \<or> off mod 8 \<noteq> 0 then None else Some (unat ((off - first) div 8)))"

definition word_index :: "u64 \<Rightarrow> u64 \<Rightarrow> nat \<Rightarrow> nat option" where
  "word_index off base n_words =
     (if off < base \<or> off \<ge> base + 4 * of_nat n_words \<or> off mod 4 \<noteq> 0 then None else Some (unat ((off - base) div 4)))"

datatype DistWord = Spi nat | BankedRes0 | Elsewhere

definition dist_word :: "u64 \<Rightarrow> u64 \<Rightarrow> nat \<Rightarrow> nat \<Rightarrow> DistWord" where
  "dist_word off base n_words per_word =
     (let banked_words = FIRST_SPI div per_word in
      case word_index off base n_words of
        Some w \<Rightarrow> if w \<ge> banked_words then Spi w else BankedRes0
      | None \<Rightarrow> Elsewhere)"

definition dist_word_index :: "u64 \<Rightarrow> u64 \<Rightarrow> nat \<Rightarrow> nat \<Rightarrow> nat option" where
  "dist_word_index off base n_words per_word =
     (case dist_word off base n_words per_word of Spi w \<Rightarrow> Some w | BankedRes0 \<Rightarrow> None | Elsewhere \<Rightarrow> None)"

definition dist_banks :: "(u64 \<times> nat \<times> nat) list" where
  "dist_banks = [(0x080, GIC_WORDS, 32), (0x100, GIC_WORDS, 32), (0x180, GIC_WORDS, 32), (0x200, GIC_WORDS, 32),
     (0x280, GIC_WORDS, 32), (0x300, GIC_WORDS, 32), (0x380, GIC_WORDS, 32), (0xc00, GIC_INTIDS div 16, 16)]"

definition dist_banked_res0 :: "u64 \<Rightarrow> bool" where
  "dist_banked_res0 off \<longleftrightarrow>
     list_ex (\<lambda>(base, n_words, per). dist_word off base n_words per = BankedRes0) dist_banks \<or>
     (off \<ge> 0x400 \<and> off < 0x400 + of_nat FIRST_SPI)"

definition dist_residue :: "u64 \<Rightarrow> bool" where
  "dist_residue off \<longleftrightarrow>
     dist_word_index off 0x200 GIC_WORDS 32 \<noteq> None \<or> dist_word_index off 0x280 GIC_WORDS 32 \<noteq> None \<or>
     dist_word_index off 0x300 GIC_WORDS 32 \<noteq> None \<or> dist_word_index off 0x380 GIC_WORDS 32 \<noteq> None"

definition prio_base :: "u64 \<Rightarrow> nat" where
  "prio_base off = unat ((off - 0x400) AND NOT 3)"

section \<open>Reads\<close>

definition GICD_TYPER_VALUE :: u32 where
  "GICD_TYPER_VALUE = of_nat (GIC_INTIDS div 32 - 1) OR push_bit 19 9 OR push_bit 25 1"

definition dist_bank_read :: "VirtGic \<Rightarrow> u64 \<Rightarrow> (u64, unit) result" where
  "dist_bank_read g off =
     (if dist_banked_res0 off then Ok 0
      else case dist_word_index off 0x080 GIC_WORDS 32 of Some w \<Rightarrow> idx (vg_group g) w (\<lambda>v. Ok (ucast v))
      | None \<Rightarrow> (case dist_word_index off 0x100 GIC_WORDS 32 of Some w \<Rightarrow> idx (vg_enabled g) w (\<lambda>v. Ok (ucast v))
      | None \<Rightarrow> (case dist_word_index off 0x180 GIC_WORDS 32 of Some w \<Rightarrow> idx (vg_enabled g) w (\<lambda>v. Ok (ucast v))
      | None \<Rightarrow>
          if dist_residue off then Ok 0
          else (case dist_word_index off 0xc00 (GIC_INTIDS div 16) 16 of Some w \<Rightarrow> idx (vg_icfgr g) w (\<lambda>v. Ok (ucast v))
          | None \<Rightarrow>
              if 0x400 + of_nat FIRST_SPI \<le> off \<and> off < 0x400 + of_nat GIC_INTIDS then
                (let p = vg_priority g; b = prio_base off in
                 idx p b (\<lambda>b0. idx p (b + 1) (\<lambda>b1. idx p (b + 2) (\<lambda>b2. idx p (b + 3) (\<lambda>b3.
                   Ok (ucast b0 OR push_bit 8 (ucast b1) OR push_bit 16 (ucast b2) OR push_bit 24 (ucast b3)))))))
              else Err ()))))"

definition dist_read :: "VirtGic \<Rightarrow> u64 \<Rightarrow> (u64, unit) result" where
  "dist_read g off =
     (case irouter_index off of
        Some i \<Rightarrow> idx (vg_irouter g) i Ok
      | None \<Rightarrow>
          if off = 0x0000 then Ok (ucast (vg_ctlr g OR push_bit 4 1))
          else if off = 0x0004 then Ok (ucast GICD_TYPER_VALUE)
          else if off = 0x0008 then Ok 0x5ba1
          else if off = 0x000c then Ok 0
          else if off = 0xffe8 then Ok 0x30
          else dist_bank_read g off)"

definition redist_read :: "VirtGic \<Rightarrow> nat \<Rightarrow> u64 \<Rightarrow> (u64, unit) result" where
  "redist_read g n off =
     (case vec_get (vg_redist g) n of
        None \<Rightarrow> Err ()
      | Some bank \<Rightarrow>
          if off = 0x0000 then Ok 0
          else if off = 0x0004 then Ok 0x5ba1
          else if off = 0x0008 then Ok (gicr_typer (length (vg_redist g)) n)
          else if off = 0x0014 then Ok (if rb_asleep bank then 6 else 0)
          else if off = 0xffe8 then Ok 0x30
          else Err ())"

definition sgi_read :: "VirtGic \<Rightarrow> nat \<Rightarrow> u64 \<Rightarrow> (u64, unit) result" where
  "sgi_read g n off =
     (case vec_get (vg_redist g) n of
        None \<Rightarrow> Err ()
      | Some bank \<Rightarrow>
          if off = 0x0080 then Ok (ucast (rb_group bank))
          else if off = 0x0100 \<or> off = 0x0180 then Ok (ucast (rb_enabled bank))
          else if off = 0x0200 \<or> off = 0x0280 \<or> off = 0x0300 \<or> off = 0x0380 then Ok 0
          else if off = 0x0c00 then idx (rb_icfgr bank) 0 (\<lambda>v. Ok (ucast v))
          else if off = 0x0c04 then idx (rb_icfgr bank) 1 (\<lambda>v. Ok (ucast v))
          else if 0x400 \<le> off \<and> off < 0x400 + of_nat FIRST_SPI then
            (let p = rb_priority bank; b = prio_base off in
             idx p b (\<lambda>b0. idx p (b + 1) (\<lambda>b1. idx p (b + 2) (\<lambda>b2. idx p (b + 3) (\<lambda>b3.
               Ok (ucast (ucast b0 OR push_bit 8 (ucast b1) OR push_bit 16 (ucast b2) OR push_bit 24 (ucast b3) :: u32)))))))
          else Err ())"

record Unhandled =
  uh_frame :: string
  uh_offset :: u64

definition vg_mmio_read :: "VirtGic \<Rightarrow> u64 \<Rightarrow> u64 \<Rightarrow> (u64, Unhandled) result" where
  "vg_mmio_read g ipa sz =
     (case gl_frame_of (vg_layout g) ipa (length (vg_redist g)) of
        None \<Rightarrow> Err \<lparr>uh_frame = ''outside every emulated GIC frame'', uh_offset = ipa\<rparr>
      | Some (frame, off) \<Rightarrow>
          map_ok_err id (\<lambda>_. \<lparr>uh_frame = gf_name frame, uh_offset = off\<rparr>)
            (case frame of
               Dist \<Rightarrow> dist_read g off
             | Redist n \<Rightarrow> redist_read g n off
             | Sgi n \<Rightarrow> sgi_read g n off))"

section \<open>Writes\<close>

definition set_enabled :: "VirtGic \<Rightarrow> nat \<Rightarrow> u32 \<Rightarrow> (u32, unit) result \<times> VirtGic" where
  "set_enabled g w bits =
     (if w < length (vg_enabled g) then
        (Ok (count_ones (bits AND NOT (vg_enabled g ! w))), g\<lparr>vg_enabled := (vg_enabled g)[w := vg_enabled g ! w OR bits]\<rparr>)
      else (Panic, g))"

text \<open>Writing an element: an index past the end panics.\<close>

definition put :: "'a list \<Rightarrow> nat \<Rightarrow> 'a \<Rightarrow> ('a list \<Rightarrow> VirtGic) \<Rightarrow> VirtGic \<Rightarrow> (u32, unit) result \<times> VirtGic" where
  "put xs i v k g = (if i < length xs then (Ok 0, k (xs[i := v])) else (Panic, g))"

definition put4 :: "u8 list \<Rightarrow> nat \<Rightarrow> u64 \<Rightarrow> u8 list option" where
  "put4 p b v =
     (if b + 3 < length p
      then Some (p[b := ucast v, b + 1 := ucast (drop_bit 8 v), b + 2 := ucast (drop_bit 16 v), b + 3 := ucast (drop_bit 24 v)])
      else None)"

definition dist_write :: "VirtGic \<Rightarrow> u64 \<Rightarrow> u64 \<Rightarrow> (u32, unit) result \<times> VirtGic" where
  "dist_write g off val =
     (case irouter_index off of
        Some i \<Rightarrow> put (vg_irouter g) i val (\<lambda>xs. g\<lparr>vg_irouter := xs\<rparr>) g
      | None \<Rightarrow>
     (let v = ucast val :: u32 in
      if off = 0x0000 then (Ok 0, g\<lparr>vg_ctlr := v AND 3\<rparr>)
      else if off = 0x0004 \<or> off = 0x0008 \<or> off = 0x000c \<or> off = 0xffe8 then (Ok 0, g)
      else if dist_banked_res0 off then (Ok 0, g)
      else case dist_word_index off 0x080 GIC_WORDS 32 of Some w \<Rightarrow> put (vg_group g) w v (\<lambda>xs. g\<lparr>vg_group := xs\<rparr>) g
      | None \<Rightarrow> (case dist_word_index off 0x100 GIC_WORDS 32 of Some w \<Rightarrow> set_enabled g w v
      | None \<Rightarrow> (case dist_word_index off 0x180 GIC_WORDS 32 of
          Some w \<Rightarrow> put (vg_enabled g) w (vg_enabled g ! w AND NOT v) (\<lambda>xs. g\<lparr>vg_enabled := xs\<rparr>) g
      | None \<Rightarrow>
          if dist_residue off then (Ok 0, g)
          else (case dist_word_index off 0xc00 (GIC_INTIDS div 16) 16 of
              Some w \<Rightarrow> put (vg_icfgr g) w v (\<lambda>xs. g\<lparr>vg_icfgr := xs\<rparr>) g
            | None \<Rightarrow>
                if 0x400 + of_nat FIRST_SPI \<le> off \<and> off < 0x400 + of_nat GIC_INTIDS then
                  (case put4 (vg_priority g) (prio_base off) val of
                     Some p \<Rightarrow> (Ok 0, g\<lparr>vg_priority := p\<rparr>)
                   | None \<Rightarrow> (Panic, g))
                else (Err (), g))))))"

definition set_bank :: "VirtGic \<Rightarrow> nat \<Rightarrow> RedistBank \<Rightarrow> VirtGic" where
  "set_bank g n b = g\<lparr>vg_redist := (vg_redist g)[n := b]\<rparr>"

definition redist_write :: "VirtGic \<Rightarrow> nat \<Rightarrow> u64 \<Rightarrow> u32 \<Rightarrow> (u32, unit) result \<times> VirtGic" where
  "redist_write g n off val =
     (case vec_get (vg_redist g) n of
        None \<Rightarrow> (Err (), g)
      | Some bank \<Rightarrow>
          if off = 0x0014 then (Ok 0, set_bank g n (bank\<lparr>rb_asleep := (val AND 2 \<noteq> 0)\<rparr>))
          else if off = 0x0000 \<or> off = 0x0004 \<or> off = 0x0008 \<or> off = 0xffe8 then (Ok 0, g)
          else (Err (), g))"

definition sgi_write :: "VirtGic \<Rightarrow> nat \<Rightarrow> u64 \<Rightarrow> u32 \<Rightarrow> (u32, unit) result \<times> VirtGic" where
  "sgi_write g n off val =
     (case vec_get (vg_redist g) n of
        None \<Rightarrow> (Err (), g)
      | Some bank \<Rightarrow>
          if off = 0x0080 then (Ok 0, set_bank g n (bank\<lparr>rb_group := val\<rparr>))
          else if off = 0x0100 then
            (Ok (count_ones (val AND NOT (rb_enabled bank))), set_bank g n (bank\<lparr>rb_enabled := rb_enabled bank OR val\<rparr>))
          else if off = 0x0180 then (Ok 0, set_bank g n (bank\<lparr>rb_enabled := rb_enabled bank AND NOT val\<rparr>))
          else if off = 0x0200 \<or> off = 0x0280 \<or> off = 0x0300 \<or> off = 0x0380 then (Ok 0, g)
          else if off = 0x0c00 then put (rb_icfgr bank) 0 val (\<lambda>xs. set_bank g n (bank\<lparr>rb_icfgr := xs\<rparr>)) g
          else if off = 0x0c04 then put (rb_icfgr bank) 1 val (\<lambda>xs. set_bank g n (bank\<lparr>rb_icfgr := xs\<rparr>)) g
          else if 0x400 \<le> off \<and> off < 0x400 + of_nat FIRST_SPI then
            (case put4 (rb_priority bank) (prio_base off) (ucast val) of
               Some p \<Rightarrow> (Ok 0, set_bank g n (bank\<lparr>rb_priority := p\<rparr>))
             | None \<Rightarrow> (Panic, g))
          else (Err (), g))"

definition vg_mmio_write :: "VirtGic \<Rightarrow> u64 \<Rightarrow> u64 \<Rightarrow> u64 \<Rightarrow> (u32, Unhandled) result \<times> VirtGic" where
  "vg_mmio_write g ipa sz val =
     (case gl_frame_of (vg_layout g) ipa (length (vg_redist g)) of
        None \<Rightarrow> (Err \<lparr>uh_frame = ''outside every emulated GIC frame'', uh_offset = ipa\<rparr>, g)
      | Some (frame, off) \<Rightarrow>
          apfst (map_ok_err id (\<lambda>_. \<lparr>uh_frame = gf_name frame, uh_offset = off\<rparr>))
            (case frame of
               Dist \<Rightarrow> dist_write g off val
             | Redist n \<Rightarrow> redist_write g n off (ucast val)
             | Sgi n \<Rightarrow> sgi_write g n off (ucast val)))"

section \<open>Shape\<close>

definition rb_ok :: "RedistBank \<Rightarrow> bool" where
  "rb_ok b \<longleftrightarrow> length (rb_priority b) = FIRST_SPI \<and> length (rb_icfgr b) = FIRST_SPI div 16"

definition vg_ok :: "VirtGic \<Rightarrow> bool" where
  "vg_ok g \<longleftrightarrow> length (vg_redist g) \<le> 255 \<and> list_all rb_ok (vg_redist g) \<and>
     length (vg_enabled g) = GIC_WORDS \<and> length (vg_group g) = GIC_WORDS \<and> length (vg_priority g) = GIC_INTIDS \<and>
     length (vg_icfgr g) = GIC_INTIDS div 16 \<and> length (vg_irouter g) = GIC_INTIDS - FIRST_SPI \<and>
     vg_enabled g ! 0 = 0"

lemmas gic_consts = GIC_INTIDS_def GIC_WORDS_def FIRST_SPI_def

lemma strided_index:
  fixes x b :: nat
  assumes s: "0 < s" "s dvd b"
  shows "(if x < b \<or> b + s * n \<le> x \<or> x mod s \<noteq> 0 then None else Some ((x - b) div s)) = Some i \<longleftrightarrow>
     i < n \<and> x = b + s * i"
proof
  assume h: "(if x < b \<or> b + s * n \<le> x \<or> x mod s \<noteq> 0 then None else Some ((x - b) div s)) = Some i"
  then have x: "b \<le> x" "x < b + s * n" "s dvd x" "i = (x - b) div s" by (auto split: if_splits)
  then have "s dvd (x - b)" using s(2) by (simp add: dvd_diff_nat)
  then have e: "x - b = s * i" using x(4) by simp
  then have "s * i < s * n" using x(1,2) by linarith
  then show "i < n \<and> x = b + s * i" using e x(1) by simp
next
  assume h: "i < n \<and> x = b + s * i"
  then have "s * i < s * n" using s(1) by simp
  then show "(if x < b \<or> b + s * n \<le> x \<or> x mod s \<noteq> 0 then None else Some ((x - b) div s)) = Some i"
    using h s by (simp add: mod_add_left_eq dvd_imp_mod_0)
qed

lemma word_index_iff:
  assumes fit: "unat base + 4 * n < 2 ^ 64" and al: "unat base mod 4 = 0"
  shows "word_index off base n = Some w \<longleftrightarrow> w < n \<and> unat off = unat base + 4 * w"
proof -
  have n: "unat (of_nat n :: u64) = n" using fit by (simp add: unsigned_of_nat take_bit_nat_eq_self)
  have m: "unat (4 * of_nat n :: u64) = 4 * n" using fit n by (subst unat_mult_exact) simp_all
  have past: "unat (base + 4 * of_nat n) = unat base + 4 * n" using fit m by (subst unat_add_exact) simp_all
  have md: "off mod 4 \<noteq> 0 \<longleftrightarrow> unat off mod 4 \<noteq> 0" using unat_mod [of off 4] by (simp add: word_unat_eq_iff)
  have e: "word_index off base n =
      (if unat off < unat base \<or> unat base + 4 * n \<le> unat off \<or> unat off mod 4 \<noteq> 0 then None
       else Some ((unat off - unat base) div 4))"
    using past md by (auto simp: word_index_def word_less_nat_alt word_le_nat_alt unat_div unat_sub)
  show ?thesis unfolding e by (rule strided_index) (simp_all add: dvd_eq_mod_eq_0 al)
qed

lemma dist_word_index_iff:
  assumes "unat base + 4 * n < 2 ^ 64" "unat base mod 4 = 0"
  shows "dist_word_index off base n per = Some w \<longleftrightarrow> FIRST_SPI div per \<le> w \<and> w < n \<and> unat off = unat base + 4 * w"
    and "dist_word off base n per = BankedRes0 \<longleftrightarrow> (\<exists>w. w < FIRST_SPI div per \<and> w < n \<and> unat off = unat base + 4 * w)"
proof -
  have d: "dist_word_index off base n per = Some w \<longleftrightarrow> word_index off base n = Some w \<and> FIRST_SPI div per \<le> w" for w
    by (cases "word_index off base n") (auto simp: dist_word_index_def dist_word_def Let_def)
  then show "dist_word_index off base n per = Some w \<longleftrightarrow> FIRST_SPI div per \<le> w \<and> w < n \<and> unat off = unat base + 4 * w"
    unfolding word_index_iff [OF assms] by blast
  have "dist_word off base n per = BankedRes0 \<longleftrightarrow> (\<exists>w. word_index off base n = Some w \<and> w < FIRST_SPI div per)"
    by (cases "word_index off base n") (auto simp: dist_word_def Let_def)
  then show "dist_word off base n per = BankedRes0 \<longleftrightarrow> (\<exists>w. w < FIRST_SPI div per \<and> w < n \<and> unat off = unat base + 4 * w)"
    unfolding word_index_iff [OF assms] by blast
qed

lemma irouter_index_iff: "irouter_index off = Some i \<longleftrightarrow> i < 256 \<and> unat off = 0x6100 + 8 * i"
proof -
  have md: "off mod 8 \<noteq> 0 \<longleftrightarrow> unat off mod 8 \<noteq> 0" using unat_mod [of off 8] by (simp add: word_unat_eq_iff)
  have e: "irouter_index off = (if unat off < 0x6100 \<or> 0x6900 \<le> unat off \<or> unat off mod 8 \<noteq> 0 then None
      else Some ((unat off - 0x6100) div 8))"
    using md by (auto simp: irouter_index_def Let_def gic_consts word_less_nat_alt word_le_nat_alt unat_div unat_sub)
  show ?thesis unfolding e using strided_index [of 8 "0x6100" "unat off" 256 i] by simp
qed

lemma prio_base_le:
  assumes "0x400 \<le> off" shows "prio_base off \<le> unat off - 0x400" "prio_base off mod 4 = 0"
    "unat off - 0x400 < prio_base off + 4"
proof -
  have "unat (off - 0x400) = unat off - 0x400" using assms by (simp add: unat_sub)
  moreover have "unat (x AND NOT 3) = 4 * (unat x div 4)" for x :: u64
  proof -
    have "x AND NOT 3 = push_bit 2 (drop_bit 2 x)"
    proof (rule bit_word_eqI)
      fix n
      have "(3 :: u64) = field_mask 0 2" by (simp add: field_mask_def)
      then have b3: "bit (3 :: u64) n \<longleftrightarrow> n < 2" by (simp only: bit_field_mask) auto
      show "bit (x AND NOT 3) n = bit (push_bit 2 (drop_bit 2 x)) n" if "n < LENGTH(64)"
        unfolding bit_and_iff bit_not_iff b3 bit_push_bit_iff bit_drop_bit_eq comp_apply
        using that le_add_diff_inverse [of 2 n] bit_imp_le_length [of x n] by (metis not_le possible_bit_word)
    qed
    then have e: "x AND NOT 3 = drop_bit 2 x * 4" by (simp add: push_bit_eq_mult)
    have d: "unat (drop_bit 2 x) = unat x div 4" by (simp add: drop_bit_eq_div unat_div)
    have "unat (drop_bit 2 x) * unat (4 :: u64) < 2 ^ 64"
      using div_times_less_eq_dividend [of "unat x" 4] unsigned_less [of x, where ?'a = nat] unfolding d by simp
    then show ?thesis unfolding e using d by (subst unat_mult_exact) simp_all
  qed
  ultimately have e: "prio_base off = 4 * ((unat off - 0x400) div 4)" by (simp add: prio_base_def)
  show "prio_base off \<le> unat off - 0x400" "prio_base off mod 4 = 0" "unat off - 0x400 < prio_base off + 4"
    unfolding e by presburger+
qed

lemma banked_iff:
  "dist_banked_res0 off \<longleftrightarrow>
     unat off \<in> {0x080, 0x100, 0x180, 0x200, 0x280, 0x300, 0x380, 0xc00, 0xc04} \<or> (0x400 \<le> unat off \<and> unat off < 0x420)"
proof -
  have one: "(\<exists>w. w < FIRST_SPI div 32 \<and> w < GIC_WORDS \<and> unat off = x + 4 * w) \<longleftrightarrow> unat off = x" for x
    by (auto simp: gic_consts)
  have two: "(\<exists>w<2. w < 18 \<and> unat off = 0xc00 + 4 * w) \<longleftrightarrow> unat off = 0xc00 \<or> unat off = 0xc04"
    by (auto simp: less_2_cases_iff)
  show ?thesis
    unfolding dist_banked_res0_def dist_banks_def
    by (simp add: dist_word_index_iff(2) one two gic_consts word_less_nat_alt word_le_nat_alt)
qed

text \<open>The banks of the distributor by the number of the offset.\<close>

lemma bank_iff:
  "dist_word_index off 0x080 GIC_WORDS 32 = Some w \<longleftrightarrow> 1 \<le> w \<and> w < 9 \<and> unat off = 0x080 + 4 * w"
  "dist_word_index off 0x100 GIC_WORDS 32 = Some w \<longleftrightarrow> 1 \<le> w \<and> w < 9 \<and> unat off = 0x100 + 4 * w"
  "dist_word_index off 0x180 GIC_WORDS 32 = Some w \<longleftrightarrow> 1 \<le> w \<and> w < 9 \<and> unat off = 0x180 + 4 * w"
  "dist_word_index off 0xc00 (GIC_INTIDS div 16) 16 = Some w \<longleftrightarrow> 2 \<le> w \<and> w < 18 \<and> unat off = 0xc00 + 4 * w"
  by (simp_all add: dist_word_index_iff(1) gic_consts)

lemma off_eq: "off = numeral k \<longleftrightarrow> unat off = unat (numeral k :: u64)" for off :: u64
  by (simp add: word_unat_eq_iff)

lemma isen_other:
  assumes "dist_word_index off 0x100 GIC_WORDS 32 = Some w \<or> dist_word_index off 0x180 GIC_WORDS 32 = Some w"
  shows "irouter_index off = None" "\<not> dist_banked_res0 off" "dist_word_index off 0x080 GIC_WORDS 32 = None"
    "off \<notin> {0, 4, 8, 0xc, 0xffe8}" "dist_word_index off 0x180 GIC_WORDS 32 = Some w \<Longrightarrow> dist_word_index off 0x100 GIC_WORDS 32 = None"
proof -
  have o: "1 \<le> w" "w < 9" "unat off = 0x100 + 4 * w \<or> unat off = 0x180 + 4 * w" using assms by (auto simp: bank_iff)
  have "irouter_index off \<noteq> Some i" for i using o by (auto simp: irouter_index_iff)
  then show "irouter_index off = None" by auto
  show "\<not> dist_banked_res0 off" using o unfolding banked_iff by auto
  have "dist_word_index off 0x080 GIC_WORDS 32 \<noteq> Some v" for v using o by (auto simp: bank_iff)
  then show "dist_word_index off 0x080 GIC_WORDS 32 = None" by auto
  show "off \<notin> {0, 4, 8, 0xc, 0xffe8}" using o by auto
  have "dist_word_index off 0x100 GIC_WORDS 32 \<noteq> Some v" if "dist_word_index off 0x180 GIC_WORDS 32 = Some w" for v
    using that by (auto simp: bank_iff)
  then show "dist_word_index off 0x180 GIC_WORDS 32 = Some w \<Longrightarrow> dist_word_index off 0x100 GIC_WORDS 32 = None" by auto
qed

lemma dist_write_enabled:
  assumes "vg_ok g"
  shows "vg_enabled (snd (dist_write g off val)) =
     (case dist_word_index off 0x100 GIC_WORDS 32 of Some w \<Rightarrow> (vg_enabled g)[w := vg_enabled g ! w OR ucast val]
      | None \<Rightarrow> (case dist_word_index off 0x180 GIC_WORDS 32 of
           Some w \<Rightarrow> (vg_enabled g)[w := vg_enabled g ! w AND NOT (ucast val)] | None \<Rightarrow> vg_enabled g))"
proof -
  have l: "length (vg_enabled g) = 9" using assms by (simp add: vg_ok_def gic_consts)
  consider (set) w where "dist_word_index off 0x100 GIC_WORDS 32 = Some w"
    | (clear) w where "dist_word_index off 0x180 GIC_WORDS 32 = Some w"
    | (other) "dist_word_index off 0x100 GIC_WORDS 32 = None" "dist_word_index off 0x180 GIC_WORDS 32 = None" by blast
  then show ?thesis
  proof cases
    case (set w)
    then have "w < 9" by (simp add: bank_iff)
    then show ?thesis using set isen_other [OF disjI1 [OF set]] l by (simp add: dist_write_def Let_def set_enabled_def)
  next
    case (clear w)
    then have "w < 9" by (simp add: bank_iff)
    then show ?thesis using clear isen_other [OF disjI2 [OF clear]] isen_other(5) [OF disjI2 [OF clear] clear] l
      by (simp add: dist_write_def Let_def put_def)
  next
    case other
    then show ?thesis by (auto simp: dist_write_def Let_def put_def split: option.splits)
  qed
qed

lemma put_ok: "i < length xs \<Longrightarrow> put xs i v k g = (Ok 0, k (xs[i := v]))" by (simp add: put_def)

lemma dist_write_no_panic:
  assumes g: "vg_ok g"
  shows "fst (dist_write g off val) \<noteq> Panic"
proof -
  have l: "length (vg_enabled g) = 9" "length (vg_group g) = 9" "length (vg_icfgr g) = 18" "length (vg_irouter g) = 256"
    "length (vg_priority g) = 288" using g by (simp_all add: vg_ok_def gic_consts)
  have p: "put4 (vg_priority g) (prio_base off) val \<noteq> None" if "0x400 + of_nat FIRST_SPI \<le> off" "off < 0x400 + of_nat GIC_INTIDS"
  proof -
    have "0x400 \<le> off" "unat off < 0x400 + 288" using that by (simp_all add: gic_consts word_le_nat_alt word_less_nat_alt)
    then have "prio_base off < 288" "prio_base off mod 4 = 0" using prio_base_le [of off] by (auto simp: word_le_nat_alt)
    then have "prio_base off + 3 < 288" by presburger
    then show ?thesis by (simp add: put4_def l)
  qed
  show ?thesis
    using p by (auto simp: dist_write_def Let_def put_def set_enabled_def l bank_iff irouter_index_iff
        split: option.splits dest: sym)
qed

lemma dist_write_err: "fst (dist_write g off val) = Err e \<Longrightarrow> snd (dist_write g off val) = g"
proof -
  have "case dist_write g off val of (r, g') \<Rightarrow> r = Err e \<longrightarrow> g' = g"
    by (simp add: dist_write_def Let_def put_def set_enabled_def split: option.split)
  then show "fst (dist_write g off val) = Err e \<Longrightarrow> snd (dist_write g off val) = g" by (simp add: case_prod_beta)
qed

lemma put4_length: "put4 p b v = Some q \<Longrightarrow> length q = length p"
  by (auto simp: put4_def split: if_splits)

text \<open>Every result of a distributor write is the device with one field of the same length replaced.\<close>

inductive same_shape :: "VirtGic \<Rightarrow> VirtGic \<Rightarrow> bool" for g where
  same: "same_shape g g"
| ctlr: "same_shape g (g\<lparr>vg_ctlr := c\<rparr>)"
| enabled: "length xs = length (vg_enabled g) \<Longrightarrow> same_shape g (g\<lparr>vg_enabled := xs\<rparr>)"
| group: "length xs = length (vg_group g) \<Longrightarrow> same_shape g (g\<lparr>vg_group := xs\<rparr>)"
| priority: "length ps = length (vg_priority g) \<Longrightarrow> same_shape g (g\<lparr>vg_priority := ps\<rparr>)"
| icfgr: "length xs = length (vg_icfgr g) \<Longrightarrow> same_shape g (g\<lparr>vg_icfgr := xs\<rparr>)"
| irouter: "length rs = length (vg_irouter g) \<Longrightarrow> same_shape g (g\<lparr>vg_irouter := rs\<rparr>)"

lemma dist_write_same_shape: "same_shape g (snd (dist_write g off val))"
  by (simp add: dist_write_def Let_def put_def set_enabled_def put4_length same_shape.intros split: option.split)

lemma dist_write_lengths:
  "length (vg_enabled (snd (dist_write g off val))) = length (vg_enabled g)"
  "length (vg_group (snd (dist_write g off val))) = length (vg_group g)"
  "length (vg_priority (snd (dist_write g off val))) = length (vg_priority g)"
  "length (vg_icfgr (snd (dist_write g off val))) = length (vg_icfgr g)"
  "length (vg_irouter (snd (dist_write g off val))) = length (vg_irouter g)"
  using dist_write_same_shape [of g off val] by (cases rule: same_shape.cases; simp)+

lemma dist_write_frame:
  "vg_redist (snd (dist_write g off val)) = vg_redist g" "vg_layout (snd (dist_write g off val)) = vg_layout g"
  using dist_write_same_shape [of g off val] by (cases rule: same_shape.cases; simp)+

lemma dist_write_word0: "vg_ok g \<Longrightarrow> vg_enabled (snd (dist_write g off val)) ! 0 = vg_enabled g ! 0"
  by (auto simp: dist_write_enabled bank_iff split: option.splits)

lemma dist_write_ok: "vg_ok g \<Longrightarrow> vg_ok (snd (dist_write g off val))"
  using dist_write_word0 [of g off val] by (simp add: vg_ok_def dist_write_frame dist_write_lengths)

lemma set_bank_ok: "vg_ok g \<Longrightarrow> rb_ok b \<Longrightarrow> vg_ok (set_bank g n b)"
  by (cases "n < length (vg_redist g)") (auto simp: vg_ok_def set_bank_def list_all_length nth_list_update)

lemma bank_ok_at: "vg_ok g \<Longrightarrow> vec_get (vg_redist g) n = Some b \<Longrightarrow> rb_ok b"
  by (auto simp: vg_ok_def vec_get_Some list_all_length)

lemma redist_write_ok:
  assumes "vg_ok g"
  shows "fst (redist_write g n off val) \<noteq> Panic" "vg_ok (snd (redist_write g n off val))"
    "fst (redist_write g n off val) = Err e \<Longrightarrow> snd (redist_write g n off val) = g"
  using assms bank_ok_at [OF assms, of n] set_bank_ok [OF assms]
  by (auto simp: redist_write_def rb_ok_def split: option.splits if_splits)

lemma small_prio:
  assumes "0x400 \<le> off" "off < 0x400 + of_nat FIRST_SPI" shows "prio_base off + 3 < FIRST_SPI"
proof -
  have "0x400 \<le> unat off" "unat off < 0x400 + 32" using assms by (simp_all add: gic_consts word_le_nat_alt word_less_nat_alt)
  then have "prio_base off < 32" "prio_base off mod 4 = 0" using prio_base_le [OF assms(1)] by auto
  then show ?thesis unfolding FIRST_SPI_def by presburger
qed

lemma sgi_write_ok:
  assumes "vg_ok g"
  shows "fst (sgi_write g n off val) \<noteq> Panic" "vg_ok (snd (sgi_write g n off val))"
    "fst (sgi_write g n off val) = Err e \<Longrightarrow> snd (sgi_write g n off val) = g"
proof -
  have p: "put4 (rb_priority b) (prio_base off) x \<noteq> None"
    if "vec_get (vg_redist g) n = Some b" "0x400 \<le> off" "off < 0x400 + of_nat FIRST_SPI" for b x
    using bank_ok_at [OF assms that(1)] small_prio [OF that(2,3)] by (simp add: put4_def rb_ok_def)
  have c: "length (rb_icfgr b) = 2" if "vec_get (vg_redist g) n = Some b" for b
    using bank_ok_at [OF assms that] by (simp add: rb_ok_def gic_consts)
  show "fst (sgi_write g n off val) \<noteq> Panic"
  proof (cases "vec_get (vg_redist g) n")
    case (Some b)
    then show ?thesis using p [OF Some, of "ucast val"] c [OF Some] by (auto simp: sgi_write_def put_def)
  qed (simp add: sgi_write_def)
  show "vg_ok (snd (sgi_write g n off val))"
    using assms bank_ok_at [OF assms, of n] set_bank_ok [OF assms]
    by (auto simp: sgi_write_def put_def rb_ok_def put4_length split: option.splits)
  show "fst (sgi_write g n off val) = Err e \<Longrightarrow> snd (sgi_write g n off val) = g"
    by (auto simp: sgi_write_def put_def split: option.splits if_splits)
qed

lemma dist_read_no_panic:
  assumes g: "vg_ok g" shows "dist_read g off \<noteq> Panic"
proof -
  have l: "length (vg_enabled g) = 9" "length (vg_group g) = 9" "length (vg_icfgr g) = 18" "length (vg_irouter g) = 256"
    "length (vg_priority g) = 288" using g by (simp_all add: vg_ok_def gic_consts)
  have p: "prio_base off + 3 < 288" if "0x400 + of_nat FIRST_SPI \<le> off" "off < 0x400 + of_nat GIC_INTIDS"
  proof -
    have "0x400 \<le> off" "unat off < 0x400 + 288" using that by (simp_all add: gic_consts word_le_nat_alt word_less_nat_alt)
    then have "prio_base off < 288" "prio_base off mod 4 = 0" using prio_base_le [of off] by (auto simp: word_le_nat_alt)
    then show ?thesis by presburger
  qed
  show ?thesis
    using p by (auto simp: dist_read_def dist_bank_read_def Let_def idx_def l bank_iff irouter_index_iff split: option.splits)
qed

lemma redist_read_no_panic: "redist_read g n off \<noteq> Panic"
  by (auto simp: redist_read_def split: option.splits)

lemma sgi_read_no_panic:
  assumes "vg_ok g" shows "sgi_read g n off \<noteq> Panic"
  using small_prio [of off] bank_ok_at [OF assms, of n]
  by (auto simp: sgi_read_def idx_def Let_def rb_ok_def FIRST_SPI_def split: option.splits)

lemma vg_new_ok: "n \<le> 255 \<Longrightarrow> vg_ok (vg_new n l)"
  by (simp add: vg_ok_def vg_new_def rb_at_reset_def rb_ok_def gic_consts list_all_length)

text \<open>The layout of the \<open>virt\<close> board with two vCPUs.\<close>

definition demo_gic :: VirtGic where
  "demo_gic = vg_new 2 \<lparr>gl_gicd_base = 0x8000000, gl_gicd_len = 0x10000, gl_gicr_rd_base = 0x80a0000, gl_gicr_end = 0x9000000\<rparr>"

lemma demo_gic_facts:
  "vg_ok demo_gic" "length (vg_redist demo_gic) = 2" "gl_validate (vg_layout demo_gic) 2"
  "gl_frame_of (vg_layout demo_gic) 0x80d0100 2 = Some (Sgi 1, 0x100)"
  "gl_frame_of (vg_layout demo_gic) 0x8006108 2 = Some (Dist, 0x6108)"
proof -
  show "vg_ok demo_gic" unfolding demo_gic_def by (rule vg_new_ok) simp
qed (simp_all add: demo_gic_def vg_new_def gl_validate_def checked_add_def checked_mul_def GICR_FRAMES_def
      GICR_FRAME_def gl_frame_of_def gl_in_window_def Let_def word_le_nat_alt)

section \<open>Properties\<close>

text \<open>C38: The device is total and fails closed. From reset on, a read or write at any address, of any
  width and any value, never indexes out of range, and keeps the shape of the device; a write that is not
  implemented leaves the whole device as it was. A read of the device never depends on the
  width, and the distributor's word for the redistributor-banked interrupts stays zero.
\<close>

theorem gic_total:
  assumes "vg_ok g"
  shows "(n \<le> 255 \<longrightarrow> vg_ok (vg_new n l)) \<and>
     vg_mmio_read g ipa sz \<noteq> Panic \<and> vg_mmio_read g ipa sz = vg_mmio_read g ipa 4 \<and>
     (case vg_mmio_write g ipa sz val of (r, g') \<Rightarrow>
        r \<noteq> Panic \<and> vg_ok g' \<and> vg_layout g' = vg_layout g \<and> length (vg_redist g') = length (vg_redist g) \<and>
        (\<forall>e. r = Err e \<longrightarrow> g' = g))"
proof -
  have rd: "vg_mmio_read g ipa sz \<noteq> Panic"
    using dist_read_no_panic [OF assms] redist_read_no_panic sgi_read_no_panic [OF assms]
    by (auto simp: vg_mmio_read_def map_ok_err_def split: option.splits GicFrame.splits result.splits)
  have wr: "case vg_mmio_write g ipa sz val of (r, g') \<Rightarrow> r \<noteq> Panic \<and> vg_ok g' \<and> (\<forall>e. r = Err e \<longrightarrow> g' = g)"
  proof (cases "gl_frame_of (vg_layout g) ipa (length (vg_redist g))")
    case (Some fo)
    obtain f off where fo: "fo = (f, off)" by (cases fo)
    let ?w = "case f of Dist \<Rightarrow> dist_write g off val | Redist n \<Rightarrow> redist_write g n off (ucast val) | Sgi n \<Rightarrow> sgi_write g n off (ucast val)"
    have "fst ?w \<noteq> Panic" "vg_ok (snd ?w)" "\<And>e. fst ?w = Err e \<Longrightarrow> snd ?w = g"
      using dist_write_no_panic [OF assms] dist_write_ok [OF assms] dist_write_err [of g off val]
        redist_write_ok [OF assms] sgi_write_ok [OF assms] by (cases f; simp)+
    then show ?thesis
      using Some fo by (cases ?w; cases "fst ?w") (auto simp: vg_mmio_write_def map_ok_err_def)
  qed (use assms in \<open>simp add: vg_mmio_write_def\<close>)
  have "vg_layout (snd (vg_mmio_write g ipa sz val)) = vg_layout g \<and>
      length (vg_redist (snd (vg_mmio_write g ipa sz val))) = length (vg_redist g)"
    by (auto simp: vg_mmio_write_def dist_write_frame redist_write_def sgi_write_def put_def set_bank_def
        split: option.splits GicFrame.splits)
  then show ?thesis using vg_new_ok rd wr by (auto simp: vg_mmio_read_def split: prod.splits)
qed

theorem gic_total_witness:
  "vg_mmio_read demo_gic 0x80b0100 1 \<noteq> Panic \<and> fst (vg_mmio_write demo_gic 0x80b0100 8 5) \<noteq> Panic \<and>
   vg_ok (snd (vg_mmio_write demo_gic 0x80b0100 8 5))"
  using gic_total [OF demo_gic_facts(1), of 0 undefined "0x80b0100" 1 0] gic_total [OF demo_gic_facts(1), of 0 undefined "0x80b0100" 8 5]
  by (auto split: prod.splits)

text \<open>The frames of a layout, by the number of the address.\<close>

definition frame_at :: "GicLayout \<Rightarrow> nat \<Rightarrow> GicFrame \<Rightarrow> u64 \<Rightarrow> u64 \<Rightarrow> bool" where
  "frame_at l n f off ipa = (case f of
     Dist \<Rightarrow> off < gl_gicd_len l \<and> unat ipa = unat (gl_gicd_base l) + unat off
   | Redist k \<Rightarrow> k < n \<and> off < GICR_FRAME \<and> unat ipa = unat (gl_gicr_rd_base l) + k * 0x20000 + unat off
   | Sgi k \<Rightarrow> k < n \<and> off < GICR_FRAME \<and> unat ipa = unat (gl_gicr_rd_base l) + k * 0x20000 + 0x10000 + unat off)"

lemma validate_nums:
  assumes v: "gl_validate l n" and n: "n < 2 ^ 32"
  shows "unat (gl_gicd_base l + gl_gicd_len l) = unat (gl_gicd_base l) + unat (gl_gicd_len l)"
    "unat (gl_gicd_base l) + unat (gl_gicd_len l) \<le> unat (gl_gicr_rd_base l)"
    "unat (gl_gicr_rd_base l) + n * 0x20000 \<le> unat (gl_gicr_end l)"
proof -
  have nn: "unat (of_nat n :: u64) = n" using n by (simp add: unsigned_of_nat take_bit_nat_eq_self)
  obtain ge sp need where e: "checked_add (gl_gicd_base l) (gl_gicd_len l) = Some ge" "ge \<le> gl_gicr_rd_base l"
    "checked_mul (of_nat n) (GICR_FRAMES * GICR_FRAME) = Some sp" "checked_add (gl_gicr_rd_base l) sp = Some need" "need \<le> gl_gicr_end l"
    using v by (auto simp: gl_validate_def not_less split: option.splits if_splits)
  show "unat (gl_gicd_base l + gl_gicd_len l) = unat (gl_gicd_base l) + unat (gl_gicd_len l)"
    using e(1) by (metis checked_add_Some checked_add_unat)
  show "unat (gl_gicd_base l) + unat (gl_gicd_len l) \<le> unat (gl_gicr_rd_base l)"
    using checked_add_unat [OF e(1)] e(2) by (simp add: word_le_nat_alt)
  have "unat sp = n * 0x20000" using checked_mul_unat [OF e(3)] nn by (simp add: GICR_FRAMES_def GICR_FRAME_def)
  then show "unat (gl_gicr_rd_base l) + n * 0x20000 \<le> unat (gl_gicr_end l)"
    using checked_add_unat [OF e(4)] e(5) by (simp add: word_le_nat_alt)
qed

lemma frame_of_redist:
  assumes r: "gl_gicr_rd_base l \<le> ipa" "gl_in_window l ipa" and n: "n < 2 ^ 32"
  defines "d \<equiv> unat ipa - unat (gl_gicr_rd_base l)"
  shows "gl_frame_of l ipa n =
    (if n \<le> d div 0x20000 then None
     else Some (if d mod 0x20000 < 0x10000 then (Redist (d div 0x20000), of_nat (d mod 0x20000))
                else (Sgi (d div 0x20000), of_nat (d mod 0x20000 - 0x10000))))"
proof -
  let ?off = "ipa - gl_gicr_rd_base l"
  have nn: "unat (of_nat n :: u64) = n" using n by (simp add: unsigned_of_nat take_bit_nat_eq_self)
  have o: "unat ?off = d" using r(1) by (simp add: d_def unat_sub)
  have p: "GICR_FRAMES * GICR_FRAME = 0x20000" by (simp add: GICR_FRAMES_def GICR_FRAME_def)
  have q: "unat (?off div 0x20000) = d div 0x20000" "unat (?off mod 0x20000) = d mod 0x20000"
    by (simp_all add: unat_div unat_mod o)
  have lt: "?off mod 0x20000 < GICR_FRAME \<longleftrightarrow> d mod 0x20000 < 0x10000" using q by (simp add: word_less_nat_alt GICR_FRAME_def)
  have w: "?off mod 0x20000 = of_nat (d mod 0x20000)" using q(2) by (metis of_nat_unat ucast_id)
  have w2: "?off mod 0x20000 - GICR_FRAME = of_nat (d mod 0x20000 - 0x10000)" if "\<not> d mod 0x20000 < 0x10000"
    using that w by (simp add: GICR_FRAME_def of_nat_diff)
  show ?thesis
    using r w w2 nn q lt unfolding gl_frame_of_def Let_def p by (simp add: word_le_nat_alt not_less [symmetric] word_less_nat_alt)
qed

end
