(* ===== verification/Gicv3_Access.thy ===== *)
theory Gicv3_Access
  imports Gicv3
begin

text \<open>
  What a guest's accesses to the emulated interrupt controller reach: which frame an address is in, which
  enables a write changes, and how a route is written and read back.
\<close>

unbundle bit_operations_syntax

section \<open>Frames\<close>

lemma frame_at_unique: "frame_at l n f off ipa \<Longrightarrow> frame_at l n f off ipa' \<Longrightarrow> ipa = ipa'"
  by (auto simp: frame_at_def word_unat_eq_iff split: GicFrame.splits)

lemma unat_small: "m < 2 ^ 32 \<Longrightarrow> unat (of_nat m :: u64) = m"
  by (simp add: unsigned_of_nat take_bit_nat_eq_self)

lemma frame_of_iff:
  assumes v: "gl_validate l n" and n: "n < 2 ^ 32"
  shows "gl_frame_of l ipa n = Some (f, off) \<longleftrightarrow> frame_at l n f off ipa"
proof -
  note e = validate_nums [OF v n]
  let ?b = "unat (gl_gicd_base l)" and ?r = "unat (gl_gicr_rd_base l)" and ?x = "unat ipa"
  have dist: "gl_in_window l ipa \<longleftrightarrow> ?b \<le> ?x \<and> ?x < ?b + unat (gl_gicd_len l)" if "\<not> gl_gicr_rd_base l \<le> ipa"
    using that e(1) by (auto simp: gl_in_window_def word_le_nat_alt word_less_nat_alt)
  show ?thesis
  proof (cases "gl_gicr_rd_base l \<le> ipa")
    case False
    have x: "?x < ?r" using False by (simp add: word_le_nat_alt)
    have o: "off = ipa - gl_gicd_base l \<longleftrightarrow> ?x = ?b + unat off" if "?b \<le> ?x"
      using that by (auto simp: word_unat_eq_iff unat_sub word_le_nat_alt)
    show ?thesis
      using False dist x o by (cases f) (auto simp: gl_frame_of_def frame_at_def word_less_nat_alt word_le_nat_alt)
  next
    case True
    define d where "d = ?x - ?r"
    have x: "?x = ?r + d" using True by (simp add: d_def word_le_nat_alt)
    have win: "gl_in_window l ipa" if "d div 0x20000 < n"
    proof -
      have "d < n * 0x20000" using that by (simp add: div_less_iff_less_mult)
      then show ?thesis using True e(3) x by (simp add: gl_in_window_def word_less_nat_alt)
    qed
    have F: "gl_frame_of l ipa n =
      (if n \<le> d div 0x20000 then None
       else Some (if d mod 0x20000 < 0x10000 then (Redist (d div 0x20000), of_nat (d mod 0x20000))
                  else (Sgi (d div 0x20000), of_nat (d mod 0x20000 - 0x10000))))"
    proof (cases "gl_in_window l ipa")
      case w: True
      show ?thesis unfolding d_def by (rule frame_of_redist [OF True w n])
    qed (use win in \<open>auto simp: gl_frame_of_def not_less [symmetric]\<close>)
    have u: "unat (of_nat (d mod 0x20000) :: u64) = d mod 0x20000" "unat (of_nat (d mod 0x20000 - 0x10000) :: u64) = d mod 0x20000 - 0x10000"
      by (rule unat_small, simp add: order_less_trans [OF mod_less_divisor] less_imp_diff_less)+
    have split: "d = k * 0x20000 + m \<longleftrightarrow> d div 0x20000 = k \<and> d mod 0x20000 = m" if "m < 0x20000" for k m
      using that by auto
    have eqw: "off = of_nat m \<longleftrightarrow> unat off = m" if "m < 2 ^ 32" for m
      using unat_small [OF that] by (metis of_nat_unat ucast_id)
    show ?thesis
    proof (cases f)
      case Dist
      have "\<not> ?x < ?r" using x by simp
      then have "\<not> (off < gl_gicd_len l \<and> ?x = ?b + unat off)" using e(2) by (auto simp: word_less_nat_alt)
      then show ?thesis using Dist F by (simp add: frame_at_def split: if_splits)
    next
      case (Redist k)
      have "frame_at l n f off ipa \<longleftrightarrow> k < n \<and> unat off < 0x10000 \<and> d = k * 0x20000 + unat off"
        using Redist x by (auto simp: frame_at_def GICR_FRAME_def word_less_nat_alt)
      then show ?thesis
        using Redist F split [of "unat off" k] eqw [of "d mod 0x20000"] by (auto simp: u)
    next
      case (Sgi k)
      have "frame_at l n f off ipa \<longleftrightarrow> k < n \<and> unat off < 0x10000 \<and> d = k * 0x20000 + (0x10000 + unat off)"
        using Sgi x by (auto simp: frame_at_def GICR_FRAME_def word_less_nat_alt)
      then show ?thesis
        using Sgi F split [of "0x10000 + unat off" k] eqw [of "d mod 0x20000 - 0x10000"] by (auto simp: u)
    qed
  qed
qed

lemma frame_vcpu_bound:
  assumes f: "gl_frame_of l ipa n = Some (f, off)" and k: "gf_vcpu f = Some k" and n: "n < 2 ^ 32" shows "k < n"
proof -
  let ?q = "(ipa - gl_gicr_rd_base l) div (GICR_FRAMES * GICR_FRAME)"
  have "\<not> of_nat n \<le> ?q" "unat ?q = k"
    using f k by (auto simp: gl_frame_of_def Let_def gf_vcpu_def split: if_splits)
  then show ?thesis using unat_small [OF n] by (simp add: word_le_nat_alt)
qed

section \<open>Enables\<close>

definition enabled_at :: "VirtGic \<Rightarrow> nat \<Rightarrow> nat \<Rightarrow> bool" where
  "enabled_at g v i \<longleftrightarrow> (if i < 32 then v < length (vg_redist g) \<and> bit (rb_enabled (vg_redist g ! v)) i
     else i < 288 \<and> bit (vg_enabled g ! (i div 32)) (i mod 32))"

lemma is_enabled_at:
  assumes "vg_ok g" shows "vg_is_enabled g v intid = Some (enabled_at g v (unat intid))"
proof -
  have l: "length (vg_enabled g) = 9" using assms by (simp add: vg_ok_def gic_consts)
  have b: "w AND push_bit k 1 \<noteq> 0 \<longleftrightarrow> bit w k" if "k < 32" for w :: u32 and k by (rule and_single_bit) (use that in simp)
  have d: "unat intid div 32 < 9" if "unat intid < 288" using that by (simp add: div_less_iff_less_mult)
  show ?thesis
    unfolding vg_is_enabled_def Let_def gic_consts enabled_at_def vec_get_def l
    using d by (simp only: b mod_less_divisor zero_less_numeral split: if_split option.split) (auto simp: and_exp_eq_0_iff_not_bit)
qed

text \<open>Which interrupts an access to an enable register at \<open>base\<close> is about.\<close>

definition names :: "GicFrame \<Rightarrow> u64 \<Rightarrow> nat \<Rightarrow> nat \<Rightarrow> nat \<Rightarrow> bool" where
  "names f off base v i = (case f of
     Dist \<Rightarrow> 32 \<le> i \<and> i < 288 \<and> unat off = base + 4 * (i div 32)
   | Sgi n \<Rightarrow> i < 32 \<and> v = n \<and> unat off = base
   | Redist n \<Rightarrow> False)"

definition enable_step :: "GicFrame \<Rightarrow> u64 \<Rightarrow> u64 \<Rightarrow> nat \<Rightarrow> nat \<Rightarrow> bool \<Rightarrow> bool" where
  "enable_step f off val v i old =
     (if bit val (i mod 32) \<and> names f off 0x100 v i then True
      else if bit val (i mod 32) \<and> names f off 0x180 v i then False else old)"

lemma bit_low_word: "j < 32 \<Longrightarrow> bit (ucast (val :: u64) :: u32) j \<longleftrightarrow> bit val j"
  by (simp add: bit_ucast_iff)

lemma dist_write_enables:
  assumes g: "vg_ok g"
  shows "enabled_at (snd (dist_write g off val)) v i = enable_step Dist off val v i (enabled_at g v i)"
proof -
  have l: "length (vg_enabled g) = 9" using g by (simp add: vg_ok_def gic_consts)
  have d: "i div 32 < 9 \<longleftrightarrow> i < 288" "1 \<le> i div 32 \<longleftrightarrow> 32 \<le> i" by (auto simp: div_less_iff_less_mult div_le_mono less_eq_div_iff_mult_less_eq)
  have m: "bit (NOT (ucast val :: u32)) (i mod 32) \<longleftrightarrow> \<not> bit val (i mod 32)"
    by (simp add: bit_not_iff bit_low_word)
  consider (set) w where "dist_word_index off 0x100 GIC_WORDS 32 = Some w"
    | (clear) w where "dist_word_index off 0x180 GIC_WORDS 32 = Some w"
    | (other) "dist_word_index off 0x100 GIC_WORDS 32 = None" "dist_word_index off 0x180 GIC_WORDS 32 = None" by blast
  then show ?thesis
  proof cases
    case (set w)
    then have w: "1 \<le> w" "w < 9" "unat off = 0x100 + 4 * w" by (simp_all add: bank_iff)
    then show ?thesis
      using set l d by (auto simp: enabled_at_def dist_write_frame dist_write_enabled [OF g] enable_step_def names_def nth_list_update bit_or_iff bit_low_word)
  next
    case (clear w)
    then have w: "1 \<le> w" "w < 9" "unat off = 0x180 + 4 * w" by (simp_all add: bank_iff)
    then show ?thesis
      using clear l d m isen_other(5) [OF disjI2 [OF clear] clear]
      by (auto simp: enabled_at_def dist_write_frame dist_write_enabled [OF g] enable_step_def names_def nth_list_update bit_and_iff)
  next
    case other
    have "\<not> names Dist off 0x100 v i" "\<not> names Dist off 0x180 v i"
      using other d bank_iff(2,3) [of off "i div 32"] by (auto simp: names_def)
    then show ?thesis
      using other by (simp add: enabled_at_def dist_write_frame dist_write_enabled [OF g] enable_step_def)
  qed
qed

lemma sgi_write_enables:
  assumes n: "n < length (vg_redist g)"
  shows "enabled_at (snd (sgi_write g n off (ucast val))) v i = enable_step (Sgi n) off val v i (enabled_at g v i)"
proof -
  have b: "vec_get (vg_redist g) n = Some (vg_redist g ! n)" using n by (simp add: vec_get_def)
  have m: "bit (NOT (ucast val :: u32)) i \<longleftrightarrow> \<not> bit val i" if "i < 32" using that by (simp add: bit_not_iff bit_low_word)
  have o: "off = 0x100 \<longleftrightarrow> unat off = 0x100" "off = 0x180 \<longleftrightarrow> unat off = 0x180" by (simp_all add: word_unat_eq_iff)
  consider (set) "off = 0x100" | (clear) "off = 0x180" | (other) "off \<noteq> 0x100" "off \<noteq> 0x180" by blast
  then show ?thesis
  proof cases
    case set
    then show ?thesis using n
      by (auto simp: sgi_write_def b set_bank_def enabled_at_def enable_step_def names_def nth_list_update bit_or_iff bit_low_word)
  next
    case clear
    then show ?thesis using n m
      by (auto simp: sgi_write_def b set_bank_def enabled_at_def enable_step_def names_def nth_list_update bit_and_iff)
  next
    case other
    then have "enable_step (Sgi n) off val v i (enabled_at g v i) = enabled_at g v i"
      using o by (simp add: enable_step_def names_def)
    moreover have "vg_enabled (snd (sgi_write g n off (ucast val))) = vg_enabled g \<and>
        map rb_enabled (vg_redist (snd (sgi_write g n off (ucast val)))) = map rb_enabled (vg_redist g)"
      using other n
      by (auto simp: sgi_write_def b set_bank_def put_def map_update list_update_same_conv split: option.split)
    then have "enabled_at (snd (sgi_write g n off (ucast val))) v i = enabled_at g v i"
      unfolding enabled_at_def by (metis length_map nth_map)
    ultimately show ?thesis by simp
  qed
qed

lemma redist_write_enables: "enabled_at (snd (redist_write g n off val)) v i = enabled_at g v i"
proof -
  have "vg_enabled (snd (redist_write g n off val)) = vg_enabled g \<and>
      map rb_enabled (vg_redist (snd (redist_write g n off val))) = map rb_enabled (vg_redist g)"
    by (auto simp: redist_write_def set_bank_def vec_get_Some map_update list_update_same_conv split: option.split)
  then show ?thesis unfolding enabled_at_def by (metis length_map nth_map)
qed

lemma redist_frame:
  "\<exists>b. snd (redist_write g n off x) = g \<or> snd (redist_write g n off x) = set_bank g n b"
  "\<exists>b. snd (sgi_write g n off x) = g \<or> snd (sgi_write g n off x) = set_bank g n b"
  by (auto simp: redist_write_def sgi_write_def put_def split: option.split)

section \<open>Properties\<close>

text \<open>The decode of an address is a partition: in a layout that \<open>validate\<close> accepts, an address
  is in the distributor, or in the register or the SGI frame of vCPU \<open>k\<close>, exactly when it lies at that
  frame's place with that offset. So no two addresses decode to the same register, every register of
  every frame has its address, and an address past the last vCPU's frames is in no frame.
\<close>

theorem gic_frames_exact:
  assumes v: "gl_validate l n" and n: "n \<le> 255"
  shows "(gl_frame_of l ipa n = Some (f, off) \<longleftrightarrow> frame_at l n f off ipa) \<and>
     (gl_frame_of l ipa n = gl_frame_of l ipa' n \<and> gl_frame_of l ipa n \<noteq> None \<longrightarrow> ipa = ipa') \<and>
     (unat (gl_gicr_rd_base l) + n * 0x20000 \<le> unat ipa \<longrightarrow> gl_frame_of l ipa n = None)"
proof -
  have n': "n < 2 ^ 32" using n by simp
  note iff = frame_of_iff [OF v n']
  have "ipa = ipa'" if e: "gl_frame_of l ipa n = gl_frame_of l ipa' n" "gl_frame_of l ipa n \<noteq> None"
  proof -
    obtain f off where "gl_frame_of l ipa n = Some (f, off)" using e(2) by auto
    then show ?thesis using e(1) iff frame_at_unique by metis
  qed
  moreover have "gl_frame_of l ipa n = None" if b: "unat (gl_gicr_rd_base l) + n * 0x20000 \<le> unat ipa"
  proof (rule ccontr)
    assume "gl_frame_of l ipa n \<noteq> None"
    then obtain f off where "frame_at l n f off ipa" using iff by (cases "gl_frame_of l ipa n") auto
    moreover have "k * 0x20000 + 0x20000 \<le> n * 0x20000" if "k < n" for k using that by (simp add: Suc_leI flip: mult_Suc)
    ultimately show False
      using b validate_nums(2) [OF v n'] by (cases f) (fastforce simp: frame_at_def GICR_FRAME_def word_less_nat_alt)+
  qed
  ultimately show ?thesis using iff by blast
qed

theorem gic_frames_exact_witness:
  "frame_at (vg_layout demo_gic) 2 (Sgi 1) 0x100 0x80d0100 \<and> gl_frame_of (vg_layout demo_gic) 0x80e0000 2 = None"
  using gic_frames_exact [OF demo_gic_facts(3), of "0x80d0100" "Sgi 1" "0x100"] gic_frames_exact [OF demo_gic_facts(3), of "0x80e0000"]
    demo_gic_facts(4) by (simp add: demo_gic_def vg_new_def)

text \<open>C39: A write changes the enables it names and nothing of another vCPU. After an access that lands
  in frame \<open>f\<close> at offset \<open>off\<close>, interrupt \<open>i\<close> is enabled for vCPU \<open>v\<close> exactly as before, except where an
  \<open>ISENABLER\<close> (set) or \<open>ICENABLER\<close> (clear) register names it and the written bit is one:
  the distributor's registers name only shared interrupts, a vCPU's registers only its own 32. A write to
  the distributor leaves every redistributor as it was, a write to a vCPU's frames leaves the distributor
  and every other vCPU's redistributor as they were.
\<close>

theorem gic_enable_exact:
  assumes g: "vg_ok g" and f: "gl_frame_of (vg_layout g) ipa (length (vg_redist g)) = Some (f, off)"
    and w: "vg_mmio_write g ipa sz val = (r, g')"
  shows "vg_is_enabled g v intid \<noteq> None \<and>
     vg_is_enabled g' v intid = map_option (enable_step f off val v (unat intid)) (vg_is_enabled g v intid) \<and>
     (gf_vcpu f = None \<longrightarrow> vg_redist g' = vg_redist g) \<and>
     (\<forall>n. gf_vcpu f = Some n \<longrightarrow> g' = g\<lparr>vg_redist := vg_redist g'\<rparr> \<and>
        (\<forall>k. k \<noteq> n \<longrightarrow> vec_get (vg_redist g') k = vec_get (vg_redist g) k))"
proof -
  have len: "length (vg_redist g) < 2 ^ 32" using g by (simp add: vg_ok_def)
  have g': "g' = snd (case f of Dist \<Rightarrow> dist_write g off val | Redist n \<Rightarrow> redist_write g n off (ucast val) | Sgi n \<Rightarrow> sgi_write g n off (ucast val))"
    using w f by (auto simp: vg_mmio_write_def apfst_def map_prod_def split: prod.splits)
  have ok: "vg_ok g'" unfolding g' using g dist_write_ok redist_write_ok(2) sgi_write_ok(2) by (cases f) simp_all
  have "enabled_at g' v i = enable_step f off val v i (enabled_at g v i)" for i
    unfolding g' using dist_write_enables [OF g] sgi_write_enables frame_vcpu_bound [OF f _ len] redist_write_enables
    by (cases f) (simp_all add: gf_vcpu_def enable_step_def [of "Redist _"] names_def)
  then have "vg_is_enabled g' v intid = map_option (enable_step f off val v (unat intid)) (vg_is_enabled g v intid)"
    using is_enabled_at [OF g] is_enabled_at [OF ok] by simp
  moreover have "vg_redist g' = vg_redist g" if "gf_vcpu f = None"
    using that unfolding g' by (cases f) (simp_all add: gf_vcpu_def dist_write_frame)
  moreover have "g' = g\<lparr>vg_redist := vg_redist g'\<rparr> \<and> (\<forall>k. k \<noteq> n \<longrightarrow> vec_get (vg_redist g') k = vec_get (vg_redist g) k)"
    if n: "gf_vcpu f = Some n" for n
  proof -
    obtain b where "g' = g \<or> g' = set_bank g n b"
      unfolding g' using n redist_frame [of g n off "ucast val"] by (cases f) (auto simp: gf_vcpu_def)
    then show ?thesis by (auto simp: set_bank_def vec_get_def)
  qed
  ultimately show ?thesis using is_enabled_at [OF g] by blast
qed

theorem gic_enable_exact_witness:
  "vg_is_enabled (snd (vg_mmio_write demo_gic 0x80d0100 4 0x8000000)) 1 27 = Some True \<and>
   vg_is_enabled (snd (vg_mmio_write demo_gic 0x80d0100 4 0x8000000)) 0 27 = vg_is_enabled demo_gic 0 27"
proof -
  have f: "gl_frame_of (vg_layout demo_gic) 0x80d0100 (length (vg_redist demo_gic)) = Some (Sgi 1, 0x100)"
    using demo_gic_facts by simp
  note e = gic_enable_exact [OF demo_gic_facts(1) f, of 4 "0x8000000", OF surjective_pairing]
  have s: "enable_step (Sgi 1) 0x100 0x8000000 1 (unat (27 :: u32)) = (\<lambda>_. True)"
    "enable_step (Sgi 1) 0x100 0x8000000 0 (unat (27 :: u32)) = (\<lambda>x. x)"
    by (simp_all add: enable_step_def names_def fun_eq_iff)
  show ?thesis using e [of 1 27] e [of 0 27] unfolding s by (auto simp: option.map_ident)
qed

text \<open>A route reads back as it was written: a write to the \<open>GICD_IROUTER\<close> register of a shared
  interrupt is accepted, \<open>spi_route\<close> then answers with the decoded value and a read of the register returns
  the value, and the route of every other interrupt is unchanged.
\<close>

theorem gic_route_roundtrip:
  assumes g: "vg_ok g" and f: "gl_frame_of (vg_layout g) ipa (length (vg_redist g)) = Some (Dist, off)"
    and off: "unat off = 0x6000 + 8 * unat intid" and i: "32 \<le> unat intid" "unat intid < 288"
    and w: "vg_mmio_write g ipa sz val = (r, g')"
  shows "r = Ok 0 \<and> vg_spi_route g' intid = Some (Some (irouter_decode val)) \<and> vg_mmio_read g' ipa sz = Ok val \<and>
     (other \<noteq> intid \<longrightarrow> vg_spi_route g' other = vg_spi_route g other)"
proof -
  have l: "length (vg_irouter g) = 256" using g by (simp add: vg_ok_def gic_consts)
  have x: "irouter_index off = Some (unat intid - 32)" unfolding irouter_index_iff using off i by (intro conjI; linarith)
  have lt: "unat intid - 32 < 256" using i by linarith
  have e: "r = Ok 0" "g' = g\<lparr>vg_irouter := (vg_irouter g)[unat intid - 32 := val]\<rparr>"
    using w f lt l by (simp_all add: vg_mmio_write_def dist_write_def x put_def)
  have ne: "unat other - 32 \<noteq> unat intid - 32" if "other \<noteq> intid" "32 \<le> unat other"
    using that i by (simp add: word_unat_eq_iff)
  show ?thesis
    using e f i l lt ne by (auto simp: vg_spi_route_def vg_mmio_read_def dist_read_def x idx_def gic_consts Let_def vec_get_def nth_list_update)
qed

theorem gic_route_roundtrip_witness:
  "vg_spi_route (snd (vg_mmio_write demo_gic 0x8006108 8 1)) 33 = Some (Some (irouter_decode 1))"
proof -
  have f: "gl_frame_of (vg_layout demo_gic) 0x8006108 (length (vg_redist demo_gic)) = Some (Dist, 0x6108)"
    using demo_gic_facts by simp
  show ?thesis
    using gic_route_roundtrip [OF demo_gic_facts(1) f, of 33 8 1, OF _ _ _ surjective_pairing] by simp
qed

end
