(* ===== verification/Leafmap.thy ===== *)
theory Leafmap
  imports Hypervisor_Inv
begin

text \<open>
  From the page tables of the model to the leaf map of a domain: \<open>hv-s2/src/leafmap.rs\<close>, and the
  executable refinement check over it, \<open>hv-s2/src/check.rs\<close>. \<open>leaf_map\<close> walks the page-table
  edges of the \<open>p2m\<close> component and fills two maps, one per span, with the permission of every
  frame a domain reaches; the emitter is given frame ownership and table levels as functions, as
  in the source. The lemmas show that the maps are exactly the last leaf edge into each frame,
  that a refusal names a state the maps cannot express, and that in a state of the hypervisor
  every mapped frame is owned or granted, so the check never reports a violation.
\<close>

section \<open>Permissions, spans and errors\<close>

type_synonym Edge = "Mfn \<times> nat \<times> Mfn \<times> bool \<times> bool \<times> bool"

datatype Perm = Ro | Rw | Rx

fun perm_writable :: "Perm \<Rightarrow> bool" where
  "perm_writable Rw = True"
| "perm_writable _ = False"

fun perm_executable :: "Perm \<Rightarrow> bool" where
  "perm_executable Rx = True"
| "perm_executable _ = False"

datatype Span = Base | Super

record Maps =
  mp_base :: "Perm option list"
  mp_sup :: "Perm option list"

record FrameOutOfRange =
  fr_mfn :: Mfn
  fr_capacity :: nat

datatype MapError = OutOfRange FrameOutOfRange | SpanConflict Mfn | UnsupportedSpan Mfn

section \<open>The leaf map\<close>

definition span_of_table :: "P2mSystem \<Rightarrow> Mfn \<Rightarrow> Span option" where
  "span_of_table p parent =
     (case pm_current_type p parent of
        Some (PageTable L1) \<Rightarrow> Some Base
      | Some (PageTable L2) \<Rightarrow> Some Super
      | _ \<Rightarrow> None)"

definition edge_perm :: "bool \<Rightarrow> bool \<Rightarrow> Perm" where
  "edge_perm writable execute = (if writable then Rw else if execute then Rx else Ro)"

fun span_map :: "Span \<Rightarrow> Maps \<Rightarrow> Perm option list" where
  "span_map Base out = mp_base out"
| "span_map Super out = mp_sup out"

fun set_leaf :: "Span \<Rightarrow> nat \<Rightarrow> Perm \<Rightarrow> Maps \<Rightarrow> Maps" where
  "set_leaf Base i p out = out\<lparr>mp_base := (mp_base out)[i := Some p]\<rparr>"
| "set_leaf Super i p out = out\<lparr>mp_sup := (mp_sup out)[i := Some p]\<rparr>"

fun place_leaves ::
  "(Mfn \<Rightarrow> DomId option) \<Rightarrow> (Mfn \<Rightarrow> Span option) \<Rightarrow> DomId \<Rightarrow> Edge list \<Rightarrow> Maps \<Rightarrow> (unit, MapError) result \<times> Maps" where
  "place_leaves owner_of span_of d [] out = (Ok (), out)"
| "place_leaves owner_of span_of d ((parent, _, child, writable, leaf, execute) # edges) out =
     (if \<not> leaf \<or> owner_of parent \<noteq> Some d then place_leaves owner_of span_of d edges out
      else
        propagate (ok_or (span_of parent) (UnsupportedSpan parent)) out (\<lambda>span.
          if length (span_map span out) \<le> child
          then (Err (OutOfRange \<lparr>fr_mfn = child, fr_capacity = length (span_map span out)\<rparr>), out)
          else place_leaves owner_of span_of d edges (set_leaf span child (edge_perm writable execute) out)))"

definition clear_maps :: "Maps \<Rightarrow> Maps" where
  "clear_maps out =
     \<lparr>mp_base = replicate (length (mp_base out)) None, mp_sup = replicate (length (mp_sup out)) None\<rparr>"

definition first_conflict :: "Maps \<Rightarrow> nat option" where
  "first_conflict out =
     find (\<lambda>m. mp_base out ! m \<noteq> None \<and> mp_sup out ! m \<noteq> None) [0..<min (length (mp_base out)) (length (mp_sup out))]"

definition leaf_map_from_edges ::
  "Edge list \<Rightarrow> (Mfn \<Rightarrow> DomId option) \<Rightarrow> (Mfn \<Rightarrow> Span option) \<Rightarrow> DomId \<Rightarrow> Maps \<Rightarrow> (unit, MapError) result \<times> Maps" where
  "leaf_map_from_edges edges owner_of span_of d out =
     (case place_leaves owner_of span_of d edges (clear_maps out) of
        (Ok _, out') \<Rightarrow>
          (case first_conflict out' of
             Some m \<Rightarrow> (Err (SpanConflict (as_u32 m)), out')
           | None \<Rightarrow> (Ok (), out'))
      | r \<Rightarrow> r)"

definition leaf_map :: "P2mSystem \<Rightarrow> DomId \<Rightarrow> Maps \<Rightarrow> (unit, MapError) result \<times> Maps" where
  "leaf_map p d out = leaf_map_from_edges (pm_link_edges p) (pm_owner_of p) (span_of_table p) d out"

section \<open>The check\<close>

datatype S2Violation =
    UnauthorizedMapping DomId Mfn "DomId option" Perm
  | WriteEscalation DomId Mfn DomId
  | Inexact DomId Mfn "Perm option" "Perm option"
  | Overflow DomId Mfn

datatype OutOfDomain = SpanConflict DomId Mfn | UnsupportedSpan DomId Mfn

datatype Verdict = Violated S2Violation | OutOfDomain OutOfDomain

fun finding :: "Verdict \<Rightarrow> S2Violation option" where
  "finding (Violated v) = Some v"
| "finding (OutOfDomain _) = None"

definition check_authorized_with ::
  "DomId \<Rightarrow> Perm option list \<Rightarrow> (Mfn \<Rightarrow> DomId option) \<Rightarrow> (DomId \<Rightarrow> DomId \<Rightarrow> Mfn \<Rightarrow> bool \<Rightarrow> bool) \<Rightarrow>
    (unit, S2Violation) result" where
  "check_authorized_with d leaves owner_of authorizes =
     scan (\<lambda>(m, leaf).
       case leaf of
         None \<Rightarrow> Ok ()
       | Some perm \<Rightarrow>
           (let mfn = as_u32 m; own = owner_of mfn in
            if own = Some d then Ok ()
            else (case own of
                    None \<Rightarrow> Err (UnauthorizedMapping d mfn own perm)
                  | Some grantor \<Rightarrow>
                      (let writable = (perm = Rw) in
                       if \<not> authorizes grantor d mfn writable
                       then Err (if writable \<and> authorizes grantor d mfn False then WriteEscalation d mfn grantor
                                 else UnauthorizedMapping d mfn own perm)
                       else Ok ()))))
       (enumerate 0 leaves)"

definition check_authorized :: "Hypervisor \<Rightarrow> DomId \<Rightarrow> Perm option list \<Rightarrow> (unit, S2Violation) result" where
  "check_authorized h d leaves =
     check_authorized_with d leaves (pm_owner_of (p2m h)) (gt_authorizes (grant h))"

definition last_leaf ::
  "(Mfn \<Rightarrow> DomId option) \<Rightarrow> (Mfn \<Rightarrow> Span option) \<Rightarrow> DomId \<Rightarrow> Span \<Rightarrow> Mfn \<Rightarrow> Edge list \<Rightarrow> Perm option \<Rightarrow> Perm option" where
  "last_leaf owner_of span_of d span mfn =
     fold (\<lambda>(parent, _, child, writable, leaf, execute) expected.
       if leaf \<and> child = mfn \<and> owner_of parent = Some d \<and> span_of parent = Some span
       then Some (edge_perm writable execute) else expected)"

definition check_exact :: "Hypervisor \<Rightarrow> DomId \<Rightarrow> Perm option list \<Rightarrow> Span \<Rightarrow> (unit, S2Violation) result" where
  "check_exact h d leaves span =
     scan (\<lambda>(m, mapped).
       let mfn = as_u32 m;
           expected = last_leaf (pm_owner_of (p2m h)) (span_of_table (p2m h)) d span mfn (pm_link_edges (p2m h)) None
       in if mapped \<noteq> expected then Err (Inexact d mfn mapped expected) else Ok ())
       (enumerate 0 leaves)"

definition TABLE_ENTRIES :: nat where "TABLE_ENTRIES = 512"

fun map_verdict :: "DomId \<Rightarrow> MapError \<Rightarrow> Verdict" where
  "map_verdict d (OutOfRange r) = Violated (Overflow d (fr_mfn r))"
| "map_verdict d (MapError.SpanConflict mfn) = OutOfDomain (SpanConflict d mfn)"
| "map_verdict d (MapError.UnsupportedSpan parent) = OutOfDomain (UnsupportedSpan d parent)"

definition check_maps :: "Hypervisor \<Rightarrow> DomId \<Rightarrow> Maps \<Rightarrow> (unit, Verdict) result" where
  "check_maps h d out =
     scan (\<lambda>(leaves, span).
       and_then (map_ok_err id Violated (check_authorized h d leaves)) (map_ok_err id Violated (check_exact h d leaves span)))
       [(mp_base out, Base), (mp_sup out, Super)]"

fun check_domains :: "Hypervisor \<Rightarrow> nat list \<Rightarrow> Maps \<Rightarrow> (unit, Verdict) result" where
  "check_domains h [] out = Ok ()"
| "check_domains h (i # is) out =
     (case leaf_map (p2m h) (as_u16 i) out of
        (Err e, _) \<Rightarrow> Err (map_verdict (as_u16 i) e)
      | (Panic, _) \<Rightarrow> Panic
      | (Ok _, out') \<Rightarrow> and_then (check_maps h (as_u16 i) out') (check_domains h is out'))"

definition check_all :: "Hypervisor \<Rightarrow> (unit, Verdict) result" where
  "check_all h =
     (let frames = min (pm_frame_count (p2m h)) TABLE_ENTRIES in
      check_domains h [0..<hv_domain_count h] \<lparr>mp_base = replicate frames None, mp_sup = replicate frames None\<rparr>)"

section \<open>The maps are the leaf edges\<close>

lemma span_map_set_leaf [simp]:
  "span_map s (set_leaf s' i p out) = (if s' = s then (span_map s out)[i := Some p] else span_map s out)"
  by (cases s; cases s') auto

lemma span_map_clear [simp]: "span_map s (clear_maps out) = replicate (length (span_map s out)) None"
  by (cases s) (simp_all add: clear_maps_def)

lemma last_leaf_simps [simp]:
  "last_leaf ow sp d s m [] acc = acc"
  "last_leaf ow sp d s m ((p, k, c, w, lf, x) # es) acc =
     last_leaf ow sp d s m es (if lf \<and> c = m \<and> ow p = Some d \<and> sp p = Some s then Some (edge_perm w x) else acc)"
  by (simp_all add: last_leaf_def)

text \<open>The reference: the leaf entries for a frame in the tables of a domain, of which the last counts.\<close>

fun leaf_edge :: "(Mfn \<Rightarrow> DomId option) \<Rightarrow> (Mfn \<Rightarrow> Span option) \<Rightarrow> DomId \<Rightarrow> Span \<Rightarrow> Mfn \<Rightarrow> Edge \<Rightarrow> bool" where
  "leaf_edge ow sp d s m (p, k, c, w, lf, x) \<longleftrightarrow> lf \<and> c = m \<and> ow p = Some d \<and> sp p = Some s"

fun perm_of_edge :: "Edge \<Rightarrow> Perm" where
  "perm_of_edge (p, k, c, w, lf, x) = edge_perm w x"

lemma last_leaf_filter:
  "last_leaf ow sp d s m es acc =
     (case filter (leaf_edge ow sp d s m) es of [] \<Rightarrow> acc | es' \<Rightarrow> Some (perm_of_edge (last es')))"
  by (induction es arbitrary: acc) (auto split: list.split)

lemma last_leaf_Some:
  assumes "last_leaf ow sp d s m es None = Some \<pi>"
  obtains e where "e \<in> set es" "leaf_edge ow sp d s m e" "\<pi> = perm_of_edge e"
proof -
  let ?es = "filter (leaf_edge ow sp d s m) es"
  have "?es \<noteq> []" "\<pi> = perm_of_edge (last ?es)" using assms by (auto simp: last_leaf_filter split: list.splits)
  moreover have "last ?es \<in> set ?es" using calculation(1) by (rule last_in_set)
  ultimately show thesis using that [of "last ?es"] by (simp only: set_filter mem_Collect_eq)
qed

lemma place_leaves_shape:
  "place_leaves ow sp d es out = (r, out') \<Longrightarrow> length (span_map s out') = length (span_map s out)"
proof (induction ow sp d es out arbitrary: r out' rule: place_leaves.induct)
  case (2 ow sp d parent k child w lf x es out)
  then show ?case by (simp split: if_splits option.splits)
qed simp

lemma place_leaves_Ok:
  "place_leaves ow sp d es out = (Ok (), out') \<Longrightarrow> m < length (span_map s out) \<Longrightarrow>
     span_map s out' ! m = last_leaf ow sp d s m es (span_map s out ! m)"
proof (induction ow sp d es out arbitrary: out' rule: place_leaves.induct)
  case (2 ow sp d parent k child w lf x es out)
  show ?case
  proof (cases "lf \<and> ow parent = Some d")
    case True
    with "2.prems" obtain s' where s': "sp parent = Some s'" "child < length (span_map s' out)"
      "place_leaves ow sp d es (set_leaf s' child (edge_perm w x) out) = (Ok (), out')"
      by (auto split: if_splits option.splits)
    have "span_map s out' ! m = last_leaf ow sp d s m es (span_map s (set_leaf s' child (edge_perm w x) out) ! m)"
      using "2.IH"(2) [of s'] True s' "2.prems"(2) by simp
    with True s' "2.prems"(2) show ?thesis by (auto simp: nth_list_update)
  next
    case False
    with 2 show ?thesis by (auto split: if_splits)
  qed
qed simp

lemma place_leaves_room:
  "place_leaves ow sp d es out = (Ok (), out') \<Longrightarrow> e \<in> set es \<Longrightarrow> leaf_edge ow sp d s m e \<Longrightarrow>
     m < length (span_map s out)"
proof (induction ow sp d es out arbitrary: out' rule: place_leaves.induct)
  case (2 ow sp d parent k child w lf x es out)
  show ?case
  proof (cases "lf \<and> ow parent = Some d")
    case True
    with "2.prems"(1) obtain s' where s': "sp parent = Some s'" "child < length (span_map s' out)"
      "place_leaves ow sp d es (set_leaf s' child (edge_perm w x) out) = (Ok (), out')"
      by (auto split: if_splits option.splits)
    show ?thesis
    proof (cases "e \<in> set es")
      case True
      show ?thesis using "2.IH"(2) [of s', OF _ _ s'(3) True "2.prems"(3)] \<open>lf \<and> ow parent = Some d\<close> s'(2)
        by (simp split: if_splits)
    next
      case False
      with "2.prems"(2,3) s'(1,2) show ?thesis by simp
    qed
  next
    case False
    with 2 show ?thesis by (auto split: if_splits)
  qed
qed simp

text \<open>The edge that makes the placement give up, with the capacities \<open>cap\<close> of the two maps.\<close>

definition refuses ::
  "(Mfn \<Rightarrow> DomId option) \<Rightarrow> (Mfn \<Rightarrow> Span option) \<Rightarrow> DomId \<Rightarrow> (Span \<Rightarrow> nat) \<Rightarrow> (unit, MapError) result \<Rightarrow> Edge \<Rightarrow> bool" where
  "refuses ow sp d cap r e \<longleftrightarrow> (case e of (p, k, c, w, lf, x) \<Rightarrow> lf \<and> ow p = Some d \<and>
     (case sp p of
        None \<Rightarrow> r = Err (MapError.UnsupportedSpan p)
      | Some s \<Rightarrow> cap s \<le> c \<and> r = Err (OutOfRange \<lparr>fr_mfn = c, fr_capacity = cap s\<rparr>)))"

lemma place_leaves_Err:
  "place_leaves ow sp d es out = (r, out') \<Longrightarrow> r \<noteq> Ok () \<Longrightarrow>
     \<exists>e \<in> set es. refuses ow sp d (\<lambda>s. length (span_map s out)) r e"
proof (induction ow sp d es out arbitrary: r out' rule: place_leaves.induct)
  case (2 ow sp d parent k child w lf x es out)
  let ?e = "(parent, k, child, w, lf, x)"
  have cap: "(\<lambda>s. length (span_map s (set_leaf s' child (edge_perm w x) out))) = (\<lambda>s. length (span_map s out))" for s'
    by (simp add: fun_eq_iff)
  consider (skip) "\<not> lf \<or> ow parent \<noteq> Some d" | (stop) "lf" "ow parent = Some d" "\<forall>s. sp parent = Some s \<longrightarrow> length (span_map s out) \<le> child"
    | (go) s where "lf" "ow parent = Some d" "sp parent = Some s" "\<not> length (span_map s out) \<le> child" by blast
  then show ?case
  proof cases
    case skip
    then have "place_leaves ow sp d es out = (r, out')" using "2.prems"(1) by simp
    with "2.IH"(1) [OF skip this "2.prems"(2)] show ?thesis by auto
  next
    case stop
    then have "refuses ow sp d (\<lambda>s. length (span_map s out)) r ?e"
      using "2.prems"(1) by (auto simp: refuses_def split: option.splits)
    then show ?thesis by auto
  next
    case go
    then have "place_leaves ow sp d es (set_leaf s child (edge_perm w x) out) = (r, out')" using "2.prems"(1) by simp
    with "2.IH"(2) [OF _ go(4) this "2.prems"(2)] go show ?thesis unfolding cap by auto
  qed
qed simp

lemma first_conflict_Some:
  "first_conflict out = Some m \<Longrightarrow>
     m < length (mp_base out) \<and> m < length (mp_sup out) \<and> mp_base out ! m \<noteq> None \<and> mp_sup out ! m \<noteq> None"
  unfolding first_conflict_def find_Some_iff by auto

lemma first_conflict_None:
  "first_conflict out = None \<Longrightarrow> m < length (mp_base out) \<Longrightarrow> m < length (mp_sup out) \<Longrightarrow>
     mp_base out ! m = None \<or> mp_sup out ! m = None"
  unfolding first_conflict_def find_None_iff by auto

text \<open>What the emitter computes, in terms of the edges only.\<close>

definition leaf_of :: "P2mSystem \<Rightarrow> DomId \<Rightarrow> Span \<Rightarrow> Mfn \<Rightarrow> Perm option" where
  "leaf_of p d s m = last_leaf (pm_owner_of p) (span_of_table p) d s m (pm_link_edges p) None"

lemma leaf_of_Some:
  assumes "leaf_of p d s m = Some \<pi>"
  obtains q k w x where "(q, k, m, w, True, x) \<in> set (pm_link_edges p)" "pm_owner_of p q = Some d"
    "span_of_table p q = Some s" "\<pi> = edge_perm w x"
proof -
  from assms [unfolded leaf_of_def] obtain e where e: "e \<in> set (pm_link_edges p)"
    "leaf_edge (pm_owner_of p) (span_of_table p) d s m e" "\<pi> = perm_of_edge e" by (rule last_leaf_Some)
  obtain q k c w lf x where "e = (q, k, c, w, lf, x)" by (metis prod_cases6)
  with e that show thesis by simp
qed

lemma leaf_map_Ok:
  assumes "leaf_map p d out = (Ok (), out')"
  shows "length (span_map s out') = length (span_map s out)"
    "m < length (span_map s out) \<Longrightarrow> span_map s out' ! m = leaf_of p d s m"
    "m < length (mp_base out) \<Longrightarrow> m < length (mp_sup out) \<Longrightarrow> leaf_of p d Base m = None \<or> leaf_of p d Super m = None"
proof -
  from assms have pl: "place_leaves (pm_owner_of p) (span_of_table p) d (pm_link_edges p) (clear_maps out) = (Ok (), out')"
    and nc: "first_conflict out' = None"
    by (auto simp: leaf_map_def leaf_map_from_edges_def split: prod.splits result.splits option.splits)
  show len: "length (span_map s out') = length (span_map s out)" for s
    using place_leaves_shape [OF pl, of s] by simp
  show at: "span_map s out' ! m = leaf_of p d s m" if "m < length (span_map s out)" for s m
    using place_leaves_Ok [OF pl, of m s] that by (simp add: leaf_of_def)
  show "leaf_of p d Base m = None \<or> leaf_of p d Super m = None" if "m < length (mp_base out)" "m < length (mp_sup out)"
    using first_conflict_None [OF nc, of m] that len [of Base] len [of Super] at [of m Base] at [of m Super] by simp
qed

lemma leaf_map_room:
  assumes "leaf_map p d out = (Ok (), out')" "leaf_of p d s m = Some \<pi>"
  shows "m < length (span_map s out)"
proof -
  from assms(1) have pl: "place_leaves (pm_owner_of p) (span_of_table p) d (pm_link_edges p) (clear_maps out) = (Ok (), out')"
    by (auto simp: leaf_map_def leaf_map_from_edges_def split: prod.splits result.splits option.splits)
  from assms(2) [unfolded leaf_of_def] obtain e where "e \<in> set (pm_link_edges p)"
    "leaf_edge (pm_owner_of p) (span_of_table p) d s m e" by (rule last_leaf_Some)
  with place_leaves_room [OF pl] have "m < length (span_map s (clear_maps out))" by blast
  then show ?thesis by simp
qed

lemma leaf_map_Err:
  assumes "leaf_map p d out = (r, out')" "r \<noteq> Ok ()"
  obtains (unsupported) q k c w x where "(q, k, c, w, True, x) \<in> set (pm_link_edges p)" "pm_owner_of p q = Some d"
      "span_of_table p q = None" "r = Err (MapError.UnsupportedSpan q)"
    | (range) q k c w x s where "(q, k, c, w, True, x) \<in> set (pm_link_edges p)" "pm_owner_of p q = Some d"
      "span_of_table p q = Some s" "length (span_map s out) \<le> c"
      "r = Err (OutOfRange \<lparr>fr_mfn = c, fr_capacity = length (span_map s out)\<rparr>)"
    | (conflict) m where "m < length (mp_base out)" "m < length (mp_sup out)" "leaf_of p d Base m \<noteq> None"
      "leaf_of p d Super m \<noteq> None" "r = Err (MapError.SpanConflict (as_u32 m))"
proof -
  obtain r1 out1 where pl: "place_leaves (pm_owner_of p) (span_of_table p) d (pm_link_edges p) (clear_maps out) = (r1, out1)"
    by fastforce
  show thesis
  proof (cases "r1 = Ok ()")
    case False
    then have "r = r1" using assms(1) pl
      by (auto simp: leaf_map_def leaf_map_from_edges_def split: result.splits option.splits)
    with place_leaves_Err [OF pl False] show thesis
      using unsupported range by (fastforce simp: refuses_def split: option.splits)
  next
    case True
    then obtain m where m: "first_conflict out1 = Some m" "r = Err (MapError.SpanConflict (as_u32 m))"
      using assms pl by (auto simp: leaf_map_def leaf_map_from_edges_def split: option.splits)
    note c = first_conflict_Some [OF m(1)]
    have len: "length (span_map s out1) = length (span_map s out)" for s using place_leaves_shape [OF pl, of s] by simp
    have at: "span_map s out1 ! m = leaf_of p d s m" if "m < length (span_map s out)" for s
      using place_leaves_Ok [OF pl [unfolded True], of m s] that by (simp add: leaf_of_def)
    show thesis using conflict [of m] c m(2) len [of Base] len [of Super] at [of Base] at [of Super] by simp
  qed
qed

section \<open>The maps of a hypervisor state\<close>

lemma edge_perm_iff [simp]:
  "edge_perm w x = Rw \<longleftrightarrow> w" "edge_perm w x = Rx \<longleftrightarrow> \<not> w \<and> x" "edge_perm w x = Ro \<longleftrightarrow> \<not> w \<and> \<not> x"
  by (simp_all add: edge_perm_def)

lemma edge_owners:
  assumes h: "hv_ok h" and e: "(q, k, m, w, lf, x) \<in> set (pm_link_edges (p2m h))" and q: "pm_owner_of (p2m h) q = Some d"
  shows "m < pm_frame_count (p2m h)"
    "\<exists>own. pm_owner_of (p2m h) m = Some own \<and> (own = d \<or> gt_authorizes (grant h) own d m w)"
proof -
  note o = pm_edge_in_owed(7) [OF hv_okD(4) [OF h] e]
  then show "m < pm_frame_count (p2m h)"
    by (auto simp: pm_owner_of_def pm_frame_eq pm_frame_count_def split: if_splits)
  from e obtain l where "l \<in># pm_live (p2m h)" "l_parent l = q" "l_child l = m" "l_writable l = w"
    by (auto simp: pm_link_edges_iff)
  with o q hv_okD(17) [OF h]
  show "\<exists>own. pm_owner_of (p2m h) m = Some own \<and> (own = d \<or> gt_authorizes (grant h) own d m w)"
    unfolding seam_links_def by blast
qed

lemma leaf_of_facts:
  assumes h: "hv_ok h" and l: "leaf_of (p2m h) d s m = Some \<pi>"
  shows "m < pm_frame_count (p2m h)"
    "\<exists>own. pm_owner_of (p2m h) m = Some own \<and> (own = d \<or> gt_authorizes (grant h) own d m (\<pi> = Rw))"
    "\<pi> = Rw \<Longrightarrow> (m, Typed Writable) \<in># pm_owed (p2m h)"
    "\<pi> = Rx \<Longrightarrow> (m, Exec) \<in># pm_owed (p2m h)"
proof -
  from l obtain q k w x where e: "(q, k, m, w, True, x) \<in> set (pm_link_edges (p2m h))" "pm_owner_of (p2m h) q = Some d"
    "\<pi> = edge_perm w x" by (rule leaf_of_Some)
  note o = edge_owners [OF h e(1,2)] and w = pm_edge_in_owed(2,3) [OF hv_okD(4) [OF h] e(1)]
  show "m < pm_frame_count (p2m h)" by (rule o(1))
  show "\<exists>own. pm_owner_of (p2m h) m = Some own \<and> (own = d \<or> gt_authorizes (grant h) own d m (\<pi> = Rw))"
    using o(2) by (simp add: e(3))
  show "(m, Typed Writable) \<in># pm_owed (p2m h)" if "\<pi> = Rw" using w(1) that by (simp add: e(3))
  show "(m, Exec) \<in># pm_owed (p2m h)" if "\<pi> = Rx" using w(2) that by (simp add: e(3))
qed

lemma leaf_of_wx:
  assumes h: "hv_ok h" and l: "leaf_of (p2m h) d s m = Some Rw"
  shows "pm_current_type (p2m h) m = Some PageType.Writable" "leaf_of (p2m h) d' s' m \<noteq> Some Rx"
  using leaf_of_facts(3) [OF h l] leaf_of_facts(4) [OF h, of d' s' m Rx] pm_owed_exclusive(1) [OF hv_okD(4) [OF h], of m]
    pm_current_type_writable [OF hv_okD(4) [OF h], of m] by auto

lemma hv_frames_u32: "hv_ok h \<Longrightarrow> pm_frame_count (p2m h) < u32_size"
  using hv_okD(4) by (auto simp: pm_ok_def pm_frame_count_def)

lemma hv_edge_typed:
  assumes h: "hv_ok h" and e: "(q, k, m, w, lf, x) \<in> set (pm_link_edges (p2m h))"
  shows "\<exists>lvl. pm_current_type (p2m h) q = Some (PageTable lvl)"
  using pm_edge_in_owed(1) [OF hv_okD(4) [OF h] e] pm_current_type_table [OF hv_okD(4) [OF h], of q] by fastforce

lemma leaf_of_edge:
  "leaf_of p d s m \<noteq> None \<Longrightarrow>
     \<exists>e \<in> set (pm_link_edges p). leaf_edge (pm_owner_of p) (span_of_table p) d s m e"
  unfolding leaf_of_def by (elim not_None_eq [THEN iffD1, THEN exE] last_leaf_Some) blast

text \<open>The emitter refuses a state of the hypervisor for three reasons only, one of them a short map.\<close>

lemma leaf_map_refusal_any:
  assumes h: "hv_ok h" and r: "leaf_map (p2m h) d out = (r, out')" "r \<noteq> Ok ()"
  shows "(\<exists>q k m w x. r = Err (MapError.UnsupportedSpan q) \<and> (q, k, m, w, True, x) \<in> set (pm_link_edges (p2m h)) \<and>
       pm_owner_of (p2m h) q = Some d \<and>
       pm_current_type (p2m h) q \<in> {Some (PageTable L3), Some (PageTable L4)}) \<or>
     (\<exists>m. r = Err (MapError.SpanConflict m) \<and> m < pm_frame_count (p2m h) \<and> leaf_of (p2m h) d Base m \<noteq> None \<and>
       leaf_of (p2m h) d Super m \<noteq> None) \<or>
     (\<exists>s m. r = Err (OutOfRange \<lparr>fr_mfn = m, fr_capacity = length (span_map s out)\<rparr>) \<and>
       length (span_map s out) \<le> m \<and> m < pm_frame_count (p2m h) \<and>
       (\<exists>e \<in> set (pm_link_edges (p2m h)). leaf_edge (pm_owner_of (p2m h)) (span_of_table (p2m h)) d s m e))"
  using r
proof (cases rule: leaf_map_Err)
  case (unsupported q k c w x)
  then have "pm_current_type (p2m h) q \<in> {Some (PageTable L3), Some (PageTable L4)}"
    using hv_edge_typed [OF h unsupported(1)] by (auto simp: span_of_table_def split: option.splits PageType.splits PtLevel.splits)
  with unsupported show ?thesis by blast
next
  case (range q k c w x s)
  have "leaf_edge (pm_owner_of (p2m h)) (span_of_table (p2m h)) d s c (q, k, c, w, True, x)" using range(2,3) by simp
  with edge_owners(1) [OF h range(1,2)] range(1,4,5) show ?thesis by blast
next
  case (conflict m)
  then have "m < pm_frame_count (p2m h)" using leaf_of_facts(1) [OF h] by blast
  with conflict hv_frames_u32 [OF h] show ?thesis by (intro disjI2 disjI1 exI [of _ m]) simp
qed

lemma leaf_map_refusal:
  assumes h: "hv_ok h" and r: "leaf_map (p2m h) d out = (r, out')" "r \<noteq> Ok ()"
    and cap: "\<And>s. pm_frame_count (p2m h) \<le> length (span_map s out)"
  shows "(\<exists>q k m w x. r = Err (MapError.UnsupportedSpan q) \<and> (q, k, m, w, True, x) \<in> set (pm_link_edges (p2m h)) \<and>
       pm_owner_of (p2m h) q = Some d \<and>
       pm_current_type (p2m h) q \<in> {Some (PageTable L3), Some (PageTable L4)}) \<or>
     (\<exists>m. r = Err (MapError.SpanConflict m) \<and> m < pm_frame_count (p2m h) \<and> leaf_of (p2m h) d Base m \<noteq> None \<and>
       leaf_of (p2m h) d Super m \<noteq> None)"
  using leaf_map_refusal_any [OF h r]
proof (elim disjE)
  assume "\<exists>s m. r = Err (OutOfRange \<lparr>fr_mfn = m, fr_capacity = length (span_map s out)\<rparr>) \<and>
       length (span_map s out) \<le> m \<and> m < pm_frame_count (p2m h) \<and>
       (\<exists>e \<in> set (pm_link_edges (p2m h)). leaf_edge (pm_owner_of (p2m h)) (span_of_table (p2m h)) d s m e)"
  then obtain s m where "length (span_map s out) \<le> m" "m < pm_frame_count (p2m h)" by blast
  then have "length (span_map s out) < pm_frame_count (p2m h)" by simp
  with cap [of s] show ?thesis by simp
qed blast+

section \<open>The check of a hypervisor state\<close>

lemma scan_enumerate_Ok:
  "scan f (enumerate 0 xs) = Ok () \<longleftrightarrow> (\<forall>m < length xs. f (m, xs ! m) = Ok ())"
  by (auto simp: scan_Ok in_set_enumerate_eq)

lemma check_authorized_iff:
  assumes "length leaves \<le> u32_size"
  shows "check_authorized h d leaves = Ok () \<longleftrightarrow>
    (\<forall>m < length leaves. \<forall>\<pi>. leaves ! m = Some \<pi> \<longrightarrow>
       (\<exists>own. pm_owner_of (p2m h) m = Some own \<and> (own = d \<or> gt_authorizes (grant h) own d m (\<pi> = Rw))))"
  using assms unfolding check_authorized_def check_authorized_with_def scan_enumerate_Ok
  by (intro all_cong) (auto simp: Let_def split: option.splits)

lemma check_exact_iff:
  assumes "length leaves \<le> u32_size"
  shows "check_exact h d leaves s = Ok () \<longleftrightarrow> (\<forall>m < length leaves. leaves ! m = leaf_of (p2m h) d s m)"
  using assms unfolding check_exact_def scan_enumerate_Ok by (intro all_cong) (auto simp: Let_def leaf_of_def)

lemma check_maps_Ok:
  assumes h: "hv_ok h" and lm: "leaf_map (p2m h) d out = (Ok (), out')"
    and cap: "\<And>s. length (span_map s out) \<le> pm_frame_count (p2m h)"
  shows "check_maps h d out' = Ok ()"
proof -
  note lm' = leaf_map_Ok [OF lm]
  have u32: "length (span_map s out') \<le> u32_size" for s using cap [of s] hv_frames_u32 [OF h] by (simp add: lm'(1))
  have "check_authorized h d (span_map s out') = Ok () \<and> check_exact h d (span_map s out') s = Ok ()" for s
    using leaf_of_facts(2) [OF h] by (auto simp: check_authorized_iff [OF u32] check_exact_iff [OF u32] lm')
  from this [of Base] this [of Super] show ?thesis by (simp add: check_maps_def and_then_def)
qed

lemma check_domains_outcome:
  assumes h: "hv_ok h" and cap: "\<And>s. length (span_map s out) = pm_frame_count (p2m h)"
  shows "check_domains h is out = Ok () \<and> (\<forall>i \<in> set is. fst (leaf_map (p2m h) (as_u16 i) out) = Ok ()) \<or>
    (\<exists>i \<in> set is. \<exists>e. fst (leaf_map (p2m h) (as_u16 i) out) = Err e \<and>
       check_domains h is out = Err (map_verdict (as_u16 i) e) \<and> finding (map_verdict (as_u16 i) e) = None)"
  using cap
proof (induction "is" arbitrary: out)
  case (Cons i "is")
  obtain r out' where lm: "leaf_map (p2m h) (as_u16 i) out = (r, out')" by fastforce
  have same: "leaf_map (p2m h) d out' = leaf_map (p2m h) d out"
    if "\<And>s. length (span_map s out') = length (span_map s out)" for d
    using that [of Base] that [of Super] by (simp add: leaf_map_def leaf_map_from_edges_def clear_maps_def)
  show ?case
  proof (cases "r = Ok ()")
    case True
    note len = leaf_map_Ok(1) [OF lm [unfolded True]]
    have "check_domains h (i # is) out = check_domains h is out'"
      using check_maps_Ok [OF h lm [unfolded True]] Cons.prems lm True by (simp add: and_then_def)
    then show ?thesis using Cons.IH [of out'] Cons.prems lm True same [OF len] by (auto simp: len)
  next
    case False
    from leaf_map_refusal [OF h lm this] Cons.prems lm show ?thesis by fastforce
  qed
qed simp

section \<open>Properties\<close>


text \<open>A state in which domain 0 reaches a frame of its own and a frame domain 1 granted it, read-only.\<close>

definition shared_state :: Hypervisor where
  "shared_state = hv_run [Guest 0 (DomainCreate 1 False), Guest 0 (P2mAllocate 0), Guest 0 (P2mAllocate 1),
     Guest 1 (P2mAllocate 2), Guest 0 (P2mPin 0 L1), Guest 1 (GrantAccess 0 0 2 True),
     Guest 0 (P2mLink 0 3 1 True True False), Guest 0 (P2mLink 0 4 2 False True False)] (hv_new 2 2 2 1 1 3 1)"


text \<open>
  C23: The leaf map grants nothing the model does not. In every reachable state, a frame the map of
  a domain names is owned by that domain, or its owner granted it to that domain, for writing when
  the map says \<open>Rw\<close>; a frame mapped \<open>Rw\<close> is a writable page, never a page table, and no domain,
  at either span, has it mapped \<open>Rx\<close>.
\<close>

theorem leaf_map_isolation:
  assumes "hv_start h0" and "h = hv_run trs h0" and "leaf_map (p2m h) d out = (Ok (), out')"
    and "m < length (span_map s out)" and "span_map s out' ! m = Some \<pi>"
  shows "(\<exists>own. pm_owner_of (p2m h) m = Some own \<and> (own = d \<or> gt_authorizes (grant h) own d m (\<pi> = Rw))) \<and>
    (\<pi> = Rw \<longrightarrow> pm_current_type (p2m h) m = Some PageType.Writable \<and>
      (\<forall>d' out2 out2' s'. leaf_map (p2m h) d' out2 = (Ok (), out2') \<and> m < length (span_map s' out2) \<longrightarrow>
         span_map s' out2' ! m \<noteq> Some Rx))"
proof -
  have h: "hv_ok h" using hv_run_ok [OF assms(1)] assms(2) by simp
  have l: "leaf_of (p2m h) d s m = Some \<pi>" using leaf_map_Ok(2) [OF assms(3,4)] assms(5) by simp
  show ?thesis using leaf_of_facts(2) [OF h l] leaf_of_wx [OF h, of d s m] l leaf_map_Ok(2) by fastforce
qed

theorem leaf_map_isolation_witness:
  "\<exists>out'. leaf_map (p2m shared_state) 0 \<lparr>mp_base = [None, None, None], mp_sup = []\<rparr> = (Ok (), out') \<and>
     mp_base out' ! 2 = Some Ro \<and> pm_owner_of (p2m shared_state) 2 = Some 1 \<and>
     gt_authorizes (grant shared_state) 1 0 2 False \<and> \<not> gt_authorizes (grant shared_state) 1 0 2 True"
proof -
  let ?out = "\<lparr>mp_base = [None, None, None], mp_sup = []\<rparr>"
  have start: "hv_start (hv_new 2 2 2 1 1 3 1)" by (rule hv_startI) simp_all
  have lm: "leaf_map (p2m shared_state) 0 ?out = (Ok (), \<lparr>mp_base = [None, Some Rw, Some Ro], mp_sup = []\<rparr>)" by code_simp
  have c: "pm_owner_of (p2m shared_state) 2 = Some 1 \<and> \<not> gt_authorizes (grant shared_state) 1 0 2 True" by code_simp
  from leaf_map_isolation [OF start shared_state_def lm, of 2 Base Ro] lm c show ?thesis by auto
qed

text \<open>
  C25: The refinement check has nothing to report. In every reachable state with at most 512 frames
  \<open>check_all\<close> does not panic, and the verdicts it can return are out-of-domain facts, never a
  violation; it returns \<open>Ok\<close> exactly when the leaf map of every domain can be emitted.
\<close>

theorem check_all_no_finding:
  assumes "hv_start h0" and "h = hv_run trs h0" and "pm_frame_count (p2m h) \<le> TABLE_ENTRIES"
    and "out = \<lparr>mp_base = replicate (pm_frame_count (p2m h)) None, mp_sup = replicate (pm_frame_count (p2m h)) None\<rparr>"
  shows "check_all h \<noteq> Panic \<and> (\<forall>v. check_all h = Err v \<longrightarrow> finding v = None) \<and>
    (check_all h = Ok () \<longleftrightarrow> (\<forall>d < hv_domain_count h. fst (leaf_map (p2m h) d out) = Ok ()))"
proof -
  have h: "hv_ok h" using hv_run_ok [OF assms(1)] assms(2) by simp
  have u16: "as_u16 i = i" if "i < hv_domain_count h" for i using that hv_okD(23) [OF h] by simp
  have cap: "length (span_map s out) = pm_frame_count (p2m h)" for s by (cases s) (simp_all add: assms(4))
  have "check_all h = check_domains h [0..<hv_domain_count h] out"
    using assms(3) by (simp add: check_all_def assms(4) min_def Let_def)
  then show ?thesis using check_domains_outcome [OF h cap, of "[0..<hv_domain_count h]"] u16 by auto
qed

theorem check_all_no_finding_witness:
  "check_all shared_state = Ok () \<and> check_all shared_state \<noteq> Panic \<and>
   fst (leaf_map (p2m shared_state) 1 \<lparr>mp_base = [None, None, None], mp_sup = [None, None, None]\<rparr>) = Ok ()"
proof -
  have start: "hv_start (hv_new 2 2 2 1 1 3 1)" by (rule hv_startI) simp_all
  have c: "check_all shared_state = Ok ()" "pm_frame_count (p2m shared_state) = 3" "hv_domain_count shared_state = 2" by code_simp+
  have e: "\<lparr>mp_base = [None, None, None], mp_sup = [None, None, None]\<rparr> =
      \<lparr>mp_base = replicate (pm_frame_count (p2m shared_state)) None, mp_sup = replicate (pm_frame_count (p2m shared_state)) None\<rparr>"
    by (simp add: c numeral_3_eq_3)
  from check_all_no_finding [OF start shared_state_def _ e] c show ?thesis by (simp add: TABLE_ENTRIES_def)
qed

text \<open>
  The last entry wins. A domain that maps one frame through two entries, first writable and then
  read-only, gets a read-only leaf although one of its tables has a writable leaf for the frame.
\<close>

lemma leaf_map_last_wins:
  "\<exists>h. (\<exists>trs. h = hv_run trs (hv_new 1 1 1 1 1 2 1)) \<and> (0, 3, 1, True, True, False) \<in> set (pm_link_edges (p2m h)) \<and>
     pm_owner_of (p2m h) 0 = Some 0 \<and>
     leaf_map (p2m h) 0 \<lparr>mp_base = [None, None], mp_sup = []\<rparr> = (Ok (), \<lparr>mp_base = [None, Some Ro], mp_sup = []\<rparr>)"
proof -
  define h where "h = hv_run [Guest 0 (P2mAllocate 0), Guest 0 (P2mAllocate 1), Guest 0 (P2mPin 0 L1),
     Guest 0 (P2mLink 0 3 1 True True False), Guest 0 (P2mLink 0 4 1 False True False)] (hv_new 1 1 1 1 1 2 1)"
  have "(0, 3, 1, True, True, False) \<in> set (pm_link_edges (p2m h)) \<and> pm_owner_of (p2m h) 0 = Some 0 \<and>
     leaf_map (p2m h) 0 \<lparr>mp_base = [None, None], mp_sup = []\<rparr> = (Ok (), \<lparr>mp_base = [None, Some Ro], mp_sup = []\<rparr>)"
    unfolding h_def by code_simp
  then show ?thesis unfolding h_def by blast
qed

end
