(* ===== verification/Stage2_Desc.thy ===== *)
theory Stage2_Desc
  imports Words Leafmap
begin

text \<open>
  The descriptor words of \<open>hv-s2/src/arm64.rs\<close>: memory types, the bit fields of a Stage-2
  descriptor, the constants the encoder writes and the decoders that read them back. The lemmas
  compute every decoder on every word the encoder can write, for an arbitrary output address.
\<close>

section \<open>Memory types\<close>

datatype MemoryType = NormalWbIsh | NormalNonCacheable | DeviceNGnRnE

fun stage1_mair_byte :: "MemoryType \<Rightarrow> u8" where
  "stage1_mair_byte NormalWbIsh = 0xff"
| "stage1_mair_byte NormalNonCacheable = 0x44"
| "stage1_mair_byte DeviceNGnRnE = 0x00"

fun shareability_bits :: "MemoryType \<Rightarrow> u64" where
  "shareability_bits NormalWbIsh = push_bit 8 3"
| "shareability_bits NormalNonCacheable = push_bit 8 0"
| "shareability_bits DeviceNGnRnE = push_bit 8 0"

definition stage2_leaf_bits :: "MemoryType \<Rightarrow> u64" where
  "stage2_leaf_bits t =
     push_bit 2 (case t of NormalWbIsh \<Rightarrow> 15 | NormalNonCacheable \<Rightarrow> 5 | DeviceNGnRnE \<Rightarrow> 0) OR shareability_bits t"

section \<open>Descriptor fields\<close>

definition DESC_TABLE :: u64 where "DESC_TABLE = 3"
definition DESC_PAGE :: u64 where "DESC_PAGE = 3"
definition DESC_BLOCK :: u64 where "DESC_BLOCK = 1"
definition ADDR_4K :: u64 where "ADDR_4K = 0x0000fffffffff000"
definition ADDR_2M :: u64 where "ADDR_2M = 0x0000ffffffe00000"
definition DESC_AF :: u64 where "DESC_AF = push_bit 10 1"
definition LEAF_COMMON :: u64 where "LEAF_COMMON = stage2_leaf_bits NormalWbIsh OR DESC_AF"
definition S2AP_RW :: u64 where "S2AP_RW = push_bit 6 3"
definition S2AP_RO :: u64 where "S2AP_RO = push_bit 6 1"
definition DESC_XN :: u64 where "DESC_XN = push_bit 54 1"
definition BLOCK_ROX :: u64 where "BLOCK_ROX = DESC_BLOCK OR LEAF_COMMON OR S2AP_RO"
definition PAGE_RW :: u64 where "PAGE_RW = DESC_PAGE OR LEAF_COMMON OR S2AP_RW OR DESC_XN"
definition PAGE_RO :: u64 where "PAGE_RO = DESC_PAGE OR LEAF_COMMON OR S2AP_RO OR DESC_XN"
definition PAGE_RX :: u64 where "PAGE_RX = DESC_PAGE OR LEAF_COMMON OR S2AP_RO"
definition BLOCK_RW :: u64 where "BLOCK_RW = DESC_BLOCK OR LEAF_COMMON OR S2AP_RW OR DESC_XN"
definition BLOCK_RO :: u64 where "BLOCK_RO = DESC_BLOCK OR LEAF_COMMON OR S2AP_RO OR DESC_XN"
definition BLOCK_RW_X :: u64 where "BLOCK_RW_X = DESC_BLOCK OR LEAF_COMMON OR S2AP_RW"
definition BLOCK_RX :: u64 where "BLOCK_RX = DESC_BLOCK OR LEAF_COMMON OR S2AP_RO"
definition BLOCK_DEVICE :: u64 where
  "BLOCK_DEVICE = DESC_BLOCK OR stage2_leaf_bits DeviceNGnRnE OR DESC_AF OR S2AP_RW OR DESC_XN"

lemmas desc_defs = DESC_TABLE_def DESC_PAGE_def DESC_BLOCK_def DESC_AF_def LEAF_COMMON_def S2AP_RW_def S2AP_RO_def
  DESC_XN_def BLOCK_ROX_def PAGE_RW_def PAGE_RO_def PAGE_RX_def BLOCK_RW_def BLOCK_RO_def BLOCK_RW_X_def BLOCK_RX_def
  BLOCK_DEVICE_def stage2_leaf_bits_def

section \<open>Permissions and their bits\<close>

fun leaf_access_xn :: "Perm \<Rightarrow> bool \<Rightarrow> Perm \<times> bool" where
  "leaf_access_xn Ro wx_exempt = (Ro, True)"
| "leaf_access_xn Rw wx_exempt = (Rw, \<not> wx_exempt)"
| "leaf_access_xn Rx wx_exempt = (Ro, False)"

fun page_leaf_attrs :: "Perm \<Rightarrow> u64" where
  "page_leaf_attrs Rw = PAGE_RW"
| "page_leaf_attrs Ro = PAGE_RO"
| "page_leaf_attrs Rx = PAGE_RX"

fun block_leaf_attrs :: "Perm \<Rightarrow> bool \<Rightarrow> u64" where
  "block_leaf_attrs Rw False = BLOCK_RW"
| "block_leaf_attrs Rw True = BLOCK_RW_X"
| "block_leaf_attrs Ro _ = BLOCK_RO"
| "block_leaf_attrs Rx _ = BLOCK_RX"

section \<open>Decoders\<close>

record Decoded =
  de_pa :: u64
  de_perm :: Perm
  de_xn :: bool

record DecodedDevice =
  dd_pa :: u64
  dd_xn :: bool

definition decode_perm :: "u64 \<Rightarrow> Perm option" where
  "decode_perm d =
     (let v = drop_bit 6 d AND 3 in if v = 3 then Some Rw else if v = 1 then Some Ro else None)"

definition decode_page :: "u64 \<Rightarrow> Decoded option" where
  "decode_page d =
     (if d AND 3 \<noteq> DESC_PAGE then None
      else (case decode_perm d of None \<Rightarrow> None
            | Some p \<Rightarrow> Some \<lparr>de_pa = d AND ADDR_4K, de_perm = p, de_xn = (d AND DESC_XN \<noteq> 0)\<rparr>))"

definition decode_block :: "u64 \<Rightarrow> Decoded option" where
  "decode_block d =
     (if d AND 3 \<noteq> DESC_BLOCK then None
      else (case decode_perm d of None \<Rightarrow> None
            | Some p \<Rightarrow> Some \<lparr>de_pa = d AND ADDR_2M, de_perm = p, de_xn = (d AND DESC_XN \<noteq> 0)\<rparr>))"

definition decode_table :: "u64 \<Rightarrow> u64 option" where
  "decode_table d = (if d AND 3 \<noteq> DESC_TABLE then None else Some (d AND ADDR_4K))"

definition decode_device_block :: "u64 \<Rightarrow> DecodedDevice option" where
  "decode_device_block d =
     (if d AND 3 \<noteq> DESC_BLOCK then None
      else if drop_bit 2 d AND 15 \<noteq> 0 then None
      else Some \<lparr>dd_pa = d AND ADDR_2M, dd_xn = (d AND DESC_XN \<noteq> 0)\<rparr>)"

section \<open>Reading back what was written\<close>

lemma and_or_disjoint:
  fixes pa :: "'a::len word"
  assumes "A AND k = 0" shows "(pa AND A OR c) AND k = c AND k"
  by (simp add: bit.conj_disj_distrib2 and.assoc assms)

lemma and_or_within:
  fixes pa :: "'a::len word"
  assumes "c AND A = 0" shows "(pa AND A OR c) AND A = pa AND A"
  by (simp add: bit.conj_disj_distrib2 and.assoc assms)

lemma drop_and_shift: "drop_bit n d AND k = drop_bit n (d AND push_bit n k)" if "drop_bit n (push_bit n k) = k"
  for d :: "'a::len word"
  by (simp add: drop_bit_and that)

lemma addr_masks:
  "ADDR_4K AND 3 = 0" "ADDR_2M AND 3 = 0" "ADDR_4K AND 192 = 0" "ADDR_2M AND 192 = 0" "ADDR_2M AND 60 = 0"
  "ADDR_4K AND DESC_XN = 0" "ADDR_2M AND DESC_XN = 0"
  by (simp_all add: ADDR_4K_def ADDR_2M_def DESC_XN_def)

lemma low_drop: "drop_bit 6 d AND 3 = drop_bit 6 (d AND 192)" "drop_bit 2 d AND 15 = drop_bit 2 (d AND 60)" for d :: u64
  using drop_and_shift [of 6 3 d] drop_and_shift [of 2 15 d] by simp_all

lemma decode_perm_attrs: "A AND 192 = 0 \<Longrightarrow> decode_perm (pa AND A OR c) = decode_perm c"
  unfolding decode_perm_def low_drop by (simp add: and_or_disjoint)

lemma decode_page_attrs:
  assumes "c AND 3 = DESC_PAGE" "c AND ADDR_4K = 0"
  shows "decode_page (pa AND ADDR_4K OR c) =
    map_option (\<lambda>p. \<lparr>de_pa = pa AND ADDR_4K, de_perm = p, de_xn = (c AND DESC_XN \<noteq> 0)\<rparr>) (decode_perm c)"
  by (simp add: decode_page_def and_or_disjoint addr_masks decode_perm_attrs and_or_within assms split: option.split)

lemma decode_block_attrs:
  assumes "c AND 3 = DESC_BLOCK" "c AND ADDR_2M = 0"
  shows "decode_block (pa AND ADDR_2M OR c) =
    map_option (\<lambda>p. \<lparr>de_pa = pa AND ADDR_2M, de_perm = p, de_xn = (c AND DESC_XN \<noteq> 0)\<rparr>) (decode_perm c)"
  by (simp add: decode_block_def and_or_disjoint addr_masks decode_perm_attrs and_or_within assms split: option.split)

lemma decode_table_desc: "decode_table (pa AND ADDR_4K OR DESC_TABLE) = Some (pa AND ADDR_4K)"
proof -
  have "DESC_TABLE AND ADDR_4K = 0" "DESC_TABLE AND 3 = DESC_TABLE" by (simp_all add: DESC_TABLE_def ADDR_4K_def)
  then show ?thesis by (simp add: decode_table_def and_or_disjoint addr_masks and_or_within)
qed

lemma decode_device_attrs:
  assumes "c AND 3 = DESC_BLOCK" "c AND ADDR_2M = 0" "drop_bit 2 c AND 15 = 0"
  shows "decode_device_block (pa AND ADDR_2M OR c) = Some \<lparr>dd_pa = pa AND ADDR_2M, dd_xn = (c AND DESC_XN \<noteq> 0)\<rparr>"
  using assms unfolding decode_device_block_def low_drop by (simp add: and_or_disjoint addr_masks and_or_within)

lemma decode_zero [simp]:
  "decode_page 0 = None" "decode_block 0 = None" "decode_table 0 = None" "decode_device_block 0 = None"
  by (simp_all add: decode_page_def decode_block_def decode_table_def decode_device_block_def desc_defs)

lemma page_decodes:
  "decode_page (pa AND ADDR_4K OR page_leaf_attrs p) =
     Some \<lparr>de_pa = pa AND ADDR_4K, de_perm = fst (leaf_access_xn p False), de_xn = snd (leaf_access_xn p False)\<rparr>"
proof -
  have "page_leaf_attrs p AND 3 = DESC_PAGE" "page_leaf_attrs p AND ADDR_4K = 0"
    "decode_perm (page_leaf_attrs p) = Some (fst (leaf_access_xn p False))"
    "page_leaf_attrs p AND DESC_XN \<noteq> 0 \<longleftrightarrow> snd (leaf_access_xn p False)"
    by (cases p; simp add: desc_defs ADDR_4K_def decode_perm_def)+
  then show ?thesis by (simp add: decode_page_attrs)
qed

lemma block_decodes:
  "decode_block (pa AND ADDR_2M OR block_leaf_attrs p wx) =
     Some \<lparr>de_pa = pa AND ADDR_2M, de_perm = fst (leaf_access_xn p wx), de_xn = snd (leaf_access_xn p wx)\<rparr>"
proof -
  have "block_leaf_attrs p wx AND 3 = DESC_BLOCK" "block_leaf_attrs p wx AND ADDR_2M = 0"
    "decode_perm (block_leaf_attrs p wx) = Some (fst (leaf_access_xn p wx))"
    "block_leaf_attrs p wx AND DESC_XN \<noteq> 0 \<longleftrightarrow> snd (leaf_access_xn p wx)"
    by (cases p; cases wx; simp add: desc_defs ADDR_2M_def decode_perm_def)+
  then show ?thesis by (simp add: decode_block_attrs)
qed

lemma image_decodes:
  "decode_block (pa AND ADDR_2M OR BLOCK_ROX) = Some \<lparr>de_pa = pa AND ADDR_2M, de_perm = Ro, de_xn = False\<rparr>"
  using block_decodes [of pa Rx False] by (simp add: BLOCK_ROX_def BLOCK_RX_def)

lemma device_decodes:
  "decode_block (pa AND ADDR_2M OR BLOCK_DEVICE) = Some \<lparr>de_pa = pa AND ADDR_2M, de_perm = Rw, de_xn = True\<rparr>"
  "decode_device_block (pa AND ADDR_2M OR BLOCK_DEVICE) = Some \<lparr>dd_pa = pa AND ADDR_2M, dd_xn = True\<rparr>"
proof -
  have c: "BLOCK_DEVICE AND 3 = DESC_BLOCK" "BLOCK_DEVICE AND ADDR_2M = 0" "drop_bit 2 BLOCK_DEVICE AND 15 = 0"
    "BLOCK_DEVICE AND DESC_XN \<noteq> 0" "decode_perm BLOCK_DEVICE = Some Rw"
    by (simp_all add: desc_defs ADDR_2M_def decode_perm_def)
  show "decode_block (pa AND ADDR_2M OR BLOCK_DEVICE) = Some \<lparr>de_pa = pa AND ADDR_2M, de_perm = Rw, de_xn = True\<rparr>"
    using c by (simp add: decode_block_attrs)
  show "decode_device_block (pa AND ADDR_2M OR BLOCK_DEVICE) = Some \<lparr>dd_pa = pa AND ADDR_2M, dd_xn = True\<rparr>"
    using c by (simp add: decode_device_attrs)
qed

lemma normal_not_device:
  "decode_device_block (pa AND ADDR_2M OR block_leaf_attrs p wx) = None"
  unfolding decode_device_block_def low_drop by (cases p; cases wx; simp add: and_or_disjoint addr_masks desc_defs)

text \<open>
  The tag in the two low bits tells blocks from the rest; a page and a table descriptor share theirs.
\<close>

lemma written_tags:
  "(pa AND ADDR_4K OR page_leaf_attrs p) AND 3 = 3" "(pa AND ADDR_4K OR DESC_TABLE) AND 3 = 3"
  "(pa AND ADDR_2M OR block_leaf_attrs p wx) AND 3 = 1" "(pa AND ADDR_2M OR BLOCK_DEVICE) AND 3 = 1"
  by (cases p; cases wx; simp add: and_or_disjoint addr_masks desc_defs)+

lemma tag_page_or_table: "d AND 3 = 3 \<Longrightarrow> decode_block d = None" "d AND 3 = 3 \<Longrightarrow> decode_device_block d = None"
  "d AND 3 = 3 \<Longrightarrow> decode_table d = Some (d AND ADDR_4K)"
  by (simp_all add: decode_block_def decode_device_block_def decode_table_def DESC_BLOCK_def DESC_TABLE_def)

lemma tag_block: "d AND 3 = 1 \<Longrightarrow> decode_page d = None" "d AND 3 = 1 \<Longrightarrow> decode_table d = None"
  by (simp_all add: decode_page_def decode_table_def DESC_PAGE_def DESC_TABLE_def)

lemmas page_no_block = tag_page_or_table(1,2) [OF written_tags(1)]
lemmas table_not_block = tag_page_or_table(1,2) [OF written_tags(2)]
lemmas block_no_page = tag_block [OF written_tags(3)]
lemmas device_no_page = tag_block [OF written_tags(4)]

lemma page_as_table: "decode_table (pa AND ADDR_4K OR page_leaf_attrs p) = Some (pa AND ADDR_4K)"
proof -
  have "page_leaf_attrs p AND ADDR_4K = 0" by (cases p; simp add: desc_defs ADDR_4K_def)
  then show ?thesis by (simp add: tag_page_or_table(3) [OF written_tags(1)] and_or_within)
qed

lemma table_not_page: "decode_page (pa AND ADDR_4K OR DESC_TABLE) = None"
proof -
  have "decode_perm (pa AND ADDR_4K OR DESC_TABLE) = None"
    by (simp add: decode_perm_attrs addr_masks) (simp add: decode_perm_def DESC_TABLE_def)
  then show ?thesis by (simp add: decode_page_def)
qed

section \<open>Properties\<close>

text \<open>
  C40: The words the emitter writes mean what the leaf map says, for every output address. A page
  and a block descriptor decode to the address the descriptor can carry, to the access and to the
  execute-never bit of the permission; a leaf that is writable and executable at once arises only
  from a writable block under the declared exemption, never from a page; the guest image decodes
  read-only and executable; a device block decodes as device memory, read-write and execute-never,
  and no normal block decodes as device memory; an empty slot decodes to nothing. What the decoders
  tell apart is exact. A block word, normal or device, is neither a page nor a table; a page or a
  table word is no block and no device; a table word is no page, for it carries no access bits. Two
  words have a second reading: a page shares its tag with a table and reads as one, and a device
  block reads as a writable, execute-never block, so for these the level and the decoder the walk
  picks decide.
\<close>

theorem descriptor_roundtrip:
  "decode_page (pa AND ADDR_4K OR page_leaf_attrs p) =
     Some \<lparr>de_pa = pa AND ADDR_4K, de_perm = fst (leaf_access_xn p False), de_xn = snd (leaf_access_xn p False)\<rparr> \<and>
   decode_block (pa AND ADDR_2M OR block_leaf_attrs p wx) =
     Some \<lparr>de_pa = pa AND ADDR_2M, de_perm = fst (leaf_access_xn p wx), de_xn = snd (leaf_access_xn p wx)\<rparr> \<and>
   decode_table (pa AND ADDR_4K OR DESC_TABLE) = Some (pa AND ADDR_4K) \<and>
   (perm_writable (fst (leaf_access_xn p wx)) \<and> \<not> snd (leaf_access_xn p wx) \<longleftrightarrow> p = Rw \<and> wx) \<and>
   (perm_writable (fst (leaf_access_xn p wx)) \<longleftrightarrow> perm_writable p) \<and>
   (\<not> snd (leaf_access_xn p False) \<longleftrightarrow> perm_executable p) \<and>
   decode_block (pa AND ADDR_2M OR BLOCK_ROX) = Some \<lparr>de_pa = pa AND ADDR_2M, de_perm = Ro, de_xn = False\<rparr> \<and>
   decode_device_block (pa AND ADDR_2M OR BLOCK_DEVICE) = Some \<lparr>dd_pa = pa AND ADDR_2M, dd_xn = True\<rparr> \<and>
   decode_device_block (pa AND ADDR_2M OR block_leaf_attrs p wx) = None \<and>
   decode_page 0 = None \<and> decode_block 0 = None \<and> decode_table 0 = None \<and> decode_device_block 0 = None \<and>
   decode_block (pa AND ADDR_4K OR page_leaf_attrs p) = None \<and>
   decode_device_block (pa AND ADDR_4K OR page_leaf_attrs p) = None \<and>
   decode_table (pa AND ADDR_4K OR page_leaf_attrs p) = Some (pa AND ADDR_4K) \<and>
   decode_page (pa AND ADDR_2M OR block_leaf_attrs p wx) = None \<and>
   decode_table (pa AND ADDR_2M OR block_leaf_attrs p wx) = None \<and>
   decode_page (pa AND ADDR_4K OR DESC_TABLE) = None \<and> decode_block (pa AND ADDR_4K OR DESC_TABLE) = None \<and>
   decode_device_block (pa AND ADDR_4K OR DESC_TABLE) = None \<and>
   decode_page (pa AND ADDR_2M OR BLOCK_DEVICE) = None \<and> decode_table (pa AND ADDR_2M OR BLOCK_DEVICE) = None \<and>
   decode_block (pa AND ADDR_2M OR BLOCK_DEVICE) = Some \<lparr>de_pa = pa AND ADDR_2M, de_perm = Rw, de_xn = True\<rparr>"
  by (intro conjI page_decodes block_decodes decode_table_desc image_decodes device_decodes normal_not_device decode_zero
      page_no_block table_not_block block_no_page device_no_page page_as_table table_not_page)
    (cases p; cases wx; simp)+

end
