(* ===== verification/Stage2_Layout.thy ===== *)
theory Stage2_Layout
  imports Stage2_Desc
begin

text \<open>
  The address layout of an emitted table set, \<open>hv-s2/src/arm64.rs\<close>: \<open>Layout\<close>, the addresses of
  frames, the regions and \<open>Layout::validate\<close>. Arithmetic is on 64-bit words and wraps. The lemmas
  read the consequences of an accepted layout as facts about natural numbers: where every window
  lies, in which table slot each of its blocks falls, and that the four regions use four different
  level-1 slots.
\<close>

section \<open>Geometry\<close>

definition BLOCK_SIZE :: u64 where "BLOCK_SIZE = 0x200000"
definition PAGE_SIZE :: u64 where "PAGE_SIZE = BLOCK_SIZE div of_nat TABLE_ENTRIES"
definition L1_ENTRY_SIZE :: u64 where "L1_ENTRY_SIZE = BLOCK_SIZE * of_nat TABLE_ENTRIES"
definition ADDRESSABLE :: u64 where "ADDRESSABLE = L1_ENTRY_SIZE * of_nat TABLE_ENTRIES"
definition MAX_TABLE_PA :: u64 where "MAX_TABLE_PA = push_bit 48 1"

record Layout =
  l1_pa :: u64
  l2_code_pa :: u64
  l2_data_pa :: u64
  l3_data_pa :: u64
  l2_sup_pa :: u64
  l2_dev_pa :: u64
  guest_image_pa :: "u64 option"
  data_ipa_base :: u64
  data_pa_base :: u64
  frame_size :: u64
  sup_ipa_base :: u64
  sup_pa_base :: u64
  device_base :: u64
  device_len :: u64
  sup_wx_exempt :: bool
  sup_frames :: u64

definition frame_addr :: "u64 \<Rightarrow> u64 \<Rightarrow> u32 \<Rightarrow> u64" where
  "frame_addr base fsize m = base + ucast m * fsize"

definition frame_pa :: "Layout \<Rightarrow> u32 \<Rightarrow> u64" where
  "frame_pa layout m = frame_addr (data_pa_base layout) (frame_size layout) m"

definition frame_ipa :: "Layout \<Rightarrow> u32 \<Rightarrow> u64" where
  "frame_ipa layout m = frame_addr (data_ipa_base layout) (frame_size layout) m"

definition super_size :: "Layout \<Rightarrow> u64" where
  "super_size layout = of_nat TABLE_ENTRIES * frame_size layout"

definition super_pa :: "Layout \<Rightarrow> u32 \<Rightarrow> u64" where
  "super_pa layout m = frame_addr (sup_pa_base layout) (super_size layout) m"

definition super_ipa :: "Layout \<Rightarrow> u32 \<Rightarrow> u64" where
  "super_ipa layout m = frame_addr (sup_ipa_base layout) (super_size layout) m"

text \<open>The nine index bits of an address at each level of the walk.\<close>

definition l1_index :: "u64 \<Rightarrow> nat" where "l1_index a = unat (drop_bit 30 a AND 0x1ff)"
definition l2_index :: "u64 \<Rightarrow> nat" where "l2_index a = unat (drop_bit 21 a AND 0x1ff)"

definition code_l1 :: "Layout \<Rightarrow> nat option" where "code_l1 layout = map_option l1_index (guest_image_pa layout)"
definition code_l2 :: "Layout \<Rightarrow> nat option" where "code_l2 layout = map_option l2_index (guest_image_pa layout)"
definition data_l1 :: "Layout \<Rightarrow> nat" where "data_l1 layout = l1_index (data_ipa_base layout)"
definition data_l2 :: "Layout \<Rightarrow> nat" where "data_l2 layout = l2_index (data_ipa_base layout)"
definition sup_l1 :: "Layout \<Rightarrow> nat" where "sup_l1 layout = l1_index (sup_ipa_base layout)"
definition dev_l1 :: "Layout \<Rightarrow> nat option" where
  "dev_l1 layout = (if 0 < device_len layout then Some (l1_index (device_base layout)) else None)"

section \<open>Validation\<close>

datatype EncodingViolation =
    RegionsCollide nat
  | WindowsOverlap string
  | DeviceWindowUnaligned u64 u64
  | WindowUnaligned string u64 u64
  | RegionCrossesL1 nat u64
  | TableUnnameable string u64
  | GranuleNotEmitted u64
  | BadDeviceBlock nat u64
  | BadTableEntry string nat "u64 option" u64
  | BadImageBlock "Decoded option" u64
  | BadLeaf u32 "Decoded option" "(u64 \<times> Perm) option"
  | SpuriousDescriptor string nat u64

definition aligned :: "string \<Rightarrow> u64 \<Rightarrow> u64 \<Rightarrow> (unit, EncodingViolation) result" where
  "aligned window base align = (if base mod align = 0 then Ok () else Err (WindowUnaligned window base align))"

definition nameable :: "string \<Rightarrow> u64 \<Rightarrow> (unit, EncodingViolation) result" where
  "nameable table pa = (if pa < MAX_TABLE_PA \<and> pa mod PAGE_SIZE = 0 then Ok () else Err (TableUnnameable table pa))"

type_synonym Region = "nat \<times> u64 \<times> u64 \<times> u64"

definition regions :: "Layout \<Rightarrow> Region option list" where
  "regions layout =
     [map_option (\<lambda>pa. (l1_index pa, pa, pa, BLOCK_SIZE)) (guest_image_pa layout),
      Some (data_l1 layout, data_ipa_base layout, data_pa_base layout, of_nat TABLE_ENTRIES * frame_size layout),
      Some (sup_l1 layout, sup_ipa_base layout, sup_pa_base layout, sup_frames layout * super_size layout),
      map_option (\<lambda>l1. (l1, device_base layout, device_base layout, device_len layout)) (dev_l1 layout)]"

definition overlaps :: "u64 \<Rightarrow> u64 \<Rightarrow> u64 \<Rightarrow> u64 \<Rightarrow> bool" where
  "overlaps a alen b blen \<longleftrightarrow> a < b + blen \<and> b < a + alen"

fun region_in_entry :: "Region option \<Rightarrow> (unit, EncodingViolation) result" where
  "region_in_entry None = Ok ()"
| "region_in_entry (Some (l1, ipa, pa, span)) =
     (if ipa \<ge> ADDRESSABLE \<or> span > ADDRESSABLE - ipa \<or> ipa mod L1_ENTRY_SIZE + span > L1_ENTRY_SIZE
      then Err (RegionCrossesL1 l1 span) else Ok ())"

fun regions_apart :: "Region option \<Rightarrow> Region option \<Rightarrow> (unit, EncodingViolation) result" where
  "regions_apart (Some (l1a, ipa_a, pa_a, span_a)) (Some (l1b, ipa_b, pa_b, span_b)) =
     (if l1a = l1b then Err (RegionsCollide l1a)
      else if overlaps ipa_a span_a ipa_b span_b then Err (WindowsOverlap ''ipa'')
      else if overlaps pa_a span_a pa_b span_b then Err (WindowsOverlap ''pa'')
      else Ok ())"
| "regions_apart _ _ = Ok ()"

definition validate :: "Layout \<Rightarrow> (unit, EncodingViolation) result" where
  "validate layout =
     (if device_len layout mod BLOCK_SIZE \<noteq> 0
      then Err (DeviceWindowUnaligned (device_base layout) (device_len layout))
      else if frame_size layout \<noteq> PAGE_SIZE then Err (GranuleNotEmitted (frame_size layout))
      else
        and_then (aligned ''data ipa'' (data_ipa_base layout) BLOCK_SIZE)
        (and_then (aligned ''data pa'' (data_pa_base layout) PAGE_SIZE)
        (and_then (aligned ''super ipa'' (sup_ipa_base layout) BLOCK_SIZE)
        (and_then (aligned ''super pa'' (sup_pa_base layout) BLOCK_SIZE)
        (and_then (case guest_image_pa layout of Some pa \<Rightarrow> aligned ''guest image'' pa BLOCK_SIZE | None \<Rightarrow> Ok ())
        (and_then (if 0 < device_len layout then aligned ''device'' (device_base layout) BLOCK_SIZE else Ok ())
        (and_then (nameable ''l1'' (l1_pa layout))
        (and_then (nameable ''l2_code'' (l2_code_pa layout))
        (and_then (nameable ''l2_data'' (l2_data_pa layout))
        (and_then (nameable ''l3_data'' (l3_data_pa layout))
        (and_then (nameable ''l2_sup'' (l2_sup_pa layout))
        (and_then (nameable ''l2_dev'' (l2_dev_pa layout))
        (and_then (scan region_in_entry (regions layout))
        (scan (\<lambda>i. scan (\<lambda>j. regions_apart (regions layout ! i) (regions layout ! j))
           [i + 1..<length (regions layout)]) [0..<length (regions layout)]))))))))))))))"

section \<open>What an accepted layout guarantees\<close>

lemma geometry:
  "unat BLOCK_SIZE = 2 ^ 21" "unat PAGE_SIZE = 2 ^ 12" "unat L1_ENTRY_SIZE = 2 ^ 30" "unat ADDRESSABLE = 2 ^ 39"
  "unat MAX_TABLE_PA = 2 ^ 48"
  by (simp_all add: BLOCK_SIZE_def PAGE_SIZE_def L1_ENTRY_SIZE_def ADDRESSABLE_def MAX_TABLE_PA_def TABLE_ENTRIES_def)

lemma unat_drop: "unat (drop_bit n a) = unat (a :: 'a::len word) div 2 ^ n"
  unfolding unsigned_drop_bit_eq by (simp add: drop_bit_eq_div take_bit_nat_eq_self)

lemma unat_low: "unat (a AND mask n) = unat (a :: 'a::len word) mod 2 ^ n"
  unfolding take_bit_eq_mask [symmetric] unsigned_take_bit_eq by (simp only: take_bit_eq_mod)

lemma mask_9: "(0x1ff :: u64) = mask 9"
  by (simp add: mask_eq_exp_minus_1)

lemma index_nat:
  "l1_index a = unat a div 2 ^ 30 mod 512" "l2_index a = unat a div 2 ^ 21 mod 512"
  unfolding l1_index_def l2_index_def mask_9 unat_low unat_drop by simp_all

lemma if_Err_Ok: "(if c then Err e else r) = Ok () \<longleftrightarrow> \<not> c \<and> r = Ok ()"
  by simp

lemma aligned_Ok: "aligned w b a = Ok () \<longleftrightarrow> b mod a = 0"
  unfolding aligned_def by simp

lemma nameable_Ok: "nameable t pa = Ok () \<longleftrightarrow> pa < MAX_TABLE_PA \<and> pa mod PAGE_SIZE = 0"
  unfolding nameable_def by simp

lemma validate_iff:
  "validate layout = Ok () \<longleftrightarrow>
     device_len layout mod BLOCK_SIZE = 0 \<and> frame_size layout = PAGE_SIZE \<and>
     data_ipa_base layout mod BLOCK_SIZE = 0 \<and> data_pa_base layout mod PAGE_SIZE = 0 \<and>
     sup_ipa_base layout mod BLOCK_SIZE = 0 \<and> sup_pa_base layout mod BLOCK_SIZE = 0 \<and>
     (\<forall>pa. guest_image_pa layout = Some pa \<longrightarrow> pa mod BLOCK_SIZE = 0) \<and>
     (0 < device_len layout \<longrightarrow> device_base layout mod BLOCK_SIZE = 0) \<and>
     (\<forall>pa \<in> {l1_pa layout, l2_code_pa layout, l2_data_pa layout, l3_data_pa layout, l2_sup_pa layout, l2_dev_pa layout}.
        pa < MAX_TABLE_PA \<and> pa mod PAGE_SIZE = 0) \<and>
     (\<forall>r \<in> set (regions layout). region_in_entry r = Ok ()) \<and>
     (\<forall>i < 4. \<forall>j. i < j \<and> j < 4 \<longrightarrow> regions_apart (regions layout ! i) (regions layout ! j) = Ok ())"
proof -
  have len: "length (regions layout) = 4" by (simp add: regions_def)
  have image: "(case guest_image_pa layout of Some pa \<Rightarrow> aligned w pa BLOCK_SIZE | None \<Rightarrow> Ok ()) = Ok () \<longleftrightarrow>
      (\<forall>pa. guest_image_pa layout = Some pa \<longrightarrow> pa mod BLOCK_SIZE = 0)" for w
    by (cases "guest_image_pa layout") (simp_all only: option.case aligned_Ok, simp_all)
  have dev: "(if 0 < device_len layout then aligned w b a else Ok ()) = Ok () \<longleftrightarrow> (0 < device_len layout \<longrightarrow> b mod a = 0)" for w b a
    by (simp only: aligned_Ok split: if_split) simp
  have pairs: "(\<forall>x \<in> set [0..<4]. \<forall>y \<in> set [x + 1..<4]. P x y) \<longleftrightarrow> (\<forall>i < 4. \<forall>j. i < j \<and> j < 4 \<longrightarrow> P i j)"
    for P :: "nat \<Rightarrow> nat \<Rightarrow> bool"
    by (auto simp: Suc_le_eq)
  show ?thesis
    unfolding validate_def len if_Err_Ok and_then_Ok aligned_Ok nameable_Ok image dev scan_Ok
    by (simp only: pairs ball_simps conj_assoc not_not simp_thms)
qed

section \<open>Windows and table slots\<close>

text \<open>
  A window of whole blocks inside one level-1 entry. An address lies in it exactly when it has the
  window's level-1 index and its level-2 index is one of the window's.
\<close>

definition placed :: "nat \<Rightarrow> nat \<Rightarrow> bool" where
  "placed base span \<longleftrightarrow> base mod 2 ^ 21 = 0 \<and> span mod 2 ^ 21 = 0 \<and> base + span \<le> 2 ^ 39 \<and> base < 2 ^ 39 \<and>
     base mod 2 ^ 30 + span \<le> 2 ^ 30"

lemma slot_arith:
  fixes x y s :: nat
  assumes "x mod 512 + s \<le> 512"
  shows "x \<le> y \<and> y < x + s \<longleftrightarrow> y div 512 = x div 512 \<and> x mod 512 \<le> y mod 512 \<and> y mod 512 < x mod 512 + s"
proof -
  have x: "x = 512 * (x div 512) + x mod 512" "x mod 512 < 512" and y: "y = 512 * (y div 512) + y mod 512" "y mod 512 < 512"
    by simp_all
  show ?thesis
  proof (intro iffI conjI; elim conjE)
    assume *: "x \<le> y" "y < x + s"
    have "y div 512 \<le> x div 512" "x div 512 \<le> y div 512" using x y * assms by linarith+
    then show "y div 512 = x div 512" by simp
    then show "x mod 512 \<le> y mod 512" "y mod 512 < x mod 512 + s" using x y * by linarith+
  next
    assume *: "y div 512 = x div 512" "x mod 512 \<le> y mod 512" "y mod 512 < x mod 512 + s"
    then show "x \<le> y" "y < x + s" using x y by linarith+
  qed
qed

lemma placed_window:
  assumes "placed base span"
  shows "base \<le> a \<and> a < base + span \<longleftrightarrow> a div 2 ^ 30 = base div 2 ^ 30 \<and> base div 2 ^ 21 mod 512 \<le> a div 2 ^ 21 mod 512 \<and>
    a div 2 ^ 21 mod 512 < base div 2 ^ 21 mod 512 + span div 2 ^ 21"
proof -
  let ?x = "base div 2 ^ 21" and ?y = "a div 2 ^ 21" and ?s = "span div 2 ^ 21"
  have b: "base = ?x * 2 ^ 21" and s: "span = ?s * 2 ^ 21" using assms by (auto simp: placed_def)
  have d: "n div 2 ^ 30 = n div 2 ^ 21 div 512" for n :: nat by (simp add: div_mult2_eq [symmetric])
  have "base mod 2 ^ 30 = ?x mod 512 * 2 ^ 21" by (subst b) (simp add: mult_mod_left)
  then have fit: "?x mod 512 + ?s \<le> 512" using assms s by (simp add: placed_def)
  have "base \<le> a \<longleftrightarrow> ?x \<le> ?y" by (subst b) (simp add: less_eq_div_iff_mult_less_eq)
  moreover have "a < base + span \<longleftrightarrow> ?y < ?x + ?s"
    by (subst b, subst s) (simp add: div_less_iff_less_mult add_mult_distrib)
  ultimately show ?thesis unfolding d using slot_arith [OF fit] by simp
qed

lemma region_in_entry_nat:
  "region_in_entry (Some (l1, ipa, pa, span)) = Ok () \<longleftrightarrow>
     unat ipa < 2 ^ 39 \<and> unat ipa + unat span \<le> 2 ^ 39 \<and> unat ipa mod 2 ^ 30 + unat span \<le> 2 ^ 30"
proof -
  have sub: "unat (ADDRESSABLE - ipa) = 2 ^ 39 - unat ipa" if "unat ipa < 2 ^ 39"
    using that by (subst unat_sub) (simp_all add: word_le_nat_alt geometry)
  have sum: "unat (ipa mod L1_ENTRY_SIZE + span) = unat ipa mod 2 ^ 30 + unat span" if "unat span \<le> 2 ^ 39"
  proof -
    have "unat ipa mod 2 ^ 30 < 2 ^ 30" by simp
    then show ?thesis using that by (subst unat_add_exact) (simp_all add: unat_mod geometry)
  qed
  show ?thesis
    using sub sum by (auto simp: word_le_nat_alt word_less_nat_alt not_le not_less geometry split: if_splits)
qed

lemma block_multiple: "a mod BLOCK_SIZE = 0 \<longleftrightarrow> unat a mod 2 ^ 21 = 0" "a mod PAGE_SIZE = 0 \<longleftrightarrow> unat a mod 2 ^ 12 = 0"
  unfolding word_unat_eq_iff unat_mod geometry unsigned_0 by (rule refl)+

lemma PAGE_SIZE_mult: "of_nat TABLE_ENTRIES * PAGE_SIZE = BLOCK_SIZE"
  by (simp add: PAGE_SIZE_def BLOCK_SIZE_def TABLE_ENTRIES_def)

lemma mult_block: "unat (n * BLOCK_SIZE) mod 2 ^ 21 = 0"
proof -
  have "2 ^ 21 dvd (unat n * 2 ^ 21) mod (2 ^ 64 :: nat)" by (intro dvd_mod) (simp_all add: le_imp_power_dvd)
  then show ?thesis by (simp add: unat_word_ariths geometry)
qed

text \<open>The facts of a layout that \<open>validate\<close> accepts.\<close>

definition sup_span :: "Layout \<Rightarrow> u64" where "sup_span layout = sup_frames layout * super_size layout"

lemma valid_layout:
  assumes "validate layout = Ok ()"
  shows "frame_size layout = PAGE_SIZE" "super_size layout = BLOCK_SIZE"
    "placed (unat (data_ipa_base layout)) (2 ^ 21)" "placed (unat (sup_ipa_base layout)) (unat (sup_span layout))"
    "guest_image_pa layout = Some pa \<Longrightarrow> placed (unat pa) (2 ^ 21)"
    "0 < device_len layout \<Longrightarrow> placed (unat (device_base layout)) (unat (device_len layout))"
    "unat (data_pa_base layout) mod 2 ^ 12 = 0" "unat (sup_pa_base layout) mod 2 ^ 21 = 0"
    "data_l1 layout \<noteq> sup_l1 layout" "code_l1 layout = Some i \<Longrightarrow> i \<noteq> data_l1 layout \<and> i \<noteq> sup_l1 layout"
    "dev_l1 layout = Some i \<Longrightarrow> i \<noteq> data_l1 layout \<and> i \<noteq> sup_l1 layout \<and> code_l1 layout \<noteq> Some i"
proof -
  note v = assms [unfolded validate_iff]
  show fs: "frame_size layout = PAGE_SIZE" using v by blast
  then show ss: "super_size layout = BLOCK_SIZE" by (simp add: super_size_def PAGE_SIZE_mult)
  have ent: "r \<in> set (regions layout) \<Longrightarrow> region_in_entry r = Ok ()" for r using v by blast
  have al: "unat (data_ipa_base layout) mod 2 ^ 21 = 0" "unat (sup_ipa_base layout) mod 2 ^ 21 = 0"
    "guest_image_pa layout = Some pa \<Longrightarrow> unat pa mod 2 ^ 21 = 0"
    "0 < device_len layout \<Longrightarrow> unat (device_base layout) mod 2 ^ 21 = 0" "unat (device_len layout) mod 2 ^ 21 = 0"
    using v unfolding block_multiple by blast+
  show "unat (data_pa_base layout) mod 2 ^ 12 = 0" "unat (sup_pa_base layout) mod 2 ^ 21 = 0"
    using v unfolding block_multiple by blast+
  have "region_in_entry (Some (data_l1 layout, data_ipa_base layout, data_pa_base layout, BLOCK_SIZE)) = Ok ()"
    by (rule ent) (simp add: regions_def fs PAGE_SIZE_mult)
  then show "placed (unat (data_ipa_base layout)) (2 ^ 21)"
    using al(1) by (simp only: placed_def region_in_entry_nat geometry) simp
  have "region_in_entry (Some (sup_l1 layout, sup_ipa_base layout, sup_pa_base layout, sup_span layout)) = Ok ()"
    by (rule ent) (simp add: regions_def sup_span_def)
  then show "placed (unat (sup_ipa_base layout)) (unat (sup_span layout))"
    using al(2) mult_block [of "sup_frames layout"] by (simp only: placed_def region_in_entry_nat sup_span_def ss)
  show "placed (unat pa) (2 ^ 21)" if pa: "guest_image_pa layout = Some pa"
  proof -
    have "region_in_entry (Some (l1_index pa, pa, pa, BLOCK_SIZE)) = Ok ()" by (rule ent) (simp add: regions_def pa)
    then show ?thesis using al(3) [OF pa] by (simp only: placed_def region_in_entry_nat geometry) simp
  qed
  show "placed (unat (device_base layout)) (unat (device_len layout))" if d: "0 < device_len layout"
  proof -
    have "region_in_entry (Some (l1_index (device_base layout), device_base layout, device_base layout, device_len layout)) = Ok ()"
      by (rule ent) (simp add: regions_def dev_l1_def d)
    then show ?thesis using al(4) [OF d] al(5) by (simp only: placed_def region_in_entry_nat)
  qed
  have apart: "regions_apart (regions layout ! i) (regions layout ! j) = Ok ()" if "i < j" "j < 4" for i j
    using v that by (meson less_trans)
  show "data_l1 layout \<noteq> sup_l1 layout" using apart [of 1 2] by (auto simp: regions_def split: if_splits)
  show "i \<noteq> data_l1 layout \<and> i \<noteq> sup_l1 layout" if "code_l1 layout = Some i"
    using apart [of 0 1] apart [of 0 2] that by (auto simp: regions_def code_l1_def split: if_splits)
  show "i \<noteq> data_l1 layout \<and> i \<noteq> sup_l1 layout \<and> code_l1 layout \<noteq> Some i" if "dev_l1 layout = Some i"
    using apart [of 0 3] apart [of 1 3] apart [of 2 3] that by (auto simp: regions_def code_l1_def dev_l1_def split: if_splits)
qed

lemma valid_tables:
  assumes "validate layout = Ok ()"
    and "pa \<in> {l1_pa layout, l2_code_pa layout, l2_data_pa layout, l3_data_pa layout, l2_sup_pa layout, l2_dev_pa layout}"
  shows "unat pa < 2 ^ 48" "unat pa mod 2 ^ 12 = 0"
proof -
  have "pa < MAX_TABLE_PA" "pa mod PAGE_SIZE = 0" using assms unfolding validate_iff by blast+
  then show "unat pa < 2 ^ 48" "unat pa mod 2 ^ 12 = 0" by (simp_all only: word_less_nat_alt geometry block_multiple)
qed

end
