(* ===== verification/Stage2_Encode.thy ===== *)
theory Stage2_Encode
  imports Stage2_Layout
begin

text \<open>
  The encoder, \<open>encode\<close> of \<open>hv-s2/src/arm64.rs\<close>: from the two leaf maps of a domain to the six
  tables of its Stage-2 set. The device loop runs on a wrapping 64-bit counter and is a partial
  function, so that not returning is the value \<open>None\<close>. The lemmas give the word in every slot of
  every table after an encoding of an accepted layout, and that the encoding returns.
\<close>

section \<open>The tables and the encoder\<close>

record Tables =
  t_l1 :: "u64 list"
  t_l2_code :: "u64 list"
  t_l2_data :: "u64 list"
  t_l3_data :: "u64 list"
  t_l2_sup :: "u64 list"
  t_l2_dev :: "u64 list"

definition table_entry :: "u64 \<Rightarrow> u64" where
  "table_entry pa = pa AND ADDR_4K OR DESC_TABLE"

definition place_pages :: "Layout \<Rightarrow> Perm option list \<Rightarrow> u64 list \<Rightarrow> u64 list" where
  "place_pages layout leaves =
     fold (\<lambda>(m, leaf) t.
         case leaf of None \<Rightarrow> t
         | Some perm \<Rightarrow> t[m := frame_pa layout (of_nat m) AND ADDR_4K OR page_leaf_attrs perm])
       (enumerate 0 (take TABLE_ENTRIES leaves))"

definition place_blocks :: "Layout \<Rightarrow> Perm option list \<Rightarrow> u64 list \<Rightarrow> u64 list" where
  "place_blocks layout supers =
     fold (\<lambda>(m, leaf) t.
         case leaf of None \<Rightarrow> t
         | Some perm \<Rightarrow> t[l2_index (super_ipa layout (of_nat m)) :=
                          super_pa layout (of_nat m) AND ADDR_2M OR block_leaf_attrs perm (sup_wx_exempt layout)])
       (enumerate 0 (take TABLE_ENTRIES supers))"

partial_function (option) device_blocks :: "u64 \<Rightarrow> u64 \<Rightarrow> u64 list \<Rightarrow> u64 list option" where
  "device_blocks stop a t =
     (if a < stop then device_blocks stop (a + BLOCK_SIZE) (t[l2_index a := a AND ADDR_2M OR BLOCK_DEVICE]) else Some t)"

definition encode_image :: "Layout \<Rightarrow> Tables \<Rightarrow> Tables" where
  "encode_image layout t =
     (case guest_image_pa layout of None \<Rightarrow> t
      | Some image_pa \<Rightarrow>
          t\<lparr>t_l1 := (t_l1 t)[l1_index image_pa := table_entry (l2_code_pa layout)],
            t_l2_code := (t_l2_code t)[l2_index image_pa := image_pa AND ADDR_2M OR BLOCK_ROX]\<rparr>)"

definition encode_data :: "Layout \<Rightarrow> Perm option list \<Rightarrow> Tables \<Rightarrow> Tables" where
  "encode_data layout leaves t =
     t\<lparr>t_l1 := (t_l1 t)[l1_index (data_ipa_base layout) := table_entry (l2_data_pa layout)],
       t_l2_data := (t_l2_data t)[l2_index (data_ipa_base layout) := table_entry (l3_data_pa layout)],
       t_l3_data := place_pages layout leaves (replicate TABLE_ENTRIES 0)\<rparr>"

definition encode_sup :: "Layout \<Rightarrow> Perm option list \<Rightarrow> Tables \<Rightarrow> Tables" where
  "encode_sup layout supers t =
     t\<lparr>t_l1 := (t_l1 t)[l1_index (sup_ipa_base layout) := table_entry (l2_sup_pa layout)],
       t_l2_sup := place_blocks layout supers (replicate TABLE_ENTRIES 0)\<rparr>"

definition encode_dev :: "Layout \<Rightarrow> Tables \<Rightarrow> Tables option" where
  "encode_dev layout t =
     (if 0 < device_len layout then
        map_option (\<lambda>dev. t\<lparr>t_l1 := (t_l1 t)[l1_index (device_base layout) := table_entry (l2_dev_pa layout)], t_l2_dev := dev\<rparr>)
          (device_blocks (device_base layout + device_len layout) (device_base layout) (replicate TABLE_ENTRIES 0))
      else Some (t\<lparr>t_l2_dev := replicate TABLE_ENTRIES 0\<rparr>))"

definition encode :: "Perm option list \<Rightarrow> Perm option list \<Rightarrow> Layout \<Rightarrow> Tables \<Rightarrow> Tables option" where
  "encode leaves supers layout t =
     encode_dev layout (encode_sup layout supers (encode_data layout leaves (encode_image layout t)))"

section \<open>The word in every slot\<close>

text \<open>What each table should hold, slot by slot.\<close>

definition l1_word :: "Layout \<Rightarrow> nat \<Rightarrow> u64" where
  "l1_word layout i =
     (if i = data_l1 layout then table_entry (l2_data_pa layout)
      else if i = sup_l1 layout then table_entry (l2_sup_pa layout)
      else if code_l1 layout = Some i then table_entry (l2_code_pa layout)
      else if dev_l1 layout = Some i then table_entry (l2_dev_pa layout) else 0)"

definition l2_code_word :: "Layout \<Rightarrow> nat \<Rightarrow> u64" where
  "l2_code_word layout j =
     (case guest_image_pa layout of None \<Rightarrow> 0 | Some pa \<Rightarrow> if j = l2_index pa then pa AND ADDR_2M OR BLOCK_ROX else 0)"

definition l2_data_word :: "Layout \<Rightarrow> nat \<Rightarrow> u64" where
  "l2_data_word layout j = (if j = data_l2 layout then table_entry (l3_data_pa layout) else 0)"

definition leaf_at :: "Perm option list \<Rightarrow> nat \<Rightarrow> Perm option" where
  "leaf_at leaves m = (if m < length leaves then leaves ! m else None)"

definition l3_word :: "Layout \<Rightarrow> Perm option list \<Rightarrow> nat \<Rightarrow> u64" where
  "l3_word layout leaves m =
     (case leaf_at leaves m of None \<Rightarrow> 0 | Some p \<Rightarrow> frame_pa layout (of_nat m) AND ADDR_4K OR page_leaf_attrs p)"

definition l2_sup_word :: "Layout \<Rightarrow> Perm option list \<Rightarrow> nat \<Rightarrow> u64" where
  "l2_sup_word layout supers j =
     (let b = l2_index (sup_ipa_base layout) in
      if j < b then 0
      else (case leaf_at supers (j - b) of None \<Rightarrow> 0
            | Some p \<Rightarrow> super_pa layout (of_nat (j - b)) AND ADDR_2M OR block_leaf_attrs p (sup_wx_exempt layout)))"

definition dev_slots :: "Layout \<Rightarrow> nat" where "dev_slots layout = unat (device_len layout) div 2 ^ 21"

definition l2_dev_word :: "Layout \<Rightarrow> nat \<Rightarrow> u64" where
  "l2_dev_word layout j =
     (let b = l2_index (device_base layout) in
      if j < b \<or> b + dev_slots layout \<le> j then 0
      else (device_base layout + of_nat (j - b) * BLOCK_SIZE) AND ADDR_2M OR BLOCK_DEVICE)"

definition means :: "Layout \<Rightarrow> Perm option list \<Rightarrow> Perm option list \<Rightarrow> Tables \<Rightarrow> bool" where
  "means layout leaves supers t \<longleftrightarrow>
     (\<forall>i < 512. t_l1 t ! i = l1_word layout i \<and> t_l2_code t ! i = l2_code_word layout i \<and>
        t_l2_data t ! i = l2_data_word layout i \<and> t_l3_data t ! i = l3_word layout leaves i \<and>
        t_l2_sup t ! i = l2_sup_word layout supers i \<and> t_l2_dev t ! i = l2_dev_word layout i)"

definition tables_sized :: "Tables \<Rightarrow> bool" where
  "tables_sized t \<longleftrightarrow> length (t_l1 t) = 512 \<and> length (t_l2_code t) = 512 \<and> length (t_l2_data t) = 512 \<and>
     length (t_l3_data t) = 512 \<and> length (t_l2_sup t) = 512 \<and> length (t_l2_dev t) = 512"

text \<open>
  Tables the encoder may be given: new ones, or those of an earlier encoding of the same layout.
  The encoder clears \<open>l3_data\<close>, \<open>l2_sup\<close> and \<open>l2_dev\<close> itself.
\<close>

definition reusable :: "Layout \<Rightarrow> Tables \<Rightarrow> bool" where
  "reusable layout t \<longleftrightarrow> tables_sized t \<and>
     (\<forall>i < 512. (t_l1 t ! i \<noteq> 0 \<longrightarrow> i = data_l1 layout \<or> i = sup_l1 layout \<or> code_l1 layout = Some i \<or> dev_l1 layout = Some i) \<and>
        (t_l2_code t ! i \<noteq> 0 \<longrightarrow> code_l2 layout = Some i) \<and> (t_l2_data t ! i \<noteq> 0 \<longrightarrow> i = data_l2 layout))"

text \<open>Super leaves lie in the backed part of their window.\<close>

definition backed :: "Layout \<Rightarrow> Perm option list \<Rightarrow> bool" where
  "backed layout supers \<longleftrightarrow>
     (\<forall>m < length supers. supers ! m \<noteq> None \<longrightarrow> m < unat (sup_span layout) div 2 ^ 21)"

lemma fold_slots_length:
  "length (fold (\<lambda>(m, leaf) t. case leaf of None \<Rightarrow> t | Some p \<Rightarrow> t[ix m := f m p]) ms t) = length t"
  by (induction ms arbitrary: t) (auto split: option.split)

lemma fold_slots_miss:
  "\<forall>m < length xs. xs ! m \<noteq> None \<longrightarrow> ix m \<noteq> j \<Longrightarrow>
     fold (\<lambda>(m, leaf) t. case leaf of None \<Rightarrow> t | Some p \<Rightarrow> t[ix m := f m p]) (enumerate 0 xs) t ! j = t ! j"
proof (induction xs rule: rev_induct)
  case (snoc x xs)
  then have "ix (length xs) \<noteq> j" if "x \<noteq> None" using that by auto
  with snoc show ?case by (auto simp: enumerate_append_eq nth_append less_Suc_eq split: option.split)
qed simp

lemma fold_slots_hit:
  assumes "m < length xs" "xs ! m = Some p" "ix m < length t" "\<forall>m' < length xs. xs ! m' \<noteq> None \<and> ix m' = ix m \<longrightarrow> m' = m"
  shows "fold (\<lambda>(m, leaf) t. case leaf of None \<Rightarrow> t | Some p \<Rightarrow> t[ix m := f m p]) (enumerate 0 xs) t ! ix m = f m p"
  using assms
proof (induction xs rule: rev_induct)
  case (snoc x xs)
  show ?case
  proof (cases "m = length xs")
    case True
    with snoc.prems show ?thesis by (simp add: enumerate_append_eq fold_slots_length)
  next
    case False
    then have "m < length xs" using snoc.prems(1) by simp
    moreover have "ix (length xs) \<noteq> ix m" if "x \<noteq> None"
    proof
      assume "ix (length xs) = ix m"
      with snoc.prems(4) that have "length xs = m" by (simp add: all_simps nth_append)
      with False show False by simp
    qed
    ultimately show ?thesis
      using snoc.IH snoc.prems by (auto simp: enumerate_append_eq nth_append less_Suc_eq split: option.split)
  qed
qed simp

lemma leaf_at_take: "m < 512 \<Longrightarrow> leaf_at (take 512 leaves) m = leaf_at leaves m"
  by (simp add: leaf_at_def)

lemma place_pages_word:
  assumes "m < 512"
  shows "place_pages layout leaves (replicate TABLE_ENTRIES 0) ! m = l3_word layout leaves m"
proof (cases "leaf_at leaves m")
  case None
  then show ?thesis unfolding place_pages_def l3_word_def using assms
    by (subst fold_slots_miss) (auto simp: TABLE_ENTRIES_def leaf_at_def split: if_splits)
next
  case (Some p)
  then have m: "m < length leaves" "leaves ! m = Some p" by (simp_all add: leaf_at_def split: if_splits)
  then show ?thesis unfolding place_pages_def using assms Some
    by (subst fold_slots_hit [where p = p and ix = "\<lambda>m. m"]) (simp_all add: TABLE_ENTRIES_def l3_word_def)
qed

text \<open>The address and the slot of the \<open>m\<close>-th block of a window.\<close>

lemma unat_blocks: "k \<le> 512 \<Longrightarrow> unat (of_nat k * BLOCK_SIZE) = k * 2 ^ 21"
proof -
  assume k: "k \<le> 512"
  have "unat (of_nat k :: u64) = k" using k by (simp add: unsigned_of_nat take_bit_nat_eq_self del: of_nat_Suc)
  then show ?thesis using k by (subst unat_mult_exact) (simp_all add: geometry)
qed

lemma mod_add_small: "x mod k + m < k \<Longrightarrow> (x + m) mod k = x mod k + (m :: nat)"
  by (subst mod_add_left_eq [symmetric]) (rule mod_less)

lemma div_add_blocks: "(n + m * 2 ^ 21) div 2 ^ 21 = n div 2 ^ 21 + (m :: nat)"
  by simp

lemma block_slot:
  assumes "placed (unat base) span" "m < span div 2 ^ 21"
  shows "unat (base + of_nat m * BLOCK_SIZE) = unat base + m * 2 ^ 21"
    "l2_index (base + of_nat m * BLOCK_SIZE) = l2_index base + m" "l2_index base + m < 512" "m < 512"
proof -
  let ?s = "span div 2 ^ 21"
  have pl: "unat base mod 2 ^ 21 = 0" "span = ?s * 2 ^ 21" "unat base + span \<le> 2 ^ 39" "unat base mod 2 ^ 30 + span \<le> 2 ^ 30"
    using assms(1) by (auto simp: placed_def)
  obtain x where x: "unat base = x * 2 ^ 21" using pl(1) by (metis dvd_def mod_0_imp_dvd mult.commute)
  have xm: "unat base mod 2 ^ 30 = x mod 512 * 2 ^ 21" unfolding x by (simp add: mult_mod_left)
  have "x mod 512 + ?s \<le> 512" using pl(2,4) unfolding xm by simp
  then have sm: "?s \<le> 512" and slot: "x mod 512 + m < 512" using assms(2) by linarith+
  then show m: "m < 512" using assms(2) by linarith
  have mp: "unat (of_nat m * BLOCK_SIZE) = m * 2 ^ 21" using m by (intro unat_blocks) simp
  have "m * 2 ^ 21 < span" using assms(2) pl(2) by (metis mult_less_mono1 zero_less_numeral zero_less_power)
  then show u: "unat (base + of_nat m * BLOCK_SIZE) = unat base + m * 2 ^ 21"
    using pl(3) by (subst unat_add_exact) (simp_all add: mp)
  have xd: "unat base div 2 ^ 21 = x" unfolding x by simp
  show "l2_index (base + of_nat m * BLOCK_SIZE) = l2_index base + m"
    unfolding index_nat u div_add_blocks xd using slot by (rule mod_add_small)
  show "l2_index base + m < 512" using slot unfolding index_nat xd .
qed

lemma ucast_of_nat_u32: "m < u32_size \<Longrightarrow> ucast (of_nat m :: u32) = (of_nat m :: u64)"
  by (simp add: word_unat_eq_iff unsigned_ucast_eq unsigned_of_nat take_bit_nat_eq_self)

lemma super_addr:
  assumes "validate layout = Ok ()" "m < 512"
  shows "super_ipa layout (of_nat m) = sup_ipa_base layout + of_nat m * BLOCK_SIZE"
    "super_pa layout (of_nat m) = sup_pa_base layout + of_nat m * BLOCK_SIZE"
    "frame_pa layout (of_nat m) = data_pa_base layout + of_nat m * PAGE_SIZE"
  using assms(2) by (simp_all add: super_ipa_def super_pa_def frame_pa_def frame_addr_def valid_layout(1,2) [OF assms(1)] ucast_of_nat_u32)

lemma place_blocks_word:
  assumes v: "validate layout = Ok ()" and bk: "backed layout supers" and j: "j < 512"
  shows "place_blocks layout supers (replicate TABLE_ENTRIES 0) ! j = l2_sup_word layout supers j"
proof -
  let ?b = "l2_index (sup_ipa_base layout)" and ?ix = "\<lambda>m. l2_index (super_ipa layout (of_nat m))"
  have ix: "?ix m = ?b + m" "m < 512" if "m < length supers" "supers ! m \<noteq> None" for m
  proof -
    note b = block_slot [OF valid_layout(4) [OF v] bk [unfolded backed_def, rule_format, OF that]]
    show "m < 512" by (rule b(4))
    show "?ix m = ?b + m" using super_addr(1) [OF v b(4)] b(2) by simp
  qed
  show ?thesis
  proof (cases "?b \<le> j \<and> leaf_at supers (j - ?b) \<noteq> None")
    case True
    then obtain k p where k: "j = ?b + k" "k < length supers" "supers ! k = Some p"
      by (metis (no_types, lifting) add_diff_inverse_nat leaf_at_def not_less option.exhaust)
    have kx: "?ix k = j" "k < 512" using ix [of k] k by auto
    have "place_blocks layout supers (replicate TABLE_ENTRIES 0) ! ?ix k =
        super_pa layout (of_nat k) AND ADDR_2M OR block_leaf_attrs p (sup_wx_exempt layout)"
      unfolding place_blocks_def
    proof (intro fold_slots_hit allI impI)
      show "take TABLE_ENTRIES supers ! k = Some p" "k < length (take TABLE_ENTRIES supers)"
        using k kx by (simp_all add: TABLE_ENTRIES_def)
      show "?ix k < length (replicate TABLE_ENTRIES 0)" using kx j by (simp add: TABLE_ENTRIES_def)
      fix m assume "m < length (take TABLE_ENTRIES supers)" "take TABLE_ENTRIES supers ! m \<noteq> None \<and> ?ix m = ?ix k"
      then show "m = k" using ix(1) [of m] kx k(1) by simp
    qed
    then show ?thesis using k kx by (simp add: l2_sup_word_def leaf_at_def Let_def)
  next
    case False
    have "?ix m \<noteq> j" if "m < length supers" "supers ! m \<noteq> None" for m
      using ix(1) [OF that] that False by (auto simp: leaf_at_def)
    then have "place_blocks layout supers (replicate TABLE_ENTRIES 0) ! j = 0"
      unfolding place_blocks_def using j by (subst fold_slots_miss) (auto simp: TABLE_ENTRIES_def)
    with False show ?thesis by (auto simp: l2_sup_word_def Let_def split: option.split)
  qed
qed

lemma device_blocks_run:
  assumes "length t = 512" "unat a + n * 2 ^ 21 \<le> 2 ^ 39" "l2_index a + n \<le> 512"
  shows "\<exists>t'. device_blocks (a + of_nat n * BLOCK_SIZE) a t = Some t' \<and> length t' = 512 \<and>
    (\<forall>j < 512. t' ! j = (if l2_index a \<le> j \<and> j < l2_index a + n
       then (a + of_nat (j - l2_index a) * BLOCK_SIZE) AND ADDR_2M OR BLOCK_DEVICE else t ! j))"
  using assms
proof (induction n arbitrary: a t)
  case 0
  then show ?case by (subst device_blocks.simps) auto
next
  case (Suc n)
  let ?t = "t[l2_index a := a AND ADDR_2M OR BLOCK_DEVICE]"
  have mp: "unat (of_nat (Suc n) * BLOCK_SIZE) = Suc n * 2 ^ 21" using Suc.prems(3) by (intro unat_blocks) simp
  then have "unat (a + of_nat (Suc n) * BLOCK_SIZE) = unat a + Suc n * 2 ^ 21"
    using Suc.prems(2) by (subst unat_add_exact) simp_all
  then have lt: "a < a + of_nat (Suc n) * BLOCK_SIZE" by (simp add: word_less_nat_alt)
  have stop: "a + of_nat (Suc n) * BLOCK_SIZE = (a + BLOCK_SIZE) + of_nat n * BLOCK_SIZE" by (simp add: algebra_simps)
  have ua: "unat (a + BLOCK_SIZE) = unat a + 2 ^ 21" using Suc.prems(2) by (subst unat_add_exact) (simp_all add: geometry)
  have next_slot: "l2_index (a + BLOCK_SIZE) = (l2_index a + 1) mod 512"
    using div_add_blocks [of "unat a" 1] unfolding index_nat ua by (simp add: mod_Suc_eq)
  have fits: "l2_index (a + BLOCK_SIZE) + n \<le> 512"
    using Suc.prems(3) next_slot by (cases "n = 0") (simp_all add: index_nat mod_less less_imp_le)
  obtain t' where t': "device_blocks (a + of_nat (Suc n) * BLOCK_SIZE) (a + BLOCK_SIZE) ?t = Some t'" "length t' = 512"
    "\<forall>j < 512. t' ! j = (if l2_index (a + BLOCK_SIZE) \<le> j \<and> j < l2_index (a + BLOCK_SIZE) + n
       then (a + BLOCK_SIZE + of_nat (j - l2_index (a + BLOCK_SIZE)) * BLOCK_SIZE) AND ADDR_2M OR BLOCK_DEVICE else ?t ! j)"
    using Suc.IH [of ?t "a + BLOCK_SIZE"] Suc.prems ua fits unfolding stop by auto
  have "t' ! j = (if l2_index a \<le> j \<and> j < l2_index a + Suc n
       then (a + of_nat (j - l2_index a) * BLOCK_SIZE) AND ADDR_2M OR BLOCK_DEVICE else t ! j)" if j: "j < 512" for j
  proof (cases "n = 0")
    case True
    then show ?thesis using t'(3) j Suc.prems(1) by (auto simp: nth_list_update)
  next
    case False
    then have s: "l2_index (a + BLOCK_SIZE) = Suc (l2_index a)" using next_slot Suc.prems(3) by simp
    consider "j < l2_index a" | "j = l2_index a" | k where "j = Suc (l2_index a) + k" by (metis less_iff_Suc_add add_Suc linorder_neqE_nat)
    then show ?thesis
    proof cases
      case 3
      then show ?thesis using t'(3) [rule_format, OF j] Suc.prems(1) unfolding s by (simp add: algebra_simps)
    qed (use t'(3) j Suc.prems(1) s in \<open>simp_all add: nth_list_update\<close>)
  qed
  moreover have "device_blocks (a + of_nat (Suc n) * BLOCK_SIZE) a t = Some t'"
    using t'(1) lt by (subst device_blocks.simps) simp
  ultimately show ?case using t'(2) by blast
qed

section \<open>The encoding returns, and what it returns\<close>

lemma encode_dev_run:
  assumes v: "validate layout = Ok ()"
  shows "\<exists>dev. encode_dev layout t = Some (t\<lparr>t_l1 := (case dev_l1 layout of None \<Rightarrow> t_l1 t
        | Some i \<Rightarrow> (t_l1 t)[i := table_entry (l2_dev_pa layout)]), t_l2_dev := dev\<rparr>) \<and>
     length dev = 512 \<and> (\<forall>j < 512. dev ! j = l2_dev_word layout j)"
proof (cases "0 < device_len layout")
  case True
  let ?b = "l2_index (device_base layout)" and ?n = "dev_slots layout"
  note pl = valid_layout(6) [OF v True]
  have n: "unat (device_len layout) = ?n * 2 ^ 21" using pl by (auto simp: placed_def dev_slots_def)
  have "0 < ?n" using True n by (cases ?n) (auto simp: word_less_nat_alt)
  then have fit: "?b + ?n \<le> 512" using block_slot(3) [OF pl, of "?n - 1"] by (simp add: dev_slots_def)
  then have len: "device_len layout = of_nat ?n * BLOCK_SIZE" using unat_blocks [of ?n] n by (simp add: word_unat_eq_iff)
  have "unat (device_base layout) + ?n * 2 ^ 21 \<le> 2 ^ 39" using pl n by (simp add: placed_def)
  from device_blocks_run [OF _ this fit, of "replicate 512 0"] obtain dev where
    dev: "device_blocks (device_base layout + device_len layout) (device_base layout) (replicate 512 0) = Some dev"
      "length dev = 512"
      "\<forall>j < 512. dev ! j = (if ?b \<le> j \<and> j < ?b + ?n
         then (device_base layout + of_nat (j - ?b) * BLOCK_SIZE) AND ADDR_2M OR BLOCK_DEVICE else replicate 512 0 ! j)"
    unfolding len by auto
  have "dev ! j = l2_dev_word layout j" if "j < 512" for j
    using dev(3) [rule_format, OF that] that by (auto simp: l2_dev_word_def Let_def)
  then show ?thesis using dev(1,2) True by (intro exI [of _ dev]) (simp add: encode_dev_def dev_l1_def TABLE_ENTRIES_def)
next
  case False
  then have "dev_slots layout = 0" by (simp add: dev_slots_def word_less_nat_alt)
  then show ?thesis using False
    by (intro exI [of _ "replicate 512 0"]) (simp add: encode_dev_def dev_l1_def TABLE_ENTRIES_def l2_dev_word_def Let_def not_less)
qed

definition encode_static :: "Layout \<Rightarrow> Perm option list \<Rightarrow> Perm option list \<Rightarrow> Tables \<Rightarrow> Tables" where
  "encode_static layout leaves supers t = encode_sup layout supers (encode_data layout leaves (encode_image layout t))"

lemmas encode_static_defs = encode_static_def encode_sup_def encode_data_def encode_image_def

lemma encode_static_words:
  assumes v: "validate layout = Ok ()" and r: "reusable layout t" and bk: "backed layout supers" and i: "i < 512"
  shows "t_l2_code (encode_static layout leaves supers t) ! i = l2_code_word layout i"
    "t_l2_data (encode_static layout leaves supers t) ! i = l2_data_word layout i"
    "t_l3_data (encode_static layout leaves supers t) ! i = l3_word layout leaves i"
    "t_l2_sup (encode_static layout leaves supers t) ! i = l2_sup_word layout supers i"
    "t_l1 (encode_static layout leaves supers t) ! i = (if i = sup_l1 layout then table_entry (l2_sup_pa layout)
       else if i = data_l1 layout then table_entry (l2_data_pa layout)
       else if code_l1 layout = Some i then table_entry (l2_code_pa layout) else t_l1 t ! i)"
proof -
  have sized: "length (t_l1 t) = 512" "length (t_l2_code t) = 512" "length (t_l2_data t) = 512"
    using r by (auto simp: reusable_def tables_sized_def)
  have dead: "code_l2 layout \<noteq> Some i \<Longrightarrow> t_l2_code t ! i = 0" "i \<noteq> data_l2 layout \<Longrightarrow> t_l2_data t ! i = 0"
    using r i by (auto simp: reusable_def)
  show "t_l2_code (encode_static layout leaves supers t) ! i = l2_code_word layout i"
    using sized(2) dead(1) i
    by (cases "guest_image_pa layout") (auto simp: encode_static_defs l2_code_word_def code_l2_def nth_list_update)
  show "t_l2_data (encode_static layout leaves supers t) ! i = l2_data_word layout i"
    using sized(3) dead(2) i
    by (cases "guest_image_pa layout") (auto simp: encode_static_defs l2_data_word_def data_l2_def nth_list_update)
  show "t_l3_data (encode_static layout leaves supers t) ! i = l3_word layout leaves i"
    "t_l2_sup (encode_static layout leaves supers t) ! i = l2_sup_word layout supers i"
    using place_pages_word [OF i] place_blocks_word [OF v bk i] by (simp_all add: encode_static_defs)
  show "t_l1 (encode_static layout leaves supers t) ! i = (if i = sup_l1 layout then table_entry (l2_sup_pa layout)
       else if i = data_l1 layout then table_entry (l2_data_pa layout)
       else if code_l1 layout = Some i then table_entry (l2_code_pa layout) else t_l1 t ! i)"
    using sized(1) i by (cases "guest_image_pa layout")
      (auto simp: encode_static_defs sup_l1_def data_l1_def code_l1_def nth_list_update)
qed

lemma encode_static_sized:
  assumes "tables_sized t"
  shows "length (t_l1 (encode_static layout leaves supers t)) = 512" "length (t_l2_code (encode_static layout leaves supers t)) = 512"
    "length (t_l2_data (encode_static layout leaves supers t)) = 512" "length (t_l3_data (encode_static layout leaves supers t)) = 512"
    "length (t_l2_sup (encode_static layout leaves supers t)) = 512"
  using assms by (cases "guest_image_pa layout"; simp add: encode_static_defs place_pages_def place_blocks_def fold_slots_length
      TABLE_ENTRIES_def tables_sized_def)+

lemma words_dead:
  "l1_word layout i \<noteq> 0 \<Longrightarrow> i = data_l1 layout \<or> i = sup_l1 layout \<or> code_l1 layout = Some i \<or> dev_l1 layout = Some i"
  "l2_code_word layout i \<noteq> 0 \<Longrightarrow> code_l2 layout = Some i" "l2_data_word layout i \<noteq> 0 \<Longrightarrow> i = data_l2 layout"
  by (auto simp: l1_word_def l2_code_word_def l2_data_word_def code_l2_def split: option.splits if_splits)

lemma means_reusable: "tables_sized t \<Longrightarrow> means layout leaves supers t \<Longrightarrow> reusable layout t"
  unfolding reusable_def means_def using words_dead [of layout] by metis

lemma encode_means:
  assumes v: "validate layout = Ok ()" and r: "reusable layout t" and bk: "backed layout supers"
  shows "\<exists>t'. encode leaves supers layout t = Some t' \<and> means layout leaves supers t' \<and> reusable layout t'"
proof -
  let ?t = "encode_static layout leaves supers t"
  have sz: "tables_sized t" using r by (simp add: reusable_def)
  obtain dev where dev: "encode_dev layout ?t = Some (?t\<lparr>t_l1 := (case dev_l1 layout of None \<Rightarrow> t_l1 ?t
        | Some i \<Rightarrow> (t_l1 ?t)[i := table_entry (l2_dev_pa layout)]), t_l2_dev := dev\<rparr>)"
    and devw: "length dev = 512" "\<forall>j < 512. dev ! j = l2_dev_word layout j"
    using encode_dev_run [OF v] by blast
  let ?t' = "?t\<lparr>t_l1 := (case dev_l1 layout of None \<Rightarrow> t_l1 ?t
        | Some i \<Rightarrow> (t_l1 ?t)[i := table_entry (l2_dev_pa layout)]), t_l2_dev := dev\<rparr>"
  have "t_l1 t ! i = 0" if "i < 512" "i \<noteq> data_l1 layout" "i \<noteq> sup_l1 layout" "code_l1 layout \<noteq> Some i" "dev_l1 layout \<noteq> Some i" for i
    using r that by (auto simp: reusable_def)
  then have l1: "t_l1 ?t' ! i = l1_word layout i" if "i < 512" for i
    using encode_static_words(5) [OF v r bk that] that encode_static_sized(1) [OF sz] valid_layout(9-11) [OF v]
    by (cases "dev_l1 layout") (auto simp: l1_word_def nth_list_update)
  have m: "means layout leaves supers ?t'"
    unfolding means_def using l1 encode_static_words [OF v r bk] devw(2) by simp
  have "tables_sized ?t'" using encode_static_sized [OF sz] devw(1) by (auto simp: tables_sized_def split: option.split)
  then have "reusable layout ?t'" using m by (rule means_reusable)
  moreover have "encode leaves supers layout t = Some ?t'" using dev by (simp add: encode_def encode_static_def)
  ultimately show ?thesis using m by blast
qed

end
