(* ===== verification/Stage2_Walk.thy ===== *)
theory Stage2_Walk
  imports Stage2_Encode
begin

text \<open>
  What a walker reaches: \<open>walk\<close>, \<open>window_reach\<close> and \<open>verify_encoding\<close> of
  \<open>hv-s2/src/arm64.rs\<close>. The walk reads descriptors through a function \<open>fetch\<close> of its caller, as
  in the source; \<open>window_reach\<close> reads the layout and the leaf maps and no descriptor at all. The
  lemmas show that the two agree on every address once the tables hold the words of the encoding.
\<close>

section \<open>The walk and the windows\<close>

record Reach =
  rc_pa :: u64
  rc_perm :: Perm
  rc_xn :: bool

definition reach_writable :: "Reach \<Rightarrow> bool" where
  "reach_writable r = perm_writable (rc_perm r)"

definition walk :: "u64 \<Rightarrow> u64 \<Rightarrow> (u64 \<Rightarrow> u64 \<Rightarrow> u64) \<Rightarrow> Reach option" where
  "walk root ipa fetch =
     (if ipa \<ge> ADDRESSABLE then None
      else Option.bind (decode_table (fetch root (drop_bit 30 ipa AND 0x1ff))) (\<lambda>l2_pa.
        let l2_desc = fetch l2_pa (drop_bit 21 ipa AND 0x1ff) in
        case decode_block l2_desc of
          Some block \<Rightarrow>
            Some \<lparr>rc_pa = de_pa block OR (ipa AND (BLOCK_SIZE - 1)), rc_perm = de_perm block, rc_xn = de_xn block\<rparr>
        | None \<Rightarrow>
            Option.bind (decode_table l2_desc) (\<lambda>l3_pa.
            Option.bind (decode_page (fetch l3_pa (drop_bit 12 ipa AND 0x1ff))) (\<lambda>page.
              Some \<lparr>rc_pa = de_pa page OR (ipa AND (PAGE_SIZE - 1)), rc_perm = de_perm page, rc_xn = de_xn page\<rparr>))))"

definition within :: "u64 \<Rightarrow> u64 \<Rightarrow> u64 \<Rightarrow> bool" where
  "within base span ipa \<longleftrightarrow> ipa \<ge> base \<and> ipa - base < span"

definition data_reach :: "Layout \<Rightarrow> Perm option list \<Rightarrow> u64 \<Rightarrow> Reach option" where
  "data_reach layout leaves ipa =
     (let off = ipa - data_ipa_base layout;
          m = ucast (off div frame_size layout) :: u32
      in case leaf_at leaves (unat m) of None \<Rightarrow> None
         | Some perm \<Rightarrow>
             (case leaf_access_xn perm False of (access, xn) \<Rightarrow>
                Some \<lparr>rc_pa = frame_pa layout m + off mod frame_size layout, rc_perm = access, rc_xn = xn\<rparr>))"

definition sup_reach :: "Layout \<Rightarrow> Perm option list \<Rightarrow> u64 \<Rightarrow> Reach option" where
  "sup_reach layout supers ipa =
     (let off = ipa - sup_ipa_base layout;
          m = ucast (off div super_size layout) :: u32
      in case leaf_at supers (unat m) of None \<Rightarrow> None
         | Some perm \<Rightarrow>
             (case leaf_access_xn perm (sup_wx_exempt layout) of (access, xn) \<Rightarrow>
                Some \<lparr>rc_pa = super_pa layout m + off mod super_size layout, rc_perm = access, rc_xn = xn\<rparr>))"

definition window_reach :: "Layout \<Rightarrow> Perm option list \<Rightarrow> Perm option list \<Rightarrow> u64 \<Rightarrow> Reach option" where
  "window_reach layout leaves supers ipa =
     (if (case guest_image_pa layout of Some image_pa \<Rightarrow> within image_pa BLOCK_SIZE ipa | None \<Rightarrow> False)
      then Some \<lparr>rc_pa = ipa, rc_perm = Ro, rc_xn = False\<rparr>
      else if within (data_ipa_base layout) (of_nat TABLE_ENTRIES * frame_size layout) ipa then data_reach layout leaves ipa
      else if within (sup_ipa_base layout) (sup_frames layout * super_size layout) ipa then sup_reach layout supers ipa
      else if 0 < device_len layout \<and> within (device_base layout) (device_len layout) ipa
      then Some \<lparr>rc_pa = ipa, rc_perm = Rw, rc_xn = True\<rparr>
      else None)"

section \<open>Addresses, masks and slots\<close>

lemma low_mask_sizes: "BLOCK_SIZE - 1 = mask 21" "PAGE_SIZE - 1 = mask 12"
  by (simp_all add: BLOCK_SIZE_def PAGE_SIZE_def TABLE_ENTRIES_def mask_eq_exp_minus_1)

lemma addr_mask_push: "ADDR_2M = push_bit 21 (mask 27)" "ADDR_4K = push_bit 12 (mask 36)"
  by (simp_all add: ADDR_2M_def ADDR_4K_def mask_eq_exp_minus_1)

lemma unat_mod_bit: "unat P mod 2 ^ k = 0 \<Longrightarrow> n < k \<Longrightarrow> \<not> bit (P :: 'a::len word) n"
proof -
  assume "unat P mod 2 ^ k = 0" "n < k"
  then have "take_bit k (unat P) = 0" by (simp add: take_bit_eq_mod)
  then have "\<not> bit (unat P) n" using \<open>n < k\<close> by (metis bit_0_eq bit_take_bit_iff bot_apply bot_bool_def)
  then show ?thesis by (simp add: bit_unsigned_iff)
qed

lemma unat_less_bit: "unat P < 2 ^ k \<Longrightarrow> k \<le> n \<Longrightarrow> \<not> bit (P :: 'a::len word) n"
proof -
  assume "unat P < 2 ^ k" "k \<le> n"
  then have "take_bit k (unat P) = unat P" by (simp add: take_bit_nat_eq_self)
  then have "\<not> bit (unat P) n" using \<open>k \<le> n\<close> by (metis bit_take_bit_iff not_less)
  then show ?thesis using bit_imp_le_length [of P n] by (auto simp: bit_unsigned_iff)
qed

lemma and_field_id:
  assumes "unat P mod 2 ^ lo = 0" "unat P < 2 ^ (lo + n)"
  shows "P AND push_bit lo (mask n) = (P :: 'a::len word)"
proof (rule bit_word_eqI)
  fix i assume "i < LENGTH('a)"
  then show "bit (P AND push_bit lo (mask n)) i \<longleftrightarrow> bit P i"
    using unat_mod_bit [OF assms(1), of i] unat_less_bit [OF assms(2), of i]
    by (cases "lo \<le> i \<and> i < lo + n") (auto simp: bit_and_iff bit_push_bit_iff bit_mask_iff not_le)
qed

lemma addr_id:
  "unat P mod 2 ^ 21 = 0 \<Longrightarrow> unat P < 2 ^ 48 \<Longrightarrow> P AND ADDR_2M = P"
  "unat P mod 2 ^ 12 = 0 \<Longrightarrow> unat P < 2 ^ 48 \<Longrightarrow> P AND ADDR_4K = P"
  unfolding addr_mask_push by (rule and_field_id; simp)+

lemma or_low_add:
  fixes P x :: "'a::len word"
  assumes "unat P mod 2 ^ k = 0"
  shows "P OR (x AND mask k) = P + (x AND mask k)"
proof -
  have "P AND (x AND mask k) = 0"
    by (rule bit_word_eqI) (use unat_mod_bit [OF assms] in \<open>auto simp: bit_and_iff bit_mask_iff\<close>)
  then show ?thesis using word_plus_and_or [of P "x AND mask k"] by simp
qed

lemma within_nat: "within base span ipa \<longleftrightarrow> unat base \<le> unat ipa \<and> unat ipa < unat base + unat span"
  by (auto simp: within_def word_le_nat_alt word_less_nat_alt unat_sub)

lemma index_l1: "unat ipa < 2 ^ 39 \<Longrightarrow> l1_index ipa = unat ipa div 2 ^ 30"
  by (simp add: index_nat less_mult_imp_div_less)

lemma placed_within:
  assumes "placed (unat base) (unat span)" "unat ipa < 2 ^ 39"
  shows "within base span ipa \<longleftrightarrow> l1_index ipa = l1_index base \<and> l2_index base \<le> l2_index ipa \<and>
    l2_index ipa < l2_index base + unat span div 2 ^ 21"
proof -
  have b: "unat base < 2 ^ 39" using assms(1) by (simp add: placed_def)
  show ?thesis
    unfolding within_nat placed_window [OF assms(1)] index_l1 [OF assms(2)] index_l1 [OF b] index_nat(2) by (rule refl)
qed

lemma placed_below: "placed (unat base) (unat span) \<Longrightarrow> within base span ipa \<Longrightarrow> unat ipa < 2 ^ 39"
  by (simp add: within_nat placed_def)

text \<open>The block of its window an address falls in, and its offset there.\<close>

lemma block_of:
  assumes pl: "placed (unat base) (unat span)" and w: "within base span ipa"
  shows "(unat ipa - unat base) div 2 ^ 21 = l2_index ipa - l2_index base"
    "(unat ipa - unat base) div 2 ^ 21 < unat span div 2 ^ 21"
    "(unat ipa - unat base) mod 2 ^ 21 = unat ipa mod 2 ^ 21"
proof -
  define x y r where "x = unat base div 2 ^ 21" and "y = unat ipa div 2 ^ 21" and "r = unat ipa mod 2 ^ 21"
  have B: "unat base = x * 2 ^ 21" using pl by (auto simp: x_def placed_def)
  have I: "unat ipa = y * 2 ^ 21 + r" and r: "r < 2 ^ 21" by (simp_all add: y_def r_def)
  note s = placed_within [OF pl placed_below [OF pl w], THEN iffD1, OF w, unfolded index_nat]
  have dd: "n div 2 ^ 30 = n div 2 ^ 21 div 512" for n :: nat by (simp add: div_mult2_eq [symmetric])
  have "unat ipa < 2 ^ 39" "unat base < 2 ^ 39" using placed_below [OF pl w] pl by (simp_all add: placed_def)
  then have hi: "y div 512 = x div 512" "x mod 512 \<le> y mod 512" "y mod 512 < x mod 512 + unat span div 2 ^ 21"
    using s unfolding index_nat [symmetric] index_l1 [OF placed_below [OF pl w]] index_l1 [OF \<open>unat base < 2 ^ 39\<close>]
    unfolding index_nat x_def y_def dd [symmetric] by blast+
  then have le: "x \<le> y" and dif: "y - x = y mod 512 - x mod 512"
    using mult_div_mod_eq [of 512 x] mult_div_mod_eq [of 512 y] by linarith+
  then have e: "unat ipa - unat base = (y - x) * 2 ^ 21 + r" unfolding B I by (simp add: diff_mult_distrib)
  have dv: "(unat ipa - unat base) div 2 ^ 21 = y - x" unfolding e using r by simp
  show "(unat ipa - unat base) mod 2 ^ 21 = unat ipa mod 2 ^ 21" unfolding e using r by (simp add: r_def)
  show "(unat ipa - unat base) div 2 ^ 21 = l2_index ipa - l2_index base" unfolding dv index_nat x_def [symmetric] y_def [symmetric] by (rule dif)
  show "(unat ipa - unat base) div 2 ^ 21 < unat span div 2 ^ 21" unfolding dv dif using hi by linarith
qed

lemma unat_u32_index:
  assumes "unat (a :: u64) = k" "k < 512"
  shows "(ucast a :: u32) = of_nat k" "unat (ucast a :: u32) = k"
  using assms by (auto simp: word_unat_eq_iff unsigned_ucast_eq unsigned_of_nat take_bit_nat_eq_self)

lemma within_off:
  assumes "placed (unat base) (unat span)" "within base span ipa"
  shows "unat ((ipa - base) div BLOCK_SIZE) = (unat ipa - unat base) div 2 ^ 21"
    "(ipa - base) mod BLOCK_SIZE = ipa AND mask 21"
proof -
  have off: "unat (ipa - base) = unat ipa - unat base" using assms(2) by (simp add: within_def unat_sub)
  show "unat ((ipa - base) div BLOCK_SIZE) = (unat ipa - unat base) div 2 ^ 21" by (simp only: unat_div off geometry)
  show "(ipa - base) mod BLOCK_SIZE = ipa AND mask 21"
    by (simp only: word_unat_eq_iff unat_mod off geometry unat_low block_of(3) [OF assms])
qed

text \<open>The output address of a block: its base, and the offset the address has in every block.\<close>

lemma block_join:
  assumes "unat P mod 2 ^ 21 = 0" "unat P < 2 ^ 48"
  shows "P AND ADDR_2M OR (ipa AND (BLOCK_SIZE - 1)) = P + (ipa AND mask 21)"
  unfolding addr_id(1) [OF assms] low_mask_sizes by (rule or_low_add [OF assms(1)])

lemma page_join:
  assumes "unat P mod 2 ^ 12 = 0" "unat P < 2 ^ 48"
  shows "P AND ADDR_4K OR (ipa AND (PAGE_SIZE - 1)) = P + (ipa AND mask 12)"
  unfolding addr_id(2) [OF assms] low_mask_sizes by (rule or_low_add [OF assms(1)])

text \<open>In an identity window the block an address falls in maps it to itself.\<close>

lemma identity_block:
  assumes pl: "placed (unat base) (unat span)" and w: "within base span ipa"
  defines "k \<equiv> l2_index ipa - l2_index base"
  shows "(base + of_nat k * BLOCK_SIZE) AND ADDR_2M OR (ipa AND (BLOCK_SIZE - 1)) = ipa"
proof -
  let ?P = "base + of_nat k * BLOCK_SIZE"
  have k: "k = (unat ipa - unat base) div 2 ^ 21" "k < unat span div 2 ^ 21" using block_of [OF pl w] by (simp_all add: k_def)
  note u = block_slot(1) [OF pl k(2)]
  have le: "unat base \<le> unat ipa" and lt: "unat ipa < 2 ^ 39" using w placed_below [OF pl w] by (simp_all add: within_nat)
  have P: "unat ?P = unat ipa - unat ipa mod 2 ^ 21"
  proof -
    have "unat ipa - unat base = k * 2 ^ 21 + unat ipa mod 2 ^ 21"
      unfolding k(1) block_of(3) [OF pl w, symmetric] by (rule div_mult_mod_eq [symmetric])
    then show ?thesis using le u by linarith
  qed
  have al: "unat ?P mod 2 ^ 21 = 0" unfolding P by (simp add: minus_mod_eq_mult_div)
  have "unat ?P < 2 ^ 48" using P lt by simp
  then have "?P AND ADDR_2M OR (ipa AND (BLOCK_SIZE - 1)) = ?P + (ipa AND mask 21)" by (rule block_join [OF al])
  also have "\<dots> = ipa"
  proof -
    have "unat ?P + unat (ipa AND mask 21) = unat ipa" unfolding P unat_low by simp
    then have "unat (?P + (ipa AND mask 21)) = unat ipa" using lt by (subst unat_add_exact) simp_all
    then show ?thesis by (simp only: word_unat_eq_iff)
  qed
  finally show ?thesis .
qed

section \<open>The walk over encoded tables\<close>

text \<open>The walker reads the six tables at the addresses of the layout.\<close>

definition fetch_reads :: "(u64 \<Rightarrow> u64 \<Rightarrow> u64) \<Rightarrow> Layout \<Rightarrow> Tables \<Rightarrow> bool" where
  "fetch_reads fetch layout t \<longleftrightarrow>
     (\<forall>i < 512. fetch (l1_pa layout) (of_nat i) = t_l1 t ! i \<and> fetch (l2_code_pa layout) (of_nat i) = t_l2_code t ! i \<and>
        fetch (l2_data_pa layout) (of_nat i) = t_l2_data t ! i \<and> fetch (l3_data_pa layout) (of_nat i) = t_l3_data t ! i \<and>
        fetch (l2_sup_pa layout) (of_nat i) = t_l2_sup t ! i \<and> fetch (l2_dev_pa layout) (of_nat i) = t_l2_dev t ! i)"

text \<open>The frames lie where a descriptor can address them, below \<open>2\<^sup>4\<^sup>8\<close>.\<close>

definition addressable_frames :: "Layout \<Rightarrow> bool" where
  "addressable_frames layout \<longleftrightarrow> unat (data_pa_base layout) + 2 ^ 21 \<le> 2 ^ 48 \<and>
     unat (sup_pa_base layout) + unat (sup_span layout) \<le> 2 ^ 48"

definition l3_index :: "u64 \<Rightarrow> nat" where "l3_index a = unat (drop_bit 12 a AND 0x1ff)"

lemma index_words:
  "drop_bit 30 ipa AND 0x1ff = of_nat (l1_index ipa)" "drop_bit 21 ipa AND 0x1ff = of_nat (l2_index ipa)"
  "drop_bit 12 ipa AND 0x1ff = of_nat (l3_index ipa)"
  by (simp_all add: l1_index_def l2_index_def l3_index_def)

lemma index_less: "l1_index a < 512" "l2_index a < 512" "l3_index a < 512"
  unfolding l3_index_def mask_9 unat_low by (simp_all add: index_nat)

lemma l3_index_nat: "l3_index a = unat a div 2 ^ 12 mod 512"
  unfolding l3_index_def mask_9 unat_low unat_drop by simp

lemma entry_decodes:
  assumes "validate layout = Ok ()"
    "pa \<in> {l1_pa layout, l2_code_pa layout, l2_data_pa layout, l3_data_pa layout, l2_sup_pa layout, l2_dev_pa layout}"
  shows "decode_table (table_entry pa) = Some pa" "decode_block (table_entry pa) = None"
  using addr_id(2) [OF valid_tables(2,1) [OF assms]] decode_table_desc [of pa] table_not_block [of pa]
  by (simp_all add: table_entry_def)

lemma split_21: "n mod 2 ^ 21 div 2 ^ 12 = n div 2 ^ 12 mod 512" "n mod 2 ^ 21 mod 2 ^ 12 = n mod 2 ^ 12" for n :: nat
proof -
  have p: "(2 ^ 21 :: nat) = 2 ^ 12 * 512" by simp
  have e: "n mod 2 ^ 21 = 2 ^ 12 * (n div 2 ^ 12 mod 512) + n mod 2 ^ 12" unfolding p by (rule mod_mult2_eq)
  show "n mod 2 ^ 21 div 2 ^ 12 = n div 2 ^ 12 mod 512" "n mod 2 ^ 21 mod 2 ^ 12 = n mod 2 ^ 12"
    unfolding e by simp_all
qed

lemma page_frame:
  assumes v: "validate layout = Ok ()" and w: "within (data_ipa_base layout) BLOCK_SIZE ipa"
  defines "off \<equiv> ipa - data_ipa_base layout"
  shows "ucast (off div frame_size layout) = (of_nat (l3_index ipa) :: u32)"
    "unat (ucast (off div frame_size layout) :: u32) = l3_index ipa" "off mod frame_size layout = ipa AND mask 12"
proof -
  let ?B = "unat (data_ipa_base layout)" and ?I = "unat ipa"
  have pl: "placed ?B (unat BLOCK_SIZE)" using valid_layout(3) [OF v] by (simp only: geometry)
  note fs = valid_layout(1) [OF v]
  have "(?I - ?B) div 2 ^ 21 = 0" using block_of(2) [OF pl w] by (simp add: geometry)
  then have "?I - ?B = (?I - ?B) mod 2 ^ 21" by (simp add: div_eq_0_iff)
  moreover have "unat off = ?I - ?B" using w by (simp add: off_def within_def unat_sub)
  ultimately have o: "unat off = ?I mod 2 ^ 21" using block_of(3) [OF pl w] by argo
  have q: "unat (off div frame_size layout) = l3_index ipa" by (simp only: fs unat_div o geometry split_21 l3_index_nat)
  show "ucast (off div frame_size layout) = (of_nat (l3_index ipa) :: u32)"
    "unat (ucast (off div frame_size layout) :: u32) = l3_index ipa"
    by (rule unat_u32_index [OF q index_less(3)])+
  show "off mod frame_size layout = ipa AND mask 12"
    by (simp only: fs word_unat_eq_iff unat_mod o geometry unat_low split_21)
qed

lemma page_output:
  assumes v: "validate layout = Ok ()" and m: "m < 512" and f: "addressable_frames layout"
  shows "frame_pa layout (of_nat m) AND ADDR_4K OR (ipa AND (PAGE_SIZE - 1)) = frame_pa layout (of_nat m) + (ipa AND mask 12)"
proof -
  let ?P = "frame_pa layout (of_nat m)"
  have mp: "unat (of_nat m * PAGE_SIZE) = m * 2 ^ 12"
    using m by (subst unat_mult_exact) (simp_all add: geometry unsigned_of_nat take_bit_nat_eq_self)
  have P: "unat ?P = unat (data_pa_base layout) + m * 2 ^ 12"
    unfolding super_addr(3) [OF v m] using f m by (subst unat_add_exact) (simp_all add: mp addressable_frames_def)
  have "unat ?P mod 2 ^ 12 = 0" "unat ?P < 2 ^ 48"
    using valid_layout(7) [OF v] f m by (auto simp: P addressable_frames_def)
  then show ?thesis by (rule page_join)
qed

lemma block_frame:
  assumes v: "validate layout = Ok ()" and w: "within (sup_ipa_base layout) (sup_span layout) ipa" and f: "addressable_frames layout"
  defines "off \<equiv> ipa - sup_ipa_base layout" and "m \<equiv> l2_index ipa - l2_index (sup_ipa_base layout)"
  shows "ucast (off div super_size layout) = (of_nat m :: u32)" "unat (ucast (off div super_size layout) :: u32) = m"
    "super_pa layout (of_nat m) AND ADDR_2M OR (ipa AND (BLOCK_SIZE - 1)) = super_pa layout (of_nat m) + off mod super_size layout"
proof -
  let ?P = "super_pa layout (of_nat m)"
  note pl = valid_layout(4) [OF v] and ss = valid_layout(2) [OF v]
  have m: "m < unat (sup_span layout) div 2 ^ 21" using block_of(1,2) [OF pl w] by (simp add: m_def)
  note m5 = block_slot(4) [OF pl m]
  have q: "unat (off div super_size layout) = m"
    unfolding ss off_def within_off(1) [OF pl w] m_def by (rule block_of(1) [OF pl w])
  show "ucast (off div super_size layout) = (of_nat m :: u32)" "unat (ucast (off div super_size layout) :: u32) = m"
    by (rule unat_u32_index [OF q m5])+
  have span: "m * 2 ^ 21 + 2 ^ 21 \<le> unat (sup_span layout)"
  proof -
    have "unat (sup_span layout) = unat (sup_span layout) div 2 ^ 21 * 2 ^ 21" using pl by (auto simp: placed_def)
    moreover have "Suc m * 2 ^ 21 \<le> unat (sup_span layout) div 2 ^ 21 * 2 ^ 21" by (rule mult_le_mono1) (use m in linarith)
    ultimately show ?thesis by (simp only: mult_Suc add.commute)
  qed
  have mp: "unat (of_nat m * BLOCK_SIZE) = m * 2 ^ 21" using m5 by (intro unat_blocks) simp
  have P: "unat ?P = unat (sup_pa_base layout) + m * 2 ^ 21"
    unfolding super_addr(2) [OF v m5] using f span by (subst unat_add_exact) (simp_all add: mp addressable_frames_def)
  have "unat ?P mod 2 ^ 21 = 0" "unat ?P < 2 ^ 48"
    using valid_layout(8) [OF v] f span by (auto simp: P addressable_frames_def)
  then show "?P AND ADDR_2M OR (ipa AND (BLOCK_SIZE - 1)) = ?P + off mod super_size layout"
    unfolding ss off_def within_off(2) [OF pl w] by (rule block_join)
qed

text \<open>The windows of an accepted layout, by table slot.\<close>

lemma windows_by_slot:
  assumes v: "validate layout = Ok ()" and lt: "unat ipa < 2 ^ 39"
  shows "within (data_ipa_base layout) BLOCK_SIZE ipa \<longleftrightarrow> l1_index ipa = data_l1 layout \<and> l2_index ipa = data_l2 layout"
    "within (sup_ipa_base layout) (sup_span layout) ipa \<longleftrightarrow> l1_index ipa = sup_l1 layout \<and>
       l2_index (sup_ipa_base layout) \<le> l2_index ipa \<and>
       l2_index ipa < l2_index (sup_ipa_base layout) + unat (sup_span layout) div 2 ^ 21"
    "guest_image_pa layout = Some pa \<Longrightarrow> within pa BLOCK_SIZE ipa \<longleftrightarrow> l1_index ipa = l1_index pa \<and> l2_index ipa = l2_index pa"
    "0 < device_len layout \<Longrightarrow> within (device_base layout) (device_len layout) ipa \<longleftrightarrow> l1_index ipa = l1_index (device_base layout) \<and>
       l2_index (device_base layout) \<le> l2_index ipa \<and> l2_index ipa < l2_index (device_base layout) + dev_slots layout"
proof -
  note one = placed_within [of _ BLOCK_SIZE, unfolded geometry(1), OF _ lt]
  show "within (data_ipa_base layout) BLOCK_SIZE ipa \<longleftrightarrow> l1_index ipa = data_l1 layout \<and> l2_index ipa = data_l2 layout"
    unfolding one [OF valid_layout(3) [OF v]] data_l1_def data_l2_def by auto
  show "guest_image_pa layout = Some pa \<Longrightarrow> within pa BLOCK_SIZE ipa \<longleftrightarrow> l1_index ipa = l1_index pa \<and> l2_index ipa = l2_index pa"
    using one [OF valid_layout(5) [OF v]] by auto
  show "within (sup_ipa_base layout) (sup_span layout) ipa \<longleftrightarrow> l1_index ipa = sup_l1 layout \<and>
       l2_index (sup_ipa_base layout) \<le> l2_index ipa \<and>
       l2_index ipa < l2_index (sup_ipa_base layout) + unat (sup_span layout) div 2 ^ 21"
    unfolding placed_within [OF valid_layout(4) [OF v] lt] sup_l1_def ..
  show "0 < device_len layout \<Longrightarrow> within (device_base layout) (device_len layout) ipa \<longleftrightarrow> l1_index ipa = l1_index (device_base layout) \<and>
       l2_index (device_base layout) \<le> l2_index ipa \<and> l2_index ipa < l2_index (device_base layout) + dev_slots layout"
    unfolding placed_within [OF valid_layout(6) [OF v] lt] dev_slots_def ..
qed

lemma window_reach_high:
  assumes v: "validate layout = Ok ()" and "\<not> unat ipa < 2 ^ 39"
  shows "window_reach layout leaves supers ipa = None"
proof -
  have "\<not> within pa BLOCK_SIZE ipa" if "guest_image_pa layout = Some pa" for pa
    using valid_layout(5) [OF v that] placed_below [of pa BLOCK_SIZE ipa] assms(2) by (auto simp: geometry)
  moreover have "\<not> within (data_ipa_base layout) BLOCK_SIZE ipa"
    using valid_layout(3) [OF v] placed_below [of "data_ipa_base layout" BLOCK_SIZE ipa] assms(2) by (auto simp: geometry)
  moreover have "\<not> within (sup_ipa_base layout) (sup_span layout) ipa"
    using placed_below [OF valid_layout(4) [OF v]] assms(2) by blast
  moreover have "\<not> (0 < device_len layout \<and> within (device_base layout) (device_len layout) ipa)"
    using placed_below [OF valid_layout(6) [OF v]] assms(2) by blast
  ultimately show ?thesis
    using valid_layout(1) [OF v] by (auto simp: window_reach_def sup_span_def PAGE_SIZE_mult split: option.splits)
qed

text \<open>One step of the walk below the level-1 table.\<close>

definition walk_l2 :: "u64 \<Rightarrow> u64 \<Rightarrow> (u64 \<Rightarrow> u64 \<Rightarrow> u64) \<Rightarrow> Reach option" where
  "walk_l2 l2_pa ipa fetch =
     (let l2_desc = fetch l2_pa (of_nat (l2_index ipa)) in
      case decode_block l2_desc of
        Some block \<Rightarrow>
          Some \<lparr>rc_pa = de_pa block OR (ipa AND (BLOCK_SIZE - 1)), rc_perm = de_perm block, rc_xn = de_xn block\<rparr>
      | None \<Rightarrow>
          Option.bind (decode_table l2_desc) (\<lambda>l3_pa.
          Option.bind (decode_page (fetch l3_pa (of_nat (l3_index ipa)))) (\<lambda>page.
            Some \<lparr>rc_pa = de_pa page OR (ipa AND (PAGE_SIZE - 1)), rc_perm = de_perm page, rc_xn = de_xn page\<rparr>)))"

lemma walk_eq:
  "walk root ipa fetch = (if unat ipa < 2 ^ 39
     then Option.bind (decode_table (fetch root (of_nat (l1_index ipa)))) (\<lambda>l2_pa. walk_l2 l2_pa ipa fetch) else None)"
  unfolding walk_def walk_l2_def index_words by (simp add: word_le_nat_alt geometry not_le)

text \<open>A walker that sees the words of an encoding.\<close>

definition serves :: "(u64 \<Rightarrow> u64 \<Rightarrow> u64) \<Rightarrow> Layout \<Rightarrow> Perm option list \<Rightarrow> Perm option list \<Rightarrow> bool" where
  "serves fetch layout leaves supers \<longleftrightarrow>
     validate layout = Ok () \<and> backed layout supers \<and>
     (\<forall>i < 512. fetch (l1_pa layout) (of_nat i) = l1_word layout i \<and> fetch (l2_code_pa layout) (of_nat i) = l2_code_word layout i \<and>
        fetch (l2_data_pa layout) (of_nat i) = l2_data_word layout i \<and> fetch (l3_data_pa layout) (of_nat i) = l3_word layout leaves i \<and>
        fetch (l2_sup_pa layout) (of_nat i) = l2_sup_word layout supers i \<and> fetch (l2_dev_pa layout) (of_nat i) = l2_dev_word layout i)"

lemma serves_words:
  assumes "serves fetch layout leaves supers"
  shows "validate layout = Ok ()" "backed layout supers"
    "i < 512 \<Longrightarrow> fetch (l1_pa layout) (of_nat i) = l1_word layout i"
    "i < 512 \<Longrightarrow> fetch (l2_code_pa layout) (of_nat i) = l2_code_word layout i"
    "i < 512 \<Longrightarrow> fetch (l2_data_pa layout) (of_nat i) = l2_data_word layout i"
    "i < 512 \<Longrightarrow> fetch (l3_data_pa layout) (of_nat i) = l3_word layout leaves i"
    "i < 512 \<Longrightarrow> fetch (l2_sup_pa layout) (of_nat i) = l2_sup_word layout supers i"
    "i < 512 \<Longrightarrow> fetch (l2_dev_pa layout) (of_nat i) = l2_dev_word layout i"
  using assms unfolding serves_def by blast+

lemma walk_l1:
  assumes "serves fetch layout leaves supers" "unat ipa < 2 ^ 39"
  shows "walk (l1_pa layout) ipa fetch =
    Option.bind (decode_table (l1_word layout (l1_index ipa))) (\<lambda>l2_pa. walk_l2 l2_pa ipa fetch)"
  using assms(2) by (simp add: walk_eq serves_words(3) [OF assms(1) index_less(1)])

lemma walk_data_word:
  assumes s: "serves fetch layout leaves supers" and w: "within (data_ipa_base layout) BLOCK_SIZE ipa"
  shows "walk (l1_pa layout) ipa fetch = map_option (\<lambda>p. \<lparr>rc_pa = frame_pa layout (of_nat (l3_index ipa)) AND ADDR_4K OR (ipa AND (PAGE_SIZE - 1)),
     rc_perm = fst (leaf_access_xn p False), rc_xn = snd (leaf_access_xn p False)\<rparr>) (leaf_at leaves (l3_index ipa))"
proof -
  note v = serves_words(1) [OF s]
  have lt: "unat ipa < 2 ^ 39" using valid_layout(3) [OF v] w placed_below [of "data_ipa_base layout" BLOCK_SIZE ipa] by (simp add: geometry)
  have sl: "l1_index ipa = data_l1 layout" "l2_index ipa = data_l2 layout" using windows_by_slot(1) [OF v lt] w by blast+
  then have "fetch (l2_data_pa layout) (of_nat (l2_index ipa)) = table_entry (l3_data_pa layout)"
    using serves_words(5) [OF s index_less(2) [of ipa]] by (simp add: l2_data_word_def)
  then have "walk (l1_pa layout) ipa fetch =
      Option.bind (decode_page (l3_word layout leaves (l3_index ipa))) (\<lambda>page.
        Some \<lparr>rc_pa = de_pa page OR (ipa AND (PAGE_SIZE - 1)), rc_perm = de_perm page, rc_xn = de_xn page\<rparr>)"
    using sl(1) by (simp add: walk_l1 [OF s lt] l1_word_def entry_decodes [OF v] walk_l2_def serves_words(6) [OF s index_less(3)])
  also have "\<dots> = map_option (\<lambda>p. \<lparr>rc_pa = frame_pa layout (of_nat (l3_index ipa)) AND ADDR_4K OR (ipa AND (PAGE_SIZE - 1)),
     rc_perm = fst (leaf_access_xn p False), rc_xn = snd (leaf_access_xn p False)\<rparr>) (leaf_at leaves (l3_index ipa))"
    by (cases "leaf_at leaves (l3_index ipa)") (simp_all add: l3_word_def page_decodes)
  finally show ?thesis .
qed

lemma data_reach_word:
  assumes "validate layout = Ok ()" "within (data_ipa_base layout) BLOCK_SIZE ipa"
  shows "data_reach layout leaves ipa = map_option (\<lambda>p. \<lparr>rc_pa = frame_pa layout (of_nat (l3_index ipa)) + (ipa AND mask 12),
     rc_perm = fst (leaf_access_xn p False), rc_xn = snd (leaf_access_xn p False)\<rparr>) (leaf_at leaves (l3_index ipa))"
  unfolding data_reach_def using page_frame [OF assms] by (simp add: Let_def case_prod_beta split: option.split)

lemma walk_data:
  assumes s: "serves fetch layout leaves supers" and f: "addressable_frames layout" and lt: "unat ipa < 2 ^ 39"
    and i: "l1_index ipa = data_l1 layout"
  shows "walk (l1_pa layout) ipa fetch =
    (if within (data_ipa_base layout) BLOCK_SIZE ipa then data_reach layout leaves ipa else None)"
proof (cases "within (data_ipa_base layout) BLOCK_SIZE ipa")
  case True
  then show ?thesis
    using walk_data_word [OF s True] data_reach_word [OF serves_words(1) [OF s] True] page_output [OF serves_words(1) [OF s] index_less(3) f]
    by simp
next
  case False
  note v = serves_words(1) [OF s]
  have "l2_index ipa \<noteq> data_l2 layout" using windows_by_slot(1) [OF v lt] i False by blast
  then have "fetch (l2_data_pa layout) (of_nat (l2_index ipa)) = 0"
    using serves_words(5) [OF s index_less(2) [of ipa]] by (simp add: l2_data_word_def)
  then show ?thesis using i False by (simp add: walk_l1 [OF s lt] l1_word_def entry_decodes [OF v] walk_l2_def)
qed

lemma walk_sup:
  assumes s: "serves fetch layout leaves supers" and f: "addressable_frames layout" and lt: "unat ipa < 2 ^ 39"
    and i: "l1_index ipa = sup_l1 layout"
  shows "walk (l1_pa layout) ipa fetch =
    (if within (sup_ipa_base layout) (sup_span layout) ipa then sup_reach layout supers ipa else None)"
proof -
  let ?b = "l2_index (sup_ipa_base layout)" and ?j = "l2_index ipa"
  note v = serves_words(1) [OF s]
  have "sup_l1 layout \<noteq> data_l1 layout" using valid_layout(9) [OF v] by simp
  then have w: "walk (l1_pa layout) ipa fetch = walk_l2 (l2_sup_pa layout) ipa fetch"
    using i by (simp add: walk_l1 [OF s lt] l1_word_def entry_decodes [OF v])
  note word = serves_words(7) [OF s index_less(2) [of ipa]]
  show ?thesis
  proof (cases "within (sup_ipa_base layout) (sup_span layout) ipa")
    case True
    then have b: "?b \<le> ?j" using windows_by_slot(2) [OF v lt] by blast
    show ?thesis
      using w word True b block_frame [OF v True f]
      by (cases "leaf_at supers (?j - ?b)")
        (simp_all add: walk_l2_def sup_reach_def l2_sup_word_def block_decodes Let_def case_prod_beta)
  next
    case False
    then have "?j < ?b \<or> ?b + unat (sup_span layout) div 2 ^ 21 \<le> ?j" using windows_by_slot(2) [OF v lt] i by linarith
    then have "l2_sup_word layout supers ?j = 0"
      using serves_words(2) [OF s] by (auto simp: l2_sup_word_def Let_def leaf_at_def backed_def split: option.splits)
    then show ?thesis using w word False by (simp add: walk_l2_def)
  qed
qed

lemma walk_image:
  assumes s: "serves fetch layout leaves supers" and lt: "unat ipa < 2 ^ 39" and pa: "guest_image_pa layout = Some pa"
    and i: "l1_index ipa = l1_index pa"
  shows "walk (l1_pa layout) ipa fetch =
    (if within pa BLOCK_SIZE ipa then Some \<lparr>rc_pa = ipa, rc_perm = Ro, rc_xn = False\<rparr> else None)"
proof -
  note v = serves_words(1) [OF s]
  have c: "code_l1 layout = Some (l1_index ipa)" using pa i by (simp add: code_l1_def)
  then have w: "walk (l1_pa layout) ipa fetch = walk_l2 (l2_code_pa layout) ipa fetch"
    using valid_layout(10) [OF v c] by (simp add: walk_l1 [OF s lt] l1_word_def entry_decodes [OF v])
  note word = serves_words(4) [OF s index_less(2) [of ipa]]
  note win = windows_by_slot(3) [OF v lt pa]
  show ?thesis
  proof (cases "within pa BLOCK_SIZE ipa")
    case True
    have "placed (unat pa) (unat BLOCK_SIZE)" using valid_layout(5) [OF v pa] by (simp only: geometry)
    from identity_block [OF this True] have "pa AND ADDR_2M OR (ipa AND (BLOCK_SIZE - 1)) = ipa" using win True by simp
    with w word True win pa show ?thesis by (simp add: walk_l2_def l2_code_word_def image_decodes)
  next
    case False
    with w word win pa i show ?thesis by (auto simp: walk_l2_def l2_code_word_def)
  qed
qed

lemma walk_device:
  assumes s: "serves fetch layout leaves supers" and lt: "unat ipa < 2 ^ 39" and d: "0 < device_len layout"
    and i: "l1_index ipa = l1_index (device_base layout)"
  shows "walk (l1_pa layout) ipa fetch =
    (if within (device_base layout) (device_len layout) ipa then Some \<lparr>rc_pa = ipa, rc_perm = Rw, rc_xn = True\<rparr> else None)"
proof -
  note v = serves_words(1) [OF s]
  have c: "dev_l1 layout = Some (l1_index ipa)" using d i by (simp add: dev_l1_def)
  then have w: "walk (l1_pa layout) ipa fetch = walk_l2 (l2_dev_pa layout) ipa fetch"
    using valid_layout(11) [OF v c] by (simp add: walk_l1 [OF s lt] l1_word_def entry_decodes [OF v])
  note word = serves_words(8) [OF s index_less(2) [of ipa]]
  note win = windows_by_slot(4) [OF v lt d]
  show ?thesis
  proof (cases "within (device_base layout) (device_len layout) ipa")
    case True
    with w word win identity_block [OF valid_layout(6) [OF v d] True] show ?thesis
      by (simp add: walk_l2_def l2_dev_word_def Let_def device_decodes)
  next
    case False
    with w word win i show ?thesis by (auto simp: walk_l2_def l2_dev_word_def Let_def)
  qed
qed

lemma walk_is_windows:
  assumes s: "serves fetch layout leaves supers" and f: "addressable_frames layout"
  shows "walk (l1_pa layout) ipa fetch = window_reach layout leaves supers ipa"
proof (cases "unat ipa < 2 ^ 39")
  case False
  then show ?thesis using window_reach_high [OF serves_words(1) [OF s]] by (simp add: walk_eq)
next
  case lt: True
  let ?i = "l1_index ipa"
  note v = serves_words(1) [OF s]
  note win = windows_by_slot [OF v lt] and dist = valid_layout(9-11) [OF v]
  have reach: "window_reach layout leaves supers ipa =
      (if \<exists>pa. guest_image_pa layout = Some pa \<and> within pa BLOCK_SIZE ipa then Some \<lparr>rc_pa = ipa, rc_perm = Ro, rc_xn = False\<rparr>
       else if within (data_ipa_base layout) BLOCK_SIZE ipa then data_reach layout leaves ipa
       else if within (sup_ipa_base layout) (sup_span layout) ipa then sup_reach layout supers ipa
       else if 0 < device_len layout \<and> within (device_base layout) (device_len layout) ipa
       then Some \<lparr>rc_pa = ipa, rc_perm = Rw, rc_xn = True\<rparr> else None)"
    by (simp add: window_reach_def sup_span_def valid_layout(1) [OF v] PAGE_SIZE_mult split: option.split)
  have image: "code_l1 layout = Some (l1_index pa)" if "guest_image_pa layout = Some pa" for pa
    using that by (simp add: code_l1_def)
  have device: "0 < device_len layout \<Longrightarrow> dev_l1 layout = Some (l1_index (device_base layout))" by (simp add: dev_l1_def)
  consider (data) "?i = data_l1 layout" | (sup) "?i = sup_l1 layout"
    | (img) pa where "guest_image_pa layout = Some pa" "?i = l1_index pa"
    | (dev) "0 < device_len layout" "?i = l1_index (device_base layout)"
    | (none) "?i \<noteq> data_l1 layout" "?i \<noteq> sup_l1 layout" "\<nexists>pa. guest_image_pa layout = Some pa \<and> ?i = l1_index pa"
      "\<not> (0 < device_len layout \<and> ?i = l1_index (device_base layout))"
    by blast
  then show ?thesis
  proof cases
    case data
    then show ?thesis using walk_data [OF s f lt data] win dist image device unfolding reach by auto
  next
    case sup
    then show ?thesis using walk_sup [OF s f lt sup] win dist image device unfolding reach by auto
  next
    case img
    then show ?thesis using walk_image [OF s lt img] win dist image device unfolding reach by auto
  next
    case dev
    then show ?thesis using walk_device [OF s lt dev] win dist image device unfolding reach by auto
  next
    case none
    then have "l1_word layout ?i = 0" by (auto simp: l1_word_def code_l1_def dev_l1_def)
    then have "walk (l1_pa layout) ipa fetch = None" by (simp add: walk_l1 [OF s lt])
    then show ?thesis using none win image device unfolding reach by auto
  qed
qed

lemma means_serves:
  assumes "validate layout = Ok ()" "backed layout supers" "means layout leaves supers t" "fetch_reads fetch layout t"
  shows "serves fetch layout leaves supers"
  using assms by (simp add: serves_def means_def fetch_reads_def)

lemma window_reach_data:
  assumes v: "validate layout = Ok ()" and w: "within (data_ipa_base layout) BLOCK_SIZE ipa"
  shows "window_reach layout leaves supers ipa = data_reach layout leaves ipa"
proof -
  have lt: "unat ipa < 2 ^ 39" using valid_layout(3) [OF v] w placed_below [of "data_ipa_base layout" BLOCK_SIZE ipa] by (simp add: geometry)
  have "\<not> within pa BLOCK_SIZE ipa" if "guest_image_pa layout = Some pa" for pa
    using windows_by_slot(1) [OF v lt] windows_by_slot(3) [OF v lt that] valid_layout(10) [OF v, of "l1_index pa"] w that
    by (auto simp: code_l1_def)
  then show ?thesis using w by (auto simp: window_reach_def valid_layout(1) [OF v] PAGE_SIZE_mult split: option.split)
qed

lemma frame_ipa_slot:
  assumes v: "validate layout = Ok ()" and m: "m < 512"
  shows "within (data_ipa_base layout) BLOCK_SIZE (frame_ipa layout (of_nat m))" "l3_index (frame_ipa layout (of_nat m)) = m"
    "unat (frame_ipa layout (of_nat m)) mod 2 ^ 12 = 0"
proof -
  let ?B = "unat (data_ipa_base layout)"
  obtain x where x: "?B = x * 2 ^ 21" using valid_layout(3) [OF v] by (auto simp: placed_def)
  have B: "?B < 2 ^ 39" using valid_layout(3) [OF v] by (simp add: placed_def)
  have mp: "unat (of_nat m * PAGE_SIZE) = m * 2 ^ 12"
    using m by (subst unat_mult_exact) (simp_all add: geometry unsigned_of_nat take_bit_nat_eq_self)
  have u: "unat (frame_ipa layout (of_nat m)) = ?B + m * 2 ^ 12"
    using B m by (subst frame_ipa_def, subst frame_addr_def, subst unat_add_exact)
      (simp_all add: valid_layout(1) [OF v] ucast_of_nat_u32 mp)
  have e: "?B + m * 2 ^ 12 = (x * 512 + m) * 2 ^ 12" unfolding x by simp
  show "within (data_ipa_base layout) BLOCK_SIZE (frame_ipa layout (of_nat m))" using m by (simp add: within_nat u geometry)
  show "unat (frame_ipa layout (of_nat m)) mod 2 ^ 12 = 0" unfolding u e by simp
  show "l3_index (frame_ipa layout (of_nat m)) = m" unfolding l3_index_nat u e using m by simp
qed

lemma frame_pa_aligned:
  assumes v: "validate layout = Ok ()" and m: "m < 512" shows "unat (frame_pa layout (of_nat m)) mod 2 ^ 12 = 0"
proof -
  have "2 ^ 12 dvd unat (of_nat m * PAGE_SIZE)"
    using m by (subst unat_mult_exact) (simp_all add: geometry unsigned_of_nat take_bit_nat_eq_self)
  moreover have "2 ^ 12 dvd unat (data_pa_base layout)" using valid_layout(7) [OF v] by (rule mod_0_imp_dvd)
  ultimately have "2 ^ 12 dvd (unat (data_pa_base layout) + unat (of_nat m * PAGE_SIZE)) mod 2 ^ 64"
    by (intro dvd_mod dvd_add) (simp_all add: le_imp_power_dvd)
  then show ?thesis by (simp add: super_addr(3) [OF v m] unat_word_ariths)
qed

lemma addr_4k_less: "unat (a AND ADDR_4K) < 2 ^ 48"
proof -
  have "a AND ADDR_4K \<le> ADDR_4K" by (rule word_and_le1)
  then show ?thesis by (simp add: word_le_nat_alt ADDR_4K_def)
qed

section \<open>A concrete table set\<close>

text \<open>A walker over one table set in memory, whose tables are at six different addresses.\<close>

definition tables_fetch :: "Layout \<Rightarrow> Tables \<Rightarrow> u64 \<Rightarrow> u64 \<Rightarrow> u64" where
  "tables_fetch layout t pa i =
     (if pa = l1_pa layout then t_l1 t ! unat i else if pa = l2_code_pa layout then t_l2_code t ! unat i
      else if pa = l2_data_pa layout then t_l2_data t ! unat i else if pa = l3_data_pa layout then t_l3_data t ! unat i
      else if pa = l2_sup_pa layout then t_l2_sup t ! unat i else if pa = l2_dev_pa layout then t_l2_dev t ! unat i else 0)"

lemma tables_fetch_reads:
  assumes "distinct [l1_pa layout, l2_code_pa layout, l2_data_pa layout, l3_data_pa layout, l2_sup_pa layout, l2_dev_pa layout]"
  shows "fetch_reads (tables_fetch layout t) layout t"
proof -
  have "unat (of_nat i :: u64) = i" if "i < 512" for i using that by (simp add: unsigned_of_nat take_bit_nat_eq_self)
  with assms [simplified] show ?thesis unfolding fetch_reads_def tables_fetch_def by (elim conjE) simp
qed

definition no_tables :: Tables where
  "no_tables = \<lparr>t_l1 = replicate 512 0, t_l2_code = replicate 512 0, t_l2_data = replicate 512 0, t_l3_data = replicate 512 0,
     t_l2_sup = replicate 512 0, t_l2_dev = replicate 512 0\<rparr>"

lemma no_tables_reusable: "reusable layout no_tables"
  by (simp add: reusable_def tables_sized_def no_tables_def)

definition demo_layout :: Layout where
  "demo_layout = \<lparr>l1_pa = 0x40010000, l2_code_pa = 0x40011000, l2_data_pa = 0x40012000, l3_data_pa = 0x40013000,
     l2_sup_pa = 0x40014000, l2_dev_pa = 0x40015000, guest_image_pa = Some 0x40200000, data_ipa_base = 0x80000000,
     data_pa_base = 0x40400000, frame_size = 0x1000, sup_ipa_base = 0xC0000000, sup_pa_base = 0x40600000,
     device_base = 0x08000000, device_len = 0x02000000, sup_wx_exempt = False, sup_frames = 2\<rparr>"

lemmas demo_simps = demo_layout_def BLOCK_SIZE_def PAGE_SIZE_def TABLE_ENTRIES_def L1_ENTRY_SIZE_def ADDRESSABLE_def
  MAX_TABLE_PA_def super_size_def sup_span_def

lemma demo_valid: "validate demo_layout = Ok ()"
  by (simp add: validate_def aligned_def nameable_def and_then_def regions_def data_l1_def sup_l1_def dev_l1_def l1_index_def
      overlaps_def demo_simps upt_rec)

lemma demo_sides:
  "addressable_frames demo_layout" "reusable demo_layout no_tables" "length supers \<le> 2 \<Longrightarrow> backed demo_layout supers"
  "fetch_reads (tables_fetch demo_layout t) demo_layout t"
proof -
  show "reusable demo_layout no_tables" by (rule no_tables_reusable)
  show "addressable_frames demo_layout" by (simp add: addressable_frames_def demo_simps)
  show "backed demo_layout supers" if "length supers \<le> 2" using that by (simp add: backed_def demo_simps)
  show "fetch_reads (tables_fetch demo_layout t) demo_layout t" by (rule tables_fetch_reads) (simp add: demo_layout_def)
qed

section \<open>Properties\<close>

text \<open>
  C22: What the hardware reaches is what the layout and the leaf maps say. For every accepted
  layout whose frames lie below \<open>2\<^sup>4\<^sup>8\<close>, every pair of leaf maps whose super leaves are backed, and
  tables that are new or left by an earlier encoding of the layout: the encoder returns, its
  tables can be encoded again, and a walk of its words from the level-1 table, for every 64-bit
  address, ends at the byte, the access and the execute-never bit of \<open>window_reach\<close>, or faults
  exactly where \<open>window_reach\<close> has a hole.
\<close>

theorem stage2_walk_exact:
  assumes "validate layout = Ok ()" and "addressable_frames layout" and "backed layout supers" and "reusable layout t"
  shows "\<exists>t'. encode leaves supers layout t = Some t' \<and> reusable layout t' \<and>
    (\<forall>fetch ipa. fetch_reads fetch layout t' \<longrightarrow> walk (l1_pa layout) ipa fetch = window_reach layout leaves supers ipa)"
  using encode_means [OF assms(1,4,3), of leaves] walk_is_windows [OF means_serves [OF assms(1,3)] assms(2)] by blast

theorem stage2_walk_exact_witness:
  "\<exists>t. encode [None, Some Rx] [Some Rw] demo_layout no_tables = Some t \<and>
     walk 0x40010000 0x80001007 (tables_fetch demo_layout t) = Some \<lparr>rc_pa = 0x40401007, rc_perm = Ro, rc_xn = False\<rparr> \<and>
     walk 0x40010000 0xC0001007 (tables_fetch demo_layout t) = Some \<lparr>rc_pa = 0x40601007, rc_perm = Rw, rc_xn = True\<rparr> \<and>
     walk 0x40010000 0x80000000 (tables_fetch demo_layout t) = None"
proof -
  obtain t where t: "encode [None, Some Rx] [Some Rw] demo_layout no_tables = Some t"
    "\<And>ipa. walk (l1_pa demo_layout) ipa (tables_fetch demo_layout t) = window_reach demo_layout [None, Some Rx] [Some Rw] ipa"
    using stage2_walk_exact [OF demo_valid demo_sides(1) demo_sides(3) demo_sides(2), of "[Some Rw]" "[None, Some Rx]"] demo_sides(4)
    by fastforce
  have root: "l1_pa demo_layout = 0x40010000" by (simp add: demo_layout_def)
  have "window_reach demo_layout [None, Some Rx] [Some Rw] 0x80001007 = Some \<lparr>rc_pa = 0x40401007, rc_perm = Ro, rc_xn = False\<rparr>"
    "window_reach demo_layout [None, Some Rx] [Some Rw] 0xC0001007 = Some \<lparr>rc_pa = 0x40601007, rc_perm = Rw, rc_xn = True\<rparr>"
    "window_reach demo_layout [None, Some Rx] [Some Rw] 0x80000000 = None"
    by (simp_all add: window_reach_def within_def data_reach_def sup_reach_def leaf_at_def frame_pa_def super_pa_def
        frame_addr_def demo_simps)
  with t show ?thesis unfolding root by auto
qed

text \<open>
  \<open>validate\<close> does not bound the output addresses of the frame windows. A page leaf whose frame
  lies at or above \<open>2\<^sup>4\<^sup>8\<close> is encoded with its address cut to 48 bits: in every accepted layout the
  walk of frame \<open>m\<close>'s address ends at the cut address, \<open>window_reach\<close> says the frame's own, and the
  two differ exactly for such frames.
\<close>

theorem frame_address_cut:
  assumes "validate layout = Ok ()" and "backed layout supers" and "reusable layout t"
    and "m < 512" and "leaf_at leaves m = Some p" and "encode leaves supers layout t = Some t'" and "fetch_reads fetch layout t'"
  shows "map_option rc_pa (walk (l1_pa layout) (frame_ipa layout (of_nat m)) fetch) = Some (frame_pa layout (of_nat m) AND ADDR_4K) \<and>
    map_option rc_pa (window_reach layout leaves supers (frame_ipa layout (of_nat m))) = Some (frame_pa layout (of_nat m)) \<and>
    (frame_pa layout (of_nat m) AND ADDR_4K \<noteq> frame_pa layout (of_nat m) \<longleftrightarrow> 2 ^ 48 \<le> unat (frame_pa layout (of_nat m)))"
proof -
  note v = assms(1)
  have s: "serves fetch layout leaves supers"
    using encode_means [OF v assms(3,2), of leaves] assms(6,7) means_serves [OF v assms(2)] by auto
  note ipa = frame_ipa_slot [OF v assms(4)]
  have low: "frame_ipa layout (of_nat m) AND mask 12 = 0" using ipa(3) by (simp only: word_unat_eq_iff unat_low unsigned_0)
  have "walk (l1_pa layout) (frame_ipa layout (of_nat m)) fetch =
      Some \<lparr>rc_pa = frame_pa layout (of_nat m) AND ADDR_4K, rc_perm = fst (leaf_access_xn p False), rc_xn = snd (leaf_access_xn p False)\<rparr>"
    using walk_data_word [OF s ipa(1)] assms(5) by (simp add: ipa(2) low_mask_sizes low)
  moreover have "window_reach layout leaves supers (frame_ipa layout (of_nat m)) =
      Some \<lparr>rc_pa = frame_pa layout (of_nat m), rc_perm = fst (leaf_access_xn p False), rc_xn = snd (leaf_access_xn p False)\<rparr>"
    using window_reach_data [OF v ipa(1)] data_reach_word [OF v ipa(1), of leaves] assms(5) by (simp add: ipa(2) low)
  moreover have "frame_pa layout (of_nat m) AND ADDR_4K \<noteq> frame_pa layout (of_nat m) \<longleftrightarrow> 2 ^ 48 \<le> unat (frame_pa layout (of_nat m))"
    using addr_id(2) [OF frame_pa_aligned [OF v assms(4)]] addr_4k_less [of "frame_pa layout (of_nat m)"] by (metis not_le)
  ultimately show ?thesis by simp
qed

text \<open>The demonstration layout with its frames at \<open>2\<^sup>4\<^sup>8\<close>: accepted, and frame 0 is reached at address 0.\<close>

definition high_layout :: Layout where
  "high_layout = demo_layout\<lparr>data_pa_base := 0x1000000000000\<rparr>"

theorem frame_address_cut_witness:
  "validate high_layout = Ok () \<and> (\<exists>t. encode [Some Rw] [] high_layout no_tables = Some t \<and>
     map_option rc_pa (walk (l1_pa high_layout) (frame_ipa high_layout (of_nat 0)) (tables_fetch high_layout t)) = Some 0 \<and>
     map_option rc_pa (window_reach high_layout [Some Rw] [] (frame_ipa high_layout (of_nat 0))) = Some 0x1000000000000)"
proof -
  have v: "validate high_layout = Ok ()"
    by (simp add: validate_def aligned_def nameable_def and_then_def regions_def data_l1_def sup_l1_def dev_l1_def l1_index_def
        overlaps_def demo_simps upt_rec high_layout_def)
  have bk: "backed high_layout []" by (simp add: backed_def)
  obtain t where t: "encode [Some Rw] [] high_layout no_tables = Some t"
    using encode_means [OF v no_tables_reusable bk] by blast
  have fr: "fetch_reads (tables_fetch high_layout t) high_layout t"
    by (rule tables_fetch_reads) (simp add: high_layout_def demo_layout_def)
  have pa: "frame_pa high_layout (of_nat 0) = 0x1000000000000" "frame_pa high_layout (of_nat 0) AND ADDR_4K = 0"
    by (simp_all add: frame_pa_def frame_addr_def high_layout_def demo_layout_def ADDR_4K_def)
  have leaf: "leaf_at [Some Rw] 0 = Some Rw" by (simp add: leaf_at_def)
  have z: "(0 :: nat) < 512" by simp
  from frame_address_cut [OF v bk no_tables_reusable z leaf t fr] v t show ?thesis unfolding pa(2) unfolding pa(1) by blast
qed

end
