(* ===== verification/Stage2_Verify.thy ===== *)
theory Stage2_Verify
  imports Stage2_Walk
begin

text \<open>
  The read-back check of emitted tables, \<open>verify_encoding\<close> of \<open>hv-s2/src/arm64.rs\<close>, and what it
  does and does not establish: every table set the encoder writes passes it, and so does a set
  with a foreign block in a slot of the device table that should be dead.
\<close>

section \<open>The check\<close>

definition dead_except :: "u64 list \<Rightarrow> nat list \<Rightarrow> string \<Rightarrow> (unit, EncodingViolation) result" where
  "dead_except table live name =
     scan (\<lambda>(i, d). if d \<noteq> 0 \<and> i \<notin> set live then Err (SpuriousDescriptor name i d) else Ok ()) (enumerate 0 table)"

definition l1_entries :: "Layout \<Rightarrow> (nat \<times> u64) list" where
  "l1_entries layout =
     [(data_l1 layout, l2_data_pa layout AND ADDR_4K), (sup_l1 layout, l2_sup_pa layout AND ADDR_4K)] @
     (case code_l1 layout of Some i \<Rightarrow> [(i, l2_code_pa layout AND ADDR_4K)] | None \<Rightarrow> []) @
     (case dev_l1 layout of Some i \<Rightarrow> [(i, l2_dev_pa layout AND ADDR_4K)] | None \<Rightarrow> [])"

definition check_table_entry :: "string \<Rightarrow> u64 list \<Rightarrow> nat \<times> u64 \<Rightarrow> (unit, EncodingViolation) result" where
  "check_table_entry name table e =
     (case e of (idx, expected) \<Rightarrow>
        if decode_table (table ! idx) \<noteq> Some expected
        then Err (BadTableEntry name idx (decode_table (table ! idx)) expected) else Ok ())"

definition check_l1 :: "Layout \<Rightarrow> Tables \<Rightarrow> (unit, EncodingViolation) result" where
  "check_l1 layout t =
     and_then (scan (check_table_entry ''l1'' (t_l1 t)) (l1_entries layout))
       (dead_except (t_l1 t) (map fst (l1_entries layout)) ''l1'')"

definition check_image :: "Layout \<Rightarrow> Tables \<Rightarrow> (unit, EncodingViolation) result" where
  "check_image layout t =
     (case (guest_image_pa layout, code_l2 layout) of
        (Some image_pa, Some j) \<Rightarrow>
          (let want = \<lparr>de_pa = image_pa AND ADDR_2M, de_perm = Ro, de_xn = False\<rparr> in
           if decode_block (t_l2_code t ! j) \<noteq> Some want
           then Err (BadImageBlock (decode_block (t_l2_code t ! j)) (de_pa want))
           else dead_except (t_l2_code t) [j] ''l2_code'')
      | _ \<Rightarrow> dead_except (t_l2_code t) [] ''l2_code'')"

definition check_l2_data :: "Layout \<Rightarrow> Tables \<Rightarrow> (unit, EncodingViolation) result" where
  "check_l2_data layout t =
     and_then (check_table_entry ''l2_data'' (t_l2_data t) (data_l2 layout, l3_data_pa layout AND ADDR_4K))
       (dead_except (t_l2_data t) [data_l2 layout] ''l2_data'')"

definition want_leaf :: "u64 \<Rightarrow> u64 \<Rightarrow> bool \<Rightarrow> Perm option \<Rightarrow> Decoded option" where
  "want_leaf pa addr_mask wx leaf =
     map_option (\<lambda>perm. case leaf_access_xn perm wx of (access, xn) \<Rightarrow>
       \<lparr>de_pa = pa AND addr_mask, de_perm = access, de_xn = xn\<rparr>) leaf"

definition check_leaf ::
  "string \<Rightarrow> u64 list \<Rightarrow> nat \<Rightarrow> nat \<Rightarrow> Decoded option \<Rightarrow> Decoded option \<Rightarrow> (unit, EncodingViolation) result" where
  "check_leaf name table idx m found want =
     (if found \<noteq> want
      then (if want = None \<and> table ! idx \<noteq> 0 then Err (SpuriousDescriptor name idx (table ! idx))
            else Err (BadLeaf (of_nat m) found (map_option (\<lambda>d. (de_pa d, de_perm d)) want)))
      else Ok ())"

definition check_l3 :: "Layout \<Rightarrow> Perm option list \<Rightarrow> Tables \<Rightarrow> (unit, EncodingViolation) result" where
  "check_l3 layout leaves t =
     scan (\<lambda>m. check_leaf ''l3_data'' (t_l3_data t) m m (decode_page (t_l3_data t ! m))
         (want_leaf (frame_pa layout (of_nat m)) ADDR_4K False (leaf_at leaves m)))
       [0..<TABLE_ENTRIES]"

definition check_l2_sup :: "Layout \<Rightarrow> Perm option list \<Rightarrow> Tables \<Rightarrow> (unit, EncodingViolation) result" where
  "check_l2_sup layout supers t =
     scan (\<lambda>m. let idx = l2_index (super_ipa layout (of_nat m)) in
         check_leaf ''l2_sup'' (t_l2_sup t) idx m (decode_block (t_l2_sup t ! idx))
           (want_leaf (super_pa layout (of_nat m)) ADDR_2M (sup_wx_exempt layout) (leaf_at supers m)))
       [0..<TABLE_ENTRIES]"

definition want_device :: "Layout \<Rightarrow> nat \<Rightarrow> DecodedDevice option" where
  "want_device layout idx =
     (if 0 < device_len layout then
        (let l1_base = device_base layout AND NOT (BLOCK_SIZE * of_nat TABLE_ENTRIES - 1);
             a = l1_base + of_nat idx * BLOCK_SIZE
         in if a \<ge> device_base layout \<and> a < device_base layout + device_len layout
            then Some \<lparr>dd_pa = a AND ADDR_2M, dd_xn = True\<rparr> else None)
      else None)"

definition check_l2_dev :: "Layout \<Rightarrow> Tables \<Rightarrow> (unit, EncodingViolation) result" where
  "check_l2_dev layout t =
     scan (\<lambda>idx. let found = decode_device_block (t_l2_dev t ! idx); want = want_device layout idx in
         if found \<noteq> want
         then (if want = None \<and> t_l2_dev t ! idx \<noteq> 0 then Err (SpuriousDescriptor ''l2_dev'' idx (t_l2_dev t ! idx))
               else Err (BadDeviceBlock idx (t_l2_dev t ! idx)))
         else Ok ())
       [0..<TABLE_ENTRIES]"

definition verify_encoding ::
  "Perm option list \<Rightarrow> Perm option list \<Rightarrow> Layout \<Rightarrow> Tables \<Rightarrow> (unit, EncodingViolation) result" where
  "verify_encoding leaves supers layout t =
     and_then (validate layout) (and_then (check_l1 layout t) (and_then (check_image layout t)
     (and_then (check_l2_data layout t) (and_then (check_l3 layout leaves t)
     (and_then (check_l2_sup layout supers t) (check_l2_dev layout t))))))"

section \<open>What it accepts\<close>

lemma dead_except_Ok: "dead_except table live name = Ok () \<longleftrightarrow> (\<forall>i < length table. table ! i \<noteq> 0 \<longrightarrow> i \<in> set live)"
  by (auto simp: dead_except_def scan_enumerate_Ok)

lemma check_leaf_Ok: "check_leaf name table idx m found want = Ok () \<longleftrightarrow> found = want"
  by (auto simp: check_leaf_def)

lemma check_table_entry_Ok: "check_table_entry name table (i, e) = Ok () \<longleftrightarrow> decode_table (table ! i) = Some e"
  by (simp add: check_table_entry_def)

lemma two_errors: "(if f \<noteq> w then (if c then Err a else Err b) else Ok ()) = Ok () \<longleftrightarrow> f = w"
  by simp

lemma check_l2_dev_Ok:
  "check_l2_dev layout t = Ok () \<longleftrightarrow> (\<forall>i < 512. decode_device_block (t_l2_dev t ! i) = want_device layout i)"
  unfolding check_l2_dev_def scan_Ok TABLE_ENTRIES_def Let_def two_errors by auto

lemma want_page: "decode_page (l3_word layout leaves m) = want_leaf (frame_pa layout (of_nat m)) ADDR_4K False (leaf_at leaves m)"
  by (cases "leaf_at leaves m") (simp_all add: l3_word_def want_leaf_def page_decodes case_prod_beta)

lemma super_slot:
  assumes v: "validate layout = Ok ()" and m: "m < 512"
  shows "l2_index (super_ipa layout (of_nat m)) = (l2_index (sup_ipa_base layout) + m) mod 512"
proof -
  have "unat (sup_ipa_base layout) < 2 ^ 39" using valid_layout(4) [OF v] by (simp add: placed_def)
  then have "unat (super_ipa layout (of_nat m)) = unat (sup_ipa_base layout) + m * 2 ^ 21"
    unfolding super_addr(1) [OF v m] using unat_blocks [of m] m by (subst unat_add_exact) simp_all
  then show ?thesis unfolding index_nat by (simp only: div_add_blocks mod_add_left_eq)
qed

lemma want_block:
  assumes v: "validate layout = Ok ()" and bk: "backed layout supers" and m: "m < 512"
  shows "decode_block (l2_sup_word layout supers (l2_index (super_ipa layout (of_nat m)))) =
    want_leaf (super_pa layout (of_nat m)) ADDR_2M (sup_wx_exempt layout) (leaf_at supers m)"
proof -
  let ?b = "l2_index (sup_ipa_base layout)"
  have b: "?b < 512" by (rule index_less)
  show ?thesis
  proof (cases "?b + m < 512")
    case True
    then show ?thesis using super_slot [OF v m]
      by (cases "leaf_at supers m") (simp_all add: l2_sup_word_def Let_def want_leaf_def block_decodes case_prod_beta)
  next
    case False
    have "leaf_at supers m = None"
    proof (rule ccontr)
      assume "leaf_at supers m \<noteq> None"
      then have "m < unat (sup_span layout) div 2 ^ 21" using bk by (auto simp: leaf_at_def backed_def split: if_splits)
      from block_slot(3) [OF valid_layout(4) [OF v] this] False show False by simp
    qed
    moreover have "(?b + m) mod 512 < ?b"
    proof -
      have "(?b + m) mod 512 = ?b + m - 512" using False b m by (simp add: le_mod_geq)
      then show ?thesis using False b m by linarith
    qed
    ultimately show ?thesis using super_slot [OF v m] by (simp add: l2_sup_word_def Let_def want_leaf_def)
  qed
qed

lemma unat_and_not_mask: "unat (a AND NOT (mask n)) = unat (a :: 'a::len word) div 2 ^ n * 2 ^ n"
proof -
  have "a AND NOT (mask n) = push_bit n (drop_bit n a)"
    by (rule bit_word_eqI) (auto simp: bit_and_iff bit_not_iff bit_mask_iff bit_push_bit_iff bit_drop_bit_eq not_less)
  then have "(a AND NOT (mask n)) + take_bit n a = a" using bits_ident [of n a] by simp
  then have e: "a AND NOT (mask n) = a - take_bit n a" by (simp add: eq_diff_eq)
  have "unat (take_bit n a) = unat a mod 2 ^ n" using unat_low [of a n] by (simp only: take_bit_eq_mask)
  moreover have "take_bit n a \<le> a" unfolding word_le_nat_alt using calculation by simp
  ultimately show ?thesis unfolding e by (subst unat_sub) (simp_all add: minus_mod_eq_div_mult)
qed

lemma div_mult_bound: "n < 2 ^ 39 \<Longrightarrow> j < 512 \<Longrightarrow> n div 2 ^ 30 * 2 ^ 30 + j * 2 ^ 21 < (2 ^ 39 :: nat)"
proof -
  assume n: "n < 2 ^ 39" and j: "j < 512"
  have "n div 2 ^ 30 \<le> 511" using n by (simp add: less_mult_imp_div_less less_Suc_eq_le [symmetric])
  then show ?thesis using j by (simp add: power_numeral_even)
qed

lemma block_split: "n mod 2 ^ 21 = 0 \<Longrightarrow> n div 2 ^ 30 * 2 ^ 30 + n div 2 ^ 21 mod 512 * 2 ^ 21 = (n :: nat)"
proof -
  assume "n mod 2 ^ 21 = 0"
  then obtain x where x: "n = x * 2 ^ 21" by (metis dvd_def mod_0_imp_dvd mult.commute)
  have d: "n div 2 ^ 30 = x div 512" "n div 2 ^ 21 = x" unfolding x by simp_all
  have "x div 512 * 2 ^ 30 + x mod 512 * 2 ^ 21 = (x div 512 * 512 + x mod 512) * 2 ^ 21"
    unfolding add_mult_distrib by simp
  then show ?thesis unfolding d div_mult_mod_eq using x by simp
qed

lemma want_device_word:
  assumes v: "validate layout = Ok ()" and j: "j < 512"
  shows "decode_device_block (l2_dev_word layout j) = want_device layout j"
proof (cases "0 < device_len layout")
  case False
  then have "dev_slots layout = 0" by (simp add: dev_slots_def word_less_nat_alt)
  then show ?thesis using False by (simp add: want_device_def l2_dev_word_def Let_def not_less)
next
  case True
  let ?base = "device_base layout" and ?b = "l2_index (device_base layout)"
  define a where "a = (?base AND NOT (BLOCK_SIZE * of_nat TABLE_ENTRIES - 1)) + of_nat j * BLOCK_SIZE"
  note pl = valid_layout(6) [OF v True]
  have B: "unat ?base < 2 ^ 39" "unat ?base mod 2 ^ 21 = 0" "unat ?base + unat (device_len layout) \<le> 2 ^ 39"
    using pl by (simp_all add: placed_def)
  have giga: "BLOCK_SIZE * of_nat TABLE_ENTRIES - 1 = mask 30" by (simp add: BLOCK_SIZE_def TABLE_ENTRIES_def mask_eq_exp_minus_1)
  have ua: "unat a = unat ?base div 2 ^ 30 * 2 ^ 30 + j * 2 ^ 21"
    unfolding a_def giga using B(1) j unat_blocks [of j] by (subst unat_add_exact) (simp_all add: unat_and_not_mask)
  have al: "unat a < 2 ^ 39" unfolding ua by (rule div_mult_bound [OF B(1) j])
  have da: "unat a div 2 ^ 21 = unat ?base div 2 ^ 30 * 512 + j" unfolding ua by simp
  have ia: "l1_index a = l1_index ?base" "l2_index a = j"
    unfolding index_nat ua using j by simp_all
  have win: "a \<ge> ?base \<and> a < ?base + device_len layout \<longleftrightarrow> ?b \<le> j \<and> j < ?b + dev_slots layout"
  proof -
    have "unat (?base + device_len layout) = unat ?base + unat (device_len layout)" using B(3) by (subst unat_add_exact) simp_all
    then have "a \<ge> ?base \<and> a < ?base + device_len layout \<longleftrightarrow> within ?base (device_len layout) a"
      unfolding within_nat by (simp add: word_le_nat_alt word_less_nat_alt)
    then show ?thesis using windows_by_slot(4) [OF v al True] ia by simp
  qed
  have same: "?base + of_nat (j - ?b) * BLOCK_SIZE = a" if "?b \<le> j"
  proof -
    have "unat ?base = unat ?base div 2 ^ 30 * 2 ^ 30 + ?b * 2 ^ 21" unfolding index_nat by (rule block_split [OF B(2), symmetric])
    moreover have "(j - ?b) * 2 ^ 21 + ?b * 2 ^ 21 = j * 2 ^ 21" using that by (simp add: add_mult_distrib [symmetric])
    ultimately have "unat ?base + (j - ?b) * 2 ^ 21 = unat a" unfolding ua by linarith
    then show ?thesis using unat_blocks [of "j - ?b"] j al by (simp add: word_unat_eq_iff unat_add_exact)
  qed
  show ?thesis
    using True win same device_decodes(2) [of a] by (auto simp: want_device_def l2_dev_word_def Let_def a_def [symmetric])
qed

text \<open>Every table set the encoder writes passes the check.\<close>

lemma means_verifies:
  assumes v: "validate layout = Ok ()" and bk: "backed layout supers" and sz: "tables_sized t" and mn: "means layout leaves supers t"
  shows "verify_encoding leaves supers layout t = Ok ()"
proof -
  have w: "t_l1 t ! i = l1_word layout i" "t_l2_code t ! i = l2_code_word layout i" "t_l2_data t ! i = l2_data_word layout i"
    "t_l3_data t ! i = l3_word layout leaves i" "t_l2_sup t ! i = l2_sup_word layout supers i" "t_l2_dev t ! i = l2_dev_word layout i"
    if "i < 512" for i using mn that by (simp_all add: means_def)
  have len: "length (t_l1 t) = 512" "length (t_l2_code t) = 512" "length (t_l2_data t) = 512" using sz by (simp_all add: tables_sized_def)
  have idx: "data_l1 layout < 512" "sup_l1 layout < 512" "data_l2 layout < 512"
    by (simp_all add: data_l1_def sup_l1_def data_l2_def index_less)
  have idx': "code_l1 layout = Some i \<Longrightarrow> i < 512" "dev_l1 layout = Some i \<Longrightarrow> i < 512" "code_l2 layout = Some i \<Longrightarrow> i < 512" for i
    by (auto simp: code_l1_def dev_l1_def code_l2_def index_less split: if_splits)
  have dec: "decode_table (table_entry pa) = Some (pa AND ADDR_4K)" for pa unfolding table_entry_def by (rule decode_table_desc)
  note dist = valid_layout(9-11) [OF v]
  have "check_table_entry ''l1'' (t_l1 t) e = Ok ()" if e: "e \<in> set (l1_entries layout)" for e
  proof -
    from e consider "e = (data_l1 layout, l2_data_pa layout AND ADDR_4K)" | "e = (sup_l1 layout, l2_sup_pa layout AND ADDR_4K)"
      | i where "code_l1 layout = Some i" "e = (i, l2_code_pa layout AND ADDR_4K)"
      | i where "dev_l1 layout = Some i" "e = (i, l2_dev_pa layout AND ADDR_4K)"
      unfolding l1_entries_def by (cases "code_l1 layout"; cases "dev_l1 layout") auto
    then show ?thesis
    proof cases
      case 4
      with dist(3) [OF 4(1)] w(1) [OF idx'(2) [OF 4(1)]] show ?thesis by (simp add: check_table_entry_Ok l1_word_def dec)
    next
      case 3
      with dist(2) [OF 3(1)] w(1) [OF idx'(1) [OF 3(1)]] show ?thesis by (simp add: check_table_entry_Ok l1_word_def dec)
    qed (use w(1) [OF idx(1)] w(1) [OF idx(2)] dist(1) in \<open>simp_all add: check_table_entry_Ok l1_word_def dec\<close>)
  qed
  moreover have "i \<in> set (map fst (l1_entries layout))" if "l1_word layout i \<noteq> 0" for i
    using words_dead(1) [OF that] by (auto simp: l1_entries_def)
  ultimately have "check_l1 layout t = Ok ()"
    unfolding check_l1_def and_then_Ok scan_Ok dead_except_Ok len using w(1) by metis
  moreover have "check_image layout t = Ok ()"
  proof (cases "guest_image_pa layout")
    case None
    then show ?thesis using w(2) by (simp add: check_image_def dead_except_Ok len l2_code_word_def)
  next
    case (Some pa)
    then show ?thesis using w(2) index_less(2) [of pa]
      by (simp add: check_image_def code_l2_def dead_except_Ok len l2_code_word_def image_decodes Let_def)
  qed
  moreover have "check_l2_data layout t = Ok ()"
    using w(3) idx(3)
    by (simp add: check_l2_data_def and_then_Ok check_table_entry_Ok dead_except_Ok len l2_data_word_def dec)
  moreover have "check_l3 layout leaves t = Ok ()"
    unfolding check_l3_def scan_Ok check_leaf_Ok using w(4) want_page by (simp add: TABLE_ENTRIES_def)
  moreover have "check_l2_sup layout supers t = Ok ()"
    unfolding check_l2_sup_def scan_Ok Let_def check_leaf_Ok using w(5) [OF index_less(2)] want_block [OF v bk]
    by (simp add: TABLE_ENTRIES_def)
  moreover have "check_l2_dev layout t = Ok ()"
    unfolding check_l2_dev_Ok using w(6) want_device_word [OF v] by simp
  ultimately show ?thesis using v by (simp add: verify_encoding_def and_then_Ok)
qed

lemma checks_ignore_dev:
  "check_l1 layout (t\<lparr>t_l2_dev := d\<rparr>) = check_l1 layout t" "check_image layout (t\<lparr>t_l2_dev := d\<rparr>) = check_image layout t"
  "check_l2_data layout (t\<lparr>t_l2_dev := d\<rparr>) = check_l2_data layout t" "check_l3 layout leaves (t\<lparr>t_l2_dev := d\<rparr>) = check_l3 layout leaves t"
  "check_l2_sup layout supers (t\<lparr>t_l2_dev := d\<rparr>) = check_l2_sup layout supers t"
  by (simp_all add: check_l1_def check_image_def check_l2_data_def check_l3_def check_l2_sup_def Let_def split: option.split)

section \<open>Properties\<close>

text \<open>
  The read-back check accepts what the encoder writes. For every accepted layout, every pair of
  leaf maps whose super leaves are backed and every reusable table set, the encoder returns tables
  that \<open>verify_encoding\<close> passes: table skeleton, image block, every page and block descriptor,
  the device blocks, and no live slot it does not expect.
\<close>

theorem verify_accepts_encoding:
  assumes "validate layout = Ok ()" and "backed layout supers" and "reusable layout t"
  shows "\<exists>t'. encode leaves supers layout t = Some t' \<and> verify_encoding leaves supers layout t' = Ok ()"
proof -
  obtain t' where t': "encode leaves supers layout t = Some t'" "means layout leaves supers t'" "reusable layout t'"
    using encode_means [OF assms(1,3,2)] by blast
  then show ?thesis using means_verifies [OF assms(1,2) _ t'(2)] by (auto simp: reusable_def)
qed

theorem verify_accepts_encoding_witness:
  "\<exists>t. encode [None, Some Rx] [Some Rw] demo_layout no_tables = Some t \<and>
     verify_encoding [None, Some Rx] [Some Rw] demo_layout t = Ok ()"
  using verify_accepts_encoding [OF demo_valid demo_sides(3) demo_sides(2), of "[Some Rw]" "[None, Some Rx]"] by simp

text \<open>
  The read-back check does not see a normal-memory block in a dead slot of the device table. It
  compares what the slot decodes to as a device block, and a normal block decodes to nothing, which
  is what a dead slot should be. For every accepted layout with a device window, writing a
  read-write block for an arbitrary physical address into a slot outside the window leaves the
  check passing, while a walk of that slot's addresses reaches the block, writable, where the
  layout has a hole.
\<close>

theorem verify_misses_block:
  assumes "validate layout = Ok ()" and "backed layout supers" and "reusable layout t" and "0 < device_len layout"
    and "encode leaves supers layout t = Some t'"
    and "unat ipa < 2 ^ 39" and "l1_index ipa = l1_index (device_base layout)" and "\<not> within (device_base layout) (device_len layout) ipa"
    and "t2 = t'\<lparr>t_l2_dev := (t_l2_dev t')[l2_index ipa := pa AND ADDR_2M OR BLOCK_RW]\<rparr>"
    and "fetch_reads fetch layout t2"
  shows "verify_encoding leaves supers layout t2 = Ok () \<and> window_reach layout leaves supers ipa = None \<and>
    walk (l1_pa layout) ipa fetch =
      Some \<lparr>rc_pa = (pa AND ADDR_2M) OR (ipa AND (BLOCK_SIZE - 1)), rc_perm = Rw, rc_xn = True\<rparr>"
proof -
  note v = assms(1) and lt = assms(6)
  obtain m: "means layout leaves supers t'" and r: "reusable layout t'"
    using encode_means [OF v assms(3,2), of leaves] assms(5) by auto
  have j: "l2_index ipa < 512" by (rule index_less)
  have len: "length (t_l2_dev t') = 512" using r by (simp add: reusable_def tables_sized_def)
  have out: "l2_dev_word layout (l2_index ipa) = 0"
    using windows_by_slot(4) [OF v lt assms(4)] assms(7,8) by (auto simp: l2_dev_word_def Let_def not_le)
  have ok: "verify_encoding leaves supers layout t' = Ok ()"
    using means_verifies [OF v assms(2) _ m] r by (simp add: reusable_def)
  have "want_device layout (l2_index ipa) = None" using want_device_word [OF v j] out by simp
  moreover have "decode_device_block (pa AND ADDR_2M OR BLOCK_RW) = None" using normal_not_device [of pa Rw False] by simp
  ultimately have "check_l2_dev layout t2 = Ok ()"
    using ok j len unfolding verify_encoding_def and_then_Ok check_l2_dev_Ok assms(9) by (simp add: nth_list_update)
  then have ver: "verify_encoding leaves supers layout t2 = Ok ()"
    using ok unfolding verify_encoding_def and_then_Ok assms(9) checks_ignore_dev by blast
  have c: "dev_l1 layout = Some (l1_index ipa)" using assms(4,7) by (simp add: dev_l1_def)
  have l1: "l1_word layout (l1_index ipa) = table_entry (l2_dev_pa layout)" using valid_layout(11) [OF v c] c by (simp add: l1_word_def)
  have "fetch (l1_pa layout) (of_nat (l1_index ipa)) = table_entry (l2_dev_pa layout)"
    using assms(10) m l1 index_less(1) [of ipa] by (simp add: fetch_reads_def means_def assms(9))
  moreover have "fetch (l2_dev_pa layout) (of_nat (l2_index ipa)) = pa AND ADDR_2M OR BLOCK_RW"
    using assms(10) j len by (simp add: fetch_reads_def assms(9))
  ultimately have walked: "walk (l1_pa layout) ipa fetch =
      Some \<lparr>rc_pa = (pa AND ADDR_2M) OR (ipa AND (BLOCK_SIZE - 1)), rc_perm = Rw, rc_xn = True\<rparr>"
    using lt block_decodes [of pa Rw False] by (simp add: walk_eq entry_decodes [OF v] walk_l2_def)
  have "window_reach layout leaves supers ipa = None"
    using windows_by_slot [OF v lt] valid_layout(11) [OF v c] assms(7,8)
    by (auto simp: window_reach_def sup_span_def [symmetric] valid_layout(1) [OF v] PAGE_SIZE_mult code_l1_def split: option.split)
  with ver walked show ?thesis by blast
qed

theorem verify_misses_block_witness:
  "\<exists>t. verify_encoding [] [] demo_layout t = Ok () \<and> window_reach demo_layout [] [] 0x10000000 = None \<and>
     walk (l1_pa demo_layout) 0x10000000 (tables_fetch demo_layout t) = Some \<lparr>rc_pa = 0x40000000, rc_perm = Rw, rc_xn = True\<rparr>"
proof -
  obtain t where t: "encode [] [] demo_layout no_tables = Some t"
    using encode_means [OF demo_valid demo_sides(2) demo_sides(3) [of "[]"]] by auto
  have side: "0 < device_len demo_layout" "unat (0x10000000 :: u64) < 2 ^ 39" "l1_index 0x10000000 = l1_index (device_base demo_layout)"
    "\<not> within (device_base demo_layout) (device_len demo_layout) 0x10000000" "backed demo_layout []"
    by (simp_all add: demo_layout_def l1_index_def within_def backed_def)
  from verify_misses_block [where pa = "0x40000000", OF demo_valid side(5) demo_sides(2) side(1) t side(2-4) refl demo_sides(4)]
  show ?thesis by (simp add: ADDR_2M_def BLOCK_SIZE_def) blast
qed

end
