(* ===== verification/Stage2_Regime.thy ===== *)
theory Stage2_Regime
  imports Stage2_Walk
begin

text \<open>
  The parameters under which a walker reads a table set, \<open>hv-s2/src/arm64.rs\<close>: the \<open>VTTBR_EL2\<close>
  value, the stage-2 regime and its \<open>VTCR_EL2\<close> encoding and decoding. Register values are 64-bit
  words; reading a field of an assembled register is by the rewrite rules \<open>field_simps_w\<close>.
\<close>

section \<open>Reading fields of an assembled register\<close>

definition narrow :: "u64 \<Rightarrow> nat \<Rightarrow> bool" where
  "narrow x n \<longleftrightarrow> (\<forall>i. bit x i \<longrightarrow> i < n)"

lemma narrowI: "unat x < 2 ^ n \<Longrightarrow> narrow x n"
  unfolding narrow_def using unat_less_bit [of x n] by (meson not_le)

lemma narrow_bit: "narrow x n \<Longrightarrow> n \<le> i \<Longrightarrow> \<not> bit x i"
  unfolding narrow_def by (meson not_le)

lemma narrow_unat: "narrow x n \<Longrightarrow> unat x < 2 ^ n"
proof -
  assume "narrow x n"
  then have "take_bit n x = x" by (intro bit_word_eqI) (auto simp: narrow_def bit_take_bit_iff)
  then have "unat x = unat x mod 2 ^ n" using unat_low [of x n] by (simp only: take_bit_eq_mask)
  then show ?thesis by (metis mod_less_divisor zero_less_numeral zero_less_power)
qed

lemma field_or [field_simps_w]: "field (a OR b) s w = field a s w OR field b s w"
  by (rule bit_word_eqI) (auto simp: bit_field bit_or_iff)

lemma field_push_above [field_simps_w]: "s + w \<le> k \<Longrightarrow> field (push_bit k x) s w = 0"
  by (rule bit_word_eqI) (auto simp: bit_field bit_push_bit_iff)

lemma field_push_below: "narrow x n \<Longrightarrow> k + n \<le> s \<Longrightarrow> field (push_bit k x) s w = 0"
  by (rule bit_word_eqI) (auto simp: bit_field bit_push_bit_iff narrow_def)

lemma field_push_at: "narrow x n \<Longrightarrow> n \<le> w \<Longrightarrow> k + n \<le> 64 \<Longrightarrow> field (push_bit k x) k w = x"
  by (rule bit_word_eqI) (auto simp: bit_field bit_push_bit_iff narrow_def)

lemma field_flag:
  "\<not> (s \<le> k \<and> k < s + w) \<Longrightarrow> field (push_bit k 1) s w = 0"
  by (rule bit_word_eqI, unfold bit_field bit_one_at) auto

lemma field_masks:
  "drop_bit s v AND 1 = field v s 1" "drop_bit s v AND 3 = field v s 2" "drop_bit s v AND 7 = field v s 3"
  "drop_bit s v AND 0x3f = field v s 6" "v AND 0x3f = field v 0 6" "v AND 0xffff = field v 0 16"
  by (simp_all add: field_def)

section \<open>The table base register\<close>

datatype VmidBits = B8 | B16

fun vmid_vs :: "VmidBits \<Rightarrow> u64" where
  "vmid_vs B8 = 0"
| "vmid_vs B16 = 1"

fun vmid_count :: "VmidBits \<Rightarrow> u32" where
  "vmid_count B8 = push_bit 8 1"
| "vmid_count B16 = push_bit 16 1"

text \<open>The width the count stands for.\<close>

fun vmid_width :: "VmidBits \<Rightarrow> nat" where
  "vmid_width B8 = 8"
| "vmid_width B16 = 16"

definition vttbr :: "u64 \<Rightarrow> u64 \<Rightarrow> u64" where
  "vttbr root vmid = root OR push_bit 48 vmid"

definition vttbr_table :: "u64 \<Rightarrow> u64" where
  "vttbr_table v = v AND 0x0000ffffffffffff"

definition vttbr_vmid :: "u64 \<Rightarrow> VmidBits \<Rightarrow> u16" where
  "vttbr_vmid v bits = ucast ((ucast (drop_bit 48 v) :: u32) AND (vmid_count bits - 1))"

section \<open>The regime\<close>

datatype Granule = K4 | K16 | K64

fun page_bits :: "Granule \<Rightarrow> u32" where
  "page_bits K4 = 12"
| "page_bits K16 = 14"
| "page_bits K64 = 16"

definition level_bits :: "Granule \<Rightarrow> u32" where
  "level_bits g = page_bits g - 3"

fun tg0 :: "Granule \<Rightarrow> u64" where
  "tg0 K4 = 0"
| "tg0 K64 = 1"
| "tg0 K16 = 2"

definition from_tg0 :: "u64 \<Rightarrow> Granule option" where
  "from_tg0 v = (if v = 0 then Some K4 else if v = 1 then Some K64 else if v = 2 then Some K16 else None)"

datatype StartLevel = SL0 | SL1 | SL2 | SL3

fun level_number :: "StartLevel \<Rightarrow> u32" where
  "level_number SL0 = 0"
| "level_number SL1 = 1"
| "level_number SL2 = 2"
| "level_number SL3 = 3"

fun sl0 :: "StartLevel \<Rightarrow> u64" where
  "sl0 SL2 = 0"
| "sl0 SL1 = 1"
| "sl0 SL0 = 2"
| "sl0 SL3 = 3"

definition from_sl0 :: "u64 \<Rightarrow> StartLevel option" where
  "from_sl0 v = (if v = 0 then Some SL2 else if v = 1 then Some SL1 else if v = 2 then Some SL0
     else if v = 3 then Some SL3 else None)"

definition level_span :: "StartLevel \<Rightarrow> Granule \<Rightarrow> u32" where
  "level_span l g = page_bits g + (3 - level_number l) * level_bits g + level_bits g"

datatype PaSize = B32 | B36 | B40 | B42 | B44 | B48 | B52

fun ps :: "PaSize \<Rightarrow> u64" where
  "ps B32 = 0"
| "ps B36 = 1"
| "ps B40 = 2"
| "ps B42 = 3"
| "ps B44 = 4"
| "ps B48 = 5"
| "ps B52 = 6"

definition from_ps :: "u64 \<Rightarrow> PaSize option" where
  "from_ps v = (if v = 0 then Some B32 else if v = 1 then Some B36 else if v = 2 then Some B40 else if v = 3 then Some B42
     else if v = 4 then Some B44 else if v = 5 then Some B48 else if v = 6 then Some B52 else None)"

record Stage2Regime =
  granule :: Granule
  ipa_bits :: u32
  start_level :: StartLevel
  pa_size :: PaSize
  walk_shareability :: u64
  walk_inner :: u64
  walk_outer :: u64

definition regime_valid :: "Stage2Regime \<Rightarrow> bool" where
  "regime_valid r =
     (let span = level_span (start_level r) (granule r);
          lower = span - level_bits (granule r)
      in ipa_bits r \<le> 48 \<and> ipa_bits r > page_bits (granule r) \<and> ipa_bits r \<le> span \<and> ipa_bits r > lower \<and>
         walk_shareability r \<le> 3 \<and> walk_inner r \<le> 3 \<and> walk_outer r \<le> 3)"

definition t0sz :: "Stage2Regime \<Rightarrow> u64" where
  "t0sz r = 64 - ucast (ipa_bits r)"

text \<open>A shift by more than the width takes the amount modulo 64, as in a release build.\<close>

definition table_align :: "Stage2Regime \<Rightarrow> u64" where
  "table_align r =
     (let lower = level_span (start_level r) (granule r) - level_bits (granule r);
          entries = push_bit (unat (ipa_bits r - lower) mod 64) 1;
          size_bytes = entries * 8
      in if size_bytes < 64 then 64 else size_bytes)"

definition BALEEN_STAGE2 :: Stage2Regime where
  "BALEEN_STAGE2 = \<lparr>granule = K4, ipa_bits = 39, start_level = SL1, pa_size = B40, walk_shareability = 3,
     walk_inner = 1, walk_outer = 1\<rparr>"

definition BALEEN_VMID_BITS :: VmidBits where "BALEEN_VMID_BITS = B8"

definition VTCR_RES1 :: u64 where "VTCR_RES1 = push_bit 31 1"

definition vtcr_el2 :: "Stage2Regime \<Rightarrow> VmidBits \<Rightarrow> u64 option" where
  "vtcr_el2 r bits =
     (if \<not> regime_valid r then None
      else Some (VTCR_RES1 OR push_bit 16 (ps (pa_size r)) OR push_bit 19 (vmid_vs bits) OR push_bit 14 (tg0 (granule r)) OR
        push_bit 12 (walk_shareability r) OR push_bit 10 (walk_outer r) OR push_bit 8 (walk_inner r) OR
        push_bit 6 (sl0 (start_level r)) OR t0sz r))"

definition decode_vtcr_el2 :: "u64 \<Rightarrow> (Stage2Regime \<times> VmidBits) option" where
  "decode_vtcr_el2 v =
     (if v AND VTCR_RES1 = 0 \<or> v AND push_bit 32 1 \<noteq> 0 then None
      else
        Option.bind (from_tg0 (drop_bit 14 v AND 3)) (\<lambda>g.
        Option.bind (from_sl0 (drop_bit 6 v AND 3)) (\<lambda>l.
        Option.bind (from_ps (drop_bit 16 v AND 7)) (\<lambda>p.
          let r = \<lparr>granule = g, ipa_bits = 64 - ucast (v AND 0x3f), start_level = l, pa_size = p,
                   walk_shareability = drop_bit 12 v AND 3, walk_inner = drop_bit 8 v AND 3, walk_outer = drop_bit 10 v AND 3\<rparr>;
              bits = (if drop_bit 19 v AND 1 = 0 then B8 else B16)
          in if regime_valid r then Some (r, bits) else None))))"

section \<open>Round trips\<close>

lemma enum_narrow:
  "narrow (ps p) 3" "narrow (vmid_vs b) 1" "narrow (tg0 g) 2" "narrow (sl0 l) 2"
proof -
  show "narrow (ps p) 3" by (rule narrowI) (cases p; simp)
  show "narrow (vmid_vs b) 1" by (rule narrowI) (cases b; simp)
  show "narrow (tg0 g) 2" by (rule narrowI) (cases g; simp)
  show "narrow (sl0 l) 2" by (rule narrowI) (cases l; simp)
qed

lemma enum_back: "from_tg0 (tg0 g) = Some g" "from_sl0 (sl0 l) = Some l" "from_ps (ps p) = Some p"
  unfolding from_tg0_def from_sl0_def from_ps_def
  by ((cases g; simp), (cases l; simp), (cases p; simp))

lemma regime_bounds:
  assumes "regime_valid r"
  shows "narrow (walk_shareability r) 2" "narrow (walk_inner r) 2" "narrow (walk_outer r) 2" "narrow (t0sz r) 6"
    "64 - ucast (t0sz r) = ipa_bits r"
proof -
  have le: "walk_shareability r \<le> 3" "walk_inner r \<le> 3" "walk_outer r \<le> 3" and ipa: "ipa_bits r \<le> 48" "ipa_bits r > page_bits (granule r)"
    using assms by (simp_all add: regime_valid_def Let_def)
  show "narrow (walk_shareability r) 2" "narrow (walk_inner r) 2" "narrow (walk_outer r) 2"
    using le by (auto intro!: narrowI simp: word_le_nat_alt)
  have i: "12 < unat (ipa_bits r)" "unat (ipa_bits r) \<le> 48"
    using ipa by (cases "granule r"; simp add: word_le_nat_alt word_less_nat_alt)+
  have u: "unat (ucast (ipa_bits r) :: u64) = unat (ipa_bits r)" using i by (simp add: unsigned_ucast_eq take_bit_nat_eq_self)
  have t: "unat (t0sz r) = 64 - unat (ipa_bits r)"
    unfolding t0sz_def using i u by (subst unat_sub) (simp_all add: word_le_nat_alt)
  show "narrow (t0sz r) 6" using i t by (intro narrowI) simp
  have "unat (ucast (t0sz r) :: u32) = 64 - unat (ipa_bits r)" using i t by (simp add: unsigned_ucast_eq take_bit_nat_eq_self)
  then have "unat (64 - ucast (t0sz r) :: u32) = unat (ipa_bits r)" using i by (subst unat_sub) (simp_all add: word_le_nat_alt)
  then show "64 - ucast (t0sz r) = ipa_bits r" by (simp only: word_unat_eq_iff)
qed

lemma regime_eta:
  "\<lparr>granule = granule r, ipa_bits = ipa_bits r, start_level = start_level r, pa_size = pa_size r,
    walk_shareability = walk_shareability r, walk_inner = walk_inner r, walk_outer = walk_outer r\<rparr> = (r :: Stage2Regime)"
  by simp

lemma vtcr_roundtrip:
  assumes "vtcr_el2 r bits = Some v" shows "decode_vtcr_el2 v = Some (r, bits)"
proof -
  have ok: "regime_valid r" using assms by (auto simp: vtcr_el2_def split: if_splits)
  note n = regime_bounds(1-4) [OF ok] enum_narrow
  have v: "v = VTCR_RES1 OR push_bit 16 (ps (pa_size r)) OR push_bit 19 (vmid_vs bits) OR push_bit 14 (tg0 (granule r)) OR
        push_bit 12 (walk_shareability r) OR push_bit 10 (walk_outer r) OR push_bit 8 (walk_inner r) OR
        push_bit 6 (sl0 (start_level r)) OR push_bit 0 (t0sz r)"
    using assms ok by (simp add: vtcr_el2_def)
  have res: "field VTCR_RES1 s w = 0" if "s + w \<le> 31 \<or> 32 \<le> s" for s w
    unfolding VTCR_RES1_def by (rule field_flag) (use that in auto)
  note below = n [THEN field_push_below] and at = n [THEN field_push_at]
  have f: "field v 14 2 = tg0 (granule r)" "field v 6 2 = sl0 (start_level r)" "field v 16 3 = ps (pa_size r)"
    "field v 0 6 = t0sz r" "field v 12 2 = walk_shareability r" "field v 8 2 = walk_inner r" "field v 10 2 = walk_outer r"
    "field v 19 1 = vmid_vs bits"
    unfolding v by (simp_all only: field_or, simp_all add: field_push_above res below at del: push_bit_0_id push_bit_of_0)
  have "bit v 31" unfolding v by (simp add: bit_or_iff VTCR_RES1_def)
  moreover have "\<not> bit v 32"
    unfolding v VTCR_RES1_def bit_or_iff bit_push_bit_iff by (simp add: n [THEN narrow_bit])
  ultimately have "v AND VTCR_RES1 \<noteq> 0" "\<not> v AND push_bit 32 1 \<noteq> 0"
    using and_single_bit [of 31 v] and_single_bit [of 32 v] unfolding VTCR_RES1_def by simp_all
  then show ?thesis
    using ok regime_bounds(5) [OF ok] unfolding decode_vtcr_el2_def field_masks f enum_back by (cases bits) (simp_all add: Let_def regime_eta)
qed

lemma vttbr_fields:
  assumes "unat root < 2 ^ 48"
  shows "vttbr_table (vttbr root vmid) = root" "vttbr_vmid (vttbr root vmid) bits = take_bit (vmid_width bits) (ucast vmid)"
proof -
  have m: "(0x0000ffffffffffff :: u64) = mask 48" by (simp add: mask_eq_exp_minus_1)
  have off: "48 \<le> n \<Longrightarrow> \<not> bit root n" for n using unat_less_bit [OF assms] by blast
  show "vttbr_table (vttbr root vmid) = root"
    unfolding vttbr_table_def vttbr_def m using off
    by (intro bit_word_eqI) (auto simp: bit_and_iff bit_or_iff bit_mask_iff bit_push_bit_iff; meson not_le)
  have c: "vmid_count bits - 1 = mask (vmid_width bits)" by (cases bits) (simp_all add: mask_eq_exp_minus_1)
  have w: "vmid_width bits \<le> 16" by (cases bits) simp_all
  show "vttbr_vmid (vttbr root vmid) bits = take_bit (vmid_width bits) (ucast vmid)"
    unfolding vttbr_vmid_def vttbr_def c using off w
    by (intro bit_word_eqI) (auto simp: bit_and_iff bit_or_iff bit_mask_iff bit_push_bit_iff bit_ucast_iff bit_drop_bit_eq bit_take_bit_iff)
qed

lemma vtcr_refused: "vtcr_el2 r bits = None \<longleftrightarrow> \<not> regime_valid r"
  by (simp add: vtcr_el2_def)

lemma baleen_regime: "regime_valid BALEEN_STAGE2" "vtcr_el2 BALEEN_STAGE2 BALEEN_VMID_BITS = Some 0x80023559" "table_align BALEEN_STAGE2 = 4096"
proof -
  show v: "regime_valid BALEEN_STAGE2"
    by (simp add: regime_valid_def BALEEN_STAGE2_def level_span_def level_bits_def Let_def)
  then show "vtcr_el2 BALEEN_STAGE2 BALEEN_VMID_BITS = Some 0x80023559"
    by (simp add: vtcr_el2_def BALEEN_STAGE2_def BALEEN_VMID_BITS_def VTCR_RES1_def t0sz_def)
  show "table_align BALEEN_STAGE2 = 4096"
    by (simp add: table_align_def BALEEN_STAGE2_def level_span_def level_bits_def Let_def)
qed

section \<open>Properties\<close>

text \<open>
  The CPU's registers carry the regime and the table. \<open>vtcr_el2\<close> refuses exactly a regime that
  no walker can be configured with, and otherwise \<open>decode_vtcr_el2\<close> gives back the regime and the
  VMID width; the deployed regime encodes to \<open>0x80023559\<close>, and its table alignment is one page; a
  table below \<open>2\<^sup>4\<^sup>8\<close> is read back from \<open>VTTBR_EL2\<close> unchanged, and the VMID cut to the width in use.
\<close>

theorem regime_roundtrip:
  assumes "unat root < 2 ^ 48"
  shows "(vtcr_el2 r bits = None \<longleftrightarrow> \<not> regime_valid r) \<and>
    (regime_valid r \<longrightarrow> Option.bind (vtcr_el2 r bits) decode_vtcr_el2 = Some (r, bits)) \<and>
    vtcr_el2 BALEEN_STAGE2 BALEEN_VMID_BITS = Some 0x80023559 \<and> table_align BALEEN_STAGE2 = PAGE_SIZE \<and>
    vttbr_table (vttbr root vmid) = root \<and> vttbr_vmid (vttbr root vmid) bits = take_bit (vmid_width bits) (ucast vmid)"
  using vtcr_refused [of r bits] vtcr_roundtrip [of r bits] baleen_regime vttbr_fields [OF assms]
  by (auto simp: PAGE_SIZE_def BLOCK_SIZE_def TABLE_ENTRIES_def)

theorem regime_roundtrip_witness:
  "vttbr_table (vttbr 0x40010000 7) = 0x40010000 \<and> vttbr_vmid (vttbr 0x40010000 0x107) B8 = 7 \<and>
   decode_vtcr_el2 0x80023559 = Some (BALEEN_STAGE2, B8)"
proof -
  have b: "unat (0x40010000 :: u64) < 2 ^ 48" by simp
  have "Option.bind (vtcr_el2 BALEEN_STAGE2 B8) decode_vtcr_el2 = Some (BALEEN_STAGE2, B8)"
    using regime_roundtrip [OF b, of BALEEN_STAGE2 B8] baleen_regime(1) by blast
  moreover have "vtcr_el2 BALEEN_STAGE2 B8 = Some 0x80023559" using baleen_regime(2) by (simp add: BALEEN_VMID_BITS_def)
  ultimately show ?thesis
    using regime_roundtrip [OF b, of BALEEN_STAGE2 B8 "0x107"] regime_roundtrip [OF b, of BALEEN_STAGE2 B8 7] by simp
qed

end
