(* ===== verification/Smmu.thy ===== *)
theory Smmu
  imports Stage2_Regime Device
begin

text \<open>
  The stream table of the SMMU, \<open>hv-s2/src/smmu.rs\<close>: stream-table entries and how they are read,
  binding a stream to a domain's tables, and the derivation of the whole table from the device
  assignment of the core. Words are 64-bit, StreamIDs and indices natural numbers. The lemmas show
  that an entry carries its binding exactly, that binding one stream leaves the others alone, and
  that the derived table is the assignment relation, or denies everything.
\<close>

section \<open>Entries\<close>

definition STE_WORDS :: nat where "STE_WORDS = 8"
definition STE_BYTES :: nat where "STE_BYTES = STE_WORDS * 8"
definition STE_V :: u64 where "STE_V = push_bit 0 1"
definition STE_CONFIG_MASK :: u64 where "STE_CONFIG_MASK = 7"
definition CONFIG_NOT_ABORT :: u8 where "CONFIG_NOT_ABORT = 4"
definition CONFIG_BYPASS :: u8 where "CONFIG_BYPASS = 4"
definition CONFIG_S1 :: u8 where "CONFIG_S1 = 5"
definition CONFIG_S2 :: u8 where "CONFIG_S2 = 6"
definition CONFIG_NESTED :: u8 where "CONFIG_NESTED = 7"
definition STE_SHCFG_INCOMING :: u64 where "STE_SHCFG_INCOMING = push_bit 44 1"
definition STRTAB_BASE_ADDR_MASK :: u64 where "STRTAB_BASE_ADDR_MASK = 0x000fffffffffffc0"
definition STRTAB_CFG_LOG2SIZE_MASK :: u32 where "STRTAB_CFG_LOG2SIZE_MASK = 0x3f"
definition STRTAB_CFG_FMT_LINEAR :: u32 where "STRTAB_CFG_FMT_LINEAR = push_bit 16 0"
definition BUS0_LOG2SIZE :: nat where "BUS0_LOG2SIZE = 8"
definition MAX_LOG2SIZE :: nat where "MAX_LOG2SIZE = 16"

datatype StreamVerdict = SidOutOfRange | InvalidSte | ConfigAbort | Bypass | Stage1Only | Stage2Only | Nested

fun permits :: "StreamVerdict \<Rightarrow> bool" where
  "permits SidOutOfRange = False"
| "permits InvalidSte = False"
| "permits ConfigAbort = False"
| "permits Bypass = True"
| "permits Stage1Only = True"
| "permits Stage2Only = True"
| "permits Nested = True"

fun stage2_unconfined :: "StreamVerdict \<Rightarrow> bool" where
  "stage2_unconfined Bypass = True"
| "stage2_unconfined Stage1Only = True"
| "stage2_unconfined _ = False"

definition table_words :: "nat \<Rightarrow> nat option" where
  "table_words log2size = (if log2size > MAX_LOG2SIZE then None else Some (2 ^ log2size * STE_WORDS))"

definition base_alignment :: "nat \<Rightarrow> nat option" where
  "base_alignment log2size =
     (case table_words log2size of
        Some words \<Rightarrow> (let bytes = words * 8 in Some (if bytes > STE_BYTES then bytes else STE_BYTES))
      | None \<Rightarrow> None)"

definition strtab_base :: "u64 \<Rightarrow> u64" where
  "strtab_base pa = pa AND STRTAB_BASE_ADDR_MASK"

definition strtab_base_cfg :: "u32 \<Rightarrow> u32 option" where
  "strtab_base_cfg log2size =
     (if log2size > of_nat MAX_LOG2SIZE then None
      else Some (STRTAB_CFG_FMT_LINEAR OR (log2size AND STRTAB_CFG_LOG2SIZE_MASK)))"

definition deny_ste :: "u64 list" where "deny_ste = replicate STE_WORDS 0"

definition bypass_ste :: "u64 list" where
  "bypass_ste = (replicate STE_WORDS 0)[0 := STE_V OR push_bit 1 (ucast CONFIG_BYPASS), 1 := STE_SHCFG_INCOMING]"

definition ste_decode :: "u64 \<Rightarrow> StreamVerdict" where
  "ste_decode word0 =
     (if word0 AND STE_V = 0 then InvalidSte
      else
        (let config = ucast (drop_bit 1 word0 AND STE_CONFIG_MASK) :: u8 in
         if config AND CONFIG_NOT_ABORT = 0 then ConfigAbort
         else if config = CONFIG_BYPASS then Bypass
         else if config = CONFIG_S1 then Stage1Only
         else if config = CONFIG_S2 then Stage2Only
         else if config = CONFIG_NESTED then Nested
         else ConfigAbort))"

section \<open>The stream table\<close>

definition entry_offset :: "nat \<Rightarrow> nat \<Rightarrow> nat \<Rightarrow> nat option" where
  "entry_offset words_len log2size sid =
     (case table_words log2size of
        None \<Rightarrow> None
      | Some needed \<Rightarrow>
          if words_len < needed then None
          else if sid \<ge> 2 ^ log2size then None
          else Some (sid * STE_WORDS))"

definition verdict :: "u64 list \<Rightarrow> nat \<Rightarrow> nat \<Rightarrow> StreamVerdict" where
  "verdict words log2size sid =
     (case entry_offset (length words) log2size sid of None \<Rightarrow> SidOutOfRange | Some off \<Rightarrow> ste_decode (words ! off))"

definition init_deny :: "u64 list \<Rightarrow> u64 list" where
  "init_deny words = replicate (length words) 0"

datatype SteError = BadRegime | SteGranuleNotEmitted | UnalignedTable | TableAddressTooLarge

datatype StreamTableError = BindSidOutOfRange | TableTooSmall | BadBinding SteError

definition ste_bind :: "u64 list \<Rightarrow> nat \<Rightarrow> nat \<Rightarrow> u64 list \<Rightarrow> (unit, StreamTableError) result \<times> u64 list" where
  "ste_bind words log2size sid ste =
     (if (case table_words log2size of Some needed \<Rightarrow> length words \<ge> needed | None \<Rightarrow> False)
      then (case entry_offset (length words) log2size sid of
              None \<Rightarrow> (Err BindSidOutOfRange, words)
            | Some off \<Rightarrow> (Ok (), take off words @ ste @ drop (off + STE_WORDS) words))
      else (Err TableTooSmall, words))"

definition ste_unbind :: "u64 list \<Rightarrow> nat \<Rightarrow> nat \<Rightarrow> (unit, StreamTableError) result \<times> u64 list" where
  "ste_unbind words log2size sid = ste_bind words log2size sid deny_ste"

definition denies_every_stream :: "u64 list \<Rightarrow> nat \<Rightarrow> bool" where
  "denies_every_stream words log2size =
     (case table_words log2size of
        None \<Rightarrow> False
      | Some needed \<Rightarrow>
          if length words < needed then False
          else list_all (\<lambda>sid. \<not> permits (verdict words log2size sid)) [0..<2 ^ log2size])"

definition permitted_stream_count :: "u64 list \<Rightarrow> nat \<Rightarrow> nat" where
  "permitted_stream_count words log2size =
     (case table_words log2size of
        None \<Rightarrow> 0
      | Some needed \<Rightarrow>
          if length words < needed then 0
          else length (filter (\<lambda>sid. permits (verdict words log2size sid)) [0..<2 ^ log2size]))"

section \<open>Stage-2 bindings\<close>

definition STE2_S2VMID_MASK :: u64 where "STE2_S2VMID_MASK = 0xffff"
definition STE2_S2AA64 :: u64 where "STE2_S2AA64 = push_bit 51 1"
definition STE2_S2PTW :: u64 where "STE2_S2PTW = push_bit 54 1"
definition STE2_S2R :: u64 where "STE2_S2R = push_bit 58 1"
definition STE3_S2TTB_MASK :: u64 where "STE3_S2TTB_MASK = 0x000ffffffffffff0"

record Stage2Binding =
  s2ttb :: u64
  b_vmid :: u16
  b_regime :: Stage2Regime

definition ste_word2 :: "Stage2Binding \<Rightarrow> u64" where
  "ste_word2 b =
     (ucast (b_vmid b) AND STE2_S2VMID_MASK) OR push_bit 32 (t0sz (b_regime b)) OR push_bit 38 (sl0 (start_level (b_regime b))) OR
     push_bit 40 (walk_inner (b_regime b)) OR push_bit 42 (walk_outer (b_regime b)) OR
     push_bit 44 (walk_shareability (b_regime b)) OR push_bit 46 0 OR push_bit 48 (ps (pa_size (b_regime b))) OR
     STE2_S2AA64 OR STE2_S2PTW OR STE2_S2R"

definition stage2_ste :: "Stage2Binding \<Rightarrow> (u64 list, SteError) result" where
  "stage2_ste b =
     (if \<not> regime_valid (b_regime b) then Err BadRegime
      else if granule (b_regime b) \<noteq> K4 then Err SteGranuleNotEmitted
      else if drop_bit 52 (s2ttb b) \<noteq> 0 then Err TableAddressTooLarge
      else if s2ttb b mod table_align (b_regime b) \<noteq> 0 then Err UnalignedTable
      else Ok ((replicate STE_WORDS 0)[0 := STE_V OR push_bit 1 (ucast CONFIG_S2), 1 := STE_SHCFG_INCOMING,
                 2 := ste_word2 b, 3 := s2ttb b AND STE3_S2TTB_MASK]))"

definition decode_stage2_binding :: "u64 list \<Rightarrow> Stage2Binding option" where
  "decode_stage2_binding ste =
     (if length ste < STE_WORDS then None
      else if ste_decode (ste ! 0) \<noteq> Stage2Only then None
      else
        (let w2 = ste ! 2 in
         if w2 AND STE2_S2AA64 = 0 then None
         else if drop_bit 46 w2 AND 3 \<noteq> 0 then None
         else
           Option.bind (from_sl0 (drop_bit 38 w2 AND 3)) (\<lambda>l.
           Option.bind (from_ps (drop_bit 48 w2 AND 7)) (\<lambda>p.
             let r = \<lparr>granule = K4, ipa_bits = 64 - ucast (drop_bit 32 w2 AND 0x3f), start_level = l, pa_size = p,
                      walk_shareability = drop_bit 44 w2 AND 3, walk_inner = drop_bit 40 w2 AND 3, walk_outer = drop_bit 42 w2 AND 3\<rparr>
             in if \<not> regime_valid r then None
                else Some \<lparr>s2ttb = ste ! 3 AND STE3_S2TTB_MASK, b_vmid = ucast (w2 AND STE2_S2VMID_MASK), b_regime = r\<rparr>))))"

definition stage2_binding_at :: "u64 list \<Rightarrow> nat \<Rightarrow> nat \<Rightarrow> Stage2Binding option" where
  "stage2_binding_at words log2size sid =
     Option.bind (entry_offset (length words) log2size sid) (\<lambda>off. decode_stage2_binding (take STE_WORDS (drop off words)))"

definition bind_stage2 :: "u64 list \<Rightarrow> nat \<Rightarrow> nat \<Rightarrow> Stage2Binding \<Rightarrow> (unit, StreamTableError) result \<times> u64 list" where
  "bind_stage2 words log2size sid b =
     propagate (map_ok_err id BadBinding (stage2_ste b)) words (\<lambda>ste. ste_bind words log2size sid ste)"

section \<open>The derivation from the device assignment\<close>

datatype DeriveError =
    StreamMapTooShort
  | BindingMapTooShort
  | StreamAliased DevId DevId
  | NoBinding DomId
  | DeriveSidOutOfRange nat
  | Unencodable SteError
  | DeriveTableTooSmall

definition holder_of_stream :: "DeviceSystem \<Rightarrow> nat list \<Rightarrow> nat \<Rightarrow> DomId option" where
  "holder_of_stream devices stream_of sid =
     (case find (\<lambda>dev. vec_get stream_of dev = Some sid) [0..<dv_device_count devices] of
        Some dev \<Rightarrow> dv_holder_of devices (as_u16 dev)
      | None \<Rightarrow> None)"

definition intended_binding :: "DeviceSystem \<Rightarrow> nat list \<Rightarrow> Stage2Binding option list \<Rightarrow> nat \<Rightarrow> Stage2Binding option" where
  "intended_binding devices stream_of binding_of sid =
     Option.bind (holder_of_stream devices stream_of sid) (\<lambda>holder. Option.bind (vec_get binding_of holder) id)"

definition first_alias :: "nat list \<Rightarrow> nat \<Rightarrow> (nat \<times> nat) option" where
  "first_alias stream_of ndev =
     find (\<lambda>(a, b). stream_of ! a = stream_of ! b) (concat (map (\<lambda>a. map (\<lambda>b. (a, b)) [a + 1..<ndev]) [0..<ndev]))"

fun derive_error :: "nat \<Rightarrow> StreamTableError \<Rightarrow> DeriveError" where
  "derive_error sid (BadBinding e) = Unencodable e"
| "derive_error sid BindSidOutOfRange = DeriveSidOutOfRange sid"
| "derive_error sid TableTooSmall = DeriveTableTooSmall"

fun bind_devices ::
  "nat \<Rightarrow> DeviceSystem \<Rightarrow> nat list \<Rightarrow> Stage2Binding option list \<Rightarrow> nat list \<Rightarrow> u64 list \<Rightarrow> (unit, DeriveError) result \<times> u64 list" where
  "bind_devices log2size devices stream_of binding_of [] words = (Ok (), words)"
| "bind_devices log2size devices stream_of binding_of (dev # devs) words =
     (case dv_holder_of devices (as_u16 dev) of
        None \<Rightarrow> bind_devices log2size devices stream_of binding_of devs words
      | Some holder \<Rightarrow>
          (case vec_get binding_of holder of
             None \<Rightarrow> (Panic, words)
           | Some None \<Rightarrow> (Err (NoBinding holder), init_deny words)
           | Some (Some binding) \<Rightarrow>
               (case bind_stage2 words log2size (stream_of ! dev) binding of
                  (Ok _, words') \<Rightarrow> bind_devices log2size devices stream_of binding_of devs words'
                | (Err e, words') \<Rightarrow> (Err (derive_error (stream_of ! dev) e), init_deny words')
                | (Panic, words') \<Rightarrow> (Panic, words'))))"

definition derive_stream_table ::
  "u64 list \<Rightarrow> nat \<Rightarrow> DeviceSystem \<Rightarrow> nat list \<Rightarrow> Stage2Binding option list \<Rightarrow> (unit, DeriveError) result \<times> u64 list" where
  "derive_stream_table words log2size devices stream_of binding_of =
     (let words0 = init_deny words; ndev = dv_device_count devices in
      if \<not> (case table_words log2size of Some needed \<Rightarrow> length words0 \<ge> needed | None \<Rightarrow> False) then (Err DeriveTableTooSmall, words0)
      else if length stream_of < ndev then (Err StreamMapTooShort, words0)
      else if length binding_of < dv_domain_count devices then (Err BindingMapTooShort, words0)
      else (case first_alias stream_of ndev of
              Some (a, b) \<Rightarrow> (Err (StreamAliased (as_u16 a) (as_u16 b)), init_deny words0)
            | None \<Rightarrow> bind_devices log2size devices stream_of binding_of [0..<ndev] words0))"

definition table_refines_the_relation ::
  "u64 list \<Rightarrow> nat \<Rightarrow> DeviceSystem \<Rightarrow> nat list \<Rightarrow> Stage2Binding option list \<Rightarrow> bool" where
  "table_refines_the_relation words log2size devices stream_of binding_of =
     (case table_words log2size of
        None \<Rightarrow> False
      | Some needed \<Rightarrow>
          if length words < needed then False
          else list_all (\<lambda>sid.
                 let want = intended_binding devices stream_of binding_of sid in
                 stage2_binding_at words log2size sid = want \<and> permits (verdict words log2size sid) = (want \<noteq> None))
               [0..<2 ^ log2size])"

section \<open>Handles and the device's view\<close>

datatype HandleError = HandleSte SteError | VttbrNarrowerThanSte u64

record Stage2Handles =
  h_vttbr :: u64
  h_binding :: Stage2Binding

definition stage2_handles :: "Layout \<Rightarrow> u64 \<Rightarrow> (Stage2Handles, HandleError) result" where
  "stage2_handles layout vmid =
     (if l1_pa layout \<ge> MAX_TABLE_PA then Err (VttbrNarrowerThanSte (l1_pa layout))
      else
        (let v = vttbr (l1_pa layout) vmid;
             binding = \<lparr>s2ttb = l1_pa layout, b_vmid = vttbr_vmid v BALEEN_VMID_BITS, b_regime = BALEEN_STAGE2\<rparr>
         in case stage2_ste binding of
              Err e \<Rightarrow> Err (HandleSte e)
            | Panic \<Rightarrow> Panic
            | Ok _ \<Rightarrow> Ok \<lparr>h_vttbr = v, h_binding = binding\<rparr>))"

definition device_reach :: "u64 list \<Rightarrow> nat \<Rightarrow> nat \<Rightarrow> u64 \<Rightarrow> (u64 \<Rightarrow> u64 \<Rightarrow> u64) \<Rightarrow> Reach option" where
  "device_reach words log2size sid ipa fetch =
     Option.bind (stage2_binding_at words log2size sid) (\<lambda>binding. walk (s2ttb binding) ipa fetch)"

section \<open>An entry carries its binding\<close>

lemma align_64:
  assumes "regime_valid r" "granule r = K4" shows "64 dvd unat (table_align r)" "unat (table_align r) \<noteq> 0"
proof -
  define lower where "lower = level_span (start_level r) (granule r) - level_bits (granule r)"
  have sp: "level_span (start_level r) (granule r) = lower + 9" by (simp add: lower_def level_bits_def assms(2))
  have lo: "unat lower \<le> 39" unfolding lower_def assms(2) level_span_def level_bits_def by (cases "start_level r") simp_all
  have "lower < ipa_bits r" "ipa_bits r \<le> lower + 9" using assms(1) unfolding regime_valid_def Let_def lower_def [symmetric] sp by (auto simp: level_bits_def assms(2))
  then have n: "unat (ipa_bits r - lower) = unat (ipa_bits r) - unat lower" "unat (ipa_bits r) - unat lower \<le> 9"
    using lo unat_add_exact [of lower 9] by (auto simp: unat_sub word_less_nat_alt word_le_nat_alt)
  obtain k where k: "unat (ipa_bits r - lower) = k" "k \<le> 9" using n by auto
  have ta: "table_align r = (if push_bit (k mod 64) 1 * 8 < (64 :: u64) then 64 else push_bit (k mod 64) 1 * 8)"
    unfolding table_align_def lower_def [symmetric] Let_def k(1) ..
  have "k \<in> {0, 1, 2, 3, 4, 5, 6, 7, 8, 9}" using k(2) by auto
  then show "64 dvd unat (table_align r)" "unat (table_align r) \<noteq> 0" unfolding ta by auto
qed

lemma ttb_id:
  assumes "regime_valid r" "granule r = K4" "drop_bit 52 a = 0" "a mod table_align r = 0"
  shows "a AND STE3_S2TTB_MASK = a"
proof -
  have m: "STE3_S2TTB_MASK = push_bit 4 (mask 48)" by (simp add: STE3_S2TTB_MASK_def mask_eq_exp_minus_1)
  have "unat a mod unat (table_align r) = 0" using assms(4) by (simp only: word_unat_eq_iff unat_mod unsigned_0)
  then have "64 dvd unat a" using align_64(1) [OF assms(1,2)] by (meson dvd_trans mod_eq_0_iff_dvd)
  then have "(16 :: nat) dvd unat a" by (rule dvd_trans [rotated]) simp
  moreover have "unat a div 2 ^ 52 = 0" using assms(3) by (simp only: unat_drop [symmetric] unsigned_0)
  ultimately show ?thesis unfolding m by (intro and_field_id) (simp_all add: div_eq_0_iff mod_eq_0_iff_dvd)
qed

lemma stage2_ste_Ok:
  assumes "stage2_ste b = Ok ste"
  shows "length ste = 8" "ste_decode (ste ! 0) = Stage2Only" "decode_stage2_binding ste = Some b"
proof -
  let ?r = "b_regime b"
  from assms have ok: "regime_valid ?r" and g: "granule ?r = K4" and hi: "drop_bit 52 (s2ttb b) = 0" and al: "s2ttb b mod table_align ?r = 0"
    and ste: "ste = (replicate STE_WORDS 0)[0 := STE_V OR push_bit 1 (ucast CONFIG_S2), 1 := STE_SHCFG_INCOMING,
                 2 := ste_word2 b, 3 := s2ttb b AND STE3_S2TTB_MASK]"
    by (auto simp: stage2_ste_def split: if_splits)
  show len: "length ste = 8" by (simp add: ste STE_WORDS_def)
  have at: "ste ! 0 = STE_V OR push_bit 1 (ucast CONFIG_S2)" "ste ! 2 = ste_word2 b" "ste ! 3 = s2ttb b"
    using ttb_id [OF ok g hi al] by (simp_all add: ste STE_WORDS_def)
  show d: "ste_decode (ste ! 0) = Stage2Only"
    unfolding at by (simp add: ste_decode_def STE_V_def STE_CONFIG_MASK_def CONFIG_S2_def CONFIG_NOT_ABORT_def CONFIG_BYPASS_def CONFIG_S1_def Let_def)
  have vn: "narrow (ucast (b_vmid b)) 16" using unsigned_less [of "b_vmid b", where ?'a = nat]
    by (intro narrowI) (simp add: unsigned_ucast_eq take_bit_nat_eq_self)
  note n = regime_bounds(1-4) [OF ok] enum_narrow(1,4) vn
  note below = n [THEN field_push_below] and at' = n [THEN field_push_at]
  have flags: "field STE2_S2AA64 s w = 0" "field STE2_S2PTW s w = 0" "field STE2_S2R s w = 0" if "s + w \<le> 51" for s w
    unfolding STE2_S2AA64_def STE2_S2PTW_def STE2_S2R_def by (rule field_flag; use that in auto)+
  have w2: "ste_word2 b = push_bit 0 (ucast (b_vmid b)) OR push_bit 32 (t0sz ?r) OR push_bit 38 (sl0 (start_level ?r)) OR
     push_bit 40 (walk_inner ?r) OR push_bit 42 (walk_outer ?r) OR push_bit 44 (walk_shareability ?r) OR
     push_bit 48 (ps (pa_size ?r)) OR STE2_S2AA64 OR STE2_S2PTW OR STE2_S2R"
    unfolding ste_word2_def STE2_S2VMID_MASK_def field_masks(6)
    using field_push_at [OF vn, of 16 0] by simp
  have f: "field (ste_word2 b) 0 16 = ucast (b_vmid b)" "field (ste_word2 b) 32 6 = t0sz ?r" "field (ste_word2 b) 38 2 = sl0 (start_level ?r)"
    "field (ste_word2 b) 40 2 = walk_inner ?r" "field (ste_word2 b) 42 2 = walk_outer ?r" "field (ste_word2 b) 44 2 = walk_shareability ?r"
    "field (ste_word2 b) 46 2 = 0" "field (ste_word2 b) 48 3 = ps (pa_size ?r)"
    unfolding w2 by (simp_all only: field_or, simp_all add: field_push_above flags below at' del: push_bit_0_id push_bit_of_0)
  have "bit (ste_word2 b) 51" unfolding w2 by (simp add: bit_or_iff STE2_S2AA64_def)
  then have aa: "ste_word2 b AND STE2_S2AA64 \<noteq> 0" using and_single_bit [of 51 "ste_word2 b"] unfolding STE2_S2AA64_def by simp
  have vb: "ucast (ucast (b_vmid b) :: u64) = b_vmid b" by (rule bit_word_eqI) (simp add: bit_ucast_iff)
  have r: "\<lparr>granule = K4, ipa_bits = ipa_bits ?r, start_level = start_level ?r, pa_size = pa_size ?r,
      walk_shareability = walk_shareability ?r, walk_inner = walk_inner ?r, walk_outer = walk_outer ?r\<rparr> = ?r" using g by simp
  show "decode_stage2_binding ste = Some b"
    unfolding decode_stage2_binding_def d at(2,3) Let_def STE2_S2VMID_MASK_def field_masks(2,3,4,6) f enum_back
    using len aa ttb_id [OF ok g hi al] ok regime_bounds(5) [OF ok] by (simp add: STE_WORDS_def r vb)
qed

section \<open>Entries of a table\<close>

text \<open>Storage that is large enough for the size it claims, and the entry of a stream in it.\<close>

definition sized :: "nat \<Rightarrow> u64 list \<Rightarrow> bool" where
  "sized log2size words \<longleftrightarrow> log2size \<le> MAX_LOG2SIZE \<and> 2 ^ log2size * 8 \<le> length words"

definition entry_of :: "u64 list \<Rightarrow> nat \<Rightarrow> u64 list" where
  "entry_of words sid = take 8 (drop (sid * 8) words)"

lemma sized_iff: "(case table_words l of Some needed \<Rightarrow> length words \<ge> needed | None \<Rightarrow> False) \<longleftrightarrow> sized l words"
  by (auto simp: table_words_def sized_def STE_WORDS_def)

lemma sized_table: "sized l words \<Longrightarrow> table_words l = Some (2 ^ l * 8)"
  by (simp add: table_words_def sized_def STE_WORDS_def)

lemma entry_offset_sized:
  "entry_offset (length words) l sid = (if sized l words \<and> sid < 2 ^ l then Some (sid * 8) else None)"
  by (auto simp: entry_offset_def table_words_def sized_def STE_WORDS_def)

lemma entry_fits:
  assumes "sized l words" "sid < 2 ^ l" shows "sid * 8 + 8 \<le> length words"
proof -
  have "sid * 8 + 8 \<le> 2 ^ l * 8" using assms(2) by linarith
  then show ?thesis using assms(1) by (simp add: sized_def)
qed

lemma entry_reads:
  "stage2_binding_at words l sid = (if sized l words \<and> sid < 2 ^ l then decode_stage2_binding (entry_of words sid) else None)"
  "verdict words l sid = (if sized l words \<and> sid < 2 ^ l then ste_decode (entry_of words sid ! 0) else SidOutOfRange)"
  using entry_fits [of l words sid]
  by (auto simp: stage2_binding_at_def verdict_def entry_offset_sized entry_of_def STE_WORDS_def)

lemma entry_splice:
  assumes "length ste = 8" "sid * 8 + 8 \<le> length words"
  shows "entry_of (take (sid * 8) words @ ste @ drop (sid * 8 + 8) words) sid' = (if sid' = sid then ste else entry_of words sid')"
proof -
  consider "sid' = sid" | "sid' < sid" | "sid < sid'" by linarith
  then show ?thesis
  proof cases
    case 1
    then show ?thesis using assms by (simp add: entry_of_def)
  next
    case 2
    then have "sid' * 8 + 8 \<le> sid * 8" by linarith
    then show ?thesis using 2 assms by (simp add: entry_of_def take_drop min_def)
  next
    case 3
    then have "sid' * 8 = (sid * 8 + 8) + (sid' * 8 - (sid * 8 + 8))" by linarith
    then obtain k where k: "sid' * 8 = (sid * 8 + 8) + k" by blast
    show ?thesis using 3 assms unfolding entry_of_def k by (simp add: min_def add.commute)
  qed
qed

lemma ste_bind_sized:
  assumes "sized l words"
  shows "ste_bind words l sid ste =
    (if sid < 2 ^ l then (Ok (), take (sid * 8) words @ ste @ drop (sid * 8 + 8) words) else (Err BindSidOutOfRange, words))"
  using assms by (simp add: ste_bind_def sized_iff entry_offset_sized STE_WORDS_def)

lemma ste_bind_entries:
  assumes "sized l words" "length ste = 8" "ste_bind words l sid ste = (Ok u, words')"
  shows "sid < 2 ^ l" "length words' = length words" "sized l words'"
    "entry_of words' sid' = (if sid' = sid then ste else entry_of words sid')"
proof -
  from assms(1,3) show r: "sid < 2 ^ l" by (simp add: ste_bind_sized split: if_splits)
  note fit = entry_fits [OF assms(1) r]
  from assms(1,3) r have w: "words' = take (sid * 8) words @ ste @ drop (sid * 8 + 8) words" by (simp add: ste_bind_sized)
  show len: "length words' = length words" using fit assms(2) by (simp add: w)
  then show "sized l words'" using assms(1) by (simp add: sized_def)
  show "entry_of words' sid' = (if sid' = sid then ste else entry_of words sid')" unfolding w by (rule entry_splice [OF assms(2) fit])
qed

lemma ste_not_panic: "stage2_ste b \<noteq> Panic"
  by (simp add: stage2_ste_def)

lemma bind_stage2_cases:
  assumes "sized l words"
  obtains (refused) e where "bind_stage2 words l sid b = (Err e, words)"
  | (bound) ste words' where "bind_stage2 words l sid b = (Ok (), words')" "stage2_ste b = Ok ste" "sid < 2 ^ l"
      "length words' = length words" "sized l words'"
      "\<And>sid'. entry_of words' sid' = (if sid' = sid then ste else entry_of words sid')"
proof (cases "stage2_ste b")
  case (Ok ste)
  show thesis
  proof (cases "sid < 2 ^ l")
    case True
    then have "ste_bind words l sid ste = (Ok (), take (sid * 8) words @ ste @ drop (sid * 8 + 8) words)"
      by (simp add: ste_bind_sized [OF assms])
    note facts = this ste_bind_entries [OF assms stage2_ste_Ok(1) [OF Ok] this]
    then show thesis using Ok by (intro bound [OF _ Ok facts(2-5)]) (simp_all add: bind_stage2_def)
  next
    case False
    then show thesis using Ok by (intro refused) (simp add: bind_stage2_def ste_bind_sized [OF assms])
  qed
next
  case (Err e)
  then show thesis by (intro refused) (simp add: bind_stage2_def)
next
  case Panic
  then show thesis using ste_not_panic by blast
qed

text \<open>A table of zeros denies every stream.\<close>

lemma entry_deny: "sized l words \<Longrightarrow> sid < 2 ^ l \<Longrightarrow> entry_of (init_deny words) sid = replicate 8 0"
  using entry_fits [of l words sid] by (simp add: entry_of_def init_deny_def min_def)

lemma zero_entry: "decode_stage2_binding (replicate 8 0) = None" "ste_decode (replicate 8 0 ! 0) = InvalidSte"
  by (simp_all add: decode_stage2_binding_def STE_WORDS_def ste_decode_def numeral_eq_Suc)

lemma init_deny_shape [simp]: "length (init_deny words) = length words" "sized l (init_deny words) = sized l words"
  "init_deny (init_deny words) = init_deny words"
  by (simp_all add: init_deny_def sized_def)

lemma deny_no_stream: "\<not> permits (verdict (init_deny words) l sid)" "stage2_binding_at (init_deny words) l sid = None"
  by (auto simp: entry_reads entry_deny zero_entry simp del: nth_replicate)

section \<open>The derived table\<close>

text \<open>
  What the walk over the devices owes the table: the entry of each assigned device carries the
  binding of its holder, every other entry is as it was; a refusal leaves zeros.
\<close>

definition realised ::
  "nat \<Rightarrow> DeviceSystem \<Rightarrow> nat list \<Rightarrow> Stage2Binding option list \<Rightarrow> nat \<Rightarrow> u64 list \<Rightarrow> bool" where
  "realised l devices stream_of binding_of dev words \<longleftrightarrow>
     (\<forall>holder. dv_holder_of devices (as_u16 dev) = Some holder \<longrightarrow>
        (\<exists>b. vec_get binding_of holder = Some (Some b) \<and> stage2_ste b = Ok (entry_of words (stream_of ! dev)) \<and>
             stream_of ! dev < 2 ^ l))"

lemma bind_devices_Ok:
  assumes "bind_devices l devices stream_of binding_of devs words = (Ok u, words')" "sized l words"
    "distinct (map ((!) stream_of) devs)"
  shows "length words' = length words \<and> (\<forall>dev \<in> set devs. realised l devices stream_of binding_of dev words') \<and>
    (\<forall>sid. (\<forall>dev \<in> set devs. dv_holder_of devices (as_u16 dev) \<noteq> None \<longrightarrow> stream_of ! dev \<noteq> sid) \<longrightarrow>
       entry_of words' sid = entry_of words sid)"
  using assms
proof (induction devs arbitrary: words)
  case Nil
  then show ?case by simp
next
  case (Cons dev devs)
  show ?case
  proof (cases "dv_holder_of devices (as_u16 dev)")
    case None
    then have go: "bind_devices l devices stream_of binding_of devs words = (Ok u, words')" using Cons.prems(1) by simp
    show ?thesis using Cons.IH [OF go Cons.prems(2)] Cons.prems(3) None by (simp add: realised_def)
  next
    case (Some holder)
    then obtain b where b: "vec_get binding_of holder = Some (Some b)"
      using Cons.prems(1) by (simp split: option.splits)
    show ?thesis
      using Cons.prems(2)
    proof (cases rule: bind_stage2_cases [where sid = "stream_of ! dev" and b = b])
      case (refused e)
      then show ?thesis using Cons.prems(1) Some b by simp
    next
      case (bound ste words1)
      then have go: "bind_devices l devices stream_of binding_of devs words1 = (Ok u, words')" using Cons.prems(1) Some b by simp
      have d: "distinct (map ((!) stream_of) devs)" "\<forall>dev' \<in> set devs. stream_of ! dev' \<noteq> stream_of ! dev"
        using Cons.prems(3) by (simp_all add: image_iff) metis
      note ih = Cons.IH [OF go bound(5) d(1)]
      then have "entry_of words' (stream_of ! dev) = ste" using d(2) bound(6) by simp
      then have "realised l devices stream_of binding_of dev words'" using Some b bound(2,3) by (simp add: realised_def)
      then show ?thesis using ih bound(4,6) Some by auto
    qed
  qed
qed

lemma bind_devices_refused:
  assumes "bind_devices l devices stream_of binding_of devs words = (r, words')" "sized l words" "dv_ok devices"
    "dv_num_domains devices \<le> length binding_of" "r \<noteq> Ok ()"
  shows "r \<noteq> Panic \<and> words' = init_deny words"
  using assms(1,2)
proof (induction devs arbitrary: words)
  case Nil
  then show ?case using assms(5) by simp
next
  case (Cons dev devs)
  show ?case
  proof (cases "dv_holder_of devices (as_u16 dev)")
    case None
    then show ?thesis using Cons by simp
  next
    case (Some holder)
    then have "holder < length binding_of" using assms(3,4) by (fastforce simp: dv_ok_def)
    then have g: "vec_get binding_of holder = Some (binding_of ! holder)" by (simp add: vec_get_def)
    show ?thesis
    proof (cases "binding_of ! holder")
      case None
      then show ?thesis using Cons.prems(1) Some g by auto
    next
      case b: (Some b)
      show ?thesis
        using Cons.prems(2)
      proof (cases rule: bind_stage2_cases [where sid = "stream_of ! dev" and b = b])
        case (refused e)
        then show ?thesis using Cons.prems(1) Some g b by auto
      next
        case (bound ste words1)
        then have "bind_devices l devices stream_of binding_of devs words1 = (r, words')" using Cons.prems(1) Some g b by simp
        from Cons.IH [OF this bound(5)] show ?thesis using bound(4) by (simp add: init_deny_def)
      qed
    qed
  qed
qed

lemma no_alias:
  assumes "first_alias stream_of n = None" "n \<le> length stream_of"
  shows "distinct (map ((!) stream_of) [0..<n])"
proof -
  have "stream_of ! i \<noteq> stream_of ! j" if "i < j" "j < n" for i j
  proof -
    have "(i, j) \<in> set (concat (map (\<lambda>a. map (\<lambda>b. (a, b)) [a + 1..<n]) [0..<n]))"
      using that by (auto intro!: bexI [of _ i])
    then show ?thesis using assms(1) unfolding first_alias_def find_None_iff by fast
  qed
  then have "inj_on ((!) stream_of) {0..<n}" by (intro linorder_inj_onI) auto
  then show ?thesis by (simp add: distinct_map)
qed

lemma intended_of_device:
  assumes "distinct (map ((!) stream_of) [0..<n])" "n = dv_device_count devices" "n \<le> length stream_of" "dev < n"
  shows "holder_of_stream devices stream_of (stream_of ! dev) = dv_holder_of devices (as_u16 dev)"
proof -
  have "find (\<lambda>d. vec_get stream_of d = Some (stream_of ! dev)) [0..<n] = Some dev"
    unfolding find_Some_iff using assms by (auto intro!: exI [of _ dev] simp: vec_get_def distinct_conv_nth)
  then show ?thesis using assms(2) by (simp add: holder_of_stream_def)
qed

lemma intended_no_device:
  assumes "\<forall>dev < dv_device_count devices. stream_of ! dev \<noteq> sid" "dv_device_count devices \<le> length stream_of"
  shows "holder_of_stream devices stream_of sid = None"
proof -
  have "find (\<lambda>d. vec_get stream_of d = Some sid) [0..<dv_device_count devices] = None"
    unfolding find_None_iff using assms by (auto simp: vec_get_def)
  then show ?thesis by (simp add: holder_of_stream_def)
qed

text \<open>The table read back is the relation, whatever the stream.\<close>

lemma derive_binding_at:
  assumes "derive_stream_table words l devices stream_of binding_of = (Ok u, words')"
  shows "stage2_binding_at words' l sid = intended_binding devices stream_of binding_of sid \<and>
    permits (verdict words' l sid) = (intended_binding devices stream_of binding_of sid \<noteq> None) \<and>
    sized l words' \<and> length words' = length words"
proof -
  let ?n = "dv_device_count devices"
  from assms have sz: "sized l words" and short: "?n \<le> length stream_of" and inj: "first_alias stream_of ?n = None"
    and go: "bind_devices l devices stream_of binding_of [0..<?n] (init_deny words) = (Ok u, words')"
    by (auto simp: derive_stream_table_def Let_def sized_iff split: if_splits option.splits)
  note dist = no_alias [OF inj short]
  from bind_devices_Ok [OF go _ dist] sz have len: "length words' = length words"
    and each: "\<And>dev. dev < ?n \<Longrightarrow> realised l devices stream_of binding_of dev words'"
    and keep: "\<And>sid. (\<forall>dev < ?n. dv_holder_of devices (as_u16 dev) \<noteq> None \<longrightarrow> stream_of ! dev \<noteq> sid) \<Longrightarrow>
      entry_of words' sid = entry_of (init_deny words) sid" by auto
  have sz': "sized l words'" using sz len by (simp add: sized_def)
  show ?thesis
  proof (cases "\<exists>dev h. dev < ?n \<and> stream_of ! dev = sid \<and> dv_holder_of devices (as_u16 dev) = Some h")
    case True
    then obtain dev h where dev: "dev < ?n" "stream_of ! dev = sid" "dv_holder_of devices (as_u16 dev) = Some h" by blast
    with each obtain b where b: "vec_get binding_of h = Some (Some b)" "stage2_ste b = Ok (entry_of words' sid)" "sid < 2 ^ l"
      unfolding realised_def by blast
    have "intended_binding devices stream_of binding_of sid = Some b"
      using intended_of_device [OF dist refl short dev(1)] dev b(1) by (simp add: intended_binding_def)
    then show ?thesis using stage2_ste_Ok [OF b(2)] b(3) sz' len by (simp add: entry_reads)
  next
    case False
    then have e: "entry_of words' sid = entry_of (init_deny words) sid" by (intro keep) auto
    have "holder_of_stream devices stream_of sid = None"
    proof (cases "\<exists>dev < ?n. stream_of ! dev = sid")
      case True
      then show ?thesis using False intended_of_device [OF dist refl short] by auto
    next
      case False
      then show ?thesis by (intro intended_no_device short) simp
    qed
    then have i: "intended_binding devices stream_of binding_of sid = None" by (simp add: intended_binding_def)
    show ?thesis using deny_no_stream [of words l sid] sz sz' len unfolding i entry_reads e by simp
  qed
qed

lemma derive_holder_bound:
  assumes "derive_stream_table words l devices stream_of binding_of = (Ok u, words')" "holder_of_stream devices stream_of sid = Some d"
  shows "\<exists>b. vec_get binding_of d = Some (Some b)"
proof -
  let ?n = "dv_device_count devices"
  from assms(1) have short: "?n \<le> length stream_of" and sz: "sized l words" and inj: "first_alias stream_of ?n = None"
    and go: "bind_devices l devices stream_of binding_of [0..<?n] (init_deny words) = (Ok u, words')"
    by (auto simp: derive_stream_table_def Let_def sized_iff split: if_splits option.splits)
  from assms(2) obtain dev where dev: "dv_holder_of devices (as_u16 dev) = Some d" "dev < ?n"
    by (auto simp: holder_of_stream_def find_Some_iff split: option.splits)
  have "realised l devices stream_of binding_of dev words'"
    using bind_devices_Ok [OF go _ no_alias [OF inj short]] sz dev(2) by simp
  then show ?thesis using dev(1) unfolding realised_def by blast
qed

text \<open>The inputs a derivation accepts: each assigned device has a stream in range and an encodable binding.\<close>

definition realisable :: "nat \<Rightarrow> DeviceSystem \<Rightarrow> nat list \<Rightarrow> Stage2Binding option list \<Rightarrow> nat \<Rightarrow> bool" where
  "realisable l devices stream_of binding_of dev \<longleftrightarrow>
     (\<forall>holder. dv_holder_of devices (as_u16 dev) = Some holder \<longrightarrow>
        stream_of ! dev < 2 ^ l \<and> (\<exists>b ste. vec_get binding_of holder = Some (Some b) \<and> stage2_ste b = Ok ste))"

definition derivable :: "nat \<Rightarrow> u64 list \<Rightarrow> DeviceSystem \<Rightarrow> nat list \<Rightarrow> Stage2Binding option list \<Rightarrow> bool" where
  "derivable l words devices stream_of binding_of \<longleftrightarrow>
     sized l words \<and> dv_device_count devices \<le> length stream_of \<and> dv_domain_count devices \<le> length binding_of \<and>
     distinct (map ((!) stream_of) [0..<dv_device_count devices]) \<and>
     (\<forall>dev < dv_device_count devices. realisable l devices stream_of binding_of dev)"

lemma bind_devices_accepts:
  assumes "sized l words" "\<forall>dev \<in> set devs. realisable l devices stream_of binding_of dev"
  shows "fst (bind_devices l devices stream_of binding_of devs words) = Ok ()"
  using assms
proof (induction devs arbitrary: words)
  case Nil
  then show ?case by simp
next
  case (Cons dev devs)
  show ?case
  proof (cases "dv_holder_of devices (as_u16 dev)")
    case None
    then show ?thesis using Cons by simp
  next
    case (Some holder)
    with Cons.prems(2) obtain b ste where b: "stream_of ! dev < 2 ^ l" "vec_get binding_of holder = Some (Some b)" "stage2_ste b = Ok ste"
      unfolding realisable_def by auto
    obtain words1 where w: "ste_bind words l (stream_of ! dev) ste = (Ok (), words1)"
      using b(1) Cons.prems(1) by (simp add: ste_bind_sized)
    have "sized l words1" by (rule ste_bind_entries(3) [OF Cons.prems(1) stage2_ste_Ok(1) [OF b(3)] w])
    then show ?thesis using Cons Some b w by (simp add: bind_stage2_def)
  qed
qed

lemma realised_realisable: "realised l devices stream_of binding_of dev words \<Longrightarrow> realisable l devices stream_of binding_of dev"
  unfolding realised_def realisable_def by blast

lemma derive_Ok_iff:
  "fst (derive_stream_table words l devices stream_of binding_of) = Ok () \<longleftrightarrow> derivable l words devices stream_of binding_of"
  (is "?ok \<longleftrightarrow> ?good")
proof
  let ?n = "dv_device_count devices"
  assume ?ok
  then obtain words' where *: "derive_stream_table words l devices stream_of binding_of = (Ok (), words')"
    by (cases "derive_stream_table words l devices stream_of binding_of") simp
  then have sz: "sized l words" and short: "?n \<le> length stream_of" and inj: "first_alias stream_of ?n = None"
    and dm: "dv_domain_count devices \<le> length binding_of"
    and go: "bind_devices l devices stream_of binding_of [0..<?n] (init_deny words) = (Ok (), words')"
    by (auto simp: derive_stream_table_def Let_def sized_iff split: if_splits option.splits)
  note dist = no_alias [OF inj short]
  have "\<forall>dev < ?n. realised l devices stream_of binding_of dev words'" using bind_devices_Ok [OF go _ dist] sz by simp
  then show ?good unfolding derivable_def using sz short dm dist realised_realisable by blast
next
  assume good: ?good
  have "first_alias stream_of (dv_device_count devices) = None"
    using good by (auto simp: derivable_def first_alias_def find_None_iff distinct_conv_nth)
  then show ?ok using good bind_devices_accepts [of l "init_deny words"]
    by (auto simp: derivable_def derive_stream_table_def Let_def sized_iff)
qed

lemma derive_refused:
  assumes "dv_ok devices" "derive_stream_table words l devices stream_of binding_of = (r, words')" "r \<noteq> Ok ()"
  shows "r \<noteq> Panic \<and> words' = init_deny words"
  using assms bind_devices_refused [of l devices stream_of binding_of "[0..<dv_device_count devices]" "init_deny words" r words']
  by (auto simp: derive_stream_table_def Let_def sized_iff dv_domain_count_def split: if_splits option.splits)

section \<open>One table, two walkers\<close>

lemma stage2_handles_eq:
  "stage2_handles layout vmid =
     (if unat (l1_pa layout) \<ge> 2 ^ 48 then Err (VttbrNarrowerThanSte (l1_pa layout))
      else if unat (l1_pa layout) mod 2 ^ 12 \<noteq> 0 then Err (HandleSte UnalignedTable)
      else Ok \<lparr>h_vttbr = vttbr (l1_pa layout) vmid,
               h_binding = \<lparr>s2ttb = l1_pa layout, b_vmid = take_bit 8 (ucast vmid), b_regime = BALEEN_STAGE2\<rparr>\<rparr>)"
proof (cases "unat (l1_pa layout) < 2 ^ 48")
  case True
  have n: "\<not> MAX_TABLE_PA \<le> l1_pa layout" using True by (simp add: word_le_nat_alt geometry)
  have b: "vttbr_vmid (vttbr (l1_pa layout) vmid) BALEEN_VMID_BITS = take_bit 8 (ucast vmid)"
    using vttbr_fields(2) [OF True, of vmid BALEEN_VMID_BITS] by (simp add: BALEEN_VMID_BITS_def)
  have hi: "drop_bit 52 (l1_pa layout) = 0"
    using True by (simp only: word_unat_eq_iff unat_drop unsigned_0) (simp add: div_eq_0_iff)
  have "PAGE_SIZE = (4096 :: u64)" by (simp add: PAGE_SIZE_def BLOCK_SIZE_def TABLE_ENTRIES_def)
  then have al: "l1_pa layout mod 4096 = 0 \<longleftrightarrow> unat (l1_pa layout) mod 2 ^ 12 = 0" using block_multiple(2) by metis
  have ste: "stage2_ste \<lparr>s2ttb = l1_pa layout, b_vmid = v, b_regime = BALEEN_STAGE2\<rparr> = Err UnalignedTable"
    if "unat (l1_pa layout) mod 2 ^ 12 \<noteq> 0" for v
    unfolding stage2_ste_def using baleen_regime hi al that by (simp only: Stage2Binding.simps if_True if_False) (simp add: BALEEN_STAGE2_def)
  have ste': "\<exists>w. stage2_ste \<lparr>s2ttb = l1_pa layout, b_vmid = v, b_regime = BALEEN_STAGE2\<rparr> = Ok w"
    if "unat (l1_pa layout) mod 2 ^ 12 = 0" for v
    unfolding stage2_ste_def using baleen_regime hi al that by (simp only: Stage2Binding.simps if_True if_False) (simp add: BALEEN_STAGE2_def)
  show ?thesis
  proof (cases "unat (l1_pa layout) mod 2 ^ 12 = 0")
    case aligned: True
    obtain w where "stage2_ste \<lparr>s2ttb = l1_pa layout, b_vmid = take_bit 8 (ucast vmid), b_regime = BALEEN_STAGE2\<rparr> = Ok w"
      using ste' [OF aligned, of "take_bit 8 (ucast vmid)"] by (elim exE)
    then show ?thesis using n True aligned by (simp add: stage2_handles_def Let_def b)
  next
    case False
    then show ?thesis using n True ste [OF False, of "take_bit 8 (ucast vmid)"] by (simp add: stage2_handles_def Let_def b)
  qed
next
  case False
  then have "MAX_TABLE_PA \<le> l1_pa layout" by (simp add: word_le_nat_alt geometry)
  then show ?thesis using False by (simp add: stage2_handles_def)
qed

lemma handles_ste:
  assumes "stage2_handles layout vmid = Ok handles" shows "\<exists>ste. stage2_ste (h_binding handles) = Ok ste"
proof -
  let ?b = "\<lparr>s2ttb = l1_pa layout, b_vmid = vttbr_vmid (vttbr (l1_pa layout) vmid) BALEEN_VMID_BITS, b_regime = BALEEN_STAGE2\<rparr>"
  from assms obtain ste where "stage2_ste ?b = Ok ste" "handles = \<lparr>h_vttbr = vttbr (l1_pa layout) vmid, h_binding = ?b\<rparr>"
    by (auto simp: stage2_handles_def Let_def split: if_splits result.splits)
  then show ?thesis by simp
qed

lemma valid_handles:
  assumes "validate layout = Ok ()"
  shows "\<exists>hd. stage2_handles layout vmid = Ok hd"
  using valid_tables [OF assms, of "l1_pa layout"] by (simp add: stage2_handles_eq)

section \<open>Properties\<close>

text \<open>
  C21: the stream table derived from the device assignment refines it. The derivation never fails at
  run time and keeps the storage's length; it succeeds exactly when the storage and both maps are
  large enough, no two devices share a stream and every assigned device has a stream inside the
  table and a holder whose tables an entry can name. When it succeeds, each stream, inside the table
  or not, is bound to exactly the tables of the domain that holds its device, streams of no assigned
  device are denied, and the runtime check of the table accepts it; when it is refused, the table
  denies every stream, whatever it held before.
\<close>

theorem derive_refines:
  fixes l :: nat
  assumes "dv_ok devices" "derive_stream_table words l devices stream_of binding_of = (r, words')"
  shows "r \<noteq> Panic \<and> length words' = length words \<and> (r = Ok () \<longleftrightarrow> derivable l words devices stream_of binding_of) \<and>
    (if r = Ok ()
     then table_refines_the_relation words' l devices stream_of binding_of \<and>
       (\<forall>sid. stage2_binding_at words' l sid = intended_binding devices stream_of binding_of sid \<and>
              permits (verdict words' l sid) = (intended_binding devices stream_of binding_of sid \<noteq> None))
     else \<forall>sid. \<not> permits (verdict words' l sid) \<and> stage2_binding_at words' l sid = None)"
proof (cases "r = Ok ()")
  case True
  then have ok: "derive_stream_table words l devices stream_of binding_of = (Ok (), words')" using assms(2) by simp
  note reads = derive_binding_at [OF ok]
  then have sz: "sized l words'" by blast
  have "table_refines_the_relation words' l devices stream_of binding_of"
    unfolding table_refines_the_relation_def sized_table [OF sz] using sz reads by (simp add: Let_def sized_def list_all_iff)
  then show ?thesis using True reads derive_Ok_iff [of words l devices stream_of binding_of] ok by auto
next
  case False
  then show ?thesis using derive_refused [OF assms False] derive_Ok_iff [of words l devices stream_of binding_of] assms(2) deny_no_stream
    by simp
qed

text \<open>Two domains and two devices, the first held by domain 1: stream 3 reaches its tables, every other stream is denied.\<close>

definition demo_binding :: Stage2Binding where
  "demo_binding = \<lparr>s2ttb = 0x40000000, b_vmid = 7, b_regime = BALEEN_STAGE2\<rparr>"

definition demo_devices :: DeviceSystem where
  "demo_devices = snd (dv_assign (dv_new 2 2) 0 1)"

lemma demo_devices_holder: "dv_holder_of demo_devices dev = (if dev = 0 then Some 1 else None)"
  and demo_devices_shape: "dv_device_count demo_devices = 2" "dv_domain_count demo_devices = 2"
  by (auto simp: demo_devices_def dv_assign_def dv_new_def dv_holder_of_def vec_get_def nth_Cons' numeral_eq_Suc
      dv_device_count_def dv_domain_count_def)

lemma two_devices: "[0..<2] = [0, 1 :: nat]" "dev < 2 \<longleftrightarrow> dev = 0 \<or> dev = (1 :: nat)"
  by (auto simp: upt_rec)

lemma demo_binding_Ok: "\<exists>ste. stage2_ste demo_binding = Ok ste"
proof -
  have "(0x40000000 :: u64) mod table_align BALEEN_STAGE2 = 0" unfolding baleen_regime by simp
  then show ?thesis using baleen_regime by (simp add: stage2_ste_def demo_binding_def) (simp add: BALEEN_STAGE2_def)
qed

lemma demo_derivable: "derivable 3 (replicate 64 7) demo_devices [3, 5] [None, Some demo_binding]"
  unfolding derivable_def demo_devices_shape two_devices
  using demo_binding_Ok by (auto simp: sized_def MAX_LOG2SIZE_def realisable_def demo_devices_holder vec_get_def)

theorem derive_refines_witness:
  "\<exists>words'. derive_stream_table (replicate 64 7) 3 demo_devices [3, 5] [None, Some demo_binding] = (Ok (), words') \<and>
     stage2_binding_at words' 3 3 = Some demo_binding \<and> (\<forall>sid. sid \<noteq> 3 \<longrightarrow> \<not> permits (verdict words' 3 sid))"
proof -
  obtain r words' where d: "derive_stream_table (replicate 64 7) 3 demo_devices [3, 5] [None, Some demo_binding] = (r, words')"
    by fastforce
  have ok: "dv_ok demo_devices" by (simp add: dv_ok_def demo_devices_holder) (simp add: demo_devices_def dv_new_def)
  have "intended_binding demo_devices [3, 5] [None, Some demo_binding] sid = (if sid = 3 then Some demo_binding else None)" for sid
    unfolding intended_binding_def holder_of_stream_def demo_devices_shape two_devices
    by (simp add: demo_devices_holder vec_get_def)
  then show ?thesis using derive_refines [OF ok d] demo_derivable d by auto
qed

end
