(* ===== verification/Device_Path.thy ===== *)
theory Device_Path
  imports Smmu Leafmap Hypervisor_Inv
begin

text \<open>
  The device path, from the core's state to the bytes a bus master reaches: the leaf maps of
  \<open>leafmap.rs\<close>, the tables \<open>arm64.rs\<close> encodes from them, the handles and the stream table of
  \<open>smmu.rs\<close>, and \<open>device_reach\<close> over all of them. The provisioning of a domain is a hypothesis on
  the outputs of those operations; the theorem is the sentence the composition is for: a device
  reaches exactly the windows of the domain that holds it, as that domain's CPU does, and in the
  frame windows only frames the domain owns or was granted.
\<close>

section \<open>A provisioned domain\<close>

record Image =
  im_layout :: Layout
  im_maps :: Maps
  im_tables :: Tables
  im_handles :: Stage2Handles

definition provisioned :: "(u64 \<Rightarrow> u64 \<Rightarrow> u64) \<Rightarrow> Hypervisor \<Rightarrow> DomId \<Rightarrow> Image \<Rightarrow> bool" where
  "provisioned fetch h d im \<longleftrightarrow>
     validate (im_layout im) = Ok () \<and> addressable_frames (im_layout im) \<and> backed (im_layout im) (mp_sup (im_maps im)) \<and>
     (\<exists>out. leaf_map (p2m h) d out = (Ok (), im_maps im)) \<and>
     (\<exists>t. reusable (im_layout im) t \<and> encode (mp_base (im_maps im)) (mp_sup (im_maps im)) (im_layout im) t = Some (im_tables im)) \<and>
     (\<exists>vmid. stage2_handles (im_layout im) vmid = Ok (im_handles im)) \<and> fetch_reads fetch (im_layout im) (im_tables im)"

definition im_reach :: "Image \<Rightarrow> u64 \<Rightarrow> Reach option" where
  "im_reach im ipa = window_reach (im_layout im) (mp_base (im_maps im)) (mp_sup (im_maps im)) ipa"

text \<open>The frame of the model an address of the two frame windows stands for.\<close>

definition frame_of :: "Layout \<Rightarrow> u64 \<Rightarrow> (Span \<times> Mfn) option" where
  "frame_of layout ipa =
     (if within (data_ipa_base layout) BLOCK_SIZE ipa
      then Some (Base, unat (ucast ((ipa - data_ipa_base layout) div frame_size layout) :: u32))
      else if within (sup_ipa_base layout) (sup_span layout) ipa
      then Some (Super, unat (ucast ((ipa - sup_ipa_base layout) div super_size layout) :: u32))
      else None)"

lemma provisioned_walk:
  assumes "provisioned fetch h d im" shows "walk (l1_pa (im_layout im)) ipa fetch = im_reach im ipa"
proof -
  from assms obtain t where v: "validate (im_layout im) = Ok ()" "addressable_frames (im_layout im)"
    "backed (im_layout im) (mp_sup (im_maps im))" "reusable (im_layout im) t"
    "encode (mp_base (im_maps im)) (mp_sup (im_maps im)) (im_layout im) t = Some (im_tables im)"
    "fetch_reads fetch (im_layout im) (im_tables im)" unfolding provisioned_def by blast
  have "means (im_layout im) (mp_base (im_maps im)) (mp_sup (im_maps im)) (im_tables im)"
    using encode_means [OF v(1,4,3), of "mp_base (im_maps im)"] v(5) by auto
  from walk_is_windows [OF means_serves [OF v(1,3) this v(6)] v(2)] show ?thesis unfolding im_reach_def .
qed

lemma provisioned_handles:
  assumes "provisioned fetch h d im"
  shows "s2ttb (h_binding (im_handles im)) = l1_pa (im_layout im)" "vttbr_table (h_vttbr (im_handles im)) = l1_pa (im_layout im)"
    "vttbr_vmid (h_vttbr (im_handles im)) BALEEN_VMID_BITS = b_vmid (h_binding (im_handles im))"
proof -
  from assms obtain vmid where v: "stage2_handles (im_layout im) vmid = Ok (im_handles im)" unfolding provisioned_def by blast
  then have lt: "unat (l1_pa (im_layout im)) < 2 ^ 48" and hd: "im_handles im = \<lparr>h_vttbr = vttbr (l1_pa (im_layout im)) vmid,
      h_binding = \<lparr>s2ttb = l1_pa (im_layout im), b_vmid = take_bit 8 (ucast vmid), b_regime = BALEEN_STAGE2\<rparr>\<rparr>"
    by (auto simp: stage2_handles_eq split: if_splits)
  show "s2ttb (h_binding (im_handles im)) = l1_pa (im_layout im)" "vttbr_table (h_vttbr (im_handles im)) = l1_pa (im_layout im)"
    "vttbr_vmid (h_vttbr (im_handles im)) BALEEN_VMID_BITS = b_vmid (h_binding (im_handles im))"
    using vttbr_fields [OF lt] by (simp_all add: hd BALEEN_VMID_BITS_def)
qed

section \<open>The frames a window reaches\<close>

lemma window_reach_sup:
  assumes v: "validate layout = Ok ()" and w: "within (sup_ipa_base layout) (sup_span layout) ipa"
  shows "window_reach layout leaves supers ipa = sup_reach layout supers ipa" "\<not> within (data_ipa_base layout) BLOCK_SIZE ipa"
proof -
  have lt: "unat ipa < 2 ^ 39" by (rule placed_below [OF valid_layout(4) [OF v] w])
  have i: "l1_index ipa = sup_l1 layout" using windows_by_slot(2) [OF v lt] w by blast
  show nd: "\<not> within (data_ipa_base layout) BLOCK_SIZE ipa" using windows_by_slot(1) [OF v lt] i valid_layout(9) [OF v] by auto
  have "\<not> within pa BLOCK_SIZE ipa" if "guest_image_pa layout = Some pa" for pa
    using windows_by_slot(3) [OF v lt that] valid_layout(10) [OF v, of "l1_index pa"] i that by (auto simp: code_l1_def)
  then show "window_reach layout leaves supers ipa = sup_reach layout supers ipa"
    using w nd by (auto simp: window_reach_def sup_span_def valid_layout(1) [OF v] PAGE_SIZE_mult split: option.split)
qed

lemma reached_leaf:
  assumes v: "validate (im_layout im) = Ok ()" and f: "frame_of (im_layout im) ipa = Some (s, m)" and r: "im_reach im ipa = Some r"
  obtains \<pi> where "leaf_at (span_map s (im_maps im)) m = Some \<pi>" "reach_writable r \<longleftrightarrow> \<pi> = Rw"
proof -
  have wr: "perm_writable (fst (leaf_access_xn \<pi> e)) \<longleftrightarrow> \<pi> = Rw" for \<pi> e by (cases \<pi>) simp_all
  show thesis
  proof (cases "within (data_ipa_base (im_layout im)) BLOCK_SIZE ipa")
    case True
    then show thesis using f r wr that
      by (auto simp: im_reach_def window_reach_data [OF v True] data_reach_def frame_of_def Let_def reach_writable_def case_prod_beta
          split: option.splits)
  next
    case False
    then have w: "within (sup_ipa_base (im_layout im)) (sup_span (im_layout im)) ipa" using f by (simp add: frame_of_def split: if_splits)
    show thesis using f r wr that False
      by (auto simp: im_reach_def window_reach_sup(1) [OF v w] sup_reach_def frame_of_def Let_def reach_writable_def case_prod_beta
          split: option.splits if_splits)
  qed
qed

lemma leaf_at_owned:
  assumes h: "hv_ok h" and lm: "leaf_map (p2m h) d out = (Ok (), maps)" and l: "leaf_at (span_map s maps) m = Some \<pi>"
  shows "\<exists>own. pm_owner_of (p2m h) m = Some own \<and> (own = d \<or> gt_authorizes (grant h) own d m (\<pi> = Rw))"
proof -
  have "m < length (span_map s out)" "span_map s maps ! m = Some \<pi>"
    using l leaf_map_Ok(1) [OF lm] by (auto simp: leaf_at_def split: if_splits)
  then have "leaf_of (p2m h) d s m = Some \<pi>" using leaf_map_Ok(2) [OF lm] by metis
  then show ?thesis by (rule leaf_of_facts(2) [OF h])
qed

lemma holder_of_stream_held: "holder_of_stream devices stream_of sid = Some d \<Longrightarrow> \<exists>dev. dv_holder_of devices dev = Some d"
  by (auto simp: holder_of_stream_def split: option.splits)

section \<open>Properties\<close>

text \<open>
  C20: the device path end to end. In every reachable state, with domains provisioned by the leaf
  map, the encoder and the handles, and a stream table the derivation accepted: a stream no
  assigned device carries reaches nothing at any address; a stream whose device a domain holds
  reaches, for every 64-bit address, exactly what that domain's windows say, and exactly what the
  domain's CPU reaches through its \<open>VTTBR\<close>, tagged with the same VMID. The holder is not dead, and
  an address of the frame windows that is reached stands for a frame the holder owns or its owner
  granted to it, for writing if the reach is writable.
\<close>

theorem device_path_exact:
  assumes "hv_start h0" and "h = hv_run trs h0" and "\<forall>d im. images d = Some im \<longrightarrow> provisioned fetch h d im"
    and "derive_stream_table words l (device h) stream_of
      (map (\<lambda>d. map_option (\<lambda>im. h_binding (im_handles im)) (images d)) [0..<hv_domain_count h]) = (Ok (), words')"
  shows "case holder_of_stream (device h) stream_of sid of
      None \<Rightarrow> device_reach words' l sid ipa fetch = None
    | Some d \<Rightarrow> \<not> dead (life h) d \<and> (\<exists>im. images d = Some im \<and> device_reach words' l sid ipa fetch = im_reach im ipa \<and>
        walk (vttbr_table (h_vttbr (im_handles im))) ipa fetch = im_reach im ipa \<and>
        map_option b_vmid (stage2_binding_at words' l sid) = Some (vttbr_vmid (h_vttbr (im_handles im)) BALEEN_VMID_BITS) \<and>
        (\<forall>s m r. frame_of (im_layout im) ipa = Some (s, m) \<and> im_reach im ipa = Some r \<longrightarrow>
           (\<exists>own. pm_owner_of (p2m h) m = Some own \<and> (own = d \<or> gt_authorizes (grant h) own d m (reach_writable r)))))"
proof -
  have h: "hv_ok h" using hv_run_ok [OF assms(1)] assms(2) by simp
  note at = derive_binding_at [OF assms(4), of sid]
  show ?thesis
  proof (cases "holder_of_stream (device h) stream_of sid")
    case None
    then show ?thesis using at by (simp add: device_reach_def intended_binding_def)
  next
    case (Some d)
    obtain dev where dev: "dv_holder_of (device h) dev = Some d" using holder_of_stream_held [OF Some] by blast
    have lt: "d < hv_domain_count h" using dev hv_okD(5,20) [OF h] by (simp add: dv_ok_def)
    have live: "\<not> dead (life h) d" using dev hv_okD(12) [OF h] by (simp add: dv_tenants_def)
    have "stage2_binding_at words' l sid = map_option (\<lambda>im. h_binding (im_handles im)) (images d)"
      using at lt Some by (simp add: intended_binding_def vec_get_def)
    moreover have "images d \<noteq> None" using derive_holder_bound [OF assms(4) Some] lt by (simp add: vec_get_def)
    ultimately obtain im where im: "images d = Some im" "stage2_binding_at words' l sid = Some (h_binding (im_handles im))" by auto
    then have p: "provisioned fetch h d im" using assms(3) by blast
    note w = provisioned_walk [OF p] and hd = provisioned_handles [OF p]
    from p obtain out where v: "validate (im_layout im) = Ok ()" and lm: "leaf_map (p2m h) d out = (Ok (), im_maps im)"
      unfolding provisioned_def by blast
    have "\<exists>own. pm_owner_of (p2m h) m = Some own \<and> (own = d \<or> gt_authorizes (grant h) own d m (reach_writable r))"
      if "frame_of (im_layout im) ipa = Some (s, m)" "im_reach im ipa = Some r" for s m r
    proof -
      note reached = that
      obtain \<pi> where \<pi>: "leaf_at (span_map s (im_maps im)) m = Some \<pi>" "reach_writable r \<longleftrightarrow> \<pi> = Rw" by (rule reached_leaf [OF v reached])
      show ?thesis using leaf_at_owned [OF h lm \<pi>(1)] \<pi>(2) by simp
    qed
    then show ?thesis using Some live im w hd by (simp add: device_reach_def)
  qed
qed

text \<open>
  One domain with a bus master: the frames of domain 1 are its own frame 1, writable, and frame 2
  of domain 0, granted for reading. The device of stream 3 writes the first, only reads the second,
  and every other stream is refused.
\<close>

definition dma_state :: Hypervisor where
  "dma_state = hv_run [Guest 0 (DomainCreate 1 False), Guest 1 (P2mAllocate 0), Guest 1 (P2mAllocate 1),
     Guest 0 (P2mAllocate 2), Guest 1 (P2mPin 0 L1), Guest 0 (GrantAccess 0 1 2 True),
     Guest 1 (P2mLink 0 3 1 True True False), Guest 1 (P2mLink 0 4 2 False True False), Guest 0 (DeviceAssign 0 1)] (hv_new 2 2 2 1 1 3 1)"

definition dma_maps :: Maps where "dma_maps = \<lparr>mp_base = [None, Some Rw, Some Ro], mp_sup = []\<rparr>"

definition dma_handles :: Stage2Handles where
  "dma_handles = \<lparr>h_vttbr = vttbr 0x40010000 1, h_binding = \<lparr>s2ttb = 0x40010000, b_vmid = 1, b_regime = BALEEN_STAGE2\<rparr>\<rparr>"

lemma dma_state_facts:
  "leaf_map (p2m dma_state) 1 \<lparr>mp_base = [None, None, None], mp_sup = []\<rparr> = (Ok (), dma_maps)"
  "device dma_state = \<lparr>assign = [Some 1], dv_num_domains = 2\<rparr>" "hv_domain_count dma_state = 2" "pm_owner_of (p2m dma_state) 2 = Some 0"
  by code_simp+

lemma dma_handles_Ok: "stage2_handles demo_layout 1 = Ok dma_handles"
  by (simp add: stage2_handles_eq dma_handles_def demo_layout_def)

lemma dma_derivable:
  "derivable 3 (replicate 64 7) (device dma_state) [3] [None, Some (h_binding dma_handles)]"
  using handles_ste [OF dma_handles_Ok]
  by (auto simp: derivable_def sized_def MAX_LOG2SIZE_def realisable_def dma_state_facts dv_holder_of_def vec_get_def
      dv_device_count_def dv_domain_count_def split: if_splits)

lemma dma_windows:
  "window_reach demo_layout (mp_base dma_maps) (mp_sup dma_maps) 0x80001007 = Some \<lparr>rc_pa = 0x40401007, rc_perm = Rw, rc_xn = True\<rparr>"
  "window_reach demo_layout (mp_base dma_maps) (mp_sup dma_maps) 0x80002000 = Some \<lparr>rc_pa = 0x40402000, rc_perm = Ro, rc_xn = True\<rparr>"
  "frame_of demo_layout 0x80002000 = Some (Base, 2)"
  by (simp_all add: window_reach_def within_def data_reach_def sup_reach_def leaf_at_def frame_pa_def super_pa_def
      frame_addr_def demo_simps dma_maps_def frame_of_def)

theorem device_path_exact_witness:
  "\<exists>fetch words'. device_reach words' 3 3 0x80001007 fetch = Some \<lparr>rc_pa = 0x40401007, rc_perm = Rw, rc_xn = True\<rparr> \<and>
     device_reach words' 3 3 0x80002000 fetch = Some \<lparr>rc_pa = 0x40402000, rc_perm = Ro, rc_xn = True\<rparr> \<and>
     gt_authorizes (grant dma_state) 0 1 2 False \<and> device_reach words' 3 4 0x80001007 fetch = None"
proof -
  obtain t where t: "encode (mp_base dma_maps) (mp_sup dma_maps) demo_layout no_tables = Some t"
    using encode_means [OF demo_valid demo_sides(2,3), of "mp_sup dma_maps"] by (auto simp: dma_maps_def)
  let ?fetch = "tables_fetch demo_layout t"
  define im where "im = \<lparr>im_layout = demo_layout, im_maps = dma_maps, im_tables = t, im_handles = dma_handles\<rparr>"
  define images where "images d = (if d = 1 then Some im else None)" for d :: nat
  obtain words' where d: "derive_stream_table (replicate 64 7) 3 (device dma_state) [3] [None, Some (h_binding dma_handles)] = (Ok (), words')"
    using dma_derivable derive_Ok_iff by (metis prod.collapse)
  have start: "hv_start (hv_new 2 2 2 1 1 3 1)" by (rule hv_startI) simp_all
  have B: "map (\<lambda>d. map_option (\<lambda>im. h_binding (im_handles im)) (images d)) [0..<hv_domain_count dma_state] =
      [None, Some (h_binding dma_handles)]"
    unfolding dma_state_facts two_devices by (simp add: images_def im_def)
  have "provisioned ?fetch dma_state 1 im"
    unfolding provisioned_def im_def using demo_valid demo_sides(1,2,4) demo_sides(3) [of "mp_sup dma_maps"] t dma_handles_Ok dma_state_facts(1)
    by (auto simp: dma_maps_def)
  then have p: "\<forall>d im. images d = Some im \<longrightarrow> provisioned ?fetch dma_state d im" by (simp add: images_def)
  note path = device_path_exact [OF start dma_state_def p, unfolded B, OF d]
  have hs: "holder_of_stream (device dma_state) [3] sid = (if sid = 3 then Some 1 else None)" for sid
    by (simp add: holder_of_stream_def dma_state_facts dv_device_count_def vec_get_def dv_holder_of_def)
  have reach: "im_reach im 0x80001007 = Some \<lparr>rc_pa = 0x40401007, rc_perm = Rw, rc_xn = True\<rparr>"
    "im_reach im 0x80002000 = Some \<lparr>rc_pa = 0x40402000, rc_perm = Ro, rc_xn = True\<rparr>" "im_layout im = demo_layout"
    unfolding im_reach_def im_def by (simp_all add: dma_windows)
  have i: "images 1 = Some im" "images (Suc 0) = Some im" by (simp_all add: images_def)
  have "device_reach words' 3 3 0x80001007 ?fetch = Some \<lparr>rc_pa = 0x40401007, rc_perm = Rw, rc_xn = True\<rparr>"
    using path [of 3 "0x80001007"] by (simp add: hs i reach)
  moreover have "device_reach words' 3 3 0x80002000 ?fetch = Some \<lparr>rc_pa = 0x40402000, rc_perm = Ro, rc_xn = True\<rparr> \<and>
      gt_authorizes (grant dma_state) 0 1 2 False"
    using path [of 3 "0x80002000"] by (simp add: hs i reach dma_windows(3) dma_state_facts(4) reach_writable_def)
  moreover have "device_reach words' 3 4 0x80001007 ?fetch = None" using path [of 4 "0x80001007"] by (simp add: hs)
  ultimately show ?thesis by blast
qed

end
