(* ===== verification/Queries.thy ===== *)
theory Queries
  imports Hypervisor_Inv
begin

text \<open>
  The public queries of the two subsystems whose stored state a refused call may leave in another
  shape: the page frames of \<open>hv-core/src/p2m.rs\<close>, where the remembered level of an untyped frame may
  differ, and the grant tables of \<open>hv-core/src/grant.rs\<close>, where dead mapping slots may differ. Two
  states answer alike when every query agrees for every argument; the lemmas show that what a refused
  call keeps (\<open>hv_same\<close>) decides every answer.
\<close>

section \<open>States that answer alike\<close>

definition same_p2m_answers :: "P2mSystem \<Rightarrow> P2mSystem \<Rightarrow> bool" where
  "same_p2m_answers p p' \<longleftrightarrow>
     (\<forall>m. pm_is_allocated p' m = pm_is_allocated p m \<and> pm_owner_of p' m = pm_owner_of p m \<and>
        pm_refs p' m = pm_refs p m \<and> pm_executable_refs p' m = pm_executable_refs p m \<and>
        (\<forall>ty. pm_type_refs p' m ty = pm_type_refs p m ty) \<and> pm_current_type p' m = pm_current_type p m \<and>
        pm_is_pinned p' m = pm_is_pinned p m \<and> (\<forall>ty. pm_can_acquire p' m ty = pm_can_acquire p m ty) \<and>
        (\<forall>slot. pm_child_at p' m slot = pm_child_at p m slot) \<and>
        pm_is_foreign_linked p' m = pm_is_foreign_linked p m \<and>
        (\<forall>d. pm_is_foreign_linked_by p' m d = pm_is_foreign_linked_by p m d)) \<and>
     (\<forall>d. pm_has_foreign_link_into p' d = pm_has_foreign_link_into p d) \<and>
     pm_active_links p' = pm_active_links p \<and> pm_link_edges p' = pm_link_edges p \<and>
     pm_frame_count p' = pm_frame_count p \<and> pm_domain_count p' = pm_domain_count p \<and>
     pm_allocated_count p' = pm_allocated_count p \<and> pm_first_violation p' = pm_first_violation p"

definition same_grant_answers :: "GrantSystem \<Rightarrow> GrantSystem \<Rightarrow> bool" where
  "same_grant_answers g g' \<longleftrightarrow>
     (\<forall>d k. gt_is_granted g' d k = gt_is_granted g d k \<and> gt_map_count g' d k = gt_map_count g d k \<and>
        gt_writable_map_count g' d k = gt_writable_map_count g d k \<and> gt_grantee_of g' d k = gt_grantee_of g d k \<and>
        gt_granted_frame g' d k = gt_granted_frame g d k \<and> gt_grant_entry g' d k = gt_grant_entry g d k \<and>
        (\<forall>r w. gt_copy g' r d k w = gt_copy g r d k w)) \<and>
     (\<forall>d r f w. gt_authorizes g' d r f w = gt_authorizes g d r f w) \<and>
     (\<forall>d. gt_entry_count g' d = gt_entry_count g d \<and> gt_any_grant_to g' d = gt_any_grant_to g d \<and>
        gt_has_foreign_map g' d = gt_has_foreign_map g d \<and> gt_holds_any_map g' d = gt_holds_any_map g d \<and>
        gt_handle_slots g' d = gt_handle_slots g d \<and> (\<forall>hn. gt_mapping_at g' d hn = gt_mapping_at g d hn)) \<and>
     gt_domain_count g' = gt_domain_count g \<and> gt_active_maps g' = gt_active_maps g \<and>
     gt_first_violation g' = gt_first_violation g"

section \<open>Page frames\<close>

lemma pm_refs_info:
  "pm_type_refs p m ty = map_option (\<lambda>i. case ty of PageType.Writable \<Rightarrow> writable_refs i
     | PageTable lvl \<Rightarrow> if pagetable_refs i > 0 \<and> pt_level i = lvl then pagetable_refs i else 0) (pm_info p m)"
  "pm_executable_refs p m = map_option executable_refs (pm_info p m)"
  by (cases "pm_info p m"; auto simp: pm_type_refs_def pm_executable_refs_def pm_frame_info dest!: pm_frame_info(2))+

text \<open>Two frames that differ at most in the level remembered without a table reference.\<close>

lemma canon_cases:
  assumes "map_option pm_canon (pm_info p' m) = map_option pm_canon (pm_info p m)"
  obtains (none) "pm_info p m = None" "pm_info p' m = None"
    | (some) i j where "pm_info p m = Some i" "pm_info p' m = Some j" "owner j = owner i" "refs j = refs i"
      "writable_refs j = writable_refs i" "executable_refs j = executable_refs i" "pagetable_refs j = pagetable_refs i"
      "pinned j = pinned i" "pagetable_refs i \<noteq> 0 \<longrightarrow> pt_level j = pt_level i"
proof (cases "pm_info p m")
  case None
  with assms none show thesis by simp
next
  case (Some i)
  with assms obtain j where j: "pm_info p' m = Some j" "pm_canon j = pm_canon i" by auto
  from j(2) have "owner j = owner i" "refs j = refs i" "writable_refs j = writable_refs i" "executable_refs j = executable_refs i"
    "pagetable_refs j = pagetable_refs i" "pinned j = pinned i" "pagetable_refs i \<noteq> 0 \<longrightarrow> pt_level j = pt_level i"
    by (cases i; cases j; auto simp: pm_canon_def split: if_splits)+
  with Some j(1) some show thesis by blast
qed

lemma canon_frame_answers:
  assumes c: "map_option pm_canon (pm_info p' m) = map_option pm_canon (pm_info p m)"
  shows "pm_is_allocated p' m = pm_is_allocated p m" "pm_owner_of p' m = pm_owner_of p m" "pm_refs p' m = pm_refs p m"
    "pm_executable_refs p' m = pm_executable_refs p m" "pm_type_refs p' m ty = pm_type_refs p m ty"
    "pm_current_type p' m = pm_current_type p m" "pm_is_pinned p' m = pm_is_pinned p m"
  using c by (cases rule: canon_cases;
      auto simp: pm_query_simps pm_current_type_eq pm_refs_info split: PageType.split)+

lemma canon_acquire:
  assumes c: "map_option pm_canon (pm_info p' m) = map_option pm_canon (pm_info p m)" and n: "length (frames p') = length (frames p)"
  shows "pm_can_acquire p' m ty = pm_can_acquire p m ty"
  using c
proof (cases rule: canon_cases)
  case none
  then have "pm_frame p' m = pm_frame p m" using n by (auto simp: pm_info_None pm_frame_eq)
  then show ?thesis by (simp add: pm_can_acquire_def)
next
  case (some i j)
  have "pagetable_refs i > 0 \<and> pt_level j \<noteq> lvl \<longleftrightarrow> pagetable_refs i > 0 \<and> pt_level i \<noteq> lvl" for lvl
    using some(9) by auto
  then have "acquire_check (Allocated j) ty = acquire_check (Allocated i) ty"
    by (simp add: acquire_check_def some(3-8) cong: option.case_cong PageType.case_cong)
  with some(1,2) show ?thesis by (simp add: pm_can_acquire_def pm_frame_info)
qed

lemma pm_same_answers:
  assumes same: "pm_same p p'" and ok: "pm_ok H p" "pm_ok H' p'"
  shows "same_p2m_answers p p'"
proof -
  from same have l: "links p' = links p" and n: "length (frames p') = length (frames p)" "pm_num_domains p' = pm_num_domains p"
    and c: "\<And>m. map_option pm_canon (pm_info p' m) = map_option pm_canon (pm_info p m)"
    by (auto simp: pm_same_def)
  have own: "pm_owner_of p' = pm_owner_of p" using canon_frame_answers(2) [OF c] by blast
  have "frames p' ! m \<noteq> Frame.Free \<longleftrightarrow> frames p ! m \<noteq> Frame.Free" if "m < length (frames p)" for m
    using c [of m] that n(1) by (cases "frames p' ! m"; cases "frames p ! m") (auto simp: pm_info_def vec_get_def)
  then have count: "pm_allocated_count p' = pm_allocated_count p"
    unfolding pm_allocated_count_def length_filter_conv_card n(1) by (intro arg_cong [where f = card]) auto
  have idx: "pm_link_index p' = pm_link_index p" by (simp add: fun_eq_iff pm_link_index_def l)
  show ?thesis
    unfolding same_p2m_answers_def
    using canon_frame_answers [OF c] canon_acquire [OF c n(1)] count pm_ok_no_violation [OF ok(1)] pm_ok_no_violation [OF ok(2)]
    by (simp add: pm_child_at_def idx l pm_active_links_def pm_link_edges_def pm_has_foreign_link_into_def own
        pm_is_foreign_linked_def pm_is_foreign_linked_by_def pm_frame_count_def pm_domain_count_def n)
qed

section \<open>Grants\<close>

lemma fold_max_Max: "fold max xs (n :: nat) = Max (set (n # xs))"
  by (metis List.finite_set Max.set_eq_fold)

lemma gt_find_determined:
  assumes ok: "gt_ok g" and live: "gt_live g' = gt_live g"
  shows "gt_mapping_at g' r hn = gt_mapping_at g r hn"
proof -
  let ?P = "\<lambda>m. active m \<and> m_grantee m = r \<and> m_handle m = hn"
  show ?thesis
  proof (cases "find ?P (gt_maps g)")
    case None
    then have "find ?P (gt_maps g') = None" using live unfolding gt_find_None by simp
    with None show ?thesis by (simp add: gt_mapping_at_def)
  next
    case (Some m)
    then have m: "m \<in># gt_live g" "gt_named r hn m" using gt_find_Some by blast+
    then have "find ?P (gt_maps g') \<noteq> None" using live unfolding gt_find_None by auto
    then obtain m' where m': "find ?P (gt_maps g') = Some m'" by blast
    then have "m' \<in># gt_live g" "gt_named r hn m'" using gt_find_Some live by fastforce+
    then have "m' = m" using gt_named_unique [OF ok, of m _ m' r hn] m by (metis insert_DiffM insert_noteq_member)
    with Some m' show ?thesis by (simp add: gt_mapping_at_def)
  qed
qed

lemma gt_live_answers:
  assumes "gt_live g' = gt_live g"
  shows "gt_has_foreign_map g' d = gt_has_foreign_map g d" "gt_holds_any_map g' d = gt_holds_any_map g d"
    "gt_handle_slots g' d = gt_handle_slots g d" "gt_active_maps g' = gt_active_maps g"
proof -
  show "gt_has_foreign_map g' d = gt_has_foreign_map g d" "gt_holds_any_map g' d = gt_holds_any_map g d"
    unfolding gt_has_foreign_iff gt_holds_any_iff assms by simp_all
  have "set (filter (\<lambda>m. active m \<and> m_grantee m = d) (gt_maps u)) = {m. m \<in># gt_live u \<and> m_grantee m = d}" for u
    by (auto simp: gt_live_def)
  then show "gt_handle_slots g' d = gt_handle_slots g d" unfolding gt_handle_slots_def fold_max_Max by (simp add: assms)
  have "gt_active_maps u = size (gt_live u)" for u
    by (simp add: gt_active_maps_def gt_live_def flip: mset_filter)
  then show "gt_active_maps g' = gt_active_maps g" by (simp add: assms)
qed

lemma gt_same_answers:
  assumes d: "gt_domains g' = gt_domains g" and live: "gt_live g' = gt_live g" and ok: "gt_ok g" "gt_ok g'"
  shows "same_grant_answers g g'"
proof -
  have dom: "gt_domain g' = gt_domain g" by (simp add: fun_eq_iff gt_domain_def d)
  have e: "gt_entry g' = gt_entry g" by (simp add: fun_eq_iff gt_entry_def d)
  have cnt: "gt_entry_count g' = gt_entry_count g" "gt_grantee_of g' = gt_grantee_of g" "gt_domain_count g' = gt_domain_count g"
    by (simp_all add: fun_eq_iff gt_entry_count_def gt_grantee_of_def gt_domain_count_def dom e d)
  show ?thesis
    unfolding same_grant_answers_def
    using gt_live_answers [OF live] gt_find_determined [OF ok(1) live] gt_ok_no_violation [OF ok(1)] gt_ok_no_violation [OF ok(2)]
    by (simp add: gt_is_granted_def gt_map_count_def gt_writable_map_count_def gt_granted_frame_def gt_grant_entry_def
        gt_copy_def gt_authorizes_def gt_any_grant_to_def cnt dom e)
qed

lemma hv_same_answers:
  assumes "hv_same h h'" "hv_ok h" "hv_ok h'"
  shows "same_p2m_answers (p2m h) (p2m h')" "same_grant_answers (grant h) (grant h')"
    "first_cross_violation h' = first_cross_violation h"
  using assms pm_same_answers [OF _ hv_okD(4) [OF assms(2)] hv_okD(4) [OF assms(3)]]
    gt_same_answers [OF _ _ hv_okD(3) [OF assms(2)] hv_okD(3) [OF assms(3)]]
    hv_ok_checked(1) [OF assms(2)] hv_ok_checked(1) [OF assms(3)]
  by (simp_all add: hv_same_def)

end
