(* ===== verification/Noninterference.thy ===== *)
theory Noninterference
  imports Hypervisor_Frame Queries "HOL-Library.List_Lexorder"
begin

text \<open>
  The isolation property of the core, \<open>hv-sim/src/noninterference.rs\<close>: what a domain can observe
  (\<open>obs\<close>), which domains may act on it (the channels of \<open>authorized\<close>), and local respect, the
  statement that a step by a domain without a channel leaves the observation as it was. The source
  checks it by enumeration up to a small depth; here it is proved for every reachable state of
  every size, up to one component of the observation for which it is false, with the run that
  shows it. Observations are the source's list of numbers, in its order.
\<close>

section \<open>Authorized channels\<close>

record Channels =
  ch_grant :: bool
  ch_evtchn :: bool
  ch_control :: bool
  ch_create :: bool
  ch_teardown_reach :: bool
  ch_teardown_borrow :: bool

definition channels_full :: Channels where
  "channels_full = \<lparr>ch_grant = True, ch_evtchn = True, ch_control = True, ch_create = True,
     ch_teardown_reach = True, ch_teardown_borrow = True\<rparr>"

definition a_grants_to :: "Hypervisor \<Rightarrow> DomId \<Rightarrow> DomId \<Rightarrow> bool" where
  "a_grants_to h a b =
     list_ex (\<lambda>gref. case gt_grant_entry (grant h) a gref of Some (grantee, _) \<Rightarrow> grantee = b | None \<Rightarrow> False)
       [0..<as_u32 (gt_entry_count (grant h) a)]"

definition a_borrows_from :: "Hypervisor \<Rightarrow> DomId \<Rightarrow> DomId \<Rightarrow> bool" where
  "a_borrows_from h a b \<longleftrightarrow>
     list_ex (\<lambda>hn. case gt_mapping_at (grant h) a hn of Some (grantor, _) \<Rightarrow> grantor = b | None \<Rightarrow> False)
       [0..<as_u32 (gt_handle_slots (grant h) a)] \<or>
     list_ex (\<lambda>(parent, _, child, _). pm_owner_of (p2m h) parent = Some a \<and> pm_owner_of (p2m h) child = Some b)
       (pm_link_edges (p2m h))"

definition a_port_toward :: "Hypervisor \<Rightarrow> DomId \<Rightarrow> DomId \<Rightarrow> bool" where
  "a_port_toward h a b =
     list_ex (\<lambda>port. case ev_state_of (evtchn h) a port of
         Some (Unbound remote) \<Rightarrow> remote = b
       | Some (Interdomain remote _) \<Rightarrow> remote = b
       | _ \<Rightarrow> False)
       [0..<as_u32 (ev_port_count (evtchn h) a)]"

definition teardown_reach_to :: "Hypervisor \<Rightarrow> DomId \<Rightarrow> DomId \<Rightarrow> bool" where
  "teardown_reach_to h b a =
     list_ex (\<lambda>c. hv_controls h b c \<and> (a_grants_to h a c \<or> a_port_toward h a c)) [0..<as_u16 (hv_domain_count h)]"

definition teardown_borrow_from :: "Hypervisor \<Rightarrow> DomId \<Rightarrow> DomId \<Rightarrow> bool" where
  "teardown_borrow_from h b a =
     list_ex (\<lambda>c. (c = b \<or> hv_controls h b c) \<and> a_borrows_from h a c) [0..<as_u16 (hv_domain_count h)]"

definition authorized :: "Channels \<Rightarrow> Hypervisor \<Rightarrow> DomId \<Rightarrow> DomId \<Rightarrow> bool" where
  "authorized ch h b a \<longleftrightarrow>
     b = a \<or> ch_grant ch \<and> a_grants_to h a b \<or> ch_evtchn ch \<and> a_port_toward h a b \<or>
     ch_control ch \<and> hv_controls h b a \<or> ch_create ch \<and> hv_may_create h b \<and> \<not> is_live h a \<or>
     ch_teardown_reach ch \<and> teardown_reach_to h b a \<or> ch_teardown_borrow ch \<and> teardown_borrow_from h b a"

fun transition_actor :: "Transition \<Rightarrow> DomId" where
  "transition_actor (Guest caller _) = caller"
| "transition_actor (RaiseVcpuVirq d _ _) = d"

section \<open>Observations\<close>

fun level_tag :: "PageType option \<Rightarrow> nat" where
  "level_tag None = 0"
| "level_tag (Some PageType.Writable) = 1"
| "level_tag (Some (PageTable L1)) = 2"
| "level_tag (Some (PageTable L2)) = 3"
| "level_tag (Some (PageTable L3)) = 4"
| "level_tag (Some (PageTable L4)) = 5"

definition obs_ports :: "Hypervisor \<Rightarrow> DomId \<Rightarrow> nat list" where
  "obs_ports h a =
     concat (map (\<lambda>port.
       let (tag, x, y) =
         (case ev_state_of (evtchn h) a port of
            Some (Unbound remote) \<Rightarrow> (1, remote, 0)
          | Some (Interdomain remote remote_port) \<Rightarrow> (2, remote, remote_port)
          | Some (PortState.Virq vcpu virq) \<Rightarrow> (3, vcpu, virq)
          | Some (PortState.Ipi vcpu) \<Rightarrow> (4, vcpu, 0)
          | _ \<Rightarrow> (0, 0, 0))
       in [tag, x, y, of_bool (ev_is_pending (evtchn h) a port), of_bool (ev_is_masked (evtchn h) a port)])
       [0..<as_u32 (ev_port_count (evtchn h) a)])"

definition obs_grants :: "Hypervisor \<Rightarrow> DomId \<Rightarrow> nat list" where
  "obs_grants h a =
     concat (map (\<lambda>gref.
       case gt_grant_entry (grant h) a gref of
         Some (grantee, frame, ro, maps, wmaps) \<Rightarrow>
           [1, grantee, frame, of_bool ro, maps, wmaps, of_bool (pm_is_foreign_linked_by (p2m h) frame grantee)]
       | None \<Rightarrow> [0, 0, 0, 0, 0, 0, 0])
       [0..<as_u32 (gt_entry_count (grant h) a)])"

definition obs_maps :: "Hypervisor \<Rightarrow> DomId \<Rightarrow> nat list" where
  "obs_maps h a =
     concat (map (\<lambda>hn.
       case gt_mapping_at (grant h) a hn of
         Some (grantor, gref, w) \<Rightarrow> [1, grantor, gref, of_bool w]
       | None \<Rightarrow> [0, 0, 0, 0])
       [0..<as_u32 (gt_handle_slots (grant h) a)])"

definition obs_vcpus :: "Hypervisor \<Rightarrow> DomId \<Rightarrow> nat list" where
  "obs_vcpus h a =
     concat (map (\<lambda>vcpu.
       let (tag, pc) =
         (case sc_state_of (sched h) a vcpu of
            Some Runnable \<Rightarrow> (1, 0)
          | Some (Running pcpu) \<Rightarrow> (2, pcpu)
          | Some Blocked \<Rightarrow> (3, 0)
          | _ \<Rightarrow> (0, 0))
       in [tag, pc, case sc_affinity_of (sched h) a vcpu of Some m \<Rightarrow> unat m | None \<Rightarrow> 0])
       [0..<as_u32 (sc_vcpu_count (sched h) a)])"

definition obs_frames :: "Hypervisor \<Rightarrow> DomId \<Rightarrow> nat list" where
  "obs_frames h a =
     concat (map (\<lambda>mfn.
       if pm_owner_of (p2m h) mfn = Some a then
         (let ty = pm_current_type (p2m h) mfn;
              pt_refs = (case ty of Some (PageTable l) \<Rightarrow> count_or_zero (pm_type_refs (p2m h) mfn (PageTable l)) | _ \<Rightarrow> 0)
          in [1, mfn, count_or_zero (pm_refs (p2m h) mfn), count_or_zero (pm_type_refs (p2m h) mfn PageType.Writable),
              count_or_zero (pm_executable_refs (p2m h) mfn), pt_refs, level_tag ty, of_bool (pm_is_pinned (p2m h) mfn)])
       else [])
       [0..<as_u32 (pm_frame_count (p2m h))])"

definition obs_edges :: "Hypervisor \<Rightarrow> DomId \<Rightarrow> nat list list" where
  "obs_edges h a =
     sort (map (\<lambda>(par, slot, ch, w, leaf, execute). [par, slot, ch, of_bool w, of_bool leaf, of_bool execute])
       (filter (\<lambda>(parent, _). pm_owner_of (p2m h) parent = Some a) (pm_link_edges (p2m h))))"

definition obs_devices :: "Hypervisor \<Rightarrow> DomId \<Rightarrow> nat list" where
  "obs_devices h a = filter (\<lambda>dev. dv_holder_of (device h) dev = Some a) [0..<as_u16 (dv_device_count (device h))]"

definition obs :: "Hypervisor \<Rightarrow> DomId \<Rightarrow> nat list" where
  "obs h a =
     [of_bool (is_live h a), case hv_balance h a of Some b \<Rightarrow> unat b | None \<Rightarrow> 0, 0xD0000] @
     obs_ports h a @ [0xD0001] @ obs_grants h a @ [0xD0002] @ obs_maps h a @ [0xD0003] @ obs_vcpus h a @ [0xD0004] @
     obs_frames h a @ [0xD0005] @ [length (obs_edges h a)] @ concat (obs_edges h a) @ [0xD0006] @ obs_devices h a"

text \<open>
  The one call the last column of a grant row can show without a channel: the end of a domain that
  owns a frame the row names. \<open>strangers_run\<close>: every transition is by a domain without a channel at
  its time, and is not that call; the handles of \<open>a\<close> fit the 32-bit loop of \<open>a_borrows_from\<close>.
\<close>

fun names_frame_of_dying :: "Hypervisor \<Rightarrow> DomId \<Rightarrow> Transition \<Rightarrow> bool" where
  "names_frame_of_dying h a (Guest _ (DomainDestroy t _)) =
     list_ex (\<lambda>k. case gt_granted_frame (grant h) a k of Some f \<Rightarrow> pm_owner_of (p2m h) f = Some t | None \<Rightarrow> False)
       [0..<gt_entry_count (grant h) a]"
| "names_frame_of_dying h a _ = False"

fun strangers_run :: "Hypervisor \<Rightarrow> DomId \<Rightarrow> Transition list \<Rightarrow> bool" where
  "strangers_run h a [] = True"
| "strangers_run h a (tr # trs) \<longleftrightarrow>
     gt_handle_slots (grant h) a < u32_size \<and> \<not> authorized channels_full h (transition_actor tr) a \<and>
     \<not> names_frame_of_dying h a tr \<and> strangers_run (snd (hv_apply h tr)) a trs"

definition stale_state :: Hypervisor where
  "stale_state = hv_run [Guest 0 (DomainCreate 1 False), Guest 0 (DomainCreate 2 False), Guest 1 (P2mAllocate 0),
     Guest 2 (P2mAllocate 1), Guest 2 (P2mPin 1 L1), Guest 1 (GrantAccess 0 2 0 True),
     Guest 2 (P2mLink 1 3 0 False True False), Guest 0 (GrantAccess 0 2 0 True)] (hv_new 3 1 1 1 1 2 1)"

section \<open>What a domain sees of each subsystem\<close>

definition ev_kept :: "DomId \<Rightarrow> EvtchnSystem \<Rightarrow> EvtchnSystem \<Rightarrow> bool" where
  "ev_kept a e e' \<longleftrightarrow> ev_port_count e' a = ev_port_count e a \<and> (\<forall>p. ev_get e' a p = ev_get e a p)"

definition sc_kept :: "DomId \<Rightarrow> SchedSystem \<Rightarrow> SchedSystem \<Rightarrow> bool" where
  "sc_kept a s s' \<longleftrightarrow> sc_vcpu_count s' a = sc_vcpu_count s a \<and> (\<forall>v. sc_get s' a v = sc_get s a v)"

text \<open>The grants a domain is a side of: its offers, and the live mappings it granted or holds.\<close>

definition gt_kept :: "DomId \<Rightarrow> GrantSystem \<Rightarrow> GrantSystem \<Rightarrow> bool" where
  "gt_kept a g g' \<longleftrightarrow> gt_entry_count g' a = gt_entry_count g a \<and> (\<forall>k. gt_offer g' a k = gt_offer g a k) \<and>
     filter_mset (\<lambda>m. m_grantor m = a \<or> m_grantee m = a) (gt_live g') =
     filter_mset (\<lambda>m. m_grantor m = a \<or> m_grantee m = a) (gt_live g)"

text \<open>The frames a domain owns, up to the level of a frame that is no page table.\<close>

definition pm_kept :: "DomId \<Rightarrow> P2mSystem \<Rightarrow> P2mSystem \<Rightarrow> bool" where
  "pm_kept a p p' \<longleftrightarrow> pm_frame_count p' = pm_frame_count p \<and>
     (\<forall>m. pm_owner_of p m = Some a \<or> pm_owner_of p' m = Some a \<longrightarrow>
        map_option pm_canon (pm_info p' m) = map_option pm_canon (pm_info p m))"

definition pm_rooted :: "DomId \<Rightarrow> P2mSystem \<Rightarrow> Link multiset" where
  "pm_rooted a p = filter_mset (\<lambda>l. pm_owner_of p (l_parent l) = Some a) (pm_live p)"

definition dv_kept :: "DomId \<Rightarrow> DeviceSystem \<Rightarrow> DeviceSystem \<Rightarrow> bool" where
  "dv_kept a v v' \<longleftrightarrow> dv_device_count v' = dv_device_count v \<and>
     (\<forall>dev. dv_holder_of v' dev = Some a \<longleftrightarrow> dv_holder_of v dev = Some a)"

definition unmoved :: "DomId \<Rightarrow> Hypervisor \<Rightarrow> Hypervisor \<Rightarrow> bool" where
  "unmoved a h h' \<longleftrightarrow> is_live h' a = is_live h a \<and> hv_balance h' a = hv_balance h a \<and>
     ev_kept a (evtchn h) (evtchn h') \<and> gt_kept a (grant h) (grant h') \<and> sc_kept a (sched h) (sched h') \<and>
     pm_kept a (p2m h) (p2m h') \<and> pm_rooted a (p2m h') = pm_rooted a (p2m h) \<and> dv_kept a (device h) (device h')"

text \<open>The last column of the grant rows: whether the grantee has linked the frame.\<close>

definition same_links_seen :: "DomId \<Rightarrow> Hypervisor \<Rightarrow> Hypervisor \<Rightarrow> bool" where
  "same_links_seen a h h' \<longleftrightarrow> (\<forall>k r f ro. gt_offer (grant h) a k = Some (r, f, ro) \<longrightarrow>
     pm_is_foreign_linked_by (p2m h') f r = pm_is_foreign_linked_by (p2m h) f r)"

lemma kept_refl [simp]: "ev_kept a e e" "sc_kept a s s" "gt_kept a g g" "pm_kept a p p" "dv_kept a v v" "unmoved a h h"
  "same_links_seen a h h"
  by (simp_all add: ev_kept_def sc_kept_def gt_kept_def pm_kept_def dv_kept_def unmoved_def same_links_seen_def)

lemma ev_kept_trans: "ev_kept a e f \<Longrightarrow> ev_kept a f g \<Longrightarrow> ev_kept a e g"
  by (simp add: ev_kept_def)

lemma pm_kept_trans:
  assumes "pm_kept a p q" "pm_kept a q r" shows "pm_kept a p r"
proof -
  have own: "map_option owner (map_option pm_canon x) = map_option owner x" for x
    by (cases x) (auto simp: pm_canon_def)
  have "pm_owner_of p m = Some a \<longleftrightarrow> pm_owner_of q m = Some a" "pm_owner_of q m = Some a \<longleftrightarrow> pm_owner_of r m = Some a" for m
    using assms own [of "pm_info p m"] own [of "pm_info q m"] own [of "pm_info r m"]
    unfolding pm_kept_def pm_query_simps by metis+
  then show ?thesis using assms unfolding pm_kept_def by metis
qed

subsection \<open>The observation depends on nothing else\<close>

lemma gt_rows_kept:
  assumes ok: "gt_ok g" "gt_ok g'" and k: "gt_kept a g g'"
  shows "gt_grant_entry g' a n = gt_grant_entry g a n"
proof (cases "gt_offer g a n")
  case None
  moreover from this have "gt_offer g' a n = None" using k by (simp add: gt_kept_def)
  ultimately show ?thesis
    by (auto simp: gt_offer_def gt_grant_entry_def gt_entry_eq split: option.splits GrantEntry.splits)
next
  case (Some off)
  then obtain r f ro x w x' w' where e: "gt_get g a n = Some (Access r f ro x w)" "gt_get g' a n = Some (Access r f ro x' w')"
    using k unfolding gt_kept_def by (cases off) (metis gt_offer_Some)
  have t: "gt_tally (\<lambda>m. gt_over a n m \<and> Q m) (gt_live u) =
      gt_tally (\<lambda>m. gt_over a n m \<and> Q m) (filter_mset (\<lambda>m. m_grantor m = a \<or> m_grantee m = a) (gt_live u))" for u Q
    by (rule arg_cong [where f = size]) (auto simp: filter_filter_mset gt_over_def intro!: filter_mset_cong)
  have "x' = x" "w' = w"
    using gt_ok_entry(2,3) [OF ok(1) e(1)] gt_ok_entry(2,3) [OF ok(2) e(2)] t [of "\<lambda>_. True"] t [of m_writable] k
    by (simp_all add: gt_kept_def)
  with e show ?thesis by (simp add: gt_grant_entry_def gt_entry_eq)
qed

lemma gt_kept_live: "gt_kept a g g' \<Longrightarrow> m_grantee m = a \<Longrightarrow> m \<in># gt_live g' \<longleftrightarrow> m \<in># gt_live g"
  unfolding gt_kept_def by (metis (mono_tags, lifting) filter_mset_eq_conv mem_Collect_eq set_mset_filter)

lemma gt_maps_kept:
  assumes ok: "gt_ok g" and k: "gt_kept a g g'"
  shows "gt_mapping_at g' a n = gt_mapping_at g a n"
proof -
  let ?P = "\<lambda>m. active m \<and> m_grantee m = a \<and> m_handle m = n"
  note live = gt_kept_live [OF k]
  show ?thesis
  proof (cases "find ?P (gt_maps g)")
    case None
    then have "find ?P (gt_maps g') = None" using live unfolding gt_find_None gt_named_def by blast
    with None show ?thesis by (simp add: gt_mapping_at_def)
  next
    case (Some m)
    then have m: "m \<in># gt_live g" "gt_named a n m" using gt_find_Some by blast+
    then have "m \<in># gt_live g'" using live by (simp add: gt_named_def)
    then obtain m' where s: "find ?P (gt_maps g') = Some m'" using m(2) gt_find_None [of a n g'] by fastforce
    then have "m' \<in># gt_live g" "gt_named a n m'" using gt_find_Some [of a n g' m'] live by (auto simp: gt_named_def)
    moreover obtain M where "gt_live g = add_mset m M" using m(1) by (blast dest: multi_member_split)
    ultimately have "m' = m" using gt_named_unique [OF ok, of m M m'] m(2) by auto
    with Some s show ?thesis by (simp add: gt_mapping_at_def)
  qed
qed

lemma gt_slots_kept:
  assumes "gt_kept a g g'" shows "gt_handle_slots g' a = gt_handle_slots g a"
proof -
  have "set (filter (\<lambda>m. active m \<and> m_grantee m = a) (gt_maps u)) = {m. m \<in># gt_live u \<and> m_grantee m = a}" for u
    by (auto simp: gt_live_def)
  moreover have "{m. m \<in># gt_live g' \<and> m_grantee m = a} = {m. m \<in># gt_live g \<and> m_grantee m = a}"
    using gt_kept_live [OF assms] by blast
  ultimately show ?thesis unfolding gt_handle_slots_def fold_max_Max by simp
qed

lemma pm_obs_canon:
  assumes "map_option pm_canon (pm_info p' m) = map_option pm_canon (pm_info p m)"
  shows "pm_owner_of p' m = pm_owner_of p m" "pm_refs p' m = pm_refs p m"
    "pm_type_refs p' m PageType.Writable = pm_type_refs p m PageType.Writable"
    "pm_executable_refs p' m = pm_executable_refs p m" "pm_current_type p' m = pm_current_type p m"
    "pm_current_type p m = Some (PageTable l) \<Longrightarrow> pm_type_refs p' m (PageTable l) = pm_type_refs p m (PageTable l)"
    "pm_is_pinned p' m = pm_is_pinned p m"
  using canon_frame_answers [OF assms] by simp_all

lemma pm_kept_owner: "pm_kept a p p' \<Longrightarrow> pm_owner_of p' m = Some a \<longleftrightarrow> pm_owner_of p m = Some a"
  unfolding pm_kept_def by (metis pm_obs_canon(1))

lemma obs_frames_kept:
  assumes k: "pm_kept a (p2m h) (p2m h')" shows "obs_frames h' a = obs_frames h a"
proof -
  have "map_option pm_canon (pm_info (p2m h') m) = map_option pm_canon (pm_info (p2m h) m)" if "pm_owner_of (p2m h) m = Some a" for m
    using k that unfolding pm_kept_def by blast
  note c = pm_obs_canon [OF this]
  show ?thesis
    unfolding obs_frames_def pm_kept_owner [OF k] using k
    by (auto simp: pm_kept_def Let_def c cong: if_cong split: option.splits PageType.splits intro!: arg_cong [where f = concat] map_cong)
qed

lemma obs_edges_kept:
  assumes r: "pm_rooted a (p2m h') = pm_rooted a (p2m h)" shows "obs_edges h' a = obs_edges h a"
proof -
  let ?f = "\<lambda>(par, slot, ch, w, leaf, execute). [par, slot, ch, of_bool w, of_bool leaf, of_bool execute] :: nat list"
  let ?g = "\<lambda>l. (l_parent l, l_slot l, l_child l, l_writable l, l_leaf l, l_execute l)"
  have "mset (map ?f (filter (\<lambda>(parent, _). pm_owner_of p parent = Some a) (pm_link_edges p))) =
      image_mset (\<lambda>l. ?f (?g l)) (pm_rooted a p)" for p
    unfolding pm_link_edges_def pm_rooted_def pm_live_def by (simp add: filter_map comp_def filter_filter_mset conj_commute flip: mset_filter)
  then have "mset (map ?f (filter (\<lambda>(parent, _). pm_owner_of (p2m h') parent = Some a) (pm_link_edges (p2m h')))) =
      mset (map ?f (filter (\<lambda>(parent, _). pm_owner_of (p2m h) parent = Some a) (pm_link_edges (p2m h))))"
    by (simp only: r)
  then show ?thesis unfolding obs_edges_def by (intro properties_for_sort) (simp_all del: mset_map)
qed

lemma ev_signals_get:
  "ev_is_pending e a p = (case ev_get e a p of Some c \<Rightarrow> pending c | None \<Rightarrow> False)"
  "ev_is_masked e a p = (case ev_get e a p of Some c \<Rightarrow> masked c | None \<Rightarrow> False)"
  by (simp_all add: ev_is_pending_def ev_is_masked_def ev_chan_eq split: option.split)

lemma obs_parts_kept:
  assumes h: "hv_ok h" and u: "unmoved a h h'"
  shows "obs_ports h' a = obs_ports h a" "obs_maps h' a = obs_maps h a" "obs_vcpus h' a = obs_vcpus h a"
    "obs_frames h' a = obs_frames h a" "obs_edges h' a = obs_edges h a" "obs_devices h' a = obs_devices h a"
proof -
  have e: "ev_kept a (evtchn h) (evtchn h')" and s: "sc_kept a (sched h) (sched h')" and k: "gt_kept a (grant h) (grant h')"
    and p: "pm_kept a (p2m h) (p2m h')" "pm_rooted a (p2m h') = pm_rooted a (p2m h)" and d: "dv_kept a (device h) (device h')"
    using u by (simp_all add: unmoved_def)
  show "obs_ports h' a = obs_ports h a"
    using e by (simp add: obs_ports_def ev_kept_def ev_state_of_eq ev_signals_get)
  show "obs_maps h' a = obs_maps h a"
    by (simp add: obs_maps_def gt_maps_kept [OF hv_okD(3) [OF h] k] gt_slots_kept [OF k])
  show "obs_vcpus h' a = obs_vcpus h a"
    using s by (simp add: obs_vcpus_def sc_kept_def sc_state_of_eq sc_affinity_of_def)
  show "obs_devices h' a = obs_devices h a" using d by (simp add: obs_devices_def dv_kept_def)
  show "obs_frames h' a = obs_frames h a" "obs_edges h' a = obs_edges h a"
    by (rule obs_frames_kept [OF p(1)], rule obs_edges_kept [OF p(2)])
qed

lemma obs_kept:
  assumes h: "hv_ok h" "hv_ok h'" and u: "unmoved a h h'" and l: "same_links_seen a h h'"
  shows "obs h' a = obs h a"
proof -
  note g = hv_okD(3) [OF h(1)] hv_okD(3) [OF h(2)]
  have k: "gt_kept a (grant h) (grant h')" and lv: "is_live h' a = is_live h a" "hv_balance h' a = hv_balance h a"
    using u by (simp_all add: unmoved_def)
  have "pm_is_foreign_linked_by (p2m h') f r = pm_is_foreign_linked_by (p2m h) f r"
    if "gt_grant_entry (grant h) a n = Some (r, f, x)" for n r f x
  proof -
    from that obtain ro where "gt_offer (grant h) a n = Some (r, f, ro)"
      by (auto simp: gt_grant_entry_def gt_offer_Some gt_entry_eq split: option.splits GrantEntry.splits)
    then show ?thesis using l unfolding same_links_seen_def by blast
  qed
  then have "obs_grants h' a = obs_grants h a"
    using k unfolding obs_grants_def gt_rows_kept [OF g k]
    by (auto simp: gt_kept_def split: option.splits intro!: arg_cong [where f = concat] map_cong)
  then show ?thesis unfolding obs_def lv obs_parts_kept [OF h(1) u] by simp
qed

section \<open>Domains without a channel\<close>

text \<open>Two domains with nothing between them that a call of \<open>c\<close> or the end of \<open>c\<close> could move at \<open>a\<close>.\<close>

definition apart :: "Hypervisor \<Rightarrow> DomId \<Rightarrow> DomId \<Rightarrow> bool" where
  "apart h a c \<longleftrightarrow> c \<noteq> a \<and> (\<forall>k f ro. gt_offer (grant h) a k \<noteq> Some (c, f, ro)) \<and>
     (\<forall>p. ev_state_of (evtchn h) a p \<noteq> Some (Unbound c)) \<and>
     (\<forall>p q. ev_state_of (evtchn h) a p \<noteq> Some (Interdomain c q)) \<and>
     (\<forall>m \<in># gt_live (grant h). \<not> (m_grantee m = a \<and> m_grantor m = c)) \<and>
     (\<forall>l \<in># pm_live (p2m h). \<not> (pm_owner_of (p2m h) (l_parent l) = Some a \<and> pm_owner_of (p2m h) (l_child l) = Some c))"

definition stranger :: "Hypervisor \<Rightarrow> DomId \<Rightarrow> DomId \<Rightarrow> bool" where
  "stranger h a b \<longleftrightarrow> (\<forall>c. c = b \<or> hv_controls h b c \<longrightarrow> apart h a c) \<and> (hv_may_create h b \<longrightarrow> is_live h a)"

lemma a_grants_to_iff:
  assumes "hv_ok h" shows "a_grants_to h a c \<longleftrightarrow> (\<exists>k f ro. gt_offer (grant h) a k = Some (c, f, ro))"
proof -
  have "as_u32 (gt_entry_count (grant h) a) = gt_entry_count (grant h) a"
    using hv_okD(3) [OF assms] by (auto simp: gt_ok_def gt_fits_iff gt_entry_count_eq tbl_row_len_def gt_domain_count_def)
  moreover have "k < gt_entry_count (grant h) a" if "gt_get (grant h) a k = Some e" for k e
    using gt_get_range [of "grant h" a k] that by simp
  ultimately show ?thesis
    unfolding a_grants_to_def gt_offer_Some list_ex_iff
    by (fastforce simp: gt_grant_entry_def gt_entry_eq split: option.splits GrantEntry.splits)
qed

lemma a_port_toward_iff:
  assumes "hv_ok h"
  shows "a_port_toward h a c \<longleftrightarrow>
    (\<exists>p. ev_state_of (evtchn h) a p = Some (Unbound c)) \<or> (\<exists>p q. ev_state_of (evtchn h) a p = Some (Interdomain c q))"
proof -
  have "as_u32 (ev_port_count (evtchn h) a) = ev_port_count (evtchn h) a"
    using hv_okD(1) [OF assms] by (auto simp: ev_ok_def ev_fits_iff)
  moreover have "p < ev_port_count (evtchn h) a" if "ev_state_of (evtchn h) a p = Some st" for p st
    using ev_get_range [of "evtchn h" a p] that by (auto simp: ev_state_of_eq)
  ultimately show ?thesis
    unfolding a_port_toward_def list_ex_iff by (fastforce split: option.splits PortState.splits)
qed

lemma fold_max_ge: "x \<in> set xs \<Longrightarrow> x \<le> fold max xs (n :: nat)"
  unfolding fold_max_Max by simp

lemma gt_mapping_found:
  assumes ok: "gt_ok g" and m: "m \<in># gt_live g" "m_grantee m = a"
  shows "gt_mapping_at g a (m_handle m) = Some (m_grantor m, m_gref m, m_writable m)" "m_handle m < gt_handle_slots g a"
proof -
  have n: "gt_named a (m_handle m) m" using m(2) by (simp add: gt_named_def)
  then obtain m' where s: "find (\<lambda>x. active x \<and> m_grantee x = a \<and> m_handle x = m_handle m) (gt_maps g) = Some m'"
    using m(1) gt_find_None [of a "m_handle m" g] by fastforce
  from gt_find_Some [OF s] have m': "m' \<in># gt_live g" "gt_named a (m_handle m) m'" by blast+
  obtain M where "gt_live g = add_mset m M" using m(1) by (blast dest: multi_member_split)
  then have "m' = m" using gt_named_unique [OF ok, of m M m'] m' n by auto
  with s show "gt_mapping_at g a (m_handle m) = Some (m_grantor m, m_gref m, m_writable m)" by (simp add: gt_mapping_at_def)
  have "m \<in> set (filter (\<lambda>m. active m \<and> m_grantee m = a) (gt_maps g))" using m by (auto simp: gt_live_def)
  then have "m_handle m + 1 \<le> gt_handle_slots g a"
    unfolding gt_handle_slots_def by (intro fold_max_ge) (simp add: image_iff, blast)
  then show "m_handle m < gt_handle_slots g a" by simp
qed

lemma a_borrows_from_complete:
  assumes h: "hv_ok h" and slots: "gt_handle_slots (grant h) a < u32_size" and "\<not> a_borrows_from h a c"
  shows "m \<in># gt_live (grant h) \<Longrightarrow> m_grantee m = a \<Longrightarrow> m_grantor m \<noteq> c"
    "l \<in># pm_live (p2m h) \<Longrightarrow> pm_owner_of (p2m h) (l_parent l) = Some a \<Longrightarrow> pm_owner_of (p2m h) (l_child l) \<noteq> Some c"
proof -
  note n = assms(3) [unfolded a_borrows_from_def, simplified list_ex_iff de_Morgan_disj]
  show "m_grantor m \<noteq> c" if m: "m \<in># gt_live (grant h)" "m_grantee m = a"
    using n slots gt_mapping_found [OF hv_okD(3) [OF h] m] by (auto dest!: conjunct1 bspec [where x = "m_handle m"])
  show "pm_owner_of (p2m h) (l_child l) \<noteq> Some c" if l: "l \<in># pm_live (p2m h)" "pm_owner_of (p2m h) (l_parent l) = Some a"
  proof
    assume c: "pm_owner_of (p2m h) (l_child l) = Some c"
    have "(l_parent l, l_slot l, l_child l, l_writable l, l_leaf l, l_execute l) \<in> set (pm_link_edges (p2m h))"
      unfolding pm_link_edges_iff using l(1) by blast
    with n l(2) c show False by fastforce
  qed
qed

lemma hv_controls_range: "hv_ok h \<Longrightarrow> hv_controls h b c \<Longrightarrow> c < hv_domain_count h"
  using ctl_edge_out [OF hv_okD(7), of h b c] by (simp add: hv_controls_eq)

lemma authorized_stranger:
  assumes h: "hv_ok h" and slots: "gt_handle_slots (grant h) a < u32_size" and b: "b < hv_domain_count h"
    and no: "\<not> authorized channels_full h b a"
  shows "stranger h a b"
proof -
  have n: "as_u16 (hv_domain_count h) = hv_domain_count h" using hv_okD(23) [OF h] by simp
  have f: "b \<noteq> a" "\<not> a_grants_to h a b" "\<not> a_port_toward h a b" "\<not> hv_controls h b a" "hv_may_create h b \<longrightarrow> is_live h a"
    "\<not> teardown_reach_to h b a" "\<not> teardown_borrow_from h b a"
    using no unfolding authorized_def channels_full_def by auto
  have "apart h a c" if c: "c = b \<or> hv_controls h b c" for c
  proof -
    have r: "c < hv_domain_count h" using c b hv_controls_range [OF h] by blast
    have "\<not> a_grants_to h a c" "\<not> a_port_toward h a c" "\<not> a_borrows_from h a c"
      using c f(2,3,6,7) r unfolding teardown_reach_to_def teardown_borrow_from_def n list_ex_iff by auto
    then show ?thesis
      using c f(1,4) a_borrows_from_complete [OF h slots, of c] unfolding apart_def a_grants_to_iff [OF h] a_port_toward_iff [OF h]
      by blast
  qed
  with f(5) show ?thesis by (simp add: stranger_def)
qed

section \<open>Calls that do not reach a domain\<close>

subsection \<open>Ports\<close>

lemma ev_kept_put: "ev_kept a e e1 \<Longrightarrow> d \<noteq> a \<Longrightarrow> ev_kept a e (ev_put e1 d p c)"
  by (simp add: ev_kept_def ev.get_put)

lemma ev_kept_state: "ev_kept a e e' \<Longrightarrow> ev_state_of e' a p = ev_state_of e a p"
  by (simp add: ev_kept_def ev_state_of_eq)

lemma ev_own_kept:
  assumes "d \<noteq> a"
  shows "yields (ev_kept a e) (ev_alloc_unbound e d r)" "yields (ev_kept a e) (ev_bind_virq e d v q)"
    "yields (ev_kept a e) (ev_bind_ipi e d v)" "yields (ev_kept a e) (ev_set_masked e d p b)"
    "yields (ev_kept a e) (ev_consume e d p)" "yields (ev_kept a e) (ev_raise_virq e d v q)"
  unfolding ev_alloc_unbound_def ev_bind_virq_def ev_bind_ipi_def ev_set_masked_def ev_consume_def ev_raise_virq_def
  by (intro yields_intros; auto simp: ev_chan_mut_Some assms intro!: ev_kept_put)+

lemma ev_peer_kept:
  assumes ok: "ev_ok e" and d: "d \<noteq> a" "\<And>p. ev_state_of e a p \<noteq> Some (Unbound d)"
    "\<And>p q. ev_state_of e a p \<noteq> Some (Interdomain d q)"
  shows "yields (ev_kept a e) (ev_bind_interdomain e d r q)" "yields (ev_kept a e) (ev_close e d p)"
    "yields (ev_kept a e) (ev_send e d p)" "ev_send_target e d p = Some (t, k) \<Longrightarrow> t \<noteq> a"
proof -
  have far: "r \<noteq> a" if "ev_state_of e d p = Some (Interdomain r q)" for p r q
    using ev_inv_peer [OF ev_okD(2) [OF ok] that] d(3) by blast
  show tgt: "t \<noteq> a" if "ev_send_target e d p = Some (t, k)" for t k p
    using that far d(1) by (auto simp: ev_send_target_def split: option.splits PortState.splits)
  show "yields (ev_kept a e) (ev_bind_interdomain e d r q)"
    unfolding ev_bind_interdomain_def using d(1,2)
    by (intro yields_intros) (auto simp: ev_chan_mut_Some ev_state_of_eq intro!: ev_kept_put)
  show "yields (ev_kept a e) (ev_close e d p)"
    unfolding ev_close_def using far d(1)
    by (intro yields_intros) (auto simp: ev_chan_mut_Some ev_state_of_eq intro!: ev_kept_put split: PortState.splits)
  show "yields (ev_kept a e) (ev_send e d p)"
    unfolding ev_send_def using tgt by (auto simp: ev_chan_mut_Some propagate_def or_panic_def yields_def
        intro!: ev_kept_put split: result.splits option.splits)
qed

lemma ev_teardown_kept:
  assumes ok: "ev_ok e" and d: "d \<noteq> a" "\<And>p. ev_state_of e a p \<noteq> Some (Unbound d)"
    "\<And>p q. ev_state_of e a p \<noteq> Some (Interdomain d q)"
    and r: "ev_close_all e d = Some e1" "ev_clear_unbound_into e1 d = Some e2"
  shows "ev_kept a e e2"
proof -
  have step: "ev_kept a e t'" "ev_ok t'" if t: "ev_close t d p = (x, t')" "ev_kept a e t" "ev_ok t" "x \<noteq> Panic" for t t' p x
  proof -
    have "yields (ev_kept a t) (ev_close t d p)" using ev_peer_kept(2) [OF t(3), of d a p] d by (simp add: ev_kept_state [OF t(2)])
    then show "ev_kept a e t'" using t(1) ev_kept_trans [OF t(2)] by (simp add: yields_def)
    show "ev_ok t'" using ev_close_wb [OF t(3), of d p] t by (simp add: well_behaved_def)
  qed
  have e1: "ev_kept a e e1 \<and> ev_ok e1"
    using r(1) unfolding ev_close_all_def
    by (rule for_each_keeps [rotated, where P = "\<lambda>t. ev_kept a e t \<and> ev_ok t"])
      (use ok in \<open>auto intro: step split: if_splits prod.splits result.splits\<close>)
  have put: "ev_kept a e t'" if "ev_kept a e t"
    "(if ev_state_of t x p = Some (Unbound d) then ev_chan_mut t x p (\<lambda>_. EC_FREE) else Some t) = Some t'" for t t' x p
    using that ev_kept_state [OF that(1), of p] d(2) [of p] by (cases "x = a") (auto simp: ev_chan_mut_Some intro!: ev_kept_put split: if_splits)
  show ?thesis
    using r(2) unfolding ev_clear_unbound_into_def
    by (rule for_each_keeps [rotated, where P = "ev_kept a e"]) (use e1 in \<open>auto elim!: for_each_keeps [rotated] intro: put\<close>)
qed

subsection \<open>Virtual CPUs\<close>

lemma sc_kept_trans: "sc_kept a s t \<Longrightarrow> sc_kept a t u \<Longrightarrow> sc_kept a s u"
  by (simp add: sc_kept_def)

lemma sc_touch_kept:
  assumes "sc_touch Q s d v s'" "d \<noteq> a" shows "sc_kept a s s'"
proof -
  have "sc_vcpu_count (s\<lparr>pcpus := ps\<rparr>) a = sc_vcpu_count s a" for s ps by (simp add: sc_vcpu_count_def)
  then show ?thesis using assms by (auto simp: sc_touch_def sc_kept_def sc_get_put_at)
qed

lemma sc_own_kept:
  assumes "sc_ok s" "d \<noteq> a"
  shows "yields (sc_kept a s) (sc_admit s d v)" "yields (sc_kept a s) (sc_run s d v q now)"
    "yields (sc_kept a s) (sc_preempt s d v now)" "yields (sc_kept a s) (sc_block s d v now)"
    "yields (sc_kept a s) (sc_wake s d v)" "yields (sc_kept a s) (sc_offline s d v now)"
    "yields (sc_kept a s) (sc_set_affinity s d v m)"
  using sc_admit_touch [of s d v] sc_run_touch [OF assms(1), of d v q now] sc_preempt_touch [OF assms(1), of d v now]
    sc_block_touch [OF assms(1), of d v now] sc_wake_touch [of s d v] sc_offline_touch [OF assms(1), of d v now]
    sc_set_affinity_touch [of s d v m] sc_touch_kept [OF _ assms(2)]
  unfolding yields_def by blast+

lemma sc_teardown_kept:
  assumes ok: "sc_ok s" and d: "d \<noteq> a" and r: "sc_offline_all s d now = Some s1"
  shows "sc_kept a s s1"
proof -
  have step: "sc_kept a s t'" "sc_ok t'" if t: "sc_offline t d v now = (x, t')" "sc_kept a s t" "sc_ok t" "x \<noteq> Panic" for t t' v x
    using sc_own_kept(6) [OF t(3) d, of v now] sc_kept_trans [OF t(2)] sc_offline_wb [OF t(3), of d v now] t
    by (auto simp: yields_def well_behaved_def)
  have "sc_kept a s s1 \<and> sc_ok s1"
    using r unfolding sc_offline_all_def
    by (rule for_each_keeps [rotated, where P = "\<lambda>t. sc_kept a s t \<and> sc_ok t"])
      (use ok in \<open>auto intro: step split: if_splits prod.splits result.splits\<close>)
  then show ?thesis ..
qed

subsection \<open>Devices and credit\<close>

lemma dv_calls_kept:
  assumes "d \<noteq> a"
  shows "dv_kept a v (snd (dv_assign v dev d))" "dv_kept a v (snd (dv_release v dev d))" "dv_kept a v (dv_release_all_of v d)"
proof -
  have "dv_device_count (dv_release_all_of v d) = dv_device_count v" by (simp add: dv_device_count_def dv_release_all_of_def)
  then show "dv_kept a v (dv_release_all_of v d)" using assms by (auto simp: dv_kept_def dv_release_all_holder)
  show "dv_kept a v (snd (dv_assign v dev d))" "dv_kept a v (snd (dv_release v dev d))"
    using assms by (auto simp: dv_assign_cases dv_release_cases dv_kept_def dv_holder_update dv_device_count_def split: option.splits)
qed

text \<open>What one call of a stranger must leave alone, and the calls into one subsystem.\<close>

definition unseen :: "DomId \<Rightarrow> Hypervisor \<Rightarrow> Hypervisor \<Rightarrow> bool" where
  "unseen a h h' \<longleftrightarrow> unmoved a h h' \<and> same_links_seen a h h'"

lemmas unseen_defs = unseen_def unmoved_def same_links_seen_def

lemma unseen_refl [simp]: "unseen a h h"
  by (simp add: unseen_def)

lemma unseen_parts:
  "ev_kept a (evtchn h) e \<Longrightarrow> unseen a h (h\<lparr>evtchn := e\<rparr>)"
  "sc_kept a (sched h) s \<Longrightarrow> unseen a h (h\<lparr>sched := s\<rparr>)"
  "ev_kept a (evtchn h) e \<Longrightarrow> sc_kept a (sched h) s \<Longrightarrow> unseen a h (h\<lparr>evtchn := e, sched := s\<rparr>)"
  "dv_kept a (device h) v \<Longrightarrow> unseen a h (h\<lparr>device := v\<rparr>)"
  by (simp_all add: unseen_defs is_live_def hv_balance_def)

lemma in_evtchn_unseen: "yields (ev_kept a (evtchn h)) rs \<Longrightarrow> yields (unseen a h) (in_evtchn h f rs)"
  by (simp add: yields_def in_evtchn_def unseen_parts)

lemma in_sched_unseen: "yields (sc_kept a (sched h)) rs \<Longrightarrow> yields (unseen a h) (in_sched h rs)"
  by (simp add: yields_def in_sched_def unseen_parts)

lemma in_device_unseen: "dv_kept a (device h) (snd rs) \<Longrightarrow> yields (unseen a h) (in_device h rs)"
  by (simp add: yields_def in_device_def unseen_parts)

lemma in_credit_unseen:
  assumes "d \<noteq> a" shows "yields (unseen a h) (in_credit h d f)"
proof -
  have "unseen a h (h\<lparr>credit := (credit h)[d := c]\<rparr>)" for c
    using assms by (simp add: unseen_defs is_live_def hv_balance_def vec_get_def)
  then show ?thesis unfolding in_credit_def by (intro yields_intros) (auto intro!: yields_pair split: prod.splits)
qed

subsection \<open>The calls over ports, vCPUs and devices\<close>

lemma apartD:
  assumes "apart h a c"
  shows "c \<noteq> a" "gt_offer (grant h) a k \<noteq> Some (c, f, ro)" "ev_state_of (evtchn h) a p \<noteq> Some (Unbound c)"
    "ev_state_of (evtchn h) a p \<noteq> Some (Interdomain c q)"
    "m \<in># gt_live (grant h) \<Longrightarrow> m_grantee m = a \<Longrightarrow> m_grantor m \<noteq> c"
    "l \<in># pm_live (p2m h) \<Longrightarrow> pm_owner_of (p2m h) (l_parent l) = Some a \<Longrightarrow> pm_owner_of (p2m h) (l_child l) \<noteq> Some c"
  using assms unfolding apart_def by blast+

lemma strangerD: "stranger h a b \<Longrightarrow> apart h a b" "stranger h a b \<Longrightarrow> hv_controls h b c \<Longrightarrow> apart h a c"
  "stranger h a b \<Longrightarrow> hv_may_create h b \<Longrightarrow> is_live h a"
  unfolding stranger_def by blast+

lemma wake_unseen:
  assumes h: "sc_ok (sched h)" and d: "d \<noteq> a" and e: "ev_kept a (evtchn h) e"
    and w: "wake_if_deliverable (h\<lparr>evtchn := e\<rparr>) d p = Some h'"
  shows "unseen a h h'"
proof -
  have k: "sc_kept a (sched h) s1" if "sc_wake (sched h) d v = (x, s1)" for v x s1
    using sc_own_kept(5) [OF h d, of v] that by (simp add: yields_def)
  show ?thesis
    using w by (auto simp: wake_if_deliverable_def intro!: unseen_parts e intro: k split: if_splits option.splits prod.splits result.splits)
qed

lemma signal_unseen:
  assumes h: "hv_ok h" and a: "apart h a d"
  shows "yields (unseen a h) (evtchn_send h d p)" "yields (unseen a h) (evtchn_unmask h d p)"
    "yields (unseen a h) (raise_vcpu_virq h d v q)"
proof -
  note e = hv_okD(1) [OF h] and s = hv_okD(2) [OF h] and d = apartD(1) [OF a]
  note peer = ev_peer_kept [OF e d apartD(3,4) [OF a]]
  have k: "ev_kept a (evtchn h) e1" "\<And>u t k. x = Ok u \<Longrightarrow> ev_send_target e1 d p = Some (t, k) \<Longrightarrow> t \<noteq> a"
    if r: "ev_send (evtchn h) d p = (x, e1)" for x e1
  proof -
    show "ev_kept a (evtchn h) e1" using peer(3) [of p] r by (simp add: yields_def)
    fix u t k assume "x = Ok u" "ev_send_target e1 d p = Some (t, k)"
    then have "ev_send_target (evtchn h) d p = Some (t, k)"
      using ev_send_signal [OF e, of d p u e1] r ev_signal_state [of "evtchn h" t k e1] by (auto simp: ev_send_target_def ev_signal_state)
    then show "t \<noteq> a" by (rule peer(4))
  qed
  have w: "unseen a h h2"
    if "ev_send (evtchn h) d p = (Ok u, e1)" "ev_send_target e1 d p = Some (t, q)" "wake_if_deliverable (h\<lparr>evtchn := e1\<rparr>) t q = Some h2"
    for u e1 t q h2
    using wake_unseen [OF s k(2) [OF that(1) refl that(2)] k(1) [OF that(1)] that(3)] .
  show "yields (unseen a h) (evtchn_send h d p)"
    unfolding evtchn_send_def Let_def
    by (auto simp: yields_def or_panic_def intro!: unseen_parts intro: k(1) w split: prod.splits result.splits option.splits)
  show "yields (unseen a h) (evtchn_unmask h d p)"
    unfolding evtchn_unmask_def ev_unmask_def Let_def using wake_unseen [OF s d] ev_own_kept(4) [OF d, of "evtchn h" p False]
    by (auto simp: yields_def or_panic_def intro!: unseen_parts split: prod.splits result.splits option.splits)
  show "yields (unseen a h) (raise_vcpu_virq h d v q)"
    unfolding raise_vcpu_virq_def Let_def using wake_unseen [OF s d] ev_own_kept(6) [OF d, of "evtchn h" v q]
    by (auto simp: yields_def or_panic_def intro!: unseen_parts split: prod.splits result.splits option.splits)
qed

lemma guarded_unseen:
  assumes h: "hv_ok h" and s: "stranger h a d" and d: "d < hv_domain_count h"
  shows "yields (unseen a h) (sched_set_affinity h d t v m)" "yields (unseen a h) (sched_block h d v now)"
    "yields (unseen a h) (device_assign h d dev t)" "yields (unseen a h) (device_release h d dev t)"
    "yields (unseen a h) (domain_create h d t may)" "yields (unseen a h) (control_grant h d t to)"
    "yields (unseen a h) (control_revoke h d t to)"
proof -
  note da = apartD(1) [OF strangerD(1) [OF s]] and ta = apartD(1) [OF strangerD(2) [OF s]] and sok = hv_okD(2) [OF h]
  have gate: "yields (unseen a h) (need_control h d t k)" if "t < hv_domain_count h" "t \<noteq> a \<Longrightarrow> yields (unseen a h) k" for k
    using that ta [of t] by (simp add: need_control_eq [OF h d] yields_def)
  show "yields (unseen a h) (sched_set_affinity h d t v m)"
    unfolding sched_set_affinity_def Let_def using da
    by (intro yields_intros gate in_sched_unseen sc_own_kept(7) sok) auto
  show "yields (unseen a h) (sched_block h d v now)"
    unfolding sched_block_def by (intro yields_intros in_sched_unseen sc_own_kept(4) sok da) auto
  show "yields (unseen a h) (device_assign h d dev t)"
    unfolding device_assign_def by (intro yields_intros gate in_device_unseen dv_calls_kept) auto
  show "yields (unseen a h) (device_release h d dev t)"
    unfolding device_release_def Let_def using da by (intro yields_intros gate in_device_unseen dv_calls_kept) auto
  have ctl: "unseen a h (h\<lparr>controls := c\<rparr>)" for c by (simp add: unseen_defs is_live_def hv_balance_def)
  show "yields (unseen a h) (control_grant h d t to)"
    unfolding control_grant_cases [OF h d] by (simp add: yields_def ctl)
  show "yields (unseen a h) (control_revoke h d t to)"
    using control_revoke_cases [OF h d, of t to] ctl by (auto simp: yields_def split: if_splits)
  have "unseen a h (h\<lparr>life := (life h)[t := Live], may_create := mc, controls := c\<rparr>)" if "hv_may_create h d" "\<not> is_live h t" for mc c
    using strangerD(3) [OF s that(1)] that(2)
    by (cases "t = a") (auto simp: unseen_defs is_live_def hv_balance_def vec_get_def split: if_splits)
  then show "yields (unseen a h) (domain_create h d t may)"
    unfolding domain_create_cases [OF h d] by (simp add: yields_def)
qed

subsection \<open>Frames\<close>

lemma pm_kept_mut:
  assumes "pm_info p m = Some i" "owner i \<noteq> a" "owner i' \<noteq> a" shows "pm_kept a p (pm_frame_mut p m i')"
  using assms by (simp add: pm_kept_def pm_frame_count_def pm_query_simps pm_info_mut [OF assms(1)])

lemma pm_kept_links [simp]: "pm_kept a p (p\<lparr>links := ls\<rparr>)"
  by (simp add: pm_kept_def pm_frame_count_def)

lemma pm_release_kept:
  assumes "pm_owner_of p m \<noteq> Some a" shows "pm_kept a p (snd (pm_release_child p m r))"
proof (cases "pm_info p m")
  case None
  then show ?thesis
    using pm_frame_info(2) [OF None] by (cases r) (auto simp: pm_release_child_def pm_put_def pm_put_exec_def pm_put_type_def)
next
  case (Some i)
  then have "owner i \<noteq> a" using assms by (simp add: pm_query_simps)
  then show ?thesis
    using Some pm_kept_mut [OF Some]
    by (cases "(r, i)" rule: pm_bump.cases) (auto simp: pm_release_child_def pm_put_def pm_put_exec_def pm_put_type_def pm_frame_info Let_def)
qed

lemma pm_acquire_kept:
  assumes "pm_acquire_child p m r = (x, p')" "pm_owner_of p m \<noteq> Some a" shows "pm_kept a p p'"
proof (cases "pm_info p m")
  case None
  then show ?thesis using pm_acquire_absent [OF None, of r] assms(1) by auto
next
  case (Some i)
  then show ?thesis using assms pm_kept_mut [OF Some] by (auto simp: pm_acquire_eq pm_query_simps split: option.splits)
qed

lemma pm_link_kept:
  assumes pa: "pm_owner_of p parent \<noteq> Some a" and ch: "pm_owner_of p child \<noteq> Some a"
    and r: "pm_link p d parent slot child w lf x = (Ok u, p')"
  shows "pm_kept a p p'"
proof -
  have alloc: "pm_kept a s (pm_alloc_link s l)" for s l by (simp add: pm_alloc_link_def split: option.split)
  have two: "pm_kept a p (pm_alloc_link p2 l)"
    if "pm_acquire_child p child c = (v, p1)" "pm_acquire_child p1 parent t = (v', p2)" for c v p1 t v' p2 l
  proof -
    have k1: "pm_kept a p p1" by (rule pm_acquire_kept [OF that(1) ch])
    then have "pm_kept a p1 p2" using pa by (intro pm_acquire_kept [OF that(2)]) (simp add: pm_kept_owner)
    with k1 alloc show ?thesis by (blast intro: pm_kept_trans)
  qed
  show ?thesis
    using r unfolding pm_link_def Let_def pm_get_type_acquire
    by (auto simp: propagate_def intro: two split: if_splits result.splits option.splits Frame.splits prod.splits)
qed

lemma pm_unlink_kept:
  assumes idx: "pm_link_index p parent slot = Some k" and pa: "pm_owner_of p parent \<noteq> Some a"
    and ch: "pm_owner_of p (l_child (links p ! k)) \<noteq> Some a"
  shows "pm_kept a p (snd (pm_unlink p d parent slot))"
proof -
  let ?p1 = "p\<lparr>links := (links p)[k := (links p ! k)\<lparr>l_active := False\<rparr>]\<rparr>"
  have step: "pm_kept a p (snd (pm_release_child q m r))" if "pm_kept a p q" "pm_owner_of p m \<noteq> Some a" for q m r
    using that pm_release_kept [of q m a r] pm_kept_trans pm_kept_owner by metis
  show ?thesis
    using idx pa ch unfolding pm_unlink_def pm_put_type_release
    by (auto simp: propagate_def or_panic_def Let_def intro!: step split: result.splits option.splits Frame.splits prod.splits)
qed

text \<open>
  A call on frames that is not seen: the frames of \<open>a\<close> are kept, and the edges out of every domain but the
  caller's are the same and lead to frames of the same owners.
\<close>

lemma p2m_unseen:
  assumes k: "pm_kept a (p2m h) p'" and d: "apart h a d"
    and edges: "\<And>r. r \<noteq> d \<Longrightarrow> pm_rooted r p' = pm_rooted r (p2m h)"
    and own: "\<And>l. l \<in># pm_live p' \<Longrightarrow> pm_owner_of p' (l_child l) = pm_owner_of (p2m h) (l_child l)"
    and g: "gt_kept a (grant h) g'"
  shows "unseen a h (h\<lparr>grant := g', p2m := p'\<rparr>)"
proof -
  have bit: "pm_is_foreign_linked_by p' f r = pm_is_foreign_linked_by (p2m h) f r" if "r \<noteq> d" for f r
  proof -
    have iff: "pm_is_foreign_linked_by q f r \<longleftrightarrow> (\<exists>l \<in># pm_rooted r q. l_child l = f) \<and> pm_owner_of q f \<noteq> Some r" for q
      by (auto simp: pm_foreign_linked_by_iff pm_rooted_def)
    have "pm_owner_of p' f = pm_owner_of (p2m h) f" if "l \<in># pm_rooted r p'" "l_child l = f" for l
      using own [of l] that by (auto simp: pm_rooted_def)
    then show ?thesis
      by (cases "\<exists>l \<in># pm_rooted r p'. l_child l = f") (auto simp only: iff edges [OF that], blast)
  qed
  have "r \<noteq> d" if "gt_offer (grant h) a n = Some (r, f, ro)" for n r f ro using apartD(2) [OF d, of n f ro] that by auto
  with bit have "same_links_seen a h (h\<lparr>grant := g', p2m := p'\<rparr>)" by (simp add: same_links_seen_def)
  then show ?thesis
    using k g edges [of a] apartD(1) [OF d] by (auto simp: unseen_def unmoved_def is_live_def hv_balance_def)
qed

lemma pm_frames_unseen:
  assumes h: "hv_ok h" and d: "apart h a d" and p': "pm_ok H p'" "pm_live p' = pm_live (p2m h)" "pm_kept a (p2m h) p'"
    and own: "\<And>m. pm_owner_of p' m = pm_owner_of (p2m h) m \<or> pm_owner_of (p2m h) m = None \<or> pm_owner_of p' m = None"
  shows "unseen a h (h\<lparr>p2m := p'\<rparr>)"
proof -
  have ends: "pm_owner_of p' (l_parent l) = pm_owner_of (p2m h) (l_parent l)" "pm_owner_of p' (l_child l) = pm_owner_of (p2m h) (l_child l)"
    if "l \<in># pm_live (p2m h)" for l
    using that own [of "l_parent l"] own [of "l_child l"] pm_live_parent [OF hv_okD(4) [OF h] that] pm_live_child [OF hv_okD(4) [OF h] that]
      pm_live_parent [OF p'(1), of l] pm_live_child [OF p'(1), of l] by (auto simp: p'(2))
  have "pm_rooted r p' = pm_rooted r (p2m h)" for r
    unfolding pm_rooted_def p'(2) by (rule filter_mset_cong) (simp_all add: ends)
  then show ?thesis using p2m_unseen [OF p'(3) d, of "grant h"] ends by (simp add: p'(2))
qed

lemma pm_calls_unseen:
  assumes h: "hv_ok h" and d: "apart h a d"
  shows "yields (unseen a h) (in_p2m h (pm_allocate (p2m h) d m))" "yields (unseen a h) (in_p2m h (pm_free (p2m h) d m))"
    "yields (unseen a h) (in_p2m h (pm_pin (p2m h) d m lvl))" "yields (unseen a h) (in_p2m h (pm_unpin (p2m h) d m))"
proof -
  let ?p = "p2m h"
  note pok = hv_okD(4) [OF h] and da = apartD(1) [OF d]
  have frame: "unseen a h (h\<lparr>p2m := ?p\<lparr>frames := (frames ?p)[m := F]\<rparr>\<rparr>)"
    if "pm_ok (gt_refs (grant h)) (?p\<lparr>frames := (frames ?p)[m := F]\<rparr>)" "pm_owner_of ?p m = None \<or> pm_owner_of ?p m = Some d \<and> F = Frame.Free"
      "\<And>i. F = Allocated i \<Longrightarrow> owner i = d" for F
  proof (rule pm_frames_unseen [OF h d that(1)])
    show "pm_kept a ?p (?p\<lparr>frames := (frames ?p)[m := F]\<rparr>)"
      using that(2,3) da by (cases F) (auto simp: pm_kept_def pm_frame_count_def pm_query_simps pm_info_set_frame split: if_splits)
  qed (use that(2) in \<open>auto simp: pm_query_simps pm_info_set_frame split: if_splits\<close>)
  have wb: "pm_ok (gt_refs (grant h)) (snd (pm_allocate ?p d m))" "pm_ok (gt_refs (grant h)) (snd (pm_free ?p d m))"
    using pm_allocate_wb [OF pok, of d m] pm_free_wb [OF pok, of d m] by (simp_all add: well_behaved_def)
  show "yields (unseen a h) (in_p2m h (pm_allocate ?p d m))"
    using wb(1) unfolding pm_allocate_def
    by (auto simp: yields_def in_p2m_def propagate_def pm_frame_mut_def pm_frame_eq pm_query_simps pm_info_None pm_info_Some
        intro!: frame split: result.splits if_splits)
  show "yields (unseen a h) (in_p2m h (pm_free ?p d m))"
    using wb(2) frame [of Frame.Free] unfolding pm_free_eq
    by (auto simp: yields_def in_p2m_def pm_query_simps split: option.splits if_splits)
  have mut: "unseen a h (h\<lparr>p2m := pm_frame_mut ?p m i'\<rparr>)"
    if "pm_info ?p m = Some i" "owner i = d" "owner i' = d" "pm_ok (gt_refs (grant h)) (pm_frame_mut ?p m i')" for i i'
    using that da pm_kept_mut [OF that(1), of a i']
    by (intro pm_frames_unseen [OF h d that(4)]) (auto simp: pm_query_simps pm_info_mut)
  show "yields (unseen a h) (in_p2m h (pm_pin ?p d m lvl))"
    using pm_pin_effect [OF pok, of d m lvl] mut by (auto simp: yields_def in_p2m_def)
  show "yields (unseen a h) (in_p2m h (pm_unpin ?p d m))"
    using pm_unpin_effect [OF pok, of m d] mut by (auto simp: yields_def in_p2m_def split: if_splits)
qed

lemma pm_edge_calls_unseen:
  assumes h: "hv_ok h" and d: "apart h a d"
  shows "fst (p2m_link h d pa sl ch w lf x) = Ok u \<Longrightarrow> unseen a h (snd (p2m_link h d pa sl ch w lf x))"
    "yields (unseen a h) (in_p2m h (pm_unlink (p2m h) d m k))"
proof -
  let ?p = "p2m h"
  note pok = hv_okD(4) [OF h] and da = apartD(1) [OF d]
  show "unseen a h (snd (p2m_link h d pa sl ch w lf x))" if ok: "fst (p2m_link h d pa sl ch w lf x) = Ok u"
  proof -
    let ?l = "\<lparr>l_active = True, l_parent = pa, l_slot = sl, l_child = ch, l_writable = w, l_leaf = lf, l_execute = x \<and> lf\<rparr>"
    from ok obtain v p' where r: "pm_link ?p d pa sl ch w lf x = (Ok v, p')" and auth: "\<And>b. pm_owner_of ?p ch = Some b \<Longrightarrow> b = d \<or> gt_authorizes (grant h) b d ch w"
      by (cases "pm_link ?p d pa sl ch w lf x"; cases "fst (pm_link ?p d pa sl ch w lf x)")
        (auto simp: p2m_link_def in_p2m_def split: if_splits option.splits)
    have p': "pm_keeps ?p p'" "pm_live p' = add_mset ?l (pm_live ?p)" "pm_owner_of ?p pa = Some d"
      using pm_link_effect [OF pok, of d pa sl ch w lf x] r by (auto simp: pm_link_guard_def pm_query_simps)
    have cha: "pm_owner_of ?p ch \<noteq> Some a" using auth [of a] da apartD(2) [OF d] by (auto simp: gt_authorizes_iff)
    have kept: "pm_kept a ?p p'" using p'(3) da cha by (intro pm_link_kept [OF _ _ r]) auto
    have "pm_rooted b p' = pm_rooted b ?p" if "b \<noteq> d" for b
      using that p'(3) by (simp add: pm_rooted_def p'(2) pm_keeps_owner [OF p'(1)])
    moreover have "snd (p2m_link h d pa sl ch w lf x) = h\<lparr>p2m := p'\<rparr>"
      using ok r by (auto simp: p2m_link_def in_p2m_def split: if_splits)
    ultimately show ?thesis
      using p2m_unseen [OF kept d, of "grant h"] by (simp add: pm_keeps_owner [OF p'(1)])
  qed
  show "yields (unseen a h) (in_p2m h (pm_unlink ?p d m k))"
  proof (cases "\<exists>i. pm_info ?p m = Some i \<and> owner i = d \<and> pm_link_index ?p m k \<noteq> None")
    case True
    then obtain i j where i: "pm_info ?p m = Some i" "owner i = d" "pm_link_index ?p m k = Some j" by blast
    let ?l = "links ?p ! j"
    from pm_unlink_effect [OF pok i refl] obtain p' where
      p': "pm_unlink ?p d m k = (Ok (), p')" "pm_keeps ?p p'" "pm_live ?p = add_mset ?l (pm_live p')" by blast
    have l: "?l \<in># pm_live ?p" "l_parent ?l = m" using pm_link_index_Some [OF i(3)] by auto
    have md: "pm_owner_of ?p m = Some d" using i by (simp add: pm_query_simps)
    have cha: "pm_owner_of ?p (l_child ?l) \<noteq> Some a"
    proof
      assume "pm_owner_of ?p (l_child ?l) = Some a"
      with hv_okD(17) [OF h] l md da have "gt_authorizes (grant h) a d (l_child ?l) (l_writable ?l)"
        unfolding seam_links_def by blast
      then show False using apartD(2) [OF d] by (auto simp: gt_authorizes_iff)
    qed
    have kept: "pm_kept a ?p p'"
      using pm_unlink_kept [OF i(3), of a d] md da cha p'(1) by simp
    have "pm_rooted b p' = pm_rooted b ?p" if "b \<noteq> d" for b
      using that md l by (simp add: pm_rooted_def p'(3) pm_keeps_owner [OF p'(2)])
    then show ?thesis
      using p2m_unseen [OF kept d, of "grant h"] p'(1) by (simp add: pm_keeps_owner [OF p'(2)] yields_def in_p2m_def)
  next
    case False
    from pm_unlink_refused [OF this] show ?thesis by (auto simp: yields_def in_p2m_def)
  qed
qed

subsection \<open>Grants\<close>

lemma gt_kept_put: "d \<noteq> a \<Longrightarrow> gt_kept a g (gt_put g d k e)"
  by (auto simp: gt_kept_def gt_offer_put gt_offer_def gt.get_put)

lemma grant_unseen: "gt_kept a (grant h) g \<Longrightarrow> unseen a h (h\<lparr>grant := g\<rparr>)"
  by (simp add: unseen_defs is_live_def hv_balance_def)

lemma row_calls_unseen:
  assumes h: "hv_ok h" and d: "d \<noteq> a"
  shows "yields (unseen a h) (in_grant h o1 (gt_grant_access (grant h) d k r f ro))"
    "yields (unseen a h) (grant_end_access h d k)" "yields (unseen a h) (grant_copy h d r k w)"
proof -
  have "gt_kept a (grant h) (snd (gt_grant_access (grant h) d k r f ro))"
    using gt_kept_put [OF d] by (subst conjunct1 [OF gt_grant_access_effect [OF hv_okD(3) [OF h]]]) auto
  then show "yields (unseen a h) (in_grant h o1 (gt_grant_access (grant h) d k r f ro))"
    by (simp add: yields_def in_grant_def grant_unseen)
  have "gt_kept a (grant h) (snd (gt_end_access (grant h) d k))"
    using gt_kept_put [OF d] by (auto simp: gt_end_access_effect split: option.splits GrantEntry.splits)
  then show "yields (unseen a h) (grant_end_access h d k)"
    unfolding grant_end_access_def by (intro yields_intros) (simp_all add: yields_def in_grant_def grant_unseen)
  show "yields (unseen a h) (grant_copy h d r k w)"
    unfolding grant_copy_def by (intro yields_intros) simp_all
qed

lemma gt_rows_fixed:
  "gt_entry_count (snd (gt_map g r d k w)) a = gt_entry_count g a" "gt_entry_count (snd (gt_unmap g r n)) a = gt_entry_count g a"
  "gt_entry_count (snd (gt_end_access g d k)) a = gt_entry_count g a"
proof -
  have put: "gt_entry_count (gt_put g d k e) a = gt_entry_count g a" for g d k e by simp
  have upd: "gt_entry_count (g\<lparr>gt_maps := ms\<rparr>) a = gt_entry_count g a" for g ms by (simp add: gt_entry_count_eq)
  show "gt_entry_count (snd (gt_map g r d k w)) a = gt_entry_count g a"
    by (auto simp: gt_map_effect upd put split: option.splits GrantEntry.splits)
  show "gt_entry_count (snd (gt_unmap g r n)) a = gt_entry_count g a"
    by (auto simp: gt_unmap_def propagate_def Let_def upd put split: result.splits GrantEntry.splits prod.splits option.splits)
  show "gt_entry_count (snd (gt_end_access g d k)) a = gt_entry_count g a"
    by (auto simp: gt_end_access_effect put split: option.splits GrantEntry.splits)
qed

lemma memory_step_unseen:
  assumes d: "apart h a d" and g: "gt_kept a (grant h) g" and p: "pm_keeps (p2m h) p" "pm_live p = pm_live (p2m h)" "pm_kept a (p2m h) p"
  shows "unseen a h (h\<lparr>grant := g, p2m := p\<rparr>)"
  by (rule p2m_unseen [OF p(3) d _ _ g]) (simp_all add: pm_rooted_def p(2) pm_keeps_owner [OF p(1)])

lemma grant_map_unseen:
  assumes h: "hv_ok h" and d: "apart h a d" and ok: "fst (grant_map h d r k w) = Ok u"
  shows "unseen a h (snd (grant_map h d r k w))"
proof -
  note gok = hv_okD(3) [OF h] and da = apartD(1) [OF d]
  from ok obtain f hn g1 v p1 where f: "gt_granted_frame (grant h) r k = Some f" "pm_owner_of (p2m h) f = Some r"
    and m: "gt_map (grant h) d r k w = (Ok hn, g1)" and p1: "p2m_acquire (p2m h) f w = (Ok v, p1)"
    and st: "snd (grant_map h d r k w) = h\<lparr>grant := g1, p2m := p1\<rparr>"
    by (auto simp: grant_map_def propagate_def ok_or_def split: if_splits option.splits result.splits prod.splits)
  from gt_map_Ok [OF gok m] obtain f' ro mp where
    g1: "gt_offer (grant h) r k = Some (d, f', ro)" "gt_live g1 = add_mset mp (gt_live (grant h))" "gt_offer g1 = gt_offer (grant h)"
      "m_grantor mp = r" "m_grantee mp = d" by auto
  then have ra: "r \<noteq> a" using apartD(2) [OF d] by auto
  have "gt_kept a (grant h) g1"
    using gt_rows_fixed(1) [of "grant h" d r k w a] m g1 ra da by (simp add: gt_kept_def)
  moreover have "pm_kept a (p2m h) p1" using pm_acquire_kept [OF p1 [unfolded p2m_acquire_eq]] f(2) ra by simp
  ultimately show ?thesis
    unfolding st using pm_acquire_frame [of "p2m h" f _ p1] p1 [unfolded p2m_acquire_eq] by (intro memory_step_unseen [OF d]) auto
qed

lemma p2m_mirror_kept:
  assumes "p2m_mirror p u = Some p'" "pm_owner_of p (um_frame u) \<noteq> Some a" shows "pm_kept a p p'"
  using assms pm_release_kept [OF assms(2), of "Typed Writable"] pm_release_kept [OF assms(2), of Bare]
  by (auto simp: p2m_mirror_def pm_put_type_release pm_put_release split: if_splits prod.splits result.splits)

lemma grant_unmap_unseen:
  assumes h: "hv_ok h" and d: "apart h a d"
  shows "yields (unseen a h) (grant_unmap h d n)"
proof (cases "\<exists>m \<in># gt_live (grant h). gt_named d n m")
  case True
  note gok = hv_okD(3) [OF h] and da = apartD(1) [OF d] and pok = hv_okD(4) [OF h]
  from gt_unmap_Ok [OF gok True] obtain m f ro g1 where
    g1: "gt_unmap (grant h) d n = (Ok \<lparr>um_frame = f, um_writable = m_writable m\<rparr>, g1)" "gt_live (grant h) = add_mset m (gt_live g1)"
      "gt_offer (grant h) (m_grantor m) (m_gref m) = Some (d, f, ro)" "gt_offer g1 = gt_offer (grant h)" "gt_named d n m" by blast
  have rel: "gt_released (grant h) m = \<lparr>um_frame = f, um_writable = m_writable m\<rparr>" using g1(3) by (simp add: gt_released_def)
  have ra: "m_grantor m \<noteq> a" using apartD(2) [OF d, of "m_gref m" f ro] g1(3) by auto
  have "map_ref (gt_released (grant h) m) \<in># gt_refs (grant h)" by (simp add: gt_refs_def g1(2))
  from p2m_mirror_effect [OF pok this] obtain p1 where
    p1: "p2m_mirror (p2m h) (gt_released (grant h) m) = Some p1" "pm_keeps (p2m h) p1" "pm_live p1 = pm_live (p2m h)" by blast
  have "pm_owner_of (p2m h) f = Some (m_grantor m)" using hv_okD(16) [OF h] g1(2) rel unfolding seam_maps_def by fastforce
  then have kept: "pm_kept a (p2m h) p1" using ra by (intro p2m_mirror_kept [OF p1(1)]) (simp add: rel)
  have "gt_kept a (grant h) g1"
    using gt_rows_fixed(2) [of "grant h" d n a] g1 ra da by (simp add: gt_kept_def gt_named_def)
  with kept p1 g1(1) memory_step_unseen [OF d] show ?thesis by (simp add: grant_unmap_def rel yields_def)
next
  case False
  then show ?thesis using gt_unmap_Err [of "grant h" d n] by (simp add: grant_unmap_def yields_def)
qed

lemma same_unseen:
  assumes "hv_same h h'" shows "unseen a h h'"
proof -
  have g: "gt_domains (grant h') = gt_domains (grant h)" "gt_live (grant h') = gt_live (grant h)" and p: "pm_same (p2m h) (p2m h')"
    using assms by (simp_all add: hv_same_def)
  have own: "pm_owner_of (p2m h') m = pm_owner_of (p2m h) m" for m
    using p pm_obs_canon(1) [of "p2m h'" m "p2m h"] by (simp add: pm_same_def)
  have live: "pm_live (p2m h') = pm_live (p2m h)" using p by (simp add: pm_same_def pm_live_def)
  have "gt_kept a (grant h) (grant h')" using g by (simp add: gt_kept_def gt_entry_count_eq gt_offer_def gt_get_def)
  moreover have "pm_kept a (p2m h) (p2m h')" using p by (simp add: pm_kept_def pm_same_def pm_frame_count_def)
  ultimately show ?thesis
    using assms by (simp add: unseen_defs hv_same_def is_live_def hv_balance_def pm_rooted_def pm_foreign_linked_by_iff own live)
qed

subsection \<open>The end of a domain\<close>

lemma mirror_all_kept:
  assumes r: "p2m_mirror_all us q = Some q'" and k: "pm_kept a p q" and u: "\<And>u. u \<in> set us \<Longrightarrow> pm_owner_of p (um_frame u) \<noteq> Some a"
  shows "pm_kept a p q'"
  using r unfolding p2m_mirror_all_def
proof (rule for_each_keeps [rotated, where P = "pm_kept a p"])
  fix v s s' assume v: "v \<in> set us" and m: "p2m_mirror s v = Some s'" and ks: "pm_kept a p s"
  have "pm_owner_of s (um_frame v) \<noteq> Some a" using u [OF v] pm_kept_owner [OF ks] by simp
  then show "pm_kept a p s'" using p2m_mirror_kept [OF m] pm_kept_trans [OF ks] by blast
qed (rule k)

text \<open>An edge sweep removes edges that touch no frame of \<open>a\<close>.\<close>

definition pm_swept_past :: "held \<Rightarrow> DomId \<Rightarrow> P2mSystem \<Rightarrow> P2mSystem \<Rightarrow> bool" where
  "pm_swept_past H a p q \<longleftrightarrow> pm_ok H q \<and> pm_kept a p q \<and> pm_keeps p q \<and> pm_live q \<subseteq># pm_live p"

lemma pm_sweep_step:
  assumes q: "pm_swept_past H a p q" and l: "vec_get (links q) idx = Some l" "l_active l"
    and own: "pm_owner_of q (l_parent l) = Some d" "d \<noteq> a" "pm_owner_of q (l_child l) \<noteq> Some a"
  shows "pm_swept_past H a p (snd (pm_unlink q d (l_parent l) (l_slot l)))"
proof -
  have ok: "pm_ok H q" and at: "idx < length (links q)" "links q ! idx = l"
    using q l(1) by (auto simp: pm_swept_past_def vec_get_def split: if_splits)
  from own(1) obtain i where i: "pm_info q (l_parent l) = Some i" "owner i = d" by (auto simp: pm_query_simps)
  have idx: "pm_link_index q (l_parent l) (l_slot l) = Some idx" using pm_link_index_unique [OF ok at(1)] at(2) l(2) by simp
  from pm_unlink_effect [OF ok i idx refl] obtain q' where
    q': "pm_unlink q d (l_parent l) (l_slot l) = (Ok (), q')" "pm_ok H q'" "pm_keeps q q'" "pm_live q = add_mset (links q ! idx) (pm_live q')"
    by blast
  have "pm_kept a q q'" using pm_unlink_kept [OF idx, of a d] own q'(1) at(2) by simp
  moreover have "pm_live q' \<subseteq># pm_live p"
    using q q'(4) by (metis mset_subset_eq_add_right add_mset_add_single pm_swept_past_def subset_mset.order_trans mset_subset_eq_add_left)
  ultimately show ?thesis
    using q q' by (auto simp: pm_swept_past_def intro: pm_kept_trans pm_keeps_trans)
qed

lemma pm_sweeps_kept:
  assumes p: "pm_ok H p" and t: "t \<noteq> a"
    and far: "\<And>l. l \<in># pm_live p \<Longrightarrow> pm_owner_of p (l_parent l) = Some a \<Longrightarrow> pm_owner_of p (l_child l) \<noteq> Some t"
      "\<And>l. l \<in># pm_live p \<Longrightarrow> pm_owner_of p (l_parent l) = Some t \<Longrightarrow> pm_owner_of p (l_child l) \<noteq> Some a"
  shows "pm_unlink_all_into p t = Some q \<Longrightarrow> pm_swept_past H a p q" "pm_unlink_all p t = Some q \<Longrightarrow> pm_swept_past H a p q"
proof -
  have refl: "pm_swept_past H a p p" using p by (simp add: pm_swept_past_def)
  have live: "l \<in># pm_live p" "pm_owner_of q m = pm_owner_of p m"
    if "pm_swept_past H a p q" "vec_get (links q) idx = Some l" "l_active l" for q l idx m
    using that mset_subset_eqD [of "pm_live q" "pm_live p" l] pm_keeps_owner [of p q m]
    by (auto simp: pm_swept_past_def pm_live_def vec_get_def split: if_splits)
  show "pm_swept_past H a p q" if r: "pm_unlink_all_into p t = Some q"
    using r unfolding pm_unlink_all_into_def
  proof (rule for_each_keeps [rotated, where P = "pm_swept_past H a p"])
    fix idx s s' assume s: "pm_swept_past H a p s"
      "(case vec_get (links s) idx of None \<Rightarrow> None
        | Some link \<Rightarrow>
            if \<not> l_active link \<or> pm_owner_of s (l_child link) \<noteq> Some t then Some s
            else
              (case pm_owner_of s (l_parent link) of
                 None \<Rightarrow> Some s
               | Some parent_owner \<Rightarrow>
                   if parent_owner = t then Some s
                   else Some (snd (pm_unlink s parent_owner (l_parent link) (l_slot link))))) = Some s'"
    show "pm_swept_past H a p s'"
    proof (cases "s' = s")
      case False
      with s(2) obtain l d where l: "vec_get (links s) idx = Some l" "l_active l" "pm_owner_of s (l_child l) = Some t"
        "pm_owner_of s (l_parent l) = Some d" "s' = snd (pm_unlink s d (l_parent l) (l_slot l))"
        by (auto split: option.splits if_splits)
      have "d \<noteq> a" using far(1) [OF live(1) [OF s(1) l(1,2)]] live(2) [OF s(1) l(1,2)] l(3,4) by auto
      then show ?thesis unfolding l(5) using pm_sweep_step [OF s(1) l(1,2,4)] l(3) t by simp
    qed (use s in simp)
  qed (rule refl)
  show "pm_swept_past H a p q" if r: "pm_unlink_all p t = Some q"
    using r unfolding pm_unlink_all_def
  proof (rule for_each_keeps [rotated, where P = "pm_swept_past H a p"])
    fix idx s s' assume s: "pm_swept_past H a p s"
      "(case vec_get (links s) idx of None \<Rightarrow> None
        | Some link \<Rightarrow>
            if l_active link \<and> pm_owner_of s (l_parent link) = Some t
            then Some (snd (pm_unlink s t (l_parent link) (l_slot link)))
            else Some s) = Some s'"
    show "pm_swept_past H a p s'"
    proof (cases "s' = s")
      case False
      with s(2) obtain l where l: "vec_get (links s) idx = Some l" "l_active l" "pm_owner_of s (l_parent l) = Some t"
        "s' = snd (pm_unlink s t (l_parent l) (l_slot l))"
        by (auto split: option.splits if_splits)
      have "pm_owner_of s (l_child l) \<noteq> Some a"
        using far(2) [OF live(1) [OF s(1) l(1,2)]] live(2) [OF s(1) l(1,2)] l(3) by auto
      then show ?thesis unfolding l(4) using pm_sweep_step [OF s(1) l(1,2,3) t] by simp
    qed (use s in simp)
  qed (rule refl)
qed

lemma pm_unpin_all_kept:
  assumes p: "pm_ok H p" and t: "t \<noteq> a" and r: "pm_unpin_all p t = Some q"
  shows "pm_kept a p q"
proof -
  have step: "pm_kept a p (snd (pm_unpin s t m))" "pm_ok H (snd (pm_unpin s t m))" if s: "pm_kept a p s" "pm_ok H s" for s m
  proof -
    have "pm_kept a s (snd (pm_unpin s t m))"
      using pm_unpin_effect [OF s(2), of m t] t pm_kept_mut [of s m _ a] by (auto split: if_splits)
    then show "pm_kept a p (snd (pm_unpin s t m))" by (rule pm_kept_trans [OF s(1)])
    show "pm_ok H (snd (pm_unpin s t m))" using pm_unpin_wb [OF s(2), of t m] by (simp add: well_behaved_def)
  qed
  have "pm_kept a p q \<and> pm_ok H q"
    using r unfolding pm_unpin_all_def
    by (rule for_each_keeps [rotated, where P = "\<lambda>s. pm_kept a p s \<and> pm_ok H s"]) (use p step in \<open>auto split: if_splits\<close>)
  then show ?thesis ..
qed

lemma pm_free_all_kept:
  assumes t: "t \<noteq> a" and r: "pm_free_all p t = Some q" shows "pm_kept a p q"
proof -
  have step: "pm_kept a p (snd (pm_free s t m))" if "pm_kept a p s" for s m
  proof -
    have "pm_kept a s (snd (pm_free s t m))"
      using t by (auto simp: pm_free_eq pm_kept_def pm_frame_count_def pm_query_simps pm_info_free split: option.splits)
    then show ?thesis by (rule pm_kept_trans [OF that])
  qed
  show ?thesis
    using r unfolding pm_free_all_def
    by (rule for_each_keeps [rotated, where P = "pm_kept a p"]) (use step in \<open>auto split: if_splits\<close>)
qed

lemma gt_teardown_rows:
  assumes "gt_drain_foreign_maps_of g t = Some (us1, g1)" "gt_drain_maps_of g1 t = Some (us2, g2)"
    "gt_revoke_all g2 t = Some g3" "gt_revoke_grants_to g3 t = Some g4"
  shows "gt_entry_count g4 a = gt_entry_count g a"
proof -
  have rel: "gt_entry_count (snd acc) a = gt_entry_count g a"
    if "for_each gt_release_one xs ([], g) = Some acc" for xs acc and g
    using that
    by (rule for_each_keeps [rotated, where P = "\<lambda>acc. gt_entry_count (snd acc) a = gt_entry_count g a"])
      (auto simp: gt_release_one_def split: prod.splits result.splits, metis gt_rows_fixed(2) snd_conv)
  have fin: "gt_entry_count s' a = gt_entry_count s a" if "gt_try_end d k s = Some s'" for d k s s'
    using that gt_rows_fixed(3) [of s d k a] by (auto simp: gt_try_end_def split: prod.splits result.splits)
  have "gt_entry_count g1 a = gt_entry_count g a" "gt_entry_count g2 a = gt_entry_count g1 a"
    using assms(1,2) rel unfolding gt_drain_foreign_maps_of_def gt_drain_maps_of_def Let_def by fastforce+
  moreover have "gt_entry_count g3 a = gt_entry_count g2 a"
    using assms(3) unfolding gt_revoke_all_def
    by (rule for_each_keeps [rotated, where P = "\<lambda>s. gt_entry_count s a = gt_entry_count g2 a"]) (auto dest: fin split: if_splits)
  moreover have row: "gt_entry_count s' a = gt_entry_count s a"
    if "for_each (\<lambda>gref s. if gt_grantee_of s d gref = Some t then gt_try_end d gref s else Some s) xs s = Some s'" for d xs s s'
    using that by (rule for_each_keeps [rotated, where P = "\<lambda>u. gt_entry_count u a = gt_entry_count s a"]) (auto dest: fin split: if_splits)
  have "gt_entry_count g4 a = gt_entry_count g3 a"
    using assms(4) unfolding gt_revoke_grants_to_def
    by (rule for_each_keeps [rotated, where P = "\<lambda>s. gt_entry_count s a = gt_entry_count g3 a"]) (auto dest: row)
  ultimately show ?thesis by simp
qed

lemma pm_teardown_kept:
  assumes h: "hv_ok h" and t: "apart h a t"
    and r: "gt_drain_foreign_maps_of (grant h) t = Some (us1, g1)" "p2m_mirror_all us1 (p2m h) = Some m1"
      "pm_unlink_all_into m1 t = Some m2" "gt_drain_maps_of g1 t = Some (us2, g2)" "p2m_mirror_all us2 m2 = Some m3"
      "pm_unlink_all m3 t = Some m4" "pm_unpin_all m4 t = Some m5" "pm_free_all m5 t = Some m6"
  shows "pm_kept a (p2m h) m6"
proof -
  let ?g = "grant h" and ?p = "p2m h"
  note gok = hv_okD(3) [OF h] and pok = hv_okD(4) [OF h] and ta = apartD(1) [OF t]
  let ?ms1 = "filter (\<lambda>m. active m \<and> m_grantor m = t \<and> m_grantee m \<noteq> t) (gt_maps ?g)"
  from gt_drain_foreign_maps_of_effect [OF gok, of t] r(1) have
    g1: "us1 = map (gt_released ?g) ?ms1" "gt_ok g1" "gt_live g1 = filter_mset (\<lambda>m. \<not> (m_grantor m = t \<and> m_grantee m \<noteq> t)) (gt_live ?g)"
      "gt_offer g1 = gt_offer ?g" by auto
  let ?ms2 = "filter (\<lambda>m. active m \<and> m_grantee m = t) (gt_maps g1)"
  from gt_drain_maps_of_effect [OF g1(2), of t] r(4) have
    g2: "us2 = map (gt_released ?g) ?ms2" "gt_live g2 = filter_mset (\<lambda>m. m_grantee m \<noteq> t) (gt_live g1)" "gt_offer g2 = gt_offer g1"
    by (auto simp: gt_released_cong [OF g1(4)])
  have frame: "pm_owner_of ?p (um_frame (gt_released ?g m)) = Some (m_grantor m)" if "m \<in># gt_live ?g" for m
    using hv_okD(16) [OF h] that by (simp add: seam_maps_def)
  have away: "m_grantor m \<noteq> a" if "m \<in># gt_live ?g" "m_grantor m = t \<or> m_grantee m = t" for m
    using that ta apartD(2) [OF t] gt_ok_live [OF gok that(1)] by metis
  have "gt_live ?g = mset ?ms1 + gt_live g1" using gt_live_partition [of ?g "\<lambda>m. m_grantor m = t \<and> m_grantee m \<noteq> t"] by (simp only: g1(3))
  from gt_refs_split [OF this g1(4)] have "pm_ok (mset (map map_ref us1) + gt_refs g1) ?p" using pok unfolding g1(1) by argo
  from p2m_mirror_all_effect [OF this] r(2) have m1: "pm_ok (gt_refs g1) m1" "pm_keeps ?p m1" "pm_live m1 = pm_live ?p" by auto
  have k1: "pm_kept a ?p m1"
    by (rule mirror_all_kept [OF r(2)]) (use frame away in \<open>auto simp: g1(1) gt_live_def\<close>)
  have far: "pm_owner_of q (l_child l) \<noteq> Some a" if "pm_keeps ?p q" "pm_live q \<subseteq># pm_live ?p" "l \<in># pm_live q" "pm_owner_of q (l_parent l) = Some t" for q l
  proof
    assume c: "pm_owner_of q (l_child l) = Some a"
    have "l \<in># pm_live ?p" using that(2,3) by (rule mset_subset_eqD)
    with that(4) c hv_okD(17) [OF h] ta have "gt_authorizes ?g a t (l_child l) (l_writable l)"
      unfolding seam_links_def by (auto simp: pm_keeps_owner [OF that(1)])
    then show False using apartD(2) [OF t] by (auto simp: gt_authorizes_iff)
  qed
  have near: "pm_owner_of q (l_child l) \<noteq> Some t" if "pm_keeps ?p q" "pm_live q \<subseteq># pm_live ?p" "l \<in># pm_live q" "pm_owner_of q (l_parent l) = Some a" for q l
    using apartD(6) [OF t mset_subset_eqD [OF that(2,3)]] that(4) by (simp add: pm_keeps_owner [OF that(1)])
  have s2: "pm_swept_past (gt_refs g1) a m1 m2"
    by (rule pm_sweeps_kept(1) [OF m1(1) ta _ _ r(3)]) (use near far m1 in \<open>auto\<close>)
  then have m2: "pm_ok (gt_refs g1) m2" "pm_kept a ?p m2" "pm_keeps ?p m2" "pm_live m2 \<subseteq># pm_live ?p"
    using pm_kept_trans [OF k1] pm_keeps_trans [OF m1(2)] m1(3) by (auto simp: pm_swept_past_def)
  have "gt_live g1 = mset ?ms2 + gt_live g2" using gt_live_partition [of g1 "\<lambda>m. m_grantee m = t"] by (simp only: g2(2))
  from gt_refs_split [OF this g2(3)] have "pm_ok (mset (map map_ref us2) + gt_refs g2) m2"
    using m2(1) unfolding g2(1) gt_released_cong [OF g1(4), symmetric] by argo
  from p2m_mirror_all_effect [OF this] r(5) have m3: "pm_ok (gt_refs g2) m3" "pm_keeps m2 m3" "pm_live m3 = pm_live m2" by auto
  have in_g: "m \<in># gt_live ?g" "m_grantee m = t" if "m \<in> set ?ms2" for m
  proof -
    have "m \<in># gt_live g1" using that by (auto simp: gt_live_def)
    then show "m \<in># gt_live ?g" by (simp add: g1(3))
    show "m_grantee m = t" using that by simp
  qed
  have "pm_owner_of ?p (um_frame u) \<noteq> Some a" if u: "u \<in> set us2" for u
  proof -
    obtain m where m: "m \<in> set ?ms2" "u = gt_released ?g m" using u unfolding g2(1) set_map by (rule imageE) 
    show ?thesis using frame [OF in_g(1) [OF m(1)]] away [OF in_g(1) [OF m(1)]] in_g(2) [OF m(1)] by (simp add: m(2))
  qed
  then have k3: "pm_kept a ?p m3" by (rule mirror_all_kept [OF r(5) m2(2)])
  have keeps3: "pm_keeps ?p m3" "pm_live m3 \<subseteq># pm_live ?p" using m3 m2 by (auto intro: pm_keeps_trans)
  have s4: "pm_swept_past (gt_refs g2) a m3 m4"
    by (rule pm_sweeps_kept(2) [OF m3(1) ta _ _ r(6)]) (use near far keeps3 in \<open>auto\<close>)
  then have "pm_ok (gt_refs g2) m4" "pm_kept a ?p m4" using pm_kept_trans [OF k3] by (auto simp: pm_swept_past_def)
  then show ?thesis
    using pm_unpin_all_kept [OF _ ta r(7)] pm_free_all_kept [OF ta r(8)] pm_kept_trans by blast
qed

lemma destroy_unmoved:
  assumes h: "hv_ok h" and d: "d < hv_domain_count h" and s: "stranger h a d"
  shows "unmoved a h (snd (domain_destroy h d t now))"
    "(\<And>k r f ro. gt_offer (grant h) a k = Some (r, f, ro) \<Longrightarrow> pm_owner_of (p2m h) f \<noteq> Some t) \<Longrightarrow>
       unseen a h (snd (domain_destroy h d t now))"
proof -
  let ?h' = "snd (domain_destroy h d t now)"
  have "unmoved a h ?h' \<and>
    ((\<forall>k r f ro. gt_offer (grant h) a k = Some (r, f, ro) \<longrightarrow> pm_owner_of (p2m h) f \<noteq> Some t) \<longrightarrow> same_links_seen a h ?h')"
  proof (cases "t < hv_domain_count h \<and> (d = t \<or> hv_controls h d t)")
    case False
    then have "?h' = h" using domain_destroy_cases [OF h d, of t now] by auto
    then show ?thesis by simp
  next
    case True
    then have t: "apart h a t" using strangerD [OF s] by blast
    note ta = apartD(1) [OF t] and gok = hv_okD(3) [OF h]
    from destroy_effect [OF h, of t now] True obtain h1 h2 where
      r: "destroy_resources h t now = Some h1" "destroy_authority h1 t = Some h2" and de: "destroyed t h h2" by blast
    have h': "?h' = h2" using True d r by (auto simp: domain_destroy_def Let_def need_control_eq [OF h])
    from r(1) obtain e1 e2 s1 us1 g1 m1 m2 us2 g2 m3 g3 m4 m5 m6 g4 where
      e: "ev_close_all (evtchn h) t = Some e1" "ev_clear_unbound_into e1 t = Some e2"
      and s1: "sc_offline_all (sched h) t now = Some s1"
      and g: "gt_drain_foreign_maps_of (grant h) t = Some (us1, g1)" "gt_drain_maps_of g1 t = Some (us2, g2)"
        "gt_revoke_all g2 t = Some g3" "gt_revoke_grants_to g3 t = Some g4"
      and m: "p2m_mirror_all us1 (p2m h) = Some m1" "pm_unlink_all_into m1 t = Some m2" "p2m_mirror_all us2 m2 = Some m3"
        "pm_unlink_all m3 t = Some m4" "pm_unpin_all m4 t = Some m5" "pm_free_all m5 t = Some m6"
      and h1: "h1 = h\<lparr>evtchn := e2, sched := s1, grant := g4, p2m := m6, device := dv_release_all_of (device h) t\<rparr>"
      unfolding destroy_resources_def by (auto simp: bind_eq_Some_conv split: prod.splits)
    obtain c where h2: "h2 = h1\<lparr>life := (life h1)[t := Dead], may_create := (may_create h1)[t := False], controls := c\<rparr>"
      using r(2) by (auto simp: destroy_authority_def bind_eq_Some_conv split: if_splits)
    have live: "gt_live g4 = filter_mset (\<lambda>m. m_grantor m \<noteq> t \<and> m_grantee m \<noteq> t) (gt_live (grant h))"
      and off: "gt_offer g4 = gt_without t (grant h)"
      and edges: "pm_live m6 = filter_mset (\<lambda>l. pm_owner_of (p2m h) (l_child l) \<noteq> Some t \<and> pm_owner_of (p2m h) (l_parent l) \<noteq> Some t) (pm_live (p2m h))"
      and own: "pm_owner_of m6 x = (if pm_owner_of (p2m h) x = Some t then None else pm_owner_of (p2m h) x)" for x
      using de unfolding destroyed_def h2 h1 by simp_all
    have side: "m_grantor x \<noteq> t \<and> m_grantee x \<noteq> t" if x: "x \<in># gt_live (grant h)" "m_grantor x = a \<or> m_grantee x = a" for x
      using that apartD(2) [OF t] apartD(5) [OF t x(1)] gt_ok_live [OF gok x(1)] ta by metis
    have "gt_offer g4 a k = gt_offer (grant h) a k" for k
      using apartD(2) [OF t, of k] ta by (auto simp: off gt_without_def split: option.splits)
    moreover have "filter_mset (\<lambda>m. m_grantor m = a \<or> m_grantee m = a) (gt_live g4) =
        filter_mset (\<lambda>m. m_grantor m = a \<or> m_grantee m = a) (gt_live (grant h))"
      unfolding live filter_filter_mset using side by (intro filter_mset_cong) auto
    ultimately have gk: "gt_kept a (grant h) g4" using gt_teardown_rows [OF g, of a] by (simp add: gt_kept_def)
    have root: "pm_rooted a m6 = pm_rooted a (p2m h)"
      unfolding pm_rooted_def edges filter_filter_mset using apartD(6) [OF t] ta by (intro filter_mset_cong) (auto simp: own)
    have "ev_kept a (evtchn h) e2" by (rule ev_teardown_kept [OF hv_okD(1) [OF h] ta apartD(3,4) [OF t] e])
    moreover have "sc_kept a (sched h) s1" by (rule sc_teardown_kept [OF hv_okD(2) [OF h] ta s1])
    moreover have "pm_kept a (p2m h) m6" by (rule pm_teardown_kept [OF h t g(1) m(1,2) g(2) m(3-6)])
    moreover have "dv_kept a (device h) (dv_release_all_of (device h) t)" by (rule dv_calls_kept(3) [OF ta])
    ultimately have "unmoved a h h2"
      using gk root ta by (simp add: unmoved_def h2 h1 is_live_def hv_balance_def vec_get_update)
    moreover have "same_links_seen a h h2"
      if no: "\<And>k r f ro. gt_offer (grant h) a k = Some (r, f, ro) \<Longrightarrow> pm_owner_of (p2m h) f \<noteq> Some t"
      unfolding same_links_seen_def
    proof (intro allI impI)
      fix k r f ro assume o: "gt_offer (grant h) a k = Some (r, f, ro)"
      have "r \<noteq> t" using apartD(2) [OF t] o by auto
      then show "pm_is_foreign_linked_by (p2m h2) f r = pm_is_foreign_linked_by (p2m h) f r"
        using no [OF o] by (auto simp: pm_foreign_linked_by_iff h2 h1 edges own)
    qed
    ultimately show ?thesis by (auto simp: h')
  qed
  then show "unmoved a h ?h'" "(\<And>k r f ro. gt_offer (grant h) a k = Some (r, f, ro) \<Longrightarrow> pm_owner_of (p2m h) f \<noteq> Some t) \<Longrightarrow> unseen a h ?h'"
    by (auto simp: unseen_def)
qed

section \<open>Local respect\<close>

lemma ok_or_same_unseen:
  assumes "hv_good h rs" "\<And>u. fst rs = Ok u \<Longrightarrow> unseen a h (snd rs)" shows "yields (unseen a h) rs"
  using assms same_unseen by (cases "fst rs") (auto simp: hv_good_def yields_def)

lemma hv_call_unseen:
  assumes h: "hv_ok h" and d: "d < hv_domain_count h" "\<not> dead (life h) d" and s: "stranger h a d" and room: "handles_left h d call"
    and nd: "\<And>t now. call \<noteq> DomainDestroy t now"
  shows "yields (unseen a h) (hv_call h d call)"
proof -
  note ap = strangerD(1) [OF s] and da = apartD(1) [OF strangerD(1) [OF s]] and good = hv_call_good [OF h d room]
  note peer = ev_peer_kept [OF hv_okD(1) [OF h] da apartD(3,4) [OF ap]] and sched = sc_own_kept [OF hv_okD(2) [OF h] da]
  show ?thesis
  proof (cases call)
    case (GrantMap r k w)
    then show ?thesis using good grant_map_unseen [OF h ap] by (intro ok_or_same_unseen) simp_all
  next
    case (P2mLink pa sl ch w lf x)
    then show ?thesis using good pm_edge_calls_unseen(1) [OF h ap] by (intro ok_or_same_unseen) simp_all
  next
    case (DomainDestroy t now)
    then show ?thesis using nd by blast
  qed (auto intro!: yields_propagate in_credit_unseen da in_evtchn_unseen in_sched_unseen ev_own_kept peer sched
      signal_unseen [OF h ap] guarded_unseen [OF h s d(1)] pm_calls_unseen [OF h ap] pm_edge_calls_unseen(2) [OF h ap]
      row_calls_unseen [OF h da] grant_unmap_unseen [OF h ap] simp: ev_mask_def)
qed

lemma names_frame_of_dying_iff:
  "names_frame_of_dying h a (Guest d (DomainDestroy t now)) \<longleftrightarrow>
     (\<exists>k r f ro. gt_offer (grant h) a k = Some (r, f, ro) \<and> pm_owner_of (p2m h) f = Some t)"
proof -
  have "k < gt_entry_count (grant h) a" if "gt_offer (grant h) a k = Some (r, f, ro)" for k r f ro
    using that gt_get_range [of "grant h" a k] by (auto simp: gt_offer_Some)
  then show ?thesis
    by (auto simp: list_ex_iff gt_granted_frame_iff split: option.splits) (metis gt_granted_frame_iff option.distinct(1) option.inject atLeast0LessThan lessThan_iff)+
qed

lemma apply_unmoved:
  assumes h: "hv_ok h" and slots: "gt_handle_slots (grant h) a < u32_size"
    and no: "\<not> authorized channels_full h (transition_actor tr) a"
  shows "unmoved a h (snd (hv_apply h tr))" "\<not> names_frame_of_dying h a tr \<Longrightarrow> unseen a h (snd (hv_apply h tr))"
proof -
  have "unmoved a h (snd (hv_apply h tr)) \<and> (\<not> names_frame_of_dying h a tr \<longrightarrow> unseen a h (snd (hv_apply h tr)))"
  proof (cases tr)
    case (RaiseVcpuVirq d v q)
    show ?thesis
    proof (cases "d < hv_domain_count h")
      case True
      then have "apart h a d" using authorized_stranger [OF h slots True] no RaiseVcpuVirq strangerD(1) by simp
      then show ?thesis using signal_unseen(3) [OF h, of a d v q] RaiseVcpuVirq by (simp add: hv_apply_def yields_def unseen_def)
    next
      case False
      then have "snd (raise_vcpu_virq h d v q) = h"
        using hv_okD(25) [OF h] by (simp add: raise_vcpu_virq_def ev_raise_virq_def ev_domain_def vec_get_def ev_domain_count_def propagate_def ok_or_def)
      then show ?thesis using RaiseVcpuVirq by (simp add: hv_apply_def)
    qed
  next
    case (Guest d call)
    show ?thesis
    proof (cases "is_live h d \<and> handles_left h d call")
      case True
      then have d: "d < hv_domain_count h" "\<not> dead (life h) d" and st: "snd (hv_apply h tr) = snd (hv_call h d call)"
        using route_cases [OF h, of d call] Guest by (auto simp: hv_apply_def dispatch_def)
      have s: "stranger h a d" using authorized_stranger [OF h slots d(1)] no Guest by simp
      show ?thesis
      proof (cases "\<exists>t now. call = DomainDestroy t now")
        case dd: True
        then obtain t now where c: "call = DomainDestroy t now" by blast
        show ?thesis
          using destroy_unmoved [OF h d(1) s, of t now] names_frame_of_dying_iff [of h a d t now] Guest
          unfolding st by (auto simp: c simp del: names_frame_of_dying.simps)
      next
        case False
        then have "unseen a h (snd (hv_call h d call))" using hv_call_unseen [OF h d s] True by (simp add: yields_def)
        then show ?thesis unfolding st by (simp add: unseen_def)
      qed
    next
      case False
      then have "snd (hv_apply h tr) = h"
        using route_cases [OF h, of d call] Guest by (auto simp: hv_apply_def dispatch_def handles_left_def grant_map_exhausted)
      then show ?thesis by simp
    qed
  qed
  then show "unmoved a h (snd (hv_apply h tr))" "\<not> names_frame_of_dying h a tr \<Longrightarrow> unseen a h (snd (hv_apply h tr))" by blast+
qed

lemma apply_obs_kept:
  assumes "hv_ok h" "gt_handle_slots (grant h) a < u32_size" "\<not> authorized channels_full h (transition_actor tr) a"
    "\<not> names_frame_of_dying h a tr"
  shows "obs (snd (hv_apply h tr)) a = obs h a"
  using apply_unmoved(2) [OF assms] obs_kept [OF assms(1) conjunct1 [OF hv_apply_kept [OF assms(1)]]] by (simp add: unseen_def)

section \<open>Properties\<close>

text \<open>
  C12: Local respect, for every reachable state and every transition: a step whose actor has no channel to
  \<open>a\<close> leaves to \<open>a\<close> its liveness and balance, its ports, the entries of its grant rows with their counts,
  its mappings by handle, its vCPUs, its frames with their counts and types, the edges of its tables and its
  devices. What is left of the observation is one column of the grant rows, which says whether a foreign
  table links the granted frame; it, and with it the whole list of numbers, is the same unless the step ends
  a domain that owns a frame one of \<open>a\<close>'s grant rows names, and \<open>local_respect_fails\<close> shows that it can
  then change. The handles of \<open>a\<close> are assumed to fit the 32-bit loop of \<open>a_borrows_from\<close>.
\<close>

theorem local_respect:
  assumes "hv_start h0" "h = hv_run trs h0" "gt_handle_slots (grant h) a < u32_size"
    and "\<not> authorized channels_full h (transition_actor tr) a" "h' = snd (hv_apply h tr)"
  shows "is_live h' a = is_live h a \<and> hv_balance h' a = hv_balance h a \<and> obs_ports h' a = obs_ports h a \<and>
    (\<forall>k. gt_grant_entry (grant h') a k = gt_grant_entry (grant h) a k) \<and> obs_maps h' a = obs_maps h a \<and>
    obs_vcpus h' a = obs_vcpus h a \<and> obs_frames h' a = obs_frames h a \<and> obs_edges h' a = obs_edges h a \<and>
    obs_devices h' a = obs_devices h a \<and> (\<not> names_frame_of_dying h a tr \<longrightarrow> obs h' a = obs h a)"
proof -
  have h: "hv_ok h" using hv_run_ok [OF assms(1)] assms(2) by simp
  have h': "hv_ok h'" using hv_apply_kept [OF h] assms(5) by simp
  have u: "unmoved a h h'" using apply_unmoved(1) [OF h assms(3,4)] assms(5) by simp
  have "\<not> names_frame_of_dying h a tr \<longrightarrow> obs h' a = obs h a" using apply_obs_kept [OF h assms(3,4)] assms(5) by simp
  with obs_parts_kept [OF h u] gt_rows_kept [OF hv_okD(3) [OF h] hv_okD(3) [OF h']] u show ?thesis
    by (simp add: unmoved_def)
qed

theorem local_respect_witness:
  "let h0 = hv_new 3 1 1 1 1 2 1;
       h = hv_run [Guest 0 (DomainCreate 1 False), Guest 0 (DomainCreate 2 False), Guest 1 (P2mAllocate 0), Guest 1 (GrantAccess 0 0 0 True)] h0;
       tr = Guest 2 (P2mAllocate 1) in
   hv_start h0 \<and> gt_handle_slots (grant h) 1 < u32_size \<and> \<not> authorized channels_full h 2 1 \<and>
   snd (hv_apply h tr) \<noteq> h \<and> obs (snd (hv_apply h tr)) 1 = obs h 1"
proof -
  let ?init = "hv_new 3 1 1 1 1 2 1"
  let ?trs = "[Guest 0 (DomainCreate 1 False), Guest 0 (DomainCreate 2 False), Guest 1 (P2mAllocate 0), Guest 1 (GrantAccess 0 0 0 True)]"
  let ?h = "hv_run ?trs ?init" and ?tr = "Guest 2 (P2mAllocate 1)"
  have st: "hv_start ?init" by (rule hv_startI) simp_all
  have sl: "gt_handle_slots (grant ?h) 1 < u32_size" by code_simp
  have un: "\<not> authorized channels_full ?h (transition_actor ?tr) 1" by code_simp
  have nd: "\<not> names_frame_of_dying ?h 1 ?tr" by code_simp
  have ne: "snd (hv_apply ?h ?tr) \<noteq> ?h" by code_simp
  have "obs (snd (hv_apply ?h ?tr)) 1 = obs ?h 1" using local_respect [OF st refl sl un refl] nd by blast
  then show ?thesis using st sl un ne unfolding Let_def transition_actor.simps by blast
qed

text \<open>
  C13: Isolation over runs: from every reachable state, any number of transitions by domains that have no
  channel to \<open>a\<close> when they act leave \<open>a\<close>'s observation as it was, when none of them ends a domain that owns a
  frame \<open>a\<close>'s grant rows name.
\<close>

theorem strangers_invisible:
  assumes "hv_start h0" "h = hv_run trs h0" "strangers_run h a trs'"
  shows "obs (hv_run trs' h) a = obs h a"
proof -
  have "hv_ok h" using hv_run_ok [OF assms(1)] assms(2) by simp
  with assms(3) show ?thesis
  proof (induction trs' arbitrary: h)
    case (Cons tr trs')
    have "obs (hv_run trs' (snd (hv_apply h tr))) a = obs (snd (hv_apply h tr)) a"
      using Cons.IH Cons.prems conjunct1 [OF hv_apply_kept] by simp
    then show ?case using apply_obs_kept [of h a tr] Cons.prems by (simp add: hv_run_def)
  qed (simp add: hv_run_def)
qed

theorem strangers_invisible_witness:
  "let h0 = hv_new 3 1 1 1 1 2 1; h = hv_run [Guest 0 (DomainCreate 1 False), Guest 0 (DomainCreate 2 False), Guest 1 (P2mAllocate 0)] h0;
     trs' = [Guest 2 (P2mAllocate 1), Guest 2 (P2mPin 1 L1), Guest 2 (GrantAccess 0 1 1 True), Guest 2 (DomainDestroy 2 5)] in
   hv_start h0 \<and> strangers_run h 1 trs' \<and> \<not> is_live (hv_run trs' h) 2 \<and> obs (hv_run trs' h) 1 = obs h 1"
proof -
  let ?init = "hv_new 3 1 1 1 1 2 1" and ?trs = "[Guest 0 (DomainCreate 1 False), Guest 0 (DomainCreate 2 False), Guest 1 (P2mAllocate 0)]"
  let ?h = "hv_run ?trs ?init"
  let ?r = "[Guest 2 (P2mAllocate 1), Guest 2 (P2mPin 1 L1), Guest 2 (GrantAccess 0 1 1 True), Guest 2 (DomainDestroy 2 5)]"
  have st: "hv_start ?init" by (rule hv_startI) simp_all
  have sr: "strangers_run ?h 1 ?r" by code_simp
  have "\<not> is_live (hv_run ?r ?h) 2" by code_simp
  then show ?thesis using st sr strangers_invisible [OF st refl sr] unfolding Let_def by blast
qed

text \<open>
  C14: The exception is real: local respect as the source states it is false. In a reachable state of three
  domains, domain 0 has granted to domain 2 a frame that domain 1 owns (a grant is not refused for a frame of
  another domain), domain 1 has granted the same frame to 2, and 2 has linked it. Domain 1 has no channel to
  domain 0, yet its own end changes what 0 observes.
\<close>

theorem local_respect_fails:
  "\<exists>h0 trs h a tr. hv_start h0 \<and> h = hv_run trs h0 \<and> gt_handle_slots (grant h) a < u32_size \<and>
     \<not> authorized channels_full h (transition_actor tr) a \<and> fst (hv_apply h tr) = Ok (GuestOutcome Done) \<and>
     obs (snd (hv_apply h tr)) a \<noteq> obs h a"
proof -
  let ?tr = "Guest 1 (DomainDestroy 1 0)"
  have st: "hv_start (hv_new 3 1 1 1 1 2 1)" by (rule hv_startI) simp_all
  have "gt_handle_slots (grant stale_state) 0 < u32_size \<and> \<not> authorized channels_full stale_state (transition_actor ?tr) 0 \<and>
     fst (hv_apply stale_state ?tr) = Ok (GuestOutcome Done) \<and> obs (snd (hv_apply stale_state ?tr)) 0 \<noteq> obs stale_state 0"
    by code_simp
  with st stale_state_def show ?thesis by blast
qed

end
