(* ===== verification/Virtio.thy ===== *)
theory Virtio
  imports Words
begin

text \<open>
  The virtio-mmio device models of \<open>hv-metal\<close>: the syndrome decode of a trapped access
  (\<open>abort.rs\<close>), the register file of the console (\<open>virtio.rs\<close>) and of the block device
  (\<open>blk.rs\<close>), which is the console's with a capacity, and the copy-on-write disk. An index out of an
  array's range is a panic, the value \<open>None\<close>. The disk is shown to refine the store it stands for:
  one private map per tenant over a template that no request can change.
\<close>

section \<open>The syndrome of a data abort\<close>

record DataAbort =
  a_isv :: bool
  a_sas :: u64
  a_srt :: nat
  a_wnr :: bool
  a_fnv :: bool

definition abort_decode :: "u64 \<Rightarrow> DataAbort" where
  "abort_decode esr =
     (let iss = esr AND 0x01ffffff in
      \<lparr>a_isv = drop_bit 24 iss AND 1 \<noteq> 0, a_sas = drop_bit 22 iss AND 3,
       a_srt = unat (drop_bit 16 iss AND 0x1f), a_wnr = drop_bit 6 iss AND 1 \<noteq> 0,
       a_fnv = drop_bit 10 iss AND 1 \<noteq> 0\<rparr>)"

definition access_bytes :: "DataAbort \<Rightarrow> u64" where
  "access_bytes a = push_bit (unat (a_sas a)) 1"

definition value_mask :: "DataAbort \<Rightarrow> u64" where
  "value_mask a =
     (if a_sas a = 0 then 0xff else if a_sas a = 1 then 0xffff else if a_sas a = 2 then 0xffffffff else - 1)"

definition page_ipa :: "u64 \<Rightarrow> u64" where
  "page_ipa hpfar = push_bit 8 (hpfar AND 0x00000ffffffffff0)"

definition full_ipa :: "u64 \<Rightarrow> u64 \<Rightarrow> u64" where
  "full_ipa hpfar far = page_ipa hpfar OR (far AND 0xfff)"

section \<open>The register file\<close>

definition VIRTIO_MMIO_BASE :: u64 where "VIRTIO_MMIO_BASE = 0x0a000000"
definition VIRTIO_MMIO_SIZE :: u64 where "VIRTIO_MMIO_SIZE = 0x200"

definition in_mmio_window :: "u64 \<Rightarrow> bool" where
  "in_mmio_window addr \<longleftrightarrow> VIRTIO_MMIO_BASE \<le> addr \<and> addr < VIRTIO_MMIO_BASE + VIRTIO_MMIO_SIZE"

definition MAGIC :: u32 where "MAGIC = 0x74726976"
definition VERSION_V2 :: u32 where "VERSION_V2 = 2"
definition DEVICE_ID_CONSOLE :: u32 where "DEVICE_ID_CONSOLE = 3"
definition DEVICE_ID_BLK :: u32 where "DEVICE_ID_BLK = 2"
definition VENDOR :: u32 where "VENDOR = 0x4c414256"
definition VERSION_1_WORD1_MASK :: u32 where "VERSION_1_WORD1_MASK = 1"
definition STATUS_DRIVER_OK :: u32 where "STATUS_DRIVER_OK = 4"
definition STATUS_FEATURES_OK :: u32 where "STATUS_FEATURES_OK = 8"
definition QUEUE_NUM_MAX_VAL :: u32 where "QUEUE_NUM_MAX_VAL = 8"
definition BLK_CONFIG_CAPACITY :: u64 where "BLK_CONFIG_CAPACITY = 0x100"

lemmas virtio_constants =
  VIRTIO_MMIO_BASE_def VIRTIO_MMIO_SIZE_def MAGIC_def VERSION_V2_def DEVICE_ID_CONSOLE_def DEVICE_ID_BLK_def
  VENDOR_def VERSION_1_WORD1_MASK_def STATUS_DRIVER_OK_def STATUS_FEATURES_OK_def QUEUE_NUM_MAX_VAL_def
  BLK_CONFIG_CAPACITY_def

record VirtioConsole =
  device_features_sel :: u32
  driver_features_sel :: u32
  driver_features0 :: u32
  driver_features1 :: u32
  queue_sel :: u32
  queue_num :: u32
  queue_ready :: u32
  queue_desc :: u64
  queue_driver :: u64
  queue_device :: u64
  dev_status :: u32
  interrupt_status :: u32
  used_idx :: u16
  last_avail_idx :: u16

record VirtioBlk = VirtioConsole +
  capacity :: u64

definition console_new :: VirtioConsole where
  "console_new = \<lparr>device_features_sel = 0, driver_features_sel = 0, driver_features0 = 0, driver_features1 = 0,
     queue_sel = 0, queue_num = 0, queue_ready = 0, queue_desc = 0, queue_driver = 0, queue_device = 0,
     dev_status = 0, interrupt_status = 0, used_idx = 0, last_avail_idx = 0\<rparr>"

definition queue_live :: "'a VirtioConsole_scheme \<Rightarrow> bool" where
  "queue_live d \<longleftrightarrow> dev_status d AND STATUS_DRIVER_OK \<noteq> 0 \<and> queue_ready d = 1"

text \<open>
  The registers the two devices share read alike; the identity register and what the device shows
  above the register file are its own.
\<close>

definition transport_read :: "u32 \<Rightarrow> (u64 \<Rightarrow> u32) \<Rightarrow> 'a VirtioConsole_scheme \<Rightarrow> u64 \<Rightarrow> u32" where
  "transport_read device_id config d offset =
     (if offset = 0x000 then MAGIC
      else if offset = 0x004 then VERSION_V2
      else if offset = 0x008 then device_id
      else if offset = 0x00c then VENDOR
      else if offset = 0x010 then (if device_features_sel d = 1 then VERSION_1_WORD1_MASK else 0)
      else if offset = 0x034 then QUEUE_NUM_MAX_VAL
      else if offset = 0x044 then queue_ready d
      else if offset = 0x060 then interrupt_status d
      else if offset = 0x070 then dev_status d
      else if offset = 0x0fc then 0
      else config offset)"

definition console_mmio_read :: "VirtioConsole \<Rightarrow> u64 \<Rightarrow> u32" where
  "console_mmio_read d = transport_read DEVICE_ID_CONSOLE (\<lambda>_. 0) d"

definition set_low :: "u64 \<Rightarrow> u32 \<Rightarrow> u64" where
  "set_low r v = (r AND NOT 0xffffffff) OR ucast v"

definition set_high :: "u64 \<Rightarrow> u32 \<Rightarrow> u64" where
  "set_high r v = (r AND 0xffffffff) OR push_bit 32 (ucast v)"

definition write_status :: "'a VirtioConsole_scheme \<Rightarrow> u32 \<Rightarrow> 'a VirtioConsole_scheme" where
  "write_status d v =
     (if v AND STATUS_FEATURES_OK \<noteq> 0 \<and> driver_features1 d AND VERSION_1_WORD1_MASK = 0
      then d\<lparr>dev_status := v AND NOT STATUS_FEATURES_OK\<rparr>
      else d\<lparr>dev_status := v\<rparr>)"

text \<open>A store; the flag says that it was a kick.\<close>

definition mmio_write :: "'a VirtioConsole_scheme \<Rightarrow> u64 \<Rightarrow> u32 \<Rightarrow> bool \<times> 'a VirtioConsole_scheme" where
  "mmio_write d offset v =
     (if offset = 0x050 then (True, d)
      else (False,
        if offset = 0x014 then d\<lparr>device_features_sel := v\<rparr>
        else if offset = 0x024 then d\<lparr>driver_features_sel := v\<rparr>
        else if offset = 0x020 then
          (if driver_features_sel d AND 1 = 0 then d\<lparr>driver_features0 := v\<rparr> else d\<lparr>driver_features1 := v\<rparr>)
        else if offset = 0x030 then d\<lparr>queue_sel := v\<rparr>
        else if offset = 0x038 then d\<lparr>queue_num := v\<rparr>
        else if offset = 0x044 then d\<lparr>queue_ready := v\<rparr>
        else if offset = 0x080 then d\<lparr>queue_desc := set_low (queue_desc d) v\<rparr>
        else if offset = 0x084 then d\<lparr>queue_desc := set_high (queue_desc d) v\<rparr>
        else if offset = 0x090 then d\<lparr>queue_driver := set_low (queue_driver d) v\<rparr>
        else if offset = 0x094 then d\<lparr>queue_driver := set_high (queue_driver d) v\<rparr>
        else if offset = 0x0a0 then d\<lparr>queue_device := set_low (queue_device d) v\<rparr>
        else if offset = 0x0a4 then d\<lparr>queue_device := set_high (queue_device d) v\<rparr>
        else if offset = 0x070 then write_status d v
        else if offset = 0x064 then d\<lparr>interrupt_status := interrupt_status d AND NOT v\<rparr>
        else d))"

section \<open>The copy-on-write disk\<close>

definition SECTOR_SIZE :: nat where "SECTOR_SIZE = 512"
definition DISK_SECTORS :: nat where "DISK_SECTORS = 4"
definition N_TENANTS :: nat where "N_TENANTS = 2"

lemmas disk_constants = SECTOR_SIZE_def DISK_SECTORS_def N_TENANTS_def

definition blk_new :: VirtioBlk where
  "blk_new = VirtioConsole.extend console_new (VirtioBlk.fields (of_nat DISK_SECTORS))"

definition blk_mmio_read :: "VirtioBlk \<Rightarrow> u64 \<Rightarrow> u32" where
  "blk_mmio_read d =
     transport_read DEVICE_ID_BLK
       (\<lambda>off. if off = BLK_CONFIG_CAPACITY then ucast (capacity d)
            else if off = BLK_CONFIG_CAPACITY + 4 then ucast (drop_bit 32 (capacity d)) else 0) d"

definition blk_mmio_write :: "VirtioBlk \<Rightarrow> u64 \<Rightarrow> u32 \<Rightarrow> bool \<times> VirtioBlk" where
  "blk_mmio_write d offset v = (if offset = 0x070 \<and> v = 0 then (False, blk_new) else mmio_write d offset v)"

type_synonym sector = "u8 list"

record BlkDisk =
  template :: "sector list"
  overlay :: "sector list list"
  dirty :: "bool list list"

definition disk_new :: BlkDisk where
  "disk_new =
     \<lparr>template = replicate DISK_SECTORS (replicate SECTOR_SIZE 0),
      overlay = replicate N_TENANTS (replicate DISK_SECTORS (replicate SECTOR_SIZE 0)),
      dirty = replicate N_TENANTS (replicate DISK_SECTORS False)\<rparr>"

definition to_sector :: "u8 list \<Rightarrow> sector" where
  "to_sector bytes = take SECTOR_SIZE bytes @ replicate (SECTOR_SIZE - length bytes) 0"

definition seed_template :: "BlkDisk \<Rightarrow> nat \<Rightarrow> u8 list \<Rightarrow> BlkDisk option" where
  "seed_template k sector bytes =
     (if sector < length (template k) then Some (k\<lparr>template := (template k)[sector := to_sector bytes]\<rparr>) else None)"

definition is_dirty :: "BlkDisk \<Rightarrow> nat \<Rightarrow> nat \<Rightarrow> bool option" where
  "is_dirty k tenant sector =
     (if tenant < length (dirty k) \<and> sector < length (dirty k ! tenant) then Some (dirty k ! tenant ! sector) else None)"

definition template_sector :: "BlkDisk \<Rightarrow> nat \<Rightarrow> sector option" where
  "template_sector k sector = (if sector < length (template k) then Some (template k ! sector) else None)"

definition overlay_sector :: "BlkDisk \<Rightarrow> nat \<Rightarrow> nat \<Rightarrow> sector option" where
  "overlay_sector k tenant sector =
     (if tenant < length (overlay k) \<and> sector < length (overlay k ! tenant) then Some (overlay k ! tenant ! sector) else None)"

definition disk_read :: "BlkDisk \<Rightarrow> nat \<Rightarrow> nat \<Rightarrow> sector option" where
  "disk_read k tenant sector =
     (case is_dirty k tenant sector of
        None \<Rightarrow> None
      | Some True \<Rightarrow> overlay_sector k tenant sector
      | Some False \<Rightarrow> template_sector k sector)"

definition disk_write :: "BlkDisk \<Rightarrow> nat \<Rightarrow> nat \<Rightarrow> u8 list \<Rightarrow> BlkDisk option" where
  "disk_write k tenant sector bytes =
     (if tenant < length (overlay k) \<and> sector < length (overlay k ! tenant) \<and>
         tenant < length (dirty k) \<and> sector < length (dirty k ! tenant)
      then Some (k\<lparr>overlay := (overlay k)[tenant := (overlay k ! tenant)[sector := to_sector bytes]],
                   dirty := (dirty k)[tenant := (dirty k ! tenant)[sector := True]]\<rparr>)
      else None)"

definition discard_overlay :: "BlkDisk \<Rightarrow> nat \<Rightarrow> BlkDisk option" where
  "discard_overlay k tenant =
     (if tenant < length (overlay k) \<and> tenant < length (dirty k)
      then Some (k\<lparr>overlay := (overlay k)[tenant := replicate DISK_SECTORS (replicate SECTOR_SIZE 0)],
                   dirty := (dirty k)[tenant := replicate DISK_SECTORS False]\<rparr>)
      else None)"

section \<open>The disk refines one private map per tenant\<close>

definition disk_ok :: "BlkDisk \<Rightarrow> bool" where
  "disk_ok k \<longleftrightarrow>
     length (template k) = DISK_SECTORS \<and> length (overlay k) = N_TENANTS \<and> length (dirty k) = N_TENANTS \<and>
     (\<forall>t < N_TENANTS. length (overlay k ! t) = DISK_SECTORS \<and> length (dirty k ! t) = DISK_SECTORS) \<and>
     (\<forall>s < DISK_SECTORS. length (template k ! s) = SECTOR_SIZE) \<and>
     (\<forall>t < N_TENANTS. \<forall>s < DISK_SECTORS. length (overlay k ! t ! s) = SECTOR_SIZE)"

datatype DiskOp = WriteOp nat nat "u8 list" | DiscardOp nat

fun disk_step :: "DiskOp \<Rightarrow> BlkDisk \<Rightarrow> BlkDisk option" where
  "disk_step (WriteOp tenant sector bytes) k = disk_write k tenant sector bytes"
| "disk_step (DiscardOp tenant) k = discard_overlay k tenant"

fun disk_run :: "DiskOp list \<Rightarrow> BlkDisk \<Rightarrow> BlkDisk option" where
  "disk_run [] k = Some k"
| "disk_run (op # ops) k = (case disk_step op k of None \<Rightarrow> None | Some k' \<Rightarrow> disk_run ops k')"

fun op_valid :: "DiskOp \<Rightarrow> bool" where
  "op_valid (WriteOp tenant sector bytes) \<longleftrightarrow> tenant < N_TENANTS \<and> sector < DISK_SECTORS"
| "op_valid (DiscardOp tenant) \<longleftrightarrow> tenant < N_TENANTS"

text \<open>The specification: the sectors a tenant has of its own, from its own operations alone.\<close>

fun own_step :: "nat \<Rightarrow> DiskOp \<Rightarrow> (nat \<rightharpoonup> sector) \<Rightarrow> (nat \<rightharpoonup> sector)" where
  "own_step t (WriteOp tenant sector bytes) v = (if tenant = t then v(sector \<mapsto> to_sector bytes) else v)"
| "own_step t (DiscardOp tenant) v = (if tenant = t then Map.empty else v)"

definition own_run :: "nat \<Rightarrow> DiskOp list \<Rightarrow> (nat \<rightharpoonup> sector) \<Rightarrow> (nat \<rightharpoonup> sector)" where
  "own_run t ops v = fold (own_step t) ops v"

definition disk_own :: "BlkDisk \<Rightarrow> nat \<Rightarrow> (nat \<rightharpoonup> sector)" where
  "disk_own k t s = (if s < DISK_SECTORS \<and> dirty k ! t ! s then Some (overlay k ! t ! s) else None)"

lemma length_to_sector [simp]: "length (to_sector bs) = SECTOR_SIZE"
  by (simp add: to_sector_def)

lemma disk_new_ok: "disk_ok disk_new"
  by (simp add: disk_ok_def disk_new_def)

lemma seed_template_ok: "disk_ok k \<Longrightarrow> seed_template k s bs = Some k' \<Longrightarrow> disk_ok k'"
  by (auto simp: disk_ok_def seed_template_def nth_list_update split: if_splits)

lemma disk_read_own:
  assumes "disk_ok k" "t < N_TENANTS" "s < DISK_SECTORS"
  shows "disk_read k t s = Some (case disk_own k t s of Some b \<Rightarrow> b | None \<Rightarrow> template k ! s)"
  using assms
  by (auto simp: disk_read_def disk_own_def disk_ok_def is_dirty_def overlay_sector_def template_sector_def)

lemma disk_read_length:
  assumes "disk_ok k" "t < N_TENANTS" "s < DISK_SECTORS"
  shows "\<exists>b. disk_read k t s = Some b \<and> length b = SECTOR_SIZE"
  using assms unfolding disk_read_own [OF assms] by (auto simp: disk_own_def disk_ok_def split: option.splits)

lemma disk_step_refines:
  assumes k: "disk_ok k" and v: "op_valid x"
  shows "\<exists>k'. disk_step x k = Some k' \<and> disk_ok k' \<and> template k' = template k \<and>
    (\<forall>t < N_TENANTS. disk_own k' t = own_step t x (disk_own k t))"
  using v
proof (cases x)
  case (WriteOp t s bs)
  then show ?thesis using k v
    by (auto simp: disk_write_def disk_ok_def disk_own_def nth_list_update fun_eq_iff)
next
  case (DiscardOp t)
  then show ?thesis using k v
    by (auto simp: discard_overlay_def disk_ok_def disk_own_def nth_list_update fun_eq_iff)
qed

lemma disk_run_refines:
  "disk_ok k \<Longrightarrow> list_all op_valid ops \<Longrightarrow>
   \<exists>k'. disk_run ops k = Some k' \<and> disk_ok k' \<and> template k' = template k \<and>
     (\<forall>t < N_TENANTS. disk_own k' t = own_run t ops (disk_own k t))"
proof (induction ops arbitrary: k)
  case (Cons x ops)
  then obtain k1 where k1: "disk_step x k = Some k1" "disk_ok k1" "template k1 = template k"
    "\<forall>t < N_TENANTS. disk_own k1 t = own_step t x (disk_own k t)"
    using disk_step_refines [of k x] by auto
  with Cons.IH [of k1] Cons.prems show ?case by (auto simp: own_run_def)
qed (simp add: own_run_def)

text \<open>
  C19: Whatever the tenants write and discard, in any order, every request inside the disk is served,
  the template stays as it was seeded, and what a tenant reads of a sector is what it wrote there
  last since its overlay was last discarded, cut or padded to a sector, and the template's sector
  when there is no such write: other tenants' operations have no part in it.
\<close>

theorem disk_cow_refines:
  assumes "disk_ok k" "list_all op_valid ops"
  shows "\<exists>k'. disk_run ops k = Some k' \<and> disk_ok k' \<and> template k' = template k \<and>
    (\<forall>t < N_TENANTS. \<forall>s < DISK_SECTORS.
       disk_read k' t s = Some (case own_run t ops (disk_own k t) s of Some b \<Rightarrow> b | None \<Rightarrow> template k ! s))"
proof -
  from disk_run_refines [OF assms] obtain k' where k': "disk_run ops k = Some k'" "disk_ok k'" "template k' = template k"
    "\<forall>t < N_TENANTS. disk_own k' t = own_run t ops (disk_own k t)" by blast
  have "disk_read k' t s = Some (case own_run t ops (disk_own k t) s of Some b \<Rightarrow> b | None \<Rightarrow> template k ! s)"
    if "t < N_TENANTS" "s < DISK_SECTORS" for t s
    using k'(3,4) that by (simp add: disk_read_own [OF k'(2) that] split: option.split)
  with k'(1-3) show ?thesis by blast
qed

theorem disk_cow_refines_witness:
  "\<exists>k'. disk_run [WriteOp 0 2 [7, 9], WriteOp 1 2 [5], DiscardOp 1] disk_new = Some k' \<and>
     disk_read k' 0 2 = Some (to_sector [7, 9]) \<and> disk_read k' 1 2 = Some (replicate SECTOR_SIZE 0)"
proof -
  have "list_all op_valid [WriteOp 0 2 [7, 9], WriteOp 1 2 [5], DiscardOp 1]" by (simp add: disk_constants)
  from disk_cow_refines [OF disk_new_ok this] obtain k' where
    r: "disk_run [WriteOp 0 2 [7, 9], WriteOp 1 2 [5], DiscardOp 1] disk_new = Some k'" and
    v: "\<forall>t < N_TENANTS. \<forall>s < DISK_SECTORS. disk_read k' t s =
      Some (case own_run t [WriteOp 0 2 [7, 9], WriteOp 1 2 [5], DiscardOp 1] (disk_own disk_new t) s of
        Some b \<Rightarrow> b | None \<Rightarrow> template disk_new ! s)" by blast
  have "disk_read k' 0 2 = Some (to_sector [7, 9])"
    using v [rule_format, of 0 2] by (simp add: own_run_def disk_constants)
  moreover have "disk_read k' 1 2 = Some (replicate SECTOR_SIZE 0)"
    using v [rule_format, of 1 2] by (simp add: own_run_def disk_constants disk_new_def)
  ultimately show ?thesis using r by blast
qed

section \<open>The handshake and the queue registers\<close>

text \<open>The two sources of a faulting address do not overlap: each supplies its own bits.\<close>

lemma bit_full_ipa: "bit (full_ipa hpfar far) n \<longleftrightarrow> (if n < 12 then bit far n else n < 52 \<and> bit hpfar (n - 8))"
proof -
  have m: "(0x00000ffffffffff0 :: u64) = push_bit 4 (mask 40)" "(0xfff :: u64) = mask 12" by (simp_all add: mask_eq_exp_minus_1)
  show ?thesis using bit_imp_le_length [of far n]
    by (auto simp: full_ipa_def page_ipa_def m bit_simps)
qed

text \<open>The device keeps \<open>FEATURES_OK\<close> only from a driver that has accepted \<open>VIRTIO_F_VERSION_1\<close>.\<close>

lemma features_ok_accepted:
  "dev_status (write_status d v) AND STATUS_FEATURES_OK \<noteq> 0 \<Longrightarrow> driver_features1 d AND VERSION_1_WORD1_MASK \<noteq> 0"
  by (auto simp: write_status_def and.assoc split: if_splits)

text \<open>The two halves of a queue address are stored apart and read together.\<close>

lemma set_low_high: "set_high (set_low r lo) hi = push_bit 32 (ucast hi) OR ucast lo"
proof (rule bit_word_eqI)
  fix n assume "n < LENGTH(64)"
  have m: "(0xffffffff :: u64) = mask 32" by (simp add: mask_eq_exp_minus_1)
  show "bit (set_high (set_low r lo) hi) n \<longleftrightarrow> bit (push_bit 32 (ucast hi) OR ucast lo :: u64) n"
    using bit_imp_le_length [of lo n]
    by (auto simp: set_high_def set_low_def m bit_simps)
qed

text \<open>
  Writing 0 to \<open>Status\<close> resets the block device, cursors and queue included. On the console the same
  store clears \<open>Status\<close> alone.
\<close>

lemma blk_reset: "blk_mmio_write d 0x070 0 = (False, blk_new)"
  by (simp add: blk_mmio_write_def)

lemma console_zero_status_keeps: "mmio_write d 0x070 0 = (False, d\<lparr>dev_status := 0\<rparr>)"
  by (simp add: mmio_write_def write_status_def)

text \<open>
  \<open>queue_live\<close> looks at \<open>DRIVER_OK\<close> and \<open>QueueReady\<close> alone, so two stores make a queue live whose
  driver has accepted no feature.
\<close>

lemma live_without_features:
  "\<exists>d. snd (mmio_write (snd (mmio_write console_new 0x070 4)) 0x044 1) = d \<and> queue_live d \<and>
     driver_features1 d = 0 \<and> dev_status d AND STATUS_FEATURES_OK = 0"
  by (simp add: mmio_write_def write_status_def queue_live_def console_new_def virtio_constants)

end
