(* ===== verification/Virtio_Backend.thy ===== *)
theory Virtio_Backend
  imports Virtio Hypervisor_Inv "HOL-Library.State_Monad"
begin

text \<open>
  The virtio backend of \<open>hv-metal/src/guest.rs\<close>: the grant gate, the accesses to guest memory behind
  it (\<open>GuestMem\<close> of \<open>stage2.rs\<close>), the two queue kicks with their loops, the block request over the
  copy-on-write disk, and the trapped register access that starts them. The code threads its devices,
  the disk and the memory through every call, so the operations are in the state monad over the
  record \<open>Metal\<close>; a \<open>let .. else return\<close> is \<open>let_else\<close>, a panic or \<open>park\<close> is a result of its own.
  Of what goes to the UART, \<open>uart_out\<close> keeps the payload bytes and leaves the log lines aside.
  Addresses are \<open>u64\<close> and their sums wrap, as in the release build that is booted.
\<close>

section \<open>State\<close>

text \<open>The machine memory behind the frames; the bounds are symbols of the linker script.\<close>

record Backing =
  data_ram_start :: u64
  data_ram_end :: u64
  sup_ram_start :: u64
  num_sup_frames :: nat

datatype ActiveVirtio = NoVirtio | ConsoleActive | BlkActive

record Metal =
  ram :: "u64 \<Rightarrow> u8"
  uart_out :: "u8 list"
  virtio_dev :: VirtioConsole
  blk_dev :: VirtioBlk
  blk_disk :: BlkDisk
  blk_tenant :: nat
  virtio_ungranted_refused :: bool
  blk_ungranted_refused :: bool
  virtio_drained_ok :: bool
  active_virtio :: ActiveVirtio

type_synonym 'a metal = "(Metal, 'a) state"

abbreviation ret :: "'a \<Rightarrow> 'a metal" where "ret \<equiv> State_Monad.return"
abbreviation getm :: "Metal metal" where "getm \<equiv> State_Monad.get"
abbreviation modifym :: "(Metal \<Rightarrow> Metal) \<Rightarrow> unit metal" where "modifym \<equiv> State_Monad.update"

definition let_else :: "'a option metal \<Rightarrow> 'b \<Rightarrow> ('a \<Rightarrow> 'b metal) \<Rightarrow> 'b metal" where
  "let_else m r k = do { x \<leftarrow> m; case x of None \<Rightarrow> ret r | Some v \<Rightarrow> k v }"

definition DATA_IPA_BASE :: u64 where "DATA_IPA_BASE = 0x80000000"
definition FRAME_SIZE :: u64 where "FRAME_SIZE = 0x1000"
definition VIRTIO_DOM :: DomId where "VIRTIO_DOM = 1"
definition VIRTIO_BACKEND :: DomId where "VIRTIO_BACKEND = 0"

lemmas metal_constants = DATA_IPA_BASE_def FRAME_SIZE_def VIRTIO_DOM_def VIRTIO_BACKEND_def

section \<open>Guest memory\<close>

definition ipa_to_pa :: "Backing \<Rightarrow> u64 \<Rightarrow> nat \<Rightarrow> u64 option" where
  "ipa_to_pa b gpa len =
     (let win = data_ram_end b - data_ram_start b in
      case checked_sub gpa DATA_IPA_BASE of
        None \<Rightarrow> None
      | Some off \<Rightarrow>
          (case checked_add off (of_nat len) of
             None \<Rightarrow> None
           | Some fin \<Rightarrow> if win < fin then None else Some (data_ram_start b + off)))"

definition peek :: "(u64 \<Rightarrow> u8) \<Rightarrow> u64 \<Rightarrow> nat \<Rightarrow> u8 list" where
  "peek m pa n = map (\<lambda>i. m (pa + of_nat i)) [0..<n]"

definition poke :: "(u64 \<Rightarrow> u8) \<Rightarrow> u64 \<Rightarrow> u8 list \<Rightarrow> (u64 \<Rightarrow> u8)" where
  "poke m pa bs = (\<lambda>a. if unat (a - pa) < length bs then bs ! unat (a - pa) else m a)"

definition gm_read :: "Backing \<Rightarrow> u64 \<Rightarrow> nat \<Rightarrow> u8 list option metal" where
  "gm_read b gpa n = do { s \<leftarrow> getm; ret (map_option (\<lambda>pa. peek (ram s) pa n) (ipa_to_pa b gpa n)) }"

definition gm_write :: "Backing \<Rightarrow> u64 \<Rightarrow> u8 list \<Rightarrow> bool metal" where
  "gm_write b gpa bs =
     (case ipa_to_pa b gpa (length bs) of
        None \<Rightarrow> ret False
      | Some pa \<Rightarrow> do { modifym (\<lambda>s. s\<lparr>ram := poke (ram s) pa bs\<rparr>); ret True })"

section \<open>The grant gate\<close>

definition gpa_to_mfn :: "u64 \<Rightarrow> u32 option" where
  "gpa_to_mfn gpa = map_option (\<lambda>off. ucast (off div FRAME_SIZE)) (checked_sub gpa DATA_IPA_BASE)"

definition refuse :: "bool metal" where
  "refuse = do { modifym (\<lambda>s. s\<lparr>virtio_ungranted_refused := True\<rparr>); ret False }"

definition backend_authorize :: "Hypervisor \<Rightarrow> u64 \<Rightarrow> u64 \<Rightarrow> bool \<Rightarrow> bool metal" where
  "backend_authorize h gpa len writable =
     (case gpa_to_mfn gpa of
        None \<Rightarrow> refuse
      | Some mfn \<Rightarrow>
          if FRAME_SIZE < (gpa AND (FRAME_SIZE - 1)) + len then refuse
          else if \<not> gt_authorizes (grant h) VIRTIO_DOM VIRTIO_BACKEND (unat mfn) writable then refuse
          else ret True)"

definition backend_read :: "Hypervisor \<Rightarrow> Backing \<Rightarrow> u64 \<Rightarrow> nat \<Rightarrow> u8 list option metal" where
  "backend_read h b gpa n =
     do { a \<leftarrow> backend_authorize h gpa (of_nat n) False; if a then gm_read b gpa n else ret None }"

definition backend_write :: "Hypervisor \<Rightarrow> Backing \<Rightarrow> u64 \<Rightarrow> u8 list \<Rightarrow> bool metal" where
  "backend_write h b gpa bs =
     do { a \<leftarrow> backend_authorize h gpa (of_nat (length bs)) True; if a then gm_write b gpa bs else ret False }"

fun from_le :: "u8 list \<Rightarrow> 'a::len word" where
  "from_le [] = 0"
| "from_le (x # xs) = ucast x OR push_bit 8 (from_le xs)"

definition to_le :: "nat \<Rightarrow> 'a::len word \<Rightarrow> u8 list" where
  "to_le n v = map (\<lambda>i. ucast (drop_bit (8 * i) v)) [0..<n]"

definition backend_read_u16 :: "Hypervisor \<Rightarrow> Backing \<Rightarrow> u64 \<Rightarrow> u16 option metal" where
  "backend_read_u16 h b gpa = do { x \<leftarrow> backend_read h b gpa 2; ret (map_option from_le x) }"

definition backend_read_u32 :: "Hypervisor \<Rightarrow> Backing \<Rightarrow> u64 \<Rightarrow> u32 option metal" where
  "backend_read_u32 h b gpa = do { x \<leftarrow> backend_read h b gpa 4; ret (map_option from_le x) }"

definition backend_read_u64 :: "Hypervisor \<Rightarrow> Backing \<Rightarrow> u64 \<Rightarrow> u64 option metal" where
  "backend_read_u64 h b gpa = do { x \<leftarrow> backend_read h b gpa 8; ret (map_option from_le x) }"

section \<open>The console's kick\<close>

datatype Flow = Proceed | Leave | Crash

definition backend_drain_to_console :: "Hypervisor \<Rightarrow> Backing \<Rightarrow> u64 \<Rightarrow> u32 \<Rightarrow> u32 metal" where
  "backend_drain_to_console h b addr len =
     (let len = min len 256 in
      let_else (backend_read h b addr (unat len)) 0 (\<lambda>bytes.
      do { modifym (\<lambda>s. s\<lparr>uart_out := uart_out s @ bytes\<rparr>); ret len }))"

text \<open>
  The used ring's next element and index. Both kicks end an iteration with it, each on its own
  device; the results of the three writes are dropped.
\<close>

definition retire :: "Hypervisor \<Rightarrow> Backing \<Rightarrow> u16 \<Rightarrow> 'a VirtioConsole_scheme \<Rightarrow> u16 \<Rightarrow> u32 \<Rightarrow> unit metal" where
  "retire h b num dev hdr written =
     (let slot = ucast (used_idx dev mod num) :: u64; el = queue_device dev + 4 + slot * 8 in
      do { _ \<leftarrow> backend_write h b el (to_le 4 (ucast hdr :: u32));
           _ \<leftarrow> backend_write h b (el + 4) (to_le 4 written);
           _ \<leftarrow> backend_write h b (queue_device dev + 2) (to_le 2 (used_idx dev + 1));
           ret () })"

definition advanced :: "'a VirtioConsole_scheme \<Rightarrow> 'a VirtioConsole_scheme" where
  "advanced dev = dev\<lparr>used_idx := used_idx dev + 1, last_avail_idx := last_avail_idx dev + 1\<rparr>"

definition avail_entry :: "u16 \<Rightarrow> 'a VirtioConsole_scheme \<Rightarrow> u64" where
  "avail_entry num dev = queue_driver dev + 4 + ucast (last_avail_idx dev mod num) * 2"

definition console_step :: "Hypervisor \<Rightarrow> Backing \<Rightarrow> u16 \<Rightarrow> Flow metal" where
  "console_step h b num =
     do { s \<leftarrow> getm;
          let dev = virtio_dev s;
          let_else (backend_read_u16 h b (avail_entry num dev)) Leave (\<lambda>hdr.
          let desc = queue_desc dev + ucast hdr * 16 in
          do { addr \<leftarrow> backend_read_u64 h b desc;
               len \<leftarrow> backend_read_u32 h b (desc + 8);
               case (addr, len) of
                 (Some addr, Some len) \<Rightarrow>
                   do { written \<leftarrow> backend_drain_to_console h b addr len;
                        retire h b num dev hdr written;
                        modifym (\<lambda>s. s\<lparr>virtio_dev := advanced (virtio_dev s)\<rparr>);
                        ret Proceed }
               | _ \<Rightarrow> ret Leave }) }"

section \<open>The block request\<close>

record BlkDesc =
  d_addr :: u64
  d_len :: u32
  d_flags :: u16
  d_next :: u16

definition backend_read_desc :: "Hypervisor \<Rightarrow> Backing \<Rightarrow> u64 \<Rightarrow> u16 \<Rightarrow> u16 \<Rightarrow> BlkDesc option metal" where
  "backend_read_desc h b desc_table index num =
     (if num \<le> index then ret None
      else
        let d = desc_table + ucast index * 16 in
        let_else (backend_read_u64 h b d) None (\<lambda>addr.
        let_else (backend_read_u32 h b (d + 8)) None (\<lambda>len.
        let_else (backend_read_u16 h b (d + 12)) None (\<lambda>flags.
        let_else (backend_read_u16 h b (d + 14)) None (\<lambda>nxt.
        ret (Some \<lparr>d_addr = addr, d_len = len, d_flags = flags, d_next = nxt\<rparr>))))))"

definition VIRTIO_BLK_T_IN :: u32 where "VIRTIO_BLK_T_IN = 0"
definition VIRTIO_BLK_T_OUT :: u32 where "VIRTIO_BLK_T_OUT = 1"
definition VIRTIO_BLK_S_OK :: u8 where "VIRTIO_BLK_S_OK = 0"
definition VIRTIO_BLK_S_IOERR :: u8 where "VIRTIO_BLK_S_IOERR = 1"
definition VIRTQ_DESC_F_NEXT :: u16 where "VIRTQ_DESC_F_NEXT = 1"
definition VIRTQ_DESC_F_WRITE :: u16 where "VIRTQ_DESC_F_WRITE = 2"

lemmas blk_constants = VIRTIO_BLK_T_IN_def VIRTIO_BLK_T_OUT_def VIRTIO_BLK_S_OK_def VIRTIO_BLK_S_IOERR_def
  VIRTQ_DESC_F_NEXT_def VIRTQ_DESC_F_WRITE_def

definition refuse_blk :: "u8 option metal" where
  "refuse_blk = do { modifym (\<lambda>s. s\<lparr>blk_ungranted_refused := True\<rparr>); ret (Some VIRTIO_BLK_S_IOERR) }"

text \<open>The two directions; the result is the status byte, or \<open>None\<close> when the disk panics.\<close>

definition serve_in :: "Hypervisor \<Rightarrow> Backing \<Rightarrow> u64 \<Rightarrow> nat \<Rightarrow> nat \<Rightarrow> u8 option metal" where
  "serve_in h b addr n sector =
     do { a \<leftarrow> backend_authorize h addr (of_nat n) True;
          if \<not> a then refuse_blk
          else do { s \<leftarrow> getm;
            case disk_read (blk_disk s) (blk_tenant s) sector of
              None \<Rightarrow> ret None
            | Some data \<Rightarrow>
                do { ok \<leftarrow> gm_write b addr (take n data);
                     if ok
                     then do { modifym (\<lambda>s. s\<lparr>uart_out := uart_out s @ takeWhile (\<lambda>x. x \<noteq> 0) (take n data)\<rparr>);
                               ret (Some VIRTIO_BLK_S_OK) }
                     else ret (Some VIRTIO_BLK_S_IOERR) } } }"

definition serve_out :: "Hypervisor \<Rightarrow> Backing \<Rightarrow> u64 \<Rightarrow> nat \<Rightarrow> nat \<Rightarrow> u8 option metal" where
  "serve_out h b addr n sector =
     do { a \<leftarrow> backend_authorize h addr (of_nat n) False;
          if \<not> a then refuse_blk
          else let_else (gm_read b addr n) (Some VIRTIO_BLK_S_IOERR) (\<lambda>buf.
            do { s \<leftarrow> getm;
                 case disk_write (blk_disk s) (blk_tenant s) sector buf of
                   None \<Rightarrow> ret None
                 | Some k \<Rightarrow> do { modifym (\<lambda>s. s\<lparr>blk_disk := k\<rparr>); ret (Some VIRTIO_BLK_S_OK) } }) }"

definition direction_ok :: "u32 \<Rightarrow> BlkDesc \<Rightarrow> bool" where
  "direction_ok typ d \<longleftrightarrow>
     (let data_writable = d_flags d AND VIRTQ_DESC_F_WRITE \<noteq> 0 in
      if typ = VIRTIO_BLK_T_IN then data_writable else if typ = VIRTIO_BLK_T_OUT then \<not> data_writable else False)"

definition serve :: "Hypervisor \<Rightarrow> Backing \<Rightarrow> u32 \<Rightarrow> u64 \<Rightarrow> BlkDesc \<Rightarrow> u8 option metal" where
  "serve h b typ sector64 d1 =
     (let sector = unat sector64; n = min (unat (d_len d1)) SECTOR_SIZE in
      if DISK_SECTORS \<le> sector \<or> \<not> direction_ok typ d1 then ret (Some VIRTIO_BLK_S_IOERR)
      else if typ = VIRTIO_BLK_T_IN then serve_in h b (d_addr d1) n sector
      else if typ = VIRTIO_BLK_T_OUT then serve_out h b (d_addr d1) n sector
      else ret (Some VIRTIO_BLK_S_IOERR))"

definition process_blk_request :: "Hypervisor \<Rightarrow> Backing \<Rightarrow> u64 \<Rightarrow> u16 \<Rightarrow> u16 \<Rightarrow> Flow metal" where
  "process_blk_request h b desc_table num hdr =
     let_else (backend_read_desc h b desc_table hdr num) Proceed (\<lambda>d0.
     if d_flags d0 AND VIRTQ_DESC_F_NEXT = 0 \<or> ucast (d_len d0) < (16 :: u64) then ret Proceed
     else
       do { typ \<leftarrow> backend_read_u32 h b (d_addr d0);
            sector64 \<leftarrow> backend_read_u64 h b (d_addr d0 + 8);
            case (typ, sector64) of
              (Some typ, Some sector64) \<Rightarrow>
                let_else (backend_read_desc h b desc_table (d_next d0) num) Proceed (\<lambda>d1.
                if d_flags d1 AND VIRTQ_DESC_F_NEXT = 0 then ret Proceed
                else
                  let_else (backend_read_desc h b desc_table (d_next d1) num) Proceed (\<lambda>d2.
                  let_else (serve h b typ sector64 d1) Crash (\<lambda>status.
                  do { _ \<leftarrow> backend_write h b (d_addr d2) [status]; ret Proceed })))
            | _ \<Rightarrow> ret Proceed })"

definition blk_step :: "Hypervisor \<Rightarrow> Backing \<Rightarrow> u16 \<Rightarrow> Flow metal" where
  "blk_step h b num =
     do { s \<leftarrow> getm;
          let dev = blk_dev s;
          let_else (backend_read_u16 h b (avail_entry num dev)) Leave (\<lambda>hdr.
          do { r \<leftarrow> process_blk_request h b (queue_desc dev) num hdr;
               if r = Crash then ret Crash
               else do { retire h b num dev hdr 0;
                         modifym (\<lambda>s. s\<lparr>blk_dev := advanced (blk_dev s)\<rparr>);
                         ret Proceed } }) }"

section \<open>What an operation of the backend leaves alone\<close>

text \<open>
  Between two iterations the backend changes no device, no other tenant's overlay and never the
  template; the disk stays well-formed.
\<close>

definition backend_rel :: "Metal \<Rightarrow> Metal \<Rightarrow> bool" where
  "backend_rel s s' \<longleftrightarrow>
     virtio_dev s' = virtio_dev s \<and> blk_dev s' = blk_dev s \<and> blk_tenant s' = blk_tenant s \<and>
     active_virtio s' = active_virtio s \<and> (disk_ok (blk_disk s) \<longrightarrow> disk_ok (blk_disk s')) \<and>
     template (blk_disk s') = template (blk_disk s) \<and>
     (\<forall>t. t \<noteq> blk_tenant s \<longrightarrow> disk_own (blk_disk s') t = disk_own (blk_disk s) t)"

abbreviation served :: "'a metal \<Rightarrow> bool" where "served \<equiv> state_io_rel backend_rel"

named_theorems served_intros \<open>rules that take an operation of the backend apart\<close>

declare State_Monad.run_state_bind [simp del]

lemma run_bind [simp]: "run_state (m \<bind> k) s = run_state (k (fst (run_state m s))) (snd (run_state m s))"
  by (simp add: State_Monad.bind_def split: prod.split)

lemma run_get [simp]: "run_state getm s = (s, s)"
  by (simp add: State_Monad.get_def)

lemma run_update [simp]: "run_state (modifym g) s = ((), g s)"
  by (simp add: State_Monad.update_def State_Monad.set_def)

lemma run_let_else:
  "run_state (let_else m r k) s =
     (case fst (run_state m s) of None \<Rightarrow> (r, snd (run_state m s)) | Some v \<Rightarrow> run_state (k v) (snd (run_state m s)))"
  by (simp add: let_else_def split: option.split)

lemma backend_rel_refl [simp]: "backend_rel s s"
  by (simp add: backend_rel_def)

lemma backend_rel_trans: "backend_rel s s' \<Longrightarrow> backend_rel s' s'' \<Longrightarrow> backend_rel s s''"
  by (simp add: backend_rel_def)

lemma served_return [served_intros]: "served (ret x)"
  by (simp add: state_io_rel_def)

lemma served_get [served_intros]: "served getm"
  by (simp add: state_io_rel_def)

lemma served_bind [served_intros]: "served m \<Longrightarrow> (\<And>x. served (k x)) \<Longrightarrow> served (m \<bind> k)"
  unfolding state_io_rel_def by (auto intro: backend_rel_trans)

lemma served_let_else [served_intros]: "served m \<Longrightarrow> (\<And>x. served (k x)) \<Longrightarrow> served (let_else m r k)"
  unfolding state_io_rel_def by (auto simp: run_let_else intro: backend_rel_trans split: option.split)

lemma served_if [served_intros]: "(c \<Longrightarrow> served m) \<Longrightarrow> (\<not> c \<Longrightarrow> served m') \<Longrightarrow> served (if c then m else m')"
  by simp

lemma served_option [served_intros]: "served m \<Longrightarrow> (\<And>x. served (k x)) \<Longrightarrow> served (case y of None \<Rightarrow> m | Some x \<Rightarrow> k x)"
  by (cases y) simp_all

lemma served_pair [served_intros]: "(\<And>x y. served (k x y)) \<Longrightarrow> served (case z of (x, y) \<Rightarrow> k x y)"
  by (cases z) simp

lemma served_Let [served_intros]: "served (k x) \<Longrightarrow> served (let y = x in k y)"
  by simp

lemma served_update:
  "served (modifym (\<lambda>s. s\<lparr>ram := g s\<rparr>))" "served (modifym (\<lambda>s. s\<lparr>uart_out := g' s\<rparr>))"
  "served (modifym (\<lambda>s. s\<lparr>virtio_ungranted_refused := c\<rparr>))" "served (modifym (\<lambda>s. s\<lparr>blk_ungranted_refused := c\<rparr>))"
  by (simp_all add: state_io_rel_def backend_rel_def)

lemma served_gate [served_intros]: "served (backend_authorize h gpa n w)"
  unfolding backend_authorize_def refuse_def by (intro served_intros served_update)

lemma served_memory [served_intros]: "served (gm_read b gpa n)" "served (gm_write b gpa bs)"
  unfolding gm_read_def gm_write_def by (intro served_intros served_update)+

lemma served_access [served_intros]:
  "served (backend_read h b gpa n)" "served (backend_write h b gpa bs)"
  unfolding backend_read_def backend_write_def by (intro served_intros)+

lemma served_words [served_intros]:
  "served (backend_read_u16 h b gpa)" "served (backend_read_u32 h b gpa)" "served (backend_read_u64 h b gpa)"
  unfolding backend_read_u16_def backend_read_u32_def backend_read_u64_def by (intro served_intros)+

lemma served_parts [served_intros]:
  "served (backend_drain_to_console h b addr len)" "served (retire h b num dev hdr written)"
  "served (backend_read_desc h b tbl i num)"
  unfolding backend_drain_to_console_def retire_def backend_read_desc_def Let_def
  by (intro served_intros served_update)+

lemma disk_write_rel:
  assumes "disk_write (blk_disk s) (blk_tenant s) sector bs = Some k"
  shows "backend_rel s (s\<lparr>blk_disk := k\<rparr>)"
  using assms by (auto simp: backend_rel_def disk_write_def disk_ok_def disk_own_def nth_list_update fun_eq_iff split: if_splits)

lemma served_store:
  "served (do { s \<leftarrow> getm; case disk_write (blk_disk s) (blk_tenant s) sector buf of
     None \<Rightarrow> ret None | Some k \<Rightarrow> do { modifym (\<lambda>s. s\<lparr>blk_disk := k\<rparr>); ret x } })"
  unfolding state_io_rel_def by (auto split: option.split intro: disk_write_rel)

lemma served_serve [served_intros]: "served (serve h b typ sec d)"
  unfolding serve_def serve_in_def serve_out_def refuse_blk_def Let_def
  by (intro served_intros served_update served_store)

lemma served_request [served_intros]: "served (process_blk_request h b tbl num hdr)"
  unfolding process_blk_request_def by (intro served_intros)

section \<open>The kicks\<close>

text \<open>
  An iteration that ends in \<open>Proceed\<close> moves the cursor by one, so the loop closes the 16-bit distance
  to the driver's index and ends, whatever that index is.
\<close>

definition one_on :: "(Metal \<Rightarrow> 'a VirtioConsole_scheme) \<Rightarrow> Flow metal \<Rightarrow> bool" where
  "one_on dev m \<longleftrightarrow>
     (\<forall>s s'. run_state m s = (Proceed, s') \<longrightarrow> last_avail_idx (dev s') = last_avail_idx (dev s) + 1)"

lemma served_rel: "served m \<Longrightarrow> backend_rel s (snd (run_state m s))"
  by (simp add: state_io_rel_def)

lemma served_devices:
  "served m \<Longrightarrow> virtio_dev (snd (run_state m s)) = virtio_dev s" "served m \<Longrightarrow> blk_dev (snd (run_state m s)) = blk_dev s"
  using served_rel [of m s] by (simp_all add: backend_rel_def)

lemma console_step_one_on: "one_on virtio_dev (console_step h b num)"
  unfolding one_on_def console_step_def Let_def
  by (auto simp: run_let_else advanced_def served_devices served_intros split: option.splits)

lemma blk_step_one_on: "one_on blk_dev (blk_step h b num)"
  unfolding one_on_def blk_step_def Let_def
  by (auto simp: run_let_else advanced_def served_devices served_intros split: option.splits if_splits)

lemma cursor_decreases:
  assumes "one_on dev m" "run_state m s = (Proceed, s')" "last_avail_idx (dev s) \<noteq> avail"
  shows "unat (avail - last_avail_idx (dev s')) < unat (avail - last_avail_idx (dev s))"
proof -
  have "last_avail_idx (dev s') = last_avail_idx (dev s) + 1" using assms(1,2) by (simp add: one_on_def)
  moreover have "avail - last_avail_idx (dev s) \<noteq> 0" using assms(3) by simp
  ultimately show ?thesis using measure_unat [of "avail - last_avail_idx (dev s)"] by (simp add: diff_diff_eq [symmetric])
qed

function console_loop :: "Hypervisor \<Rightarrow> Backing \<Rightarrow> u16 \<Rightarrow> u16 \<Rightarrow> Metal \<Rightarrow> Flow \<times> Metal" where
  "console_loop h b num avail s =
     (if last_avail_idx (virtio_dev s) = avail then (Proceed, s)
      else case run_state (console_step h b num) s of
             (Proceed, s') \<Rightarrow> console_loop h b num avail s'
           | r \<Rightarrow> r)"
  by pat_completeness auto
termination
  by (relation "measure (\<lambda>(h, b, num, avail, s). unat (avail - last_avail_idx (virtio_dev s)))")
    (auto intro: cursor_decreases [OF console_step_one_on, simplified])

function blk_loop :: "Hypervisor \<Rightarrow> Backing \<Rightarrow> u16 \<Rightarrow> u16 \<Rightarrow> Metal \<Rightarrow> Flow \<times> Metal" where
  "blk_loop h b num avail s =
     (if last_avail_idx (blk_dev s) = avail then (Proceed, s)
      else case run_state (blk_step h b num) s of
             (Proceed, s') \<Rightarrow> blk_loop h b num avail s'
           | r \<Rightarrow> r)"
  by pat_completeness auto
termination
  by (relation "measure (\<lambda>(h, b, num, avail, s). unat (avail - last_avail_idx (blk_dev s)))")
    (auto intro: cursor_decreases [OF blk_step_one_on, simplified])

declare console_loop.simps [simp del] blk_loop.simps [simp del]

definition handle_virtio_notify :: "Hypervisor \<Rightarrow> Backing \<Rightarrow> Flow metal" where
  "handle_virtio_notify h b =
     do { s \<leftarrow> getm;
          let dev = virtio_dev s; let num = (ucast (queue_num dev) :: u16);
          if \<not> queue_live dev \<or> num = 0 then ret Leave
          else
            let_else (backend_read_u16 h b (queue_driver dev + 2)) Leave (\<lambda>avail.
            do { r \<leftarrow> State (console_loop h b num avail);
                 if r = Proceed
                 then do { modifym (\<lambda>s. s\<lparr>virtio_dev := (virtio_dev s)\<lparr>interrupt_status := interrupt_status (virtio_dev s) OR 1\<rparr>,
                                          virtio_drained_ok := True\<rparr>);
                           ret Proceed }
                 else ret r }) }"

definition handle_virtio_blk_notify :: "Hypervisor \<Rightarrow> Backing \<Rightarrow> Flow metal" where
  "handle_virtio_blk_notify h b =
     do { s \<leftarrow> getm;
          let dev = blk_dev s; let num = (ucast (queue_num dev) :: u16);
          if \<not> queue_live dev \<or> num = 0 then ret Leave
          else
            let_else (backend_read_u16 h b (queue_driver dev + 2)) Leave (\<lambda>avail.
            do { r \<leftarrow> State (blk_loop h b num avail);
                 if r = Proceed
                 then do { modifym (\<lambda>s. s\<lparr>blk_dev := (blk_dev s)\<lparr>interrupt_status := interrupt_status (blk_dev s) OR 1\<rparr>\<rparr>);
                           ret Proceed }
                 else ret r }) }"

text \<open>
  The trapped access: \<open>None\<close> is a \<open>park\<close> or a panic, otherwise the guest's saved registers and the
  address it resumes at.
\<close>

definition mmio_store :: "Hypervisor \<Rightarrow> Backing \<Rightarrow> u64 \<Rightarrow> u32 \<Rightarrow> Flow metal" where
  "mmio_store h b offset v =
     do { s \<leftarrow> getm;
          case active_virtio s of
            NoVirtio \<Rightarrow> ret Crash
          | ConsoleActive \<Rightarrow>
              (case mmio_write (virtio_dev s) offset v of (kick, d) \<Rightarrow>
                 do { modifym (\<lambda>s. s\<lparr>virtio_dev := d\<rparr>);
                      if kick then handle_virtio_notify h b else ret Proceed })
          | BlkActive \<Rightarrow>
              (case blk_mmio_write (blk_dev s) offset v of (kick, d) \<Rightarrow>
                 do { modifym (\<lambda>s. s\<lparr>blk_dev := d\<rparr>);
                      if kick then handle_virtio_blk_notify h b else ret Proceed }) }"

definition mmio_load :: "u64 \<Rightarrow> u32 option metal" where
  "mmio_load offset =
     do { s \<leftarrow> getm;
          ret (case active_virtio s of
                 NoVirtio \<Rightarrow> None
               | ConsoleActive \<Rightarrow> Some (console_mmio_read (virtio_dev s) offset)
               | BlkActive \<Rightarrow> Some (blk_mmio_read (blk_dev s) offset)) }"

definition handle_mmio ::
  "Hypervisor \<Rightarrow> Backing \<Rightarrow> u64 list \<Rightarrow> u64 \<Rightarrow> u64 \<Rightarrow> u64 \<Rightarrow> (u64 list \<times> u64) option metal" where
  "handle_mmio h b x elr esr far =
     (let a = abort_decode esr; offset = far - VIRTIO_MMIO_BASE in
      if \<not> a_isv a \<or> a_fnv a \<or> access_bytes a \<noteq> 4 then ret None
      else if a_wnr a
      then do { r \<leftarrow> mmio_store h b offset (ucast ((if a_srt a < 31 then x ! a_srt a else 0) AND value_mask a));
                ret (if r = Crash then None else Some (x, elr + 4)) }
      else let_else (mmio_load offset) None (\<lambda>v.
             ret (Some (if a_srt a < 31 then x[a_srt a := ucast v] else x, elr + 4))))"

section \<open>The bytes behind the grants\<close>

text \<open>
  The machine bytes of the data window whose frame the driver's domain has granted to the backend's.
  The hypothesis on the window is the linker script's: its frames are numbered within 32 bits, so the
  cut of the frame number in \<open>gpa_to_mfn\<close> loses nothing.
\<close>

definition granted_bytes :: "Hypervisor \<Rightarrow> Backing \<Rightarrow> bool \<Rightarrow> u64 set" where
  "granted_bytes h b writable =
     {pa. pa - data_ram_start b < data_ram_end b - data_ram_start b \<and>
          gt_authorizes (grant h) VIRTIO_DOM VIRTIO_BACKEND (unat (pa - data_ram_start b) div 4096) writable}"

definition window_ok :: "Backing \<Rightarrow> bool" where
  "window_ok b \<longleftrightarrow> unat (data_ram_end b - data_ram_start b) \<le> 2 ^ 44"

definition allowed :: "Hypervisor \<Rightarrow> u64 \<Rightarrow> u64 \<Rightarrow> bool \<Rightarrow> bool" where
  "allowed h gpa len writable \<longleftrightarrow>
     (case gpa_to_mfn gpa of
        None \<Rightarrow> False
      | Some mfn \<Rightarrow> (gpa AND (FRAME_SIZE - 1)) + len \<le> FRAME_SIZE \<and>
          gt_authorizes (grant h) VIRTIO_DOM VIRTIO_BACKEND (unat mfn) writable)"

lemma run_authorize:
  "run_state (backend_authorize h gpa len w) s =
     (allowed h gpa len w, if allowed h gpa len w then s else s\<lparr>virtio_ungranted_refused := True\<rparr>)"
  by (auto simp: backend_authorize_def allowed_def refuse_def not_less split: option.split)

lemma authorize_eq: "backend_authorize h gpa len w = (if allowed h gpa len w then ret True else refuse)"
  by (rule state_ext) (simp add: run_authorize refuse_def)

lemma page_offset:
  assumes "DATA_IPA_BASE \<le> gpa"
  shows "unat (gpa AND (FRAME_SIZE - 1)) = unat (gpa - DATA_IPA_BASE) mod 4096"
proof -
  have m: "(FRAME_SIZE - 1 :: u64) = mask 12" by (simp add: FRAME_SIZE_def mask_eq_exp_minus_1)
  have "unat gpa = unat (gpa - DATA_IPA_BASE) + 0x80000000"
    using assms by (simp add: unat_sub DATA_IPA_BASE_def word_le_nat_alt)
  then have "unat gpa mod 4096 = unat (gpa - DATA_IPA_BASE) mod 4096" using mod_mult_self1 [of "unat (gpa - DATA_IPA_BASE)" 524288 4096] by simp
  then show ?thesis unfolding m by (simp add: take_bit_eq_mask [symmetric] unsigned_take_bit_eq take_bit_eq_mod unat_mod)
qed

lemma allowed_bytes:
  assumes w: "window_ok b" and a: "allowed h gpa (of_nat n) wr" and n: "n < 2 ^ 32" "m \<le> n"
    and pa: "ipa_to_pa b gpa m = Some pa" and i: "i < m"
  shows "pa + of_nat i \<in> granted_bytes h b wr"
proof -
  let ?off = "gpa - DATA_IPA_BASE" and ?win = "data_ram_end b - data_ram_start b"
  from pa have le: "DATA_IPA_BASE \<le> gpa" and fit: "unat ?off + unat (of_nat m :: u64) < 2 ^ 64" "?off + of_nat m \<le> ?win"
    and p: "pa = data_ram_start b + ?off"
    by (auto simp: ipa_to_pa_def checked_sub_def checked_add_def Let_def not_less split: if_splits option.splits)
  have um: "unat (of_nat m :: u64) = m" and ui: "unat (of_nat i :: u64) = i" and un: "unat (of_nat n :: u64) = n"
    using n i by (simp_all add: unat_of_nat)
  have sum: "unat (?off + of_nat m) = unat ?off + m" using fit(1) um unat_add_exact [of ?off "of_nat m"] by simp
  then have top: "unat ?off + m \<le> unat ?win" using fit(2) by (simp add: word_le_nat_alt)
  have oi: "unat (?off + of_nat i) = unat ?off + i"
    using fit(1) ui um i unat_add_exact [of ?off "of_nat i"] by simp
  have "unat (gpa AND (FRAME_SIZE - 1)) + n \<le> 4096"
  proof -
    have "unat (gpa AND (FRAME_SIZE - 1)) < 4096" unfolding page_offset [OF le] by simp
    then have "unat ((gpa AND (FRAME_SIZE - 1)) + of_nat n) = unat (gpa AND (FRAME_SIZE - 1)) + n"
      using n(1) un unat_add_exact [of "gpa AND (FRAME_SIZE - 1)" "of_nat n"] by simp
    moreover have "(gpa AND (FRAME_SIZE - 1)) + of_nat n \<le> FRAME_SIZE" using a by (auto simp: allowed_def split: option.splits)
    ultimately show ?thesis by (simp add: word_le_nat_alt FRAME_SIZE_def)
  qed
  then have "unat ?off mod 4096 + i < 4096" using i n(2) unfolding page_offset [OF le] by linarith
  then have dv: "(unat ?off + i) div 4096 = unat ?off div 4096"
    by (simp add: div_add1_eq [of "unat ?off" i])
  have "unat ?off < 2 ^ 44" using top w i by (simp add: window_ok_def)
  then have "unat ?off div 4096 < 2 ^ 32" by (simp add: less_mult_imp_div_less)
  then have "unat (ucast (?off div FRAME_SIZE) :: u32) = unat ?off div 4096"
    by (simp add: unat_div FRAME_SIZE_def unsigned_ucast_eq take_bit_nat_eq_self)
  then have "gt_authorizes (grant h) VIRTIO_DOM VIRTIO_BACKEND (unat ?off div 4096) wr"
    using a le by (simp add: allowed_def gpa_to_mfn_def checked_sub_def)
  moreover have at: "pa + of_nat i - data_ram_start b = ?off + of_nat i" using p by (simp add: algebra_simps)
  moreover have "?off + of_nat i < ?win" unfolding word_less_nat_alt oi using top i by linarith
  ultimately show ?thesis unfolding granted_bytes_def mem_Collect_eq at oi dv by blast
qed

section \<open>The backend stays behind the grants\<close>

text \<open>
  Two states that differ only in bytes the backend may not read. An operation is confined when it
  cannot tell them apart, leaves them so, and changes no byte it may not write.
\<close>

definition twin :: "u64 set \<Rightarrow> Metal \<Rightarrow> Metal \<Rightarrow> bool" where
  "twin R s s' \<longleftrightarrow> s' = s\<lparr>ram := ram s'\<rparr> \<and> (\<forall>a \<in> R. ram s' a = ram s a)"

definition confined_at :: "u64 set \<Rightarrow> u64 set \<Rightarrow> 'a metal \<Rightarrow> Metal \<Rightarrow> bool" where
  "confined_at R W m s \<longleftrightarrow>
     (\<forall>a. a \<notin> W \<longrightarrow> ram (snd (run_state m s)) a = ram s a) \<and>
     (\<forall>s'. twin R s s' \<longrightarrow>
        fst (run_state m s') = fst (run_state m s) \<and> twin R (snd (run_state m s)) (snd (run_state m s')))"

definition confined :: "u64 set \<Rightarrow> u64 set \<Rightarrow> 'a metal \<Rightarrow> bool" where
  "confined R W m \<longleftrightarrow> (\<forall>s. confined_at R W m s)"

named_theorems confined_intros \<open>rules that take a confined operation apart\<close>

lemma twin_ram: "twin R s s' \<Longrightarrow> s' = s\<lparr>ram := ram s'\<rparr>"
  by (simp add: twin_def)

lemma twin_upd [simp]:
  "twin R s (s\<lparr>ram := r\<rparr>) \<longleftrightarrow> (\<forall>a \<in> R. r a = ram s a)"
  "twin R (s\<lparr>ram := q\<rparr>) (s\<lparr>ram := r\<rparr>) \<longleftrightarrow> (\<forall>a \<in> R. r a = q a)"
  by (auto simp: twin_def)

lemma twinE:
  assumes "twin R s s'" obtains r where "s' = s\<lparr>ram := r\<rparr>" "\<And>a. a \<in> R \<Longrightarrow> r a = ram s a"
  using assms unfolding twin_def by blast

lemma confined_bind_at:
  assumes m: "confined_at R W m s" and k: "confined_at R W (k (fst (run_state m s))) (snd (run_state m s))"
  shows "confined_at R W (m \<bind> k) s"
  using assms by (auto simp: confined_at_def)

lemma confined_bind [confined_intros]:
  "confined R W m \<Longrightarrow> (\<And>x. confined R W (k x)) \<Longrightarrow> confined R W (m \<bind> k)"
  unfolding confined_def by (blast intro: confined_bind_at)

lemma confined_return [confined_intros]: "confined R W (ret x)"
  by (simp add: confined_def confined_at_def)

lemma confined_let_else [confined_intros]:
  "confined R W m \<Longrightarrow> (\<And>x. confined R W (k x)) \<Longrightarrow> confined R W (let_else m r k)"
  unfolding let_else_def by (rule confined_bind) (auto split: option.split intro: confined_return)

lemma confined_if [confined_intros]:
  "(c \<Longrightarrow> confined R W m) \<Longrightarrow> (\<not> c \<Longrightarrow> confined R W m') \<Longrightarrow> confined R W (if c then m else m')"
  by simp

lemma confined_option [confined_intros]:
  "confined R W m \<Longrightarrow> (\<And>x. confined R W (k x)) \<Longrightarrow> confined R W (case y of None \<Rightarrow> m | Some x \<Rightarrow> k x)"
  by (cases y) simp_all

lemma confined_pair [confined_intros]: "(\<And>x y. confined R W (k x y)) \<Longrightarrow> confined R W (case z of (x, y) \<Rightarrow> k x y)"
  by (cases z) simp

lemma confined_active [confined_intros]:
  "confined R W m \<Longrightarrow> confined R W m' \<Longrightarrow> confined R W m'' \<Longrightarrow>
   confined R W (case y of NoVirtio \<Rightarrow> m | ConsoleActive \<Rightarrow> m' | BlkActive \<Rightarrow> m'')"
  by (cases y) simp_all

lemma confined_get:
  "(\<And>s r. k (s\<lparr>ram := r\<rparr>) = k s) \<Longrightarrow> (\<And>s. confined R W (k s)) \<Longrightarrow> confined R W (getm \<bind> k)"
  unfolding confined_def confined_at_def run_bind run_get fst_conv snd_conv by (metis twin_ram)

lemma confined_update:
  "(\<And>s r. g (s\<lparr>ram := r\<rparr>) = (g s)\<lparr>ram := r\<rparr>) \<Longrightarrow> (\<And>s. ram (g s) = ram s) \<Longrightarrow> confined R W (modifym g)"
  unfolding confined_def confined_at_def by (auto elim!: twinE)

lemma confined_gate:
  "(allowed h gpa n w \<Longrightarrow> confined R W (k True)) \<Longrightarrow> (\<not> allowed h gpa n w \<Longrightarrow> confined R W (k False)) \<Longrightarrow>
   confined R W (backend_authorize h gpa n w \<bind> k)"
proof (cases "allowed h gpa n w")
  case False
  have "confined R W refuse" unfolding refuse_def by (intro confined_intros confined_update) auto
  moreover have "fst (run_state refuse s) = False" for s by (simp add: refuse_def)
  moreover assume "\<not> allowed h gpa n w \<Longrightarrow> confined R W (k False)"
  ultimately show ?thesis using False unfolding confined_def authorize_eq
    by (intro allI confined_bind_at) simp_all
qed (simp add: authorize_eq)

lemma confined_gm_read:
  assumes "\<And>pa i. ipa_to_pa b gpa n = Some pa \<Longrightarrow> i < n \<Longrightarrow> pa + of_nat i \<in> R"
  shows "confined R W (gm_read b gpa n)"
  using assms unfolding confined_def confined_at_def gm_read_def
  by (auto simp: peek_def twin_def map_option_case split: option.split)

lemma confined_gm_write:
  assumes "\<And>pa i. ipa_to_pa b gpa (length bs) = Some pa \<Longrightarrow> i < length bs \<Longrightarrow> pa + of_nat i \<in> W"
  shows "confined R W (gm_write b gpa bs)"
proof (cases "ipa_to_pa b gpa (length bs)")
  case (Some pa)
  have "a \<in> W" if "unat (a - pa) < length bs" for a
    using assms [OF Some that] by simp
  then have "confined R W (modifym (\<lambda>s. s\<lparr>ram := poke (ram s) pa bs\<rparr>))"
    unfolding confined_def confined_at_def by (auto simp: poke_def elim!: twinE)
  then show ?thesis unfolding gm_write_def Some by (auto intro: confined_intros)
qed (simp add: gm_write_def confined_return)

abbreviation behind :: "Hypervisor \<Rightarrow> Backing \<Rightarrow> 'a metal \<Rightarrow> bool" where
  "behind h b \<equiv> confined (granted_bytes h b False) (granted_bytes h b True)"

lemma behind_memory:
  assumes "window_ok b" "n < 2 ^ 32"
  shows "allowed h gpa (of_nat n) False \<Longrightarrow> behind h b (gm_read b gpa n)"
    and "allowed h gpa (of_nat n) True \<Longrightarrow> length bs \<le> n \<Longrightarrow> behind h b (gm_write b gpa bs)"
  using allowed_bytes [OF assms(1) _ assms(2)] by (blast intro: confined_gm_read confined_gm_write)+

lemma behind_access [confined_intros]:
  assumes "window_ok b"
  shows "n < 2 ^ 32 \<Longrightarrow> behind h b (backend_read h b gpa n)"
    and "length bs < 2 ^ 32 \<Longrightarrow> behind h b (backend_write h b gpa bs)"
  unfolding backend_read_def backend_write_def
  by (rule confined_gate; simp add: confined_return behind_memory [OF assms])+

lemma behind_words [confined_intros]:
  assumes "window_ok b"
  shows "behind h b (backend_read_u16 h b gpa)" "behind h b (backend_read_u32 h b gpa)" "behind h b (backend_read_u64 h b gpa)"
  unfolding backend_read_u16_def backend_read_u32_def backend_read_u64_def
  by (intro confined_intros assms; simp)+

lemma length_to_le [simp]: "length (to_le n v) = n"
  by (simp add: to_le_def)

lemma behind_parts [confined_intros]:
  assumes "window_ok b"
  shows "behind h b (backend_drain_to_console h b addr len)" "behind h b (retire h b num dev hdr written)"
    "behind h b (backend_read_desc h b tbl i num)"
proof -
  have "unat (min len 256) < 2 ^ 32" using unsigned_less [of "min len 256", where ?'a = nat] by simp
  then show "behind h b (backend_drain_to_console h b addr len)"
    unfolding backend_drain_to_console_def Let_def by (intro confined_intros confined_update assms) auto
  show "behind h b (retire h b num dev hdr written)" "behind h b (backend_read_desc h b tbl i num)"
    unfolding retire_def backend_read_desc_def Let_def by (intro confined_intros assms; simp)+
qed

lemma behind_refuse_blk [confined_intros]: "behind h b refuse_blk"
  unfolding refuse_blk_def by (intro confined_intros confined_update) auto

lemma behind_serve [confined_intros]:
  assumes "window_ok b"
  shows "behind h b (serve h b typ sec d)"
proof -
  have io: "behind h b (serve_in h b addr n k)" "behind h b (serve_out h b addr n k)" if "n \<le> SECTOR_SIZE" for addr n k
  proof -
    from that have n: "n < 2 ^ 32" by (simp add: SECTOR_SIZE_def)
    note m = behind_memory [OF assms n]
    show "behind h b (serve_in h b addr n k)" unfolding serve_in_def
      by (rule confined_gate; simp add: behind_refuse_blk; intro confined_get confined_intros confined_update m; simp)
    show "behind h b (serve_out h b addr n k)" unfolding serve_out_def
      by (rule confined_gate; simp add: behind_refuse_blk; intro confined_get confined_intros confined_update m; simp)
  qed
  show ?thesis unfolding serve_def Let_def by (intro confined_intros io; simp)
qed

lemma behind_request [confined_intros]:
  assumes "window_ok b" shows "behind h b (process_blk_request h b tbl num hdr)"
  unfolding process_blk_request_def by (intro confined_intros assms; simp)

lemma behind_steps:
  assumes "window_ok b" shows "behind h b (console_step h b num)" "behind h b (blk_step h b num)"
  unfolding console_step_def blk_step_def Let_def
  by (intro confined_get confined_intros confined_update assms; simp cong: option.case_cong if_cong)+

text \<open>A loop around a confined step, whose condition looks at the device alone, is confined.\<close>

lemma confined_loop:
  assumes step: "confined R W (step :: Flow metal)" and dev: "\<And>s r. stop (s\<lparr>ram := r\<rparr>) = stop s"
    and unf: "\<And>s. loop s = (if stop s then (Proceed, s) else case run_state step s of (Proceed, s') \<Rightarrow> loop s' | r \<Rightarrow> r)"
    and wf: "\<And>s s'. \<not> stop s \<Longrightarrow> run_state step s = (Proceed, s') \<Longrightarrow> measure_of s' < (measure_of s :: nat)"
  shows "confined R W (State loop)"
proof -
  have same: "stop s' = stop s" if "twin R s s'" for s s' using dev twin_ram [OF that] by metis
  have once: "loop s = (case run_state step s of (r, s1) \<Rightarrow> if r = Proceed then loop s1 else (r, s1))" if "\<not> stop s" for s
    using that by (auto simp: unf [of s] split: prod.split Flow.split)
  have "confined_at R W (State loop) s" for s
  proof (induction "measure_of s" arbitrary: s rule: less_induct)
    case less
    show ?case
    proof (cases "stop s")
      case True
      then have "loop s = (Proceed, s)" "\<And>s'. twin R s s' \<Longrightarrow> loop s' = (Proceed, s')" using same by (simp_all add: unf)
      then show ?thesis by (simp add: confined_at_def)
    next
      case False
      obtain r s1 where r: "run_state step s = (r, s1)" by fastforce
      have st: "(\<forall>a. a \<notin> W \<longrightarrow> ram s1 a = ram s a) \<and> (\<forall>s'. twin R s s' \<longrightarrow>
          (\<exists>s1'. run_state step s' = (r, s1') \<and> twin R s1 s1'))"
        using step r unfolding confined_def confined_at_def by (metis fst_conv snd_conv prod.collapse)
      show ?thesis
      proof (cases "r = Proceed")
        case True
        then have "confined_at R W (State loop) s1" using less [OF wf [OF False]] r by simp
        moreover have "loop s = loop s1" using once [OF False] r True by simp
        moreover have "\<exists>s1'. loop s' = loop s1' \<and> twin R s1 s1'" if "twin R s s'" for s'
          using st that once [of s'] same [OF that] False True by fastforce
        ultimately show ?thesis using st unfolding confined_at_def state.sel by metis
      next
        case ne: False
        have "loop s = (r, s1)" using once [OF False] r ne by simp
        moreover have "\<exists>s1'. loop s' = (r, s1') \<and> twin R s1 s1'" if "twin R s s'" for s'
          using st that once [of s'] same [OF that] False ne by fastforce
        ultimately show ?thesis using st unfolding confined_at_def state.sel by (metis fst_conv snd_conv)
      qed
    qed
  qed
  then show ?thesis by (simp add: confined_def)
qed

lemma behind_loops [confined_intros]:
  assumes "window_ok b"
  shows "behind h b (State (console_loop h b num avail))" "behind h b (State (blk_loop h b num avail))"
  by (rule confined_loop [OF behind_steps(1) [OF assms] _ console_loop.simps cursor_decreases [OF console_step_one_on]], simp_all)
    (rule confined_loop [OF behind_steps(2) [OF assms] _ blk_loop.simps cursor_decreases [OF blk_step_one_on]], simp_all)

lemma behind_notify [confined_intros]:
  assumes "window_ok b"
  shows "behind h b (handle_virtio_notify h b)" "behind h b (handle_virtio_blk_notify h b)"
  unfolding handle_virtio_notify_def handle_virtio_blk_notify_def Let_def
  by (intro confined_get confined_intros confined_update assms; simp)+

lemma behind_mmio:
  assumes "window_ok b" shows "behind h b (handle_mmio h b x elr esr far)"
proof -
  have "behind h b (mmio_store h b off v)" for off v unfolding mmio_store_def
    by (intro confined_get confined_intros confined_update assms; simp cong: ActiveVirtio.case_cong)
  moreover have "behind h b (mmio_load off)" for off unfolding mmio_load_def
    by (intro confined_get confined_intros; simp cong: ActiveVirtio.case_cong)
  ultimately show ?thesis unfolding handle_mmio_def Let_def by (intro confined_intros)
qed

section \<open>Every access is served\<close>

definition disk_ready :: "Metal \<Rightarrow> bool" where
  "disk_ready s \<longleftrightarrow> disk_ok (blk_disk s) \<and> blk_tenant s < N_TENANTS"

definition disk_rel :: "Metal \<Rightarrow> Metal \<Rightarrow> bool" where
  "disk_rel s s' \<longleftrightarrow>
     blk_tenant s' = blk_tenant s \<and> active_virtio s' = active_virtio s \<and> (disk_ok (blk_disk s) \<longrightarrow> disk_ok (blk_disk s')) \<and>
     template (blk_disk s') = template (blk_disk s) \<and>
     (\<forall>t. t \<noteq> blk_tenant s \<longrightarrow> disk_own (blk_disk s') t = disk_own (blk_disk s) t)"

text \<open>A result of an operation on a sound disk, which it keeps sound.\<close>

definition answers :: "('a \<Rightarrow> bool) \<Rightarrow> 'a metal \<Rightarrow> bool" where
  "answers Q m \<longleftrightarrow> (\<forall>s. disk_rel s (snd (run_state m s)) \<and> (disk_ready s \<longrightarrow> Q (fst (run_state m s))))"

lemma disk_rel_ready: "disk_rel s s' \<Longrightarrow> disk_ready s \<Longrightarrow> disk_ready s'"
  by (simp add: disk_rel_def disk_ready_def)

lemma disk_rel_trans: "disk_rel s s' \<Longrightarrow> disk_rel s' s'' \<Longrightarrow> disk_rel s s''"
  by (simp add: disk_rel_def)

lemma answers_served: "served m \<Longrightarrow> answers (\<lambda>_. True) m"
  using served_rel [of m] by (simp add: answers_def backend_rel_def disk_rel_def)

lemma answers_return: "Q x \<Longrightarrow> answers Q (ret x)"
  by (simp add: answers_def disk_rel_def)

lemma answers_bind:
  "answers P m \<Longrightarrow> (\<And>x. P x \<Longrightarrow> answers Q (k x)) \<Longrightarrow> (\<And>x. answers (\<lambda>_. True) (k x)) \<Longrightarrow> answers Q (m \<bind> k)"
  unfolding answers_def by (auto intro: disk_rel_trans disk_rel_ready)

lemma answers_then: "answers (\<lambda>_. True) m \<Longrightarrow> (\<And>x. answers Q (k x)) \<Longrightarrow> answers Q (m \<bind> k)"
  unfolding answers_def by (auto intro: disk_rel_trans disk_rel_ready)

lemma answers_let_else:
  "answers (\<lambda>x. x = None \<longrightarrow> Q r) m \<Longrightarrow> (\<And>x. answers Q (k x)) \<Longrightarrow> answers Q (let_else m r k)"
  unfolding answers_def run_let_else by (auto split: option.split intro: disk_rel_trans disk_rel_ready)

lemma answers_mono: "answers Q m \<Longrightarrow> (\<And>x. Q x \<Longrightarrow> Q' x) \<Longrightarrow> answers Q' m"
  by (auto simp: answers_def)

lemma answers_if: "(c \<Longrightarrow> answers Q m) \<Longrightarrow> (\<not> c \<Longrightarrow> answers Q m') \<Longrightarrow> answers Q (if c then m else m')"
  by simp

lemma answers_option: "answers Q m \<Longrightarrow> (\<And>x. answers Q (k x)) \<Longrightarrow> answers Q (case y of None \<Rightarrow> m | Some x \<Rightarrow> k x)"
  by (cases y) simp_all

lemma answers_update: "(\<And>s. disk_rel s (g s)) \<Longrightarrow> answers (\<lambda>_. True) (modifym g)"
  by (simp add: answers_def)

lemma answers_pair: "(\<And>x y. answers Q (k x y)) \<Longrightarrow> answers Q (case z of (x, y) \<Rightarrow> k x y)"
  by (cases z) simp

lemma answers_weak: "served m \<Longrightarrow> Q r \<Longrightarrow> answers (\<lambda>x. x = None \<longrightarrow> Q r) m"
  using answers_served [of m] by (simp add: answers_def)

lemma serve_in_answers:
  assumes "k < DISK_SECTORS" shows "answers (\<lambda>r. r \<noteq> None) (serve_in h b addr n k)"
proof -
  have "fst (run_state (serve_in h b addr n k) s) \<noteq> None" if "disk_ready s" for s
    using that disk_read_length [of "blk_disk s" "blk_tenant s" k] assms
    by (auto simp: serve_in_def refuse_blk_def run_authorize disk_ready_def)
  moreover have "served (serve_in h b addr n k)"
    unfolding serve_in_def refuse_blk_def by (intro served_intros served_update)
  ultimately show ?thesis using answers_served by (auto simp: answers_def)
qed

lemma serve_out_answers:
  assumes "k < DISK_SECTORS" shows "answers (\<lambda>r. r \<noteq> None) (serve_out h b addr n k)"
proof -
  have "fst (run_state (serve_out h b addr n k) s) \<noteq> None" if "disk_ready s" for s
    using that assms
    by (auto simp: serve_out_def refuse_blk_def run_authorize run_let_else gm_read_def disk_ready_def disk_ok_def disk_write_def
        split: option.split)
  moreover have "served (serve_out h b addr n k)"
    unfolding serve_out_def refuse_blk_def by (intro served_intros served_update served_store)
  ultimately show ?thesis using answers_served by (auto simp: answers_def)
qed

lemma serve_answers: "answers (\<lambda>r. r \<noteq> None) (serve h b typ sec d)"
  unfolding serve_def Let_def by (intro answers_if answers_return serve_in_answers serve_out_answers) auto

lemma request_answers: "answers (\<lambda>r. r \<noteq> Crash) (process_blk_request h b tbl num hdr)"
proof -
  have "answers (\<lambda>r. r \<noteq> Crash) (let_else (serve h b ty sec d) Crash (\<lambda>st. do { _ \<leftarrow> backend_write h b a [st]; ret Proceed }))" for ty sec d a
    by (intro answers_let_else answers_mono [OF serve_answers] answers_then answers_served served_intros answers_return) simp_all
  note inner = this
  show ?thesis unfolding process_blk_request_def
    by (rule inner | rule answers_let_else answers_weak answers_then answers_served answers_if answers_option answers_pair
        answers_return served_intros | simp)+
qed

lemma dev_update_rel:
  "disk_rel s (s\<lparr>virtio_dev := d\<rparr>)" "disk_rel s (s\<lparr>blk_dev := e\<rparr>)" "disk_rel s (s\<lparr>virtio_dev := d, virtio_drained_ok := c\<rparr>)"
  by (simp_all add: disk_rel_def)

lemma answers_get: "(\<And>s. answers Q (k s)) \<Longrightarrow> answers Q (getm \<bind> k)"
  by (simp add: answers_def)

lemma steps_answer: "answers (\<lambda>r. r \<noteq> Crash) (console_step h b num)" "answers (\<lambda>r. r \<noteq> Crash) (blk_step h b num)"
proof -
  show "answers (\<lambda>r. r \<noteq> Crash) (console_step h b num)" unfolding console_step_def Let_def
    by (rule answers_get answers_let_else answers_weak answers_then answers_option answers_pair answers_update dev_update_rel
        answers_return answers_served served_intros | simp)+
  have fin: "answers (\<lambda>r. r \<noteq> Crash) (do { retire h b num dev hdr 0; modifym (\<lambda>s. s\<lparr>blk_dev := advanced (blk_dev s)\<rparr>); ret Proceed })"
    for dev :: VirtioBlk and hdr
    by (rule answers_then answers_update dev_update_rel answers_return answers_served served_intros | simp)+
  show "answers (\<lambda>r. r \<noteq> Crash) (blk_step h b num)" unfolding blk_step_def Let_def
    by (rule answers_get answers_let_else answers_weak served_intros | simp)+
      (auto intro!: answers_bind [OF request_answers] answers_return answers_mono [OF fin])
qed

lemma answers_loop:
  assumes step: "answers (\<lambda>r. r \<noteq> Crash) (step :: Flow metal)"
    and unf: "\<And>s. loop s = (if stop s then (Proceed, s) else case run_state step s of (Proceed, s') \<Rightarrow> loop s' | r \<Rightarrow> r)"
    and wf: "\<And>s s'. \<not> stop s \<Longrightarrow> run_state step s = (Proceed, s') \<Longrightarrow> measure_of s' < (measure_of s :: nat)"
  shows "answers (\<lambda>r. r \<noteq> Crash) (State loop)"
proof -
  have "disk_rel s (snd (loop s)) \<and> (disk_ready s \<longrightarrow> fst (loop s) \<noteq> Crash)" for s
  proof (induction "measure_of s" arbitrary: s rule: less_induct)
    case less
    obtain r s1 where r: "run_state step s = (r, s1)" by fastforce
    have st: "disk_rel s s1" "disk_ready s \<Longrightarrow> r \<noteq> Crash" using step r unfolding answers_def by (metis fst_conv snd_conv)+
    show ?case
    proof (cases "stop s \<or> r \<noteq> Proceed")
      case True
      then show ?thesis using st r by (auto simp: unf [of s] disk_rel_def split: Flow.split)
    next
      case False
      then have "loop s = loop s1" "measure_of s1 < measure_of s" using r wf by (simp_all add: unf [of s])
      then show ?thesis using less st(1) disk_rel_trans disk_rel_ready by metis
    qed
  qed
  then show ?thesis by (simp add: answers_def)
qed

lemma loops_answer:
  "answers (\<lambda>r. r \<noteq> Crash) (State (console_loop h b num avail))" "answers (\<lambda>r. r \<noteq> Crash) (State (blk_loop h b num avail))"
  by (rule answers_loop [OF steps_answer(1) console_loop.simps cursor_decreases [OF console_step_one_on]], simp_all)
    (rule answers_loop [OF steps_answer(2) blk_loop.simps cursor_decreases [OF blk_step_one_on]], simp_all)

lemma notify_answers:
  "answers (\<lambda>r. r \<noteq> Crash) (handle_virtio_notify h b)" "answers (\<lambda>r. r \<noteq> Crash) (handle_virtio_blk_notify h b)"
  unfolding handle_virtio_notify_def handle_virtio_blk_notify_def Let_def
  by (rule answers_get answers_let_else answers_weak answers_bind [OF loops_answer(1)] answers_bind [OF loops_answer(2)] answers_if
      answers_then answers_update dev_update_rel answers_return served_intros | simp)+

text \<open>An access the handler can decode: a valid syndrome, a valid address, a word.\<close>

definition word_access :: "u64 \<Rightarrow> bool" where
  "word_access esr \<longleftrightarrow> a_isv (abort_decode esr) \<and> \<not> a_fnv (abort_decode esr) \<and> access_bytes (abort_decode esr) = 4"

text \<open>
  C16: Whatever the guest puts in the device's registers, in its rings, descriptors and buffers, a
  trapped register access, with the whole queue it may kick off, reads and writes guest memory only
  behind the grants. Two machines that differ only in bytes of frames the driver's domain has not
  granted to the backend give the guest the same registers, put the same bytes on the UART, on the
  disk and into the device state, and differ afterwards only in such bytes; and no byte changes that
  is not of a frame granted for writing.
\<close>

theorem mmio_confined:
  assumes "window_ok b" and "s' = s\<lparr>ram := q\<rparr>" "\<forall>a \<in> granted_bytes h b False. q a = ram s a"
    and "run_state (handle_mmio h b x elr esr far) s = (r, t)" "run_state (handle_mmio h b x elr esr far) s' = (r', t')"
  shows "r' = r \<and> t' = t\<lparr>ram := ram t'\<rparr> \<and> (\<forall>a \<in> granted_bytes h b False. ram t' a = ram t a) \<and>
    (\<forall>a. a \<notin> granted_bytes h b True \<longrightarrow> ram t a = ram s a \<and> ram t' a = ram s' a)"
proof -
  have c: "confined_at (granted_bytes h b False) (granted_bytes h b True) (handle_mmio h b x elr esr far) y" for y
    using behind_mmio [OF assms(1)] by (simp add: confined_def)
  have "twin (granted_bytes h b False) s s'" using assms(2,3) by simp
  then show ?thesis using c [of s] c [of s'] assms(4,5) by (auto simp: confined_at_def twin_def)
qed

lemma mmio_active_served:
  assumes "word_access esr" "active_virtio s \<noteq> NoVirtio" "disk_ok (blk_disk s)" "blk_tenant s < N_TENANTS"
  shows "\<exists>x' t. run_state (handle_mmio h b x elr esr far) s = (Some (x', elr + 4), t) \<and> length x' = length x \<and>
    disk_ok (blk_disk t) \<and> template (blk_disk t) = template (blk_disk s) \<and>
    (\<forall>u. u \<noteq> blk_tenant s \<longrightarrow> disk_own (blk_disk t) u = disk_own (blk_disk s) u)"
proof -
  have "disk_rel s (snd (run_state (mmio_store h b off v) s)) \<and> fst (run_state (mmio_store h b off v) s) \<noteq> Crash" for off v
  proof (cases "active_virtio s")
    case ConsoleActive
    obtain kick d where "mmio_write (virtio_dev s) off v = (kick, d)" by fastforce
    then have "answers (\<lambda>r. r \<noteq> Crash) (do { modifym (\<lambda>s. s\<lparr>virtio_dev := d\<rparr>); if kick then handle_virtio_notify h b else ret Proceed })"
      "run_state (mmio_store h b off v) s =
       run_state (do { modifym (\<lambda>s. s\<lparr>virtio_dev := d\<rparr>); if kick then handle_virtio_notify h b else ret Proceed }) s"
      using ConsoleActive by (auto simp: mmio_store_def intro!: answers_then answers_update dev_update_rel notify_answers answers_return)
    then show ?thesis using assms by (simp add: answers_def disk_ready_def)
  next
    case BlkActive
    obtain kick d where "blk_mmio_write (blk_dev s) off v = (kick, d)" by fastforce
    then have "answers (\<lambda>r. r \<noteq> Crash) (do { modifym (\<lambda>s. s\<lparr>blk_dev := d\<rparr>); if kick then handle_virtio_blk_notify h b else ret Proceed })"
      "run_state (mmio_store h b off v) s =
       run_state (do { modifym (\<lambda>s. s\<lparr>blk_dev := d\<rparr>); if kick then handle_virtio_blk_notify h b else ret Proceed }) s"
      using BlkActive by (auto simp: mmio_store_def intro!: answers_then answers_update dev_update_rel notify_answers answers_return)
    then show ?thesis using assms by (simp add: answers_def disk_ready_def)
  qed (use assms in simp)
  then show ?thesis using assms
    by (cases "active_virtio s") (auto simp: handle_mmio_def word_access_def Let_def disk_rel_def run_let_else mmio_load_def)
qed

lemma mmio_parks:
  "\<not> word_access esr \<or> active_virtio s = NoVirtio \<Longrightarrow> run_state (handle_mmio h b x elr esr far) s = (None, s)"
  by (auto simp: handle_mmio_def word_access_def Let_def run_let_else mmio_load_def mmio_store_def)


section \<open>A grant names a frame, not its owner\<close>

text \<open>
  A machine of four domains: domain 1 drives the console, owns frame 2 with its rings, and has granted
  the backend frame 2 and frame 3. Frame 3 belongs to domain 2, which has granted nothing. The used
  ring is programmed into frame 3.
\<close>

definition example_hv :: Hypervisor where
  "example_hv = hv_run [Guest 0 (DomainCreate 1 False), Guest 0 (DomainCreate 2 False), Guest 1 (P2mAllocate 2),
     Guest 2 (P2mAllocate 3), Guest 1 (GrantAccess 0 0 2 False), Guest 1 (GrantAccess 1 0 3 False)] (hv_new 4 1 2 1 1 8 1)"

definition example_backing :: Backing where
  "example_backing = \<lparr>data_ram_start = 0x40600000, data_ram_end = 0x40800000, sup_ram_start = 0x40800000, num_sup_frames = 1\<rparr>"

definition example_metal :: Metal where
  "example_metal = \<lparr>ram = (\<lambda>a. if a = 0x40602102 then 1 else 0), uart_out = [],
     virtio_dev = console_new\<lparr>queue_num := 8, queue_ready := 1, dev_status := 15, queue_desc := 0x80002000,
       queue_driver := 0x80002100, queue_device := 0x80003000\<rparr>,
     blk_dev = blk_new, blk_disk = disk_new, blk_tenant = 0, virtio_ungranted_refused = False,
     blk_ungranted_refused = False, virtio_drained_ok = False, active_virtio = ConsoleActive\<rparr>"

definition example_kick :: "Hypervisor \<Rightarrow> (u64 list \<times> u64) option metal" where
  "example_kick h = handle_mmio h example_backing (replicate 31 0) 0 0x91810040 0x0a000050"

lemma example_hv_facts:
  "pm_owner_of (p2m example_hv) 3 = Some 2" "\<not> gt_is_granted (grant example_hv) 2 0" "\<not> gt_is_granted (grant example_hv) 2 1"
  "gt_entry_count (grant example_hv) 2 = 2"
  by code_simp+

text \<open>What the kick does depends on the core only through the two grants.\<close>

definition example_offers :: "Hypervisor \<Rightarrow> bool" where
  "example_offers h \<longleftrightarrow> gt_domain (grant h) VIRTIO_DOM = Ok [Access 0 2 False 0 0, Access 0 3 False 0 0]"

lemma example_hv_offers: "example_offers example_hv"
  by code_simp

lemma example_grants:
  "example_offers h \<Longrightarrow> gt_authorizes (grant h) VIRTIO_DOM VIRTIO_BACKEND m w \<longleftrightarrow> m = 2 \<or> m = 3"
proof -
  assume "example_offers h"
  note g = this [unfolded example_offers_def]
  show ?thesis unfolding gt_authorizes_def g by (auto simp: VIRTIO_BACKEND_def)
qed

lemma run_backend_read:
  "run_state (backend_read h b gpa n) s =
     (if allowed h gpa (of_nat n) False then (map_option (\<lambda>pa. peek (ram s) pa n) (ipa_to_pa b gpa n), s)
      else (None, s\<lparr>virtio_ungranted_refused := True\<rparr>))"
  by (simp add: backend_read_def run_authorize gm_read_def)

lemma run_backend_write:
  "run_state (backend_write h b gpa bs) s =
     (if allowed h gpa (of_nat (length bs)) True
      then case ipa_to_pa b gpa (length bs) of None \<Rightarrow> (False, s) | Some pa \<Rightarrow> (True, s\<lparr>ram := poke (ram s) pa bs\<rparr>)
      else (False, s\<lparr>virtio_ungranted_refused := True\<rparr>))"
  by (simp add: backend_write_def run_authorize gm_write_def split: option.split)

lemmas run_backend = run_backend_read run_backend_write backend_read_u16_def backend_read_u32_def backend_read_u64_def
  run_let_else

lemmas run_example = run_backend Let_def allowed_def gpa_to_mfn_def example_grants ipa_to_pa_def checked_sub_def
  checked_add_def peek_def poke_def example_backing_def example_metal_def DATA_IPA_BASE_def FRAME_SIZE_def console_new_def upt_rec

lemma example_avail: "example_offers h \<Longrightarrow> run_state (backend_read_u16 h example_backing 0x80002102) example_metal = (Some 1, example_metal)"
  by (simp add: run_example)

lemma example_step:
  "example_offers h \<Longrightarrow> \<exists>t. run_state (console_step h example_backing 8) example_metal = (Proceed, t) \<and>
     ram t 0x40603002 = 1 \<and> last_avail_idx (virtio_dev t) = 1"
  by (simp add: console_step_def backend_drain_to_console_def retire_def avail_entry_def to_le_def advanced_def run_example)

lemma example_loop:
  assumes "example_offers h"
  shows "\<exists>t. console_loop h example_backing 8 1 example_metal = (Proceed, t) \<and> ram t 0x40603002 = 1"
proof -
  from example_step [OF assms] obtain t where t: "run_state (console_step h example_backing 8) example_metal = (Proceed, t)"
    "ram t 0x40603002 = 1" "last_avail_idx (virtio_dev t) = 1" by blast
  have "last_avail_idx (virtio_dev example_metal) \<noteq> 1" by (simp add: example_metal_def console_new_def)
  then have "console_loop h example_backing 8 1 example_metal = console_loop h example_backing 8 1 t"
    using t(1) by (simp add: console_loop.simps [of _ _ _ _ example_metal])
  then show ?thesis using t(2,3) by (simp add: console_loop.simps [of _ _ _ _ t])
qed

lemma example_kick_decode:
  "abort_decode 0x91810040 = \<lparr>a_isv = True, a_sas = 2, a_srt = 1, a_wnr = True, a_fnv = False\<rparr>"
  by (simp add: abort_decode_def Let_def)

lemma example_kick_writes:
  assumes "example_offers h" shows "ram (snd (run_state (example_kick h) example_metal)) 0x40603002 = 1"
proof -
  have dev: "active_virtio example_metal = ConsoleActive" "queue_live (virtio_dev example_metal)"
    "mmio_write (virtio_dev example_metal) 0x50 v = (True, virtio_dev example_metal)"
    "queue_num (virtio_dev example_metal) = 8" "queue_driver (virtio_dev example_metal) = 0x80002100"
    "example_metal\<lparr>virtio_dev := virtio_dev example_metal\<rparr> = example_metal" for v
    by (simp_all add: example_metal_def mmio_write_def queue_live_def STATUS_DRIVER_OK_def)
  from example_loop [OF assms] obtain t where "console_loop h example_backing 8 1 example_metal = (Proceed, t)" "ram t 0x40603002 = 1" by blast
  then show ?thesis
    by (simp add: example_kick_def handle_mmio_def example_kick_decode access_bytes_def Let_def mmio_store_def dev VIRTIO_MMIO_BASE_def
        handle_virtio_notify_def run_let_else example_avail [OF assms])
qed

text \<open>
  C18: The gate asks whether the driver's domain has granted the frame, and not whether the frame is
  that domain's to grant; a grant is not refused for a frame of another domain. So there is a
  reachable state, and a kick in it, in which the backend overwrites a byte of a frame that a third
  domain owns and has granted to nobody.
\<close>

theorem dma_crosses_owner:
  "\<exists>h0 trs h b s f pa. hv_start h0 \<and> h = hv_run trs h0 \<and> window_ok b \<and> pm_owner_of (p2m h) f = Some 2 \<and>
     (\<forall>r m w. \<not> gt_authorizes (grant h) 2 r m w) \<and> unat (pa - data_ram_start b) div 4096 = f \<and>
     ram (snd (run_state (handle_mmio h b (replicate 31 0) 0 0x91810040 0x0a000050) s)) pa \<noteq> ram s pa"
proof -
  have "hv_start (hv_new 4 1 2 1 1 8 1)" by (rule hv_startI) simp_all
  moreover have "window_ok example_backing" by (simp add: window_ok_def example_backing_def)
  moreover have "\<not> gt_authorizes (grant example_hv) 2 r m w" for r m w
  proof -
    have g: "gt_domain (grant example_hv) 2 = Ok [GrantEntry.Free, GrantEntry.Free]" by code_simp
    show ?thesis unfolding gt_authorizes_def g by simp
  qed
  moreover have "ram (snd (run_state (handle_mmio example_hv example_backing (replicate 31 0) 0 0x91810040 0x0a000050) example_metal)) 0x40603002
      \<noteq> ram example_metal 0x40603002"
    using example_kick_writes [OF example_hv_offers] unfolding example_kick_def by (simp add: example_metal_def)
  moreover have "unat (0x40603002 - data_ram_start example_backing) div 4096 = 3" by (simp add: example_backing_def)
  ultimately show ?thesis using example_hv_facts(1) example_hv_def by blast
qed

theorem mmio_confined_witness:
  "fst (run_state (example_kick example_hv) (example_metal\<lparr>ram := (ram example_metal)(0x40605000 := 9)\<rparr>)) = fst (run_state (example_kick example_hv) example_metal) \<and>
   ram (snd (run_state (example_kick example_hv) example_metal)) 0x40605000 = 0 \<and> ram (snd (run_state (example_kick example_hv) example_metal)) 0x40603002 = 1"
proof -
  let ?s' = "example_metal\<lparr>ram := (ram example_metal)(0x40605000 := 9)\<rparr>"
  have no: "0x40605000 \<notin> granted_bytes example_hv example_backing w" for w
    unfolding granted_bytes_def mem_Collect_eq example_grants [OF example_hv_offers] by (simp add: example_backing_def)
  have w: "window_ok example_backing" by (simp add: window_ok_def example_backing_def)
  have "\<forall>a \<in> granted_bytes example_hv example_backing False. ((ram example_metal)(0x40605000 := 9)) a = ram example_metal a"
    using no by auto
  from mmio_confined [OF w refl this prod.collapse [symmetric] prod.collapse [symmetric], of "replicate 31 0" 0 "0x91810040" "0x0a000050"]
  have "fst (run_state (example_kick example_hv) ?s') = fst (run_state (example_kick example_hv) example_metal)"
    "ram (snd (run_state (example_kick example_hv) example_metal)) 0x40605000 = ram example_metal 0x40605000"
    using no unfolding example_kick_def by blast+
  then show ?thesis using example_kick_writes [OF example_hv_offers] by (simp add: example_metal_def)
qed


end
