(* ===== verification/Teardown.thy ===== *)
theory Teardown
  imports Virtio_Backend Stage2_Layout
begin

text \<open>
  Content non-inheritance, \<open>hv-metal/src/teardown.rs\<close>: the funnel every dispatch goes through. After a
  call that succeeds it ends a destroyed domain's disk and device state and scrubs every frame that
  stopped being allocated since its shadow was last refreshed (\<open>scrub_frame\<close> of \<open>stage2.rs\<close>). The
  memory is flat: the cache maintenance around the zeroing has no effect in it. The machine steps are
  the funnel, the guests' stores into allocated frames and the backend's accesses; the theorems show
  that a frame is handed on with no byte of its last owner, except through a grant to the backend that
  outlived the frame's allocation.
\<close>

section \<open>Scrubbing\<close>

definition SUPER_SIZE :: u64 where "SUPER_SIZE = 0x200000"

definition frame_span :: "Backing \<Rightarrow> Mfn \<Rightarrow> u64 \<times> u64" where
  "frame_span b mfn =
     (if mfn < num_sup_frames b then (frame_addr (sup_ram_start b) SUPER_SIZE (of_nat mfn), SUPER_SIZE)
      else (frame_addr (data_ram_start b) FRAME_SIZE (of_nat mfn), FRAME_SIZE))"

definition scrub_frame :: "Backing \<Rightarrow> Mfn \<Rightarrow> (u64 \<Rightarrow> u8) \<Rightarrow> (u64 \<Rightarrow> u8)" where
  "scrub_frame b mfn r = (case frame_span b mfn of (pa, len) \<Rightarrow> (\<lambda>a. if a - pa < len then 0 else r a))"

section \<open>The funnel\<close>

record Machine =
  mc_hv :: Hypervisor
  shadow :: "bool list"
  tenant_of :: "nat option list"
  mc_metal :: Metal

definition bind_tenant :: "Machine \<Rightarrow> DomId \<Rightarrow> nat \<Rightarrow> Machine" where
  "bind_tenant m d tenant = m\<lparr>tenant_of := (tenant_of m)[d := Some tenant]\<rparr>"

definition shadow_says_allocated :: "Machine \<Rightarrow> Mfn \<Rightarrow> bool" where
  "shadow_says_allocated m mfn = (case vec_get (shadow m) mfn of None \<Rightarrow> False | Some x \<Rightarrow> x)"

definition reset_device_state :: "Metal \<Rightarrow> Metal" where
  "reset_device_state s = s\<lparr>virtio_dev := console_new, blk_dev := blk_new\<rparr>"

definition on_destroy :: "Machine \<Rightarrow> DomId \<Rightarrow> Machine option" where
  "on_destroy m target =
     (case (case vec_get (tenant_of m) target of
              Some (Some tenant) \<Rightarrow> discard_overlay (blk_disk (mc_metal m)) tenant
            | _ \<Rightarrow> Some (blk_disk (mc_metal m))) of
        None \<Rightarrow> None
      | Some k \<Rightarrow> Some (m\<lparr>mc_metal := reset_device_state ((mc_metal m)\<lparr>blk_disk := k\<rparr>)\<rparr>))"

fun scrub_scan :: "Backing \<Rightarrow> P2mSystem \<Rightarrow> nat \<Rightarrow> bool list \<Rightarrow> (u64 \<Rightarrow> u8) \<Rightarrow> bool list \<times> (u64 \<Rightarrow> u8)" where
  "scrub_scan b p mfn [] r = ([], r)"
| "scrub_scan b p mfn (was # rest) r =
     (let now = pm_is_allocated p mfn;
          (sh, r') = scrub_scan b p (Suc mfn) rest (if was \<and> \<not> now then scrub_frame b mfn r else r)
      in (now # sh, r'))"

definition teardown_dispatch :: "Backing \<Rightarrow> Machine \<Rightarrow> DomId \<Rightarrow> HvCall \<Rightarrow> (HvOutcome, HvError) result \<times> Machine" where
  "teardown_dispatch b m caller call =
     (case dispatch (mc_hv m) caller call of
        (Ok out, h) \<Rightarrow>
          (let m1 = m\<lparr>mc_hv := h\<rparr> in
           case (case call of DomainDestroy target now \<Rightarrow> on_destroy m1 target | _ \<Rightarrow> Some m1) of
             None \<Rightarrow> (Panic, m1)
           | Some m2 \<Rightarrow>
               (case scrub_scan b (p2m h) 0 (shadow m2) (ram (mc_metal m2)) of (sh, r) \<Rightarrow>
                  (Ok out, m2\<lparr>shadow := sh, mc_metal := (mc_metal m2)\<lparr>ram := r\<rparr>\<rparr>)))
      | (e, h) \<Rightarrow> (e, m\<lparr>mc_hv := h\<rparr>))"

section \<open>The backing of the frames\<close>

definition frame_bytes :: "Backing \<Rightarrow> Mfn \<Rightarrow> u64 set" where
  "frame_bytes b mfn = (case frame_span b mfn of (pa, len) \<Rightarrow> {a. a - pa < len})"

text \<open>
  The two windows of the linker script: each holds its frames, neither wraps, and they are disjoint.
\<close>

definition backing_ok :: "Backing \<Rightarrow> nat \<Rightarrow> bool" where
  "backing_ok b n \<longleftrightarrow>
     n < 2 ^ 32 \<and> unat (sup_ram_start b) + num_sup_frames b * 0x200000 \<le> 2 ^ 64 \<and>
     data_ram_start b \<le> data_ram_end b \<and> n * 0x1000 \<le> unat (data_ram_end b - data_ram_start b) \<and>
     unat (data_ram_end b - data_ram_start b) \<le> 2 ^ 44 \<and>
     (unat (sup_ram_start b) + num_sup_frames b * 0x200000 \<le> unat (data_ram_start b) \<or>
      data_ram_end b \<le> sup_ram_start b)"

text \<open>The bytes of a frame, as numbers.\<close>

definition frame_base :: "Backing \<Rightarrow> Mfn \<Rightarrow> nat" where
  "frame_base b m = (if m < num_sup_frames b then unat (sup_ram_start b) + m * 0x200000 else unat (data_ram_start b) + m * 0x1000)"

definition frame_len :: "Backing \<Rightarrow> Mfn \<Rightarrow> nat" where
  "frame_len b m = (if m < num_sup_frames b then 0x200000 else 0x1000)"

lemma span_iff:
  assumes "unat pa + n \<le> 2 ^ 64" "n < 2 ^ 64"
  shows "a - pa < of_nat n \<longleftrightarrow> unat pa \<le> unat a \<and> unat (a :: u64) < unat pa + n"
proof -
  have n: "unat (of_nat n :: u64) = n" using assms(2) by (simp add: unat_of_nat)
  have "unat (a - pa) = (if unat pa \<le> unat a then unat a - unat pa else unat a + 2 ^ 64 - unat pa)"
    by (simp add: unat_sub_if')
  then show ?thesis using assms(1) unsigned_less [of pa, where ?'a = nat] by (auto simp: word_less_nat_alt n)
qed

lemma unat_frame_addr:
  assumes "unat base + m * k \<le> 2 ^ 64 - 1" "m < 2 ^ 32" "k < 2 ^ 64"
  shows "unat (frame_addr base (of_nat k) (of_nat m)) = unat base + m * k"
proof -
  have k: "unat (of_nat k :: u64) = k" using assms(3) by (simp add: unat_of_nat)
  have m: "unat (ucast (of_nat m :: u32) :: u64) = m" using assms(2) by (simp add: unsigned_ucast_eq unat_of_nat take_bit_nat_eq_self)
  have "unat (ucast (of_nat m :: u32) * of_nat k :: u64) = m * k"
    using assms(1) m k unat_mult_exact [of "ucast (of_nat m :: u32) :: u64" "of_nat k"] by simp
  then show ?thesis using assms(1) unat_add_exact [of base "ucast (of_nat m :: u32) * of_nat k"] by (simp add: frame_addr_def)
qed

lemma frame_bytes_iff:
  assumes b: "backing_ok b n" and m: "m < n"
  shows "a \<in> frame_bytes b m \<longleftrightarrow> frame_base b m \<le> unat a \<and> unat a < frame_base b m + frame_len b m"
proof (cases "m < num_sup_frames b")
  case True
  then have le: "m * 0x200000 + 0x200000 \<le> num_sup_frames b * 0x200000" by linarith
  then have "unat (sup_ram_start b) + m * 0x200000 + 0x200000 \<le> 2 ^ 64" using b by (simp add: backing_ok_def)
  moreover from this have "unat (frame_addr (sup_ram_start b) (of_nat 0x200000) (of_nat m)) = unat (sup_ram_start b) + m * 0x200000"
    using b m by (intro unat_frame_addr) (simp_all add: backing_ok_def)
  ultimately show ?thesis using True span_iff [of "frame_addr (sup_ram_start b) (of_nat 0x200000) (of_nat m)" "0x200000" a]
    by (simp add: frame_bytes_def frame_span_def frame_base_def frame_len_def SUPER_SIZE_def)
next
  case False
  have "m * 0x1000 + 0x1000 \<le> n * 0x1000" using m by linarith
  moreover have "unat (data_ram_start b) + unat (data_ram_end b - data_ram_start b) = unat (data_ram_end b)"
    using b by (simp add: backing_ok_def unat_sub word_le_nat_alt)
  ultimately have "unat (data_ram_start b) + m * 0x1000 + 0x1000 < 2 ^ 64"
    using b unsigned_less [of "data_ram_end b", where ?'a = nat] by (simp add: backing_ok_def)
  moreover from this have "unat (frame_addr (data_ram_start b) (of_nat 0x1000) (of_nat m)) = unat (data_ram_start b) + m * 0x1000"
    using b m by (intro unat_frame_addr) (simp_all add: backing_ok_def)
  ultimately show ?thesis using False span_iff [of "frame_addr (data_ram_start b) (of_nat 0x1000) (of_nat m)" "0x1000" a]
    by (simp add: frame_bytes_def frame_span_def frame_base_def frame_len_def FRAME_SIZE_def)
qed

lemma backing_frames:
  assumes b: "backing_ok b n"
  shows "m < num_sup_frames b \<Longrightarrow> frame_base b m + frame_len b m \<le> unat (sup_ram_start b) + num_sup_frames b * 0x200000"
    and "\<not> m < num_sup_frames b \<Longrightarrow> m < n \<Longrightarrow> frame_base b m + frame_len b m \<le> unat (data_ram_end b)"
    and "unat (sup_ram_start b) + num_sup_frames b * 0x200000 \<le> unat (data_ram_start b) \<or> unat (data_ram_end b) \<le> unat (sup_ram_start b)"
proof -
  have "unat (data_ram_start b) + unat (data_ram_end b - data_ram_start b) = unat (data_ram_end b)"
    using b by (simp add: backing_ok_def unat_sub word_le_nat_alt)
  then show "\<not> m < num_sup_frames b \<Longrightarrow> m < n \<Longrightarrow> frame_base b m + frame_len b m \<le> unat (data_ram_end b)"
    using b by (simp add: backing_ok_def frame_base_def frame_len_def)
qed (use b in \<open>auto simp: backing_ok_def frame_base_def frame_len_def word_le_nat_alt\<close>)

lemma frame_bytes_disjoint:
  assumes b: "backing_ok b n" and m: "m < n" "m' < n" "m \<noteq> m'" and a: "a \<in> frame_bytes b m"
  shows "a \<notin> frame_bytes b m'"
proof -
  note f = backing_frames [OF b]
  show ?thesis
    using a m f(1) [of m] f(1) [of m'] f(2) [of m] f(2) [of m'] f(3) unfolding frame_bytes_iff [OF b m(1)] frame_bytes_iff [OF b m(2)]
    by (auto simp: frame_base_def frame_len_def split: if_splits)
qed

section \<open>What the scan does\<close>

lemma scrub_frame_eq: "scrub_frame b m r a = (if a \<in> frame_bytes b m then 0 else r a)"
  by (auto simp: scrub_frame_def frame_bytes_def split: prod.split)

lemma scan_shadow: "fst (scrub_scan b p i sh r) = map (pm_is_allocated p) [i..<i + length sh]"
proof (induction b p i sh r rule: scrub_scan.induct)
  case (2 b p i was rest r)
  have "[i..<i + length (was # rest)] = i # [Suc i..<Suc i + length rest]" by (simp add: upt_conv_Cons del: upt_Suc)
  then show ?case using 2 [OF refl] by (simp add: Let_def case_prod_beta del: upt_Suc)
qed simp

text \<open>The frames the scan scrubs.\<close>

definition freed :: "P2mSystem \<Rightarrow> nat \<Rightarrow> bool list \<Rightarrow> nat set" where
  "freed p i sh = {m. i \<le> m \<and> m < i + length sh \<and> sh ! (m - i) \<and> \<not> pm_is_allocated p m}"

lemma freed_Cons: "freed p i (was # sh) = (if was \<and> \<not> pm_is_allocated p i then {i} else {}) \<union> freed p (Suc i) sh"
  by (auto simp: freed_def nth_Cons' Suc_diff_Suc le_Suc_eq dest: le_neq_implies_less)

lemma scan_ram: "snd (scrub_scan b p i sh r) a = (if \<exists>m \<in> freed p i sh. a \<in> frame_bytes b m then 0 else r a)"
proof (induction b p i sh r rule: scrub_scan.induct)
  case (2 b p i was rest r)
  then show ?case by (auto simp: Let_def freed_Cons scrub_frame_eq split: prod.split)
qed (auto simp: freed_def)

section \<open>The machine\<close>

text \<open>
  What happens on the machine: a call goes through the funnel, a guest stores into a frame that is
  allocated, a driver's access traps and the backend serves it with whatever it reads and writes, a
  disk tenant is bound. No step asks that the grants be sound.
\<close>

datatype Event =
    Called DomId HvCall
  | Stored Mfn u64 u8
  | Trapped "u64 list" u64 u64 u64
  | Bound DomId nat

inductive mstep :: "Backing \<Rightarrow> Machine \<Rightarrow> Event \<Rightarrow> Machine \<Rightarrow> bool" for b where
  call: "teardown_dispatch b m caller call = (r, m') \<Longrightarrow> r \<noteq> Panic \<Longrightarrow> mstep b m (Called caller call) m'"
| store: "pm_is_allocated (p2m (mc_hv m)) f \<Longrightarrow> f < length (shadow m) \<Longrightarrow> a \<in> frame_bytes b f \<Longrightarrow>
    mstep b m (Stored f a v) (m\<lparr>mc_metal := (mc_metal m)\<lparr>ram := (ram (mc_metal m))(a := v)\<rparr>\<rparr>)"
| dma: "run_state (handle_mmio (mc_hv m) b x elr esr far) (mc_metal m) = (r, s) \<Longrightarrow>
    mstep b m (Trapped x elr esr far) (m\<lparr>mc_metal := s\<rparr>)"
| bind: "mstep b m (Bound d t) (bind_tenant m d t)"

text \<open>
  Two sets are kept beside a run: the frames that have been allocated at some time in it, and the
  free frames a trapped access may have written because a grant to the backend still named them. A
  frame leaves the second set when it is allocated.
\<close>

definition held :: "Machine \<Rightarrow> nat set" where
  "held m = {f. pm_is_allocated (p2m (mc_hv m)) f}"

fun exposed :: "Machine \<Rightarrow> Event \<Rightarrow> nat set" where
  "exposed m (Trapped _ _ _ _) =
     {f. \<not> pm_is_allocated (p2m (mc_hv m)) f \<and> gt_authorizes (grant (mc_hv m)) VIRTIO_DOM VIRTIO_BACKEND f True}"
| "exposed m _ = {}"

inductive mreach :: "Backing \<Rightarrow> Machine \<Rightarrow> Machine \<Rightarrow> nat set \<Rightarrow> nat set \<Rightarrow> bool" for b m0 where
  start: "mreach b m0 m0 {} {}"
| step: "mreach b m0 m ever stale \<Longrightarrow> mstep b m ev m' \<Longrightarrow>
    mreach b m0 m' (ever \<union> held m') ((stale \<union> exposed m ev) - held m')"

definition machine_start :: "Machine \<Rightarrow> bool" where
  "machine_start m \<longleftrightarrow> hv_start (mc_hv m) \<and> shadow m = replicate (pm_frame_count (p2m (mc_hv m))) False"

definition blank :: "Backing \<Rightarrow> Machine \<Rightarrow> Mfn \<Rightarrow> bool" where
  "blank b m f \<longleftrightarrow> (\<forall>a \<in> frame_bytes b f. ram (mc_metal m) a = 0)"

definition teardown_inv :: "Backing \<Rightarrow> nat \<Rightarrow> Machine \<Rightarrow> nat set \<Rightarrow> nat set \<Rightarrow> bool" where
  "teardown_inv b n m ever stale \<longleftrightarrow>
     hv_ok (mc_hv m) \<and> shadow m = map (pm_is_allocated (p2m (mc_hv m))) [0..<n] \<and>
     (\<forall>f \<in> ever - stale. f < n \<longrightarrow> \<not> pm_is_allocated (p2m (mc_hv m)) f \<longrightarrow> blank b m f)"

lemma dispatch_apply: "dispatch h d call = (r, h') \<Longrightarrow> hv_apply h (Guest d call) = (map_ok_err GuestOutcome id r, h')"
  by (simp add: hv_apply_def)

lemma same_allocated: "hv_same h h' \<Longrightarrow> pm_is_allocated (p2m h') f = pm_is_allocated (p2m h) f"
  unfolding hv_same_def pm_same_def pm_query_simps by (metis option.map_disc_iff)

text \<open>The funnel's outcome, by cases: a refusal changes no allocation, a success scans.\<close>

lemma funnel_cases:
  assumes "hv_ok (mc_hv m)" "teardown_dispatch b m d call = (r, m')" "r \<noteq> Panic"
  shows "hv_ok (mc_hv m') \<and>
    ((\<exists>e. r = Err e) \<and> mc_metal m' = mc_metal m \<and> shadow m' = shadow m \<and>
       (\<forall>f. pm_is_allocated (p2m (mc_hv m')) f = pm_is_allocated (p2m (mc_hv m)) f) \<or>
     (\<exists>out. r = Ok out \<and> dispatch (mc_hv m) d call = (Ok out, mc_hv m')) \<and>
       (shadow m', ram (mc_metal m')) = scrub_scan b (p2m (mc_hv m')) 0 (shadow m) (ram (mc_metal m)))"
proof -
  obtain q h where q: "dispatch (mc_hv m) d call = (q, h)" by fastforce
  have ok: "hv_ok h" using hv_apply_kept [OF assms(1), of "Guest d call"] dispatch_apply [OF q] by simp
  show ?thesis
  proof (cases q)
    case (Ok out)
    have od: "shadow x' = shadow x \<and> mc_hv x' = mc_hv x \<and> ram (mc_metal x') = ram (mc_metal x)" if "on_destroy x t = Some x'" for x x' t
      using that by (auto simp: on_destroy_def reset_device_state_def split: option.splits)
    let ?m1 = "m\<lparr>mc_hv := h\<rparr>"
    obtain m2 where m2: "(case call of DomainDestroy t now \<Rightarrow> on_destroy ?m1 t | _ \<Rightarrow> Some ?m1) = Some m2"
      using assms(2,3) q Ok by (auto simp: teardown_dispatch_def Let_def split: option.splits)
    then have "shadow m2 = shadow m \<and> mc_hv m2 = h \<and> ram (mc_metal m2) = ram (mc_metal m)"
      by (auto dest: od split: HvCall.splits)
    then show ?thesis using assms(2) q Ok m2 ok by (auto simp: teardown_dispatch_def Let_def split: prod.splits)
  next
    case (Err e)
    then have "hv_same (mc_hv m) h" using hv_apply_refused [OF assms(1)] dispatch_apply [OF q] by simp
    then show ?thesis using assms(2) q Err ok same_allocated by (auto simp: teardown_dispatch_def)
  qed (use assms q in \<open>simp add: teardown_dispatch_def\<close>)
qed

lemma granted_frame:
  assumes b: "backing_ok b n" and f: "f < n" and a: "a \<in> frame_bytes b f" and g: "a \<in> granted_bytes h b w"
  shows "gt_authorizes (grant h) VIRTIO_DOM VIRTIO_BACKEND f w"
proof -
  let ?win = "data_ram_end b - data_ram_start b"
  have top: "unat (data_ram_start b) + unat ?win = unat (data_ram_end b)"
    using b by (simp add: backing_ok_def unat_sub word_le_nat_alt)
  have "a - data_ram_start b < of_nat (unat ?win)" using g by (simp add: granted_bytes_def)
  moreover have "unat (data_ram_end b) < 2 ^ 64" "unat ?win < 2 ^ 64" using unsigned_less [where ?'a = nat, where ?'b = 64] by simp_all
  ultimately have r: "unat (data_ram_start b) \<le> unat a" "unat a < unat (data_ram_end b)"
    using span_iff [of "data_ram_start b" "unat ?win" a] top by simp_all
  have p: "frame_base b f \<le> unat a" "unat a < frame_base b f + frame_len b f" using a unfolding frame_bytes_iff [OF b f] by simp_all
  have ns: "\<not> f < num_sup_frames b" using backing_frames(1) [OF b, of f] backing_frames(3) [OF b] p r by (auto simp: frame_base_def)
  have "unat (a - data_ram_start b) = unat a - unat (data_ram_start b)" using r(1) by (simp add: unat_sub word_le_nat_alt)
  then have "unat (a - data_ram_start b) div 4096 = f"
    using p ns by (intro div_nat_eqI) (simp_all add: frame_base_def frame_len_def)
  then show ?thesis using g by (simp add: granted_bytes_def)
qed

lemma backing_window: "backing_ok b n \<Longrightarrow> window_ok b"
  by (simp add: backing_ok_def window_ok_def)

lemma mmio_unwritten:
  assumes "window_ok b" "run_state (handle_mmio h b x elr esr far) s = (r, t)" "a \<notin> granted_bytes h b True"
  shows "ram t a = ram s a"
  using behind_mmio [OF assms(1), of h x elr esr far] assms(2,3) unfolding confined_def confined_at_def by (metis snd_conv)

text \<open>A successful call leaves the shadow exact, and blank every free frame that was held and not written since.\<close>

lemma scan_inv:
  assumes inv: "teardown_inv b n m ever stale" and ok: "hv_ok (mc_hv m')"
    and sc: "(shadow m', ram (mc_metal m')) = scrub_scan b (p2m (mc_hv m')) 0 (shadow m) (ram (mc_metal m))"
  shows "teardown_inv b n m' (ever \<union> held m') (stale - held m')"
proof -
  have sh: "shadow m = map (pm_is_allocated (p2m (mc_hv m))) [0..<n]" using inv by (simp add: teardown_inv_def)
  have s': "shadow m' = map (pm_is_allocated (p2m (mc_hv m'))) [0..<n]"
    using scan_shadow [of b "p2m (mc_hv m')" 0 "shadow m" "ram (mc_metal m)"] sc sh by (metis add_0 diff_zero fst_conv length_map length_upt)
  have r': "ram (mc_metal m') a = (if \<exists>g \<in> freed (p2m (mc_hv m')) 0 (shadow m). a \<in> frame_bytes b g then 0 else ram (mc_metal m) a)" for a
    using scan_ram [of b "p2m (mc_hv m')" 0 "shadow m" "ram (mc_metal m)" a] sc by (metis snd_conv)
  have "blank b m' f" if "f \<in> ever" "f \<notin> stale" "f < n" "\<not> pm_is_allocated (p2m (mc_hv m')) f" for f
  proof (cases "pm_is_allocated (p2m (mc_hv m)) f")
    case True
    then have "f \<in> freed (p2m (mc_hv m')) 0 (shadow m)" using that sh by (simp add: freed_def)
    then show ?thesis by (auto simp: blank_def r')
  next
    case False
    then have "blank b m f" using inv that by (simp add: teardown_inv_def)
    then show ?thesis by (simp add: blank_def r')
  qed
  then show ?thesis using s' ok by (auto simp: teardown_inv_def held_def)
qed

lemma mstep_inv:
  assumes b: "backing_ok b n" and inv: "teardown_inv b n m ever stale" and st: "mstep b m ev m'"
  shows "teardown_inv b n m' (ever \<union> held m') ((stale \<union> exposed m ev) - held m')"
  using st
proof (cases rule: mstep.cases)
  case (call d call r)
  have ok: "hv_ok (mc_hv m)" using inv by (simp add: teardown_inv_def)
  note c = funnel_cases [OF ok call(2,3)]
  show ?thesis
  proof (cases "\<exists>e. r = Err e")
    case True
    then have "mc_metal m' = mc_metal m" "shadow m' = shadow m"
      "\<And>f. pm_is_allocated (p2m (mc_hv m')) f = pm_is_allocated (p2m (mc_hv m)) f" "hv_ok (mc_hv m')" using c by auto
    moreover from this(3) have "pm_is_allocated (p2m (mc_hv m')) = pm_is_allocated (p2m (mc_hv m))" by blast
    ultimately show ?thesis using inv call(1) by (auto simp: teardown_inv_def blank_def held_def)
  next
    case False
    then show ?thesis using c scan_inv [OF inv] call(1) by simp
  qed
next
  case (store f a v)
  have n: "f < n" using store(4) inv by (simp add: teardown_inv_def)
  have "x \<noteq> a" if "g < n" "\<not> pm_is_allocated (p2m (mc_hv m)) g" "x \<in> frame_bytes b g" for g x
    using frame_bytes_disjoint [OF b n that(1), of a] store(3,5) that by auto
  then show ?thesis using inv store(1,2) by (auto simp: teardown_inv_def blank_def held_def)
next
  case (dma x elr esr far r s)
  have "ram s a = ram (mc_metal m) a"
    if "g < n" "\<not> pm_is_allocated (p2m (mc_hv m)) g" "g \<notin> exposed m ev" "a \<in> frame_bytes b g" for g a
  proof (rule mmio_unwritten [OF backing_window [OF b] dma(3)])
    show "a \<notin> granted_bytes (mc_hv m) b True"
      using granted_frame [OF b that(1,4)] that(2,3) dma(1) by auto
  qed
  then have "blank b m' g" if "g \<in> ever" "g \<notin> stale" "g \<notin> exposed m ev" "g < n" "\<not> pm_is_allocated (p2m (mc_hv m)) g" for g
    using inv that dma(2) by (simp add: teardown_inv_def blank_def)
  moreover have "mc_hv m' = mc_hv m" "shadow m' = shadow m" using dma(2) by simp_all
  ultimately show ?thesis using inv by (auto simp: teardown_inv_def held_def)
next
  case (bind d t)
  then show ?thesis using inv by (auto simp: teardown_inv_def blank_def bind_tenant_def held_def)
qed

lemma machine_start_inv:
  assumes "machine_start m" shows "teardown_inv b (length (shadow m)) m {} {}"
proof -
  have h: "hv_start (mc_hv m)" using assms by (simp add: machine_start_def)
  then have "\<not> pm_is_allocated (p2m (mc_hv m)) f" for f
    by (auto simp: hv_start_def hv_new_def pm_new_def pm_query_simps pm_info_def vec_get_def split: if_splits)
  then have "shadow m = map (pm_is_allocated (p2m (mc_hv m))) [0..<length (shadow m)]"
    using assms by (simp add: machine_start_def list_eq_iff_nth_eq)
  then show ?thesis using hvm.start_inv [OF h] by (simp add: teardown_inv_def)
qed

lemma mreach_inv:
  assumes "mreach b m0 m ever stale" "machine_start m0" "backing_ok b (length (shadow m0))"
  shows "teardown_inv b (length (shadow m0)) m ever stale"
  using assms(1)
proof (induction rule: mreach.induct)
  case start
  show ?case using machine_start_inv [OF assms(2)] .
next
  case (step m ever stale ev m')
  then show ?case using mstep_inv [OF assms(3)] by blast
qed

section \<open>Nothing is handed on\<close>

text \<open>
  C15: No frame is handed on with a byte of an earlier owner, but for one channel, which is named. In
  every run of the machine from a start, whatever calls are made, whatever the guests store in
  allocated frames and whatever the backend is asked to serve: a frame that was held once and is free
  is blank when a call gives it to its next owner, unless a trapped access was served while it was
  already free and a write grant to the backend still named it (\<open>stale\<close>; \<open>stale_grant_inherits\<close> shows
  that such a write happens). A frame a call frees, alone or in a domain's end, is blank after it, a
  frame held through the call keeps every byte, and the shadow the page-table builder compares with
  is the model's allocation.
\<close>

theorem content_not_inherited:
  assumes "machine_start m0" "backing_ok b (length (shadow m0))" "mreach b m0 m ever stale"
    and "teardown_dispatch b m d call = (Ok out, m')" "f < length (shadow m0)"
  shows "(f \<in> ever \<and> f \<notin> stale \<and> \<not> pm_is_allocated (p2m (mc_hv m)) f \<longrightarrow> blank b m f \<and> blank b m' f) \<and>
    (pm_is_allocated (p2m (mc_hv m)) f \<and> \<not> pm_is_allocated (p2m (mc_hv m')) f \<longrightarrow> blank b m' f) \<and>
    (pm_is_allocated (p2m (mc_hv m)) f \<and> pm_is_allocated (p2m (mc_hv m')) f \<longrightarrow>
       (\<forall>a \<in> frame_bytes b f. ram (mc_metal m') a = ram (mc_metal m) a)) \<and>
    shadow_says_allocated m' f = pm_is_allocated (p2m (mc_hv m')) f"
proof -
  let ?n = "length (shadow m0)"
  have inv: "teardown_inv b ?n m ever stale" by (rule mreach_inv [OF assms(3,1,2)])
  have st: "mstep b m (Called d call) m'" using assms(4) by (auto intro: mstep.call)
  have inv': "teardown_inv b ?n m' (ever \<union> held m') ((stale \<union> exposed m (Called d call)) - held m')" by (rule mstep_inv [OF assms(2) inv st])
  have ok: "hv_ok (mc_hv m)" and sh: "shadow m = map (pm_is_allocated (p2m (mc_hv m))) [0..<?n]" using inv by (simp_all add: teardown_inv_def)
  have sc: "(shadow m', ram (mc_metal m')) = scrub_scan b (p2m (mc_hv m')) 0 (shadow m) (ram (mc_metal m))"
    using funnel_cases [OF ok assms(4)] by simp
  have r': "ram (mc_metal m') a = (if \<exists>g \<in> freed (p2m (mc_hv m')) 0 (shadow m). a \<in> frame_bytes b g then 0 else ram (mc_metal m) a)" for a
    using scan_ram [of b "p2m (mc_hv m')" 0 "shadow m" "ram (mc_metal m)" a] sc by (metis snd_conv)
  have held: "blank b m f \<and> blank b m' f" if "f \<in> ever" "f \<notin> stale" "\<not> pm_is_allocated (p2m (mc_hv m)) f"
    using inv that assms(5) by (auto simp: teardown_inv_def blank_def r')
  have freed: "blank b m' f" if "pm_is_allocated (p2m (mc_hv m)) f" "\<not> pm_is_allocated (p2m (mc_hv m')) f"
  proof -
    have "f \<in> freed (p2m (mc_hv m')) 0 (shadow m)" using that assms(5) sh by (simp add: freed_def)
    then show ?thesis by (auto simp: blank_def r')
  qed
  have kept: "ram (mc_metal m') a = ram (mc_metal m) a" if "pm_is_allocated (p2m (mc_hv m')) f" "a \<in> frame_bytes b f" for a
  proof -
    have "a \<notin> frame_bytes b g" if "g \<in> freed (p2m (mc_hv m')) 0 (shadow m)" for g
    proof -
      have "g < ?n" "g \<noteq> f" using that sh \<open>pm_is_allocated (p2m (mc_hv m')) f\<close> by (auto simp: freed_def)
      then show ?thesis using frame_bytes_disjoint [OF assms(2,5)] \<open>a \<in> frame_bytes b f\<close> by blast
    qed
    then show ?thesis by (auto simp: r')
  qed
  have "shadow_says_allocated m' f = pm_is_allocated (p2m (mc_hv m')) f"
    using inv' assms(5) by (simp add: teardown_inv_def shadow_says_allocated_def vec_get_def)
  with held freed kept show ?thesis by blast
qed

text \<open>The end of a domain also ends its overlay and what any driver negotiated.\<close>

lemma destroy_leaves_nothing:
  assumes "teardown_dispatch b m d (DomainDestroy target now) = (Ok out, m')" "vec_get (tenant_of m) target = Some (Some t)"
    and "disk_ok (blk_disk (mc_metal m))" "t < N_TENANTS"
  shows "disk_own (blk_disk (mc_metal m')) t = Map.empty \<and> template (blk_disk (mc_metal m')) = template (blk_disk (mc_metal m)) \<and>
    (\<forall>u < N_TENANTS. u \<noteq> t \<longrightarrow> disk_own (blk_disk (mc_metal m')) u = disk_own (blk_disk (mc_metal m)) u) \<and>
    virtio_dev (mc_metal m') = console_new \<and> blk_dev (mc_metal m') = blk_new"
proof -
  from disk_step_refines [OF assms(3), of "DiscardOp t"] assms(4) obtain k where
    k: "discard_overlay (blk_disk (mc_metal m)) t = Some k" "template k = template (blk_disk (mc_metal m))"
      "\<forall>u < N_TENANTS. disk_own k u = own_step u (DiscardOp t) (disk_own (blk_disk (mc_metal m)) u)" by auto
  have "blk_disk (mc_metal m') = k \<and> virtio_dev (mc_metal m') = console_new \<and> blk_dev (mc_metal m') = blk_new"
    using assms(1,2) k(1)
    by (auto simp: teardown_dispatch_def Let_def on_destroy_def reset_device_state_def split: prod.splits result.splits)
  then show ?thesis using k(2,3) assms(4) by simp
qed

section \<open>A stale grant reaches a free frame\<close>

text \<open>Calls that end no domain, all accepted, on a memory of zeroes.\<close>

fun calls_ok :: "Hypervisor \<Rightarrow> (DomId \<times> HvCall) list \<Rightarrow> bool" where
  "calls_ok h [] = True"
| "calls_ok h ((d, call) # cs) \<longleftrightarrow>
     is_Ok (fst (dispatch h d call)) \<and> (case call of DomainDestroy _ _ \<Rightarrow> False | _ \<Rightarrow> True) \<and> calls_ok (snd (dispatch h d call)) cs"

definition calls_run :: "(DomId \<times> HvCall) list \<Rightarrow> Hypervisor \<Rightarrow> Hypervisor" where
  "calls_run cs h = fold (\<lambda>(d, call) h. snd (dispatch h d call)) cs h"

definition machine_of :: "nat \<Rightarrow> Metal \<Rightarrow> Hypervisor \<Rightarrow> Machine" where
  "machine_of n mt h = \<lparr>mc_hv = h, shadow = map (pm_is_allocated (p2m h)) [0..<n], tenant_of = [], mc_metal = mt\<rparr>"

lemma funnel_on_zeroes:
  assumes "ram mt = (\<lambda>_. 0)" "is_Ok (fst (dispatch h d call))" "case call of DomainDestroy _ _ \<Rightarrow> False | _ \<Rightarrow> True"
  shows "teardown_dispatch b (machine_of n mt h) d call = (fst (dispatch h d call), machine_of n mt (snd (dispatch h d call)))"
proof -
  obtain out h' where d: "dispatch h d call = (Ok out, h')" using assms(2) by (metis is_Ok_iff prod.collapse)
  have sc: "scrub_scan b (p2m h') 0 (map (pm_is_allocated (p2m h)) [0..<n]) (\<lambda>_. 0) = (map (pm_is_allocated (p2m h')) [0..<n], \<lambda>_. 0)"
    using scan_shadow [of b "p2m h'" 0 "map (pm_is_allocated (p2m h)) [0..<n]" "\<lambda>_. 0"]
      scan_ram [of b "p2m h'" 0 "map (pm_is_allocated (p2m h)) [0..<n]" "\<lambda>_. 0"] by (intro prod_eqI) (simp_all add: fun_eq_iff)
  have "(case call of DomainDestroy t now \<Rightarrow> on_destroy m t | _ \<Rightarrow> Some m) = Some m" for m
    using assms(3) by (cases call) simp_all
  then show ?thesis using assms(1) sc by (simp add: teardown_dispatch_def d machine_of_def Let_def)
qed

lemma calls_reach:
  assumes "ram mt = (\<lambda>_. 0)"
  shows "mreach b m0 (machine_of n mt h) ever stale \<Longrightarrow> calls_ok h cs \<Longrightarrow>
     \<exists>ever' stale'. mreach b m0 (machine_of n mt (calls_run cs h)) ever' stale'"
proof (induction cs arbitrary: h ever stale)
  case (Cons c cs)
  obtain d call where c: "c = (d, call)" by fastforce
  have "mstep b (machine_of n mt h) (Called d call) (machine_of n mt (snd (dispatch h d call)))"
    using Cons.prems(2) c funnel_on_zeroes [OF assms, of h d call b n] by (auto intro!: mstep.call simp: is_Ok_iff)
  from mreach.step [OF Cons.prems(1) this] Cons.IH Cons.prems(2) show ?case by (auto simp: c calls_run_def)
qed (auto simp: calls_run_def)

lemma funnel_accepts:
  assumes "dispatch (mc_hv m) d call = (Ok out, h')" "case call of DomainDestroy _ _ \<Rightarrow> False | _ \<Rightarrow> True"
  shows "\<exists>m'. teardown_dispatch b m d call = (Ok out, m') \<and> mc_hv m' = h' \<and>
    (shadow m', ram (mc_metal m')) = scrub_scan b (p2m h') 0 (shadow m) (ram (mc_metal m))"
proof -
  have "(case call of DomainDestroy t now \<Rightarrow> on_destroy x t | _ \<Rightarrow> Some x) = Some x" for x
    using assms(2) by (cases call) simp_all
  then show ?thesis using assms(1) by (simp add: teardown_dispatch_def Let_def split: prod.split)
qed

definition stale_calls :: "(DomId \<times> HvCall) list" where
  "stale_calls = [(0, DomainCreate 1 False), (0, DomainCreate 2 False), (1, P2mAllocate 2), (1, P2mAllocate 3),
     (1, GrantAccess 0 0 2 False), (1, GrantAccess 1 0 3 False), (1, P2mFree 3)]"

definition stale_hv :: Hypervisor where
  "stale_hv = calls_run stale_calls (hv_new 4 1 2 1 1 8 1)"

definition zero_metal :: Metal where
  "zero_metal = example_metal\<lparr>ram := (\<lambda>_. 0)\<rparr>"

lemma stale_facts:
  "calls_ok (hv_new 4 1 2 1 1 8 1) stale_calls" "example_offers stale_hv"
  "\<not> pm_is_allocated (p2m stale_hv) 3" "pm_is_allocated (p2m stale_hv) 2"
  "fst (dispatch stale_hv 2 (P2mAllocate 3)) = Ok Done"
  "pm_owner_of (p2m (snd (dispatch stale_hv 2 (P2mAllocate 3)))) 3 = Some 2"
  "map (pm_is_allocated (p2m (hv_new 4 1 2 1 1 8 1))) [0..<8] = replicate 8 False" "pm_frame_count (p2m (hv_new 4 1 2 1 1 8 1)) = 8"
  by code_simp+

lemma stale_shadow:
  "map (pm_is_allocated (p2m stale_hv)) [0..<8] = [False, False, True, False, False, False, False, False]"
  "map (pm_is_allocated (p2m (snd (dispatch stale_hv 2 (P2mAllocate 3))))) [0..<8] = [False, False, True, True, False, False, False, False]"
  by code_simp+

text \<open>
  The exception is real, and the code does not rule it out. A domain frees a frame it has granted to
  the backend; the grant row stays, the gate still honours it, and the domain's next kick writes into
  the free, scrubbed frame. The domain the frame is allocated to next finds the byte.
\<close>

theorem stale_grant_inherits:
  "\<exists>b m0 ever stale ever' stale' m s m'. machine_start m0 \<and> backing_ok b (length (shadow m0)) \<and>
     mreach b m0 m ever stale \<and>
     \<not> pm_is_allocated (p2m (mc_hv m)) 3 \<and> blank b m 3 \<and>
     s = snd (run_state (handle_mmio (mc_hv m) b (replicate 31 0) 0 0x91810040 0x0a000050) (mc_metal m)) \<and>
     mreach b m0 (m\<lparr>mc_metal := s\<rparr>) ever' stale' \<and> 3 \<in> stale' \<and>
     teardown_dispatch b (m\<lparr>mc_metal := s\<rparr>) 2 (P2mAllocate 3) = (Ok Done, m') \<and>
     pm_owner_of (p2m (mc_hv m')) 3 = Some 2 \<and> \<not> blank b m' 3"
proof -
  let ?b = example_backing and ?hv = "hv_new 4 1 2 1 1 8 1"
  let ?start = "machine_of 8 zero_metal ?hv" and ?ma = "machine_of 8 zero_metal stale_hv"
  have "hv_start ?hv" by (rule hv_startI) simp_all
  then have start: "machine_start ?start" using stale_facts(7,8) by (simp add: machine_start_def machine_of_def)
  have bk: "backing_ok ?b 8" by (simp add: backing_ok_def example_backing_def)
  have len: "length (shadow ?start) = 8" by (simp add: machine_of_def)
  have "ram zero_metal = (\<lambda>_. 0)" by (simp add: zero_metal_def)
  from calls_reach [OF this mreach.start stale_facts(1)] obtain ever stale where r1: "mreach ?b ?start ?ma ever stale" unfolding stale_hv_def by blast
  let ?mb = "?ma\<lparr>mc_metal := (mc_metal ?ma)\<lparr>ram := (ram (mc_metal ?ma))(0x40602102 := 1)\<rparr>\<rparr>"
  have f2: "(0x40602102 :: u64) \<in> frame_bytes ?b 2"
    unfolding frame_bytes_iff [OF bk, of 2, simplified] by (simp add: frame_base_def frame_len_def example_backing_def)
  have "mstep ?b ?ma (Stored 2 0x40602102 1) ?mb" using stale_facts(4) f2 by (intro mstep.store) (simp_all add: machine_of_def)
  then obtain ever' stale' where r2: "mreach ?b ?start ?mb ever' stale'" using mreach.step [OF r1] by blast
  have mt: "mc_metal ?mb = example_metal"
    by (simp add: machine_of_def zero_metal_def example_metal_def fun_eq_iff)
  define s where "s = snd (run_state (example_kick stale_hv) example_metal)"
  have w: "ram s 0x40603002 = 1" unfolding s_def by (rule example_kick_writes [OF stale_facts(2)])
  have f3: "(0x40603002 :: u64) \<in> frame_bytes ?b 3"
    unfolding frame_bytes_iff [OF bk, of 3, simplified] by (simp add: frame_base_def frame_len_def example_backing_def)
  have bl: "blank ?b ?mb 3" using frame_bytes_disjoint [OF bk, of 2 3] f2 by (auto simp: blank_def machine_of_def zero_metal_def)
  let ?mc = "?mb\<lparr>mc_metal := s\<rparr>" and ?ho = "snd (dispatch stale_hv 2 (P2mAllocate 3))"
  have d: "dispatch stale_hv 2 (P2mAllocate 3) = (Ok Done, ?ho)" using stale_facts(5) by (metis prod.collapse)
  have mcs: "mc_hv ?mc = stale_hv" "ram (mc_metal ?mc) = ram s" by (simp_all add: machine_of_def)
  from funnel_accepts [of ?mc 2 "P2mAllocate 3" Done ?ho, unfolded mcs, OF d] obtain m' where
    m': "teardown_dispatch ?b ?mc 2 (P2mAllocate 3) = (Ok Done, m')" "mc_hv m' = ?ho"
    "(shadow m', ram (mc_metal m')) = scrub_scan ?b (p2m ?ho) 0 (shadow ?mc) (ram s)" by auto
  have "freed (p2m ?ho) 0 (shadow ?mc) = {}"
  proof -
    have "pm_is_allocated (p2m ?ho) g" if "g < 8" "pm_is_allocated (p2m stale_hv) g" for g
    proof -
      have "map (pm_is_allocated (p2m stale_hv)) [0..<8] ! g" using that by simp
      then have "g = 2" unfolding stale_shadow(1) using that(1) by (auto simp: nth_Cons' split: if_splits)
      moreover have "map (pm_is_allocated (p2m ?ho)) [0..<8] ! 2" unfolding stale_shadow(2) by simp
      ultimately show ?thesis by (simp add: eval_nat_numeral)
    qed
    then show ?thesis by (auto simp: freed_def machine_of_def)
  qed
  then have "ram (mc_metal m') 0x40603002 = 1"
    using m'(3) w scan_ram [of ?b "p2m ?ho" 0 "shadow ?mc" "ram s" "0x40603002"] by (metis empty_iff snd_conv)
  then have "\<not> blank ?b m' 3" using f3 by (auto simp: blank_def intro!: bexI [of _ "0x40603002"])
  moreover have s: "s = snd (run_state (handle_mmio (mc_hv ?mb) ?b (replicate 31 0) 0 0x91810040 0x0a000050) (mc_metal ?mb))"
    unfolding mt s_def example_kick_def by (simp add: machine_of_def)
  moreover have free: "\<not> pm_is_allocated (p2m (mc_hv ?mb)) 3" using stale_facts(3) by (simp add: machine_of_def)
  moreover have "\<exists>ever' stale'. mreach ?b ?start ?mc ever' stale' \<and> 3 \<in> stale'"
  proof -
    have "mstep ?b ?mb (Trapped (replicate 31 0) 0 0x91810040 0x0a000050) ?mc"
      by (rule mstep.dma) (rule prod_eqI, simp_all only: fst_conv snd_conv s)
    note r3 = mreach.step [OF r2 this]
    have "gt_authorizes (grant (mc_hv ?mb)) VIRTIO_DOM VIRTIO_BACKEND 3 True"
      using example_grants [OF stale_facts(2)] by (simp add: machine_of_def)
    moreover have "\<not> pm_is_allocated (p2m (mc_hv ?mc)) 3" using stale_facts(3) by (simp add: machine_of_def)
    ultimately have "3 \<in> (stale' \<union> exposed ?mb (Trapped (replicate 31 0) 0 0x91810040 0x0a000050)) - held ?mc"
      using free by (simp add: held_def)
    then show ?thesis using r3 by blast
  qed
  moreover have "pm_owner_of (p2m (mc_hv m')) 3 = Some 2" using m'(2) stale_facts(6) by simp
  moreover have "backing_ok ?b (length (shadow ?start))" unfolding len by (rule bk)
  ultimately show ?thesis using start r2 bl m'(1) by blast
qed

text \<open>A byte of a frame that is freed, before and after.\<close>

definition held_calls :: "(DomId \<times> HvCall) list" where
  "held_calls = [(0, DomainCreate 1 False), (1, P2mAllocate 3)]"

lemma held_facts:
  "calls_ok (hv_new 4 1 2 1 1 8 1) held_calls" "pm_is_allocated (p2m (calls_run held_calls (hv_new 4 1 2 1 1 8 1))) 3"
  "fst (dispatch (calls_run held_calls (hv_new 4 1 2 1 1 8 1)) 1 (P2mFree 3)) = Ok Done"
  "\<not> pm_is_allocated (p2m (snd (dispatch (calls_run held_calls (hv_new 4 1 2 1 1 8 1)) 1 (P2mFree 3)))) 3"
  by code_simp+

theorem content_not_inherited_witness:
  "\<exists>m m'. ram (mc_metal m) 0x40603000 = 7 \<and> teardown_dispatch example_backing m 1 (P2mFree 3) = (Ok Done, m') \<and>
     blank example_backing m' 3 \<and> ram (mc_metal m') 0x40603000 = 0 \<and> \<not> shadow_says_allocated m' 3"
proof -
  let ?b = example_backing and ?hv = "hv_new 4 1 2 1 1 8 1" and ?hh = "calls_run held_calls (hv_new 4 1 2 1 1 8 1)"
  let ?start = "machine_of 8 zero_metal ?hv" and ?ma = "machine_of 8 zero_metal ?hh"
  have "hv_start ?hv" by (rule hv_startI) simp_all
  then have start: "machine_start ?start" using stale_facts(7,8) by (simp add: machine_start_def machine_of_def)
  have len: "length (shadow ?start) = 8" by (simp add: machine_of_def)
  have bk: "backing_ok ?b 8" by (simp add: backing_ok_def example_backing_def)
  have "ram zero_metal = (\<lambda>_. 0)" by (simp add: zero_metal_def)
  from calls_reach [OF this mreach.start held_facts(1)] obtain ever stale where r: "mreach ?b ?start ?ma ever stale" by blast
  let ?mb = "?ma\<lparr>mc_metal := (mc_metal ?ma)\<lparr>ram := (ram (mc_metal ?ma))(0x40603000 := 7)\<rparr>\<rparr>"
  have f3: "(0x40603000 :: u64) \<in> frame_bytes ?b 3"
    unfolding frame_bytes_iff [OF bk, of 3, simplified] by (simp add: frame_base_def frame_len_def example_backing_def)
  have "mstep ?b ?ma (Stored 3 0x40603000 7) ?mb" using held_facts(2) f3 by (intro mstep.store) (simp_all add: machine_of_def)
  from mreach.step [OF r this] obtain ever' stale' where r': "mreach ?b ?start ?mb ever' stale'" by blast
  have mb: "mc_hv ?mb = ?hh" by (simp add: machine_of_def)
  have d: "dispatch (mc_hv ?mb) 1 (P2mFree 3) = (Ok Done, snd (dispatch ?hh 1 (P2mFree 3)))"
    unfolding mb using held_facts(3) by (metis prod.collapse)
  then obtain m' where m': "teardown_dispatch ?b ?mb 1 (P2mFree 3) = (Ok Done, m')" "mc_hv m' = snd (dispatch ?hh 1 (P2mFree 3))"
    using funnel_accepts [OF d, of ?b] by auto
  have bk': "backing_ok ?b (length (shadow ?start))" unfolding len by (rule bk)
  from content_not_inherited [OF start bk' r' m'(1), of 3, unfolded len mb m'(2)] held_facts(2,4)
  have "blank ?b m' 3" "\<not> shadow_says_allocated m' 3" by auto
  moreover from this(1) have "ram (mc_metal m') 0x40603000 = 0" using f3 by (simp add: blank_def)
  moreover have "ram (mc_metal ?mb) 0x40603000 = 7" by (simp add: machine_of_def)
  ultimately show ?thesis using m'(1) by blast
qed

end
