(* ===== verification/Spec2Isabelle.thy ===== *)
theory Spec2Isabelle
  imports Evtchn Sched Grant P2m Device Credit Prng Policy Policy_Stall Control Hypervisor Hypervisor_Inv Hypervisor_Frame
    Partition Delivery Pl011 Gicv3_Access Stage2_Verify Stage2_Regime Device_Path Queries Noninterference
    Virtio Virtio_Backend Teardown
begin

text \<open>
  Baleen: a verification development of the hypervisor.

  Baleen is a type-1 hypervisor for arm64, written as a pure core that decides (\<open>hv-core\<close>), pure
  crates that turn decisions into machine words (\<open>hv-s2\<close>, \<open>hv-part\<close>, \<open>hv-vdev\<close>), and a bare-metal
  runtime (\<open>hv-metal\<close>) that traps, calls them and writes registers. The development models the core,
  the three pure crates, the parts of the runtime that deliver virtual interrupts, serve the
  virtio devices and clear a dead tenant's content, and the isolation property that \<open>hv-sim\<close> states over the core, and proves for every size and every run what the
  repository tests on small bounds. Paths below are under \<open>src/\<close>.

  \<^bold>\<open>The parts and how they interact.\<close> A guest's hypercall reaches \<open>Hypervisor::dispatch\<close>, which refuses
  dead callers and routes the call to one of the subsystems: event channels, scheduler, grant tables,
  page frames, devices, credit, or the control relation. Some handlers span two subsystems: a grant
  mapping takes a page reference, an event wakes a vCPU, a page-table entry into another domain's
  frame needs a grant, the end of a domain sweeps all of them. \<open>Hypervisor::apply\<close> is the step of the
  whole machine; its second transition raises a virtual interrupt. The page-table edges of the core are
  read by \<open>hv-s2\<close>: a leaf map per domain, a set of Stage-2 tables per leaf map, a stream table from the
  device assignment. Interrupts of a running guest go through the emulated interrupt controller, the
  list registers and the pending sets. A guest's access to a virtio register traps into a device model
  whose backend reads the guest's rings behind the core's grants; the runtime sends every hypercall
  through a funnel that scrubs the frames it frees.

  \<^bold>\<open>Theories and sources.\<close>
  \<^item> \<open>HV_Prelude\<close>, \<open>Words\<close>: outcomes of calls (\<open>Ok\<close>, \<open>Err\<close>, \<open>Panic\<close>), casts and checked arithmetic,
    vectors, loops with panics, register fields; the locales of the shared interfaces.
  \<^item> \<open>Evtchn\<close> (\<open>hv-core/src/evtchn.rs\<close>), \<open>Sched\<close> (\<open>sched.rs\<close>), \<open>Grant\<close> (\<open>grant.rs\<close>), \<open>P2m\<close>
    (\<open>p2m.rs\<close>), \<open>Device\<close> (\<open>device.rs\<close>), \<open>Credit\<close> (\<open>lib.rs\<close>), \<open>Prng\<close> (\<open>prng.rs\<close>), \<open>Policy\<close> and
    \<open>Policy_Stall\<close> (\<open>policy.rs\<close>): one record per \<open>System\<close> struct and one definition per method, with
    a prefix per module (\<open>ev_\<close>, \<open>sc_\<close>, \<open>gt_\<close>, \<open>pm_\<close>, \<open>dv_\<close>, \<open>cr_\<close>, \<open>po_\<close>). A method that takes
    \<open>&mut self\<close> returns its outcome with the new state.
  \<^item> \<open>Control\<close>, \<open>Hypervisor\<close>, \<open>Hypervisor_Inv\<close>, \<open>Hypervisor_Frame\<close> (\<open>hypervisor.rs\<close>): the delegation
    matrix and its sweeps, every hypercall handler under its own name, \<open>route\<close>, \<open>dispatch\<close>, \<open>hv_apply\<close> and
    the cross-subsystem check; the invariant \<open>hv_ok\<close> and that every step keeps it; what each call
    leaves alone.
  \<^item> \<open>Queries\<close> (the queries of \<open>p2m.rs\<close> and \<open>grant.rs\<close>): when two states answer every query alike, and that what
    a refused call keeps is enough for it.
  \<^item> \<open>Noninterference\<close> (\<open>hv-sim/src/noninterference.rs\<close>): the observation of a domain, the channels by
    which another domain may act on it, and local respect.
  \<^item> \<open>Leafmap\<close> (\<open>hv-s2/src/leafmap.rs\<close>, \<open>check.rs\<close>), \<open>Stage2_Desc\<close>, \<open>Stage2_Layout\<close>, \<open>Stage2_Encode\<close>,
    \<open>Stage2_Walk\<close>, \<open>Stage2_Verify\<close>, \<open>Stage2_Regime\<close> (\<open>arm64.rs\<close>), \<open>Smmu\<close> (\<open>smmu.rs\<close>): leaf maps,
    descriptors, address layouts, the encoder, the walk, the read-back check, the translation registers,
    the stream table. \<open>Device_Path\<close> composes them with the core.
  \<^item> \<open>Partition\<close> (\<open>hv-part/src/lib.rs\<close>), \<open>List_Registers\<close>, \<open>Routing\<close>, \<open>Pl011\<close>, \<open>Gicv3\<close>,
    \<open>Gicv3_Access\<close> (\<open>hv-vdev/src\<close>: \<open>vgic_cpuif.rs\<close>, \<open>sgi.rs\<close> and \<open>irouter.rs\<close>, \<open>pl011.rs\<close>, \<open>gicv3.rs\<close>),
    \<open>Pending\<close> (\<open>pending.rs\<close> of \<open>hv-vdev\<close> and \<open>hv-metal\<close>), \<open>Delivery\<close> (\<open>gic.rs\<close>, \<open>linux.rs\<close> and \<open>role.rs\<close> of
    \<open>hv-metal\<close>).
  \<^item> \<open>Virtio\<close> (\<open>hv-metal/src\<close>: \<open>abort.rs\<close>, \<open>virtio.rs\<close>, \<open>blk.rs\<close>), \<open>Virtio_Backend\<close> (\<open>guest.rs\<close> and \<open>GuestMem\<close> of
    \<open>stage2.rs\<close>), \<open>Teardown\<close> (\<open>teardown.rs\<close> and \<open>scrub_frame\<close> of \<open>stage2.rs\<close>): register files and the
    copy-on-write disk; the backend in the state monad over \<open>Metal\<close>; the funnel over \<open>Machine\<close>, with the step
    relation \<open>mstep\<close>.

  \<^bold>\<open>Interfaces.\<close> \<open>slot_table\<close> (reads after writes of a two-level table) is interpreted by event channels,
  scheduler and grants; \<open>machine\<close> and \<open>refusing_machine\<close> (an inductive reachability, an invariant its
  steps keep, refusals that change nothing) by every stateful subsystem and by the integrated core;
  \<open>runs\<close> (half-open runs at a stride that do not meet) three times by the partition; \<open>min_set\<close> by the
  pending set; \<open>ranking\<close> (a search that keeps the best of a transitive comparison) twice by the policy;
  \<open>unicast\<close> by the routing of shared interrupts; \<open>counter_of\<close> by the two delivery counters.

  \<^bold>\<open>What is shown.\<close>
  \<^item> Each subsystem: from a new system, every sequence of operations ends in a consistent state, without a
    panic, and \<open>first_violation\<close> finds nothing. The invariants are stronger than the check: the counts of
    grants and frames are exact, so a state is determined by its offers, live mappings and edges.
  \<^item> The core (this theory): every run of hypercalls stays consistent across subsystems; a refused call
    changes no query's answer; teardown is total and leaves nothing behind; every entry into another
    domain's frame is covered by a live grant; authority is gained and lost, and ownership moves, only by the calls meant for it;
    revocation removes exactly what was delegated beneath an edge; each gate refuses exactly what it should.
  \<^item> Isolation: a step of a domain without a channel to another leaves the other's observation as it was, with
    the one exception that is exhibited by a run.
  \<^item> Stage 2: the walk of the encoded tables is the reading of the layout's windows, for every address; the leaf
    maps hold owned or granted frames only; which decoder accepts which word is settled for every pair; a device reaches what the CPU of the domain that holds it reaches.
  \<^item> Interrupts: injection and drain lose none, a guest's interrupts go to its own vCPUs, accesses to the
    emulated controller change the enables they name. Policy: no proposal is refused, \<open>advance\<close> settles.
  \<^item> Devices and teardown: the disk is one private map per tenant over an immutable template; a register access
    with the queue it kicks ends when a device is active and parks otherwise, and touches guest memory behind
    the grants only, by a relation between two runs; no frame is handed on with a byte of an earlier owner, but for free frames that a grant to the
    backend still names while it serves an access, and a run shows that this exception is real.

  \<^bold>\<open>Bounds and loops.\<close> The release build is modelled: \<open>+\<close> wraps, \<open>debug_assert!\<close> is absent, and an \<open>unwrap\<close>, an
  index out of range and \<open>unreachable!\<close> are the value \<open>Panic\<close> (or \<open>None\<close>), whose absence is proved. Identifiers
  are natural numbers; the casts \<open>as u16\<close> and \<open>as u32\<close> are written out, and the constructors' argument types give
  the hypotheses of \<open>hv_start\<close>: fewer than \<open>2^16\<close> domains, fewer than \<open>2^32\<close> ports, grants, vCPUs, pCPUs and
  frames. Registers and addresses are machine words. Three loops may run forever in principle and are partial
  functions into \<open>option\<close>, each shown to return: the search for a grant handle (when fewer than \<open>2^32\<close> mappings
  are live), the sweep of orphaned control edges (each pass removes one), the device loop of the encoder (for a
  validated layout). The fuel of \<open>po_drive\<close> is the source's own safety limit; it suffices for a non-zero time
  slice and \<open>Policy_Stall\<close> shows that it does not for zero. The loops over a virtqueue end because the 16-bit
  distance of the cursors falls. Shares are exact below \<open>2^96\<close> ticks of service.

  \<^bold>\<open>Divergences found.\<close> The sources' comments promise more than the code does in these places, each with a theorem:
  an affinity mask and a credit balance survive the slot's next tenant (\<open>sched_stale_affinity\<close>,
  \<open>hv_credit_survives\<close>); \<open>advance\<close> with a zero time slice stalls (\<open>policy_stall_quantum_zero\<close>) and a wake can
  lower a share (\<open>policy_wake_drags_down\<close>); an interrupt can occupy two list registers
  (\<open>delivery_duplicates\<close>); a needle that overlaps itself is missed (\<open>needle_overlap_missed\<close>); of two leaves for
  one frame the last wins (\<open>leaf_map_last_wins\<close>); frame addresses above 48 bits are cut
  (\<open>frame_address_cut\<close>); the read-back check passes live slots it does not decode (\<open>verify_misses_block\<close>); a
  grant row for a frame its domain does not own shows the frame's owner's teardown (\<open>local_respect_fails\<close>); the
  virtio backend honours a grant of a frame the grantor does not own (\<open>dma_crosses_owner\<close>) or has freed
  (\<open>stale_grant_inherits\<close>); the console is not reset by a zero \<open>Status\<close> (\<open>console_zero_status_keeps\<close>) and a
  queue is live without the handshake (\<open>live_without_features\<close>).

  \<^bold>\<open>Not modelled.\<close> The rest of \<open>hv-metal\<close> (system registers, exception entry, cache maintenance, log lines,
  hardware and firmware I/O, guest images and the phases of the boot test), \<open>fvp-probe\<close> and \<open>board-probe\<close>: their effect is on hardware the sources do not
  describe. \<open>hv-hal\<close> declares traits only. The scenarios and the enumerators of \<open>hv-sim\<close>, the targets of \<open>hv-fuzz\<close>
  and the harnesses of \<open>hv-verify\<close> drive the modelled operations and check instances of what is proved here;
  \<open>xtask\<close> runs builds and tests. Atomics and interrupts of the runtime are not interleaved: each modelled structure
  is used by one CPU at a time, as the sources say.
\<close>

section \<open>Shared facts of the integrated properties\<close>

lemma hv_apply_state:
  assumes "hv_ok h"
  shows "\<not> is_live h d \<Longrightarrow> snd (hv_apply h (Guest d call)) = h"
    "is_live h d \<Longrightarrow> snd (hv_apply h (Guest d call)) = snd (hv_call h d call)"
    "snd (hv_apply h (RaiseVcpuVirq d v q)) = snd (raise_vcpu_virq h d v q)"
  using route_cases [OF assms, of d call] by (auto simp: hv_apply_def dispatch_def)

lemma controls_below: "ctl_below (controls h) (controls h') \<Longrightarrow> hv_controls h' a b \<Longrightarrow> hv_controls h a b"
  by (metis ctl_below_def hv_controls_eq)

text \<open>The authority queries after each accepted lifecycle call.\<close>

lemma create_queries:
  assumes ok: "hv_ok h" and t: "t < hv_domain_count h" "d < hv_domain_count h"
    and e: "h' = h\<lparr>life := (life h)[t := Live], may_create := (may_create h)[t := may],
              controls := tbl_set (controls h) d t Root\<rparr>"
  shows "hv_controls h' a b \<longleftrightarrow> hv_controls h a b \<or> a = d \<and> b = t"
    "hv_may_create h' a \<longleftrightarrow> (if a = t then may else hv_may_create h a)"
    "is_live h' a \<longleftrightarrow> a = t \<or> is_live h a"
proof -
  show "hv_controls h' a b \<longleftrightarrow> hv_controls h a b \<or> a = d \<and> b = t"
    using t by (auto simp: e hv_controls_eq ctl_edge_set [OF hv_okD(7) [OF ok]])
  show "hv_may_create h' a \<longleftrightarrow> (if a = t then may else hv_may_create h a)"
    using t hv_okD(19) [OF ok] by (simp add: e hv_may_create_eq vec_get_update)
  show "is_live h' a \<longleftrightarrow> a = t \<or> is_live h a"
    using t hv_okD(18) [OF ok] by (simp add: e is_live_def vec_get_update)
qed

lemma destroyed_queries:
  assumes ok: "hv_ok h" and t: "t < hv_domain_count h" and D: "destroyed t h h'"
  shows "hv_controls h' a b \<Longrightarrow> hv_controls h a b" "hv_may_create h' a \<Longrightarrow> hv_may_create h a"
    "is_live h' a \<longleftrightarrow> a \<noteq> t \<and> is_live h a" "a \<noteq> t \<Longrightarrow> hv_may_create h' a \<longleftrightarrow> hv_may_create h a"
proof -
  show "hv_controls h' a b \<Longrightarrow> hv_controls h a b" using D controls_below unfolding destroyed_def by blast
  show "hv_may_create h' a \<Longrightarrow> hv_may_create h a"
    using D t hv_okD(19) [OF ok] by (auto simp: destroyed_def hv_may_create_eq vec_get_update split: if_splits)
  show "a \<noteq> t \<Longrightarrow> hv_may_create h' a \<longleftrightarrow> hv_may_create h a"
    using D t hv_okD(19) [OF ok] by (simp add: destroyed_def hv_may_create_eq vec_get_update)
  show "is_live h' a \<longleftrightarrow> a \<noteq> t \<and> is_live h a"
    using D t hv_okD(18) [OF ok] by (auto simp: destroyed_def is_live_def vec_get_update split: if_splits)
qed

lemma delegate_queries:
  assumes ok: "hv_ok h" and t: "t < hv_domain_count h" "to < hv_domain_count h"
  shows "hv_controls (h\<lparr>controls := tbl_set (controls h) to t (Via d)\<rparr>) a b \<longleftrightarrow> hv_controls h a b \<or> a = to \<and> b = t"
  using t by (auto simp: hv_controls_eq ctl_edge_set [OF hv_okD(7) [OF ok]])

lemma controls_set_queries [simp]:
  "hv_may_create (h\<lparr>controls := c\<rparr>) a \<longleftrightarrow> hv_may_create h a" "is_live (h\<lparr>controls := c\<rparr>) a \<longleftrightarrow> is_live h a"
  by (simp_all add: hv_may_create_eq is_live_def)

text \<open>What a transition that is not a lifecycle call leaves of authority and lifecycle.\<close>

lemma authority_kept:
  assumes h: "hv_ok h" and "\<And>d call. tr = Guest d call \<Longrightarrow> is_live h d \<Longrightarrow> \<not> lifecycle_call call"
  shows "same_authority h (snd (hv_apply h tr))"
proof (cases tr)
  case (Guest d call)
  then show ?thesis
    using assms(2) [OF Guest] hv_call_authority [of call h d] hv_apply_state(1,2) [OF h, of d call]
    by (cases "is_live h d") simp_all
next
  case (RaiseVcpuVirq d v q)
  then show ?thesis using signal_authority(3) [of h d v q] hv_apply_state(3) [OF h] by (simp add: yields_def)
qed

lemma same_authority_queries:
  assumes "same_authority h h'"
  shows "hv_controls h' = hv_controls h" "hv_may_create h' = hv_may_create h" "is_live h' = is_live h"
  using assms by (auto simp: same_authority_def fun_eq_iff hv_controls_eq hv_may_create_eq is_live_def)

lemma sc_wake_states:
  "sc_state_of (snd (sc_wake s d v)) d' v' =
     (if (d', v') = (d, v) \<and> sc_state_of s d v = Some Blocked then Some Runnable else sc_state_of s d' v')"
  by (auto simp: sc_wake_def propagate_def sc_state_of_eq sc.get_put sc_vcpu_eq split: option.splits result.splits)

text \<open>Cutting one edge unroots exactly what descends from it.\<close>

lemma rooted_cut:
  assumes sq: "ctl_square n c" and f: "ctl_forest c" and r: "frm < n" "t < n"
  shows "(\<exists>k. rooted (tbl_set c frm t Absent) b k a) \<longleftrightarrow> ctl_edge c a b \<noteq> Absent \<and> \<not> (b = t \<and> descends c t frm a)"
proof -
  note cut = ctl_edge_set [OF sq r]
  have "ctl_edge c a b \<noteq> Absent \<and> \<not> (b = t \<and> descends c t frm a)" if "rooted (tbl_set c frm t Absent) b k a" for k
    using that
  proof (induction rule: rooted.induct)
    case (rooted_root h)
    then show ?case by (auto simp: cut split: if_splits elim: descends.cases)
  next
    case (rooted_via h p k)
    then show ?case by (auto simp: cut split: if_splits elim: descends.cases)
  qed
  moreover have "\<exists>k. rooted (tbl_set c frm t Absent) b k a" if "rooted c b k a" "\<not> (b = t \<and> descends c t frm a)" for k
    using that
  proof (induction rule: rooted.induct)
    case (rooted_root h)
    then have "ctl_edge (tbl_set c frm t Absent) h b = Root" by (auto simp: cut intro: descends_self)
    then show ?case by (blast intro: rooted.rooted_root)
  next
    case (rooted_via h p k)
    then have "ctl_edge (tbl_set c frm t Absent) h b = Via p" "\<not> (b = t \<and> descends c t frm p)"
      by (auto simp: cut intro: descends_self descends_via)
    then show ?case using rooted_via.IH by (blast intro: rooted.rooted_via)
  qed
  ultimately show ?thesis using f unfolding ctl_forest_def by blast
qed

text \<open>Clearing the row and the column of a domain unroots exactly what descends from it, in every tree.\<close>

lemma rooted_clear:
  assumes f: "ctl_forest c" and c1: "\<And>h k. ctl_edge c1 h k = (if h = t \<or> k = t then Absent else ctl_edge c h k)"
  shows "(\<exists>k. rooted c1 b k a) \<longleftrightarrow> ctl_edge c a b \<noteq> Absent \<and> b \<noteq> t \<and> \<not> descends c b t a"
proof -
  have "ctl_edge c a b \<noteq> Absent \<and> b \<noteq> t \<and> \<not> descends c b t a" if "rooted c1 b k a" for k
    using that by (induction rule: rooted.induct) (auto simp: c1 split: if_splits elim: descends.cases)
  moreover have "\<exists>k. rooted c1 b k a" if "rooted c b k a" "b \<noteq> t" "\<not> descends c b t a" for k
    using that
  proof (induction rule: rooted.induct)
    case (rooted_root h)
    then have "ctl_edge c1 h b = Root" by (auto simp: c1 intro: descends_self)
    then show ?case by (blast intro: rooted.rooted_root)
  next
    case (rooted_via h p k)
    then have "ctl_edge c1 h b = Via p" "\<not> descends c b t p" by (auto simp: c1 intro: descends_self descends_via)
    then show ?case using rooted_via.IH rooted_via.prems(1) by (blast intro: rooted.rooted_via)
  qed
  ultimately show ?thesis using f unfolding ctl_forest_def by blast
qed

lemma destroy_resources_authority:
  "destroy_resources h t now = Some h1 \<Longrightarrow> controls h1 = controls h \<and> hv_domain_count h1 = hv_domain_count h"
  by (auto simp: destroy_resources_def hv_domain_count_def bind_eq_Some_conv split: prod.splits)

lemma destroyed_edges:
  assumes ok: "hv_ok h" and t: "t < hv_domain_count h" and r: "domain_destroy h d t now = (Ok Done, h')"
  shows "hv_controls h' a b \<longleftrightarrow> hv_controls h a b \<and> b \<noteq> t \<and> \<not> descends (controls h) b t a"
proof -
  from destroy_effect [OF ok t, of now] obtain h1 h2 where
    h2: "destroy_resources h t now = Some h1" "destroy_authority h1 t = Some h2" by blast
  then have "h' = h2" using r by (auto simp: domain_destroy_def Let_def need_control_def or_panic_def split: if_splits option.splits)
  note sq = hv_okD(7) [OF ok] and f = hv_okD(6) [OF ok] and k = destroy_resources_authority [OF h2(1)]
  from ctl_clear_effect [OF sq t] obtain c1 where
    c1: "ctl_clear (hv_domain_count h) t (controls h) = Some c1" "ctl_square (hv_domain_count h) c1"
      "\<And>a k. ctl_edge c1 a k = (if a = t \<or> k = t then Absent else ctl_edge (controls h) a k)" by blast
  have "ctl_below (controls h) c1" by (simp add: ctl_below_def c1(3))
  from sweep_restores [OF f sq c1(2) this] obtain c2 where
    c2: "sweep_orphaned_control_edges (hv_domain_count h) c1 = Some c2"
      "\<And>a b. ctl_edge c2 a b \<noteq> Absent \<longleftrightarrow> (\<exists>k. rooted c1 b k a)" by blast
  have "controls h' = c2" using \<open>h' = h2\<close> h2(2) k c1(1) c2(1) by (auto simp: destroy_authority_def split: if_splits)
  then show ?thesis using c2(2) rooted_clear [OF f c1(3)] by (simp add: hv_controls_eq)
qed

lemma destroy_loses:
  assumes ok: "hv_ok h" and d: "d < hv_domain_count h" and h': "h' = snd (domain_destroy h d t now)"
  shows "hv_controls h' a b \<Longrightarrow> hv_controls h a b" "hv_may_create h' a \<Longrightarrow> hv_may_create h a" "is_live h' a \<Longrightarrow> is_live h a"
    "is_live h a \<Longrightarrow> \<not> is_live h' a \<Longrightarrow> a = t \<and> (d = t \<or> hv_controls h d t)"
    "hv_may_create h a \<Longrightarrow> \<not> hv_may_create h' a \<Longrightarrow> a = t \<and> (d = t \<or> hv_controls h d t)"
    "hv_controls h a b \<Longrightarrow> \<not> hv_controls h' a b \<Longrightarrow> (b = t \<or> descends (controls h) b t a) \<and> (d = t \<or> hv_controls h d t)"
proof -
  have cases: "h' = h \<or> t < hv_domain_count h \<and> (d = t \<or> hv_controls h d t) \<and> destroyed t h h' \<and> domain_destroy h d t now = (Ok Done, h')"
  proof (cases "t < hv_domain_count h \<and> (d = t \<or> hv_controls h d t)")
    case True
    with domain_destroy_cases [OF ok d, of t now] obtain h2 where "domain_destroy h d t now = (Ok Done, h2)" "destroyed t h h2" by auto
    with h' True show ?thesis by simp
  next
    case False
    with domain_destroy_cases [OF ok d, of t now] have "snd (domain_destroy h d t now) = h" by (simp only: if_False snd_conv)
    with h' show ?thesis by simp
  qed
  show "hv_controls h' a b \<Longrightarrow> hv_controls h a b" using cases by (auto dest: destroyed_queries(1) [OF ok])
  show "hv_may_create h' a \<Longrightarrow> hv_may_create h a" using cases by (auto dest: destroyed_queries(2) [OF ok])
  show "is_live h' a \<Longrightarrow> is_live h a" using cases destroyed_queries(3) [OF ok, of t h' a] by auto
  show "is_live h a \<Longrightarrow> \<not> is_live h' a \<Longrightarrow> a = t \<and> (d = t \<or> hv_controls h d t)"
    using cases destroyed_queries(3) [OF ok, of t h' a] by auto
  show "hv_may_create h a \<Longrightarrow> \<not> hv_may_create h' a \<Longrightarrow> a = t \<and> (d = t \<or> hv_controls h d t)"
    using cases destroyed_queries(4) [OF ok, of t h' a] by auto
  show "hv_controls h a b \<Longrightarrow> \<not> hv_controls h' a b \<Longrightarrow> (b = t \<or> descends (controls h) b t a) \<and> (d = t \<or> hv_controls h d t)"
    using cases destroyed_edges [OF ok, of t d now h' a b] by auto
qed

lemma revoke_loses:
  assumes ok: "hv_ok h" and d: "d < hv_domain_count h" and h': "h' = snd (control_revoke h d t frm)"
  shows "hv_may_create h' = hv_may_create h" "is_live h' = is_live h" "hv_controls h' a b \<Longrightarrow> hv_controls h a b"
    "hv_controls h a b \<Longrightarrow> \<not> hv_controls h' a b \<Longrightarrow>
       b = t \<and> hv_controls h d t \<and> descends (controls h) t d frm \<and> descends (controls h) t frm a"
proof -
  let ?P = "t < hv_domain_count h \<and> frm < hv_domain_count h \<and> hv_controls h d t \<and> descends (controls h) t d frm"
  have e: "h' = h \<or> ?P \<and> (\<exists>c. h' = h\<lparr>controls := c\<rparr> \<and> ctl_below (controls h) c \<and>
      (\<forall>a b. ctl_edge c a b \<noteq> Absent \<longleftrightarrow> (\<exists>k. rooted (tbl_set (controls h) frm t Absent) b k a)))"
    using control_revoke_cases [OF ok d, of t frm] h' by (auto split: if_splits)
  then show "hv_may_create h' = hv_may_create h" "is_live h' = is_live h" "hv_controls h' a b \<Longrightarrow> hv_controls h a b"
    using controls_below [of h h'] by (auto simp: fun_eq_iff)
  show "b = t \<and> hv_controls h d t \<and> descends (controls h) t d frm \<and> descends (controls h) t frm a"
    if lost: "hv_controls h a b" "\<not> hv_controls h' a b"
  proof -
    from e lost obtain c where p: ?P and c: "h' = h\<lparr>controls := c\<rparr>"
      "\<forall>a b. ctl_edge c a b \<noteq> Absent \<longleftrightarrow> (\<exists>k. rooted (tbl_set (controls h) frm t Absent) b k a)" by blast
    have "b = t \<and> descends (controls h) t frm a"
      using lost c(2) rooted_cut [OF hv_okD(7,6) [OF ok], of frm t b a] p by (simp add: c(1) hv_controls_eq)
    with p show ?thesis by blast
  qed
qed

section \<open>The integrated core\<close>

text \<open>
  C1: from any initial state with fewer than \<open>2^16\<close> domains and \<open>2^32\<close> ports, grants, vCPUs, pCPUs and
  frames, any sequence of hypercalls and virtual interrupts, by any callers and with any
  arguments, leads to a state in which every subsystem check and the whole cross-subsystem check
  of the source pass; and no transition panics as long as fewer than \<open>2^32\<close> have been made.
\<close>

theorem hv_runs_consistent:
  assumes "hv_start h0" and "h = hv_run trs h0"
  shows "hv_invariants_hold h \<and> (length trs < u32_size \<longrightarrow> fst (hv_apply h tr) \<noteq> Panic)"
proof (intro conjI impI)
  have ok: "hv_ok h" using hv_run_ok [OF assms(1)] assms(2) by simp
  then show "hv_invariants_hold h" by (rule hv_ok_checked)
  assume "length trs < u32_size"
  then have "hv_maps h < u32_size"
    using hv_run_maps [OF hvm.start_inv [OF assms(1)], of trs] hv_start_maps [OF assms(1)] assms(2) by simp
  from hv_apply_good [OF ok this, of tr] show "fst (hv_apply h tr) \<noteq> Panic" by (simp add: hv_good_def)
qed

theorem hv_runs_consistent_witness:
  "\<exists>h. h = hv_run [Guest 0 (DomainCreate 1 False), Guest 0 (P2mAllocate 0), Guest 0 (GrantAccess 0 1 0 False),
       Guest 1 (GrantMap 0 0 True), Guest 0 (DomainDestroy 1 5)] (hv_new 2 2 2 1 1 2 1) \<and>
     life_of h 1 = Some Dead \<and> pm_refs (p2m h) 0 = Some 0 \<and>
     hv_invariants_hold h \<and> fst (hv_apply h (Guest 1 (GrantUnmap 0))) \<noteq> Panic"
proof -
  define trs where "trs = [Guest 0 (DomainCreate 1 False), Guest 0 (P2mAllocate 0), Guest 0 (GrantAccess 0 1 0 False),
       Guest 1 (GrantMap 0 0 True), Guest 0 (DomainDestroy 1 5)]"
  have "hv_start (hv_new 2 2 2 1 1 2 1)" by (rule hv_startI) simp_all
  from hv_runs_consistent [OF this refl, of trs "Guest 1 (GrantUnmap 0)"]
  have "hv_invariants_hold (hv_run trs (hv_new 2 2 2 1 1 2 1)) \<and>
     fst (hv_apply (hv_run trs (hv_new 2 2 2 1 1 2 1)) (Guest 1 (GrantUnmap 0))) \<noteq> Panic"
    by (simp add: trs_def)
  moreover have "life_of (hv_run trs (hv_new 2 2 2 1 1 2 1)) 1 = Some Dead \<and>
     pm_refs (p2m (hv_run trs (hv_new 2 2 2 1 1 2 1))) 0 = Some 0"
    unfolding trs_def by code_simp
  ultimately show ?thesis unfolding trs_def by blast
qed

text \<open>
  C2: a domain may always be torn down by itself or by a domain that controls it, whatever foreign
  mappings and page-table entries stand over its frames. Teardown succeeds, leaves a dead, empty
  slot that nothing refers to and that is on no control edge, takes exactly its frames back, and
  leaves the grants between other domains as they were, counts included.
\<close>

theorem hv_destroy_total:
  assumes "hv_start h0" and "h = hv_run trs h0" and "is_live h d" and "t < hv_domain_count h"
    and "d = t \<or> hv_controls h d t"
  shows "\<exists>h'. dispatch h d (DomainDestroy t now) = (Ok Done, h') \<and> hv_invariants_hold h' \<and>
     life_of h' t = Some Dead \<and> is_clean_shell h' t \<and> is_unreferenced h' t \<and> \<not> hv_may_create h' t \<and>
     (\<forall>a. \<not> hv_controls h' a t \<and> \<not> hv_controls h' t a) \<and>
     (\<forall>m. pm_owner_of (p2m h') m = (if pm_owner_of (p2m h) m = Some t then None else pm_owner_of (p2m h) m)) \<and>
     (\<forall>a k r. a \<noteq> t \<and> gt_grantee_of (grant h) a k = Some r \<and> r \<noteq> t \<longrightarrow>
        gt_grant_entry (grant h') a k = gt_grant_entry (grant h) a k)"
proof -
  have ok: "hv_ok h" using hv_run_ok [OF assms(1)] assms(2) by simp
  note live = is_live_facts [OF ok assms(3)]
  from domain_destroy_cases [OF ok live(1), of t now] assms(4,5) obtain h' where
    r: "domain_destroy h d t now = (Ok Done, h')" and D: "destroyed t h h'" by auto
  have ok': "hv_ok h'" using D by (simp add: destroyed_def)
  have dead': "dead (life h') t" using D assms(4) hv_okD(18) [OF ok] by (simp add: destroyed_def dead_def vec_get_update)
  have "gt_grant_entry (grant h') a k = gt_grant_entry (grant h) a k"
    if a: "a \<noteq> t" "gt_grantee_of (grant h) a k = Some r" "r \<noteq> t" for a k r
  proof -
    from a(2) obtain f ro n w where e: "gt_get (grant h) a k = Some (Access r f ro n w)"
      by (auto simp: gt_grantee_of_iff gt_offer_Some)
    have "gt_offer (grant h') a k = Some (r, f, ro)"
      using D a e by (simp add: destroyed_def gt_without_def gt_offer_def)
    then obtain n' w' where e': "gt_get (grant h') a k = Some (Access r f ro n' w')" by (auto simp: gt_offer_Some)
    have named: "m_grantee m = r" if "m \<in># gt_live (grant h)" "gt_over a k m" for m
      using gt_ok_live_get [OF hv_okD(3) [OF ok] that(1)] that(2) e by (auto simp: gt_over_def)
    have sub: "filter_mset (\<lambda>m. gt_over a k m \<and> Q m) (gt_live (grant h')) = filter_mset (\<lambda>m. gt_over a k m \<and> Q m) (gt_live (grant h))" for Q
      using D a named unfolding destroyed_def filter_filter_mset
      by (auto simp: filter_filter_mset gt_over_def intro!: filter_mset_cong)
    have "n' = n" "w' = w"
      using gt_ok_entry(2,3) [OF hv_okD(3) [OF ok] e] gt_ok_entry(2,3) [OF hv_okD(3) [OF ok'] e']
        sub [of "\<lambda>_. True"] sub [of m_writable] by simp_all
    then show ?thesis using e e' by (simp add: gt_grant_entry_def gt_entry_eq)
  qed
  moreover have "\<not> hv_controls h' a t \<and> \<not> hv_controls h' t a" for a
    using hv_okD(14) [OF ok'] dead' unfolding ctl_tenants_def hv_controls_eq by blast
  moreover have "\<not> hv_may_create h' t"
    using hv_okD(13) [OF ok'] dead' unfolding mc_tenants_def hv_may_create_eq by blast
  ultimately show ?thesis
    using r D dead' dead_clean [OF ok' dead'] hv_ok_checked(2) [OF ok'] live(3) [of "DomainDestroy t now"]
    by (auto simp: destroyed_def dead_def life_of_def)
qed

theorem hv_destroy_total_witness:
  "\<exists>h h'. is_live h 0 \<and> hv_controls h 0 1 \<and> pm_owner_of (p2m h) 0 = Some 1 \<and> gt_holds_any_map (grant h) 0 \<and>
     dispatch h 0 (DomainDestroy 1 5) = (Ok Done, h') \<and> is_clean_shell h' 1 \<and> is_unreferenced h' 1 \<and>
     pm_owner_of (p2m h') 0 = None"
proof -
  define h where "h = hv_run [Guest 0 (DomainCreate 1 False), Guest 1 (P2mAllocate 0), Guest 1 (GrantAccess 0 0 0 False),
       Guest 0 (GrantMap 1 0 True)] (hv_new 2 2 2 1 1 2 1)"
  have start: "hv_start (hv_new 2 2 2 1 1 2 1)" by (rule hv_startI) simp_all
  have c: "is_live h 0" "1 < hv_domain_count h" "0 = (1::nat) \<or> hv_controls h 0 1" "pm_owner_of (p2m h) 0 = Some 1"
    "gt_holds_any_map (grant h) 0" unfolding h_def by code_simp+
  from hv_destroy_total [OF start h_def c(1,2,3), of 5] c show ?thesis by auto
qed

text \<open>
  C3: a refused transition is invisible: after an error every query of every subsystem answers as
  before, for every error path, also those on which a handler had begun to change the state and
  rolled it back (a mapping whose page refuses its type, a link whose table is full of references).
  Credit, event channels, scheduler, devices, lifecycle and control are the same states, so no query
  of them can differ. Of page frames and grants every public query is named, each for every argument
  (\<open>same_p2m_answers\<close>, with the typed counts and what could be acquired; \<open>same_grant_answers\<close>), and
  so is the cross-subsystem check.
\<close>

theorem hv_refusal_invisible:
  assumes "hv_start h0" and "h = hv_run trs h0" and "hv_apply h tr = (Err e, h')"
  shows "credit h' = credit h \<and> evtchn h' = evtchn h \<and> sched h' = sched h \<and> device h' = device h \<and>
     life h' = life h \<and> may_create h' = may_create h \<and> controls h' = controls h \<and>
     gt_domains (grant h') = gt_domains (grant h) \<and>
     (\<forall>r hn. gt_mapping_at (grant h') r hn = gt_mapping_at (grant h) r hn) \<and>
     pm_link_edges (p2m h') = pm_link_edges (p2m h) \<and>
     (\<forall>m. pm_owner_of (p2m h') m = pm_owner_of (p2m h) m \<and> pm_refs (p2m h') m = pm_refs (p2m h) m \<and>
        pm_executable_refs (p2m h') m = pm_executable_refs (p2m h) m \<and>
        pm_current_type (p2m h') m = pm_current_type (p2m h) m \<and> pm_is_pinned (p2m h') m = pm_is_pinned (p2m h) m) \<and>
     same_p2m_answers (p2m h) (p2m h') \<and> same_grant_answers (grant h) (grant h') \<and>
     first_cross_violation h' = first_cross_violation h"
proof -
  have ok: "hv_ok h" using hv_run_ok [OF assms(1)] assms(2) by simp
  have ok': "hv_ok h'" using hv_apply_kept [OF ok, of tr] assms(3) by simp
  have same: "hv_same h h'" using hv_apply_refused [OF ok assms(3)] .
  note answers = hv_same_answers [OF same ok ok']
  then have "pm_owner_of (p2m h') m = pm_owner_of (p2m h) m \<and> pm_refs (p2m h') m = pm_refs (p2m h) m \<and>
        pm_executable_refs (p2m h') m = pm_executable_refs (p2m h) m \<and>
        pm_current_type (p2m h') m = pm_current_type (p2m h) m \<and> pm_is_pinned (p2m h') m = pm_is_pinned (p2m h) m"
    "pm_link_edges (p2m h') = pm_link_edges (p2m h)" "gt_mapping_at (grant h') r hn = gt_mapping_at (grant h) r hn" for m r hn
    by (simp_all add: same_p2m_answers_def same_grant_answers_def)
  with answers same show ?thesis by (simp add: hv_same_def)
qed

theorem hv_refusal_invisible_witness:
  "\<exists>h h'. hv_apply h (Guest 1 (GrantMap 0 0 True)) = (Err (P2m P2mError.TypePinned), h') \<and>
     gt_map_count (grant h) 0 0 = Some 0 \<and> gt_domains (grant h') = gt_domains (grant h) \<and> p2m h' = p2m h \<and>
     pm_refs (p2m h') 0 = pm_refs (p2m h) 0 \<and> same_p2m_answers (p2m h) (p2m h')"
proof -
  define h where "h = hv_run [Guest 0 (DomainCreate 1 False), Guest 0 (P2mAllocate 0), Guest 0 (P2mPin 0 L1),
       Guest 0 (GrantAccess 0 1 0 False)] (hv_new 2 2 2 1 1 2 1)"
  have start: "hv_start (hv_new 2 2 2 1 1 2 1)" by (rule hv_startI) simp_all
  have c: "hv_apply h (Guest 1 (GrantMap 0 0 True)) =
      (Err (P2m P2mError.TypePinned), snd (hv_apply h (Guest 1 (GrantMap 0 0 True)))) \<and> gt_map_count (grant h) 0 0 = Some 0 \<and>
      p2m (snd (hv_apply h (Guest 1 (GrantMap 0 0 True)))) = p2m h"
    unfolding h_def by code_simp
  from hv_refusal_invisible [OF start h_def conjunct1 [OF c]] c show ?thesis by blast
qed

text \<open>
  C4: no domain reaches the memory of another through its page tables without consent. In every
  reachable state a page-table entry from a table of \<open>b\<close> to a frame of another domain \<open>a\<close> is
  covered by a grant of \<open>a\<close> to \<open>b\<close> for that very frame, with write permission when the entry is
  writable, and \<open>a\<close> cannot end any such grant while the entry stands.
\<close>

theorem hv_foreign_links_consented:
  assumes "hv_start h0" and "h = hv_run trs h0" and "(p, i, c, w, lf, x) \<in> set (pm_link_edges (p2m h))"
    and "pm_owner_of (p2m h) c = Some a" and "pm_owner_of (p2m h) p = Some b" and "a \<noteq> b"
  shows "(\<exists>k. gt_grantee_of (grant h) a k = Some b \<and> gt_granted_frame (grant h) a k = Some c \<and>
       gt_copy (grant h) b a k w = Ok ()) \<and>
     (\<forall>k. gt_grantee_of (grant h) a k = Some b \<and> gt_granted_frame (grant h) a k = Some c \<longrightarrow>
       dispatch h a (GrantEndAccess k) = (Err (Grant GrantError.InUse), h))"
proof -
  have ok: "hv_ok h" using hv_run_ok [OF assms(1)] assms(2) by simp
  from assms(3) obtain l where l: "l \<in># pm_live (p2m h)" "l_parent l = p" "l_child l = c" "l_writable l = w"
    by (auto simp: pm_link_edges_iff)
  then have "gt_authorizes (grant h) a b c w"
    using hv_okD(17) [OF ok] assms(4-6) unfolding seam_links_def by blast
  then obtain k ro where k: "gt_offer (grant h) a k = Some (b, c, ro)" "w \<longrightarrow> \<not> ro" by (auto simp: gt_authorizes_iff)
  then obtain n wn where e: "gt_get (grant h) a k = Some (Access b c ro n wn)" by (auto simp: gt_offer_Some)
  have first: "gt_grantee_of (grant h) a k = Some b \<and> gt_granted_frame (grant h) a k = Some c \<and> gt_copy (grant h) b a k w = Ok ()"
    using k e by (simp add: gt_grantee_of_iff gt_granted_frame_iff gt_copy_def gt_entry_eq)
  have "\<not> dead (life h) a" using hv_okD(11) [OF ok] assms(4) unfolding pm_tenants_def by blast
  moreover have "a < hv_domain_count h"
    using hv_okD(4,22) [OF ok] assms(4) by (auto simp: pm_ok_def pm_counts_def pm_query_simps)
  ultimately have "is_live h a" using not_dead_live [OF ok] by blast
  note live = is_live_facts(3) [OF ok this]
  have "pm_is_foreign_linked_by (p2m h) c b"
    using l assms(4-6) unfolding pm_foreign_linked_by_iff by auto
  with first live show ?thesis by (auto simp: grant_end_access_def)
qed

theorem hv_foreign_links_consented_witness:
  "\<exists>h. (0, 3, 1, True, True, False) \<in> set (pm_link_edges (p2m h)) \<and> pm_owner_of (p2m h) 1 = Some 1 \<and>
     pm_owner_of (p2m h) 0 = Some 0 \<and> (\<exists>k. gt_grantee_of (grant h) 1 k = Some 0 \<and> gt_granted_frame (grant h) 1 k = Some 1) \<and>
     dispatch h 1 (GrantEndAccess 0) = (Err (Grant GrantError.InUse), h)"
proof -
  define h where "h = hv_run [Guest 0 (DomainCreate 1 False), Guest 0 (P2mAllocate 0), Guest 1 (P2mAllocate 1), Guest 0 (P2mPin 0 L1),
       Guest 1 (GrantAccess 0 0 1 False), Guest 0 (P2mLink 0 3 1 True True False)] (hv_new 2 2 2 1 1 2 1)"
  have start: "hv_start (hv_new 2 2 2 1 1 2 1)" by (rule hv_startI) simp_all
  have c: "(0, 3, 1, True, True, False) \<in> set (pm_link_edges (p2m h)) \<and> pm_owner_of (p2m h) 1 = Some 1 \<and>
     pm_owner_of (p2m h) 0 = Some 0 \<and> gt_grantee_of (grant h) 1 0 = Some 0 \<and> gt_granted_frame (grant h) 1 0 = Some 1"
    unfolding h_def by code_simp
  from hv_foreign_links_consented [OF start h_def, of 0 3 1 True True False 1 0] c show ?thesis by auto
qed

text \<open>
  C5: a live grant mapping is backed. In every reachable state the frame under a mapping belongs to
  the grantor, a writable mapping makes it a writable page that nobody executes, the grantor cannot
  free it, and the holder can release the mapping.
\<close>

theorem hv_mapping_backed:
  assumes "hv_start h0" and "h = hv_run trs h0" and "gt_mapping_at (grant h) r hn = Some (d, k, w)"
  shows "\<exists>f. gt_granted_frame (grant h) d k = Some f \<and> pm_owner_of (p2m h) f = Some d \<and>
     (w \<longrightarrow> pm_current_type (p2m h) f = Some PageType.Writable \<and> pm_executable_refs (p2m h) f = Some 0) \<and>
     dispatch h d (P2mFree f) = (Err (P2m P2mError.InUse), h) \<and>
     (\<exists>h'. dispatch h r (GrantUnmap hn) = (Ok Done, h') \<and> gt_mapping_at (grant h') r hn = None)"
proof -
  have ok: "hv_ok h" using hv_run_ok [OF assms(1)] assms(2) by simp
  note gok = hv_okD(3) [OF ok] and pok = hv_okD(4) [OF ok]
  from assms(3) obtain m where f: "find (\<lambda>m. active m \<and> m_grantee m = r \<and> m_handle m = hn) (gt_maps (grant h)) = Some m"
    and m': "m_grantor m = d" "m_gref m = k" "m_writable m = w" by (auto simp: gt_mapping_at_def)
  note m = gt_find_Some [OF f]
  then have live: "m \<in># gt_live (grant h)" and named: "gt_named r hn m" by blast+
  then have gr: "m_grantee m = r" by (simp add: gt_named_def)
  from gt_ok_live_get [OF gok live] obtain f ro where off: "gt_offer (grant h) d k = Some (r, f, ro)"
    by (auto simp: m' gr gt_offer_Some)
  have rel: "gt_released (grant h) m = \<lparr>um_frame = f, um_writable = w\<rparr>" using off by (simp add: gt_released_def m')
  have own: "pm_owner_of (p2m h) f = Some d" using hv_okD(16) [OF ok] live rel m' by (auto simp: seam_maps_def)
  then obtain i where i: "pm_info (p2m h) f = Some i" "owner i = d" by (auto simp: pm_query_simps)
  have ref: "(f, if w then Typed Writable else Bare) \<in># gt_refs (grant h)"
    using live rel by (force simp: gt_refs_def map_ref_def)
  have ex: "pm_exact (gt_refs (grant h) + pm_owed (p2m h)) f i" using pok i by (simp add: pm_ok_def pm_counts_def)
  have "refs i > 0"
    using ex ref pm_total_0 [of "gt_refs (grant h) + pm_owed (p2m h)" f] by (fastforce simp: pm_exact_def)
  then have free: "pm_free (p2m h) d f = (Err P2mError.InUse, p2m h)" using i by (simp add: pm_free_eq)
  have wr: "pm_current_type (p2m h) f = Some PageType.Writable \<and> pm_executable_refs (p2m h) f = Some 0" if w
  proof -
    have "writable_refs i > 0" using ex ref that by (auto simp: pm_exact_def)
    then have "executable_refs i = 0" using ex by (auto simp: pm_exact_def)
    then show ?thesis using i \<open>writable_refs i > 0\<close> by (simp add: pm_current_type_eq pm_executable_refs_def pm_frame_info)
  qed
  from off obtain n wn where e: "gt_get (grant h) d k = Some (Access r f ro n wn)" by (auto simp: gt_offer_Some)
  have "d < hv_domain_count h" using pok i hv_okD(22) [OF ok] by (auto simp: pm_ok_def pm_counts_def)
  moreover have "r < hv_domain_count h" using gt_ok_entry(1) [OF gok e] hv_okD(21) [OF ok] by simp
  moreover have "\<not> dead (life h) d" "\<not> dead (life h) r" using hv_okD(10) [OF ok] e off unfolding gt_tenants_def by blast+
  ultimately have dl: "is_live h d" "is_live h r" using not_dead_live [OF ok] by blast+
  from gt_unmap_Ok [OF gok] live named obtain m1 f1 ro1 g1 where
    g1: "gt_unmap (grant h) r hn = (Ok \<lparr>um_frame = f1, um_writable = m_writable m1\<rparr>, g1)" "gt_live (grant h) = add_mset m1 (gt_live g1)"
      "gt_offer (grant h) (m_grantor m1) (m_gref m1) = Some (r, f1, ro1)" "gt_named r hn m1" by blast
  have rel1: "gt_released (grant h) m1 = \<lparr>um_frame = f1, um_writable = m_writable m1\<rparr>" using g1(3) by (simp add: gt_released_def)
  have "map_ref (gt_released (grant h) m1) \<in># gt_refs (grant h)" by (simp add: gt_refs_def g1(2))
  from p2m_mirror_effect [OF pok this] obtain p1 where p1: "p2m_mirror (p2m h) (gt_released (grant h) m1) = Some p1" by blast
  have "\<forall>x \<in># gt_live g1. \<not> gt_named r hn x" using gt_named_unique [OF gok g1(2) _ g1(4)] by blast
  then have "gt_mapping_at g1 r hn = None" by (simp add: gt_mapping_at_def gt_find_None)
  moreover have "dispatch h r (GrantUnmap hn) = (Ok Done, h\<lparr>grant := g1, p2m := p1\<rparr>)"
    using is_live_facts(3) [OF ok dl(2)] g1(1) p1 by (simp add: grant_unmap_def rel1)
  ultimately have "\<exists>h'. dispatch h r (GrantUnmap hn) = (Ok Done, h') \<and> gt_mapping_at (grant h') r hn = None" by simp
  moreover have "dispatch h d (P2mFree f) = (Err (P2m P2mError.InUse), h)"
    using is_live_facts(3) [OF ok dl(1)] free by (simp add: in_p2m_def)
  ultimately show ?thesis using off own wr by (intro exI [of _ f]) (simp add: gt_granted_frame_iff)
qed

theorem hv_mapping_backed_witness:
  "\<exists>h. gt_mapping_at (grant h) 1 0 = Some (0, 0, True) \<and> (\<exists>f. pm_current_type (p2m h) f = Some PageType.Writable \<and>
     dispatch h 0 (P2mFree f) = (Err (P2m P2mError.InUse), h))"
proof -
  define h where "h = hv_run [Guest 0 (DomainCreate 1 False), Guest 0 (P2mAllocate 0), Guest 0 (GrantAccess 0 1 0 False),
       Guest 1 (GrantMap 0 0 True)] (hv_new 2 2 2 1 1 2 1)"
  have start: "hv_start (hv_new 2 2 2 1 1 2 1)" by (rule hv_startI) simp_all
  have c: "gt_mapping_at (grant h) 1 0 = Some (0, 0, True)" unfolding h_def by code_simp
  from hv_mapping_backed [OF start h_def c] c show ?thesis by auto
qed

text \<open>
  C6: authority is never conjured up. In any reachable state a single transition, by anybody, makes
  \<open>a\<close> a new controller of \<open>b\<close> only if it is \<open>a\<close>'s own creation of the dead slot \<open>b\<close>, which needs
  the creation capability, or a delegation to the live domain \<open>a\<close> by a domain that controls \<open>b\<close>
  already; the creation capability is only passed on by a holder to its child; a slot comes to life
  only by such a creation; and it dies only by its own hand or that of a controller. Nor is authority
  lost otherwise: the creation capability goes only with its holder's destruction; an edge over \<open>b\<close>
  goes only in a revocation by a live controller of \<open>b\<close> that the lost holder descends from, through
  the domain named, or in an authorised destruction of \<open>b\<close>, of the holder, or of a domain the holder
  had its control through.
\<close>

theorem hv_authority_confined:
  assumes "hv_start h0" and "h = hv_run trs h0" and "h' = snd (hv_apply h tr)"
  shows "(\<forall>a b. hv_controls h' a b \<and> \<not> hv_controls h a b \<longrightarrow>
       (\<exists>may. tr = Guest a (DomainCreate b may) \<and> is_live h a \<and> hv_may_create h a \<and> \<not> is_live h b) \<or>
       (\<exists>d. tr = Guest d (ControlGrant b a) \<and> is_live h d \<and> hv_controls h d b \<and> is_live h a)) \<and>
     (\<forall>a. hv_may_create h' a \<and> \<not> hv_may_create h a \<longrightarrow>
       (\<exists>d. tr = Guest d (DomainCreate a True) \<and> is_live h d \<and> hv_may_create h d \<and> \<not> is_live h a)) \<and>
     (\<forall>a. is_live h' a \<and> \<not> is_live h a \<longrightarrow>
       (\<exists>d may. tr = Guest d (DomainCreate a may) \<and> is_live h d \<and> hv_may_create h d)) \<and>
     (\<forall>a. is_live h a \<and> \<not> is_live h' a \<longrightarrow>
       (\<exists>d now. tr = Guest d (DomainDestroy a now) \<and> is_live h d \<and> (d = a \<or> hv_controls h d a))) \<and>
     (\<forall>a. hv_may_create h a \<and> \<not> hv_may_create h' a \<longrightarrow>
       (\<exists>d now. tr = Guest d (DomainDestroy a now) \<and> is_live h d \<and> (d = a \<or> hv_controls h d a))) \<and>
     (\<forall>a b. hv_controls h a b \<and> \<not> hv_controls h' a b \<longrightarrow>
       (\<exists>d frm. tr = Guest d (ControlRevoke b frm) \<and> is_live h d \<and> hv_controls h d b \<and>
          descends (controls h) b d frm \<and> descends (controls h) b frm a) \<or>
       (\<exists>d t now. tr = Guest d (DomainDestroy t now) \<and> is_live h d \<and> (d = t \<or> hv_controls h d t) \<and>
          (b = t \<or> descends (controls h) b t a)))"
proof -
  have ok: "hv_ok h" using hv_run_ok [OF assms(1)] assms(2) by simp
  show ?thesis
  proof (cases "\<exists>d call. tr = Guest d call \<and> is_live h d \<and> lifecycle_call call")
    case False
    then have "same_authority h h'" using authority_kept [OF ok, of tr] assms(3) by blast
    from same_authority_queries [OF this] show ?thesis by simp
  next
    case True
    then obtain d call where tr: "tr = Guest d call" and live: "is_live h d" and lc: "lifecycle_call call" by blast
    have d: "d < hv_domain_count h" using is_live_facts(1) [OF ok live] .
    have h': "h' = snd (hv_call h d call)" using assms(3) tr hv_apply_state(2) [OF ok live] by simp
    from lc show ?thesis
    proof (cases call)
      case (DomainCreate t may)
      show ?thesis
      proof (cases "t < hv_domain_count h \<and> hv_may_create h d \<and> \<not> is_live h t")
        case True
        then have "h' = h\<lparr>life := (life h)[t := Live], may_create := (may_create h)[t := may],
              controls := tbl_set (controls h) d t Root\<rparr>"
          using h' DomainCreate by (simp add: domain_create_cases [OF ok d])
        moreover have "\<not> hv_may_create h t"
          using hv_okD(13) [OF ok] not_dead_live [OF ok] True unfolding mc_tenants_def hv_may_create_eq by blast
        ultimately show ?thesis using create_queries [OF ok _ d, of t h' may] True live tr DomainCreate by auto
      qed (use h' DomainCreate in \<open>auto simp: domain_create_cases [OF ok d]\<close>)
    next
      case (DomainDestroy t now)
      then have "h' = snd (domain_destroy h d t now)" using h' by simp
      note lose = destroy_loses [OF ok d this]
      show ?thesis using lose(1-3) live by (auto simp: tr DomainDestroy dest: lose(4-6))
    next
      case (ControlGrant t to)
      with h' have "h' = h \<or> t < hv_domain_count h \<and> to < hv_domain_count h \<and> hv_controls h d t \<and> is_live h to \<and>
          h' = h\<lparr>controls := tbl_set (controls h) to t (Via d)\<rparr>"
        by (auto simp: control_grant_cases [OF ok d])
      with live tr ControlGrant delegate_queries [OF ok] show ?thesis by auto
    next
      case (ControlRevoke t frm)
      then have "h' = snd (control_revoke h d t frm)" using h' by simp
      note lose = revoke_loses [OF ok d this]
      from lose(3,4) live show ?thesis unfolding lose(1,2) tr ControlRevoke by blast
    qed (simp_all add: lifecycle_call_def)
  qed
qed

theorem hv_authority_confined_witness:
  "\<exists>h h'. h' = snd (hv_apply h (Guest 0 (ControlGrant 2 1))) \<and> hv_controls h' 1 2 \<and> \<not> hv_controls h 1 2 \<and>
     ((\<exists>may. Guest 0 (ControlGrant 2 1) = Guest 1 (DomainCreate 2 may) \<and> hv_may_create h 1) \<or>
      (\<exists>d. Guest 0 (ControlGrant 2 1) = Guest d (ControlGrant 2 1) \<and> hv_controls h d 2 \<and> is_live h 1))"
proof -
  define h where "h = hv_run [Guest 0 (DomainCreate 1 False), Guest 0 (DomainCreate 2 False)] (hv_new 3 1 1 1 1 1 1)"
  have start: "hv_start (hv_new 3 1 1 1 1 1 1)" by (rule hv_startI) simp_all
  have c: "hv_controls (snd (hv_apply h (Guest 0 (ControlGrant 2 1)))) 1 2 \<and> \<not> hv_controls h 1 2" unfolding h_def by code_simp
  from conjunct1 [OF hv_authority_confined [OF start h_def refl, of "Guest 0 (ControlGrant 2 1)"], rule_format, OF c] c
  show ?thesis by blast
qed

text \<open>
  C7: memory changes hands only by consent. In any reachable state a single transition changes the
  owner of a frame only if it is the allocation of a free frame by its new owner, the release of the
  frame by its owner, or the destruction of the owner by itself or by a controller.
\<close>

theorem hv_ownership_confined:
  assumes "hv_start h0" and "h = hv_run trs h0" and "h' = snd (hv_apply h tr)"
    and "pm_owner_of (p2m h') m \<noteq> pm_owner_of (p2m h) m"
  shows "(\<exists>d. tr = Guest d (P2mAllocate m) \<and> pm_owner_of (p2m h) m = None \<and> pm_owner_of (p2m h') m = Some d) \<or>
     (\<exists>d. tr = Guest d (P2mFree m) \<and> pm_owner_of (p2m h) m = Some d \<and> pm_owner_of (p2m h') m = None) \<or>
     (\<exists>d t now. tr = Guest d (DomainDestroy t now) \<and> pm_owner_of (p2m h) m = Some t \<and> pm_owner_of (p2m h') m = None \<and>
        (d = t \<or> hv_controls h d t))"
proof -
  have ok: "hv_ok h" using hv_run_ok [OF assms(1)] assms(2) by simp
  show ?thesis
  proof (cases tr)
    case (RaiseVcpuVirq d v q)
    then show ?thesis
      using signal_owners(3) [of h d v q] assms(3,4) hv_apply_state(3) [OF ok] by (simp add: yields_def same_owners_def)
  next
    case (Guest d call)
    have live: "is_live h d" by (rule ccontr) (use assms(3,4) Guest hv_apply_state(1) [OF ok, of d call] in simp)
    have d: "d < hv_domain_count h" using is_live_facts(1) [OF ok live] .
    have h': "h' = snd (hv_call h d call)" using assms(3) Guest hv_apply_state(2) [OF ok live] by simp
    have "ownership_call call" using hv_call_owners [OF ok, of call d] h' assms(4) by (auto simp: same_owners_def)
    then show ?thesis
    proof (cases call)
      case (P2mAllocate k)
      then show ?thesis
        using pm_allocate_owner [of "p2m h" d k m] h' assms(4) Guest by (auto simp: in_p2m_def)
    next
      case (P2mFree k)
      then show ?thesis
        using pm_free_owner [of "p2m h" d k m] h' assms(4) Guest by (auto simp: in_p2m_def)
    next
      case (DomainDestroy t now)
      with domain_destroy_cases [OF ok d, of t now] h' assms(4) have "destroyed t h h' \<and> (d = t \<or> hv_controls h d t)"
        by (auto split: if_splits)
      then show ?thesis using assms(4) Guest DomainDestroy by (auto simp: destroyed_def split: if_splits)
    qed (simp_all add: ownership_call_def)
  qed
qed

theorem hv_ownership_confined_witness:
  "\<exists>h h'. h' = snd (hv_apply h (Guest 0 (DomainDestroy 1 3))) \<and> pm_owner_of (p2m h) 0 = Some 1 \<and>
     pm_owner_of (p2m h') 0 = None \<and> hv_controls h 0 1"
proof -
  define h where "h = hv_run [Guest 0 (DomainCreate 1 False), Guest 1 (P2mAllocate 0)] (hv_new 2 1 1 1 1 1 1)"
  define h' where "h' = snd (hv_apply h (Guest 0 (DomainDestroy 1 3)))"
  have start: "hv_start (hv_new 2 1 1 1 1 1 1)" by (rule hv_startI) simp_all
  have c: "pm_owner_of (p2m h) 0 = Some 1" "pm_owner_of (p2m h') 0 = None" unfolding h'_def h_def by code_simp+
  then have "pm_owner_of (p2m h') 0 \<noteq> pm_owner_of (p2m h) 0" by simp
  from hv_ownership_confined [OF start h_def h'_def this] c have "hv_controls h 0 1" by auto
  with c h'_def show ?thesis by blast
qed

text \<open>
  C8: the gates. Nobody but a live domain in range gets past the front door, and over another domain
  \<open>t\<close> only a controller of \<open>t\<close> may destroy it, move its vCPUs, take a device from it, give it one, or
  hand out or withdraw control of it; every refusal returns the documented error and the state as it
  was.
\<close>

theorem hv_gates:
  assumes "hv_start h0" and "h = hv_run trs h0"
  shows "(\<not> is_live h d \<longrightarrow>
       dispatch h d call = (Err (if d < hv_domain_count h then NotAlive else HvError.BadDomain), h)) \<and>
     (is_live h d \<and> t < hv_domain_count h \<and> to < hv_domain_count h \<and> \<not> hv_controls h d t \<longrightarrow>
       dispatch h d (ControlGrant t to) = (Err Denied, h) \<and>
       dispatch h d (ControlRevoke t to) = (Err Denied, h) \<and>
       dispatch h d (DeviceAssign dev t) = (Err Denied, h) \<and>
       (d \<noteq> t \<longrightarrow> dispatch h d (DomainDestroy t now) = (Err Denied, h) \<and>
          dispatch h d (SchedSetAffinity t v mm) = (Err Denied, h) \<and>
          dispatch h d (DeviceRelease dev t) = (Err Denied, h))) \<and>
     (is_live h d \<and> t < hv_domain_count h \<and> \<not> hv_may_create h d \<longrightarrow>
       dispatch h d (DomainCreate t may) = (Err Denied, h))"
proof -
  have ok: "hv_ok h" using hv_run_ok [OF assms(1)] assms(2) by simp
  have "dispatch h d call = (Err (if d < hv_domain_count h then NotAlive else HvError.BadDomain), h)" if "\<not> is_live h d"
    using that hv_okD(18) [OF ok] by (auto simp: dispatch_def route_def is_live_def vec_get_def)
  moreover have "dispatch h d (ControlGrant t to) = (Err Denied, h) \<and>
       dispatch h d (ControlRevoke t to) = (Err Denied, h) \<and>
       dispatch h d (DeviceAssign dev t) = (Err Denied, h) \<and>
       (d \<noteq> t \<longrightarrow> dispatch h d (DomainDestroy t now) = (Err Denied, h) \<and>
          dispatch h d (SchedSetAffinity t v mm) = (Err Denied, h) \<and>
          dispatch h d (DeviceRelease dev t) = (Err Denied, h))"
    if live: "is_live h d" and t: "t < hv_domain_count h" "to < hv_domain_count h" and c: "\<not> hv_controls h d t"
  proof -
    have d: "d < hv_domain_count h" using is_live_facts(1) [OF ok live] .
    note gate = need_control_eq [OF ok d t(1)] is_live_facts(3) [OF ok live]
    show ?thesis
      using t c d control_revoke_cases [OF ok d, of t to]
      by (simp add: gate control_grant_def device_assign_def device_release_def domain_destroy_def sched_set_affinity_def Let_def)
  qed
  moreover have "dispatch h d (DomainCreate t may) = (Err Denied, h)"
    if live: "is_live h d" and "t < hv_domain_count h" "\<not> hv_may_create h d"
    using that is_live_facts(1,3) [OF ok live] by (simp add: domain_create_cases [OF ok])
  ultimately show ?thesis by blast
qed

theorem hv_gates_witness:
  "\<exists>h. is_live h 1 \<and> \<not> is_live h 2 \<and> dispatch h 2 (EvtchnSend 0) = (Err NotAlive, h) \<and>
     dispatch h 1 (DomainDestroy 0 5) = (Err Denied, h) \<and> dispatch h 1 (SchedSetAffinity 0 0 1) = (Err Denied, h)"
proof -
  define h where "h = hv_run [Guest 0 (DomainCreate 1 False)] (hv_new 3 1 1 1 1 1 1)"
  have start: "hv_start (hv_new 3 1 1 1 1 1 1)" by (rule hv_startI) simp_all
  have c: "is_live h 1" "\<not> is_live h 2" "hv_domain_count h = 3" "\<not> hv_controls h 1 0" unfolding h_def by code_simp+
  from hv_gates [OF start h_def, of 2 "EvtchnSend 0" 0 0 0 0 0 0 False] c
  have "dispatch h 2 (EvtchnSend 0) = (Err NotAlive, h)" by simp
  moreover from hv_gates [OF start h_def, of 1 "EvtchnSend 0" 0 0 0 5 0 1 False] c
  have "dispatch h 1 (DomainDestroy 0 5) = (Err Denied, h) \<and> dispatch h 1 (SchedSetAffinity 0 0 1) = (Err Denied, h)" by simp
  ultimately show ?thesis using c by blast
qed

text \<open>
  C11: signals get through. In any reachable state a live domain's send over an interdomain channel or
  an IPI is accepted; if the receiving port is not masked the event is deliverable afterwards and the
  vCPU it notifies, if it was blocked, is runnable; the run state of no other vCPU changes and every
  port keeps its binding.
\<close>

theorem hv_send_wakes:
  assumes "hv_start h0" and "h = hv_run trs h0" and "is_live h d" and "ev_send_target (evtchn h) d p = Some (t, q)"
    and "\<not> ev_is_masked (evtchn h) t q" and "ev_notify_target (evtchn h) t q = Some v"
  shows "\<exists>h'. dispatch h d (EvtchnSend p) = (Ok Done, h') \<and> ev_deliverable (evtchn h') t q \<and>
     (\<forall>d' v'. sc_state_of (sched h') d' v' =
        (if (d', v') = (t, v) \<and> sc_state_of (sched h) t v = Some Blocked then Some Runnable
         else sc_state_of (sched h) d' v')) \<and>
     (\<forall>d' q'. ev_state_of (evtchn h') d' q' = ev_state_of (evtchn h) d' q')"
proof -
  have ok: "hv_ok h" using hv_run_ok [OF assms(1)] assms(2) by simp
  from ev_send_target_Some [OF assms(4) hv_okD(1) [OF ok]] obtain c where
    c: "ev_get (evtchn h) t q = Some c" "ec_state c \<noteq> PortState.Free" by blast
  define e where "e = ev_put (evtchn h) t q (c\<lparr>pending := True\<rparr>)"
  have sent: "ev_send (evtchn h) d p = (Ok (), e)"
    using assms(4) c by (auto simp: ev_send_def e_def ev_chan_mut_Some ev_send_target_def ev_state_of_def split: result.splits option.splits)
  have sig: "ev_signal (evtchn h) t q e" 
    unfolding ev_signal_def e_def using c by (intro exI [of _ c] exI [of _ "c\<lparr>pending := True\<rparr>"]) auto
  note st = ev_signal_state [OF sig]
  have del: "ev_deliverable e t q" using c assms(5) by (simp add: e_def ev_deliverable_eq ev_is_masked_def ev_chan_eq ev.get_put)
  have tgt: "ev_send_target e d p = Some (t, q)" "ev_notify_target e t q = Some v"
    using assms(4,6) unfolding ev_send_target_def ev_notify_target_def st by simp_all
  have "dispatch h d (EvtchnSend p) = (Ok Done, h\<lparr>evtchn := e, sched := snd (sc_wake (sched h) t v)\<rparr>)"
  proof -
    obtain r s1 where w: "sc_wake (sched h) t v = (r, s1)" by (cases "sc_wake (sched h) t v")
    then have "r \<noteq> Panic" using sc_wake_wb [OF hv_okD(2) [OF ok], of t v] by (simp add: well_behaved_def)
    then show ?thesis
      using is_live_facts(3) [OF ok assms(3)]
      by (cases r) (simp_all add: evtchn_send_def sent tgt wake_if_deliverable_def del w Let_def)
  qed
  then show ?thesis using del st sc_wake_states [of "sched h" t v] by simp
qed

theorem hv_send_wakes_witness:
  "\<exists>h h'. sc_state_of (sched h) 1 0 = Some Blocked \<and> dispatch h 0 (EvtchnSend 0) = (Ok Done, h') \<and>
     ev_deliverable (evtchn h') 1 0 \<and> sc_state_of (sched h') 1 0 = Some Runnable"
proof -
  define h where "h = hv_run [Guest 0 (DomainCreate 1 False), Guest 0 (EvtchnAllocUnbound 1), Guest 1 (EvtchnBindInterdomain 0 0),
       Guest 1 (SchedAdmit 0), Guest 1 (SchedRun 0 0 1), Guest 1 (SchedBlock 0 2)] (hv_new 2 2 1 1 1 1 1)"
  have start: "hv_start (hv_new 2 2 1 1 1 1 1)" by (rule hv_startI) simp_all
  have c: "is_live h 0" "ev_send_target (evtchn h) 0 0 = Some (1, 0)" "\<not> ev_is_masked (evtchn h) 1 0"
    "ev_notify_target (evtchn h) 1 0 = Some 0" "sc_state_of (sched h) 1 0 = Some Blocked" unfolding h_def by code_simp+
  from hv_send_wakes [OF start h_def c(1-4)] c(5) show ?thesis by auto
qed

text \<open>
  C10: a new tenant starts clean. When a creation succeeds the slot was dead; the new domain is live,
  holds no port, vCPU, grant, mapping or frame, nothing refers to it, its only controller is its
  creator, it controls nobody, and it may create domains only if its creator said so. No other
  domain's liveness, control edges or creation right change, and no other subsystem is touched, the
  credit accounts included: no balance changes, and so the one thing the new domain takes over from
  the slot is the balance of its account (\<open>hv_credit_survives\<close>).
\<close>

theorem hv_reborn_fresh:
  assumes "hv_start h0" and "h = hv_run trs h0" and "dispatch h d (DomainCreate t may) = (Ok Done, h')"
  shows "life_of h t = Some Dead \<and> is_live h' t \<and> is_clean_shell h' t \<and> is_unreferenced h' t \<and> hv_may_create h' t = may \<and>
     (\<forall>a. (hv_controls h' a t \<longleftrightarrow> a = d) \<and> \<not> hv_controls h' t a) \<and>
     (\<forall>a. a \<noteq> t \<longrightarrow> is_live h' a = is_live h a \<and> hv_may_create h' a = hv_may_create h a \<and>
        (\<forall>b. b \<noteq> t \<longrightarrow> hv_controls h' a b = hv_controls h a b)) \<and>
     evtchn h' = evtchn h \<and> grant h' = grant h \<and> sched h' = sched h \<and> p2m h' = p2m h \<and> device h' = device h \<and>
     credit h' = credit h \<and> (\<forall>a. hv_balance h' a = hv_balance h a)"
proof -
  have ok: "hv_ok h" using hv_run_ok [OF assms(1)] assms(2) by simp
  have live: "is_live h d" using route_cases [OF ok, of d "DomainCreate t may"] assms(3) by (auto simp: dispatch_def)
  note d = is_live_facts(1) [OF ok live]
  have t: "t < hv_domain_count h" "\<not> is_live h t" and
    e: "h' = h\<lparr>life := (life h)[t := Live], may_create := (may_create h)[t := may], controls := tbl_set (controls h) d t Root\<rparr>"
    using assms(3) by (auto simp: is_live_facts(3) [OF ok live] domain_create_cases [OF ok d] split: if_splits)
  have dead: "dead (life h) t" using not_dead_live [OF ok] t by blast
  have edges: "\<not> hv_controls h a t" "\<not> hv_controls h t a" for a
    using hv_okD(14) [OF ok] dead unfolding ctl_tenants_def hv_controls_eq by blast+
  have clean: "is_clean_shell h' t" "is_unreferenced h' t"
    using dead_clean [OF ok dead] by (simp_all add: e is_clean_shell_def is_unreferenced_def)
  have dt: "d \<noteq> t" using live t by blast
  have "life_of h t = Some Dead" using dead by (simp add: life_of_def dead_def)
  moreover have "hv_balance h' a = hv_balance h a" for a by (simp add: e hv_balance_def)
  ultimately show ?thesis using clean edges t dt create_queries [OF ok t(1) d e] e by auto
qed

theorem hv_reborn_fresh_witness:
  "\<exists>h h'. dispatch h 0 (DomainCreate 1 False) = (Ok Done, h') \<and> is_clean_shell h' 1 \<and> is_unreferenced h' 1 \<and>
     \<not> hv_controls h' 2 1 \<and> pm_owner_of (p2m h') 0 = None"
proof -
  define h where "h = hv_run [Guest 0 (DomainCreate 1 False), Guest 0 (DomainCreate 2 False), Guest 0 (ControlGrant 1 2),
       Guest 1 (P2mAllocate 0), Guest 2 (DomainDestroy 1 5)] (hv_new 3 1 1 1 1 1 1)"
  define h' where "h' = snd (dispatch h 0 (DomainCreate 1 False))"
  have start: "hv_start (hv_new 3 1 1 1 1 1 1)" by (rule hv_startI) simp_all
  have c: "dispatch h 0 (DomainCreate 1 False) = (Ok Done, h')" "pm_owner_of (p2m h') 0 = None" unfolding h'_def h_def by code_simp+
  have "is_clean_shell h' 1 \<and> is_unreferenced h' 1 \<and> \<not> hv_controls h' 2 1"
    using hv_reborn_fresh [OF start h_def c(1)] by simp
  with c show ?thesis by blast
qed

text \<open>
  C9: revocation takes back exactly the subtree. When a controller of \<open>t\<close> revokes the control of \<open>frm\<close>,
  \<open>frm\<close> descends from it in the delegation tree of \<open>t\<close>; afterwards exactly the edges over \<open>t\<close> that
  descend from \<open>frm\<close> are gone, nothing else of the authority relation has changed, and the cascade
  loop has ended.
\<close>

theorem hv_revoke_exact:
  assumes "hv_start h0" and "h = hv_run trs h0" and "is_live h d" and "hv_controls h d t" and "frm < hv_domain_count h"
  shows "dispatch h d (ControlRevoke t frm) \<noteq> (Panic, h) \<and>
     (if descends (controls h) t d frm
      then \<exists>h'. dispatch h d (ControlRevoke t frm) = (Ok Done, h') \<and> h' = h\<lparr>controls := controls h'\<rparr> \<and>
         (\<forall>a b. hv_controls h' a b \<longleftrightarrow> hv_controls h a b \<and> \<not> (b = t \<and> descends (controls h) t frm a)) \<and>
         (\<forall>a b. hv_controls h' a b \<longrightarrow> control_edge h' a b = control_edge h a b)
      else dispatch h d (ControlRevoke t frm) = (Err Denied, h))"
proof -
  have ok: "hv_ok h" using hv_run_ok [OF assms(1)] assms(2) by simp
  note live = is_live_facts [OF ok assms(3)] and sq = hv_okD(7) [OF ok]
  have t: "t < hv_domain_count h" using assms(4) ctl_edge_out [OF sq] unfolding hv_controls_eq by blast
  show ?thesis
  proof (cases "descends (controls h) t d frm")
    case True
    with control_revoke_cases [OF ok live(1), of t frm] t assms(4,5) obtain c where
      c: "control_revoke h d t frm = (Ok Done, h\<lparr>controls := c\<rparr>)" "ctl_below (controls h) c"
        "\<And>a b. ctl_edge c a b \<noteq> Absent \<longleftrightarrow> (\<exists>k. rooted (tbl_set (controls h) frm t Absent) b k a)" by auto
    have "ctl_edge c a b \<noteq> Absent \<longleftrightarrow> ctl_edge (controls h) a b \<noteq> Absent \<and> \<not> (b = t \<and> descends (controls h) t frm a)" for a b
      unfolding c(3) by (rule rooted_cut [OF sq hv_okD(6) [OF ok] assms(5) t])
    moreover have "ctl_edge c a b \<noteq> Absent \<Longrightarrow> ctl_edge c a b = ctl_edge (controls h) a b" for a b
      using c(2) unfolding ctl_below_def by blast
    ultimately show ?thesis using True c(1) live(3) by (simp add: hv_controls_eq control_edge_eq)
  next
    case False
    with control_revoke_cases [OF ok live(1), of t frm] t assms(5) live(3) show ?thesis by auto
  qed
qed

theorem hv_revoke_exact_witness:
  "\<exists>h h'. dispatch h 0 (ControlRevoke 1 2) = (Ok Done, h') \<and> hv_controls h 2 1 \<and> hv_controls h 3 1 \<and>
     \<not> hv_controls h' 2 1 \<and> \<not> hv_controls h' 3 1 \<and> hv_controls h' 0 1"
proof -
  define h where "h = hv_run [Guest 0 (DomainCreate 1 False), Guest 0 (DomainCreate 2 False), Guest 0 (DomainCreate 3 False),
       Guest 0 (ControlGrant 1 2), Guest 2 (ControlGrant 1 3)] (hv_new 4 1 1 1 1 1 1)"
  have start: "hv_start (hv_new 4 1 1 1 1 1 1)" by (rule hv_startI) simp_all
  have c: "is_live h 0" "hv_controls h 0 1" "2 < hv_domain_count h" "ctl_edge (controls h) 2 1 = Via 0" "ctl_edge (controls h) 3 1 = Via 2"
    "ctl_edge (controls h) 0 1 = Root" unfolding h_def by code_simp+
  have "descends (controls h) 1 0 2" "descends (controls h) 1 2 3" using c by (blast intro: descends.intros)+
  moreover have "\<not> descends (controls h) 1 2 0" using c by (auto elim: descends.cases)
  moreover note hv_revoke_exact [OF start h_def c(1,2,3)]
  ultimately obtain h' where "dispatch h 0 (ControlRevoke 1 2) = (Ok Done, h')"
    "\<And>a b. hv_controls h' a b \<longleftrightarrow> hv_controls h a b \<and> \<not> (b = 1 \<and> descends (controls h) 1 2 a)" by auto
  moreover have "hv_controls h 2 1" "hv_controls h 3 1" using c by (simp_all add: hv_controls_eq)
  ultimately show ?thesis
    using \<open>descends (controls h) 1 2 3\<close> \<open>\<not> descends (controls h) 1 2 0\<close> c(2) descends_self [of "controls h" 1 2] by blast
qed

text \<open>
  The credit account is the one thing a new tenant inherits: neither the destruction of a domain
  nor the creation of another in its slot touches any balance.
\<close>

theorem hv_credit_survives:
  assumes "hv_start h0" and "h = hv_run trs h0" and "hv_controls h d t" and "is_live h d" and "d \<noteq> t" and "hv_may_create h d"
  shows "\<exists>h1 h2. dispatch h d (DomainDestroy t now) = (Ok Done, h1) \<and> dispatch h1 d (DomainCreate t may) = (Ok Done, h2) \<and>
     (\<forall>a. hv_balance h2 a = hv_balance h a)"
proof -
  have ok: "hv_ok h" using hv_run_ok [OF assms(1)] assms(2) by simp
  have t: "t < hv_domain_count h" using assms(3) ctl_edge_out [OF hv_okD(7) [OF ok]] unfolding hv_controls_eq by blast
  note live = is_live_facts [OF ok assms(4)]
  from domain_destroy_cases [OF ok live(1), of t now] t assms(3) obtain h1 where
    r: "domain_destroy h d t now = (Ok Done, h1)" and D: "destroyed t h h1" by auto
  have ok1: "hv_ok h1" and cr: "credit h1 = credit h" using D by (simp_all add: destroyed_def)
  have live1: "is_live h1 d" "\<not> is_live h1 t" using destroyed_queries(3) [OF ok t D] assms(4,5) by auto
  have n1: "hv_domain_count h1 = hv_domain_count h" using cr by (simp add: hv_domain_count_def)
  have "hv_may_create h1 d" using assms(5,6) D hv_okD(19) [OF ok] by (auto simp: destroyed_def hv_may_create_eq vec_get_update)
  then have "dispatch h1 d (DomainCreate t may) = (Ok Done, h1\<lparr>life := (life h1)[t := Live], may_create := (may_create h1)[t := may],
              controls := tbl_set (controls h1) d t Root\<rparr>)"
    using live1 t n1 is_live_facts [OF ok1 live1(1)] by (simp add: domain_create_cases [OF ok1])
  then show ?thesis using r live(3) cr by (simp add: hv_balance_def)
qed

theorem hv_credit_survives_witness:
  "\<exists>h h1 h2. hv_balance h 1 = Some 7 \<and> dispatch h 0 (DomainDestroy 1 5) = (Ok Done, h1) \<and>
     dispatch h1 0 (DomainCreate 1 False) = (Ok Done, h2) \<and> hv_balance h2 1 = Some 7"
proof -
  define h where "h = hv_run [Guest 0 (DomainCreate 1 False), Guest 1 (CreditGrant 7)] (hv_new 2 1 1 1 1 1 1)"
  have start: "hv_start (hv_new 2 1 1 1 1 1 1)" by (rule hv_startI) simp_all
  have c: "hv_controls h 0 1" "is_live h 0" "(0::nat) \<noteq> 1" "hv_may_create h 0" "hv_balance h 1 = Some 7" unfolding h_def by code_simp+
  from hv_credit_survives [OF start h_def c(1-4), of 5 False] c(5) show ?thesis by metis
qed

end
